(* ===== verification/Js_Prelude.thy ===== *)
theory Js_Prelude
  imports Main "HOL-Library.Word"
begin

text \<open>
  Shared vocabulary of the development: how the model represents what the JavaScript of the
  program takes for granted. Strings are lists of UTF-16 code units, bytes are 8-bit words, the
  operands of the bitwise operators are 32-bit words (JavaScript's ToInt32 / ToUint32 patterns),
  all other numbers that occur in the modelled code are integers. A computation that may throw
  returns a \<open>run\<close>, which keeps the state reached before the exception, because JavaScript does
  not roll anything back.
\<close>

unbundle bit_operations_syntax

named_theorems run_simps \<open>evaluation of sequenced runs\<close>
named_theorems arr_simps \<open>reads and writes of typed arrays\<close>

section \<open>Strings and bytes\<close>

type_synonym code_unit = "16 word"
type_synonym jstring = "code_unit list"
type_synonym byte = "8 word"

text \<open>A string literal of the source.\<close>

definition js :: "string \<Rightarrow> jstring" where
  "js s = map of_char s"

lemma js_simps [simp]: "js [] = []" "js (c # s) = of_char c # js s" "js (s @ t) = js s @ js t"
  by (simp_all add: js_def)

lemma length_js [simp]: "length (js s) = length s"
  by (simp add: js_def)

text \<open>Decimal rendering of an integer, as string concatenation does it.\<close>

fun nat_digits :: "nat \<Rightarrow> jstring" where
  "nat_digits n = (if n < 10 then [of_nat (48 + n)]
     else nat_digits (n div 10) @ [of_nat (48 + n mod 10)])"

declare nat_digits.simps [simp del]

definition js_of_int :: "int \<Rightarrow> jstring" where
  "js_of_int i = (if i < 0 then js ''-'' @ nat_digits (nat (- i)) else nat_digits (nat i))"

section \<open>Inherited members\<close>

text \<open>Members every object inherits (ECMAScript 5.1, 15.2.4), with those that browsers add (Annex B of later editions).\<close>

definition object_prototype :: "string list" where
  "object_prototype = [''constructor'', ''toString'', ''toLocaleString'', ''valueOf'',
     ''hasOwnProperty'', ''isPrototypeOf'', ''propertyIsEnumerable'', ''__proto__'',
     ''__defineGetter__'', ''__defineSetter__'', ''__lookupGetter__'', ''__lookupSetter__'']"

section \<open>Runs: a computation that may throw\<close>

datatype js_error = TypeError | RangeError | Thrown string

datatype 's run = Done 's | Threw js_error 's

fun and_then :: "'s run \<Rightarrow> ('s \<Rightarrow> 's run) \<Rightarrow> 's run" where
  "and_then (Done s) f = f s"
| "and_then (Threw e s) f = Threw e s"

fun state_of :: "'s run \<Rightarrow> 's" where
  "state_of (Done s) = s"
| "state_of (Threw e s) = s"

fun returned :: "'s run \<Rightarrow> bool" where
  "returned (Done s) = True"
| "returned (Threw e s) = False"

lemmas [run_simps] = and_then.simps state_of.simps returned.simps

lemma and_then_assoc: "and_then (and_then r f) g = and_then r (\<lambda>s. and_then (f s) g)"
  by (cases r) simp_all

lemma and_then_Done_iff:
  "and_then r f = Done t \<longleftrightarrow> (\<exists>s. r = Done s \<and> f s = Done t)"
  by (cases r) simp_all

lemma state_of_and_then:
  assumes "P (state_of r)" and "\<And>s. r = Done s \<Longrightarrow> P s \<Longrightarrow> P (state_of (f s))"
  shows "P (state_of (and_then r f))"
  using assms by (cases r) simp_all

section \<open>Array access\<close>

text \<open>Reading an index out of range yields \<open>undefined\<close>, here \<open>None\<close>.\<close>

definition arr_at :: "'a list \<Rightarrow> int \<Rightarrow> 'a option" where
  "arr_at xs i = (if 0 \<le> i \<and> i < int (length xs) then Some (xs ! nat i) else None)"

lemma arr_at_Some_iff [arr_simps]:
  "arr_at xs i = Some x \<longleftrightarrow> 0 \<le> i \<and> i < int (length xs) \<and> x = xs ! nat i"
  by (auto simp: arr_at_def)

lemma arr_at_None_iff [arr_simps]: "arr_at xs i = None \<longleftrightarrow> i < 0 \<or> int (length xs) \<le> i"
  by (auto simp: arr_at_def)

lemma arr_at_nat [simp]: "arr_at xs (int i) = (if i < length xs then Some (xs ! i) else None)"
  by (simp add: arr_at_def)

section \<open>Parts of blobs and typed arrays\<close>

text \<open>\<open>slice\<close> and \<open>subarray\<close> clamp their bounds and count negative ones from the end.\<close>

definition rel_index :: "nat \<Rightarrow> int \<Rightarrow> nat" where
  "rel_index n i = (if i < 0 then nat (max (int n + i) 0) else nat (min i (int n)))"

definition rel_slice :: "'a list \<Rightarrow> int \<Rightarrow> int \<Rightarrow> 'a list" where
  "rel_slice bs a b =
     (let i = rel_index (length bs) a; j = rel_index (length bs) b in take (j - i) (drop i bs))"

lemma rel_slice_exact:
  assumes "0 \<le> i" "0 \<le> n" "i + n \<le> int (length bs)"
  shows "rel_slice bs i (i + n) = take (nat n) (drop (nat i) bs)"
  using assms by (simp add: rel_slice_def rel_index_def nat_add_distrib)

lemma rel_slice_nat:
  assumes "i + n \<le> length bs"
  shows "rel_slice bs (int i) (int i + int n) = take n (drop i bs)"
  using rel_slice_exact [of "int i" "int n" bs] assms by simp

section \<open>String.prototype.split and Array.prototype.join\<close>

text \<open>
  \<open>split d\<close> cuts at the leftmost non-overlapping occurrences of a non-empty separator and always
  returns at least one piece.
\<close>

fun split_from :: "'a list \<Rightarrow> 'a list \<Rightarrow> 'a list \<Rightarrow> 'a list list" where
  "split_from d acc [] = [rev acc]"
| "split_from d acc (x # xs) =
     (if take (length d) (x # xs) = d
      then rev acc # split_from d [] (drop (length d - 1) xs)
      else split_from d (x # acc) xs)"

definition js_split :: "'a list \<Rightarrow> 'a list \<Rightarrow> 'a list list" where
  "js_split d s = split_from d [] s"

fun js_join :: "'a list \<Rightarrow> 'a list list \<Rightarrow> 'a list" where
  "js_join d [] = []"
| "js_join d [p] = p"
| "js_join d (p # q # ps) = p @ d @ js_join d (q # ps)"

lemma split_from_nonempty [simp]: "split_from d acc s \<noteq> []"
  by (induction d acc s rule: split_from.induct) auto

lemma js_join_Cons: "ps \<noteq> [] \<Longrightarrow> js_join d (p # ps) = p @ d @ js_join d ps"
  by (cases ps) auto

lemma join_split_from:
  "d \<noteq> [] \<Longrightarrow> js_join d (split_from d acc s) = rev acc @ s"
proof (induction d acc s rule: split_from.induct)
  case (1 d acc)
  then show ?case by simp
next
  case (2 d acc x xs)
  show ?case
  proof (cases "take (length d) (x # xs) = d")
    case True
    have "d @ drop (length d - 1) xs = take (length d) (x # xs) @ drop (length d) (x # xs)"
      using True "2.prems" by (cases d) auto
    then have "d @ drop (length d - 1) xs = x # xs" by simp
    with True 2 show ?thesis by (simp add: js_join_Cons)
  next
    case False
    with 2 show ?thesis by simp
  qed
qed

lemma js_join_split: "d \<noteq> [] \<Longrightarrow> js_join d (js_split d s) = s"
  by (simp add: js_split_def join_split_from)

lemma js_split_nonempty [simp]: "js_split d s \<noteq> []"
  by (simp add: js_split_def)

text \<open>With a separator of one character, pieces that avoid it are recovered exactly.\<close>

lemma split_from_avoid:
  "c \<notin> set p \<Longrightarrow> split_from [c] acc p = [rev acc @ p]"
  by (induction p arbitrary: acc) auto

lemma split_from_sep:
  "c \<notin> set p \<Longrightarrow> split_from [c] acc (p @ c # s) = (rev acc @ p) # split_from [c] [] s"
  by (induction p arbitrary: acc) auto

lemma js_split_join:
  "ps \<noteq> [] \<Longrightarrow> \<forall>p \<in> set ps. c \<notin> set p \<Longrightarrow> js_split [c] (js_join [c] ps) = ps"
proof (induction "[c]" ps rule: js_join.induct)
  case (3 p q ps)
  then show ?case by (simp add: js_split_def split_from_sep)
qed (simp_all add: js_split_def split_from_avoid)

end
