(* ===== verification/Mime_Types.thy ===== *)
theory Mime_Types
  imports Js_Prelude
begin

text \<open>
  \<^verbatim>\<open>html/lib/mime-types.js\<close>: the table of MIME types by top-level type and subtype, its inversion
  into a map from file extensions to MIME types (built once, later entries overwriting earlier
  ones), and the lookup by file name. The JavaScript map is an ordinary object, so a name that is
  not an own property of it is still found on \<open>Object.prototype\<close>; the lookup returns such a
  member as \<open>Inherited\<close>.
\<close>

section \<open>The table\<close>

datatype mime_val = One string | Many "string list"

type_synonym mime_group = "(string \<times> mime_val) list"
type_synonym mime_table = "(string \<times> mime_group) list"

definition table_application_1 :: mime_group where
  "table_application_1 = [
     (''andrew-inset'', One ''ez''),
     (''annodex'', One ''anx''),
     (''atom+xml'', One ''atom''),
     (''atomcat+xml'', One ''atomcat''),
     (''atomserv+xml'', One ''atomsrv''),
     (''bbolin'', One ''lin''),
     (''cap'', Many [''cap'', ''pcap'']),
     (''cu-seeme'', One ''cu''),
     (''davmount+xml'', One ''davmount''),
     (''dsptype'', One ''tsp''),
     (''ecmascript'', Many [''es'', ''ecma'']),
     (''futuresplash'', One ''spl''),
     (''hta'', One ''hta''),
     (''java-archive'', One ''jar''),
     (''java-serialized-object'', One ''ser''),
     (''java-vm'', One ''class''),
     (''javascript'', One ''js''),
     (''m3g'', One ''m3g''),
     (''mac-binhex40'', One ''hqx''),
     (''mathematica'', Many [''nb'', ''ma'', ''mb'']),
     (''msaccess'', One ''mdb''),
     (''msword'', Many [''doc'', ''dot'']),
     (''mxf'', One ''mxf''),
     (''oda'', One ''oda''),
     (''ogg'', One ''ogx''),
     (''pdf'', One ''pdf''),
     (''pgp-keys'', One ''key''),
     (''pgp-signature'', Many [''asc'', ''sig'']),
     (''pics-rules'', One ''prf''),
     (''postscript'', Many [''ps'', ''ai'', ''eps'', ''epsi'', ''epsf'', ''eps2'', ''eps3'']),
     (''rar'', One ''rar''),
     (''rdf+xml'', One ''rdf''),
     (''rss+xml'', One ''rss''),
     (''rtf'', One ''rtf''),
     (''smil'', Many [''smi'', ''smil'']),
     (''xhtml+xml'', Many [''xhtml'', ''xht'']),
     (''xml'', Many [''xml'', ''xsl'', ''xsd'']),
     (''xspf+xml'', One ''xspf''),
     (''zip'', One ''zip''),
     (''vnd.android.package-archive'', One ''apk''),
     (''vnd.cinderella'', One ''cdy''),
     (''vnd.google-earth.kml+xml'', One ''kml''),
     (''vnd.google-earth.kmz'', One ''kmz''),
     (''vnd.mozilla.xul+xml'', One ''xul''),
     (''vnd.ms-excel'', Many [''xls'', ''xlb'', ''xlt'', ''xlm'', ''xla'', ''xlc'', ''xlw'']),
     (''vnd.ms-pki.seccat'', One ''cat''),
     (''vnd.ms-pki.stl'', One ''stl''),
     (''vnd.ms-powerpoint'', Many [''ppt'', ''pps'', ''pot'']),
     (''vnd.oasis.opendocument.chart'', One ''odc''),
     (''vnd.oasis.opendocument.database'', One ''odb''),
     (''vnd.oasis.opendocument.formula'', One ''odf''),
     (''vnd.oasis.opendocument.graphics'', One ''odg''),
     (''vnd.oasis.opendocument.graphics-template'', One ''otg''),
     (''vnd.oasis.opendocument.image'', One ''odi''),
     (''vnd.oasis.opendocument.presentation'', One ''odp''),
     (''vnd.oasis.opendocument.presentation-template'', One ''otp''),
     (''vnd.oasis.opendocument.spreadsheet'', One ''ods''),
     (''vnd.oasis.opendocument.spreadsheet-template'', One ''ots''),
     (''vnd.oasis.opendocument.text'', One ''odt''),
     (''vnd.oasis.opendocument.text-master'', One ''odm''),
     (''vnd.oasis.opendocument.text-template'', One ''ott''),
     (''vnd.oasis.opendocument.text-web'', One ''oth''),
     (''vnd.openxmlformats-officedocument.spreadsheetml.sheet'', One ''xlsx''),
     (''vnd.openxmlformats-officedocument.spreadsheetml.template'', One ''xltx''),
     (''vnd.openxmlformats-officedocument.presentationml.presentation'', One ''pptx''),
     (''vnd.openxmlformats-officedocument.presentationml.slideshow'', One ''ppsx''),
     (''vnd.openxmlformats-officedocument.presentationml.template'', One ''potx''),
     (''vnd.openxmlformats-officedocument.wordprocessingml.document'', One ''docx''),
     (''vnd.openxmlformats-officedocument.wordprocessingml.template'', One ''dotx''),
     (''vnd.smaf'', One ''mmf''),
     (''vnd.stardivision.calc'', One ''sdc''),
     (''vnd.stardivision.chart'', One ''sds''),
     (''vnd.stardivision.draw'', One ''sda''),
     (''vnd.stardivision.impress'', One ''sdd''),
     (''vnd.stardivision.math'', Many [''sdf'', ''smf'']),
     (''vnd.stardivision.writer'', Many [''sdw'', ''vor'']),
     (''vnd.stardivision.writer-global'', One ''sgl''),
     (''vnd.sun.xml.calc'', One ''sxc''),
     (''vnd.sun.xml.calc.template'', One ''stc''),
     (''vnd.sun.xml.draw'', One ''sxd''),
     (''vnd.sun.xml.draw.template'', One ''std''),
     (''vnd.sun.xml.impress'', One ''sxi''),
     (''vnd.sun.xml.impress.template'', One ''sti''),
     (''vnd.sun.xml.math'', One ''sxm''),
     (''vnd.sun.xml.writer'', One ''sxw''),
     (''vnd.sun.xml.writer.global'', One ''sxg''),
     (''vnd.sun.xml.writer.template'', One ''stw''),
     (''vnd.symbian.install'', Many [''sis'', ''sisx'']),
     (''vnd.visio'', Many [''vsd'', ''vst'', ''vss'', ''vsw'']),
     (''vnd.wap.wbxml'', One ''wbxml''),
     (''vnd.wap.wmlc'', One ''wmlc''),
     (''vnd.wap.wmlscriptc'', One ''wmlsc''),
     (''vnd.wordperfect'', One ''wpd''),
     (''vnd.wordperfect5.1'', One ''wp5''),
     (''x-123'', One ''wk''),
     (''x-7z-compressed'', One ''7z''),
     (''x-abiword'', One ''abw''),
     (''x-apple-diskimage'', One ''dmg''),
     (''x-bcpio'', One ''bcpio''),
     (''x-bittorrent'', One ''torrent''),
     (''x-cbr'', Many [''cbr'', ''cba'', ''cbt'', ''cb7'']),
     (''x-cbz'', One ''cbz''),
     (''x-cdf'', Many [''cdf'', ''cda'']),
     (''x-cdlink'', One ''vcd''),
     (''x-chess-pgn'', One ''pgn''),
     (''x-cpio'', One ''cpio''),
     (''x-csh'', One ''csh''),
     (''x-debian-package'', Many [''deb'', ''udeb'']),
     (''x-director'', Many [''dcr'', ''dir'', ''dxr'', ''cst'', ''cct'', ''cxt'', ''w3d'', ''fgd'', ''swa'']),
     (''x-dms'', One ''dms''),
     (''x-doom'', One ''wad''),
     (''x-dvi'', One ''dvi''),
     (''x-httpd-eruby'', One ''rhtml''),
     (''x-font'', One ''pcf.Z''),
     (''x-freemind'', One ''mm''),
     (''x-gnumeric'', One ''gnumeric''),
     (''x-go-sgf'', One ''sgf''),
     (''x-graphing-calculator'', One ''gcf''),
     (''x-gtar'', Many [''gtar'', ''taz'']),
     (''x-hdf'', One ''hdf''),
     (''x-httpd-php'', Many [''phtml'', ''pht'', ''php'']),
     (''x-httpd-php-source'', One ''phps''),
     (''x-httpd-php3'', One ''php3''),
     (''x-httpd-php3-preprocessed'', One ''php3p''),
     (''x-httpd-php4'', One ''php4''),
     (''x-httpd-php5'', One ''php5''),
     (''x-ica'', One ''ica''),
     (''x-info'', One ''info''),
     (''x-internet-signup'', Many [''ins'', ''isp'']),
     (''x-iphone'', One ''iii''),
     (''x-iso9660-image'', One ''iso''),
     (''x-java-jnlp-file'', One ''jnlp'')]"

definition table_application_2 :: mime_group where
  "table_application_2 = [
     (''x-jmol'', One ''jmz''),
     (''x-killustrator'', One ''kil''),
     (''x-koan'', Many [''skp'', ''skd'', ''skt'', ''skm'']),
     (''x-kpresenter'', Many [''kpr'', ''kpt'']),
     (''x-kword'', Many [''kwd'', ''kwt'']),
     (''x-latex'', One ''latex''),
     (''x-lha'', One ''lha''),
     (''x-lyx'', One ''lyx''),
     (''x-lzh'', One ''lzh''),
     (''x-lzx'', One ''lzx''),
     (''x-maker'', Many [''frm'', ''maker'', ''frame'', ''fm'', ''fb'', ''book'', ''fbdoc'']),
     (''x-ms-wmd'', One ''wmd''),
     (''x-ms-wmz'', One ''wmz''),
     (''x-msdos-program'', Many [''com'', ''exe'', ''bat'', ''dll'']),
     (''x-msi'', One ''msi''),
     (''x-netcdf'', Many [''nc'', ''cdf'']),
     (''x-ns-proxy-autoconfig'', Many [''pac'', ''dat'']),
     (''x-nwc'', One ''nwc''),
     (''x-object'', One ''o''),
     (''x-oz-application'', One ''oza''),
     (''x-pkcs7-certreqresp'', One ''p7r''),
     (''x-python-code'', Many [''pyc'', ''pyo'']),
     (''x-qgis'', Many [''qgs'', ''shp'', ''shx'']),
     (''x-quicktimeplayer'', One ''qtl''),
     (''x-redhat-package-manager'', One ''rpm''),
     (''x-ruby'', One ''rb''),
     (''x-sh'', One ''sh''),
     (''x-shar'', One ''shar''),
     (''x-shockwave-flash'', Many [''swf'', ''swfl'']),
     (''x-silverlight'', One ''scr''),
     (''x-stuffit'', One ''sit''),
     (''x-sv4cpio'', One ''sv4cpio''),
     (''x-sv4crc'', One ''sv4crc''),
     (''x-tar'', One ''tar''),
     (''x-tcl'', One ''tcl''),
     (''x-tex-gf'', One ''gf''),
     (''x-tex-pk'', One ''pk''),
     (''x-texinfo'', Many [''texinfo'', ''texi'']),
     (''x-trash'', Many [''~'', ''%'', ''bak'', ''old'', ''sik'']),
     (''x-troff'', Many [''t'', ''tr'', ''roff'']),
     (''x-troff-man'', One ''man''),
     (''x-troff-me'', One ''me''),
     (''x-troff-ms'', One ''ms''),
     (''x-ustar'', One ''ustar''),
     (''x-wais-source'', One ''src''),
     (''x-wingz'', One ''wz''),
     (''x-x509-ca-cert'', Many [''crt'', ''der'', ''cer'']),
     (''x-xcf'', One ''xcf''),
     (''x-xfig'', One ''fig''),
     (''x-xpinstall'', One ''xpi''),
     (''applixware'', One ''aw''),
     (''atomsvc+xml'', One ''atomsvc''),
     (''ccxml+xml'', One ''ccxml''),
     (''cdmi-capability'', One ''cdmia''),
     (''cdmi-container'', One ''cdmic''),
     (''cdmi-domain'', One ''cdmid''),
     (''cdmi-object'', One ''cdmio''),
     (''cdmi-queue'', One ''cdmiq''),
     (''docbook+xml'', One ''dbk''),
     (''dssc+der'', One ''dssc''),
     (''dssc+xml'', One ''xdssc''),
     (''emma+xml'', One ''emma''),
     (''epub+zip'', One ''epub''),
     (''exi'', One ''exi''),
     (''font-tdpfr'', One ''pfr''),
     (''gml+xml'', One ''gml''),
     (''gpx+xml'', One ''gpx''),
     (''gxf'', One ''gxf''),
     (''hyperstudio'', One ''stk''),
     (''inkml+xml'', Many [''ink'', ''inkml'']),
     (''ipfix'', One ''ipfix''),
     (''json'', One ''json''),
     (''jsonml+json'', One ''jsonml''),
     (''lost+xml'', One ''lostxml''),
     (''mads+xml'', One ''mads''),
     (''marc'', One ''mrc''),
     (''marcxml+xml'', One ''mrcx''),
     (''mathml+xml'', One ''mathml''),
     (''mbox'', One ''mbox''),
     (''mediaservercontrol+xml'', One ''mscml''),
     (''metalink+xml'', One ''metalink''),
     (''metalink4+xml'', One ''meta4''),
     (''mets+xml'', One ''mets''),
     (''mods+xml'', One ''mods''),
     (''mp21'', Many [''m21'', ''mp21'']),
     (''mp4'', One ''mp4s''),
     (''oebps-package+xml'', One ''opf''),
     (''omdoc+xml'', One ''omdoc''),
     (''onenote'', Many [''onetoc'', ''onetoc2'', ''onetmp'', ''onepkg'']),
     (''oxps'', One ''oxps''),
     (''patch-ops-error+xml'', One ''xer''),
     (''pgp-encrypted'', One ''pgp''),
     (''pkcs10'', One ''p10''),
     (''pkcs7-mime'', Many [''p7m'', ''p7c'']),
     (''pkcs7-signature'', One ''p7s''),
     (''pkcs8'', One ''p8''),
     (''pkix-attr-cert'', One ''ac''),
     (''pkix-crl'', One ''crl''),
     (''pkix-pkipath'', One ''pkipath''),
     (''pkixcmp'', One ''pki''),
     (''pls+xml'', One ''pls''),
     (''prs.cww'', One ''cww''),
     (''pskc+xml'', One ''pskcxml''),
     (''reginfo+xml'', One ''rif''),
     (''relax-ng-compact-syntax'', One ''rnc''),
     (''resource-lists+xml'', One ''rl''),
     (''resource-lists-diff+xml'', One ''rld''),
     (''rls-services+xml'', One ''rs''),
     (''rpki-ghostbusters'', One ''gbr''),
     (''rpki-manifest'', One ''mft''),
     (''rpki-roa'', One ''roa''),
     (''rsd+xml'', One ''rsd''),
     (''sbml+xml'', One ''sbml''),
     (''scvp-cv-request'', One ''scq''),
     (''scvp-cv-response'', One ''scs''),
     (''scvp-vp-request'', One ''spq''),
     (''scvp-vp-response'', One ''spp''),
     (''sdp'', One ''sdp''),
     (''set-payment-initiation'', One ''setpay''),
     (''set-registration-initiation'', One ''setreg''),
     (''shf+xml'', One ''shf''),
     (''sparql-query'', One ''rq''),
     (''sparql-results+xml'', One ''srx''),
     (''srgs'', One ''gram''),
     (''srgs+xml'', One ''grxml''),
     (''sru+xml'', One ''sru''),
     (''ssdl+xml'', One ''ssdl''),
     (''ssml+xml'', One ''ssml''),
     (''tei+xml'', Many [''tei'', ''teicorpus'']),
     (''thraud+xml'', One ''tfi''),
     (''timestamped-data'', One ''tsd''),
     (''vnd.3gpp.pic-bw-large'', One ''plb'')]"

definition table_application_3 :: mime_group where
  "table_application_3 = [
     (''vnd.3gpp.pic-bw-small'', One ''psb''),
     (''vnd.3gpp.pic-bw-var'', One ''pvb''),
     (''vnd.3gpp2.tcap'', One ''tcap''),
     (''vnd.3m.post-it-notes'', One ''pwn''),
     (''vnd.accpac.simply.aso'', One ''aso''),
     (''vnd.accpac.simply.imp'', One ''imp''),
     (''vnd.acucobol'', One ''acu''),
     (''vnd.acucorp'', Many [''atc'', ''acutc'']),
     (''vnd.adobe.air-application-installer-package+zip'', One ''air''),
     (''vnd.adobe.formscentral.fcdt'', One ''fcdt''),
     (''vnd.adobe.fxp'', Many [''fxp'', ''fxpl'']),
     (''vnd.adobe.xdp+xml'', One ''xdp''),
     (''vnd.adobe.xfdf'', One ''xfdf''),
     (''vnd.ahead.space'', One ''ahead''),
     (''vnd.airzip.filesecure.azf'', One ''azf''),
     (''vnd.airzip.filesecure.azs'', One ''azs''),
     (''vnd.amazon.ebook'', One ''azw''),
     (''vnd.americandynamics.acc'', One ''acc''),
     (''vnd.amiga.ami'', One ''ami''),
     (''vnd.anser-web-certificate-issue-initiation'', One ''cii''),
     (''vnd.anser-web-funds-transfer-initiation'', One ''fti''),
     (''vnd.antix.game-component'', One ''atx''),
     (''vnd.apple.installer+xml'', One ''mpkg''),
     (''vnd.apple.mpegurl'', One ''m3u8''),
     (''vnd.aristanetworks.swi'', One ''swi''),
     (''vnd.astraea-software.iota'', One ''iota''),
     (''vnd.audiograph'', One ''aep''),
     (''vnd.blueice.multipass'', One ''mpm''),
     (''vnd.bmi'', One ''bmi''),
     (''vnd.businessobjects'', One ''rep''),
     (''vnd.chemdraw+xml'', One ''cdxml''),
     (''vnd.chipnuts.karaoke-mmd'', One ''mmd''),
     (''vnd.claymore'', One ''cla''),
     (''vnd.cloanto.rp9'', One ''rp9''),
     (''vnd.clonk.c4group'', Many [''c4g'', ''c4d'', ''c4f'', ''c4p'', ''c4u'']),
     (''vnd.cluetrust.cartomobile-config'', One ''c11amc''),
     (''vnd.cluetrust.cartomobile-config-pkg'', One ''c11amz''),
     (''vnd.commonspace'', One ''csp''),
     (''vnd.contact.cmsg'', One ''cdbcmsg''),
     (''vnd.cosmocaller'', One ''cmc''),
     (''vnd.crick.clicker'', One ''clkx''),
     (''vnd.crick.clicker.keyboard'', One ''clkk''),
     (''vnd.crick.clicker.palette'', One ''clkp''),
     (''vnd.crick.clicker.template'', One ''clkt''),
     (''vnd.crick.clicker.wordbank'', One ''clkw''),
     (''vnd.criticaltools.wbs+xml'', One ''wbs''),
     (''vnd.ctc-posml'', One ''pml''),
     (''vnd.cups-ppd'', One ''ppd''),
     (''vnd.curl.car'', One ''car''),
     (''vnd.curl.pcurl'', One ''pcurl''),
     (''vnd.dart'', One ''dart''),
     (''vnd.data-vision.rdz'', One ''rdz''),
     (''vnd.dece.data'', Many [''uvf'', ''uvvf'', ''uvd'', ''uvvd'']),
     (''vnd.dece.ttml+xml'', Many [''uvt'', ''uvvt'']),
     (''vnd.dece.unspecified'', Many [''uvx'', ''uvvx'']),
     (''vnd.dece.zip'', Many [''uvz'', ''uvvz'']),
     (''vnd.denovo.fcselayout-link'', One ''fe_launch''),
     (''vnd.dna'', One ''dna''),
     (''vnd.dolby.mlp'', One ''mlp''),
     (''vnd.dpgraph'', One ''dpg''),
     (''vnd.dreamfactory'', One ''dfac''),
     (''vnd.ds-keypoint'', One ''kpxx''),
     (''vnd.dvb.ait'', One ''ait''),
     (''vnd.dvb.service'', One ''svc''),
     (''vnd.dynageo'', One ''geo''),
     (''vnd.ecowin.chart'', One ''mag''),
     (''vnd.enliven'', One ''nml''),
     (''vnd.epson.esf'', One ''esf''),
     (''vnd.epson.msf'', One ''msf''),
     (''vnd.epson.quickanime'', One ''qam''),
     (''vnd.epson.salt'', One ''slt''),
     (''vnd.epson.ssf'', One ''ssf''),
     (''vnd.eszigno3+xml'', Many [''es3'', ''et3'']),
     (''vnd.ezpix-album'', One ''ez2''),
     (''vnd.ezpix-package'', One ''ez3''),
     (''vnd.fdf'', One ''fdf''),
     (''vnd.fdsn.mseed'', One ''mseed''),
     (''vnd.fdsn.seed'', Many [''seed'', ''dataless'']),
     (''vnd.flographit'', One ''gph''),
     (''vnd.fluxtime.clip'', One ''ftc''),
     (''vnd.framemaker'', Many [''fm'', ''frame'', ''maker'', ''book'']),
     (''vnd.frogans.fnc'', One ''fnc''),
     (''vnd.frogans.ltf'', One ''ltf''),
     (''vnd.fsc.weblaunch'', One ''fsc''),
     (''vnd.fujitsu.oasys'', One ''oas''),
     (''vnd.fujitsu.oasys2'', One ''oa2''),
     (''vnd.fujitsu.oasys3'', One ''oa3''),
     (''vnd.fujitsu.oasysgp'', One ''fg5''),
     (''vnd.fujitsu.oasysprs'', One ''bh2''),
     (''vnd.fujixerox.ddd'', One ''ddd''),
     (''vnd.fujixerox.docuworks'', One ''xdw''),
     (''vnd.fujixerox.docuworks.binder'', One ''xbd''),
     (''vnd.fuzzysheet'', One ''fzs''),
     (''vnd.genomatix.tuxedo'', One ''txd''),
     (''vnd.geogebra.file'', One ''ggb''),
     (''vnd.geogebra.tool'', One ''ggt''),
     (''vnd.geometry-explorer'', Many [''gex'', ''gre'']),
     (''vnd.geonext'', One ''gxt''),
     (''vnd.geoplan'', One ''g2w''),
     (''vnd.geospace'', One ''g3w''),
     (''vnd.gmx'', One ''gmx''),
     (''vnd.grafeq'', Many [''gqf'', ''gqs'']),
     (''vnd.groove-account'', One ''gac''),
     (''vnd.groove-help'', One ''ghf''),
     (''vnd.groove-identity-message'', One ''gim''),
     (''vnd.groove-injector'', One ''grv''),
     (''vnd.groove-tool-message'', One ''gtm''),
     (''vnd.groove-tool-template'', One ''tpl''),
     (''vnd.groove-vcard'', One ''vcg''),
     (''vnd.hal+xml'', One ''hal''),
     (''vnd.handheld-entertainment+xml'', One ''zmm''),
     (''vnd.hbci'', One ''hbci''),
     (''vnd.hhe.lesson-player'', One ''les''),
     (''vnd.hp-hpgl'', One ''hpgl''),
     (''vnd.hp-hpid'', One ''hpid''),
     (''vnd.hp-hps'', One ''hps''),
     (''vnd.hp-jlyt'', One ''jlt''),
     (''vnd.hp-pcl'', One ''pcl''),
     (''vnd.hp-pclxl'', One ''pclxl''),
     (''vnd.hydrostatix.sof-data'', One ''sfd-hdstx''),
     (''vnd.ibm.minipay'', One ''mpy''),
     (''vnd.ibm.modcap'', Many [''afp'', ''listafp'', ''list3820'']),
     (''vnd.ibm.rights-management'', One ''irm''),
     (''vnd.ibm.secure-container'', One ''sc''),
     (''vnd.iccprofile'', Many [''icc'', ''icm'']),
     (''vnd.igloader'', One ''igl''),
     (''vnd.immervision-ivp'', One ''ivp''),
     (''vnd.immervision-ivu'', One ''ivu''),
     (''vnd.insors.igm'', One ''igm''),
     (''vnd.intercon.formnet'', Many [''xpw'', ''xpx'']),
     (''vnd.intergeo'', One ''i2g''),
     (''vnd.intu.qbo'', One ''qbo'')]"

definition table_application_4 :: mime_group where
  "table_application_4 = [
     (''vnd.intu.qfx'', One ''qfx''),
     (''vnd.ipunplugged.rcprofile'', One ''rcprofile''),
     (''vnd.irepository.package+xml'', One ''irp''),
     (''vnd.is-xpr'', One ''xpr''),
     (''vnd.isac.fcs'', One ''fcs''),
     (''vnd.jam'', One ''jam''),
     (''vnd.jcp.javame.midlet-rms'', One ''rms''),
     (''vnd.jisp'', One ''jisp''),
     (''vnd.joost.joda-archive'', One ''joda''),
     (''vnd.kahootz'', Many [''ktz'', ''ktr'']),
     (''vnd.kde.karbon'', One ''karbon''),
     (''vnd.kde.kchart'', One ''chrt''),
     (''vnd.kde.kformula'', One ''kfo''),
     (''vnd.kde.kivio'', One ''flw''),
     (''vnd.kde.kontour'', One ''kon''),
     (''vnd.kde.kpresenter'', Many [''kpr'', ''kpt'']),
     (''vnd.kde.kspread'', One ''ksp''),
     (''vnd.kde.kword'', Many [''kwd'', ''kwt'']),
     (''vnd.kenameaapp'', One ''htke''),
     (''vnd.kidspiration'', One ''kia''),
     (''vnd.kinar'', Many [''kne'', ''knp'']),
     (''vnd.koan'', Many [''skp'', ''skd'', ''skt'', ''skm'']),
     (''vnd.kodak-descriptor'', One ''sse''),
     (''vnd.las.las+xml'', One ''lasxml''),
     (''vnd.llamagraphics.life-balance.desktop'', One ''lbd''),
     (''vnd.llamagraphics.life-balance.exchange+xml'', One ''lbe''),
     (''vnd.lotus-1-2-3'', One ''123''),
     (''vnd.lotus-approach'', One ''apr''),
     (''vnd.lotus-freelance'', One ''pre''),
     (''vnd.lotus-notes'', One ''nsf''),
     (''vnd.lotus-organizer'', One ''org''),
     (''vnd.lotus-screencam'', One ''scm''),
     (''vnd.lotus-wordpro'', One ''lwp''),
     (''vnd.macports.portpkg'', One ''portpkg''),
     (''vnd.mcd'', One ''mcd''),
     (''vnd.medcalcdata'', One ''mc1''),
     (''vnd.mediastation.cdkey'', One ''cdkey''),
     (''vnd.mfer'', One ''mwf''),
     (''vnd.mfmp'', One ''mfm''),
     (''vnd.micrografx.flo'', One ''flo''),
     (''vnd.micrografx.igx'', One ''igx''),
     (''vnd.mif'', One ''mif''),
     (''vnd.mobius.daf'', One ''daf''),
     (''vnd.mobius.dis'', One ''dis''),
     (''vnd.mobius.mbk'', One ''mbk''),
     (''vnd.mobius.mqy'', One ''mqy''),
     (''vnd.mobius.msl'', One ''msl''),
     (''vnd.mobius.plc'', One ''plc''),
     (''vnd.mobius.txf'', One ''txf''),
     (''vnd.mophun.application'', One ''mpn''),
     (''vnd.mophun.certificate'', One ''mpc''),
     (''vnd.ms-artgalry'', One ''cil''),
     (''vnd.ms-cab-compressed'', One ''cab''),
     (''vnd.ms-excel.addin.macroenabled.12'', One ''xlam''),
     (''vnd.ms-excel.sheet.binary.macroenabled.12'', One ''xlsb''),
     (''vnd.ms-excel.sheet.macroenabled.12'', One ''xlsm''),
     (''vnd.ms-excel.template.macroenabled.12'', One ''xltm''),
     (''vnd.ms-fontobject'', One ''eot''),
     (''vnd.ms-htmlhelp'', One ''chm''),
     (''vnd.ms-ims'', One ''ims''),
     (''vnd.ms-lrm'', One ''lrm''),
     (''vnd.ms-officetheme'', One ''thmx''),
     (''vnd.ms-powerpoint.addin.macroenabled.12'', One ''ppam''),
     (''vnd.ms-powerpoint.presentation.macroenabled.12'', One ''pptm''),
     (''vnd.ms-powerpoint.slide.macroenabled.12'', One ''sldm''),
     (''vnd.ms-powerpoint.slideshow.macroenabled.12'', One ''ppsm''),
     (''vnd.ms-powerpoint.template.macroenabled.12'', One ''potm''),
     (''vnd.ms-project'', Many [''mpp'', ''mpt'']),
     (''vnd.ms-word.document.macroenabled.12'', One ''docm''),
     (''vnd.ms-word.template.macroenabled.12'', One ''dotm''),
     (''vnd.ms-works'', Many [''wps'', ''wks'', ''wcm'', ''wdb'']),
     (''vnd.ms-wpl'', One ''wpl''),
     (''vnd.ms-xpsdocument'', One ''xps''),
     (''vnd.mseq'', One ''mseq''),
     (''vnd.musician'', One ''mus''),
     (''vnd.muvee.style'', One ''msty''),
     (''vnd.mynfc'', One ''taglet''),
     (''vnd.neurolanguage.nlu'', One ''nlu''),
     (''vnd.nitf'', Many [''ntf'', ''nitf'']),
     (''vnd.noblenet-directory'', One ''nnd''),
     (''vnd.noblenet-sealer'', One ''nns''),
     (''vnd.noblenet-web'', One ''nnw''),
     (''vnd.nokia.n-gage.data'', One ''ngdat''),
     (''vnd.nokia.n-gage.symbian.install'', One ''n-gage''),
     (''vnd.nokia.radio-preset'', One ''rpst''),
     (''vnd.nokia.radio-presets'', One ''rpss''),
     (''vnd.novadigm.edm'', One ''edm''),
     (''vnd.novadigm.edx'', One ''edx''),
     (''vnd.novadigm.ext'', One ''ext''),
     (''vnd.oasis.opendocument.chart-template'', One ''otc''),
     (''vnd.oasis.opendocument.formula-template'', One ''odft''),
     (''vnd.oasis.opendocument.image-template'', One ''oti''),
     (''vnd.olpc-sugar'', One ''xo''),
     (''vnd.oma.dd2+xml'', One ''dd2''),
     (''vnd.openofficeorg.extension'', One ''oxt''),
     (''vnd.openxmlformats-officedocument.presentationml.slide'', One ''sldx''),
     (''vnd.osgeo.mapguide.package'', One ''mgp''),
     (''vnd.osgi.dp'', One ''dp''),
     (''vnd.osgi.subsystem'', One ''esa''),
     (''vnd.palm'', Many [''pdb'', ''pqa'', ''oprc'']),
     (''vnd.pawaafile'', One ''paw''),
     (''vnd.pg.format'', One ''str''),
     (''vnd.pg.osasli'', One ''ei6''),
     (''vnd.picsel'', One ''efif''),
     (''vnd.pmi.widget'', One ''wg''),
     (''vnd.pocketlearn'', One ''plf''),
     (''vnd.powerbuilder6'', One ''pbd''),
     (''vnd.previewsystems.box'', One ''box''),
     (''vnd.proteus.magazine'', One ''mgz''),
     (''vnd.publishare-delta-tree'', One ''qps''),
     (''vnd.pvi.ptid1'', One ''ptid''),
     (''vnd.quark.quarkxpress'', Many [''qxd'', ''qxt'', ''qwd'', ''qwt'', ''qxl'', ''qxb'']),
     (''vnd.realvnc.bed'', One ''bed''),
     (''vnd.recordare.musicxml'', One ''mxl''),
     (''vnd.recordare.musicxml+xml'', One ''musicxml''),
     (''vnd.rig.cryptonote'', One ''cryptonote''),
     (''vnd.rn-realmedia'', One ''rm''),
     (''vnd.rn-realmedia-vbr'', One ''rmvb''),
     (''vnd.route66.link66+xml'', One ''link66''),
     (''vnd.sailingtracker.track'', One ''st''),
     (''vnd.seemail'', One ''see''),
     (''vnd.sema'', One ''sema''),
     (''vnd.semd'', One ''semd''),
     (''vnd.semf'', One ''semf''),
     (''vnd.shana.informed.formdata'', One ''ifm''),
     (''vnd.shana.informed.formtemplate'', One ''itp''),
     (''vnd.shana.informed.interchange'', One ''iif''),
     (''vnd.shana.informed.package'', One ''ipk''),
     (''vnd.simtech-mindmapper'', Many [''twd'', ''twds'']),
     (''vnd.smart.teacher'', One ''teacher''),
     (''vnd.solent.sdkm+xml'', Many [''sdkm'', ''sdkd'']),
     (''vnd.spotfire.dxp'', One ''dxp'')]"

definition table_application_5 :: mime_group where
  "table_application_5 = [
     (''vnd.spotfire.sfs'', One ''sfs''),
     (''vnd.stepmania.package'', One ''smzip''),
     (''vnd.stepmania.stepchart'', One ''sm''),
     (''vnd.sus-calendar'', Many [''sus'', ''susp'']),
     (''vnd.svd'', One ''svd''),
     (''vnd.syncml+xml'', One ''xsm''),
     (''vnd.syncml.dm+wbxml'', One ''bdm''),
     (''vnd.syncml.dm+xml'', One ''xdm''),
     (''vnd.tao.intent-module-archive'', One ''tao''),
     (''vnd.tcpdump.pcap'', Many [''pcap'', ''cap'', ''dmp'']),
     (''vnd.tmobile-livetv'', One ''tmo''),
     (''vnd.trid.tpt'', One ''tpt''),
     (''vnd.triscape.mxs'', One ''mxs''),
     (''vnd.trueapp'', One ''tra''),
     (''vnd.ufdl'', Many [''ufd'', ''ufdl'']),
     (''vnd.uiq.theme'', One ''utz''),
     (''vnd.umajin'', One ''umj''),
     (''vnd.unity'', One ''unityweb''),
     (''vnd.uoml+xml'', One ''uoml''),
     (''vnd.vcx'', One ''vcx''),
     (''vnd.visionary'', One ''vis''),
     (''vnd.vsf'', One ''vsf''),
     (''vnd.webturbo'', One ''wtb''),
     (''vnd.wolfram.player'', One ''nbp''),
     (''vnd.wqd'', One ''wqd''),
     (''vnd.wt.stf'', One ''stf''),
     (''vnd.xara'', One ''xar''),
     (''vnd.xfdl'', One ''xfdl''),
     (''vnd.yamaha.hv-dic'', One ''hvd''),
     (''vnd.yamaha.hv-script'', One ''hvs''),
     (''vnd.yamaha.hv-voice'', One ''hvp''),
     (''vnd.yamaha.openscoreformat'', One ''osf''),
     (''vnd.yamaha.openscoreformat.osfpvg+xml'', One ''osfpvg''),
     (''vnd.yamaha.smaf-audio'', One ''saf''),
     (''vnd.yamaha.smaf-phrase'', One ''spf''),
     (''vnd.yellowriver-custom-menu'', One ''cmp''),
     (''vnd.zul'', Many [''zir'', ''zirz'']),
     (''vnd.zzazz.deck+xml'', One ''zaz''),
     (''voicexml+xml'', One ''vxml''),
     (''widget'', One ''wgt''),
     (''winhlp'', One ''hlp''),
     (''wsdl+xml'', One ''wsdl''),
     (''wspolicy+xml'', One ''wspolicy''),
     (''x-ace-compressed'', One ''ace''),
     (''x-authorware-bin'', Many [''aab'', ''x32'', ''u32'', ''vox'']),
     (''x-authorware-map'', One ''aam''),
     (''x-authorware-seg'', One ''aas''),
     (''x-blorb'', Many [''blb'', ''blorb'']),
     (''x-bzip'', One ''bz''),
     (''x-bzip2'', Many [''bz2'', ''boz'']),
     (''x-cfs-compressed'', One ''cfs''),
     (''x-chat'', One ''chat''),
     (''x-conference'', One ''nsc''),
     (''x-dgc-compressed'', One ''dgc''),
     (''x-dtbncx+xml'', One ''ncx''),
     (''x-dtbook+xml'', One ''dtb''),
     (''x-dtbresource+xml'', One ''res''),
     (''x-eva'', One ''eva''),
     (''x-font-bdf'', One ''bdf''),
     (''x-font-ghostscript'', One ''gsf''),
     (''x-font-linux-psf'', One ''psf''),
     (''x-font-otf'', One ''otf''),
     (''x-font-pcf'', One ''pcf''),
     (''x-font-snf'', One ''snf''),
     (''x-font-ttf'', Many [''ttf'', ''ttc'']),
     (''x-font-type1'', Many [''pfa'', ''pfb'', ''pfm'', ''afm'']),
     (''x-font-woff'', One ''woff''),
     (''x-freearc'', One ''arc''),
     (''x-gca-compressed'', One ''gca''),
     (''x-glulx'', One ''ulx''),
     (''x-gramps-xml'', One ''gramps''),
     (''x-install-instructions'', One ''install''),
     (''x-lzh-compressed'', Many [''lzh'', ''lha'']),
     (''x-mie'', One ''mie''),
     (''x-mobipocket-ebook'', Many [''prc'', ''mobi'']),
     (''x-ms-application'', One ''application''),
     (''x-ms-shortcut'', One ''lnk''),
     (''x-ms-xbap'', One ''xbap''),
     (''x-msbinder'', One ''obd''),
     (''x-mscardfile'', One ''crd''),
     (''x-msclip'', One ''clp''),
     (''x-msdownload'', Many [''exe'', ''dll'', ''com'', ''bat'', ''msi'']),
     (''x-msmediaview'', Many [''mvb'', ''m13'', ''m14'']),
     (''x-msmetafile'', Many [''wmf'', ''wmz'', ''emf'', ''emz'']),
     (''x-msmoney'', One ''mny''),
     (''x-mspublisher'', One ''pub''),
     (''x-msschedule'', One ''scd''),
     (''x-msterminal'', One ''trm''),
     (''x-mswrite'', One ''wri''),
     (''x-nzb'', One ''nzb''),
     (''x-pkcs12'', Many [''p12'', ''pfx'']),
     (''x-pkcs7-certificates'', Many [''p7b'', ''spc'']),
     (''x-research-info-systems'', One ''ris''),
     (''x-silverlight-app'', One ''xap''),
     (''x-sql'', One ''sql''),
     (''x-stuffitx'', One ''sitx''),
     (''x-subrip'', One ''srt''),
     (''x-t3vm-image'', One ''t3''),
     (''x-tads'', One ''gam''),
     (''x-tex'', One ''tex''),
     (''x-tex-tfm'', One ''tfm''),
     (''x-tgif'', One ''obj''),
     (''x-xliff+xml'', One ''xlf''),
     (''x-xz'', One ''xz''),
     (''x-zmachine'', Many [''z1'', ''z2'', ''z3'', ''z4'', ''z5'', ''z6'', ''z7'', ''z8'']),
     (''xaml+xml'', One ''xaml''),
     (''xcap-diff+xml'', One ''xdf''),
     (''xenc+xml'', One ''xenc''),
     (''xml-dtd'', One ''dtd''),
     (''xop+xml'', One ''xop''),
     (''xproc+xml'', One ''xpl''),
     (''xslt+xml'', One ''xslt''),
     (''xv+xml'', Many [''mxml'', ''xhvml'', ''xvml'', ''xvm'']),
     (''yang'', One ''yang''),
     (''yin+xml'', One ''yin''),
     (''envoy'', One ''evy''),
     (''fractals'', One ''fif''),
     (''internet-property-stream'', One ''acx''),
     (''olescript'', One ''axs''),
     (''vnd.ms-outlook'', One ''msg''),
     (''vnd.ms-pkicertstore'', One ''sst''),
     (''x-compress'', One ''z''),
     (''x-compressed'', One ''tgz''),
     (''x-gzip'', One ''gz''),
     (''x-perfmon'', Many [''pma'', ''pmc'', ''pml'', ''pmr'', ''pmw'']),
     (''x-pkcs7-mime'', Many [''p7c'', ''p7m'']),
     (''ynd.ms-pkipko'', One ''pko'')]"

definition table_audio :: mime_group where
  "table_audio = [
     (''amr'', One ''amr''),
     (''amr-wb'', One ''awb''),
     (''annodex'', One ''axa''),
     (''basic'', Many [''au'', ''snd'']),
     (''flac'', One ''flac''),
     (''midi'', Many [''mid'', ''midi'', ''kar'', ''rmi'']),
     (''mpeg'', Many [''mpga'', ''mpega'', ''mp2'', ''mp3'', ''m4a'', ''mp2a'', ''m2a'', ''m3a'']),
     (''mpegurl'', One ''m3u''),
     (''ogg'', Many [''oga'', ''ogg'', ''spx'']),
     (''prs.sid'', One ''sid''),
     (''x-aiff'', Many [''aif'', ''aiff'', ''aifc'']),
     (''x-gsm'', One ''gsm''),
     (''x-ms-wma'', One ''wma''),
     (''x-ms-wax'', One ''wax''),
     (''x-pn-realaudio'', One ''ram''),
     (''x-realaudio'', One ''ra''),
     (''x-sd2'', One ''sd2''),
     (''x-wav'', One ''wav''),
     (''adpcm'', One ''adp''),
     (''mp4'', One ''mp4a''),
     (''s3m'', One ''s3m''),
     (''silk'', One ''sil''),
     (''vnd.dece.audio'', Many [''uva'', ''uvva'']),
     (''vnd.digital-winds'', One ''eol''),
     (''vnd.dra'', One ''dra''),
     (''vnd.dts'', One ''dts''),
     (''vnd.dts.hd'', One ''dtshd''),
     (''vnd.lucent.voice'', One ''lvp''),
     (''vnd.ms-playready.media.pya'', One ''pya''),
     (''vnd.nuera.ecelp4800'', One ''ecelp4800''),
     (''vnd.nuera.ecelp7470'', One ''ecelp7470''),
     (''vnd.nuera.ecelp9600'', One ''ecelp9600''),
     (''vnd.rip'', One ''rip''),
     (''webm'', One ''weba''),
     (''x-aac'', One ''aac''),
     (''x-caf'', One ''caf''),
     (''x-matroska'', One ''mka''),
     (''x-pn-realaudio-plugin'', One ''rmp''),
     (''xm'', One ''xm''),
     (''mid'', Many [''mid'', ''rmi''])]"

definition table_chemical :: mime_group where
  "table_chemical = [
     (''x-alchemy'', One ''alc''),
     (''x-cache'', Many [''cac'', ''cache'']),
     (''x-cache-csf'', One ''csf''),
     (''x-cactvs-binary'', Many [''cbin'', ''cascii'', ''ctab'']),
     (''x-cdx'', One ''cdx''),
     (''x-chem3d'', One ''c3d''),
     (''x-cif'', One ''cif''),
     (''x-cmdf'', One ''cmdf''),
     (''x-cml'', One ''cml''),
     (''x-compass'', One ''cpa''),
     (''x-crossfire'', One ''bsd''),
     (''x-csml'', Many [''csml'', ''csm'']),
     (''x-ctx'', One ''ctx''),
     (''x-cxf'', Many [''cxf'', ''cef'']),
     (''x-embl-dl-nucleotide'', Many [''emb'', ''embl'']),
     (''x-gamess-input'', Many [''inp'', ''gam'', ''gamin'']),
     (''x-gaussian-checkpoint'', Many [''fch'', ''fchk'']),
     (''x-gaussian-cube'', One ''cub''),
     (''x-gaussian-input'', Many [''gau'', ''gjc'', ''gjf'']),
     (''x-gaussian-log'', One ''gal''),
     (''x-gcg8-sequence'', One ''gcg''),
     (''x-genbank'', One ''gen''),
     (''x-hin'', One ''hin''),
     (''x-isostar'', Many [''istr'', ''ist'']),
     (''x-jcamp-dx'', Many [''jdx'', ''dx'']),
     (''x-kinemage'', One ''kin''),
     (''x-macmolecule'', One ''mcm''),
     (''x-macromodel-input'', Many [''mmd'', ''mmod'']),
     (''x-mdl-molfile'', One ''mol''),
     (''x-mdl-rdfile'', One ''rd''),
     (''x-mdl-rxnfile'', One ''rxn''),
     (''x-mdl-sdfile'', Many [''sd'', ''sdf'']),
     (''x-mdl-tgf'', One ''tgf''),
     (''x-mmcif'', One ''mcif''),
     (''x-mol2'', One ''mol2''),
     (''x-molconn-Z'', One ''b''),
     (''x-mopac-graph'', One ''gpt''),
     (''x-mopac-input'', Many [''mop'', ''mopcrt'', ''mpc'', ''zmt'']),
     (''x-mopac-out'', One ''moo''),
     (''x-ncbi-asn1'', One ''asn''),
     (''x-ncbi-asn1-ascii'', Many [''prt'', ''ent'']),
     (''x-ncbi-asn1-binary'', Many [''val'', ''aso'']),
     (''x-pdb'', Many [''pdb'', ''ent'']),
     (''x-rosdal'', One ''ros''),
     (''x-swissprot'', One ''sw''),
     (''x-vamas-iso14976'', One ''vms''),
     (''x-vmd'', One ''vmd''),
     (''x-xtel'', One ''xtel''),
     (''x-xyz'', One ''xyz'')]"

definition table_image :: mime_group where
  "table_image = [
     (''gif'', One ''gif''),
     (''ief'', One ''ief''),
     (''jpeg'', Many [''jpeg'', ''jpg'', ''jpe'']),
     (''pcx'', One ''pcx''),
     (''png'', One ''png''),
     (''svg+xml'', Many [''svg'', ''svgz'']),
     (''tiff'', Many [''tiff'', ''tif'']),
     (''vnd.djvu'', Many [''djvu'', ''djv'']),
     (''vnd.wap.wbmp'', One ''wbmp''),
     (''x-canon-cr2'', One ''cr2''),
     (''x-canon-crw'', One ''crw''),
     (''x-cmu-raster'', One ''ras''),
     (''x-coreldraw'', One ''cdr''),
     (''x-coreldrawpattern'', One ''pat''),
     (''x-coreldrawtemplate'', One ''cdt''),
     (''x-corelphotopaint'', One ''cpt''),
     (''x-epson-erf'', One ''erf''),
     (''x-icon'', One ''ico''),
     (''x-jg'', One ''art''),
     (''x-jng'', One ''jng''),
     (''x-nikon-nef'', One ''nef''),
     (''x-olympus-orf'', One ''orf''),
     (''x-photoshop'', One ''psd''),
     (''x-portable-anymap'', One ''pnm''),
     (''x-portable-bitmap'', One ''pbm''),
     (''x-portable-graymap'', One ''pgm''),
     (''x-portable-pixmap'', One ''ppm''),
     (''x-rgb'', One ''rgb''),
     (''x-xbitmap'', One ''xbm''),
     (''x-xpixmap'', One ''xpm''),
     (''x-xwindowdump'', One ''xwd''),
     (''bmp'', One ''bmp''),
     (''cgm'', One ''cgm''),
     (''g3fax'', One ''g3''),
     (''ktx'', One ''ktx''),
     (''prs.btif'', One ''btif''),
     (''sgi'', One ''sgi''),
     (''vnd.dece.graphic'', Many [''uvi'', ''uvvi'', ''uvg'', ''uvvg'']),
     (''vnd.dwg'', One ''dwg''),
     (''vnd.dxf'', One ''dxf''),
     (''vnd.fastbidsheet'', One ''fbs''),
     (''vnd.fpx'', One ''fpx''),
     (''vnd.fst'', One ''fst''),
     (''vnd.fujixerox.edmics-mmr'', One ''mmr''),
     (''vnd.fujixerox.edmics-rlc'', One ''rlc''),
     (''vnd.ms-modi'', One ''mdi''),
     (''vnd.ms-photo'', One ''wdp''),
     (''vnd.net-fpx'', One ''npx''),
     (''vnd.xiff'', One ''xif''),
     (''webp'', One ''webp''),
     (''x-3ds'', One ''3ds''),
     (''x-cmx'', One ''cmx''),
     (''x-freehand'', Many [''fh'', ''fhc'', ''fh4'', ''fh5'', ''fh7'']),
     (''x-pict'', Many [''pic'', ''pct'']),
     (''x-tga'', One ''tga''),
     (''cis-cod'', One ''cod''),
     (''pipeg'', One ''jfif'')]"

definition table_message :: mime_group where
  "table_message = [
     (''rfc822'', Many [''eml'', ''mime'', ''mht'', ''mhtml'', ''nws''])]"

definition table_model :: mime_group where
  "table_model = [
     (''iges'', Many [''igs'', ''iges'']),
     (''mesh'', Many [''msh'', ''mesh'', ''silo'']),
     (''vrml'', Many [''wrl'', ''vrml'']),
     (''x3d+vrml'', Many [''x3dv'', ''x3dvz'']),
     (''x3d+xml'', Many [''x3d'', ''x3dz'']),
     (''x3d+binary'', Many [''x3db'', ''x3dbz'']),
     (''vnd.collada+xml'', One ''dae''),
     (''vnd.dwf'', One ''dwf''),
     (''vnd.gdl'', One ''gdl''),
     (''vnd.gtw'', One ''gtw''),
     (''vnd.mts'', One ''mts''),
     (''vnd.vtu'', One ''vtu'')]"

definition table_text :: mime_group where
  "table_text = [
     (''cache-manifest'', Many [''manifest'', ''appcache'']),
     (''calendar'', Many [''ics'', ''icz'', ''ifb'']),
     (''css'', One ''css''),
     (''csv'', One ''csv''),
     (''h323'', One ''323''),
     (''html'', Many [''html'', ''htm'', ''shtml'', ''stm'']),
     (''iuls'', One ''uls''),
     (''mathml'', One ''mml''),
     (''plain'', Many [''txt'', ''text'', ''brf'', ''conf'', ''def'', ''list'', ''log'', ''in'', ''bas'']),
     (''richtext'', One ''rtx''),
     (''scriptlet'', Many [''sct'', ''wsc'']),
     (''texmacs'', Many [''tm'', ''ts'']),
     (''tab-separated-values'', One ''tsv''),
     (''vnd.sun.j2me.app-descriptor'', One ''jad''),
     (''vnd.wap.wml'', One ''wml''),
     (''vnd.wap.wmlscript'', One ''wmls''),
     (''x-bibtex'', One ''bib''),
     (''x-boo'', One ''boo''),
     (''x-c++hdr'', Many [''h++'', ''hpp'', ''hxx'', ''hh'']),
     (''x-c++src'', Many [''c++'', ''cpp'', ''cxx'', ''cc'']),
     (''x-component'', One ''htc''),
     (''x-dsrc'', One ''d''),
     (''x-diff'', Many [''diff'', ''patch'']),
     (''x-haskell'', One ''hs''),
     (''x-java'', One ''java''),
     (''x-literate-haskell'', One ''lhs''),
     (''x-moc'', One ''moc''),
     (''x-pascal'', Many [''p'', ''pas'']),
     (''x-pcs-gcd'', One ''gcd''),
     (''x-perl'', Many [''pl'', ''pm'']),
     (''x-python'', One ''py''),
     (''x-scala'', One ''scala''),
     (''x-setext'', One ''etx''),
     (''x-tcl'', Many [''tcl'', ''tk'']),
     (''x-tex'', Many [''tex'', ''ltx'', ''sty'', ''cls'']),
     (''x-vcalendar'', One ''vcs''),
     (''x-vcard'', One ''vcf''),
     (''n3'', One ''n3''),
     (''prs.lines.tag'', One ''dsc''),
     (''sgml'', Many [''sgml'', ''sgm'']),
     (''troff'', Many [''t'', ''tr'', ''roff'', ''man'', ''me'', ''ms'']),
     (''turtle'', One ''ttl''),
     (''uri-list'', Many [''uri'', ''uris'', ''urls'']),
     (''vcard'', One ''vcard''),
     (''vnd.curl'', One ''curl''),
     (''vnd.curl.dcurl'', One ''dcurl''),
     (''vnd.curl.scurl'', One ''scurl''),
     (''vnd.curl.mcurl'', One ''mcurl''),
     (''vnd.dvb.subtitle'', One ''sub''),
     (''vnd.fly'', One ''fly''),
     (''vnd.fmi.flexstor'', One ''flx''),
     (''vnd.graphviz'', One ''gv''),
     (''vnd.in3d.3dml'', One ''3dml''),
     (''vnd.in3d.spot'', One ''spot''),
     (''x-asm'', Many [''s'', ''asm'']),
     (''x-c'', Many [''c'', ''cc'', ''cxx'', ''cpp'', ''h'', ''hh'', ''dic'']),
     (''x-fortran'', Many [''f'', ''for'', ''f77'', ''f90'']),
     (''x-opml'', One ''opml''),
     (''x-nfo'', One ''nfo''),
     (''x-sfv'', One ''sfv''),
     (''x-uuencode'', One ''uu''),
     (''webviewhtml'', One ''htt'')]"

definition table_video :: mime_group where
  "table_video = [
     (''3gpp'', One ''3gp''),
     (''annodex'', One ''axv''),
     (''dl'', One ''dl''),
     (''dv'', Many [''dif'', ''dv'']),
     (''fli'', One ''fli''),
     (''gl'', One ''gl''),
     (''mpeg'', Many [''mpeg'', ''mpg'', ''mpe'', ''m1v'', ''m2v'', ''mp2'', ''mpa'', ''mpv2'']),
     (''mp4'', Many [''mp4'', ''mp4v'', ''mpg4'']),
     (''quicktime'', Many [''qt'', ''mov'']),
     (''ogg'', One ''ogv''),
     (''vnd.mpegurl'', Many [''mxu'', ''m4u'']),
     (''x-flv'', One ''flv''),
     (''x-la-asf'', Many [''lsf'', ''lsx'']),
     (''x-mng'', One ''mng''),
     (''x-ms-asf'', Many [''asf'', ''asx'', ''asr'']),
     (''x-ms-wm'', One ''wm''),
     (''x-ms-wmv'', One ''wmv''),
     (''x-ms-wmx'', One ''wmx''),
     (''x-ms-wvx'', One ''wvx''),
     (''x-msvideo'', One ''avi''),
     (''x-sgi-movie'', One ''movie''),
     (''x-matroska'', Many [''mpv'', ''mkv'', ''mk3d'', ''mks'']),
     (''3gpp2'', One ''3g2''),
     (''h261'', One ''h261''),
     (''h263'', One ''h263''),
     (''h264'', One ''h264''),
     (''jpeg'', One ''jpgv''),
     (''jpm'', Many [''jpm'', ''jpgm'']),
     (''mj2'', Many [''mj2'', ''mjp2'']),
     (''vnd.dece.hd'', Many [''uvh'', ''uvvh'']),
     (''vnd.dece.mobile'', Many [''uvm'', ''uvvm'']),
     (''vnd.dece.pd'', Many [''uvp'', ''uvvp'']),
     (''vnd.dece.sd'', Many [''uvs'', ''uvvs'']),
     (''vnd.dece.video'', Many [''uvv'', ''uvvv'']),
     (''vnd.dvb.file'', One ''dvb''),
     (''vnd.fvt'', One ''fvt''),
     (''vnd.ms-playready.media.pyv'', One ''pyv''),
     (''vnd.uvvu.mp4'', Many [''uvu'', ''uvvu'']),
     (''vnd.vivo'', One ''viv''),
     (''webm'', One ''webm''),
     (''x-f4v'', One ''f4v''),
     (''x-m4v'', One ''m4v''),
     (''x-ms-vob'', One ''vob''),
     (''x-smv'', One ''smv'')]"

definition table_x_conference :: mime_group where
  "table_x_conference = [
     (''x-cooltalk'', One ''ice'')]"

definition table_x_world :: mime_group where
  "table_x_world = [
     (''x-vrml'', Many [''vrm'', ''vrml'', ''wrl'', ''flr'', ''wrz'', ''xaf'', ''xof''])]"

definition table :: mime_table where
  "table = [
     (''application'', table_application_1 @ table_application_2 @ table_application_3 @ table_application_4 @ table_application_5),
     (''audio'', table_audio),
     (''chemical'', table_chemical),
     (''image'', table_image),
     (''message'', table_message),
     (''model'', table_model),
     (''text'', table_text),
     (''video'', table_video),
     (''x-conference'', table_x_conference),
     (''x-world'', table_x_world)]"

section \<open>Inversion and lookup\<close>

text \<open>The inner branch on \<open>typeof val\<close>: one extension, or the loop over an array of them.\<close>

definition set_type :: "string \<Rightarrow> string \<Rightarrow> string \<Rightarrow> (jstring \<rightharpoonup> jstring) \<Rightarrow> (jstring \<rightharpoonup> jstring)" where
  "set_type ty sub e m = m(js e \<mapsto> js (ty @ ''/'' @ sub))"

fun add_val :: "string \<Rightarrow> string \<Rightarrow> mime_val \<Rightarrow> (jstring \<rightharpoonup> jstring) \<Rightarrow> (jstring \<rightharpoonup> jstring)" where
  "add_val ty sub (One v) m = set_type ty sub v m"
| "add_val ty sub (Many vs) m = fold (set_type ty sub) vs m"

text \<open>The two enclosing \<open>for in\<close> loops, in insertion order.\<close>

definition add_group :: "string \<times> mime_group \<Rightarrow> (jstring \<rightharpoonup> jstring) \<Rightarrow> (jstring \<rightharpoonup> jstring)" where
  "add_group g m = fold (\<lambda>(sub, v). add_val (fst g) sub v) (snd g) m"

definition mime_types_of :: "mime_table \<Rightarrow> (jstring \<rightharpoonup> jstring)" where
  "mime_types_of t = fold add_group t Map.empty"

definition mime_types :: "jstring \<rightharpoonup> jstring" where
  "mime_types = mime_types_of table"

datatype mime_result = Mime jstring | Inherited jstring

definition octet_stream :: jstring where
  "octet_stream = js ''application/octet-stream''"

definition getMimeType :: "jstring \<Rightarrow> mime_result" where
  "getMimeType filename =
     (let ext = last (js_split (js ''.'') filename)
      in case mime_types ext of
           Some t \<Rightarrow> (if t = [] then Mime octet_stream else Mime t)
         | None \<Rightarrow> (if ext \<in> set (map js object_prototype) then Inherited ext
                     else Mime octet_stream))"

section \<open>What the map holds\<close>

text \<open>Every (extension, type) pair of a table, in the order the loops visit them.\<close>

fun exts_of :: "mime_val \<Rightarrow> string list" where
  "exts_of (One v) = [v]"
| "exts_of (Many vs) = vs"

definition listings :: "mime_table \<Rightarrow> (string \<times> string) list" where
  "listings t = concat (map (\<lambda>(ty, g). concat (map (\<lambda>(sub, v).
     map (\<lambda>e. (e, ty @ ''/'' @ sub)) (exts_of v)) g)) t)"

lemma of_char_inj [simp]: "(of_char c :: code_unit) = of_char d \<longleftrightarrow> c = d"
proof -
  have bound: "of_char x < (2::nat) ^ 16" for x
    by (rule less_trans [of _ 256]) simp_all
  have conv: "unat (of_char x :: code_unit) = of_char x" for x
  proof -
    have "(of_char x :: code_unit) = of_nat (of_char x)" by (simp add: of_nat_of_char)
    then have "unat (of_char x :: code_unit) = take_bit 16 (of_char x)" by (simp add: unsigned_of_nat)
    then show ?thesis using bound [of x] by (simp only: take_bit_nat_eq_self)
  qed
  show ?thesis
  proof
    assume "(of_char c :: code_unit) = of_char d"
    then have "unat (of_char c :: code_unit) = unat (of_char d :: code_unit)" by simp
    then show "c = d" by (simp add: conv)
  qed simp
qed

lemma js_inj [simp]: "js s = js t \<longleftrightarrow> s = t"
proof (induction s arbitrary: t)
  case Nil
  then show ?case by (cases t) simp_all
next
  case (Cons c s)
  then show ?case by (cases t) simp_all
qed

lemma in_set_js [simp]: "of_char c \<in> set (js s) \<longleftrightarrow> c \<in> set s"
  by (induction s) auto

lemma map_of_js: "map_of (map (\<lambda>(e, t). (js e, js t)) xs) (js e) = map_option js (map_of xs e)"
  by (induction xs) auto

primrec enter :: "(string \<times> string) list \<Rightarrow> (jstring \<rightharpoonup> jstring) \<Rightarrow> (jstring \<rightharpoonup> jstring)" where
  "enter [] m = m"
| "enter (x # xs) m = enter xs (m(js (fst x) \<mapsto> js (snd x)))"

lemma enter_append: "enter (xs @ ys) m = enter ys (enter xs m)"
  by (induction xs arbitrary: m) simp_all

lemma add_val_listings: "add_val ty sub v m = enter (map (\<lambda>e. (e, ty @ ''/'' @ sub)) (exts_of v)) m"
proof -
  have "fold (set_type ty sub) vs m = enter (map (\<lambda>e. (e, ty @ ''/'' @ sub)) vs) m" for vs
    by (induction vs arbitrary: m) (simp_all add: set_type_def)
  then show ?thesis by (cases v) (simp_all add: set_type_def)
qed

lemma add_group_listings:
  "add_group (ty, g) m =
     enter (concat (map (\<lambda>(sub, v). map (\<lambda>e. (e, ty @ ''/'' @ sub)) (exts_of v)) g)) m"
proof -
  have "fold (\<lambda>(sub, v). add_val ty sub v) g m =
      enter (concat (map (\<lambda>(sub, v). map (\<lambda>e. (e, ty @ ''/'' @ sub)) (exts_of v)) g)) m"
    by (induction g arbitrary: m) (auto simp: add_val_listings enter_append)
  then show ?thesis by (simp add: add_group_def)
qed

lemma fold_add_group: "fold add_group t m = enter (listings t) m"
  by (induction t arbitrary: m) (auto simp: listings_def add_group_listings enter_append)

lemma enter_map_of: "enter xs m = m ++ map_of (rev (map (\<lambda>(e, t). (js e, js t)) xs))"
proof (induction xs arbitrary: m)
  case (Cons x xs)
  have "m(js (fst x) \<mapsto> js (snd x)) = m ++ map_of [(js (fst x), js (snd x))]" by simp
  then show ?case
    using Cons.IH by (cases x) (simp only: enter.simps list.map rev.simps map_of_append
      map_add_assoc [symmetric] prod.case fst_conv snd_conv)
qed simp

lemma mime_types_of_js: "mime_types_of t (js e) = map_option js (map_of (rev (listings t)) e)"
  by (simp add: mime_types_of_def fold_add_group enter_map_of rev_map map_of_js)

lemma mime_types_of_dom: "mime_types_of t x = Some y \<Longrightarrow> \<exists>e ty. x = js e \<and> y = js ty \<and> (e, ty) \<in> set (listings t)"
  by (auto simp: mime_types_of_def fold_add_group enter_map_of dest!: map_of_SomeD)

lemma listings_nonempty: "(e, ty) \<in> set (listings t) \<Longrightarrow> ty \<noteq> []"
  by (auto simp: listings_def)

lemma last_split_ext:
  "CHR ''.'' \<notin> set e \<Longrightarrow> last (js_split (js ''.'') (base @ js ''.'' @ js e)) = js e"
proof -
  assume e: "CHR ''.'' \<notin> set e"
  have "last (split_from [of_char CHR ''.''] acc (b @ of_char CHR ''.'' # js e)) = js e" for b acc
    using e
  proof (induction b arbitrary: acc)
    case Nil
    then show ?case by (simp add: split_from_avoid del: of_char_Char)
  next
    case (Cons c b)
    then show ?case by (simp del: of_char_Char)
  qed
  then show ?thesis by (simp add: js_split_def del: of_char_Char)
qed

section \<open>Evaluation of the table\<close>

text \<open>Facts about single groups, each checked by evaluation, from which facts about the whole
  table follow without evaluating it again.\<close>

definition short_exts :: "mime_group \<Rightarrow> bool" where
  "short_exts g = list_all (\<lambda>(sub, v). list_all (\<lambda>e. length e < 12) (exts_of v)) g"

lemma short_table_application_1: "short_exts table_application_1"
  by (simp add: short_exts_def table_application_1_def)

lemma short_table_application_2: "short_exts table_application_2"
  by (simp add: short_exts_def table_application_2_def)

lemma short_table_application_3: "short_exts table_application_3"
  by (simp add: short_exts_def table_application_3_def)

lemma short_table_application_4: "short_exts table_application_4"
  by (simp add: short_exts_def table_application_4_def)

lemma short_table_application_5: "short_exts table_application_5"
  by (simp add: short_exts_def table_application_5_def)

lemma short_table_audio: "short_exts table_audio"
  by (simp add: short_exts_def table_audio_def)

lemma short_table_chemical: "short_exts table_chemical"
  by (simp add: short_exts_def table_chemical_def)

lemma short_table_image: "short_exts table_image"
  by (simp add: short_exts_def table_image_def)

lemma short_table_message: "short_exts table_message"
  by (simp add: short_exts_def table_message_def)

lemma short_table_model: "short_exts table_model"
  by (simp add: short_exts_def table_model_def)

lemma short_table_text: "short_exts table_text"
  by (simp add: short_exts_def table_text_def)

lemma short_table_video: "short_exts table_video"
  by (simp add: short_exts_def table_video_def)

lemma short_table_x_conference: "short_exts table_x_conference"
  by (simp add: short_exts_def table_x_conference_def)

lemma short_table_x_world: "short_exts table_x_world"
  by (simp add: short_exts_def table_x_world_def)

lemmas short_tables = short_table_application_1
  short_table_application_2
  short_table_application_3
  short_table_application_4
  short_table_application_5
  short_table_audio
  short_table_chemical
  short_table_image
  short_table_message
  short_table_model
  short_table_text
  short_table_video
  short_table_x_conference
  short_table_x_world

lemma short_exts_append [simp]: "short_exts (g @ h) \<longleftrightarrow> short_exts g \<and> short_exts h"
  by (simp add: short_exts_def)

lemma short_listings:
  "list_all (\<lambda>(ty, g). short_exts g) t \<Longrightarrow> (e, ty) \<in> set (listings t) \<Longrightarrow> length e < 12"
  by (fastforce simp: listings_def short_exts_def list_all_iff)

lemma listed_ext_short: "e \<in> fst ` set (listings table) \<Longrightarrow> length e < 12"
proof -
  assume "e \<in> fst ` set (listings table)"
  then obtain ty where "(e, ty) \<in> set (listings table)" by force
  moreover have "list_all (\<lambda>(ty, g). short_exts g) table"
    by (simp add: table_def short_tables)
  ultimately show ?thesis using short_listings by blast
qed

lemma listings_append [simp]: "listings (s @ t) = listings s @ listings t"
  by (simp add: listings_def)

lemma listings_x_world:
  "listings [(''x-world'', table_x_world)] =
     map (\<lambda>e. (e, ''x-world/x-vrml'')) [''vrm'', ''vrml'', ''wrl'', ''flr'', ''wrz'', ''xaf'', ''xof'']"
  by (simp add: listings_def table_x_world_def)

lemma table_split_last: "\<exists>t. table = t @ [(''x-world'', table_x_world)]"
  by (simp add: table_def)

section \<open>Properties\<close>

text \<open>
  C40. A file name with a listed extension gets the MIME type of the last table entry that lists the
  extension, whatever precedes the last dot (several extensions are listed twice, under different
  types, and the later one wins).
\<close>

theorem getMimeType_last_listing:
  assumes "map_of (rev (listings table)) e = Some ty" and "CHR ''.'' \<notin> set e"
  shows "getMimeType (base @ js ''.'' @ js e) = Mime (js ty)"
proof -
  have "ty \<noteq> []"
    using assms(1) by (auto dest!: map_of_SomeD listings_nonempty)
  then have "js ty \<noteq> []" by (simp add: js_def)
  then show ?thesis
    using assms by (simp add: getMimeType_def last_split_ext mime_types_def mime_types_of_js Let_def
      del: js_simps)
qed

theorem getMimeType_last_listing_witness:
  "getMimeType (js ''scene.old'' @ js ''.'' @ js ''wrl'') = Mime (js ''x-world/x-vrml'')"
proof (rule getMimeType_last_listing)
  obtain t where "table = t @ [(''x-world'', table_x_world)]" using table_split_last by blast
  then have "listings table = listings t @ listings [(''x-world'', table_x_world)]"
    by (metis listings_append)
  then show "map_of (rev (listings table)) ''wrl'' = Some ''x-world/x-vrml''"
    by (simp add: listings_x_world)
qed simp

text \<open>
  An extension that no table entry lists and that is no member of \<open>Object.prototype\<close> gets
  the default type; an unlisted extension that is such a member (a file called
  \<open>notes.hasOwnProperty\<close>) gets the inherited member, which is not a MIME type at all.
\<close>

theorem getMimeType_unlisted:
  assumes "e \<notin> fst ` set (listings table)" and "CHR ''.'' \<notin> set e"
  shows "getMimeType (base @ js ''.'' @ js e) =
    (if e \<in> set object_prototype then Inherited (js e) else Mime octet_stream)"
proof -
  have "map_of (rev (listings table)) e = None"
    using assms(1) by (simp add: map_of_eq_None_iff)
  moreover have "js e \<in> js ` set object_prototype \<longleftrightarrow> e \<in> set object_prototype"
    by (auto simp del: js_simps)
  ultimately show ?thesis
    using assms(2) by (simp add: getMimeType_def last_split_ext mime_types_def mime_types_of_js Let_def
      del: js_simps)
qed

theorem getMimeType_unlisted_witness:
  "getMimeType (js ''notes'' @ js ''.'' @ js ''hasOwnProperty'') = Inherited (js ''hasOwnProperty'')"
proof -
  have "''hasOwnProperty'' \<notin> fst ` set (listings table)"
    using listed_ext_short [of "''hasOwnProperty''"] by auto
  from getMimeType_unlisted [OF this, of "js ''notes''"] show ?thesis
    by (simp add: object_prototype_def del: js_simps)
qed

end
