(* ===== verification/Sec_Star.thy ===== *)
theory Sec_Star
  imports Js_Prelude "HOL-Library.Multiset"
begin

text \<open>
  \<^verbatim>\<open>html/SecSTAR.js\<close>: the viewer. Its global variables, the parts of the page it writes and the
  jQuery effect queue of \<open>#canvas\<close> form one record \<open>viewer\<close>; every event handler is a function
  from the viewer to a run. \<open>cur_viz\<close> is an alias of one of the two packages \<open>viz\<close> and
  \<open>viz_dedup\<close>, so the model keeps which one it is (\<open>cur_dedup\<close>) and updates that one.

  The effect queue follows jQuery 1.7.2 (\<^verbatim>\<open>html/lib/jquery.min.js\<close>: queue, dequeue, delay, stop,
  clearQueue): items run one at a time, the head \<open>InProgress\<close> marks a running item, \<open>dequeue\<close>
  runs the next item, \<open>delay\<close> is an item that starts a timer which dequeues.
\<close>

section \<open>Data\<close>

record viz_pkg =
  is_dedup :: bool
  dir :: jstring
  svgs :: "jstring list option"
  events :: "jstring list option"
  num_frames :: int
  cursor :: int
  static_svg :: jstring

definition VizPkg :: "bool \<Rightarrow> jstring \<Rightarrow> viz_pkg" where
  "VizPkg is_dedup' dir' = \<lparr>is_dedup = is_dedup', dir = dir', svgs = None, events = None,
     num_frames = 0, cursor = -1, static_svg = []\<rparr>"

definition delimiter_svgs :: jstring where
  "delimiter_svgs = js ''<?xml version='' @ [34] @ js ''1.0'' @ [34] @ js '' encoding='' @ [34] @
     js ''UTF-8'' @ [34] @ js '' standalone='' @ [34] @ js ''no'' @ [34] @ js ''?>''"

definition delimiter_events :: jstring where
  "delimiter_events = js ''===event===''"

definition inc_cursor :: "viz_pkg \<Rightarrow> viz_pkg" where
  "inc_cursor v = (if cursor v < num_frames v - 1 then v\<lparr>cursor := cursor v + 1\<rparr> else v)"

definition dec_cursor :: "viz_pkg \<Rightarrow> viz_pkg" where
  "dec_cursor v = (if cursor v > 0 then v\<lparr>cursor := cursor v - 1\<rparr> else v)"

datatype button = PlayBtn | StopBtn | FirstBtn | PreviousBtn | NextBtn | LastBtn | StaticBtn
  | DedupBox | FasterBtn | SlowerBtn

datatype fx = InProgress | FxDelay int | FxNext | FxFinish

datatype zoom_style = Unzoomed | MozScale int | ZoomPercent int

record viewer =
  viz :: viz_pkg
  viz_dedup :: viz_pkg
  cur_dedup :: bool
  kDone :: int
  kZoom :: int
  kDelay :: int
  disabled :: "button \<Rightarrow> bool"
  slider_disabled :: bool
  slider_value :: int
  slider_max :: int
  event_title :: jstring
  event_id :: jstring
  event_html :: jstring
  canvas_html :: jstring
  speed_meter :: jstring
  zoom :: zoom_style
  mozilla :: bool
  dedup_checked :: bool
  ui_shown :: bool
  legend_loads :: "jstring list"
  requests :: "jstring list"
  fxq :: "fx list"
  fx_run :: "nat option"
  timers :: "(nat \<times> int) list"
  next_timer :: nat

definition kZoomStep :: int where "kZoomStep = 10"
definition kZoomMax :: int where "kZoomMax = 400"
definition kZoomMin :: int where "kZoomMin = 10"
definition kMinDelay :: int where "kMinDelay = 50"
definition kMaxDelay :: int where "kMaxDelay = 1000"

text \<open>The page as loaded, with the initial values of the globals.\<close>

definition initial_viewer :: "bool \<Rightarrow> viewer" where
  "initial_viewer moz = \<lparr>viz = VizPkg False (js ''images/raw''),
     viz_dedup = VizPkg True (js ''images/dedup''), cur_dedup = False,
     kDone = 4, kZoom = 100, kDelay = 200, disabled = (\<lambda>_. False), slider_disabled = False,
     slider_value = 0, slider_max = 0, event_title = js ''Events'', event_id = js ''Static Figure'',
     event_html = [], canvas_html = [], speed_meter = js ''Speed: 0%'', zoom = Unzoomed,
     mozilla = moz, dedup_checked = False, ui_shown = False, legend_loads = [], requests = [],
     fxq = [], fx_run = None, timers = [], next_timer = 0\<rparr>"

definition cur_viz :: "viewer \<Rightarrow> viz_pkg" where
  "cur_viz s = (if cur_dedup s then viz_dedup s else viz s)"

definition map_cur :: "(viz_pkg \<Rightarrow> viz_pkg) \<Rightarrow> viewer \<Rightarrow> viewer" where
  "map_cur f s = (if cur_dedup s then s\<lparr>viz_dedup := f (viz_dedup s)\<rparr> else s\<lparr>viz := f (viz s)\<rparr>)"

abbreviation set_cursor :: "int \<Rightarrow> viewer \<Rightarrow> viewer" where
  "set_cursor c \<equiv> map_cur (\<lambda>v. v\<lparr>cursor := c\<rparr>)"

definition disable :: "button list \<Rightarrow> viewer \<Rightarrow> viewer" where
  "disable bs s = s\<lparr>disabled := (\<lambda>b. b \<in> set bs \<or> disabled s b)\<rparr>"

definition enable :: "button list \<Rightarrow> viewer \<Rightarrow> viewer" where
  "enable bs s = s\<lparr>disabled := (\<lambda>b. b \<notin> set bs \<and> disabled s b)\<rparr>"

section \<open>Labels and the canvas\<close>

text \<open>\<open>Math.round(a / b)\<close> for a positive \<open>b\<close>: half is rounded up.\<close>

definition round_quot :: "int \<Rightarrow> int \<Rightarrow> int" where
  "round_quot a b = (2 * a + b) div (2 * b)"

definition update_speed :: "viewer \<Rightarrow> viewer" where
  "update_speed s = s\<lparr>speed_meter := js ''Speed: '' @
     js_of_int (round_quot ((kMaxDelay - kDelay s) * 100) kMaxDelay) @ js ''%''\<rparr>"

definition update_event :: "bool \<Rightarrow> viewer \<Rightarrow> viewer" where
  "update_event is_static s =
     (let s1 = s\<lparr>event_title := js ''Events (total:'' @ js_of_int (num_frames (cur_viz s)) @ js '')''\<rparr>
      in if is_static then s1\<lparr>event_id := js '' '', event_html := js ''Static Figure''\<rparr> else s1)"

text \<open>
  \<open>refresh_canvas\<close> in two halves, around the \<open>dequeue\<close> in its middle. jQuery's
  \<open>html(undefined)\<close> is the getter: for \<open>#event\<close> it has no effect, for \<open>#canvas\<close> it returns a
  string, whose missing \<open>dequeue\<close> method makes the call throw.
\<close>

definition refresh_head :: "int \<Rightarrow> viewer \<Rightarrow> viewer run" where
  "refresh_head c s0 =
     (let s1 = (set_cursor c s0)\<lparr>event_id := js ''Event '' @ js_of_int (c + 1)\<rparr>
      in case events (cur_viz s1) of
           None \<Rightarrow> Threw TypeError s1
         | Some es \<Rightarrow>
             (let s2 = (case arr_at es (c + 1) of None \<Rightarrow> s1 | Some e \<Rightarrow> s1\<lparr>event_html := e\<rparr>)
              in case svgs (cur_viz s2) of
                   None \<Rightarrow> Threw TypeError s2
                 | Some fs \<Rightarrow>
                     (case arr_at fs (c + 1) of
                        None \<Rightarrow> Threw TypeError s2
                      | Some f \<Rightarrow> Done (s2\<lparr>canvas_html := f\<rparr>))))"

definition refresh_tail :: "int \<Rightarrow> viewer \<Rightarrow> viewer run" where
  "refresh_tail c s = Done (s\<lparr>slider_value := c + 1\<rparr>)"

section \<open>The effect queue\<close>

definition start_timer :: "int \<Rightarrow> viewer \<Rightarrow> viewer" where
  "start_timer d s = s\<lparr>timers := timers s @ [(next_timer s, d)], fx_run := Some (next_timer s),
     next_timer := Suc (next_timer s)\<rparr>"

text \<open>Button states when playing ends, by the queue or by the Stop button.\<close>

definition idle_buttons :: "viewer \<Rightarrow> viewer" where
  "idle_buttons s =
     (let s1 = enable [PlayBtn, FirstBtn, PreviousBtn, NextBtn, LastBtn, StaticBtn, DedupBox] s;
          s2 = (disable [StopBtn] s1)\<lparr>slider_disabled := False\<rparr>;
          s3 = (if kDelay s2 \<ge> kMinDelay then enable [FasterBtn] s2 else s2)
      in if kDelay s3 < kMaxDelay then enable [SlowerBtn] s3 else s3)"

definition fx_cleanup :: "viewer \<Rightarrow> viewer" where
  "fx_cleanup s = (if fxq s = [] then s\<lparr>fx_run := None\<rparr> else s)"

fun drop_mark :: "fx list \<Rightarrow> fx list" where
  "drop_mark (InProgress # q) = q"
| "drop_mark q = q"

abbreviation work :: "viewer \<Rightarrow> nat" where
  "work s \<equiv> length (filter (\<lambda>f. f \<noteq> InProgress) (fxq s))"

lemma fxq_map_cur [simp]: "fxq (map_cur f s) = fxq s"
  by (simp add: map_cur_def)

lemma refresh_head_fxq: "refresh_head c s = Done t \<Longrightarrow> fxq t = fxq s"
  by (auto simp: refresh_head_def Let_def split: option.splits)

lemma drop_mark_work: "drop_mark q = f # r \<Longrightarrow>
    length (filter (\<lambda>f. f \<noteq> InProgress) r) \<le> length (filter (\<lambda>f. f \<noteq> InProgress) q)"
  by (cases q rule: drop_mark.cases) auto

lemma drop_mark_work_less: "drop_mark q = f # r \<Longrightarrow> f \<noteq> InProgress \<Longrightarrow>
    length (filter (\<lambda>f. f \<noteq> InProgress) r) < length (filter (\<lambda>f. f \<noteq> InProgress) q)"
  by (cases q rule: drop_mark.cases) auto

lemma next_work: "drop_mark (fxq s) = FxNext # r \<Longrightarrow>
    refresh_head c (map_cur g (s\<lparr>fxq := InProgress # r, fx_run := n\<rparr>)) = Done t \<Longrightarrow> work t < work s"
  using drop_mark_work_less [of "fxq s" FxNext r] by (auto dest!: refresh_head_fxq)

function fx_dequeue :: "viewer \<Rightarrow> viewer run" where
  "fx_dequeue s =
     (case drop_mark (fxq s) of
        [] \<Rightarrow> Done (fx_cleanup (s\<lparr>fxq := []\<rparr>))
      | f # r \<Rightarrow>
          (let s1 = s\<lparr>fxq := InProgress # r, fx_run := None\<rparr>
           in case f of
                InProgress \<Rightarrow> Threw TypeError s1
              | FxDelay d \<Rightarrow> Done (fx_cleanup (start_timer d s1))
              | FxFinish \<Rightarrow> Done (fx_cleanup (idle_buttons s1))
              | FxNext \<Rightarrow>
                  (let s2 = map_cur inc_cursor s1; c = cursor (cur_viz s2)
                   in case refresh_head c s2 of
                        Threw e s3 \<Rightarrow> Threw e s3
                      | Done s3 \<Rightarrow>
                          and_then (and_then (fx_dequeue s3) (refresh_tail c))
                            (\<lambda>s4. Done (fx_cleanup s4)))))"
  by pat_completeness auto
termination
  by (relation "measure work") (auto dest: next_work)

declare fx_dequeue.simps [simp del]

text \<open>\<open>$("#canvas").queue(fn)\<close>, also reached through \<open>delay\<close>.\<close>

definition fx_push :: "fx \<Rightarrow> viewer \<Rightarrow> viewer run" where
  "fx_push f s =
     (let s1 = s\<lparr>fxq := fxq s @ [f]\<rparr>
      in if hd (fxq s1) \<noteq> InProgress then fx_dequeue s1 else Done s1)"

text \<open>A pending timer fires: the callback of \<open>delay\<close> dequeues.\<close>

definition fire_timer :: "nat \<Rightarrow> viewer \<Rightarrow> viewer run" where
  "fire_timer i s =
     (if i \<in> fst ` set (timers s)
      then fx_dequeue (s\<lparr>timers := filter (\<lambda>t. fst t \<noteq> i) (timers s)\<rparr>) else Done s)"

text \<open>\<open>$("#canvas").stop()\<close>: cancel the timer of the running delay, then run the next item.\<close>

definition fx_stop :: "viewer \<Rightarrow> viewer run" where
  "fx_stop s =
     fx_dequeue (case fx_run s of None \<Rightarrow> s
       | Some i \<Rightarrow> s\<lparr>fx_run := None, timers := filter (\<lambda>t. fst t \<noteq> i) (timers s)\<rparr>)"

definition fx_clear :: "viewer \<Rightarrow> viewer run" where
  "fx_clear s = fx_dequeue (s\<lparr>fxq := []\<rparr>)"

section \<open>Event handlers\<close>

definition refresh_canvas :: "int \<Rightarrow> viewer \<Rightarrow> viewer run" where
  "refresh_canvas c s = and_then (and_then (refresh_head c s) fx_dequeue) (refresh_tail c)"

definition first_frame :: "viewer \<Rightarrow> viewer run" where
  "first_frame s = refresh_canvas 0 s"

definition last_frame :: "viewer \<Rightarrow> viewer run" where
  "last_frame s = refresh_canvas (num_frames (cur_viz s) - 1) s"

definition next_frame :: "viewer \<Rightarrow> viewer run" where
  "next_frame s = (let s1 = map_cur inc_cursor s in refresh_canvas (cursor (cur_viz s1)) s1)"

definition previous_frame :: "viewer \<Rightarrow> viewer run" where
  "previous_frame s = (let s1 = map_cur dec_cursor s in refresh_canvas (cursor (cur_viz s1)) s1)"

text \<open>The loop of \<open>play\<close>: one delay and one \<open>next\<close> per round.\<close>

fun push_frames :: "nat \<Rightarrow> viewer \<Rightarrow> viewer run" where
  "push_frames 0 s = Done s"
| "push_frames (Suc n) s =
     and_then (and_then (fx_push (FxDelay (kDelay s)) s) (fx_push FxNext)) (push_frames n)"

definition play_buttons :: "viewer \<Rightarrow> viewer" where
  "play_buttons s =
     (enable [StopBtn] (disable [PlayBtn, FirstBtn, PreviousBtn, NextBtn, LastBtn, StaticBtn,
        DedupBox, FasterBtn, SlowerBtn] s))\<lparr>slider_disabled := True\<rparr>"

definition rewind :: "viewer \<Rightarrow> viewer" where
  "rewind s = (if cursor (cur_viz s) = num_frames (cur_viz s) - 1 then set_cursor (-1) s else s)"

definition play :: "viewer \<Rightarrow> viewer run" where
  "play s =
     (let s1 = rewind s; init_i = cursor (cur_viz s1)
      in and_then (push_frames (nat (num_frames (cur_viz s1) - init_i + 1)) s1) (\<lambda>s2.
         and_then (fx_push (FxDelay (kDelay s2)) (play_buttons s2)) (fx_push FxFinish)))"

definition stop :: "viewer \<Rightarrow> viewer run" where
  "stop s = and_then (and_then (fx_stop s) fx_clear) (\<lambda>s1. Done (idle_buttons s1))"

definition apply_zoom :: "viewer \<Rightarrow> viewer" where
  "apply_zoom s = s\<lparr>zoom := (if mozilla s then MozScale (kZoom s) else ZoomPercent (kZoom s))\<rparr>"

definition zoomin :: "viewer \<Rightarrow> viewer" where
  "zoomin s = (if kZoom s \<ge> kZoomMax then s else apply_zoom (s\<lparr>kZoom := kZoom s + kZoomStep\<rparr>))"

definition zoomout :: "viewer \<Rightarrow> viewer" where
  "zoomout s = (if kZoom s \<le> kZoomMin then s else apply_zoom (s\<lparr>kZoom := kZoom s - kZoomStep\<rparr>))"

definition faster :: "viewer \<Rightarrow> viewer" where
  "faster s =
     (if kDelay s \<ge> kMinDelay
      then enable [SlowerBtn] (update_speed (s\<lparr>kDelay := kDelay s - kMinDelay\<rparr>))
      else disable [FasterBtn] s)"

definition slower :: "viewer \<Rightarrow> viewer" where
  "slower s =
     (if kDelay s < kMaxDelay
      then enable [FasterBtn] (update_speed (s\<lparr>kDelay := kDelay s + kMinDelay\<rparr>))
      else disable [SlowerBtn] s)"

definition update_slider :: "viewer \<Rightarrow> viewer" where
  "update_slider s = s\<lparr>slider_max := num_frames (cur_viz s) - 1\<rparr>"

text \<open>\<open>show_static\<close> shows the cached figure, or requests the archive; \<open>static_loaded\<close> is the
  callback with the text of the archive's first entry.\<close>

definition show_static :: "viewer \<Rightarrow> viewer" where
  "show_static s =
     (if static_svg (cur_viz s) \<noteq> []
      then update_slider (update_event True (s\<lparr>canvas_html := static_svg (cur_viz s)\<rparr>))
      else s\<lparr>requests := requests s @ [dir (cur_viz s) @ js ''/static.zip'']\<rparr>)"

definition static_loaded :: "jstring \<Rightarrow> viewer \<Rightarrow> viewer" where
  "static_loaded text s =
     update_slider (update_event True ((map_cur (\<lambda>v. v\<lparr>static_svg := text\<rparr>) s)\<lparr>canvas_html := text\<rparr>))"

definition dedup :: "viewer \<Rightarrow> viewer run" where
  "dedup s =
     (let s1 = update_event True (s\<lparr>cur_dedup := dedup_checked s\<rparr>)
      in and_then (first_frame s1) (\<lambda>s2. Done (set_cursor (-1) (show_static s2))))"

section \<open>Loading\<close>

definition show_legend :: "viewer \<Rightarrow> viewer" where
  "show_legend s = s\<lparr>legend_loads := legend_loads s @
     [dir (viz s) @ js ''/legend/abbr_exe.txt'', dir (viz s) @ js ''/legend/color_user.svg'',
      dir (viz s) @ js ''/legend/shape.svg'']\<rparr>"

definition show_ui :: "viewer \<Rightarrow> viewer" where
  "show_ui s = update_speed (show_static (show_legend ((disable [StopBtn] s)\<lparr>ui_shown := True\<rparr>)))"

definition on_output :: "bool \<Rightarrow> (viz_pkg \<Rightarrow> viz_pkg) \<Rightarrow> viewer \<Rightarrow> viewer" where
  "on_output dd f s = (if dd then s\<lparr>viz_dedup := f (viz_dedup s)\<rparr> else s\<lparr>viz := f (viz s)\<rparr>)"

definition store_data :: "jstring \<Rightarrow> jstring \<Rightarrow> viz_pkg \<Rightarrow> viz_pkg" where
  "store_data delimiter text output =
     (let parts = js_split delimiter text; n = int (length parts) - 1
      in if delimiter = delimiter_svgs then output\<lparr>svgs := Some parts, num_frames := n\<rparr>
         else output\<lparr>events := Some parts, num_frames := n\<rparr>)"

definition load_data :: "jstring \<Rightarrow> bool \<Rightarrow> jstring \<Rightarrow> viewer \<Rightarrow> viewer" where
  "load_data delimiter dd text s =
     (let s1 = on_output dd (store_data delimiter text) s;
          s2 = s1\<lparr>kDone := kDone s1 - 1\<rparr>
      in if kDone s2 = 0 then show_ui s2 else s2)"

definition get_data :: "jstring \<Rightarrow> bool \<Rightarrow> viewer \<Rightarrow> viewer" where
  "get_data delimiter dd s =
     (let output = (if dd then viz_dedup s else viz s)
      in s\<lparr>requests := requests s @
           [dir output @ (if delimiter = delimiter_svgs then js ''/svgs.zip'' else js ''/events.zip'')]\<rparr>)"

definition init :: "viewer \<Rightarrow> viewer" where
  "init s = get_data delimiter_events True (get_data delimiter_svgs True
     (get_data delimiter_events False (get_data delimiter_svgs False s)))"

section \<open>User events\<close>

text \<open>
  What can happen to the page once it is shown: a click on a button that is not disabled, a drag of
  the slider to a value of its range while it is enabled, a timer that fires, the arrival of the
  static figure. The \<open>dedup\<close> check box is commented out in \<^verbatim>\<open>index.html\<close>, so it raises no event.
\<close>

datatype ui_event = Click button | ZoomInEv | ZoomOutEv | Slide int | Tick nat | StaticText jstring

fun enabled :: "viewer \<Rightarrow> ui_event \<Rightarrow> bool" where
  "enabled s (Click b) = (b \<noteq> DedupBox \<and> \<not> disabled s b)"
| "enabled s (Slide v) = (\<not> slider_disabled s \<and> 0 \<le> v \<and> v \<le> slider_max s)"
| "enabled s (Tick i) = (i \<in> fst ` set (timers s))"
| "enabled s _ = True"

fun handle :: "ui_event \<Rightarrow> viewer \<Rightarrow> viewer run" where
  "handle (Click PlayBtn) s = play s"
| "handle (Click StopBtn) s = stop s"
| "handle (Click FirstBtn) s = first_frame s"
| "handle (Click PreviousBtn) s = previous_frame s"
| "handle (Click NextBtn) s = next_frame s"
| "handle (Click LastBtn) s = last_frame s"
| "handle (Click StaticBtn) s = Done (show_static s)"
| "handle (Click DedupBox) s = dedup s"
| "handle (Click FasterBtn) s = Done (faster s)"
| "handle (Click SlowerBtn) s = Done (slower s)"
| "handle ZoomInEv s = Done (zoomin s)"
| "handle ZoomOutEv s = Done (zoomout s)"
| "handle (Slide v) s = refresh_canvas v s"
| "handle (Tick i) s = fire_timer i s"
| "handle (StaticText t) s = Done (static_loaded t s)"

inductive ui_step :: "viewer \<Rightarrow> viewer \<Rightarrow> bool" where
  ui_step: "enabled s e \<Longrightarrow> ui_step s (state_of (handle e s))"

inductive ui_reach :: "viewer \<Rightarrow> viewer \<Rightarrow> bool" for s0 where
  start: "ui_reach s0 s0"
| step: "ui_reach s0 s \<Longrightarrow> ui_step s t \<Longrightarrow> ui_reach s0 t"

section \<open>The viewer's invariant\<close>

text \<open>Both files of a package are loaded and agree on the number of frames.\<close>

definition loaded :: "viz_pkg \<Rightarrow> bool" where
  "loaded v \<longleftrightarrow> 1 \<le> num_frames v \<and>
     (case svgs v of None \<Rightarrow> False | Some fs \<Rightarrow> int (length fs) = num_frames v + 1) \<and>
     (case events v of None \<Rightarrow> False | Some es \<Rightarrow> int (length es) = num_frames v + 1)"

definition pkg_ok :: "viz_pkg \<Rightarrow> bool" where
  "pkg_ok v \<longleftrightarrow> loaded v \<and> -1 \<le> cursor v \<and> cursor v < num_frames v"

definition queue_ok :: "fx list \<Rightarrow> bool" where
  "queue_ok q \<longleftrightarrow> q = [] \<or> hd q = InProgress \<and> InProgress \<notin> set (tl q)"

definition params_ok :: "viewer \<Rightarrow> bool" where
  "params_ok s \<longleftrightarrow> 0 \<le> kDelay s \<and> kDelay s \<le> kMaxDelay \<and> kDelay s mod kMinDelay = 0 \<and>
     kZoomMin \<le> kZoom s \<and> kZoom s \<le> kZoomMax \<and> kZoom s mod kZoomStep = 0"

definition viewer_ok :: "viewer \<Rightarrow> bool" where
  "viewer_ok s \<longleftrightarrow> pkg_ok (viz s) \<and> pkg_ok (viz_dedup s) \<and> queue_ok (fxq s) \<and> params_ok s \<and>
     slider_max s \<le> num_frames (cur_viz s) - 1"

text \<open>All of the invariant but the shape of the queue, which \<open>dequeue\<close> re-establishes.\<close>

definition core_ok :: "viewer \<Rightarrow> bool" where
  "core_ok s \<longleftrightarrow> pkg_ok (viz s) \<and> pkg_ok (viz_dedup s) \<and> params_ok s \<and>
     slider_max s \<le> num_frames (cur_viz s) - 1"

lemma viewer_ok_core: "viewer_ok s \<longleftrightarrow> core_ok s \<and> queue_ok (fxq s)"
  by (auto simp: viewer_ok_def core_ok_def)

lemma core_ok_cur: "core_ok s \<Longrightarrow> pkg_ok (cur_viz s)"
  by (simp add: core_ok_def cur_viz_def)

named_theorems frame_simps \<open>fields that an update leaves alone\<close>

lemma map_cur_simps [frame_simps]:
  "cur_viz (map_cur f s) = f (cur_viz s)"
  "cur_dedup (map_cur f s) = cur_dedup s"
  "kDelay (map_cur f s) = kDelay s" "kZoom (map_cur f s) = kZoom s"
  "slider_max (map_cur f s) = slider_max s" "timers (map_cur f s) = timers s"
  "fx_run (map_cur f s) = fx_run s" "next_timer (map_cur f s) = next_timer s"
  "disabled (map_cur f s) = disabled s" "canvas_html (map_cur f s) = canvas_html s"
  by (simp_all add: map_cur_def cur_viz_def)

lemma core_ok_map_cur:
  "core_ok s \<Longrightarrow> pkg_ok (f (cur_viz s)) \<Longrightarrow> num_frames (f (cur_viz s)) = num_frames (cur_viz s) \<Longrightarrow>
     core_ok (map_cur f s)"
  by (auto simp: core_ok_def params_ok_def map_cur_def cur_viz_def split: if_splits)

lemma core_ok_frame [frame_simps]:
  "core_ok (s\<lparr>fxq := q\<rparr>) = core_ok s" "core_ok (s\<lparr>fx_run := r\<rparr>) = core_ok s"
  "core_ok (s\<lparr>timers := t\<rparr>) = core_ok s" "core_ok (s\<lparr>event_id := i\<rparr>) = core_ok s"
  "core_ok (s\<lparr>event_html := i\<rparr>) = core_ok s" "core_ok (s\<lparr>canvas_html := i\<rparr>) = core_ok s"
  "core_ok (s\<lparr>slider_value := v\<rparr>) = core_ok s" "core_ok (disable bs s) = core_ok s"
  "core_ok (enable bs s) = core_ok s" "core_ok (s\<lparr>slider_disabled := b\<rparr>) = core_ok s"
  "core_ok (s\<lparr>requests := rs\<rparr>) = core_ok s" "core_ok (s\<lparr>next_timer := n\<rparr>) = core_ok s"
  "core_ok (update_event b s) = core_ok s"
  by (simp_all add: core_ok_def params_ok_def cur_viz_def disable_def enable_def update_event_def
      Let_def)

lemma cur_viz_frame [frame_simps]:
  "cur_viz (s\<lparr>fxq := q\<rparr>) = cur_viz s" "cur_viz (s\<lparr>fx_run := r\<rparr>) = cur_viz s"
  "cur_viz (s\<lparr>timers := t\<rparr>) = cur_viz s" "cur_viz (s\<lparr>event_id := i\<rparr>) = cur_viz s"
  "cur_viz (s\<lparr>event_html := i\<rparr>) = cur_viz s" "cur_viz (s\<lparr>canvas_html := i\<rparr>) = cur_viz s"
  "cur_viz (s\<lparr>slider_value := v\<rparr>) = cur_viz s" "cur_viz (disable bs s) = cur_viz s"
  "cur_viz (enable bs s) = cur_viz s" "cur_viz (s\<lparr>slider_disabled := b\<rparr>) = cur_viz s"
  "cur_viz (s\<lparr>requests := rs\<rparr>) = cur_viz s" "cur_viz (s\<lparr>next_timer := n\<rparr>) = cur_viz s"
  by (simp_all add: cur_viz_def disable_def enable_def)

text \<open>What \<open>refresh_canvas\<close> writes when the frame exists.\<close>

definition show_frame :: "int \<Rightarrow> viewer \<Rightarrow> viewer" where
  "show_frame c s = (set_cursor c s)\<lparr>event_id := js ''Event '' @ js_of_int (c + 1),
     event_html := the (events (cur_viz s)) ! nat (c + 1),
     canvas_html := the (svgs (cur_viz s)) ! nat (c + 1)\<rparr>"

lemma refresh_head_loaded:
  assumes "loaded (cur_viz s)" and "-1 \<le> c" and "c < num_frames (cur_viz s)"
  shows "refresh_head c s = Done (show_frame c s)"
proof -
  obtain fs es where fs: "svgs (cur_viz s) = Some fs" "events (cur_viz s) = Some es"
    and len: "int (length fs) = num_frames (cur_viz s) + 1" "int (length es) = num_frames (cur_viz s) + 1"
    using assms(1) by (auto simp: loaded_def split: option.splits)
  have "arr_at es (c + 1) = Some (es ! nat (c + 1))" "arr_at fs (c + 1) = Some (fs ! nat (c + 1))"
    using assms len by (auto simp: arr_at_def)
  then show ?thesis
    by (simp add: refresh_head_def show_frame_def Let_def fs frame_simps)
qed

lemma cur_viz_show_frame [simp]: "cur_viz (show_frame c s) = (cur_viz s)\<lparr>cursor := c\<rparr>"
  by (simp add: show_frame_def frame_simps)

lemma show_frame_simps [frame_simps]:
  "fxq (show_frame c s) = fxq s" "kDelay (show_frame c s) = kDelay s"
  "timers (show_frame c s) = timers s" "fx_run (show_frame c s) = fx_run s"
  "next_timer (show_frame c s) = next_timer s" "disabled (show_frame c s) = disabled s"
  by (simp_all add: show_frame_def map_cur_simps)

lemma loaded_frame [simp]: "loaded (v\<lparr>cursor := c\<rparr>) = loaded v" "loaded (v\<lparr>static_svg := x\<rparr>) = loaded v"
  by (simp_all add: loaded_def cong: option.case_cong)

lemma core_ok_show_frame:
  "core_ok s \<Longrightarrow> -1 \<le> c \<Longrightarrow> c < num_frames (cur_viz s) \<Longrightarrow> core_ok (show_frame c s)"
  using core_ok_cur [of s]
  by (auto simp: show_frame_def frame_simps pkg_ok_def intro!: core_ok_map_cur)

lemma inc_cursor_ok: "pkg_ok v \<Longrightarrow> pkg_ok (inc_cursor v)"
  by (auto simp: pkg_ok_def inc_cursor_def)

lemma dec_cursor_ok: "pkg_ok v \<Longrightarrow> pkg_ok (dec_cursor v)"
  by (auto simp: pkg_ok_def dec_cursor_def)

lemma num_frames_cursor [simp]:
  "num_frames (inc_cursor v) = num_frames v" "num_frames (dec_cursor v) = num_frames v"
  by (simp_all add: inc_cursor_def dec_cursor_def)

lemma core_ok_start_timer: "core_ok (start_timer d s) = core_ok s"
  by (simp add: start_timer_def core_ok_def params_ok_def cur_viz_def)

lemma core_ok_idle_buttons: "core_ok (idle_buttons s) = core_ok s"
  by (simp add: idle_buttons_def Let_def frame_simps)

lemma fxq_idle_buttons [simp]: "fxq (idle_buttons s) = fxq s"
  by (simp add: idle_buttons_def Let_def enable_def disable_def)

lemma idle_buttons_simps:
  "cur_viz (idle_buttons s) = cur_viz s" "timers (idle_buttons s) = timers s"
  "canvas_html (idle_buttons s) = canvas_html s"
  "\<not> disabled (idle_buttons s) PlayBtn" "disabled (idle_buttons s) StopBtn"
  by (simp_all add: idle_buttons_def Let_def enable_def disable_def cur_viz_def)

lemma core_ok_cleanup: "core_ok (fx_cleanup s) = core_ok s"
  by (simp add: fx_cleanup_def frame_simps)

lemma fxq_cleanup [simp]: "fxq (fx_cleanup s) = fxq s"
  by (simp add: fx_cleanup_def)

text \<open>A run that completes in a good state, and how such runs compose.\<close>

definition good :: "viewer run \<Rightarrow> bool" where
  "good r \<longleftrightarrow> (\<exists>t. r = Done t \<and> viewer_ok t)"

lemma good_Done [simp]: "good (Done s) = viewer_ok s"
  by (simp add: good_def)

lemma good_and_then: "good r \<Longrightarrow> (\<And>s. viewer_ok s \<Longrightarrow> good (f s)) \<Longrightarrow> good (and_then r f)"
  by (auto simp: good_def)

lemma refresh_tail_good: "viewer_ok s \<Longrightarrow> good (refresh_tail c s)"
  by (simp add: refresh_tail_def viewer_ok_core frame_simps)

lemma viewer_ok_cleanup: "viewer_ok s \<Longrightarrow> good (Done (fx_cleanup s))"
  by (simp add: viewer_ok_core core_ok_cleanup)

lemma fx_dequeue_good: "core_ok s \<Longrightarrow> InProgress \<notin> set (drop_mark (fxq s)) \<Longrightarrow> good (fx_dequeue s)"
proof (induction s rule: fx_dequeue.induct)
  case (1 s)
  show ?case
  proof (cases "drop_mark (fxq s)")
    case Nil
    then show ?thesis using "1.prems"
      by (simp add: fx_dequeue.simps [of s] viewer_ok_core core_ok_cleanup frame_simps queue_ok_def)
  next
    case (Cons f r)
    let ?s1 = "s\<lparr>fxq := InProgress # r, fx_run := None\<rparr>"
    have r: "InProgress \<notin> set r" "f \<noteq> InProgress" using Cons "1.prems" by auto
    have s1: "core_ok ?s1" using "1.prems" by (simp add: frame_simps)
    show ?thesis
    proof (cases f)
      case InProgress
      with r show ?thesis by simp
    next
      case (FxDelay d)
      then show ?thesis using Cons r s1
        by (simp add: fx_dequeue.simps [of s] Let_def viewer_ok_core core_ok_cleanup
            core_ok_start_timer queue_ok_def) (simp add: start_timer_def)
    next
      case FxFinish
      then show ?thesis using Cons r s1
        by (simp add: fx_dequeue.simps [of s] Let_def viewer_ok_core core_ok_cleanup
            core_ok_idle_buttons queue_ok_def)
    next
      case FxNext
      let ?s2 = "map_cur inc_cursor ?s1" let ?c = "cursor (cur_viz ?s2)"
      have s2: "core_ok ?s2"
        using s1 by (intro core_ok_map_cur) (simp_all add: inc_cursor_ok core_ok_cur)
      then have pk: "pkg_ok (cur_viz ?s2)" by (rule core_ok_cur)
      then have hd: "refresh_head ?c ?s2 = Done (show_frame ?c ?s2)"
        by (intro refresh_head_loaded) (simp_all add: pkg_ok_def)
      have "core_ok (show_frame ?c ?s2)"
        using s2 pk by (intro core_ok_show_frame) (simp_all add: pkg_ok_def)
      then have "good (fx_dequeue (show_frame ?c ?s2))"
        using r by (intro "1.IH" [OF Cons refl FxNext refl refl hd]) (simp_all add: frame_simps)
      then have "good (and_then (and_then (fx_dequeue (show_frame ?c ?s2)) (refresh_tail ?c))
          (\<lambda>s4. Done (fx_cleanup s4)))"
        by (intro good_and_then refresh_tail_good viewer_ok_cleanup)
      then show ?thesis
        by (simp add: fx_dequeue.simps [of s] Cons FxNext Let_def hd)
    qed
  qed
qed

lemma queue_ok_drop: "queue_ok q \<Longrightarrow> InProgress \<notin> set (drop_mark q)"
  by (cases q rule: drop_mark.cases) (auto simp: queue_ok_def)

lemma viewer_ok_dequeue: "viewer_ok s \<Longrightarrow> good (fx_dequeue s)"
  by (simp add: viewer_ok_core fx_dequeue_good queue_ok_drop)

lemma fx_push_good: "viewer_ok s \<Longrightarrow> f \<noteq> InProgress \<Longrightarrow> good (fx_push f s)"
proof -
  assume s: "viewer_ok s" and f: "f \<noteq> InProgress"
  show ?thesis
  proof (cases "fxq s = []")
    case True
    then have "good (fx_dequeue (s\<lparr>fxq := [f]\<rparr>))"
      using s f by (cases f) (auto intro!: fx_dequeue_good simp: viewer_ok_core frame_simps)
    with True f show ?thesis by (simp add: fx_push_def)
  next
    case False
    then have "hd (fxq s) = InProgress" "queue_ok (fxq s @ [f])"
      using s f by (auto simp: viewer_ok_core queue_ok_def)
    with False s show ?thesis
      by (simp add: fx_push_def viewer_ok_core frame_simps)
  qed
qed

lemma refresh_canvas_good:
  assumes "viewer_ok s" and "-1 \<le> c" and "c < num_frames (cur_viz s)"
  shows "good (refresh_canvas c s)"
proof -
  have core: "core_ok s" "loaded (cur_viz s)"
    using assms(1) core_ok_cur by (auto simp: viewer_ok_core pkg_ok_def)
  have "good (Done (show_frame c s))"
    using assms core by (simp add: viewer_ok_core core_ok_show_frame frame_simps)
  then have "good (and_then (and_then (Done (show_frame c s)) fx_dequeue) (refresh_tail c))"
    by (intro good_and_then viewer_ok_dequeue refresh_tail_good)
  then show ?thesis using assms core by (simp add: refresh_canvas_def refresh_head_loaded)
qed

lemma viewer_ok_map_cur:
  "viewer_ok s \<Longrightarrow> (\<And>v. pkg_ok v \<Longrightarrow> pkg_ok (f v)) \<Longrightarrow> (\<And>v. num_frames (f v) = num_frames v) \<Longrightarrow>
     viewer_ok (map_cur f s)"
  by (simp add: viewer_ok_core core_ok_map_cur core_ok_cur)

lemma step_frame_good:
  assumes "viewer_ok s" and "\<And>v. pkg_ok v \<Longrightarrow> pkg_ok (f v)" and "\<And>v. num_frames (f v) = num_frames v"
  shows "good (refresh_canvas (cursor (cur_viz (map_cur f s))) (map_cur f s))"
proof -
  have ok: "viewer_ok (map_cur f s)" using assms by (rule viewer_ok_map_cur)
  then have "pkg_ok (cur_viz (map_cur f s))" by (simp add: viewer_ok_core core_ok_cur)
  with ok show ?thesis by (intro refresh_canvas_good) (simp_all add: pkg_ok_def)
qed

lemma push_frames_good: "viewer_ok s \<Longrightarrow> good (push_frames n s)"
proof (induction n arbitrary: s)
  case (Suc n)
  have "good (and_then (and_then (fx_push (FxDelay (kDelay s)) s) (fx_push FxNext)) (push_frames n))"
    by (intro good_and_then fx_push_good Suc) simp_all
  then show ?case by simp
qed simp

lemma play_good: "viewer_ok s \<Longrightarrow> good (play s)"
proof -
  assume s: "viewer_ok s"
  have "viewer_ok (rewind s)"
    using s core_ok_cur [of s] unfolding rewind_def
    by (auto simp: viewer_ok_core pkg_ok_def loaded_def intro!: core_ok_map_cur cong: option.case_cong)
  moreover have "viewer_ok (play_buttons t)" if "viewer_ok t" for t
    using that by (simp add: play_buttons_def viewer_ok_core frame_simps) (simp add: enable_def disable_def)
  ultimately show ?thesis
    by (auto simp: play_def Let_def intro!: good_and_then fx_push_good push_frames_good)
qed

lemma viewer_ok_idle_buttons: "viewer_ok s \<Longrightarrow> viewer_ok (idle_buttons s)"
  by (simp add: viewer_ok_core core_ok_idle_buttons)

lemma stop_good: "viewer_ok s \<Longrightarrow> good (stop s)"
proof -
  assume s: "viewer_ok s"
  have "good (fx_stop s)"
    using s by (auto simp: fx_stop_def viewer_ok_core frame_simps split: option.split
        intro!: viewer_ok_dequeue)
  moreover have "good (fx_clear t)" if "viewer_ok t" for t
    using that by (auto simp: fx_clear_def viewer_ok_core frame_simps queue_ok_def
        intro!: viewer_ok_dequeue)
  ultimately show ?thesis
    by (auto simp: stop_def viewer_ok_idle_buttons intro!: good_and_then)
qed

lemma core_ok_update_slider: "core_ok s \<Longrightarrow> core_ok (update_slider s)"
  by (simp add: core_ok_def update_slider_def params_ok_def cur_viz_def)

lemma fxq_static [simp]: "fxq (update_slider s) = fxq s" "fxq (update_event b s) = fxq s"
  "fxq (show_static s) = fxq s" "fxq (static_loaded t s) = fxq s"
  by (simp_all add: update_slider_def update_event_def Let_def show_static_def static_loaded_def)

lemma show_static_ok: "viewer_ok s \<Longrightarrow> viewer_ok (show_static s)"
  by (simp add: viewer_ok_core) (simp add: show_static_def core_ok_update_slider frame_simps)

lemma static_loaded_ok: "viewer_ok s \<Longrightarrow> viewer_ok (static_loaded t s)"
proof (simp add: viewer_ok_core)
  assume s: "core_ok s \<and> queue_ok (fxq s)"
  have "core_ok (map_cur (\<lambda>v. v\<lparr>static_svg := t\<rparr>) s)"
    using s core_ok_cur [of s] by (intro core_ok_map_cur) (simp_all add: pkg_ok_def)
  then show "core_ok (static_loaded t s)"
    by (simp add: static_loaded_def core_ok_update_slider frame_simps)
qed

lemma params_step:
  fixes x :: int
  shows "x mod k = 0 \<Longrightarrow> (x + k) mod k = 0" "x mod k = 0 \<Longrightarrow> (x - k) mod k = 0"
  by (simp_all add: mod_eq_0_iff_dvd)

lemma core_ok_params:
  "core_ok s \<Longrightarrow> 0 \<le> d \<Longrightarrow> d \<le> kMaxDelay \<Longrightarrow> d mod kMinDelay = 0 \<Longrightarrow> core_ok (s\<lparr>kDelay := d\<rparr>)"
  "core_ok s \<Longrightarrow> kZoomMin \<le> z \<Longrightarrow> z \<le> kZoomMax \<Longrightarrow> z mod kZoomStep = 0 \<Longrightarrow> core_ok (s\<lparr>kZoom := z\<rparr>)"
  by (auto simp: core_ok_def params_ok_def cur_viz_def)

lemma core_ok_labels [frame_simps]:
  "core_ok (update_speed s) = core_ok s" "core_ok (apply_zoom s) = core_ok s"
  by (simp_all add: core_ok_def params_ok_def cur_viz_def update_speed_def apply_zoom_def)

lemma multiple_below:
  fixes x :: int
  assumes "x < m" "x mod k = 0" "m mod k = 0" "0 < k" shows "x + k \<le> m"
proof -
  from assms(2,3) obtain a b where ab: "x = k * a" "m = k * b"
    by (auto simp: mod_eq_0_iff_dvd elim!: dvdE)
  with assms have "a + 1 \<le> b" by simp
  then have "k * (a + 1) \<le> k * b" using assms(4) by (intro mult_left_mono) simp_all
  then show ?thesis by (simp add: ab algebra_simps)
qed

lemma zoom_ok: "viewer_ok s \<Longrightarrow> viewer_ok (zoomin s)" "viewer_ok s \<Longrightarrow> viewer_ok (zoomout s)"
proof -
  assume s: "viewer_ok s"
  then have z: "core_ok s" "kZoomMin \<le> kZoom s" "kZoom s \<le> kZoomMax" "kZoom s mod kZoomStep = 0"
    by (simp_all add: viewer_ok_core core_ok_def params_ok_def)
  have k: "kZoomMax mod kZoomStep = 0" "kZoomMin mod kZoomStep = 0" "0 < kZoomStep"
    by (simp_all add: kZoomMax_def kZoomMin_def kZoomStep_def)
  have "viewer_ok (zoomin s)" if "\<not> kZoomMax \<le> kZoom s"
    using that s z k multiple_below [of "kZoom s" kZoomMax kZoomStep]
    by (auto simp: zoomin_def viewer_ok_core frame_simps params_step intro!: core_ok_params)
       (simp_all add: apply_zoom_def)
  then show "viewer_ok (zoomin s)" using s by (auto simp: zoomin_def)
  have "viewer_ok (zoomout s)" if "\<not> kZoom s \<le> kZoomMin"
    using that s z k multiple_below [of kZoomMin "kZoom s" kZoomStep]
    by (auto simp: zoomout_def viewer_ok_core frame_simps params_step intro!: core_ok_params)
       (simp_all add: apply_zoom_def)
  then show "viewer_ok (zoomout s)" using s by (auto simp: zoomout_def)
qed

lemma speed_ok: "viewer_ok s \<Longrightarrow> viewer_ok (faster s)" "viewer_ok s \<Longrightarrow> viewer_ok (slower s)"
proof -
  assume s: "viewer_ok s"
  then have d: "core_ok s" "0 \<le> kDelay s" "kDelay s \<le> kMaxDelay" "kDelay s mod kMinDelay = 0"
    by (simp_all add: viewer_ok_core core_ok_def params_ok_def)
  have k: "kMaxDelay mod kMinDelay = 0" "0 < kMinDelay"
    by (simp_all add: kMaxDelay_def kMinDelay_def)
  have q: "fxq (faster s) = fxq s" "fxq (slower s) = fxq s"
    by (simp_all add: faster_def slower_def enable_def disable_def update_speed_def)
  show "viewer_ok (faster s)"
    using s d k q by (auto simp: faster_def viewer_ok_core frame_simps params_step intro!: core_ok_params)
  show "viewer_ok (slower s)"
    using s d k q multiple_below [of "kDelay s" kMaxDelay kMinDelay]
    by (auto simp: slower_def viewer_ok_core frame_simps params_step intro!: core_ok_params)
qed

lemma handle_good:
  assumes s: "viewer_ok s" and e: "enabled s e" shows "good (handle e s)"
proof -
  have pk: "pkg_ok (cur_viz s)" using s by (simp add: viewer_ok_core core_ok_cur)
  then have pos: "1 \<le> num_frames (cur_viz s)" by (simp add: pkg_ok_def loaded_def)
  have fr: "good (first_frame s)" "good (last_frame s)" "good (next_frame s)" "good (previous_frame s)"
    using s pos unfolding first_frame_def last_frame_def next_frame_def previous_frame_def Let_def
    by (auto intro!: refresh_canvas_good step_frame_good inc_cursor_ok dec_cursor_ok)
  have sl: "good (handle (Slide v) s)" if "enabled s (Slide v)" for v
    using that s by (auto simp: viewer_ok_def intro!: refresh_canvas_good)
  have tk: "good (handle (Tick i) s)" for i
    using s by (auto simp: fire_timer_def viewer_ok_core frame_simps intro!: viewer_ok_dequeue)
  show ?thesis
  proof (cases e)
    case (Click b)
    then show ?thesis using e s fr
      by (cases b) (simp_all add: play_good stop_good show_static_ok speed_ok)
  qed (use e s sl tk in \<open>simp_all add: zoom_ok static_loaded_ok\<close>)
qed

lemma ui_reach_ok: "ui_reach s0 s \<Longrightarrow> viewer_ok s0 \<Longrightarrow> viewer_ok s"
proof (induction rule: ui_reach.induct)
  case (step s t)
  from step.hyps(2) obtain e where "enabled s e" "t = state_of (handle e s)"
    by (cases rule: ui_step.cases) auto
  moreover from this step have "good (handle e s)" by (intro handle_good) simp_all
  ultimately show ?case by (auto simp: good_def)
qed simp

section \<open>Playing\<close>

text \<open>The timer of the running delay fires, \<open>n\<close> times in a row.\<close>

definition fire_running :: "viewer \<Rightarrow> viewer run" where
  "fire_running s = (case fx_run s of None \<Rightarrow> Done s | Some i \<Rightarrow> fire_timer i s)"

fun run_ticks :: "nat \<Rightarrow> viewer \<Rightarrow> viewer run" where
  "run_ticks 0 s = Done s"
| "run_ticks (Suc n) s = and_then (fire_running s) (run_ticks n)"

text \<open>The queue of a playing viewer that has \<open>m\<close> frames to go.\<close>

definition play_queue :: "int \<Rightarrow> nat \<Rightarrow> fx list" where
  "play_queue d m = InProgress # concat (replicate m [FxNext, FxDelay d]) @ [FxFinish]"

definition playing :: "int \<Rightarrow> nat \<Rightarrow> viewer \<Rightarrow> bool" where
  "playing d m s \<longleftrightarrow> fxq s = play_queue d m \<and>
     (\<exists>i. fx_run s = Some i \<and> timers s = [(i, d)])"

text \<open>No animation pending, nothing queued: the viewer after loading, after Stop (once the last
  timer has fired), after any single-frame button.\<close>

definition idle :: "viewer \<Rightarrow> bool" where
  "idle s \<longleftrightarrow> fxq s = [] \<and> timers s = []"

lemma push_frames_queued:
  "fxq s \<noteq> [] \<Longrightarrow> hd (fxq s) = InProgress \<Longrightarrow>
   push_frames m s = Done (s\<lparr>fxq := fxq s @ concat (replicate m [FxDelay (kDelay s), FxNext])\<rparr>)"
  by (induction m arbitrary: s) (simp_all add: fx_push_def)

lemma delays_rotate:
  "concat (replicate m [D, N]) @ [D, F] = D # concat (replicate m [N, D]) @ [F]"
  by (induction m) simp_all

lemma push_first_delay:
  "fxq s = [] \<Longrightarrow> fx_push (FxDelay d) s = Done (start_timer d (s\<lparr>fxq := [InProgress], fx_run := None\<rparr>))"
  by (simp add: fx_push_def fx_dequeue.simps fx_cleanup_def start_timer_def)

lemma start_timer_simps [frame_simps]:
  "fxq (start_timer d s) = fxq s" "kDelay (start_timer d s) = kDelay s"
  "cur_viz (start_timer d s) = cur_viz s" "disabled (start_timer d s) = disabled s"
  by (simp_all add: start_timer_def cur_viz_def)

lemma play_buttons_simps [frame_simps]:
  "fxq (play_buttons s) = fxq s" "kDelay (play_buttons s) = kDelay s"
  "timers (play_buttons s) = timers s" "fx_run (play_buttons s) = fx_run s"
  "cur_viz (play_buttons s) = cur_viz s" "next_timer (play_buttons s) = next_timer s"
  by (simp_all add: play_buttons_def enable_def disable_def cur_viz_def)

lemma rewind_simps [frame_simps]:
  "fxq (rewind s) = fxq s" "kDelay (rewind s) = kDelay s" "timers (rewind s) = timers s"
  by (simp_all add: rewind_def map_cur_simps)

definition start_cursor :: "viz_pkg \<Rightarrow> int" where
  "start_cursor v = (if cursor v = num_frames v - 1 then -1 else cursor v)"

lemma cur_viz_rewind: "cur_viz (rewind s) = (cur_viz s)\<lparr>cursor := start_cursor (cur_viz s)\<rparr>"
  by (simp add: rewind_def start_cursor_def map_cur_simps)

lemma start_cursor_ok: "pkg_ok v \<Longrightarrow> pkg_ok (v\<lparr>cursor := start_cursor v\<rparr>)"
proof -
  assume v: "pkg_ok v"
  then have "1 \<le> num_frames v" by (simp add: pkg_ok_def loaded_def)
  with v show ?thesis by (simp add: pkg_ok_def start_cursor_def)
qed

definition rounds :: "viz_pkg \<Rightarrow> nat" where
  "rounds v = nat (num_frames v - start_cursor v + 1)"

lemma play_starts:
  assumes "idle s" and "pkg_ok (cur_viz s)"
  shows "\<exists>t. play s = Done t \<and> playing (kDelay s) (rounds (cur_viz s)) t \<and>
    cur_viz t = (cur_viz s)\<lparr>cursor := start_cursor (cur_viz s)\<rparr> \<and>
    (\<forall>b. disabled t b = (b \<noteq> StopBtn))"
proof -
  let ?d = "kDelay s" and ?r = "rewind s"
  obtain m where m: "rounds (cur_viz s) = Suc m"
    using assms(2) by (cases "rounds (cur_viz s)") (auto simp: rounds_def pkg_ok_def start_cursor_def split: if_splits)
  let ?s1 = "start_timer ?d (?r\<lparr>fxq := [InProgress], fx_run := None\<rparr>)"
  let ?s2 = "?s1\<lparr>fxq := InProgress # FxNext # concat (replicate m [FxDelay ?d, FxNext])\<rparr>"
  have q: "fxq ?r = []" using assms(1) by (simp add: idle_def frame_simps)
  have "fx_push FxNext ?s1 = Done (?s1\<lparr>fxq := [InProgress, FxNext]\<rparr>)"
    by (simp add: fx_push_def frame_simps)
  then have "push_frames (Suc m) ?r = Done ?s2"
    by (simp add: frame_simps push_first_delay [OF q] push_frames_queued)
  moreover have "nat (num_frames (cur_viz ?r) - cursor (cur_viz ?r) + 1) = Suc m"
    using m by (simp add: cur_viz_rewind rounds_def)
  ultimately have play: "play s = Done ((play_buttons ?s2)\<lparr>fxq := fxq ?s2 @ [FxDelay ?d, FxFinish]\<rparr>)"
    by (simp add: play_def Let_def fx_push_def frame_simps)
  have "fxq ?s2 @ [FxDelay ?d, FxFinish] = play_queue ?d (Suc m)"
    by (simp add: play_queue_def delays_rotate)
  moreover have "timers ?s1 = [(next_timer ?r, ?d)]" "fx_run ?s1 = Some (next_timer ?r)"
    using assms(1) by (simp_all add: start_timer_def idle_def frame_simps)
  ultimately have "playing ?d (Suc m) ((play_buttons ?s2)\<lparr>fxq := fxq ?s2 @ [FxDelay ?d, FxFinish]\<rparr>)"
    by (simp add: playing_def frame_simps)
  moreover have "disabled ((play_buttons ?s2)\<lparr>fxq := q\<rparr>) b = (b \<noteq> StopBtn)" for b q
    by (cases b) (simp_all add: play_buttons_def enable_def disable_def)
  ultimately show ?thesis
    using play m by (auto simp: frame_simps cur_viz_rewind)
qed

text \<open>One tick shows the next frame and starts the next delay.\<close>

lemma tick_frame:
  assumes "playing d (Suc m) s" and "pkg_ok (cur_viz s)"
  shows "\<exists>t. fire_running s = Done t \<and> playing d m t \<and> cur_viz t = inc_cursor (cur_viz s) \<and>
    canvas_html t = the (svgs (cur_viz s)) ! nat (cursor (inc_cursor (cur_viz s)) + 1)"
proof -
  obtain i where i: "fx_run s = Some i" "timers s = [(i, d)]"
    and q: "fxq s = InProgress # FxNext # FxDelay d # tl (play_queue d m)"
    using assms(1) by (auto simp: playing_def play_queue_def)
  let ?s1 = "s\<lparr>timers := [], fxq := InProgress # FxDelay d # tl (play_queue d m), fx_run := None\<rparr>"
  let ?s2 = "map_cur inc_cursor ?s1" let ?c = "cursor (inc_cursor (cur_viz s))"
  have pk: "pkg_ok (inc_cursor (cur_viz s))" using assms(2) by (rule inc_cursor_ok)
  then have hd: "refresh_head ?c ?s2 = Done (show_frame ?c ?s2)"
    by (intro refresh_head_loaded) (simp_all add: frame_simps pkg_ok_def)
  let ?s3 = "start_timer d ((show_frame ?c ?s2)\<lparr>fxq := play_queue d m, fx_run := None\<rparr>)"
  have "fxq (show_frame ?c ?s2) = InProgress # FxDelay d # tl (play_queue d m)"
    by (simp add: frame_simps)
  then have dq: "fx_dequeue (show_frame ?c ?s2) = Done ?s3"
    by (subst fx_dequeue.simps) (simp add: fx_cleanup_def frame_simps play_queue_def)
  have "fire_running s = fx_dequeue (s\<lparr>timers := []\<rparr>)"
    by (simp add: fire_running_def fire_timer_def i)
  also have "\<dots> = Done (fx_cleanup (?s3\<lparr>slider_value := ?c + 1\<rparr>))"
    using q by (simp add: fx_dequeue.simps [of "s\<lparr>timers := []\<rparr>"] Let_def frame_simps hd dq refresh_tail_def)
  also have "fx_cleanup (?s3\<lparr>slider_value := ?c + 1\<rparr>) = ?s3\<lparr>slider_value := ?c + 1\<rparr>"
    by (simp add: fx_cleanup_def frame_simps play_queue_def)
  finally have fire: "fire_running s = Done (?s3\<lparr>slider_value := ?c + 1\<rparr>)" .
  have "playing d m (?s3\<lparr>slider_value := ?c + 1\<rparr>)"
    by (simp add: playing_def start_timer_def frame_simps)
  moreover have "(inc_cursor (cur_viz s))\<lparr>cursor := ?c\<rparr> = inc_cursor (cur_viz s)" by simp
  moreover have "svgs (inc_cursor (cur_viz s)) = svgs (cur_viz s)" by (simp add: inc_cursor_def)
  ultimately show ?thesis using fire
    by (auto simp: frame_simps start_timer_def show_frame_def)
qed

lemma tick_finish:
  assumes "playing d 0 s"
  shows "\<exists>t. fire_running s = Done t \<and> fxq t = [InProgress] \<and> timers t = [] \<and> fx_run t = None \<and>
    cur_viz t = cur_viz s \<and> disabled t = disabled (idle_buttons s) \<and> canvas_html t = canvas_html s"
proof -
  obtain i where i: "fx_run s = Some i" "timers s = [(i, d)]" and q: "fxq s = [InProgress, FxFinish]"
    using assms by (auto simp: playing_def play_queue_def)
  have "fire_running s = fx_dequeue (s\<lparr>timers := []\<rparr>)"
    by (simp add: fire_running_def fire_timer_def i)
  also have "\<dots> = Done (idle_buttons (s\<lparr>timers := [], fxq := [InProgress], fx_run := None\<rparr>))"
    using q by (subst fx_dequeue.simps) (simp add: fx_cleanup_def)
  finally show ?thesis
    by (simp add: idle_buttons_def Let_def enable_def disable_def cur_viz_def)
qed

lemma svgs_inc_cursor [simp]: "svgs (inc_cursor v) = svgs v"
  by (simp add: inc_cursor_def)

lemma num_frames_iter [simp]: "num_frames ((inc_cursor ^^ k) v) = num_frames v"
  "svgs ((inc_cursor ^^ k) v) = svgs v"
  by (induction k) simp_all

lemma inc_cursor_iter:
  "k \<le> nat (num_frames v - 1 - cursor v) \<Longrightarrow>
     cursor ((inc_cursor ^^ k) v) = cursor v + int k"
proof (induction k)
  case (Suc k)
  then show ?case by (simp add: inc_cursor_def [of "(inc_cursor ^^ k) v"])
qed simp

lemma inc_cursor_saturates:
  assumes "cursor v < num_frames v" and "nat (num_frames v - 1 - cursor v) \<le> k"
  shows "cursor ((inc_cursor ^^ k) v) = num_frames v - 1"
  using assms
proof (induction k)
  case 0
  then show ?case by simp
next
  case (Suc k)
  show ?case
  proof (cases "nat (num_frames v - 1 - cursor v) \<le> k")
    case True
    with Suc show ?thesis by (simp add: inc_cursor_def [of "(inc_cursor ^^ k) v"])
  next
    case False
    then have "k = nat (num_frames v - 1 - cursor v) - 1" "k \<le> nat (num_frames v - 1 - cursor v)"
      using Suc.prems by auto
    then have "cursor ((inc_cursor ^^ k) v) = num_frames v - 2"
      using False by (simp add: inc_cursor_iter)
    then show ?thesis by (simp add: inc_cursor_def [of "(inc_cursor ^^ k) v"])
  qed
qed

lemma inc_cursor_iter_ok: "pkg_ok v \<Longrightarrow> pkg_ok ((inc_cursor ^^ k) v)"
  by (induction k) (simp_all add: inc_cursor_ok)

lemma run_ticks_Suc_end: "run_ticks (Suc k) s = and_then (run_ticks k s) fire_running"
proof (induction k arbitrary: s)
  case 0
  show ?case by (cases "fire_running s") simp_all
next
  case (Suc k)
  have "run_ticks (Suc (Suc k)) s = and_then (fire_running s) (run_ticks (Suc k))" by simp
  also have "\<dots> = and_then (fire_running s) (\<lambda>u. and_then (run_ticks k u) fire_running)"
    by (cases "fire_running s") (simp_all add: Suc del: run_ticks.simps(2))
  finally show ?case by (simp add: and_then_assoc)
qed

lemma ticks_play:
  assumes "playing d m s" and "pkg_ok (cur_viz s)" and "k \<le> m"
  shows "\<exists>t. run_ticks k s = Done t \<and> playing d (m - k) t \<and> cur_viz t = (inc_cursor ^^ k) (cur_viz s) \<and>
    (0 < k \<longrightarrow> canvas_html t = the (svgs (cur_viz s)) ! nat (cursor (cur_viz t) + 1))"
  using assms(3)
proof (induction k)
  case 0
  then show ?case using assms by simp
next
  case (Suc k)
  then obtain t where t: "run_ticks k s = Done t" "playing d (m - k) t"
    "cur_viz t = (inc_cursor ^^ k) (cur_viz s)" by auto
  have "m - k = Suc (m - Suc k)" using Suc.prems by simp
  then obtain u where "fire_running t = Done u" "playing d (m - Suc k) u"
    "cur_viz u = inc_cursor (cur_viz t)"
    "canvas_html u = the (svgs (cur_viz t)) ! nat (cursor (inc_cursor (cur_viz t)) + 1)"
    using tick_frame [of d "m - Suc k" t] t inc_cursor_iter_ok [OF assms(2), of k] by auto
  with t show ?case by (auto simp: run_ticks_Suc_end simp del: run_ticks.simps(2))
qed

section \<open>Loading in any order\<close>

definition load_all :: "(jstring \<times> bool \<times> jstring) list \<Rightarrow> viewer \<Rightarrow> viewer" where
  "load_all ls s = fold (\<lambda>(d, dd, t). load_data d dd t) ls s"

definition output_of :: "bool \<Rightarrow> viewer \<Rightarrow> viz_pkg" where
  "output_of dd s = (if dd then viz_dedup s else viz s)"

definition slot :: "jstring \<Rightarrow> bool \<Rightarrow> viewer \<Rightarrow> jstring list option" where
  "slot d dd s = (if d = delimiter_svgs then svgs (output_of dd s) else events (output_of dd s))"

text \<open>The state after the loads \<open>ls\<close>, where the two files of package \<open>dd\<close> have \<open>nf dd\<close> separators.\<close>

definition loads_inv :: "(bool \<Rightarrow> nat) \<Rightarrow> (jstring \<times> bool \<times> jstring) list \<Rightarrow> viewer \<Rightarrow> bool" where
  "loads_inv nf ls s \<longleftrightarrow> kDone s = 4 - int (length ls) \<and> (ui_shown s \<longleftrightarrow> length ls = 4) \<and>
     (\<forall>d dd t. (d, dd, t) \<in> set ls \<longrightarrow>
        slot d dd s = Some (js_split d t) \<and> num_frames (output_of dd s) = int (nf dd)) \<and>
     (\<forall>dd. cursor (output_of dd s) = -1) \<and> fxq s = [] \<and> timers s = [] \<and> params_ok s \<and>
     (\<forall>dd. static_svg (output_of dd s) = []) \<and> slider_max s = 0"

lemma delimiters_differ: "delimiter_events \<noteq> delimiter_svgs"
  by (simp add: delimiter_svgs_def delimiter_events_def)

lemma show_ui_simps:
  assumes "static_svg (cur_viz s) = []"
  shows "output_of dd (show_ui s) = output_of dd s" "kDone (show_ui s) = kDone s"
    "ui_shown (show_ui s)" "fxq (show_ui s) = fxq s" "timers (show_ui s) = timers s"
    "params_ok (show_ui s) = params_ok s" "slider_max (show_ui s) = slider_max s"
proof -
  have "cur_viz (show_legend ((disable [StopBtn] s)\<lparr>ui_shown := True\<rparr>)) = cur_viz s"
    by (simp add: cur_viz_def show_legend_def disable_def)
  then have *: "show_ui s = update_speed ((show_legend ((disable [StopBtn] s)\<lparr>ui_shown := True\<rparr>))
      \<lparr>requests := requests (show_legend ((disable [StopBtn] s)\<lparr>ui_shown := True\<rparr>)) @
         [dir (cur_viz s) @ js ''/static.zip'']\<rparr>)"
    using assms by (simp add: show_ui_def show_static_def)
  show "output_of dd (show_ui s) = output_of dd s" "kDone (show_ui s) = kDone s"
    "ui_shown (show_ui s)" "fxq (show_ui s) = fxq s" "timers (show_ui s) = timers s"
    "params_ok (show_ui s) = params_ok s" "slider_max (show_ui s) = slider_max s"
    unfolding * by (simp_all add: show_legend_def update_speed_def disable_def output_of_def params_ok_def)
qed

lemma load_data_simps:
  assumes "\<And>dd. static_svg (output_of dd s) = []"
  shows "output_of e (load_data d dd t s) =
      (if e = dd then store_data d t (output_of dd s) else output_of e s)"
    and "kDone (load_data d dd t s) = kDone s - 1"
    and "ui_shown (load_data d dd t s) \<longleftrightarrow> kDone s = 1 \<or> ui_shown s"
    and "fxq (load_data d dd t s) = fxq s" "timers (load_data d dd t s) = timers s"
    and "params_ok (load_data d dd t s) = params_ok s" "slider_max (load_data d dd t s) = slider_max s"
proof -
  let ?s = "(on_output dd (store_data d t) s)\<lparr>kDone := kDone (on_output dd (store_data d t) s) - 1\<rparr>"
  have "static_svg (output_of True s) = []" "static_svg (output_of False s) = []"
    using assms by simp_all
  then have st: "static_svg (cur_viz ?s) = []"
    by (simp add: cur_viz_def on_output_def output_of_def store_data_def Let_def)
  have ld: "load_data d dd t s = (if kDone s = 1 then show_ui ?s else ?s)"
    by (simp add: load_data_def Let_def on_output_def)
  have out: "output_of e ?s = (if e = dd then store_data d t (output_of dd s) else output_of e s)"
    by (simp add: on_output_def output_of_def)
  have same: "kDone ?s = kDone s - 1" "ui_shown ?s = ui_shown s" "fxq ?s = fxq s" "timers ?s = timers s"
    "params_ok ?s = params_ok s" "slider_max ?s = slider_max s"
    by (simp_all add: on_output_def params_ok_def)
  note [simp] = show_ui_simps [OF st]
  show "output_of e (load_data d dd t s) =
      (if e = dd then store_data d t (output_of dd s) else output_of e s)"
    using out by (cases "kDone s = 1") (simp_all only: ld show_ui_simps(1) [OF st] if_True if_False refl)
  show "kDone (load_data d dd t s) = kDone s - 1"
    "ui_shown (load_data d dd t s) \<longleftrightarrow> kDone s = 1 \<or> ui_shown s"
    "fxq (load_data d dd t s) = fxq s" "timers (load_data d dd t s) = timers s"
    "params_ok (load_data d dd t s) = params_ok s" "slider_max (load_data d dd t s) = slider_max s"
    using same by (cases "kDone s = 1";
        simp_all only: ld show_ui_simps [OF st] if_True if_False simp_thms)+
qed

lemma loads_inv_step:
  assumes "loads_inv nf ls s" and "(d, dd) \<notin> (\<lambda>(d, dd, t). (d, dd)) ` set ls"
    and "d = delimiter_svgs \<or> d = delimiter_events" and "\<forall>(d, _) \<in> set ls. d = delimiter_svgs \<or> d = delimiter_events"
    and "length (js_split d t) = Suc (nf dd)" and "length ls < 4"
  shows "loads_inv nf (ls @ [(d, dd, t)]) (load_data d dd t s)"
proof -
  have st: "\<And>dd. static_svg (output_of dd s) = []" using assms(1) by (simp add: loads_inv_def)
  note ld = load_data_simps [OF st]
  have new: "slot d dd (load_data d dd t s) = Some (js_split d t)"
    "num_frames (output_of dd (load_data d dd t s)) = int (nf dd)"
    using assms(5) by (auto simp: slot_def ld store_data_def Let_def)
  have old: "slot d' dd' (load_data d dd t s) = Some (js_split d' t') \<and>
      num_frames (output_of dd' (load_data d dd t s)) = int (nf dd')" if "(d', dd', t') \<in> set ls" for d' dd' t'
  proof -
    have prev: "slot d' dd' s = Some (js_split d' t')" "num_frames (output_of dd' s) = int (nf dd')"
      using assms(1) that by (auto simp: loads_inv_def)
    have ne: "(d', dd') \<noteq> (d, dd)" using assms(2) that by force
    have dl: "d' = delimiter_svgs \<or> d' = delimiter_events" using assms(4) that by auto
    show ?thesis
    proof (cases "dd' = dd")
      case True
      with ne have "d' \<noteq> d" by simp
      then show ?thesis
        using True prev dl assms(3) new(2) delimiters_differ
        by (auto simp: slot_def ld store_data_def Let_def)
    next
      case False
      then show ?thesis using prev unfolding slot_def ld by (simp split: if_splits)
    qed
  qed
  show ?thesis
    unfolding loads_inv_def
  proof (intro conjI allI impI)
    fix d' dd' t' assume "(d', dd', t') \<in> set (ls @ [(d, dd, t)])"
    then show "slot d' dd' (load_data d dd t s) = Some (js_split d' t')"
      "num_frames (output_of dd' (load_data d dd t s)) = int (nf dd')"
      using old new by auto
  qed (use assms(1,6) in \<open>auto simp: loads_inv_def ld store_data_def Let_def\<close>)
qed

lemma loads_inv_all:
  assumes "distinct (map (\<lambda>(d, dd, t). (d, dd)) ls)" and "length ls \<le> 4"
    and "\<forall>(d, dd, t) \<in> set ls. (d = delimiter_svgs \<or> d = delimiter_events) \<and> length (js_split d t) = Suc (nf dd)"
    and "loads_inv nf [] s"
  shows "loads_inv nf ls (load_all ls s)"
  using assms(1-3)
proof (induction ls rule: rev_induct)
  case Nil
  then show ?case using assms(4) by (simp add: load_all_def)
next
  case (snoc x ls)
  obtain d dd t where x: "x = (d, dd, t)" by (cases x) auto
  have "loads_inv nf ls (load_all ls s)" using snoc by simp
  then have "loads_inv nf (ls @ [(d, dd, t)]) (load_data d dd t (load_all ls s))"
    using snoc.prems by (intro loads_inv_step) (auto simp: x)
  then show ?case by (simp add: load_all_def x)
qed

lemma loads_inv_start: "loads_inv nf [] (init (initial_viewer moz))"
  by (simp add: loads_inv_def init_def get_data_def initial_viewer_def output_of_def VizPkg_def
      params_ok_def kMaxDelay_def kMinDelay_def kZoomMin_def kZoomMax_def kZoomStep_def)

text \<open>The four archives of the page, with their texts.\<close>

definition four_loads :: "jstring \<Rightarrow> jstring \<Rightarrow> jstring \<Rightarrow> jstring \<Rightarrow> (jstring \<times> bool \<times> jstring) list" where
  "four_loads t1 t2 t3 t4 = [(delimiter_svgs, False, t1), (delimiter_events, False, t2),
     (delimiter_svgs, True, t3), (delimiter_events, True, t4)]"

lemma four_loads_keys: "mset ls = mset (four_loads t1 t2 t3 t4) \<Longrightarrow>
    distinct (map (\<lambda>(d, dd, t). (d, dd)) ls) \<and> length ls = 4 \<and> set ls = set (four_loads t1 t2 t3 t4)"
proof -
  assume m: "mset ls = mset (four_loads t1 t2 t3 t4)"
  then have "mset (map (\<lambda>(d, dd, t). (d, dd)) ls) = mset (map (\<lambda>(d, dd, t). (d, dd)) (four_loads t1 t2 t3 t4))"
    by simp
  moreover have "distinct (map (\<lambda>(d, dd, t). (d, dd)) (four_loads t1 t2 t3 t4))"
    using delimiters_differ by (auto simp: four_loads_def)
  ultimately have "distinct (map (\<lambda>(d, dd, t). (d, dd)) ls)" by (metis mset_eq_imp_distinct_iff)
  moreover have "length ls = 4"
    using mset_eq_length [OF m] by (simp add: four_loads_def)
  ultimately show ?thesis using m by (metis mset_eq_setD)
qed

lemma loads_inv_viewer_ok:
  assumes "loads_inv nf ls s" and "set ls = set (four_loads t1 t2 t3 t4)" and "\<And>dd. 1 \<le> nf dd"
    and "length (js_split delimiter_svgs t1) = Suc (nf False)"
      "length (js_split delimiter_events t2) = Suc (nf False)"
      "length (js_split delimiter_svgs t3) = Suc (nf True)"
      "length (js_split delimiter_events t4) = Suc (nf True)"
  shows "viewer_ok s"
proof -
  have sl: "slot delimiter_svgs False s = Some (js_split delimiter_svgs t1)"
    "slot delimiter_events False s = Some (js_split delimiter_events t2)"
    "slot delimiter_svgs True s = Some (js_split delimiter_svgs t3)"
    "slot delimiter_events True s = Some (js_split delimiter_events t4)"
    "num_frames (output_of dd s) = int (nf dd)" "cursor (output_of dd s) = -1" for dd
    using assms(1,2) by (cases dd; auto simp: loads_inv_def four_loads_def)+
  have "pkg_ok (output_of dd s)" for dd
    using assms(3-7) sl delimiters_differ
    by (cases dd) (auto simp: pkg_ok_def loaded_def slot_def cong: option.case_cong)
  from this [of True] this [of False] have "pkg_ok (viz s)" "pkg_ok (viz_dedup s)"
    by (simp_all add: output_of_def)
  then show ?thesis
    using assms(1) by (auto simp: viewer_ok_def loads_inv_def queue_ok_def cur_viz_def pkg_ok_def loaded_def)
qed

section \<open>Properties\<close>

text \<open>
  C4. The four archives may arrive in any order: the page stays hidden until the last of them has
  arrived, is shown exactly then, and is then in a state from which every user event is safe, with
  each file stored as its pieces between separators (joining the pieces gives the text back).
\<close>

theorem loading_any_order:
  assumes "mset ls = mset (four_loads t1 t2 t3 t4)" and "1 \<le> n" and "1 \<le> m"
    and "length (js_split delimiter_svgs t1) = Suc n" and "length (js_split delimiter_events t2) = Suc n"
    and "length (js_split delimiter_svgs t3) = Suc m" and "length (js_split delimiter_events t4) = Suc m"
  shows "(\<forall>k. ui_shown (load_all (take k ls) (init (initial_viewer moz))) \<longleftrightarrow> 4 \<le> k) \<and>
    viewer_ok (load_all ls (init (initial_viewer moz))) \<and>
    (\<forall>d dd t. (d, dd, t) \<in> set ls \<longrightarrow>
       map_option (js_join d) (slot d dd (load_all ls (init (initial_viewer moz)))) = Some t)"
proof -
  let ?s = "init (initial_viewer moz)" let ?nf = "\<lambda>dd. if dd then m else n"
  note ls = four_loads_keys [OF assms(1)]
  have splits: "\<forall>(d, dd, t) \<in> set ls. (d = delimiter_svgs \<or> d = delimiter_events) \<and>
      length (js_split d t) = Suc (?nf dd)"
    using ls assms(4-7) by (auto simp: four_loads_def)
  have inv: "loads_inv ?nf (take k ls) (load_all (take k ls) ?s)" for k
  proof (rule loads_inv_all [OF _ _ _ loads_inv_start])
    show "distinct (map (\<lambda>(d, dd, t). (d, dd)) (take k ls))"
      using ls by (simp add: take_map [symmetric] distinct_take)
    show "\<forall>(d, dd, t) \<in> set (take k ls). (d = delimiter_svgs \<or> d = delimiter_events) \<and>
        length (js_split d t) = Suc (?nf dd)"
      using splits set_take_subset [of k ls] by blast
  qed (use ls in simp)
  have all: "loads_inv ?nf ls (load_all ls ?s)" using inv [of 4] ls by simp
  then have ok: "viewer_ok (load_all ls ?s)"
    using ls assms by (intro loads_inv_viewer_ok [of ?nf ls _ t1 t2 t3 t4]) auto
  have shown: "ui_shown (load_all (take k ls) ?s) \<longleftrightarrow> 4 \<le> k" for k
    using inv [of k] ls by (auto simp: loads_inv_def)
  have "map_option (js_join d) (slot d dd (load_all ls ?s)) = Some t" if "(d, dd, t) \<in> set ls" for d dd t
  proof -
    have "d \<noteq> []" using splits that by (auto simp: delimiter_svgs_def delimiter_events_def)
    moreover have "slot d dd (load_all ls ?s) = Some (js_split d t)"
      using all that by (auto simp: loads_inv_def)
    ultimately show ?thesis by (simp add: js_join_split)
  qed
  with ok shown show ?thesis by blast
qed

definition demo_text :: "jstring \<Rightarrow> jstring" where
  "demo_text d = d @ js ''one'' @ d @ js ''two''"

lemma demo_text_split:
  "js_split delimiter_svgs (demo_text delimiter_svgs) = [[], js ''one'', js ''two'']"
  "js_split delimiter_events (demo_text delimiter_events) = [[], js ''one'', js ''two'']"
  by (simp_all add: js_split_def demo_text_def delimiter_svgs_def delimiter_events_def)

definition demo_loads :: "(jstring \<times> bool \<times> jstring) list" where
  "demo_loads = four_loads (demo_text delimiter_svgs) (demo_text delimiter_events)
     (demo_text delimiter_svgs) (demo_text delimiter_events)"

theorem loading_any_order_witness:
  "ui_shown (load_all (rev demo_loads) (init (initial_viewer False))) \<and>
   \<not> ui_shown (load_all (take 3 (rev demo_loads)) (init (initial_viewer False)))"
proof -
  have "mset (rev demo_loads) = mset (four_loads (demo_text delimiter_svgs) (demo_text delimiter_events)
     (demo_text delimiter_svgs) (demo_text delimiter_events))"
    by (simp add: demo_loads_def)
  from loading_any_order [OF this, of 2 2 False]
  have *: "ui_shown (load_all (take k (rev demo_loads)) (init (initial_viewer False))) \<longleftrightarrow> 4 \<le> k" for k
    by (simp add: demo_text_split)
  have "take 4 (rev demo_loads) = rev demo_loads" by (simp add: demo_loads_def four_loads_def)
  with * [of 4] * [of 3] show ?thesis by simp
qed

text \<open>
  C5. After loading, whatever the user clicks, drags or waits for: every event that the page can
  raise completes without an exception, and the invariant holds in every state reached (the frame
  shown exists, cursors stay in range, delay and zoom stay in their bounds and on their grid).
\<close>

theorem viewer_events_safe:
  assumes "viewer_ok s0" and "ui_reach s0 s" and "enabled s e"
  shows "returned (handle e s) \<and> viewer_ok (state_of (handle e s))"
  using handle_good [OF ui_reach_ok [OF assms(2,1)] assms(3)] by (auto simp: good_def)

definition demo_viewer :: viewer where
  "demo_viewer = (initial_viewer False)\<lparr>
     viz := (VizPkg False (js ''images/raw''))\<lparr>svgs := Some [[], js ''one'', js ''two''],
       events := Some [[], js ''one'', js ''two''], num_frames := 2\<rparr>,
     viz_dedup := (VizPkg True (js ''images/dedup''))\<lparr>svgs := Some [[], js ''one''],
       events := Some [[], js ''one''], num_frames := 1\<rparr>,
     slider_max := 1\<rparr>"

lemmas demo_simps = demo_viewer_def initial_viewer_def VizPkg_def

lemma demo_viewer_ok: "viewer_ok demo_viewer"
  by (simp add: demo_simps viewer_ok_def pkg_ok_def loaded_def queue_ok_def params_ok_def cur_viz_def
      kMaxDelay_def kMinDelay_def kZoomMin_def kZoomMax_def kZoomStep_def)

theorem viewer_events_safe_witness:
  "returned (handle (Click PlayBtn) demo_viewer) \<and> viewer_ok (state_of (handle (Click PlayBtn) demo_viewer))"
proof (rule viewer_events_safe [OF demo_viewer_ok ui_reach.start])
  show "enabled demo_viewer (Click PlayBtn)" by (simp add: demo_simps)
qed

text \<open>
  C9. Playing from an idle viewer: after \<open>k\<close> delays the canvas shows the \<open>k\<close>-th frame after the
  start (the current frame, or the beginning if the current frame is the last), and stays on the
  last frame once it is reached.
\<close>

theorem play_shows_frames:
  assumes "idle s" and "pkg_ok (cur_viz s)" and "1 \<le> k" and "k \<le> rounds (cur_viz s)"
  shows "\<exists>t u. play s = Done t \<and> run_ticks k t = Done u \<and>
    cursor (cur_viz u) = min (start_cursor (cur_viz s) + int k) (num_frames (cur_viz s) - 1) \<and>
    canvas_html u = the (svgs (cur_viz s)) ! nat (cursor (cur_viz u) + 1)"
proof -
  let ?v = "(cur_viz s)\<lparr>cursor := start_cursor (cur_viz s)\<rparr>"
  obtain t where t: "play s = Done t" "playing (kDelay s) (rounds (cur_viz s)) t" "cur_viz t = ?v"
    using play_starts [OF assms(1,2)] by blast
  note v = start_cursor_ok [OF assms(2)]
  obtain u where u: "run_ticks k t = Done u" "cur_viz u = (inc_cursor ^^ k) ?v"
    "canvas_html u = the (svgs ?v) ! nat (cursor (cur_viz u) + 1)"
    using ticks_play [OF t(2) _ assms(4)] t(3) v assms(3) by auto
  have "cursor ((inc_cursor ^^ k) ?v) = min (start_cursor (cur_viz s) + int k) (num_frames (cur_viz s) - 1)"
  proof (cases "k \<le> nat (num_frames ?v - 1 - cursor ?v)")
    case True
    with v have "start_cursor (cur_viz s) + int k \<le> num_frames (cur_viz s) - 1"
      by (auto simp: pkg_ok_def)
    then show ?thesis by (simp add: inc_cursor_iter [OF True])
  next
    case False
    with v have "cursor ((inc_cursor ^^ k) ?v) = num_frames ?v - 1"
      by (intro inc_cursor_saturates) (simp_all add: pkg_ok_def)
    with False show ?thesis by simp
  qed
  with t u show ?thesis by auto
qed

lemma demo_idle: "idle demo_viewer" "pkg_ok (cur_viz demo_viewer)"
  using demo_viewer_ok by (simp_all add: idle_def demo_simps viewer_ok_core core_ok_cur)

theorem play_shows_frames_witness:
  "\<exists>t u. play demo_viewer = Done t \<and> run_ticks 2 t = Done u \<and> canvas_html u = js ''two''"
proof -
  have "(2::nat) \<le> rounds (cur_viz demo_viewer)"
    by (simp add: rounds_def start_cursor_def demo_simps cur_viz_def)
  from play_shows_frames [OF demo_idle _ this] show ?thesis
    by (force simp: start_cursor_def demo_simps cur_viz_def)
qed

text \<open>
  C32. A playback that is left alone ends on the last frame with the Play and navigation buttons
  enabled again and Stop disabled, but its last queue item never dequeues: the queue keeps its
  mark, so the next click on Play only queues items. No timer is started, every button but Stop is
  disabled, and the animation does not move until the user presses Stop.
\<close>

theorem second_play_hangs:
  assumes "idle s" and "pkg_ok (cur_viz s)"
  shows "\<exists>t u w. play s = Done t \<and> run_ticks (Suc (rounds (cur_viz s))) t = Done u \<and>
    cursor (cur_viz u) = num_frames (cur_viz s) - 1 \<and> \<not> disabled u PlayBtn \<and> disabled u StopBtn \<and>
    play u = Done w \<and> timers w = [] \<and> canvas_html w = canvas_html u \<and>
    (\<forall>b. disabled w b \<longleftrightarrow> b \<noteq> StopBtn) \<and> slider_disabled w"
proof -
  let ?v = "(cur_viz s)\<lparr>cursor := start_cursor (cur_viz s)\<rparr>" and ?m = "rounds (cur_viz s)"
  obtain t where t: "play s = Done t" "playing (kDelay s) ?m t" "cur_viz t = ?v"
    using play_starts [OF assms] by blast
  note v = start_cursor_ok [OF assms(2)]
  obtain x where x: "run_ticks ?m t = Done x" "playing (kDelay s) 0 x" "cur_viz x = (inc_cursor ^^ ?m) ?v"
    using ticks_play [OF t(2), of ?m] t(3) v by auto
  obtain u where u: "fire_running x = Done u" "fxq u = [InProgress]" "timers u = []" "cur_viz u = cur_viz x"
    "disabled u = disabled (idle_buttons x)"
    using tick_finish [OF x(2)] by blast
  have ru: "run_ticks (Suc ?m) t = Done u" using x(1) u(1) by (simp add: run_ticks_Suc_end del: run_ticks.simps(2))
  have cu: "cursor (cur_viz u) = num_frames (cur_viz s) - 1"
    unfolding u(4) x(3) using v
    by (subst inc_cursor_saturates) (auto simp: pkg_ok_def rounds_def)
  have btn: "\<not> disabled u PlayBtn" "disabled u StopBtn"
    by (simp_all add: u(5) idle_buttons_def Let_def enable_def disable_def)
  let ?r = "rewind u" and ?n = "nat (num_frames (cur_viz (rewind u)) - cursor (cur_viz (rewind u)) + 1)"
  let ?q = "[InProgress] @ concat (replicate ?n [FxDelay (kDelay u), FxNext])"
  have r: "fxq ?r = [InProgress]" using u(2) by (simp add: frame_simps)
  have "push_frames ?n ?r = Done (?r\<lparr>fxq := ?q\<rparr>)"
    by (subst push_frames_queued) (simp_all add: r u(2) frame_simps)
  then have w: "play u = Done ((play_buttons (?r\<lparr>fxq := ?q\<rparr>))\<lparr>fxq := ?q @ [FxDelay (kDelay u), FxFinish]\<rparr>)"
    by (simp add: play_def Let_def fx_push_def frame_simps)
  have dis: "disabled (play_buttons y) b \<longleftrightarrow> b \<noteq> StopBtn" "slider_disabled (play_buttons y)"
    "canvas_html (play_buttons y) = canvas_html y" for y b
    by (cases b) (simp_all add: play_buttons_def enable_def disable_def)
  have "timers ((play_buttons (?r\<lparr>fxq := ?q\<rparr>))\<lparr>fxq := z\<rparr>) = []"
    "canvas_html ((play_buttons (?r\<lparr>fxq := ?q\<rparr>))\<lparr>fxq := z\<rparr>) = canvas_html u" for z
    using u(3) by (simp_all add: frame_simps dis) (simp add: rewind_def map_cur_simps)
  then show ?thesis using t(1) ru cu btn w dis by auto
qed

theorem second_play_hangs_witness:
  "\<exists>t u w. play demo_viewer = Done t \<and> run_ticks (Suc (rounds (cur_viz demo_viewer))) t = Done u \<and>
     play u = Done w \<and> timers w = []"
  using second_play_hangs [OF demo_idle] by blast

text \<open>
  C33. Pressing Stop while an animation runs advances it by one more frame before it stops: jQuery's
  \<open>stop\<close> cancels the running delay and dequeues, which runs the pending \<open>next\<close>; only then is the
  queue cleared. The delay started by that frame is left behind as a stray timer.
\<close>

theorem stop_advances_one_frame:
  assumes "playing d (Suc m) s" and "pkg_ok (cur_viz s)"
  shows "\<exists>t i. stop s = Done t \<and> cur_viz t = inc_cursor (cur_viz s) \<and> fxq t = [] \<and> timers t = [(i, d)] \<and>
    canvas_html t = the (svgs (cur_viz s)) ! nat (cursor (inc_cursor (cur_viz s)) + 1) \<and>
    \<not> disabled t PlayBtn \<and> disabled t StopBtn"
proof -
  obtain i where i: "fx_run s = Some i" "timers s = [(i, d)]"
    and q: "fxq s = InProgress # FxNext # FxDelay d # tl (play_queue d m)"
    using assms(1) by (auto simp: playing_def play_queue_def)
  have same: "fx_stop s = fire_running s"
  proof -
    have "fx_dequeue (s\<lparr>fx_run := None, timers := []\<rparr>) = fx_dequeue (s\<lparr>timers := []\<rparr>)"
      using q by (simp add: fx_dequeue.simps [of "s\<lparr>fx_run := None, timers := []\<rparr>"]
        fx_dequeue.simps [of "s\<lparr>timers := []\<rparr>"])
    then show ?thesis by (simp add: fx_stop_def fire_running_def fire_timer_def i)
  qed
  obtain u j where u: "fire_running s = Done u" "timers u = [(j, d)]" "cur_viz u = inc_cursor (cur_viz s)"
    "canvas_html u = the (svgs (cur_viz s)) ! nat (cursor (inc_cursor (cur_viz s)) + 1)"
    using tick_frame [OF assms] by (auto simp: playing_def)
  have "fx_clear u = Done (u\<lparr>fxq := [], fx_run := None\<rparr>)"
    by (simp add: fx_clear_def fx_dequeue.simps fx_cleanup_def)
  then have "stop s = Done (idle_buttons (u\<lparr>fxq := [], fx_run := None\<rparr>))"
    by (simp add: stop_def same u(1))
  then show ?thesis
    using u by (simp add: idle_buttons_simps frame_simps)
qed

theorem stop_advances_one_frame_witness:
  "\<exists>t u. play demo_viewer = Done t \<and> cursor (cur_viz t) = -1 \<and> stop t = Done u \<and> cursor (cur_viz u) = 0"
proof -
  obtain t where t: "play demo_viewer = Done t" "playing 200 4 t" "cur_viz t = (viz demo_viewer)\<lparr>cursor := -1\<rparr>"
    using play_starts [OF demo_idle]
    by (auto simp: rounds_def start_cursor_def demo_simps cur_viz_def)
  have "playing 200 (Suc 3) t" "pkg_ok (cur_viz t)"
    using t(2,3) by (simp_all add: pkg_ok_def loaded_def demo_simps)
  from stop_advances_one_frame [OF this] t(1,3) show ?thesis
    by (auto simp: inc_cursor_def demo_simps)
qed

end
