(* ===== verification/Zip_Bytes.thy ===== *)
theory Zip_Bytes
  imports Js_Prelude
begin

text \<open>
  Binary data as \<^verbatim>\<open>html/lib/zip.js\<close> handles it: \<open>DataView\<close> getters and setters and
  \<open>Uint8Array.set\<close> on a byte list, with the \<open>RangeError\<close> of an access out of bounds, and the outcome
  type of the archive code: a call either delivers a value to its callback, calls its error callback
  with a message, or dies with an exception that nothing catches.
\<close>

section \<open>Outcomes\<close>

datatype zip_fail = OnError string | OnEvent | Uncaught js_error

type_synonym 'a zres = "zip_fail + 'a"

fun zbind :: "'a zres \<Rightarrow> ('a \<Rightarrow> 'b zres) \<Rightarrow> 'b zres" where
  "zbind (Inl e) f = Inl e"
| "zbind (Inr x) f = f x"

lemma zbind_Inr_iff: "zbind m f = Inr y \<longleftrightarrow> (\<exists>x. m = Inr x \<and> f x = Inr y)"
  by (cases m) simp_all

lemma zbind_cong [fundef_cong]: "m = m' \<Longrightarrow> (\<And>x. m' = Inr x \<Longrightarrow> f x = g x) \<Longrightarrow> zbind m f = zbind m' g"
  by (cases m') simp_all

section \<open>Numbers as bytes\<close>

text \<open>The \<open>n\<close> low bytes of a number, least or most significant first.\<close>

definition le :: "nat \<Rightarrow> int \<Rightarrow> byte list" where
  "le n v = map (\<lambda>k. of_int (v div 256 ^ k)) [0..<n]"

definition be :: "nat \<Rightarrow> int \<Rightarrow> byte list" where
  "be n v = rev (le n v)"

fun le_val :: "byte list \<Rightarrow> nat" where
  "le_val [] = 0"
| "le_val (b # bs) = unat b + 256 * le_val bs"

definition getUint :: "nat \<Rightarrow> bool \<Rightarrow> byte list \<Rightarrow> nat \<Rightarrow> nat zres" where
  "getUint n little bs i =
     (if i + n \<le> length bs
      then Inr (le_val (if little then take n (drop i bs) else rev (take n (drop i bs))))
      else Inl (Uncaught RangeError))"

abbreviation getUint8 :: "byte list \<Rightarrow> nat \<Rightarrow> nat zres" where
  "getUint8 \<equiv> getUint 1 True"

abbreviation getUint16 :: "byte list \<Rightarrow> nat \<Rightarrow> nat zres" where
  "getUint16 \<equiv> getUint 2 True"

abbreviation getUint32 :: "byte list \<Rightarrow> nat \<Rightarrow> nat zres" where
  "getUint32 \<equiv> getUint 4 True"

abbreviation getUint32_be :: "byte list \<Rightarrow> nat \<Rightarrow> nat zres" where
  "getUint32_be \<equiv> getUint 4 False"

text \<open>Writes: \<open>put i xs\<close> is \<open>array.set(xs, i)\<close>, and a \<open>setUint\<close> is a \<open>put\<close> of the bytes.\<close>

definition put :: "nat \<Rightarrow> byte list \<Rightarrow> byte list \<Rightarrow> byte list zres" where
  "put i xs bs =
     (if i + length xs \<le> length bs then Inr (take i bs @ xs @ drop (i + length xs) bs)
      else Inl (Uncaught RangeError))"

fun puts :: "(nat \<times> byte list) list \<Rightarrow> byte list \<Rightarrow> byte list zres" where
  "puts [] bs = Inr bs"
| "puts ((i, xs) # ws) bs = zbind (put i xs bs) (puts ws)"

section \<open>Laws\<close>

lemma length_le [simp]: "length (le n v) = n"
  by (simp add: le_def)

lemma length_be [simp]: "length (be n v) = n"
  by (simp add: be_def)

lemma le_Suc: "le (Suc n) v = of_int v # le n (v div 256)"
proof -
  have "[0..<Suc n] = 0 # map Suc [0..<n]" by (simp add: map_Suc_upt upt_conv_Cons del: upt_Suc)
  then show ?thesis by (simp add: le_def zdiv_zmult2_eq)
qed

lemma unat_of_int_byte: "unat (of_int v :: byte) = nat (v mod 256)"
  by (simp add: unsigned_of_int take_bit_eq_mod)

lemma le_val_le: "0 \<le> v \<Longrightarrow> v < 256 ^ n \<Longrightarrow> int (le_val (le n v)) = v"
proof (induction n arbitrary: v)
  case 0
  then show ?case by (simp add: le_def)
next
  case (Suc n)
  have "v div 256 < 256 ^ n" using Suc.prems by (simp add: div_less_iff_less_mult mult.commute)
  then have "int (le_val (le n (v div 256))) = v div 256" using Suc by (simp add: pos_imp_zdiv_nonneg_iff)
  then have "int (le_val (le (Suc n) v)) = v mod 256 + 256 * (v div 256)"
    by (simp add: le_Suc unat_of_int_byte)
  then show ?case by simp
qed

lemma le_val_nat: "v < 256 ^ n \<Longrightarrow> le_val (le n (int v)) = v"
  using le_val_le [of "int v" n] by (simp flip: of_nat_power)

lemma getUint_le:
  assumes "v < 256 ^ n"
  shows "getUint n True (a @ le n (int v) @ c) (length a) = Inr v"
  using assms by (simp add: getUint_def le_val_nat)

lemma getUint_be:
  assumes "v < 256 ^ n"
  shows "getUint n False (a @ be n (int v) @ c) (length a) = Inr v"
  using assms by (simp add: getUint_def be_def le_val_nat)

text \<open>Reading and writing inside a part of a longer buffer.\<close>

lemma getUint_append: "length a \<le> i \<Longrightarrow> getUint n l (a @ bs) i = getUint n l bs (i - length a)"
  by (auto simp: getUint_def)

lemma getUint_shift: "getUint n l (a @ bs) (length a + i) = getUint n l bs i"
  by (simp add: getUint_append)

lemma getUint_left: "i + n \<le> length a \<Longrightarrow> getUint n l (a @ bs) i = getUint n l a i"
  by (simp add: getUint_def)

lemma put_shift: "put (length a + i) xs (a @ bs) = zbind (put i xs bs) (\<lambda>bs'. Inr (a @ bs'))"
  by (simp add: put_def)

lemma put_left: "i + length xs \<le> length bs \<Longrightarrow> put i xs (bs @ c) = zbind (put i xs bs) (\<lambda>bs'. Inr (bs' @ c))"
  by (simp add: put_def)

lemma put_length: "put i xs bs = Inr bs' \<Longrightarrow> length bs' = length bs"
  by (auto simp: put_def split: if_splits)

lemma puts_length: "puts ws bs = Inr bs' \<Longrightarrow> length bs' = length bs"
proof (induction ws bs rule: puts.induct)
  case (2 i xs ws bs)
  then show ?case by (fastforce simp: zbind_Inr_iff dest: put_length)
qed simp

lemma puts_append: "puts (ws @ vs) bs = zbind (puts ws bs) (puts vs)"
proof (induction ws bs rule: puts.induct)
  case (2 i xs ws bs)
  then show ?case by (cases "put i xs bs") simp_all
qed simp

lemma puts_shift:
  "puts (map (\<lambda>(i, xs). (length a + i, xs)) ws) (a @ bs) = zbind (puts ws bs) (\<lambda>bs'. Inr (a @ bs'))"
proof (induction ws bs rule: puts.induct)
  case (2 i xs ws bs)
  then show ?case by (cases "put i xs bs") (simp_all add: put_shift)
qed simp

lemma puts_left:
  "\<forall>(i, xs) \<in> set ws. i + length xs \<le> length bs \<Longrightarrow>
     puts ws (bs @ c) = zbind (puts ws bs) (\<lambda>bs'. Inr (bs' @ c))"
proof (induction ws bs rule: puts.induct)
  case (2 i xs ws bs)
  obtain bs' where bs': "put i xs bs = Inr bs'" using "2.prems" by (auto simp: put_def)
  with "2.prems" "2.IH" [OF bs'] put_length [OF bs'] show ?case
    by (auto simp: put_left)
qed simp

end
