(* ===== verification/Text_Codec.thy ===== *)
theory Text_Codec
  imports Js_Prelude
begin

text \<open>
  The string and date codecs of \<^verbatim>\<open>html/lib/zip.js\<close>: file names as bytes (\<open>getBytes\<close>,
  \<open>getString\<close>, \<open>encodeUTF8\<close>, \<open>decodeUTF8\<close>, \<open>decodeASCII\<close>) and MS-DOS dates (\<open>getDate\<close> and the
  two 16-bit fields \<open>writeHeader\<close> packs). \<open>encodeUTF8\<close> works on UTF-16 code units, not on code
  points, so a surrogate pair becomes two three-byte sequences; \<open>decodeUTF8\<close> reverses exactly that.
\<close>

section \<open>Bytes and strings\<close>

definition getString :: "byte list \<Rightarrow> jstring" where
  "getString bytes = map ucast bytes"

text \<open>\<open>getBytes\<close> collects character codes; storing them in a byte array keeps the low 8 bits.\<close>

definition getBytes :: "jstring \<Rightarrow> byte list" where
  "getBytes str = map ucast str"

section \<open>UTF-8\<close>

text \<open>
  The two- and three-byte sequences. Bit operations on character codes never leave 16 bits here.
\<close>

definition enc2 :: "code_unit \<Rightarrow> jstring" where
  "enc2 c = [drop_bit 6 c OR 192, (c AND 63) OR 128]"

definition enc3 :: "code_unit \<Rightarrow> jstring" where
  "enc3 c = [drop_bit 12 c OR 224, (drop_bit 6 c AND 63) OR 128, (c AND 63) OR 128]"

definition slice :: "'a list \<Rightarrow> nat \<Rightarrow> nat \<Rightarrow> 'a list" where
  "slice s a b = take (b - a) (drop a s)"

text \<open>The loop of \<open>encodeUTF8\<close>: \<open>start\<close> and \<open>stop\<close> delimit the pending run of one-byte characters.\<close>

function encode_loop :: "jstring \<Rightarrow> nat \<Rightarrow> nat \<Rightarrow> nat \<Rightarrow> jstring \<Rightarrow> jstring" where
  "encode_loop s n start stop utftext =
     (if n < length s
      then (let c1 = s ! n in
        if c1 < 128 then encode_loop s (n + 1) start (stop + 1) utftext
        else (let enc = (if c1 > 127 \<and> c1 < 2048 then enc2 c1 else enc3 c1);
                  flushed = (if stop > start then utftext @ slice s start stop else utftext)
              in encode_loop s (n + 1) (n + 1) (n + 1) (flushed @ enc)))
      else (if stop > start then utftext @ slice s start (length s) else utftext))"
  by pat_completeness auto
termination
  by (relation "measure (\<lambda>(s, n, _). length s - n)") auto

declare encode_loop.simps [simp del]

definition encodeUTF8 :: "jstring \<Rightarrow> jstring" where
  "encodeUTF8 s = encode_loop s 0 0 0 []"

text \<open>
  \<open>charCodeAt\<close> past the end is \<open>NaN\<close>, and \<open>NaN & 63\<close> is 0.
\<close>

definition code_or_0 :: "jstring \<Rightarrow> nat \<Rightarrow> code_unit" where
  "code_or_0 s i = (if i < length s then s ! i else 0)"

fun decodeUTF8 :: "jstring \<Rightarrow> jstring" where
  "decodeUTF8 [] = []"
| "decodeUTF8 (c1 # s) =
     (if c1 < 128 then c1 # decodeUTF8 s
      else if c1 > 191 \<and> c1 < 224
      then (push_bit 6 (c1 AND 31) OR (code_or_0 s 0 AND 63)) # decodeUTF8 (drop 1 s)
      else (push_bit 12 (c1 AND 15) OR push_bit 6 (code_or_0 s 0 AND 63) OR (code_or_0 s 1 AND 63))
        # decodeUTF8 (drop 2 s))"

section \<open>Extended ASCII\<close>

definition extendedASCII :: jstring where
  "extendedASCII = [199, 252, 233, 226, 228, 224, 229, 231, 234, 235, 232, 239, 238, 236, 196, 197,
     201, 230, 198, 244, 246, 242, 251, 249, 255, 214, 220, 248, 163, 216, 215, 402, 225, 237, 243,
     250, 241, 209, 170, 186, 191, 174, 172, 189, 188, 161, 171, 187, 95, 95, 95, 166, 166, 193,
     194, 192, 169, 166, 166, 43, 43, 162, 165, 43, 43, 45, 45, 43, 45, 43, 227, 195, 43, 43, 45,
     45, 166, 45, 43, 164, 240, 208, 202, 203, 200, 105, 205, 206, 207, 43, 43, 95, 95, 166, 204,
     95, 211, 223, 212, 210, 245, 213, 181, 254, 222, 218, 219, 217, 253, 221, 175, 180, 173, 177,
     95, 190, 182, 167, 247, 184, 176, 168, 183, 185, 179, 178, 95, 32]"

definition decodeASCII :: "jstring \<Rightarrow> jstring" where
  "decodeASCII s = map (\<lambda>c. let charCode = c AND 0xFF in
     if charCode > 127 then extendedASCII ! (unat charCode - 128) else charCode) s"

section \<open>MS-DOS dates\<close>

text \<open>The arguments of the \<open>Date\<close> constructor; months count from 0.\<close>

record js_date =
  year :: int
  month :: int
  day :: int
  hours :: int
  minutes :: int
  seconds :: int

definition getDate :: "32 word \<Rightarrow> js_date" where
  "getDate timeRaw =
     (let date = signed_drop_bit 16 (timeRaw AND 0xFFFF0000); time = timeRaw AND 0x0000FFFF
      in \<lparr>year = 1980 + uint (drop_bit 9 (date AND 0xFE00)),
          month = uint (drop_bit 5 (date AND 0x01E0)) - 1,
          day = uint (date AND 0x001F),
          hours = uint (drop_bit 11 (time AND 0xF800)),
          minutes = uint (drop_bit 5 (time AND 0x07E0)),
          seconds = uint (time AND 0x001F) * 2\<rparr>)"

text \<open>The two fields of \<open>writeHeader\<close>, before \<open>setUint16\<close> keeps their low 16 bits.\<close>

definition dos_time :: "js_date \<Rightarrow> int" where
  "dos_time d = push_bit 5 (push_bit 6 (hours d) OR minutes d) OR (seconds d div 2)"

definition dos_date :: "js_date \<Rightarrow> int" where
  "dos_date d = push_bit 5 (push_bit 4 (year d - 1980) OR (month d + 1)) OR day d"

section \<open>The encoder as a map over characters\<close>

definition enc1 :: "code_unit \<Rightarrow> jstring" where
  "enc1 c = (if c < 128 then [c] else if c < 2048 then enc2 c else enc3 c)"

lemma slice_Suc: "a \<le> b \<Longrightarrow> b < length s \<Longrightarrow> slice s a (Suc b) = slice s a b @ [s ! b]"
  by (simp add: slice_def Suc_diff_le take_Suc_conv_app_nth)

lemma slice_empty [simp]: "slice s a a = []"
  by (simp add: slice_def)

lemma above_127: "c > 127 \<longleftrightarrow> \<not> c < 128" for c :: code_unit
proof -
  have "c > 127 \<longleftrightarrow> 127 < unat c" "c < 128 \<longleftrightarrow> unat c < 128"
    by (simp_all add: word_less_nat_alt)
  then show ?thesis by arith
qed

lemma encode_loop_map:
  assumes "start \<le> n" and "n \<le> length s"
  shows "encode_loop s n start n utftext = utftext @ slice s start n @ concat (map enc1 (drop n s))"
  using assms
proof (induction "length s - n" arbitrary: n start utftext)
  case 0
  then show ?case by (simp add: encode_loop.simps [of s n])
next
  case (Suc k)
  then have n: "n < length s" "k = length s - (n + 1)" by auto
  have d: "drop n s = s ! n # drop (n + 1) s" using n by (simp add: Cons_nth_drop_Suc)
  show ?case
  proof (cases "s ! n < 128")
    case True
    then show ?thesis
      using Suc.hyps(1) [OF n(2), of start utftext] Suc.prems n
      by (simp add: encode_loop.simps [of s n] d enc1_def slice_Suc)
  next
    case False
    then show ?thesis
      using Suc.hyps(1) [OF n(2), of "n + 1"] Suc.prems n
      by (auto simp: encode_loop.simps [of s n] d enc1_def above_127 Let_def)
  qed
qed

lemma encodeUTF8_map: "encodeUTF8 s = concat (map enc1 s)"
  by (simp add: encodeUTF8_def encode_loop_map)

section \<open>Decoding what was encoded\<close>

lemma bit_below: "c < 2 ^ k \<Longrightarrow> bit c n \<Longrightarrow> n < k" for c :: "code_unit"
  by (metis bit_take_bit_iff leD less_mask_eq take_bit_eq_mask)

lemma low_bits: "take_bit k h = 0 \<Longrightarrow> i < k \<Longrightarrow> \<not> bit h i" for h :: "code_unit"
  by (metis bit_take_bit_iff bit_0_eq bot_apply bot_bool_def)

lemma join2:
  fixes c h m :: "code_unit"
  assumes "take_bit 5 h = 0" and "take_bit 6 m = 0" and "c < 2 ^ 11"
  shows "push_bit 6 ((drop_bit 6 c OR h) AND mask 5) OR (((c AND mask 6) OR m) AND mask 6) = c"
proof (rule bit_word_eqI)
  fix n assume "n < LENGTH(16)"
  then show "bit (push_bit 6 ((drop_bit 6 c OR h) AND mask 5) OR (((c AND mask 6) OR m) AND mask 6)) n = bit c n"
    using low_bits [OF assms(1), of "n - 6"] low_bits [OF assms(2), of n] bit_below [OF assms(3), of n]
    by (cases "n < 6") (auto simp: bit_simps)
qed

lemma join3:
  fixes c h m :: "code_unit"
  assumes "take_bit 4 h = 0" and "take_bit 6 m = 0"
  shows "push_bit 12 ((drop_bit 12 c OR h) AND mask 4) OR push_bit 6 (((drop_bit 6 c AND mask 6) OR m) AND mask 6)
     OR (((c AND mask 6) OR m) AND mask 6) = c"
proof (rule bit_word_eqI)
  fix n assume n: "n < LENGTH(16)"
  consider "n < 6" | "6 \<le> n" "n < 12" | "12 \<le> n" by linarith
  then show "bit (push_bit 12 ((drop_bit 12 c OR h) AND mask 4) OR push_bit 6 (((drop_bit 6 c AND mask 6) OR m) AND mask 6)
     OR (((c AND mask 6) OR m) AND mask 6)) n = bit c n"
    using n low_bits [OF assms(1), of "n - 12"] low_bits [OF assms(2), of n] low_bits [OF assms(2), of "n - 6"]
    by cases (auto simp: bit_simps)
qed

lemma lead_range: "a < 32 \<Longrightarrow> 191 < (a OR 192 :: code_unit) \<and> (a OR 192 :: code_unit) < 224"
proof -
  assume a: "a < 32"
  have "a AND 192 = 0"
  proof (rule bit_word_eqI)
    fix n assume "n < LENGTH(16)"
    have "take_bit 5 (192 :: code_unit) = 0" by simp
    then show "bit (a AND 192) n = bit 0 n" using bit_below [of a 5 n] a low_bits [of 5 192 n] by (auto simp: bit_and_iff)
  qed
  then have "a OR 192 = a + 192" by (simp add: disjunctive_add_eq_or)
  moreover have u: "unat a < 32" using a by (simp add: word_less_nat_alt)
  then have "unat (a + 192) = unat a + 192" by (simp add: unat_word_ariths)
  ultimately show ?thesis using u by (simp add: word_less_nat_alt)
qed

lemmas octet_masks = mask_eq_exp_minus_1 [of 4, where 'a = "code_unit"]
  mask_eq_exp_minus_1 [of 5, where 'a = "code_unit"] mask_eq_exp_minus_1 [of 6, where 'a = "code_unit"]

lemma decode_enc2: "\<not> c < 128 \<Longrightarrow> c < 2048 \<Longrightarrow> decodeUTF8 (enc2 c @ s) = c # decodeUTF8 s"
proof -
  assume c: "\<not> c < 128" "c < 2048"
  have "unat (drop_bit 6 c) = unat c div 64"
    by (simp only: unat_drop_bit_eq) (simp add: drop_bit_eq_div)
  moreover have "unat c < 2048" using c(2) by (simp add: word_less_nat_alt)
  ultimately have "drop_bit 6 c < 32" by (simp only: word_less_nat_alt) simp
  then have r: "191 < drop_bit 6 c OR 192" "drop_bit 6 c OR 192 < 224" by (simp_all add: lead_range)
  have "\<not> (drop_bit 6 c OR 192 < 128)"
    using r(1) by (simp add: word_less_nat_alt)
  then show ?thesis
    using r join2 [of 192 128 c] c(2)
    by (simp add: enc2_def code_or_0_def octet_masks)
qed

lemma decode_enc3: "decodeUTF8 (enc3 c @ s) = c # decodeUTF8 s"
proof -
  have r: "224 \<le> drop_bit 12 c OR 224" by (rule le_word_or1)
  have "\<not> (drop_bit 12 c OR 224 < 128)" "\<not> (drop_bit 12 c OR 224 < 224)"
    using r by (auto simp: word_less_nat_alt word_le_nat_alt)
  then show ?thesis
    using join3 [of 224 128 c]
    by (simp add: enc3_def code_or_0_def octet_masks numeral_2_eq_2)
qed

lemma decode_enc1: "decodeUTF8 (enc1 c @ s) = c # decodeUTF8 s"
  by (simp add: enc1_def decode_enc2 decode_enc3)

lemma decode_encode: "decodeUTF8 (encodeUTF8 s) = s"
  by (induction s) (simp_all add: encodeUTF8_map decode_enc1)

text \<open>Every unit of an encoded string fits in a byte, so storing it in a byte array loses nothing.\<close>

lemma octet: "(\<And>n. bit u n \<Longrightarrow> n < 8) \<Longrightarrow> ucast (ucast u :: byte) = u" for u :: code_unit
  by (rule bit_word_eqI) (auto simp: bit_ucast_iff)

lemma lead_bits: "bit (192 :: code_unit) n \<Longrightarrow> n < 8" "bit (128 :: code_unit) n \<Longrightarrow> n < 8"
  "bit (224 :: code_unit) n \<Longrightarrow> n < 8"
  using bit_below [of 192 8 n] bit_below [of 128 8 n] bit_below [of 224 8 n] by simp_all

lemma enc1_octets: "u \<in> set (enc1 c) \<Longrightarrow> ucast (ucast u :: byte) = u"
proof (rule octet)
  fix n assume u: "u \<in> set (enc1 c)" and b: "bit u n"
  have m: "(63 :: code_unit) = mask 6" by (simp add: octet_masks)
  have d: "bit (drop_bit 12 c) n \<Longrightarrow> n < 8" "c < 2048 \<Longrightarrow> bit (drop_bit 6 c) n \<Longrightarrow> n < 8"
    using bit_imp_le_length [of c "12 + n"] bit_below [of c 11 "6 + n"]
    by (auto simp: bit_drop_bit_eq)
  show "n < 8"
  proof (cases "c < 128")
    case True
    with u b bit_below [of c 7 n] show ?thesis by (simp add: enc1_def)
  next
    case False
    show ?thesis
    proof (cases "c < 2048")
      case True
      with u b False d lead_bits [of n] show ?thesis
        by (auto simp: enc1_def enc2_def m bit_or_iff bit_and_iff bit_mask_iff)
    next
      case False
      with u b \<open>\<not> c < 128\<close> d lead_bits [of n] show ?thesis
        by (auto simp: enc1_def enc3_def m bit_or_iff bit_and_iff bit_mask_iff)
    qed
  qed
qed

lemma getString_getBytes_encode: "getString (getBytes (encodeUTF8 s)) = encodeUTF8 s"
  unfolding getString_def getBytes_def encodeUTF8_map map_map
  by (rule map_idI) (auto dest: enc1_octets)

section \<open>Date fields\<close>

lemma field_of: "drop_bit k (x AND push_bit k (mask m)) = take_bit m (drop_bit k x)" for x :: "32 word"
  by (rule bit_word_eqI) (auto simp: bit_simps dest: bit_imp_le_length)

lemma field_masks:
  "(0xFE00 :: 32 word) = push_bit 9 (mask 7)" "(0x01E0 :: 32 word) = push_bit 5 (mask 4)"
  "(0x001F :: 32 word) = mask 5" "(0xF800 :: 32 word) = push_bit 11 (mask 5)"
  "(0x07E0 :: 32 word) = push_bit 5 (mask 6)" "(0xFFFF :: 32 word) = mask 16"
  "(0xFFFF0000 :: 32 word) = push_bit 16 (mask 16)"
  by (simp_all add: mask_eq_exp_minus_1)

lemma high_half: "take_bit 16 (signed_drop_bit 16 (x AND push_bit 16 (mask 16))) = drop_bit 16 x" for x :: "32 word"
  by (rule bit_word_eqI) (auto simp: bit_simps bit_signed_drop_bit_iff min_def dest: bit_imp_le_length)

lemma field_of_half: "k + m \<le> 16 \<Longrightarrow> take_bit m (drop_bit k x) = take_bit m (drop_bit k (take_bit 16 x))" for x :: "32 word"
  by (rule bit_word_eqI) (auto simp: bit_simps)

lemma uint_mod32 [simp]: "uint w mod 4294967296 = uint w" for w :: "32 word"
proof -
  have "0 \<le> uint w" "uint w < 2 ^ LENGTH(32)" by (rule uint_ge_0, rule unsigned_less)
  then show ?thesis by simp
qed

lemma uint_field: "uint (take_bit m (drop_bit k (w :: 32 word))) = uint w div 2 ^ k mod 2 ^ m"
  by (simp only: unsigned_take_bit_eq unsigned_drop_bit_eq) (simp add: take_bit_eq_mod drop_bit_eq_div)

text \<open>\<open>getDate\<close> as division and remainder on the two 16-bit halves.\<close>

lemma getDate_fields:
  "getDate w = (let d = uint w div 65536; t = uint w mod 65536
     in \<lparr>year = 1980 + d div 512 mod 128, month = d div 32 mod 16 - 1, day = d mod 32,
        hours = t div 2048 mod 32, minutes = t div 32 mod 64, seconds = t mod 32 * 2\<rparr>)"
proof -
  let ?s = "signed_drop_bit 16 (w AND push_bit 16 (mask 16))"
  have d: "uint (take_bit m (drop_bit k ?s)) = uint w div 65536 div 2 ^ k mod 2 ^ m" if "k + m \<le> 16" for k m
  proof -
    have "take_bit m (drop_bit k ?s) = take_bit m (drop_bit k (drop_bit 16 w))"
      using that by (subst field_of_half) (simp_all only: high_half)
    then show ?thesis by (simp only: uint_field) (simp only: unsigned_drop_bit_eq, simp add: take_bit_eq_mod drop_bit_eq_div)
  qed
  have t: "uint (take_bit m (drop_bit k (w AND mask 16))) = uint w mod 65536 div 2 ^ k mod 2 ^ m" for k m
    by (simp only: uint_field take_bit_eq_mask [symmetric]) (simp only: unsigned_take_bit_eq, simp add: take_bit_eq_mod)
  have low: "x AND mask 5 = take_bit 5 (drop_bit 0 x)" for x :: "32 word"
    by (simp only: take_bit_eq_mask drop_bit_0 id_apply)
  show ?thesis
    unfolding getDate_def Let_def field_masks field_of low
    by (simp only: d t) simp
qed

lemma or_fields: "0 \<le> b \<Longrightarrow> b < 2 ^ k \<Longrightarrow> push_bit k a OR b = a * 2 ^ k + b" for a b :: int
proof -
  assume b: "0 \<le> b" "b < 2 ^ k"
  have "push_bit k a AND b = 0"
  proof (rule bit_eqI)
    fix n
    have "b = take_bit k b" using b by (simp add: take_bit_int_eq_self)
    then have "bit b n \<Longrightarrow> n < k" by (metis bit_take_bit_iff)
    then show "bit (push_bit k a AND b) n = bit 0 n" by (auto simp: bit_and_iff bit_push_bit_iff)
  qed
  then show ?thesis by (metis disjunctive_add_eq_or push_bit_eq_mult)
qed

definition date_ok :: "js_date \<Rightarrow> bool" where
  "date_ok d \<longleftrightarrow> 1980 \<le> year d \<and> year d \<le> 2107 \<and> 0 \<le> month d \<and> month d \<le> 11 \<and> 1 \<le> day d \<and>
     day d \<le> 31 \<and> 0 \<le> hours d \<and> hours d \<le> 23 \<and> 0 \<le> minutes d \<and> minutes d \<le> 59 \<and>
     0 \<le> seconds d \<and> seconds d \<le> 59"

lemma dos_fields:
  assumes "date_ok d"
  shows "dos_time d = hours d * 2048 + minutes d * 32 + seconds d div 2"
    and "dos_date d = (year d - 1980) * 512 + (month d + 1) * 32 + day d"
proof -
  have s: "0 \<le> seconds d div 2" "seconds d div 2 < 2 ^ 5" "0 \<le> minutes d" "minutes d < 2 ^ 6"
    and m: "0 \<le> month d + 1" "month d + 1 < 2 ^ 4" "0 \<le> day d" "day d < 2 ^ 5"
    using assms by (auto simp: date_ok_def)
  show "dos_time d = hours d * 2048 + minutes d * 32 + seconds d div 2"
    by (simp only: dos_time_def or_fields [OF s(1,2)] or_fields [OF s(3,4)]) simp
  show "dos_date d = (year d - 1980) * 512 + (month d + 1) * 32 + day d"
    by (simp only: dos_date_def or_fields [OF m(1,2)] or_fields [OF m(3,4)]) simp
qed

lemma dos_range: "date_ok d \<Longrightarrow> 0 \<le> dos_time d \<and> dos_time d < 65536"
  "date_ok d \<Longrightarrow> 0 \<le> dos_date d \<and> dos_date d < 65536"
  by (auto simp: dos_fields date_ok_def)

text \<open>A number in mixed radix: \<open>n\<close> units of \<open>k * j\<close>, \<open>a\<close> of \<open>k\<close> and \<open>b\<close> rest.\<close>

lemma mixed_radix:
  fixes n a b k j :: int
  assumes "0 \<le> a" "a < j" "0 \<le> b" "b < k"
  shows "(n * (k * j) + a * k + b) div (k * j) = n" "(n * (k * j) + a * k + b) div k mod j = a"
    "(n * (k * j) + a * k + b) mod k = b"
proof -
  have k: "0 < k" and j: "0 < j" using assms by auto
  have "a * k + b < (a + 1) * k" using assms by (simp add: algebra_simps)
  also have "\<dots> \<le> j * k" using assms k by (intro mult_right_mono) auto
  finally have "a * k + b < k * j" by (simp add: mult.commute)
  moreover have "0 \<le> a * k + b" using assms k by simp
  ultimately have "(a * k + b) div (k * j) = 0" by simp
  then show "(n * (k * j) + a * k + b) div (k * j) = n"
    using div_mult_self3 [of "k * j" n "a * k + b"] k j by (simp add: add.assoc)
  have e: "n * (k * j) + a * k + b = (n * j + a) * k + b" by (simp add: algebra_simps)
  then have "(n * (k * j) + a * k + b) div k = n * j + a"
    using div_mult_self3 [of k "n * j + a" b] assms k by simp
  then show "(n * (k * j) + a * k + b) div k mod j = a" using assms by simp
  show "(n * (k * j) + a * k + b) mod k = b" using e assms by simp
qed

lemma uint_of_small: "0 \<le> x \<Longrightarrow> x < 2 ^ 32 \<Longrightarrow> uint (word_of_int x :: 32 word) = x"
  by (simp add: unsigned_of_int take_bit_int_eq_self)

section \<open>Properties\<close>

text \<open>
  C18. A file name survives the way into an archive and out again: encoded as UTF-8, stored as
  bytes, read back and decoded, every string of UTF-16 code units is recovered, surrogates
  (paired or not) included.
\<close>

theorem utf8_roundtrip: "decodeUTF8 (getString (getBytes (encodeUTF8 name))) = name"
  by (simp add: getString_getBytes_encode decode_encode)

text \<open>
  C20. A date from 1980 to 2107 survives the two MS-DOS fields of a header up to the parity of its
  seconds, which the format does not store.
\<close>

theorem dos_date_roundtrip:
  assumes "date_ok d"
  shows "getDate (word_of_int (dos_date d * 65536 + dos_time d)) = d\<lparr>seconds := seconds d - seconds d mod 2\<rparr>"
proof -
  have w: "uint (word_of_int (dos_date d * 65536 + dos_time d) :: 32 word) = dos_date d * 65536 + dos_time d"
    using dos_range [OF assms] by (intro uint_of_small) auto
  have halves: "(dos_date d * 65536 + dos_time d) div 65536 = dos_date d"
    "(dos_date d * 65536 + dos_time d) mod 65536 = dos_time d"
    using dos_range [OF assms] by simp_all
  have b: "0 \<le> month d + 1" "month d + 1 < 16" "0 \<le> day d" "day d < 32"
    "0 \<le> minutes d" "minutes d < 64" "0 \<le> seconds d div 2" "seconds d div 2 < 32"
    and small: "(year d - 1980) mod 128 = year d - 1980" "hours d mod 32 = hours d"
    using assms by (auto simp: date_ok_def)
  have r: "(512::int) = 32 * 16" "(2048::int) = 32 * 64" by simp_all
  have dd: "dos_date d div 512 mod 128 = year d - 1980" "dos_date d div 32 mod 16 = month d + 1"
    "dos_date d mod 32 = day d"
    unfolding dos_fields [OF assms] r using small(1)
    by (simp_all only: mixed_radix [OF b(1-4)])
  have tt: "dos_time d div 2048 mod 32 = hours d" "dos_time d div 32 mod 64 = minutes d"
    "dos_time d mod 32 = seconds d div 2"
    unfolding dos_fields [OF assms] r using small(2)
    by (simp_all only: mixed_radix [OF b(5-8)])
  have "seconds d div 2 * 2 = seconds d - seconds d mod 2"
    by (simp add: minus_mod_eq_div_mult)
  then show ?thesis
    by (simp only: getDate_fields w Let_def halves dd tt) simp
qed

theorem dos_date_roundtrip_witness:
  "getDate (word_of_int (dos_date \<lparr>year = 2012, month = 11, day = 31, hours = 23, minutes = 59, seconds = 59\<rparr>
      * 65536 + dos_time \<lparr>year = 2012, month = 11, day = 31, hours = 23, minutes = 59, seconds = 59\<rparr>)) =
   \<lparr>year = 2012, month = 11, day = 31, hours = 23, minutes = 59, seconds = 58\<rparr>"
  using dos_date_roundtrip [of "\<lparr>year = 2012, month = 11, day = 31, hours = 23, minutes = 59, seconds = 59\<rparr>"]
  by (simp add: date_ok_def)

end
