(* ===== verification/Zip_Readers.thy ===== *)
theory Zip_Readers
  imports Zip_Bytes Text_Codec
begin

text \<open>
  The readers of \<^verbatim>\<open>html/lib/zip.js\<close>: \<open>BlobReader\<close>, \<open>TextReader\<close>, \<open>HttpReader\<close>,
  \<open>HttpRangeReader\<close> and \<open>Data64URIReader\<close>. Each is a record of the object's fields with an \<open>init\<close>
  and a \<open>readUint8Array\<close>. The contract the archive code relies on is the locale \<open>byte_source\<close>: a
  read within the data delivers exactly that part. Servers are a parameter: a function that answers
  a request and moves on to its next state.
\<close>

section \<open>Outcomes of asynchronous calls\<close>

text \<open>A call passes a value to its callback, or calls \<open>onerror\<close>, or throws.\<close>

datatype 'a io = Got 'a | Failed | Raised js_error

section \<open>Parts of blobs\<close>

definition blobSlice :: "byte list \<Rightarrow> int \<Rightarrow> int \<Rightarrow> byte list" where
  "blobSlice blob index len = rel_slice blob index (index + len)"

section \<open>The contract\<close>

locale byte_source =
  fixes rd :: "'r \<Rightarrow> int \<Rightarrow> int \<Rightarrow> byte list io \<times> 'r"
    and holds :: "'r \<Rightarrow> byte list \<Rightarrow> bool"
  assumes read_exact: "holds r bs \<Longrightarrow> 0 \<le> i \<Longrightarrow> 0 < n \<Longrightarrow> i + n \<le> int (length bs) \<Longrightarrow>
    \<exists>r'. rd r i n = (Got (take (nat n) (drop (nat i) bs)), r') \<and> holds r' bs"
begin

lemma read_nat:
  assumes "holds r bs" "0 < n" "i + n \<le> length bs"
  obtains r' where "rd r (int i) (int n) = (Got (take n (drop i bs)), r')" "holds r' bs"
  using read_exact [of r bs "int i" "int n"] assms by auto

lemma read_part:
  assumes "holds r (a @ b @ c)" "b \<noteq> []"
  obtains r' where "rd r (int (length a)) (int (length b)) = (Got b, r')" "holds r' (a @ b @ c)"
  proof -
  obtain r' where "rd r (int (length a)) (int (length b)) =
      (Got (take (length b) (drop (length a) (a @ b @ c))), r')" "holds r' (a @ b @ c)"
    using read_nat [of r "a @ b @ c" "length b" "length a"] assms by auto
  then show thesis by (intro that) simp_all
qed

end

section \<open>BlobReader\<close>

text \<open>\<open>br_ok\<close>: the data behind the blob can still be read; otherwise the \<open>FileReader\<close> fails.\<close>

record blob_reader =
  br_blob :: "byte list"
  br_ok :: bool
  br_size :: int

definition BlobReader :: "byte list \<Rightarrow> blob_reader" where
  "BlobReader blob = \<lparr>br_blob = blob, br_ok = True, br_size = 0\<rparr>"

definition blob_init :: "blob_reader \<Rightarrow> blob_reader" where
  "blob_init r = r\<lparr>br_size := int (length (br_blob r))\<rparr>"

definition blob_read :: "blob_reader \<Rightarrow> int \<Rightarrow> int \<Rightarrow> byte list io \<times> blob_reader" where
  "blob_read r index len =
     (if br_ok r then Got (blobSlice (br_blob r) index len) else Failed, r)"

definition blob_holds :: "blob_reader \<Rightarrow> byte list \<Rightarrow> bool" where
  "blob_holds r bs = (br_ok r \<and> br_blob r = bs)"

interpretation blob: byte_source blob_read blob_holds
  by unfold_locales (simp add: blob_read_def blob_holds_def blobSlice_def rel_slice_exact)

section \<open>TextReader\<close>

text \<open>
  A blob built from a string holds its UTF-8 form: surrogate pairs become four bytes, unpaired
  surrogates the replacement character U+FFFD.
\<close>

fun scalar_values :: "jstring \<Rightarrow> nat list" where
  "scalar_values [] = []"
| "scalar_values [c] = [if 0xD800 \<le> c \<and> c < 0xE000 then 0xFFFD else unat c]"
| "scalar_values (c # d # s) =
     (if 0xD800 \<le> c \<and> c < 0xDC00 \<and> 0xDC00 \<le> d \<and> d < 0xE000
      then (0x10000 + (unat c - 0xD800) * 0x400 + (unat d - 0xDC00)) # scalar_values s
      else (if 0xD800 \<le> c \<and> c < 0xE000 then 0xFFFD else unat c) # scalar_values (d # s))"

definition utf8_scalar :: "nat \<Rightarrow> byte list" where
  "utf8_scalar v =
     (if v < 0x80 then [of_nat v]
      else if v < 0x800 then [of_nat (0xC0 + v div 0x40), of_nat (0x80 + v mod 0x40)]
      else if v < 0x10000
        then [of_nat (0xE0 + v div 0x1000), of_nat (0x80 + v div 0x40 mod 0x40), of_nat (0x80 + v mod 0x40)]
      else [of_nat (0xF0 + v div 0x40000), of_nat (0x80 + v div 0x1000 mod 0x40),
            of_nat (0x80 + v div 0x40 mod 0x40), of_nat (0x80 + v mod 0x40)])"

definition text_blob :: "jstring \<Rightarrow> byte list" where
  "text_blob text = concat (map utf8_scalar (scalar_values text))"

record text_reader =
  tr_text :: jstring
  tr_blob :: "blob_reader option"
  tr_size :: int

definition TextReader :: "jstring \<Rightarrow> text_reader" where
  "TextReader text = \<lparr>tr_text = text, tr_blob = None, tr_size = 0\<rparr>"

definition text_init :: "text_reader \<Rightarrow> text_reader" where
  "text_init r = (let b = blob_init (BlobReader (text_blob (tr_text r)))
     in r\<lparr>tr_blob := Some b, tr_size := br_size b\<rparr>)"

definition text_read :: "text_reader \<Rightarrow> int \<Rightarrow> int \<Rightarrow> byte list io \<times> text_reader" where
  "text_read r index len = (case tr_blob r of None \<Rightarrow> (Raised TypeError, r)
     | Some b \<Rightarrow> (case blob_read b index len of (x, b') \<Rightarrow> (x, r\<lparr>tr_blob := Some b'\<rparr>)))"

definition text_holds :: "text_reader \<Rightarrow> byte list \<Rightarrow> bool" where
  "text_holds r bs = (\<exists>b. tr_blob r = Some b \<and> blob_holds b bs)"

interpretation textual: byte_source text_read text_holds
proof unfold_locales
  fix r bs i n
  assume *: "text_holds r bs" "0 \<le> i" "0 < n" "i + n \<le> int (length bs)"
  then obtain b where b: "tr_blob r = Some b" "blob_holds b bs" by (auto simp: text_holds_def)
  obtain b' where "blob_read b i n = (Got (take (nat n) (drop (nat i) bs)), b')" "blob_holds b' bs"
    using blob.read_exact [OF b(2) *(2-4)] by blast
  with b show "\<exists>r'. text_read r i n = (Got (take (nat n) (drop (nat i) bs)), r') \<and> text_holds r' bs"
    by (simp add: text_read_def text_holds_def)
qed

section \<open>Requests\<close>

datatype request = Head | Get | GetRange int int

text \<open>What \<open>XMLHttpRequest\<close> delivers on \<open>load\<close>, whatever the status; a failed request is \<open>None\<close>.\<close>

record response =
  content_length :: "int option"
  accept_ranges :: bool
  body :: "byte list"

text \<open>\<open>Number(null)\<close> is 0 for a missing header.\<close>

definition header_number :: "int option \<Rightarrow> int" where
  "header_number h = (case h of None \<Rightarrow> 0 | Some n \<Rightarrow> n)"

text \<open>A server that keeps delivering one file.\<close>

locale file_server =
  fixes send :: "request \<Rightarrow> 'n \<Rightarrow> response option \<times> 'n"
    and serves :: "'n \<Rightarrow> byte list \<Rightarrow> bool"
  assumes get: "serves s bs \<Longrightarrow> \<exists>r s'. send Get s = (Some r, s') \<and> body r = bs \<and> serves s' bs"
    and head: "serves s bs \<Longrightarrow> \<exists>r s'. send Head s = (Some r, s') \<and>
      content_length r = Some (int (length bs)) \<and> accept_ranges r \<and> serves s' bs"
    and get_range: "serves s bs \<Longrightarrow> 0 \<le> i \<Longrightarrow> i \<le> j \<Longrightarrow> j < int (length bs) \<Longrightarrow>
      \<exists>r s'. send (GetRange i j) s = (Some r, s') \<and>
        body r = take (nat (j - i + 1)) (drop (nat i) bs) \<and> serves s' bs"

text \<open>The static files next to the page: the server's state is the file and a count of requests.\<close>

definition static_send :: "request \<Rightarrow> byte list \<times> nat \<Rightarrow> response option \<times> (byte list \<times> nat)" where
  "static_send q s = (case s of (bs, k) \<Rightarrow>
     (Some \<lparr>content_length = Some (int (length bs)), accept_ranges = True,
        body = (case q of Head \<Rightarrow> [] | Get \<Rightarrow> bs
          | GetRange i j \<Rightarrow> if i \<le> j then take (nat (j - i + 1)) (drop (nat i) bs) else bs)\<rparr>,
      (bs, Suc k)))"

interpretation static: file_server static_send "\<lambda>s bs. fst s = bs"
  by unfold_locales (auto simp: static_send_def)

section \<open>HttpReader\<close>

record 'n http_reader =
  hr_size :: int
  hr_data :: "byte list option"
  hr_net :: 'n

definition HttpReader :: "'n \<Rightarrow> 'n http_reader" where
  "HttpReader net = \<lparr>hr_size = 0, hr_data = None, hr_net = net\<rparr>"

definition http_getData :: "(request \<Rightarrow> 'n \<Rightarrow> response option \<times> 'n) \<Rightarrow> 'n http_reader \<Rightarrow>
    byte list io \<times> 'n http_reader" where
  "http_getData send r =
     (case hr_data r of Some d \<Rightarrow> (Got d, r)
      | None \<Rightarrow>
          (case send Get (hr_net r) of
             (None, net') \<Rightarrow> (Failed, r\<lparr>hr_net := net'\<rparr>)
           | (Some resp, net') \<Rightarrow>
               (Got (body resp),
                r\<lparr>hr_size := (if hr_size r = 0 then header_number (content_length resp) else hr_size r),
                  hr_data := Some (body resp), hr_net := net'\<rparr>)))"

definition http_init :: "(request \<Rightarrow> 'n \<Rightarrow> response option \<times> 'n) \<Rightarrow> 'n http_reader \<Rightarrow>
    unit io \<times> 'n http_reader" where
  "http_init send r =
     (case send Head (hr_net r) of
        (None, net') \<Rightarrow> (Failed, r\<lparr>hr_net := net'\<rparr>)
      | (Some resp, net') \<Rightarrow>
          (Got (), r\<lparr>hr_size := header_number (content_length resp), hr_net := net'\<rparr>))"

definition http_read :: "(request \<Rightarrow> 'n \<Rightarrow> response option \<times> 'n) \<Rightarrow> 'n http_reader \<Rightarrow> int \<Rightarrow> int \<Rightarrow>
    byte list io \<times> 'n http_reader" where
  "http_read send r index len =
     (case http_getData send r of
        (Got d, r') \<Rightarrow> (Got (rel_slice d index (index + len)), r')
      | (Failed, r') \<Rightarrow> (Failed, r')
      | (Raised e, r') \<Rightarrow> (Raised e, r'))"

section \<open>HttpRangeReader\<close>

record 'n range_reader =
  rr_size :: int
  rr_net :: 'n

definition HttpRangeReader :: "'n \<Rightarrow> 'n range_reader" where
  "HttpRangeReader net = \<lparr>rr_size = 0, rr_net = net\<rparr>"

definition ERR_HTTP_RANGE :: string where
  "ERR_HTTP_RANGE = ''HTTP Range not supported.''"

definition range_init :: "(request \<Rightarrow> 'n \<Rightarrow> response option \<times> 'n) \<Rightarrow> 'n range_reader \<Rightarrow>
    unit zres \<times> 'n range_reader" where
  "range_init send r =
     (case send Head (rr_net r) of
        (None, net') \<Rightarrow> (Inl OnEvent, r\<lparr>rr_net := net'\<rparr>)
      | (Some resp, net') \<Rightarrow>
          (if accept_ranges resp then Inr () else Inl (OnError ERR_HTTP_RANGE),
           r\<lparr>rr_size := header_number (content_length resp), rr_net := net'\<rparr>))"

definition range_read :: "(request \<Rightarrow> 'n \<Rightarrow> response option \<times> 'n) \<Rightarrow> 'n range_reader \<Rightarrow> int \<Rightarrow> int \<Rightarrow>
    byte list io \<times> 'n range_reader" where
  "range_read send r index len =
     (case send (GetRange index (index + len - 1)) (rr_net r) of
        (None, net') \<Rightarrow> (Failed, r\<lparr>rr_net := net'\<rparr>)
      | (Some resp, net') \<Rightarrow> (Got (body resp), r\<lparr>rr_net := net'\<rparr>))"

definition http_holds :: "('n \<Rightarrow> byte list \<Rightarrow> bool) \<Rightarrow> 'n http_reader \<Rightarrow> byte list \<Rightarrow> bool" where
  "http_holds serves r bs = (hr_data r = Some bs \<or> hr_data r = None \<and> serves (hr_net r) bs)"

definition range_holds :: "('n \<Rightarrow> byte list \<Rightarrow> bool) \<Rightarrow> 'n range_reader \<Rightarrow> byte list \<Rightarrow> bool" where
  "range_holds serves r bs = serves (rr_net r) bs"

context file_server
begin

lemma http_source:
  assumes "http_holds serves r bs" "0 \<le> i" "0 < n" "i + n \<le> int (length bs)"
  shows "\<exists>r'. http_read send r i n = (Got (take (nat n) (drop (nat i) bs)), r') \<and> http_holds serves r' bs"
proof (cases "hr_data r")
  case None
  with assms(1) obtain resp s' where "send Get (hr_net r) = (Some resp, s')" "body resp = bs"
    using get by (fastforce simp: http_holds_def)
  with None show ?thesis
    by (simp add: http_read_def http_getData_def http_holds_def rel_slice_exact [OF assms(2) less_imp_le [OF assms(3)] assms(4)])
next
  case (Some d)
  with assms show ?thesis
    by (auto simp: http_read_def http_getData_def http_holds_def rel_slice_exact)
qed

text \<open>Only the first read of an \<open>HttpReader\<close> sends a request.\<close>

lemma http_read_cached:
  assumes "http_read send r i n = (Got d, r')"
  shows "\<exists>d'. http_read send r' j m = (Got d', r')"
  using assms by (auto simp: http_read_def http_getData_def split: option.splits prod.splits io.splits)

lemma range_source:
  assumes "range_holds serves r bs" "0 \<le> i" "0 < n" "i + n \<le> int (length bs)"
  shows "\<exists>r'. range_read send r i n = (Got (take (nat n) (drop (nat i) bs)), r') \<and> range_holds serves r' bs"
proof -
  obtain resp s' where "send (GetRange i (i + n - 1)) (rr_net r) = (Some resp, s')"
      "body resp = take (nat n) (drop (nat i) bs)" "serves s' bs"
    using get_range [of "rr_net r" bs i "i + n - 1"] assms by (auto simp: range_holds_def)
  then show ?thesis by (simp add: range_read_def range_holds_def)
qed

end

sublocale file_server \<subseteq> http: byte_source "http_read send" "http_holds serves"
  by unfold_locales (rule http_source)

sublocale file_server \<subseteq> range: byte_source "range_read send" "range_holds serves"
  by unfold_locales (rule range_source)

section \<open>Base64\<close>

text \<open>
  \<open>btoa\<close> and \<open>atob\<close>: a byte string as groups of four characters of six bits each, padded with
  \<open>=\<close>. \<open>atob\<close> skips white space, accepts a missing padding and throws on anything else.
\<close>

fun sextets :: "byte list \<Rightarrow> nat list" where
  "sextets (a # b # c # bs) =
     unat a div 4 # (unat a mod 4 * 16 + unat b div 16) # (unat b mod 16 * 4 + unat c div 64) #
     (unat c mod 64) # sextets bs"
| "sextets [a, b] = [unat a div 4, unat a mod 4 * 16 + unat b div 16, unat b mod 16 * 4]"
| "sextets [a] = [unat a div 4, unat a mod 4 * 16]"
| "sextets [] = []"

fun unsextets :: "nat list \<Rightarrow> byte list" where
  "unsextets (p # q # r # s # xs) =
     of_nat (p * 4 + q div 16) # of_nat (q mod 16 * 16 + r div 4) # of_nat (r mod 4 * 64 + s) #
     unsextets xs"
| "unsextets [p, q, r] = [of_nat (p * 4 + q div 16), of_nat (q mod 16 * 16 + r div 4)]"
| "unsextets [p, q] = [of_nat (p * 4 + q div 16)]"
| "unsextets _ = []"

definition b64_char :: "nat \<Rightarrow> code_unit" where
  "b64_char v = of_nat (if v < 26 then 65 + v else if v < 52 then 71 + v
     else if v < 62 then v - 4 else if v = 62 then 43 else 47)"

definition b64_value :: "code_unit \<Rightarrow> nat option" where
  "b64_value u = (let n = unat u in
     if 65 \<le> n \<and> n \<le> 90 then Some (n - 65) else if 97 \<le> n \<and> n \<le> 122 then Some (n - 71)
     else if 48 \<le> n \<and> n \<le> 57 then Some (n + 4) else if n = 43 then Some 62
     else if n = 47 then Some 63 else None)"

definition btoa :: "byte list \<Rightarrow> jstring" where
  "btoa bs = map b64_char (sextets bs) @ replicate ((3 - length bs mod 3) mod 3) 61"

definition strip_padding :: "jstring \<Rightarrow> jstring" where
  "strip_padding s =
     (if length s mod 4 = 0 \<and> 2 \<le> length s \<and> drop (length s - 2) s = [61, 61] then take (length s - 2) s
      else if length s mod 4 = 0 \<and> 1 \<le> length s \<and> last s = 61 then butlast s else s)"

definition atob :: "jstring \<Rightarrow> byte list io" where
  "atob s =
     (let t = strip_padding (filter (\<lambda>u. u \<notin> {9, 10, 12, 13, 32}) s) in
      if length t mod 4 = 1 \<or> (\<exists>u \<in> set t. b64_value u = None)
      then Raised (Thrown ''InvalidCharacterError'')
      else Got (unsextets (map (the \<circ> b64_value) t)))"

section \<open>Data64URIReader\<close>

record uri_reader =
  ur_uri :: jstring
  ur_start :: nat
  ur_size :: int

definition Data64URIReader :: "jstring \<Rightarrow> uri_reader" where
  "Data64URIReader dataURI = \<lparr>ur_uri = dataURI, ur_start = 0, ur_size = 0\<rparr>"

text \<open>\<open>while (dataURI.charAt(dataEnd - 1) == "=") dataEnd--\<close>\<close>

fun data_end :: "jstring \<Rightarrow> nat \<Rightarrow> nat" where
  "data_end uri 0 = 0"
| "data_end uri (Suc n) = (if n < length uri \<and> uri ! n = 61 then data_end uri n else Suc n)"

text \<open>\<open>dataURI.indexOf(",") + 1\<close>\<close>

definition after_comma :: "jstring \<Rightarrow> nat" where
  "after_comma uri = (if 44 \<in> set uri then Suc (length (takeWhile (\<lambda>u. u \<noteq> 44) uri)) else 0)"

definition uri_init :: "uri_reader \<Rightarrow> uri_reader" where
  "uri_init r = (let dataEnd = data_end (ur_uri r) (length (ur_uri r)); dataStart = after_comma (ur_uri r)
     in r\<lparr>ur_start := dataStart, ur_size := (int dataEnd - int dataStart) * 3 div 4\<rparr>)"

text \<open>\<open>substring\<close> swaps its arguments when the first is greater, and clamps both.\<close>

definition substring :: "'a list \<Rightarrow> int \<Rightarrow> int \<Rightarrow> 'a list" where
  "substring s a b =
     (let i = nat (min (max a 0) (int (length s))); j = nat (min (max b 0) (int (length s)))
      in take (max i j - min i j) (drop (min i j) s))"

definition uri_read :: "uri_reader \<Rightarrow> int \<Rightarrow> int \<Rightarrow> byte list io \<times> uri_reader" where
  "uri_read r index len =
     (if len < 0 then (Raised RangeError, r)
      else (let start = index div 3 * 4; stop = - ((- (index + len)) div 3) * 4 in
        case atob (substring (ur_uri r) (start + int (ur_start r)) (stop + int (ur_start r))) of
          Got bytes \<Rightarrow>
            (let delta = index - start div 4 * 3
             in (Got (map (\<lambda>k. case arr_at bytes (delta + int k) of Some b \<Rightarrow> b | None \<Rightarrow> 0) [0..<nat len]), r))
        | Failed \<Rightarrow> (Failed, r)
        | Raised e \<Rightarrow> (Raised e, r)))"

section \<open>Base64 laws\<close>

lemma byte_lt: "unat (b :: byte) < 256"
  using unsigned_less [of b, where 'a = nat] by simp

lemma byte_div: "unat (b :: byte) div 4 < 64" "unat b div 16 < 16" "unat b div 64 < 4"
  using byte_lt [of b] by (simp_all add: div_less_iff_less_mult)

lemma sextet_bounds:
  "unat (a :: byte) div 4 < 64" "unat a mod 4 * 16 + unat (b :: byte) div 16 < 64"
  "unat a mod 16 * 4 + unat b div 64 < 64" "unat a mod 64 < 64" "unat a mod 4 * 16 < 64"
  "unat a mod 16 * 4 < 64"
proof -
  have "unat a mod 4 < 4" "unat a mod 16 < 16" "unat a mod 64 < 64" by simp_all
  with byte_div [of a] byte_div [of b]
  show "unat a div 4 < 64" "unat a mod 4 * 16 + unat b div 16 < 64"
    "unat a mod 16 * 4 + unat b div 64 < 64" "unat a mod 64 < 64" "unat a mod 4 * 16 < 64"
    "unat a mod 16 * 4 < 64" by linarith+
qed

lemma sextets_lt: "\<forall>v \<in> set (sextets bs). v < 64"
  by (induction bs rule: sextets.induct) (simp_all add: sextet_bounds)

lemma b64_values: "\<forall>v \<in> set [0..<64]. b64_value (b64_char v) = Some v \<and> b64_char v \<noteq> 61 \<and>
    b64_char v \<notin> {9, 10, 12, 13, 32}"
  by code_simp

lemma b64_value_char: "v < 64 \<Longrightarrow> b64_value (b64_char v) = Some v"
  and b64_char_not: "v < 64 \<Longrightarrow> b64_char v \<noteq> 61 \<and> b64_char v \<notin> {9, 10, 12, 13, 32}"
  using b64_values by auto

lemma regroup:
  fixes a b c :: byte
  shows "unat a div 4 * 4 + (unat a mod 4 * 16 + unat b div 16) div 16 = unat a"
    "(unat a mod 4 * 16 + unat b div 16) mod 16 * 16 + (unat b mod 16 * 4 + unat c div 64) div 4 = unat b"
    "(unat b mod 16 * 4 + unat c div 64) mod 4 * 64 + unat c mod 64 = unat c"
    "unat a div 4 * 4 + unat a mod 4 * 16 div 16 = unat a"
    "(unat a mod 4 * 16 + unat b div 16) mod 16 * 16 + unat b mod 16 * 4 div 4 = unat b"
  using byte_div [of b] byte_div [of c] by simp_all

lemma unsextets_sextets: "unsextets (sextets bs) = bs"
proof (induction bs rule: sextets.induct)
  case (1 a b c bs)
  then show ?case unfolding sextets.simps unsextets.simps regroup by simp
qed (unfold sextets.simps unsextets.simps regroup, simp_all)

lemma length_sextets: "length (sextets bs) = (4 * length bs + 2) div 3"
  by (induction bs rule: sextets.induct) simp_all

lemma btoa_simps [simp]:
  "btoa (a # b # c # bs) = map b64_char (sextets [a, b, c]) @ btoa bs" "btoa [] = []"
  by (simp_all add: btoa_def)

lemma btoa_end:
  "btoa [a, b] = map b64_char (sextets [a, b]) @ [61]"
  "btoa [a] = map b64_char (sextets [a]) @ [61, 61]"
  by (simp_all add: btoa_def numeral_2_eq_2)

lemma length_btoa: "length (btoa bs) = (length bs + 2) div 3 * 4"
proof (induction bs rule: sextets.induct)
  case (1 a b c bs)
  have "(length (a # b # c # bs) + 2) div 3 = Suc ((length bs + 2) div 3)" by simp
  with 1 show ?case by simp
qed (simp_all add: btoa_end)

lemma steps_34: "4 * Suc k = Suc (Suc (Suc (Suc (4 * k))))" "3 * Suc k = Suc (Suc (Suc (3 * k)))"
  by simp_all

lemma btoa_drop: "drop (4 * k) (btoa bs) = btoa (drop (3 * k) bs)"
proof (induction bs arbitrary: k rule: sextets.induct)
  case (1 a b c bs)
  then show ?case by (cases k) (simp_all add: steps_34 del: mult_Suc_right)
next
  case (2 a b)
  show ?case by (cases k) (simp_all add: btoa_end steps_34 del: mult_Suc_right)
next
  case (3 a)
  show ?case by (cases k) (simp_all add: btoa_end steps_34 del: mult_Suc_right)
qed simp

lemma btoa_take: "take (4 * k) (btoa bs) = btoa (take (3 * k) bs)"
proof (induction bs arbitrary: k rule: sextets.induct)
  case (1 a b c bs)
  then show ?case by (cases k) (simp_all add: steps_34 del: mult_Suc_right)
next
  case (2 a b)
  show ?case by (cases k) (simp_all add: btoa_end steps_34 del: mult_Suc_right)
next
  case (3 a)
  show ?case by (cases k) (simp_all add: btoa_end steps_34 del: mult_Suc_right)
qed simp

abbreviation "white_space \<equiv> {9, 10, 12, 13, 32 :: code_unit}"

lemma b64_chars:
  assumes "u \<in> set (map b64_char (sextets bs))"
  shows "u \<noteq> 61 \<and> u \<notin> white_space \<and> b64_value u \<noteq> None"
proof -
  obtain v where v: "v \<in> set (sextets bs)" "u = b64_char v" using assms by auto
  then have "v < 64" using sextets_lt by blast
  from b64_char_not [OF this] b64_value_char [OF this] v(2) show ?thesis by simp
qed

lemma strip_pads:
  assumes "61 \<notin> set cs" "(length cs + n) mod 4 = 0" "n \<le> 2"
  shows "strip_padding (cs @ replicate n 61) = cs"
proof -
  consider "n = 0" | "n = 1" | "n = 2" using assms(3) by linarith
  then show ?thesis
  proof cases
    case 1
    have "drop k cs \<noteq> [61, 61]" for k using assms(1) in_set_dropD [of 61 k cs] by auto
    moreover have "cs \<noteq> [] \<Longrightarrow> last cs \<noteq> 61" using assms(1) last_in_set by metis
    ultimately show ?thesis using 1 by (cases "cs = []") (auto simp: strip_padding_def)
  next
    case 2
    have "drop (length cs - 1) (cs @ [61]) \<noteq> [61, 61]"
      using assms(1) by (cases cs rule: rev_cases) auto
    with 2 assms(2) show ?thesis by (simp add: strip_padding_def)
  next
    case 3
    with assms(2) show ?thesis by (simp add: strip_padding_def numeral_2_eq_2)
  qed
qed

lemma strip_btoa: "strip_padding (btoa bs) = map b64_char (sextets bs)"
  unfolding btoa_def
proof (rule strip_pads)
  show "61 \<notin> set (map b64_char (sextets bs))" using b64_chars by blast
  have "length (btoa bs) mod 4 = 0" by (simp add: length_btoa)
  then show "(length (map b64_char (sextets bs)) + (3 - length bs mod 3) mod 3) mod 4 = 0"
    by (simp add: btoa_def)
qed simp

lemma filter_btoa: "filter (\<lambda>u. u \<notin> white_space) (btoa bs) = btoa bs"
proof -
  have "u \<notin> white_space" if "u \<in> set (btoa bs)" for u
    using that b64_chars [of u bs] unfolding btoa_def set_append Un_iff by auto
  then show ?thesis by (intro filter_True) blast
qed

lemma atob_btoa: "atob (btoa bs) = Got bs"
proof -
  have val: "map (the \<circ> b64_value) (map b64_char (sextets bs)) = sextets bs"
    using sextets_lt [of bs] b64_value_char by (simp add: map_idI)
  have len: "length (map b64_char (sextets bs)) mod 4 \<noteq> 1"
    unfolding length_map length_sextets by presburger
  have ok: "\<not> (\<exists>u \<in> set (map b64_char (sextets bs)). b64_value u = None)" using b64_chars by blast
  show ?thesis
    unfolding atob_def filter_btoa Let_def strip_btoa val unsextets_sextets using len ok by (simp only: simp_thms if_False)
qed

section \<open>A base64 data URI holds its bytes\<close>

definition uri_holds :: "uri_reader \<Rightarrow> byte list \<Rightarrow> bool" where
  "uri_holds r bs =
     (\<exists>p. ur_uri r = p @ 44 # btoa bs \<and> 44 \<notin> set p \<and> ur_start r = Suc (length p))"

lemma substring_nat:
  "a \<le> b \<Longrightarrow> b \<le> length s \<Longrightarrow> substring s (int a) (int b) = take (b - a) (drop a s)"
  by (simp add: substring_def)

lemma collect_bytes:
  assumes "d + n \<le> length xs"
  shows "map (\<lambda>k. case arr_at xs (int d + int k) of Some b \<Rightarrow> b | None \<Rightarrow> 0) [0..<n] = take n (drop d xs)"
proof (rule nth_equalityI)
  fix k assume "k < length (map (\<lambda>k. case arr_at xs (int d + int k) of Some b \<Rightarrow> b | None \<Rightarrow> 0) [0..<n])"
  then show "map (\<lambda>k. case arr_at xs (int d + int k) of Some b \<Rightarrow> b | None \<Rightarrow> 0) [0..<n] ! k = take n (drop d xs) ! k"
    using assms arr_at_nat [of xs "d + k"] by simp
qed (use assms in simp)

lemma ceil_third: "- ((- int n) div 3) = int ((n + 2) div 3)"
  by presburger

lemma uri_window:
  assumes "uri = p @ 44 # btoa bs" "k \<le> m" "m \<le> (length bs + 2) div 3"
  shows "substring uri (int (4 * k + Suc (length p))) (int (4 * m + Suc (length p))) =
    take (4 * m - 4 * k) (drop (4 * k) (btoa bs))"
proof -
  have "4 * m \<le> length (btoa bs)" using assms(3) unfolding length_btoa by simp
  moreover have "drop (4 * k + Suc (length p)) uri = drop (4 * k) (btoa bs)"
    unfolding assms(1) by simp
  moreover have "length uri = Suc (length p) + length (btoa bs)" unfolding assms(1) by simp
  ultimately have "4 * m + Suc (length p) \<le> length uri" and d: "drop (4 * k + Suc (length p)) uri = drop (4 * k) (btoa bs)"
    by linarith+
  with assms(2) have "substring uri (int (4 * k + Suc (length p))) (int (4 * m + Suc (length p))) =
      take (4 * m + Suc (length p) - (4 * k + Suc (length p))) (drop (4 * k + Suc (length p)) uri)"
    by (intro substring_nat) simp_all
  then show ?thesis unfolding d by simp
qed

lemma take_window: "n \<le> w - d \<Longrightarrow> a + d = i \<Longrightarrow> take n (drop d (take w (drop a bs))) = take n (drop i bs)"
  by (simp add: drop_take min_absorb1 add.commute)

lemma uri_part:
  assumes "uri_holds r bs" "0 < n" "i + n \<le> length bs"
  shows "uri_read r (int i) (int n) = (Got (take n (drop i bs)), r)"
proof -
  let ?k = "i div 3" and ?m = "(i + n + 2) div 3"
  let ?xs = "take (3 * (?m - ?k)) (drop (3 * ?k) bs)"
  obtain p where p: "ur_uri r = p @ 44 # btoa bs" "ur_start r = Suc (length p)"
    using assms(1) by (auto simp: uri_holds_def)
  have km: "?k \<le> ?m" "i + n \<le> 3 * ?m" "3 * ?k \<le> i" "i - 3 * ?k + n \<le> 3 * (?m - ?k)" by presburger+
  have m_le: "?m \<le> (length bs + 2) div 3" using assms(3) by (intro div_le_mono) simp
  have start: "int i div 3 * 4 = int (4 * ?k)" by (simp add: zdiv_int)
  have stop: "- ((- (int i + int n)) div 3) * 4 = int (4 * ?m)"
    using ceil_third [of "i + n"] by simp
  have "substring (ur_uri r) (int i div 3 * 4 + int (ur_start r)) (- ((- (int i + int n)) div 3) * 4 + int (ur_start r))
      = substring (ur_uri r) (int (4 * ?k + Suc (length p))) (int (4 * ?m + Suc (length p)))"
    unfolding start stop p(2) by (simp only: of_nat_add)
  also have "\<dots> = take (4 * ?m - 4 * ?k) (drop (4 * ?k) (btoa bs))"
    using uri_window [OF p(1) km(1) m_le] .
  also have "\<dots> = btoa ?xs" by (simp only: btoa_drop btoa_take flip: diff_mult_distrib2)
  finally have sub: "substring (ur_uri r) (int i div 3 * 4 + int (ur_start r))
      (- ((- (int i + int n)) div 3) * 4 + int (ur_start r)) = btoa ?xs" .
  have delta: "int i - int i div 3 * 4 div 4 * 3 = int (i - 3 * ?k)"
    using km(3) by (simp add: zdiv_int)
  have "i - 3 * ?k + n \<le> length bs - 3 * ?k" using km(3) assms(3) by linarith
  with km(4) have "i - 3 * ?k + n \<le> length ?xs" by simp
  then have "map (\<lambda>k. case arr_at ?xs (int (i - 3 * ?k) + int k) of Some b \<Rightarrow> b | None \<Rightarrow> 0) [0..<n] =
      take n (drop (i - 3 * ?k) ?xs)" by (rule collect_bytes)
  also have "\<dots> = take n (drop i bs)"
  proof (rule take_window)
    show "n \<le> 3 * (?m - ?k) - (i - 3 * ?k)" using km(4) by linarith
    show "3 * ?k + (i - 3 * ?k) = i" using km(3) by linarith
  qed
  finally show ?thesis
    unfolding uri_read_def Let_def sub atob_btoa delta io.case nat_int by simp
qed

interpretation data_uri: byte_source uri_read uri_holds
proof unfold_locales
  fix r bs i n
  assume "uri_holds r bs" "0 \<le> i" "0 < n" "i + n \<le> int (length bs)"
  then show "\<exists>r'. uri_read r i n = (Got (take (nat n) (drop (nat i) bs)), r') \<and> uri_holds r' bs"
    using uri_part [of r bs "nat n" "nat i"] by simp
qed

lemma data_end_stop: "n \<le> length uri \<Longrightarrow> n = 0 \<or> uri ! (n - 1) \<noteq> 61 \<Longrightarrow> data_end uri n = n"
  by (cases n) simp_all

lemma data_end_pads:
  assumes "uri = a @ replicate k 61 @ c"
  shows "data_end uri (length a + k) = data_end uri (length a)"
  using assms
proof (induction k arbitrary: c)
  case (Suc k)
  have "uri = a @ replicate k 61 @ 61 # c" using Suc.prems by (simp add: replicate_app_Cons_same)
  from Suc.IH [OF this] this show ?case by (simp add: nth_append)
qed simp

lemma sextet_count: "(int (Suc l + (4 * n + 2) div 3) - int (Suc l)) * 3 div 4 = int n"
proof -
  have "3 * ((4 * n + 2) div 3) \<le> 4 * n + 2" "4 * n \<le> 3 * ((4 * n + 2) div 3)" by linarith+
  then have "3 * ((4 * n + 2) div 3) div 4 = n" by linarith
  then have "int (3 * ((4 * n + 2) div 3) div 4) = int n" by simp
  then show ?thesis by (simp add: zdiv_int mult.commute)
qed

lemma uri_init_holds:
  assumes "44 \<notin> set p"
  shows "uri_holds (uri_init (Data64URIReader (p @ 44 # btoa bs))) bs \<and>
    ur_size (uri_init (Data64URIReader (p @ 44 # btoa bs))) = int (length bs)"
proof -
  let ?uri = "p @ 44 # btoa bs" and ?cs = "map b64_char (sextets bs)"
  let ?a = "p @ 44 # ?cs"
  obtain pad where pad: "btoa bs = ?cs @ replicate pad 61" by (simp add: btoa_def)
  have comma: "after_comma ?uri = Suc (length p)"
  proof -
    have "takeWhile (\<lambda>u. u \<noteq> 44) p = p" using assms by (auto simp: takeWhile_eq_all_conv)
    then show ?thesis using assms by (simp add: after_comma_def takeWhile_append2 takeWhile_tail)
  qed
  have last: "?a ! (length ?a - 1) \<noteq> 61"
  proof (cases "?cs = []")
    case False
    then have "?a ! (length ?a - 1) = last ?cs" by (simp add: last_conv_nth nth_append)
    then show ?thesis using False b64_chars last_in_set by metis
  qed simp
  have uri: "?uri = ?a @ replicate pad 61 @ []" by (simp add: pad)
  have "length ?uri = length ?a + pad" by (simp add: pad)
  then have "data_end ?uri (length ?uri) = data_end ?uri (length ?a)"
    using data_end_pads [OF uri] by (simp only:)
  also have "\<dots> = length ?a"
  proof (rule data_end_stop)
    have "?uri ! (length ?a - 1) = ?a ! (length ?a - 1)" 
      unfolding uri by (subst nth_append) simp
    then show "length ?a = 0 \<or> ?uri ! (length ?a - 1) \<noteq> 61" using last by simp
  qed (simp add: pad)
  finally have stop: "data_end ?uri (length ?uri) = Suc (length p) + (4 * length bs + 2) div 3"
    by (simp add: length_sextets)
  have "(int (Suc (length p) + (4 * length bs + 2) div 3) - int (Suc (length p))) * 3 div 4 = int (length bs)"
    by (rule sextet_count)
  then show ?thesis
    unfolding uri_init_def Data64URIReader_def Let_def using comma stop assms by (simp add: uri_holds_def)
qed

end
