(* ===== verification/Zip_Sinks.thy ===== *)
theory Zip_Sinks
  imports Zip_Readers
begin

text \<open>
  The writers of \<^verbatim>\<open>html/lib/zip.js\<close>: the file's own \<open>BlobBuilder\<close>, \<open>BlobWriter\<close>, \<open>TextWriter\<close>,
  \<open>FileWriter\<close> and \<open>Data64URIWriter\<close>. The contract of a writer is the locale \<open>byte_sink\<close>: an array it
  takes is appended to what it has written. \<open>Data64URIWriter\<close> meets it for some arrays only.
\<close>

section \<open>What a writer is given\<close>

text \<open>
  Besides a byte array, \<open>Inflater.append\<close> can deliver the number -1, which its callers write like
  an array. A blob takes it as the text \<open>-1\<close>.
\<close>

datatype produced = Bytes "byte list" | MinusOne

fun blob_part :: "produced \<Rightarrow> byte list" where
  "blob_part (Bytes a) = a"
| "blob_part MinusOne = [45, 49]"

section \<open>The contract\<close>

locale byte_sink =
  fixes wr :: "'w \<Rightarrow> produced \<Rightarrow> 'w io"
    and written :: "'w \<Rightarrow> byte list"
    and fits :: "'w \<Rightarrow> byte list \<Rightarrow> bool"
  assumes write_fits: "fits w a \<Longrightarrow> \<exists>w'. wr w (Bytes a) = Got w' \<and> written w' = written w @ a"

text \<open>A sink that, once ready, takes every array and stays ready.\<close>

locale steady_sink = byte_sink wr written fits
  for wr :: "'w \<Rightarrow> produced \<Rightarrow> 'w io" and written fits +
  fixes ready :: "'w \<Rightarrow> bool"
  assumes ready_fits: "ready w \<Longrightarrow> fits w a"
    and stays_ready: "ready w \<Longrightarrow> wr w (Bytes a) = Got w' \<Longrightarrow> ready w'"
begin

lemma write_ready:
  assumes "ready w"
  obtains w' where "wr w (Bytes a) = Got w'" "written w' = written w @ a" "ready w'"
  using write_fits [OF ready_fits [OF assms]] stays_ready [OF assms] by metis

end

section \<open>BlobBuilder\<close>

text \<open>A blob is its bytes and its type; the builder keeps a list of parts, at first one empty blob.\<close>

record blob =
  blob_bytes :: "byte list"
  blob_type :: jstring

record blob_builder =
  blobParts :: "blob list"

definition new_BlobBuilder :: blob_builder where
  "new_BlobBuilder = \<lparr>blobParts = [\<lparr>blob_bytes = [], blob_type = []\<rparr>]\<rparr>"

definition append_part :: "blob_builder \<Rightarrow> byte list \<Rightarrow> blob_builder" where
  "append_part b data = b\<lparr>blobParts := blobParts b @ [\<lparr>blob_bytes = data, blob_type = []\<rparr>]\<rparr>"

definition getBlob :: "blob_builder \<Rightarrow> jstring option \<Rightarrow> blob \<times> blob_builder" where
  "getBlob b contentType =
     (let b' = (if length (blobParts b) > 1 \<or> Some (blob_type (hd (blobParts b))) \<noteq> contentType
                then b\<lparr>blobParts := [\<lparr>blob_bytes = concat (map blob_bytes (blobParts b)),
                       blob_type = (case contentType of Some t \<Rightarrow> t | None \<Rightarrow> [])\<rparr>]\<rparr> else b)
      in (hd (blobParts b'), b'))"

definition built :: "blob_builder \<Rightarrow> byte list" where
  "built b = concat (map blob_bytes (blobParts b))"

lemma built_simps [simp]:
  "built new_BlobBuilder = []" "built (append_part b data) = built b @ data"
  "built (snd (getBlob b t)) = built b"
  by (simp_all add: built_def new_BlobBuilder_def append_part_def getBlob_def Let_def)

lemma getBlob_bytes: "blobParts b \<noteq> [] \<Longrightarrow> blob_bytes (fst (getBlob b t)) = built b"
  by (cases "blobParts b") (auto simp: getBlob_def built_def)

lemma append_part_nonempty [simp]: "blobParts (append_part b data) \<noteq> []"
  by (simp add: append_part_def)

section \<open>BlobWriter and TextWriter\<close>

record blob_writer =
  bw_type :: "jstring option"
  bw_builder :: "blob_builder option"

definition BlobWriter :: "jstring option \<Rightarrow> blob_writer" where
  "BlobWriter contentType = \<lparr>bw_type = contentType, bw_builder = None\<rparr>"

definition bw_init :: "blob_writer \<Rightarrow> blob_writer" where
  "bw_init w = w\<lparr>bw_builder := Some new_BlobBuilder\<rparr>"

definition bw_write :: "blob_writer \<Rightarrow> produced \<Rightarrow> blob_writer io" where
  "bw_write w array = (case bw_builder w of None \<Rightarrow> Raised TypeError
     | Some b \<Rightarrow> Got (w\<lparr>bw_builder := Some (append_part b (blob_part array))\<rparr>))"

definition bw_getData :: "blob_writer \<Rightarrow> blob io \<times> blob_writer" where
  "bw_getData w = (case bw_builder w of None \<Rightarrow> (Raised TypeError, w)
     | Some b \<Rightarrow> (case getBlob b (bw_type w) of (x, b') \<Rightarrow> (Got x, w\<lparr>bw_builder := Some b'\<rparr>)))"

definition bw_written :: "blob_writer \<Rightarrow> byte list" where
  "bw_written w = (case bw_builder w of None \<Rightarrow> [] | Some b \<Rightarrow> built b)"

abbreviation bw_open :: "blob_writer \<Rightarrow> bool" where
  "bw_open w \<equiv> bw_builder w \<noteq> None"

interpretation blob_sink: steady_sink bw_write bw_written "\<lambda>w a. bw_open w" bw_open
  by unfold_locales (auto simp: bw_write_def bw_written_def)

text \<open>
  \<open>TextWriter\<close> collects a blob in the same way and reads it back as text; the decoder of the browser
  is a parameter. A failing \<open>FileReader\<close> would call the global \<open>onerror\<close>.
\<close>

definition tw_getData :: "(byte list \<Rightarrow> jstring) \<Rightarrow> blob_writer \<Rightarrow> jstring io \<times> blob_writer" where
  "tw_getData readAsText w = (case bw_builder w of None \<Rightarrow> (Raised TypeError, w)
     | Some b \<Rightarrow> (case getBlob b (Some (js ''text/plain'')) of
         (x, b') \<Rightarrow> (Got (readAsText (blob_bytes x)), w\<lparr>bw_builder := Some b'\<rparr>)))"

section \<open>FileWriter\<close>

text \<open>
  The browser's file writer starts at position 0 of an existing file, overwrites from its position
  and does not truncate; a write that exceeds the \<open>quota\<close> fails.
\<close>

record file_writer =
  fw_file :: "byte list"
  fw_pos :: nat
  fw_quota :: nat

definition fw_init :: "file_writer \<Rightarrow> file_writer" where
  "fw_init w = w\<lparr>fw_pos := 0\<rparr>"

definition fw_write :: "file_writer \<Rightarrow> produced \<Rightarrow> file_writer io" where
  "fw_write w array =
     (let a = blob_part array; stop = fw_pos w + length a in
      if max stop (length (fw_file w)) \<le> fw_quota w
      then Got (w\<lparr>fw_file := take (fw_pos w) (fw_file w) @ a @ drop stop (fw_file w), fw_pos := stop\<rparr>)
      else Failed)"

definition fw_getData :: "file_writer \<Rightarrow> byte list" where
  "fw_getData w = fw_file w"

definition fw_written :: "file_writer \<Rightarrow> byte list" where
  "fw_written w = take (fw_pos w) (fw_file w)"

definition fw_room :: "file_writer \<Rightarrow> byte list \<Rightarrow> bool" where
  "fw_room w a = (fw_pos w \<le> length (fw_file w) \<and>
     max (fw_pos w + length a) (length (fw_file w)) \<le> fw_quota w)"

interpretation file_sink: byte_sink fw_write fw_written fw_room
  by unfold_locales (auto simp: fw_write_def fw_written_def fw_room_def Let_def)

section \<open>Data64URIWriter\<close>

record uri_writer =
  uw_type :: jstring
  uw_data :: jstring
  uw_pending :: "byte list"

definition Data64URIWriter :: "jstring option \<Rightarrow> uri_writer" where
  "Data64URIWriter contentType =
     \<lparr>uw_type = (case contentType of Some t \<Rightarrow> t | None \<Rightarrow> []), uw_data = [], uw_pending = []\<rparr>"

definition uw_prefix :: "uri_writer \<Rightarrow> jstring" where
  "uw_prefix w = js ''data:'' @ uw_type w @ js '';base64,''"

definition uw_init :: "uri_writer \<Rightarrow> uri_writer" where
  "uw_init w = w\<lparr>uw_data := uw_data w @ uw_prefix w\<rparr>"

text \<open>The number -1 has no length: both loops end at once, and the pending bytes are kept.\<close>

definition uw_write :: "uri_writer \<Rightarrow> produced \<Rightarrow> uri_writer io" where
  "uw_write w produced =
     (case produced of
        MinusOne \<Rightarrow>
          (if length (uw_pending w) > 2 then Got (w\<lparr>uw_data := uw_data w @ btoa (uw_pending w), uw_pending := []\<rparr>)
           else Got w)
      | Bytes array \<Rightarrow>
          (let delta = length (uw_pending w);
               stop = nat (int (delta + length array) div 3 * 3 - int delta);
               dataString = uw_pending w @ take stop array;
               pending = drop stop array
           in if length dataString > 2
              then Got (w\<lparr>uw_data := uw_data w @ btoa dataString, uw_pending := pending\<rparr>)
              else Got (w\<lparr>uw_pending := dataString\<rparr>)))"

definition uw_getData :: "uri_writer \<Rightarrow> jstring" where
  "uw_getData w = uw_data w @ btoa (uw_pending w)"

text \<open>The bytes behind the data written so far.\<close>

definition uw_written :: "uri_writer \<Rightarrow> byte list" where
  "uw_written w =
     (case atob (drop (length (uw_prefix w)) (uw_data w)) of Got bs \<Rightarrow> bs | _ \<Rightarrow> []) @ uw_pending w"

definition uw_ok :: "uri_writer \<Rightarrow> bool" where
  "uw_ok w = (\<exists>bs. uw_data w = uw_prefix w @ btoa bs \<and> length bs mod 3 = 0 \<and> length (uw_pending w) < 3)"

definition uw_fits :: "uri_writer \<Rightarrow> byte list \<Rightarrow> bool" where
  "uw_fits w a = (uw_ok w \<and> (a = [] \<or> 3 \<le> length (uw_pending w) + length a))"

lemma btoa_append: "length bs mod 3 = 0 \<Longrightarrow> btoa (bs @ cs) = btoa bs @ btoa cs"
  by (induction bs rule: sextets.induct) simp_all

lemma group_stop:
  fixes d l :: nat
  assumes "d < 3" "3 \<le> d + l"
  shows "d + nat (int (d + l) div 3 * 3 - int d) = (d + l) div 3 * 3"
    and "nat (int (d + l) div 3 * 3 - int d) \<le> l"
proof -
  have "int (d + l) div 3 * 3 = int ((d + l) div 3 * 3)" by (simp add: zdiv_int)
  moreover have "3 \<le> (d + l) div 3 * 3" "(d + l) div 3 * 3 \<le> d + l" using assms(2) by presburger+
  ultimately show "d + nat (int (d + l) div 3 * 3 - int d) = (d + l) div 3 * 3"
    and "nat (int (d + l) div 3 * 3 - int d) \<le> l" using assms(1) by linarith+
qed

lemma uw_write_long:
  assumes "uw_data w = uw_prefix w @ btoa bs" "length bs mod 3 = 0" "length (uw_pending w) < 3"
    and "3 \<le> length (uw_pending w) + length a"
  obtains xs ys where "uw_pending w @ a = xs @ ys" "length xs mod 3 = 0" "length ys < 3"
    "uw_write w (Bytes a) = Got (w\<lparr>uw_data := uw_prefix w @ btoa (bs @ xs), uw_pending := ys\<rparr>)"
proof -
  define stop where "stop = nat (int (length (uw_pending w) + length a) div 3 * 3 - int (length (uw_pending w)))"
  have len: "length (uw_pending w) + stop = (length (uw_pending w) + length a) div 3 * 3"
      "stop \<le> length a"
    using group_stop [OF assms(3,4)] unfolding stop_def by simp_all
  let ?xs = "uw_pending w @ take stop a"
  have l: "length ?xs = (length (uw_pending w) + length a) div 3 * 3" using len by simp
  show thesis
  proof (rule that [of ?xs "drop stop a"])
    have "length ?xs > 2" unfolding l using assms(4) by presburger
    then show "uw_write w (Bytes a) = Got (w\<lparr>uw_data := uw_prefix w @ btoa (bs @ ?xs), uw_pending := drop stop a\<rparr>)"
      unfolding uw_write_def produced.case Let_def stop_def [symmetric] assms(1)
      by (simp add: btoa_append [OF assms(2)])
    show "length ?xs mod 3 = 0" using l by simp
    have "length ?xs + length (drop stop a) = length (uw_pending w) + length a" using len(2) by simp
    then show "length (drop stop a) < 3" unfolding l by presburger
  qed simp
qed

lemma uw_write_fits:
  assumes "uw_fits w a"
  shows "\<exists>w'. uw_write w (Bytes a) = Got w' \<and> uw_written w' = uw_written w @ a \<and> uw_ok w' \<and>
    uw_prefix w' = uw_prefix w"
proof -
  obtain bs where bs: "uw_data w = uw_prefix w @ btoa bs" "length bs mod 3 = 0" "length (uw_pending w) < 3"
    using assms by (auto simp: uw_fits_def uw_ok_def)
  show ?thesis
  proof (cases "a = []")
    case True
    have "uw_write w (Bytes []) = Got w" using bs(3) by (simp add: uw_write_def Let_def)
    with True assms show ?thesis by (simp add: uw_fits_def)
  next
    case False
    with assms have "3 \<le> length (uw_pending w) + length a" by (auto simp: uw_fits_def)
    from uw_write_long [OF bs this] obtain xs ys where xs: "uw_pending w @ a = xs @ ys" "length xs mod 3 = 0"
        "length ys < 3" "uw_write w (Bytes a) = Got (w\<lparr>uw_data := uw_prefix w @ btoa (bs @ xs), uw_pending := ys\<rparr>)" .
    have pre: "uw_prefix (w\<lparr>uw_data := d, uw_pending := ys\<rparr>) = uw_prefix w" for d by (simp add: uw_prefix_def)
    have "length (bs @ xs) mod 3 = 0" using bs(2) xs(2) by (simp add: mod_eq_0_iff_dvd)
    with xs bs show ?thesis by (auto simp: pre uw_ok_def uw_written_def atob_btoa)
  qed
qed

interpretation uri_sink: byte_sink uw_write uw_written uw_fits
  by unfold_locales (use uw_write_fits in blast)

text \<open>Anything shorter is lost when it comes to an array that does not complete a group of three.\<close>

lemma uw_write_short:
  assumes "length (uw_pending w) + length a < 3"
  shows "uw_write w (Bytes a) = Got w"
proof -
  have "nat (int (length (uw_pending w) + length a) div 3 * 3 - int (length (uw_pending w))) = 0"
    using assms by simp
  then show ?thesis using assms by (simp add: uw_write_def Let_def)
qed

section \<open>Sequences of writes\<close>

fun write_list :: "('w \<Rightarrow> produced \<Rightarrow> 'w io) \<Rightarrow> 'w \<Rightarrow> byte list list \<Rightarrow> 'w io" where
  "write_list wr w [] = Got w"
| "write_list wr w (a # as) =
     (case wr w (Bytes a) of Got w' \<Rightarrow> write_list wr w' as | Failed \<Rightarrow> Failed | Raised e \<Rightarrow> Raised e)"

lemma uw_write_list:
  assumes "uw_ok w" "\<forall>a \<in> set chunks. 3 \<le> length a"
  shows "\<exists>w'. write_list uw_write w chunks = Got w' \<and> uw_written w' = uw_written w @ concat chunks \<and>
    uw_ok w' \<and> uw_prefix w' = uw_prefix w"
  using assms
proof (induction chunks arbitrary: w)
  case (Cons a chunks)
  then have "uw_fits w a" by (simp add: uw_fits_def)
  from uw_write_fits [OF this] obtain w' where w': "uw_write w (Bytes a) = Got w'"
      "uw_written w' = uw_written w @ a" "uw_ok w'" "uw_prefix w' = uw_prefix w" by blast
  from Cons.IH [OF w'(3)] Cons.prems(2) w' show ?case by auto
qed simp

lemma uw_getData_written:
  assumes "uw_ok w"
  shows "uw_getData w = uw_prefix w @ btoa (uw_written w)"
proof -
  obtain bs where bs: "uw_data w = uw_prefix w @ btoa bs" "length bs mod 3 = 0"
    using assms by (auto simp: uw_ok_def)
  then have "uw_written w = bs @ uw_pending w" by (simp add: uw_written_def atob_btoa)
  then show ?thesis using bs by (simp add: uw_getData_def btoa_append)
qed

lemma uw_init_ok:
  "uw_ok (uw_init (Data64URIWriter t))" "uw_written (uw_init (Data64URIWriter t)) = []"
proof -
  let ?w = "uw_init (Data64URIWriter t)"
  have "uw_data ?w = uw_prefix ?w @ btoa []" "uw_pending ?w = []"
    by (simp_all add: uw_init_def Data64URIWriter_def uw_prefix_def)
  note w = this
  have "\<exists>bs. uw_data ?w = uw_prefix ?w @ btoa bs \<and> length bs mod 3 = 0" using w(1) by (intro exI [of _ "[]"]) simp
  with w(2) show "uw_ok ?w" by (simp add: uw_ok_def)
  have "drop (length (uw_prefix ?w)) (uw_data ?w) = btoa []" unfolding w(1) by simp
  then show "uw_written ?w = []" unfolding uw_written_def by (simp only: w(2) atob_btoa io.case append_Nil2)
qed

section \<open>Properties\<close>

text \<open>
  C19. What \<open>Data64URIWriter\<close> collects from arrays of at least three bytes is what \<open>Data64URIReader\<close>
  reads from the URI it returns: the reader's size is the total length and every part read back is
  that part of the concatenation.
\<close>

theorem data_uri_roundtrip:
  assumes "44 \<notin> set t" "\<forall>a \<in> set chunks. 3 \<le> length a"
  shows "\<exists>w r. write_list uw_write (uw_init (Data64URIWriter (Some t))) chunks = Got w \<and>
    r = uri_init (Data64URIReader (uw_getData w)) \<and> ur_size r = int (length (concat chunks)) \<and>
    (\<forall>i n. 0 < n \<longrightarrow> i + n \<le> length (concat chunks) \<longrightarrow>
       uri_read r (int i) (int n) = (Got (take n (drop i (concat chunks))), r))"
proof -
  let ?w0 = "uw_init (Data64URIWriter (Some t))"
  obtain w where w: "write_list uw_write ?w0 chunks = Got w" "uw_written w = concat chunks" "uw_ok w"
      "uw_prefix w = uw_prefix ?w0"
    using uw_write_list [OF uw_init_ok(1) assms(2)] uw_init_ok(2) by fastforce
  define p where "p = js ''data:'' @ t @ js '';base64''"
  have "uw_prefix ?w0 = p @ [44]" by (simp add: uw_prefix_def p_def uw_init_def Data64URIWriter_def)
  then have uri: "uw_getData w = p @ 44 # btoa (concat chunks)" using uw_getData_written [OF w(3)] w by simp
  have "44 \<notin> set p" using assms(1) by (simp add: p_def)
  from uri_init_holds [OF this, of "concat chunks"] uri_part w(1) uri show ?thesis by metis
qed

theorem data_uri_roundtrip_witness:
  "\<exists>w r. write_list uw_write (uw_init (Data64URIWriter (Some (js ''a/b'')))) [[1, 2, 3, 4], [5, 6, 7]] = Got w \<and>
    r = uri_init (Data64URIReader (uw_getData w)) \<and> ur_size r = int (length (concat [[1 :: byte, 2, 3, 4], [5, 6, 7]])) \<and>
    (\<forall>i n. 0 < n \<longrightarrow> i + n \<le> length (concat [[1 :: byte, 2, 3, 4], [5, 6, 7]]) \<longrightarrow>
       uri_read r (int i) (int n) = (Got (take n (drop i (concat [[1, 2, 3, 4], [5, 6, 7]]))), r))"
  by (rule data_uri_roundtrip) simp_all

text \<open>
  C34. Bytes are lost: an array that does not complete a group of three with the pending bytes leaves
  \<open>Data64URIWriter\<close> exactly as it was, so the URI it returns at the end lacks those bytes.
\<close>

theorem data_uri_drops_short_arrays:
  assumes "write_list uw_write w before = Got w'" "length (uw_pending w') + length a < 3"
  shows "write_list uw_write w (before @ a # after) = write_list uw_write w (before @ after)"
  using assms
  by (induction before arbitrary: w) (auto simp: uw_write_short split: io.splits)

theorem data_uri_drops_short_arrays_witness:
  "write_list uw_write (uw_init (Data64URIWriter None)) ([] @ [7] # [[1, 2, 3]]) =
   write_list uw_write (uw_init (Data64URIWriter None)) ([] @ [[1, 2, 3]])"
  by (rule data_uri_drops_short_arrays [where w' = "uw_init (Data64URIWriter None)"])
    (simp_all add: uw_init_def Data64URIWriter_def)

end
