(* ===== verification/Crc32.thy ===== *)
theory Crc32
  imports Js_Prelude
begin

text \<open>
  The checksum of \<^verbatim>\<open>html/lib/zip.js\<close> (\<open>Crc32\<close>): the 256-entry table, the table-driven
  \<open>append\<close> and \<open>get\<close>. The JavaScript values are 32-bit patterns (every step is a bitwise
  operator), so the state is a 32-bit word. The reference is the bit-serial shift register of the
  reflected polynomial, fed with the bits of each byte from the lowest to the highest.
\<close>

section \<open>The code\<close>

definition crc_poly :: "32 word" where
  "crc_poly = 0xEDB88320"

definition table_step :: "32 word \<Rightarrow> 32 word" where
  "table_step t = (if t AND 1 \<noteq> 0 then drop_bit 1 t XOR crc_poly else drop_bit 1 t)"

definition table_entry :: "nat \<Rightarrow> 32 word" where
  "table_entry i = (table_step ^^ 8) (of_nat i)"

definition crc_table :: "32 word list" where
  "crc_table = map table_entry [0..<256]"

definition append_byte :: "32 word \<Rightarrow> byte \<Rightarrow> 32 word" where
  "append_byte crc x = drop_bit 8 crc XOR crc_table ! unat ((crc XOR ucast x) AND 0xFF)"

definition crc_init :: "32 word" where
  "crc_init = - 1"

definition crc_append :: "32 word \<Rightarrow> byte list \<Rightarrow> 32 word" where
  "crc_append crc data = foldl append_byte crc data"

definition crc_get :: "32 word \<Rightarrow> 32 word" where
  "crc_get crc = NOT crc"

definition crc32 :: "byte list \<Rightarrow> 32 word" where
  "crc32 data = crc_get (crc_append crc_init data)"

section \<open>The bit-serial reference\<close>

definition shift_bit :: "32 word \<Rightarrow> bool \<Rightarrow> 32 word" where
  "shift_bit reg b = (if bit reg 0 \<noteq> b then drop_bit 1 reg XOR crc_poly else drop_bit 1 reg)"

definition byte_bits :: "byte \<Rightarrow> bool list" where
  "byte_bits x = map (bit x) [0..<8]"

definition crc_reference :: "byte list \<Rightarrow> 32 word" where
  "crc_reference data = NOT (foldl shift_bit (- 1) (concat (map byte_bits data)))"

section \<open>The register step is linear and injective\<close>

lemma xor_cancel: "a XOR c = b XOR c \<longleftrightarrow> a = b" "c XOR a = c XOR b \<longleftrightarrow> a = b" for a b c :: "'a::len word"
proof -
  have r: "v = (v XOR c) XOR c" for v :: "'a word" by (simp add: xor.assoc)
  have "a = b" if "a XOR c = b XOR c" using r [of a] r [of b] that by simp
  then show "a XOR c = b XOR c \<longleftrightarrow> a = b" by blast
  then show "c XOR a = c XOR b \<longleftrightarrow> a = b" by (simp add: xor.commute)
qed

lemma and_one_bit: "t AND 1 \<noteq> 0 \<longleftrightarrow> bit t 0" for t :: "32 word"
  by (simp add: and_one_eq bit_0 odd_iff_mod_2_eq_one)

lemma table_step_bit: "table_step t = drop_bit 1 t XOR (if bit t 0 then crc_poly else 0)"
  by (simp add: table_step_def and_one_bit)

lemma table_step_xor: "table_step (a XOR b) = table_step a XOR table_step b"
  by (simp add: table_step_bit bit_xor_iff ac_simps)

lemma table_steps_xor: "(table_step ^^ n) (a XOR b) = (table_step ^^ n) a XOR (table_step ^^ n) b"
  by (induction n arbitrary: a b) (simp_all add: table_step_xor funpow_swap1 [symmetric] del: funpow.simps(2) add: funpow_Suc_right)

lemma table_step_eq_0: "table_step t = 0 \<Longrightarrow> t = 0"
proof -
  assume z: "table_step t = 0"
  have "bit (table_step t) 31 = bit t 0"
    by (auto simp: table_step_bit bit_xor_iff bit_drop_bit_eq crc_poly_def dest: bit_imp_le_length)
  with z have b0: "\<not> bit t 0" by simp
  then have "drop_bit 1 t = 0" using z by (simp add: table_step_bit)
  moreover have "bit (drop_bit 1 t) n = bit t (1 + n)" for n
    by (simp only: bit_drop_bit_eq comp_apply)
  ultimately have "bit t (Suc n) = False" for n by simp
  then have "bit t n = False" for n using b0 by (cases n) auto
  then show "t = 0" by (intro bit_word_eqI) simp
qed

lemma table_steps_eq_0: "(table_step ^^ n) t = 0 \<Longrightarrow> t = 0"
  by (induction n) (auto dest: table_step_eq_0)

lemma table_steps_inj: "(table_step ^^ n) a = (table_step ^^ n) b \<Longrightarrow> a = b"
proof -
  assume "(table_step ^^ n) a = (table_step ^^ n) b"
  then have "(table_step ^^ n) (a XOR b) = 0" by (simp add: table_steps_xor)
  then have "a XOR b = b XOR b" using table_steps_eq_0 by fastforce
  then show "a = b" by (simp only: xor_cancel)
qed

section \<open>The table agrees with the register\<close>

lemma shift_bit_step: "shift_bit reg b = table_step (reg XOR of_bool b)"
proof -
  have "drop_bit 1 (of_bool b :: 32 word) = 0" by (cases b) simp_all
  then have "drop_bit 1 (reg XOR of_bool b) = drop_bit 1 reg" by (simp only: drop_bit_xor) simp
  moreover have "bit (reg XOR of_bool b) 0 \<longleftrightarrow> bit reg 0 \<noteq> b"
    by (simp add: bit_xor_iff bit_of_bool_iff del: bit_0)
  ultimately show ?thesis by (simp add: shift_bit_def table_step_bit del: bit_0)
qed

text \<open>A word whose low \<open>n\<close> bits are zero only moves right in \<open>n\<close> steps.\<close>

lemma table_steps_shift:
  "take_bit n t = 0 \<Longrightarrow> (table_step ^^ n) t = drop_bit n t"
proof (induction n arbitrary: t)
  case 0
  then show ?case by simp
next
  case (Suc n)
  have b: "\<not> bit t i" if "i < Suc n" for i
    using Suc.prems that by (metis bit_take_bit_iff bit_0_eq bot_apply bot_bool_def)
  then have "table_step t = drop_bit 1 t" by (simp add: table_step_bit)
  moreover have "take_bit n (drop_bit 1 t) = 0"
    by (rule bit_word_eqI) (simp add: bit_take_bit_iff bit_drop_bit_eq b)
  ultimately show ?case
    using Suc.IH [of "drop_bit 1 t"] by (simp add: funpow_Suc_right del: funpow.simps(2))
qed

lemma mask_byte: "(0xFF :: 32 word) = mask 8"
  by (simp add: mask_eq_exp_minus_1)

lemma low_byte_split: "t = (t AND NOT (mask 8)) XOR (t AND mask 8)" for t :: "32 word"
  by (rule bit_word_eqI) (auto simp: bit_and_iff bit_xor_iff bit_not_iff bit_mask_iff)

lemma low_byte_unat: "unat (t AND mask 8 :: 32 word) < 256"
proof -
  have "unat (t AND mask 8) = unat t mod 2 ^ 8"
    by (simp only: take_bit_eq_mask [symmetric] unsigned_take_bit_eq) (simp add: take_bit_eq_mod)
  then show ?thesis by simp
qed

lemma append_byte_steps: "append_byte crc x = (table_step ^^ 8) (crc XOR ucast x)"
proof -
  let ?t = "crc XOR ucast x"
  have hi: "(table_step ^^ 8) (?t AND NOT (mask 8)) = drop_bit 8 (?t AND NOT (mask 8))"
    by (rule table_steps_shift, rule bit_word_eqI)
       (auto simp: bit_take_bit_iff bit_and_iff bit_not_iff bit_mask_iff)
  also have "\<dots> = drop_bit 8 crc"
    by (rule bit_word_eqI)
       (auto simp: bit_drop_bit_eq bit_and_iff bit_not_iff bit_mask_iff bit_xor_iff bit_ucast_iff
         dest: bit_imp_le_length)
  finally have "(table_step ^^ 8) ?t = drop_bit 8 crc XOR (table_step ^^ 8) (?t AND mask 8)"
    using table_steps_xor [of 8 "?t AND NOT (mask 8)" "?t AND mask 8"] low_byte_split [of ?t] by metis
  moreover have "crc_table ! unat (?t AND mask 8) = (table_step ^^ 8) (?t AND mask 8)"
    using low_byte_unat [of ?t] by (simp add: crc_table_def table_entry_def)
  ultimately show ?thesis by (simp add: append_byte_def mask_byte)
qed

text \<open>Feeding bits one at a time or all at once: bit \<open>i\<close> only matters from step \<open>i\<close> on.\<close>

primrec word_of_bits :: "bool list \<Rightarrow> 32 word" where
  "word_of_bits [] = 0"
| "word_of_bits (b # bs) = of_bool b XOR push_bit 1 (word_of_bits bs)"

lemma bit_word_of_bits: "bit (word_of_bits bs) i \<longleftrightarrow> i < 32 \<and> i < length bs \<and> bs ! i"
proof (induction bs arbitrary: i)
  case (Cons b bs)
  show ?case
  proof (cases i)
    case 0
    have "bit (word_of_bits (b # bs)) 0 \<longleftrightarrow> b"
      by (simp only: word_of_bits.simps bit_xor_iff bit_push_bit_iff bit_of_bool_iff) simp
    with 0 show ?thesis by simp
  next
    case (Suc j)
    have "bit (push_bit 1 v) (Suc j) \<longleftrightarrow> Suc j < 32 \<and> bit v j" for v :: "32 word"
      by (subst bit_push_bit_iff) (auto simp: possible_bit_word)
    moreover have "\<not> bit (of_bool b :: 32 word) (Suc j)"
      by (subst bit_of_bool_iff) simp
    ultimately have "bit (word_of_bits (b # bs)) (Suc j) \<longleftrightarrow> Suc j < 32 \<and> bit (word_of_bits bs) j"
      by (simp only: word_of_bits.simps bit_xor_iff simp_thms)
    also have "\<dots> \<longleftrightarrow> Suc j < 32 \<and> Suc j < length (b # bs) \<and> (b # bs) ! Suc j"
      using Cons.IH [of j] by (simp only: nth_Cons_Suc list.size) linarith
    finally show ?thesis by (simp only: Suc)
  qed
qed simp

lemma table_step_push: "\<not> bit v 31 \<Longrightarrow> table_step (push_bit 1 v) = v"
proof (rule bit_word_eqI)
  fix i assume v: "\<not> bit v 31" and i: "i < LENGTH(32)"
  have "\<not> bit (push_bit 1 v) 0" by (simp only: bit_push_bit_iff) simp
  then have "bit (table_step (push_bit 1 v)) i \<longleftrightarrow> bit (push_bit 1 v) (1 + i)"
    by (simp only: table_step_bit if_False xor.right_neutral bit_drop_bit_eq comp_apply)
  also have "\<dots> \<longleftrightarrow> 1 + i < 32 \<and> bit v i"
    by (simp only: bit_push_bit_iff possible_bit_word) auto
  also have "\<dots> \<longleftrightarrow> bit v i"
    using v i by (cases "i = 31") auto
  finally show "bit (table_step (push_bit 1 v)) i \<longleftrightarrow> bit v i" .
qed

lemma shift_bits_steps:
  "length bs \<le> 32 \<Longrightarrow> foldl shift_bit reg bs = (table_step ^^ length bs) (reg XOR word_of_bits bs)"
proof (induction bs arbitrary: reg)
  case (Cons b bs)
  have "\<not> bit (word_of_bits bs) 31" using Cons.prems by (simp add: bit_word_of_bits)
  then have tp: "table_step (push_bit 1 (word_of_bits bs)) = word_of_bits bs" by (rule table_step_push)
  then have "table_step (reg XOR word_of_bits (b # bs)) = table_step (reg XOR of_bool b) XOR word_of_bits bs"
    using tp by (simp only: word_of_bits.simps xor.assoc [symmetric] table_step_xor [of _ "push_bit 1 v" for v])
  with Cons show ?case
    by (simp add: shift_bit_step funpow_Suc_right del: funpow.simps(2) word_of_bits.simps)
qed simp

lemma word_of_byte_bits: "word_of_bits (byte_bits x) = ucast x"
proof (rule bit_word_eqI)
  fix n assume n: "n < LENGTH(32)"
  show "bit (word_of_bits (byte_bits x)) n = bit (ucast x :: 32 word) n"
  proof (cases "n < 8")
    case True
    with n show ?thesis by (simp add: bit_word_of_bits byte_bits_def bit_ucast_iff)
  next
    case False
    then show ?thesis using bit_imp_le_length [of x n]
      by (auto simp: bit_word_of_bits byte_bits_def bit_ucast_iff)
  qed
qed

lemma append_byte_reference: "append_byte crc x = foldl shift_bit crc (byte_bits x)"
  using shift_bits_steps [of "byte_bits x" crc]
  by (simp add: append_byte_steps word_of_byte_bits) (simp add: byte_bits_def)

lemma crc_append_reference: "crc_append crc data = foldl shift_bit crc (concat (map byte_bits data))"
  by (induction data arbitrary: crc) (simp_all add: crc_append_def append_byte_reference)

lemma crc_append_append [simp]: "crc_append crc (xs @ ys) = crc_append (crc_append crc xs) ys"
  by (simp add: crc_append_def)

lemma crc_append_Nil [simp]: "crc_append crc [] = crc"
  by (simp add: crc_append_def)

text \<open>Equal states come from equal states, and equal bytes from equal states.\<close>

lemma append_byte_inj: "append_byte a x = append_byte b x \<Longrightarrow> a = b"
proof -
  assume "append_byte a x = append_byte b x"
  then have "a XOR ucast x = b XOR ucast x" by (simp only: append_byte_steps) (rule table_steps_inj)
  then show "a = b" by (simp only: xor_cancel)
qed

lemma append_byte_inj_byte: "append_byte a x = append_byte a y \<Longrightarrow> x = y"
proof -
  assume "append_byte a x = append_byte a y"
  then have "a XOR ucast x = a XOR ucast y" by (simp only: append_byte_steps) (rule table_steps_inj)
  then have u: "(ucast x :: 32 word) = ucast y" by (simp only: xor_cancel)
  show "x = y"
  proof (rule bit_word_eqI)
    fix n assume "n < LENGTH(8)"
    then show "bit x n = bit y n" using arg_cong [OF u, of "\<lambda>w. bit w n"] by (simp add: bit_ucast_iff)
  qed
qed

lemma crc_append_inj: "crc_append a data = crc_append b data \<Longrightarrow> a = b"
  by (induction data arbitrary: a b) (auto simp: crc_append_def dest: append_byte_inj)

lemma crc32_one_byte:
  assumes "x \<noteq> y"
  shows "crc32 (pre @ x # post) \<noteq> crc32 (pre @ y # post)"
proof
  assume "crc32 (pre @ x # post) = crc32 (pre @ y # post)"
  then have "crc_append (crc_append crc_init pre) (x # post) = crc_append (crc_append crc_init pre) (y # post)"
    by (simp add: crc32_def crc_get_def)
  then have "append_byte (crc_append crc_init pre) x = append_byte (crc_append crc_init pre) y"
    by (auto simp: crc_append_def [of _ "_ # _"] simp flip: crc_append_def intro: crc_append_inj)
  with assms show False by (auto dest: append_byte_inj_byte)
qed

section \<open>Properties\<close>

text \<open>
  C10. The table-driven checksum of a message, appended in any division into chunks, is the
  bit-serial CRC-32 of the whole message.
\<close>

theorem crc_chunks_reference: "crc_get (foldl crc_append crc_init chunks) = crc_reference (concat chunks)"
proof -
  have "foldl crc_append c chunks = crc_append c (concat chunks)" for c
    by (induction chunks arbitrary: c) simp_all
  then show ?thesis
    by (simp add: crc_get_def crc_reference_def crc_append_reference crc_init_def)
qed

text \<open>
  A message in which one byte was changed never has the checksum of the original.
\<close>

theorem crc_detects_byte_error:
  assumes "x \<noteq> y"
  shows "crc32 (pre @ x # post) \<noteq> crc32 (pre @ y # post)"
  using assms by (rule crc32_one_byte)

theorem crc_detects_byte_error_witness: "crc32 ([1, 2] @ 3 # [4]) \<noteq> crc32 ([1, 2] @ 7 # [4])"
proof -
  have "(3 :: byte) \<noteq> 7" by simp
  then show ?thesis by (rule crc_detects_byte_error)
qed

end
