(* ===== verification/Zip_Pump.thy ===== *)
theory Zip_Pump
  imports Zip_Sinks Crc32
begin

text \<open>
  How \<^verbatim>\<open>html/lib/zip.js\<close> moves data from a reader to a writer: \<open>copy\<close>, \<open>launchProcess\<close> (the
  compressor runs in the page), \<open>launchWorkerProcess\<close> (it runs in a Web Worker and the two exchange
  messages), and \<open>inflate\<close> and \<open>deflate\<close>, which choose between the two and keep the checksum. The
  compressor, an \<open>Inflater\<close> or a \<open>Deflater\<close>, is a parameter here: its two methods and its state.
\<close>

section \<open>Chunks\<close>

definition CHUNK_SIZE :: nat where "CHUNK_SIZE = 512 * 1024"

lemma CHUNK_pos [simp]: "0 < CHUNK_SIZE"
  by (simp add: CHUNK_SIZE_def)

lemma chunk_progress: "k * CHUNK_SIZE < n \<Longrightarrow> n - (CHUNK_SIZE + k * CHUNK_SIZE) < n - k * CHUNK_SIZE"
  using CHUNK_pos by linarith

type_synonym 'r read_fn = "'r \<Rightarrow> int \<Rightarrow> int \<Rightarrow> byte list io \<times> 'r"
type_synonym 'w write_fn = "'w \<Rightarrow> produced \<Rightarrow> 'w io"

text \<open>How a transfer comes out: \<open>onend\<close>, \<open>onreaderror\<close>, \<open>onwriteerror\<close>, or an uncaught exception.\<close>

datatype 'e finish = Ended 'e | ReaderFailed | WriterFailed | Died js_error

section \<open>copy\<close>

function copy_from :: "'r read_fn \<Rightarrow> 'w write_fn \<Rightarrow> nat \<Rightarrow> nat \<Rightarrow> bool \<Rightarrow> nat \<Rightarrow> 32 word \<Rightarrow> 'r \<Rightarrow> 'w \<Rightarrow>
    (nat \<times> 32 word) finish \<times> 'r \<times> 'w" where
  "copy_from rd wr offset len computeCrc32 chunkIndex crc r w =
     (let index = chunkIndex * CHUNK_SIZE in
      if index < len then
        (case rd r (int (offset + index)) (int (min CHUNK_SIZE (len - index))) of
           (Failed, r') \<Rightarrow> (ReaderFailed, r', w)
         | (Raised e, r') \<Rightarrow> (Died e, r', w)
         | (Got array, r') \<Rightarrow>
             (let crc' = (if computeCrc32 then crc_append crc array else crc) in
              case wr w (Bytes array) of
                Failed \<Rightarrow> (WriterFailed, r', w)
              | Raised e \<Rightarrow> (Died e, r', w)
              | Got w' \<Rightarrow> copy_from rd wr offset len computeCrc32 (Suc chunkIndex) crc' r' w'))
      else (Ended (len, crc_get crc), r, w))"
  by pat_completeness auto
termination
  by (relation "measure (\<lambda>(rd, wr, offset, len, cc, k, _). len - k * CHUNK_SIZE)")
    (auto simp: chunk_progress)

declare copy_from.simps [simp del]

definition copy :: "'r read_fn \<Rightarrow> 'w write_fn \<Rightarrow> nat \<Rightarrow> nat \<Rightarrow> bool \<Rightarrow> 'r \<Rightarrow> 'w \<Rightarrow>
    (nat \<times> 32 word) finish \<times> 'r \<times> 'w" where
  "copy rd wr offset len computeCrc32 r w = copy_from rd wr offset len computeCrc32 0 crc_init r w"

section \<open>launchProcess\<close>

text \<open>
  The methods of the compressor. \<open>append\<close> may throw, may return an array, the number -1 or
  \<open>undefined\<close>; \<open>flush\<close> likewise. \<open>onappend\<close> works on the state \<open>'c\<close> of its closure.
\<close>

type_synonym ('p, 'a) call = "'p \<Rightarrow> (js_error + 'a) \<times> 'p"
type_synonym 'p append_fn = "byte list \<Rightarrow> ('p, produced option) call"
type_synonym 'p flush_fn = "('p, produced option) call"

text \<open>\<open>outputSize += outputData.length\<close>; the number -1 has no length and makes the sum \<open>NaN\<close>.\<close>

fun add_size :: "nat option \<Rightarrow> produced \<Rightarrow> nat option" where
  "add_size (Some n) (Bytes a) = Some (n + length a)"
| "add_size _ _ = None"

definition write_last :: "'w write_fn \<Rightarrow> (bool \<Rightarrow> produced \<Rightarrow> 'c \<Rightarrow> 'c) \<Rightarrow> produced option \<Rightarrow> nat option \<Rightarrow> 'c \<Rightarrow>
    'w \<Rightarrow> (nat option \<times> 'c) finish \<times> 'w" where
  "write_last wr onappend outputData outputSize c w =
     (case outputData of
        None \<Rightarrow> (Ended (outputSize, c), w)
      | Some d \<Rightarrow>
          (case wr w d of
             Failed \<Rightarrow> (WriterFailed, w)
           | Raised e \<Rightarrow> (Died e, w)
           | Got w' \<Rightarrow> (Ended (add_size outputSize d, onappend False d c), w')))"

function launch_from :: "'p append_fn \<Rightarrow> 'p flush_fn \<Rightarrow> 'r read_fn \<Rightarrow> 'w write_fn \<Rightarrow>
    (bool \<Rightarrow> produced \<Rightarrow> 'c \<Rightarrow> 'c) \<Rightarrow> nat \<Rightarrow> nat \<Rightarrow> nat \<Rightarrow> nat option \<Rightarrow> 'p \<Rightarrow> 'c \<Rightarrow> 'r \<Rightarrow> 'w \<Rightarrow>
    (nat option \<times> 'c) finish \<times> 'p \<times> 'r \<times> 'w" where
  "launch_from app fl rd wr onappend offset len chunkIndex outputSize p c r w =
     (let index = chunkIndex * CHUNK_SIZE in
      if index < len then
        (case rd r (int (offset + index)) (int (min CHUNK_SIZE (len - index))) of
           (Failed, r') \<Rightarrow> (ReaderFailed, p, r', w)
         | (Raised e, r') \<Rightarrow> (Died e, p, r', w)
         | (Got inputData, r') \<Rightarrow>
             (case app inputData p of
                (Inl e, p') \<Rightarrow> (Died e, p', r', w)
              | (Inr None, p') \<Rightarrow> (Died TypeError, p', r', w)
              | (Inr (Some outputData), p') \<Rightarrow>
                  (case wr w outputData of
                     Failed \<Rightarrow> (WriterFailed, p', r', w)
                   | Raised e \<Rightarrow> (Died e, p', r', w)
                   | Got w' \<Rightarrow>
                       launch_from app fl rd wr onappend offset len (Suc chunkIndex)
                         (add_size outputSize outputData) p'
                         (onappend False outputData (onappend True (Bytes inputData) c)) r' w')))
      else
        (case fl p of
           (Inl e, p') \<Rightarrow> (Died e, p', r, w)
         | (Inr outputData, p') \<Rightarrow>
             (case write_last wr onappend outputData outputSize c w of (f, w') \<Rightarrow> (f, p', r, w'))))"
  by pat_completeness auto
termination
  by (relation "measure (\<lambda>(app, fl, rd, wr, onappend, offset, len, k, _). len - k * CHUNK_SIZE)")
    (auto simp: chunk_progress)

declare launch_from.simps [simp del]

definition launchProcess :: "'p append_fn \<Rightarrow> 'p flush_fn \<Rightarrow> 'r read_fn \<Rightarrow> 'w write_fn \<Rightarrow>
    (bool \<Rightarrow> produced \<Rightarrow> 'c \<Rightarrow> 'c) \<Rightarrow> nat \<Rightarrow> nat \<Rightarrow> 'p \<Rightarrow> 'c \<Rightarrow> 'r \<Rightarrow> 'w \<Rightarrow>
    (nat option \<times> 'c) finish \<times> 'p \<times> 'r \<times> 'w" where
  "launchProcess app fl rd wr onappend offset len p c r w =
     launch_from app fl rd wr onappend offset len 0 (Some 0) p c r w"

section \<open>launchWorkerProcess\<close>

datatype to_worker = AppendMsg "byte list" | FlushMsg
datatype from_worker = OnAppend "produced option" | OnFlush "produced option" | Progress nat

record ('p, 'c, 'r, 'w) worker_run =
  chunk_index :: nat
  output_size :: "nat option"
  closure :: 'c
  reader_state :: 'r
  writer_state :: 'w
  compressor :: 'p
  to_wk :: "to_worker list"
  to_main :: "from_worker list"
  finished :: "(nat option \<times> 'c) finish option"

text \<open>\<open>step\<close> of the page's side.\<close>

definition post_chunk :: "'r read_fn \<Rightarrow> (bool \<Rightarrow> produced \<Rightarrow> 'c \<Rightarrow> 'c) \<Rightarrow> nat \<Rightarrow> nat \<Rightarrow>
    ('p, 'c, 'r, 'w) worker_run \<Rightarrow> ('p, 'c, 'r, 'w) worker_run" where
  "post_chunk rd onappend offset len s =
     (let index = chunk_index s * CHUNK_SIZE in
      if index < len then
        (case rd (reader_state s) (int (offset + index)) (int (min CHUNK_SIZE (len - index))) of
           (Failed, r') \<Rightarrow> s\<lparr>reader_state := r', finished := Some ReaderFailed\<rparr>
         | (Raised e, r') \<Rightarrow> s\<lparr>reader_state := r', finished := Some (Died e)\<rparr>
         | (Got array, r') \<Rightarrow>
             s\<lparr>reader_state := r', to_wk := to_wk s @ [AppendMsg array],
               chunk_index := Suc (chunk_index s), closure := onappend True (Bytes array) (closure s)\<rparr>)
      else s\<lparr>to_wk := to_wk s @ [FlushMsg]\<rparr>)"

text \<open>\<open>onmessage\<close> of the page's side.\<close>

definition on_main_message :: "'r read_fn \<Rightarrow> 'w write_fn \<Rightarrow> (bool \<Rightarrow> produced \<Rightarrow> 'c \<Rightarrow> 'c) \<Rightarrow> nat \<Rightarrow> nat \<Rightarrow>
    from_worker \<Rightarrow> ('p, 'c, 'r, 'w) worker_run \<Rightarrow> ('p, 'c, 'r, 'w) worker_run" where
  "on_main_message rd wr onappend offset len m s =
     (case m of
        Progress n \<Rightarrow> s
      | OnAppend None \<Rightarrow> s\<lparr>finished := Some (Died TypeError)\<rparr>
      | OnAppend (Some d) \<Rightarrow>
          (let s1 = s\<lparr>output_size := add_size (output_size s) d\<rparr> in
           case wr (writer_state s1) d of
             Failed \<Rightarrow> s1\<lparr>finished := Some WriterFailed\<rparr>
           | Raised e \<Rightarrow> s1\<lparr>finished := Some (Died e)\<rparr>
           | Got w' \<Rightarrow> post_chunk rd onappend offset len
               (s1\<lparr>writer_state := w', closure := onappend False d (closure s1)\<rparr>))
      | OnFlush d \<Rightarrow>
          (case write_last wr onappend d (output_size s) (closure s) (writer_state s) of
             (f, w') \<Rightarrow> s\<lparr>writer_state := w', finished := Some f\<rparr>))"

text \<open>
  The worker's side, from the end of \<^verbatim>\<open>inflate.js\<close> and \<^verbatim>\<open>deflate.js\<close>. \<open>ticks\<close> are the progress reports
  of one \<open>append\<close>. An exception in the worker posts no message, and nothing listens for its error event.
\<close>

definition on_worker_message :: "'p append_fn \<Rightarrow> 'p flush_fn \<Rightarrow> ('p \<Rightarrow> byte list \<Rightarrow> nat list) \<Rightarrow>
    to_worker \<Rightarrow> ('p, 'c, 'r, 'w) worker_run \<Rightarrow> ('p, 'c, 'r, 'w) worker_run" where
  "on_worker_message app fl ticks m s =
     (case m of
        AppendMsg a \<Rightarrow>
          (let reports = map Progress (ticks (compressor s) a) in
           case app a (compressor s) of
             (Inl e, p') \<Rightarrow> s\<lparr>compressor := p', to_main := to_main s @ reports\<rparr>
           | (Inr d, p') \<Rightarrow> s\<lparr>compressor := p', to_main := to_main s @ reports @ [OnAppend d]\<rparr>)
      | FlushMsg \<Rightarrow>
          (case fl (compressor s) of
             (Inl e, p') \<Rightarrow> s\<lparr>compressor := p'\<rparr>
           | (Inr d, p') \<Rightarrow> s\<lparr>compressor := p', to_main := to_main s @ [OnFlush d]\<rparr>))"

definition launchWorkerProcess :: "'r read_fn \<Rightarrow> (bool \<Rightarrow> produced \<Rightarrow> 'c \<Rightarrow> 'c) \<Rightarrow> nat \<Rightarrow> nat \<Rightarrow> 'p \<Rightarrow> 'c \<Rightarrow> 'r \<Rightarrow>
    'w \<Rightarrow> ('p, 'c, 'r, 'w) worker_run" where
  "launchWorkerProcess rd onappend offset len p c r w =
     post_chunk rd onappend offset len
       \<lparr>chunk_index = 0, output_size = Some 0, closure = c, reader_state = r, writer_state = w,
        compressor = p, to_wk = [], to_main = [], finished = None\<rparr>"

text \<open>Either side takes the first message of its queue, in any order of the two sides.\<close>

inductive message_step :: "'p append_fn \<Rightarrow> 'p flush_fn \<Rightarrow> ('p \<Rightarrow> byte list \<Rightarrow> nat list) \<Rightarrow> 'r read_fn \<Rightarrow> 'w write_fn \<Rightarrow>
    (bool \<Rightarrow> produced \<Rightarrow> 'c \<Rightarrow> 'c) \<Rightarrow> nat \<Rightarrow> nat \<Rightarrow>
    ('p, 'c, 'r, 'w) worker_run \<Rightarrow> ('p, 'c, 'r, 'w) worker_run \<Rightarrow> bool"
  for app fl ticks rd wr onappend offset len where
  in_worker: "to_wk s = m # q \<Longrightarrow>
    message_step app fl ticks rd wr onappend offset len s (on_worker_message app fl ticks m (s\<lparr>to_wk := q\<rparr>))"
| in_main: "to_main s = m # q \<Longrightarrow>
    message_step app fl ticks rd wr onappend offset len s
      (on_main_message rd wr onappend offset len m (s\<lparr>to_main := q\<rparr>))"

section \<open>inflate and deflate\<close>

definition crc_produced :: "produced \<Rightarrow> 32 word \<Rightarrow> 32 word" where
  "crc_produced d crc = (case d of Bytes a \<Rightarrow> crc_append crc a | MinusOne \<Rightarrow> crc)"

definition oninflateappend :: "bool \<Rightarrow> bool \<Rightarrow> produced \<Rightarrow> 32 word \<Rightarrow> 32 word" where
  "oninflateappend computeCrc32 sending array crc =
     (if computeCrc32 \<and> \<not> sending then crc_produced array crc else crc)"

definition ondeflateappend :: "bool \<Rightarrow> produced \<Rightarrow> 32 word \<Rightarrow> 32 word" where
  "ondeflateappend sending array crc = (if sending then crc_produced array crc else crc)"

fun map_finish :: "('a \<Rightarrow> 'b) \<Rightarrow> 'a finish \<Rightarrow> 'b finish" where
  "map_finish g (Ended x) = Ended (g x)"
| "map_finish g ReaderFailed = ReaderFailed"
| "map_finish g WriterFailed = WriterFailed"
| "map_finish g (Died e) = Died e"

definition inflate :: "'p append_fn \<Rightarrow> 'p flush_fn \<Rightarrow> 'p \<Rightarrow> 'r read_fn \<Rightarrow> 'w write_fn \<Rightarrow> nat \<Rightarrow> nat \<Rightarrow> bool \<Rightarrow> 'r \<Rightarrow> 'w \<Rightarrow>
    (nat option \<times> 32 word) finish \<times> 'r \<times> 'w" where
  "inflate app fl inflater rd wr offset len computeCrc32 r w =
     (case launchProcess app fl rd wr (oninflateappend computeCrc32) offset len inflater crc_init r w of
        (f, p', r', w') \<Rightarrow> (map_finish (\<lambda>(n, crc). (n, crc_get crc)) f, r', w'))"

text \<open>
  \<open>deflate\<close> in the page: \<open>new obj.zip.Deflater()\<close> gets no level, so the parameter has no effect.
\<close>

definition deflate :: "'p append_fn \<Rightarrow> 'p flush_fn \<Rightarrow> (int option \<Rightarrow> 'p) \<Rightarrow> 'r read_fn \<Rightarrow> 'w write_fn \<Rightarrow> int option \<Rightarrow> nat \<Rightarrow>
    'r \<Rightarrow> 'w \<Rightarrow> (nat option \<times> 32 word) finish \<times> 'r \<times> 'w" where
  "deflate app fl new_deflater rd wr level len r w =
     (case launchProcess app fl rd wr ondeflateappend 0 len (new_deflater None) crc_init r w of
        (f, p', r', w') \<Rightarrow> (map_finish (\<lambda>(n, crc). (n, crc_get crc)) f, r', w'))"

text \<open>
  The same with a worker, from where the protocol starts: a new worker makes an \<open>Inflater\<close>; for \<open>deflate\<close> the
  page sends it the level first, and goes on when it answers that it has made a \<open>Deflater\<close> of this level.
\<close>

definition inflate_worker :: "'p \<Rightarrow> 'r read_fn \<Rightarrow> nat \<Rightarrow> nat \<Rightarrow> bool \<Rightarrow> 'r \<Rightarrow> 'w \<Rightarrow> ('p, 32 word, 'r, 'w) worker_run" where
  "inflate_worker inflater rd offset len computeCrc32 r w =
     launchWorkerProcess rd (oninflateappend computeCrc32) offset len inflater crc_init r w"

definition deflate_worker :: "(int option \<Rightarrow> 'p) \<Rightarrow> 'r read_fn \<Rightarrow> int option \<Rightarrow> nat \<Rightarrow> 'r \<Rightarrow> 'w \<Rightarrow>
    ('p, 32 word, 'r, 'w) worker_run" where
  "deflate_worker new_deflater rd level len r w =
     launchWorkerProcess rd ondeflateappend 0 len (new_deflater level) crc_init r w"

section \<open>copy moves exactly the requested part\<close>

lemma copy_from_chunk:
  assumes "k * CHUNK_SIZE < n"
    and "rd r (int (off + k * CHUNK_SIZE)) (int (min CHUNK_SIZE (n - k * CHUNK_SIZE))) = (Got x, r')"
    and "wr w (Bytes x) = Got w'"
  shows "copy_from rd wr off n cc k crc r w =
    copy_from rd wr off n cc (Suc k) (if cc then crc_append crc x else crc) r' w'"
  by (subst copy_from.simps) (simp only: Let_def assms if_True prod.case io.case)

locale transfer = byte_source rd holds + steady_sink wr written fits ready
  for rd :: "'r read_fn" and holds and wr :: "'w write_fn" and written fits ready
begin

lemma copy_from_exact:
  assumes "holds r (a @ b @ c)" "ready w" "m = k * CHUNK_SIZE" "m \<le> length b + CHUNK_SIZE"
  shows "\<exists>r' w'. copy_from rd wr (length a) (length b) cc k crc r w =
      (Ended (length b, crc_get (if cc then crc_append crc (drop m b) else crc)), r', w') \<and>
      holds r' (a @ b @ c) \<and> ready w' \<and> written w' = written w @ drop m b"
  using assms
proof (induction "length b - m" arbitrary: r w k m crc rule: less_induct)
  case less
  show ?case
  proof (cases "m < length b")
    case False
    then show ?thesis using less.prems by (subst copy_from.simps) simp
  next
    case True
    let ?n = "min CHUNK_SIZE (length b - m)"
    let ?x = "take ?n (drop m b)"
    have n: "0 < ?n" "length a + m + ?n \<le> length (a @ b @ c)" using True by auto
    obtain r' where "rd r (int (length a + m)) (int ?n) = (Got (take ?n (drop (length a + m) (a @ b @ c))), r')"
        and r': "holds r' (a @ b @ c)"
      using read_nat [OF less.prems(1) n] .
    moreover have "take ?n (drop (length a + m) (a @ b @ c)) = ?x" using True by simp
    ultimately have rd: "rd r (int (length a + m)) (int ?n) = (Got ?x, r')" by simp
    obtain w' where w': "wr w (Bytes ?x) = Got w'" "written w' = written w @ ?x" "ready w'"
      using write_ready [OF less.prems(2)] .
    let ?crc = "if cc then crc_append crc ?x else crc" and ?m = "m + CHUNK_SIZE"
    have "length b - ?m < length b - m" using True CHUNK_pos by linarith
    moreover have "?m = Suc k * CHUNK_SIZE" "?m \<le> length b + CHUNK_SIZE" using less.prems(3) True by simp_all
    ultimately obtain r2 w2 where IH: "copy_from rd wr (length a) (length b) cc (Suc k) ?crc r' w' =
          (Ended (length b, crc_get (if cc then crc_append ?crc (drop ?m b) else ?crc)), r2, w2)"
        "holds r2 (a @ b @ c)" "ready w2" "written w2 = written w' @ drop ?m b"
      using less.hyps [OF _ r' w'(3)] by metis
    have x: "?x = take CHUNK_SIZE (drop m b)" by (simp add: min_def)
    have split: "?x @ drop ?m b = drop m b"
      unfolding x by (metis append_take_drop_id drop_drop add.commute)
    have "copy_from rd wr (length a) (length b) cc k crc r w =
        copy_from rd wr (length a) (length b) cc (Suc k) ?crc r' w'"
      using copy_from_chunk [of "k" "length b" rd r "length a" ?x r' wr w w' cc crc] True rd w'(1)
      unfolding less.prems(3) by simp
    moreover have "crc_append crc (?x @ drop ?m b) = crc_append crc (drop m b)" by (simp only: split)
    then have "(if cc then crc_append ?crc (drop ?m b) else ?crc) =
        (if cc then crc_append crc (drop m b) else crc)"
      by (cases cc) (simp_all only: crc_append_append if_True if_False)
    moreover have "written w2 = written w @ drop m b"
      using IH(4) w'(2) split by (simp only: append_assoc)
    ultimately show ?thesis using IH(1-3) by (intro exI [of _ r2] exI [of _ w2]) (simp only: simp_thms)
  qed
qed

lemma copy_exact:
  assumes "holds r (a @ b @ c)" "ready w"
  obtains r' w' where "copy rd wr (length a) (length b) cc r w =
      (Ended (length b, if cc then crc32 b else 0), r', w')"
    "holds r' (a @ b @ c)" "ready w'" "written w' = written w @ b"
proof -
  have "crc_get (crc_append crc_init b) = crc32 b" by (simp add: crc32_def)
  moreover have "crc_get crc_init = 0" by (simp add: crc_get_def crc_init_def)
  ultimately show thesis
    using that copy_from_exact [OF assms, of 0 0 cc crc_init] unfolding copy_def by fastforce
qed

end

interpretation blob_transfer: transfer blob_read blob_holds bw_write bw_written "\<lambda>w a. bw_open w" bw_open
  by unfold_locales

section \<open>The worker does what the page would do\<close>

text \<open>
  The rest of \<open>launch_from\<close> at the points where the worker protocol waits: before the compressor gets
  a chunk, and after it has answered. Here \<open>onappend\<close> has been told about the chunk already.
\<close>

definition after_append :: "'p append_fn \<Rightarrow> 'p flush_fn \<Rightarrow> 'r read_fn \<Rightarrow> 'w write_fn \<Rightarrow> (bool \<Rightarrow> produced \<Rightarrow> 'c \<Rightarrow> 'c) \<Rightarrow>
    nat \<Rightarrow> nat \<Rightarrow> produced option \<Rightarrow> ('p, 'c, 'r, 'w) worker_run \<Rightarrow> (nat option \<times> 'c) finish \<times> 'p \<times> 'r \<times> 'w" where
  "after_append app fl rd wr onappend off n d s =
     (case d of None \<Rightarrow> (Died TypeError, compressor s, reader_state s, writer_state s)
      | Some x \<Rightarrow>
         (case wr (writer_state s) x of
            Failed \<Rightarrow> (WriterFailed, compressor s, reader_state s, writer_state s)
          | Raised e \<Rightarrow> (Died e, compressor s, reader_state s, writer_state s)
          | Got w' \<Rightarrow> launch_from app fl rd wr onappend off n (chunk_index s) (add_size (output_size s) x)
              (compressor s) (onappend False x (closure s)) (reader_state s) w'))"

definition after_flush :: "'w write_fn \<Rightarrow> (bool \<Rightarrow> produced \<Rightarrow> 'c \<Rightarrow> 'c) \<Rightarrow>
    produced option \<Rightarrow> ('p, 'c, 'r, 'w) worker_run \<Rightarrow> (nat option \<times> 'c) finish \<times> 'p \<times> 'r \<times> 'w" where
  "after_flush wr onappend d s =
     (case write_last wr onappend d (output_size s) (closure s) (writer_state s) of
        (f, w') \<Rightarrow> (f, compressor s, reader_state s, w'))"

definition on_chunk :: "'p append_fn \<Rightarrow> 'p flush_fn \<Rightarrow> 'r read_fn \<Rightarrow> 'w write_fn \<Rightarrow> (bool \<Rightarrow> produced \<Rightarrow> 'c \<Rightarrow> 'c) \<Rightarrow>
    nat \<Rightarrow> nat \<Rightarrow> to_worker \<Rightarrow> ('p, 'c, 'r, 'w) worker_run \<Rightarrow> (nat option \<times> 'c) finish \<times> 'p \<times> 'r \<times> 'w" where
  "on_chunk app fl rd wr onappend off n m s =
     (case m of
        AppendMsg a \<Rightarrow>
          (case app a (compressor s) of
             (Inl e, p') \<Rightarrow> (Died e, p', reader_state s, writer_state s)
           | (Inr d, p') \<Rightarrow> after_append app fl rd wr onappend off n d (s\<lparr>compressor := p'\<rparr>))
      | FlushMsg \<Rightarrow>
          (case fl (compressor s) of
             (Inl e, p') \<Rightarrow> (Died e, p', reader_state s, writer_state s)
           | (Inr d, p') \<Rightarrow> after_flush wr onappend d (s\<lparr>compressor := p'\<rparr>)))"

definition outcome_of :: "('p, 'c, 'r, 'w) worker_run \<Rightarrow> (nat option \<times> 'c) finish \<Rightarrow>
    (nat option \<times> 'c) finish \<times> 'p \<times> 'r \<times> 'w" where
  "outcome_of s f = (f, compressor s, reader_state s, writer_state s)"

text \<open>
  At most one message that matters is under way, and from every state the rest of the protocol has
  the outcome \<open>R\<close>. In the last case the compressor has thrown, and the protocol is stuck.
\<close>

inductive leads_to :: "'p append_fn \<Rightarrow> 'p flush_fn \<Rightarrow> 'r read_fn \<Rightarrow> 'w write_fn \<Rightarrow> (bool \<Rightarrow> produced \<Rightarrow> 'c \<Rightarrow> 'c) \<Rightarrow>
    nat \<Rightarrow> nat \<Rightarrow> (nat option \<times> 'c) finish \<times> 'p \<times> 'r \<times> 'w \<Rightarrow> ('p, 'c, 'r, 'w) worker_run \<Rightarrow> bool"
  for app fl rd wr onappend off n R where
  at_end: "finished s = Some f \<Longrightarrow> to_wk s = [] \<Longrightarrow> to_main s = [] \<Longrightarrow> R = outcome_of s f \<Longrightarrow>
    leads_to app fl rd wr onappend off n R s"
| asking: "finished s = None \<Longrightarrow> to_wk s = [m] \<Longrightarrow> to_main s = [] \<Longrightarrow>
    R = on_chunk app fl rd wr onappend off n m s \<Longrightarrow> leads_to app fl rd wr onappend off n R s"
| answered: "finished s = None \<Longrightarrow> to_wk s = [] \<Longrightarrow> to_main s = map Progress ts @ [OnAppend d] \<Longrightarrow>
    R = after_append app fl rd wr onappend off n d s \<Longrightarrow> leads_to app fl rd wr onappend off n R s"
| flushed: "finished s = None \<Longrightarrow> to_wk s = [] \<Longrightarrow> to_main s = map Progress ts @ [OnFlush d] \<Longrightarrow>
    R = after_flush wr onappend d s \<Longrightarrow> leads_to app fl rd wr onappend off n R s"
| stuck: "finished s = None \<Longrightarrow> to_wk s = [] \<Longrightarrow> to_main s = map Progress ts \<Longrightarrow>
    fst R = Died e \<Longrightarrow> leads_to app fl rd wr onappend off n R s"

lemma post_chunk_leads:
  assumes "finished s = None" "to_wk s = []" "to_main s = []"
    and R: "R = launch_from app fl rd wr onappend off n (chunk_index s) (output_size s) (compressor s) (closure s)
      (reader_state s) (writer_state s)"
  shows "leads_to app fl rd wr onappend off n R (post_chunk rd onappend off n s)"
proof (cases "chunk_index s * CHUNK_SIZE < n")
  case True
  obtain x r' where rd: "rd (reader_state s) (int (off + chunk_index s * CHUNK_SIZE))
      (int (min CHUNK_SIZE (n - chunk_index s * CHUNK_SIZE))) = (x, r')" by fastforce
  show ?thesis
  proof (cases x)
    case (Got a)
    have "R = on_chunk app fl rd wr onappend off n (AppendMsg a) (post_chunk rd onappend off n s)"
      unfolding R launch_from.simps [of _ _ _ _ _ _ _ "chunk_index s"] Let_def rd
      using True Got rd assms(2)
      by (auto simp: on_chunk_def after_append_def post_chunk_def Let_def split: prod.splits sum.splits option.splits io.splits)
    then show ?thesis
      using assms(1-3) True Got rd by (intro asking [of _ "AppendMsg a"]) (simp_all add: post_chunk_def Let_def)
  next
    case Failed
    then show ?thesis unfolding R launch_from.simps [of _ _ _ _ _ _ _ "chunk_index s"] Let_def rd
      using assms(1-3) True rd by (intro at_end) (auto simp: post_chunk_def outcome_of_def)
  next
    case (Raised e)
    then show ?thesis unfolding R launch_from.simps [of _ _ _ _ _ _ _ "chunk_index s"] Let_def rd
      using assms(1-3) True rd by (intro at_end) (auto simp: post_chunk_def outcome_of_def)
  qed
next
  case False
  then have "R = on_chunk app fl rd wr onappend off n FlushMsg (post_chunk rd onappend off n s)"
    unfolding R launch_from.simps [of _ _ _ _ _ _ _ "chunk_index s"] Let_def
    by (auto simp: on_chunk_def after_flush_def post_chunk_def Let_def split: prod.splits sum.splits)
  then show ?thesis
    using assms(1-3) False by (intro asking [of _ FlushMsg]) (simp_all add: post_chunk_def Let_def)
qed

lemma after_append_leads:
  assumes "finished s = None" "to_wk s = []" "to_main s = []"
    and "R = after_append app fl rd wr onappend off n d s"
  shows "leads_to app fl rd wr onappend off n R (on_main_message rd wr onappend off n (OnAppend d) s)"
proof (cases d)
  case None
  with assms show ?thesis by (intro at_end) (auto simp: on_main_message_def after_append_def outcome_of_def)
next
  case (Some x)
  show ?thesis
  proof (cases "wr (writer_state s) x")
    case (Got w')
    then show ?thesis
      using assms Some unfolding on_main_message_def Let_def
      by (auto simp: after_append_def intro!: post_chunk_leads)
  qed (use assms Some in \<open>auto intro!: at_end simp: on_main_message_def Let_def after_append_def outcome_of_def\<close>)
qed

lemma worker_leads:
  assumes "finished s = None" "to_main s = []" "to_wk s = []" "R = on_chunk app fl rd wr onappend off n m s"
  shows "leads_to app fl rd wr onappend off n R (on_worker_message app fl ticks m s)"
proof (cases m)
  case (AppendMsg a)
  obtain x p' where x: "app a (compressor s) = (x, p')" by fastforce
  show ?thesis
  proof (cases x)
    case (Inl e)
    with assms AppendMsg x show ?thesis
      by (intro stuck [where e = e and ts = "ticks (compressor s) a"]) (auto simp: on_worker_message_def Let_def on_chunk_def)
  next
    case (Inr d)
    with assms AppendMsg x show ?thesis
      by (intro answered [where d = d and ts = "ticks (compressor s) a"])
        (auto simp: on_worker_message_def Let_def on_chunk_def after_append_def split: option.splits io.splits)
  qed
next
  case FlushMsg
  obtain x p' where x: "fl (compressor s) = (x, p')" by fastforce
  show ?thesis
  proof (cases x)
    case (Inl e)
    with assms FlushMsg x show ?thesis
      by (intro stuck [where e = e and ts = "[]"]) (auto simp: on_worker_message_def Let_def on_chunk_def)
  next
    case (Inr d)
    with assms FlushMsg x show ?thesis
      by (intro flushed [where d = d and ts = "[]"])
        (auto simp: on_worker_message_def Let_def on_chunk_def after_flush_def)
  qed
qed

lemma progress_ignored [simp]: "on_main_message rd wr onappend off n (Progress k) s = s"
  by (simp add: on_main_message_def)

lemma later_messages:
  "after_append app fl rd wr onappend off n d (s\<lparr>to_main := q\<rparr>) = after_append app fl rd wr onappend off n d s"
  "after_flush wr onappend d (s\<lparr>to_main := q\<rparr>) = after_flush wr onappend d s"
  "on_chunk app fl rd wr onappend off n m (s\<lparr>to_wk := q'\<rparr>) = on_chunk app fl rd wr onappend off n m s"
  by (auto simp: after_append_def after_flush_def on_chunk_def split: option.splits io.splits sum.splits prod.splits to_worker.splits)

lemma leads_step:
  assumes "leads_to app fl rd wr onappend off n R s" "message_step app fl ticks rd wr onappend off n s t"
  shows "leads_to app fl rd wr onappend off n R t"
  using assms(2)
proof (cases rule: message_step.cases)
  case (in_worker m q)
  from assms(1) show ?thesis
  proof (cases rule: leads_to.cases)
    case (asking m')
    with in_worker show ?thesis by (auto intro!: worker_leads simp: later_messages)
  qed (use in_worker in simp_all)
next
  case (in_main m q)
  from assms(1) show ?thesis
  proof (cases rule: leads_to.cases)
    case (answered ts d)
    show ?thesis
    proof (cases ts)
      case Nil
      with answered in_main show ?thesis by (auto intro!: after_append_leads simp: later_messages)
    next
      case (Cons k ts')
      with answered in_main show ?thesis
        by (auto intro!: leads_to.answered [where d = d and ts = ts'] simp: later_messages)
    qed
  next
    case (flushed ts d)
    show ?thesis
    proof (cases ts)
      case Nil
      with flushed in_main show ?thesis
        by (auto intro!: at_end simp: on_main_message_def after_flush_def outcome_of_def split: prod.splits)
    next
      case (Cons k ts')
      with flushed in_main show ?thesis
        by (auto intro!: leads_to.flushed [where d = d and ts = ts'] simp: later_messages)
    qed
  next
    case (stuck ts e)
    with in_main show ?thesis
      by (cases ts) (auto intro!: leads_to.stuck [where e = e and ts = "tl ts"])
  qed (use in_main in simp_all)
qed

section \<open>Every protocol run ends\<close>

fun weight :: "to_worker \<Rightarrow> nat" where
  "weight (AppendMsg a) = 3"
| "weight FlushMsg = 1"

fun weight' :: "from_worker \<Rightarrow> nat" where
  "weight' (OnAppend d) = 2"
| "weight' _ = 0"

definition credit :: "nat \<Rightarrow> ('p, 'c, 'r, 'w) worker_run \<Rightarrow> nat" where
  "credit n s = 4 * (n - chunk_index s * CHUNK_SIZE) + sum_list (map weight (to_wk s)) +
     sum_list (map weight' (to_main s))"

lemma credit_post: "credit n (post_chunk rd onappend off n s) \<le> credit n s + 1"
proof (cases "chunk_index s * CHUNK_SIZE < n")
  case True
  from chunk_progress [OF this] have "4 * (n - (CHUNK_SIZE + chunk_index s * CHUNK_SIZE)) + 3 \<le>
      4 * (n - chunk_index s * CHUNK_SIZE)" by linarith
  with True show ?thesis
    by (auto simp: post_chunk_def Let_def credit_def split: prod.splits io.splits)
qed (simp add: post_chunk_def Let_def credit_def)

lemma weight_reports [simp]: "sum_list (map (weight' \<circ> Progress) ts) = 0"
  by (induction ts) simp_all

lemma credit_worker: "credit n (on_worker_message app fl ticks m s) < credit n s + weight m"
  by (auto simp: on_worker_message_def Let_def credit_def split: to_worker.splits prod.splits sum.splits)

lemma credit_main:
  "credit n (on_main_message rd wr onappend off n m s) < credit n s + weight' m \<or>
   credit n (on_main_message rd wr onappend off n m s) = credit n s + weight' m \<and>
   to_main (on_main_message rd wr onappend off n m s) = to_main s"
proof (cases m)
  case (OnAppend d)
  show ?thesis
  proof (cases d)
    case (Some x)
    show ?thesis
    proof (cases "wr (writer_state s) x")
      case (Got w')
      let ?t = "s\<lparr>output_size := add_size (output_size s) x, writer_state := w', closure := onappend False x (closure s)\<rparr>"
      have "on_main_message rd wr onappend off n m s = post_chunk rd onappend off n ?t"
        using OnAppend Some Got by (simp add: on_main_message_def Let_def)
      moreover have "credit n ?t = credit n s" by (simp add: credit_def)
      ultimately show ?thesis using credit_post [of n rd onappend off ?t] OnAppend by simp
    qed (use OnAppend Some in \<open>simp_all add: on_main_message_def Let_def credit_def\<close>)
  qed (use OnAppend in \<open>simp add: on_main_message_def credit_def\<close>)
qed (auto simp: on_main_message_def credit_def split: prod.splits)

lemma step_decreases:
  assumes "message_step app fl ticks rd wr onappend off n s t"
  shows "(t, s) \<in> measures [credit n, \<lambda>s. length (to_main s)]"
  using assms
proof (cases rule: message_step.cases)
  case (in_worker m q)
  have "credit n s = credit n (s\<lparr>to_wk := q\<rparr>) + weight m" using in_worker by (simp add: credit_def)
  with credit_worker [of n app fl ticks m "s\<lparr>to_wk := q\<rparr>"] in_worker show ?thesis by simp
next
  case (in_main m q)
  have "credit n s = credit n (s\<lparr>to_main := q\<rparr>) + weight' m" using in_main by (simp add: credit_def)
  with credit_main [of n rd wr onappend off m "s\<lparr>to_main := q\<rparr>"] in_main show ?thesis by auto
qed

lemma no_endless_run:
  fixes f :: "nat \<Rightarrow> ('p, 'c, 'r, 'w) worker_run"
  assumes "\<And>i. message_step app fl ticks rd wr onappend off n (f i) (f (Suc i))"
  shows False
proof -
  have "wf (measures [credit n, \<lambda>s. length (to_main s)] :: (('p, 'c, 'r, 'w) worker_run \<times> _) set)" by simp
  with step_decreases [OF assms] show False unfolding wf_iff_no_infinite_down_chain by blast
qed

lemma start_leads:
  "leads_to app fl rd wr onappend off n (launchProcess app fl rd wr onappend off n p c r w)
     (launchWorkerProcess rd onappend off n p c r w)"
  unfolding launchWorkerProcess_def launchProcess_def by (rule post_chunk_leads) simp_all

lemma run_leads:
  assumes "(message_step app fl ticks rd wr onappend off n)\<^sup>*\<^sup>* (launchWorkerProcess rd onappend off n p c r w) t"
  shows "leads_to app fl rd wr onappend off n (launchProcess app fl rd wr onappend off n p c r w) t"
  using assms by (induction rule: rtranclp_induct) (rule start_leads, rule leads_step, assumption+)

lemma final_state:
  assumes "leads_to app fl rd wr onappend off n R t" "\<nexists>u. message_step app fl ticks rd wr onappend off n t u"
  shows "(\<exists>f. finished t = Some f \<and> R = outcome_of t f) \<or> finished t = None \<and> (\<exists>e. fst R = Died e)"
proof -
  have "to_wk t = []" "to_main t = []"
    using assms(2) in_worker [of t] in_main [of t] by (metis list.exhaust)+
  with assms(1) show ?thesis by (cases rule: leads_to.cases) auto
qed

section \<open>Properties\<close>

text \<open>
  C8. One compressor run in a Web Worker and run in the page has the same outcome: whatever the order
  in which the two sides take their messages, when no message is left the page's side has finished
  with the size, the checksum state, the reader, the writer and the compressor that \<open>launchProcess\<close>
  ends with, errors and exceptions of the reader and the writer included. The one difference is an exception that
  ends \<open>launchProcess\<close>: it may leave the page's side waiting, which it does when it comes from the compressor.
\<close>

theorem worker_matches_page:
  assumes "(message_step app fl ticks rd wr onappend off n)\<^sup>*\<^sup>* (launchWorkerProcess rd onappend off n p c r w) t"
    and "\<nexists>u. message_step app fl ticks rd wr onappend off n t u"
    and "launchProcess app fl rd wr onappend off n p c r w = (f, p', r', w')"
  shows "finished t = Some f \<and> compressor t = p' \<and> reader_state t = r' \<and> writer_state t = w' \<or>
    (\<exists>e. f = Died e) \<and> finished t = None"
  using final_state [OF run_leads [OF assms(1)] assms(2)] assms(3) by (auto simp: outcome_of_def)

text \<open>A compressor that copies, on three bytes; the events of \<open>onappend\<close> are recorded.\<close>

abbreviation (input) "demo_app \<equiv> \<lambda>a p. (Inr (Some (Bytes a)), p + length a)"
abbreviation (input) "demo_flush \<equiv> \<lambda>p. (Inr None, p)"
abbreviation (input) "demo_log \<equiv> \<lambda>b d c. c @ [(b, d)]"
abbreviation (input) "demo_reader \<equiv> BlobReader [1, 2, 3]"
abbreviation (input) "demo_step \<equiv> message_step demo_app demo_flush (\<lambda>p a. [length a]) blob_read bw_write demo_log 0 3"
abbreviation (input) "demo_start \<equiv> launchWorkerProcess blob_read demo_log 0 3 0 [] demo_reader (bw_init (BlobWriter None))"

definition demo_end :: "(nat, (bool \<times> produced) list, blob_reader, blob_writer) worker_run" where
  "demo_end = \<lparr>chunk_index = 1, output_size = Some 3,
     closure = [(True, Bytes [1, 2, 3]), (False, Bytes [1, 2, 3])], reader_state = demo_reader,
     writer_state = \<lparr>bw_type = None, bw_builder = Some (append_part new_BlobBuilder [1, 2, 3])\<rparr>,
     compressor = 3, to_wk = [], to_main = [],
     finished = Some (Ended (Some 3, [(True, Bytes [1, 2, 3]), (False, Bytes [1, 2, 3])]))\<rparr>"

lemma worker_turn:
  "to_wk s = m # q \<Longrightarrow> (message_step app fl ticks rd wr onappend off n)\<^sup>*\<^sup>* (on_worker_message app fl ticks m (s\<lparr>to_wk := q\<rparr>)) t \<Longrightarrow>
   (message_step app fl ticks rd wr onappend off n)\<^sup>*\<^sup>* s t"
  by (rule converse_rtranclp_into_rtranclp, rule in_worker)

lemma main_turn:
  "to_main s = m # q \<Longrightarrow> (message_step app fl ticks rd wr onappend off n)\<^sup>*\<^sup>* (on_main_message rd wr onappend off n m (s\<lparr>to_main := q\<rparr>)) t \<Longrightarrow>
   (message_step app fl ticks rd wr onappend off n)\<^sup>*\<^sup>* s t"
  by (rule converse_rtranclp_into_rtranclp, rule in_main)

lemmas protocol_simps = post_chunk_def on_main_message_def on_worker_message_def write_last_def Let_def
  blob_read_def blobSlice_def rel_slice_def rel_index_def BlobReader_def bw_write_def bw_init_def
  BlobWriter_def CHUNK_SIZE_def

lemma demo_run: "demo_step\<^sup>*\<^sup>* demo_start demo_end"
  unfolding launchWorkerProcess_def
  apply (simp add: protocol_simps)
  apply (rule worker_turn, simp, simp add: protocol_simps)
  apply (rule main_turn, simp, simp add: protocol_simps)
  apply (rule main_turn, simp, simp add: protocol_simps)
  apply (rule worker_turn, simp, simp add: protocol_simps)
  apply (rule main_turn, simp, simp add: protocol_simps demo_end_def eval_nat_numeral)
  done

lemma demo_stops: "\<nexists>u. demo_step demo_end u"
  by (auto simp: demo_end_def elim: message_step.cases)

lemma demo_page:
  "launchProcess demo_app demo_flush blob_read bw_write demo_log 0 3 0 [] demo_reader (bw_init (BlobWriter None)) =
    (Ended (Some 3, [(True, Bytes [1, 2, 3]), (False, Bytes [1, 2, 3])]), 3, demo_reader,
     \<lparr>bw_type = None, bw_builder = Some (append_part new_BlobBuilder [1, 2, 3])\<rparr>)"
  unfolding launchProcess_def by (simp add: launch_from.simps protocol_simps)

theorem worker_matches_page_witness:
  "finished demo_end = Some (Ended (Some 3, [(True, Bytes [1, 2, 3]), (False, Bytes [1, 2, 3])])) \<and>
   compressor demo_end = 3 \<and> reader_state demo_end = demo_reader \<and>
   writer_state demo_end = \<lparr>bw_type = None, bw_builder = Some (append_part new_BlobBuilder [1, 2, 3])\<rparr>"
  using worker_matches_page [OF demo_run demo_stops demo_page] by simp

text \<open>
  C31. Every exchange of messages with the worker ends.
\<close>

theorem worker_protocol_terminates:
  fixes g :: "nat \<Rightarrow> ('p, 'c, 'r, 'w) worker_run"
  shows "\<not> (\<forall>i. message_step app fl ticks rd wr onappend off n (g i) (g (Suc i)))"
  using no_endless_run by blast

text \<open>The compressor throws when the worker gives it the message.\<close>

definition worker_throws :: "'p append_fn \<Rightarrow> 'p flush_fn \<Rightarrow> to_worker \<Rightarrow> 'p \<Rightarrow> js_error \<Rightarrow> bool" where
  "worker_throws app fl m p e = (fst (case m of AppendMsg a \<Rightarrow> app a p | FlushMsg \<Rightarrow> fl p) = Inl e)"

lemma thrown_leads:
  assumes "leads_to app fl rd wr onappend off n R s" "to_wk s = m # q" "worker_throws app fl m (compressor s) e"
  shows "fst R = Died e \<and> finished s = None \<and> to_wk s = [m] \<and> to_main s = []"
  using assms by (cases rule: leads_to.cases) (auto simp: on_chunk_def worker_throws_def split: to_worker.splits prod.splits sum.splits)

text \<open>From then on there are only reports of progress.\<close>

definition waits :: "('p, 'c, 'r, 'w) worker_run \<Rightarrow> bool" where
  "waits s \<longleftrightarrow> finished s = None \<and> to_wk s = [] \<and> (\<exists>ts. to_main s = map Progress ts)"

lemma thrown_step:
  assumes "finished s = None" "to_wk s = [m]" "to_main s = []" "worker_throws app fl m (compressor s) e"
    and "message_step app fl ticks rd wr onappend off n s t"
  shows "waits t"
  using assms(5)
proof (cases rule: message_step.cases)
  case (in_worker m' q)
  then show ?thesis using assms(1-4) map_append [of Progress "[]"]
    by (cases m) (auto simp: waits_def on_worker_message_def worker_throws_def Let_def split: prod.splits sum.splits)
qed (use assms(3) in simp)

lemma waits_step:
  assumes "waits s" "message_step app fl ticks rd wr onappend off n s t"
  shows "waits t"
  using assms(2) by (cases rule: message_step.cases) (use assms(1) in \<open>auto simp: waits_def\<close>)

lemma waits_steps: "(message_step app fl ticks rd wr onappend off n)\<^sup>*\<^sup>* s t \<Longrightarrow> waits s \<Longrightarrow> waits t"
  by (induction rule: rtranclp_induct) (auto intro: waits_step)

text \<open>
  C35. When the compressor throws, as \<open>Inflater.append\<close> does on corrupt data, the transfer ends without
  telling anyone. Take any point of a run with a worker at which the next message makes the compressor throw: however the
  run goes on, neither \<open>onend\<close> nor \<open>onreaderror\<close> nor \<open>onwriteerror\<close> is called; and in the page the same
  transfer dies of the exception, again with no callback called.
\<close>

theorem compressor_error_is_silent:
  assumes "(message_step app fl ticks rd wr onappend off n)\<^sup>*\<^sup>* (launchWorkerProcess rd onappend off n p c r w) s"
    and "to_wk s = m # q" "worker_throws app fl m (compressor s) e"
    and "(message_step app fl ticks rd wr onappend off n)\<^sup>*\<^sup>* s t"
  shows "finished t = None \<and> fst (launchProcess app fl rd wr onappend off n p c r w) = Died e"
proof -
  note s = thrown_leads [OF run_leads [OF assms(1)] assms(2,3)]
  have "finished t = None" using assms(4)
  proof (cases rule: converse_rtranclpE)
    case (step u)
    have "waits u" using thrown_step [OF _ _ _ assms(3) step(1)] s by simp
    then show ?thesis using waits_steps [OF step(2)] by (simp add: waits_def)
  qed (use s in simp)
  with s show ?thesis by simp
qed

abbreviation (input) "bad_app \<equiv> \<lambda>a p. (Inl (Thrown ''inflating: undefined''), p)"
abbreviation (input) "bad_step \<equiv> message_step bad_app demo_flush (\<lambda>p a. []) blob_read bw_write demo_log 0 3"

definition bad_end :: "(nat, (bool \<times> produced) list, blob_reader, blob_writer) worker_run" where
  "bad_end = \<lparr>chunk_index = 1, output_size = Some 0, closure = [(True, Bytes [1, 2, 3])],
     reader_state = demo_reader, writer_state = bw_init (BlobWriter None),
     compressor = 0, to_wk = [], to_main = [], finished = None\<rparr>"

lemma bad_run: "bad_step\<^sup>*\<^sup>* demo_start bad_end"
  unfolding launchWorkerProcess_def
  apply (simp add: protocol_simps)
  apply (rule worker_turn, simp, simp add: protocol_simps bad_end_def)
  done

theorem compressor_error_is_silent_witness:
  "finished bad_end = None \<and>
   fst (launchProcess bad_app demo_flush blob_read bw_write demo_log 0 3 (0 :: nat) [] demo_reader (bw_init (BlobWriter None))) =
     Died (Thrown ''inflating: undefined'')"
proof -
  let ?s = "demo_start :: (nat, (bool \<times> produced) list, blob_reader, blob_writer) worker_run"
  have "to_wk ?s = AppendMsg [1, 2, 3] # []" by (simp add: launchWorkerProcess_def protocol_simps)
  moreover have "worker_throws bad_app demo_flush (AppendMsg [1, 2, 3]) (compressor ?s) (Thrown ''inflating: undefined'')"
    by (simp add: worker_throws_def)
  ultimately show ?thesis using compressor_error_is_silent [OF rtranclp.rtrancl_refl _ _ bad_run] by blast
qed

end
