(* ===== verification/Zip_Reader.thy ===== *)
theory Zip_Reader
  imports Zip_Pump
begin

text \<open>
  \<open>createZipReader\<close> of \<^verbatim>\<open>html/lib/zip.js\<close>: parsing the end record and the central directory, and
  \<open>Entry.getData\<close>. Reader and writer are parameters, used through their contracts. An \<open>Entry\<close> is a
  record; the fields that the object lacks before they are read are options. \<open>getData\<close> overwrites
  fields of its entry from the local header, so it returns the entry.
\<close>

section \<open>Entries\<close>

record zip_entry =
  version :: nat
  bitFlag :: nat
  compressionMethod :: nat
  lastModDateRaw :: nat
  lastModDate :: js_date
  crc32 :: "nat option"
  compressedSize :: "nat option"
  uncompressedSize :: "nat option"
  filenameLength :: nat
  extraFieldLength :: nat
  commentLength :: nat
  directory :: bool
  offset :: nat
  filename :: jstring
  comment :: jstring

definition new_Entry :: zip_entry where
  "new_Entry = \<lparr>version = 0, bitFlag = 0, compressionMethod = 0, lastModDateRaw = 0,
     lastModDate = getDate 0, crc32 = None, compressedSize = None, uncompressedSize = None,
     filenameLength = 0, extraFieldLength = 0, commentLength = 0, directory = False, offset = 0,
     filename = [], comment = []\<rparr>"

definition ERR_BAD_FORMAT :: string where "ERR_BAD_FORMAT = ''File format is not recognized.''"
definition ERR_READ :: string where "ERR_READ = ''Error while reading zip file.''"
definition ERR_READ_DATA :: string where "ERR_READ_DATA = ''Error while reading file data.''"
definition ERR_WRITE_DATA :: string where "ERR_WRITE_DATA = ''Error while writing file data.''"

section \<open>readCommonHeader\<close>

definition read_field :: "nat \<Rightarrow> byte list \<Rightarrow> nat \<Rightarrow> (nat \<Rightarrow> zip_entry \<Rightarrow> zip_entry) \<Rightarrow> zip_entry \<Rightarrow> zip_entry run" where
  "read_field n data i upd e =
     (case getUint n True data i of
        Inr v \<Rightarrow> Done (upd v e)
      | Inl f \<Rightarrow> Threw RangeError e)"

text \<open>
  The encrypted and the Zip64 branch call \<open>onerror\<close>, which is not a parameter of this function but
  the page's global handler; it is \<open>null\<close>, so the call throws.
\<close>

definition readCommonHeader :: "zip_entry \<Rightarrow> byte list \<Rightarrow> nat \<Rightarrow> bool \<Rightarrow> zip_entry run" where
  "readCommonHeader entry data index centralDirectory =
     and_then (read_field 2 data index (\<lambda>v e. e\<lparr>version := v\<rparr>) entry) (\<lambda>e.
     and_then (read_field 2 data (index + 2) (\<lambda>v e. e\<lparr>bitFlag := v\<rparr>) e) (\<lambda>e.
     and_then (read_field 2 data (index + 4) (\<lambda>v e. e\<lparr>compressionMethod := v\<rparr>) e) (\<lambda>e.
     and_then (read_field 4 data (index + 6) (\<lambda>v e. e\<lparr>lastModDateRaw := v, lastModDate := getDate (of_nat v)\<rparr>) e) (\<lambda>e.
     if bitFlag e AND 1 = 1 then Threw TypeError e
     else
       and_then
         (if centralDirectory \<or> bitFlag e AND 8 \<noteq> 8 then
            and_then (read_field 4 data (index + 10) (\<lambda>v e. e\<lparr>crc32 := Some v\<rparr>) e) (\<lambda>e.
            and_then (read_field 4 data (index + 14) (\<lambda>v e. e\<lparr>compressedSize := Some v\<rparr>) e) (\<lambda>e.
              read_field 4 data (index + 18) (\<lambda>v e. e\<lparr>uncompressedSize := Some v\<rparr>) e))
          else Done e) (\<lambda>e.
       if compressedSize e = Some 0xFFFFFFFF \<or> uncompressedSize e = Some 0xFFFFFFFF then Threw TypeError e
       else
         and_then (read_field 2 data (index + 22) (\<lambda>v e. e\<lparr>filenameLength := v\<rparr>) e) (\<lambda>e.
           read_field 2 data (index + 24) (\<lambda>v e. e\<lparr>extraFieldLength := v\<rparr>) e))))))"

section \<open>getEntries\<close>

fun run_result :: "'a run \<Rightarrow> 'a zres" where
  "run_result (Done x) = Inr x"
| "run_result (Threw e x) = Inl (Uncaught e)"

definition decode_field :: "zip_entry \<Rightarrow> byte list \<Rightarrow> jstring" where
  "decode_field e bytes =
     (if bitFlag e AND 0x0800 = 0x0800 then decodeUTF8 (getString bytes) else decodeASCII (getString bytes))"

text \<open>\<open>array.subarray(a, b)\<close> with \<open>0 \<le> a \<le> b\<close>, clamped to the array.\<close>

definition subarray :: "byte list \<Rightarrow> nat \<Rightarrow> nat \<Rightarrow> byte list" where
  "subarray data a b = rel_slice data (int a) (int b)"

definition central_entry :: "byte list \<Rightarrow> nat \<Rightarrow> zip_entry zres" where
  "central_entry data index =
     zbind (getUint32_be data index) (\<lambda>sig.
     if sig \<noteq> 0x504b0102 then Inl (OnError ERR_BAD_FORMAT)
     else
       zbind (run_result (readCommonHeader new_Entry data (index + 6) True)) (\<lambda>e.
       zbind (getUint16 data (index + 32)) (\<lambda>clen.
       zbind (getUint8 data (index + 38)) (\<lambda>attr.
       zbind (getUint32 data (index + 42)) (\<lambda>off.
         let e1 = e\<lparr>commentLength := clen, directory := (attr AND 0x10 = 0x10), offset := off\<rparr>;
             name = decode_field e1 (subarray data (index + 46) (index + 46 + filenameLength e1));
             e2 = e1\<lparr>filename := name,
                directory := directory e1 \<or> (name \<noteq> [] \<and> last name = 47)\<rparr>;
             start = index + 46 + filenameLength e2 + extraFieldLength e2
         in Inr (e2\<lparr>comment := decode_field e2 (subarray data start (start + commentLength e2))\<rparr>))))))"

definition central_length :: "zip_entry \<Rightarrow> nat" where
  "central_length e = 46 + filenameLength e + extraFieldLength e + commentLength e"

fun central_entries :: "byte list \<Rightarrow> nat \<Rightarrow> nat \<Rightarrow> zip_entry list zres" where
  "central_entries data 0 index = Inr []"
| "central_entries data (Suc n) index =
     zbind (central_entry data index) (\<lambda>e.
     zbind (central_entries data n (index + central_length e)) (\<lambda>es. Inr (e # es)))"

text \<open>A read whose error callback reports \<open>msg\<close>.\<close>

definition read_or :: "string \<Rightarrow> byte list io \<times> 'r \<Rightarrow> (byte list \<Rightarrow> 'r \<Rightarrow> 'a zres \<times> 'r) \<Rightarrow> 'a zres \<times> 'r" where
  "read_or msg x f =
     (case x of (Got bytes, r) \<Rightarrow> f bytes r
      | (Failed, r) \<Rightarrow> (Inl (OnError msg), r)
      | (Raised e, r) \<Rightarrow> (Inl (Uncaught e), r))"

definition getEntries :: "'r read_fn \<Rightarrow> int \<Rightarrow> 'r \<Rightarrow> zip_entry list zres \<times> 'r" where
  "getEntries rd rsize r =
     (if rsize < 22 then (Inl (OnError ERR_BAD_FORMAT), r)
      else read_or ERR_READ (rd r (rsize - 22) 22) (\<lambda>bytes r1.
        case zbind (getUint32_be bytes 0) (\<lambda>sig.
               if sig \<noteq> 0x504b0506 then Inl (OnError ERR_BAD_FORMAT)
               else zbind (getUint32 bytes 16) (\<lambda>datalength.
                 zbind (getUint16 bytes 8) (\<lambda>fileslength. Inr (datalength, fileslength)))) of
          Inl f \<Rightarrow> (Inl f, r1)
        | Inr (datalength, fileslength) \<Rightarrow>
            read_or ERR_READ (rd r1 (int datalength) (rsize - int datalength)) (\<lambda>data r2.
              (central_entries data fileslength 0, r2))))"

section \<open>Entry.getData\<close>

definition testCrc32 :: "zip_entry \<Rightarrow> 32 word \<Rightarrow> bool" where
  "testCrc32 e crc = (crc32 e = Some (unat crc))"

text \<open>What becomes of the outcome of \<open>copy\<close> or \<open>inflate\<close>; success means \<open>writer.getData\<close> is called.\<close>

definition getWriterData :: "bool \<Rightarrow> zip_entry \<Rightarrow> ('n \<times> 32 word) finish \<Rightarrow> unit zres" where
  "getWriterData checkCrc32 e f =
     (case f of
        Ended (n, crc) \<Rightarrow> if checkCrc32 \<and> \<not> testCrc32 e crc then Inl (OnError ERR_READ_DATA) else Inr ()
      | ReaderFailed \<Rightarrow> Inl (OnError ERR_READ_DATA)
      | WriterFailed \<Rightarrow> Inl (OnError ERR_WRITE_DATA)
      | Died x \<Rightarrow> Inl (Uncaught x))"

definition or_0 :: "nat option \<Rightarrow> nat" where
  "or_0 x = (case x of None \<Rightarrow> 0 | Some n \<Rightarrow> n)"

definition getData :: "'p append_fn \<Rightarrow> 'p flush_fn \<Rightarrow> 'p \<Rightarrow> 'r read_fn \<Rightarrow> ('w \<Rightarrow> 'w io) \<Rightarrow> 'w write_fn \<Rightarrow> bool \<Rightarrow>
    zip_entry \<Rightarrow> 'r \<Rightarrow> 'w \<Rightarrow> unit zres \<times> zip_entry \<times> 'r \<times> 'w" where
  "getData app fl inflater rd winit wr checkCrc32 e r w =
     (case rd r (int (offset e)) 30 of
        (Failed, r1) \<Rightarrow> (Inl (OnError ERR_READ_DATA), e, r1, w)
      | (Raised x, r1) \<Rightarrow> (Inl (Uncaught x), e, r1, w)
      | (Got bytes, r1) \<Rightarrow>
          (case getUint32_be bytes 0 of
             Inl f \<Rightarrow> (Inl f, e, r1, w)
           | Inr sig \<Rightarrow>
               if sig \<noteq> 0x504b0304 then (Inl (OnError ERR_BAD_FORMAT), e, r1, w)
               else
                 (case readCommonHeader e bytes 4 False of
                    Threw x e1 \<Rightarrow> (Inl (Uncaught x), e1, r1, w)
                  | Done e1 \<Rightarrow>
                      (let dataOffset = offset e1 + 30 + filenameLength e1 + extraFieldLength e1 in
                       case winit w of
                         Failed \<Rightarrow> (Inl (OnError ERR_WRITE_DATA), e1, r1, w)
                       | Raised x \<Rightarrow> (Inl (Uncaught x), e1, r1, w)
                       | Got w1 \<Rightarrow>
                           if compressionMethod e1 = 0 then
                             (case copy rd wr dataOffset (or_0 (compressedSize e1)) checkCrc32 r1 w1 of
                                (f, r2, w2) \<Rightarrow> (getWriterData checkCrc32 e1 f, e1, r2, w2))
                           else
                             (case inflate app fl inflater rd wr dataOffset (or_0 (compressedSize e1)) checkCrc32 r1 w1 of
                                (f, r2, w2) \<Rightarrow> (getWriterData checkCrc32 e1 f, e1, r2, w2))))))"

end
