(* ===== verification/Zip_Writer.thy ===== *)
theory Zip_Writer
  imports Zip_Reader
begin

text \<open>
  \<open>createZipWriter\<close> of \<^verbatim>\<open>html/lib/zip.js\<close>: \<open>add\<close> with its local header, data and data descriptor, and
  \<open>close\<close> with the central directory and the end record. The state of the closure is the record
  \<open>zip_writer\<close>. \<open>files\<close> is a JavaScript array used as a map from names, so a name can also hit the
  members of the array. \<open>header\<close> and the \<open>headerArray\<close> of a file are one array: the model writes it back
  into the map. One \<open>add\<close> runs to its end before the next call, as in \<^verbatim>\<open>html/lib/zip-fs.js\<close>.
\<close>

section \<open>State\<close>

record zip_file =
  headerArray :: "byte list"
  f_directory :: bool
  f_filename :: "byte list"
  f_offset :: nat
  f_comment :: "byte list"

record zip_writer =
  files :: "jstring \<rightharpoonup> zip_file"
  filenames :: "jstring list"
  datalength :: nat

definition createZipWriter :: zip_writer where
  "createZipWriter = \<lparr>files = Map.empty, filenames = [], datalength = 0\<rparr>"

record add_options =
  o_directory :: bool
  o_level :: "int option"
  o_version :: nat
  o_comment :: jstring
  o_date :: "js_date option"

definition no_options :: add_options where
  "no_options = \<lparr>o_directory = False, o_level = None, o_version = 0, o_comment = [], o_date = None\<rparr>"

definition ERR_WRITE :: string where "ERR_WRITE = ''Error while writing zip file.''"
definition ERR_DUPLICATED_NAME :: string where "ERR_DUPLICATED_NAME = ''File already exists.''"

section \<open>Names\<close>

definition white :: "code_unit set" where
  "white = {9, 10, 11, 12, 13, 32, 0xA0, 0x1680, 0x180E, 0x2000, 0x2001, 0x2002, 0x2003, 0x2004,
     0x2005, 0x2006, 0x2007, 0x2008, 0x2009, 0x200A, 0x2028, 0x2029, 0x202F, 0x205F, 0x3000, 0xFEFF}"

definition trim :: "jstring \<Rightarrow> jstring" where
  "trim s = rev (dropWhile (\<lambda>u. u \<in> white) (rev (dropWhile (\<lambda>u. u \<in> white) s)))"

definition entry_name :: "jstring \<Rightarrow> add_options \<Rightarrow> jstring" where
  "entry_name name opts =
     (let n = trim name in if o_directory opts \<and> (n = [] \<or> last n \<noteq> 47) then n @ [47] else n)"

text \<open>Members every array inherits (ECMAScript 5.1, 15.4.4) besides those of every object.\<close>

definition array_prototype :: "string list" where
  "array_prototype = [''concat'', ''join'', ''pop'', ''push'', ''reverse'', ''shift'', ''slice'', ''sort'',
     ''splice'', ''unshift'', ''indexOf'', ''lastIndexOf'', ''every'', ''some'', ''forEach'', ''map'', ''filter'',
     ''reduce'', ''reduceRight''] @ object_prototype"

text \<open>Names that are array indices make the array longer.\<close>

definition digit :: "code_unit \<Rightarrow> bool" where
  "digit u = (48 \<le> u \<and> u \<le> 57)"

definition array_index :: "jstring \<Rightarrow> bool" where
  "array_index s = (s \<noteq> [] \<and> (\<forall>u \<in> set s. digit u) \<and> (hd s = 48 \<longrightarrow> s = [48]) \<and>
     foldl (\<lambda>n u. n * 10 + (unat u - 48)) 0 s < 2 ^ 32 - 1)"

text \<open>Is \<open>files[name]\<close> truthy?\<close>

definition name_taken :: "zip_writer \<Rightarrow> jstring \<Rightarrow> bool" where
  "name_taken zw name =
     (if name = js ''length'' then \<exists>n \<in> set (filenames zw). array_index n \<and> files zw n \<noteq> None
      else files zw name \<noteq> None \<or> name \<in> set (map js array_prototype))"

section \<open>Headers\<close>

definition header_writes :: "add_options \<Rightarrow> bool \<Rightarrow> js_date \<Rightarrow> nat \<Rightarrow> (nat \<times> byte list) list" where
  "header_writes opts dontDeflate date nlen =
     [(0, be 4 0x14000808)] @
     (if o_version opts \<noteq> 0 then [(0, le 1 (int (o_version opts)))] else []) @
     (if \<not> dontDeflate \<and> o_level opts \<noteq> Some 0 then [(4, be 2 0x0800)] else []) @
     [(6, le 2 (dos_time date)), (8, le 2 (dos_date date)), (22, le 2 (int nlen))]"

definition local_writes :: "byte list \<Rightarrow> byte list \<Rightarrow> (nat \<times> byte list) list" where
  "local_writes header name = [(0, be 4 0x504b0304), (4, header), (30, []), (30, name)]"

text \<open>\<open>writeHeader\<close>: the new state and the bytes of the local header, or an exception of \<open>set\<close>.\<close>

definition writeHeader :: "jstring \<Rightarrow> byte list \<Rightarrow> add_options \<Rightarrow> bool \<Rightarrow> js_date \<Rightarrow> zip_writer \<Rightarrow>
    (byte list \<times> byte list \<times> zip_writer) zres" where
  "writeHeader name fname opts dontDeflate now zw =
     (if name = js ''length'' then Inl (Uncaught RangeError)
      else
        zbind (puts (header_writes opts dontDeflate (case o_date opts of Some d \<Rightarrow> d | None \<Rightarrow> now) (length fname))
                 (replicate 26 0)) (\<lambda>header.
        zbind (puts (local_writes header fname) (replicate (30 + length fname) 0)) (\<lambda>data.
          Inr (data, header,
            zw\<lparr>files := (files zw)(name \<mapsto> \<lparr>headerArray = header, f_directory = o_directory opts,
                  f_filename = fname, f_offset = datalength zw,
                  f_comment = getBytes (encodeUTF8 (o_comment opts))\<rparr>),
               datalength := datalength zw + length data\<rparr>))))"

definition sum_writes :: "32 word option \<Rightarrow> (nat \<times> nat) option \<Rightarrow> nat \<Rightarrow> (nat \<times> byte list) list" where
  "sum_writes crc sizes at =
     (case crc of None \<Rightarrow> [] | Some c \<Rightarrow> [(at, le 4 (uint c))]) @
     (case sizes of None \<Rightarrow> [] | Some (csize, usize) \<Rightarrow> [(at + 4, le 4 (int csize)), (at + 8, le 4 (int usize))])"

text \<open>\<open>writeFooter\<close> for the checksum and the compressed and original size, absent for a directory.\<close>

definition writeFooter :: "jstring \<Rightarrow> byte list \<Rightarrow> 32 word option \<Rightarrow> (nat \<times> nat) option \<Rightarrow> 'w write_fn \<Rightarrow>
    zip_writer \<Rightarrow> 'w \<Rightarrow> unit zres \<times> zip_writer \<times> 'w" where
  "writeFooter name header crc sizes wr zw w =
     (let zw1 = zw\<lparr>datalength := datalength zw + (case sizes of Some (csize, usize) \<Rightarrow> csize | None \<Rightarrow> 0)\<rparr> in
      case zbind (puts (sum_writes crc sizes 10) header) (\<lambda>header'.
           zbind (puts ((0, be 4 0x504b0708) # sum_writes crc sizes 4) (replicate 16 0)) (\<lambda>footer.
             Inr (header', footer))) of
        Inl f \<Rightarrow> (Inl f, zw1, w)
      | Inr (header', footer) \<Rightarrow>
          (let zw2 = zw1\<lparr>files := (files zw1)(name := map_option (headerArray_update (\<lambda>_. header')) (files zw1 name))\<rparr> in
           case wr w (Bytes footer) of
             Failed \<Rightarrow> (Inl (OnError ERR_WRITE), zw2, w)
           | Raised e \<Rightarrow> (Inl (Uncaught e), zw2, w)
           | Got w' \<Rightarrow> (Inr (), zw2\<lparr>datalength := datalength zw2 + 16\<rparr>, w')))"

section \<open>add\<close>

text \<open>The size that \<open>copy\<close> or \<open>deflate\<close> hands to \<open>writeFooter\<close>; \<open>NaN\<close> counts as 0.\<close>

definition footer_after :: "jstring \<Rightarrow> byte list \<Rightarrow> nat \<Rightarrow> (nat option \<times> 32 word) finish \<Rightarrow> 'w write_fn \<Rightarrow>
    zip_writer \<Rightarrow> 'w \<Rightarrow> unit zres \<times> zip_writer \<times> 'w" where
  "footer_after name header rsize f wr zw w =
     (case f of
        Ended (n, crc) \<Rightarrow> writeFooter name header (Some crc) (Some (or_0 n, rsize)) wr zw w
      | ReaderFailed \<Rightarrow> (Inl (OnError ERR_READ_DATA), zw, w)
      | WriterFailed \<Rightarrow> (Inl (OnError ERR_WRITE), zw, w)
      | Died e \<Rightarrow> (Inl (Uncaught e), zw, w))"

definition writeFile :: "'p append_fn \<Rightarrow> 'p flush_fn \<Rightarrow> (int option \<Rightarrow> 'p) \<Rightarrow> 'r read_fn \<Rightarrow> 'w write_fn \<Rightarrow> bool \<Rightarrow> js_date \<Rightarrow>
    jstring \<Rightarrow> ('r \<times> nat) option \<Rightarrow> add_options \<Rightarrow> zip_writer \<Rightarrow> 'w \<Rightarrow> unit zres \<times> zip_writer \<times> 'w" where
  "writeFile app fl new_deflater rd wr dontDeflate now name reader opts zw w =
     (let name' = entry_name name opts in
      if name_taken zw name' then (Inl (Uncaught (Thrown ERR_DUPLICATED_NAME)), zw, w)
      else
        (let fname = getBytes (encodeUTF8 name'); zw1 = zw\<lparr>filenames := filenames zw @ [name']\<rparr> in
         case writeHeader name' fname opts dontDeflate now zw1 of
           Inl f \<Rightarrow> (Inl f, zw1, w)
         | Inr (data, header, zw2) \<Rightarrow>
             (case wr w (Bytes data) of
                Failed \<Rightarrow> (Inl (OnError ERR_WRITE), zw2, w)
              | Raised e \<Rightarrow> (Inl (Uncaught e), zw2, w)
              | Got w1 \<Rightarrow>
                  (case reader of
                     None \<Rightarrow> writeFooter name' header None None wr zw2 w1
                   | Some (r, rsize) \<Rightarrow>
                       if dontDeflate \<or> o_level opts = Some 0 then
                         (case copy rd wr 0 rsize True r w1 of
                            (f, r', w2) \<Rightarrow> footer_after name' header rsize
                              (map_finish (\<lambda>(n, crc). (Some n, crc)) f) wr zw2 w2)
                       else
                         (case deflate app fl new_deflater rd wr (o_level opts) rsize r w1 of
                            (f, r', w2) \<Rightarrow> footer_after name' header rsize f wr zw2 w2)))))"

text \<open>\<open>add\<close>: the reader is initialised first; its \<open>init\<close> sets its size.\<close>

definition add :: "'p append_fn \<Rightarrow> 'p flush_fn \<Rightarrow> (int option \<Rightarrow> 'p) \<Rightarrow> ('r \<Rightarrow> nat io \<times> 'r) \<Rightarrow> 'r read_fn \<Rightarrow> 'w write_fn \<Rightarrow>
    bool \<Rightarrow> js_date \<Rightarrow> jstring \<Rightarrow> 'r option \<Rightarrow> add_options \<Rightarrow> zip_writer \<Rightarrow> 'w \<Rightarrow> unit zres \<times> zip_writer \<times> 'w" where
  "add app fl new_deflater rinit rd wr dontDeflate now name reader opts zw w =
     (case reader of
        None \<Rightarrow> writeFile app fl new_deflater rd wr dontDeflate now name None opts zw w
      | Some r \<Rightarrow>
          (case rinit r of
             (Failed, r') \<Rightarrow> (Inl (OnError ERR_READ_DATA), zw, w)
           | (Raised e, r') \<Rightarrow> (Inl (Uncaught e), zw, w)
           | (Got n, r') \<Rightarrow> writeFile app fl new_deflater rd wr dontDeflate now name (Some (r', n)) opts zw w))"

section \<open>close\<close>

text \<open>\<open>files[name]\<close> for every name; a name without a file makes \<open>file.fname.length\<close> throw.\<close>

fun files_of :: "zip_writer \<Rightarrow> jstring list \<Rightarrow> zip_file list zres" where
  "files_of zw [] = Inr []"
| "files_of zw (n # ns) =
     (case files zw n of None \<Rightarrow> Inl (Uncaught TypeError)
      | Some f \<Rightarrow> zbind (files_of zw ns) (\<lambda>fs. Inr (f # fs)))"

definition central_size :: "zip_file \<Rightarrow> nat" where
  "central_size f = 46 + length (f_filename f) + length (f_comment f)"

definition central_writes :: "nat \<Rightarrow> zip_file \<Rightarrow> (nat \<times> byte list) list" where
  "central_writes index f =
     [(index, be 4 0x504b0102), (index + 4, be 2 0x1400), (index + 6, headerArray f),
      (index + 32, le 2 (int (length (f_comment f))))] @
     (if f_directory f then [(index + 38, le 1 0x10)] else []) @
     [(index + 42, le 4 (int (f_offset f))), (index + 46, f_filename f),
      (index + 46 + length (f_filename f), f_comment f)]"

fun directory_writes :: "nat \<Rightarrow> zip_file list \<Rightarrow> (nat \<times> byte list) list" where
  "directory_writes index [] = []"
| "directory_writes index (f # fs) = central_writes index f @ directory_writes (index + central_size f) fs"

definition end_writes :: "nat \<Rightarrow> nat \<Rightarrow> nat \<Rightarrow> nat \<Rightarrow> (nat \<times> byte list) list" where
  "end_writes index count len start =
     [(index, be 4 0x504b0506), (index + 8, le 2 (int count)), (index + 10, le 2 (int count)),
      (index + 12, le 4 (int len)), (index + 16, le 4 (int start))]"

definition directory_bytes :: "zip_writer \<Rightarrow> byte list zres" where
  "directory_bytes zw =
     zbind (files_of zw (filenames zw)) (\<lambda>fs.
       let len = sum_list (map central_size fs)
       in puts (directory_writes 0 fs @ end_writes len (length (filenames zw)) len (datalength zw))
            (replicate (len + 22) 0))"

definition close :: "'w write_fn \<Rightarrow> zip_writer \<Rightarrow> 'w \<Rightarrow> unit zres \<times> 'w" where
  "close wr zw w =
     (case directory_bytes zw of
        Inl f \<Rightarrow> (Inl f, w)
      | Inr data \<Rightarrow>
          (case wr w (Bytes data) of
             Failed \<Rightarrow> (Inl (OnError ERR_WRITE), w)
           | Raised e \<Rightarrow> (Inl (Uncaught e), w)
           | Got w' \<Rightarrow> (Inr (), w')))"

end
