(* ===== verification/Zip_Fs.thy ===== *)
theory Zip_Fs
  imports Zip_Writer
begin

text \<open>
  \<^verbatim>\<open>html/lib/zip-fs.js\<close>: a tree of files and directories in memory that is imported from and exported to
  archives. The objects \<open>ZipEntry\<close> refer to each other (parents and children) and are compared by
  identity and by \<open>id\<close>, so the state is a heap of entries, with the table \<open>entries\<close> and the \<open>root\<close> of one
  \<open>FS\<close>; an entry is its address. Old entries stay in the heap after a reset. A walk over the tree, which the
  code does with nested callbacks, is a loop over the list of entries still to be visited; it returns
  \<open>None\<close> if it never ends. Progress callbacks are left out, and so is moving entries between two \<open>FS\<close>.
\<close>

section \<open>State\<close>

datatype reader_class = Reader_Text | Reader_Blob | Reader_Data64URI | Reader_Http | Reader_HttpRange | Reader_Zip
datatype writer_class = Writer_Text | Writer_Blob | Writer_Data64URI | Writer_File

datatype fs_data = Text jstring | Blob "byte list" | Data_URI jstring | Address jstring | Zipped zip_entry

text \<open>\<open>ZipFileEntry\<close> and \<open>ZipDirectoryEntry\<close> in one record; \<open>undefined\<close> fields are \<open>None\<close>.\<close>

record 'r fs_entry =
  e_name :: "jstring option"
  e_id :: nat
  e_parent :: "nat option"
  e_children :: "nat list"
  e_zipVersion :: nat
  e_size :: nat
  e_directory :: bool
  e_Reader :: "reader_class option"
  e_Writer :: "writer_class option"
  e_data :: "fs_data option"
  e_reader :: "'r option"

record 'r zfs =
  heap :: "'r fs_entry list"
  fs_entries :: "nat option list"
  fs_root :: "nat option"

record fs_params =
  p_Reader :: "reader_class option"
  p_Writer :: "writer_class option"
  p_data :: "fs_data option"
  p_zipVersion :: "nat option"

definition ent :: "'r zfs \<Rightarrow> nat \<Rightarrow> 'r fs_entry" where
  "ent w a = heap w ! a"

definition set_ent :: "nat \<Rightarrow> ('r fs_entry \<Rightarrow> 'r fs_entry) \<Rightarrow> 'r zfs \<Rightarrow> 'r zfs" where
  "set_ent a f w = w\<lparr>heap := (heap w)[a := f (heap w ! a)]\<rparr>"

text \<open>Sequencing of calls that may throw; the state reached before the exception stays.\<close>

definition cbind :: "('s, 'a) call \<Rightarrow> ('a \<Rightarrow> ('s, 'b) call) \<Rightarrow> ('s, 'b) call" where
  "cbind f g s = (case f s of (Inl e, s') \<Rightarrow> (Inl e, s') | (Inr x, s') \<Rightarrow> g x s')"

section \<open>ZipEntry\<close>

text \<open>\<open>child.name == name\<close>; files have no \<open>getChildByName\<close>.\<close>

definition child_named :: "'r zfs \<Rightarrow> nat \<Rightarrow> jstring option \<Rightarrow> nat option" where
  "child_named w p n = find (\<lambda>c. e_name (ent w c) = n) (e_children (ent w p))"

definition getChildByName :: "'r zfs \<Rightarrow> nat \<Rightarrow> jstring option \<Rightarrow> js_error + nat option" where
  "getChildByName w p n = (if e_directory (ent w p) then Inr (child_named w p n) else Inl TypeError)"

text \<open>\<open>fs.root && parent && parent.getChildByName(name)\<close>\<close>

definition name_used :: "'r zfs \<Rightarrow> nat option \<Rightarrow> jstring option \<Rightarrow> js_error + bool" where
  "name_used w parent n =
     (case (fs_root w, parent) of
        (Some _, Some p) \<Rightarrow> (case getChildByName w p n of Inl e \<Rightarrow> Inl e | Inr c \<Rightarrow> Inr (c \<noteq> None))
      | _ \<Rightarrow> Inr False)"

definition version_or :: "nat option \<Rightarrow> nat" where
  "version_or v = (case v of None \<Rightarrow> 0x14 | Some n \<Rightarrow> if n = 0 then 0x14 else n)"

definition adopt :: "nat option \<Rightarrow> nat \<Rightarrow> 'r zfs \<Rightarrow> 'r zfs" where
  "adopt parent a w = (case parent of None \<Rightarrow> w
     | Some p \<Rightarrow> set_ent p (\<lambda>e. e\<lparr>e_children := e_children e @ [a]\<rparr>) w)"

definition entry_init :: "jstring option \<Rightarrow> nat option \<Rightarrow> bool \<Rightarrow> nat option \<Rightarrow> ('r zfs, nat) call" where
  "entry_init name v dir parent w =
     (case name_used w parent name of
        Inl e \<Rightarrow> (Inl e, w)
      | Inr True \<Rightarrow> (Inl (Thrown ''Entry filename already exists.''), w)
      | Inr False \<Rightarrow>
          (let a = length (heap w);
               e = \<lparr>e_name = name, e_id = length (fs_entries w), e_parent = parent, e_children = [],
                  e_zipVersion = version_or v, e_size = 0, e_directory = dir, e_Reader = None,
                  e_Writer = None, e_data = None, e_reader = None\<rparr> in
           (Inr a, adopt parent a (w\<lparr>heap := heap w @ [e], fs_entries := fs_entries w @ [Some a]\<rparr>))))"

definition ZipDirectoryEntry :: "jstring option \<Rightarrow> nat option \<Rightarrow> ('r zfs, nat) call" where
  "ZipDirectoryEntry name parent = entry_init name None True parent"

text \<open>Without \<open>params\<close> the constructor throws at \<open>params.Reader\<close>, after \<open>init\<close>.\<close>

definition ZipFileEntry :: "jstring option \<Rightarrow> fs_params option \<Rightarrow> nat option \<Rightarrow> ('r zfs, nat) call" where
  "ZipFileEntry name params parent =
     cbind (entry_init name (case params of None \<Rightarrow> None | Some p \<Rightarrow> p_zipVersion p) False parent) (\<lambda>a w.
       case params of
         None \<Rightarrow> (Inl TypeError, w)
       | Some p \<Rightarrow> (Inr a, set_ent a (\<lambda>e. e\<lparr>e_Reader := p_Reader p, e_Writer := p_Writer p, e_data := p_data p\<rparr>) w))"

definition addChild :: "nat \<Rightarrow> jstring \<Rightarrow> fs_params option \<Rightarrow> bool \<Rightarrow> ('r zfs, nat) call" where
  "addChild parent name params dir w =
     (if e_directory (ent w parent)
      then (if dir then ZipDirectoryEntry (Some name) (Some parent) w
            else ZipFileEntry (Some name) params (Some parent) w)
      else (Inl (Thrown ''Parent entry is not a directory.''), w))"

text \<open>\<open>children.forEach(\<dots> children.splice(index, 1))\<close>: the element after a removed one is skipped.\<close>

fun splice_all :: "(nat \<Rightarrow> bool) \<Rightarrow> nat list \<Rightarrow> nat list" where
  "splice_all P [] = []"
| "splice_all P [c] = (if P c then [] else [c])"
| "splice_all P (c # d # cs) = (if P c then d # splice_all P cs else c # splice_all P (d # cs))"

definition detach :: "nat \<Rightarrow> ('r zfs, unit) call" where
  "detach a w =
     (case e_parent (ent w a) of
        None \<Rightarrow> (Inl TypeError, w)
      | Some p \<Rightarrow> (Inr (), set_ent p (\<lambda>e. e\<lparr>e_children :=
          splice_all (\<lambda>c. e_id (ent w c) = e_id (ent w a)) (e_children e)\<rparr>) w))"

text \<open>The loops along the parents; they return only if the chain of parents ends.\<close>

partial_function (option) meets :: "'r zfs \<Rightarrow> nat \<Rightarrow> nat option \<Rightarrow> bool option" where
  "meets w i e = (case e of None \<Rightarrow> Some False
     | Some a \<Rightarrow> if e_id (ent w a) = i then Some True else meets w i (e_parent (ent w a)))"

definition isDescendantOf :: "'r zfs \<Rightarrow> nat \<Rightarrow> nat \<Rightarrow> bool option" where
  "isDescendantOf w a ancestor = meets w (e_id (ent w ancestor)) (e_parent (ent w a))"

definition or_undefined :: "jstring option \<Rightarrow> jstring" where
  "or_undefined n = (case n of None \<Rightarrow> js ''undefined'' | Some s \<Rightarrow> s)"

definition folder_prefix :: "jstring option \<Rightarrow> jstring" where
  "folder_prefix n = (case n of None \<Rightarrow> [] | Some s \<Rightarrow> if s = [] then [] else s @ [47])"

partial_function (option) full_name :: "'r zfs \<Rightarrow> jstring \<Rightarrow> nat option \<Rightarrow> jstring option" where
  "full_name w fullname e = (case e of None \<Rightarrow> Some fullname
     | Some a \<Rightarrow> full_name w (folder_prefix (e_name (ent w a)) @ fullname) (e_parent (ent w a)))"

text \<open>The inner option is the \<open>undefined\<close> that a root gets.\<close>

definition getFullname :: "'r zfs \<Rightarrow> nat \<Rightarrow> jstring option option" where
  "getFullname w a =
     (case e_parent (ent w a) of
        None \<Rightarrow> Some (e_name (ent w a))
      | Some p \<Rightarrow> map_option Some (full_name w (or_undefined (e_name (ent w a))) (Some p)))"

definition moveTo :: "nat \<Rightarrow> nat \<Rightarrow> 'r zfs \<Rightarrow> ((js_error + unit) \<times> 'r zfs) option" where
  "moveTo a target w =
     (if \<not> e_directory (ent w target) then Some (Inl (Thrown ''Target entry is not a directory.''), w)
      else
        (case isDescendantOf w target a of
           None \<Rightarrow> None
         | Some True \<Rightarrow> Some (Inl (Thrown ''Entry is a ancestor of target entry.''), w)
         | Some False \<Rightarrow>
             if a = target then Some (Inr (), w)
             else if child_named w target (e_name (ent w a)) \<noteq> None
             then Some (Inl (Thrown ''Entry filename already exists.''), w)
             else Some (cbind (detach a) (\<lambda>_ w1.
               (Inr (), set_ent target (\<lambda>e. e\<lparr>e_children := e_children e @ [a]\<rparr>)
                 (set_ent a (\<lambda>e. e\<lparr>e_parent := Some target\<rparr>) w1))) w)))"

section \<open>ZipDirectoryEntry\<close>

definition addDirectory :: "nat \<Rightarrow> jstring \<Rightarrow> ('r zfs, nat) call" where
  "addDirectory p name = addChild p name None True"

definition params_of :: "reader_class \<Rightarrow> writer_class option \<Rightarrow> fs_data \<Rightarrow> fs_params option" where
  "params_of R W d = Some \<lparr>p_Reader = Some R, p_Writer = W, p_data = Some d, p_zipVersion = None\<rparr>"

definition addText :: "nat \<Rightarrow> jstring \<Rightarrow> jstring \<Rightarrow> ('r zfs, nat) call" where
  "addText p name text' = addChild p name (params_of Reader_Text (Some Writer_Text) (Text text')) False"

definition addBlob :: "nat \<Rightarrow> jstring \<Rightarrow> byte list \<Rightarrow> ('r zfs, nat) call" where
  "addBlob p name blob = addChild p name (params_of Reader_Blob (Some Writer_Blob) (Blob blob)) False"

definition addData64URI :: "nat \<Rightarrow> jstring \<Rightarrow> jstring \<Rightarrow> ('r zfs, nat) call" where
  "addData64URI p name dataURI =
     addChild p name (params_of Reader_Data64URI (Some Writer_Data64URI) (Data_URI dataURI)) False"

definition addHttpContent :: "nat \<Rightarrow> jstring \<Rightarrow> jstring \<Rightarrow> bool \<Rightarrow> ('r zfs, nat) call" where
  "addHttpContent p name url useRangeHeader =
     addChild p name (params_of (if useRangeHeader then Reader_HttpRange else Reader_Http) None (Address url)) False"

definition addData :: "nat \<Rightarrow> jstring \<Rightarrow> fs_params option \<Rightarrow> ('r zfs, nat) call" where
  "addData p name params = addChild p name params False"

section \<open>FS\<close>

definition resetFS :: "'r zfs \<Rightarrow> 'r zfs" where
  "resetFS w =
     (case ZipDirectoryEntry None None (w\<lparr>fs_entries := []\<rparr>) of
        (Inr a, w') \<Rightarrow> w'\<lparr>fs_root := Some a\<rparr>
      | (Inl e, w') \<Rightarrow> w')"

definition new_FS :: "'r zfs" where
  "new_FS = resetFS \<lparr>heap = [], fs_entries = [], fs_root = None\<rparr>"

text \<open>\<open>entries[id] = null\<close>; an id past the end, from before a reset, makes the array longer.\<close>

definition put_null :: "nat \<Rightarrow> nat option list \<Rightarrow> nat option list" where
  "put_null i es = (if i < length es then es[i := None] else es @ replicate (i + 1 - length es) None)"

definition remove :: "nat \<Rightarrow> ('r zfs, unit) call" where
  "remove a = cbind (detach a) (\<lambda>_ w.
     (Inr (), w\<lparr>fs_entries := put_null (e_id (ent w a)) (fs_entries w)\<rparr>))"

fun find_from :: "'r zfs \<Rightarrow> nat \<Rightarrow> jstring list \<Rightarrow> js_error + nat option" where
  "find_from w node [] = Inr (Some node)"
| "find_from w node (n # path) =
     (case getChildByName w node (Some n) of
        Inl e \<Rightarrow> Inl e
      | Inr None \<Rightarrow> Inr None
      | Inr (Some c) \<Rightarrow> find_from w c path)"

definition fs_find :: "'r zfs \<Rightarrow> jstring \<Rightarrow> js_error + nat option" where
  "fs_find w fullname =
     (case fs_root w of None \<Rightarrow> Inr None | Some r \<Rightarrow> find_from w r (js_split [47] fullname))"

text \<open>\<open>null\<close> and \<open>undefined\<close> are both \<open>None\<close>.\<close>

definition getById :: "'r zfs \<Rightarrow> int \<Rightarrow> nat option" where
  "getById w i = (case arr_at (fs_entries w) i of None \<Rightarrow> None | Some x \<Rightarrow> x)"

section \<open>Reading and writing\<close>

text \<open>
  What a caller hears: its \<open>onend\<close>, its \<open>onerror\<close>, none of the two, or an exception is thrown. The
  constructors \<open>child.Reader\<close>, the readers' and writers' functions and the file system of the browser
  are parameters.
\<close>

datatype 'a answer = Answer 'a | Reports | Silent | Throws js_error

fun heard :: "'a zres \<Rightarrow> 'a answer" where
  "heard (Inr x) = Answer x"
| "heard (Inl (Uncaught e)) = Throws e"
| "heard (Inl _) = Reports"

partial_function (option) total_size :: "'r zfs \<Rightarrow> nat list \<Rightarrow> nat \<Rightarrow> nat option" where
  "total_size w todo n = (case todo of [] \<Rightarrow> Some n
     | a # rest \<Rightarrow> total_size w (e_children (ent w a) @ rest) (n + e_size (ent w a)))"

definition getTotalSize :: "'r zfs \<Rightarrow> nat \<Rightarrow> nat option" where
  "getTotalSize w a = total_size w [a] 0"

text \<open>
  \<open>child.reader.init\<close> gets no error callback, so a reader that cannot be opened stops everything
  silently.
\<close>

definition open_child :: "(reader_class \<Rightarrow> fs_data option \<Rightarrow> 'r) \<Rightarrow> ('r \<Rightarrow> nat io \<times> 'r) \<Rightarrow> nat \<Rightarrow> 'r zfs \<Rightarrow>
    unit answer \<times> 'r zfs" where
  "open_child new_reader rinit a w =
     (case e_Reader (ent w a) of
        None \<Rightarrow> (Throws TypeError, w)
      | Some R \<Rightarrow>
          (case rinit (new_reader R (e_data (ent w a))) of
             (Got n, r) \<Rightarrow> (Answer (), set_ent a (\<lambda>e. e\<lparr>e_reader := Some r, e_size := n\<rparr>) w)
           | (Failed, r) \<Rightarrow> (Silent, set_ent a (\<lambda>e. e\<lparr>e_reader := Some r\<rparr>) w)
           | (Raised x, r) \<Rightarrow> (Throws x, set_ent a (\<lambda>e. e\<lparr>e_reader := Some r\<rparr>) w)))"

partial_function (option) init_readers :: "(reader_class \<Rightarrow> fs_data option \<Rightarrow> 'r) \<Rightarrow> ('r \<Rightarrow> nat io \<times> 'r) \<Rightarrow>
    nat list \<Rightarrow> 'r zfs \<Rightarrow> (unit answer \<times> 'r zfs) option" where
  "init_readers new_reader rinit todo w =
     (case todo of [] \<Rightarrow> Some (Answer (), w)
      | a # rest \<Rightarrow>
          if e_directory (ent w a) then init_readers new_reader rinit (e_children (ent w a) @ rest) w
          else
            (case open_child new_reader rinit a w of
               (Answer u, w') \<Rightarrow> init_readers new_reader rinit rest w'
             | (r, w') \<Rightarrow> Some (r, w')))"

definition initReaders :: "(reader_class \<Rightarrow> fs_data option \<Rightarrow> 'r) \<Rightarrow> ('r \<Rightarrow> nat io \<times> 'r) \<Rightarrow> nat \<Rightarrow> 'r zfs \<Rightarrow>
    (unit answer \<times> 'r zfs) option" where
  "initReaders new_reader rinit a w = init_readers new_reader rinit (e_children (ent w a)) w"

subsection \<open>Export\<close>

definition export_options :: "'r fs_entry \<Rightarrow> add_options" where
  "export_options e = no_options\<lparr>o_directory := e_directory e, o_version := e_zipVersion e\<rparr>"

partial_function (option) export_children :: "'p append_fn \<Rightarrow> 'p flush_fn \<Rightarrow> (int option \<Rightarrow> 'p) \<Rightarrow>
    ('r \<Rightarrow> nat io \<times> 'r) \<Rightarrow> 'r read_fn \<Rightarrow> 'w write_fn \<Rightarrow> js_date \<Rightarrow> 'r zfs \<Rightarrow> nat list \<Rightarrow> zip_writer \<Rightarrow> 'w \<Rightarrow>
    (unit zres \<times> zip_writer \<times> 'w) option" where
  "export_children app fl nd rinit rd wr now w todo zw s =
     (case todo of [] \<Rightarrow> Some (Inr (), zw, s)
      | a # rest \<Rightarrow>
          (case getFullname w a of
             None \<Rightarrow> None
           | Some None \<Rightarrow> Some (Inl (Uncaught TypeError), zw, s)
           | Some (Some name) \<Rightarrow>
               (case add app fl nd rinit rd wr False now name (e_reader (ent w a)) (export_options (ent w a)) zw s of
                  (Inl f, zw', s') \<Rightarrow> Some (Inl f, zw', s')
                | (Inr u, zw', s') \<Rightarrow>
                    export_children app fl nd rinit rd wr now w (e_children (ent w a) @ rest) zw' s')))"

definition exportZip :: "(reader_class \<Rightarrow> fs_data option \<Rightarrow> 'r) \<Rightarrow> 'p append_fn \<Rightarrow> 'p flush_fn \<Rightarrow> (int option \<Rightarrow> 'p) \<Rightarrow>
    ('r \<Rightarrow> nat io \<times> 'r) \<Rightarrow> 'r read_fn \<Rightarrow> ('w \<Rightarrow> 'w io) \<Rightarrow> 'w write_fn \<Rightarrow> js_date \<Rightarrow> nat \<Rightarrow> 'w \<Rightarrow> 'r zfs \<Rightarrow>
    (unit answer \<times> 'w \<times> 'r zfs) option" where
  "exportZip new_reader app fl nd rinit rd winit wr now dir s w =
     (case initReaders new_reader rinit dir w of
        None \<Rightarrow> None
      | Some (Answer u, w1) \<Rightarrow>
          (case winit s of
             Failed \<Rightarrow> Some (Reports, s, w1)
           | Raised e \<Rightarrow> Some (Throws e, s, w1)
           | Got s1 \<Rightarrow>
               (case export_children app fl nd rinit rd wr now w1 (e_children (ent w1 dir)) createZipWriter s1 of
                  None \<Rightarrow> None
                | Some (Inl f, zw, s2) \<Rightarrow> Some (heard (Inl f), s2, w1)
                | Some (Inr v, zw, s2) \<Rightarrow> (case close wr zw s2 of (x, s3) \<Rightarrow> Some (heard x, s3, w1))))
      | Some (r, w1) \<Rightarrow> Some (r, s, w1))"

subsection \<open>Import\<close>

fun make_path :: "nat \<Rightarrow> jstring list \<Rightarrow> ('r zfs, nat) call" where
  "make_path parent [] w = (Inr parent, w)"
| "make_path parent (n # path) w =
     (case getChildByName w parent (Some n) of
        Inl e \<Rightarrow> (Inl e, w)
      | Inr (Some c) \<Rightarrow> make_path c path w
      | Inr None \<Rightarrow> cbind (ZipDirectoryEntry (Some n) (Some parent)) (\<lambda>a. make_path a path) w)"

definition import_entry :: "nat \<Rightarrow> zip_entry \<Rightarrow> ('r zfs, unit) call" where
  "import_entry dir e =
     (let path = js_split [47] (filename e) in
      cbind (make_path dir (butlast path)) (\<lambda>parent w.
        if directory e then (Inr (), w)
        else cbind (addChild parent (last path) (params_of Reader_Zip None (Zipped e)) False) (\<lambda>_ w'. (Inr (), w')) w))"

fun import_entries :: "nat \<Rightarrow> zip_entry list \<Rightarrow> ('r zfs, unit) call" where
  "import_entries dir [] w = (Inr (), w)"
| "import_entries dir (e # es) w = cbind (import_entry dir e) (\<lambda>_. import_entries dir es) w"

definition importZip :: "('r \<Rightarrow> nat io \<times> 'r) \<Rightarrow> 'r read_fn \<Rightarrow> 'r \<Rightarrow> nat \<Rightarrow> 'r zfs \<Rightarrow> unit answer \<times> 'r zfs" where
  "importZip rinit rd r dir w =
     (case rinit r of
        (Failed, r') \<Rightarrow> (Reports, w)
      | (Raised e, r') \<Rightarrow> (Throws e, w)
      | (Got n, r') \<Rightarrow>
          (case getEntries rd (int n) r' of
             (Inl f, r'') \<Rightarrow> (heard (Inl f), w)
           | (Inr es, r'') \<Rightarrow>
               (case import_entries dir es w of
                  (Inl e, w') \<Rightarrow> (Throws e, w')
                | (Inr u, w') \<Rightarrow> (Answer (), w'))))"

text \<open>\<open>importBlob\<close>, \<open>importText\<close>, \<open>importData64URI\<close> and \<open>importHttpContent\<close> of a directory and of \<open>FS\<close>.\<close>

definition import_from :: "(reader_class \<Rightarrow> fs_data option \<Rightarrow> 'r) \<Rightarrow> ('r \<Rightarrow> nat io \<times> 'r) \<Rightarrow> 'r read_fn \<Rightarrow>
    reader_class \<Rightarrow> fs_data \<Rightarrow> nat \<Rightarrow> 'r zfs \<Rightarrow> unit answer \<times> 'r zfs" where
  "import_from new_reader rinit rd R d dir w = importZip rinit rd (new_reader R (Some d)) dir w"

definition fs_import :: "(reader_class \<Rightarrow> fs_data option \<Rightarrow> 'r) \<Rightarrow> ('r \<Rightarrow> nat io \<times> 'r) \<Rightarrow> 'r read_fn \<Rightarrow>
    reader_class \<Rightarrow> fs_data \<Rightarrow> 'r zfs \<Rightarrow> unit answer \<times> 'r zfs" where
  "fs_import new_reader rinit rd R d w =
     (let w' = resetFS w in
      case fs_root w' of None \<Rightarrow> (Throws TypeError, w') | Some r \<Rightarrow> import_from new_reader rinit rd R d r w')"

subsection \<open>The data of an entry\<close>

function buffered_copy :: "'r read_fn \<Rightarrow> 'w write_fn \<Rightarrow> nat \<Rightarrow> nat \<Rightarrow> 'r \<Rightarrow> 'w \<Rightarrow> unit answer \<times> 'r \<times> 'w" where
  "buffered_copy rd wr len chunkIndex r s =
     (let index = chunkIndex * CHUNK_SIZE in
      if index < len then
        (case rd r (int index) (int (min CHUNK_SIZE (len - index))) of
           (Failed, r') \<Rightarrow> (Reports, r', s)
         | (Raised e, r') \<Rightarrow> (Throws e, r', s)
         | (Got array, r') \<Rightarrow>
             (case wr s (Bytes array) of
                Failed \<Rightarrow> (Silent, r', s)
              | Raised e \<Rightarrow> (Throws e, r', s)
              | Got s' \<Rightarrow> buffered_copy rd wr len (Suc chunkIndex) r' s'))
      else (Answer (), r, s))"
  by pat_completeness auto
termination by (relation "measure (\<lambda>(rd, wr, n, k, _). n - k * CHUNK_SIZE)") (auto simp: chunk_progress)

declare buffered_copy.simps [simp del]

definition truthy :: "fs_data option \<Rightarrow> bool" where
  "truthy d = (d \<notin> {None, Some (Text []), Some (Data_URI []), Some (Address [])})"

text \<open>The callback gets the entry's own data or what the writer has collected.\<close>

datatype 'w delivered = Own_data "fs_data option" | Written 'w

definition getEntryData :: "(reader_class \<Rightarrow> fs_data option \<Rightarrow> 'r) \<Rightarrow> ('r \<Rightarrow> nat io \<times> 'r) \<Rightarrow> 'r read_fn \<Rightarrow>
    ('w \<Rightarrow> 'w io) \<Rightarrow> 'w write_fn \<Rightarrow> nat \<Rightarrow> (writer_class \<times> 'w) option \<Rightarrow> 'r zfs \<Rightarrow> 'w delivered answer \<times> 'r zfs" where
  "getEntryData new_reader rinit rd winit wr a writer w =
     (let e = ent w a; keep = (\<lambda>r. set_ent a (\<lambda>e. e\<lparr>e_reader := Some r\<rparr>) w) in
      case writer of
        None \<Rightarrow> (Answer (Own_data (e_data e)), w)
      | Some (W, s) \<Rightarrow>
          if e_Writer e = Some W \<and> truthy (e_data e) then (Answer (Own_data (e_data e)), w)
          else
            (case (case e_reader e of Some r \<Rightarrow> Some r
                   | None \<Rightarrow> map_option (\<lambda>R. new_reader R (e_data e)) (e_Reader e)) of
               None \<Rightarrow> (Throws TypeError, w)
             | Some r \<Rightarrow>
                 (case rinit r of
                    (Failed, r') \<Rightarrow> (Silent, keep r')
                  | (Raised x, r') \<Rightarrow> (Throws x, keep r')
                  | (Got n, r') \<Rightarrow>
                      (case winit s of
                         Failed \<Rightarrow> (Reports, keep r')
                       | Raised x \<Rightarrow> (Throws x, keep r')
                       | Got s1 \<Rightarrow>
                           (case buffered_copy rd wr n 0 r' s1 of
                              (Answer u, r'', s2) \<Rightarrow> (Answer (Written s2), keep r'')
                            | (Reports, r'', s2) \<Rightarrow> (Reports, keep r'')
                            | (Silent, r'', s2) \<Rightarrow> (Silent, keep r'')
                            | (Throws x, r'', s2) \<Rightarrow> (Throws x, keep r''))))))"

text \<open>
  \<open>ZipBlobReader\<close>: the entry is extracted into a blob at the first read. An error of the extraction is
  reported to the callback of the import, not to the caller of \<open>readUint8Array\<close>.
\<close>

record zip_blob_reader =
  zb_entry :: zip_entry
  zb_size :: nat
  zb_blob :: "blob_reader option"
  zb_checkCrc32 :: bool

definition ZipBlobReader :: "zip_entry \<Rightarrow> zip_blob_reader" where
  "ZipBlobReader e = \<lparr>zb_entry = e, zb_size = 0, zb_blob = None, zb_checkCrc32 = False\<rparr>"

definition zb_init :: "zip_blob_reader \<Rightarrow> zip_blob_reader" where
  "zb_init z = z\<lparr>zb_size := or_0 (uncompressedSize (zb_entry z))\<rparr>"

definition zb_getData :: "'p append_fn \<Rightarrow> 'p flush_fn \<Rightarrow> 'p \<Rightarrow> 'r read_fn \<Rightarrow> zip_blob_reader \<Rightarrow> 'r \<Rightarrow>
    blob_reader answer \<times> zip_blob_reader \<times> 'r" where
  "zb_getData app fl inflater rd z r =
     (case zb_blob z of
        Some b \<Rightarrow> (Answer b, z, r)
      | None \<Rightarrow>
          (case getData app fl inflater rd (\<lambda>s. Got (bw_init s)) bw_write (zb_checkCrc32 z) (zb_entry z) r
                  (BlobWriter None) of
             (Inl (Uncaught x), e, r', s) \<Rightarrow> (Throws x, z\<lparr>zb_entry := e\<rparr>, r')
           | (Inl _, e, r', s) \<Rightarrow> (Silent, z\<lparr>zb_entry := e\<rparr>, r')
           | (Inr u, e, r', s) \<Rightarrow>
               (case bw_getData s of
                  (Got data, s') \<Rightarrow>
                    (let b = BlobReader (blob_bytes data) in (Answer b, z\<lparr>zb_entry := e, zb_blob := Some b\<rparr>, r'))
                | (Failed, s') \<Rightarrow> (Silent, z\<lparr>zb_entry := e\<rparr>, r')
                | (Raised x, s') \<Rightarrow> (Throws x, z\<lparr>zb_entry := e\<rparr>, r'))))"

definition zb_read :: "'p append_fn \<Rightarrow> 'p flush_fn \<Rightarrow> 'p \<Rightarrow> 'r read_fn \<Rightarrow> int \<Rightarrow> int \<Rightarrow> zip_blob_reader \<Rightarrow> 'r \<Rightarrow>
    byte list answer \<times> zip_blob_reader \<times> 'r" where
  "zb_read app fl inflater rd index len z r =
     (case zb_getData app fl inflater rd z r of
        (Answer b, z', r') \<Rightarrow>
          (case blob_read b index len of
             (Got x, b') \<Rightarrow> (Answer x, z'\<lparr>zb_blob := Some b'\<rparr>, r')
           | (Failed, b') \<Rightarrow> (Reports, z'\<lparr>zb_blob := Some b'\<rparr>, r')
           | (Raised e, b') \<Rightarrow> (Throws e, z'\<lparr>zb_blob := Some b'\<rparr>, r'))
      | (Reports, z', r') \<Rightarrow> (Reports, z', r')
      | (Silent, z', r') \<Rightarrow> (Silent, z', r')
      | (Throws e, z', r') \<Rightarrow> (Throws e, z', r'))"

subsection \<open>The browser's files\<close>

text \<open>
  A file the browser cannot open has no content. \<open>readEntries\<close> delivers a directory in batches; the
  code takes the first one, of \<open>batch\<close> entries at most.
\<close>

datatype file_entry = File_entry jstring "byte list option" | Dir_entry jstring "file_entry list"

lemma size_list_take: "size_list size (take n xs) \<le> size_list size xs"
  by (induction xs arbitrary: n) (auto simp: take_Cons' intro: le_trans)

function add_file_children :: "nat \<Rightarrow> nat \<Rightarrow> file_entry list \<Rightarrow> 'r zfs \<Rightarrow> unit answer \<times> 'r zfs" where
  "add_file_children batch p [] w = (Answer (), w)"
| "add_file_children batch p (File_entry name content # rest) w =
     (case content of None \<Rightarrow> (Reports, w)
      | Some bytes \<Rightarrow>
          (case addBlob p name bytes w of
             (Inl e, w') \<Rightarrow> (Throws e, w')
           | (Inr a, w') \<Rightarrow>
               add_file_children batch p rest (set_ent a (\<lambda>e. e\<lparr>e_size := length bytes\<rparr>) w')))"
| "add_file_children batch p (Dir_entry name children # rest) w =
     (case addDirectory p name w of
        (Inl e, w') \<Rightarrow> (Throws e, w')
      | (Inr a, w') \<Rightarrow>
          (case add_file_children batch a (take batch children) w' of
             (Answer u, w'') \<Rightarrow> add_file_children batch p rest w''
           | r \<Rightarrow> r))"
  by pat_completeness auto
termination by (relation "measure (\<lambda>(b, p, fs, w). size_list size fs)")
  (auto simp: less_Suc_eq_le intro: le_trans [OF size_list_take] trans_le_add1)

definition addFileEntry :: "nat \<Rightarrow> nat \<Rightarrow> file_entry \<Rightarrow> 'r zfs \<Rightarrow> unit answer \<times> 'r zfs" where
  "addFileEntry batch p f w =
     (case f of
        Dir_entry name children \<Rightarrow> add_file_children batch p (take batch children) w
      | File_entry name None \<Rightarrow> (Reports, w)
      | File_entry name (Some bytes) \<Rightarrow>
          (case addBlob p name bytes w of (Inl e, w') \<Rightarrow> (Throws e, w') | (Inr a, w') \<Rightarrow> (Answer (), w')))"

text \<open>
  \<open>getFileEntry\<close> writes a tree to the browser's file system. Its \<open>getDirectory\<close> and \<open>getFile\<close> with
  \<open>create\<close> give the file entry of a name or fail; \<open>new_writer\<close> is \<open>new FileWriter(file, type)\<close>, and
  \<open>keep\<close> puts what the writer holds into the file. The inner function has no \<open>onerror\<close> in its scope but
  the page's, which is \<open>null\<close>, and it passes \<open>checkCrc32\<close> where \<open>getEntryData\<close> takes its error
  callback: nobody hears of a failure.
\<close>

record ('f, 'w, 's) browser_fs =
  getDirectory :: "'f \<Rightarrow> jstring \<Rightarrow> 's \<Rightarrow> 'f io \<times> 's"
  getFile :: "'f \<Rightarrow> jstring \<Rightarrow> 's \<Rightarrow> 'f io \<times> 's"
  new_writer :: "'f \<Rightarrow> jstring \<Rightarrow> 'w"
  keep :: "'f \<Rightarrow> 'w \<Rightarrow> 's \<Rightarrow> 's"

definition write_file :: "(reader_class \<Rightarrow> fs_data option \<Rightarrow> 'r) \<Rightarrow> ('r \<Rightarrow> nat io \<times> 'r) \<Rightarrow> 'r read_fn \<Rightarrow>
    ('w \<Rightarrow> 'w io) \<Rightarrow> 'w write_fn \<Rightarrow> ('f, 'w, 's) browser_fs \<Rightarrow> (jstring \<Rightarrow> jstring) \<Rightarrow> 'f \<Rightarrow> nat \<Rightarrow> 'r zfs \<Rightarrow> 's \<Rightarrow>
    unit answer \<times> 'r zfs \<times> 's" where
  "write_file new_reader rinit rd winit wr fsys mime f a w st =
     (case getEntryData new_reader rinit rd winit wr a
             (Some (Writer_File, new_writer fsys f (mime (or_undefined (e_name (ent w a)))))) w of
        (Answer (Written s), w') \<Rightarrow> (Answer (), w', keep fsys f s st)
      | (Answer (Own_data d), w') \<Rightarrow> (Answer (), w', st)
      | (Throws e, w') \<Rightarrow> (Throws e, w', st)
      | (Reports, w') \<Rightarrow> (Silent, w', st)
      | (Silent, w') \<Rightarrow> (Silent, w', st))"

text \<open>One entry of the tree: the file entry of its name, and the file's content.\<close>

definition write_entry :: "(reader_class \<Rightarrow> fs_data option \<Rightarrow> 'r) \<Rightarrow> ('r \<Rightarrow> nat io \<times> 'r) \<Rightarrow> 'r read_fn \<Rightarrow>
    ('w \<Rightarrow> 'w io) \<Rightarrow> 'w write_fn \<Rightarrow> ('f, 'w, 's) browser_fs \<Rightarrow> (jstring \<Rightarrow> jstring) \<Rightarrow> 'f \<Rightarrow> nat \<Rightarrow> 'r zfs \<Rightarrow> 's \<Rightarrow>
    'f answer \<times> 'r zfs \<times> 's" where
  "write_entry new_reader rinit rd winit wr fsys mime f a w st =
     (case (if e_directory (ent w a) then getDirectory fsys else getFile fsys) f (or_undefined (e_name (ent w a))) st of
        (Failed, st') \<Rightarrow> (Silent, w, st')
      | (Raised e, st') \<Rightarrow> (Throws e, w, st')
      | (Got g, st') \<Rightarrow>
          if e_directory (ent w a) then (Answer g, w, st')
          else
            (case write_file new_reader rinit rd winit wr fsys mime g a w st' of
               (Answer u, w', st'') \<Rightarrow> (Answer g, w', st'')
             | (Throws e, w', st'') \<Rightarrow> (Throws e, w', st'')
             | (Reports, w', st'') \<Rightarrow> (Silent, w', st'')
             | (Silent, w', st'') \<Rightarrow> (Silent, w', st'')))"

partial_function (option) write_children :: "('f \<Rightarrow> nat \<Rightarrow> 'r zfs \<Rightarrow> 's \<Rightarrow> 'f answer \<times> 'r zfs \<times> 's) \<Rightarrow>
    ('f \<times> nat) list \<Rightarrow> 'r zfs \<Rightarrow> 's \<Rightarrow> (unit answer \<times> 'r zfs \<times> 's) option" where
  "write_children we todo w st =
     (case todo of [] \<Rightarrow> Some (Answer (), w, st)
      | (f, a) # rest \<Rightarrow>
          (case we f a w st of
             (Answer g, w', st') \<Rightarrow> write_children we (map (Pair g) (e_children (ent w' a)) @ rest) w' st'
           | (Throws e, w', st') \<Rightarrow> Some (Throws e, w', st')
           | (Reports, w', st') \<Rightarrow> Some (Reports, w', st')
           | (Silent, w', st') \<Rightarrow> Some (Silent, w', st')))"

definition getFileEntry :: "(reader_class \<Rightarrow> fs_data option \<Rightarrow> 'r) \<Rightarrow> ('r \<Rightarrow> nat io \<times> 'r) \<Rightarrow> 'r read_fn \<Rightarrow>
    ('w \<Rightarrow> 'w io) \<Rightarrow> 'w write_fn \<Rightarrow> ('f, 'w, 's) browser_fs \<Rightarrow> (jstring \<Rightarrow> jstring) \<Rightarrow> 'f \<Rightarrow> nat \<Rightarrow> 'r zfs \<Rightarrow> 's \<Rightarrow>
    (unit answer \<times> 'r zfs \<times> 's) option" where
  "getFileEntry new_reader rinit rd winit wr fsys mime f a w st =
     (case initReaders new_reader rinit a w of
        None \<Rightarrow> None
      | Some (Answer u, w1) \<Rightarrow>
          if e_directory (ent w1 a)
          then write_children (write_entry new_reader rinit rd winit wr fsys mime)
                 (map (Pair f) (e_children (ent w1 a))) w1 st
          else Some (write_file new_reader rinit rd winit wr fsys mime f a w1 st)
      | Some (r, w1) \<Rightarrow> Some (r, w1, st))"

declare meets.simps [code] full_name.simps [code] total_size.simps [code] init_readers.simps [code]
  export_children.simps [code] write_children.simps [code]

end
