(* ===== verification/Zip_Tree.thy ===== *)
theory Zip_Tree
  imports Zip_Fs
begin

text \<open>
  The tree of \<^verbatim>\<open>html/lib/zip-fs.js\<close>. The invariant \<open>tree_ok\<close> says that the entries made since the last reset
  form a tree: parents and children agree, parents are directories and have no cycle, siblings have
  different names, ids count the entries. Every operation keeps it, whether it returns or throws; so the
  loops over parents and children end.
\<close>

section \<open>Heap updates\<close>

lemma ent_set_ent: "ent (set_ent a f w) x = (if x = a \<and> a < length (heap w) then f (ent w a) else ent w x)"
  by (cases "a < length (heap w)") (auto simp: ent_def set_ent_def list_update_beyond)

lemma ent_entries: "ent (w\<lparr>fs_entries := es\<rparr>) x = ent w x"
  by (simp add: ent_def)

lemma set_ent_simps [simp]:
  "length (heap (set_ent a f w)) = length (heap w)" "fs_entries (set_ent a f w) = fs_entries w"
  "fs_root (set_ent a f w) = fs_root w"
  by (simp_all add: set_ent_def)

section \<open>The invariant\<close>

text \<open>
  \<open>b\<close> is the root; the entries made since the last reset are those from \<open>b\<close> on. Ids count them from 0.
\<close>

definition live :: "nat \<Rightarrow> 'r zfs \<Rightarrow> nat \<Rightarrow> bool" where
  "live b w a = (b \<le> a \<and> a < length (heap w))"

definition parent_rel :: "nat \<Rightarrow> 'r zfs \<Rightarrow> (nat \<times> nat) set" where
  "parent_rel b w = {(p, a). live b w a \<and> e_parent (ent w a) = Some p}"

definition entry_ok :: "nat \<Rightarrow> 'r zfs \<Rightarrow> nat \<Rightarrow> bool" where
  "entry_ok b w a =
     ((\<forall>p. e_parent (ent w a) = Some p \<longrightarrow> live b w p \<and> e_directory (ent w p)) \<and>
      (\<forall>c \<in> set (e_children (ent w a)). live b w c \<and> e_parent (ent w c) = Some a) \<and>
      distinct (map (\<lambda>c. e_name (ent w c)) (e_children (ent w a))) \<and>
      (e_children (ent w a) \<noteq> [] \<longrightarrow> e_directory (ent w a)) \<and>
      (e_parent (ent w a) = None \<longleftrightarrow> a = b) \<and> (e_name (ent w a) = None \<longleftrightarrow> a = b) \<and>
      e_id (ent w a) = a - b)"

definition table_ok :: "nat \<Rightarrow> 'r zfs \<Rightarrow> bool" where
  "table_ok b w = (length (fs_entries w) = length (heap w) - b \<and>
     (\<forall>i < length (fs_entries w). fs_entries w ! i \<in> {None, Some (b + i)}))"

definition tree_ok :: "nat \<Rightarrow> 'r zfs \<Rightarrow> bool" where
  "tree_ok b w =
     (fs_root w = Some b \<and> live b w b \<and> e_directory (ent w b) \<and>
table_ok b w \<and> acyclic (parent_rel b w) \<and> (\<forall>a. live b w a \<longrightarrow> entry_ok b w a))"

lemma entry_okD:
  assumes "tree_ok b w" "live b w a"
  shows "e_parent (ent w a) = Some p \<Longrightarrow> live b w p" "e_parent (ent w a) = Some p \<Longrightarrow> e_directory (ent w p)"
    "c \<in> set (e_children (ent w a)) \<Longrightarrow> live b w c" "c \<in> set (e_children (ent w a)) \<Longrightarrow> e_parent (ent w c) = Some a"
    "distinct (map (\<lambda>c. e_name (ent w c)) (e_children (ent w a)))" "distinct (e_children (ent w a))"
    "e_children (ent w a) \<noteq> [] \<Longrightarrow> e_directory (ent w a)"
    "e_parent (ent w a) = None \<longleftrightarrow> a = b" "e_name (ent w a) = None \<longleftrightarrow> a = b" "e_id (ent w a) = a - b"
proof -
  have e: "entry_ok b w a" using assms by (simp add: tree_ok_def)
  show "e_parent (ent w a) = Some p \<Longrightarrow> live b w p" "e_parent (ent w a) = Some p \<Longrightarrow> e_directory (ent w p)"
    "c \<in> set (e_children (ent w a)) \<Longrightarrow> live b w c" "c \<in> set (e_children (ent w a)) \<Longrightarrow> e_parent (ent w c) = Some a"
    "distinct (map (\<lambda>c. e_name (ent w c)) (e_children (ent w a)))" "e_children (ent w a) \<noteq> [] \<Longrightarrow> e_directory (ent w a)"
    "e_parent (ent w a) = None \<longleftrightarrow> a = b" "e_name (ent w a) = None \<longleftrightarrow> a = b" "e_id (ent w a) = a - b"
    using e unfolding entry_ok_def by simp_all
  then show "distinct (e_children (ent w a))" by (simp add: distinct_map)
qed

lemma live_root: "tree_ok b w \<Longrightarrow> live b w b"
  by (simp add: tree_ok_def)

text \<open>Fields outside the structure do not matter.\<close>

definition skeleton :: "'r fs_entry \<Rightarrow> jstring option \<times> nat \<times> nat option \<times> nat list \<times> bool" where
  "skeleton e = (e_name e, e_id e, e_parent e, e_children e, e_directory e)"

lemma tree_ok_cong:
  assumes "fs_root w' = fs_root w" "fs_entries w' = fs_entries w" "length (heap w') = length (heap w)"
    and "\<And>x. skeleton (ent w' x) = skeleton (ent w x)"
  shows "tree_ok b w' = tree_ok b w"
proof -
  have f: "e_name (ent w' x) = e_name (ent w x)" "e_id (ent w' x) = e_id (ent w x)"
    "e_parent (ent w' x) = e_parent (ent w x)" "e_children (ent w' x) = e_children (ent w x)"
    "e_directory (ent w' x) = e_directory (ent w x)" for x
    using assms(4) [of x] by (simp_all add: skeleton_def)
  have l: "live b w' = live b w" by (simp add: live_def assms fun_eq_iff)
  have "parent_rel b w' = parent_rel b w" unfolding parent_rel_def f l ..
  moreover have "entry_ok b w' = entry_ok b w" unfolding entry_ok_def [abs_def] f l ..
  ultimately show ?thesis unfolding tree_ok_def table_ok_def l f assms(1-3) by simp
qed

lemma tree_ok_set_ent:
  assumes "\<And>e. skeleton (f e) = skeleton e"
  shows "tree_ok b (set_ent a f w) = tree_ok b w"
  by (rule tree_ok_cong) (simp_all add: ent_set_ent assms)

section \<open>Ancestors\<close>

lemma parent_rel_live:
  assumes "tree_ok b w" "(p, a) \<in> parent_rel b w"
  shows "live b w p" "live b w a"
  using assms entry_okD(1) [OF assms(1), of a p] by (simp_all add: parent_rel_def)

lemma wf_parent_rel: "tree_ok b w \<Longrightarrow> wf (parent_rel b w)"
proof -
  assume ok: "tree_ok b w"
  have "parent_rel b w \<subseteq> {..<length (heap w)} \<times> {..<length (heap w)}"
    using parent_rel_live [OF ok] by (fastforce simp: live_def)
  then have "finite (parent_rel b w)" by (rule finite_subset) simp
  with ok show ?thesis by (simp add: tree_ok_def finite_acyclic_wf)
qed

lemma parent_rel_iff: "live b w a \<Longrightarrow> (p, a) \<in> parent_rel b w \<longleftrightarrow> e_parent (ent w a) = Some p"
  by (simp add: parent_rel_def)

lemma meets_ancestor:
  assumes "tree_ok b w" "live b w a" "live b w x"
  shows "meets w (e_id (ent w a)) (Some x) = Some ((a, x) \<in> (parent_rel b w)\<^sup>*)"
  using wf_parent_rel [OF assms(1)] assms(3)
proof (induction x rule: wf_induct_rule)
  case (less x)
  have id: "e_id (ent w x) = e_id (ent w a) \<longleftrightarrow> x = a"
    using entry_okD(10) [OF assms(1)] assms(2) less.prems by (auto simp: live_def)
  have step: "(a, x) \<in> (parent_rel b w)\<^sup>* \<longleftrightarrow> a = x \<or> (\<exists>p. e_parent (ent w x) = Some p \<and> (a, p) \<in> (parent_rel b w)\<^sup>*)"
    using parent_rel_iff [OF less.prems] by (metis rtrancl.simps)
  show ?case
  proof (cases "e_parent (ent w x)")
    case None
    then show ?thesis using id step by (subst meets.simps) (auto simp: meets.simps)
  next
    case (Some p)
    have "meets w (e_id (ent w a)) (Some p) = Some ((a, p) \<in> (parent_rel b w)\<^sup>*)"
      using Some less.IH [of p] parent_rel_iff [OF less.prems] entry_okD(1) [OF assms(1) less.prems] by simp
    then show ?thesis using Some id step by (subst meets.simps) auto
  qed
qed

lemma isDescendantOf_ancestor:
  assumes "tree_ok b w" "live b w a" "live b w x"
  shows "isDescendantOf w x a = Some ((a, x) \<in> (parent_rel b w)\<^sup>+)"
proof -
  have step: "(a, x) \<in> (parent_rel b w)\<^sup>+ \<longleftrightarrow> (\<exists>p. e_parent (ent w x) = Some p \<and> (a, p) \<in> (parent_rel b w)\<^sup>*)"
    using parent_rel_iff [OF assms(3)] by (metis rtrancl_into_trancl1 tranclD2)
  show ?thesis
  proof (cases "e_parent (ent w x)")
    case None
    then show ?thesis using step by (simp add: isDescendantOf_def meets.simps)
  next
    case (Some p)
    then have "live b w p" using entry_okD(1) [OF assms(1,3)] by simp
    from meets_ancestor [OF assms(1,2) this] Some step show ?thesis by (simp add: isDescendantOf_def)
  qed
qed

section \<open>New entries\<close>

text \<open>The heap after \<open>init\<close> under a directory.\<close>

lemma entry_init_eq:
  assumes "tree_ok b w" "live b w p" "e_directory (ent w p)"
  shows "entry_init (Some n) v dir (Some p) w =
    (if child_named w p (Some n) \<noteq> None then (Inl (Thrown ''Entry filename already exists.''), w)
     else (Inr (length (heap w)), adopt (Some p) (length (heap w))
       (w\<lparr>heap := heap w @ [\<lparr>e_name = Some n, e_id = length (fs_entries w), e_parent = Some p, e_children = [],
            e_zipVersion = version_or v, e_size = 0, e_directory = dir, e_Reader = None, e_Writer = None,
            e_data = None, e_reader = None\<rparr>], fs_entries := fs_entries w @ [Some (length (heap w))]\<rparr>)))"
  using assms by (simp add: entry_init_def name_used_def getChildByName_def tree_ok_def Let_def split: option.split)

lemma child_named_None: "child_named w p n = None \<longleftrightarrow> (\<forall>c \<in> set (e_children (ent w p)). e_name (ent w c) \<noteq> n)"
  by (auto simp: child_named_def find_None_iff)

lemma tree_ok_new:
  assumes ok: "tree_ok b w" and p: "live b w p" "e_directory (ent w p)" and free: "child_named w p (Some n) = None"
    and new: "e_name e = Some n" "e_id e = length (fs_entries w)" "e_parent e = Some p" "e_children e = []"
  shows "tree_ok b (adopt (Some p) (length (heap w)) (w\<lparr>heap := heap w @ [e], fs_entries := fs_entries w @ [Some (length (heap w))]\<rparr>))"
    (is "tree_ok b ?w")
proof -
  let ?a = "length (heap w)"
  have b: "b \<le> p" "p < ?a" using p by (auto simp: live_def)
  have ent: "ent ?w x = (if x = ?a then e else if x = p then (ent w p)\<lparr>e_children := e_children (ent w p) @ [?a]\<rparr> else ent w x)"
    if "x \<le> ?a" for x
    using that b by (auto simp: adopt_def set_ent_def ent_def nth_append nth_list_update)
  have len: "length (heap ?w) = Suc ?a" by (simp add: adopt_def)
  have live: "live b ?w x \<longleftrightarrow> live b w x \<or> x = ?a" for x using b by (auto simp: live_def len)
  have old: "ent ?w x = (if x = p then (ent w p)\<lparr>e_children := e_children (ent w p) @ [?a]\<rparr> else ent w x)"
    if "live b w x" for x using that ent [of x] by (auto simp: live_def)
  have name: "e_name (ent ?w x) = e_name (ent w x)" and par: "e_parent (ent ?w x) = e_parent (ent w x)"
    and dirr: "e_directory (ent ?w x) = e_directory (ent w x)" if "live b w x" for x using old [OF that] by auto
  have fresh: "ent ?w ?a = e" using ent [of ?a] by simp
  have rel: "parent_rel b ?w = insert (p, ?a) (parent_rel b w)"
    using new(3) by (auto simp: parent_rel_def live par fresh)
  have "\<not> (?a, p) \<in> (parent_rel b w)\<^sup>*"
  proof
    assume "(?a, p) \<in> (parent_rel b w)\<^sup>*"
    then show False
      by (rule converse_rtranclE) (use b parent_rel_live(1) [OF ok] in \<open>auto simp: live_def\<close>)
  qed
  then have ac: "acyclic (parent_rel b ?w)" using ok by (simp add: rel tree_ok_def acyclic_insert)
  have "entry_ok b ?w x" if lx: "live b w x" for x
  proof -
    note D = entry_okD [OF ok lx]
    have kids: "e_children (ent ?w x) = (if x = p then e_children (ent w p) @ [?a] else e_children (ent w x))"
      using old [OF lx] by simp
    have names: "map (\<lambda>c. e_name (ent ?w c)) (e_children (ent ?w x)) =
        map (\<lambda>c. e_name (ent w c)) (e_children (ent w x)) @ (if x = p then [Some n] else [])"
      using D(3) name new(1) by (auto simp: kids fresh)
    have "\<forall>c \<in> set (e_children (ent ?w x)). live b ?w c \<and> e_parent (ent ?w c) = Some x"
      using D(3,4) new(3) by (auto simp: kids live par fresh split: if_splits)
    moreover have "distinct (map (\<lambda>c. e_name (ent ?w c)) (e_children (ent ?w x)))"
      unfolding names using D(5) free by (auto simp: child_named_None)
    moreover have "e_id (ent ?w x) = x - b" using D(10) old [OF lx] by (auto split: if_splits)
    moreover have "\<forall>q. e_parent (ent ?w x) = Some q \<longrightarrow> live b ?w q \<and> e_directory (ent ?w q)"
      using D(1,2) by (simp add: par [OF lx] live dirr)
    moreover have "e_children (ent ?w x) \<noteq> [] \<longrightarrow> e_directory (ent ?w x)"
      using D(7) p(2) by (simp add: kids dirr [OF lx])
    ultimately show ?thesis
      using D(8,9) unfolding entry_ok_def name [OF lx] par [OF lx] by blast
  qed
  moreover have "entry_ok b ?w ?a"
  proof -
    have "length (fs_entries w) = ?a - b" using ok unfolding tree_ok_def table_ok_def by blast
    then show ?thesis using b p new by (auto simp: entry_ok_def fresh live dirr)
  qed
  moreover have "table_ok b ?w"
    using ok b unfolding tree_ok_def table_ok_def by (auto simp: len adopt_def nth_append less_Suc_eq)
  moreover have "e_directory (ent ?w b)" using dirr [OF live_root [OF ok]] ok by (simp add: tree_ok_def)
  ultimately show ?thesis
    using ok ac live [of b] unfolding tree_ok_def live by (auto simp: adopt_def)
qed


text \<open>
  What every constructor under a directory does: nothing but an exception if the name is used,
  otherwise a new last child.
\<close>

definition same_shape :: "'r zfs \<Rightarrow> 'r zfs \<Rightarrow> bool" where
  "same_shape w w' = (fs_root w' = fs_root w \<and> fs_entries w' = fs_entries w \<and> length (heap w') = length (heap w) \<and>
     (\<forall>x. skeleton (ent w' x) = skeleton (ent w x)))"

lemma same_shape_tree_ok: "same_shape w w' \<Longrightarrow> tree_ok b w' = tree_ok b w"
  by (rule tree_ok_cong) (simp_all add: same_shape_def)

lemma same_shape_refl [simp]: "same_shape w w"
  by (simp add: same_shape_def)

lemma same_shape_set_ent: "(\<And>e. skeleton (f e) = skeleton e) \<Longrightarrow> same_shape w (set_ent a f w)"
  by (simp add: same_shape_def ent_set_ent)

lemma tree_ok_init:
  assumes "tree_ok b w" "live b w p" "e_directory (ent w p)"
  shows "tree_ok b (snd (entry_init (Some n) v dir (Some p) w))"
  using tree_ok_new [OF assms] assms unfolding entry_init_eq [OF assms]
  by (auto simp: tree_ok_def table_ok_def)

lemma tree_ok_ZipFileEntry:
  assumes "tree_ok b w" "live b w p" "e_directory (ent w p)"
  shows "tree_ok b (snd (ZipFileEntry (Some n) params (Some p) w))"
  using tree_ok_init [OF assms, of n "case params of None \<Rightarrow> None | Some p \<Rightarrow> p_zipVersion p" False]
  by (auto simp: ZipFileEntry_def cbind_def skeleton_def tree_ok_set_ent split: prod.splits sum.splits option.splits)

lemma tree_ok_addChild:
  assumes "tree_ok b w" "live b w p"
  shows "tree_ok b (snd (addChild p n params dir w))"
  using assms tree_ok_ZipFileEntry [OF assms] tree_ok_init [OF assms]
  by (simp add: addChild_def ZipDirectoryEntry_def)

section \<open>Moving and removing\<close>

lemma splice_all_one:
  assumes "distinct cs" "\<And>c. c \<in> set cs \<Longrightarrow> P c \<longleftrightarrow> c = a"
  shows "splice_all P cs = remove1 a cs"
proof -
  have none: "splice_all P cs = cs" if "\<forall>c \<in> set cs. \<not> P c" for cs and P :: "nat \<Rightarrow> bool"
    using that by (induction P cs rule: splice_all.induct) auto
  show ?thesis
    using assms
  proof (induction P cs rule: splice_all.induct)
    case (3 P c d cs)
    show ?case
    proof (cases "c = a")
      case True
      then have "splice_all P cs = cs" using "3.prems" by (intro none [of cs]) auto
      then show ?thesis using True "3.prems"(2) [of c] by simp
    next
      case False
      moreover have "splice_all P (d # cs) = remove1 a (d # cs)"
        using False "3.prems" by (intro "3.IH"(2)) auto
      ultimately show ?thesis using "3.prems"(2) [of c] by simp
    qed
  next
    case (2 P c)
    then show ?case by (cases "c = a") auto
  qed simp
qed

lemma detach_eq:
  assumes "tree_ok b w" "live b w a" "a \<noteq> b"
  obtains p where "e_parent (ent w a) = Some p" "live b w p" "e_directory (ent w p)"
    "detach a w = (Inr (), set_ent p (\<lambda>e. e\<lparr>e_children := remove1 a (e_children e)\<rparr>) w)"
proof -
  obtain p where p: "e_parent (ent w a) = Some p" using entry_okD(8) [OF assms(1,2)] assms(3) by auto
  have lp: "live b w p" "e_directory (ent w p)" using entry_okD(1,2) [OF assms(1,2) p] by simp_all
  note D = entry_okD [OF assms(1) lp(1)]
  have "e_id (ent w c) = e_id (ent w a) \<longleftrightarrow> c = a" if "c \<in> set (e_children (ent w p))" for c
    using entry_okD(10) [OF assms(1) D(3) [OF that]] entry_okD(10) [OF assms(1,2)] D(3) [OF that] assms(2)
    by (auto simp: live_def)
  then have sp: "splice_all (\<lambda>c. e_id (ent w c) = e_id (ent w a)) (e_children (ent w p)) = remove1 a (e_children (ent w p))"
    using D(6) by (intro splice_all_one)
  have "p < length (heap w)" using lp by (simp add: live_def)
  then have "detach a w = (Inr (), set_ent p (\<lambda>e. e\<lparr>e_children := remove1 a (e_children e)\<rparr>) w)"
    using p sp by (simp add: detach_def set_ent_def ent_def)
  with p lp that show thesis by blast
qed

lemma tree_ok_shrink:
  assumes "tree_ok b w" "live b w p"
  shows "tree_ok b (set_ent p (\<lambda>e. e\<lparr>e_children := remove1 a (e_children e)\<rparr>) w)" (is "tree_ok b ?w")
proof -
  have ent: "ent ?w x = (if x = p then (ent w p)\<lparr>e_children := remove1 a (e_children (ent w p))\<rparr> else ent w x)" for x
    using assms(2) by (simp add: ent_set_ent live_def)
  have live: "live b ?w = live b w" by (simp add: live_def fun_eq_iff)
  have rest: "e_name (ent ?w x) = e_name (ent w x)" "e_parent (ent ?w x) = e_parent (ent w x)"
    "e_directory (ent ?w x) = e_directory (ent w x)" "e_id (ent ?w x) = e_id (ent w x)"
    "set (e_children (ent ?w x)) \<subseteq> set (e_children (ent w x))" for x
    using set_remove1_subset [of a "e_children (ent w p)"] by (auto simp: ent simp del: set_remove1_eq)
  have "entry_ok b ?w x" if "live b w x" for x
  proof -
    note D = entry_okD [OF assms(1) that]
    have "distinct (map (\<lambda>c. e_name (ent ?w c)) (e_children (ent ?w x)))"
      using D(5) unfolding rest by (auto simp: ent distinct_map intro: inj_on_subset [OF _ set_remove1_subset])
    moreover have "\<forall>c \<in> set (e_children (ent ?w x)). live b ?w c \<and> e_parent (ent ?w c) = Some x"
      using D(3,4) rest(5) [of x] unfolding live rest(2) by blast
    moreover have "e_children (ent ?w x) \<noteq> [] \<longrightarrow> e_directory (ent ?w x)"
      using D(7) rest(5) [of x] unfolding rest(3) by (cases "e_children (ent w x) = []") simp_all
    ultimately show ?thesis using D(1,2,8-10) unfolding entry_ok_def live rest(1-4) by simp
  qed
  moreover have "parent_rel b ?w = parent_rel b w" unfolding parent_rel_def live rest(2) ..
  ultimately show ?thesis
    using assms(1) unfolding tree_ok_def table_ok_def live rest(3) by simp
qed

lemma tree_ok_remove:
  assumes "tree_ok b w" "live b w a" "a \<noteq> b"
  shows "tree_ok b (snd (remove a w))" "fst (remove a w) = Inr ()"
proof -
  obtain p where p: "live b w p" "detach a w = (Inr (), set_ent p (\<lambda>e. e\<lparr>e_children := remove1 a (e_children e)\<rparr>) w)"
    by (rule detach_eq [OF assms]) (rule that)
  let ?w = "set_ent p (\<lambda>e. e\<lparr>e_children := remove1 a (e_children e)\<rparr>) w"
  have ok: "tree_ok b ?w" by (rule tree_ok_shrink [OF assms(1) p(1)])
  have la: "live b ?w a" using assms(2) by (simp add: live_def)
  have id: "e_id (ent ?w a) = a - b" by (rule entry_okD(10) [OF ok la])
  have lt: "a - b < length (fs_entries ?w)" using ok la by (auto simp: tree_ok_def table_ok_def live_def)
  have ent: "ent (?w\<lparr>fs_entries := es\<rparr>) = ent ?w" for es by (simp add: ent_def fun_eq_iff)
  have live: "live b (?w\<lparr>fs_entries := es\<rparr>) = live b ?w" for es by (simp add: live_def fun_eq_iff)
  have rel: "parent_rel b (?w\<lparr>fs_entries := es\<rparr>) = parent_rel b ?w" for es by (simp add: parent_rel_def ent live)
  have eok: "entry_ok b (?w\<lparr>fs_entries := es\<rparr>) = entry_ok b ?w" for es by (simp add: entry_ok_def ent live fun_eq_iff)
  have "table_ok b (?w\<lparr>fs_entries := put_null (e_id (ent ?w a)) (fs_entries ?w)\<rparr>)"
    using ok lt unfolding id tree_ok_def table_ok_def put_null_def by (auto simp: nth_list_update)
  then have "tree_ok b (?w\<lparr>fs_entries := put_null (e_id (ent ?w a)) (fs_entries ?w)\<rparr>)"
    using ok unfolding tree_ok_def ent live rel eok by simp
  then show "tree_ok b (snd (remove a w))" by (simp add: remove_def cbind_def p(2))
  show "fst (remove a w) = Inr ()" by (simp add: remove_def cbind_def p(2))
qed


text \<open>The heap after a move that goes through.\<close>

definition moved :: "nat \<Rightarrow> nat \<Rightarrow> nat \<Rightarrow> 'r zfs \<Rightarrow> 'r zfs" where
  "moved a p target w =
     set_ent target (\<lambda>e. e\<lparr>e_children := e_children e @ [a]\<rparr>)
       (set_ent a (\<lambda>e. e\<lparr>e_parent := Some target\<rparr>)
         (set_ent p (\<lambda>e. e\<lparr>e_children := remove1 a (e_children e)\<rparr>) w))"

lemma tree_ok_moved:
  assumes ok: "tree_ok b w" and a: "live b w a" "a \<noteq> b" "e_parent (ent w a) = Some p"
    and t: "live b w t" "e_directory (ent w t)" "(a, t) \<notin> (parent_rel b w)\<^sup>*"
    and free: "child_named w t (e_name (ent w a)) = None"
  shows "tree_ok b (moved a p t w)" (is "tree_ok b ?w")
proof -
  let ?v = "set_ent p (\<lambda>e. e\<lparr>e_children := remove1 a (e_children e)\<rparr>) w"
  have lp: "live b w p" by (rule entry_okD(1) [OF ok a(1,3)])
  have okv: "tree_ok b ?v" by (rule tree_ok_shrink [OF ok lp])
  have at: "a \<noteq> t" using t(3) by auto
  have entv: "ent ?v x = (if x = p then (ent w p)\<lparr>e_children := remove1 a (e_children (ent w p))\<rparr> else ent w x)" for x
    using lp by (simp add: ent_set_ent live_def)
  have livev: "live b ?v = live b w" by (simp add: live_def fun_eq_iff)
  have live: "live b ?w = live b w" by (simp add: live_def moved_def fun_eq_iff)
  have ent: "ent ?w x = (if x = t then (ent ?v t)\<lparr>e_children := e_children (ent ?v t) @ [a]\<rparr>
      else if x = a then (ent ?v a)\<lparr>e_parent := Some t\<rparr> else ent ?v x)" for x
    using a(1) t(1) at by (simp add: moved_def ent_set_ent live_def)
  have name: "e_name (ent ?w x) = e_name (ent w x)" "e_directory (ent ?w x) = e_directory (ent w x)"
    "e_id (ent ?w x) = e_id (ent w x)" for x by (auto simp: ent entv)
  have par: "e_parent (ent ?w x) = (if x = a then Some t else e_parent (ent w x))" for x using at by (auto simp: ent entv)
  have kids: "e_children (ent ?w x) = e_children (ent ?v x) @ (if x = t then [a] else [])" for x by (auto simp: ent)
  have namev: "e_name (ent ?v x) = e_name (ent w x)" "e_parent (ent ?v x) = e_parent (ent w x)" for x by (auto simp: entv)
  have gone: "a \<notin> set (e_children (ent ?v x))" if "live b w x" for x
  proof
    assume in_v: "a \<in> set (e_children (ent ?v x))"
    then have "e_parent (ent ?v a) = Some x" using entry_okD(4) [OF okv] that livev by simp
    then have "x = p" using a(3) by (simp add: namev)
    then show False using in_v entry_okD(6) [OF ok lp] by (simp add: entv)
  qed
  have sub: "set (e_children (ent ?v x)) \<subseteq> set (e_children (ent w x))" for x
    using set_remove1_subset [of a "e_children (ent w p)"] by (auto simp: entv simp del: set_remove1_eq)
  have free': "\<forall>c \<in> set (e_children (ent ?v t)). e_name (ent w c) \<noteq> e_name (ent w a)"
    using free sub [of t] by (auto simp: child_named_None)
  have "entry_ok b ?w x" if lx: "live b w x" for x
  proof -
    note D = entry_okD [OF okv, unfolded livev namev, OF lx]
    have "\<forall>c \<in> set (e_children (ent ?w x)). live b ?w c \<and> e_parent (ent ?w c) = Some x"
      unfolding kids live using D(3,4) gone [OF lx] a(1) by (auto simp: par)
    moreover have "distinct (map (\<lambda>c. e_name (ent ?w c)) (e_children (ent ?w x)))"
      unfolding kids name using D(5) free' by auto
    moreover have "e_children (ent ?w x) \<noteq> [] \<longrightarrow> e_directory (ent ?w x)"
      unfolding kids name using D(7) t(2) by (auto simp: entv split: if_splits)
    moreover have "\<forall>q. e_parent (ent ?w x) = Some q \<longrightarrow> live b ?w q \<and> e_directory (ent ?w q)"
      unfolding par name live using entry_okD(1,2) [OF ok lx] t by simp
    ultimately show ?thesis
      using entry_okD(8-10) [OF ok lx] a(2) unfolding entry_ok_def name by (simp add: par)
  qed
  moreover have "acyclic (parent_rel b ?w)"
  proof (rule acyclic_subset)
    show "acyclic (insert (t, a) (parent_rel b w))" using ok t(3) by (simp add: acyclic_insert tree_ok_def)
    show "parent_rel b ?w \<subseteq> insert (t, a) (parent_rel b w)"
      unfolding parent_rel_def live par by (auto split: if_splits)
  qed
  moreover have "table_ok b ?w" using ok unfolding tree_ok_def table_ok_def by (simp add: moved_def)
  ultimately show ?thesis
    using ok unfolding tree_ok_def live name by (simp add: moved_def)
qed

lemma root_above:
  assumes ok: "tree_ok b w" and t: "live b w t"
  shows "(b, t) \<in> (parent_rel b w)\<^sup>*"
  using wf_parent_rel [OF ok] t
proof (induction t rule: wf_induct_rule)
  case (less t)
  show ?case
  proof (cases "e_parent (ent w t)")
    case None
    then show ?thesis using entry_okD(8) [OF ok less.prems] by simp
  next
    case (Some q)
    then have "(q, t) \<in> parent_rel b w" using less.prems by (simp add: parent_rel_iff)
    with less.IH [OF this parent_rel_live(1) [OF ok this]] show ?thesis by simp
  qed
qed

text \<open>\<open>moveTo\<close> on entries of the tree: every outcome.\<close>

lemma moveTo_eq:
  assumes ok: "tree_ok b w" and a: "live b w a" and t: "live b w t"
  shows "moveTo a t w = Some
    (if \<not> e_directory (ent w t) then (Inl (Thrown ''Target entry is not a directory.''), w)
     else if (a, t) \<in> (parent_rel b w)\<^sup>+ then (Inl (Thrown ''Entry is a ancestor of target entry.''), w)
     else if a = t then (Inr (), w)
     else if child_named w t (e_name (ent w a)) \<noteq> None then (Inl (Thrown ''Entry filename already exists.''), w)
     else (Inr (), moved a (the (e_parent (ent w a))) t w))"
proof -
  have root: "a = b \<Longrightarrow> a = t \<or> (a, t) \<in> (parent_rel b w)\<^sup>+"
    using root_above [OF ok t] by (auto simp: rtrancl_eq_or_trancl)
  show ?thesis
  proof (cases "a = b")
    case True
    then show ?thesis using root isDescendantOf_ancestor [OF ok a t] by (auto simp: moveTo_def)
  next
    case False
    obtain p where "e_parent (ent w a) = Some p" "detach a w = (Inr (), set_ent p (\<lambda>e. e\<lparr>e_children := remove1 a (e_children e)\<rparr>) w)"
      by (rule detach_eq [OF ok a False]) (rule that)
    then show ?thesis using isDescendantOf_ancestor [OF ok a t] by (simp add: moveTo_def cbind_def moved_def)
  qed
qed

lemma tree_ok_moveTo:
  assumes ok: "tree_ok b w" and a: "live b w a" and t: "live b w t" and m: "moveTo a t w = Some (r, w')"
  shows "tree_ok b w'"
proof (cases "w' = w")
  case False
  then have *: "e_directory (ent w t)" "(a, t) \<notin> (parent_rel b w)\<^sup>+" "a \<noteq> t"
      "child_named w t (e_name (ent w a)) = None" "w' = moved a (the (e_parent (ent w a))) t w"
    using m unfolding moveTo_eq [OF ok a t] by (auto split: if_splits)
  have "a \<noteq> b" using root_above [OF ok t] * by (auto simp: rtrancl_eq_or_trancl)
  moreover obtain p where p: "e_parent (ent w a) = Some p" using entry_okD(8) [OF ok a] calculation by auto
  moreover have "(a, t) \<notin> (parent_rel b w)\<^sup>*" using * by (simp add: rtrancl_eq_or_trancl)
  ultimately show ?thesis unfolding *(5) p option.sel using * ok a t p by (intro tree_ok_moved) simp_all
qed (use ok in simp)

section \<open>Resets and imports\<close>

lemma resetFS_eq:
  "resetFS w = \<lparr>heap = heap w @ [\<lparr>e_name = None, e_id = 0, e_parent = None, e_children = [], e_zipVersion = 0x14,
      e_size = 0, e_directory = True, e_Reader = None, e_Writer = None, e_data = None, e_reader = None\<rparr>],
     fs_entries = [Some (length (heap w))], fs_root = Some (length (heap w)), \<dots> = zfs.more w\<rparr>"
  by (simp add: resetFS_def ZipDirectoryEntry_def entry_init_def name_used_def version_or_def adopt_def Let_def
      split: option.split)

lemma tree_ok_reset: "tree_ok (length (heap w)) (resetFS w)"
proof -
  let ?b = "length (heap w)" and ?w = "resetFS w"
  have live: "live ?b ?w x \<longleftrightarrow> x = ?b" for x by (auto simp: resetFS_eq live_def)
  have ent: "e_parent (ent ?w ?b) = None" "e_name (ent ?w ?b) = None" "e_children (ent ?w ?b) = []"
    "e_directory (ent ?w ?b)" "e_id (ent ?w ?b) = 0" by (simp_all add: resetFS_eq ent_def)
  have "parent_rel ?b ?w = {}" by (auto simp: parent_rel_def live ent)
  moreover have "entry_ok ?b ?w ?b" by (simp add: entry_ok_def ent)
  moreover have "table_ok ?b ?w" by (simp add: table_ok_def resetFS_eq)
  moreover have "fs_root ?w = Some ?b" by (simp add: resetFS_eq)
  ultimately show ?thesis by (simp add: tree_ok_def live ent acyclic_def)
qed

text \<open>Entries are never thrown away, and they keep their names and ids and stay directories or files.\<close>

definition kind_of :: "'r fs_entry \<Rightarrow> jstring option \<times> nat \<times> bool" where
  "kind_of e = (e_name e, e_id e, e_directory e)"

definition extends :: "nat \<Rightarrow> 'r zfs \<Rightarrow> 'r zfs \<Rightarrow> bool" where
  "extends b w w' = (tree_ok b w' \<and> length (heap w) \<le> length (heap w') \<and>
     (\<forall>x. live b w x \<longrightarrow> kind_of (ent w' x) = kind_of (ent w x)))"

lemma extends_live: "extends b w w' \<Longrightarrow> live b w x \<Longrightarrow> live b w' x"
  by (simp add: extends_def live_def)

lemma extends_ok: "extends b w w' \<Longrightarrow> tree_ok b w'"
  by (simp add: extends_def)

lemma extends_refl: "tree_ok b w \<Longrightarrow> extends b w w"
  by (simp add: extends_def)

lemma extends_trans: "extends b w w' \<Longrightarrow> extends b w' w'' \<Longrightarrow> extends b w w''"
  by (auto simp: extends_def live_def)

lemma extends_shape: "tree_ok b w \<Longrightarrow> same_shape w w' \<Longrightarrow> extends b w w'"
  by (simp add: extends_def same_shape_tree_ok) (simp add: same_shape_def skeleton_def kind_of_def)

lemma entry_init_extends:
  assumes "tree_ok b w" "live b w p" "e_directory (ent w p)" "entry_init (Some n) v dir (Some p) w = (r, w')"
  shows "extends b w w'" "r = Inr a \<Longrightarrow> live b w' a \<and> e_directory (ent w' a) = dir"
proof -
  have ok: "tree_ok b w'" using tree_ok_init [OF assms(1-3), of n v dir] assms(4) by simp
  show "extends b w w'" using ok assms(2,4) unfolding entry_init_eq [OF assms(1-3)] extends_def
    by (auto simp: kind_of_def adopt_def set_ent_def ent_def nth_append nth_list_update live_def split: if_splits)
  show "r = Inr a \<Longrightarrow> live b w' a \<and> e_directory (ent w' a) = dir"
    using assms(2,4) unfolding entry_init_eq [OF assms(1-3)]
    by (auto simp: adopt_def set_ent_def ent_def nth_append nth_list_update live_def split: if_splits)
qed

lemma addChild_extends:
  assumes "tree_ok b w" "live b w p" "addChild p n params dir w = (r, w')"
  shows "extends b w w'" "r = Inr a \<Longrightarrow> live b w' a \<and> e_directory (ent w' a) = dir"
proof -
  have new: "extends b w w1 \<and> (\<forall>a. r1 = Inr a \<longrightarrow> live b w1 a \<and> e_directory (ent w1 a) = d)"
    if "e_directory (ent w p)" "entry_init (Some n) v d (Some p) w = (r1, w1)" for v d r1 w1
    using entry_init_extends [OF assms(1,2) that] by blast
  have upd: "extends b w (set_ent a f w1) \<and> live b (set_ent a f w1) a \<and> e_directory (ent (set_ent a f w1) a) = d"
    if "extends b w w1" "live b w1 a" "e_directory (ent w1 a) = d" "\<And>e. skeleton (f e) = skeleton e" for a f w1 d
  proof -
    have "same_shape w1 (set_ent a f w1)" by (rule same_shape_set_ent) (rule that(4))
    then have "extends b w1 (set_ent a f w1)" using that(1) by (intro extends_shape) (simp_all add: extends_def)
    then show ?thesis using that(1-3) extends_trans by (auto simp: extends_def live_def kind_of_def)
  qed
  have "extends b w w' \<and> (\<forall>a. r = Inr a \<longrightarrow> live b w' a \<and> e_directory (ent w' a) = dir)"
  proof (cases "e_directory (ent w p)")
    case True
    show ?thesis
    proof (cases dir)
      case False
      obtain r1 w1 where 1: "entry_init (Some n) (case params of None \<Rightarrow> None | Some p \<Rightarrow> p_zipVersion p) False (Some p) w = (r1, w1)"
        by (cases "entry_init (Some n) (case params of None \<Rightarrow> None | Some p \<Rightarrow> p_zipVersion p) False (Some p) w")
      from new [OF True 1] show ?thesis
        using True False 1 assms(3) upd [of w1]
        by (auto simp: addChild_def ZipFileEntry_def cbind_def skeleton_def split: sum.splits option.splits)
    qed (use True assms(3) new [OF True] in \<open>simp add: addChild_def ZipDirectoryEntry_def\<close>)
  qed (use assms in \<open>auto simp: addChild_def extends_refl\<close>)
  then show "extends b w w'" "r = Inr a \<Longrightarrow> live b w' a \<and> e_directory (ent w' a) = dir" by blast+
qed

lemma child_named_Some:
  "child_named w p n = Some c \<Longrightarrow> c \<in> set (e_children (ent w p)) \<and> e_name (ent w c) = n"
  by (auto simp: child_named_def find_Some_iff)

lemma make_path_extends:
  assumes "tree_ok b w" "live b w p" "make_path p path w = (r, w')"
  shows "extends b w w' \<and> (\<forall>a. r = Inr a \<longrightarrow> live b w' a)"
  using assms
proof (induction path arbitrary: p w)
  case (Cons n path)
  show ?case
  proof (cases "e_directory (ent w p)")
    case False
    then show ?thesis using Cons.prems by (auto simp: getChildByName_def extends_refl)
  next
    case dir: True
    show ?thesis
    proof (cases "child_named w p (Some n)")
      case (Some c)
      then have "live b w c" using child_named_Some entry_okD(3) [OF Cons.prems(1,2)] by blast
      with Cons dir Some show ?thesis by (simp add: getChildByName_def)
    next
      case None
      obtain r1 w1 where 1: "entry_init (Some n) None True (Some p) w = (r1, w1)"
        by (cases "entry_init (Some n) None True (Some p) w")
      note ext = entry_init_extends [OF Cons.prems(1,2) dir 1]
      show ?thesis
      proof (cases r1)
        case (Inl e)
        then show ?thesis using Cons.prems(3) dir None 1 ext by (auto simp: getChildByName_def ZipDirectoryEntry_def cbind_def)
      next
        case (Inr a)
        have "make_path a path w1 = (r, w')"
          using Cons.prems(3) dir None 1 Inr by (simp add: getChildByName_def ZipDirectoryEntry_def cbind_def)
        moreover have "tree_ok b w1" "live b w1 a" using ext Inr by (simp_all add: extends_def)
        ultimately show ?thesis using Cons.IH extends_trans [OF ext(1)] by blast
      qed
    qed
  qed
qed (auto simp: extends_refl)

lemma import_entry_extends:
  assumes "tree_ok b w" "live b w p" "import_entry p e w = (r, w')"
  shows "extends b w w'"
proof -
  obtain r1 w1 where 1: "make_path p (butlast (js_split [47] (filename e))) w = (r1, w1)"
    by (cases "make_path p (butlast (js_split [47] (filename e))) w")
  from make_path_extends [OF assms(1,2) this]
  have ext: "extends b w w1" "\<And>a. r1 = Inr a \<Longrightarrow> live b w1 a" by simp_all
  show ?thesis
  proof (cases r1)
    case (Inr a)
    let ?add = "addChild a (last (js_split [47] (filename e))) (params_of Reader_Zip None (Zipped e)) False w1"
    have "extends b w1 (snd ?add)"
      by (rule addChild_extends(1) [OF _ _ surjective_pairing]) (use ext Inr in \<open>simp_all add: extends_def\<close>)
    then have "extends b w (snd ?add)" by (rule extends_trans [OF ext(1)])
    then show ?thesis using assms(3) 1 ext(1) Inr
      by (auto simp: import_entry_def cbind_def Let_def split: if_splits prod.splits sum.splits)
  qed (use assms(3) 1 ext(1) in \<open>simp add: import_entry_def cbind_def Let_def\<close>)
qed

lemma import_entries_extends:
  assumes "tree_ok b w" "live b w p" "import_entries p es w = (r, w')"
  shows "extends b w w'"
  using assms
proof (induction es arbitrary: w)
  case (Cons e es)
  obtain r1 w1 where 1: "import_entry p e w = (r1, w1)" by (cases "import_entry p e w")
  note ext = import_entry_extends [OF Cons.prems(1,2) 1]
  show ?case
  proof (cases r1)
    case (Inr u)
    then have "import_entries p es w1 = (r, w')" using Cons.prems(3) 1 by (simp add: cbind_def)
    moreover have "tree_ok b w1" "live b w1 p" using ext Cons.prems(2) by (simp_all add: extends_def live_def)
    ultimately show ?thesis using Cons.IH extends_trans [OF ext] by blast
  qed (use Cons.prems(3) 1 ext in \<open>simp add: cbind_def\<close>)
qed (simp add: extends_refl)

lemma extends_set_ent:
  assumes "extends b w w1" "\<And>e. skeleton (f e) = skeleton e"
  shows "extends b w (set_ent a f w1)"
  using assms(1) extends_trans [OF assms(1) extends_shape [OF _ same_shape_set_ent]] assms(2)
  by (auto simp: extends_def)

lemma add_file_children_extends:
  assumes "tree_ok b w" "live b w p" "add_file_children n p fs w = (r, w')"
  shows "extends b w w'"
  using assms
proof (induction n p fs w arbitrary: r w' rule: add_file_children.induct)
  case (2 n p name content rest w)
  show ?case
  proof (cases content)
    case (Some bytes)
    obtain r1 w1 where 1: "addBlob p name bytes w = (r1, w1)" by (cases "addBlob p name bytes w")
    note ext = addChild_extends(1) [OF "2.prems"(1,2) 1 [unfolded addBlob_def]]
    show ?thesis
    proof (cases r1)
      case (Inr a)
      let ?w = "set_ent a (\<lambda>e. e\<lparr>e_size := length bytes\<rparr>) w1"
      have e: "extends b w ?w" by (rule extends_set_ent [OF ext]) (simp add: skeleton_def)
      have "add_file_children n p rest ?w = (r, w')" using "2.prems"(3) Some 1 Inr by simp
      moreover have "tree_ok b ?w" "live b ?w p" using e "2.prems"(2) by (simp_all add: extends_def live_def)
      ultimately show ?thesis using "2.IH" [OF Some 1 [symmetric] Inr] extends_trans [OF e] by blast
    qed (use "2.prems" Some 1 ext in simp)
  qed (use "2.prems" in \<open>simp add: extends_refl\<close>)
next
  case (3 n p name children rest w)
  obtain r1 w1 where 1: "addDirectory p name w = (r1, w1)" by (cases "addDirectory p name w")
  note ext = addChild_extends [OF "3.prems"(1,2) 1 [unfolded addDirectory_def]]
  show ?case
  proof (cases r1)
    case (Inr a)
    obtain r2 w2 where 2: "add_file_children n a (take n children) w1 = (r2, w2)"
      by (cases "add_file_children n a (take n children) w1")
    have "tree_ok b w1" "live b w1 a" using ext Inr by (simp_all add: extends_def)
    from "3.IH"(1) [OF 1 [symmetric] Inr this 2] have e: "extends b w w2" using extends_trans [OF ext(1)] by blast
    show ?thesis
    proof (cases "\<exists>u. r2 = Answer u")
      case True
      then obtain u where u: "r2 = Answer u" by blast
      have "add_file_children n p rest w2 = (r, w')" using "3.prems"(3) 1 Inr 2 u by simp
      moreover have "tree_ok b w2" "live b w2 p" using e "3.prems"(2) by (simp_all add: extends_def live_def)
      ultimately show ?thesis using "3.IH"(2) [OF 1 [symmetric] Inr 2 [symmetric] u] extends_trans [OF e] by blast
    qed (use "3.prems"(3) 1 Inr 2 e in \<open>auto split: answer.splits\<close>)
  qed (use "3.prems"(3) 1 ext in simp)
qed (simp add: extends_refl)

lemma addFileEntry_extends:
  assumes "tree_ok b w" "live b w p" "addFileEntry n p f w = (r, w')"
  shows "extends b w w'"
  using assms add_file_children_extends [OF assms(1,2)] addChild_extends(1) [OF assms(1,2)]
  by (auto simp: addFileEntry_def addBlob_def extends_refl split: file_entry.splits option.splits prod.splits sum.splits)


section \<open>initReaders\<close>

lemma open_child_shape: "same_shape w (snd (open_child new_reader rinit a w))"
  by (auto simp: open_child_def skeleton_def intro!: same_shape_set_ent split: option.splits prod.splits io.splits)

lemma same_shape_trans: "same_shape w w' \<Longrightarrow> same_shape w' w'' \<Longrightarrow> same_shape w w''"
  by (simp add: same_shape_def)

lemma init_readers_shape:
  assumes "init_readers new_reader rinit todo w = Some r"
  shows "same_shape w (snd r)"
proof (rule init_readers.raw_induct [where P = "\<lambda>new_reader rinit todo w r. same_shape w (snd r)", OF _ assms])
  fix f :: "(reader_class \<Rightarrow> fs_data option \<Rightarrow> 'r) \<Rightarrow> ('r \<Rightarrow> nat io \<times> 'r) \<Rightarrow> nat list \<Rightarrow> 'r zfs \<Rightarrow> (unit answer \<times> 'r zfs) option"
  fix new_reader rinit todo w r
  assume 1: "\<And>new_reader rinit todo w r. f new_reader rinit todo w = Some r \<Longrightarrow> same_shape w (snd r)"
    "(case todo of [] \<Rightarrow> Some (Answer (), w)
      | a # rest \<Rightarrow>
          if e_directory (ent w a) then f new_reader rinit (e_children (ent w a) @ rest) w
          else (case open_child new_reader rinit a w of
               (Answer u, w') \<Rightarrow> f new_reader rinit rest w'
             | (Reports, w') \<Rightarrow> Some (Reports, w')
             | (Silent, w') \<Rightarrow> Some (Silent, w')
             | (Throws e, w') \<Rightarrow> Some (Throws e, w'))) = Some r"
  show "same_shape w (snd r)"
  proof (cases todo)
    case (Cons a rest)
    have opened: "same_shape w (snd (open_child new_reader rinit a w))" by (rule open_child_shape)
    show ?thesis
    proof (cases "e_directory (ent w a)")
      case True
      then show ?thesis using 1 Cons by simp
    next
      case False
      obtain x w1 where 2: "open_child new_reader rinit a w = (x, w1)" by (cases "open_child new_reader rinit a w")
      have sh: "same_shape w w1" using opened 2 by simp
      show ?thesis
      proof (cases x)
        case (Answer u)
        then have "f new_reader rinit rest w1 = Some r" using 1(2) Cons False 2 by simp
        from 1(1) [OF this] show ?thesis by (rule same_shape_trans [OF sh])
      qed (use 1(2) Cons False 2 sh in auto)
    qed
  qed (use 1(2) in auto)
qed

section \<open>Every operation keeps the tree\<close>

text \<open>
  A call of the interface on entries made since the last reset; the state is that after the call, also
  when it throws.
\<close>

inductive fs_step :: "nat \<Rightarrow> 'r zfs \<Rightarrow> 'r zfs \<Rightarrow> bool" where
  add_directory: "live b w p \<Longrightarrow> fs_step b w (snd (addDirectory p n w))"
| add_data: "live b w p \<Longrightarrow> fs_step b w (snd (addData p n params w))"
| add_files: "live b w p \<Longrightarrow> fs_step b w (snd (addFileEntry batch p f w))"
| move: "live b w a \<Longrightarrow> live b w t \<Longrightarrow> moveTo a t w = Some (r, w') \<Longrightarrow> fs_step b w w'"
| removal: "live b w a \<Longrightarrow> fs_step b w (snd (remove a w))"
| importing: "live b w p \<Longrightarrow> fs_step b w (snd (import_entries p es w))"
| readers: "initReaders new_reader rinit a w = Some (r, w') \<Longrightarrow> fs_step b w w'"

lemma fs_step_tree_ok: "fs_step b w w' \<Longrightarrow> tree_ok b w \<Longrightarrow> tree_ok b w'"
proof (induction rule: fs_step.induct)
  case (add_directory b w p n)
  then show ?case by (simp add: addDirectory_def tree_ok_addChild)
next
  case (add_data b w p n params)
  then show ?case by (simp add: addData_def tree_ok_addChild)
next
  case (add_files b w p batch f)
  then show ?case by (intro extends_ok [OF addFileEntry_extends [OF _ _ surjective_pairing]])
next
  case (move b w a t r w')
  then show ?case using tree_ok_moveTo by blast
next
  case (removal b w a)
  show ?case
  proof (cases "a = b")
    case True
    then have "detach a w = (Inl TypeError, w)" using entry_okD(8) [OF removal.prems removal.hyps] by (simp add: detach_def)
    then show ?thesis using removal.prems by (simp add: remove_def cbind_def)
  qed (use removal tree_ok_remove in blast)
next
  case (importing b w p es)
  then show ?case by (intro extends_ok [OF import_entries_extends [OF _ _ surjective_pairing]])
next
  case (readers new_reader rinit a w r w' b)
  then have "same_shape w w'" using init_readers_shape unfolding initReaders_def by fastforce
  then show ?case using readers.prems by (simp add: same_shape_tree_ok)
qed

text \<open>Entries stay, with their names, ids and kinds.\<close>

lemma moved_kind: "kind_of (ent (moved a p t w) x) = kind_of (ent w x)"
  by (simp add: moved_def ent_set_ent kind_of_def)

lemma fs_step_extends:
  assumes "fs_step b w w'" "tree_ok b w"
  shows "extends b w w'"
proof -
  have ok: "tree_ok b w'" by (rule fs_step_tree_ok [OF assms])
  show ?thesis
    using assms
  proof (induction rule: fs_step.induct)
    case (add_directory b w p n)
    then show ?case unfolding addDirectory_def by (intro addChild_extends(1) [OF _ _ surjective_pairing])
  next
    case (add_data b w p n params)
    then show ?case unfolding addData_def by (intro addChild_extends(1) [OF _ _ surjective_pairing])
  next
    case (add_files b w p batch f)
    then show ?case by (intro addFileEntry_extends [OF _ _ surjective_pairing])
  next
    case (move b w a t r w')
    have "w' = w \<or> w' = moved a (the (e_parent (ent w a))) t w"
      using move.hyps(3) unfolding moveTo_eq [OF move.prems move.hyps(1,2)] by (auto split: if_splits)
    then show ?case using tree_ok_moveTo [OF move.prems move.hyps] moved_kind
      by (auto simp: extends_def) (auto simp: moved_def)
  next
    case (removal b w a)
    have "length (heap (snd (remove a w))) = length (heap w) \<and> kind_of (ent (snd (remove a w)) x) = kind_of (ent w x)" for x
      by (auto simp: remove_def cbind_def detach_def ent_set_ent ent_entries kind_of_def split: option.splits)
    moreover have "tree_ok b (snd (remove a w))" by (rule fs_step_tree_ok [OF fs_step.removal [OF removal.hyps] removal.prems])
    ultimately show ?case by (simp add: extends_def)
  next
    case (importing b w p es)
    then show ?case by (intro import_entries_extends [OF _ _ surjective_pairing])
  next
    case (readers new_reader rinit a w r w' b)
    then show ?case using init_readers_shape unfolding initReaders_def by (fastforce intro: extends_shape)
  qed
qed

lemma fs_steps_extends: "(fs_step b)\<^sup>*\<^sup>* w w' \<Longrightarrow> tree_ok b w \<Longrightarrow> extends b w w'"
  by (induction rule: rtranclp_induct) (auto intro: extends_refl extends_trans fs_step_extends extends_ok)

lemma fs_steps_tree_ok: "(fs_step b)\<^sup>*\<^sup>* w w' \<Longrightarrow> tree_ok b w \<Longrightarrow> tree_ok b w'"
  by (induction rule: rtranclp_induct) (auto intro: fs_step_tree_ok)

section \<open>The subtree of an entry\<close>

definition child_rel :: "'r zfs \<Rightarrow> (nat \<times> nat) set" where
  "child_rel w = {(p, c). c \<in> set (e_children (ent w p))}"

definition subtree :: "'r zfs \<Rightarrow> nat \<Rightarrow> nat set" where
  "subtree w a = {x. (a, x) \<in> (child_rel w)\<^sup>*}"

lemma subtree_unfold: "subtree w a = insert a (\<Union>c \<in> set (e_children (ent w a)). subtree w c)"
proof -
  have "(a, x) \<in> (child_rel w)\<^sup>* \<longleftrightarrow> x = a \<or> (\<exists>c \<in> set (e_children (ent w a)). (c, x) \<in> (child_rel w)\<^sup>*)" for x
    by (auto simp: child_rel_def elim: converse_rtranclE intro: converse_rtrancl_into_rtrancl)
  then show ?thesis by (auto simp: subtree_def)
qed

lemma subtree_live:
  assumes ok: "tree_ok b w" and a: "live b w a" and x: "x \<in> subtree w a"
  shows "live b w x"
proof -
  have "(a, x) \<in> (child_rel w)\<^sup>*" using x by (simp add: subtree_def)
  then show ?thesis
    by (induction rule: rtrancl_induct) (use a entry_okD(3) [OF ok] in \<open>auto simp: child_rel_def\<close>)
qed

lemma child_parent:
  assumes ok: "tree_ok b w" and a: "live b w a" and x: "(a, x) \<in> (child_rel w)\<^sup>*"
  shows "(a, x) \<in> (parent_rel b w)\<^sup>*"
  using x
proof (induction rule: rtrancl_induct)
  case (step y z)
  then have "live b w y" using subtree_live [OF ok a] by (simp add: subtree_def)
  with step(2) entry_okD(3,4) [OF ok] have "(y, z) \<in> parent_rel b w" by (auto simp: child_rel_def parent_rel_def)
  with step.IH show ?case by simp
qed simp

lemma above_sibling:
  assumes ok: "tree_ok b w" and a: "live b w a" and c: "c \<in> set (e_children (ent w a))" "d \<in> set (e_children (ent w a))"
    and above: "(c, d) \<in> (parent_rel b w)\<^sup>+"
  shows "(a, a) \<in> (parent_rel b w)\<^sup>+"
proof -
  note D = entry_okD [OF ok a]
  obtain p where p: "(c, p) \<in> (parent_rel b w)\<^sup>*" "(p, d) \<in> parent_rel b w" using tranclD2 [OF above] by blast
  then have "p = a" using D(4) [OF c(2)] by (simp add: parent_rel_def)
  moreover have "(a, c) \<in> parent_rel b w" using D(3,4) [OF c(1)] by (simp add: parent_rel_def)
  ultimately show ?thesis using p(1) by (meson rtrancl_into_trancl2)
qed

lemma subtrees_disjoint:
  assumes ok: "tree_ok b w" and a: "live b w a" and c: "c \<in> set (e_children (ent w a))" "d \<in> set (e_children (ent w a))" "c \<noteq> d"
  shows "subtree w c \<inter> subtree w d = {}"
proof (rule ccontr)
  assume "subtree w c \<inter> subtree w d \<noteq> {}"
  then obtain x where x: "(c, x) \<in> (child_rel w)\<^sup>*" "(d, x) \<in> (child_rel w)\<^sup>*" by (auto simp: subtree_def)
  have live: "live b w c" "live b w d" using entry_okD(3) [OF ok a] c by blast+
  have r: "(c, x) \<in> (parent_rel b w)\<^sup>*" "(d, x) \<in> (parent_rel b w)\<^sup>*" using child_parent [OF ok] live x by blast+
  have "single_valued ((parent_rel b w)\<inverse>)" by (auto simp: single_valued_def parent_rel_def)
  moreover have "(x, c) \<in> ((parent_rel b w)\<inverse>)\<^sup>*" "(x, d) \<in> ((parent_rel b w)\<inverse>)\<^sup>*" using r by (simp_all add: rtrancl_converse)
  ultimately have "(c, d) \<in> ((parent_rel b w)\<inverse>)\<^sup>* \<or> (d, c) \<in> ((parent_rel b w)\<inverse>)\<^sup>*" by (rule single_valued_confluent)
  then have "(d, c) \<in> (parent_rel b w)\<^sup>+ \<or> (c, d) \<in> (parent_rel b w)\<^sup>+"
    using c(3) by (auto simp: rtrancl_converse rtrancl_eq_or_trancl)
  then have "(a, a) \<in> (parent_rel b w)\<^sup>+"
    using above_sibling [OF ok a c(1,2)] above_sibling [OF ok a c(2,1)] by blast
  then show False using ok by (simp add: tree_ok_def acyclic_def)
qed

end
