(* ===== verification/Zip_Tree_Props.thy ===== *)
theory Zip_Tree_Props
  imports Zip_Tree
begin

text \<open>
  What the tree of \<^verbatim>\<open>html/lib/zip-fs.js\<close> guarantees: sums over subtrees, the ends of the loops, paths from
  the root and full names, and the properties of the interface.
\<close>

section \<open>getTotalSize\<close>

lemma wf_children: "tree_ok b w \<Longrightarrow> wf ((parent_rel b w)\<inverse>)"
proof -
  assume ok: "tree_ok b w"
  have "parent_rel b w \<subseteq> {..<length (heap w)} \<times> {..<length (heap w)}"
    using parent_rel_live [OF ok] by (fastforce simp: live_def)
  then have "finite (parent_rel b w)" by (rule finite_subset) simp
  with ok show ?thesis by (simp add: tree_ok_def finite_acyclic_wf_converse)
qed

lemma child_below: "tree_ok b w \<Longrightarrow> live b w a \<Longrightarrow> c \<in> set (e_children (ent w a)) \<Longrightarrow> (c, a) \<in> (parent_rel b w)\<inverse>"
  using entry_okD(3,4) by (fastforce simp: parent_rel_def)

lemma subtree_finite: "tree_ok b w \<Longrightarrow> live b w a \<Longrightarrow> finite (subtree w a)"
  by (rule finite_subset [of _ "{..<length (heap w)}"]) (auto dest: subtree_live simp: live_def)

lemma self_not_below:
  assumes "tree_ok b w" "live b w a" "c \<in> set (e_children (ent w a))"
  shows "a \<notin> subtree w c"
proof
  assume "a \<in> subtree w c"
  then have "(c, a) \<in> (parent_rel b w)\<^sup>*" using assms entry_okD(3) child_parent by (fastforce simp: subtree_def)
  moreover have "(a, c) \<in> parent_rel b w" using child_below [OF assms] by simp
  ultimately have "(a, a) \<in> (parent_rel b w)\<^sup>+" by (rule rtrancl_into_trancl2 [rotated])
  then show False using assms(1) by (simp add: tree_ok_def acyclic_def)
qed

abbreviation size_below :: "'r zfs \<Rightarrow> nat set \<Rightarrow> nat" where
  "size_below w A \<equiv> (\<Sum>x \<in> A. e_size (ent w x))"

lemma total_size_subtree:
  assumes ok: "tree_ok b w" and "live b w a"
  shows "total_size w (a # rest) n = total_size w rest (n + size_below w (subtree w a))"
  using wf_children [OF ok] assms(2)
proof (induction a arbitrary: rest n rule: wf_induct_rule)
  case (less a)
  note D = entry_okD [OF ok less.prems]
  have "total_size w (cs @ rest) m = total_size w rest (m + size_below w (\<Union>c \<in> set cs. subtree w c))"
    if "set cs \<subseteq> set (e_children (ent w a))" "distinct cs" for cs m
    using that
  proof (induction cs arbitrary: m)
    case (Cons c cs)
    have c: "c \<in> set (e_children (ent w a))" and live: "\<And>d. d \<in> set (c # cs) \<Longrightarrow> live b w d" using Cons.prems D(3) by auto
    have "subtree w c \<inter> (\<Union>d \<in> set cs. subtree w d) = {}"
      using subtrees_disjoint [OF ok less.prems c] Cons.prems by fastforce
    then have "size_below w (\<Union>d \<in> set (c # cs). subtree w d) = size_below w (subtree w c) + size_below w (\<Union>d \<in> set cs. subtree w d)"
      using live subtree_finite [OF ok] by (simp add: sum.union_disjoint)
    moreover have "total_size w (c # cs @ rest) m = total_size w (cs @ rest) (m + size_below w (subtree w c))"
      using less.IH [OF child_below [OF ok less.prems c]] live by simp
    ultimately show ?case using Cons by (simp add: add.assoc)
  qed simp
  from this [OF subset_refl D(6)] 
  have "total_size w (a # rest) n = total_size w rest (n + e_size (ent w a) + size_below w (\<Union>c \<in> set (e_children (ent w a)). subtree w c))"
    by (subst total_size.simps) simp
  moreover have "size_below w (subtree w a) = e_size (ent w a) + size_below w (\<Union>c \<in> set (e_children (ent w a)). subtree w c)"
    unfolding subtree_unfold [of w a] using self_not_below [OF ok less.prems] D(3) subtree_finite [OF ok]
    by (subst sum.insert) auto
  ultimately show ?case by (simp add: add.assoc)
qed

lemma getTotalSize_subtree: "tree_ok b w \<Longrightarrow> live b w a \<Longrightarrow> getTotalSize w a = Some (size_below w (subtree w a))"
  by (simp add: getTotalSize_def total_size_subtree) (simp add: total_size.simps)

section \<open>The other loops end\<close>

lemma full_name_ends:
  assumes ok: "tree_ok b w" and "live b w a"
  shows "full_name w acc (Some a) \<noteq> None"
  using wf_parent_rel [OF ok] assms(2)
proof (induction a arbitrary: acc rule: wf_induct_rule)
  case (less a)
  show ?case
  proof (cases "e_parent (ent w a)")
    case None
    then show ?thesis by (subst full_name.simps) (simp add: full_name.simps)
  next
    case (Some p)
    then have "full_name w acc' (Some p) \<noteq> None" for acc'
      using less.IH [of p] parent_rel_iff [OF less.prems] entry_okD(1) [OF ok less.prems] by simp
    then show ?thesis using Some by (subst full_name.simps) simp
  qed
qed

lemma getFullname_ends: "tree_ok b w \<Longrightarrow> live b w a \<Longrightarrow> getFullname w a \<noteq> None"
  using full_name_ends entry_okD(1) by (fastforce simp: getFullname_def split: option.splits)

text \<open>\<open>init_readers\<close> gets past every list of entries or is over.\<close>

definition gets_past :: "(reader_class \<Rightarrow> fs_data option \<Rightarrow> 'r) \<Rightarrow> ('r \<Rightarrow> nat io \<times> 'r) \<Rightarrow> 'r zfs \<Rightarrow> nat list \<Rightarrow> bool" where
  "gets_past new_reader rinit w cs =
     (\<forall>w1 rest. same_shape w w1 \<longrightarrow> (\<exists>w2. same_shape w w2 \<and>
        (init_readers new_reader rinit (cs @ rest) w1 = init_readers new_reader rinit rest w2 \<or>
         (\<exists>x. init_readers new_reader rinit (cs @ rest) w1 = Some (x, w2)))))"

lemma gets_past_append:
  assumes "gets_past new_reader rinit w cs" "gets_past new_reader rinit w ds"
  shows "gets_past new_reader rinit w (cs @ ds)"
  unfolding gets_past_def
proof (intro allI impI)
  fix w1 rest
  assume "same_shape w w1"
  then obtain w2 where 2: "same_shape w w2"
    "init_readers new_reader rinit (cs @ ds @ rest) w1 = init_readers new_reader rinit (ds @ rest) w2 \<or>
     (\<exists>x. init_readers new_reader rinit (cs @ ds @ rest) w1 = Some (x, w2))"
    using assms(1) unfolding gets_past_def by blast
  obtain w3 where 3: "same_shape w w3"
    "init_readers new_reader rinit (ds @ rest) w2 = init_readers new_reader rinit rest w3 \<or>
     (\<exists>x. init_readers new_reader rinit (ds @ rest) w2 = Some (x, w3))"
    using assms(2) 2(1) unfolding gets_past_def by blast
  show "\<exists>w2. same_shape w w2 \<and>
        (init_readers new_reader rinit ((cs @ ds) @ rest) w1 = init_readers new_reader rinit rest w2 \<or>
         (\<exists>x. init_readers new_reader rinit ((cs @ ds) @ rest) w1 = Some (x, w2)))"
    using 2 3 by (metis append_assoc)
qed

lemma gets_past_entry:
  assumes ok: "tree_ok b w" and "live b w a"
  shows "gets_past new_reader rinit w [a]"
  using wf_children [OF ok] assms(2)
proof (induction a rule: wf_induct_rule)
  case (less a)
  have kids: "gets_past new_reader rinit w cs" if "set cs \<subseteq> set (e_children (ent w a))" for cs
    using that
  proof (induction cs)
    case (Cons c cs)
    then have "gets_past new_reader rinit w [c]"
      using less.IH [OF child_below [OF ok less.prems]] entry_okD(3) [OF ok less.prems] by simp
    with Cons show ?case using gets_past_append [of new_reader rinit w "[c]" cs] by simp
  qed (auto simp: gets_past_def)
  show ?case
    unfolding gets_past_def
  proof (intro allI impI)
    fix w1 rest
    assume sh: "same_shape w w1"
    then have same: "e_children (ent w1 a) = e_children (ent w a)" by (simp add: same_shape_def skeleton_def)
    obtain x w2 where 1: "open_child new_reader rinit a w1 = (x, w2)" by (cases "open_child new_reader rinit a w1")
    have sh2: "same_shape w w2" using same_shape_trans [OF sh open_child_shape [of w1 new_reader rinit a]] 1 by simp
    show "\<exists>w2. same_shape w w2 \<and>
        (init_readers new_reader rinit ([a] @ rest) w1 = init_readers new_reader rinit rest w2 \<or>
         (\<exists>x. init_readers new_reader rinit ([a] @ rest) w1 = Some (x, w2)))"
    proof (cases "e_directory (ent w1 a)")
      case True
      then have "init_readers new_reader rinit ([a] @ rest) w1 = init_readers new_reader rinit (e_children (ent w a) @ rest) w1"
        using same by (subst init_readers.simps) simp
      then show ?thesis using kids [OF subset_refl] sh unfolding gets_past_def by metis
    next
      case False
      then have "init_readers new_reader rinit ([a] @ rest) w1 =
          (case x of Answer u \<Rightarrow> init_readers new_reader rinit rest w2 | _ \<Rightarrow> Some (x, w2))"
        using 1 by (subst init_readers.simps) (auto split: answer.splits)
      then show ?thesis using sh2 by (cases x) auto
    qed
  qed
qed

lemma initReaders_ends:
  assumes ok: "tree_ok b w" and a: "live b w a"
  shows "initReaders new_reader rinit a w \<noteq> None"
proof -
  have "gets_past new_reader rinit w cs" if "set cs \<subseteq> set (e_children (ent w a))" for cs
    using that
  proof (induction cs)
    case (Cons c cs)
    then have "gets_past new_reader rinit w [c]" using gets_past_entry [OF ok] entry_okD(3) [OF ok a] by simp
    with Cons show ?case using gets_past_append [of new_reader rinit w "[c]" cs] by simp
  qed (auto simp: gets_past_def)
  from this [OF subset_refl] obtain w2 where
    "init_readers new_reader rinit (e_children (ent w a) @ []) w = init_readers new_reader rinit [] w2 \<or>
     (\<exists>x. init_readers new_reader rinit (e_children (ent w a) @ []) w = Some (x, w2))"
    unfolding gets_past_def by (metis same_shape_refl)
  then show ?thesis by (auto simp: initReaders_def) (simp add: init_readers.simps)
qed

section \<open>Paths\<close>

text \<open>Entry \<open>a\<close> is reached from the directory \<open>r\<close> along the names \<open>ps\<close>.\<close>

inductive at_path :: "'r zfs \<Rightarrow> nat \<Rightarrow> jstring list \<Rightarrow> nat \<Rightarrow> bool" where
  here: "at_path w r [] r"
| below: "at_path w r ps p \<Longrightarrow> c \<in> set (e_children (ent w p)) \<Longrightarrow> e_name (ent w c) = Some n \<Longrightarrow>
    at_path w r (ps @ [n]) c"

lemma find_from_append:
  "find_from w r (ps @ qs) = (case find_from w r ps of Inl e \<Rightarrow> Inl e | Inr None \<Rightarrow> Inr None
     | Inr (Some a) \<Rightarrow> find_from w a qs)"
  by (induction ps arbitrary: r) (auto split: sum.splits option.splits)

lemma child_named_unique:
  assumes "tree_ok b w" "live b w p" "c \<in> set (e_children (ent w p))" "e_name (ent w c) = n"
  shows "child_named w p n = Some c"
proof -
  have "child_named w p n \<noteq> None" using assms(3,4) by (auto simp: child_named_None)
  then obtain d where d: "child_named w p n = Some d" by blast
  then have "d \<in> set (e_children (ent w p))" "e_name (ent w d) = e_name (ent w c)" using child_named_Some assms(4) by blast+
  then show ?thesis using entry_okD(5) [OF assms(1,2)] assms(3) d by (auto simp: distinct_map inj_on_def)
qed

lemma at_path_find:
  assumes "at_path w r ps a" "tree_ok b w" "live b w r"
  shows "find_from w r ps = Inr (Some a) \<and> live b w a"
  using assms
proof (induction rule: at_path.induct)
  case (below w r ps p c n)
  then have p: "find_from w r ps = Inr (Some p)" "live b w p" by simp_all
  have "e_directory (ent w p)" using below.hyps(2) by (intro entry_okD(7) [OF below.prems(1) p(2)]) auto
  then show ?case
    using p entry_okD(3) [OF below.prems(1) p(2) below.hyps(2)] child_named_unique [OF below.prems(1) p(2) below.hyps(2,3)]
    by (simp add: find_from_append getChildByName_def)
qed simp

lemma at_path_live: "at_path w r ps a \<Longrightarrow> tree_ok b w \<Longrightarrow> live b w r \<Longrightarrow> live b w a"
  by (simp add: at_path_find)

lemma full_name_at:
  assumes "at_path w r ps a" "tree_ok b w" "r = b" "\<forall>n \<in> set ps. n \<noteq> []"
  shows "full_name w acc (Some a) = Some (concat (map (\<lambda>n. n @ [47]) ps) @ acc)"
  using assms
proof (induction arbitrary: acc rule: at_path.induct)
  case (here w r)
  then show ?case
    using entry_okD(8,9) [OF here.prems(1) live_root [OF here.prems(1)]]
    by (subst full_name.simps) (simp add: folder_prefix_def full_name.simps)
next
  case (below w r ps p c n)
  have "live b w p" using at_path_live [OF below.hyps(1) below.prems(1)] live_root [OF below.prems(1)] below.prems(2) by simp
  then have "e_parent (ent w c) = Some p" using entry_okD(4) [OF below.prems(1) _ below.hyps(2)] by simp
  then show ?case using below by (subst full_name.simps) (simp add: folder_prefix_def)
qed

lemma js_join_snoc: "js_join [c] (ps @ [n]) = concat (map (\<lambda>n. n @ [c]) ps) @ n"
  by (induction ps) (auto simp: js_join_Cons)

lemma getFullname_at:
  assumes ok: "tree_ok b w" and "at_path w b ps a" "ps \<noteq> []" "\<forall>n \<in> set ps. n \<noteq> []"
  shows "getFullname w a = Some (Some (js_join [47] ps))"
  using assms(2)
proof cases
  case (below qs p n)
  have "live b w p" using at_path_live [OF below(2) ok] live_root [OF ok] by simp
  then have "e_parent (ent w a) = Some p" using entry_okD(4) [OF ok _ below(3)] by simp
  then show ?thesis
    using full_name_at [OF below(2) ok refl] assms(4) below(1,4)
    by (simp add: getFullname_def or_undefined_def js_join_snoc)
qed (use assms(3) in simp)


section \<open>Properties\<close>

text \<open>
  C22. Whatever is done through the interface to the entries made since a reset, in any order and whether
  the calls return or throw, the entries form a tree: parents are directories of the file system without
  cycles, a directory's children have it as their parent and different names, and ids match the table.
\<close>

theorem fs_tree_invariant:
  assumes "(fs_step (length (heap w0)))\<^sup>*\<^sup>* (resetFS w0) w"
  shows "tree_ok (length (heap w0)) w"
  by (rule fs_steps_tree_ok [OF assms tree_ok_reset])

definition no_FS :: "blob_reader zfs" where
  "no_FS = \<lparr>heap = [], fs_entries = [], fs_root = None\<rparr>"

lemma no_FS: "length (heap no_FS) = 0" "resetFS no_FS = new_FS"
  by (simp_all add: no_FS_def new_FS_def)

text \<open>A directory with a file, moved into a second directory; then the first one is removed.\<close>

definition demo_fs :: "nat \<Rightarrow> blob_reader zfs" where
  "demo_fs n =
     (let w1 = snd (addDirectory 0 (js ''a'') new_FS);
          w2 = snd (addBlob 1 (js ''f'') [1, 2] w1);
          w3 = snd (addDirectory 0 (js ''b'') w2) in
      if n = 0 then w3 else case moveTo 1 3 w3 of None \<Rightarrow> w3 | Some (r, w4) \<Rightarrow> w4)"

lemma new_FS_live: "live 0 (new_FS :: blob_reader zfs) 0"
  by (simp add: new_FS_def resetFS_eq live_def)

lemma demo_steps: "(fs_step 0)\<^sup>*\<^sup>* new_FS (demo_fs 0)" "length (heap (demo_fs 0)) = 4"
proof -
  let ?w1 = "snd (addDirectory 0 (js ''a'') new_FS) :: blob_reader zfs"
  let ?w2 = "snd (addBlob 1 (js ''f'') [1, 2] ?w1)"
  let ?w3 = "snd (addDirectory 0 (js ''b'') ?w2)"
  have l: "length (heap ?w1) = 2" "length (heap ?w2) = 3" "length (heap ?w3) = 4" by code_simp+
  have "fs_step 0 new_FS ?w1" by (rule fs_step.add_directory [OF new_FS_live])
  moreover have "fs_step 0 ?w1 ?w2" unfolding addBlob_def addData_def [symmetric]
    by (rule fs_step.add_data) (simp add: live_def l del: One_nat_def js_simps)
  moreover have "fs_step 0 ?w2 ?w3" by (rule fs_step.add_directory) (simp add: live_def l del: js_simps One_nat_def length_greater_0_conv)
  ultimately have "(fs_step 0)\<^sup>*\<^sup>* new_FS ?w3" by (meson converse_rtranclp_into_rtranclp rtranclp.rtrancl_refl)
  then show "(fs_step 0)\<^sup>*\<^sup>* new_FS (demo_fs 0)" by (simp add: demo_fs_def)
  show "length (heap (demo_fs 0)) = 4" using l by (simp add: demo_fs_def)
qed

theorem fs_tree_invariant_witness: "tree_ok 0 (demo_fs 0)"
  using fs_tree_invariant [of no_FS "demo_fs 0"] demo_steps(1) unfolding no_FS by simp

lemma demo_ok: "tree_ok 0 (demo_fs 0)"
  using fs_steps_tree_ok [OF demo_steps(1)] tree_ok_reset [of no_FS] unfolding no_FS by simp

text \<open>
  C29. References stay well-typed: an entry made since the reset is never lost, keeps its name, its id and
  its kind, its parent is a directory and its children are entries.
\<close>

theorem fs_entries_keep_kind:
  assumes "tree_ok b w" "(fs_step b)\<^sup>*\<^sup>* w w'" "live b w a"
  shows "live b w' a \<and> e_name (ent w' a) = e_name (ent w a) \<and> e_id (ent w' a) = e_id (ent w a) \<and>
    e_directory (ent w' a) = e_directory (ent w a) \<and>
    (\<forall>p. e_parent (ent w' a) = Some p \<longrightarrow> live b w' p \<and> e_directory (ent w' p)) \<and>
    (\<forall>c \<in> set (e_children (ent w' a)). live b w' c \<and> e_parent (ent w' c) = Some a)"
proof -
  have ext: "extends b w w'" by (rule fs_steps_extends [OF assms(2,1)])
  then have "kind_of (ent w' a) = kind_of (ent w a)" using assms(3) by (simp add: extends_def)
  moreover note entry_okD(1-4) [OF extends_ok [OF ext] extends_live [OF ext assms(3)]]
  ultimately show ?thesis using extends_live [OF ext assms(3)] by (simp add: kind_of_def)
qed

theorem fs_entries_keep_kind_witness: "live 0 (demo_fs 0) 0 \<and> e_directory (ent (demo_fs 0) 0)"
proof -
  have ok: "tree_ok 0 (new_FS :: blob_reader zfs)" using tree_ok_reset [of no_FS] unfolding no_FS .
  have "e_directory (ent (new_FS :: blob_reader zfs) 0)" using ok by (simp add: tree_ok_def)
  with fs_entries_keep_kind [OF ok demo_steps(1) new_FS_live] show ?thesis by simp
qed

lemma demo_live: "a < 4 \<Longrightarrow> live 0 (demo_fs 0) a"
  by (simp add: live_def demo_steps)

text \<open>
  C28. In such a tree every loop over parents or children comes to an end: \<open>isDescendantOf\<close> and
  \<open>moveTo\<close>, \<open>getFullname\<close>, \<open>getTotalSize\<close> and \<open>initReaders\<close> return, for readers of every kind.
\<close>

theorem fs_loops_end:
  assumes "tree_ok b w" "live b w a" "live b w c"
  shows "isDescendantOf w a c \<noteq> None \<and> moveTo a c w \<noteq> None \<and> getFullname w a \<noteq> None \<and>
    getTotalSize w a \<noteq> None \<and> initReaders new_reader rinit a w \<noteq> None"
  using isDescendantOf_ancestor [OF assms(1,3,2)] moveTo_eq [OF assms] getFullname_ends [OF assms(1,2)]
    getTotalSize_subtree [OF assms(1,2)] initReaders_ends [OF assms(1,2)]
  by simp

theorem fs_loops_end_witness:
  "isDescendantOf (demo_fs 0) 2 1 \<noteq> None \<and> moveTo 2 1 (demo_fs 0) \<noteq> None \<and> getFullname (demo_fs 0) 2 \<noteq> None \<and>
    getTotalSize (demo_fs 0) 2 \<noteq> None \<and>
    initReaders (\<lambda>R d. BlobReader []) (\<lambda>r. (Got 0, r)) 2 (demo_fs 0) \<noteq> None"
  by (rule fs_loops_end [OF demo_ok]) (simp_all add: demo_live)

text \<open>
  C23. \<open>getTotalSize\<close> is the sum of the sizes of all entries of the subtree, each counted once.
\<close>

theorem total_size_counts_once:
  assumes "tree_ok b w" "live b w a"
  shows "getTotalSize w a = Some (\<Sum>x \<in> {x. (a, x) \<in> {(p, c). c \<in> set (e_children (ent w p))}\<^sup>*}. e_size (ent w x))"
  using getTotalSize_subtree [OF assms] by (simp add: subtree_def child_rel_def)

theorem total_size_counts_once_witness:
  "getTotalSize (demo_fs 0) 0 =
    Some (\<Sum>x \<in> {x. (0, x) \<in> {(p, c). c \<in> set (e_children (ent (demo_fs 0) p))}\<^sup>*}. e_size (ent (demo_fs 0) x))"
  by (rule total_size_counts_once [OF demo_ok demo_live]) simp

text \<open>
  C24. \<open>find\<close> with the full name of an entry of the tree is that entry, when the names on its path are not
  empty and have no slash.
\<close>

theorem find_full_name:
  assumes "tree_ok b w" "at_path w b ps a" "ps \<noteq> []" "\<forall>n \<in> set ps. n \<noteq> [] \<and> 47 \<notin> set n"
  shows "\<exists>name. getFullname w a = Some (Some name) \<and> fs_find w name = Inr (Some a)"
proof (intro exI conjI)
  show "getFullname w a = Some (Some (js_join [47] ps))"
    using assms by (intro getFullname_at) auto
  have "js_split [47] (js_join [47] ps) = ps" using assms by (intro js_split_join) auto
  then show "fs_find w (js_join [47] ps) = Inr (Some a)"
    using at_path_find [OF assms(2,1) live_root [OF assms(1)]] assms(1) by (simp add: fs_find_def tree_ok_def)
qed

theorem find_full_name_witness:
  "\<exists>name. getFullname (demo_fs 0) 2 = Some (Some name) \<and> fs_find (demo_fs 0) name = Inr (Some 2)"
proof -
  let ?w = "demo_fs 0"
  have c: "e_children (ent ?w 0) = [1, 3]" "e_children (ent ?w 1) = [2]" by code_simp+
  have n: "e_name (ent ?w 1) = Some (js ''a'')" "e_name (ent ?w 2) = Some (js ''f'')" by code_simp+
  have "at_path ?w 0 ([] @ [js ''a'']) 1" by (rule at_path.below [OF at_path.here _ n(1)]) (simp add: c)
  then have "at_path ?w 0 (([] @ [js ''a'']) @ [js ''f'']) 2" by (rule at_path.below [OF _ _ n(2)]) (simp add: c del: One_nat_def)
  from find_full_name [OF demo_ok this] show ?thesis by simp
qed

text \<open>
  C25. On entries of the tree \<open>moveTo\<close> returns, or throws one of its three errors: when the target is a file,
  else when the entry is an ancestor of the target, else when the target has a child of that name. Then nothing changes, and
  nothing changes when a directory is moved into itself. In every other case the entry leaves the children of its parent,
  becomes the last child of the target and has the target as its parent, and nothing else of any entry, of the
  table and of the root changes; it is then a child of no other entry.
\<close>

theorem moveTo_outcomes:
  assumes "tree_ok b w" "live b w a" "live b w t"
  shows "\<exists>r w'. moveTo a t w = Some (r, w') \<and>
    (if \<not> e_directory (ent w t) then r = Inl (Thrown ''Target entry is not a directory.'') \<and> w' = w
     else if (a, t) \<in> (parent_rel b w)\<^sup>+ then r = Inl (Thrown ''Entry is a ancestor of target entry.'') \<and> w' = w
     else if a = t then r = Inr () \<and> w' = w
     else if \<exists>c \<in> set (e_children (ent w t)). e_name (ent w c) = e_name (ent w a)
       then r = Inl (Thrown ''Entry filename already exists.'') \<and> w' = w
     else r = Inr () \<and>
       (\<exists>p. e_parent (ent w a) = Some p \<and>
          (\<forall>x. ent w' x =
            (if x = a then (ent w a)\<lparr>e_parent := Some t\<rparr>
             else if x = t then (ent w t)\<lparr>e_children := e_children (ent w t) @ [a]\<rparr>
             else if x = p then (ent w p)\<lparr>e_children := remove1 a (e_children (ent w p))\<rparr>
             else ent w x)) \<and>
          (\<forall>x. live b w x \<and> a \<in> set (e_children (ent w' x)) \<longrightarrow> x = t) \<and>
          length (heap w') = length (heap w) \<and> fs_entries w' = fs_entries w \<and> fs_root w' = fs_root w))"
proof (cases "e_directory (ent w t) \<and> (a, t) \<notin> (parent_rel b w)\<^sup>+ \<and> a \<noteq> t \<and> child_named w t (e_name (ent w a)) = None")
  case False
  then show ?thesis unfolding moveTo_eq [OF assms] by (auto simp: child_named_None)
next
  case True
  have "a \<noteq> b" using root_above [OF assms(1,3)] True by (auto simp: rtrancl_eq_or_trancl)
  then obtain p where p: "e_parent (ent w a) = Some p" using entry_okD(8) [OF assms(1,2)] by auto
  let ?w = "moved a p t w"
  have m: "moveTo a t w = Some (Inr (), ?w)" using True p unfolding moveTo_eq [OF assms] by simp
  have "live b w p" using entry_okD(1) [OF assms(1,2) p] .
  have "p \<noteq> a" using assms(1,2) p by (auto simp: tree_ok_def acyclic_def parent_rel_def)
  have "a \<notin> set (e_children (ent w t))" using True by (auto simp: child_named_None)
  then have ents: "\<forall>x. ent ?w x =
      (if x = a then (ent w a)\<lparr>e_parent := Some t\<rparr>
       else if x = t then (ent w t)\<lparr>e_children := e_children (ent w t) @ [a]\<rparr>
       else if x = p then (ent w p)\<lparr>e_children := remove1 a (e_children (ent w p))\<rparr> else ent w x)"
    using True \<open>p \<noteq> a\<close> \<open>live b w p\<close> assms(2,3) by (auto simp: moved_def ent_set_ent live_def remove1_idem)
  have same: "length (heap ?w) = length (heap w)" "fs_entries ?w = fs_entries w" "fs_root ?w = fs_root w"
    by (simp_all add: moved_def)
  have "\<forall>x. live b w x \<and> a \<in> set (e_children (ent ?w x)) \<longrightarrow> x = t"
    using entry_okD(4) [OF tree_ok_moveTo [OF assms m]] ents same(1) by (fastforce simp: live_def)
  with p ents same have "\<exists>p. e_parent (ent w a) = Some p \<and>
      (\<forall>x. ent ?w x = (if x = a then (ent w a)\<lparr>e_parent := Some t\<rparr>
         else if x = t then (ent w t)\<lparr>e_children := e_children (ent w t) @ [a]\<rparr>
         else if x = p then (ent w p)\<lparr>e_children := remove1 a (e_children (ent w p))\<rparr> else ent w x)) \<and>
      (\<forall>x. live b w x \<and> a \<in> set (e_children (ent ?w x)) \<longrightarrow> x = t) \<and>
      length (heap ?w) = length (heap w) \<and> fs_entries ?w = fs_entries w \<and> fs_root ?w = fs_root w"
    by (intro exI [of _ p] conjI)
  with True m show ?thesis by (intro exI [of _ "Inr ()"] exI [of _ ?w]) (simp only: child_named_None, simp)
qed

theorem moveTo_outcomes_witness:
  "e_parent (ent (demo_fs 1) 1) = Some 3 \<and> e_children (ent (demo_fs 1) 3) = [1]"
proof -
  let ?w = "demo_fs 0"
  have "fst (the (moveTo 1 3 ?w)) = Inr ()" "e_children (ent ?w 3) = []" "e_directory (ent ?w 3)" by code_simp+
  moreover obtain r w' where m: "moveTo 1 3 ?w = Some (r, w')" using moveTo_eq [OF demo_ok, of 1 3] demo_live by fastforce
  moreover have "w' = demo_fs 1" using m by (simp add: demo_fs_def Let_def)
  ultimately have "\<exists>p. \<forall>x. ent (demo_fs 1) x =
      (if x = 1 then (ent ?w 1)\<lparr>e_parent := Some 3\<rparr>
       else if x = 3 then (ent ?w 3)\<lparr>e_children := e_children (ent ?w 3) @ [1]\<rparr>
       else if x = p then (ent ?w p)\<lparr>e_children := remove1 1 (e_children (ent ?w p))\<rparr> else ent ?w x)"
    using moveTo_outcomes [OF demo_ok, of 1 3] demo_live [of 1] demo_live [of 3] by (simp split: if_splits) blast
  then obtain p where p: "\<And>x. ent (demo_fs 1) x =
      (if x = 1 then (ent ?w 1)\<lparr>e_parent := Some 3\<rparr>
       else if x = 3 then (ent ?w 3)\<lparr>e_children := e_children (ent ?w 3) @ [1]\<rparr>
       else if x = p then (ent ?w p)\<lparr>e_children := remove1 1 (e_children (ent ?w p))\<rparr> else ent ?w x)" by blast
  show ?thesis using p [of 1] p [of 3] \<open>e_children (ent ?w 3) = []\<close> by simp
qed

end
