(* ===== verification/Zip_Roundtrip.thy ===== *)
theory Zip_Roundtrip
  imports Zip_Writer
begin

text \<open>
  What \<open>createZipWriter\<close> writes for stored entries, as one closed form, and the proof that
  \<open>createZipReader\<close> gets the same names, flags, sizes, comments and contents back from it.
\<close>

declare add_2_eq_Suc [simp del] add_2_eq_Suc' [simp del]

section \<open>The 26 bytes shared by local and central headers\<close>

definition common_header :: "int \<Rightarrow> int \<Rightarrow> int \<Rightarrow> int \<Rightarrow> int \<Rightarrow> int \<Rightarrow> int \<Rightarrow> int \<Rightarrow> int \<Rightarrow> byte list" where
  "common_header ver flags meth time date crc csize usize nlen =
     le 2 ver @ le 2 flags @ le 2 meth @ le 2 time @ le 2 date @ le 4 crc @ le 4 csize @ le 4 usize @
     le 2 nlen @ le 2 0"

lemma length_common_header [simp]: "length (common_header v fl m t d c cs us nl) = 26"
  by (simp add: common_header_def)

lemma le_bytes:
  "le 1 v = [of_int v]" "le (Suc 0) v = [of_int v]" "le 2 v = [of_int v, of_int (v div 256)]"
  "le 4 v = [of_int v, of_int (v div 256), of_int (v div 65536), of_int (v div 16777216)]"
  by (simp_all add: le_def numeral_nat)

lemma be_bytes:
  "be 2 v = [of_int (v div 256), of_int v]"
  "be 4 v = [of_int (v div 16777216), of_int (v div 65536), of_int (v div 256), of_int v]"
  by (simp_all add: be_def le_bytes)

lemma byte_eqI: "x mod 256 = y mod 256 \<Longrightarrow> (of_int x :: byte) = of_int y"
  by (simp add: word_of_int_eq_iff take_bit_eq_mod)

lemma byte_mod [simp]: "(of_int (x mod 256) :: byte) = of_int x"
  by (rule byte_eqI) simp

definition version_field :: "add_options \<Rightarrow> int" where
  "version_field opts = (if o_version opts = 0 then 20 else int (o_version opts) mod 256)"

lemma replicate_16: "replicate 16 (0 :: byte) = [0, 0, 0, 0, 0, 0, 0, 0, 0, 0, 0, 0, 0, 0, 0, 0]"
  by (simp add: numeral_nat)

lemma replicate_26: "replicate 26 (0 :: byte) =
  [0, 0, 0, 0, 0, 0, 0, 0, 0, 0, 0, 0, 0, 0, 0, 0, 0, 0, 0, 0, 0, 0, 0, 0, 0, 0]"
  by (simp add: numeral_nat)

lemma header_puts:
  "puts (header_writes opts True date n) (replicate 26 0) =
     Inr (common_header (version_field opts) 0x0808 0 (dos_time date) (dos_date date) 0 0 0 (int n))"
  unfolding header_writes_def common_header_def replicate_26 version_field_def
  by (auto simp: le_bytes be_bytes put_def)

lemma sum_puts:
  "puts (sum_writes (Some crc) (Some (cs, us)) 10) (common_header v fl m t d 0 0 0 nl) =
     Inr (common_header v fl m t d (uint crc) (int cs) (int us) nl)"
  by (simp add: sum_writes_def common_header_def le_bytes put_def)

lemma footer_puts:
  "puts ((0, be 4 0x504b0708) # sum_writes (Some crc) (Some (cs, us)) 4) (replicate 16 0) =
     Inr (be 4 0x504b0708 @ le 4 (uint crc) @ le 4 (int cs) @ le 4 (int us))"
  "puts ((0, be 4 0x504b0708) # sum_writes None None 4) (replicate 16 0) =
     Inr (be 4 0x504b0708 @ le 4 0 @ le 4 0 @ le 4 0)"
  unfolding replicate_16 by (simp_all add: sum_writes_def le_bytes be_bytes put_def)

lemma put_next:
  assumes "i = length a" "length xs \<le> m"
  shows "put i xs (a @ replicate m z) = Inr ((a @ xs) @ replicate (m - length xs) z)"
  using assms by (simp add: put_def)

lemma local_puts:
  assumes "length header = 26"
  shows "puts (local_writes header name) (replicate (30 + length name) 0) =
    Inr (be 4 0x504b0304 @ header @ name)"
proof -
  have "put 0 (be 4 0x504b0304) ([] @ replicate (30 + length name) 0) =
      Inr (be 4 0x504b0304 @ replicate (26 + length name) 0)" by (subst put_next) simp_all
  moreover have "put 4 header (be 4 0x504b0304 @ replicate (26 + length name) 0) =
      Inr ((be 4 0x504b0304 @ header) @ replicate (length name) 0)"
    using assms by (subst put_next) simp_all
  moreover have "put 30 [] bs = Inr bs" if "length bs = 30 + length name" for bs :: "byte list"
    using that by (simp add: put_def)
  moreover have "put 30 name ((be 4 0x504b0304 @ header) @ replicate (length name) 0) =
      Inr (be 4 0x504b0304 @ header @ name)" using assms by (subst put_next) simp_all
  ultimately show ?thesis using assms by (simp add: local_writes_def)
qed

section \<open>Reading the fields of a header\<close>

lemma getUint_drop:
  assumes "drop i bs = le n v @ rest" "i \<le> length bs" "0 \<le> v" "v < 256 ^ n"
  shows "getUint n True bs i = Inr (nat v)"
proof -
  have "length bs - i = length (le n v @ rest)" using assms(1) by (metis length_drop)
  then have "i + n \<le> length bs" using assms(2) by simp
  moreover have "le_val (le n v) = nat v" using le_val_le [OF assms(3,4)] by linarith
  ultimately show ?thesis using assms(1) by (simp add: getUint_def)
qed

definition u16 :: "int \<Rightarrow> bool" where "u16 v = (0 \<le> v \<and> v < 65536)"
definition u32 :: "int \<Rightarrow> bool" where "u32 v = (0 \<le> v \<and> v < 4294967296)"

lemma get16: "drop i bs = le 2 v @ rest \<Longrightarrow> i \<le> length bs \<Longrightarrow> u16 v \<Longrightarrow> getUint 2 True bs i = Inr (nat v)"
  by (rule getUint_drop) (simp_all add: u16_def)

lemma get32: "drop i bs = le 4 v @ rest \<Longrightarrow> i \<le> length bs \<Longrightarrow> u32 v \<Longrightarrow> getUint 4 True bs i = Inr (nat v)"
  by (rule getUint_drop) (simp_all add: u32_def)

lemma drop_plus: "drop (i + k) bs = drop k (drop i bs)"
  by (simp add: add.commute)

lemma within: "drop i bs = xs @ rest \<Longrightarrow> i \<le> length bs \<Longrightarrow> k \<le> length xs \<Longrightarrow> i + k \<le> length bs"
  by (metis Nat.le_diff_conv2 add.commute le_trans length_append length_drop le_add1)

lemma two_fields: "drop 0 (le 2 t @ le 2 d @ rest) = le 4 (t + d * 65536) @ rest" if "u16 t"
proof -
  have t: "0 \<le> t" "t < 65536" using that by (auto simp: u16_def)
  have x: "t + d * 65536 = t + d * 256 * 256" by simp
  have q1: "(t + d * 65536) div 256 = d * 256 + t div 256" unfolding x by (rule div_mult_self1) simp
  have q2: "(t + d * 65536) div 65536 = d" using t by (subst div_mult_self1) simp_all
  have q3: "(t + d * 65536) div 16777216 = d div 256"
    using zdiv_zmult2_eq [of 256 "t + d * 65536" 65536] q2 by simp
  have "(t + d * 65536) mod 256 = t mod 256" unfolding x by (rule mod_mult_self1)
  moreover have "(t + d * 65536) div 256 mod 256 = t div 256 mod 256" unfolding q1 by simp
  moreover have "(t + d * 65536) div 65536 mod 256 = d mod 256" unfolding q2 ..
  moreover have "(t + d * 65536) div 16777216 mod 256 = d div 256 mod 256" unfolding q3 ..
  ultimately have "(t + d * 65536) mod 256 = t mod 256" "(t + d * 65536) div 256 mod 256 = t div 256 mod 256"
    "(t + d * 65536) div 65536 mod 256 = d mod 256" "(t + d * 65536) div 16777216 mod 256 = d div 256 mod 256" .
  from this [THEN byte_eqI] show ?thesis unfolding le_bytes by (simp only: append.simps drop_0)
qed

text \<open>The fields of a header found at \<open>i\<close>.\<close>

lemma header_fields:
  assumes data: "drop i data = common_header v fl m t d crc cs us nl @ rest" "i \<le> length data"
    and "u16 v" "u16 fl" "u16 m" "u16 t" "u16 d" "u32 crc" "u32 cs" "u32 us" "u16 nl"
  shows "getUint 2 True data i = Inr (nat v)" "getUint 2 True data (i + 2) = Inr (nat fl)"
    "getUint 2 True data (i + 4) = Inr (nat m)" "getUint 4 True data (i + 6) = Inr (nat (t + d * 65536))"
    "getUint 4 True data (i + 10) = Inr (nat crc)" "getUint 4 True data (i + 14) = Inr (nat cs)"
    "getUint 4 True data (i + 18) = Inr (nat us)" "getUint 2 True data (i + 22) = Inr (nat nl)"
    "getUint 2 True data (i + 24) = Inr 0"
proof -
  have len: "i + k \<le> length data" if "k \<le> 26" for k
    using within [OF data(1,2)] that by simp
  have drop: "drop (i + k) data = drop k (common_header v fl m t d crc cs us nl @ rest)" for k
    unfolding drop_plus data(1) ..
  note parts = drop common_header_def
  show "getUint 2 True data i = Inr (nat v)"
    by (rule get16 [where rest = "drop 2 (common_header v fl m t d crc cs us nl @ rest)"])
      (use data assms in \<open>simp_all add: common_header_def\<close>)
  show "getUint 2 True data (i + 2) = Inr (nat fl)"
    by (rule get16 [where rest = "drop 4 (common_header v fl m t d crc cs us nl @ rest)"])
      (use len assms in \<open>simp_all add: parts\<close>)
  show "getUint 2 True data (i + 4) = Inr (nat m)"
    by (rule get16 [where rest = "drop 6 (common_header v fl m t d crc cs us nl @ rest)"])
      (use len assms in \<open>simp_all add: parts\<close>)
  have "u32 (t + d * 65536)" using assms by (simp add: u16_def u32_def)
  then show "getUint 4 True data (i + 6) = Inr (nat (t + d * 65536))"
    by (intro get32 [where rest = "drop 10 (common_header v fl m t d crc cs us nl @ rest)"])
      (use len assms two_fields [OF \<open>u16 t\<close>, of d] in \<open>simp_all add: parts\<close>)
  show "getUint 4 True data (i + 10) = Inr (nat crc)"
    by (rule get32 [where rest = "drop 14 (common_header v fl m t d crc cs us nl @ rest)"])
      (use len assms in \<open>simp_all add: parts\<close>)
  show "getUint 4 True data (i + 14) = Inr (nat cs)"
    by (rule get32 [where rest = "drop 18 (common_header v fl m t d crc cs us nl @ rest)"])
      (use len assms in \<open>simp_all add: parts\<close>)
  show "getUint 4 True data (i + 18) = Inr (nat us)"
    by (rule get32 [where rest = "drop 22 (common_header v fl m t d crc cs us nl @ rest)"])
      (use len assms in \<open>simp_all add: parts\<close>)
  show "getUint 2 True data (i + 22) = Inr (nat nl)"
    by (rule get16 [where rest = "drop 24 (common_header v fl m t d crc cs us nl @ rest)"])
      (use len assms in \<open>simp_all add: parts\<close>)
  have "getUint 2 True data (i + 24) = Inr (nat 0)"
    by (rule get16 [where rest = "rest"]) (use len in \<open>simp_all add: parts u16_def\<close>)
  then show "getUint 2 True data (i + 24) = Inr 0" by simp
qed

definition header_read :: "bool \<Rightarrow> int \<Rightarrow> int \<Rightarrow> int \<Rightarrow> int \<Rightarrow> int \<Rightarrow> int \<Rightarrow> int \<Rightarrow> int \<Rightarrow> int \<Rightarrow> zip_entry \<Rightarrow> zip_entry" where
  "header_read central v fl m t d crc cs us nl e =
     (let e1 = e\<lparr>version := nat v, bitFlag := nat fl, compressionMethod := nat m,
           lastModDateRaw := nat (t + d * 65536), lastModDate := getDate (of_nat (nat (t + d * 65536))),
           filenameLength := nat nl, extraFieldLength := 0\<rparr>
      in if central \<or> nat fl AND 8 \<noteq> 8
         then e1\<lparr>crc32 := Some (nat crc), compressedSize := Some (nat cs), uncompressedSize := Some (nat us)\<rparr> else e1)"

lemma read_header:
  assumes "drop i data = common_header v fl m t d crc cs us nl @ rest" "i \<le> length data"
    and "u16 v" "u16 fl" "u16 m" "u16 t" "u16 d" "u32 crc" "u32 cs" "u32 us" "u16 nl"
    and "nat fl AND 1 \<noteq> 1" and "cs < 0xFFFFFFFF" "us < 0xFFFFFFFF"
    and "\<not> central \<Longrightarrow> compressedSize e \<noteq> Some 0xFFFFFFFF \<and> uncompressedSize e \<noteq> Some 0xFFFFFFFF"
  shows "readCommonHeader e data i central = Done (header_read central v fl m t d crc cs us nl e)"
proof -
  note fields = header_fields [OF assms(1-11)]
  have "nat cs \<noteq> 0xFFFFFFFF" "nat us \<noteq> 0xFFFFFFFF" using assms(13,14) by auto
  with assms(12,15) show ?thesis
    by (simp add: readCommonHeader_def read_field_def fields header_read_def Let_def)
qed

lemma read_header_throws:
  assumes "drop i data = common_header v fl m t d crc cs us nl @ rest" "i \<le> length data"
    and "u16 v" "u16 fl" "u16 m" "u16 t" "u16 d" "u32 crc" "u32 cs" "u32 us" "u16 nl"
    and "nat fl AND 1 = 1 \<or> cs = 0xFFFFFFFF \<or> us = 0xFFFFFFFF"
  shows "\<exists>e'. readCommonHeader e data i True = Threw TypeError e'"
proof -
  note fields = header_fields [OF assms(1-11)]
  have "nat cs = 0xFFFFFFFF" if "cs = 0xFFFFFFFF" using that by simp
  moreover have "nat us = 0xFFFFFFFF" if "us = 0xFFFFFFFF" using that by simp
  ultimately show ?thesis
    using assms(12) by (auto simp: readCommonHeader_def read_field_def fields)
qed

section \<open>The archive in closed form\<close>

record item =
  i_name :: jstring
  i_data :: "byte list"
  i_opts :: add_options

definition final_name :: "item \<Rightarrow> jstring" where
  "final_name it = entry_name (i_name it) (i_opts it)"

definition name_bytes :: "item \<Rightarrow> byte list" where
  "name_bytes it = getBytes (encodeUTF8 (final_name it))"

definition comment_bytes :: "item \<Rightarrow> byte list" where
  "comment_bytes it = getBytes (encodeUTF8 (o_comment (i_opts it)))"

definition item_date :: "js_date \<Rightarrow> item \<Rightarrow> js_date" where
  "item_date now it = (case o_date (i_opts it) of Some d \<Rightarrow> d | None \<Rightarrow> now)"

definition header_of :: "js_date \<Rightarrow> item \<Rightarrow> int \<Rightarrow> int \<Rightarrow> byte list" where
  "header_of now it crc len =
     common_header (version_field (i_opts it)) 0x0808 0 (dos_time (item_date now it)) (dos_date (item_date now it))
       crc len len (int (length (name_bytes it)))"

definition item_crc :: "item \<Rightarrow> int" where
  "item_crc it = uint (Crc32.crc32 (i_data it))"

definition local_bytes :: "js_date \<Rightarrow> item \<Rightarrow> byte list" where
  "local_bytes now it =
     be 4 0x504b0304 @ header_of now it 0 0 @ name_bytes it @ i_data it @
     be 4 0x504b0708 @ le 4 (item_crc it) @ le 4 (int (length (i_data it))) @ le 4 (int (length (i_data it)))"

definition file_at :: "js_date \<Rightarrow> nat \<Rightarrow> item \<Rightarrow> zip_file" where
  "file_at now off it =
     \<lparr>headerArray = header_of now it (item_crc it) (int (length (i_data it))),
      f_directory = o_directory (i_opts it), f_filename = name_bytes it, f_offset = off,
      f_comment = comment_bytes it\<rparr>"

fun files_from :: "js_date \<Rightarrow> nat \<Rightarrow> item list \<Rightarrow> zip_file list" where
  "files_from now off [] = []"
| "files_from now off (it # its) = file_at now off it # files_from now (off + length (local_bytes now it)) its"

definition central_bytes :: "zip_file \<Rightarrow> byte list" where
  "central_bytes f =
     be 4 0x504b0102 @ be 2 0x1400 @ headerArray f @ le 2 (int (length (f_comment f))) @
     [0, 0, 0, 0, (if f_directory f then 0x10 else 0), 0, 0, 0] @ le 4 (int (f_offset f)) @
     f_filename f @ f_comment f"

definition end_bytes :: "nat \<Rightarrow> nat \<Rightarrow> nat \<Rightarrow> byte list" where
  "end_bytes count len start =
     be 4 0x504b0506 @ [0, 0, 0, 0] @ le 2 (int count) @ le 2 (int count) @ le 4 (int len) @ le 4 (int start) @ [0, 0]"

definition locals :: "js_date \<Rightarrow> item list \<Rightarrow> byte list" where
  "locals now its = concat (map (local_bytes now) its)"

definition archive :: "js_date \<Rightarrow> item list \<Rightarrow> byte list" where
  "archive now its =
     (let central = concat (map central_bytes (files_from now 0 its))
      in locals now its @ central @ end_bytes (length its) (length central) (length (locals now its)))"

lemma length_header_of [simp]: "length (header_of now it c n) = 26"
  by (simp add: header_of_def)

lemma length_local_bytes:
  "length (local_bytes now it) = 46 + length (name_bytes it) + length (i_data it)"
  by (simp add: local_bytes_def)

lemma length_central_bytes:
  "length (headerArray f) = 26 \<Longrightarrow> length (central_bytes f) = central_size f"
  by (simp add: central_bytes_def central_size_def)

lemma files_from_headers: "f \<in> set (files_from now off its) \<Longrightarrow> length (headerArray f) = 26"
  by (induction now off its rule: files_from.induct) (auto simp: file_at_def)

lemma files_from_append:
  "files_from now off (as @ bs) = files_from now off as @ files_from now (off + length (locals now as)) bs"
  by (induction as arbitrary: off) (simp_all add: locals_def add.assoc)

lemma length_files_from [simp]: "length (files_from now off its) = length its"
  by (induction now off its rule: files_from.induct) simp_all

section \<open>close writes the closed form\<close>

lemma put_at:
  assumes "length a \<le> i" "i - length a + length xs \<le> m"
  shows "put i xs (a @ replicate m z) =
    Inr ((a @ replicate (i - length a) z @ xs) @ replicate (m - (i - length a) - length xs) z)"
proof -
  let ?g = "i - length a"
  have m: "m = ?g + (length xs + (m - ?g - length xs))" using assms(2) by simp
  have "replicate m z = replicate ?g z @ replicate (length xs) z @ replicate (m - ?g - length xs) z"
    by (subst m) (simp only: replicate_add)
  with assms show ?thesis by (simp add: put_def)
qed

lemma put_start:
  "length xs \<le> m \<Longrightarrow> put 0 xs (replicate m z) = Inr (xs @ replicate (m - length xs) z)"
  using put_at [of "[]" 0 xs m z] by simp

lemma zeros: "replicate 3 (0 :: byte) = [0, 0, 0]" "replicate 4 (0 :: byte) = [0, 0, 0, 0]"
  "replicate 8 (0 :: byte) = [0, 0, 0, 0, 0, 0, 0, 0]" "replicate 2 (0 :: byte) = [0, 0]"
  by (simp_all add: numeral_nat)

lemma central_puts_0:
  assumes "length (headerArray f) = 26"
  shows "puts (central_writes 0 f) (replicate (central_size f) 0) = Inr (central_bytes f)"
  using assms
  by (cases "f_directory f")
    (simp_all add: central_writes_def central_bytes_def central_size_def put_start put_at le_bytes(1,2) zeros
      del: append_assoc)

lemma central_writes_shift: "central_writes (n + i) f = map (\<lambda>(k, xs). (n + k, xs)) (central_writes i f)"
  by (simp add: central_writes_def add.assoc)

lemma central_puts:
  assumes "length (headerArray f) = 26"
  shows "puts (central_writes (length a) f) (a @ replicate (central_size f + m) 0) =
    Inr ((a @ central_bytes f) @ replicate m 0)"
proof -
  have fit: "\<forall>(i, xs) \<in> set (central_writes 0 f). i + length xs \<le> length (replicate (central_size f) (0 :: byte))"
    using assms by (auto simp: central_writes_def central_size_def)
  have "puts (central_writes 0 f) (replicate (central_size f) 0 @ replicate m 0) =
      Inr (central_bytes f @ replicate m 0)"
    using central_puts_0 [OF assms] puts_left [OF fit] by simp
  then show ?thesis
    using puts_shift [of a "central_writes 0 f" "replicate (central_size f) 0 @ replicate m 0"]
      central_writes_shift [of "length a" 0 f] by (simp add: replicate_add)
qed

lemma directory_puts:
  assumes "\<forall>f \<in> set fs. length (headerArray f) = 26"
  shows "puts (directory_writes (length a) fs) (a @ replicate (sum_list (map central_size fs) + m) 0) =
    Inr ((a @ concat (map central_bytes fs)) @ replicate m 0)"
  using assms
proof (induction fs arbitrary: a)
  case (Cons f fs)
  have "puts (central_writes (length a) f) (a @ replicate (sum_list (map central_size (f # fs)) + m) 0) =
      Inr ((a @ central_bytes f) @ replicate (sum_list (map central_size fs) + m) 0)"
    using central_puts [of f a "sum_list (map central_size fs) + m"] Cons.prems by (simp add: add.assoc)
  moreover have "length a + central_size f = length (a @ central_bytes f)"
    using Cons.prems by (simp add: length_central_bytes)
  ultimately show ?case using Cons.IH [of "a @ central_bytes f"] Cons.prems by (simp add: puts_append)
qed simp

lemma end_puts:
  "puts (end_writes (length a) count len start) (a @ replicate 22 0) = Inr (a @ end_bytes count len start)"
  by (simp add: end_writes_def end_bytes_def put_at zeros del: append_assoc)

lemma directory_bytes_closed:
  assumes "files_of zw (filenames zw) = Inr fs" "\<forall>f \<in> set fs. length (headerArray f) = 26"
  shows "directory_bytes zw = Inr (concat (map central_bytes fs) @
    end_bytes (length (filenames zw)) (length (concat (map central_bytes fs))) (datalength zw))"
proof -
  have len: "length (concat (map central_bytes fs)) = sum_list (map central_size fs)"
    using assms(2) by (induction fs) (simp_all add: length_central_bytes)
  have "puts (directory_writes 0 fs) (replicate (sum_list (map central_size fs) + 22) 0) =
      Inr (concat (map central_bytes fs) @ replicate 22 0)"
    using directory_puts [OF assms(2), of "[]" 22] by simp
  then show ?thesis
    using assms(1) end_puts [of "concat (map central_bytes fs)"] by (simp add: directory_bytes_def Let_def puts_append len)
qed

section \<open>add appends the closed form\<close>

definition good_name :: "jstring \<Rightarrow> bool" where
  "good_name n = (n \<noteq> js ''length'' \<and> n \<notin> set (map js array_prototype))"

definition stored :: "bool \<Rightarrow> item \<Rightarrow> bool" where
  "stored dontDeflate it = (dontDeflate \<or> o_level (i_opts it) = Some 0)"

definition writer_inv :: "js_date \<Rightarrow> item list \<Rightarrow> zip_writer \<Rightarrow> bool" where
  "writer_inv now its zw =
     (filenames zw = map final_name its \<and> datalength zw = length (locals now its) \<and>
      files_of zw (map final_name its) = Inr (files_from now 0 its) \<and>
      dom (files zw) = set (map final_name its))"

definition item_source :: "('r \<Rightarrow> nat io \<times> 'r) \<Rightarrow> ('r \<Rightarrow> byte list \<Rightarrow> bool) \<Rightarrow> item \<Rightarrow> 'r option \<Rightarrow> bool" where
  "item_source rinit holds it ro =
     (case ro of None \<Rightarrow> i_data it = []
      | Some r \<Rightarrow> \<exists>r'. rinit r = (Got (length (i_data it)), r') \<and> holds r' (i_data it))"

lemma files_of_cong: "\<forall>n \<in> set ns. files zw n = files zw' n \<Longrightarrow> files_of zw ns = files_of zw' ns"
  by (induction ns) (auto split: option.splits)

lemma files_of_append:
  "files_of zw (ns @ ms) = zbind (files_of zw ns) (\<lambda>fs. zbind (files_of zw ms) (\<lambda>gs. Inr (fs @ gs)))"
proof (induction ns)
  case Nil
  then show ?case by (cases "files_of zw ms") simp_all
next
  case (Cons n ns)
  then show ?case by (cases "files_of zw ns"; cases "files_of zw ms") (simp_all split: option.split)
qed

lemma writer_inv_start: "writer_inv now [] createZipWriter"
  by (simp add: writer_inv_def createZipWriter_def locals_def)

lemma writer_inv_snoc:
  assumes "writer_inv now its zw" "final_name it \<notin> set (map final_name its)"
    and "filenames zw' = filenames zw @ [final_name it]"
    and "files zw' = (files zw)(final_name it \<mapsto> file_at now (datalength zw) it)"
    and "datalength zw' = datalength zw + length (local_bytes now it)"
  shows "writer_inv now (its @ [it]) zw'"
proof -
  have "files_of zw' (map final_name its) = files_of zw (map final_name its)"
    using assms(2,4) by (intro files_of_cong) (metis fun_upd_other)
  then show ?thesis
    using assms by (simp add: writer_inv_def locals_def files_of_append files_from_append)
qed

lemma crc_empty: "Crc32.crc32 [] = 0"
  by (simp add: Crc32.crc32_def crc_get_def crc_init_def)

lemma stored_header_writes: "stored dd it \<Longrightarrow> header_writes (i_opts it) dd = header_writes (i_opts it) True"
  by (intro ext) (auto simp: stored_def header_writes_def)

lemma writeHeader_closed:
  assumes "stored dd it" "good_name (final_name it)"
  shows "writeHeader (final_name it) (name_bytes it) (i_opts it) dd now zw =
    Inr (be 4 0x504b0304 @ header_of now it 0 0 @ name_bytes it, header_of now it 0 0,
      zw\<lparr>files := (files zw)(final_name it \<mapsto>
            (file_at now (datalength zw) it)\<lparr>headerArray := header_of now it 0 0\<rparr>),
         datalength := datalength zw + (30 + length (name_bytes it))\<rparr>)"
proof -
  have header: "puts (header_writes (i_opts it) True d (length (name_bytes it))) (replicate 26 0) =
      Inr (header_of now it 0 0)" if "d = item_date now it" for d
    using header_puts [of "i_opts it" d "length (name_bytes it)"] that by (simp add: header_of_def)
  show ?thesis
    using assms(2) header [of "case o_date (i_opts it) of None \<Rightarrow> now | Some d \<Rightarrow> d"]
    unfolding writeHeader_def stored_header_writes [OF assms(1)]
    by (simp add: good_name_def local_puts item_date_def file_at_def comment_bytes_def)
qed

context byte_sink
begin

lemma write_got: "wr w (Bytes a) = Got w' \<Longrightarrow> fits w a \<Longrightarrow> written w' = written w @ a"
  using write_fits [of w a] by auto

end

context transfer
begin

lemma copy_whole:
  assumes "holds r b" "ready w"
  shows "\<exists>r' w'. copy rd wr 0 (length b) cc r w = (Ended (length b, if cc then Crc32.crc32 b else 0), r', w') \<and>
    ready w' \<and> written w' = written w @ b"
proof -
  have "holds r ([] @ b @ [])" using assms(1) by simp
  from copy_exact [OF this assms(2), of cc] show ?thesis by (metis list.size(3))
qed

lemma footer_closed:
  assumes "ready w" "files zw (final_name it) = Some (f\<lparr>headerArray := header_of now it 0 0\<rparr>)"
    and "sums = (Some (Crc32.crc32 (i_data it)), Some (length (i_data it), length (i_data it))) \<or>
         i_data it = [] \<and> sums = (None, None)"
  shows "\<exists>w'. writeFooter (final_name it) (header_of now it 0 0) (fst sums) (snd sums) wr zw w =
      (Inr (), zw\<lparr>files := (files zw)(final_name it \<mapsto>
            f\<lparr>headerArray := header_of now it (item_crc it) (int (length (i_data it)))\<rparr>),
          datalength := datalength zw + length (i_data it) + 16\<rparr>, w') \<and> ready w' \<and>
      written w' = written w @ be 4 0x504b0708 @ le 4 (item_crc it) @ le 4 (int (length (i_data it))) @
        le 4 (int (length (i_data it)))"
proof -
  let ?footer = "be 4 0x504b0708 @ le 4 (item_crc it) @ le 4 (int (length (i_data it))) @ le 4 (int (length (i_data it)))"
  obtain w' where w': "wr w (Bytes ?footer) = Got w'" "written w' = written w @ ?footer" "ready w'"
    using write_ready [OF assms(1)] .
  have "puts (sum_writes (fst sums) (snd sums) 10) (header_of now it 0 0) =
      Inr (header_of now it (item_crc it) (int (length (i_data it))))"
    using assms(3)
  proof (elim disjE conjE)
    assume "sums = (Some (Crc32.crc32 (i_data it)), Some (length (i_data it), length (i_data it)))"
    then show ?thesis by (simp add: header_of_def sum_puts item_crc_def)
  next
    assume "i_data it = []" "sums = (None, None)"
    then show ?thesis by (simp add: header_of_def sum_writes_def item_crc_def crc_empty)
  qed
  moreover have "puts ((0, be 4 0x504b0708) # sum_writes (fst sums) (snd sums) 4) (replicate 16 0) = Inr ?footer"
    using assms(3)
  proof (elim disjE conjE)
    assume "sums = (Some (Crc32.crc32 (i_data it)), Some (length (i_data it), length (i_data it)))"
    then show ?thesis by (simp only: fst_conv snd_conv footer_puts item_crc_def)
  next
    assume "i_data it = []" "sums = (None, None)"
    then show ?thesis by (simp only: fst_conv snd_conv footer_puts item_crc_def crc_empty) simp
  qed
  moreover have "(case snd sums of None \<Rightarrow> 0 | Some (cs, us) \<Rightarrow> cs) = length (i_data it)" using assms(3) by auto
  ultimately show ?thesis
    using w' assms(2) by (simp add: writeFooter_def Let_def del: puts.simps)
qed

lemma add_stored:
  assumes inv: "writer_inv now its zw" and w: "ready w" "written w = locals now its"
    and it: "stored dd it" "good_name (final_name it)" "final_name it \<notin> set (map final_name its)"
    and src: "item_source rinit holds it ro"
  shows "\<exists>zw' w'. add app fl nd rinit rd wr dd now (i_name it) ro (i_opts it) zw w = (Inr (), zw', w') \<and>
    writer_inv now (its @ [it]) zw' \<and> ready w' \<and> written w' = locals now (its @ [it])"
proof -
  let ?head = "be 4 0x504b0304 @ header_of now it 0 0 @ name_bytes it"
  have name: "entry_name (i_name it) (i_opts it) = final_name it" by (simp add: final_name_def)
  have free: "\<not> name_taken zw (final_name it)"
    using inv it(2,3) by (auto simp: name_taken_def good_name_def writer_inv_def)
  define zw1 where "zw1 = zw\<lparr>filenames := filenames zw @ [final_name it]\<rparr>"
  define zw2 where "zw2 = zw1\<lparr>files := (files zw1)(final_name it \<mapsto>
        (file_at now (datalength zw1) it)\<lparr>headerArray := header_of now it 0 0\<rparr>),
      datalength := datalength zw1 + (30 + length (name_bytes it))\<rparr>"
  have head: "writeHeader (final_name it) (name_bytes it) (i_opts it) dd now zw1 = Inr (?head, header_of now it 0 0, zw2)"
    using writeHeader_closed [OF it(1,2)] by (simp add: zw2_def)
  obtain w1 where w1: "wr w (Bytes ?head) = Got w1" "written w1 = written w @ ?head" "ready w1"
    using write_ready [OF w(1)] .
  have at_name: "files zw2 (final_name it) = Some ((file_at now (datalength zw) it)\<lparr>headerArray := header_of now it 0 0\<rparr>)"
    by (simp add: zw2_def zw1_def)
  define zw3 where "zw3 = zw2\<lparr>files := (files zw2)(final_name it \<mapsto> file_at now (datalength zw) it),
      datalength := datalength zw2 + length (i_data it) + 16\<rparr>"
  have inv3: "writer_inv now (its @ [it]) zw3"
    by (rule writer_inv_snoc [OF inv it(3)])
      (simp_all add: zw3_def zw2_def zw1_def length_local_bytes)
  have full: "locals now (its @ [it]) = written w @ ?head @ i_data it @ be 4 0x504b0708 @ le 4 (item_crc it) @
      le 4 (int (length (i_data it))) @ le 4 (int (length (i_data it)))"
    using w(2) by (simp add: locals_def local_bytes_def)
  have at_file: "(file_at now off it)\<lparr>headerArray := header_of now it (item_crc it) (int (length (i_data it)))\<rparr> =
      file_at now off it" for off by (simp add: file_at_def)
  note unf = add_def writeFile_def name Let_def free name_bytes_def [symmetric] zw1_def [symmetric] head w1(1)
  show ?thesis
  proof (cases ro)
    case None
    with src have e: "i_data it = []" by (simp add: item_source_def)
    have at0: "(file_at now off it)\<lparr>headerArray := header_of now it (item_crc it) 0\<rparr> = file_at now off it" for off
      using at_file e by simp
    obtain w' where "writeFooter (final_name it) (header_of now it 0 0) None None wr zw2 w1 = (Inr (), zw3, w')"
        "ready w'" "written w' = locals now (its @ [it])"
      using footer_closed [OF w1(3) at_name, of "(None, None)"] e w1(2)
      by (auto simp: zw3_def at0 full)
    then show ?thesis using None inv3 by (simp add: unf)
  next
    case (Some r)
    with src obtain r1 where r1: "rinit r = (Got (length (i_data it)), r1)" "holds r1 (i_data it)"
      by (auto simp: item_source_def)
    obtain r2 w2 where cp: "copy rd wr 0 (length (i_data it)) True r1 w1 =
          (Ended (length (i_data it), Crc32.crc32 (i_data it)), r2, w2)"
        and w2: "ready w2" "written w2 = written w1 @ i_data it"
      using copy_whole [OF r1(2) w1(3), of True] by auto
    obtain w' where "writeFooter (final_name it) (header_of now it 0 0) (Some (Crc32.crc32 (i_data it)))
          (Some (length (i_data it), length (i_data it))) wr zw2 w2 = (Inr (), zw3, w')"
        "ready w'" "written w' = locals now (its @ [it])"
      using footer_closed [OF w2(1) at_name, of "(Some (Crc32.crc32 (i_data it)), Some (length (i_data it), length (i_data it)))"]
        w2(2) w1(2)
      by (auto simp: zw3_def at_file full)
    then show ?thesis using Some inv3 it(1) r1 cp by (simp add: unf stored_def footer_after_def or_0_def)
  qed
qed

end

section \<open>Whole archives\<close>

fun add_all :: "'p append_fn \<Rightarrow> 'p flush_fn \<Rightarrow> (int option \<Rightarrow> 'p) \<Rightarrow> ('r \<Rightarrow> nat io \<times> 'r) \<Rightarrow> 'r read_fn \<Rightarrow>
    'w write_fn \<Rightarrow> bool \<Rightarrow> js_date \<Rightarrow> (item \<times> 'r option) list \<Rightarrow> zip_writer \<Rightarrow> 'w \<Rightarrow>
    unit zres \<times> zip_writer \<times> 'w" where
  "add_all app fl nd rinit rd wr dd now [] zw w = (Inr (), zw, w)"
| "add_all app fl nd rinit rd wr dd now ((it, ro) # rest) zw w =
     (case add app fl nd rinit rd wr dd now (i_name it) ro (i_opts it) zw w of
        (Inl f, zw', w') \<Rightarrow> (Inl f, zw', w')
      | (Inr u, zw', w') \<Rightarrow> add_all app fl nd rinit rd wr dd now rest zw' w')"

definition names_ok :: "item list \<Rightarrow> bool" where
  "names_ok its = (distinct (map final_name its) \<and> (\<forall>it \<in> set its. good_name (final_name it)))"

context transfer
begin

lemma add_all_closed:
  assumes "writer_inv now pre zw" "ready w" "written w = locals now pre"
    and "names_ok (pre @ map fst xs)"
    and "\<forall>(it, ro) \<in> set xs. stored dd it \<and> item_source rinit holds it ro"
  shows "\<exists>zw' w'. add_all app fl nd rinit rd wr dd now xs zw w = (Inr (), zw', w') \<and>
    writer_inv now (pre @ map fst xs) zw' \<and> ready w' \<and> written w' = locals now (pre @ map fst xs)"
  using assms
proof (induction xs arbitrary: pre zw w)
  case (Cons x xs)
  obtain it ro where x: "x = (it, ro)" by fastforce
  have it: "stored dd it" "good_name (final_name it)" "final_name it \<notin> set (map final_name pre)"
      "item_source rinit holds it ro"
    using Cons.prems(4,5) by (auto simp: x names_ok_def)
  obtain zw1 w1 where step: "add app fl nd rinit rd wr dd now (i_name it) ro (i_opts it) zw w = (Inr (), zw1, w1)"
      "writer_inv now (pre @ [it]) zw1" "ready w1" "written w1 = locals now (pre @ [it])"
    using add_stored [OF Cons.prems(1-3) it] by blast
  have "names_ok ((pre @ [it]) @ map fst xs)" using Cons.prems(4) by (simp add: x)
  from Cons.IH [OF step(2-4) this] Cons.prems(5) step(1) show ?case by (auto simp: x)
qed simp

lemma close_closed:
  assumes "writer_inv now its zw" "ready w" "written w = locals now its"
  shows "\<exists>w'. close wr zw w = (Inr (), w') \<and> ready w' \<and> written w' = archive now its"
proof -
  let ?dir = "concat (map central_bytes (files_from now 0 its))"
  have fs: "files_of zw (filenames zw) = Inr (files_from now 0 its)" "length (filenames zw) = length its"
      "datalength zw = length (locals now its)"
    using assms(1) by (simp_all add: writer_inv_def)
  have "\<forall>f \<in> set (files_from now 0 its). length (headerArray f) = 26" using files_from_headers by blast
  from directory_bytes_closed [OF fs(1) this] fs
  have dir: "directory_bytes zw = Inr (?dir @ end_bytes (length its) (length ?dir) (length (locals now its)))" by simp
  obtain w' where "wr w (Bytes (?dir @ end_bytes (length its) (length ?dir) (length (locals now its)))) = Got w'"
      "written w' = written w @ ?dir @ end_bytes (length its) (length ?dir) (length (locals now its))" "ready w'"
    using write_ready [OF assms(2)] .
  then show ?thesis using assms(3) by (simp add: close_def dir archive_def Let_def)
qed

lemma write_archive:
  assumes "ready w" "written w = []" "names_ok (map fst xs)"
    and "\<forall>(it, ro) \<in> set xs. stored dd it \<and> item_source rinit holds it ro"
  shows "\<exists>zw w1 w2. add_all app fl nd rinit rd wr dd now xs createZipWriter w = (Inr (), zw, w1) \<and>
    close wr zw w1 = (Inr (), w2) \<and> written w2 = archive now (map fst xs)"
proof -
  have "written w = locals now []" using assms(2) by (simp add: locals_def)
  from add_all_closed [OF writer_inv_start assms(1) this, of xs dd rinit app fl nd] assms(3,4)
  obtain zw w1 where 1: "add_all app fl nd rinit rd wr dd now xs createZipWriter w = (Inr (), zw, w1)"
      and inv: "writer_inv now (map fst xs) zw" "ready w1" "written w1 = locals now (map fst xs)"
    unfolding append_Nil by blast
  from close_closed [OF inv] 1 show ?thesis by blast
qed

end

section \<open>Reading the closed form\<close>

definition raw_date :: "js_date \<Rightarrow> nat" where
  "raw_date d = nat (dos_time d + dos_date d * 65536)"

definition expected :: "js_date \<Rightarrow> nat \<Rightarrow> item \<Rightarrow> zip_entry" where
  "expected now off it =
     \<lparr>version = nat (version_field (i_opts it)), bitFlag = 0x0808, compressionMethod = 0,
      lastModDateRaw = raw_date (item_date now it), lastModDate = getDate (of_nat (raw_date (item_date now it))),
      crc32 = Some (nat (item_crc it)), compressedSize = Some (length (i_data it)),
      uncompressedSize = Some (length (i_data it)), filenameLength = length (name_bytes it),
      extraFieldLength = 0, commentLength = length (comment_bytes it),
      directory = (o_directory (i_opts it) \<or> (final_name it \<noteq> [] \<and> last (final_name it) = 47)),
      offset = off, filename = final_name it, comment = o_comment (i_opts it)\<rparr>"

fun expected_all :: "js_date \<Rightarrow> nat \<Rightarrow> item list \<Rightarrow> zip_entry list" where
  "expected_all now off [] = []"
| "expected_all now off (it # its) = expected now off it # expected_all now (off + length (local_bytes now it)) its"

definition item_fits :: "js_date \<Rightarrow> item \<Rightarrow> bool" where
  "item_fits now it =
     (length (name_bytes it) < 65536 \<and> length (comment_bytes it) < 65536 \<and>
      u16 (dos_time (item_date now it)) \<and> u16 (dos_date (item_date now it)) \<and>
      length (i_data it) < 0xFFFFFFFF)"

lemma item_ranges:
  "u16 (version_field opts)" "u32 (item_crc it)"
  using uint_lt2p [of "Crc32.crc32 (i_data it)"]
  by (auto simp: u16_def u32_def version_field_def item_crc_def intro: less_trans [OF pos_mod_bound])

lemma be_val: "drop i bs = be 4 v @ rest \<Longrightarrow> i \<le> length bs \<Longrightarrow> u32 v \<Longrightarrow> getUint 4 False bs i = Inr (nat v)"
proof -
  assume *: "drop i bs = be 4 v @ rest" "i \<le> length bs" "u32 v"
  have "i + 4 \<le> length bs" using within [OF *(1,2), of 4] by simp
  moreover have "int (le_val (le 4 v)) = v" using *(3) by (intro le_val_le) (simp_all add: u32_def)
  then have "le_val (le 4 v) = nat v" by linarith
  ultimately show ?thesis using *(1) by (simp add: getUint_def be_def)
qed

lemma byte_val: "drop i bs = b # rest \<Longrightarrow> getUint 1 True bs i = Inr (unat b)"
proof -
  assume *: "drop i bs = b # rest"
  then have "i + 1 \<le> length bs" by (metis Suc_eq_plus1 Suc_leI drop_eq_Nil2 leI list.distinct(1))
  then show ?thesis using * by (simp add: getUint_def)
qed

lemma subarray_drop:
  assumes "drop a data = xs @ rest" "a \<le> length data"
  shows "subarray data a (a + length xs) = xs"
proof -
  have "a + length xs \<le> length data" using within [OF assms] by simp
  then show ?thesis using rel_slice_nat [of a "length xs" data] assms(1) by (simp add: subarray_def)
qed

lemma field_roundtrip: "decodeUTF8 (getString (getBytes (encodeUTF8 s))) = s"
  by (simp add: getString_getBytes_encode decode_encode)

lemma central_entry_closed:
  assumes data: "drop i data = central_bytes (file_at now off it) @ rest" "i \<le> length data"
    and fits: "item_fits now it" "off < 4294967296"
  shows "central_entry data i = Inr (expected now off it) \<and>
    central_length (expected now off it) = length (central_bytes (file_at now off it))"
proof -
  let ?f = "file_at now off it"
  have hdr: "headerArray ?f = header_of now it (item_crc it) (int (length (i_data it)))" by (simp add: file_at_def)
  have len: "length (central_bytes ?f) = 46 + length (name_bytes it) + length (comment_bytes it)"
    by (simp add: length_central_bytes central_size_def file_at_def)
  have le: "i + k \<le> length data" if "k \<le> 46 + length (name_bytes it)" for k
    using within [OF data] len that by simp
  have drop: "drop (i + k) data = drop k (central_bytes ?f @ rest)" for k unfolding drop_plus data(1) ..
  have sig: "getUint 4 False data i = Inr 0x504b0102"
    using be_val [of i data "0x504b0102"] data by (simp add: central_bytes_def u32_def)
  have hd: "readCommonHeader new_Entry data (i + 6) True =
      Done (header_read True (version_field (i_opts it)) 0x0808 0 (dos_time (item_date now it)) (dos_date (item_date now it))
        (item_crc it) (int (length (i_data it))) (int (length (i_data it))) (int (length (name_bytes it))) new_Entry)"
    by (rule read_header [where rest = "drop 32 (central_bytes ?f @ rest)"])
      (use fits(1) le item_ranges in \<open>simp_all add: drop central_bytes_def hdr header_of_def item_fits_def u16_def u32_def\<close>)
  have "u16 (int (length (comment_bytes it)))" using fits(1) by (simp add: item_fits_def u16_def)
  then have clen: "getUint 2 True data (i + 32) = Inr (length (comment_bytes it))"
    using get16 [of "i + 32" data "int (length (comment_bytes it))"] le [of 32]
    by (simp add: drop central_bytes_def hdr file_at_def)
  have attr: "getUint 1 True data (i + 38) = Inr (if o_directory (i_opts it) then 16 else 0)"
    using byte_val [of "i + 38" data] by (simp add: drop central_bytes_def hdr file_at_def)
  have "u32 (int off)" using fits(2) by (simp add: u32_def)
  then have offs: "getUint 4 True data (i + 42) = Inr off"
    using get32 [of "i + 42" data "int off"] le [of 42] by (simp add: drop central_bytes_def hdr file_at_def)
  have name: "subarray data (i + 46) (i + 46 + length (name_bytes it)) = name_bytes it"
    using subarray_drop [of "i + 46" data "name_bytes it"] le [of 46]
    by (simp add: drop central_bytes_def hdr file_at_def)
  have com: "subarray data (i + 46 + length (name_bytes it)) (i + 46 + length (name_bytes it) + length (comment_bytes it)) = comment_bytes it"
  proof -
    have "drop (i + 46) data = name_bytes it @ comment_bytes it @ rest"
      by (simp add: drop central_bytes_def hdr file_at_def)
    then have "drop (i + 46 + length (name_bytes it)) data = comment_bytes it @ rest"
      unfolding drop_plus [of "i + 46"] by simp
    then show ?thesis using le [of "46 + length (name_bytes it)"] by (intro subarray_drop) (simp_all add: add.assoc)
  qed
  define h where "h = header_read True (version_field (i_opts it)) 0x0808 0 (dos_time (item_date now it))
      (dos_date (item_date now it)) (item_crc it) (int (length (i_data it))) (int (length (i_data it)))
      (int (length (name_bytes it))) new_Entry"
  have h: "bitFlag h = 0x0808" "filenameLength h = length (name_bytes it)" "extraFieldLength h = 0"
    by (simp_all add: h_def header_read_def Let_def)
  have flag: "(0x0808 :: nat) AND 0x0800 = 0x0800" by simp
  have attr': "((if o_directory (i_opts it) then 16 else 0) AND 0x10 = (0x10 :: nat)) = o_directory (i_opts it)" by simp
  have dec: "decode_field e (name_bytes it) = final_name it" "decode_field e (comment_bytes it) = o_comment (i_opts it)"
    if "bitFlag e = 0x0808" for e
    unfolding decode_field_def that flag by (simp_all add: name_bytes_def comment_bytes_def field_roundtrip)
  let ?dir = "o_directory (i_opts it) \<or> (final_name it \<noteq> [] \<and> last (final_name it) = 47)"
  have "central_entry data i = Inr (h\<lparr>commentLength := length (comment_bytes it), directory := o_directory (i_opts it), offset := off,
      filename := final_name it, directory := ?dir, comment := o_comment (i_opts it)\<rparr>)"
    unfolding central_entry_def sig hd h_def [symmetric] run_result.simps zbind.simps clen attr attr' offs Let_def
    by (simp add: h name com dec)
  also have "h\<lparr>commentLength := length (comment_bytes it), directory := o_directory (i_opts it), offset := off,
      filename := final_name it, directory := ?dir, comment := o_comment (i_opts it)\<rparr> = expected now off it"
    by (simp add: h_def header_read_def new_Entry_def expected_def raw_date_def)
  finally have "central_entry data i = Inr (expected now off it)" .
  then show ?thesis by (simp add: len central_length_def expected_def)
qed

lemma central_entries_closed:
  assumes "drop i data = concat (map central_bytes (files_from now off its)) @ rest" "i \<le> length data"
    and "\<forall>it \<in> set its. item_fits now it" "off + length (locals now its) < 4294967296"
  shows "central_entries data (length its) i = Inr (expected_all now off its)"
  using assms
proof (induction its arbitrary: i off)
  case (Cons it its)
  let ?c = "central_bytes (file_at now off it)"
  have here: "drop i data = ?c @ concat (map central_bytes (files_from now (off + length (local_bytes now it)) its)) @ rest"
    using Cons.prems(1) by simp
  have first: "central_entry data i = Inr (expected now off it)" "central_length (expected now off it) = length ?c"
    using central_entry_closed [OF here Cons.prems(2)] Cons.prems(3,4) by simp_all
  have after: "drop (i + length ?c) data = concat (map central_bytes (files_from now (off + length (local_bytes now it)) its)) @ rest"
    unfolding drop_plus here by simp
  have "i + length ?c \<le> length data" using within [OF here Cons.prems(2)] by simp
  from Cons.IH [OF after this] Cons.prems(3,4) first show ?case by (simp add: locals_def add.assoc)
qed simp

definition archive_fits :: "js_date \<Rightarrow> item list \<Rightarrow> bool" where
  "archive_fits now its =
     (length its < 65536 \<and> length (locals now its) < 4294967296 \<and> (\<forall>it \<in> set its. item_fits now it))"

lemma length_end_bytes [simp]: "length (end_bytes count len start) = 22"
  by (simp add: end_bytes_def)

lemma end_fields:
  assumes "count < 65536" "start < 4294967296"
  shows "getUint 4 False (end_bytes count len start) 0 = Inr 0x504b0506"
    "getUint 4 True (end_bytes count len start) 16 = Inr start"
    "getUint 2 True (end_bytes count len start) 8 = Inr count"
proof -
  show "getUint 4 False (end_bytes count len start) 0 = Inr 0x504b0506"
    using be_val [of 0 "end_bytes count len start" "0x504b0506"] by (simp add: end_bytes_def u32_def)
  have "u32 (int start)" "u16 (int count)" using assms by (simp_all add: u32_def u16_def)
  then show "getUint 4 True (end_bytes count len start) 16 = Inr start"
    "getUint 2 True (end_bytes count len start) 8 = Inr count"
    using get32 [of 16 "end_bytes count len start" "int start"] get16 [of 8 "end_bytes count len start" "int count"]
    by (simp_all add: end_bytes_def)
qed

lemma dates_fit:
  assumes "item_fits now it"
  shows "header_read False (version_field (i_opts it)) 0x0808 0 (dos_time (item_date now it)) (dos_date (item_date now it))
      0 0 0 (int (length (name_bytes it))) (expected now off it) = expected now off it"
  by (simp add: header_read_def expected_def raw_date_def Let_def)

lemma read_or_got: "read_or m (Got x, r) f = f x r"
  by (simp add: read_or_def)

context byte_source
begin

lemma getEntries_closed:
  assumes "holds r (archive now its)" "archive_fits now its"
  shows "\<exists>r'. getEntries rd (int (length (archive now its))) r = (Inr (expected_all now 0 its), r') \<and>
    holds r' (archive now its)"
proof -
  let ?L = "locals now its" and ?C = "concat (map central_bytes (files_from now 0 its))"
  let ?E = "end_bytes (length its) (length ?C) (length ?L)"
  have arch: "archive now its = ?L @ ?C @ ?E" by (simp add: archive_def Let_def)
  have "holds r ((?L @ ?C) @ ?E @ [])" using assms(1) arch by simp
  from read_part [OF this] obtain r1 where r1: "rd r (int (length (?L @ ?C))) 22 = (Got ?E, r1)"
      "holds r1 (?L @ (?C @ ?E) @ [])" by (auto simp: end_bytes_def)
  from read_part [OF r1(2)] obtain r2 where
      r2: "rd r1 (int (length ?L)) (int (length (?C @ ?E))) = (Got (?C @ ?E), r2)" "holds r2 (archive now its)"
    by (auto simp: arch end_bytes_def)
  have size: "int (length (archive now its)) - 22 = int (length (?L @ ?C))"
    "int (length (archive now its)) - int (length ?L) = int (length (?C @ ?E))"
    "(int (length (archive now its)) < 22) = False" by (simp_all add: arch)
  have "central_entries (?C @ ?E) (length its) 0 = Inr (expected_all now 0 its)"
    using assms(2) by (intro central_entries_closed) (auto simp: archive_fits_def)
  then show ?thesis
    using assms(2) r2 unfolding getEntries_def size(3) if_False size(1) r1(1) read_or_got
    by (simp add: archive_fits_def end_fields size(2) read_or_got)
qed

end

lemma local_split: "local_bytes now it =
    (be 4 0x504b0304 @ header_of now it 0 0) @ name_bytes it @ i_data it @
    be 4 0x504b0708 @ le 4 (item_crc it) @ le 4 (int (length (i_data it))) @ le 4 (int (length (i_data it)))"
  by (simp add: local_bytes_def)

context transfer
begin

lemma getData_stored:
  assumes arch: "holds r (a @ (be 4 0x504b0304 @ header_of now it 0 0) @ name_bytes it @ d @ c)"
    and it: "item_fits now it" "length d = length (i_data it)"
    and w: "winit w = Got w0" "ready w0" "written w0 = []"
  shows "\<exists>r' w'. getData app fl p rd winit wr check (expected now (length a) it) r w =
      (if check \<and> Crc32.crc32 d \<noteq> Crc32.crc32 (i_data it) then Inl (OnError ERR_READ_DATA) else Inr (),
       expected now (length a) it, r', w') \<and> written w' = d"
proof -
  let ?e = "expected now (length a) it" and ?head = "be 4 0x504b0304 @ header_of now it 0 0"
  have off: "offset ?e = length a" "filenameLength ?e = length (name_bytes it)" "extraFieldLength ?e = 0"
    "compressionMethod ?e = 0" "compressedSize ?e = Some (length d)"
    using it(2) by (simp_all add: expected_def)
  have "?head \<noteq> []" "length ?head = 30" by (simp_all add: be_bytes)
  then obtain r1 where r1: "rd r (int (length a)) 30 = (Got ?head, r1)"
      "holds r1 ((a @ ?head @ name_bytes it) @ d @ c)"
    using read_part [of r a ?head "name_bytes it @ d @ c"] arch by (metis append_assoc of_nat_numeral)
  have sig: "getUint 4 False ?head 0 = Inr 0x504b0304"
    using be_val [of 0 ?head "0x504b0304"] by (simp add: u32_def)
  have "readCommonHeader ?e ?head 4 False = Done (header_read False (version_field (i_opts it)) 0x0808 0
      (dos_time (item_date now it)) (dos_date (item_date now it)) 0 0 0 (int (length (name_bytes it))) ?e)"
    by (rule read_header [where rest = "[]"])
      (use it item_ranges in \<open>auto simp: header_of_def item_fits_def u16_def u32_def expected_def\<close>)
  then have hd: "readCommonHeader ?e ?head 4 False = Done ?e" using dates_fit [OF it(1)] by simp
  obtain r2 w2 where cp: "copy rd wr (length (a @ ?head @ name_bytes it)) (length d) check r1 w0 =
      (Ended (length d, if check then Crc32.crc32 d else 0), r2, w2)"
      "written w2 = written w0 @ d"
    using copy_exact [OF r1(2) w(2), of check] by metis
  have at: "length a + 30 + length (name_bytes it) + 0 = length (a @ ?head @ name_bytes it)" by simp
  have crc: "testCrc32 ?e (Crc32.crc32 d) = (Crc32.crc32 d = Crc32.crc32 (i_data it))"
    by (auto simp: testCrc32_def expected_def item_crc_def word_unat_eq_iff)
  show ?thesis
    unfolding getData_def off r1(1) prod.case io.case sig sum.case hd run.case Let_def w(1) at or_0_def option.case cp(1)
    using cp(2) w(3) crc by (simp add: getWriterData_def)
qed

lemma getData_closed:
  assumes "holds r (a @ local_bytes now it @ c)" "item_fits now it"
    and "winit w = Got w0" "ready w0" "written w0 = []"
  shows "\<exists>r' w'. getData app fl p rd winit wr check (expected now (length a) it) r w =
      (Inr (), expected now (length a) it, r', w') \<and> written w' = i_data it"
proof -
  obtain foot where "local_bytes now it =
      (be 4 0x504b0304 @ header_of now it 0 0) @ name_bytes it @ i_data it @ foot"
    using local_split [of now it] by blast
  with assms(1) have "holds r (a @ (be 4 0x504b0304 @ header_of now it 0 0) @ name_bytes it @ i_data it @ (foot @ c))"
    by simp
  from getData_stored [of r a now it "i_data it" "foot @ c" winit w, OF this assms(2) refl assms(3-5)] show ?thesis by simp
qed

end

lemma item_position:
  assumes "its = xs @ it # ys"
  shows "\<exists>c. archive now its = locals now xs @ local_bytes now it @ c"
    "expected_all now off its ! length xs = expected now (off + length (locals now xs)) it"
proof -
  show "\<exists>c. archive now its = locals now xs @ local_bytes now it @ c"
    using assms by (simp add: archive_def Let_def locals_def)
  show "expected_all now off its ! length xs = expected now (off + length (locals now xs)) it"
    unfolding assms by (induction xs arbitrary: off) (simp_all add: locals_def add.assoc)
qed

section \<open>Properties\<close>

text \<open>Blobs on both sides: what \<open>createWriter\<close> and \<open>createReader\<close> pass to the functions above.\<close>

definition blob_rinit :: "blob_reader \<Rightarrow> nat io \<times> blob_reader" where
  "blob_rinit r = (Got (length (br_blob r)), blob_init r)"

definition bw_open_new :: "blob_writer \<Rightarrow> blob_writer io" where
  "bw_open_new w = Got (bw_init w)"

definition blob_item :: "item \<Rightarrow> item \<times> blob_reader option" where
  "blob_item it = (it, if o_directory (i_opts it) then None else Some (BlobReader (i_data it)))"

lemma blob_item_source:
  "o_directory (i_opts it) \<longrightarrow> i_data it = [] \<Longrightarrow> item_source blob_rinit blob_holds it (snd (blob_item it))"
  by (simp add: item_source_def blob_item_def blob_rinit_def blob_holds_def blob_init_def BlobReader_def)

lemma length_expected_all [simp]: "length (expected_all now off its) = length its"
  by (induction now off its rule: expected_all.induct) simp_all

text \<open>
  What the reader says of an entry that was stored. An entry is a directory when it was added as one, and also when
  its name ends in a slash (code unit 47), which the names of all directories do.
\<close>

definition describes :: "zip_entry \<Rightarrow> item \<Rightarrow> bool" where
  "describes e it \<longleftrightarrow> filename e = final_name it \<and> comment e = o_comment (i_opts it) \<and>
     (directory e \<longleftrightarrow> o_directory (i_opts it) \<or> (final_name it \<noteq> [] \<and> last (final_name it) = 47)) \<and>
     compressedSize e = Some (length (i_data it)) \<and> uncompressedSize e = Some (length (i_data it)) \<and>
     crc32 e = Some (unat (Crc32.crc32 (i_data it)))"

lemma expected_describes: "describes (expected now off it) it"
  by (simp add: describes_def expected_def item_crc_def)

text \<open>
  C1. What goes into an archive comes out of it: for stored entries with distinct names, none of them \<open>length\<close> or inherited by
  arrays, with counts and sizes within the format's fields and no data for directories, adding every entry and closing
  the writer succeeds, the reader finds in the resulting bytes exactly these entries in this order, with their names, comments,
  sizes and checksums, the directories and the names that end in a slash as directories and the others as files, and
  extracting any of them with the checksum test delivers its content.
\<close>

theorem archive_roundtrip:
  assumes "names_ok its" "archive_fits now its"
    and "\<forall>it \<in> set its. stored dd it \<and> (o_directory (i_opts it) \<longrightarrow> i_data it = [])"
  shows "\<exists>zw w1 w2 es r.
    add_all app fl nd blob_rinit blob_read bw_write dd now (map blob_item its) createZipWriter
      (bw_init (BlobWriter t)) = (Inr (), zw, w1) \<and>
    close bw_write zw w1 = (Inr (), w2) \<and>
    getEntries blob_read (int (length (bw_written w2))) (BlobReader (bw_written w2)) = (Inr es, r) \<and>
    length es = length its \<and>
    (\<forall>k < length its. describes (es ! k) (its ! k) \<and>
       (\<exists>e r' w'. getData app' fl' p blob_read bw_open_new bw_write True (es ! k) r (BlobWriter t') = (Inr (), e, r', w') \<and>
          bw_written w' = i_data (its ! k)))"
proof -
  have w: "bw_open (bw_init (BlobWriter t))" "bw_written (bw_init (BlobWriter t)) = []" for t
    by (simp_all add: bw_init_def bw_written_def)
  have its: "map fst (map blob_item its) = its" by (simp add: blob_item_def comp_def)
  have "\<forall>(it, ro) \<in> set (map blob_item its). stored dd it \<and> item_source blob_rinit blob_holds it ro"
    using assms(3) blob_item_source by (fastforce simp: blob_item_def)
  from blob_transfer.write_archive [OF w _ this, of app fl nd now t] assms(1)
  obtain zw w1 w2 where wrote: "add_all app fl nd blob_rinit blob_read bw_write dd now (map blob_item its) createZipWriter
        (bw_init (BlobWriter t)) = (Inr (), zw, w1)" "close bw_write zw w1 = (Inr (), w2)"
      "bw_written w2 = archive now its" unfolding its by blast
  have "blob_holds (BlobReader (archive now its)) (archive now its)" by (simp add: blob_holds_def BlobReader_def)
  from blob.getEntries_closed [OF this assms(2)] obtain r where
    r: "getEntries blob_read (int (length (archive now its))) (BlobReader (archive now its)) = (Inr (expected_all now 0 its), r)"
      "blob_holds r (archive now its)" by blast
  have each: "describes e it \<and>
      (\<exists>e' r' w'. getData app' fl' p blob_read bw_open_new bw_write True e r (BlobWriter t') = (Inr (), e', r', w') \<and>
          bw_written w' = i_data it)"
    if k: "k < length its" "it = its ! k" "e = expected_all now 0 its ! k" for k it e
  proof -
    have split: "its = take k its @ it # drop (Suc k) its" using k(1,2) by (simp add: id_take_nth_drop)
    have e: "e = expected now (length (locals now (take k its))) it"
      using item_position(2) [OF split, of now 0] k(1,3) by simp
    obtain c where "archive now its = locals now (take k its) @ local_bytes now it @ c"
      using item_position(1) [OF split] by blast
    then have "blob_holds r (locals now (take k its) @ local_bytes now it @ c)" using r(2) by simp
    moreover have "item_fits now it" using assms(2) k(1,2) by (simp add: archive_fits_def)
    ultimately obtain r' w' where "getData app' fl' p blob_read bw_open_new bw_write True e r (BlobWriter t') = (Inr (), e, r', w')"
        "bw_written w' = i_data it"
      using blob_transfer.getData_closed [where winit = bw_open_new and w = "BlobWriter t'" and app = app' and fl = fl'
          and p = p and check = True, OF _ _ bw_open_new_def w] unfolding e by blast
    moreover have "describes e it" unfolding e by (rule expected_describes)
    ultimately show ?thesis by blast
  qed
  from each [OF _ refl refl] have "\<forall>k < length its. describes (expected_all now 0 its ! k) (its ! k) \<and>
      (\<exists>e r' w'. getData app' fl' p blob_read bw_open_new bw_write True (expected_all now 0 its ! k) r (BlobWriter t') =
          (Inr (), e, r', w') \<and> bw_written w' = i_data (its ! k))" by (intro allI impI)
  with wrote(1,2) r(1) [folded wrote(3)] show ?thesis
    by (intro exI conjI) (assumption | rule length_expected_all)+
qed

definition demo_items :: "item list" where
  "demo_items =
     [\<lparr>i_name = js ''a'', i_data = [], i_opts = no_options\<lparr>o_directory := True\<rparr>\<rparr>,
      \<lparr>i_name = js '' a/b.txt '', i_data = [1, 2, 3], i_opts = no_options\<lparr>o_comment := js ''c''\<rparr>\<rparr>]"

definition demo_now :: js_date where
  "demo_now = \<lparr>year = 2012, month = 5, day = 7, hours = 11, minutes = 30, seconds = 20\<rparr>"

lemma demo_names: "map final_name demo_items = [js ''a/'', js ''a/b.txt'']"
  by (simp add: demo_items_def final_name_def entry_name_def trim_def white_def no_options_def)

lemma demo_names_ok: "names_ok demo_items"
proof -
  have "\<forall>n \<in> set (map final_name demo_items). good_name n"
    unfolding demo_names by (simp add: good_name_def array_prototype_def object_prototype_def)
  moreover have "distinct (map final_name demo_items)" unfolding demo_names by simp
  ultimately show ?thesis by (simp add: names_ok_def)
qed

lemma demo_fits: "archive_fits demo_now demo_items"
proof -
  obtain d f where its: "demo_items = [d, f]" by (simp add: demo_items_def)
  have names: "final_name d = js ''a/'' \<and> final_name f = js ''a/b.txt''" using demo_names by (simp add: its)
  have parts: "i_data d = [] \<and> i_data f = [1, 2, 3] \<and> o_comment (i_opts d) = [] \<and> o_comment (i_opts f) = js ''c'' \<and>
      item_date demo_now d = demo_now \<and> item_date demo_now f = demo_now"
    using its by (auto simp: demo_items_def item_date_def no_options_def)
  have time: "dos_time demo_now = 23498" "dos_date demo_now = 16583"
    by (simp_all add: dos_time_def dos_date_def demo_now_def)
  have lens: "length (name_bytes d) = 2 \<and> length (name_bytes f) = 7 \<and> length (comment_bytes d) = 0 \<and> length (comment_bytes f) = 1"
    using names parts by (simp add: name_bytes_def comment_bytes_def getBytes_def encodeUTF8_map enc1_def)
  show ?thesis
    using parts lens unfolding archive_fits_def its
    by (simp add: item_fits_def locals_def length_local_bytes time u16_def)
qed

theorem archive_roundtrip_witness:
  "\<exists>zw w1 w2 es r.
    add_all (\<lambda>a p. (Inr None, p)) (\<lambda>p. (Inr None, p)) (\<lambda>_. ()) blob_rinit blob_read bw_write True demo_now (map blob_item demo_items)
      createZipWriter (bw_init (BlobWriter None)) = (Inr (), zw, w1) \<and>
    close bw_write zw w1 = (Inr (), w2) \<and>
    getEntries blob_read (int (length (bw_written w2))) (BlobReader (bw_written w2)) = (Inr es, r) \<and>
    length es = length demo_items \<and>
    (\<forall>k < length demo_items. describes (es ! k) (demo_items ! k) \<and>
       (\<exists>e r' w'. getData (\<lambda>a p. (Inr None, p)) (\<lambda>p. (Inr None, p)) () blob_read bw_open_new bw_write True (es ! k) r
          (BlobWriter None) = (Inr (), e, r', w') \<and> bw_written w' = i_data (demo_items ! k)))"
  by (rule archive_roundtrip [OF demo_names_ok demo_fits])
    (simp add: demo_items_def stored_def no_options_def)

text \<open>
  C11. A byte of a stored entry that was damaged after the archive was written is noticed when the entry
  is extracted with the checksum test: \<open>getData\<close> reports an error instead of the content.
\<close>

theorem damaged_byte_detected:
  assumes "i_data it = xs @ x # ys" "y \<noteq> x" "item_fits now it"
  shows "fst (getData app fl p blob_read bw_open_new bw_write True (expected now (length a) it)
      (BlobReader (a @ be 4 0x504b0304 @ header_of now it 0 0 @ name_bytes it @ (xs @ y # ys) @ c)) (BlobWriter t)) =
    Inl (OnError ERR_READ_DATA)"
proof -
  let ?r = "BlobReader (a @ be 4 0x504b0304 @ header_of now it 0 0 @ name_bytes it @ (xs @ y # ys) @ c)"
  have w: "bw_open_new (BlobWriter t) = Got (bw_init (BlobWriter t))" "bw_open (bw_init (BlobWriter t))"
    "bw_written (bw_init (BlobWriter t)) = []"
    by (simp_all add: bw_open_new_def bw_init_def bw_written_def)
  have "blob_holds ?r (a @ (be 4 0x504b0304 @ header_of now it 0 0) @ name_bytes it @ (xs @ y # ys) @ c)"
    by (simp add: blob_holds_def BlobReader_def)
  moreover have "length (xs @ y # ys) = length (i_data it)" by (simp add: assms(1))
  moreover have "Crc32.crc32 (xs @ y # ys) \<noteq> Crc32.crc32 (i_data it)"
    using crc32_one_byte [of y x xs ys] assms(1,2) by simp
  ultimately show ?thesis
    using blob_transfer.getData_stored [of ?r a now it "xs @ y # ys" c bw_open_new "BlobWriter t", where check = True and app = app and fl = fl and p = p, OF _ assms(3) _ w]
    by fastforce
qed

theorem damaged_byte_detected_witness:
  "fst (getData (\<lambda>a p. (Inr None, p)) (\<lambda>p. (Inr None, p)) () blob_read bw_open_new bw_write True
      (expected demo_now (length ([] :: byte list)) (demo_items ! 1))
      (BlobReader ([] @ be 4 0x504b0304 @ header_of demo_now (demo_items ! 1) 0 0 @ name_bytes (demo_items ! 1) @
        ([1] @ 9 # [3]) @ [])) (BlobWriter None)) = Inl (OnError ERR_READ_DATA)"
proof (rule damaged_byte_detected [where x = 2])
  show "item_fits demo_now (demo_items ! 1)" using demo_fits by (simp add: archive_fits_def demo_items_def)
qed (simp_all add: demo_items_def)




text \<open>
  Names of members that every array inherits are refused although no such file exists: \<open>files[name]\<close>
  finds the inherited function.
\<close>

theorem inherited_name_refused:
  assumes "entry_name name opts \<in> set (map js array_prototype)"
  shows "add app fl nd rinit rd wr dd now name None opts createZipWriter w =
    (Inl (Uncaught (Thrown ERR_DUPLICATED_NAME)), createZipWriter, w)"
proof -
  have "js ''length'' \<notin> set (map js array_prototype)" by (simp add: array_prototype_def object_prototype_def)
  then have "name_taken createZipWriter (entry_name name opts)"
    using assms by (auto simp: name_taken_def)
  then show ?thesis by (simp add: add_def writeFile_def Let_def)
qed

theorem inherited_name_refused_witness:
  "add (\<lambda>a p. (Inr None, p)) (\<lambda>p. (Inr None, p)) (\<lambda>_. ()) blob_rinit blob_read bw_write True demo_now
      (js ''push'') None no_options createZipWriter (bw_init (BlobWriter None)) =
    (Inl (Uncaught (Thrown ERR_DUPLICATED_NAME)), createZipWriter, bw_init (BlobWriter None))"
  by (rule inherited_name_refused)
    (simp add: entry_name_def trim_def white_def no_options_def array_prototype_def)

text \<open>Any calls of \<open>add\<close>, one after the other, whatever becomes of them.\<close>

fun add_any :: "'p append_fn \<Rightarrow> 'p flush_fn \<Rightarrow> (int option \<Rightarrow> 'p) \<Rightarrow> ('r \<Rightarrow> nat io \<times> 'r) \<Rightarrow> 'r read_fn \<Rightarrow> 'w write_fn \<Rightarrow>
    bool \<Rightarrow> js_date \<Rightarrow> (jstring \<times> 'r option \<times> add_options) list \<Rightarrow> zip_writer \<Rightarrow> 'w \<Rightarrow> zip_writer \<times> 'w" where
  "add_any app fl nd rinit rd wr dd now [] zw w = (zw, w)"
| "add_any app fl nd rinit rd wr dd now ((name, ro, opts) # rest) zw w =
     (case add app fl nd rinit rd wr dd now name ro opts zw w of
        (_, zw', w') \<Rightarrow> add_any app fl nd rinit rd wr dd now rest zw' w')"

text \<open>No call of \<open>add\<close> puts a record under \<open>length\<close>, and names are never forgotten.\<close>

definition no_length :: "zip_writer \<Rightarrow> zip_writer \<Rightarrow> bool" where
  "no_length zw zw' \<longleftrightarrow> (files zw (js ''length'') = None \<longrightarrow> files zw' (js ''length'') = None) \<and>
     set (filenames zw) \<subseteq> set (filenames zw')"

lemma no_length_refl [simp]: "no_length zw zw"
  by (simp add: no_length_def)

lemma no_length_trans: "no_length zw zw1 \<Longrightarrow> no_length zw1 zw2 \<Longrightarrow> no_length zw zw2"
  by (auto simp: no_length_def)

lemma no_length_footer: "no_length zw (fst (snd (writeFooter name header crc sizes wr zw w)))"
  by (auto simp: writeFooter_def no_length_def Let_def simp del: js_simps split: sum.split io.split prod.split)

lemma no_length_footer_after: "no_length zw (fst (snd (footer_after name header rsize f wr zw w)))"
  by (cases f) (auto simp: footer_after_def no_length_footer split: prod.split)

lemma no_length_writeHeader:
  "writeHeader name fname opts dd now zw = Inr (data, header, zw') \<Longrightarrow> no_length zw zw'"
  by (auto simp: writeHeader_def no_length_def zbind_Inr_iff Let_def simp del: js_simps split: if_splits)

lemma no_length_writeFile: "no_length zw (fst (snd (writeFile app fl nd rd wr dd now name ro opts zw w)))"
proof -
  let ?name = "entry_name name opts" and ?zw1 = "zw\<lparr>filenames := filenames zw @ [entry_name name opts]\<rparr>"
  have zw1: "no_length zw ?zw1" by (simp add: no_length_def del: js_simps) blast
  have zw2: "no_length zw zw2" if "writeHeader ?name fname opts d now ?zw1 = Inr (data, header, zw2)" for fname d data header zw2
    by (rule no_length_trans [OF zw1 no_length_writeHeader [OF that]])
  note ends = no_length_trans [OF zw2 no_length_footer] no_length_trans [OF zw2 no_length_footer_after]
  show ?thesis using zw1
    by (auto simp: writeFile_def Let_def simp del: js_simps split: sum.split io.split option.split prod.split intro: zw2 ends)
qed

lemma no_length_add: "no_length zw (fst (snd (add app fl nd rinit rd wr dd now name ro opts zw w)))"
  by (simp add: add_def no_length_writeFile split: option.split prod.split io.split)

lemma no_length_add_any: "add_any app fl nd rinit rd wr dd now xs zw w = (zw', w') \<Longrightarrow> no_length zw zw'"
proof (induction xs arbitrary: zw w)
  case (Cons x xs)
  obtain name ro opts where x: "x = (name, ro, opts)" by (cases x)
  obtain r zw1 w1 where a: "add app fl nd rinit rd wr dd now name ro opts zw w = (r, zw1, w1)"
    by (cases "add app fl nd rinit rd wr dd now name ro opts zw w")
  have "no_length zw zw1" using no_length_add [of zw app fl nd rinit rd wr dd now name ro opts w] by (simp add: a)
  moreover have "no_length zw1 zw'" using Cons by (simp add: x a)
  ultimately show ?case by (rule no_length_trans)
qed simp

lemma files_of_missing: "n \<in> set ns \<Longrightarrow> files zw n = None \<Longrightarrow> files_of zw ns = Inl (Uncaught TypeError)"
  by (induction ns) (auto split: option.split)

lemma close_missing: "n \<in> set (filenames zw) \<Longrightarrow> files zw n = None \<Longrightarrow> close wr zw w = (Inl (Uncaught TypeError), w)"
  by (simp add: close_def directory_bytes_def files_of_missing)

text \<open>
  C39. A file called \<open>length\<close> destroys the archive under construction. After any calls of \<open>add\<close>, as long as
  no name was an array index, adding it, with or without data, throws a \<open>RangeError\<close> when the record
  is stored as the length of the array; and after any further calls of \<open>add\<close> a call of \<open>close\<close> throws a
  \<open>TypeError\<close>, because the name was recorded.
\<close>

theorem length_name_breaks_writer:
  assumes "add_any app fl nd rinit rd wr dd now earlier createZipWriter w0 = (zw, w)"
    and "\<forall>n \<in> set (filenames zw). \<not> array_index n" and "entry_name name opts = js ''length''"
    and "\<And>r. ro = Some r \<Longrightarrow> \<exists>n r'. rinit r = (Got n, r')"
  shows "\<exists>zw1. add app fl nd rinit rd wr dd now name ro opts zw w = (Inl (Uncaught RangeError), zw1, w) \<and>
    (\<forall>later zw2 w2. add_any app fl nd rinit rd wr dd now later zw1 w = (zw2, w2) \<longrightarrow>
       close wr zw2 w2 = (Inl (Uncaught TypeError), w2))"
proof -
  let ?zw1 = "zw\<lparr>filenames := filenames zw @ [js ''length'']\<rparr>"
  have none: "files zw (js ''length'') = None"
    using no_length_add_any [OF assms(1)] by (simp add: no_length_def createZipWriter_def del: js_simps)
  have free: "\<not> name_taken zw (js ''length'')" using assms(2) by (auto simp: name_taken_def)
  have "writeHeader (js ''length'') f opts dd now ?zw1 = Inl (Uncaught RangeError)" for f
    by (simp only: writeHeader_def simp_thms if_True)
  with free have wf: "writeFile app fl nd rd wr dd now name r opts zw w = (Inl (Uncaught RangeError), ?zw1, w)" for r
    unfolding writeFile_def Let_def assms(3) by (simp only: if_False sum.case)
  have add: "add app fl nd rinit rd wr dd now name ro opts zw w = (Inl (Uncaught RangeError), ?zw1, w)"
    using assms(4) by (cases ro) (auto simp: add_def wf simp del: js_simps)
  have "close wr zw2 w2 = (Inl (Uncaught TypeError), w2)"
    if "add_any app fl nd rinit rd wr dd now later ?zw1 w = (zw2, w2)" for later zw2 w2
  proof (rule close_missing)
    show "js ''length'' \<in> set (filenames zw2)" "files zw2 (js ''length'') = None"
      using no_length_add_any [OF that] none by (auto simp: no_length_def simp del: js_simps)
  qed
  with add show ?thesis by blast
qed

theorem length_name_breaks_writer_witness:
  "\<exists>zw1. add (\<lambda>a p. (Inr None, p)) (\<lambda>p. (Inr None, p)) (\<lambda>_. ()) blob_rinit blob_read bw_write True demo_now
      (js ''length'') (Some (BlobReader [7])) no_options createZipWriter (bw_init (BlobWriter None)) =
      (Inl (Uncaught RangeError), zw1, bw_init (BlobWriter None)) \<and>
    (\<forall>later zw2 w2. add_any (\<lambda>a p. (Inr None, p)) (\<lambda>p. (Inr None, p)) (\<lambda>_. ()) blob_rinit blob_read bw_write True demo_now
        later zw1 (bw_init (BlobWriter None)) = (zw2, w2) \<longrightarrow>
      close bw_write zw2 w2 = (Inl (Uncaught TypeError), w2))"
proof (rule length_name_breaks_writer [where earlier = "[]"])
  show "add_any (\<lambda>a p. (Inr None, p)) (\<lambda>p. (Inr None, p)) (\<lambda>_. ()) blob_rinit blob_read bw_write True demo_now []
      createZipWriter (bw_init (BlobWriter None)) = (createZipWriter, bw_init (BlobWriter None))" by simp
qed (simp_all add: entry_name_def trim_def white_def no_options_def createZipWriter_def blob_rinit_def)

text \<open>A record of the central directory that is encrypted, or has a size the format keeps for Zip64.\<close>

definition unsupported :: "byte list \<Rightarrow> nat \<Rightarrow> bool" where
  "unsupported data i \<longleftrightarrow> i + 28 \<le> length data \<and> getUint32_be data i = Inr 0x504b0102 \<and>
     ((\<exists>fl. getUint16 data (i + 8) = Inr fl \<and> fl AND 1 = 1) \<or>
      getUint32 data (i + 20) = Inr 0xFFFFFFFF \<or> getUint32 data (i + 24) = Inr 0xFFFFFFFF)"

lemma getUint_within_front: "i + n \<le> length a \<Longrightarrow> getUint n l (a @ bs) i = getUint n l a i"
  by (simp add: getUint_def)

lemma getUint_within: "i + n \<le> length bs \<Longrightarrow> \<exists>v. getUint n little bs i = Inr v"
  by (auto simp: getUint_def)

lemma read_field_within:
  assumes "i + n \<le> length data"
  obtains v where "getUint n True data i = Inr v" "\<And>upd e. read_field n data i upd e = Done (upd v e)"
  using getUint_within [OF assms, of True] that by (auto simp: read_field_def)

lemma unsupported_entry:
  assumes "unsupported data i"
  shows "central_entry data i = Inl (Uncaught TypeError)"
proof -
  have len: "i + 28 \<le> length data" and sig: "getUint 4 False data i = Inr 0x504b0102"
    using assms by (simp_all add: unsupported_def)
  obtain v fl m t crc cs us where
    f: "getUint 2 True data (i + 6) = Inr v" "getUint 2 True data (i + 6 + 2) = Inr fl" "getUint 2 True data (i + 6 + 4) = Inr m"
      "getUint 4 True data (i + 6 + 6) = Inr t" "getUint 4 True data (i + 6 + 10) = Inr crc"
      "getUint 4 True data (i + 6 + 14) = Inr cs" "getUint 4 True data (i + 6 + 18) = Inr us"
    using getUint_within [of "i + 6" 2 data True] getUint_within [of "i + 6 + 2" 2 data True]
      getUint_within [of "i + 6 + 4" 2 data True] getUint_within [of "i + 6 + 6" 4 data True]
      getUint_within [of "i + 6 + 10" 4 data True] getUint_within [of "i + 6 + 14" 4 data True]
      getUint_within [of "i + 6 + 18" 4 data True] len by auto
  have "fl AND 1 = 1 \<or> cs = 0xFFFFFFFF \<or> us = 0xFFFFFFFF" using assms f(2,6,7) by (auto simp: unsupported_def add.assoc)
  then have "\<exists>e. readCommonHeader new_Entry data (i + 6) True = Threw TypeError e"
    by (auto simp: readCommonHeader_def read_field_def f f [simplified])
  then show ?thesis using sig by (auto simp: central_entry_def)
qed

lemma central_entries_stop:
  "central_entries data n i = Inr es \<Longrightarrow>
    central_entries data (n + m) i =
      zbind (central_entries data m (i + sum_list (map central_length es))) (\<lambda>fs. Inr (es @ fs))"
proof (induction n arbitrary: i es)
  case 0
  then show ?case by (cases "central_entries data m i") simp_all
next
  case (Suc n)
  then obtain e fs where e: "central_entry data i = Inr e" "central_entries data n (i + central_length e) = Inr fs" "es = e # fs"
    by (auto simp: zbind_Inr_iff)
  from Suc.IH [OF e(2)] show ?case
    by (cases "central_entries data m (i + central_length e + sum_list (map central_length fs))") (simp_all add: e(1,3) add.assoc)
qed

text \<open>
  C36. An archive with an encrypted or a Zip64 entry is not reported: whatever entries come before it, reading the
  central record calls the page's global \<open>onerror\<close>, which is not a function, so \<open>getEntries\<close> dies with a
  \<open>TypeError\<close>, and its caller hears neither of entries nor of an error. The bytes \<open>front\<close> and \<open>central\<close> are
  arbitrary, with extra fields or without, except that the first \<open>k\<close> records are readable.
\<close>

theorem unsupported_entry_throws:
  assumes "k < count" "count < 65536" "length front < 4294967296"
    and arch: "bytes = front @ central @ end_bytes count (length central) (length front)"
    and "central_entries (drop (length front) bytes) k 0 = Inr es"
    and "unsupported (drop (length front) bytes) (sum_list (map central_length es))"
  shows "fst (getEntries blob_read (int (length bytes)) (BlobReader bytes)) = Inl (Uncaught TypeError)"
proof -
  let ?E = "end_bytes count (length central) (length front)" and ?dir = "drop (length front) bytes"
  have dir: "?dir = central @ ?E" by (simp add: arch)
  have "blob_holds (BlobReader bytes) ((front @ central) @ ?E @ [])" by (simp add: blob_holds_def BlobReader_def arch)
  from blob.read_part [OF this] obtain r1 where r1: "blob_read (BlobReader bytes) (int (length (front @ central))) 22 = (Got ?E, r1)"
      "blob_holds r1 (front @ (central @ ?E) @ [])" by (auto simp: end_bytes_def)
  from blob.read_part [OF r1(2)] obtain r2 where
      r2: "blob_read r1 (int (length front)) (int (length (central @ ?E))) = (Got (central @ ?E), r2)"
    by (auto simp: end_bytes_def)
  have size: "int (length bytes) - 22 = int (length (front @ central))"
    "int (length bytes) - int (length front) = int (length (central @ ?E))" "(int (length bytes) < 22) = False" by (simp_all add: arch)
  obtain m where m: "count = k + Suc m" using assms(1) less_iff_Suc_add [of k count] by auto
  have "central_entries (central @ ?E) count 0 = Inl (Uncaught TypeError)"
    unfolding m using central_entries_stop [OF assms(5), of "Suc m"] unsupported_entry [OF assms(6)] by (simp add: dir m)
  then show ?thesis
    using assms(2,3) unfolding getEntries_def size(3) if_False size(1) r1(1) read_or_got
    by (simp add: end_fields size(2) r2 [simplified] read_or_got)
qed

text \<open>A record of Zip64 with an extra field of four bytes.\<close>

definition demo_central :: "byte list" where
  "demo_central =
     [0x50, 0x4B, 1, 2, 45, 0, 45, 0, 0, 0, 0, 0, 0, 0, 33, 0, 1, 2, 3, 4, 5, 0, 0, 0, 255, 255, 255, 255, 1, 0, 4, 0] @
     [0, 0, 0, 0, 0, 0, 0, 0, 0, 0, 0, 0, 0, 0, 98, 1, 0, 0, 0]"

theorem unsupported_entry_throws_witness:
  "fst (getEntries blob_read (int (length ([] @ demo_central @ end_bytes 1 (length demo_central) 0)))
     (BlobReader ([] @ demo_central @ end_bytes 1 (length demo_central) 0))) = Inl (Uncaught TypeError)"
proof -
  let ?bytes = "[] @ demo_central @ end_bytes 1 (length demo_central) 0"
  have len: "length demo_central = 51" by (simp add: demo_central_def)
  then have "0 + 28 \<le> length ?bytes" by simp
  moreover have "take 4 demo_central = [0x50, 0x4B, 1, 2]" "take 4 (drop 24 demo_central) = [255, 255, 255, 255]"
    by (simp_all add: demo_central_def)
  then have "getUint32_be demo_central 0 = Inr 0x504b0102" "getUint32 demo_central 24 = Inr 0xFFFFFFFF"
    by (simp_all add: getUint_def len)
  ultimately have "unsupported ?bytes 0" unfolding unsupported_def using len by (simp add: getUint_within_front)
  then show ?thesis
    using unsupported_entry_throws [of 0 1 "[]" ?bytes demo_central "[]"] by simp
qed

text \<open>
  C14. In the page the level asked for is lost. \<open>add\<close> does the same for any two levels other than 0, given or
  not, with every reader, writer and compressor: \<open>deflate\<close> makes its \<open>Deflater\<close> without a
  level, whatever the options say. In a worker, which is sent the level, the run starts with the compressor of that level.
\<close>

theorem page_mode_ignores_level:
  assumes "o_level opts \<noteq> Some 0" "level \<noteq> Some 0"
  shows "add app fl nd rinit rd wr dd now name ro (opts\<lparr>o_level := level\<rparr>) zw w =
      add app fl nd rinit rd wr dd now name ro opts zw w \<and>
    compressor (deflate_worker nd rd level n r w) = nd level"
proof -
  have eqs: "entry_name name (opts\<lparr>o_level := level\<rparr>) = entry_name name opts"
    "writeHeader m fname (opts\<lparr>o_level := level\<rparr>) dd now zw = writeHeader m fname opts dd now zw"
    "o_level (opts\<lparr>o_level := level\<rparr>) = level" "(level = Some 0) = False" "(o_level opts = Some 0) = False" for m fname zw
    using assms by (simp_all add: entry_name_def writeHeader_def header_writes_def)
  have same: "deflate app fl nd rd wr level = deflate app fl nd rd wr (o_level opts)"
    by (simp add: fun_eq_iff deflate_def)
  have wf: "writeFile app fl nd rd wr dd now name ro (opts\<lparr>o_level := level\<rparr>) zw w =
      writeFile app fl nd rd wr dd now name ro opts zw w" for ro
    unfolding writeFile_def eqs Let_def same ..
  have "add app fl nd rinit rd wr dd now name ro (opts\<lparr>o_level := level\<rparr>) zw w =
      add app fl nd rinit rd wr dd now name ro opts zw w"
    unfolding add_def wf ..
  then show ?thesis
    by (simp add: deflate_worker_def launchWorkerProcess_def post_chunk_def Let_def split: prod.split io.split)
qed

theorem page_mode_ignores_level_witness:
  "add (\<lambda>a l. (Inr (Some (Bytes [case l of None \<Rightarrow> 6 | Some k \<Rightarrow> of_int k])), l)) (\<lambda>l. (Inr None, l)) (\<lambda>l. l) blob_rinit blob_read bw_write False demo_now
      (js ''a'') (Some (BlobReader [7])) (no_options\<lparr>o_level := Some 9\<rparr>) createZipWriter (bw_init (BlobWriter None)) =
    add (\<lambda>a l. (Inr (Some (Bytes [case l of None \<Rightarrow> 6 | Some k \<Rightarrow> of_int k])), l)) (\<lambda>l. (Inr None, l)) (\<lambda>l. l) blob_rinit blob_read bw_write False demo_now
      (js ''a'') (Some (BlobReader [7])) no_options createZipWriter (bw_init (BlobWriter None)) \<and>
    compressor (deflate_worker (\<lambda>l. l) blob_read (Some 9) 1 (BlobReader [7]) (bw_init (BlobWriter None))) = Some 9"
  by (rule page_mode_ignores_level) (simp_all add: no_options_def)

end
