(* ===== verification/Zip_Export.thy ===== *)
theory Zip_Export imports Zip_Tree_Props Zip_Roundtrip begin

text \<open>
  What \<open>zip-fs.js\<close> and the archive reader and writer do together: the export of a directory adds the
  entries below it in order, and the import of what it listed grows the same forest of names again; an
  archive that nests an entry under a file makes the import throw; a file that came from an archive is
  extracted at its first read.
\<close>

section \<open>Forests\<close>

datatype tree = File jstring | Folder jstring "tree list"

fun tree_name :: "tree \<Rightarrow> jstring" where
  "tree_name (File n) = n"
| "tree_name (Folder n ts) = n"

text \<open>The paths of a forest under the path \<open>ps\<close>, in the order of the export; the flag marks folders.\<close>

fun listing :: "jstring list \<Rightarrow> tree list \<Rightarrow> (jstring list \<times> bool) list" where
  "listing ps [] = []"
| "listing ps (File n # ts) = (ps @ [n], False) # listing ps ts"
| "listing ps (Folder n us # ts) = (ps @ [n], True) # listing (ps @ [n]) us @ listing ps ts"

fun good_forest :: "tree list \<Rightarrow> bool" where
  "good_forest [] = True"
| "good_forest (File n # ts) = (n \<noteq> [] \<and> 47 \<notin> set n \<and> n \<notin> tree_name ` set ts \<and> good_forest ts)"
| "good_forest (Folder n us # ts) =
     (n \<noteq> [] \<and> 47 \<notin> set n \<and> n \<notin> tree_name ` set ts \<and> good_forest us \<and> good_forest ts)"

text \<open>The entries \<open>cs\<close> with all that is below them form the forest; their addresses are within bounds.\<close>

inductive grown :: "nat \<Rightarrow> nat \<Rightarrow> 'r zfs \<Rightarrow> nat list \<Rightarrow> tree list \<Rightarrow> bool" where
  nothing: "grown lo hi w [] []"
| leaf: "lo \<le> c \<Longrightarrow> c < hi \<Longrightarrow> e_name (ent w c) = Some n \<Longrightarrow> \<not> e_directory (ent w c) \<Longrightarrow> e_children (ent w c) = [] \<Longrightarrow>
    grown lo hi w cs ts \<Longrightarrow> grown lo hi w (c # cs) (File n # ts)"
| inner: "lo \<le> c \<Longrightarrow> c < hi \<Longrightarrow> e_name (ent w c) = Some n \<Longrightarrow> e_directory (ent w c) \<Longrightarrow>
    grown lo hi w (e_children (ent w c)) us \<Longrightarrow> grown lo hi w cs ts \<Longrightarrow> grown lo hi w (c # cs) (Folder n us # ts)"

lemma grown_frame:
  assumes "grown lo hi w cs ts" "\<And>x. lo \<le> x \<Longrightarrow> x < hi \<Longrightarrow> ent w' x = ent w x" "lo' \<le> lo" "hi \<le> hi'"
  shows "grown lo' hi' w' cs ts"
  using assms
proof (induction rule: grown.induct)
  case (leaf lo c hi w n cs ts)
  then show ?case by (intro grown.leaf) simp_all
next
  case (inner lo c hi w n us cs ts)
  have "e_children (ent w' c) = e_children (ent w c)" using inner by simp
  then show ?case using inner by (intro grown.inner) simp_all
qed (rule grown.nothing)

section \<open>Import\<close>

text \<open>A new child under a free name.\<close>

lemma new_child:
  assumes ok: "tree_ok b w" and a: "live b w a" "e_directory (ent w a)" and free: "child_named w a (Some n) = None"
    and kind: "dir \<or> params \<noteq> None"
  obtains w1 where "addChild a n params dir w = (Inr (length (heap w)), w1)" "tree_ok b w1"
    "length (heap w1) = Suc (length (heap w))" "\<And>x. x < length (heap w) \<Longrightarrow> x \<noteq> a \<Longrightarrow> ent w1 x = ent w x"
    "ent w1 a = (ent w a)\<lparr>e_children := e_children (ent w a) @ [length (heap w)]\<rparr>"
    "e_name (ent w1 (length (heap w))) = Some n" "e_directory (ent w1 (length (heap w))) = dir"
    "e_children (ent w1 (length (heap w))) = []"
proof -
  let ?l = "length (heap w)"
  have lt: "a < ?l" using a by (simp add: live_def)
  obtain r w1 where 1: "addChild a n params dir w = (r, w1)" by (cases "addChild a n params dir w")
  have ok1: "tree_ok b w1" by (rule extends_ok [OF addChild_extends(1) [OF ok a(1) 1]])
  have "r = Inr ?l \<and> length (heap w1) = Suc ?l \<and> (\<forall>x. x < ?l \<longrightarrow> x \<noteq> a \<longrightarrow> ent w1 x = ent w x) \<and>
    ent w1 a = (ent w a)\<lparr>e_children := e_children (ent w a) @ [?l]\<rparr> \<and>
    e_name (ent w1 ?l) = Some n \<and> e_directory (ent w1 ?l) = dir \<and> e_children (ent w1 ?l) = []"
    using 1 a(2) free kind lt
    by (cases params)
      (auto simp: addChild_def ZipDirectoryEntry_def ZipFileEntry_def cbind_def entry_init_eq [OF ok a] adopt_def
        ent_set_ent ent_def set_ent_def nth_append nth_list_update split: if_splits)
  with 1 ok1 that show thesis by blast
qed

text \<open>New entries do not hide old ones.\<close>

lemma child_named_kept:
  assumes ok: "tree_ok b w" and x: "live b w x" and c: "child_named w x n = Some c"
    and same: "\<And>x. live b w x \<Longrightarrow> x \<noteq> a \<Longrightarrow> ent w1 x = ent w x"
    and here: "ent w1 a = (ent w a)\<lparr>e_children := e_children (ent w a) @ cs\<rparr>"
  shows "child_named w1 x n = Some c"
proof -
  have name: "e_name (ent w1 y) = e_name (ent w y)" if "live b w y" for y using that same here by (cases "y = a") simp_all
  have old: "find (\<lambda>c. e_name (ent w1 c) = n) (e_children (ent w x)) = Some c"
    using c name entry_okD(3) [OF ok x] unfolding child_named_def by (subst find_cong [OF refl]) auto
  have "find P (xs @ ys) = Some c" if "find P xs = Some c" for P and xs ys :: "nat list" using that by (induction xs) auto
  with old show ?thesis using same [OF x] here by (cases "x = a") (simp_all add: child_named_def)
qed

lemma find_from_kept:
  assumes ok: "tree_ok b w" and "live b w x" and "find_from w x ps = Inr (Some y)"
    and same: "\<And>x. live b w x \<Longrightarrow> x \<noteq> a \<Longrightarrow> ent w1 x = ent w x"
    and here: "ent w1 a = (ent w a)\<lparr>e_children := e_children (ent w a) @ cs\<rparr>"
  shows "find_from w1 x ps = Inr (Some y)"
  using assms(2,3)
proof (induction ps arbitrary: x)
  case (Cons n ps)
  then obtain c where c: "e_directory (ent w x)" "child_named w x (Some n) = Some c" "find_from w c ps = Inr (Some y)"
    by (auto simp: getChildByName_def split: if_splits option.splits)
  have "live b w c" using child_named_Some [OF c(2)] entry_okD(3) [OF ok Cons.prems(1)] by simp
  from Cons.IH [OF this c(3)] have "find_from w1 c ps = Inr (Some y)" .
  moreover have "e_directory (ent w1 x)" using c(1) same [OF Cons.prems(1)] here by (cases "x = a") simp_all
  ultimately show ?case
    using child_named_kept [OF ok Cons.prems(1) c(2) same here] by (simp add: getChildByName_def)
qed simp

lemma find_from_live: "tree_ok b w \<Longrightarrow> live b w x \<Longrightarrow> find_from w x ps = Inr (Some y) \<Longrightarrow> live b w y"
proof (induction ps arbitrary: x)
  case (Cons n ps)
  then obtain c where c: "child_named w x (Some n) = Some c" "find_from w c ps = Inr (Some y)"
    by (auto simp: getChildByName_def split: if_splits option.splits)
  have "live b w c" using child_named_Some [OF c(1)] entry_okD(3) [OF Cons.prems(1,2)] by simp
  then show ?case using Cons.IH Cons.prems(1) c(2) by blast
qed simp

lemma make_path_append: "make_path d (ps @ qs) w = cbind (make_path d ps) (\<lambda>a. make_path a qs) w"
  by (induction ps arbitrary: d w) (auto simp: cbind_def split: sum.splits option.splits prod.splits)

lemma make_path_found: "find_from w d ps = Inr (Some a) \<Longrightarrow> make_path d ps w = (Inr a, w)"
  by (induction ps arbitrary: d) (auto split: sum.splits option.splits)

lemma split_folder:
  fixes qs :: "jstring list"
  assumes "qs \<noteq> []" "\<forall>q \<in> set qs. 47 \<notin> set q"
  shows "js_split [47] (js_join [47] qs @ [47]) = qs @ [[]]"
proof -
  obtain q ps where qs: "qs = ps @ [q]" using assms(1) by (metis append_butlast_last_id)
  have "js_join [47] qs @ [47 :: code_unit] = js_join [47] (qs @ [[]])" unfolding qs js_join_snoc by simp
  moreover have "js_split [47] (js_join [47] (qs @ [[]])) = qs @ [[]]" by (rule js_split_join) (use assms in auto)
  ultimately show ?thesis by simp
qed

definition entry_for :: "jstring list \<times> bool \<Rightarrow> zip_entry \<Rightarrow> bool" where
  "entry_for x e = (directory e = snd x \<and> filename e = js_join [47] (fst x) @ (if snd x then [47] else []))"

lemma import_file:
  assumes "find_from w d ps = Inr (Some a)" "entry_for (ps @ [n], False) e" "\<forall>q \<in> set (ps @ [n]). 47 \<notin> set q"
    "addChild a n (params_of Reader_Zip None (Zipped e)) False w = (Inr c, w1)"
  shows "import_entry d e w = (Inr (), w1)"
proof -
  have "js_split [47] (filename e) = ps @ [n]" using assms(2,3) js_split_join [of "ps @ [n]" 47] by (simp add: entry_for_def)
  then show ?thesis using assms make_path_found [OF assms(1)] by (simp add: import_entry_def cbind_def entry_for_def)
qed

lemma import_folder:
  assumes "find_from w d ps = Inr (Some a)" "entry_for (ps @ [n], True) e" "\<forall>q \<in> set (ps @ [n]). 47 \<notin> set q"
    "e_directory (ent w a)" "child_named w a (Some n) = None" "addChild a n None True w = (Inr c, w1)"
  shows "import_entry d e w = (Inr (), w1)"
proof -
  have "js_split [47] (filename e) = (ps @ [n]) @ [[]]"
    using assms(2,3) split_folder [of "ps @ [n]"] by (simp add: entry_for_def)
  then have "butlast (js_split [47] (filename e)) = ps @ [n]" by (simp only: butlast_snoc)
  moreover have "make_path d (ps @ [n]) w = (Inr c, w1)"
    using assms(4-6) make_path_found [OF assms(1)]
    by (simp add: make_path_append cbind_def getChildByName_def addChild_def)
  ultimately show ?thesis using assms(2) by (simp add: import_entry_def cbind_def entry_for_def)
qed


text \<open>A directory gets the forest as its last children, and nothing else changes.\<close>

definition gains :: "nat \<Rightarrow> nat \<Rightarrow> 'r zfs \<Rightarrow> 'r zfs \<Rightarrow> tree list \<Rightarrow> bool" where
  "gains b a w w' ts =
     (tree_ok b w' \<and> length (heap w) \<le> length (heap w') \<and>
      (\<forall>x < length (heap w). x \<noteq> a \<longrightarrow> ent w' x = ent w x) \<and>
      (\<exists>cs. ent w' a = (ent w a)\<lparr>e_children := e_children (ent w a) @ cs\<rparr> \<and>
        grown (length (heap w)) (length (heap w')) w' cs ts))"

lemma gains_nothing: "tree_ok b w \<Longrightarrow> gains b a w w []"
  by (auto simp: gains_def intro!: exI [of _ "[]"] grown.nothing)

lemma import_entries_append:
  "import_entries d (es @ fs) w = cbind (import_entries d es) (\<lambda>_. import_entries d fs) w"
  by (induction es arbitrary: w) (auto simp: cbind_def split: sum.splits prod.splits)

lemma gains_find:
  assumes "gains b a w w' ts" "tree_ok b w" "live b w x" "find_from w x ps = Inr (Some y)"
  shows "find_from w' x ps = Inr (Some y)"
proof -
  obtain cs where cs: "ent w' a = (ent w a)\<lparr>e_children := e_children (ent w a) @ cs\<rparr>" using assms(1) by (auto simp: gains_def)
  show ?thesis
    by (rule find_from_kept [OF assms(2-4) _ cs]) (use assms(1) in \<open>simp add: gains_def live_def\<close>)
qed

lemma still_free:
  assumes ok: "tree_ok b w" and a: "live b w a" and free: "\<forall>m \<in> N. child_named w a (Some m) = None" and new: "n \<notin> N"
    and w1: "\<And>x. x < length (heap w) \<Longrightarrow> x \<noteq> a \<Longrightarrow> ent w1 x = ent w x"
      "ent w1 a = (ent w a)\<lparr>e_children := e_children (ent w a) @ [l]\<rparr>" "e_name (ent w1 l) = Some n"
  shows "\<forall>m \<in> N. child_named w1 a (Some m) = None"
proof
  fix m assume m: "m \<in> N"
  have name: "e_name (ent w1 x) = e_name (ent w x)" if "live b w x" for x
    using that w1(1,2) by (cases "x = a") (simp_all add: live_def)
  have "\<forall>c \<in> set (e_children (ent w a)). e_name (ent w1 c) \<noteq> Some m"
    using free m name entry_okD(3) [OF ok a] by (simp add: child_named_None)
  then show "child_named w1 a (Some m) = None" using m new w1(2,3) by (auto simp: child_named_None)
qed

lemma import_forest:
  assumes "tree_ok b w" "live b w d" "find_from w d ps = Inr (Some a)" "e_directory (ent w a)"
    and "good_forest ts" "\<forall>n \<in> tree_name ` set ts. child_named w a (Some n) = None" "\<forall>q \<in> set ps. 47 \<notin> set q"
    and "list_all2 entry_for (listing ps ts) es"
  shows "\<exists>w'. import_entries d es w = (Inr (), w') \<and> gains b a w w' ts"
  using assms
proof (induction ps ts arbitrary: w a es rule: listing.induct)
  case (1 ps)
  then show ?case by (auto intro: gains_nothing)
next
  case (2 ps n ts)
  note ok = "2.prems"(1) and find = "2.prems"(3)
  have a: "live b w a" by (rule find_from_live [OF ok "2.prems"(2) find])
  obtain e es' where es: "es = e # es'" "entry_for (ps @ [n], False) e" "list_all2 entry_for (listing ps ts) es'"
    using "2.prems"(8) by (auto simp: list_all2_Cons1)
  let ?l = "length (heap w)"
  have free: "child_named w a (Some n) = None" using "2.prems"(6) by simp
  have kind: "False \<or> params_of Reader_Zip None (Zipped e) \<noteq> None" by (simp add: params_of_def)
  obtain w1 where w1: "addChild a n (params_of Reader_Zip None (Zipped e)) False w = (Inr ?l, w1)" "tree_ok b w1"
    "length (heap w1) = Suc ?l" "\<And>x. x < ?l \<Longrightarrow> x \<noteq> a \<Longrightarrow> ent w1 x = ent w x"
    "ent w1 a = (ent w a)\<lparr>e_children := e_children (ent w a) @ [?l]\<rparr>"
    "e_name (ent w1 ?l) = Some n" "e_directory (ent w1 ?l) = False" "e_children (ent w1 ?l) = []"
    by (rule new_child [OF ok a "2.prems"(4) free kind]) (rule that)
  have step: "import_entry d e w = (Inr (), w1)"
    using "2.prems"(5,7) by (intro import_file [OF find es(2) _ w1(1)]) auto
  have find1: "find_from w1 d ps = Inr (Some a)"
    by (rule find_from_kept [OF ok "2.prems"(2) find _ w1(5)]) (simp add: w1(4) live_def)
  have free1: "\<forall>m \<in> tree_name ` set ts. child_named w1 a (Some m) = None"
    by (rule still_free [OF ok a _ _ w1(4-6)]) (use "2.prems"(5,6) in simp_all)
  have "live b w1 d" "e_directory (ent w1 a)" "good_forest ts"
    using "2.prems"(2,4,5) w1(3,5) by (auto simp: live_def)
  from "2.IH" [OF w1(2) this(1) find1 this(2,3) free1 "2.prems"(7) es(3)]
  obtain w' where w': "import_entries d es' w1 = (Inr (), w')" "gains b a w1 w' ts" by blast
  then obtain cs where cs: "ent w' a = (ent w1 a)\<lparr>e_children := e_children (ent w1 a) @ cs\<rparr>"
      "grown (Suc ?l) (length (heap w')) w' cs ts" "Suc ?l \<le> length (heap w')" "\<And>x. x < Suc ?l \<Longrightarrow> x \<noteq> a \<Longrightarrow> ent w' x = ent w1 x"
    using w1(3) by (auto simp: gains_def)
  have al: "a < ?l" using a by (simp add: live_def)
  have "grown ?l (length (heap w')) w' (?l # cs) (File n # ts)"
    using cs al w1(6-8) by (intro grown.leaf grown_frame [OF cs(2) refl]) auto
  then have "gains b a w w' (File n # ts)"
    using w'(2) cs w1(3-5) al by (auto simp: gains_def intro!: exI [of _ "?l # cs"])
  then show ?case using w'(1) step by (auto simp: es(1) cbind_def)
next
  case (3 ps n us ts)
  note ok = "3.prems"(1) and find = "3.prems"(3)
  have a: "live b w a" by (rule find_from_live [OF ok "3.prems"(2) find])
  obtain e es1 es2 where es: "es = e # es1 @ es2" "entry_for (ps @ [n], True) e" "list_all2 entry_for (listing (ps @ [n]) us) es1"
      "list_all2 entry_for (listing ps ts) es2"
    using "3.prems"(8) by (auto simp: list_all2_Cons1 list_all2_append1)
  let ?l = "length (heap w)"
  have al: "a < ?l" using a by (simp add: live_def)
  have free: "child_named w a (Some n) = None" using "3.prems"(6) by simp
  obtain w1 where w1: "addChild a n None True w = (Inr ?l, w1)" "tree_ok b w1"
    "length (heap w1) = Suc ?l" "\<And>x. x < ?l \<Longrightarrow> x \<noteq> a \<Longrightarrow> ent w1 x = ent w x"
    "ent w1 a = (ent w a)\<lparr>e_children := e_children (ent w a) @ [?l]\<rparr>"
    "e_name (ent w1 ?l) = Some n" "e_directory (ent w1 ?l) = True" "e_children (ent w1 ?l) = []"
    by (rule new_child [OF ok a "3.prems"(4) free, where dir = True and params = None]) (simp, rule that)
  have step: "import_entry d e w = (Inr (), w1)"
    using "3.prems"(5,7) by (intro import_folder [OF find es(2) _ "3.prems"(4) free w1(1)]) auto
  have find1: "find_from w1 d ps = Inr (Some a)"
    by (rule find_from_kept [OF ok "3.prems"(2) find _ w1(5)]) (simp add: w1(4) live_def)
  have d1: "live b w1 d" and a1: "live b w1 a" using "3.prems"(2) a w1(3) by (simp_all add: live_def)
  have free1: "\<forall>m \<in> tree_name ` set ts. child_named w1 a (Some m) = None"
    by (rule still_free [OF ok a _ _ w1(4-6)]) (use "3.prems"(5,6) in simp_all)
  have "child_named w1 a (Some n) = Some ?l"
    by (rule child_named_unique [OF w1(2) a1 _ w1(6)]) (simp add: w1(5))
  then have findl: "find_from w1 d (ps @ [n]) = Inr (Some ?l)"
    using find1 "3.prems"(4) w1(5) by (simp add: find_from_append getChildByName_def)
  have "\<forall>m \<in> tree_name ` set us. child_named w1 ?l (Some m) = None" "\<forall>q \<in> set (ps @ [n]). 47 \<notin> set q" "good_forest us"
    using w1(8) "3.prems"(5,7) by (simp_all add: child_named_None)
  from "3.IH"(1) [OF w1(2) d1 findl w1(7)[simplified] this(3,1,2) es(3)]
  obtain w2 where w2: "import_entries d es1 w1 = (Inr (), w2)" "gains b ?l w1 w2 us" by blast
  obtain cs where cs: "ent w2 ?l = (ent w1 ?l)\<lparr>e_children := cs\<rparr>" "grown (Suc ?l) (length (heap w2)) w2 cs us"
    "Suc ?l \<le> length (heap w2)" "\<And>x. x < ?l \<Longrightarrow> ent w2 x = ent w1 x" "tree_ok b w2"
    using w2(2) w1(3,8) by (auto simp: gains_def)
  have find2: "find_from w2 d ps = Inr (Some a)" by (rule gains_find [OF w2(2) w1(2) d1 find1])
  have free2: "\<forall>m \<in> tree_name ` set ts. child_named w2 a (Some m) = None"
  proof
    fix m assume m: "m \<in> tree_name ` set ts"
    have "e_name (ent w2 c) = e_name (ent w1 c)" if "c \<le> ?l" for c
      using that cs(1,4) by (cases "c = ?l") simp_all
    then have "e_name (ent w2 c) \<noteq> Some m" if "c \<in> set (e_children (ent w1 a))" for c
      using that free1 m entry_okD(3) [OF w1(2) a1 that] w1(3) by (auto simp: child_named_None live_def)
    then show "child_named w2 a (Some m) = None" using cs(4) [OF al] by (simp add: child_named_None)
  qed
  have "live b w2 d" "e_directory (ent w2 a)" "good_forest ts"
    using "3.prems"(4,5) d1 w1(3,5) cs(3) cs(4) [OF al] by (auto simp: live_def)
  from "3.IH"(2) [OF cs(5) this(1) find2 this(2,3) free2 "3.prems"(7) es(4)]
  obtain w3 where w3: "import_entries d es2 w2 = (Inr (), w3)" "gains b a w2 w3 ts" by blast
  obtain ds where ds: "ent w3 a = (ent w2 a)\<lparr>e_children := e_children (ent w2 a) @ ds\<rparr>"
      "grown (length (heap w2)) (length (heap w3)) w3 ds ts" "length (heap w2) \<le> length (heap w3)"
      "\<And>x. x < length (heap w2) \<Longrightarrow> x \<noteq> a \<Longrightarrow> ent w3 x = ent w2 x" "tree_ok b w3"
    using w3(2) by (auto simp: gains_def)
  have l3: "ent w3 ?l = ent w2 ?l" using ds(4) [of ?l] cs(3) al by simp
  have "grown ?l (length (heap w3)) w3 cs us"
    using ds(3,4) al by (intro grown_frame [OF cs(2)]) auto
  moreover have "grown ?l (length (heap w3)) w3 ds ts"
    using cs(3) by (intro grown_frame [OF ds(2) refl]) auto
  ultimately have "grown ?l (length (heap w3)) w3 (?l # ds) (Folder n us # ts)"
    using cs(1,3) ds(3) w1(6,7) l3 by (intro grown.inner) auto
  then have "gains b a w w3 (Folder n us # ts)"
    using ds cs(3) cs(4) [OF al] w1(3-5) al by (auto simp: gains_def cs(4) intro!: exI [of _ "?l # ds"])
  then show ?case using w3(1) w2(1) step by (auto simp: es(1) import_entries_append cbind_def)
qed


section \<open>Paths stay\<close>

text \<open>Whatever is imported, successfully or not, no path is lost.\<close>

definition keeps :: "nat \<Rightarrow> 'r zfs \<Rightarrow> 'r zfs \<Rightarrow> bool" where
  "keeps b w w' = (extends b w w' \<and>
     (\<forall>x ps y. live b w x \<longrightarrow> find_from w x ps = Inr (Some y) \<longrightarrow> find_from w' x ps = Inr (Some y)))"

lemma keeps_refl: "tree_ok b w \<Longrightarrow> keeps b w w"
  by (simp add: keeps_def extends_refl)

lemma keeps_trans:
  assumes "keeps b w w'" "keeps b w' w''"
  shows "keeps b w w''"
  using assms extends_trans [of b w w' w''] extends_live [of b w w'] unfolding keeps_def by blast

lemma keepsD:
  assumes "keeps b w w'"
  shows "tree_ok b w'" "live b w x \<Longrightarrow> live b w' x" "live b w x \<Longrightarrow> e_directory (ent w' x) = e_directory (ent w x)"
    "live b w x \<Longrightarrow> find_from w x ps = Inr (Some y) \<Longrightarrow> find_from w' x ps = Inr (Some y)"
  using assms by (auto simp: keeps_def extends_def live_def kind_of_def)

lemma addChild_keeps:
  assumes ok: "tree_ok b w" and a: "live b w a" and add: "addChild a n params dir w = (r, w')" and kind: "dir \<or> params \<noteq> None"
  shows "keeps b w w' \<and> (\<forall>c. r = Inr c \<longrightarrow>
    live b w' c \<and> e_directory (ent w' c) = dir \<and> find_from w' a [n] = Inr (Some c) \<and> find_from w a [n] = Inr None)"
proof (cases "e_directory (ent w a) \<and> child_named w a (Some n) = None")
  case True
  obtain w1 where w1: "addChild a n params dir w = (Inr (length (heap w)), w1)" "tree_ok b w1"
      "length (heap w1) = Suc (length (heap w))" "\<And>x. x < length (heap w) \<Longrightarrow> x \<noteq> a \<Longrightarrow> ent w1 x = ent w x"
      "ent w1 a = (ent w a)\<lparr>e_children := e_children (ent w a) @ [length (heap w)]\<rparr>"
      "e_name (ent w1 (length (heap w))) = Some n" "e_directory (ent w1 (length (heap w))) = dir"
    using True by (blast intro: new_child [OF ok a _ _ kind])
  have live: "live b w1 x" if "live b w x" for x using that w1(3) by (simp add: live_def)
  have "child_named w1 a (Some n) = Some (length (heap w))"
    by (rule child_named_unique [OF w1(2) live [OF a] _ w1(6)]) (simp add: w1(5))
  moreover have "find_from w1 x ps = Inr (Some y)" if "live b w x" "find_from w x ps = Inr (Some y)" for x ps y
    by (rule find_from_kept [OF ok that _ w1(5)]) (simp add: w1(4) live_def)
  moreover have "live b w1 (length (heap w))" using a w1(3) by (simp add: live_def)
  ultimately show ?thesis
    using add w1 True addChild_extends(1) [OF ok a add] by (auto simp: keeps_def getChildByName_def)
next
  case False
  have "w' = w \<and> (\<exists>e. r = Inl e)"
  proof (cases "e_directory (ent w a)")
    case True
    then show ?thesis using False add entry_init_eq [OF ok a True]
      by (auto simp: addChild_def ZipDirectoryEntry_def ZipFileEntry_def cbind_def split: if_splits)
  qed (use add in \<open>auto simp: addChild_def\<close>)
  then show ?thesis using keeps_refl [OF ok] by auto
qed

lemma make_path_keeps:
  assumes "tree_ok b w" "live b w d" "make_path d ps w = (r, w')"
  shows "keeps b w w' \<and> (\<forall>a. r = Inr a \<longrightarrow> live b w' a \<and> find_from w' d ps = Inr (Some a))"
  using assms
proof (induction ps arbitrary: d w)
  case (Cons n ps)
  show ?case
  proof (cases "getChildByName w d (Some n)")
    case (Inl e)
    then show ?thesis using Cons.prems keeps_refl by auto
  next
    case (Inr co)
    then have dir: "e_directory (ent w d)" by (simp add: getChildByName_def split: if_splits)
    show ?thesis
    proof (cases co)
      case (Some c)
      have c: "find_from w d [n] = Inr (Some c)" using Inr Some by simp
      have "make_path c ps w = (r, w')" using Cons.prems(3) Inr Some by simp
      from Cons.IH [OF Cons.prems(1) find_from_live [OF Cons.prems(1,2) c] this] show ?thesis
        using keepsD(4) [OF _ Cons.prems(2) c, of w'] by (auto simp: find_from_append [of _ _ "[n]" ps, simplified])
    next
      case None
      obtain r1 w1 where 1: "addChild d n None True w = (r1, w1)" by (cases "addChild d n None True w")
      note k = addChild_keeps [OF Cons.prems(1,2) 1 disjI1 [OF TrueI]]
      have mk: "make_path d (n # ps) w = cbind (addChild d n None True) (\<lambda>a. make_path a ps) w"
        using Inr None dir by (simp add: addChild_def cbind_def)
      show ?thesis
      proof (cases r1)
        case (Inl e)
        then show ?thesis using Cons.prems(3) k unfolding mk by (auto simp: cbind_def 1)
      next
        case (Inr a)
        then have "make_path a ps w1 = (r, w')" using Cons.prems(3) unfolding mk by (simp add: cbind_def 1)
        moreover have "live b w1 d" "live b w1 a" "find_from w1 d [n] = Inr (Some a)" "tree_ok b w1"
          using k Inr keepsD(1,2) Cons.prems(2) by blast+
        ultimately show ?thesis
          using Cons.IH [of w1 a] keepsD(4) [of b w1 w' d "[n]" a] keeps_trans [of b w w1 w'] k
          by (auto simp: find_from_append [of _ _ "[n]" ps, simplified])
      qed
    qed
  qed
qed (auto simp: keeps_refl)

lemma import_entry_keeps:
  assumes "tree_ok b w" "live b w d" "import_entry d e w = (r, w')"
  shows "keeps b w w' \<and> (r = Inr () \<longrightarrow> (\<exists>c. find_from w' d
      (if directory e then butlast (js_split [47] (filename e)) else js_split [47] (filename e)) = Inr (Some c) \<and>
    (directory e \<or> \<not> e_directory (ent w' c))))"
proof -
  let ?p = "js_split [47] (filename e)"
  obtain r1 w1 where 1: "make_path d (butlast ?p) w = (r1, w1)" by (cases "make_path d (butlast ?p) w")
  note k = make_path_keeps [OF assms(1,2) 1]
  show ?thesis
  proof (cases "directory e \<or> (\<exists>e. r1 = Inl e)")
    case True
    then show ?thesis using assms(3) 1 k by (auto simp: import_entry_def cbind_def Let_def split: if_splits sum.splits)
  next
    case False
    then obtain a where a: "r1 = Inr a" by (cases r1) auto
    have live: "tree_ok b w1" "live b w1 a" "live b w1 d" "find_from w1 d (butlast ?p) = Inr (Some a)"
      using k a keepsD(1,2) assms(2) by blast+
    let ?ps = "params_of Reader_Zip None (Zipped e)"
    obtain r2 w2 where 2: "addChild a (last ?p) ?ps False w1 = (r2, w2)" by (cases "addChild a (last ?p) ?ps False w1")
    have kind: "False \<or> ?ps \<noteq> None" by (simp add: params_of_def)
    note k2 = addChild_keeps [OF live(1,2) 2 kind]
    have w2: "w' = w2" "r = Inr () \<Longrightarrow> \<exists>c. r2 = Inr c" using assms(3) 1 2 a False
      by (auto simp: import_entry_def cbind_def Let_def split: sum.splits)
    have "find_from w2 d ?p = Inr (Some c)" if "r2 = Inr c" for c
    proof -
      have "find_from w2 d (butlast ?p) = Inr (Some a)" using keepsD(4) [OF _ live(3,4)] k2 by blast
      moreover have "find_from w2 a [last ?p] = Inr (Some c)" using k2 that by blast
      ultimately have "find_from w2 d (butlast ?p @ [last ?p]) = Inr (Some c)" by (simp only: find_from_append sum.case option.case)
      then show ?thesis by simp
    qed
    moreover have "keeps b w w'" using keeps_trans [of b w w1 w2] k k2 w2(1) by blast
    ultimately show ?thesis using k2 w2 False by fastforce
  qed
qed

lemma import_entries_keeps:
  assumes "tree_ok b w" "live b w d" "import_entries d es w = (r, w')"
  shows "keeps b w w'"
  using assms
proof (induction es arbitrary: w)
  case (Cons e es)
  obtain r1 w1 where 1: "import_entry d e w = (r1, w1)" by (cases "import_entry d e w")
  have k: "keeps b w w1" using import_entry_keeps [OF Cons.prems(1,2) 1] by blast
  show ?case
  proof (cases r1)
    case (Inr u)
    then have "import_entries d es w1 = (r, w')" using Cons.prems(3) 1 by (simp add: cbind_def)
    from Cons.IH [OF keepsD(1) [OF k] keepsD(2) [OF k Cons.prems(2)] this] show ?thesis by (rule keeps_trans [OF k])
  qed (use Cons.prems(3) 1 k in \<open>simp add: cbind_def\<close>)
qed (simp add: keeps_refl)

text \<open>A file cannot be imported where something is already, nor anything below a file.\<close>

lemma import_onto_fails:
  assumes "tree_ok b w" "live b w d" "find_from w d (js_split [47] (filename e)) = Inr (Some c)" "\<not> directory e"
  shows "\<exists>x w'. import_entry d e w = (Inl x, w')"
proof -
  let ?p = "js_split [47] (filename e)"
  have "find_from w d (butlast ?p @ [last ?p]) = Inr (Some c)" using assms(3) by simp
  then obtain a where a: "find_from w d (butlast ?p) = Inr (Some a)" "find_from w a [last ?p] = Inr (Some c)"
    unfolding find_from_append by (auto split: sum.splits option.splits)
  let ?ps = "params_of Reader_Zip None (Zipped e)"
  obtain r w' where 1: "addChild a (last ?p) ?ps False w = (r, w')" by (cases "addChild a (last ?p) ?ps False w")
  have kind: "False \<or> ?ps \<noteq> None" by (simp add: params_of_def)
  have "\<exists>x. r = Inl x" using addChild_keeps [OF assms(1) find_from_live [OF assms(1,2) a(1)] 1 kind] a(2) by (cases r) auto
  then show ?thesis using make_path_found [OF a(1)] 1 assms(4) by (auto simp: import_entry_def cbind_def Let_def)
qed

lemma import_under_file_fails:
  assumes "find_from w d qs = Inr (Some c)" "\<not> e_directory (ent w c)"
    and "butlast (js_split [47] (filename e)) = qs @ ms" "ms \<noteq> [] \<or> \<not> directory e"
  shows "\<exists>x w'. import_entry d e w = (Inl x, w')"
proof (cases ms)
  case Nil
  then show ?thesis using assms make_path_found [OF assms(1)] by (simp add: import_entry_def cbind_def Let_def addChild_def)
next
  case (Cons m ms')
  then have "make_path d (qs @ ms) w = (Inl TypeError, w)"
    using assms(2) make_path_found [OF assms(1)] by (simp add: make_path_append cbind_def getChildByName_def)
  then show ?thesis using assms(3) by (simp add: import_entry_def cbind_def Let_def)
qed

lemma two_entries:
  fixes w :: "'r zfs"
  assumes "tree_ok b w" "live b w d" "import_entries d es w = (Inr u, w')" "i < j" "j < length es"
  obtains w1 w2 w3 w4 :: "'r zfs" where "tree_ok b w1" "live b w1 d" "import_entry d (es ! i) w1 = (Inr (), w2)" "keeps b w2 w3"
    "live b w2 d" "tree_ok b w3" "live b w3 d" "import_entry d (es ! j) w3 = (Inr (), w4)"
proof -
  have "drop (Suc i) es = take (j - Suc i) (drop (Suc i) es) @ es ! j # drop (Suc j) es"
    using id_take_nth_drop [of "j - Suc i" "drop (Suc i) es"] assms(4,5) by simp
  moreover have "es = take i es @ es ! i # drop (Suc i) es" using id_take_nth_drop [of i es] assms(4,5) by simp
  ultimately obtain xs ys zs e f where es: "es = xs @ e # ys @ f # zs" and at: "es ! i = e" "es ! j = f" by metis
  obtain w1 where w1: "import_entries d xs w = (Inr (), w1)" "import_entries d (e # ys @ f # zs) w1 = (Inr u, w')"
    using assms(3) unfolding es import_entries_append by (auto simp: cbind_def split: sum.splits prod.splits)
  obtain w2 where w2: "import_entry d e w1 = (Inr (), w2)" "import_entries d (ys @ f # zs) w2 = (Inr u, w')"
    using w1(2) by (auto simp: cbind_def split: sum.splits prod.splits)
  obtain w3 where w3: "import_entries d ys w2 = (Inr (), w3)" "import_entries d (f # zs) w3 = (Inr u, w')"
    using w2(2) unfolding import_entries_append by (auto simp: cbind_def split: sum.splits prod.splits)
  obtain w4 where w4: "import_entry d f w3 = (Inr (), w4)"
    using w3(2) by (auto simp: cbind_def split: sum.splits prod.splits)
  have k1: "keeps b w w1" by (rule import_entries_keeps [OF assms(1,2) w1(1)])
  have ok1: "tree_ok b w1" "live b w1 d" using keepsD(1) [OF k1] keepsD(2) [OF k1 assms(2)] by simp_all
  have k2: "keeps b w1 w2" using import_entry_keeps [OF ok1 w2(1)] by blast
  have ok2: "tree_ok b w2" "live b w2 d" using keepsD(1) [OF k2] keepsD(2) [OF k2 ok1(2)] by simp_all
  have k3: "keeps b w2 w3" by (rule import_entries_keeps [OF ok2 w3(1)])
  have ok3: "tree_ok b w3" "live b w3 d" using keepsD(1) [OF k3] keepsD(2) [OF k3 ok2(2)] by simp_all
  show thesis using that [of w1 w2 w3 w4] ok1 w2(1) k3 ok2(2) ok3 w4 at by simp
qed

section \<open>Export\<close>

lemma add_all_append:
  "add_all app fl nd rinit rd wr dd now (xs @ ys) zw s =
    (case add_all app fl nd rinit rd wr dd now xs zw s of
       (Inl f, zw', s') \<Rightarrow> (Inl f, zw', s')
     | (Inr u, zw', s') \<Rightarrow> add_all app fl nd rinit rd wr dd now ys zw' s')"
  by (induction xs arbitrary: zw s) (auto split: prod.splits sum.splits)

text \<open>What \<open>exportZip\<close> hands to \<open>add\<close> for an entry with the full name \<open>name\<close>.\<close>

definition export_item :: "'r zfs \<Rightarrow> nat \<Rightarrow> jstring \<Rightarrow> item \<times> 'r option" where
  "export_item w c name = (\<lparr>i_name = name, i_data = [], i_opts = export_options (ent w c)\<rparr>, e_reader (ent w c))"

definition names_listed :: "(item \<times> 'r option) list \<Rightarrow> jstring list \<Rightarrow> tree list \<Rightarrow> bool" where
  "names_listed xs ps ts =
     (map (\<lambda>(it, ro). (i_name it, o_directory (i_opts it))) xs = map (\<lambda>(qs, d). (js_join [47] qs, d)) (listing ps ts))"

lemma export_forest:
  assumes "grown lo hi w cs ts" "tree_ok b w" "at_path w b ps p" "set cs \<subseteq> set (e_children (ent w p))"
    and "good_forest ts" "\<forall>q \<in> set ps. q \<noteq> []"
  shows "\<exists>xs. names_listed xs ps ts \<and> (\<forall>rest zw s. export_children app fl nd rinit rd wr now w (cs @ rest) zw s =
    (case add_all app fl nd rinit rd wr False now xs zw s of
       (Inl f, zw', s') \<Rightarrow> Some (Inl f, zw', s')
     | (Inr u, zw', s') \<Rightarrow> export_children app fl nd rinit rd wr now w rest zw' s'))"
  using assms
proof (induction arbitrary: ps p rule: grown.induct)
  case (nothing lo hi w)
  show ?case by (rule exI [of _ "[]"]) (simp add: names_listed_def)
next
  case (leaf lo c hi w n cs ts)
  have at: "at_path w b (ps @ [n]) c" using leaf.prems(3) by (intro at_path.below [OF leaf.prems(2) _ leaf.hyps(3)]) simp
  have full: "getFullname w c = Some (Some (js_join [47] (ps @ [n])))"
    using leaf.prems(4,5) by (intro getFullname_at [OF leaf.prems(1) at]) auto
  obtain xs where xs: "names_listed xs ps ts" "\<And>rest zw s. export_children app fl nd rinit rd wr now w (cs @ rest) zw s =
    (case add_all app fl nd rinit rd wr False now xs zw s of
       (Inl f, zw', s') \<Rightarrow> Some (Inl f, zw', s')
     | (Inr u, zw', s') \<Rightarrow> export_children app fl nd rinit rd wr now w rest zw' s')"
    using leaf.IH [OF leaf.prems(1,2) _ _ leaf.prems(5)] leaf.prems(3,4) by auto
  show ?case
  proof (intro exI conjI allI)
    show "names_listed (export_item w c (js_join [47] (ps @ [n])) # xs) ps (File n # ts)"
      using xs(1) leaf.hyps(4) by (simp add: names_listed_def export_item_def export_options_def)
    show "export_children app fl nd rinit rd wr now w ((c # cs) @ rest) zw s =
      (case add_all app fl nd rinit rd wr False now (export_item w c (js_join [47] (ps @ [n])) # xs) zw s of
         (Inl f, zw', s') \<Rightarrow> Some (Inl f, zw', s')
       | (Inr u, zw', s') \<Rightarrow> export_children app fl nd rinit rd wr now w rest zw' s')" for rest zw s
      by (subst export_children.simps)
        (auto simp: full export_item_def leaf.hyps(5) xs(2) split: prod.splits sum.splits)
  qed
next
  case (inner lo c hi w n us cs ts)
  have at: "at_path w b (ps @ [n]) c" using inner.prems(3) by (intro at_path.below [OF inner.prems(2) _ inner.hyps(3)]) simp
  have full: "getFullname w c = Some (Some (js_join [47] (ps @ [n])))"
    using inner.prems(4,5) by (intro getFullname_at [OF inner.prems(1) at]) auto
  obtain xs where xs: "names_listed xs (ps @ [n]) us" "\<And>rest zw s. export_children app fl nd rinit rd wr now w (e_children (ent w c) @ rest) zw s =
    (case add_all app fl nd rinit rd wr False now xs zw s of
       (Inl f, zw', s') \<Rightarrow> Some (Inl f, zw', s')
     | (Inr u, zw', s') \<Rightarrow> export_children app fl nd rinit rd wr now w rest zw' s')"
    using inner.IH(1) [OF inner.prems(1) at subset_refl] inner.prems(4,5) by auto
  obtain ys where ys: "names_listed ys ps ts" "\<And>rest zw s. export_children app fl nd rinit rd wr now w (cs @ rest) zw s =
    (case add_all app fl nd rinit rd wr False now ys zw s of
       (Inl f, zw', s') \<Rightarrow> Some (Inl f, zw', s')
     | (Inr u, zw', s') \<Rightarrow> export_children app fl nd rinit rd wr now w rest zw' s')"
    using inner.IH(2) [OF inner.prems(1,2) _ _ inner.prems(5)] inner.prems(3,4) by auto
  show ?case
  proof (intro exI conjI allI)
    show "names_listed (export_item w c (js_join [47] (ps @ [n])) # xs @ ys) ps (Folder n us # ts)"
      using xs(1) ys(1) inner.hyps(4) by (simp add: names_listed_def export_item_def export_options_def)
    show "export_children app fl nd rinit rd wr now w ((c # cs) @ rest) zw s =
      (case add_all app fl nd rinit rd wr False now (export_item w c (js_join [47] (ps @ [n])) # xs @ ys) zw s of
         (Inl f, zw', s') \<Rightarrow> Some (Inl f, zw', s')
       | (Inr u, zw', s') \<Rightarrow> export_children app fl nd rinit rd wr now w rest zw' s')" for rest zw s
      by (subst export_children.simps)
        (auto simp: full export_item_def xs(2) ys(2) add_all_append split: prod.splits sum.splits)
  qed
qed

section \<open>Properties\<close>

lemma listing_last:
  assumes "good_forest ts" "(qs, d) \<in> set (listing ps ts)"
  shows "\<exists>rs n. qs = rs @ [n] \<and> n \<noteq> [] \<and> 47 \<notin> set n"
  using assms by (induction ps ts rule: listing.induct) auto

text \<open>The name that \<open>add\<close> gives to an entry of the listing.\<close>

lemma entry_for_final:
  assumes "good_forest ts" "(qs, d) \<in> set (listing ps ts)" "trim (js_join [47] qs) = js_join [47] qs"
    and "i_name it = js_join [47] qs" "o_directory (i_opts it) = d"
    and "filename e = final_name it" "directory e = o_directory (i_opts it)"
  shows "entry_for (qs, d) e"
proof -
  obtain rs n where n: "qs = rs @ [n]" "n \<noteq> []" "47 \<notin> set n" using listing_last [OF assms(1,2)] by blast
  have "last (js_join [47] qs) = last n" "js_join [47] qs \<noteq> []" using n by (simp_all add: js_join_snoc)
  moreover have "last n \<noteq> 47" using n(2,3) last_in_set by metis
  ultimately show ?thesis using assms(3-7) by (simp add: entry_for_def final_name_def entry_name_def)
qed

lemma grown_shape: "grown lo hi w cs ts \<Longrightarrow> same_shape w w' \<Longrightarrow> grown lo hi w' cs ts"
proof (induction rule: grown.induct)
  case (leaf lo c hi w n cs ts)
  have "skeleton (ent w' c) = skeleton (ent w c)" using leaf.prems by (simp add: same_shape_def)
  then show ?case using leaf by (intro grown.leaf) (simp_all add: skeleton_def)
next
  case (inner lo c hi w n us cs ts)
  have "skeleton (ent w' c) = skeleton (ent w c)" using inner.prems by (simp add: same_shape_def)
  then show ?case using inner by (intro grown.inner) (simp_all add: skeleton_def)
qed (rule grown.nothing)

text \<open>What was listed, imported into an empty file system.\<close>

lemma import_listed:
  assumes "names_listed xs [] ts" "good_forest ts" "\<forall>(qs, d) \<in> set (listing [] ts). trim (js_join [47] qs) = js_join [47] qs"
    and es: "list_all2 (\<lambda>(it, ro) e. filename e = final_name it \<and> directory e = o_directory (i_opts it)) xs es"
  shows "\<exists>w'. import_entries 0 es (new_FS :: 'q zfs) = (Inr (), w') \<and>
    grown 0 (length (heap w')) w' (e_children (ent w' 0)) ts"
proof -
  let ?w = "new_FS :: 'q zfs"
  have ok: "tree_ok 0 ?w" using tree_ok_reset [of "\<lparr>heap = [], fs_entries = [], fs_root = None\<rparr>"] by (simp add: new_FS_def)
  have root: "e_directory (ent ?w 0)" "live 0 ?w 0" "e_children (ent ?w 0) = []" "length (heap ?w) = 1"
    by (simp_all add: new_FS_def resetFS_eq ent_def live_def)
  have len: "length xs = length (listing [] ts)" using assms(1) by (auto simp: names_listed_def dest: map_eq_imp_length_eq)
  have "entry_for (listing [] ts ! i) (es ! i)" if i: "i < length (listing [] ts)" for i
  proof -
    obtain it ro where it: "xs ! i = (it, ro)" by fastforce
    obtain qs d where q: "listing [] ts ! i = (qs, d)" by fastforce
    have "map (\<lambda>(it, ro). (i_name it, o_directory (i_opts it))) xs ! i = map (\<lambda>(qs, d). (js_join [47] qs, d)) (listing [] ts) ! i"
      using assms(1) by (simp add: names_listed_def)
    then have "i_name it = js_join [47] qs" "o_directory (i_opts it) = d" using i len it q by simp_all
    moreover have "filename (es ! i) = final_name it" "directory (es ! i) = o_directory (i_opts it)"
      using es i len it by (auto simp: list_all2_conv_all_nth split: prod.splits)
    moreover have "(qs, d) \<in> set (listing [] ts)" using i q by (metis nth_mem)
    ultimately show ?thesis using assms(2,3) entry_for_final unfolding q by fast
  qed
  then have "list_all2 entry_for (listing [] ts) es" using es len by (simp add: list_all2_conv_all_nth)
  then obtain w' where "import_entries 0 es ?w = (Inr (), w')" "gains 0 0 ?w w' ts"
    using import_forest [OF ok root(2) _ root(1) assms(2), of "[]" es] root(3) by (auto simp: child_named_None)
  then show ?thesis using root(3) by (auto simp: gains_def elim: grown_frame)
qed

text \<open>
  C21. Export and import are inverse on the names and kinds of a whole tree. When the readers of its files could be opened,
  \<open>exportZip\<close> of the root calls \<open>add\<close> for every entry below it, in preorder, with its path as the name, and
  then \<open>close\<close>; and \<open>importZip\<close> of any reader whose \<open>getEntries\<close> delivers entries with
  the names and kinds that were added, into an empty file system, answers, and builds the same tree, with the same order
  of children. Names must be not empty, without slashes, different among siblings, and not begin or end
  a path with white space.
\<close>

theorem exported_tree_imported:
  assumes "tree_ok b w" "grown lo hi w (e_children (ent w b)) ts" "good_forest ts"
    and "\<forall>(qs, d) \<in> set (listing [] ts). trim (js_join [47] qs) = js_join [47] qs"
    and "initReaders new_reader rinit b w = Some (Answer (), w1)" "winit s = Got s1"
  shows "\<exists>xs. map (\<lambda>(it, ro). (i_name it, o_directory (i_opts it))) xs = map (\<lambda>(qs, d). (js_join [47] qs, d)) (listing [] ts) \<and>
    exportZip new_reader app fl nd rinit rd winit wr now b s w =
      (case add_all app fl nd rinit rd wr False now xs createZipWriter s1 of
         (Inl f, zw, s2) \<Rightarrow> Some (heard (Inl f), s2, w1)
       | (Inr u, zw, s2) \<Rightarrow> (case close wr zw s2 of (x, s3) \<Rightarrow> Some (heard x, s3, w1))) \<and>
    (\<forall>rinit' rd' r k r1 r2 es. rinit' r = (Got k, r1) \<longrightarrow> getEntries rd' (int k) r1 = (Inr es, r2) \<longrightarrow>
      list_all2 (\<lambda>(it, ro) e. filename e = final_name it \<and> directory e = o_directory (i_opts it)) xs es \<longrightarrow>
      (\<exists>w'. importZip rinit' rd' (r :: 'q) 0 (new_FS :: 'q zfs) = (Answer (), w') \<and>
         grown 0 (length (heap w')) w' (e_children (ent w' 0)) ts))"
proof -
  have shape: "same_shape w w1" using init_readers_shape assms(5) unfolding initReaders_def by fastforce
  have kids: "e_children (ent w1 b) = e_children (ent w b)" using shape by (simp add: same_shape_def skeleton_def)
  have "tree_ok b w1" using assms(1) shape by (simp add: same_shape_tree_ok)
  from export_forest [OF grown_shape [OF assms(2) shape] this at_path.here _ assms(3)] kids
  obtain xs where xs: "names_listed xs [] ts" "\<And>rest zw s. export_children app fl nd rinit rd wr now w1 (e_children (ent w b) @ rest) zw s =
    (case add_all app fl nd rinit rd wr False now xs zw s of
       (Inl f, zw', s') \<Rightarrow> Some (Inl f, zw', s')
     | (Inr u, zw', s') \<Rightarrow> export_children app fl nd rinit rd wr now w1 rest zw' s')" by fastforce
  have "export_children app fl nd rinit rd wr now w1 (e_children (ent w b)) zw s =
      Some (add_all app fl nd rinit rd wr False now xs zw s)" for zw s
    using xs(2) [of "[]"] by (auto simp: export_children.simps split: prod.splits sum.splits)
  then have "exportZip new_reader app fl nd rinit rd winit wr now b s w =
      (case add_all app fl nd rinit rd wr False now xs createZipWriter s1 of
         (Inl f, zw, s2) \<Rightarrow> Some (heard (Inl f), s2, w1)
       | (Inr u, zw, s2) \<Rightarrow> (case close wr zw s2 of (x, s3) \<Rightarrow> Some (heard x, s3, w1)))"
    by (simp add: exportZip_def assms(5,6) kids split: prod.split sum.split)
  moreover have "\<exists>w'. importZip rinit' rd' (r :: 'q) 0 (new_FS :: 'q zfs) = (Answer (), w') \<and>
      grown 0 (length (heap w')) w' (e_children (ent w' 0)) ts"
    if "rinit' r = (Got k, r1)" "getEntries rd' (int k) r1 = (Inr es, r2)"
      "list_all2 (\<lambda>(it, ro) e. filename e = final_name it \<and> directory e = o_directory (i_opts it)) xs es" for rinit' rd' r k r1 r2 es
    using import_listed [OF xs(1) assms(3,4) that(3), where 'q = 'q] that(1,2) by (auto simp: importZip_def)
  ultimately show ?thesis using xs(1) unfolding names_listed_def by (intro exI [of _ xs]) blast
qed

lemma demo_readers:
  "initReaders (\<lambda>R d. BlobReader [7]) blob_rinit 0 (demo_fs 0) =
     Some (Answer (), snd (the (initReaders (\<lambda>R d. BlobReader [7]) blob_rinit 0 (demo_fs 0))))"
proof -
  have "(case initReaders (\<lambda>R d. BlobReader [7]) blob_rinit 0 (demo_fs 0) of Some (Answer u, w1) \<Rightarrow> True | _ \<Rightarrow> False)"
    by code_simp
  then show ?thesis by (auto split: option.splits prod.splits answer.splits)
qed

theorem exported_tree_imported_witness:
  "\<exists>xs. map (\<lambda>(it, ro). (i_name it, o_directory (i_opts it))) xs =
      map (\<lambda>(qs, d). (js_join [47] qs, d)) (listing [] [Folder (js ''a'') [File (js ''f'')], Folder (js ''b'') []]) \<and>
    exportZip (\<lambda>R d. BlobReader [7]) (\<lambda>a p. (Inr None, p)) (\<lambda>p. (Inr None, p)) (\<lambda>_. ()) blob_rinit blob_read (\<lambda>s. Got (bw_init s))
        bw_write demo_now 0 (BlobWriter None) (demo_fs 0) =
      (case add_all (\<lambda>a p. (Inr None, p)) (\<lambda>p. (Inr None, p)) (\<lambda>_. ()) blob_rinit blob_read bw_write False demo_now xs
          createZipWriter (bw_init (BlobWriter None)) of
         (Inl f, zw, s2) \<Rightarrow> Some (heard (Inl f), s2, snd (the (initReaders (\<lambda>R d. BlobReader [7]) blob_rinit 0 (demo_fs 0))))
       | (Inr u, zw, s2) \<Rightarrow> (case close bw_write zw s2 of
           (x, s3) \<Rightarrow> Some (heard x, s3, snd (the (initReaders (\<lambda>R d. BlobReader [7]) blob_rinit 0 (demo_fs 0)))))) \<and>
    (\<forall>rinit' rd' r k r1 r2 es. rinit' r = (Got k, r1) \<longrightarrow> getEntries rd' (int k) r1 = (Inr es, r2) \<longrightarrow>
      list_all2 (\<lambda>(it, ro) e. filename e = final_name it \<and> directory e = o_directory (i_opts it)) xs es \<longrightarrow>
      (\<exists>w'. importZip rinit' rd' (r :: blob_reader) 0 (new_FS :: blob_reader zfs) = (Answer (), w') \<and>
         grown 0 (length (heap w')) w' (e_children (ent w' 0)) [Folder (js ''a'') [File (js ''f'')], Folder (js ''b'') []]))"
proof (rule exported_tree_imported [OF demo_ok _ _ _ demo_readers refl])
  let ?w = "demo_fs 0"
  have c: "e_children (ent ?w 0) = [1, 3]" "e_children (ent ?w 1) = [2]" "e_children (ent ?w 2) = []"
    "e_children (ent ?w 3) = []" by code_simp+
  have n: "e_name (ent ?w 1) = Some (js ''a'')" "e_name (ent ?w 2) = Some (js ''f'')" "e_name (ent ?w 3) = Some (js ''b'')"
    by code_simp+
  have d: "e_directory (ent ?w 1)" "\<not> e_directory (ent ?w 2)" "e_directory (ent ?w 3)" by code_simp+
  show "grown 0 4 ?w (e_children (ent ?w 0)) [Folder (js ''a'') [File (js ''f'')], Folder (js ''b'') []]"
    unfolding c(1)
    by (intro grown.inner grown.leaf grown.nothing n d, simp_all only: c(2-4))
      (intro grown.leaf grown.nothing n d c, simp_all add: grown.nothing)
  show "good_forest [Folder (js ''a'') [File (js ''f'')], Folder (js ''b'') []]" by simp
  show "\<forall>(qs, d) \<in> set (listing [] [Folder (js ''a'') [File (js ''f'')], Folder (js ''b'') []]).
      trim (js_join [47] qs) = js_join [47] qs" by (simp add: trim_def white_def)
qed

text \<open>
  C26. An archive with a file and an entry below that file cannot be imported: wherever the two stand in the archive, however
  deep the one is below the other, and whatever other entries there are, an exception is
  thrown inside the callback of \<open>getEntries\<close>, so neither \<open>onend\<close> nor \<open>onerror\<close> of \<open>importZip\<close> is called. The path
  of the entry is that of the file and more; when no more than a slash is added, as for a directory with the name of the
  file, the entry has to come first.
\<close>

theorem import_below_file_dies:
  fixes w :: "'r zfs"
  assumes "tree_ok b w" "live b w d"
    and "rinit r = (Got k, r')" "getEntries rd (int k) r' = (Inr es, r'')"
    and "i < length es" "j < length es" "i \<noteq> j" "\<not> directory (es ! i)"
    and "butlast (js_split [47] (filename (es ! j))) = js_split [47] (filename (es ! i)) @ ms"
    and "ms \<noteq> [] \<or> \<not> directory (es ! j) \<or> j < i"
  shows "\<exists>x. fst (importZip rinit rd r d w) = Throws x"
proof (rule ccontr)
  let ?q = "js_split [47] (filename (es ! i))" and ?p = "js_split [47] (filename (es ! j))"
  assume never: "\<nexists>x. fst (importZip rinit rd r d w) = Throws x"
  obtain x w' where x: "import_entries d es w = (x, w')" by (cases "import_entries d es w")
  then have "\<exists>u. x = Inr u" using never by (cases x) (simp_all add: importZip_def assms(3,4))
  with x obtain u where u: "import_entries d es w = (Inr u, w')" by blast
  show False
  proof (cases "i < j")
    case True
    obtain w1 w2 w3 w4 :: "'r zfs" where
      t: "tree_ok b w1" "live b w1 d" "import_entry d (es ! i) w1 = (Inr (), w2)" "keeps b w2 w3"
        "live b w2 d" "tree_ok b w3" "live b w3 d" "import_entry d (es ! j) w3 = (Inr (), w4)"
      by (rule two_entries [OF assms(1,2) u True assms(6)]) (rule that)
    obtain c where c: "find_from w2 d ?q = Inr (Some c)" "\<not> e_directory (ent w2 c)" "keeps b w1 w2"
      using import_entry_keeps [OF t(1-3), unfolded if_not_P [OF assms(8)]] assms(8) by blast
    have "find_from w3 d ?q = Inr (Some c)" by (rule keepsD(4) [OF t(4,5) c(1)])
    moreover have "\<not> e_directory (ent w3 c)"
      using keepsD(3) [OF t(4) find_from_live [OF keepsD(1) [OF c(3)] t(5) c(1)]] c(2) by simp
    moreover have "ms \<noteq> [] \<or> \<not> directory (es ! j)" using assms(10) True by auto
    ultimately show False using import_under_file_fails [OF _ _ assms(9)] t(8) by fastforce
  next
    case False
    with assms(7) have "j < i" by simp
    obtain w1 w2 w3 w4 :: "'r zfs" where
      t: "tree_ok b w1" "live b w1 d" "import_entry d (es ! j) w1 = (Inr (), w2)" "keeps b w2 w3"
        "live b w2 d" "tree_ok b w3" "live b w3 d" "import_entry d (es ! i) w3 = (Inr (), w4)"
      by (rule two_entries [OF assms(1,2) u \<open>j < i\<close> assms(5)]) (rule that)
    have "butlast ?p @ [last ?p] = ?p" by simp
    then have p: "?p = ?q @ ms @ [last ?p]" unfolding assms(9) by simp
    obtain c where c: "find_from w2 d (if directory (es ! j) then butlast ?p else ?p) = Inr (Some c)"
      using import_entry_keeps [OF t(1-3)] by blast
    have "\<exists>ns. (if directory (es ! j) then butlast ?p else ?p) = ?q @ ns"
      using assms(9) p by (cases "directory (es ! j)") (simp_all, blast)
    with c obtain ns where "find_from w2 d (?q @ ns) = Inr (Some c)" by auto
    then obtain a where "find_from w2 d ?q = Inr (Some a)" by (auto simp: find_from_append split: sum.splits option.splits)
    then have "find_from w3 d ?q = Inr (Some a)" by (rule keepsD(4) [OF t(4,5)])
    from import_onto_fails [OF t(6,7) this assms(8)] t(8) show False by simp
  qed
qed

definition demo_nested :: "item list" where
  "demo_nested =
     [\<lparr>i_name = js ''f'', i_data = [1], i_opts = no_options\<rparr>, \<lparr>i_name = js ''f/x'', i_data = [2], i_opts = no_options\<rparr>]"

lemma demo_nested_fits: "archive_fits demo_now demo_nested"
proof -
  obtain d f where its: "demo_nested = [d, f]" by (simp add: demo_nested_def)
  have names: "final_name d = js ''f'' \<and> final_name f = js ''f/x''"
    using its by (auto simp: demo_nested_def final_name_def entry_name_def trim_def white_def no_options_def)
  have parts: "i_data d = [1] \<and> i_data f = [2] \<and> o_comment (i_opts d) = [] \<and> o_comment (i_opts f) = [] \<and>
      item_date demo_now d = demo_now \<and> item_date demo_now f = demo_now"
    using its by (auto simp: demo_nested_def item_date_def no_options_def)
  have time: "dos_time demo_now = 23498" "dos_date demo_now = 16583"
    by (simp_all add: dos_time_def dos_date_def demo_now_def)
  have lens: "length (name_bytes d) = 1 \<and> length (name_bytes f) = 3 \<and> length (comment_bytes d) = 0 \<and> length (comment_bytes f) = 0"
    using names parts by (simp add: name_bytes_def comment_bytes_def getBytes_def encodeUTF8_map enc1_def)
  show ?thesis
    using parts lens unfolding archive_fits_def its
    by (simp add: item_fits_def locals_def length_local_bytes time u16_def)
qed

theorem import_below_file_dies_witness:
  "\<exists>x. fst (importZip blob_rinit blob_read (BlobReader (archive demo_now demo_nested)) 0 (new_FS :: blob_reader zfs)) = Throws x"
proof -
  obtain d f where its: "demo_nested = [d, f]" by (simp add: demo_nested_def)
  have names: "final_name d = js ''f'' \<and> final_name f = js ''f'' @ [47] @ js ''x'' \<and> \<not> o_directory (i_opts d) \<and> \<not> o_directory (i_opts f)"
    using its by (auto simp: demo_nested_def final_name_def entry_name_def trim_def white_def no_options_def)
  let ?r = "blob_init (BlobReader (archive demo_now demo_nested))"
  have "blob_holds ?r (archive demo_now demo_nested)"
    by (simp add: blob_holds_def BlobReader_def blob_init_def)
  from blob.getEntries_closed [OF this demo_nested_fits] obtain r where
    r: "getEntries blob_read (int (length (archive demo_now demo_nested))) ?r =
      (Inr (expected_all demo_now 0 demo_nested), r)" by blast
  have es: "expected_all demo_now 0 demo_nested = [expected demo_now 0 d, expected demo_now (length (local_bytes demo_now d)) f]"
    by (simp add: its)
  have i: "blob_rinit (BlobReader b) = (Got (length b), blob_init (BlobReader b))" for b
    by (simp add: blob_rinit_def BlobReader_def)
  have split: "js_split [47] (js ''f'') = [js ''f'']" "js_split [47] (js ''f'' @ [47] @ js ''x'') = [js ''f'', js ''x'']"
    using js_split_join [of "[js ''f'']" 47] js_split_join [of "[js ''f'', js ''x'']" 47] by simp_all
  have ok: "tree_ok 0 (new_FS :: blob_reader zfs)" using tree_ok_reset [of no_FS] unfolding no_FS .
  show ?thesis
    by (rule import_below_file_dies [where rinit = blob_rinit, OF ok new_FS_live i r [unfolded es], of 0 1 "[]"])
      (use names split in \<open>simp_all add: expected_def\<close>)
qed

text \<open>
  C27. A file imported from an archive that \<open>createZipWriter\<close> wrote without compression (C1 gives its bytes) is extracted
  at its first read and only then: the part asked for is that of the content, and every later read is
  served without touching the archive.
\<close>

theorem zipped_file_read_once:
  assumes "archive_fits now its" "its = xs @ it # ys" "0 < n" "i + n \<le> length (i_data it)"
  shows "\<exists>z r. zb_read app fl p blob_read (int i) (int n) (zb_init (ZipBlobReader (expected_all now 0 its ! length xs)))
      (BlobReader (archive now its)) = (Answer (take n (drop i (i_data it))), z, r) \<and>
    zb_size z = length (i_data it) \<and>
    (\<forall>j m rd0 (r0 :: 's). 0 < m \<longrightarrow> j + m \<le> length (i_data it) \<longrightarrow>
       (\<exists>z'. zb_read app fl p rd0 (int j) (int m) z r0 = (Answer (take m (drop j (i_data it))), z', r0)))"
proof -
  let ?e = "expected now (length (locals now xs)) it"
  let ?open = "\<lambda>s. Got (bw_init s)" and ?w0 = "bw_init (BlobWriter None)"
  have e: "expected_all now 0 its ! length xs = ?e" using item_position(2) [OF assms(2), of now 0] by simp
  obtain c where "archive now its = locals now xs @ local_bytes now it @ c" using item_position(1) [OF assms(2)] by blast
  then have "blob_holds (BlobReader (archive now its)) (locals now xs @ local_bytes now it @ c)"
    by (simp add: blob_holds_def BlobReader_def)
  moreover have "item_fits now it" using assms(1,2) by (simp add: archive_fits_def)
  moreover have "bw_open ?w0" "bw_written ?w0 = []" by (simp_all add: bw_init_def bw_written_def)
  ultimately obtain r' w' where g: "getData app fl p blob_read ?open bw_write False ?e (BlobReader (archive now its)) (BlobWriter None) =
      (Inr (), ?e, r', w')" "bw_written w' = i_data it"
    using blob_transfer.getData_closed [where winit = ?open and w = "BlobWriter None" and ?w0.0 = ?w0 and app = app and fl = fl
        and p = p and check = False] by blast
  have "i_data it \<noteq> []" using assms(3,4) by auto
  then obtain bb where bb: "bw_builder w' = Some bb" "built bb = i_data it" using g(2) by (cases "bw_builder w'") (auto simp: bw_written_def)
  then have "blobParts bb \<noteq> []" using \<open>i_data it \<noteq> []\<close> by (auto simp: built_def)
  then have blob: "\<exists>s. bw_getData w' = (Got (fst (getBlob bb (bw_type w'))), s)" "blob_bytes (fst (getBlob bb (bw_type w'))) = i_data it"
    using bb by (simp_all add: bw_getData_def getBlob_bytes split: prod.split)
  let ?z = "zb_init (ZipBlobReader ?e)"
  let ?b = "BlobReader (i_data it)"
  have "zb_getData app fl p blob_read ?z (BlobReader (archive now its)) = (Answer ?b, ?z\<lparr>zb_blob := Some ?b\<rparr>, r')"
    using g(1) blob by (auto simp: zb_getData_def zb_init_def ZipBlobReader_def Let_def)
  moreover have read: "blob_read ?b (int j) (int m) = (Got (take m (drop j (i_data it))), ?b)" if "j + m \<le> length (i_data it)" for j m
    using rel_slice_nat [OF that] by (simp add: blob_read_def BlobReader_def blobSlice_def)
  ultimately have first: "zb_read app fl p blob_read (int i) (int n) ?z (BlobReader (archive now its)) =
      (Answer (take n (drop i (i_data it))), ?z\<lparr>zb_blob := Some ?b\<rparr>, r')"
    using read [OF assms(4)] by (simp add: zb_read_def)
  have later: "zb_read app fl p rd0 (int j) (int m) (?z\<lparr>zb_blob := Some ?b\<rparr>) r0 =
      (Answer (take m (drop j (i_data it))), ?z\<lparr>zb_blob := Some ?b\<rparr>, r0)" if "j + m \<le> length (i_data it)" for j m rd0 and r0 :: 's
    using read [OF that] by (simp add: zb_read_def zb_getData_def)
  have "zb_size (?z\<lparr>zb_blob := Some ?b\<rparr>) = length (i_data it)"
    by (simp add: zb_init_def ZipBlobReader_def expected_def or_0_def)
  with first later show ?thesis unfolding e by blast
qed

theorem zipped_file_read_once_witness:
  "\<exists>z r. zb_read (\<lambda>a p. (Inr None, p)) (\<lambda>p. (Inr None, p)) () blob_read (int 1) (int 2)
      (zb_init (ZipBlobReader (expected_all demo_now 0 demo_items ! length [hd demo_items])))
      (BlobReader (archive demo_now demo_items)) = (Answer (take 2 (drop 1 (i_data (demo_items ! 1)))), z, r) \<and>
    zb_size z = length (i_data (demo_items ! 1)) \<and>
    (\<forall>j m rd0 (r0 :: unit). 0 < m \<longrightarrow> j + m \<le> length (i_data (demo_items ! 1)) \<longrightarrow>
       (\<exists>z'. zb_read (\<lambda>a p. (Inr None, p)) (\<lambda>p. (Inr None, p)) () rd0 (int j) (int m) z r0 =
          (Answer (take m (drop j (i_data (demo_items ! 1)))), z', r0)))"
  by (rule zipped_file_read_once [OF demo_fits, where ys = "[]"]) (simp_all add: demo_items_def)

end
