(* ===== verification/Inf_Tree.thy ===== *)
theory Inf_Tree
  imports Zip_Bytes
begin

text \<open>
  \<open>InfTree\<close> of \<^verbatim>\<open>html/lib/inflate.js\<close>: the constants and tables of the decompressor and the
  construction of the decoding tables of a Huffman code (\<open>huft_build\<close>). A table is a flat array of
  triples: an operation, a number of bits and a value. All numbers are integers; the work arrays of
  the object are cleared by \<open>initWorkArea\<close> before every use, so they are local here.
\<close>

section \<open>Effects\<close>

text \<open>
  What can stop the decompressor: an exception, or arithmetic on an element that an array does not
  have (JavaScript goes on with \<open>undefined\<close>; the model stops and says so), or a loop of \<open>huft_build\<close>
  that would not end.
\<close>

datatype stop = Raises js_error | Undefined | Spins

type_synonym 'a eff = "stop + 'a"

fun ebind :: "'a eff \<Rightarrow> ('a \<Rightarrow> 'b eff) \<Rightarrow> 'b eff" where
  "ebind (Inl e) f = Inl e"
| "ebind (Inr x) f = f x"

lemma ebind_cong [fundef_cong]:
  "m = m' \<Longrightarrow> (\<And>x. m' = Inr x \<Longrightarrow> f x = g x) \<Longrightarrow> ebind m f = ebind m' g"
  by (cases m') simp_all

lemma ebind_Inr_iff: "ebind m f = Inr y \<longleftrightarrow> (\<exists>x. m = Inr x \<and> f x = Inr y)"
  by (cases m) simp_all

text \<open>Element \<open>i\<close> of an array, a write to it (outside a typed array it is ignored), and \<open>set\<close>.\<close>

definition elem :: "'a list \<Rightarrow> int \<Rightarrow> 'a eff" where
  "elem xs i = (case arr_at xs i of None \<Rightarrow> Inl Undefined | Some x \<Rightarrow> Inr x)"

definition arr_put :: "'a list \<Rightarrow> int \<Rightarrow> 'a \<Rightarrow> 'a list" where
  "arr_put xs i v = (if 0 \<le> i \<and> i < int (length xs) then xs[nat i := v] else xs)"

definition arr_set :: "'a list \<Rightarrow> int \<Rightarrow> 'a list \<Rightarrow> 'a list eff" where
  "arr_set xs i vs =
     (if 0 \<le> i \<and> i + int (length vs) \<le> int (length xs)
      then Inr (take (nat i) xs @ vs @ drop (nat i + length vs) xs) else Inl (Raises RangeError))"

section \<open>Constants\<close>

definition MAX_BITS :: int where [simp]: "MAX_BITS = 15"
definition Z_OK :: int where [simp]: "Z_OK = 0"
definition Z_STREAM_END :: int where [simp]: "Z_STREAM_END = 1"
definition Z_NEED_DICT :: int where [simp]: "Z_NEED_DICT = 2"
definition Z_STREAM_ERROR :: int where [simp]: "Z_STREAM_ERROR = - 2"
definition Z_DATA_ERROR :: int where [simp]: "Z_DATA_ERROR = - 3"
definition Z_MEM_ERROR :: int where [simp]: "Z_MEM_ERROR = - 4"
definition Z_BUF_ERROR :: int where [simp]: "Z_BUF_ERROR = - 5"
definition MANY :: int where [simp]: "MANY = 1440"
definition Z_NO_FLUSH :: int where [simp]: "Z_NO_FLUSH = 0"
definition Z_FINISH :: int where [simp]: "Z_FINISH = 4"
definition BMAX :: int where [simp]: "BMAX = 15"

definition inflate_mask :: "int list" where
  "inflate_mask =
    [0, 1, 3, 7, 15, 31, 63, 127, 255, 511, 1023, 2047, 4095, 8191, 16383, 32767, 65535]"

section \<open>The fixed tables\<close>

definition fixed_bl :: int where [simp]: "fixed_bl = 9"
definition fixed_bd :: int where [simp]: "fixed_bd = 5"

definition fixed_tl :: "int list" where
  "fixed_tl =
    [96, 7, 256, 0, 8, 80, 0, 8, 16, 84, 8, 115, 82, 7, 31, 0, 8, 112, 0, 8, 48, 0, 9, 192, 80, 7,
     10, 0, 8, 96, 0, 8, 32, 0, 9, 160, 0, 8, 0, 0, 8, 128, 0, 8, 64, 0, 9, 224, 80, 7, 6, 0, 8,
     88, 0, 8, 24, 0, 9, 144, 83, 7, 59, 0, 8, 120, 0, 8, 56, 0, 9, 208, 81, 7, 17, 0, 8, 104, 0,
     8, 40, 0, 9, 176, 0, 8, 8, 0, 8, 136, 0, 8, 72, 0, 9, 240, 80, 7, 4, 0, 8, 84, 0, 8, 20, 85,
     8, 227, 83, 7, 43, 0, 8, 116, 0, 8, 52, 0, 9, 200, 81, 7, 13, 0, 8, 100, 0, 8, 36, 0, 9, 168,
     0, 8, 4, 0, 8, 132, 0, 8, 68, 0, 9, 232, 80, 7, 8, 0, 8, 92, 0, 8, 28, 0, 9, 152, 84, 7, 83,
     0, 8, 124, 0, 8, 60, 0, 9, 216, 82, 7, 23, 0, 8, 108, 0, 8, 44, 0, 9, 184, 0, 8, 12, 0, 8,
     140, 0, 8, 76, 0, 9, 248, 80, 7, 3, 0, 8, 82, 0, 8, 18, 85, 8, 163, 83, 7, 35, 0, 8, 114, 0,
     8, 50, 0, 9, 196, 81, 7, 11, 0, 8, 98, 0, 8, 34, 0, 9, 164, 0, 8, 2, 0, 8, 130, 0, 8, 66, 0,
     9, 228, 80, 7, 7, 0, 8, 90, 0, 8, 26, 0, 9, 148, 84, 7, 67, 0, 8, 122, 0, 8, 58, 0, 9, 212,
     82, 7, 19, 0, 8, 106, 0, 8, 42, 0, 9, 180, 0, 8, 10, 0, 8, 138, 0, 8, 74, 0, 9, 244, 80, 7,
     5, 0, 8, 86, 0, 8, 22, 192, 8, 0, 83, 7, 51, 0, 8, 118, 0, 8, 54, 0, 9, 204, 81, 7, 15, 0, 8,
     102, 0, 8, 38, 0, 9, 172, 0, 8, 6, 0, 8, 134, 0, 8, 70, 0, 9, 236, 80, 7, 9, 0, 8, 94, 0, 8,
     30, 0, 9, 156, 84, 7, 99, 0, 8, 126, 0, 8, 62, 0, 9, 220, 82, 7, 27, 0, 8, 110, 0, 8, 46, 0,
     9, 188, 0, 8, 14, 0, 8, 142, 0, 8, 78, 0, 9, 252, 96, 7, 256, 0, 8, 81, 0, 8, 17, 85, 8, 131,
     82, 7, 31, 0, 8, 113, 0, 8, 49, 0, 9, 194, 80, 7, 10, 0, 8, 97, 0, 8, 33, 0, 9, 162, 0, 8, 1,
     0, 8, 129, 0, 8, 65, 0, 9, 226, 80, 7, 6, 0, 8, 89, 0, 8, 25, 0, 9, 146, 83, 7, 59, 0, 8,
     121, 0, 8, 57, 0, 9, 210, 81, 7, 17, 0, 8, 105, 0, 8, 41, 0, 9, 178, 0, 8, 9, 0, 8, 137, 0,
     8, 73, 0, 9, 242, 80, 7, 4, 0, 8, 85, 0, 8, 21, 80, 8, 258, 83, 7, 43, 0, 8, 117, 0, 8, 53,
     0, 9, 202, 81, 7, 13, 0, 8, 101, 0, 8, 37, 0, 9, 170, 0, 8, 5, 0, 8, 133, 0, 8, 69, 0, 9,
     234, 80, 7, 8, 0, 8, 93, 0, 8, 29, 0, 9, 154, 84, 7, 83, 0, 8, 125, 0, 8, 61, 0, 9, 218, 82,
     7, 23, 0, 8, 109, 0, 8, 45, 0, 9, 186, 0, 8, 13, 0, 8, 141, 0, 8, 77, 0, 9, 250, 80, 7, 3, 0,
     8, 83, 0, 8, 19, 85, 8, 195, 83, 7, 35, 0, 8, 115, 0, 8, 51, 0, 9, 198, 81, 7, 11, 0, 8, 99,
     0, 8, 35, 0, 9, 166, 0, 8, 3, 0, 8, 131, 0, 8, 67, 0, 9, 230, 80, 7, 7, 0, 8, 91, 0, 8, 27,
     0, 9, 150, 84, 7, 67, 0, 8, 123, 0, 8, 59, 0, 9, 214, 82, 7, 19, 0, 8, 107, 0, 8, 43, 0, 9,
     182, 0, 8, 11, 0, 8, 139, 0, 8, 75, 0, 9, 246, 80, 7, 5, 0, 8, 87, 0, 8, 23, 192, 8, 0, 83,
     7, 51, 0, 8, 119, 0, 8, 55, 0, 9, 206, 81, 7, 15, 0, 8, 103, 0, 8, 39, 0, 9, 174, 0, 8, 7, 0,
     8, 135, 0, 8, 71, 0, 9, 238, 80, 7, 9, 0, 8, 95, 0, 8, 31, 0, 9, 158, 84, 7, 99, 0, 8, 127,
     0, 8, 63, 0, 9, 222, 82, 7, 27, 0, 8, 111, 0, 8, 47, 0, 9, 190, 0, 8, 15, 0, 8, 143, 0, 8,
     79, 0, 9, 254, 96, 7, 256, 0, 8, 80, 0, 8, 16, 84, 8, 115, 82, 7, 31, 0, 8, 112, 0, 8, 48, 0,
     9, 193, 80, 7, 10, 0, 8, 96, 0, 8, 32, 0, 9, 161, 0, 8, 0, 0, 8, 128, 0, 8, 64, 0, 9, 225,
     80, 7, 6, 0, 8, 88, 0, 8, 24, 0, 9, 145, 83, 7, 59, 0, 8, 120, 0, 8, 56, 0, 9, 209, 81, 7,
     17, 0, 8, 104, 0, 8, 40, 0, 9, 177, 0, 8, 8, 0, 8, 136, 0, 8, 72, 0, 9, 241, 80, 7, 4, 0, 8,
     84, 0, 8, 20, 85, 8, 227, 83, 7, 43, 0, 8, 116, 0, 8, 52, 0, 9, 201, 81, 7, 13, 0, 8, 100, 0,
     8, 36, 0, 9, 169, 0, 8, 4, 0, 8, 132, 0, 8, 68, 0, 9, 233, 80, 7, 8, 0, 8, 92, 0, 8, 28, 0,
     9, 153, 84, 7, 83, 0, 8, 124, 0, 8, 60, 0, 9, 217, 82, 7, 23, 0, 8, 108, 0, 8, 44, 0, 9, 185,
     0, 8, 12, 0, 8, 140, 0, 8, 76, 0, 9, 249, 80, 7, 3, 0, 8, 82, 0, 8, 18, 85, 8, 163, 83, 7,
     35, 0, 8, 114, 0, 8, 50, 0, 9, 197, 81, 7, 11, 0, 8, 98, 0, 8, 34, 0, 9, 165, 0, 8, 2, 0, 8,
     130, 0, 8, 66, 0, 9, 229, 80, 7, 7, 0, 8, 90, 0, 8, 26, 0, 9, 149, 84, 7, 67, 0, 8, 122, 0,
     8, 58, 0, 9, 213, 82, 7, 19, 0, 8, 106, 0, 8, 42, 0, 9, 181, 0, 8, 10, 0, 8, 138, 0, 8, 74,
     0, 9, 245, 80, 7, 5, 0, 8, 86, 0, 8, 22, 192, 8, 0, 83, 7, 51, 0, 8, 118, 0, 8, 54, 0, 9,
     205, 81, 7, 15, 0, 8, 102, 0, 8, 38, 0, 9, 173, 0, 8, 6, 0, 8, 134, 0, 8, 70, 0, 9, 237, 80,
     7, 9, 0, 8, 94, 0, 8, 30, 0, 9, 157, 84, 7, 99, 0, 8, 126, 0, 8, 62, 0, 9, 221, 82, 7, 27, 0,
     8, 110, 0, 8, 46, 0, 9, 189, 0, 8, 14, 0, 8, 142, 0, 8, 78, 0, 9, 253, 96, 7, 256, 0, 8, 81,
     0, 8, 17, 85, 8, 131, 82, 7, 31, 0, 8, 113, 0, 8, 49, 0, 9, 195, 80, 7, 10, 0, 8, 97, 0, 8,
     33, 0, 9, 163, 0, 8, 1, 0, 8, 129, 0, 8, 65, 0, 9, 227, 80, 7, 6, 0, 8, 89, 0, 8, 25, 0, 9,
     147, 83, 7, 59, 0, 8, 121, 0, 8, 57, 0, 9, 211, 81, 7, 17, 0, 8, 105, 0, 8, 41, 0, 9, 179, 0,
     8, 9, 0, 8, 137, 0, 8, 73, 0, 9, 243, 80, 7, 4, 0, 8, 85, 0, 8, 21, 80, 8, 258, 83, 7, 43, 0,
     8, 117, 0, 8, 53, 0, 9, 203, 81, 7, 13, 0, 8, 101, 0, 8, 37, 0, 9, 171, 0, 8, 5, 0, 8, 133,
     0, 8, 69, 0, 9, 235, 80, 7, 8, 0, 8, 93, 0, 8, 29, 0, 9, 155, 84, 7, 83, 0, 8, 125, 0, 8, 61,
     0, 9, 219, 82, 7, 23, 0, 8, 109, 0, 8, 45, 0, 9, 187, 0, 8, 13, 0, 8, 141, 0, 8, 77, 0, 9,
     251, 80, 7, 3, 0, 8, 83, 0, 8, 19, 85, 8, 195, 83, 7, 35, 0, 8, 115, 0, 8, 51, 0, 9, 199, 81,
     7, 11, 0, 8, 99, 0, 8, 35, 0, 9, 167, 0, 8, 3, 0, 8, 131, 0, 8, 67, 0, 9, 231, 80, 7, 7, 0,
     8, 91, 0, 8, 27, 0, 9, 151, 84, 7, 67, 0, 8, 123, 0, 8, 59, 0, 9, 215, 82, 7, 19, 0, 8, 107,
     0, 8, 43, 0, 9, 183, 0, 8, 11, 0, 8, 139, 0, 8, 75, 0, 9, 247, 80, 7, 5, 0, 8, 87, 0, 8, 23,
     192, 8, 0, 83, 7, 51, 0, 8, 119, 0, 8, 55, 0, 9, 207, 81, 7, 15, 0, 8, 103, 0, 8, 39, 0, 9,
     175, 0, 8, 7, 0, 8, 135, 0, 8, 71, 0, 9, 239, 80, 7, 9, 0, 8, 95, 0, 8, 31, 0, 9, 159, 84, 7,
     99, 0, 8, 127, 0, 8, 63, 0, 9, 223, 82, 7, 27, 0, 8, 111, 0, 8, 47, 0, 9, 191, 0, 8, 15, 0,
     8, 143, 0, 8, 79, 0, 9, 255]"

definition fixed_td :: "int list" where
  "fixed_td =
    [80, 5, 1, 87, 5, 257, 83, 5, 17, 91, 5, 4097, 81, 5, 5, 89, 5, 1025, 85, 5, 65, 93, 5, 16385,
     80, 5, 3, 88, 5, 513, 84, 5, 33, 92, 5, 8193, 82, 5, 9, 90, 5, 2049, 86, 5, 129, 192, 5,
     24577, 80, 5, 2, 87, 5, 385, 83, 5, 25, 91, 5, 6145, 81, 5, 7, 89, 5, 1537, 85, 5, 97, 93, 5,
     24577, 80, 5, 4, 88, 5, 769, 84, 5, 49, 92, 5, 12289, 82, 5, 13, 90, 5, 3073, 86, 5, 193,
     192, 5, 24577]"

section \<open>Base values and extra bits\<close>

definition cplens :: "int list" where
  "cplens =
    [3, 4, 5, 6, 7, 8, 9, 10, 11, 13, 15, 17, 19, 23, 27, 31, 35, 43, 51, 59, 67, 83, 99, 115,
     131, 163, 195, 227, 258, 0, 0]"

definition cplext :: "int list" where
  "cplext =
    [0, 0, 0, 0, 0, 0, 0, 0, 1, 1, 1, 1, 2, 2, 2, 2, 3, 3, 3, 3, 4, 4, 4, 4, 5, 5, 5, 5, 0, 112,
     112]"

definition cpdist :: "int list" where
  "cpdist =
    [1, 2, 3, 4, 5, 7, 9, 13, 17, 25, 33, 49, 65, 97, 129, 193, 257, 385, 513, 769, 1025, 1537,
     2049, 3073, 4097, 6145, 8193, 12289, 16385, 24577]"

definition cpdext :: "int list" where
  "cpdext =
    [0, 0, 0, 0, 1, 1, 2, 2, 3, 3, 4, 4, 5, 5, 6, 6, 7, 7, 8, 8, 9, 9, 10, 10, 11, 11, 12, 12, 13,
     13]"

section \<open>huft_build\<close>

text \<open>\<open>c[b[bindex + p]]++\<close> for the \<open>n\<close> codes.\<close>

fun count_lengths :: "int list \<Rightarrow> int list \<Rightarrow> int list eff" where
  "count_lengths c [] = Inr c"
| "count_lengths c (b # bs) = ebind (elem c b) (\<lambda>k. count_lengths (arr_put c b (k + 1)) bs)"

text \<open>\<open>b[bindex], \<dots>, b[bindex + n - 1]\<close>\<close>

definition lengths_of :: "int list \<Rightarrow> int \<Rightarrow> int \<Rightarrow> int list eff" where
  "lengths_of b bindex n =
     (if 0 \<le> bindex \<and> 0 \<le> n \<and> bindex + n \<le> int (length b)
      then Inr (take (nat n) (drop (nat bindex) b)) else Inl Undefined)"

text \<open>The first non-zero count from \<open>j\<close> upwards (16 if there is none), the last one from \<open>i\<close> downwards.\<close>

function first_used :: "int list \<Rightarrow> int \<Rightarrow> int" where
  "first_used c j = (if j \<le> BMAX \<and> arr_at c j = Some 0 then first_used c (j + 1) else j)"
  by pat_completeness auto
termination by (relation "measure (\<lambda>(c, j). nat (16 - j))") auto

function last_used :: "int list \<Rightarrow> int \<Rightarrow> int" where
  "last_used c i = (if 0 < i \<and> arr_at c i = Some 0 then last_used c (i - 1) else i)"
  by pat_completeness auto
termination by (relation "measure (\<lambda>(c, i). nat i)") auto

declare first_used.simps [simp del] last_used.simps [simp del]

text \<open>
  \<open>for (y = 1 << j; j < i; j++, y <<= 1) if ((y -= c[j]) < 0) return Z_DATA_ERROR\<close>, then once more
  for \<open>c[i]\<close>: the number of codes left over, or \<open>None\<close> for an over-subscribed set.
\<close>

function codes_left :: "int list \<Rightarrow> int \<Rightarrow> int \<Rightarrow> int \<Rightarrow> int option" where
  "codes_left c y j i =
     (let y' = y - (case arr_at c j of Some k \<Rightarrow> k | None \<Rightarrow> 0) in
      if y' < 0 then None else if j < i then codes_left c (2 * y') (j + 1) i else Some y')"
  by pat_completeness auto
termination by (relation "measure (\<lambda>(c, y, j, i). nat (i - j))") auto

declare codes_left.simps [simp del]

text \<open>Starting offsets: \<open>x[k + 1] = x[k] + c[k]\<close> for \<open>1 \<le> k < g\<close>.\<close>

function offsets :: "int list \<Rightarrow> int list \<Rightarrow> int \<Rightarrow> int \<Rightarrow> int \<Rightarrow> int list" where
  "offsets c x j p g =
     (if p < g
      then let j' = j + (case arr_at c p of Some k \<Rightarrow> k | None \<Rightarrow> 0)
           in offsets c (arr_put x (p + 1) j') j' (p + 1) g
      else x)"
  by pat_completeness auto
termination by (relation "measure (\<lambda>(c, x, j, p, g). nat (g - p))") auto

declare offsets.simps [simp del]

text \<open>The values in order of their bit lengths: \<open>if ((j = b[bindex + p]) !== 0) v[x[j]++] = i\<close>.\<close>

fun sort_values :: "int list \<Rightarrow> int \<Rightarrow> int list \<Rightarrow> int list \<Rightarrow> (int list \<times> int list) eff" where
  "sort_values [] i x v = Inr (x, v)"
| "sort_values (j # bs) i x v =
     (if j \<noteq> 0
      then ebind (elem x j) (\<lambda>xj. sort_values bs (i + 1) (arr_put x j (xj + 1)) (arr_put v xj i))
      else sort_values bs (i + 1) x v)"

text \<open>What the loops that write the tables change.\<close>

record huft =
  h_i :: int
  h_h :: int
  h_w :: int
  h_p :: int
  h_q :: int
  h_z :: int
  h_u :: "int list"
  h_x :: "int list"
  h_r :: "int list"
  h_hn :: int
  h_t :: "int option"
  h_hp :: "int list"

text \<open>\<open>while (++j < z) { if ((f <<= 1) <= c[++xp]) break; f -= c[xp]; }\<close>: the final \<open>j\<close>.\<close>

function try_bits :: "int list \<Rightarrow> int \<Rightarrow> int \<Rightarrow> int \<Rightarrow> int \<Rightarrow> int" where
  "try_bits c f j xp z =
     (if j + 1 < z
      then let ck = (case arr_at c (xp + 1) of Some k \<Rightarrow> k | None \<Rightarrow> 0) in
           if 2 * f \<le> ck then j + 1 else try_bits c (2 * f - ck) (j + 1) (xp + 1) z
      else j + 1)"
  by pat_completeness auto
termination by (relation "measure (\<lambda>(c, f, j, xp, z). nat (z - j))") auto

declare try_bits.simps [simp del]

text \<open>The number of bits of the next table; \<open>z\<close> is its upper limit.\<close>

definition table_bits :: "int list \<Rightarrow> int \<Rightarrow> int \<Rightarrow> int \<Rightarrow> int \<Rightarrow> int" where
  "table_bits c a k w z =
     (let j = k - w; f = 2 ^ nat j in
      if f > a + 1 \<and> j < z then try_bits c (f - (a + 1)) j k z else j)"

text \<open>Return with \<open>Z_DATA_ERROR\<close> for lack of space, or go on.\<close>

datatype fit = Overflow huft | Fits huft

definition fbind :: "fit eff \<Rightarrow> (huft \<Rightarrow> fit eff) \<Rightarrow> fit eff" where
  "fbind m f = ebind m (\<lambda>x. case x of Overflow s \<Rightarrow> Inr (Overflow s) | Fits s \<Rightarrow> f s)"

definition new_table :: "int list \<Rightarrow> int \<Rightarrow> int \<Rightarrow> int \<Rightarrow> int \<Rightarrow> huft \<Rightarrow> fit eff" where
  "new_table c g l a k s =
     (let h = h_h s + 1; w = h_w s + l; zl = (if g - w > l then l else g - w);
          j = table_bits c a k w zl; z = 2 ^ nat j; q = h_hn s;
          s1 = s\<lparr>h_h := h, h_w := w, h_z := z\<rparr> in
      if h_hn s + z > MANY then Inr (Overflow s1)
      else
        (let s2 = s1\<lparr>h_u := arr_put (h_u s) h q, h_q := q, h_hn := h_hn s + z\<rparr> in
         if h \<noteq> 0 then
           ebind (elem (h_u s2) (h - 1)) (\<lambda>up.
             (let jj = drop_bit (nat (w - l)) (h_i s); r = [j, l, q - up - jj] in
              ebind (arr_set (h_hp s2) ((up + jj) * 3) r) (\<lambda>hp.
                Inr (Fits (s2\<lparr>h_x := arr_put (h_x s) h (h_i s), h_r := r, h_hp := hp\<rparr>)))))
         else Inr (Fits (s2\<lparr>h_t := Some q\<rparr>))))"

text \<open>
  \<open>while (k > w + l)\<close>: new tables up to the required level. Every round adds \<open>l \<ge> 1\<close> to \<open>w \<ge> - l\<close>, so
  \<open>k + 1\<close> tests are enough.
\<close>

fun new_tables :: "nat \<Rightarrow> int list \<Rightarrow> int \<Rightarrow> int \<Rightarrow> int \<Rightarrow> int \<Rightarrow> huft \<Rightarrow> fit eff" where
  "new_tables 0 c g l a k s = Inl Spins"
| "new_tables (Suc fuel) c g l a k s =
     (if k > h_w s + l then fbind (new_table c g l a k s) (new_tables fuel c g l a k) else Inr (Fits s))"

text \<open>The table entry for the next value.\<close>

definition entry_for :: "int list \<Rightarrow> int \<Rightarrow> int \<Rightarrow> int list \<Rightarrow> int list \<Rightarrow> int \<Rightarrow> huft \<Rightarrow> huft eff" where
  "entry_for v n s d e k st =
     (let bits = k - h_w st in
      if h_p st \<ge> n then
        ebind (elem (h_r st) 2) (\<lambda>r2. Inr (st\<lparr>h_r := [128 + 64, bits, r2]\<rparr>))
      else ebind (elem v (h_p st)) (\<lambda>vp.
        if vp < s then
          Inr (st\<lparr>h_r := [if vp < 256 then 0 else 32 + 64, bits, vp], h_p := h_p st + 1\<rparr>)
        else
          ebind (elem e (vp - s)) (\<lambda>ex. ebind (elem d (vp - s)) (\<lambda>base.
            Inr (st\<lparr>h_r := [ex + 16 + 64, bits, base], h_p := h_p st + 1\<rparr>)))))"

text \<open>\<open>for (j = i >>> w; j < z; j += f) hp.set(r, (q + j) * 3)\<close> with \<open>f = 1 << (k - w)\<close>\<close>

function fill_entries :: "int list \<Rightarrow> int \<Rightarrow> int \<Rightarrow> int \<Rightarrow> int \<Rightarrow> int list \<Rightarrow> int list eff" where
  "fill_entries r q j z f hp =
     (if j < z \<and> 0 < f
      then ebind (arr_set hp ((q + j) * 3) r) (\<lambda>hp'. fill_entries r q (j + f) z f hp')
      else Inr hp)"
  by pat_completeness auto
termination by (relation "measure (\<lambda>(r, q, j, z, f, hp). nat (z - j))") auto

declare fill_entries.simps [simp del]

text \<open>\<open>for (j = 1 << (k - 1); (i & j) !== 0; j >>>= 1) i ^= j; i ^= j\<close>\<close>

function next_code :: "int \<Rightarrow> int \<Rightarrow> int" where
  "next_code i j = (if 0 < j \<and> i AND j \<noteq> 0 then next_code (i XOR j) (j div 2) else i XOR j)"
  by pat_completeness auto
termination by (relation "measure (\<lambda>(i, j). nat j)") auto

declare next_code.simps [simp del]

text \<open>\<open>while ((i & mask) != x[h]) { h--; w -= l; mask = (1 << w) - 1; }\<close>\<close>

fun back_up :: "nat \<Rightarrow> int \<Rightarrow> int list \<Rightarrow> int \<Rightarrow> int \<Rightarrow> int \<Rightarrow> (int \<times> int) eff" where
  "back_up 0 i x l h w = Inl Spins"
| "back_up (Suc fuel) i x l h w =
     ebind (elem x h) (\<lambda>xh. if i AND (2 ^ nat w - 1) \<noteq> xh then back_up fuel i x l (h - 1) (w - l)
       else Inr (h, w))"

text \<open>One code of \<open>k\<close> bits, when \<open>a\<close> more of that length follow.\<close>

definition one_code :: "int list \<Rightarrow> int \<Rightarrow> int \<Rightarrow> int list \<Rightarrow> int \<Rightarrow> int \<Rightarrow> int list \<Rightarrow> int list \<Rightarrow> int \<Rightarrow> int \<Rightarrow>
    huft \<Rightarrow> fit eff" where
  "one_code c g l v n s d e k a st =
     fbind (new_tables (nat k + 1) c g l a k st) (\<lambda>st1.
     ebind (entry_for v n s d e k st1) (\<lambda>st2.
     ebind (fill_entries (h_r st2) (h_q st2) (drop_bit (nat (h_w st2)) (h_i st2)) (h_z st2)
              (2 ^ nat (k - h_w st2)) (h_hp st2)) (\<lambda>hp.
       let i = next_code (h_i st2) (2 ^ nat (k - 1)) in
       ebind (back_up (nat (h_h st2) + 1) i (h_x st2) l (h_h st2) (h_w st2)) (\<lambda>(h, w).
         Inr (Fits (st2\<lparr>h_i := i, h_h := h, h_w := w, h_hp := hp\<rparr>))))))"

text \<open>\<open>while (a-- !== 0)\<close>\<close>

fun codes_of_length :: "int list \<Rightarrow> int \<Rightarrow> int \<Rightarrow> int list \<Rightarrow> int \<Rightarrow> int \<Rightarrow> int list \<Rightarrow> int list \<Rightarrow> int \<Rightarrow> nat \<Rightarrow>
    huft \<Rightarrow> fit eff" where
  "codes_of_length c g l v n s d e k 0 st = Inr (Fits st)"
| "codes_of_length c g l v n s d e k (Suc a) st =
     fbind (one_code c g l v n s d e k (int a) st) (codes_of_length c g l v n s d e k a)"

text \<open>\<open>for (; k <= g; k++)\<close>\<close>

fun all_codes :: "int list \<Rightarrow> int \<Rightarrow> int \<Rightarrow> int list \<Rightarrow> int \<Rightarrow> int \<Rightarrow> int list \<Rightarrow> int list \<Rightarrow> int list \<Rightarrow>
    huft \<Rightarrow> fit eff" where
  "all_codes c g l v n s d e [] st = Inr (Fits st)"
| "all_codes c g l v n s d e (k # ks) st =
     ebind (elem c k) (\<lambda>a.
       fbind (codes_of_length c g l v n s d e k (nat a) st) (all_codes c g l v n s d e ks))"

text \<open>
  The result code with what the caller gets back through the one-element arrays \<open>t\<close> and \<open>m\<close> and
  the shared \<open>hp\<close> and \<open>hn\<close>; \<open>t\<close> is \<open>None\<close> where the function leaves it alone.
\<close>

record built =
  b_result :: int
  b_t :: "int option"
  b_m :: int
  b_hp :: "int list"
  b_hn :: int

definition huft_build :: "int list \<Rightarrow> int \<Rightarrow> int \<Rightarrow> int \<Rightarrow> int list \<Rightarrow> int list \<Rightarrow> int \<Rightarrow> int list \<Rightarrow> int \<Rightarrow>
    int \<Rightarrow> built eff" where
  "huft_build b bindex n s d e m hp hn vsize =
     ebind (lengths_of b bindex n) (\<lambda>bs.
     ebind (count_lengths (replicate 16 0) bs) (\<lambda>c.
     if c ! 0 = n then Inr \<lparr>b_result = Z_OK, b_t = Some (- 1), b_m = 0, b_hp = hp, b_hn = hn\<rparr>
     else
       (let j = first_used c 1; i = last_used c BMAX;
            l0 = (if m < j then j else m); l = (if l0 > i then i else l0) in
        case codes_left c (2 ^ nat j) j i of
          None \<Rightarrow> Inr \<lparr>b_result = Z_DATA_ERROR, b_t = None, b_m = l, b_hp = hp, b_hn = hn\<rparr>
        | Some y \<Rightarrow>
            (let c1 = arr_put c i (c ! nat i + y);
                 x0 = offsets c1 (replicate 16 0) 0 1 i in
             ebind (sort_values bs 0 x0 (replicate (nat vsize) 0)) (\<lambda>(x1, v).
               let n1 = x1 ! nat i;
                   st = \<lparr>h_i = 0, h_h = - 1, h_w = - l, h_p = 0, h_q = 0, h_z = 0,
                     h_u = replicate 15 0, h_x = arr_put x1 0 0, h_r = [0, 0, 0], h_hn = hn,
                     h_t = None, h_hp = hp\<rparr> in
               ebind (all_codes c1 i l v n1 s d e [j..i] st) (\<lambda>res. case res of
                  Overflow st' \<Rightarrow>
                    Inr \<lparr>b_result = Z_DATA_ERROR, b_t = h_t st', b_m = l, b_hp = h_hp st', b_hn = h_hn st'\<rparr>
                | Fits st' \<Rightarrow>
                    Inr \<lparr>b_result = (if y \<noteq> 0 \<and> i \<noteq> 1 then Z_BUF_ERROR else Z_OK), b_t = h_t st',
                      b_m = l, b_hp = h_hp st', b_hn = h_hn st'\<rparr>))))))"

section \<open>inflate_trees_bits, inflate_trees_dynamic, inflate_trees_fixed\<close>

text \<open>The result code, the message for the stream, depths and indices of the tables.\<close>

record bits_tree =
  bt_result :: int
  bt_msg :: "string option"
  bt_bb :: int
  bt_tb :: "int option"
  bt_hp :: "int list"
  bt_hn :: int

definition inflate_trees_bits :: "int list \<Rightarrow> int \<Rightarrow> int list \<Rightarrow> bits_tree eff" where
  "inflate_trees_bits c bb hp =
     ebind (huft_build c 0 19 19 [] [] bb hp 0 19) (\<lambda>t.
       let out = \<lparr>bt_result = b_result t, bt_msg = None, bt_bb = b_m t, bt_tb = b_t t, bt_hp = b_hp t,
                  bt_hn = b_hn t\<rparr> in
       Inr (if b_result t = Z_DATA_ERROR
            then out\<lparr>bt_msg := Some ''oversubscribed dynamic bit lengths tree''\<rparr>
            else if b_result t = Z_BUF_ERROR \<or> b_m t = 0
            then out\<lparr>bt_msg := Some ''incomplete dynamic bit lengths tree'', bt_result := Z_DATA_ERROR\<rparr>
            else out))"

record dynamic_trees =
  dt_result :: int
  dt_msg :: "string option"
  dt_bl :: int
  dt_bd :: int
  dt_tl :: "int option"
  dt_td :: "int option"
  dt_hp :: "int list"
  dt_hn :: int

definition inflate_trees_dynamic :: "int \<Rightarrow> int \<Rightarrow> int list \<Rightarrow> int \<Rightarrow> int \<Rightarrow> int list \<Rightarrow> dynamic_trees eff" where
  "inflate_trees_dynamic nl nd c bl bd hp =
     ebind (huft_build c 0 nl 257 cplens cplext bl hp 0 288) (\<lambda>t.
       let out = \<lparr>dt_result = b_result t, dt_msg = None, dt_bl = b_m t, dt_bd = bd, dt_tl = b_t t,
                  dt_td = None, dt_hp = b_hp t, dt_hn = b_hn t\<rparr> in
       if b_result t \<noteq> Z_OK \<or> b_m t = 0 then
         Inr (if b_result t = Z_DATA_ERROR then out\<lparr>dt_msg := Some ''oversubscribed literal/length tree''\<rparr>
              else if b_result t \<noteq> Z_MEM_ERROR
              then out\<lparr>dt_msg := Some ''incomplete literal/length tree'', dt_result := Z_DATA_ERROR\<rparr>
              else out)
       else
         ebind (huft_build c nl nd 0 cpdist cpdext bd (b_hp t) (b_hn t) 288) (\<lambda>t2.
           let out2 = out\<lparr>dt_result := b_result t2, dt_bd := b_m t2, dt_td := b_t t2, dt_hp := b_hp t2,
                      dt_hn := b_hn t2\<rparr> in
           if b_result t2 \<noteq> Z_OK \<or> b_m t2 = 0 \<and> nl > 257 then
             Inr (if b_result t2 = Z_DATA_ERROR then out2\<lparr>dt_msg := Some ''oversubscribed distance tree''\<rparr>
                  else if b_result t2 = Z_BUF_ERROR
                  then out2\<lparr>dt_msg := Some ''incomplete distance tree'', dt_result := Z_DATA_ERROR\<rparr>
                  else if b_result t2 \<noteq> Z_MEM_ERROR
                  then out2\<lparr>dt_msg := Some ''empty distance tree with lengths'', dt_result := Z_DATA_ERROR\<rparr>
                  else out2)
           else Inr (out2\<lparr>dt_result := Z_OK\<rparr>)))"

text \<open>A table is one of the two constants or lies in the shared array \<open>hufts\<close>.\<close>

datatype table_ref = Fixed_tl | Fixed_td | Hufts

record fixed_trees =
  ft_bl :: int
  ft_bd :: int
  ft_tl :: table_ref
  ft_td :: table_ref

definition inflate_trees_fixed :: fixed_trees where
  "inflate_trees_fixed = \<lparr>ft_bl = fixed_bl, ft_bd = fixed_bd, ft_tl = Fixed_tl, ft_td = Fixed_td\<rparr>"

end
