(* ===== verification/Js_Loop.thy ===== *)
theory Js_Loop
  imports Inf_Tree
begin

text \<open>
  Loops of the decompressor that no simple argument shows to end. A loop is a step function: a step
  goes on with a new state or returns a value; it may raise, and it may itself run a loop that does
  not return. The value \<open>None\<close> is a loop that runs for ever.
\<close>

type_synonym 'a prog = "'a eff option"

datatype ('a, 'b) next_step = Go 'a | Back 'b

definition ret :: "'a \<Rightarrow> 'a prog" where
  "ret x = Some (Inr x)"

definition pbind :: "'a prog \<Rightarrow> ('a \<Rightarrow> 'b prog) \<Rightarrow> 'b prog" where
  "pbind m f = (case m of None \<Rightarrow> None | Some (Inl e) \<Rightarrow> Some (Inl e) | Some (Inr x) \<Rightarrow> f x)"

definition lift :: "'a eff \<Rightarrow> 'a prog" where
  "lift m = Some m"

lemma pbind_simps [simp]:
  "pbind None f = None" "pbind (Some (Inl e)) f = Some (Inl e)" "pbind (Some (Inr x)) f = f x"
  "pbind (ret x) f = f x" "pbind (lift (Inr x)) f = f x" "pbind (lift (Inl e)) f = Some (Inl e)"
  by (simp_all add: pbind_def ret_def lift_def)

partial_function (option) loop :: "('a \<Rightarrow> ('a, 'b) next_step prog) \<Rightarrow> 'a \<Rightarrow> 'b prog" where
  "loop step x = (case step x of None \<Rightarrow> None | Some (Inl e) \<Rightarrow> Some (Inl e)
     | Some (Inr n) \<Rightarrow> (case n of Go y \<Rightarrow> loop step y | Back z \<Rightarrow> Some (Inr z)))"

declare loop.simps [code]

lemma loop_Go: "step x = Some (Inr (Go y)) \<Longrightarrow> loop step x = loop step y"
  by (subst loop.simps) simp

lemma loop_Back: "step x = Some (Inr (Back z)) \<Longrightarrow> loop step x = Some (Inr z)"
  by (subst loop.simps) simp

lemma loop_Inl: "step x = Some (Inl e) \<Longrightarrow> loop step x = Some (Inl e)"
  by (subst loop.simps) simp

lemma loop_None: "step x = None \<Longrightarrow> loop step x = None"
  by (subst loop.simps) simp

text \<open>Induction over the rounds of a loop that returns or raises.\<close>

lemma loop_induct [consumes 1, case_names stops ends goes]:
  assumes ret: "loop step x = Some r"
    and stops: "\<And>x e. step x = Some (Inl e) \<Longrightarrow> P x (Inl e)"
    and ends: "\<And>x z. step x = Some (Inr (Back z)) \<Longrightarrow> P x (Inr z)"
    and goes: "\<And>x y r. step x = Some (Inr (Go y)) \<Longrightarrow> P y r \<Longrightarrow> P x r"
  shows "P x r"
proof -
  have "(case (step, x) of (s, x) \<Rightarrow> \<lambda>r. s = step \<longrightarrow> P x r) r"
  proof (rule loop.raw_induct)
    fix f s x r
    assume IH: "\<And>s x r. f s x = Some r \<Longrightarrow> s = step \<longrightarrow> P x r"
      and eq: "(case s x of None \<Rightarrow> None | Some (Inl e) \<Rightarrow> Some (Inl e)
        | Some (Inr (Go y)) \<Rightarrow> f s y | Some (Inr (Back z)) \<Rightarrow> Some (Inr z)) = Some r"
    show "s = step \<longrightarrow> P x r"
      using eq stops [of x] ends [of x] goes [of x] IH
      by (auto split: option.splits sum.splits next_step.splits)
  qed (use ret in simp)
  then show ?thesis by simp
qed

text \<open>A set of states that the step does not leave is a loop for ever.\<close>

lemma loop_spins:
  assumes "I x" and step: "\<And>x. I x \<Longrightarrow> \<exists>y. step x = Some (Inr (Go y)) \<and> I y"
  shows "loop step x = None"
proof (rule ccontr)
  assume "loop step x \<noteq> None"
  then obtain r where "loop step x = Some r" by blast
  then have "\<not> I x" by (induction rule: loop_induct) (use step in fastforce)+
  with assms(1) show False by blast
qed

text \<open>An invariant of the steps holds for what the loop returns.\<close>

lemma loop_invariant:
  assumes ret: "loop step x = Some (Inr z)" and "I x"
    and go: "\<And>x y. I x \<Longrightarrow> step x = Some (Inr (Go y)) \<Longrightarrow> I y"
    and stops: "\<And>x z. I x \<Longrightarrow> step x = Some (Inr (Back z)) \<Longrightarrow> Q z"
  shows "Q z"
proof -
  have "I x \<longrightarrow> (case r of Inl e \<Rightarrow> True | Inr z \<Rightarrow> Q z)" if "loop step x = Some r" for r
    using that by (induction rule: loop_induct) (use go stops in \<open>auto split: sum.splits\<close>)
  from this [OF ret] assms(2) show ?thesis by simp
qed

text \<open>A measure that every step decreases makes the loop return or raise.\<close>

lemma loop_returns:
  fixes f :: "'a \<Rightarrow> nat"
  assumes "I x"
    and "\<And>x. I x \<Longrightarrow> step x \<noteq> None"
    and "\<And>x y. I x \<Longrightarrow> step x = Some (Inr (Go y)) \<Longrightarrow> I y \<and> f y < f x"
  shows "loop step x \<noteq> None"
  using assms(1)
proof (induction "f x" arbitrary: x rule: less_induct)
  case less
  from assms(2) [OF less.prems] obtain r where r: "step x = Some r" by blast
  show ?case
  proof (cases r)
    case (Inr n)
    with r less assms(3) [of x] show ?thesis
      by (subst loop.simps) (auto split: next_step.splits)
  qed (subst loop.simps, simp add: r)
qed

end
