(* ===== verification/Inf_Window.thy ===== *)
theory Inf_Window
  imports Js_Loop
begin

text \<open>
  The state of the decompressor of \<^verbatim>\<open>html/lib/inflate.js\<close> and what its state machines share: the
  stream \<open>ZStream\<close> with input and output buffers, \<open>InfBlocks\<close> with the sliding window and the
  bit buffer, \<open>InfCodes\<close>, the copies of their fields that the two \<open>proc\<close> functions keep in local
  variables, and \<open>inflate_flush\<close>. The bit buffer is a 32-bit word.
\<close>

section \<open>State\<close>

datatype codes_mode = No_mode | START | LEN | LENEXT | DIST | DISTEXT | COPY | LIT | WASH | END | BADCODE

record codes =
  c_mode :: codes_mode
  c_len :: int
  c_tree :: "table_ref option"
  c_tree_index :: int
  c_need :: int
  c_lit :: int
  c_get :: int
  c_dist :: int
  c_lbits :: int
  c_dbits :: int
  c_ltree :: table_ref
  c_ltree_index :: int
  c_dtree :: table_ref
  c_dtree_index :: int

definition InfCodes :: codes where
  "InfCodes = \<lparr>c_mode = No_mode, c_len = 0, c_tree = None, c_tree_index = 0, c_need = 0, c_lit = 0,
     c_get = 0, c_dist = 0, c_lbits = 0, c_dbits = 0, c_ltree = Hufts, c_ltree_index = 0,
     c_dtree = Hufts, c_dtree_index = 0\<rparr>"

datatype blocks_mode = TYPE' | LENS | STORED | TABLE | BTREE | DTREE | CODES | DRY | DONELOCKS | BADBLOCKS

record blocks =
  s_mode :: blocks_mode
  s_left :: int
  s_table :: int
  s_index :: int
  s_blens :: "int list option"
  s_bb :: int
  s_tb :: int
  s_codes :: codes
  s_last :: int
  s_hufts :: "int list"
  s_bitk :: int
  s_bitb :: "32 word"
  s_window :: "byte list"
  s_end :: int
  s_read :: int
  s_write :: int

record zstream =
  next_in :: "byte list"
  next_in_index :: int
  avail_in :: int
  total_in :: int
  next_out :: "byte list"
  next_out_index :: int
  avail_out :: int
  total_out :: int
  z_msg :: "string option"

text \<open>The two objects, the local variables \<open>p, n, b, k, q, m\<close> of \<open>proc\<close>, and the result \<open>r\<close>.\<close>

record mach =
  m_s :: blocks
  m_z :: zstream
  m_p :: int
  m_n :: int
  m_b :: "32 word"
  m_k :: int
  m_q :: int
  m_m :: int
  m_r :: int

section \<open>Local copies\<close>

text \<open>\<open>m = q < s.read ? s.read - q - 1 : s.end - q\<close>: the room in the window.\<close>

definition room :: "blocks \<Rightarrow> int \<Rightarrow> int" where
  "room s q = (if q < s_read s then s_read s - q - 1 else s_end s - q)"

definition load :: "mach \<Rightarrow> mach" where
  "load t = t\<lparr>m_p := next_in_index (m_z t), m_n := avail_in (m_z t), m_b := s_bitb (m_s t),
     m_k := s_bitk (m_s t), m_q := s_write (m_s t), m_m := room (m_s t) (s_write (m_s t))\<rparr>"

definition save :: "mach \<Rightarrow> mach" where
  "save t = t\<lparr>m_s := (m_s t)\<lparr>s_bitb := m_b t, s_bitk := m_k t, s_write := m_q t\<rparr>,
     m_z := (m_z t)\<lparr>avail_in := m_n t, total_in := total_in (m_z t) + (m_p t - next_in_index (m_z t)),
       next_in_index := m_p t\<rparr>\<rparr>"

text \<open>\<open>s.write = q\<close> on its own, and the way back.\<close>

definition put_q :: "mach \<Rightarrow> mach" where
  "put_q t = t\<lparr>m_s := (m_s t)\<lparr>s_write := m_q t\<rparr>\<rparr>"

definition get_q :: "mach \<Rightarrow> mach" where
  "get_q t = t\<lparr>m_q := s_write (m_s t), m_m := room (m_s t) (s_write (m_s t))\<rparr>"

section \<open>inflate_flush\<close>

text \<open>Copying \<open>stop - q\<close> bytes of the window, or as many as the output takes, to \<open>next_out[p \<dots>]\<close>.\<close>

definition flush_part :: "int \<Rightarrow> int \<Rightarrow> int \<Rightarrow> mach \<Rightarrow> (int \<times> int \<times> mach) eff" where
  "flush_part p q stop t =
     (let z = m_z t; n = min (stop - q) (avail_out z) in
      ebind (arr_set (next_out z) p (rel_slice (s_window (m_s t)) q (q + n))) (\<lambda>out.
        Inr (p + n, q + n,
          t\<lparr>m_r := (if n \<noteq> 0 \<and> m_r t = Z_BUF_ERROR then Z_OK else m_r t),
            m_z := z\<lparr>avail_out := avail_out z - n, total_out := total_out z + n, next_out := out\<rparr>\<rparr>)))"

definition inflate_flush :: "mach \<Rightarrow> mach eff" where
  "inflate_flush t =
     (let q = s_read (m_s t); w = s_write (m_s t); e = s_end (m_s t) in
      ebind (flush_part (next_out_index (m_z t)) q (if q \<le> w then w else e) t) (\<lambda>(p1, q1, t1).
      ebind (if q1 = e
             then (let w1 = (if w = e then 0 else w) in
                   flush_part p1 0 w1 (t1\<lparr>m_s := (m_s t1)\<lparr>s_write := w1\<rparr>\<rparr>))
             else Inr (p1, q1, t1)) (\<lambda>(p2, q2, t2).
        Inr (t2\<lparr>m_z := (m_z t2)\<lparr>next_out_index := p2\<rparr>, m_s := (m_s t2)\<lparr>s_read := q2\<rparr>\<rparr>))))"

text \<open>The way out of both \<open>proc\<close> functions: \<open>return s.inflate_flush(z, r)\<close> after restoring the fields.\<close>

definition leave :: "mach \<Rightarrow> mach eff" where
  "leave t = inflate_flush (save t)"

text \<open>
  \<open>if (m === 0) \<dots>\<close>: wrap the write pointer, flush, wrap again; the flag says whether there is room
  now.
\<close>

definition wrap_q :: "mach \<Rightarrow> mach" where
  "wrap_q t = (if m_q t = s_end (m_s t) \<and> s_read (m_s t) \<noteq> 0
     then t\<lparr>m_q := 0, m_m := room (m_s t) 0\<rparr> else t)"

definition make_room :: "mach \<Rightarrow> (bool \<times> mach) eff" where
  "make_room t =
     (if m_m t \<noteq> 0 then Inr (True, t)
      else (let t1 = wrap_q t in
        if m_m t1 \<noteq> 0 then Inr (True, t1)
        else ebind (inflate_flush (put_q t1)) (\<lambda>t2.
          let t3 = wrap_q (get_q t2) in Inr (m_m t3 \<noteq> 0, t3))))"

section \<open>Bits\<close>

text \<open>Shifts by a number, which JavaScript takes modulo 32.\<close>

definition shl :: "32 word \<Rightarrow> int \<Rightarrow> 32 word" where
  "shl b c = push_bit (nat (c mod 32)) b"

definition ushr :: "32 word \<Rightarrow> int \<Rightarrow> 32 word" where
  "ushr b c = drop_bit (nat (c mod 32)) b"

definition sshr :: "32 word \<Rightarrow> int \<Rightarrow> 32 word" where
  "sshr b c = signed_drop_bit (nat (c mod 32)) b"

text \<open>\<open>z.read_byte(p) & 0xff\<close>; past the end \<open>undefined & 0xff\<close> is 0.\<close>

definition read_byte :: "zstream \<Rightarrow> int \<Rightarrow> byte" where
  "read_byte z p = (case arr_at (next_in z) p of Some x \<Rightarrow> x | None \<Rightarrow> 0)"

definition read_buf :: "zstream \<Rightarrow> int \<Rightarrow> int \<Rightarrow> byte list" where
  "read_buf z p n = rel_slice (next_in z) p (p + n)"

definition take_byte :: "mach \<Rightarrow> mach" where
  "take_byte t = t\<lparr>m_n := m_n t - 1, m_b := m_b t OR shl (ucast (read_byte (m_z t) (m_p t))) (m_k t),
     m_p := m_p t + 1, m_k := m_k t + 8\<rparr>"

lemma take_byte_k [simp]: "m_k (take_byte t) = m_k t + 8" "m_n (take_byte t) = m_n t - 1"
  by (simp_all add: take_byte_def)

text \<open>\<open>while (k < j) \<dots>\<close> with the check for input; the flag says whether the bits are there.\<close>

function need_bits :: "int \<Rightarrow> mach \<Rightarrow> bool \<times> mach" where
  "need_bits j t =
     (if m_k t < j then if m_n t \<noteq> 0 then need_bits j (take_byte (t\<lparr>m_r := Z_OK\<rparr>)) else (False, t)
      else (True, t))"
  by pat_completeness auto
termination by (relation "measure (\<lambda>(j, t). nat (j - m_k t))") auto

declare need_bits.simps [simp del]

text \<open>The same loop without the check, as in \<open>inflate_fast\<close>.\<close>

function grab_bits :: "int \<Rightarrow> mach \<Rightarrow> mach" where
  "grab_bits j t = (if m_k t < j then grab_bits j (take_byte t) else t)"
  by pat_completeness auto
termination by (relation "measure (\<lambda>(j, t). nat (j - m_k t))") auto

declare grab_bits.simps [simp del]

text \<open>\<open>b & inflate_mask[j]\<close>; a missing mask counts as 0.\<close>

definition masked :: "32 word \<Rightarrow> int \<Rightarrow> int" where
  "masked b j = uint (b AND word_of_int (case arr_at inflate_mask j of Some x \<Rightarrow> x | None \<Rightarrow> 0))"

definition dump_u :: "int \<Rightarrow> mach \<Rightarrow> mach" where
  "dump_u c t = t\<lparr>m_b := ushr (m_b t) c, m_k := m_k t - c\<rparr>"

definition dump_s :: "int \<Rightarrow> mach \<Rightarrow> mach" where
  "dump_s c t = t\<lparr>m_b := sshr (m_b t) c, m_k := m_k t - c\<rparr>"

section \<open>Window and tables\<close>

definition table_of :: "blocks \<Rightarrow> table_ref \<Rightarrow> int list" where
  "table_of s ref = (case ref of Fixed_tl \<Rightarrow> fixed_tl | Fixed_td \<Rightarrow> fixed_td | Hufts \<Rightarrow> s_hufts s)"

text \<open>The triple at an index of a table.\<close>

definition triple :: "int list \<Rightarrow> int \<Rightarrow> (int \<times> int \<times> int) eff" where
  "triple tree i = ebind (elem tree i) (\<lambda>e. ebind (elem tree (i + 1)) (\<lambda>l.
     ebind (elem tree (i + 2)) (\<lambda>v. Inr (e, l, v))))"

text \<open>\<open>s.window[q++] = v\<close> and \<open>m--\<close>\<close>

definition emit :: "byte \<Rightarrow> mach \<Rightarrow> mach" where
  "emit v t = t\<lparr>m_s := (m_s t)\<lparr>s_window := arr_put (s_window (m_s t)) (m_q t) v\<rparr>,
     m_q := m_q t + 1, m_m := m_m t - 1\<rparr>"

text \<open>\<open>window[i]\<close> as a byte to be stored again.\<close>

definition window_at :: "byte list \<Rightarrow> int \<Rightarrow> byte" where
  "window_at w i = (case arr_at w i of Some x \<Rightarrow> x | None \<Rightarrow> 0)"

text \<open>\<open>while (f < 0) f += s.end\<close>\<close>

function wrap_back :: "int \<Rightarrow> int \<Rightarrow> int" where
  "wrap_back f e = (if f < 0 \<and> 0 < e then wrap_back (f + e) e else f)"
  by pat_completeness auto
termination by (relation "measure (\<lambda>(f, e). nat (- f))") auto

declare wrap_back.simps [simp del]

definition set_codes :: "(codes \<Rightarrow> codes) \<Rightarrow> mach \<Rightarrow> mach" where
  "set_codes f t = t\<lparr>m_s := (m_s t)\<lparr>s_codes := f (s_codes (m_s t))\<rparr>\<rparr>"

definition set_msg :: "string \<Rightarrow> mach \<Rightarrow> mach" where
  "set_msg m t = t\<lparr>m_z := (m_z t)\<lparr>z_msg := Some m\<rparr>\<rparr>"

end
