(* ===== verification/Inf_Codes.thy ===== *)
theory Inf_Codes
  imports Inf_Window
begin

text \<open>
  \<open>InfCodes\<close> of \<^verbatim>\<open>html/lib/inflate.js\<close>: \<open>inflate_fast\<close>, which decodes while enough input and room are
  at hand, and \<open>proc\<close>, the state machine that decodes a symbol at a time and can be left wherever
  input or room runs out. A \<open>case\<close> that falls through to the next one sets \<open>mode\<close> first, so in the
  model it is a step to that mode.
\<close>

section \<open>init\<close>

definition codes_init :: "int \<Rightarrow> int \<Rightarrow> table_ref \<Rightarrow> int \<Rightarrow> table_ref \<Rightarrow> int \<Rightarrow> codes \<Rightarrow> codes" where
  "codes_init bl bd tl' tl_index td td_index c =
     c\<lparr>c_mode := START, c_lbits := bl, c_dbits := bd, c_ltree := tl', c_ltree_index := tl_index,
       c_dtree := td, c_dtree_index := td_index, c_tree := None\<rparr>"

section \<open>inflate_fast\<close>

text \<open>\<open>c\<close> single assignments \<open>s.window[q++] = s.window[r++]\<close>\<close>

fun copy_bytes :: "nat \<Rightarrow> int \<Rightarrow> int \<Rightarrow> byte list \<Rightarrow> byte list" where
  "copy_bytes 0 q r w = w"
| "copy_bytes (Suc c) q r w = copy_bytes c (q + 1) (r + 1) (arr_put w q (window_at w r))"

text \<open>\<open>s.window.set(s.window.subarray(r, r + c), q)\<close>\<close>

definition move_block :: "int \<Rightarrow> int \<Rightarrow> int \<Rightarrow> byte list \<Rightarrow> byte list eff" where
  "move_block c q r w = arr_set w q (rel_slice w r (r + c))"

text \<open>The last copy: byte by byte when source and destination overlap.\<close>

definition copy_rest :: "int \<Rightarrow> int \<Rightarrow> int \<Rightarrow> byte list \<Rightarrow> byte list eff" where
  "copy_rest c q r w =
     (if q - r > 0 \<and> c > q - r then Inr (copy_bytes (nat c) q r w) else move_block c q r w)"

text \<open>Copying \<open>c\<close> bytes from distance \<open>d\<close> to \<open>q\<close>: the window afterwards.\<close>

definition fast_copy :: "int \<Rightarrow> int \<Rightarrow> int \<Rightarrow> int \<Rightarrow> byte list \<Rightarrow> byte list eff" where
  "fast_copy stop c d q w =
     (if q \<ge> d then
        (let r = q - d in
         ebind (if q - r > 0 \<and> 2 > q - r then Inr (copy_bytes 2 q r w) else move_block 2 q r w)
           (copy_rest (c - 2) (q + 2) (r + 2)))
      else
        (let r = wrap_back (q - d) stop; e = stop - r in
         if c > e then
           ebind (if q - r > 0 \<and> e > q - r then Inr (copy_bytes (nat e) q r w) else move_block e q r w)
             (copy_rest (c - e) (q + e) 0)
         else copy_rest c q r w))"

text \<open>
  Giving back the whole bytes that were read ahead, and restoring the fields. The state is that of
  \<open>proc\<close>; its \<open>r\<close> is the result.
\<close>

definition leave_fast :: "int \<Rightarrow> mach \<Rightarrow> mach" where
  "leave_fast res t =
     (let c0 = avail_in (m_z t) - m_n t; c = min (m_k t div 8) c0 in
      save (t\<lparr>m_n := m_n t + c, m_p := m_p t - c, m_k := m_k t - 8 * c, m_r := res\<rparr>))"

text \<open>
  The loop over the linked distance tables, from table entry \<open>t\<close> with operation \<open>e\<close>; \<open>c\<close> bytes are
  to be copied. It ends with the copy done or with a result for the caller of \<open>inflate_fast\<close>.
\<close>

definition fast_dist_step :: "int list \<Rightarrow> int \<Rightarrow> int \<Rightarrow> int \<times> mach \<Rightarrow> (int \<times> mach, mach + mach) next_step prog" where
  "fast_dist_step td td_index c = (\<lambda>(t, x). lift (
     ebind (triple td ((td_index + t) * 3)) (\<lambda>(e, l, v).
       let x1 = dump_s l x in
       if e AND 16 \<noteq> 0 then
         (let e1 = (e AND 15); x2 = grab_bits e1 x1; d = v + masked (m_b x2) e1; x3 = dump_s e1 x2 in
          ebind (fast_copy (s_end (m_s x3)) c d (m_q x3) (s_window (m_s x3))) (\<lambda>w.
            Inr (Back (Inl (x3\<lparr>m_m := m_m x3 - c, m_q := m_q x3 + c, m_s := (m_s x3)\<lparr>s_window := w\<rparr>\<rparr>)))))
       else if e AND 64 = 0 then Inr (Go (t + v + masked (m_b x1) e, x1))
       else Inr (Back (Inr (leave_fast Z_DATA_ERROR (set_msg ''invalid distance code'' x1)))))))"

text \<open>The loop over the linked literal/length tables, entered with an operation other than 0.\<close>

definition fast_len_step :: "int list \<Rightarrow> int \<Rightarrow> int list \<Rightarrow> int \<Rightarrow> int \<Rightarrow> int \<times> mach \<Rightarrow>
    (int \<times> mach, mach + mach) next_step prog" where
  "fast_len_step tl' tl_index td td_index bd = (\<lambda>(t, x).
     pbind (lift (triple tl' ((tl_index + t) * 3))) (\<lambda>(e, l, v).
       let x1 = dump_s l x in
       if e AND 16 \<noteq> 0 then
         (let e1 = (e AND 15); c = v + masked (m_b x1) e1; x2 = grab_bits 15 (dump_s e1 x1) in
          pbind (loop (fast_dist_step td td_index c) (masked (m_b x2) bd, x2)) (\<lambda>y. ret (Back y)))
       else if e AND 64 = 0 then
         (let t1 = t + v + masked (m_b x1) e in
          pbind (lift (triple tl' ((tl_index + t1) * 3))) (\<lambda>(e1, l1, v1).
            if e1 = 0 then ret (Back (Inl (emit (of_int v1) (dump_s l1 x1)))) else ret (Go (t1, x1))))
       else if e AND 32 \<noteq> 0 then ret (Back (Inr (leave_fast Z_STREAM_END x1)))
       else ret (Back (Inr (leave_fast Z_DATA_ERROR (set_msg ''invalid literal/length code'' x1))))))"

text \<open>One round of the outer loop, which goes on while \<open>m >= 258 && n >= 10\<close>.\<close>

definition fast_step :: "int \<Rightarrow> int \<Rightarrow> int list \<Rightarrow> int \<Rightarrow> int list \<Rightarrow> int \<Rightarrow> mach \<Rightarrow> (mach, mach) next_step prog" where
  "fast_step bl bd tl' tl_index td td_index x =
     (let x1 = grab_bits 20 x; t = masked (m_b x1) bl in
      pbind (lift (triple tl' ((tl_index + t) * 3))) (\<lambda>(e, l, v).
      pbind (if e = 0 then ret (Inl (emit (of_int v) (dump_s l x1)))
             else loop (fast_len_step tl' tl_index td td_index bd) (t, x1)) (\<lambda>y.
        case y of Inr x2 \<Rightarrow> ret (Back x2)
        | Inl x2 \<Rightarrow> if m_m x2 \<ge> 258 \<and> m_n x2 \<ge> 10 then ret (Go x2) else ret (Back (leave_fast Z_OK x2)))))"

definition inflate_fast :: "int \<Rightarrow> int \<Rightarrow> table_ref \<Rightarrow> int \<Rightarrow> table_ref \<Rightarrow> int \<Rightarrow> mach \<Rightarrow> mach prog" where
  "inflate_fast bl bd tl' tl_index td td_index t =
     (let x = load t; s = m_s t in
      loop (fast_step bl bd (table_of s tl') tl_index (table_of s td) td_index) x)"

section \<open>proc\<close>

abbreviation mode_is :: "codes_mode \<Rightarrow> mach \<Rightarrow> mach" where
  "mode_is m \<equiv> set_codes (\<lambda>c. c\<lparr>c_mode := m\<rparr>)"

definition leave_with :: "mach \<Rightarrow> (mach, mach) next_step prog" where
  "leave_with t = pbind (lift (leave t)) (\<lambda>t'. ret (Back t'))"

definition bad_code :: "string \<Rightarrow> mach \<Rightarrow> (mach, mach) next_step prog" where
  "bad_code msg t = leave_with ((set_msg msg (mode_is BADCODE t))\<lparr>m_r := Z_DATA_ERROR\<rparr>)"

text \<open>The current tree of the object; it is \<open>null\<close> before the first use.\<close>

definition tree_entry :: "mach \<Rightarrow> int \<Rightarrow> (int \<times> int \<times> int) eff" where
  "tree_entry t i = (case c_tree (s_codes (m_s t)) of None \<Rightarrow> Inl (Raises TypeError)
     | Some ref \<Rightarrow> triple (table_of (m_s t) ref) i)"

definition codes_start :: "mach \<Rightarrow> (mach, mach) next_step prog" where
  "codes_start t =
     pbind (if m_m t \<ge> 258 \<and> m_n t \<ge> 10
            then (let c = s_codes (m_s t) in
              pbind (inflate_fast (c_lbits c) (c_dbits c) (c_ltree c) (c_ltree_index c) (c_dtree c)
                       (c_dtree_index c) (save t)) (\<lambda>t'. ret (load t', m_r t' = Z_OK)))
            else ret (t, True)) (\<lambda>(t1, go_on).
       if go_on
       then ret (Go (set_codes (\<lambda>c. c\<lparr>c_need := c_lbits c, c_tree := Some (c_ltree c),
         c_tree_index := c_ltree_index c, c_mode := LEN\<rparr>) t1))
       else ret (Go (mode_is (if m_r t1 = Z_STREAM_END then WASH else BADCODE) t1)))"

definition codes_len :: "mach \<Rightarrow> (mach, mach) next_step prog" where
  "codes_len t =
     (let c = s_codes (m_s t); j = c_need c in
      case need_bits j t of
        (False, t1) \<Rightarrow> leave_with t1
      | (True, t1) \<Rightarrow>
          (let i = c_tree_index c + masked (m_b t1) j in
           pbind (lift (tree_entry t1 (i * 3))) (\<lambda>(e, l, v).
             let t2 = dump_u l t1 in
             if e = 0 then ret (Go (set_codes (\<lambda>c. c\<lparr>c_lit := v, c_mode := LIT\<rparr>) t2))
             else if e AND 16 \<noteq> 0 then
               ret (Go (set_codes (\<lambda>c. c\<lparr>c_get := (e AND 15), c_len := v, c_mode := LENEXT\<rparr>) t2))
             else if e AND 64 = 0 then
               ret (Go (set_codes (\<lambda>c. c\<lparr>c_need := e, c_tree_index := i + v\<rparr>) t2))
             else if e AND 32 \<noteq> 0 then ret (Go (mode_is WASH t2))
             else bad_code ''invalid literal/length code'' t2)))"

definition codes_lenext :: "mach \<Rightarrow> (mach, mach) next_step prog" where
  "codes_lenext t =
     (let j = c_get (s_codes (m_s t)) in
      case need_bits j t of
        (False, t1) \<Rightarrow> leave_with t1
      | (True, t1) \<Rightarrow>
          ret (Go (dump_s j (set_codes (\<lambda>c. c\<lparr>c_len := c_len c + masked (m_b t1) j, c_need := c_dbits c,
            c_tree := Some (c_dtree c), c_tree_index := c_dtree_index c, c_mode := DIST\<rparr>) t1))))"

definition codes_dist :: "mach \<Rightarrow> (mach, mach) next_step prog" where
  "codes_dist t =
     (let c = s_codes (m_s t); j = c_need c in
      case need_bits j t of
        (False, t1) \<Rightarrow> leave_with t1
      | (True, t1) \<Rightarrow>
          (let i = c_tree_index c + masked (m_b t1) j in
           pbind (lift (tree_entry t1 (i * 3))) (\<lambda>(e, l, v).
             let t2 = dump_s l t1 in
             if e AND 16 \<noteq> 0 then
               ret (Go (set_codes (\<lambda>c. c\<lparr>c_get := (e AND 15), c_dist := v, c_mode := DISTEXT\<rparr>) t2))
             else if e AND 64 = 0 then
               ret (Go (set_codes (\<lambda>c. c\<lparr>c_need := e, c_tree_index := i + v\<rparr>) t2))
             else bad_code ''invalid distance code'' t2)))"

definition codes_distext :: "mach \<Rightarrow> (mach, mach) next_step prog" where
  "codes_distext t =
     (let j = c_get (s_codes (m_s t)) in
      case need_bits j t of
        (False, t1) \<Rightarrow> leave_with t1
      | (True, t1) \<Rightarrow>
          ret (Go (dump_s j (set_codes (\<lambda>c. c\<lparr>c_dist := c_dist c + masked (m_b t1) j, c_mode := COPY\<rparr>) t1))))"

text \<open>\<open>while (len !== 0)\<close>: copying from position \<open>f\<close>; the flag says whether all bytes were copied.\<close>

fun copy_loop :: "nat \<Rightarrow> int \<Rightarrow> mach \<Rightarrow> (bool \<times> mach) eff" where
  "copy_loop 0 f t = Inr (True, t)"
| "copy_loop (Suc n) f t =
     ebind (make_room t) (\<lambda>(ok, t1).
       if \<not> ok then Inr (False, t1)
       else (let t2 = emit (window_at (s_window (m_s t1)) f) t1;
                 f' = (if f + 1 = s_end (m_s t2) then 0 else f + 1) in
         copy_loop n f' (set_codes (\<lambda>c. c\<lparr>c_len := c_len c - 1\<rparr>) t2)))"

definition codes_copy :: "mach \<Rightarrow> (mach, mach) next_step prog" where
  "codes_copy t =
     (let c = s_codes (m_s t) in
      pbind (lift (copy_loop (nat (c_len c)) (wrap_back (m_q t - c_dist c) (s_end (m_s t))) t)) (\<lambda>(ok, t1).
        if ok then ret (Go (mode_is START t1)) else leave_with t1))"

definition codes_lit :: "mach \<Rightarrow> (mach, mach) next_step prog" where
  "codes_lit t =
     pbind (lift (make_room t)) (\<lambda>(ok, t1).
       if ok then ret (Go (mode_is START (emit (of_int (c_lit (s_codes (m_s t1)))) (t1\<lparr>m_r := Z_OK\<rparr>))))
       else leave_with t1)"

definition codes_wash :: "mach \<Rightarrow> (mach, mach) next_step prog" where
  "codes_wash t =
     (let t1 = (if m_k t > 7 then t\<lparr>m_k := m_k t - 8, m_n := m_n t + 1, m_p := m_p t - 1\<rparr> else t) in
      pbind (lift (inflate_flush (put_q t1))) (\<lambda>t2.
        let t3 = get_q t2 in
        if s_read (m_s t3) \<noteq> s_write (m_s t3) then leave_with t3 else ret (Go (mode_is END t3))))"

definition codes_step :: "mach \<Rightarrow> (mach, mach) next_step prog" where
  "codes_step t =
     (case c_mode (s_codes (m_s t)) of
        START \<Rightarrow> codes_start t
      | LEN \<Rightarrow> codes_len t
      | LENEXT \<Rightarrow> codes_lenext t
      | DIST \<Rightarrow> codes_dist t
      | DISTEXT \<Rightarrow> codes_distext t
      | COPY \<Rightarrow> codes_copy t
      | LIT \<Rightarrow> codes_lit t
      | WASH \<Rightarrow> codes_wash t
      | END \<Rightarrow> leave_with (t\<lparr>m_r := Z_STREAM_END\<rparr>)
      | BADCODE \<Rightarrow> leave_with (t\<lparr>m_r := Z_DATA_ERROR\<rparr>)
      | No_mode \<Rightarrow> leave_with (t\<lparr>m_r := Z_STREAM_ERROR\<rparr>))"

definition codes_proc :: "mach \<Rightarrow> mach prog" where
  "codes_proc t = loop codes_step (load t)"

end
