(* ===== verification/Inf_Blocks.thy ===== *)
theory Inf_Blocks
  imports Inf_Codes
begin

text \<open>
  \<open>InfBlocks\<close> of \<^verbatim>\<open>html/lib/inflate.js\<close>: block headers, stored blocks, the code lengths of dynamic
  blocks, and the sliding window. As in \<open>InfCodes\<close>, every \<open>case\<close> is a step, and the loops of a
  \<open>case\<close> that can be left for lack of input take a step per round.
\<close>

section \<open>Construction and reset\<close>

definition border :: "int list" where
  "border = [16, 17, 18, 0, 8, 7, 9, 6, 10, 5, 11, 4, 12, 3, 13, 2, 14, 1, 15]"

definition blocks_reset :: "blocks \<Rightarrow> blocks" where
  "blocks_reset s = s\<lparr>s_mode := TYPE', s_bitk := 0, s_bitb := 0, s_read := 0, s_write := 0\<rparr>"

definition InfBlocks :: "int \<Rightarrow> blocks" where
  "InfBlocks w = \<lparr>s_mode = TYPE', s_left = 0, s_table = 0, s_index = 0, s_blens = None, s_bb = 0, s_tb = 0,
     s_codes = InfCodes, s_last = 0, s_hufts = replicate (nat (MANY * 3)) 0, s_bitk = 0, s_bitb = 0,
     s_window = replicate (nat w) 0, s_end = w, s_read = 0, s_write = 0\<rparr>"

definition set_dictionary :: "byte list \<Rightarrow> int \<Rightarrow> int \<Rightarrow> blocks \<Rightarrow> blocks eff" where
  "set_dictionary d start n s =
     ebind (arr_set (s_window s) 0 (rel_slice d start (start + n))) (\<lambda>w.
       Inr (s\<lparr>s_window := w, s_read := n, s_write := n\<rparr>))"

definition sync_point :: "blocks \<Rightarrow> int" where
  "sync_point s = (if s_mode s = LENS then 1 else 0)"

section \<open>proc\<close>

definition set_s :: "(blocks \<Rightarrow> blocks) \<Rightarrow> mach \<Rightarrow> mach" where
  "set_s f t = t\<lparr>m_s := f (m_s t)\<rparr>"

abbreviation block_mode :: "blocks_mode \<Rightarrow> mach \<Rightarrow> mach" where
  "block_mode m \<equiv> set_s (\<lambda>s. s\<lparr>s_mode := m\<rparr>)"

definition bad_block :: "string \<Rightarrow> mach \<Rightarrow> (mach, mach) next_step prog" where
  "bad_block msg t = leave_with ((set_msg msg (block_mode BADBLOCKS t))\<lparr>m_r := Z_DATA_ERROR\<rparr>)"

definition blocks_type :: "mach \<Rightarrow> (mach, mach) next_step prog" where
  "blocks_type t =
     (case need_bits 3 t of
        (False, t1) \<Rightarrow> leave_with t1
      | (True, t1) \<Rightarrow>
          (let v = uint (m_b t1 AND 7); t2 = dump_u 3 (set_s (\<lambda>s. s\<lparr>s_last := v mod 2\<rparr>) t1) in
           if v div 2 = 0 then ret (Go (block_mode LENS (dump_u (m_k t2 mod 8) t2)))
           else if v div 2 = 1 then
             (let f = inflate_trees_fixed in
              ret (Go (block_mode CODES
                (set_codes (codes_init (ft_bl f) (ft_bd f) (ft_tl f) 0 (ft_td f) 0) t2))))
           else if v div 2 = 2 then ret (Go (block_mode TABLE t2))
           else bad_block ''invalid block type'' t2))"

definition blocks_lens :: "mach \<Rightarrow> (mach, mach) next_step prog" where
  "blocks_lens t =
     (case need_bits 32 t of
        (False, t1) \<Rightarrow> leave_with t1
      | (True, t1) \<Rightarrow>
          if drop_bit 16 (NOT (m_b t1)) AND 0xffff \<noteq> m_b t1 AND 0xffff
          then bad_block ''invalid stored block lengths'' t1
          else
            (let left = uint (m_b t1 AND 0xffff) in
             ret (Go (block_mode (if left \<noteq> 0 then STORED else if s_last (m_s t1) \<noteq> 0 then DRY else TYPE')
               ((set_s (\<lambda>s. s\<lparr>s_left := left\<rparr>) t1)\<lparr>m_b := 0, m_k := 0\<rparr>)))))"

text \<open>Moving \<open>x\<close> bytes from the input to the window.\<close>

definition store_bytes :: "int \<Rightarrow> mach \<Rightarrow> (mach, mach) next_step prog" where
  "store_bytes x t =
     pbind (lift (arr_set (s_window (m_s t)) (m_q t) (read_buf (m_z t) (m_p t) x))) (\<lambda>w.
       let left = s_left (m_s t) - x;
           t1 = (set_s (\<lambda>s. s\<lparr>s_window := w, s_left := left\<rparr>) t)\<lparr>m_r := Z_OK, m_p := m_p t + x,
             m_n := m_n t - x, m_q := m_q t + x, m_m := m_m t - x\<rparr> in
       if left \<noteq> 0 then ret (Go t1)
       else ret (Go (block_mode (if s_last (m_s t1) \<noteq> 0 then DRY else TYPE') t1)))"

definition blocks_stored :: "mach \<Rightarrow> (mach, mach) next_step prog" where
  "blocks_stored t =
     (if m_n t = 0 then leave_with t
      else pbind (lift (make_room t)) (\<lambda>(ok, t1).
        if \<not> ok then leave_with t1
        else store_bytes (min (min (s_left (m_s t1)) (m_n t1)) (m_m t1)) t1))"

text \<open>The number of code lengths that a header announces.\<close>

definition code_count :: "int \<Rightarrow> int" where
  "code_count v = 258 + v mod 32 + v div 32 mod 32"

text \<open>\<open>blens\<close> of at least \<open>n\<close> elements, the first \<open>n\<close> of them 0.\<close>

definition fresh_blens :: "int list option \<Rightarrow> int \<Rightarrow> int list" where
  "fresh_blens bl n = (case bl of None \<Rightarrow> replicate (nat n) 0
     | Some b \<Rightarrow> if int (length b) < n then replicate (nat n) 0 else replicate (nat n) 0 @ drop (nat n) b)"

definition blocks_table :: "mach \<Rightarrow> (mach, mach) next_step prog" where
  "blocks_table t =
     (case need_bits 14 t of
        (False, t1) \<Rightarrow> leave_with t1
      | (True, t1) \<Rightarrow>
          (let v = uint (m_b t1 AND 0x3fff); t2 = set_s (\<lambda>s. s\<lparr>s_table := v\<rparr>) t1 in
           if v mod 32 > 29 \<or> v div 32 mod 32 > 29 then bad_block ''too many length or distance symbols'' t2
           else ret (Go (block_mode BTREE (dump_u 14 (set_s
             (\<lambda>s. s\<lparr>s_blens := Some (fresh_blens (s_blens s) (code_count v)), s_index := 0\<rparr>) t2))))))"

definition put_blen :: "int \<Rightarrow> int \<Rightarrow> blocks \<Rightarrow> blocks" where
  "put_blen i v s = s\<lparr>s_blens := map_option (\<lambda>b. arr_put b i v) (s_blens s)\<rparr>"

text \<open>\<open>blens[border[index++]] = v\<close>\<close>

definition put_border :: "int \<Rightarrow> blocks \<Rightarrow> blocks" where
  "put_border v s = (case arr_at border (s_index s) of None \<Rightarrow> s
     | Some i \<Rightarrow> (put_blen i v s)\<lparr>s_index := s_index s + 1\<rparr>)"

text \<open>\<open>while (index < 19) blens[border[index++]] = 0\<close>\<close>

definition clear_border :: "blocks \<Rightarrow> blocks" where
  "clear_border s = (put_border 0 ^^ nat (19 - s_index s)) s"

text \<open>What an error of a tree construction does; \<open>null\<close> for \<open>blens\<close> only with a data error.\<close>

definition tree_error :: "int \<Rightarrow> string option \<Rightarrow> mach \<Rightarrow> (mach, mach) next_step prog" where
  "tree_error res msg t =
     (let t1 = (case msg of None \<Rightarrow> t | Some x \<Rightarrow> set_msg x t);
          t2 = (if res = Z_DATA_ERROR then set_s (\<lambda>s. s\<lparr>s_blens := None, s_mode := BADBLOCKS\<rparr>) t1 else t1)
      in leave_with (t2\<lparr>m_r := res\<rparr>))"

definition blocks_btree :: "mach \<Rightarrow> (mach, mach) next_step prog" where
  "blocks_btree t =
     (if s_index (m_s t) < 4 + s_table (m_s t) div 1024 then
        (case need_bits 3 t of
           (False, t1) \<Rightarrow> leave_with t1
         | (True, t1) \<Rightarrow> ret (Go (dump_u 3 (set_s (put_border (uint (m_b t1 AND 7))) t1))))
      else
        (let t1 = set_s clear_border t in
         case s_blens (m_s t1) of None \<Rightarrow> Some (Inl (Raises TypeError))
         | Some b \<Rightarrow>
             pbind (lift (inflate_trees_bits b 7 (s_hufts (m_s t1)))) (\<lambda>x.
               let t2 = set_s (\<lambda>s. s\<lparr>s_hufts := bt_hp x, s_bb := bt_bb x,
                     s_tb := (case bt_tb x of None \<Rightarrow> s_tb s | Some i \<Rightarrow> i)\<rparr>) t1 in
               if bt_result x \<noteq> Z_OK then tree_error (bt_result x) (bt_msg x) t2
               else ret (Go (set_s (\<lambda>s. s\<lparr>s_index := 0, s_mode := DTREE\<rparr>) t2)))))"

text \<open>\<open>do { blens[i++] = c; } while (--j !== 0)\<close> for \<open>j > 0\<close>\<close>

fun repeat_blen :: "nat \<Rightarrow> int \<Rightarrow> int \<Rightarrow> blocks \<Rightarrow> blocks" where
  "repeat_blen 0 i c s = s\<lparr>s_index := i\<rparr>"
| "repeat_blen (Suc j) i c s = repeat_blen j (i + 1) c (put_blen i c s)"

text \<open>\<open>inflate_trees_dynamic\<close> with the number of codes from \<open>table\<close>, and what follows.\<close>

definition blocks_codes_init :: "mach \<Rightarrow> (mach, mach) next_step prog" where
  "blocks_codes_init t =
     (let s = m_s t; v = s_table s in
      case s_blens s of None \<Rightarrow> Some (Inl (Raises TypeError))
      | Some b \<Rightarrow>
          pbind (lift (inflate_trees_dynamic (257 + v mod 32) (1 + v div 32 mod 32) b 9 6 (s_hufts s))) (\<lambda>x.
            let t1 = set_s (\<lambda>s. s\<lparr>s_hufts := dt_hp x, s_tb := - 1\<rparr>) t in
            if dt_result x \<noteq> Z_OK then tree_error (dt_result x) (dt_msg x) t1
            else (case (dt_tl x, dt_td x) of
                (Some i, Some j) \<Rightarrow>
                  ret (Go (block_mode CODES
                    (set_codes (codes_init (dt_bl x) (dt_bd x) Hufts i Hufts j) t1)))
              | _ \<Rightarrow> Some (Inl Undefined))))"

definition blocks_dtree :: "mach \<Rightarrow> (mach, mach) next_step prog" where
  "blocks_dtree t =
     (let s = m_s t; count = code_count (s_table s) in
      if s_index s < count then
        (case need_bits (s_bb s) t of
           (False, t1) \<Rightarrow> leave_with t1
         | (True, t1) \<Rightarrow>
             pbind (lift (triple (s_hufts s) ((s_tb s + masked (m_b t1) (s_bb s)) * 3))) (\<lambda>(e, l, c).
               if c < 16 then ret (Go (dump_u l (set_s (\<lambda>s. (put_blen (s_index s) c s)\<lparr>s_index := s_index s + 1\<rparr>) t1)))
               else
                 (let i = (if c = 18 then 7 else c - 14); j0 = (if c = 18 then 11 else 3) in
                  case need_bits (l + i) t1 of
                    (False, t2) \<Rightarrow> leave_with t2
                  | (True, t2) \<Rightarrow>
                      (let t3 = dump_u l t2; j = j0 + masked (m_b t3) i; t4 = dump_u i t3 in
                       if s_index s + j > count \<or> c = 16 \<and> s_index s < 1
                       then bad_block ''invalid bit length repeat'' (set_s (\<lambda>s. s\<lparr>s_blens := None\<rparr>) t4)
                       else case s_blens s of None \<Rightarrow> Some (Inl (Raises TypeError))
                       | Some b \<Rightarrow>
                           pbind (if c = 16 then lift (elem b (s_index s - 1)) else ret 0) (\<lambda>v.
                             ret (Go (set_s (repeat_blen (nat j) (s_index s) v) t4)))))))
      else blocks_codes_init t)"

definition blocks_codes :: "mach \<Rightarrow> (mach, mach) next_step prog" where
  "blocks_codes t =
     pbind (codes_proc (save t)) (\<lambda>t1.
       if m_r t1 \<noteq> Z_STREAM_END then pbind (lift (inflate_flush t1)) (\<lambda>t2. ret (Back t2))
       else ret (Go (block_mode (if s_last (m_s t1) = 0 then TYPE' else DRY) ((load t1)\<lparr>m_r := Z_OK\<rparr>))))"

definition blocks_dry :: "mach \<Rightarrow> (mach, mach) next_step prog" where
  "blocks_dry t =
     pbind (lift (inflate_flush (put_q t))) (\<lambda>t1.
       let t2 = get_q t1 in
       if s_read (m_s t2) \<noteq> s_write (m_s t2) then leave_with t2 else ret (Go (block_mode DONELOCKS t2)))"

definition blocks_step :: "mach \<Rightarrow> (mach, mach) next_step prog" where
  "blocks_step t =
     (case s_mode (m_s t) of
        TYPE' \<Rightarrow> blocks_type t
      | LENS \<Rightarrow> blocks_lens t
      | STORED \<Rightarrow> blocks_stored t
      | TABLE \<Rightarrow> blocks_table t
      | BTREE \<Rightarrow> blocks_btree t
      | DTREE \<Rightarrow> blocks_dtree t
      | CODES \<Rightarrow> blocks_codes t
      | DRY \<Rightarrow> blocks_dry t
      | DONELOCKS \<Rightarrow> leave_with (t\<lparr>m_r := Z_STREAM_END\<rparr>)
      | BADBLOCKS \<Rightarrow> leave_with (t\<lparr>m_r := Z_DATA_ERROR\<rparr>))"

text \<open>The caller's stream and result code go in; \<open>m_s\<close>, \<open>m_z\<close> and \<open>m_r\<close> come out.\<close>

definition enter :: "blocks \<Rightarrow> zstream \<Rightarrow> int \<Rightarrow> mach" where
  "enter s z r = load \<lparr>m_s = s, m_z = z, m_p = 0, m_n = 0, m_b = 0, m_k = 0, m_q = 0, m_m = 0, m_r = r\<rparr>"

definition blocks_proc :: "blocks \<Rightarrow> zstream \<Rightarrow> int \<Rightarrow> mach prog" where
  "blocks_proc s z r = loop blocks_step (enter s z r)"

end
