(* ===== verification/Inf_Queue.thy ===== *)
theory Inf_Queue
  imports Inf_Blocks
begin

text \<open>
  The sliding window of the decompressor is a queue: what \<open>proc\<close> writes is what \<open>inflate_flush\<close>
  delivers, in order and once. \<open>pending\<close> is the queue that a window with its two pointers stands for,
  \<open>written\<close> the part of the output buffer that is filled.
\<close>

section \<open>Abstraction\<close>

definition pending :: "blocks \<Rightarrow> byte list" where
  "pending s =
     (if s_read s \<le> s_write s
      then take (nat (s_write s - s_read s)) (drop (nat (s_read s)) (s_window s))
      else drop (nat (s_read s)) (s_window s) @ take (nat (s_write s)) (s_window s))"

definition window_ok :: "blocks \<Rightarrow> bool" where
  "window_ok s \<longleftrightarrow> int (length (s_window s)) = s_end s \<and> 1 < s_end s \<and>
     0 \<le> s_read s \<and> s_read s < s_end s \<and> 0 \<le> s_write s \<and> s_write s \<le> s_end s"

definition output_ok :: "zstream \<Rightarrow> bool" where
  "output_ok z \<longleftrightarrow> 0 \<le> next_out_index z \<and> 0 \<le> avail_out z \<and>
     next_out_index z + avail_out z = int (length (next_out z))"

definition written :: "zstream \<Rightarrow> byte list" where
  "written z = take (nat (next_out_index z)) (next_out z)"

section \<open>inflate_flush\<close>

lemma flush_part_spec:
  assumes "0 \<le> p" "0 \<le> avail_out (m_z t)" "p + avail_out (m_z t) \<le> int (length (next_out (m_z t)))"
    and "0 \<le> q" "q \<le> stop" "stop \<le> int (length (s_window (m_s t)))"
    and n: "n = min (stop - q) (avail_out (m_z t))"
  obtains out where
    "flush_part p q stop t = Inr (p + n, q + n, t\<lparr>m_r := (if n \<noteq> 0 \<and> m_r t = Z_BUF_ERROR then Z_OK else m_r t),
       m_z := (m_z t)\<lparr>avail_out := avail_out (m_z t) - n, total_out := total_out (m_z t) + n, next_out := out\<rparr>\<rparr>)"
    "length out = length (next_out (m_z t))"
    "take (nat (p + n)) out = take (nat p) (next_out (m_z t)) @ take (nat n) (drop (nat q) (s_window (m_s t)))"
proof -
  let ?o = "next_out (m_z t)" and ?w = "s_window (m_s t)"
  have n': "0 \<le> n" "q + n \<le> int (length ?w)" "p + n \<le> int (length ?o)" using assms by auto
  let ?x = "take (nat n) (drop (nat q) ?w)"
  have x: "rel_slice ?w q (q + n) = ?x" using rel_slice_exact [of q n ?w] assms(4) n' by simp
  have lx: "length ?x = nat n" using n' assms(4) by simp
  let ?out = "take (nat p) ?o @ ?x @ drop (nat p + nat n) ?o"
  have "arr_set ?o p ?x = Inr ?out" using n' assms(1) lx by (simp add: arr_set_def)
  then have "flush_part p q stop t = Inr (p + n, q + n, t\<lparr>m_r := (if n \<noteq> 0 \<and> m_r t = Z_BUF_ERROR then Z_OK else m_r t),
       m_z := (m_z t)\<lparr>avail_out := avail_out (m_z t) - n, total_out := total_out (m_z t) + n, next_out := ?out\<rparr>\<rparr>)"
    unfolding flush_part_def Let_def n [symmetric] x by simp
  moreover have "length ?out = length ?o" using n' assms(1) lx by (simp add: nat_add_distrib [symmetric])
  moreover have "take (nat (p + n)) ?out = take (nat p) ?o @ ?x"
    using n' assms(1) lx by (simp add: nat_add_distrib)
  ultimately show thesis by (rule that)
qed

lemma length_pending:
  assumes "window_ok s"
  shows "int (length (pending s)) =
    (if s_read s \<le> s_write s then s_write s - s_read s else s_end s - s_read s + s_write s)"
  using assms by (auto simp: pending_def window_ok_def)

text \<open>What \<open>inflate_flush\<close> changes.\<close>

definition flushed :: "int \<Rightarrow> int \<Rightarrow> int \<Rightarrow> byte list \<Rightarrow> mach \<Rightarrow> mach" where
  "flushed n rd wr out t = t\<lparr>m_s := (m_s t)\<lparr>s_read := rd, s_write := wr\<rparr>,
     m_z := (m_z t)\<lparr>avail_out := avail_out (m_z t) - n, total_out := total_out (m_z t) + n,
       next_out := out, next_out_index := next_out_index (m_z t) + n\<rparr>,
     m_r := (if n \<noteq> 0 \<and> m_r t = Z_BUF_ERROR then Z_OK else m_r t)\<rparr>"

lemma flush_cases:
  assumes "window_ok s" "0 \<le> a" and n: "n = min a (int (length (pending s)))"
  obtains
    (part) stop where "stop = (if s_read s \<le> s_write s then s_write s else s_end s)"
      "n = min (stop - s_read s) a" "s_read s + n < s_end s"
  | (wrap) "(if s_read s \<le> s_write s then s_write s else s_end s) = s_end s" "s_end s - s_read s \<le> a"
      "n = s_end s - s_read s + min (if s_write s = s_end s then 0 else s_write s) (a - (s_end s - s_read s))"
  using assms length_pending [OF assms(1)] that unfolding window_ok_def
  by (smt (verit, best))

lemma inflate_flush_spec:
  assumes wf: "window_ok (m_s t)" and ok: "output_ok (m_z t)"
    and n: "n = min (avail_out (m_z t)) (int (length (pending (m_s t))))"
  obtains rd wr out where "inflate_flush t = Inr (flushed n rd wr out t)"
    "window_ok (m_s (flushed n rd wr out t))" "output_ok (m_z (flushed n rd wr out t))"
    "pending (m_s (flushed n rd wr out t)) = drop (nat n) (pending (m_s t))"
    "written (m_z (flushed n rd wr out t)) = written (m_z t) @ take (nat n) (pending (m_s t))"
    "length out = length (next_out (m_z t))"
proof -
  let ?s = "m_s t" and ?z = "m_z t"
  let ?q = "s_read ?s" and ?w = "s_write ?s" and ?e = "s_end ?s" and ?p = "next_out_index ?z"
    and ?a = "avail_out ?z" and ?W = "s_window ?s"
  note wf' = wf [unfolded window_ok_def] and ok' = ok [unfolded output_ok_def]
  have a0: "0 \<le> ?a" and p0: "0 \<le> ?p" and pa: "?p + ?a \<le> int (length (next_out ?z))" and q0: "0 \<le> ?q"
    using ok' wf' by simp_all
  show thesis
  proof (rule flush_cases [OF wf a0 n], goal_cases part wrap)
    case (part stop)
    then have st: "?q \<le> stop" "stop \<le> int (length ?W)" using wf' by auto
    obtain out where out: "flush_part ?p ?q stop t = Inr (?p + n, ?q + n, t\<lparr>m_r := (if n \<noteq> 0 \<and> m_r t = Z_BUF_ERROR then Z_OK else m_r t),
       m_z := ?z\<lparr>avail_out := ?a - n, total_out := total_out ?z + n, next_out := out\<rparr>\<rparr>)"
      "length out = length (next_out ?z)"
      "take (nat (?p + n)) out = take (nat ?p) (next_out ?z) @ take (nat n) (drop (nat ?q) ?W)"
      by (rule flush_part_spec [OF p0 a0 pa q0 st part(2)]) (rule that)
    have eq: "inflate_flush t = Inr (flushed n (?q + n) ?w out t)"
      using part out(1) by (simp add: inflate_flush_def Let_def flushed_def)
    have n0: "0 \<le> n" "n \<le> ?a" "n \<le> stop - ?q" using part st ok' by auto
    have nn: "nat n \<le> length ?W - nat ?q" using n0 st q0 by linarith
    have tk: "take (nat n) (drop (nat ?q) ?W) = take (nat n) (pending ?s)"
    proof (cases "?q \<le> ?w")
      case True
      then show ?thesis using part(1) n0 by (simp add: pending_def min_absorb1 nat_mono)
    next
      case False
      then show ?thesis using part(1) nn by (simp add: pending_def)
    qed
    have dr: "pending (m_s (flushed n (?q + n) ?w out t)) = drop (nat n) (pending ?s)"
    proof (cases "?q \<le> ?w")
      case True
      then show ?thesis using part(1) n0 q0
        by (simp add: pending_def flushed_def drop_take nat_add_distrib nat_diff_distrib add.commute)
    next
      case False
      then show ?thesis using part(1) nn n0 q0 wf'
        by (simp add: pending_def flushed_def nat_add_distrib add.commute)
    qed
    show thesis
    proof (rule that [OF eq _ _ dr])
      show "window_ok (m_s (flushed n (?q + n) ?w out t))"
        using wf' part(3) n0 by (simp add: window_ok_def flushed_def)
      show "output_ok (m_z (flushed n (?q + n) ?w out t))"
        using ok' n0 out(2) by (simp add: output_ok_def flushed_def)
      show "written (m_z (flushed n (?q + n) ?w out t)) = written ?z @ take (nat n) (pending ?s)"
        using out(3) tk by (simp add: written_def flushed_def)
      show "length out = length (next_out ?z)" by (rule out(2))
    qed
  next
    case wrap
    define n1 where "n1 = ?e - ?q"
    define w1 where "w1 = (if ?w = ?e then 0 else ?w)"
    define n2 where "n2 = min w1 (?a - n1)"
    have n1: "n1 = min (?e - ?q) ?a" and st: "?q \<le> ?e" "?e \<le> int (length ?W)" and n1pos: "0 < n1" "n1 \<le> ?a"
      using wrap wf' by (simp_all add: n1_def)
    have nsum: "n = n1 + n2" using wrap by (simp add: n1_def n2_def w1_def)
    let ?r = "if n1 \<noteq> 0 \<and> m_r t = Z_BUF_ERROR then Z_OK else m_r t"
    obtain o1 where o1: "flush_part ?p ?q ?e t = Inr (?p + n1, ?q + n1, t\<lparr>m_r := ?r,
       m_z := ?z\<lparr>avail_out := ?a - n1, total_out := total_out ?z + n1, next_out := o1\<rparr>\<rparr>)"
      "length o1 = length (next_out ?z)"
      "take (nat (?p + n1)) o1 = take (nat ?p) (next_out ?z) @ take (nat n1) (drop (nat ?q) ?W)"
      by (rule flush_part_spec [OF p0 a0 pa q0 st n1]) (rule that)
    define t1 where "t1 = t\<lparr>m_r := ?r,
       m_z := ?z\<lparr>avail_out := ?a - n1, total_out := total_out ?z + n1, next_out := o1\<rparr>,
       m_s := ?s\<lparr>s_write := w1\<rparr>\<rparr>"
    have w1: "0 \<le> w1" "w1 < ?e" "w1 \<le> int (length ?W)" "0 \<le> n2" "n2 \<le> w1" "n2 \<le> ?a - n1"
      using wf' n1pos by (auto simp: w1_def n2_def)
    have n2: "n2 = min (w1 - 0) (avail_out (m_z t1))" by (simp add: n2_def t1_def)
    have f1: "0 \<le> ?p + n1" and f2: "0 \<le> avail_out (m_z t1)" and f4: "w1 \<le> int (length (s_window (m_s t1)))"
      and f3: "?p + n1 + avail_out (m_z t1) \<le> int (length (next_out (m_z t1)))"
      using p0 n1pos pa w1 o1(2) by (simp_all add: t1_def)
    obtain o2 where o2: "flush_part (?p + n1) 0 w1 t1 = Inr (?p + n1 + n2, 0 + n2,
         t1\<lparr>m_r := (if n2 \<noteq> 0 \<and> m_r t1 = Z_BUF_ERROR then Z_OK else m_r t1),
       m_z := (m_z t1)\<lparr>avail_out := avail_out (m_z t1) - n2, total_out := total_out (m_z t1) + n2, next_out := o2\<rparr>\<rparr>)"
      "length o2 = length (next_out (m_z t1))"
      "take (nat (?p + n1 + n2)) o2 = take (nat (?p + n1)) (next_out (m_z t1)) @
         take (nat n2) (drop (nat 0) (s_window (m_s t1)))"
      by (rule flush_part_spec [OF f1 f2 f3 order_refl w1(1) f4 n2]) (rule that)
    have eq: "inflate_flush t = Inr (flushed n n2 w1 o2 t)"
      using wrap(1) o1(1) o2(1) n1pos w1(4)
      by (simp add: inflate_flush_def Let_def flushed_def nsum t1_def n1_def w1_def add.assoc)
    have pd: "pending ?s = drop (nat ?q) ?W @ take (nat w1) ?W"
    proof (cases "?q \<le> ?w")
      case True
      then have "?w = ?e" using wrap(1) by simp
      moreover have "length ?W - nat ?q \<le> nat (?e - ?q)" using wf' by linarith
      ultimately show ?thesis using True wf' by (simp add: pending_def w1_def)
    next
      case False
      then have "w1 = ?w" using wf' by (simp add: w1_def)
      with False show ?thesis by (simp add: pending_def)
    qed
    have l1: "length (drop (nat ?q) ?W) = nat n1" using wf' unfolding n1_def length_drop by linarith
    have nn: "nat n = nat n1 + nat n2" using n1pos w1 by (simp add: nsum nat_add_distrib)
    have dr: "pending (m_s (flushed n n2 w1 o2 t)) = drop (nat n) (pending ?s)"
    proof -
      have "drop (nat n) (drop (nat ?q) ?W @ take (nat w1) ?W) = drop (nat n2) (take (nat w1) ?W)"
        unfolding drop_append l1 nn by (simp add: l1 del: length_drop drop_drop)
      also have "\<dots> = pending (m_s (flushed n n2 w1 o2 t))"
        using w1 by (simp add: pending_def flushed_def drop_take nat_diff_distrib)
      finally show ?thesis by (simp only: pd)
    qed
    have tk: "take (nat n) (pending ?s) = drop (nat ?q) ?W @ take (nat n2) ?W"
      unfolding pd take_append l1 nn using w1 l1 by (simp add: min_absorb1 nat_mono del: length_drop)
    show thesis
    proof (rule that [OF eq _ _ dr])
      show "window_ok (m_s (flushed n n2 w1 o2 t))"
        using wf' w1 by (simp add: window_ok_def flushed_def)
      show "output_ok (m_z (flushed n n2 w1 o2 t))"
        using ok' w1 n1pos o2(2) o1(2) by (simp add: output_ok_def flushed_def nsum t1_def)
      show "written (m_z (flushed n n2 w1 o2 t)) = written ?z @ take (nat n) (pending ?s)"
        using o2(3) o1(3) tk l1 by (simp add: written_def flushed_def nsum t1_def add.assoc)
      show "length o2 = length (next_out ?z)" using o2(2) o1(2) by (simp add: t1_def)
    qed
  qed
qed

text \<open>The specification: a queue and the bytes that have left it.\<close>

definition queue_flush :: "nat \<Rightarrow> byte list \<times> byte list \<Rightarrow> byte list \<times> byte list" where
  "queue_flush n = (\<lambda>(q, out). (drop n q, out @ take n q))"

definition queue_of :: "mach \<Rightarrow> byte list \<times> byte list" where
  "queue_of t = (pending (m_s t), written (m_z t))"

text \<open>
  C15. The circular window with its read and write pointers implements a queue: for every position of
  the pointers, \<open>inflate_flush\<close> moves as many of the pending bytes as the output buffer takes from the
  front of the queue to the end of the output, and nothing else; the window stays well-formed.
\<close>

theorem flush_refines_queue:
  assumes "window_ok (m_s t)" and "output_ok (m_z t)"
  shows "\<exists>t'. inflate_flush t = Inr t' \<and> window_ok (m_s t') \<and> output_ok (m_z t') \<and>
    queue_of t' = queue_flush (nat (avail_out (m_z t))) (queue_of t) \<and>
    s_window (m_s t') = s_window (m_s t) \<and>
    avail_out (m_z t') = avail_out (m_z t) - min (avail_out (m_z t)) (int (length (pending (m_s t))))"
proof -
  let ?n = "min (avail_out (m_z t)) (int (length (pending (m_s t))))"
  obtain rd wr out where *: "inflate_flush t = Inr (flushed ?n rd wr out t)"
    "window_ok (m_s (flushed ?n rd wr out t))" "output_ok (m_z (flushed ?n rd wr out t))"
    "pending (m_s (flushed ?n rd wr out t)) = drop (nat ?n) (pending (m_s t))"
    "written (m_z (flushed ?n rd wr out t)) = written (m_z t) @ take (nat ?n) (pending (m_s t))"
    "length out = length (next_out (m_z t))"
    by (rule inflate_flush_spec [OF assms refl]) (rule that)
  have "take (nat ?n) xs = take (nat (avail_out (m_z t))) xs" "drop (nat ?n) xs = drop (nat (avail_out (m_z t))) xs"
    if "length xs = length (pending (m_s t))" for xs :: "byte list"
    using that by (auto simp: min_def)
  with * show ?thesis
    by (intro exI [of _ "flushed ?n rd wr out t"]) (simp add: queue_of_def queue_flush_def flushed_def)
qed

theorem flush_refines_queue_witness:
  "\<exists>t'. inflate_flush \<lparr>m_s = (InfBlocks 4)\<lparr>s_window := [1, 2, 3, 4], s_read := 3, s_write := 2\<rparr>,
     m_z = \<lparr>next_in = [], next_in_index = 0, avail_in = 0, total_in = 0, next_out = [0, 0, 0],
       next_out_index = 1, avail_out = 2, total_out = 0, z_msg = None\<rparr>,
     m_p = 0, m_n = 0, m_b = 0, m_k = 0, m_q = 2, m_m = 0, m_r = 0\<rparr> = Inr t' \<and>
   queue_of t' = ([2], [0, 4, 1])"
proof -
  let ?t = "\<lparr>m_s = (InfBlocks 4)\<lparr>s_window := [1, 2, 3, 4], s_read := 3, s_write := 2\<rparr>,
     m_z = \<lparr>next_in = [], next_in_index = 0, avail_in = 0, total_in = 0, next_out = [0, 0, 0],
       next_out_index = 1, avail_out = 2, total_out = 0, z_msg = None\<rparr>,
     m_p = 0, m_n = 0, m_b = 0, m_k = 0, m_q = 2, m_m = 0, m_r = 0\<rparr> :: mach"
  have "window_ok (m_s ?t)" "output_ok (m_z ?t)" by (simp_all add: window_ok_def output_ok_def InfBlocks_def)
  from flush_refines_queue [OF this] obtain t' where t': "inflate_flush ?t = Inr t'"
    "queue_of t' = queue_flush (nat (avail_out (m_z ?t))) (queue_of ?t)" by blast
  moreover have "queue_of ?t = ([4, 1, 2], [0])" by (simp add: queue_of_def pending_def written_def InfBlocks_def)
  ultimately show ?thesis by (intro exI [of _ t']) (simp add: queue_flush_def)
qed

section \<open>The window during proc\<close>

text \<open>The write pointer of \<open>proc\<close> is its local \<open>q\<close>.\<close>

definition cur :: "mach \<Rightarrow> blocks" where
  "cur t = (m_s t)\<lparr>s_write := m_q t\<rparr>"

definition queue_ok :: "mach \<Rightarrow> bool" where
  "queue_ok t \<longleftrightarrow> window_ok (cur t) \<and> output_ok (m_z t) \<and> m_m t = room (m_s t) (m_q t)"

definition stream :: "mach \<Rightarrow> byte list" where
  "stream t = written (m_z t) @ pending (cur t)"

text \<open>All that neither flushing nor wrapping touches.\<close>

definition kept :: "mach \<Rightarrow> mach" where
  "kept t = t\<lparr>m_s := (m_s t)\<lparr>s_read := 0, s_write := 0, s_window := []\<rparr>,
     m_z := (m_z t)\<lparr>avail_out := 0, total_out := 0, next_out := replicate (length (next_out (m_z t))) 0,
       next_out_index := 0\<rparr>,
     m_q := 0, m_m := 0, m_r := 0\<rparr>"

lemma keptD:
  assumes "kept t' = kept t"
  shows "m_p t' = m_p t" "m_n t' = m_n t" "m_b t' = m_b t" "m_k t' = m_k t"
    "s_mode (m_s t') = s_mode (m_s t)" "s_left (m_s t') = s_left (m_s t)" "s_last (m_s t') = s_last (m_s t)"
    "s_end (m_s t') = s_end (m_s t)" "s_codes (m_s t') = s_codes (m_s t)" "s_hufts (m_s t') = s_hufts (m_s t)"
    "next_in (m_z t') = next_in (m_z t)" "next_in_index (m_z t') = next_in_index (m_z t)"
    "s_bitb (m_s t') = s_bitb (m_s t)" "s_bitk (m_s t') = s_bitk (m_s t)" "avail_in (m_z t') = avail_in (m_z t)"
    "length (next_out (m_z t')) = length (next_out (m_z t))"
proof -
  have "f (kept t') = f (kept t)" for f :: "mach \<Rightarrow> 'a" using assms by simp
  from this [of m_p] this [of m_n] this [of m_k]
  show "m_p t' = m_p t" "m_n t' = m_n t" "m_k t' = m_k t" by (simp_all add: kept_def)
qed (use arg_cong [OF assms, of m_b] arg_cong [OF assms, of "\<lambda>x. s_mode (m_s x)"]
   arg_cong [OF assms, of "\<lambda>x. s_left (m_s x)"] arg_cong [OF assms, of "\<lambda>x. s_last (m_s x)"]
   arg_cong [OF assms, of "\<lambda>x. s_end (m_s x)"] arg_cong [OF assms, of "\<lambda>x. s_codes (m_s x)"]
   arg_cong [OF assms, of "\<lambda>x. s_hufts (m_s x)"] arg_cong [OF assms, of "\<lambda>x. next_in (m_z x)"]
   arg_cong [OF assms, of "\<lambda>x. next_in_index (m_z x)"] arg_cong [OF assms, of "\<lambda>x. s_bitb (m_s x)"]
   arg_cong [OF assms, of "\<lambda>x. s_bitk (m_s x)"] arg_cong [OF assms, of "\<lambda>x. avail_in (m_z x)"]
   arg_cong [OF assms, of "\<lambda>x. length (next_out (m_z x))"]
   in \<open>simp_all add: kept_def\<close>)

text \<open>How the result code of a \<open>proc\<close> that has not failed goes with the output.\<close>

definition code_ok :: "mach \<Rightarrow> bool" where
  "code_ok t \<longleftrightarrow> m_r t = Z_OK \<or> m_r t = Z_BUF_ERROR \<and> 0 < avail_out (m_z t)"

text \<open>A flush in the middle of \<open>proc\<close>.\<close>

lemma flush_cur:
  assumes "queue_ok t"
  obtains t' where "inflate_flush (put_q t) = Inr t'" "queue_ok (get_q t')" "stream (get_q t') = stream t"
    "kept (get_q t') = kept t" "code_ok t \<Longrightarrow> code_ok (get_q t')"
    "pending (m_s t') \<noteq> [] \<Longrightarrow> avail_out (m_z t') = 0" "m_s t' = cur (get_q t')"
    "avail_out (m_z t') \<le> avail_out (m_z t)" "m_r t \<noteq> Z_BUF_ERROR \<Longrightarrow> m_r t' = m_r t"
    "pending (cur t) = [] \<Longrightarrow> pending (m_s t') = []"
proof -
  have wf: "window_ok (m_s (put_q t))" "output_ok (m_z (put_q t))" and cur: "m_s (put_q t) = cur t"
    using assms by (simp_all add: queue_ok_def put_q_def cur_def)
  have z: "m_z (put_q t) = m_z t" by (simp add: put_q_def)
  define n where "n = min (avail_out (m_z (put_q t))) (int (length (pending (m_s (put_q t)))))"
  obtain rd wr out where "inflate_flush (put_q t) = Inr (flushed n rd wr out (put_q t))"
    "window_ok (m_s (flushed n rd wr out (put_q t)))" "output_ok (m_z (flushed n rd wr out (put_q t)))"
    "pending (m_s (flushed n rd wr out (put_q t))) = drop (nat n) (pending (m_s (put_q t)))"
    "written (m_z (flushed n rd wr out (put_q t))) = written (m_z (put_q t)) @ take (nat n) (pending (m_s (put_q t)))"
    "length out = length (next_out (m_z (put_q t)))"
    by (rule inflate_flush_spec [OF wf n_def]) (rule that)
  note f = n_def [unfolded cur z] this [unfolded cur z]
  let ?t = "flushed n rd wr out (put_q t)"
  have c: "m_s ?t = cur (get_q ?t)" by (simp add: cur_def get_q_def)
  have n0: "0 \<le> n" "n \<le> avail_out (m_z t)" using f(1) wf(2) by (auto simp: output_ok_def put_q_def)
  show thesis
  proof (rule that [OF f(2)])
    show "queue_ok (get_q ?t)" 
      unfolding queue_ok_def c [symmetric] using f(3,4) by (simp add: get_q_def)
    show "stream (get_q ?t) = stream t"
      unfolding stream_def c [symmetric] using f(5,6) by (simp add: get_q_def)
    show "kept (get_q ?t) = kept t" using f(7) by (simp add: kept_def get_q_def flushed_def put_q_def)
    show "code_ok (get_q ?t)" if "code_ok t"
      using that n0 by (auto simp: code_ok_def get_q_def flushed_def put_q_def)
    show "avail_out (m_z ?t) = 0" if "pending (m_s ?t) \<noteq> []"
      using that f(1,5) n0 by (auto simp: flushed_def put_q_def min_def split: if_splits)
    show "avail_out (m_z ?t) \<le> avail_out (m_z t)" using n0 by (simp add: flushed_def put_q_def)
    show "m_r ?t = m_r t" if "m_r t \<noteq> Z_BUF_ERROR" using that by (simp add: flushed_def put_q_def)
    show "pending (m_s ?t) = []" if "pending (cur t) = []" using that f(5) by simp
  qed (rule c)
qed

lemma wrap_q_spec:
  assumes "queue_ok t"
  shows "queue_ok (wrap_q t)" "stream (wrap_q t) = stream t" "kept (wrap_q t) = kept t"
    "m_r (wrap_q t) = m_r t" "m_z (wrap_q t) = m_z t" "m_s (wrap_q t) = m_s t"
    "pending (cur (wrap_q t)) = pending (cur t)"
proof -
  show p: "pending (cur (wrap_q t)) = pending (cur t)"
    using assms by (auto simp: wrap_q_def queue_ok_def window_ok_def pending_def cur_def)
  then show "stream (wrap_q t) = stream t" by (simp add: stream_def wrap_q_def)
  show "queue_ok (wrap_q t)"
    using assms by (auto simp: wrap_q_def queue_ok_def window_ok_def cur_def room_def)
qed (simp_all add: wrap_q_def kept_def)

text \<open>No room after wrapping means that the window is full.\<close>

lemma no_room_full:
  assumes "queue_ok t" "m_m (wrap_q t) = 0"
  shows "pending (cur t) \<noteq> []"
proof -
  have "window_ok (cur t)" using assms by (simp add: queue_ok_def)
  from length_pending [OF this] assms show ?thesis
    by (auto simp: wrap_q_def queue_ok_def window_ok_def cur_def room_def split: if_splits)
qed

lemma room_nonneg:
  assumes "queue_ok t"
  shows "0 \<le> m_m t"
  using assms by (auto simp: queue_ok_def window_ok_def cur_def room_def)

lemma make_room_spec:
  assumes q: "queue_ok t" and c: "code_ok t"
  obtains ok t' where "make_room t = Inr (ok, t')" "queue_ok t'" "stream t' = stream t" "kept t' = kept t"
    "code_ok t'" "ok \<Longrightarrow> 0 < m_m t'" "\<not> ok \<Longrightarrow> avail_out (m_z t') = 0"
    "avail_out (m_z t') \<le> avail_out (m_z t)"
proof (cases "m_m t = 0")
  case False
  then show thesis using q c room_nonneg [OF q] by (intro that [of True t]) (simp_all add: make_room_def)
next
  case m0: True
  note w = wrap_q_spec [OF q]
  have cw: "code_ok (wrap_q t)" using c w(4,5) by (simp add: code_ok_def)
  show thesis
  proof (cases "m_m (wrap_q t) = 0")
    case False
    then show thesis using m0 w cw room_nonneg [OF w(1)]
      by (intro that [of True "wrap_q t"]) (simp_all add: make_room_def)
  next
    case True
    obtain t2 where t2: "inflate_flush (put_q (wrap_q t)) = Inr t2" "queue_ok (get_q t2)"
      "stream (get_q t2) = stream (wrap_q t)" "kept (get_q t2) = kept (wrap_q t)"
      "code_ok (wrap_q t) \<Longrightarrow> code_ok (get_q t2)" "pending (m_s t2) \<noteq> [] \<Longrightarrow> avail_out (m_z t2) = 0"
      "m_s t2 = cur (get_q t2)" "avail_out (m_z t2) \<le> avail_out (m_z (wrap_q t))"
      "m_r (wrap_q t) \<noteq> Z_BUF_ERROR \<Longrightarrow> m_r t2 = m_r (wrap_q t)" "pending (cur (wrap_q t)) = [] \<Longrightarrow> pending (m_s t2) = []"
      by (rule flush_cur [OF w(1)]) (rule that)
    let ?t3 = "wrap_q (get_q t2)"
    note v = wrap_q_spec [OF t2(2)]
    have z: "m_z ?t3 = m_z t2" using v(5) by (simp add: get_q_def)
    have full: "avail_out (m_z ?t3) = 0" if "m_m ?t3 = 0"
      using no_room_full [OF t2(2) that] t2(6,7) z by simp
    have c3: "code_ok ?t3" using t2(5) cw v(4,5) by (simp add: code_ok_def)
    show thesis
    proof (rule that [of "m_m ?t3 \<noteq> 0" ?t3])
      show "make_room t = Inr (m_m ?t3 \<noteq> 0, ?t3)" using m0 True t2(1) by (simp add: make_room_def Let_def)
      show "0 < m_m ?t3" if "m_m ?t3 \<noteq> 0" using that room_nonneg [OF v(1)] by simp
      show "avail_out (m_z ?t3) \<le> avail_out (m_z t)" using t2(8) z w(5) by simp
    qed (use v w t2 full c3 in simp_all)
  qed
qed

text \<open>Writing bytes for which there is room appends them to the queue.\<close>

lemma put_spec:
  assumes q: "queue_ok t" and len: "int (length xs) \<le> m_m t"
  obtains w where "arr_set (s_window (m_s t)) (m_q t) xs = Inr w" "length w = length (s_window (m_s t))"
    "pending (cur (t\<lparr>m_s := (m_s t)\<lparr>s_window := w\<rparr>, m_q := m_q t + int (length xs)\<rparr>)) = pending (cur t) @ xs"
    "window_ok (cur (t\<lparr>m_s := (m_s t)\<lparr>s_window := w\<rparr>, m_q := m_q t + int (length xs)\<rparr>))"
    "room (m_s t) (m_q t + int (length xs)) = m_m t - int (length xs)"
proof -
  let ?W = "s_window (m_s t)" and ?q = "m_q t" and ?n = "length xs"
  have wf: "int (length ?W) = s_end (m_s t)" "0 \<le> s_read (m_s t)" "s_read (m_s t) < s_end (m_s t)"
    "0 \<le> ?q" "?q \<le> s_end (m_s t)" "1 < s_end (m_s t)"
    and m: "m_m t = (if ?q < s_read (m_s t) then s_read (m_s t) - ?q - 1 else s_end (m_s t) - ?q)"
    using q by (simp_all add: queue_ok_def window_ok_def cur_def room_def)
  let ?w = "take (nat ?q) ?W @ xs @ drop (nat ?q + ?n) ?W"
  have fits: "?q + int ?n \<le> s_end (m_s t)" using wf m len by (auto split: if_splits)
  have set: "arr_set ?W ?q xs = Inr ?w" using wf fits by (simp add: arr_set_def)
  have l: "length ?w = length ?W" using wf fits by auto
  have nq: "nat (?q + int ?n) = nat ?q + ?n" using wf by (simp add: nat_add_distrib)
  have tk: "take (nat ?q + ?n) ?w = take (nat ?q) ?W @ xs" using wf by simp
  let ?t = "t\<lparr>m_s := (m_s t)\<lparr>s_window := ?w\<rparr>, m_q := ?q + int ?n\<rparr>"
  have p: "pending (cur ?t) = pending (cur t) @ xs"
  proof (cases "s_read (m_s t) \<le> ?q")
    case True
    let ?r = "nat (s_read (m_s t))"
    have rq: "?r \<le> nat ?q" using True by (simp add: nat_mono)
    have "take (nat (?q + int ?n - s_read (m_s t))) (drop ?r ?w) = drop ?r (take (nat ?q + ?n) ?w)"
      using True wf by (simp add: take_drop nq nat_diff_distrib)
    also have "\<dots> = drop ?r (take (nat ?q) ?W) @ xs" unfolding tk using rq wf by simp
    finally show ?thesis using True wf by (simp add: pending_def cur_def take_drop nat_diff_distrib)
  next
    case False
    then have lt: "?q + int ?n < s_read (m_s t)" using m len by simp
    have "drop (nat (s_read (m_s t))) ?w = drop (nat (s_read (m_s t))) ?W" using lt wf by simp
    then show ?thesis using False lt unfolding pending_def cur_def by (simp add: nq tk del: take_append drop_append)
  qed
  have "room (m_s t) (?q + int ?n) = m_m t - int ?n" using m len by (auto simp: room_def split: if_splits)
  moreover have "window_ok (cur ?t)" using wf fits l by (simp add: window_ok_def cur_def)
  ultimately show thesis using that set l p by blast
qed

text \<open>Leaving \<open>proc\<close>: the fields of the objects are what the next call loads.\<close>

lemma leave_spec:
  assumes q: "queue_ok t"
  obtains t' where "leave t = Inr t'" "queue_ok (load t')" "stream (load t') = stream t"
    "kept (load t') = kept (save t)" "code_ok t \<Longrightarrow> code_ok t'"
    "pending (m_s t') \<noteq> [] \<Longrightarrow> avail_out (m_z t') = 0" "m_s t' = cur (load t')"
    "avail_out (m_z t') \<le> avail_out (m_z t)" "m_r t \<noteq> Z_BUF_ERROR \<Longrightarrow> m_r t' = m_r t"
    "pending (cur t) = [] \<Longrightarrow> pending (m_s t') = []"
proof -
  let ?u = "(save t)\<lparr>m_s := (m_s (save t))\<lparr>s_write := s_write (m_s t)\<rparr>\<rparr>"
  have eq: "put_q ?u = save t" by (simp add: put_q_def save_def)
  have cur: "pending (cur ?u) = pending (cur t)" "window_ok (cur ?u) = window_ok (cur t)"
    by (simp_all add: cur_def save_def pending_def window_ok_def)
  have qu: "queue_ok ?u" using q cur by (simp add: queue_ok_def save_def output_ok_def room_def)
  obtain t' where t': "inflate_flush (put_q ?u) = Inr t'" "queue_ok (get_q t')" "stream (get_q t') = stream ?u"
    "kept (get_q t') = kept ?u" "code_ok ?u \<Longrightarrow> code_ok (get_q t')"
    "pending (m_s t') \<noteq> [] \<Longrightarrow> avail_out (m_z t') = 0" "m_s t' = cur (get_q t')"
    "avail_out (m_z t') \<le> avail_out (m_z ?u)" "m_r ?u \<noteq> Z_BUF_ERROR \<Longrightarrow> m_r t' = m_r ?u"
    "pending (cur ?u) = [] \<Longrightarrow> pending (m_s t') = []"
    by (rule flush_cur [OF qu]) (rule that)
  note k = keptD [OF t'(4)]
  have ld: "load t' = get_q t'"
    using k by (cases t') (simp add: load_def get_q_def save_def)
  show thesis
  proof (rule that [of t'])
    show "leave t = Inr t'" using t'(1) by (simp add: leave_def eq)
    show "stream (load t') = stream t" using t'(3) cur by (simp add: ld stream_def save_def written_def)
    show "kept (load t') = kept (save t)" using t'(4) by (simp add: ld kept_def save_def)
    show "code_ok t'" if "code_ok t" using that t'(5) by (simp add: code_ok_def save_def get_q_def)
    show "avail_out (m_z t') \<le> avail_out (m_z t)" using t'(8) by (simp add: save_def)
    show "m_r t' = m_r t" if "m_r t \<noteq> Z_BUF_ERROR" using t'(9) that by (simp add: save_def)
    show "pending (m_s t') = []" if "pending (cur t) = []" using t'(10) that cur by simp
  qed (use t' in \<open>simp_all add: ld\<close>)
qed

end
