(* ===== verification/Inflate.thy ===== *)
theory Inflate
  imports Inf_Blocks
begin

text \<open>
  \<open>Inflate\<close>, \<open>ZStream\<close> and \<open>Inflater\<close> of \<^verbatim>\<open>html/lib/inflate.js\<close>: the outermost state machine with
  its zlib header, and \<open>append\<close>, which feeds a chunk of compressed data to it and collects what comes
  out in buffers of 512 bytes.
\<close>

section \<open>Inflate\<close>

datatype inflate_mode = METHOD | FLAG | DICT4 | DICT3 | DICT2 | DICT1 | DICT0 | BLOCKS | DONE | BAD

definition PRESET_DICT :: int where [simp]: "PRESET_DICT = 32"
definition Z_DEFLATED :: int where [simp]: "Z_DEFLATED = 8"

record istate =
  i_mode :: inflate_mode
  i_method :: int
  i_was :: int
  i_need :: int
  i_marker :: int
  i_wbits :: int
  i_blocks :: "blocks option"

definition new_Inflate :: istate where
  "new_Inflate = \<lparr>i_mode = METHOD, i_method = 0, i_was = 0, i_need = 0, i_marker = 0, i_wbits = 0,
     i_blocks = None\<rparr>"

text \<open>A stream and its state.\<close>

record inflation =
  x_i :: istate
  x_z :: zstream
  x_r :: int
  x_f :: int

definition inflateReset :: "istate \<Rightarrow> zstream \<Rightarrow> (istate \<times> zstream) eff" where
  "inflateReset i z = (case i_blocks i of None \<Rightarrow> Inl (Raises TypeError)
     | Some s \<Rightarrow> Inr (i\<lparr>i_mode := BLOCKS, i_blocks := Some (blocks_reset s)\<rparr>,
         z\<lparr>total_in := 0, total_out := 0, z_msg := None\<rparr>))"

definition inflateInit :: "int \<Rightarrow> istate \<Rightarrow> zstream \<Rightarrow> (int \<times> istate \<times> zstream) eff" where
  "inflateInit w i z =
     (let z1 = z\<lparr>z_msg := None\<rparr>; i1 = i\<lparr>i_blocks := None\<rparr> in
      if w < 8 \<or> w > 15 then Inr (Z_STREAM_ERROR, i1, z1)
      else ebind (inflateReset (i1\<lparr>i_wbits := w, i_blocks := Some (InfBlocks (2 ^ nat w))\<rparr>) z1) (\<lambda>(i2, z2).
        Inr (Z_OK, i2, z2)))"

text \<open>One byte of a header, when there is one: \<open>if (z.avail_in === 0) return r; r = f; \<dots>\<close>\<close>

definition header_byte :: "(int \<Rightarrow> inflation \<Rightarrow> (inflation, inflation) next_step prog) \<Rightarrow> inflation \<Rightarrow>
    (inflation, inflation) next_step prog" where
  "header_byte k x =
     (let z = x_z x in
      if avail_in z = 0 then ret (Back x)
      else k (uint (read_byte z (next_in_index z)))
        (x\<lparr>x_r := x_f x, x_z := z\<lparr>avail_in := avail_in z - 1, total_in := total_in z + 1,
           next_in_index := next_in_index z + 1\<rparr>\<rparr>))"

definition bad_header :: "string \<Rightarrow> inflation \<Rightarrow> (inflation, inflation) next_step prog" where
  "bad_header msg x =
     ret (Go (x\<lparr>x_i := (x_i x)\<lparr>i_mode := BAD, i_marker := 5\<rparr>, x_z := (x_z x)\<lparr>z_msg := Some msg\<rparr>\<rparr>))"

definition need_byte :: "int \<Rightarrow> inflate_mode \<Rightarrow> int \<Rightarrow> inflation \<Rightarrow> inflation" where
  "need_byte n m v x = x\<lparr>x_i := (x_i x)\<lparr>i_need := n + v, i_mode := m\<rparr>\<rparr>"

definition inflate_step :: "inflation \<Rightarrow> (inflation, inflation) next_step prog" where
  "inflate_step x =
     (let i = x_i x in
      case i_mode i of
        METHOD \<Rightarrow> header_byte (\<lambda>b x.
          let x1 = x\<lparr>x_i := (x_i x)\<lparr>i_method := b\<rparr>\<rparr> in
          if b AND 15 \<noteq> Z_DEFLATED then bad_header ''unknown compression method'' x1
          else if b div 16 + 8 > i_wbits i then bad_header ''invalid window size'' x1
          else ret (Go (x1\<lparr>x_i := (x_i x1)\<lparr>i_mode := FLAG\<rparr>\<rparr>))) x
      | FLAG \<Rightarrow> header_byte (\<lambda>b x.
          if (i_method i * 256 + b) mod 31 \<noteq> 0 then bad_header ''incorrect header check'' x
          else if b AND PRESET_DICT = 0 then ret (Go (x\<lparr>x_i := (x_i x)\<lparr>i_mode := BLOCKS\<rparr>\<rparr>))
          else ret (Go (x\<lparr>x_i := (x_i x)\<lparr>i_mode := DICT4\<rparr>\<rparr>))) x
      | DICT4 \<Rightarrow> header_byte (\<lambda>b x. ret (Go (need_byte 0 DICT3 (sint (push_bit 24 (word_of_int b) :: 32 word)) x))) x
      | DICT3 \<Rightarrow> header_byte (\<lambda>b x. ret (Go (need_byte (i_need i) DICT2 (b * 65536) x))) x
      | DICT2 \<Rightarrow> header_byte (\<lambda>b x. ret (Go (need_byte (i_need i) DICT1 (b * 256) x))) x
      | DICT1 \<Rightarrow> header_byte (\<lambda>b x. ret (Back ((need_byte (i_need i) DICT0 b x)\<lparr>x_r := Z_NEED_DICT\<rparr>))) x
      | DICT0 \<Rightarrow> ret (Back (x\<lparr>x_i := i\<lparr>i_mode := BAD, i_marker := 0\<rparr>,
          x_z := (x_z x)\<lparr>z_msg := Some ''need dictionary''\<rparr>, x_r := Z_STREAM_ERROR\<rparr>))
      | BLOCKS \<Rightarrow>
          (case i_blocks i of None \<Rightarrow> Some (Inl (Raises TypeError))
           | Some s \<Rightarrow> pbind (blocks_proc s (x_z x) (x_r x)) (\<lambda>t.
               let i1 = i\<lparr>i_blocks := Some (m_s t)\<rparr>;
                   x1 = x\<lparr>x_i := i1, x_z := m_z t, x_r := (if m_r t = Z_OK then x_f x else m_r t)\<rparr> in
               if m_r t = Z_DATA_ERROR then ret (Go (x1\<lparr>x_i := i1\<lparr>i_mode := BAD, i_marker := 0\<rparr>\<rparr>))
               else if m_r t \<noteq> Z_STREAM_END then ret (Back x1)
               else ret (Go (x1\<lparr>x_r := x_f x, x_i := i1\<lparr>i_blocks := Some (blocks_reset (m_s t)), i_was := 0,
                 i_mode := DONE\<rparr>\<rparr>))))
      | DONE \<Rightarrow> ret (Back (x\<lparr>x_r := Z_STREAM_END\<rparr>))
      | BAD \<Rightarrow> ret (Back (x\<lparr>x_r := Z_DATA_ERROR\<rparr>)))"

definition inflate_inflate :: "int \<Rightarrow> istate \<Rightarrow> zstream \<Rightarrow> inflation prog" where
  "inflate_inflate f i z =
     loop inflate_step \<lparr>x_i = i, x_z = z, x_r = Z_BUF_ERROR,
       x_f = (if f = Z_FINISH then Z_BUF_ERROR else Z_OK)\<rparr>"

text \<open>\<open>inflateSetDictionary\<close> and \<open>inflateSync\<close>, which looks for the marker of a flush.\<close>

definition inflateSetDictionary :: "byte list \<Rightarrow> int \<Rightarrow> istate \<Rightarrow> (int \<times> istate) eff" where
  "inflateSetDictionary dictionary dictLength i =
     (if i_mode i \<noteq> DICT0 then Inr (Z_STREAM_ERROR, i)
      else
        (let size = 2 ^ nat (i_wbits i);
             len = (if dictLength \<ge> size then size - 1 else dictLength);
             index = (if dictLength \<ge> size then dictLength - len else 0) in
         case i_blocks i of None \<Rightarrow> Inl (Raises TypeError)
         | Some s \<Rightarrow> ebind (set_dictionary dictionary index len s) (\<lambda>s'.
             Inr (Z_OK, i\<lparr>i_blocks := Some s', i_mode := BLOCKS\<rparr>))))"

definition mark :: "byte list" where
  "mark = [0, 0, 0xff, 0xff]"

function sync_search :: "zstream \<Rightarrow> int \<Rightarrow> int \<Rightarrow> int \<Rightarrow> int \<times> int \<times> int" where
  "sync_search z p n m =
     (if 0 < n \<and> m < 4 then
        (let b = read_byte z p in
         sync_search z (p + 1) (n - 1) (if arr_at mark m = Some b then m + 1 else if b \<noteq> 0 then 0 else 4 - m))
      else (p, n, m))"
  by pat_completeness auto
termination by (relation "measure (\<lambda>(z, p, n, m). nat n)") auto

declare sync_search.simps [simp del]

definition inflateSync :: "istate \<Rightarrow> zstream \<Rightarrow> (int \<times> istate \<times> zstream) eff" where
  "inflateSync i z =
     (let i1 = (if i_mode i \<noteq> BAD then i\<lparr>i_mode := BAD, i_marker := 0\<rparr> else i) in
      if avail_in z = 0 then Inr (Z_BUF_ERROR, i1, z)
      else
        (case sync_search z (next_in_index z) (avail_in z) (i_marker i1) of (p, n, m) \<Rightarrow>
           (let z1 = z\<lparr>total_in := total_in z + (p - next_in_index z), next_in_index := p, avail_in := n\<rparr>;
                i2 = i1\<lparr>i_marker := m\<rparr> in
            if m \<noteq> 4 then Inr (Z_DATA_ERROR, i2, z1)
            else ebind (inflateReset i2 z1) (\<lambda>(i3, z2).
              Inr (Z_OK, i3\<lparr>i_mode := BLOCKS\<rparr>, z2\<lparr>total_in := total_in z1, total_out := total_out z1\<rparr>)))))"

definition inflateSyncPoint :: "istate \<Rightarrow> int" where
  "inflateSyncPoint i = (case i_blocks i of None \<Rightarrow> Z_STREAM_ERROR | Some s \<Rightarrow> sync_point s)"

section \<open>ZStream\<close>

text \<open>The stream with its \<open>istate\<close>, absent before \<open>inflateInit\<close> and after \<open>inflateEnd\<close>.\<close>

record zs =
  zs_istate :: "istate option"
  zs_z :: zstream

definition zs_inflateInit :: "int \<Rightarrow> zs \<Rightarrow> (int \<times> zs) eff" where
  "zs_inflateInit bits s =
     ebind (inflateInit (if bits = 0 then MAX_BITS else bits) new_Inflate (zs_z s)) (\<lambda>(r, i, z).
       Inr (r, \<lparr>zs_istate = Some i, zs_z = z\<rparr>))"

definition zs_inflate :: "int \<Rightarrow> zs \<Rightarrow> (int \<times> zs) prog" where
  "zs_inflate f s =
     (case zs_istate s of None \<Rightarrow> ret (Z_STREAM_ERROR, s)
      | Some i \<Rightarrow> pbind (inflate_inflate f i (zs_z s)) (\<lambda>x.
          ret (x_r x, \<lparr>zs_istate = Some (x_i x), zs_z = x_z x\<rparr>)))"

definition zs_inflateEnd :: "zs \<Rightarrow> int \<times> zs" where
  "zs_inflateEnd s = (case zs_istate s of None \<Rightarrow> (Z_STREAM_ERROR, s) | Some i \<Rightarrow> (Z_OK, s\<lparr>zs_istate := None\<rparr>))"

definition zs_inflateSync :: "zs \<Rightarrow> (int \<times> zs) eff" where
  "zs_inflateSync s =
     (case zs_istate s of None \<Rightarrow> Inr (Z_STREAM_ERROR, s)
      | Some i \<Rightarrow> ebind (inflateSync i (zs_z s)) (\<lambda>(r, i', z). Inr (r, \<lparr>zs_istate = Some i', zs_z = z\<rparr>)))"

definition zs_inflateSetDictionary :: "byte list \<Rightarrow> int \<Rightarrow> zs \<Rightarrow> (int \<times> zs) eff" where
  "zs_inflateSetDictionary d n s =
     (case zs_istate s of None \<Rightarrow> Inr (Z_STREAM_ERROR, s)
      | Some i \<Rightarrow> ebind (inflateSetDictionary d n i) (\<lambda>(r, i'). Inr (r, s\<lparr>zs_istate := Some i'\<rparr>)))"

section \<open>Inflater\<close>

record inflater =
  f_zs :: zs
  f_nomoreinput :: bool

definition bufsize :: int where [simp]: "bufsize = 512"

definition new_stream :: zs where
  "new_stream = \<lparr>zs_istate = None, zs_z = \<lparr>next_in = [], next_in_index = 0, avail_in = 0, total_in = 0,
     next_out = [], next_out_index = 0, avail_out = 0, total_out = 0, z_msg = None\<rparr>\<rparr>"

definition Inflater :: "inflater eff" where
  "Inflater = ebind (zs_inflateInit 0 new_stream) (\<lambda>(r, s).
     Inr \<lparr>f_zs = s\<lparr>zs_z := (zs_z s)\<lparr>next_out := replicate (nat bufsize) 0\<rparr>\<rparr>, f_nomoreinput = False\<rparr>)"

text \<open>
  \<open>append\<close> returns nothing for no data, an array, or -1; the array of output chunks is kept joined.
  The list holds the calls of \<open>onprogress\<close>.
\<close>

datatype appended = No_data | Minus_one | Array "byte list"

record appending =
  a_f :: inflater
  a_out :: "byte list"
  a_last :: int
  a_progress :: "int list"

definition in_z :: "(zstream \<Rightarrow> zstream) \<Rightarrow> inflater \<Rightarrow> inflater" where
  "in_z g f = f\<lparr>f_zs := (f_zs f)\<lparr>zs_z := g (zs_z (f_zs f))\<rparr>\<rparr>"

definition z_of :: "inflater \<Rightarrow> zstream" where
  "z_of f = zs_z (f_zs f)"

text \<open>The buffer is emptied; an inflater without input notes that no more is to come.\<close>

definition fresh_buffer :: "inflater \<Rightarrow> inflater" where
  "fresh_buffer f =
     (let f1 = in_z (\<lambda>z. z\<lparr>next_out_index := 0, avail_out := bufsize\<rparr>) f in
      if avail_in (z_of f1) = 0 \<and> \<not> f_nomoreinput f1
      then (in_z (\<lambda>z. z\<lparr>next_in_index := 0\<rparr>) f1)\<lparr>f_nomoreinput := True\<rparr> else f1)"

text \<open>\<open>"inflating: " + z.msg\<close>\<close>

definition inflating :: "string option \<Rightarrow> string" where
  "inflating msg = ''inflating: '' @ (case msg of None \<Rightarrow> ''null'' | Some m \<Rightarrow> m)"

definition append_step :: "int \<Rightarrow> appending \<Rightarrow> (appending, appended \<times> appending) next_step prog" where
  "append_step len a =
     (let f1 = fresh_buffer (a_f a) in
      pbind (zs_inflate Z_NO_FLUSH (f_zs f1)) (\<lambda>(err, s).
        let f2 = f1\<lparr>f_zs := s\<rparr>; z = zs_z s; a1 = a\<lparr>a_f := f2\<rparr> in
        if f_nomoreinput f2 \<and> err = Z_BUF_ERROR then ret (Back (Minus_one, a1))
        else if err \<noteq> Z_OK \<and> err \<noteq> Z_STREAM_END then Some (Inl (Raises (Thrown (inflating (z_msg z)))))
        else if (f_nomoreinput f2 \<or> err = Z_STREAM_END) \<and> avail_out z = len then ret (Back (Minus_one, a1))
        else
          (let moved = (next_in_index z > 0 \<and> next_in_index z \<noteq> a_last a);
               a2 = a1\<lparr>a_out := a_out a @ take (nat (next_out_index z)) (next_out z),
                 a_last := (if moved then next_in_index z else a_last a),
                 a_progress := (if moved then a_progress a @ [next_in_index z] else a_progress a)\<rparr> in
           if avail_in z > 0 \<or> avail_out z = 0 then ret (Go a2) else ret (Back (Array (a_out a2), a2)))))"

definition inflater_append :: "byte list \<Rightarrow> inflater \<Rightarrow> (appended \<times> int list \<times> inflater) prog" where
  "inflater_append data f =
     (if data = [] then ret (No_data, [], f)
      else
        (let f1 = in_z (\<lambda>z. z\<lparr>next_in_index := 0, next_in := data, avail_in := int (length data)\<rparr>) f in
         pbind (loop (append_step (int (length data))) \<lparr>a_f = f1, a_out = [], a_last = 0, a_progress = []\<rparr>)
           (\<lambda>(res, a). ret (res, a_progress a, a_f a))))"

definition inflater_flush :: "inflater \<Rightarrow> inflater" where
  "inflater_flush f = f\<lparr>f_zs := snd (zs_inflateEnd (f_zs f))\<rparr>"

end
