(* ===== verification/Inf_Stored.thy ===== *)
theory Inf_Stored
  imports Inf_Queue Inflate
begin

text \<open>
  Stored blocks from end to end: what \<open>Inflater.append\<close> of \<^verbatim>\<open>html/lib/inflate.js\<close> returns for a
  stream of stored blocks of any number and size, with or without bytes after the last block.
\<close>

section \<open>Stored blocks\<close>

definition stored_block :: "bool \<Rightarrow> byte list \<Rightarrow> byte list" where
  "stored_block fin d = (if fin then 1 else 0) # le 2 (int (length d)) @ map NOT (le 2 (int (length d))) @ d"

fun stored_stream :: "byte list list \<Rightarrow> byte list" where
  "stored_stream [] = []"
| "stored_stream (d # ds) = stored_block (ds = []) d @ stored_stream ds"

section \<open>Bits\<close>

lemma le_2: "le 2 v = [of_int v, of_int (v div 256)]"
  by (simp add: numeral_2_eq_2 le_Suc le_def)

definition word32 :: "byte \<Rightarrow> byte \<Rightarrow> byte \<Rightarrow> byte \<Rightarrow> 32 word" where
  "word32 a b c d = ((ucast a OR push_bit 8 (ucast b)) OR push_bit 16 (ucast c)) OR push_bit 24 (ucast d)"

lemma ffff: "(0xffff :: 32 word) = mask 16"
  by (simp add: mask_eq_exp_minus_1)

lemma bit_byte: "bit (a :: byte) n \<Longrightarrow> n < 8"
  using bit_imp_le_length [of a n] by simp

lemma word32_low: "word32 a b c d AND 0xffff = ucast a OR push_bit 8 (ucast b)"
  unfolding word32_def ffff
  by (rule bit_word_eqI) (auto simp: bit_simps dest: bit_byte)

lemma word32_high:
  "drop_bit 16 (NOT (word32 a b c d)) AND 0xffff = ucast (NOT c) OR push_bit 8 (ucast (NOT d))"
  unfolding word32_def ffff
  by (rule bit_word_eqI) (auto simp: bit_simps dest: bit_byte)

lemma uint_two_bytes:
  "uint (ucast (a :: byte) OR push_bit 8 (ucast (b :: byte)) :: 32 word) = uint a + 256 * uint b"
proof -
  have "(ucast a OR push_bit 8 (ucast b) :: 32 word) = ucast a + push_bit 8 (ucast b)"
    by (rule disjunctive_add [symmetric]) (auto simp: bit_simps dest: bit_byte)
  moreover have "uint (push_bit 8 (ucast b :: 32 word)) = 256 * uint b"
    unfolding unsigned_push_bit_eq using uint_lt2p [of b]
    by (simp add: push_bit_eq_mult unsigned_ucast_eq take_bit_int_eq_self)
  moreover have "uint (ucast a :: 32 word) = uint a" 
    using uint_lt2p [of a] by (simp add: unsigned_ucast_eq take_bit_int_eq_self)
  ultimately show ?thesis
    using uint_lt2p [of a] uint_lt2p [of b] by (simp add: uint_plus_if_size word_size)
qed

lemma length_bytes:
  assumes "0 \<le> n" "n < 65536"
  shows "uint (of_int n :: byte) + 256 * uint (of_int (n div 256) :: byte) = n"
proof -
  have "0 \<le> n div 256" "n div 256 < 256" using assms by auto
  then have "n div 256 mod 256 = n div 256" by simp
  with \<open>0 \<le> n div 256\<close> assms show ?thesis by (simp add: unsigned_of_int take_bit_eq_mod)
qed

section \<open>Input\<close>

definition input_is :: "mach \<Rightarrow> byte list \<Rightarrow> bool" where
  "input_is t inp \<longleftrightarrow> 0 \<le> m_p t \<and> take (length inp) (drop (nat (m_p t)) (next_in (m_z t))) = inp \<and>
     m_n t = int (length inp)"

lemma take_drop_ConsD:
  assumes "take (Suc k) (drop n xs) = y # ys"
  shows "n < length xs" "xs ! n = y" "take k (drop (Suc n) xs) = ys"
proof -
  have "drop n xs \<noteq> []" using assms by auto
  then show n: "n < length xs" by simp
  show "xs ! n = y" "take k (drop (Suc n) xs) = ys" using Cons_nth_drop_Suc [OF n] assms
    by (metis list.inject take_Suc_Cons)+
qed

lemma read_byte_input:
  assumes "input_is t (x # xs)"
  shows "read_byte (m_z t) (m_p t) = x"
proof -
  have "nat (m_p t) < length (next_in (m_z t))" "next_in (m_z t) ! nat (m_p t) = x"
    using assms take_drop_ConsD [of "length xs" "nat (m_p t)" "next_in (m_z t)" x xs] by (simp_all add: input_is_def)
  moreover have "0 \<le> m_p t" using assms by (simp add: input_is_def)
  ultimately show ?thesis by (simp add: read_byte_def arr_at_def zless_nat_eq_int_zless nat_less_iff)
qed

lemma take_byte_input:
  assumes "input_is t (x # xs)"
  shows "take_byte t = t\<lparr>m_n := int (length xs), m_b := m_b t OR shl (ucast x) (m_k t), m_p := m_p t + 1, m_k := m_k t + 8\<rparr>"
    and "input_is (t\<lparr>m_n := int (length xs), m_b := b, m_p := m_p t + 1, m_k := k\<rparr>) xs"
proof -
  show "take_byte t = t\<lparr>m_n := int (length xs), m_b := m_b t OR shl (ucast x) (m_k t), m_p := m_p t + 1, m_k := m_k t + 8\<rparr>"
    using assms read_byte_input [OF assms] by (simp add: take_byte_def input_is_def)
  have "take (length xs) (drop (nat (m_p t + 1)) (next_in (m_z t))) = xs"
    using assms take_drop_ConsD(3) [of "length xs" "nat (m_p t)" "next_in (m_z t)" x xs]
    by (simp add: input_is_def nat_add_distrib)
  then show "input_is (t\<lparr>m_n := int (length xs), m_b := b, m_p := m_p t + 1, m_k := k\<rparr>) xs"
    using assms by (simp add: input_is_def)
qed

lemma need_done: "j \<le> m_k t \<Longrightarrow> need_bits j t = (True, t)"
  by (subst need_bits.simps) simp

lemma need_starved: "m_k t < j \<Longrightarrow> m_n t = 0 \<Longrightarrow> need_bits j t = (False, t)"
  by (subst need_bits.simps) simp

text \<open>The state after one more byte.\<close>

definition ate :: "byte \<Rightarrow> mach \<Rightarrow> mach" where
  "ate x t = t\<lparr>m_r := Z_OK, m_n := m_n t - 1, m_b := m_b t OR shl (ucast x) (m_k t), m_p := m_p t + 1,
     m_k := m_k t + 8\<rparr>"

lemma need_more:
  assumes "input_is t (x # xs)"
  shows "m_k t < j \<Longrightarrow> need_bits j t = need_bits j (ate x t)" "input_is (ate x t) xs"
proof -
  have i: "input_is (t\<lparr>m_r := Z_OK\<rparr>) (x # xs)" using assms by (simp add: input_is_def)
  have "m_n t = int (length xs) + 1" using assms by (simp add: input_is_def)
  with take_byte_input [OF i] have a: "take_byte (t\<lparr>m_r := Z_OK\<rparr>) = ate x t" by (simp add: ate_def)
  show "need_bits j t = need_bits j (ate x t)" if "m_k t < j"
    using that \<open>m_n t = _\<close> by (subst need_bits.simps) (simp add: a [simplified])
  show "input_is (ate x t) xs"
    using take_byte_input(2) [OF i, where b = "m_b t OR shl (ucast x) (m_k t)" and k = "m_k t + 8"] \<open>m_n t = _\<close>
    by (simp add: ate_def)
qed

lemma need_bits_3:
  assumes "input_is t (x # xs)" "m_k t = 0" "m_b t = 0"
  shows "need_bits 3 t = (True, t\<lparr>m_r := Z_OK, m_n := int (length xs), m_b := ucast x, m_p := m_p t + 1, m_k := 8\<rparr>)"
proof -
  have "need_bits 3 t = (True, ate x t)"
    using need_more(1) [OF assms(1), of 3] assms(2) by (simp add: need_done ate_def)
  then show ?thesis using assms by (simp add: ate_def shl_def input_is_def)
qed

lemma need_bits_32:
  assumes "input_is t (a # b # c # d # xs)" "m_k t = 0" "m_b t = 0"
  shows "need_bits 32 t = (True,
    t\<lparr>m_r := Z_OK, m_n := int (length xs), m_b := word32 a b c d, m_p := m_p t + 4, m_k := 32\<rparr>)"
proof -
  note i1 = need_more [OF assms(1)]
  note i2 = need_more [OF i1(2)]
  note i3 = need_more [OF i2(2)]
  note i4 = need_more [OF i3(2)]
  have k: "m_k (ate x u) = m_k u + 8" for x u by (simp add: ate_def)
  have "need_bits 32 t = (True, ate d (ate c (ate b (ate a t))))"
    using i1(1) i2(1) i3(1) i4(1) assms(2) by (simp add: k need_done)
  also have "ate d (ate c (ate b (ate a t))) =
     t\<lparr>m_r := Z_OK, m_n := int (length xs), m_b := word32 a b c d, m_p := m_p t + 4, m_k := 32\<rparr>"
    using assms by (simp add: ate_def shl_def word32_def input_is_def)
  finally show ?thesis .
qed

section \<open>Stages\<close>

definition at_block :: "blocks_mode \<Rightarrow> byte list \<Rightarrow> mach \<Rightarrow> bool" where
  "at_block mode inp t \<longleftrightarrow> s_mode (m_s t) = mode \<and> input_is t inp \<and> m_k t = 0 \<and> m_b t = 0"

text \<open>
  The states of \<open>InfBlocks.proc\<close> on a stored stream that is followed by \<open>X\<close>; the second argument
  is what has still to come out of the input.
\<close>

definition header_of :: "byte list \<Rightarrow> byte list" where
  "header_of d = le 2 (int (length d)) @ map NOT (le 2 (int (length d)))"

definition small :: "byte list list \<Rightarrow> bool" where
  "small ds \<longleftrightarrow> (\<forall>d \<in> set ds. length d < 65536)"

definition last_flag :: "byte list list \<Rightarrow> mach \<Rightarrow> bool" where
  "last_flag ds t \<longleftrightarrow> s_last (m_s t) = (if ds = [] then 1 else 0)"

inductive stage :: "byte list \<Rightarrow> byte list \<Rightarrow> mach \<Rightarrow> bool" for X where
  at_type: "at_block TYPE' (stored_stream ds @ X) t \<Longrightarrow> ds \<noteq> [] \<Longrightarrow> small ds \<Longrightarrow> stage X (concat ds) t"
| at_lens: "at_block LENS (header_of d @ d @ stored_stream ds @ X) t \<Longrightarrow> small (d # ds) \<Longrightarrow> last_flag ds t \<Longrightarrow>
    stage X (d @ concat ds) t"
| at_stored: "at_block STORED (d @ stored_stream ds @ X) t \<Longrightarrow> small ds \<Longrightarrow> last_flag ds t \<Longrightarrow> d \<noteq> [] \<Longrightarrow>
    s_left (m_s t) = int (length d) \<Longrightarrow> stage X (d @ concat ds) t"
| at_dry: "at_block DRY X t \<Longrightarrow> stage X [] t"
| at_done: "at_block DONELOCKS X t \<Longrightarrow> pending (cur t) = [] \<Longrightarrow> stage X [] t"

definition stored_measure :: "mach \<Rightarrow> nat" where
  "stored_measure t = 2 * nat (m_n t) + (if s_mode (m_s t) = DRY then 1 else 0)"

text \<open>What a step of \<open>proc\<close> from such a state leads to.\<close>

definition ok_state :: "byte list \<Rightarrow> byte list \<Rightarrow> byte list \<Rightarrow> mach \<Rightarrow> bool" where
  "ok_state X all todo t \<longleftrightarrow> stage X todo t \<and> queue_ok t \<and> code_ok t \<and> stream t @ todo = all \<and>
     length (next_out (m_z t)) = 512"

definition output_full :: "byte list \<Rightarrow> byte list \<Rightarrow> mach \<Rightarrow> bool" where
  "output_full X all t \<longleftrightarrow> m_r t = Z_OK \<and> avail_out (m_z t) = 0 \<and> length (next_out (m_z t)) = 512 \<and>
     (\<exists>todo. stage X todo (load t) \<and> queue_ok (load t) \<and> stream (load t) @ todo = all)"

definition stream_ended :: "byte list \<Rightarrow> byte list \<Rightarrow> mach \<Rightarrow> bool" where
  "stream_ended X all t \<longleftrightarrow> m_r t = Z_STREAM_END \<and> length (next_out (m_z t)) = 512 \<and> written (m_z t) = all \<and> output_ok (m_z t) \<and>
     avail_in (m_z t) = int (length X)"

lemma stage_cong:
  assumes st: "stage X todo t"
    and eq: "m_p t' = m_p t" "m_n t' = m_n t" "m_k t' = m_k t" "m_b t' = m_b t" "next_in (m_z t') = next_in (m_z t)"
    "s_mode (m_s t') = s_mode (m_s t)" "s_left (m_s t') = s_left (m_s t)" "s_last (m_s t') = s_last (m_s t)"
    and p: "s_mode (m_s t) = DONELOCKS \<Longrightarrow> pending (cur t') = pending (cur t)"
  shows "stage X todo t'"
proof -
  have ab: "at_block mode inp t \<Longrightarrow> at_block mode inp t'" for mode inp
    using eq by (simp add: at_block_def input_is_def)
  have lf: "last_flag ds t \<Longrightarrow> last_flag ds t'" for ds using eq by (simp add: last_flag_def)
  from st show ?thesis
  proof cases
    case (at_type ds)
    then show ?thesis using ab stage.at_type by blast
  next
    case (at_lens d ds)
    then show ?thesis using ab lf stage.at_lens by blast
  next
    case (at_stored d ds)
    then show ?thesis using ab lf stage.at_stored eq(7) by metis
  next
    case at_dry
    then show ?thesis using ab stage.at_dry by blast
  next
    case at_done
    then show ?thesis using ab stage.at_done p by (metis at_block_def)
  qed
qed

text \<open>Leaving with a full output buffer.\<close>

lemma leave_full:
  assumes "ok_state X all todo t" "avail_out (m_z t) = 0"
    and "s_mode (m_s t) \<noteq> DONELOCKS"
  shows "\<exists>t'. leave_with t = Some (Inr (Back t')) \<and> output_full X all t'"
proof -
  from assms(1) have q: "queue_ok t" and c: "code_ok t" and st: "stage X todo t" and s: "stream t @ todo = all"
    by (simp_all add: ok_state_def)
  obtain t' where t': "leave t = Inr t'" "queue_ok (load t')" "stream (load t') = stream t"
    "kept (load t') = kept (save t)" "code_ok t \<Longrightarrow> code_ok t'"
    "pending (m_s t') \<noteq> [] \<Longrightarrow> avail_out (m_z t') = 0" "m_s t' = cur (load t')"
    "avail_out (m_z t') \<le> avail_out (m_z t)" "m_r t \<noteq> Z_BUF_ERROR \<Longrightarrow> m_r t' = m_r t"
    "pending (cur t) = [] \<Longrightarrow> pending (m_s t') = []"
    by (rule leave_spec [OF q]) (rule that)
  note k = keptD [OF t'(4)]
  have "stage X todo (load t')"
    by (rule stage_cong [OF st]) (use k assms(3) in \<open>simp_all add: save_def\<close>)
  moreover have "0 \<le> avail_out (m_z (load t'))" using t'(2) by (simp add: queue_ok_def output_ok_def)
  then have "avail_out (m_z t') = 0" using t'(8) assms(2) by (simp add: load_def)
  moreover have "length (next_out (m_z t')) = 512"
    using k(16) assms(1) by (simp add: ok_state_def save_def load_def)
  ultimately show ?thesis
    using t' c s by (auto simp: leave_with_def lift_def ret_def output_full_def code_ok_def)
qed

section \<open>Steps\<close>

definition goes :: "byte list \<Rightarrow> byte list \<Rightarrow> mach \<Rightarrow> bool" where
  "goes X all t \<longleftrightarrow> (\<exists>t' todo. blocks_step t = Some (Inr (Go t')) \<and> ok_state X all todo t' \<and>
     stored_measure t' < stored_measure t) \<or>
   (\<exists>t'. blocks_step t = Some (Inr (Back t')) \<and> (output_full X all t' \<or> stream_ended X all t'))"

lemma stored_stream_Cons:
  "stored_stream (d # ds) @ X = (if ds = [] then 1 else 0) # header_of d @ d @ stored_stream ds @ X"
  by (simp add: stored_block_def header_of_def)

text \<open>A change of mode and bits leaves the window alone.\<close>

lemma queue_ok_cong:
  assumes "queue_ok t" "s_window (m_s t') = s_window (m_s t)" "s_end (m_s t') = s_end (m_s t)"
    "s_read (m_s t') = s_read (m_s t)" "m_q t' = m_q t" "m_m t' = m_m t" "m_z t' = m_z t"
  shows "queue_ok t'" "stream t' = stream t" "pending (cur t') = pending (cur t)"
  using assms by (auto simp: queue_ok_def window_ok_def cur_def room_def stream_def pending_def)

lemma type_goes:
  assumes ok: "ok_state X all todo t" and at: "at_block TYPE' (stored_stream (d # ds) @ X) t"
    and sm: "small (d # ds)" and todo: "todo = d @ concat ds"
  shows "goes X all t"
proof -
  let ?x = "if ds = [] then 1 else 0 :: byte" and ?r = "header_of d @ d @ stored_stream ds @ X"
  have i: "input_is t (?x # ?r)" and k: "m_k t = 0" "m_b t = 0" and m: "s_mode (m_s t) = TYPE'"
    using at by (simp_all add: at_block_def stored_stream_Cons [simplified])
  let ?t = "t\<lparr>m_s := (m_s t)\<lparr>s_last := (if ds = [] then 1 else 0), s_mode := LENS\<rparr>, m_r := Z_OK,
     m_n := int (length ?r), m_b := 0, m_p := m_p t + 1, m_k := 0\<rparr>"
  have "blocks_type t = Some (Inr (Go ?t))"
    using need_bits_3 [OF i k] by (auto simp: blocks_type_def dump_u_def ushr_def set_s_def ret_def Let_def)
  then have step: "blocks_step t = Some (Inr (Go ?t))" by (simp add: blocks_step_def m)
  have inp: "input_is ?t ?r" using take_byte_input(2) [OF i, of 0 0] by (simp add: input_is_def)
  have st: "stage X (d @ concat ds) ?t"
    by (rule stage.at_lens [OF _ sm]) (use inp in \<open>simp_all add: at_block_def last_flag_def\<close>)
  have q: "queue_ok ?t" "stream ?t = stream t"
    using ok by (auto simp: ok_state_def intro: queue_ok_cong)
  have "m_n t = int (length ?r) + 1" using i by (simp add: input_is_def)
  then have "stored_measure ?t < stored_measure t" by (simp add: stored_measure_def m)
  moreover have "ok_state X all todo ?t" using ok st q todo by (simp add: ok_state_def code_ok_def)
  ultimately show ?thesis using step unfolding goes_def by blast
qed

lemma measure_input:
  "0 \<le> m_n t' \<Longrightarrow> m_n t' < m_n t \<Longrightarrow> stored_measure t' < stored_measure t"
  by (auto simp: stored_measure_def)

lemma input_is_drop:
  assumes "input_is t (u @ v)"
  shows "input_is (t\<lparr>m_p := m_p t + int (length u), m_n := int (length v)\<rparr>) v"
proof -
  have "drop (length u) (take (length (u @ v)) (drop (nat (m_p t)) (next_in (m_z t)))) = v"
    using assms by (simp add: input_is_def)
  then show ?thesis using assms by (simp add: input_is_def nat_add_distrib add.commute drop_take)
qed

lemma lens_goes:
  assumes ok: "ok_state X all todo t" and at: "at_block LENS (header_of d @ d @ stored_stream ds @ X) t"
    and sm: "small (d # ds)" and last: "last_flag ds t" and todo: "todo = d @ concat ds"
  shows "goes X all t"
proof -
  define a b where "a = (of_int (int (length d)) :: byte)" and "b = (of_int (int (length d) div 256) :: byte)"
  let ?r = "d @ stored_stream ds @ X" and ?n = "int (length d)"
  have h: "header_of d = [a, b, NOT a, NOT b]" by (simp add: header_of_def le_2 a_def b_def)
  have i: "input_is t (a # b # NOT a # NOT b # ?r)" and k: "m_k t = 0" "m_b t = 0" and m: "s_mode (m_s t) = LENS"
    using at by (simp_all add: at_block_def h)
  let ?mode = "if ?n \<noteq> 0 then STORED else if s_last (m_s t) \<noteq> 0 then DRY else TYPE'"
  let ?t = "t\<lparr>m_s := (m_s t)\<lparr>s_left := ?n, s_mode := ?mode\<rparr>, m_r := Z_OK,
     m_n := int (length ?r), m_b := 0, m_p := m_p t + 4, m_k := 0\<rparr>"
  have n: "?n < 65536" using sm by (simp add: small_def)
  have left: "uint (word32 a b (NOT a) (NOT b) AND 0xffff) = ?n"
    unfolding word32_low uint_two_bytes using length_bytes [OF _ n] by (simp add: a_def b_def)
  have chk: "drop_bit 16 (NOT (word32 a b (NOT a) (NOT b))) AND 0xffff = word32 a b (NOT a) (NOT b) AND 0xffff"
    unfolding word32_low word32_high by simp
  have "blocks_lens t = Some (Inr (Go ?t))"
    using need_bits_32 [OF i k]
    by (simp add: blocks_lens_def chk left set_s_def ret_def Let_def del: of_nat_0_eq_iff)
  then have step: "blocks_step t = Some (Inr (Go ?t))" by (simp add: blocks_step_def m)
  have "input_is t ([a, b, NOT a, NOT b] @ ?r)" using i by simp
  from input_is_drop [OF this] have inp: "input_is ?t ?r" by (simp add: input_is_def)
  have st: "stage X todo ?t"
  proof (cases "d = []")
    case False
    then show ?thesis unfolding todo
      by (intro stage.at_stored) (use inp sm last in \<open>simp_all add: at_block_def last_flag_def small_def\<close>)
  next
    case d: True
    show ?thesis
    proof (cases "ds = []")
      case True
      then have "at_block DRY X ?t" using inp last d by (simp add: at_block_def last_flag_def)
      then show ?thesis using stage.at_dry todo d True by simp
    next
      case False
      then have "at_block TYPE' (stored_stream ds @ X) ?t"
        using inp last d by (simp add: at_block_def last_flag_def)
      then show ?thesis using stage.at_type [OF _ False] sm todo d by (simp add: small_def)
    qed
  qed
  have q: "queue_ok ?t" "stream ?t = stream t"
    using ok by (auto simp: ok_state_def intro: queue_ok_cong)
  have "m_n t = int (length ?r) + 4" using i by (simp add: input_is_def)
  then have "stored_measure ?t < stored_measure t" by (intro measure_input) simp_all
  moreover have "ok_state X all todo ?t" using ok st q by (simp add: ok_state_def code_ok_def)
  ultimately show ?thesis using step unfolding goes_def by blast
qed

lemma dry_goes:
  assumes ok: "ok_state X all todo t" and at: "at_block DRY X t" and todo: "todo = []"
  shows "goes X all t"
proof -
  have q: "queue_ok t" and c: "code_ok t" and s: "stream t = all" and m: "s_mode (m_s t) = DRY"
    using ok at todo by (simp_all add: ok_state_def at_block_def)
  obtain t1 where t1: "inflate_flush (put_q t) = Inr t1" "queue_ok (get_q t1)" "stream (get_q t1) = stream t"
    "kept (get_q t1) = kept t" "code_ok t \<Longrightarrow> code_ok (get_q t1)"
    "pending (m_s t1) \<noteq> [] \<Longrightarrow> avail_out (m_z t1) = 0" "m_s t1 = cur (get_q t1)"
    "avail_out (m_z t1) \<le> avail_out (m_z t)" "m_r t \<noteq> Z_BUF_ERROR \<Longrightarrow> m_r t1 = m_r t"
    "pending (cur t) = [] \<Longrightarrow> pending (m_s t1) = []"
    by (rule flush_cur [OF q]) (rule that)
  let ?t = "get_q t1"
  note k = keptD [OF t1(4)]
  have at1: "at_block DRY X ?t" using at k by (simp add: at_block_def input_is_def)
  have ok1: "ok_state X all [] ?t"
    using stage.at_dry [OF at1] t1 c s k(16) ok by (simp add: ok_state_def)
  have emp: "s_read (m_s ?t) = s_write (m_s ?t) \<longleftrightarrow> pending (m_s t1) = []"
  proof -
    have "window_ok (m_s t1)" using t1(2,7) by (simp add: queue_ok_def)
    from length_pending [OF this] show ?thesis
      using \<open>window_ok (m_s t1)\<close> by (auto simp: get_q_def window_ok_def split: if_splits)
  qed
  show ?thesis
  proof (cases "pending (m_s t1) = []")
    case True
    let ?u = "?t\<lparr>m_s := (m_s ?t)\<lparr>s_mode := DONELOCKS\<rparr>\<rparr>"
    have step: "blocks_step t = Some (Inr (Go ?u))"
      using True emp t1(1) by (simp add: blocks_step_def m blocks_dry_def lift_def ret_def set_s_def Let_def)
    have qu: "queue_ok ?u" "stream ?u = stream ?t" "pending (cur ?u) = pending (cur ?t)"
      using queue_ok_cong [OF t1(2), of ?u] by simp_all
    have "at_block DONELOCKS X ?u" using at1 by (simp add: at_block_def input_is_def)
    then have "stage X [] ?u" using True t1(7) qu by (intro stage.at_done) simp_all
    then have "ok_state X all [] ?u" using qu ok1 by (simp add: ok_state_def code_ok_def)
    moreover have "stored_measure ?u < stored_measure t" using k m by (simp add: stored_measure_def)
    ultimately show ?thesis using step unfolding goes_def by blast
  next
    case False
    then have "avail_out (m_z ?t) = 0" using t1(6) by (simp add: get_q_def)
    then obtain t' where "leave_with ?t = Some (Inr (Back t'))" "output_full X all t'"
      using leave_full [OF ok1] at1 by (auto simp: at_block_def)
    moreover have "blocks_step t = leave_with ?t"
      using False emp t1(1) by (simp add: blocks_step_def m blocks_dry_def lift_def Let_def)
    ultimately show ?thesis unfolding goes_def by auto
  qed
qed

lemma done_goes:
  assumes ok: "ok_state X all todo t" and at: "at_block DONELOCKS X t" and "pending (cur t) = []" "todo = []"
  shows "goes X all t"
proof -
  let ?t = "t\<lparr>m_r := Z_STREAM_END\<rparr>"
  have q: "queue_ok ?t" "stream ?t = stream t" "pending (cur ?t) = pending (cur t)"
    using queue_ok_cong [of t ?t] ok by (simp_all add: ok_state_def)
  obtain t' where t': "leave ?t = Inr t'" "queue_ok (load t')" "stream (load t') = stream ?t"
    "kept (load t') = kept (save ?t)" "code_ok ?t \<Longrightarrow> code_ok t'"
    "pending (m_s t') \<noteq> [] \<Longrightarrow> avail_out (m_z t') = 0" "m_s t' = cur (load t')"
    "avail_out (m_z t') \<le> avail_out (m_z ?t)" "m_r ?t \<noteq> Z_BUF_ERROR \<Longrightarrow> m_r t' = m_r ?t"
    "pending (cur ?t) = [] \<Longrightarrow> pending (m_s t') = []"
    by (rule leave_spec [OF q(1)]) (rule that)
  have step: "blocks_step t = Some (Inr (Back t'))"
    using at t'(1) by (simp add: blocks_step_def at_block_def leave_with_def lift_def ret_def)
  note k = keptD [OF t'(4)]
  have ld: "m_z (load t') = m_z t'" "pending (cur (load t')) = []"
    using t'(7,10) assms(3) q(3) by (simp_all add: load_def)
  have "written (m_z t') = all"
    using t'(3) ok q(2) assms(4) ld by (simp add: stream_def ok_state_def)
  moreover have "avail_in (m_z t') = int (length X)"
    using k(15) at by (simp add: ld(1) save_def at_block_def input_is_def)
  moreover have "output_ok (m_z t')" using t'(2) ld(1) by (simp add: queue_ok_def)
  moreover have "m_r t' = Z_STREAM_END" using t'(9) by simp
  moreover have "length (next_out (m_z t')) = 512"
    using k(16) ok by (simp add: ld(1) save_def ok_state_def)
  ultimately have "stream_ended X all t'" by (simp add: stream_ended_def)
  with step show ?thesis unfolding goes_def by blast
qed

lemma room_window: "room (s\<lparr>s_window := w\<rparr>) q = room s q"
  by (simp add: room_def)

lemma store_bytes_step:
  assumes "arr_set (s_window (m_s t)) (m_q t) (read_buf (m_z t) (m_p t) x) = Inr w"
    "s_left (m_s t) - x = left" "m_n t - x = n"
  shows "store_bytes x t = Some (Inr (Go (t\<lparr>m_s := (m_s t)\<lparr>s_window := w, s_left := left,
       s_mode := (if left \<noteq> 0 then s_mode (m_s t) else if s_last (m_s t) \<noteq> 0 then DRY else TYPE')\<rparr>,
     m_r := Z_OK, m_p := m_p t + x, m_n := n, m_q := m_q t + x, m_m := m_m t - x\<rparr>)))"
  using assms(1) unfolding assms(2,3) [symmetric] store_bytes_def
  by (simp add: lift_def ret_def set_s_def Let_def)

lemma stored_goes:
  assumes ok: "ok_state X all todo t" and at: "at_block STORED (d @ stored_stream ds @ X) t"
    and sm: "small ds" and last: "last_flag ds t" and d: "d \<noteq> []" and left: "s_left (m_s t) = int (length d)"
    and todo: "todo = d @ concat ds"
  shows "goes X all t"
proof -
  have q: "queue_ok t" and c: "code_ok t" and s: "stream t @ todo = all" and st: "stage X todo t"
    and m: "s_mode (m_s t) = STORED"
    using ok at by (simp_all add: ok_state_def at_block_def)
  have d0: "0 < length d" using d by simp
  have "m_n t = int (length d) + int (length (stored_stream ds @ X))"
    using at by (simp add: at_block_def input_is_def)
  then have n: "m_n t \<noteq> 0" using d0 by linarith
  obtain room1 t1 where t1: "make_room t = Inr (room1, t1)" "queue_ok t1" "stream t1 = stream t" "kept t1 = kept t"
    "code_ok t1" "room1 \<Longrightarrow> 0 < m_m t1" "\<not> room1 \<Longrightarrow> avail_out (m_z t1) = 0"
    "avail_out (m_z t1) \<le> avail_out (m_z t)"
    by (rule make_room_spec [OF q c]) (rule that)
  note k = keptD [OF t1(4)]
  have ok1: "ok_state X all todo t1"
    using stage_cong [OF st, of t1] k m t1 s ok by (simp add: ok_state_def)
  show ?thesis
  proof (cases room1)
    case False
    then obtain t' where "leave_with t1 = Some (Inr (Back t'))" "output_full X all t'"
      using leave_full [OF ok1] t1(7) k m by auto
    moreover have "blocks_step t = leave_with t1"
      using False t1(1) n by (simp add: blocks_step_def m blocks_stored_def lift_def)
    ultimately show ?thesis unfolding goes_def by auto
  next
    case True
    define x where "x = min (min (s_left (m_s t1)) (m_n t1)) (m_m t1)"
    let ?xs = "take (nat x) d" and ?d = "drop (nat x) d" and ?r = "stored_stream ds @ X"
    have inp: "input_is t1 (d @ ?r)" and at1: "m_k t1 = 0" "m_b t1 = 0"
      using at k by (simp_all add: at_block_def input_is_def)
    have x: "0 < x" "x \<le> int (length d)" "x \<le> m_m t1"
      using True t1(6) left k d0 inp by (auto simp: x_def input_is_def)
    have lx: "length ?xs = nat x" "int (length ?xs) = x" using x by auto
    have fits: "int (length ?xs) \<le> m_m t1" using lx x by simp
    have rb: "read_buf (m_z t1) (m_p t1) x = ?xs"
    proof -
      have tk: "take (length (d @ ?r)) (drop (nat (m_p t1)) (next_in (m_z t1))) = d @ ?r" and p: "0 \<le> m_p t1"
        using inp by (simp_all add: input_is_def)
      have "length (take (length (d @ ?r)) (drop (nat (m_p t1)) (next_in (m_z t1)))) = length (d @ ?r)"
        by (simp only: tk)
      then have "m_p t1 + x \<le> int (length (next_in (m_z t1)))" using x p by simp
      moreover have "take (nat x) (drop (nat (m_p t1)) (next_in (m_z t1))) = ?xs"
      proof -
        have "take (nat x) (take (length (d @ ?r)) (drop (nat (m_p t1)) (next_in (m_z t1)))) = ?xs"
          unfolding tk using x by simp
        then show ?thesis using x by (simp add: min_absorb1)
      qed
      ultimately show ?thesis using rel_slice_exact [of "m_p t1" x "next_in (m_z t1)"] x p
        by (simp add: read_buf_def)
    qed
    obtain w where w: "arr_set (s_window (m_s t1)) (m_q t1) ?xs = Inr w" "length w = length (s_window (m_s t1))"
      "pending (cur (t1\<lparr>m_s := (m_s t1)\<lparr>s_window := w\<rparr>, m_q := m_q t1 + int (length ?xs)\<rparr>)) = pending (cur t1) @ ?xs"
      "window_ok (cur (t1\<lparr>m_s := (m_s t1)\<lparr>s_window := w\<rparr>, m_q := m_q t1 + int (length ?xs)\<rparr>))"
      "room (m_s t1) (m_q t1 + int (length ?xs)) = m_m t1 - int (length ?xs)"
      by (rule put_spec [OF t1(2) fits]) (rule that)
    let ?mode = "if ?d \<noteq> [] then STORED else if s_last (m_s t1) \<noteq> 0 then DRY else TYPE'"
    let ?t = "t1\<lparr>m_s := (m_s t1)\<lparr>s_window := w, s_left := int (length ?d), s_mode := ?mode\<rparr>, m_r := Z_OK,
      m_p := m_p t1 + x, m_n := int (length (?d @ ?r)), m_q := m_q t1 + x, m_m := m_m t1 - x\<rparr>"
    have lf: "s_left (m_s t1) - x = int (length ?d)" "m_n t1 - x = int (length (?d @ ?r))"
      using x left k inp by (auto simp: input_is_def)
    have "blocks_stored t = Some (Inr (Go ?t))"
    proof -
      have "blocks_stored t = store_bytes x t1"
        using t1(1) \<open>room1\<close> n by (simp add: blocks_stored_def lift_def x_def)
      also have "\<dots> = Some (Inr (Go ?t))"
        using store_bytes_step [of t1 x w, OF _ lf] w(1) rb k m lx(2) by (simp del: append_assoc)
      finally show ?thesis .
    qed
    then have step: "blocks_step t = Some (Inr (Go ?t))" by (simp add: blocks_step_def m)
    have "input_is t1 (?xs @ ?d @ ?r)" using inp unfolding append_assoc [symmetric] append_take_drop_id .
    from input_is_drop [OF this, unfolded lx(2)] have it: "input_is ?t (?d @ ?r)" by (simp add: input_is_def)
    have st': "stage X (?d @ concat ds) ?t"
    proof (cases "?d = []")
      case False
      then have "at_block STORED (?d @ ?r) ?t" using it at1 by (simp add: at_block_def)
      moreover have "last_flag ds ?t" using last k by (simp add: last_flag_def)
      moreover have "s_left (m_s ?t) = int (length ?d)" by simp
      ultimately show ?thesis using False sm by (intro stage.at_stored)
    next
      case dd: True
      show ?thesis
      proof (cases "ds = []")
        case True
        then have "at_block DRY X ?t" using it at1 last k dd by (simp add: at_block_def last_flag_def)
        then show ?thesis unfolding dd using stage.at_dry True by simp
      next
        case False
        then have "at_block TYPE' (stored_stream ds @ X) ?t"
          using it at1 last k dd by (simp add: at_block_def last_flag_def)
        then show ?thesis unfolding dd using stage.at_type [OF _ False sm] by simp
      qed
    qed
    let ?u = "t1\<lparr>m_s := (m_s t1)\<lparr>s_window := w\<rparr>, m_q := m_q t1 + x, m_m := m_m t1 - x\<rparr>"
    note w' = w(3-5) [unfolded lx(2)]
    have "cur ?u = cur (t1\<lparr>m_s := (m_s t1)\<lparr>s_window := w\<rparr>, m_q := m_q t1 + x\<rparr>)" by (simp add: cur_def)
    then have q0: "queue_ok ?u" "stream ?u = stream t1 @ ?xs"
      using w' t1(2) room_window by (simp_all add: queue_ok_def stream_def)
    then have q': "queue_ok ?t" "stream ?t = stream t1 @ ?xs"
      using queue_ok_cong [OF q0(1), of ?t] by simp_all
    have "int (length (?d @ ?r)) < m_n t" using lf(2) x(1) k(2) by linarith
    then have "stored_measure ?t < stored_measure t"
      using measure_input [of ?t t] by simp
    moreover have "stream ?t @ ?d @ concat ds = all"
      unfolding q'(2) t1(3) s [symmetric] todo by simp
    then have "ok_state X all (?d @ concat ds) ?t"
      using st' q'(1) ok1 by (simp only: ok_state_def code_ok_def) simp
    ultimately show ?thesis using step unfolding goes_def by blast
  qed
qed

theorem step_goes:
  assumes "ok_state X all todo t"
  shows "goes X all t"
proof -
  from assms have "stage X todo t" by (simp add: ok_state_def)
  then show ?thesis
  proof cases
    case (at_type ds)
    then obtain d ds' where "ds = d # ds'" by (cases ds) auto
    with at_type show ?thesis using type_goes [OF assms, of d ds'] by simp
  next
    case (at_lens d ds)
    then show ?thesis using lens_goes [OF assms] by blast
  next
    case (at_stored d ds)
    then show ?thesis using stored_goes [OF assms] by blast
  next
    case at_dry
    then show ?thesis using dry_goes [OF assms] by blast
  next
    case at_done
    then show ?thesis using done_goes [OF assms] by blast
  qed
qed

lemma blocks_loop:
  assumes "ok_state X all todo t"
  shows "\<exists>t'. loop blocks_step t = Some (Inr t') \<and> (output_full X all t' \<or> stream_ended X all t')"
  using assms
proof (induction "stored_measure t" arbitrary: t todo rule: less_induct)
  case less
  from step_goes [OF less.prems] consider
    (go) t' todo' where "blocks_step t = Some (Inr (Go t'))" "ok_state X all todo' t'"
      "stored_measure t' < stored_measure t"
  | (stop) t' where "blocks_step t = Some (Inr (Back t'))" "output_full X all t' \<or> stream_ended X all t'"
    unfolding goes_def by blast
  then show ?case
  proof cases
    case go
    then show ?thesis using less.hyps [of t' todo'] loop_Go [of blocks_step t t'] by simp
  next
    case stop
    then show ?thesis using loop_Back [of blocks_step t t'] by blast
  qed
qed

section \<open>Inflater.append\<close>

definition entering :: "blocks \<Rightarrow> zstream \<Rightarrow> mach" where
  "entering s z = enter s z Z_BUF_ERROR"

text \<open>
  An inflater in the middle of a stored stream that is followed by \<open>X\<close>, with \<open>all\<close> still to deliver.
\<close>

definition running :: "byte list \<Rightarrow> byte list \<Rightarrow> inflater \<Rightarrow> bool" where
  "running X all f \<longleftrightarrow> length (next_out (z_of f)) = 512 \<and>
     (\<exists>i s todo. zs_istate (f_zs f) = Some i \<and> i_mode i = BLOCKS \<and> i_blocks i = Some s \<and>
        stage X todo (entering s (z_of f)) \<and> window_ok s \<and> pending s @ todo = all)"

definition finished :: "inflater \<Rightarrow> bool" where
  "finished f \<longleftrightarrow> (\<exists>i. zs_istate (f_zs f) = Some i \<and> i_mode i = DONE)"

lemma entering_simps:
  "m_s (entering s z) = s" "m_z (entering s z) = z" "m_p (entering s z) = next_in_index z"
  "m_n (entering s z) = avail_in z" "m_b (entering s z) = s_bitb s" "m_k (entering s z) = s_bitk s"
  "m_q (entering s z) = s_write s" "m_m (entering s z) = room s (s_write s)" "m_r (entering s z) = Z_BUF_ERROR"
  "cur (entering s z) = s"
  by (simp_all add: entering_def enter_def load_def cur_def)

text \<open>Emptying the output buffer does not disturb the stream.\<close>

lemma fresh_running:
  assumes "running X all f"
  shows "running X all (fresh_buffer f)" "next_out_index (z_of (fresh_buffer f)) = 0"
    "avail_out (z_of (fresh_buffer f)) = 512"
proof -
  let ?f = "fresh_buffer f"
  obtain i s todo where r: "zs_istate (f_zs f) = Some i" "i_mode i = BLOCKS" "i_blocks i = Some s"
    "stage X todo (entering s (z_of f))" "window_ok s" "pending s @ todo = all" "length (next_out (z_of f)) = 512"
    using assms by (auto simp: running_def)
  have z: "avail_in (z_of ?f) = avail_in (z_of f)" "next_in (z_of ?f) = next_in (z_of f)"
    "next_out (z_of ?f) = next_out (z_of f)" "zs_istate (f_zs ?f) = zs_istate (f_zs f)"
    "next_in_index (z_of ?f) = next_in_index (z_of f) \<or> avail_in (z_of f) = 0 \<and> next_in_index (z_of ?f) = 0"
    by (auto simp: fresh_buffer_def in_z_def z_of_def Let_def)
  show "next_out_index (z_of ?f) = 0" "avail_out (z_of ?f) = 512"
    by (auto simp: fresh_buffer_def in_z_def z_of_def Let_def)
  have ii: "input_is (entering s (z_of f)) inp \<Longrightarrow> input_is (entering s (z_of ?f)) inp" for inp
    using z by (auto simp: input_is_def entering_simps)
  have ab: "at_block mode inp (entering s (z_of f)) \<Longrightarrow> at_block mode inp (entering s (z_of ?f))" for mode inp
    using ii by (simp add: at_block_def entering_simps)
  have "stage X todo (entering s (z_of ?f))"
    using r(4)
  proof cases
    case (at_type ds)
    then show ?thesis using ab stage.at_type by blast
  next
    case (at_lens d ds)
    then show ?thesis using ab stage.at_lens by (auto simp: last_flag_def entering_simps)
  next
    case (at_stored d ds)
    then show ?thesis using ab stage.at_stored by (auto simp: last_flag_def entering_simps)
  next
    case at_dry
    then show ?thesis using ab stage.at_dry by blast
  next
    case at_done
    then show ?thesis using ab stage.at_done by (auto simp: entering_simps)
  qed
  then show "running X all ?f" using r z by (auto simp: running_def)
qed

text \<open>One call of \<open>inflate\<close>.\<close>

lemma inflate_round:
  assumes run: "running X all f" and z0: "next_out_index (z_of f) = 0" "avail_out (z_of f) = 512"
  obtains (full) s where "zs_inflate Z_NO_FLUSH (f_zs f) = Some (Inr (Z_OK, s))" "avail_out (zs_z s) = 0"
      "next_out_index (zs_z s) = 512" "written (zs_z s) = take 512 all" "512 \<le> length all"
      "running X (drop 512 all) (f\<lparr>f_zs := s\<rparr>)"
  | (ended) s where "zs_inflate Z_NO_FLUSH (f_zs f) = Some (Inr (Z_STREAM_END, s))" "written (zs_z s) = all"
      "avail_out (zs_z s) = 512 - int (length all)" "avail_in (zs_z s) = int (length X)" "length all \<le> 512"
      "finished (f\<lparr>f_zs := s\<rparr>)"
proof -
  obtain i s todo where r: "zs_istate (f_zs f) = Some i" "i_mode i = BLOCKS" "i_blocks i = Some s"
    "stage X todo (entering s (z_of f))" "window_ok s" "pending s @ todo = all" "length (next_out (z_of f)) = 512"
    using run by (auto simp: running_def)
  let ?t = "entering s (z_of f)"
  have ok: "ok_state X all todo ?t"
    using r z0 by (simp add: ok_state_def queue_ok_def entering_simps output_ok_def code_ok_def stream_def written_def)
  obtain t where t: "loop blocks_step ?t = Some (Inr t)" "output_full X all t \<or> stream_ended X all t"
    using blocks_loop [OF ok] by blast
  have proc: "blocks_proc s (z_of f) Z_BUF_ERROR = Some (Inr t)" using t(1) by (simp add: blocks_proc_def entering_def)
  let ?x = "\<lparr>x_i = i, x_z = z_of f, x_r = Z_BUF_ERROR, x_f = Z_OK\<rparr>"
  have infl: "zs_inflate Z_NO_FLUSH (f_zs f) = pbind (loop inflate_step ?x) (\<lambda>x.
      ret (x_r x, \<lparr>zs_istate = Some (x_i x), zs_z = x_z x\<rparr>))"
    using r(1) by (simp add: zs_inflate_def inflate_inflate_def z_of_def)
  have len: "length (next_out (m_z t)) = 512" using t(2) by (auto simp: output_full_def stream_ended_def)
  from t(2) show thesis
  proof
    assume o: "output_full X all t"
    let ?i = "i\<lparr>i_blocks := Some (m_s t)\<rparr>"
    have "inflate_step ?x = Some (Inr (Back \<lparr>x_i = ?i, x_z = m_z t, x_r = Z_OK, x_f = Z_OK\<rparr>))"
      using o proc r(2,3) by (simp add: inflate_step_def output_full_def ret_def Let_def)
    then have "loop inflate_step ?x = Some (Inr \<lparr>x_i = ?i, x_z = m_z t, x_r = Z_OK, x_f = Z_OK\<rparr>)"
      by (rule loop_Back)
    then have z: "zs_inflate Z_NO_FLUSH (f_zs f) = Some (Inr (Z_OK, \<lparr>zs_istate = Some ?i, zs_z = m_z t\<rparr>))"
      unfolding infl by (simp add: ret_def)
    obtain todo' where td: "stage X todo' (load t)" "queue_ok (load t)" "stream (load t) @ todo' = all"
      using o by (auto simp: output_full_def)
    have ld: "entering (m_s t) (m_z t) = (load t)\<lparr>m_r := Z_BUF_ERROR\<rparr>" "m_z (load t) = m_z t"
      "cur (load t) = m_s t"
      by (simp_all add: entering_def enter_def load_def cur_def)
    have st: "stage X todo' (entering (m_s t) (m_z t))"
      unfolding ld by (rule stage_cong [OF td(1)]) (simp_all add: cur_def)
    have idx: "next_out_index (m_z t) = 512"
      using td(2) o len by (simp add: queue_ok_def output_ok_def ld output_full_def)
    have w: "length (written (m_z t)) = 512" using idx len by (simp add: written_def)
    have all: "all = written (m_z t) @ pending (m_s t) @ todo'" using td(3) by (simp add: stream_def ld)
    have "running X (drop 512 all) (f\<lparr>f_zs := \<lparr>zs_istate = Some ?i, zs_z = m_z t\<rparr>\<rparr>)"
      using st td(2) r(2) len w by (auto simp: running_def z_of_def all queue_ok_def ld)
    then show thesis using full [OF z] o idx w all by (simp add: output_full_def)
  next
    assume e: "stream_ended X all t"
    let ?i = "i\<lparr>i_blocks := Some (blocks_reset (m_s t)), i_was := 0, i_mode := DONE\<rparr>"
    let ?y = "\<lparr>x_i = ?i, x_z = m_z t, x_r = Z_OK, x_f = Z_OK\<rparr>"
    have "inflate_step ?x = Some (Inr (Go ?y))"
      using e proc r(2,3) by (simp add: inflate_step_def stream_ended_def ret_def Let_def)
    then have "loop inflate_step ?x = loop inflate_step ?y" by (rule loop_Go)
    also have "\<dots> = Some (Inr (?y\<lparr>x_r := Z_STREAM_END\<rparr>))"
      by (rule loop_Back) (simp add: inflate_step_def ret_def)
    finally have z: "zs_inflate Z_NO_FLUSH (f_zs f) = Some (Inr (Z_STREAM_END, \<lparr>zs_istate = Some ?i, zs_z = m_z t\<rparr>))"
      unfolding infl by (simp add: ret_def)
    have a: "output_ok (m_z t)" "written (m_z t) = all" "avail_in (m_z t) = int (length X)"
      using e by (simp_all add: stream_ended_def)
    then have "length all = nat (next_out_index (m_z t))" using len by (auto simp: written_def output_ok_def)
    then show thesis using ended [OF z] a len by (simp add: output_ok_def finished_def nat_le_iff)
  qed
qed

lemma fresh_finished:
  assumes "finished f"
  shows "finished (fresh_buffer f)" "next_out_index (z_of (fresh_buffer f)) = 0"
    "avail_out (z_of (fresh_buffer f)) = 512" "avail_in (z_of (fresh_buffer f)) = avail_in (z_of f)"
    "zs_inflate Z_NO_FLUSH (f_zs (fresh_buffer f)) = Some (Inr (Z_STREAM_END, f_zs (fresh_buffer f)))"
proof -
  show *: "finished (fresh_buffer f)" 
    using assms by (auto simp: finished_def fresh_buffer_def in_z_def z_of_def Let_def)
  show "next_out_index (z_of (fresh_buffer f)) = 0" "avail_out (z_of (fresh_buffer f)) = 512"
    "avail_in (z_of (fresh_buffer f)) = avail_in (z_of f)"
    by (auto simp: fresh_buffer_def in_z_def z_of_def Let_def)
  obtain i where i: "zs_istate (f_zs (fresh_buffer f)) = Some i" "i_mode i = DONE" using * by (auto simp: finished_def)
  have "loop inflate_step \<lparr>x_i = i, x_z = z, x_r = r, x_f = g\<rparr> = Some (Inr \<lparr>x_i = i, x_z = z, x_r = Z_STREAM_END, x_f = g\<rparr>)"
    for z r g by (rule loop_Back) (simp add: inflate_step_def ret_def i(2))
  then show "zs_inflate Z_NO_FLUSH (f_zs (fresh_buffer f)) = Some (Inr (Z_STREAM_END, f_zs (fresh_buffer f)))"
    using i(1) by (cases "f_zs (fresh_buffer f)") (simp add: zs_inflate_def inflate_inflate_def ret_def)
qed

text \<open>A round after the end of the stream delivers nothing and consumes nothing.\<close>

lemma append_finished:
  assumes "finished (a_f a)"
  shows "\<exists>a'. finished (a_f a') \<and> avail_in (z_of (a_f a')) = avail_in (z_of (a_f a)) \<and> a_out a' = a_out a \<and>
    append_step len a = Some (Inr (if len = 512 then Back (Minus_one, a')
      else if avail_in (z_of (a_f a)) > 0 then Go a' else Back (Array (a_out a'), a')))"
proof -
  note f = fresh_finished [OF assms]
  let ?f = "fresh_buffer (a_f a)"
  have eta: "?f\<lparr>f_zs := f_zs ?f\<rparr> = ?f" by simp
  show ?thesis
  proof (cases "len = 512")
    case True
    then show ?thesis using f
      by (intro exI [of _ "a\<lparr>a_f := ?f\<rparr>"]) (simp add: append_step_def z_of_def ret_def Let_def)
  next
    case False
    let ?z = "z_of ?f"
    let ?moved = "next_in_index ?z > 0 \<and> next_in_index ?z \<noteq> a_last a"
    let ?a = "a\<lparr>a_f := ?f, a_last := (if ?moved then next_in_index ?z else a_last a),
       a_progress := (if ?moved then a_progress a @ [next_in_index ?z] else a_progress a)\<rparr>"
    show ?thesis using f False
      by (intro exI [of _ ?a]) (simp add: append_step_def z_of_def ret_def Let_def)
  qed
qed

text \<open>Bytes after the end of the stream are never consumed.\<close>

lemma append_spins:
  assumes "finished (a_f a)" "0 < avail_in (z_of (a_f a))" "len \<noteq> 512"
  shows "loop (append_step len) a = None"
proof (rule loop_spins [where I = "\<lambda>a :: appending. finished (a_f a) \<and> 0 < avail_in (z_of (a_f a))"])
  fix a :: appending
  assume "finished (a_f a) \<and> 0 < avail_in (z_of (a_f a))"
  then show "\<exists>y. append_step len a = Some (Inr (Go y)) \<and> finished (a_f y) \<and> 0 < avail_in (z_of (a_f y))"
    using append_finished [of a len] assms(3) by auto
qed (use assms in simp)

text \<open>How \<open>append\<close> ends on a stored stream of \<open>n\<close> bytes in a chunk of \<open>len\<close> bytes.\<close>

definition lost :: "int \<Rightarrow> nat \<Rightarrow> bool" where
  "lost len n \<longleftrightarrow> len + int n mod 512 = 512"

definition outcome :: "byte list \<Rightarrow> int \<Rightarrow> byte list \<Rightarrow> nat \<Rightarrow> (appended \<times> appending) prog \<Rightarrow> bool" where
  "outcome X len result n p \<longleftrightarrow>
     (if lost len n \<or> X \<noteq> [] \<and> len = 512 then \<exists>a. p = Some (Inr (Minus_one, a))
      else if X = [] then \<exists>a. p = Some (Inr (Array result, a)) else p = None)"

lemma finished_outcome:
  assumes "finished (a_f a)" "avail_in (z_of (a_f a)) = int (length X)" "a_out a = result"
    and "n mod 512 = 0 \<or> X \<noteq> [] \<and> \<not> lost len n"
  shows "outcome X len result n (loop (append_step len) a)"
proof -
  have n: "int n mod 512 = int (n mod 512)" by (simp add: of_nat_mod)
  have l: "lost len n \<Longrightarrow> len = 512" using assms(4) by (auto simp: lost_def n)
  have m: "n mod 512 = 0 \<Longrightarrow> len = 512 \<Longrightarrow> lost len n" by (simp add: lost_def n)
  show ?thesis
  proof (cases "len = 512")
    case True
    then show ?thesis using append_finished [OF assms(1), of len] m assms(4)
      by (auto simp: outcome_def dest: loop_Back)
  next
    case False
    show ?thesis
    proof (cases "X = []")
      case True
      then show ?thesis using append_finished [OF assms(1), of len] l False assms(2,3)
        by (auto simp: outcome_def dest: loop_Back)
    next
      case X: False
      then show ?thesis using append_spins [OF assms(1) _ False] assms(2) l False by (auto simp: outcome_def)
    qed
  qed
qed

lemma append_running:
  assumes "running X all (a_f a)" "0 < len"
  shows "outcome X len (a_out a @ all) (length all) (loop (append_step len) a)"
  using assms(1)
proof (induction "length all" arbitrary: all a rule: less_induct)
  case less
  let ?f = "fresh_buffer (a_f a)"
  note f = fresh_running [OF less.prems]
  have [simp]: "f_zs (?f\<lparr>f_zs := s\<rparr>) = s" for s by simp
  from f show ?case
  proof (cases rule: inflate_round)
    case (full s)
    let ?z = "zs_z s"
    let ?moved = "next_in_index ?z > 0 \<and> next_in_index ?z \<noteq> a_last a"
    let ?a = "a\<lparr>a_f := ?f\<lparr>f_zs := s\<rparr>, a_out := a_out a @ take 512 all,
       a_last := (if ?moved then next_in_index ?z else a_last a),
       a_progress := (if ?moved then a_progress a @ [next_in_index ?z] else a_progress a)\<rparr>"
    have tk: "take 512 (next_out ?z) = take 512 all" using full(3,4) by (simp add: written_def)
    have "append_step len a = Some (Inr (Go ?a))"
      using full(1,2,3) assms(2) tk by (simp add: append_step_def Let_def ret_def)
    then have "loop (append_step len) a = loop (append_step len) ?a" by (rule loop_Go)
    moreover have "outcome X len (a_out ?a @ drop 512 all) (length (drop 512 all)) (loop (append_step len) ?a)"
      using full(5,6) by (intro less.hyps) simp_all
    moreover have "int (length all - 512) mod 512 = int (length all) mod 512"
      using full(5) by (simp add: of_nat_diff mod_diff_right_eq [symmetric])
    ultimately show ?thesis by (simp add: outcome_def lost_def)
  next
    case (ended s)
    let ?z = "zs_z s"
    let ?moved = "next_in_index ?z > 0 \<and> next_in_index ?z \<noteq> a_last a"
    let ?a = "a\<lparr>a_f := ?f\<lparr>f_zs := s\<rparr>, a_out := a_out a @ all,
       a_last := (if ?moved then next_in_index ?z else a_last a),
       a_progress := (if ?moved then a_progress a @ [next_in_index ?z] else a_progress a)\<rparr>"
    have tk: "take (nat (next_out_index ?z)) (next_out ?z) = all" using ended(2) by (simp add: written_def)
    have l: "avail_out ?z = len \<longleftrightarrow> lost len (length all) \<and> length all < 512"
      using ended(3,5) assms(2) by (cases "length all = 512") (auto simp: lost_def)
    have step: "append_step len a = Some (Inr (if avail_out ?z = len then Back (Minus_one, a\<lparr>a_f := ?f\<lparr>f_zs := s\<rparr>\<rparr>)
       else if avail_in ?z > 0 \<or> avail_out ?z = 0 then Go ?a else Back (Array (a_out a @ all), ?a)))"
      using ended(1) tk by (simp add: append_step_def Let_def ret_def)
    consider (minus) "avail_out ?z = len"
      | (more) "avail_out ?z \<noteq> len" "avail_in ?z > 0 \<or> avail_out ?z = 0"
      | (stop) "avail_out ?z \<noteq> len" "avail_in ?z = 0" "avail_out ?z \<noteq> 0"
      using ended(4) by fastforce
    then show ?thesis
    proof cases
      case minus
      then show ?thesis using step l loop_Back [of "append_step len" a] by (simp add: outcome_def)
    next
      case more
      then have "loop (append_step len) a = loop (append_step len) ?a" using step by (intro loop_Go) simp
      moreover have "outcome X len (a_out a @ all) (length all) (loop (append_step len) ?a)"
        by (rule finished_outcome) (use ended(3,4,5,6) more l in \<open>auto simp: z_of_def\<close>)
      ultimately show ?thesis by simp
    next
      case stop
      then have "\<not> lost len (length all)" "X = []" using ended(3,4,5) l by auto
      then show ?thesis using stop step loop_Back [of "append_step len" a] by (auto simp: outcome_def)
    qed
  qed
qed

section \<open>Theorems\<close>

definition inflate_chunk :: "byte list \<Rightarrow> (appended \<times> int list \<times> inflater) prog" where
  "inflate_chunk data = pbind (lift Inflater) (inflater_append data)"

lemma new_inflater:
  obtains f i where "Inflater = Inr f" "zs_istate (f_zs f) = Some i" "i_mode i = BLOCKS"
    "i_blocks i = Some (InfBlocks 32768)" "length (next_out (z_of f)) = 512"
proof -
  have "blocks_reset (InfBlocks w) = InfBlocks w" for w by (simp add: blocks_reset_def InfBlocks_def)
  then show thesis
    by (intro that) (auto simp: Inflater_def zs_inflateInit_def inflateInit_def inflateReset_def new_stream_def
      new_Inflate_def Let_def z_of_def)
qed

lemma append_stored:
  assumes "ds \<noteq> []" "small ds" "data = stored_stream ds @ X"
  shows "\<exists>p. outcome X (int (length data)) (concat ds) (length (concat ds)) p \<and>
    inflate_chunk data = pbind p (\<lambda>(res, a). ret (res, a_progress a, a_f a))"
proof -
  obtain f i where f: "Inflater = Inr f" "zs_istate (f_zs f) = Some i" "i_mode i = BLOCKS"
    "i_blocks i = Some (InfBlocks 32768)" "length (next_out (z_of f)) = 512" by (rule new_inflater)
  let ?f = "in_z (\<lambda>z. z\<lparr>next_in_index := 0, next_in := data, avail_in := int (length data)\<rparr>) f"
  let ?a = "\<lparr>a_f = ?f, a_out = [], a_last = 0, a_progress = []\<rparr>"
  have d: "data \<noteq> []" using assms(1,3) by (cases ds) (simp_all add: stored_block_def)
  have "input_is (entering (InfBlocks 32768) (z_of ?f)) data"
    by (simp add: input_is_def entering_simps in_z_def z_of_def)
  then have "at_block TYPE' (stored_stream ds @ X) (entering (InfBlocks 32768) (z_of ?f))"
    by (simp add: at_block_def entering_simps assms(3) InfBlocks_def)
  then have "stage X (concat ds) (entering (InfBlocks 32768) (z_of ?f))"
    using assms(1,2) by (rule stage.at_type)
  moreover have "window_ok (InfBlocks 32768)" "pending (InfBlocks 32768) = []"
    by (simp_all add: InfBlocks_def window_ok_def pending_def)
  ultimately have "running X (concat ds) ?f"
    using f by (simp add: running_def) (auto simp: in_z_def z_of_def)
  then have "outcome X (int (length data)) (concat ds) (length (concat ds))
      (loop (append_step (int (length data))) ?a)"
    using append_running [of X "concat ds" ?a "int (length data)"] d by simp
  moreover have "inflate_chunk data =
      pbind (loop (append_step (int (length data))) ?a) (\<lambda>(res, a). ret (res, a_progress a, a_f a))"
    unfolding inflate_chunk_def f(1) pbind_simps inflater_append_def using d by (simp add: Let_def)
  ultimately show ?thesis by blast
qed

text \<open>The reference encoder of stored blocks fits the limit on their length.\<close>

lemma small_simps [simp]: "small []" "small (d # ds) \<longleftrightarrow> length d < 65536 \<and> small ds"
  by (auto simp: small_def)

text \<open>A stream of stored blocks without anything after it.\<close>

lemma inflate_stored:
  assumes "ds \<noteq> []" "small ds"
  shows "\<exists>progress f. inflate_chunk (stored_stream ds) = Some (Inr
    (if int (length (stored_stream ds)) + int (length (concat ds)) mod 512 = 512 then Minus_one else Array (concat ds),
     progress, f))"
proof -
  obtain p where p: "outcome [] (int (length (stored_stream ds))) (concat ds) (length (concat ds)) p"
    "inflate_chunk (stored_stream ds) = pbind p (\<lambda>(res, a). ret (res, a_progress a, a_f a))"
    using append_stored [OF assms, of "stored_stream ds" "[]"] by auto
  from p(1) have "\<exists>a. p = Some (Inr
      (if int (length (stored_stream ds)) + int (length (concat ds)) mod 512 = 512 then Minus_one else Array (concat ds), a))"
    by (simp add: outcome_def lost_def split: if_splits)
  then obtain a where "p = Some (Inr
      (if int (length (stored_stream ds)) + int (length (concat ds)) mod 512 = 512 then Minus_one else Array (concat ds), a))" ..
  with p(2) show ?thesis by (simp add: ret_def)
qed

text \<open>
  C12. Stored blocks come out of the inflater as they went in: for any number of blocks of up to
  65535 bytes, handed to a new \<open>Inflater\<close> in one chunk, \<open>append\<close> returns and returns the contents of
  the blocks, whatever the number of output buffers and wrap-arounds of the window it takes. The
  exception, a chunk whose length is exactly the room left in the last output buffer, is the subject
  of the next property.
\<close>

theorem stored_blocks_inflated:
  assumes "ds \<noteq> []" and "small ds"
    and "int (length (stored_stream ds)) + int (length (concat ds)) mod 512 \<noteq> 512"
  shows "\<exists>progress f. inflate_chunk (stored_stream ds) = Some (Inr (Array (concat ds), progress, f))"
  using inflate_stored [OF assms(1,2)] assms(3) by simp

theorem stored_blocks_inflated_witness:
  "\<exists>progress f. inflate_chunk [0, 2, 0, 253, 255, 7, 8, 1, 1, 0, 254, 255, 9] =
     Some (Inr (Array [7, 8, 9], progress, f))"
proof -
  have "\<exists>progress f. inflate_chunk (stored_stream [[7, 8], [9]]) = Some (Inr (Array (concat [[7, 8], [9]]), progress, f))"
    by (rule stored_blocks_inflated) (simp_all add: stored_block_def le_2)
  moreover have "stored_stream [[7, 8], [9]] = [0, 2, 0, 253, 255, 7, 8, 1, 1, 0, 254, 255, 9]"
    by (simp add: stored_block_def le_2)
  ultimately show ?thesis by simp
qed

text \<open>Every outcome of one chunk that starts with stored blocks and ends with any bytes.\<close>

lemma inflate_stored_then:
  assumes "ds \<noteq> []" "small ds" and data: "data = stored_stream ds @ X"
  shows "if int (length data) + int (length (concat ds)) mod 512 = 512 \<or> X \<noteq> [] \<and> length data = 512
    then \<exists>progress f. inflate_chunk data = Some (Inr (Minus_one, progress, f))
    else X \<noteq> [] \<longrightarrow> inflate_chunk data = None"
proof -
  obtain p where p: "outcome X (int (length data)) (concat ds) (length (concat ds)) p"
    "inflate_chunk data = pbind p (\<lambda>(res, a). ret (res, a_progress a, a_f a))"
    using append_stored [OF assms] by blast
  have "int (length data) = 512 \<longleftrightarrow> length data = 512" by linarith
  with p show ?thesis by (auto simp: outcome_def lost_def ret_def split: if_splits)
qed

text \<open>
  C38. A chunk of stored blocks, with or without bytes after them, given to a new \<open>Inflater\<close> is lost when its length is the
  room left in the last output buffer of 512 bytes: \<open>append\<close> compares \<open>avail_out\<close> with the
  length of its input and returns -1 instead of the data.
\<close>

theorem chunk_of_unlucky_length_lost:
  assumes "ds \<noteq> []" and "small ds"
    and "int (length (stored_stream ds @ X)) + int (length (concat ds)) mod 512 = 512"
  shows "\<exists>progress f. inflate_chunk (stored_stream ds @ X) = Some (Inr (Minus_one, progress, f))"
  using inflate_stored_then [OF assms(1,2) refl, of X] assms(3) by simp

theorem chunk_of_unlucky_length_lost_witness:
  "\<exists>progress f. inflate_chunk (stored_stream [replicate 250 7, [9]]) = Some (Inr (Minus_one, progress, f))"
proof -
  have "\<exists>progress f. inflate_chunk (stored_stream [replicate 250 7, [9]] @ []) = Some (Inr (Minus_one, progress, f))"
    by (rule chunk_of_unlucky_length_lost) (simp_all add: stored_block_def)
  then show ?thesis by simp
qed

text \<open>
  C37. A chunk of stored blocks with bytes after the last one never comes out of a new \<open>Inflater\<close>: \<open>append\<close> loops for
  ever, since the stream has ended, so no call of \<open>inflate\<close> consumes them, and the loop goes on while there is
  input; only when the chunk is as long as an output buffer, or as the room left in the last one, it returns -1.
\<close>

theorem trailing_bytes_hang:
  assumes "ds \<noteq> []" and "small ds" and "X \<noteq> []"
  shows "if length (stored_stream ds @ X) = 512 \<or> int (length (stored_stream ds @ X)) + int (length (concat ds)) mod 512 = 512
    then \<exists>progress f. inflate_chunk (stored_stream ds @ X) = Some (Inr (Minus_one, progress, f))
    else inflate_chunk (stored_stream ds @ X) = None"
  using inflate_stored_then [OF assms(1,2) refl, of X] assms(3) by (auto split: if_splits)

theorem trailing_bytes_hang_witness: "inflate_chunk [1, 1, 0, 254, 255, 9, 0] = None"
proof -
  have "stored_stream [[9]] @ [0] = [1, 1, 0, 254, 255, 9, 0]" by (simp add: stored_block_def le_2)
  then show ?thesis using trailing_bytes_hang [of "[[9]]" "[0]"] by simp
qed

end
