(* ===== verification/Defl_Tables.thy ===== *)
theory Defl_Tables
  imports Js_Loop
begin

text \<open>
  Constants and tables of the compressor \<^verbatim>\<open>html/lib/deflate.js\<close>, and what its code takes from
  JavaScript: plain arrays, which may have holes and grow when written to, and the bitwise operators
  on numbers. All numbers are integers; an operator first reduces its operands to 32 bits. Constants
  with the names and values of \<open>inflate.js\<close> are those of \<open>Inf_Tree\<close>.
\<close>

section \<open>Bitwise operators\<close>

definition to_int32 :: "int \<Rightarrow> int" where
  "to_int32 x = sint (word_of_int x :: 32 word)"

definition js_and :: "int \<Rightarrow> int \<Rightarrow> int" where
  "js_and x y = to_int32 (x AND y)"

definition js_or :: "int \<Rightarrow> int \<Rightarrow> int" where
  "js_or x y = to_int32 (x OR y)"

definition js_xor :: "int \<Rightarrow> int \<Rightarrow> int" where
  "js_xor x y = to_int32 (x XOR y)"

text \<open>The shifts \<open><<\<close>, \<open>>>\<close> and \<open>>>>\<close>.\<close>

definition js_shl :: "int \<Rightarrow> int \<Rightarrow> int" where
  "js_shl x n = to_int32 (x * 2 ^ nat (n mod 32))"

definition js_shr :: "int \<Rightarrow> int \<Rightarrow> int" where
  "js_shr x n = to_int32 x div 2 ^ nat (n mod 32)"

definition js_ushr :: "int \<Rightarrow> int \<Rightarrow> int" where
  "js_ushr x n = (x mod 2 ^ 32) div 2 ^ nat (n mod 32)"

section \<open>Plain arrays\<close>

text \<open>
  \<open>None\<close> is a hole. Arithmetic on the \<open>undefined\<close> that a hole yields stops the model
  (\<^const>\<open>Undefined\<close>), except under \<open>&\<close>, where \<open>undefined\<close> counts as 0. A write past the end makes
  the array longer; negative positions, which would become properties, are never written.
\<close>

type_synonym slots = "int option list"

definition slot_at :: "slots \<Rightarrow> int \<Rightarrow> int option" where
  "slot_at xs i = (case arr_at xs i of None \<Rightarrow> None | Some v \<Rightarrow> v)"

definition slot :: "slots \<Rightarrow> int \<Rightarrow> int eff" where
  "slot xs i = (case slot_at xs i of None \<Rightarrow> Inl Undefined | Some v \<Rightarrow> Inr v)"

definition or_zero :: "int option \<Rightarrow> int" where
  "or_zero v = (case v of None \<Rightarrow> 0 | Some x \<Rightarrow> x)"

definition store :: "slots \<Rightarrow> int \<Rightarrow> int option \<Rightarrow> slots" where
  "store xs i v =
     (if i < 0 then xs
      else if i < int (length xs) then xs[nat i := v]
      else xs @ replicate (nat i - length xs) None @ [v])"

definition put_slot :: "slots \<Rightarrow> int \<Rightarrow> int \<Rightarrow> slots" where
  "put_slot xs i v = store xs i (Some v)"

text \<open>\<open>xs[i] += d\<close>\<close>

definition bump :: "slots \<Rightarrow> int \<Rightarrow> int \<Rightarrow> slots eff" where
  "bump xs i d = ebind (slot xs i) (\<lambda>v. Inr (put_slot xs i (v + d)))"

section \<open>Constants\<close>

definition D_CODES :: int where [simp]: "D_CODES = 30"
definition BL_CODES :: int where [simp]: "BL_CODES = 19"
definition LENGTH_CODES :: int where [simp]: "LENGTH_CODES = 29"
definition LITERALS :: int where [simp]: "LITERALS = 256"
definition L_CODES :: int where [simp]: "L_CODES = LITERALS + 1 + LENGTH_CODES"
definition HEAP_SIZE :: int where [simp]: "HEAP_SIZE = 2 * L_CODES + 1"
definition END_BLOCK :: int where [simp]: "END_BLOCK = 256"
definition MAX_BL_BITS :: int where [simp]: "MAX_BL_BITS = 7"
definition REP_3_6 :: int where [simp]: "REP_3_6 = 16"
definition REPZ_3_10 :: int where [simp]: "REPZ_3_10 = 17"
definition REPZ_11_138 :: int where [simp]: "REPZ_11_138 = 18"
definition Buf_size :: int where [simp]: "Buf_size = 8 * 2"
definition Z_DEFAULT_COMPRESSION :: int where [simp]: "Z_DEFAULT_COMPRESSION = - 1"
definition Z_FILTERED :: int where [simp]: "Z_FILTERED = 1"
definition Z_HUFFMAN_ONLY :: int where [simp]: "Z_HUFFMAN_ONLY = 2"
definition Z_DEFAULT_STRATEGY :: int where [simp]: "Z_DEFAULT_STRATEGY = 0"
definition Z_PARTIAL_FLUSH :: int where [simp]: "Z_PARTIAL_FLUSH = 1"
definition Z_FULL_FLUSH :: int where [simp]: "Z_FULL_FLUSH = 3"
definition MAX_MEM_LEVEL :: int where [simp]: "MAX_MEM_LEVEL = 9"
definition DEF_MEM_LEVEL :: int where [simp]: "DEF_MEM_LEVEL = 8"
definition DEFLATED :: int where [simp]: "DEFLATED = 8"
definition STORED_BLOCK :: int where [simp]: "STORED_BLOCK = 0"
definition STATIC_TREES :: int where [simp]: "STATIC_TREES = 1"
definition DYN_TREES :: int where [simp]: "DYN_TREES = 2"
definition Z_BINARY :: int where [simp]: "Z_BINARY = 0"
definition Z_ASCII :: int where [simp]: "Z_ASCII = 1"
definition Z_UNKNOWN :: int where [simp]: "Z_UNKNOWN = 2"
definition MIN_MATCH :: int where [simp]: "MIN_MATCH = 3"
definition MAX_MATCH :: int where [simp]: "MAX_MATCH = 258"
definition MIN_LOOKAHEAD :: int where [simp]: "MIN_LOOKAHEAD = MAX_MATCH + MIN_MATCH + 1"
definition HEADER_DICT :: int where [simp]: "HEADER_DICT = 0x20"

text \<open>\<open>INIT_STATE\<close>, \<open>BUSY_STATE\<close> and \<open>FINISH_STATE\<close>; the results of the three compression functions.\<close>

datatype deflate_status = INIT_STATE | BUSY_STATE | FINISH_STATE

datatype block_state = NeedMore | BlockDone | FinishStarted | FinishDone

datatype deflate_func = STORE | FAST | SLOW

record config =
  good_length :: int
  max_lazy :: int
  nice_length :: int
  max_chain :: int
  conf_func :: deflate_func

definition Config :: "int \<Rightarrow> int \<Rightarrow> int \<Rightarrow> int \<Rightarrow> deflate_func \<Rightarrow> config" where
  "Config g l n c f = \<lparr>good_length = g, max_lazy = l, nice_length = n, max_chain = c, conf_func = f\<rparr>"

definition config_table :: "config list" where
  "config_table =
    [Config 0 0 0 0 STORE, Config 4 4 8 4 FAST, Config 4 5 16 8 FAST, Config 4 6 32 32 FAST,
     Config 4 4 16 16 SLOW, Config 8 16 32 32 SLOW, Config 8 16 128 128 SLOW, Config 8 32 128 256 SLOW,
     Config 32 128 258 1024 SLOW, Config 32 258 258 4096 SLOW]"

definition z_errmsg :: "string list" where
  "z_errmsg = [''need dictionary'', ''stream end'', '''', '''', ''stream error'', ''data error'', '''',
     ''buffer error'', '''', '''']"

section \<open>Tables\<close>

definition dist_code :: "int list" where
  "dist_code =
    [0, 1, 2, 3, 4, 4, 5, 5, 6, 6, 6, 6, 7, 7, 7, 7, 8, 8, 8, 8, 8, 8, 8, 8, 9, 9, 9, 9, 9, 9, 9, 9,
     10, 10, 10, 10, 10, 10, 10, 10, 10, 10, 10, 10, 10, 10, 10, 10, 11, 11, 11, 11, 11, 11, 11, 11,
     11, 11, 11, 11, 11, 11, 11, 11, 12, 12, 12, 12, 12, 12, 12, 12, 12, 12, 12, 12, 12, 12, 12, 12,
     12, 12, 12, 12, 12, 12, 12, 12, 12, 12, 12, 12, 12, 12, 12, 12, 13, 13, 13, 13, 13, 13, 13, 13,
     13, 13, 13, 13, 13, 13, 13, 13, 13, 13, 13, 13, 13, 13, 13, 13, 13, 13, 13, 13, 13, 13, 13, 13,
     14, 14, 14, 14, 14, 14, 14, 14, 14, 14, 14, 14, 14, 14, 14, 14, 14, 14, 14, 14, 14, 14, 14, 14,
     14, 14, 14, 14, 14, 14, 14, 14, 14, 14, 14, 14, 14, 14, 14, 14, 14, 14, 14, 14, 14, 14, 14, 14,
     14, 14, 14, 14, 14, 14, 14, 14, 14, 14, 14, 14, 14, 14, 14, 14, 15, 15, 15, 15, 15, 15, 15, 15,
     15, 15, 15, 15, 15, 15, 15, 15, 15, 15, 15, 15, 15, 15, 15, 15, 15, 15, 15, 15, 15, 15, 15, 15,
     15, 15, 15, 15, 15, 15, 15, 15, 15, 15, 15, 15, 15, 15, 15, 15, 15, 15, 15, 15, 15, 15, 15, 15,
     15, 15, 15, 15, 15, 15, 15, 15, 0, 0, 16, 17, 18, 18, 19, 19, 20, 20, 20, 20, 21, 21, 21, 21,
     22, 22, 22, 22, 22, 22, 22, 22, 23, 23, 23, 23, 23, 23, 23, 23, 24, 24, 24, 24, 24, 24, 24, 24,
     24, 24, 24, 24, 24, 24, 24, 24, 25, 25, 25, 25, 25, 25, 25, 25, 25, 25, 25, 25, 25, 25, 25, 25,
     26, 26, 26, 26, 26, 26, 26, 26, 26, 26, 26, 26, 26, 26, 26, 26, 26, 26, 26, 26, 26, 26, 26, 26,
     26, 26, 26, 26, 26, 26, 26, 26, 27, 27, 27, 27, 27, 27, 27, 27, 27, 27, 27, 27, 27, 27, 27, 27,
     27, 27, 27, 27, 27, 27, 27, 27, 27, 27, 27, 27, 27, 27, 27, 27, 28, 28, 28, 28, 28, 28, 28, 28,
     28, 28, 28, 28, 28, 28, 28, 28, 28, 28, 28, 28, 28, 28, 28, 28, 28, 28, 28, 28, 28, 28, 28, 28,
     28, 28, 28, 28, 28, 28, 28, 28, 28, 28, 28, 28, 28, 28, 28, 28, 28, 28, 28, 28, 28, 28, 28, 28,
     28, 28, 28, 28, 28, 28, 28, 28, 29, 29, 29, 29, 29, 29, 29, 29, 29, 29, 29, 29, 29, 29, 29, 29,
     29, 29, 29, 29, 29, 29, 29, 29, 29, 29, 29, 29, 29, 29, 29, 29, 29, 29, 29, 29, 29, 29, 29, 29,
     29, 29, 29, 29, 29, 29, 29, 29, 29, 29, 29, 29, 29, 29, 29, 29, 29, 29, 29, 29, 29, 29, 29, 29]"

definition length_code :: "int list" where
  "length_code =
    [0, 1, 2, 3, 4, 5, 6, 7, 8, 8, 9, 9, 10, 10, 11, 11, 12, 12, 12, 12, 13, 13, 13, 13, 14, 14, 14,
     14, 15, 15, 15, 15, 16, 16, 16, 16, 16, 16, 16, 16, 17, 17, 17, 17, 17, 17, 17, 17, 18, 18, 18,
     18, 18, 18, 18, 18, 19, 19, 19, 19, 19, 19, 19, 19, 20, 20, 20, 20, 20, 20, 20, 20, 20, 20, 20,
     20, 20, 20, 20, 20, 21, 21, 21, 21, 21, 21, 21, 21, 21, 21, 21, 21, 21, 21, 21, 21, 22, 22, 22,
     22, 22, 22, 22, 22, 22, 22, 22, 22, 22, 22, 22, 22, 23, 23, 23, 23, 23, 23, 23, 23, 23, 23, 23,
     23, 23, 23, 23, 23, 24, 24, 24, 24, 24, 24, 24, 24, 24, 24, 24, 24, 24, 24, 24, 24, 24, 24, 24,
     24, 24, 24, 24, 24, 24, 24, 24, 24, 24, 24, 24, 24, 25, 25, 25, 25, 25, 25, 25, 25, 25, 25, 25,
     25, 25, 25, 25, 25, 25, 25, 25, 25, 25, 25, 25, 25, 25, 25, 25, 25, 25, 25, 25, 25, 26, 26, 26,
     26, 26, 26, 26, 26, 26, 26, 26, 26, 26, 26, 26, 26, 26, 26, 26, 26, 26, 26, 26, 26, 26, 26, 26,
     26, 26, 26, 26, 26, 27, 27, 27, 27, 27, 27, 27, 27, 27, 27, 27, 27, 27, 27, 27, 27, 27, 27, 27,
     27, 27, 27, 27, 27, 27, 27, 27, 27, 27, 27, 27, 28]"

definition base_length :: "int list" where
  "base_length =
    [0, 1, 2, 3, 4, 5, 6, 7, 8, 10, 12, 14, 16, 20, 24, 28, 32, 40, 48, 56, 64, 80, 96, 112, 128,
     160, 192, 224, 0]"

definition base_dist :: "int list" where
  "base_dist =
    [0, 1, 2, 3, 4, 6, 8, 12, 16, 24, 32, 48, 64, 96, 128, 192, 256, 384, 512, 768, 1024, 1536,
     2048, 3072, 4096, 6144, 8192, 12288, 16384, 24576]"

definition extra_lbits :: "int list" where
  "extra_lbits =
    [0, 0, 0, 0, 0, 0, 0, 0, 1, 1, 1, 1, 2, 2, 2, 2, 3, 3, 3, 3, 4, 4, 4, 4, 5, 5, 5, 5, 0]"

definition extra_dbits :: "int list" where
  "extra_dbits =
    [0, 0, 0, 0, 1, 1, 2, 2, 3, 3, 4, 4, 5, 5, 6, 6, 7, 7, 8, 8, 9, 9, 10, 10, 11, 11, 12, 12, 13,
     13]"

definition extra_blbits :: "int list" where
  "extra_blbits =
    [0, 0, 0, 0, 0, 0, 0, 0, 0, 0, 0, 0, 0, 0, 0, 0, 2, 3, 7]"

definition bl_order :: "int list" where
  "bl_order =
    [16, 17, 18, 0, 8, 7, 9, 6, 10, 5, 11, 4, 12, 3, 13, 2, 14, 1, 15]"

definition static_ltree :: "int list" where
  "static_ltree =
    [12, 8, 140, 8, 76, 8, 204, 8, 44, 8, 172, 8, 108, 8, 236, 8, 28, 8, 156, 8, 92, 8, 220, 8, 60,
     8, 188, 8, 124, 8, 252, 8, 2, 8, 130, 8, 66, 8, 194, 8, 34, 8, 162, 8, 98, 8, 226, 8, 18, 8,
     146, 8, 82, 8, 210, 8, 50, 8, 178, 8, 114, 8, 242, 8, 10, 8, 138, 8, 74, 8, 202, 8, 42, 8, 170,
     8, 106, 8, 234, 8, 26, 8, 154, 8, 90, 8, 218, 8, 58, 8, 186, 8, 122, 8, 250, 8, 6, 8, 134, 8,
     70, 8, 198, 8, 38, 8, 166, 8, 102, 8, 230, 8, 22, 8, 150, 8, 86, 8, 214, 8, 54, 8, 182, 8, 118,
     8, 246, 8, 14, 8, 142, 8, 78, 8, 206, 8, 46, 8, 174, 8, 110, 8, 238, 8, 30, 8, 158, 8, 94, 8,
     222, 8, 62, 8, 190, 8, 126, 8, 254, 8, 1, 8, 129, 8, 65, 8, 193, 8, 33, 8, 161, 8, 97, 8, 225,
     8, 17, 8, 145, 8, 81, 8, 209, 8, 49, 8, 177, 8, 113, 8, 241, 8, 9, 8, 137, 8, 73, 8, 201, 8,
     41, 8, 169, 8, 105, 8, 233, 8, 25, 8, 153, 8, 89, 8, 217, 8, 57, 8, 185, 8, 121, 8, 249, 8, 5,
     8, 133, 8, 69, 8, 197, 8, 37, 8, 165, 8, 101, 8, 229, 8, 21, 8, 149, 8, 85, 8, 213, 8, 53, 8,
     181, 8, 117, 8, 245, 8, 13, 8, 141, 8, 77, 8, 205, 8, 45, 8, 173, 8, 109, 8, 237, 8, 29, 8,
     157, 8, 93, 8, 221, 8, 61, 8, 189, 8, 125, 8, 253, 8, 19, 9, 275, 9, 147, 9, 403, 9, 83, 9,
     339, 9, 211, 9, 467, 9, 51, 9, 307, 9, 179, 9, 435, 9, 115, 9, 371, 9, 243, 9, 499, 9, 11, 9,
     267, 9, 139, 9, 395, 9, 75, 9, 331, 9, 203, 9, 459, 9, 43, 9, 299, 9, 171, 9, 427, 9, 107, 9,
     363, 9, 235, 9, 491, 9, 27, 9, 283, 9, 155, 9, 411, 9, 91, 9, 347, 9, 219, 9, 475, 9, 59, 9,
     315, 9, 187, 9, 443, 9, 123, 9, 379, 9, 251, 9, 507, 9, 7, 9, 263, 9, 135, 9, 391, 9, 71, 9,
     327, 9, 199, 9, 455, 9, 39, 9, 295, 9, 167, 9, 423, 9, 103, 9, 359, 9, 231, 9, 487, 9, 23, 9,
     279, 9, 151, 9, 407, 9, 87, 9, 343, 9, 215, 9, 471, 9, 55, 9, 311, 9, 183, 9, 439, 9, 119, 9,
     375, 9, 247, 9, 503, 9, 15, 9, 271, 9, 143, 9, 399, 9, 79, 9, 335, 9, 207, 9, 463, 9, 47, 9,
     303, 9, 175, 9, 431, 9, 111, 9, 367, 9, 239, 9, 495, 9, 31, 9, 287, 9, 159, 9, 415, 9, 95, 9,
     351, 9, 223, 9, 479, 9, 63, 9, 319, 9, 191, 9, 447, 9, 127, 9, 383, 9, 255, 9, 511, 9, 0, 7,
     64, 7, 32, 7, 96, 7, 16, 7, 80, 7, 48, 7, 112, 7, 8, 7, 72, 7, 40, 7, 104, 7, 24, 7, 88, 7, 56,
     7, 120, 7, 4, 7, 68, 7, 36, 7, 100, 7, 20, 7, 84, 7, 52, 7, 116, 7, 3, 8, 131, 8, 67, 8, 195,
     8, 35, 8, 163, 8, 99, 8, 227, 8]"

definition static_dtree :: "int list" where
  "static_dtree =
    [0, 5, 16, 5, 8, 5, 24, 5, 4, 5, 20, 5, 12, 5, 28, 5, 2, 5, 18, 5, 10, 5, 26, 5, 6, 5, 22, 5,
     14, 5, 30, 5, 1, 5, 17, 5, 9, 5, 25, 5, 5, 5, 21, 5, 13, 5, 29, 5, 3, 5, 19, 5, 11, 5, 27, 5,
     7, 5, 23, 5]"

section \<open>Codes of distances, and the trees that never change\<close>

definition d_code :: "int \<Rightarrow> int eff" where
  "d_code dist = (if dist < 256 then elem dist_code dist else elem dist_code (256 + js_ushr dist 7))"

record static_desc =
  static_tree :: "int list option"
  extra_bits :: "int list"
  extra_base :: int
  elems :: int
  max_length :: int

definition StaticTree :: "int list option \<Rightarrow> int list \<Rightarrow> int \<Rightarrow> int \<Rightarrow> int \<Rightarrow> static_desc" where
  "StaticTree t x b e m = \<lparr>static_tree = t, extra_bits = x, extra_base = b, elems = e, max_length = m\<rparr>"

definition static_l_desc :: static_desc where
  "static_l_desc = StaticTree (Some static_ltree) extra_lbits (LITERALS + 1) L_CODES MAX_BITS"

definition static_d_desc :: static_desc where
  "static_d_desc = StaticTree (Some static_dtree) extra_dbits 0 D_CODES MAX_BITS"

definition static_bl_desc :: static_desc where
  "static_bl_desc = StaticTree None extra_blbits 0 BL_CODES MAX_BL_BITS"

end
