(* ===== verification/Defl_Tree.thy ===== *)
theory Defl_Tree
  imports Defl_Tables
begin

text \<open>
  \<open>Tree\<close> of \<^verbatim>\<open>html/lib/deflate.js\<close>: the construction of a Huffman code from the frequencies of its
  symbols (\<open>build_tree\<close> with \<open>pqdownheap\<close>, \<open>gen_bitlen\<close> and \<open>gen_codes\<close>) and the statistics of the
  bit lengths (\<open>scan_tree\<close>, \<open>build_bl_tree\<close>). A tree is an array of pairs: the frequency or code of
  node \<open>n\<close> is at \<open>2 * n\<close>, its father or bit length at \<open>2 * n + 1\<close>.
\<close>

section \<open>State\<close>

text \<open>The work areas that the three trees share, fields of the \<open>Deflate\<close> object \<open>s\<close>.\<close>

record tree_work =
  bl_count :: slots
  heap_arr :: slots
  heap_len :: int
  heap_max :: int
  depth :: slots
  opt_len :: int
  static_len :: int

text \<open>The trees themselves; the largest codes are unknown before the first \<open>build_tree\<close>.\<close>

record trees =
  dyn_ltree :: slots
  dyn_dtree :: slots
  bl_tree :: slots
  l_max_code :: "int option"
  d_max_code :: "int option"
  bl_max_code :: "int option"
  work :: tree_work

definition known :: "int option \<Rightarrow> int eff" where
  "known v = (case v of None \<Rightarrow> Inl Undefined | Some x \<Rightarrow> Inr x)"

section \<open>Bit lengths\<close>

text \<open>The first pass of \<open>gen_bitlen\<close>, for the heap elements from \<open>h\<close> on.\<close>

definition leaf_bits :: "static_desc \<Rightarrow> int \<Rightarrow> int \<Rightarrow> slots \<Rightarrow> tree_work \<Rightarrow> tree_work eff" where
  "leaf_bits d n bits tree s =
     ebind (bump (bl_count s) bits 1) (\<lambda>c.
     ebind (if n \<ge> extra_base d then elem (extra_bits d) (n - extra_base d) else Inr 0) (\<lambda>xbits.
     ebind (slot tree (n * 2)) (\<lambda>f.
       let s1 = s\<lparr>bl_count := c, opt_len := opt_len s + f * (bits + xbits)\<rparr> in
       case static_tree d of
         None \<Rightarrow> Inr s1
       | Some stree \<Rightarrow> ebind (elem stree (n * 2 + 1)) (\<lambda>l.
           Inr (s1\<lparr>static_len := static_len s1 + f * (l + xbits)\<rparr>)))))"

function first_pass :: "static_desc \<Rightarrow> int \<Rightarrow> int \<Rightarrow> slots \<times> tree_work \<times> int \<Rightarrow> (slots \<times> tree_work \<times> int) eff" where
  "first_pass d max_code h (tree, s, overflow) =
     (if h < HEAP_SIZE then
        ebind (slot (heap_arr s) h) (\<lambda>n.
        ebind (slot tree (n * 2 + 1)) (\<lambda>dad.
        ebind (slot tree (dad * 2 + 1)) (\<lambda>l.
          let long = l + 1 > max_length d;
              bits = (if long then max_length d else l + 1);
              overflow1 = (if long then overflow + 1 else overflow);
              tree1 = put_slot tree (n * 2 + 1) bits in
          ebind (if n > max_code then Inr s else leaf_bits d n bits tree1 s) (\<lambda>s1.
            first_pass d max_code (h + 1) (tree1, s1, overflow1)))))
      else Inr (tree, s, overflow))"
  by pat_completeness auto
termination by (relation "measure (\<lambda>(d, m, h, t). nat (HEAP_SIZE - h))") auto

text \<open>The lengths that are too long: \<open>while (s.bl_count[bits] === 0) bits--\<close>, and the loop around it.\<close>

function shorter_used :: "slots \<Rightarrow> int \<Rightarrow> int eff" where
  "shorter_used c bits =
     (case slot_at c bits of
        None \<Rightarrow> Inl Undefined
      | Some k \<Rightarrow> if k = 0 then shorter_used c (bits - 1) else Inr bits)"
  by pat_completeness auto
termination by (relation "measure (\<lambda>(c, b). nat (b + 1))") (auto simp: slot_at_def arr_at_def split: if_splits)

function shed :: "int \<Rightarrow> int \<Rightarrow> slots \<Rightarrow> slots eff" where
  "shed max_len overflow c =
     ebind (shorter_used c (max_len - 1)) (\<lambda>bits.
     ebind (bump c bits (- 1)) (\<lambda>c1.
     ebind (bump c1 (bits + 1) 2) (\<lambda>c2.
     ebind (bump c2 max_len (- 1)) (\<lambda>c3.
       if overflow - 2 > 0 then shed max_len (overflow - 2) c3 else Inr c3))))"
  by pat_completeness auto
termination by (relation "measure (\<lambda>(m, v, c). nat v)") auto

text \<open>The new lengths are dealt out to the leaves, \<open>n\<close> of them of length \<open>bits\<close>.\<close>

function deal :: "int \<Rightarrow> int \<Rightarrow> int \<Rightarrow> int \<Rightarrow> slots \<Rightarrow> tree_work \<Rightarrow> (int \<times> slots \<times> tree_work) eff" where
  "deal max_code bits n h tree s =
     (if n = 0 then Inr (h, tree, s)
      else
        (case slot_at (heap_arr s) (h - 1) of
           None \<Rightarrow> Inl Undefined
         | Some m \<Rightarrow>
             if m > max_code then deal max_code bits n (h - 1) tree s
             else ebind (slot tree (m * 2 + 1)) (\<lambda>l.
               if l = bits then deal max_code bits (n - 1) (h - 1) tree s
               else ebind (slot tree (m * 2)) (\<lambda>f.
                 deal max_code bits (n - 1) (h - 1) (put_slot tree (m * 2 + 1) bits)
                   (s\<lparr>opt_len := opt_len s + (bits - l) * f\<rparr>)))))"
  by pat_completeness auto
termination
  by (relation "measure (\<lambda>(m, b, n, h, t, s). nat h)") (auto simp: slot_at_def arr_at_def split: if_splits)

fun deal_all :: "int \<Rightarrow> nat \<Rightarrow> int \<Rightarrow> slots \<Rightarrow> tree_work \<Rightarrow> (slots \<times> tree_work) eff" where
  "deal_all max_code 0 h tree s = Inr (tree, s)"
| "deal_all max_code (Suc b) h tree s =
     ebind (slot (bl_count s) (int (Suc b))) (\<lambda>n.
     ebind (deal max_code (int (Suc b)) n h tree s) (\<lambda>(h1, tree1, s1).
       deal_all max_code b h1 tree1 s1))"

definition gen_bitlen :: "static_desc \<Rightarrow> int \<Rightarrow> slots \<Rightarrow> tree_work \<Rightarrow> (slots \<times> tree_work) eff" where
  "gen_bitlen d max_code tree s =
     (let s1 = s\<lparr>bl_count := fold (\<lambda>b c. put_slot c (int b) 0) [0..<Suc (nat MAX_BITS)] (bl_count s)\<rparr> in
      ebind (slot (heap_arr s1) (heap_max s1)) (\<lambda>root.
      ebind (first_pass d max_code (heap_max s1 + 1) (put_slot tree (root * 2 + 1) 0, s1, 0)) (\<lambda>(tree1, s2, overflow).
        if overflow = 0 then Inr (tree1, s2)
        else ebind (shed (max_length d) overflow (bl_count s2)) (\<lambda>c.
          deal_all max_code (nat (max_length d)) HEAP_SIZE tree1 (s2\<lparr>bl_count := c\<rparr>)))))"

section \<open>Codes\<close>

function reverse_loop :: "int \<Rightarrow> int \<Rightarrow> int \<Rightarrow> int" where
  "reverse_loop code len res =
     (let res1 = js_shl (js_or res (js_and code 1)) 1 in
      if len - 1 > 0 then reverse_loop (js_ushr code 1) (len - 1) res1 else res1)"
  by pat_completeness auto
termination by (relation "measure (\<lambda>(c, l, r). nat l)") auto

definition bi_reverse :: "int \<Rightarrow> int \<Rightarrow> int" where
  "bi_reverse code len = js_ushr (reverse_loop code len 0) 1"

text \<open>\<open>next_code[bits]\<close> for the lengths from 1 on; position 0 is a hole.\<close>

fun next_codes :: "nat \<Rightarrow> int \<Rightarrow> int \<Rightarrow> slots \<Rightarrow> slots \<Rightarrow> slots eff" where
  "next_codes 0 bits code c nc = Inr nc"
| "next_codes (Suc k) bits code c nc =
     ebind (slot c (bits - 1)) (\<lambda>n.
       let code1 = js_shl (code + n) 1 in next_codes k (bits + 1) code1 c (put_slot nc bits code1))"

fun assign_codes :: "nat \<Rightarrow> int \<Rightarrow> slots \<Rightarrow> slots \<Rightarrow> slots eff" where
  "assign_codes 0 n nc tree = Inr tree"
| "assign_codes (Suc k) n nc tree =
     ebind (slot tree (n * 2 + 1)) (\<lambda>len.
       if len = 0 then assign_codes k (n + 1) nc tree
       else ebind (slot nc len) (\<lambda>code.
         assign_codes k (n + 1) (put_slot nc len (code + 1)) (put_slot tree (n * 2) (bi_reverse code len))))"

definition gen_codes :: "slots \<Rightarrow> int \<Rightarrow> slots \<Rightarrow> slots eff" where
  "gen_codes tree max_code c =
     ebind (next_codes (nat MAX_BITS) 1 0 c []) (\<lambda>nc. assign_codes (nat (max_code + 1)) 0 nc tree)"

section \<open>The heap\<close>

definition smaller :: "slots \<Rightarrow> int \<Rightarrow> int \<Rightarrow> slots \<Rightarrow> bool eff" where
  "smaller tree n m dep =
     ebind (slot tree (n * 2)) (\<lambda>tn2.
     ebind (slot tree (m * 2)) (\<lambda>tm2.
       if tn2 < tm2 then Inr True
       else if tn2 = tm2 then ebind (slot dep n) (\<lambda>dn. ebind (slot dep m) (\<lambda>dm. Inr (dn \<le> dm)))
       else Inr False))"

text \<open>One round of the loop of \<open>pqdownheap\<close>: the array and the place \<open>k\<close> of the hole for \<open>v\<close>.\<close>

definition down_step :: "slots \<Rightarrow> slots \<Rightarrow> int \<Rightarrow> int \<Rightarrow> slots \<times> int \<Rightarrow> (slots \<times> int, slots) next_step eff" where
  "down_step tree dep len v hk =
     (case hk of (heap, k) \<Rightarrow>
       let j = js_shl k 1 in
       if j \<le> len then
         ebind (if j < len
                then ebind (slot heap (j + 1)) (\<lambda>r. ebind (slot heap j) (\<lambda>l. smaller tree r l dep))
                else Inr False) (\<lambda>right.
         let j1 = (if right then j + 1 else j) in
         ebind (slot heap j1) (\<lambda>x.
         ebind (smaller tree v x dep) (\<lambda>stop.
           Inr (if stop then Back (put_slot heap k v) else Go (put_slot heap k x, j1)))))
       else Inr (Back (put_slot heap k v)))"

definition pqdownheap :: "slots \<Rightarrow> int \<Rightarrow> tree_work \<Rightarrow> tree_work prog" where
  "pqdownheap tree k s =
     pbind (lift (slot (heap_arr s) k)) (\<lambda>v.
     pbind (loop (\<lambda>x. lift (down_step tree (depth s) (heap_len s) v x)) (heap_arr s, k)) (\<lambda>h.
       ret (s\<lparr>heap_arr := h\<rparr>)))"

section \<open>The tree\<close>

text \<open>The symbols that occur are the first elements of the heap.\<close>

fun init_heap :: "nat \<Rightarrow> int \<Rightarrow> slots \<times> tree_work \<times> int \<Rightarrow> slots \<times> tree_work \<times> int" where
  "init_heap 0 n st = st"
| "init_heap (Suc k) n (tree, s, max_code) =
     init_heap k (n + 1)
       (if slot_at tree (n * 2) \<noteq> Some 0
        then (tree, s\<lparr>heap_len := heap_len s + 1, heap_arr := put_slot (heap_arr s) (heap_len s + 1) n,
          depth := put_slot (depth s) n 0\<rparr>, n)
        else (put_slot tree (n * 2 + 1) 0, s, max_code))"

text \<open>At least two codes are forced to exist.\<close>

function force_two :: "static_desc \<Rightarrow> slots \<times> tree_work \<times> int \<Rightarrow> (slots \<times> tree_work \<times> int) eff" where
  "force_two d (tree, s, max_code) =
     (if heap_len s < 2 then
        (let max_code1 = (if max_code < 2 then max_code + 1 else max_code);
             node = (if max_code < 2 then max_code + 1 else 0);
             s1 = s\<lparr>heap_len := heap_len s + 1, heap_arr := put_slot (heap_arr s) (heap_len s + 1) node,
               depth := put_slot (depth s) node 0, opt_len := opt_len s - 1\<rparr>;
             tree1 = put_slot tree (node * 2) 1 in
         ebind (case static_tree d of None \<Rightarrow> Inr 0 | Some stree \<Rightarrow> elem stree (node * 2 + 1)) (\<lambda>l.
           force_two d (tree1, s1\<lparr>static_len := static_len s - l\<rparr>, max_code1)))
      else Inr (tree, s, max_code))"
  by pat_completeness auto
termination by (relation "measure (\<lambda>(d, t, s, m). nat (2 - heap_len s))") auto

fun heapify :: "nat \<Rightarrow> slots \<Rightarrow> tree_work \<Rightarrow> tree_work prog" where
  "heapify 0 tree s = ret s"
| "heapify (Suc n) tree s = pbind (pqdownheap tree (int (Suc n)) s) (heapify n tree)"

text \<open>The two least frequent nodes get a common father.\<close>

definition combine_step :: "slots \<times> tree_work \<times> int \<Rightarrow> (slots \<times> tree_work \<times> int, slots \<times> tree_work) next_step prog" where
  "combine_step st =
     (case st of (tree, s, node) \<Rightarrow>
       pbind (lift (slot (heap_arr s) 1)) (\<lambda>n.
       pbind (lift (slot (heap_arr s) (heap_len s))) (\<lambda>x.
       pbind (pqdownheap tree 1 (s\<lparr>heap_arr := put_slot (heap_arr s) 1 x, heap_len := heap_len s - 1\<rparr>)) (\<lambda>s1.
       pbind (lift (slot (heap_arr s1) 1)) (\<lambda>m.
       pbind (lift (slot tree (n * 2))) (\<lambda>fn.
       pbind (lift (slot tree (m * 2))) (\<lambda>fm.
       pbind (lift (slot (depth s1) n)) (\<lambda>dn.
       pbind (lift (slot (depth s1) m)) (\<lambda>dm.
         let h1 = put_slot (put_slot (heap_arr s1) (heap_max s1 - 1) n) (heap_max s1 - 2) m;
             tree1 = put_slot (put_slot (put_slot tree (node * 2) (fn + fm)) (m * 2 + 1) node) (n * 2 + 1) node;
             s2 = s1\<lparr>heap_max := heap_max s1 - 2, heap_arr := put_slot h1 1 node,
               depth := put_slot (depth s1) node (max dn dm + 1)\<rparr> in
         pbind (pqdownheap tree1 1 s2) (\<lambda>s3.
           ret (if heap_len s3 \<ge> 2 then Go (tree1, s3, node + 1) else Back (tree1, s3))))))))))))"

text \<open>The tree, its largest code and the work areas after \<open>build_tree\<close>.\<close>

definition build_tree :: "static_desc \<Rightarrow> slots \<Rightarrow> tree_work \<Rightarrow> (slots \<times> int \<times> tree_work) prog" where
  "build_tree d tree s =
     (case init_heap (nat (elems d)) 0 (tree, s\<lparr>heap_len := 0, heap_max := HEAP_SIZE\<rparr>, - 1) of (tree1, s1, m1) \<Rightarrow>
       pbind (lift (force_two d (tree1, s1, m1))) (\<lambda>(tree2, s2, max_code).
       pbind (heapify (nat (heap_len s2 div 2)) tree2 s2) (\<lambda>s3.
       pbind (loop combine_step (tree2, s3, elems d)) (\<lambda>(tree3, s4).
       pbind (lift (slot (heap_arr s4) 1)) (\<lambda>root.
         let s5 = s4\<lparr>heap_max := heap_max s4 - 1, heap_arr := put_slot (heap_arr s4) (heap_max s4 - 1) root\<rparr> in
         pbind (lift (gen_bitlen d max_code tree3 s5)) (\<lambda>(tree4, s6).
         pbind (lift (gen_codes tree4 max_code (bl_count s6))) (\<lambda>tree5.
           ret (tree5, max_code, s6))))))))"

section \<open>The tree of the bit lengths\<close>

text \<open>The limits of a run, after a run of \<open>curlen\<close> and before one of \<open>nextlen\<close>: \<open>(max_count, min_count)\<close>.\<close>

definition run_limits :: "int option \<Rightarrow> int option \<Rightarrow> int \<times> int" where
  "run_limits curlen nextlen =
     (if nextlen = Some 0 then (138, 3) else if curlen = nextlen then (6, 3) else (7, 4))"

definition first_limits :: "int option \<Rightarrow> int \<times> int" where
  "first_limits nextlen = (if nextlen = Some 0 then (138, 3) else (7, 4))"

text \<open>How a run of \<open>count\<close> lengths \<open>curlen\<close> is counted in \<open>bl_tree\<close>.\<close>

definition count_run :: "int \<Rightarrow> int option \<Rightarrow> int \<Rightarrow> int \<Rightarrow> slots \<Rightarrow> slots eff" where
  "count_run min_count prevlen curlen count bl =
     (if count < min_count then bump bl (curlen * 2) count
      else if curlen \<noteq> 0 then
        ebind (if Some curlen \<noteq> prevlen then bump bl (curlen * 2) 1 else Inr bl) (\<lambda>bl1. bump bl1 (REP_3_6 * 2) 1)
      else if count \<le> 10 then bump bl (REPZ_3_10 * 2) 1
      else bump bl (REPZ_11_138 * 2) 1)"

text \<open>
  The loop of \<open>scan_tree\<close> over the symbols from \<open>n\<close> on; \<open>prevlen\<close> and \<open>count\<close> are those of the source,
  \<open>k\<close> is the number of symbols left.
\<close>

fun scan_from :: "nat \<Rightarrow> int \<Rightarrow> slots \<Rightarrow> int option \<Rightarrow> int option \<Rightarrow> int \<Rightarrow> int \<times> int \<Rightarrow> slots \<Rightarrow> slots eff" where
  "scan_from 0 n tree prevlen nextlen count lims bl = Inr bl"
| "scan_from (Suc k) n tree prevlen nextlen count lims bl =
     (let curlen = nextlen; nextlen1 = slot_at tree ((n + 1) * 2 + 1); count1 = count + 1 in
      if count1 < fst lims \<and> curlen = nextlen1
      then scan_from k (n + 1) tree prevlen nextlen1 count1 lims bl
      else ebind (known curlen) (\<lambda>c.
        ebind (count_run (snd lims) prevlen c count1 bl) (\<lambda>bl1.
          scan_from k (n + 1) tree curlen nextlen1 0 (run_limits curlen nextlen1) bl1)))"

definition scan_tree :: "slots \<Rightarrow> int \<Rightarrow> slots \<Rightarrow> (slots \<times> slots) eff" where
  "scan_tree tree max_code bl =
     (let nextlen = slot_at tree 1; tree1 = put_slot tree ((max_code + 1) * 2 + 1) 0xffff in
      ebind (scan_from (nat (max_code + 1)) 0 tree1 (Some (- 1)) nextlen 0 (first_limits nextlen) bl) (\<lambda>bl1.
        Inr (tree1, bl1)))"

text \<open>The last position of \<open>bl_order\<close> with a length to send, from 3 on; 2 when there is none.\<close>

function last_bl :: "slots \<Rightarrow> int \<Rightarrow> int eff" where
  "last_bl bl i =
     (if i \<ge> 3 then
        ebind (elem bl_order i) (\<lambda>k.
          if slot_at bl (k * 2 + 1) \<noteq> Some 0 then Inr i else last_bl bl (i - 1))
      else Inr i)"
  by pat_completeness auto
termination by (relation "measure (\<lambda>(b, i). nat i)") auto

declare first_pass.simps [simp del] shorter_used.simps [simp del] shed.simps [simp del] deal.simps [simp del]
  reverse_loop.simps [simp del] force_two.simps [simp del] last_bl.simps [simp del]

definition build_l_tree :: "trees \<Rightarrow> trees prog" where
  "build_l_tree t = pbind (build_tree static_l_desc (dyn_ltree t) (work t)) (\<lambda>(tree, m, s).
     ret (t\<lparr>dyn_ltree := tree, l_max_code := Some m, work := s\<rparr>))"

definition build_d_tree :: "trees \<Rightarrow> trees prog" where
  "build_d_tree t = pbind (build_tree static_d_desc (dyn_dtree t) (work t)) (\<lambda>(tree, m, s).
     ret (t\<lparr>dyn_dtree := tree, d_max_code := Some m, work := s\<rparr>))"

definition build_bl_tree :: "trees \<Rightarrow> (int \<times> trees) prog" where
  "build_bl_tree t =
     pbind (lift (known (l_max_code t))) (\<lambda>lm.
     pbind (lift (known (d_max_code t))) (\<lambda>dm.
     pbind (lift (scan_tree (dyn_ltree t) lm (bl_tree t))) (\<lambda>(lt, bl1).
     pbind (lift (scan_tree (dyn_dtree t) dm bl1)) (\<lambda>(dt, bl2).
     pbind (build_tree static_bl_desc bl2 (work t)) (\<lambda>(bl3, m, s).
     pbind (lift (last_bl bl3 (BL_CODES - 1))) (\<lambda>i.
       ret (i, t\<lparr>dyn_ltree := lt, dyn_dtree := dt, bl_tree := bl3, bl_max_code := Some m,
         work := s\<lparr>opt_len := opt_len s + 3 * (i + 1) + 5 + 5 + 4\<rparr>\<rparr>)))))))"

end
