(* ===== verification/Defl_Block.thy ===== *)
theory Defl_Block
  imports Defl_Tree
begin

text \<open>
  The output side of the compressor \<^verbatim>\<open>html/lib/deflate.js\<close>: bits and bytes to \<open>pending_buf\<close>, the
  description of the dynamic trees, the buffer of literals and matches, which lies in \<open>pending_buf\<close>
  too, and the choice of the encoding of a block.
\<close>

section \<open>Bytes and bits\<close>

record out_buf =
  pending_buf :: "byte list"
  pending :: int
  pending_out :: int
  bi_buf :: int
  bi_valid :: int
  last_eob_len :: int

definition put_byte :: "int \<Rightarrow> out_buf \<Rightarrow> out_buf" where
  "put_byte p o1 = o1\<lparr>pending_buf := arr_put (pending_buf o1) (pending o1) (word_of_int p), pending := pending o1 + 1\<rparr>"

definition put_short :: "int \<Rightarrow> out_buf \<Rightarrow> out_buf" where
  "put_short w o1 = put_byte (js_and (js_ushr w 8) 0xff) (put_byte (js_and w 0xff) o1)"

definition putShortMSB :: "int \<Rightarrow> out_buf \<Rightarrow> out_buf" where
  "putShortMSB b o1 = put_byte (js_and (js_and b 0xff) 0xff) (put_byte (js_and (js_shr b 8) 0xff) o1)"

definition send_bits :: "int \<Rightarrow> int \<Rightarrow> out_buf \<Rightarrow> out_buf" where
  "send_bits value len o1 =
     (let merged = js_or (bi_buf o1) (js_and (js_shl value (bi_valid o1)) 0xffff) in
      if bi_valid o1 > Buf_size - len then
        (put_short merged o1)\<lparr>bi_buf := js_ushr value (Buf_size - bi_valid o1),
           bi_valid := bi_valid o1 + (len - Buf_size)\<rparr>
      else o1\<lparr>bi_buf := merged, bi_valid := bi_valid o1 + len\<rparr>)"

text \<open>\<open>tree[i] & 0xffff\<close>\<close>

definition low16 :: "slots \<Rightarrow> int \<Rightarrow> int" where
  "low16 tree i = js_and (or_zero (slot_at tree i)) 0xffff"

definition send_code :: "int \<Rightarrow> slots \<Rightarrow> out_buf \<Rightarrow> out_buf" where
  "send_code c tree o1 = send_bits (low16 tree (c * 2)) (low16 tree (c * 2 + 1)) o1"

definition bi_flush :: "out_buf \<Rightarrow> out_buf" where
  "bi_flush o1 =
     (if bi_valid o1 = 16 then (put_short (bi_buf o1) o1)\<lparr>bi_buf := 0, bi_valid := 0\<rparr>
      else if bi_valid o1 \<ge> 8 then
        (put_byte (js_and (bi_buf o1) 0xff) o1)\<lparr>bi_buf := js_ushr (bi_buf o1) 8, bi_valid := bi_valid o1 - 8\<rparr>
      else o1)"

definition bi_windup :: "out_buf \<Rightarrow> out_buf" where
  "bi_windup o1 =
     (if bi_valid o1 > 8 then put_short (bi_buf o1) o1
      else if bi_valid o1 > 0 then put_byte (js_and (bi_buf o1) 0xff) o1
      else o1)\<lparr>bi_buf := 0, bi_valid := 0\<rparr>"

definition static_code :: "int \<Rightarrow> out_buf \<Rightarrow> out_buf" where
  "static_code c o1 = send_code c (map Some static_ltree) o1"

definition tr_align :: "out_buf \<Rightarrow> out_buf" where
  "tr_align o1 =
     (let o2 = bi_flush (static_code END_BLOCK (send_bits (js_shl STATIC_TREES 1) 3 o1));
          o3 = (if 1 + last_eob_len o2 + 10 - bi_valid o2 < 9
                then bi_flush (static_code END_BLOCK (send_bits (js_shl STATIC_TREES 1) 3 o2)) else o2)
      in o3\<lparr>last_eob_len := 7\<rparr>)"

definition copy_block :: "byte list \<Rightarrow> int \<Rightarrow> int \<Rightarrow> bool \<Rightarrow> out_buf \<Rightarrow> out_buf eff" where
  "copy_block window buf len header o1 =
     (let o2 = (bi_windup o1)\<lparr>last_eob_len := 8\<rparr>;
          o3 = (if header then put_short (NOT len) (put_short len o2) else o2) in
      ebind (arr_set (pending_buf o3) (pending o3) (rel_slice window buf (buf + len))) (\<lambda>p.
        Inr (o3\<lparr>pending_buf := p, pending := pending o3 + len\<rparr>)))"

definition tr_stored_block :: "byte list \<Rightarrow> int \<Rightarrow> int \<Rightarrow> bool \<Rightarrow> out_buf \<Rightarrow> out_buf eff" where
  "tr_stored_block window buf stored_len eof o1 =
     copy_block window buf stored_len True
       (send_bits (js_shl STORED_BLOCK 1 + (if eof then 1 else 0)) 3 o1)"

section \<open>The dynamic trees\<close>

text \<open>\<open>do send_code(curlen, bl_tree) while (--count !== 0)\<close>\<close>

fun send_times :: "nat \<Rightarrow> int \<Rightarrow> slots \<Rightarrow> out_buf \<Rightarrow> out_buf" where
  "send_times 0 c bl o1 = o1"
| "send_times (Suc n) c bl o1 = send_times n c bl (send_code c bl o1)"

definition send_run :: "slots \<Rightarrow> int \<Rightarrow> int option \<Rightarrow> int \<Rightarrow> int \<Rightarrow> out_buf \<Rightarrow> out_buf" where
  "send_run bl min_count prevlen curlen count o1 =
     (if count < min_count then send_times (nat count) curlen bl o1
      else if curlen \<noteq> 0 then
        (let sent = Some curlen \<noteq> prevlen;
             o2 = (if sent then send_code curlen bl o1 else o1);
             count1 = (if sent then count - 1 else count)
         in send_bits (count1 - 3) 2 (send_code REP_3_6 bl o2))
      else if count \<le> 10 then send_bits (count - 3) 3 (send_code REPZ_3_10 bl o1)
      else send_bits (count - 11) 7 (send_code REPZ_11_138 bl o1))"

fun send_from :: "nat \<Rightarrow> int \<Rightarrow> slots \<Rightarrow> slots \<Rightarrow> int option \<Rightarrow> int option \<Rightarrow> int \<Rightarrow> int \<times> int \<Rightarrow> out_buf \<Rightarrow> out_buf eff" where
  "send_from 0 n tree bl prevlen nextlen count lims o1 = Inr o1"
| "send_from (Suc k) n tree bl prevlen nextlen count lims o1 =
     (let curlen = nextlen; nextlen1 = slot_at tree ((n + 1) * 2 + 1); count1 = count + 1 in
      if count1 < fst lims \<and> curlen = nextlen1
      then send_from k (n + 1) tree bl prevlen nextlen1 count1 lims o1
      else ebind (known curlen) (\<lambda>c.
        send_from k (n + 1) tree bl curlen nextlen1 0 (run_limits curlen nextlen1)
          (send_run bl (snd lims) prevlen c count1 o1)))"

definition send_tree :: "slots \<Rightarrow> int \<Rightarrow> slots \<Rightarrow> out_buf \<Rightarrow> out_buf eff" where
  "send_tree tree max_code bl o1 =
     (let nextlen = slot_at tree 1 in
      send_from (nat (max_code + 1)) 0 tree bl (Some (- 1)) nextlen 0 (first_limits nextlen) o1)"

fun send_bl_lengths :: "slots \<Rightarrow> int list \<Rightarrow> out_buf \<Rightarrow> out_buf eff" where
  "send_bl_lengths bl [] o1 = Inr o1"
| "send_bl_lengths bl (k # ks) o1 =
     ebind (slot bl (k * 2 + 1)) (\<lambda>l. send_bl_lengths bl ks (send_bits l 3 o1))"

definition send_all_trees :: "trees \<Rightarrow> int \<Rightarrow> int \<Rightarrow> int \<Rightarrow> out_buf \<Rightarrow> out_buf eff" where
  "send_all_trees t lcodes dcodes blcodes o1 =
     (let o2 = send_bits (blcodes - 4) 4 (send_bits (dcodes - 1) 5 (send_bits (lcodes - 257) 5 o1)) in
      ebind (send_bl_lengths (bl_tree t) (take (nat blcodes) bl_order) o2) (\<lambda>o3.
      ebind (send_tree (dyn_ltree t) (lcodes - 1) (bl_tree t) o3) (\<lambda>o4.
        send_tree (dyn_dtree t) (dcodes - 1) (bl_tree t) o4)))"

section \<open>Literals and matches\<close>

text \<open>Where the symbols of the block lie in \<open>pending_buf\<close>: distances from \<open>d_buf\<close>, the rest from \<open>l_buf\<close>.\<close>

record lit_buf =
  lit_bufsize :: int
  last_lit :: int
  matches :: int
  l_buf :: int
  d_buf :: int

text \<open>What a symbol adds to the frequencies; \<open>tally_counts\<close> is the update of the trees.\<close>

definition tally_counts :: "int \<Rightarrow> int \<Rightarrow> trees \<Rightarrow> trees eff" where
  "tally_counts dist lc t =
     (if dist = 0 then ebind (bump (dyn_ltree t) (lc * 2) 1) (\<lambda>lt. Inr (t\<lparr>dyn_ltree := lt\<rparr>))
      else
        ebind (elem length_code lc) (\<lambda>code.
        ebind (bump (dyn_ltree t) ((code + LITERALS + 1) * 2) 1) (\<lambda>lt.
        ebind (d_code (dist - 1)) (\<lambda>dc.
        ebind (bump (dyn_dtree t) (dc * 2) 1) (\<lambda>dt. Inr (t\<lparr>dyn_ltree := lt, dyn_dtree := dt\<rparr>))))))"

fun dist_bits :: "slots \<Rightarrow> nat \<Rightarrow> int \<Rightarrow> int eff" where
  "dist_bits dt 0 out_length = Inr out_length"
| "dist_bits dt (Suc k) out_length =
     (let dcode = D_CODES - int (Suc k) in
      ebind (slot dt (dcode * 2)) (\<lambda>f. ebind (elem extra_dbits dcode) (\<lambda>x.
        dist_bits dt k (out_length + f * (5 + x)))))"

text \<open>\<open>_tr_tally\<close>; \<open>in_length\<close> is the length of the block so far.\<close>

definition tr_tally :: "int \<Rightarrow> int \<Rightarrow> int \<Rightarrow> int \<Rightarrow> lit_buf \<Rightarrow> trees \<Rightarrow> out_buf \<Rightarrow> (bool \<times> lit_buf \<times> trees \<times> out_buf) eff" where
  "tr_tally level in_length dist lc l t o1 =
     (let b1 = arr_put (pending_buf o1) (d_buf l + last_lit l * 2) (word_of_int (js_and (js_ushr dist 8) 0xff));
          b2 = arr_put b1 (d_buf l + last_lit l * 2 + 1) (word_of_int (js_and dist 0xff));
          b3 = arr_put b2 (l_buf l + last_lit l) (word_of_int (js_and lc 0xff));
          l1 = l\<lparr>last_lit := last_lit l + 1, matches := (if dist = 0 then matches l else matches l + 1)\<rparr>;
          o2 = o1\<lparr>pending_buf := b3\<rparr> in
      ebind (tally_counts dist lc t) (\<lambda>t1.
      ebind (if js_and (last_lit l1) 0x1fff = 0 \<and> level > 2 then
               ebind (dist_bits (dyn_dtree t1) (nat D_CODES) (last_lit l1 * 8)) (\<lambda>n.
                 Inr (matches l1 < last_lit l1 div 2 \<and> js_ushr n 3 < in_length div 2))
             else Inr False) (\<lambda>short.
        Inr (short \<or> last_lit l1 = lit_bufsize l1 - 1, l1, t1, o2))))"

text \<open>Symbol \<open>lx\<close> as it is read back, \<open>(dist, lc)\<close>.\<close>

definition byte_at :: "byte list \<Rightarrow> int \<Rightarrow> int" where
  "byte_at b i = (case arr_at b i of None \<Rightarrow> 0 | Some x \<Rightarrow> uint x)"

definition symbol_at :: "lit_buf \<Rightarrow> byte list \<Rightarrow> int \<Rightarrow> int \<times> int" where
  "symbol_at l b lx =
     (js_or (js_and (js_shl (byte_at b (d_buf l + lx * 2)) 8) 0xff00) (js_and (byte_at b (d_buf l + lx * 2 + 1)) 0xff),
      js_and (byte_at b (l_buf l + lx)) 0xff)"

definition send_extra :: "int \<Rightarrow> int \<Rightarrow> int list \<Rightarrow> int list \<Rightarrow> out_buf \<Rightarrow> out_buf eff" where
  "send_extra code x extras bases o1 =
     ebind (elem extras code) (\<lambda>extra.
       if extra = 0 then Inr o1
       else ebind (elem bases code) (\<lambda>base. Inr (send_bits (x - base) extra o1)))"

definition send_symbol :: "slots \<Rightarrow> slots \<Rightarrow> int \<Rightarrow> int \<Rightarrow> out_buf \<Rightarrow> out_buf eff" where
  "send_symbol ltree dtree dist lc o1 =
     (if dist = 0 then Inr (send_code lc ltree o1)
      else
        ebind (elem length_code lc) (\<lambda>code.
        ebind (send_extra code lc extra_lbits base_length (send_code (code + LITERALS + 1) ltree o1)) (\<lambda>o2.
        ebind (d_code (dist - 1)) (\<lambda>dc.
          send_extra dc (dist - 1) extra_dbits base_dist (send_code dc dtree o2)))))"

fun send_symbols :: "slots \<Rightarrow> slots \<Rightarrow> lit_buf \<Rightarrow> nat \<Rightarrow> int \<Rightarrow> out_buf \<Rightarrow> out_buf eff" where
  "send_symbols ltree dtree l 0 lx o1 = Inr o1"
| "send_symbols ltree dtree l (Suc k) lx o1 =
     (case symbol_at l (pending_buf o1) lx of (dist, lc) \<Rightarrow>
        ebind (send_symbol ltree dtree dist lc o1) (send_symbols ltree dtree l k (lx + 1)))"

definition compress_block :: "slots \<Rightarrow> slots \<Rightarrow> lit_buf \<Rightarrow> out_buf \<Rightarrow> out_buf eff" where
  "compress_block ltree dtree l o1 =
     ebind (send_symbols ltree dtree l (nat (last_lit l)) 0 o1) (\<lambda>o2.
     ebind (slot ltree (END_BLOCK * 2 + 1)) (\<lambda>n.
       Inr ((send_code END_BLOCK ltree o2)\<lparr>last_eob_len := n\<rparr>)))"

section \<open>Blocks\<close>

fun sum_freq :: "slots \<Rightarrow> int \<Rightarrow> nat \<Rightarrow> int eff" where
  "sum_freq t n 0 = Inr 0"
| "sum_freq t n (Suc k) = ebind (slot t (n * 2)) (\<lambda>f. ebind (sum_freq t (n + 1) k) (\<lambda>s. Inr (f + s)))"

definition set_data_type :: "slots \<Rightarrow> int eff" where
  "set_data_type lt =
     ebind (sum_freq lt 0 7) (\<lambda>b1.
     ebind (sum_freq lt 7 (128 - 7)) (\<lambda>ascii_freq.
     ebind (sum_freq lt 128 (nat LITERALS - 128)) (\<lambda>b2.
       Inr (js_and (if b1 + b2 > js_ushr ascii_freq 2 then Z_BINARY else Z_ASCII) 0xff))))"

definition clear_freqs :: "int \<Rightarrow> slots \<Rightarrow> slots" where
  "clear_freqs n t = fold (\<lambda>i t. put_slot t (int i * 2) 0) [0..<nat n] t"

definition init_block :: "trees \<Rightarrow> lit_buf \<Rightarrow> trees \<times> lit_buf" where
  "init_block t l =
     (t\<lparr>dyn_ltree := put_slot (clear_freqs L_CODES (dyn_ltree t)) (END_BLOCK * 2) 1,
        dyn_dtree := clear_freqs D_CODES (dyn_dtree t), bl_tree := clear_freqs BL_CODES (bl_tree t),
        work := (work t)\<lparr>opt_len := 0, static_len := 0\<rparr>\<rparr>,
      l\<lparr>last_lit := 0, matches := 0\<rparr>)"

text \<open>The trees of a block that is not forced to be stored: \<open>(opt_lenb, static_lenb, max_blindex)\<close>.\<close>

definition block_trees :: "trees \<Rightarrow> (int \<times> int \<times> int \<times> trees) prog" where
  "block_trees t =
     pbind (build_l_tree t) (\<lambda>t1. pbind (build_d_tree t1) (\<lambda>t2. pbind (build_bl_tree t2) (\<lambda>(i, t3).
       let opt_lenb = js_ushr (opt_len (work t3) + 3 + 7) 3;
           static_lenb = js_ushr (static_len (work t3) + 3 + 7) 3 in
       ret (if static_lenb \<le> opt_lenb then static_lenb else opt_lenb, static_lenb, i, t3))))"

text \<open>\<open>_tr_flush_block\<close>; \<open>buf\<close> is -1 when the block is no longer in the window.\<close>

definition encode_block :: "byte list \<Rightarrow> int \<Rightarrow> int \<Rightarrow> bool \<Rightarrow> int \<times> int \<times> int \<times> trees \<Rightarrow> lit_buf \<Rightarrow> out_buf \<Rightarrow> out_buf eff" where
  "encode_block window buf stored_len eof lens l o1 =
     (case lens of (opt_lenb, static_lenb, max_blindex, t) \<Rightarrow>
       if stored_len + 4 \<le> opt_lenb \<and> buf \<noteq> - 1 then tr_stored_block window buf stored_len eof o1
       else if static_lenb = opt_lenb then
         compress_block (map Some static_ltree) (map Some static_dtree) l
           (send_bits (js_shl STATIC_TREES 1 + (if eof then 1 else 0)) 3 o1)
       else
         ebind (known (l_max_code t)) (\<lambda>lm. ebind (known (d_max_code t)) (\<lambda>dm.
         ebind (send_all_trees t (lm + 1) (dm + 1) (max_blindex + 1)
             (send_bits (js_shl DYN_TREES 1 + (if eof then 1 else 0)) 3 o1)) (\<lambda>o2.
           compress_block (dyn_ltree t) (dyn_dtree t) l o2))))"

definition tr_flush_block :: "int \<Rightarrow> int option \<Rightarrow> byte list \<Rightarrow> int \<Rightarrow> int \<Rightarrow> bool \<Rightarrow> trees \<Rightarrow> lit_buf \<Rightarrow> out_buf \<Rightarrow>
    (int option \<times> trees \<times> lit_buf \<times> out_buf) prog" where
  "tr_flush_block level data_type window buf stored_len eof t l o1 =
     pbind (lift (if level > 0 \<and> data_type = Some Z_UNKNOWN
                  then ebind (set_data_type (dyn_ltree t)) (\<lambda>d. Inr (Some d)) else Inr data_type)) (\<lambda>data_type1.
     pbind (if level > 0 then block_trees t else ret (stored_len + 5, stored_len + 5, 0, t)) (\<lambda>lens.
     pbind (lift (encode_block window buf stored_len eof lens l o1)) (\<lambda>o2.
       case init_block (snd (snd (snd lens))) l of (t1, l1) \<Rightarrow>
         ret (data_type1, t1, l1, if eof then bi_windup o2 else o2))))"

end
