(* ===== verification/Defl_Window.thy ===== *)
theory Defl_Window
  imports Defl_Block
begin

text \<open>
  The input side of the compressor \<^verbatim>\<open>html/lib/deflate.js\<close>: the stream, the sliding window with its
  hash chains, and the search for matches.
\<close>

section \<open>State\<close>

text \<open>\<open>ZStream\<close>; \<open>next_in\<close> is absent before the first \<open>append\<close>.\<close>

record dstream =
  z_next_in :: "byte list option"
  z_next_in_index :: int
  z_avail_in :: int
  z_total_in :: int
  z_next_out :: "byte list option"
  z_next_out_index :: int
  z_avail_out :: int
  z_total_out :: int
  z_message :: "string option"
  z_data_type :: "int option"

definition new_ZStream :: dstream where
  "new_ZStream = \<lparr>z_next_in = None, z_next_in_index = 0, z_avail_in = 0, z_total_in = 0, z_next_out = None,
     z_next_out_index = 0, z_avail_out = 0, z_total_out = 0, z_message = None, z_data_type = None\<rparr>"

record matcher =
  window :: "byte list"
  window_size :: int
  w_size :: int
  w_bits :: int
  w_mask :: int
  prev :: slots
  head :: slots
  ins_h :: int
  hash_size :: int
  hash_bits :: int
  hash_mask :: int
  hash_shift :: int
  block_start :: int
  match_length :: int
  prev_match :: int
  match_available :: bool
  strstart :: int
  match_start :: int
  lookahead :: int
  prev_length :: int

record tuning =
  level :: int
  strategy :: int
  max_chain_length :: int
  max_lazy_match :: int
  good_match :: int
  nice_match :: int

text \<open>\<open>read_buf\<close>: how much was read, the array it went into, and the stream.\<close>

definition read_buf :: "byte list \<Rightarrow> int \<Rightarrow> int \<Rightarrow> dstream \<Rightarrow> (int \<times> byte list \<times> dstream) eff" where
  "read_buf buf start room z =
     (let len = min (z_avail_in z) room in
      if len = 0 then Inr (0, buf, z)
      else
        (case z_next_in z of None \<Rightarrow> Inl (Raises TypeError)
         | Some input \<Rightarrow>
             ebind (arr_set buf start (rel_slice input (z_next_in_index z) (z_next_in_index z + len))) (\<lambda>buf1.
               Inr (len, buf1, z\<lparr>z_avail_in := z_avail_in z - len, z_next_in_index := z_next_in_index z + len,
                 z_total_in := z_total_in z + len\<rparr>))))"

text \<open>\<open>flush_pending\<close>\<close>

definition flush_pending :: "out_buf \<Rightarrow> dstream \<Rightarrow> (out_buf \<times> dstream) eff" where
  "flush_pending o1 z =
     (let len = min (pending o1) (z_avail_out z) in
      if len = 0 then Inr (o1, z)
      else
        (case z_next_out z of None \<Rightarrow> Inl (Raises TypeError)
         | Some out \<Rightarrow>
             ebind (arr_set out (z_next_out_index z) (rel_slice (pending_buf o1) (pending_out o1) (pending_out o1 + len))) (\<lambda>out1.
               let rest = pending o1 - len in
               Inr (o1\<lparr>pending := rest, pending_out := (if rest = 0 then 0 else pending_out o1 + len)\<rparr>,
                 z\<lparr>z_next_out := Some out1, z_next_out_index := z_next_out_index z + len,
                   z_total_out := z_total_out z + len, z_avail_out := z_avail_out z - len\<rparr>))))"

section \<open>The hash chains\<close>

text \<open>\<open>window[i] & 0xff\<close>, and the hash of a string extended by the byte \<open>c\<close>.\<close>

definition win_byte :: "byte list \<Rightarrow> int \<Rightarrow> int" where
  "win_byte w i = js_and (byte_at w i) 0xff"

definition update_hash :: "matcher \<Rightarrow> int \<Rightarrow> int \<Rightarrow> int" where
  "update_hash w h c = js_and (js_xor (js_shl h (hash_shift w)) c) (hash_mask w)"

text \<open>The string at \<open>strstart\<close> becomes the head of its chain; the result is the old head.\<close>

definition insert_string :: "matcher \<Rightarrow> int \<times> matcher" where
  "insert_string w =
     (let h = update_hash w (ins_h w) (win_byte (window w) (strstart w + (MIN_MATCH - 1)));
          old = slot_at (head w) h in
      (js_and (or_zero old) 0xffff,
       w\<lparr>ins_h := h, prev := store (prev w) (js_and (strstart w) (w_mask w)) old,
         head := put_slot (head w) h (strstart w)\<rparr>))"

text \<open>The hash of the two bytes at \<open>strstart\<close>.\<close>

definition restart_hash :: "matcher \<Rightarrow> matcher" where
  "restart_hash w =
     w\<lparr>ins_h := update_hash w (win_byte (window w) (strstart w)) (win_byte (window w) (strstart w + 1))\<rparr>"

text \<open>The positions of a table move down by the size of the window.\<close>

definition slide_table :: "int \<Rightarrow> int \<Rightarrow> slots \<Rightarrow> slots" where
  "slide_table wsize n t =
     map (\<lambda>p. let m = js_and (or_zero (slot_at t (int p))) 0xffff in Some (if m \<ge> wsize then m - wsize else 0)) [0..<nat n]
     @ drop (nat n) t"

definition slide_window :: "matcher \<Rightarrow> matcher eff" where
  "slide_window w =
     ebind (arr_set (window w) 0 (rel_slice (window w) (w_size w) (w_size w + w_size w))) (\<lambda>win.
       Inr (w\<lparr>window := win, match_start := match_start w - w_size w, strstart := strstart w - w_size w,
         block_start := block_start w - w_size w, head := slide_table (w_size w) (hash_size w) (head w),
         prev := slide_table (w_size w) (w_size w) (prev w)\<rparr>))"

section \<open>The window\<close>

text \<open>The room at the end of the window, after sliding when there is too little: \<open>more\<close>.\<close>

definition make_space :: "matcher \<Rightarrow> (int \<times> matcher) eff" where
  "make_space w =
     (let more = window_size w - lookahead w - strstart w in
      if more = 0 \<and> strstart w = 0 \<and> lookahead w = 0 then Inr (w_size w, w)
      else if more = - 1 then Inr (more - 1, w)
      else if strstart w \<ge> w_size w + w_size w - MIN_LOOKAHEAD
      then ebind (slide_window w) (\<lambda>w1. Inr (more + w_size w, w1))
      else Inr (more, w))"

definition fill_step :: "matcher \<times> dstream \<Rightarrow> (matcher \<times> dstream, matcher \<times> dstream) next_step eff" where
  "fill_step wz =
     (case wz of (w, z) \<Rightarrow>
       ebind (make_space w) (\<lambda>(more, w1).
         if z_avail_in z = 0 then Inr (Back (w1, z))
         else ebind (read_buf (window w1) (strstart w1 + lookahead w1) more z) (\<lambda>(n, win, z1).
           let w2 = w1\<lparr>window := win, lookahead := lookahead w1 + n\<rparr>;
               w3 = (if lookahead w2 \<ge> MIN_MATCH then restart_hash w2 else w2) in
           Inr (if lookahead w3 < MIN_LOOKAHEAD \<and> z_avail_in z1 \<noteq> 0 then Go (w3, z1) else Back (w3, z1)))))"

definition fill_window :: "matcher \<Rightarrow> dstream \<Rightarrow> (matcher \<times> dstream) prog" where
  "fill_window w z = loop (\<lambda>x. lift (fill_step x)) (w, z)"

section \<open>Matches\<close>

text \<open>
  Up to \<open>k\<close> comparisons \<open>window[++scan] == window[++match]\<close>, as far as they succeed; equality of
  \<open>undefined\<close> included.
\<close>

fun compare_run :: "nat \<Rightarrow> byte list \<Rightarrow> int \<Rightarrow> int \<Rightarrow> int \<times> int \<times> bool" where
  "compare_run 0 w scan mat = (scan, mat, True)"
| "compare_run (Suc k) w scan mat =
     (if arr_at w (scan + 1) = arr_at w (mat + 1) then compare_run k w (scan + 1) (mat + 1)
      else (scan + 1, mat + 1, False))"

lemma compare_run_scan: "compare_run k w scan mat = (s, m, True) \<Longrightarrow> s = scan + int k"
  by (induction k w scan mat rule: compare_run.induct) (auto split: if_splits)

function scan_on :: "byte list \<Rightarrow> int \<Rightarrow> int \<Rightarrow> int \<Rightarrow> int" where
  "scan_on w strend scan mat =
     (case compare_run 8 w scan mat of (s, m, equal) \<Rightarrow>
        if equal \<and> s < strend then scan_on w strend s m else s)"
  by pat_completeness auto
termination
  by (relation "measure (\<lambda>(w, strend, scan, mat). nat (strend - scan))") (auto dest!: compare_run_scan [OF sym])

declare scan_on.simps [simp del]

record search =
  q_start :: int
  q_best :: int
  q_end1 :: "byte option"
  q_end :: "byte option"
  q_chain :: int
  q_cur :: int

text \<open>The walk to the next element of the chain: \<open>while ((cur_match = \<dots>) > limit && --chain_length !== 0)\<close>.\<close>

definition next_link :: "matcher \<Rightarrow> int \<Rightarrow> search \<Rightarrow> (search, search) next_step" where
  "next_link w limit q =
     (let c = js_and (or_zero (slot_at (prev w) (js_and (q_cur q) (w_mask w)))) 0xffff in
      if c > limit then
        (let q1 = q\<lparr>q_cur := c, q_chain := q_chain q - 1\<rparr> in if q_chain q1 \<noteq> 0 then Go q1 else Back q1)
      else Back (q\<lparr>q_cur := c\<rparr>))"

definition match_step :: "matcher \<Rightarrow> int \<Rightarrow> int \<Rightarrow> search \<Rightarrow> (search, search) next_step" where
  "match_step w limit nice q =
     (let win = window w; scan = strstart w; strend = scan + MAX_MATCH; cur = q_cur q in
      if arr_at win (cur + q_best q) \<noteq> q_end q \<or> arr_at win (cur + q_best q - 1) \<noteq> q_end1 q \<or>
         arr_at win cur \<noteq> arr_at win scan \<or> arr_at win (cur + 1) \<noteq> arr_at win (scan + 1)
      then next_link w limit q
      else
        (let len = MAX_MATCH - (strend - scan_on win strend (scan + 2) (cur + 2)) in
         if len > q_best q then
           (let q1 = q\<lparr>q_start := cur, q_best := len\<rparr> in
            if len \<ge> nice then Back q1
            else next_link w limit (q1\<lparr>q_end1 := arr_at win (scan + len - 1), q_end := arr_at win (scan + len)\<rparr>))
         else next_link w limit q))"

text \<open>\<open>longest_match\<close>: the length found and the window with its \<open>match_start\<close>.\<close>

definition longest_match :: "tuning \<Rightarrow> int \<Rightarrow> matcher \<Rightarrow> (int \<times> matcher) prog" where
  "longest_match c cur_match w =
     (let scan = strstart w; best = prev_length w;
          limit = (if strstart w > w_size w - MIN_LOOKAHEAD then strstart w - (w_size w - MIN_LOOKAHEAD) else 0);
          chain = (if prev_length w \<ge> good_match c then js_shr (max_chain_length c) 2 else max_chain_length c);
          nice = (if nice_match c > lookahead w then lookahead w else nice_match c);
          q = \<lparr>q_start = match_start w, q_best = best, q_end1 = arr_at (window w) (scan + best - 1),
            q_end = arr_at (window w) (scan + best), q_chain = chain, q_cur = cur_match\<rparr> in
      pbind (loop (\<lambda>x. ret (match_step w limit nice x)) q) (\<lambda>q1.
        ret (if q_best q1 \<le> lookahead w then q_best q1 else lookahead w, w\<lparr>match_start := q_start q1\<rparr>)))"

end
