(* ===== verification/Deflate.thy ===== *)
theory Deflate
  imports Defl_Window
begin

text \<open>
  \<open>Deflate\<close>, \<open>ZStream\<close> and \<open>Deflater\<close> of \<^verbatim>\<open>html/lib/deflate.js\<close>: the three compression functions,
  the state machine around them, and \<open>append\<close> and \<open>flush\<close>, which collect the output in buffers of 512
  bytes. The loops of the source are \<open>loop\<close>s of the model: that they end is proved, not assumed.
\<close>

section \<open>State\<close>

record defl =
  d_status :: deflate_status
  d_last_flush :: int
  d_method :: int
  pending_buf_size :: int
  d_data_type :: "int option"
  d_out :: out_buf
  d_trees :: trees
  d_lits :: lit_buf
  d_win :: matcher
  d_tune :: tuning

text \<open>The compressor together with the stream \<open>strm\<close> it works for.\<close>

type_synonym machine = "defl \<times> dstream"

definition in_win :: "(matcher \<Rightarrow> matcher) \<Rightarrow> defl \<Rightarrow> defl" where
  "in_win f d = d\<lparr>d_win := f (d_win d)\<rparr>"

definition flush_block_only :: "bool \<Rightarrow> machine \<Rightarrow> machine prog" where
  "flush_block_only eof x =
     (case x of (d, z) \<Rightarrow>
       let w = d_win d in
       pbind (tr_flush_block (level (d_tune d)) (d_data_type d) (window w)
           (if block_start w \<ge> 0 then block_start w else - 1) (strstart w - block_start w) eof
           (d_trees d) (d_lits d) (d_out d)) (\<lambda>(ty, t, l, o1).
       pbind (lift (flush_pending o1 z)) (\<lambda>(o2, z1).
         ret (d\<lparr>d_data_type := ty, d_trees := t, d_lits := l, d_out := o2, d_win := w\<lparr>block_start := strstart w\<rparr>\<rparr>, z1))))"

text \<open>How all three compression functions end: the last block, and what to report.\<close>

definition finish_block :: "int \<Rightarrow> machine \<Rightarrow> (block_state \<times> machine) prog" where
  "finish_block flush x =
     pbind (flush_block_only (flush = Z_FINISH) x) (\<lambda>(d, z).
       ret (if z_avail_out z = 0 then if flush = Z_FINISH then FinishStarted else NeedMore
            else if flush = Z_FINISH then FinishDone else BlockDone, (d, z)))"

definition fill :: "machine \<Rightarrow> machine prog" where
  "fill x = (case x of (d, z) \<Rightarrow>
     pbind (fill_window (d_win d) z) (\<lambda>(w, z1). ret (d\<lparr>d_win := w\<rparr>, z1)))"

text \<open>
  A loop of a compression function ends with \<open>return NeedMore\<close> (\<open>True\<close>) or with \<open>break\<close> (\<open>False\<close>), and
  goes on otherwise.
\<close>

type_synonym 's round = "('s, bool \<times> 's) next_step prog"

section \<open>Stored blocks\<close>

definition emit_block :: "machine \<Rightarrow> (machine \<Rightarrow> machine round) \<Rightarrow> machine round" where
  "emit_block x k =
     pbind (flush_block_only False x) (\<lambda>(d, z).
       if z_avail_out z = 0 then ret (Back (True, (d, z))) else k (d, z))"

text \<open>A block that fills \<open>pending_buf\<close> is cut off, and one that may have to slide is sent.\<close>

definition stored_emit :: "int \<Rightarrow> machine \<Rightarrow> machine round" where
  "stored_emit max_block x =
     (case x of (d, z) \<Rightarrow>
       let w = d_win d; stop = strstart w + lookahead w; max_start = block_start w + max_block;
           d1 = in_win (\<lambda>w. w\<lparr>strstart := stop, lookahead := 0\<rparr>) d;
           may_slide = (\<lambda>(d, z). if strstart (d_win d) - block_start (d_win d) \<ge> w_size (d_win d) - MIN_LOOKAHEAD
             then emit_block (d, z) (\<lambda>x. ret (Go x)) else ret (Go (d, z))) in
       if stop = 0 \<or> stop \<ge> max_start
       then emit_block (in_win (\<lambda>w. w\<lparr>lookahead := stop - max_start, strstart := max_start\<rparr>) d1, z) may_slide
       else may_slide (d1, z))"

definition stored_round :: "int \<Rightarrow> int \<Rightarrow> machine \<Rightarrow> machine round" where
  "stored_round flush max_block x =
     (if lookahead (d_win (fst x)) \<le> 1 then
        pbind (fill x) (\<lambda>x1.
          if lookahead (d_win (fst x1)) = 0 then ret (Back (flush = Z_NO_FLUSH, x1)) else stored_emit max_block x1)
      else stored_emit max_block x)"

definition deflate_stored :: "int \<Rightarrow> machine \<Rightarrow> (block_state \<times> machine) prog" where
  "deflate_stored flush x =
     (let max_block = min 0xffff (pending_buf_size (fst x) - 5) in
      pbind (loop (stored_round flush max_block) x) (\<lambda>(more, x1).
        if more then ret (NeedMore, x1) else finish_block flush x1))"

section \<open>Compression with matches\<close>

text \<open>\<open>_tr_tally\<close> on the whole state.\<close>

definition tally :: "int \<Rightarrow> int \<Rightarrow> defl \<Rightarrow> (bool \<times> defl) prog" where
  "tally dist lc d =
     pbind (lift (tr_tally (level (d_tune d)) (strstart (d_win d) - block_start (d_win d)) dist lc (d_lits d) (d_trees d)
       (d_out d))) (\<lambda>(bflush, l, t, o1). ret (bflush, d\<lparr>d_lits := l, d_trees := t, d_out := o1\<rparr>))"

text \<open>The start of a round: more input if there is little; the variable \<open>hash_head\<close> is carried along.\<close>

definition with_input :: "int \<Rightarrow> (machine \<Rightarrow> (machine \<times> int) round) \<Rightarrow> machine \<times> int \<Rightarrow> (machine \<times> int) round" where
  "with_input flush k xh =
     (case xh of (x, h) \<Rightarrow>
       if lookahead (d_win (fst x)) < MIN_LOOKAHEAD then
         pbind (fill x) (\<lambda>x1.
           if lookahead (d_win (fst x1)) < MIN_LOOKAHEAD \<and> flush = Z_NO_FLUSH then ret (Back (True, (x1, h)))
           else if lookahead (d_win (fst x1)) = 0 then ret (Back (False, (x1, h)))
           else k x1)
       else k x)"

text \<open>\<open>(strstart - hash_head) & 0xffff <= w_size - MIN_LOOKAHEAD\<close>, for a head that exists.\<close>

definition near :: "int \<Rightarrow> matcher \<Rightarrow> bool" where
  "near h w = (h \<noteq> 0 \<and> js_and (strstart w - h) 0xffff \<le> w_size w - MIN_LOOKAHEAD)"

definition insert_here :: "int \<Rightarrow> matcher \<Rightarrow> int \<times> matcher" where
  "insert_here h w = (if lookahead w \<ge> MIN_MATCH then insert_string w else (h, w))"

text \<open>\<open>do { strstart++; \<dots> } while (--match_length !== 0)\<close>, run \<open>n\<close> times, \<open>n > 0\<close>.\<close>

fun insert_next :: "nat \<Rightarrow> int \<times> matcher \<Rightarrow> int \<times> matcher" where
  "insert_next 0 hw = hw"
| "insert_next (Suc n) (h, w) = insert_next n (insert_string (w\<lparr>strstart := strstart w + 1\<rparr>))"

text \<open>What \<open>deflate_fast\<close> does to the window after a match of length \<open>match_length\<close>.\<close>

definition skip_match :: "int \<Rightarrow> int \<Rightarrow> matcher \<Rightarrow> int \<times> matcher" where
  "skip_match max_lazyness h w =
     (let len = match_length w; w1 = w\<lparr>lookahead := lookahead w - len\<rparr> in
      if len \<le> max_lazyness \<and> lookahead w1 \<ge> MIN_MATCH
      then (case insert_next (nat (len - 1)) (h, w1) of (h1, w2) \<Rightarrow>
              (h1, w2\<lparr>match_length := 0, strstart := strstart w2 + 1\<rparr>))
      else (h, restart_hash (w1\<lparr>strstart := strstart w1 + len, match_length := 0\<rparr>)))"

text \<open>\<open>if (bflush) { flush_block_only(false); if (strm.avail_out === 0) return NeedMore; }\<close>\<close>

definition flush_full :: "bool \<Rightarrow> machine \<Rightarrow> int \<Rightarrow> (machine \<times> int) round" where
  "flush_full bflush x h =
     (if bflush then pbind (flush_block_only False x) (\<lambda>(d, z).
        ret (if z_avail_out z = 0 then Back (True, ((d, z), h)) else Go ((d, z), h)))
      else ret (Go (x, h)))"

definition fast_step :: "int \<Rightarrow> machine \<Rightarrow> (machine \<times> int) round" where
  "fast_step h x =
     (case x of (d, z) \<Rightarrow>
       case insert_here h (d_win d) of (h1, w1) \<Rightarrow>
       pbind (if near h1 w1 \<and> strategy (d_tune d) \<noteq> Z_HUFFMAN_ONLY
              then pbind (longest_match (d_tune d) h1 w1) (\<lambda>(len, w2). ret (w2\<lparr>match_length := len\<rparr>))
              else ret w1) (\<lambda>w2.
         let d1 = d\<lparr>d_win := w2\<rparr> in
         if match_length w2 \<ge> MIN_MATCH then
           pbind (tally (strstart w2 - match_start w2) (match_length w2 - MIN_MATCH) d1) (\<lambda>(bflush, d2).
             case skip_match (max_lazy_match (d_tune d)) h1 w2 of (h2, w3) \<Rightarrow>
               flush_full bflush (d2\<lparr>d_win := w3\<rparr>, z) h2)
         else
           pbind (tally 0 (win_byte (window w2) (strstart w2)) d1) (\<lambda>(bflush, d2).
             flush_full bflush (in_win (\<lambda>w. w\<lparr>lookahead := lookahead w - 1, strstart := strstart w + 1\<rparr>) d2, z) h1)))"

definition deflate_fast :: "int \<Rightarrow> machine \<Rightarrow> (block_state \<times> machine) prog" where
  "deflate_fast flush x =
     pbind (loop (\<lambda>(x, h). with_input flush (fast_step h) (x, h)) (x, 0)) (\<lambda>(more, (x1, h)).
       if more then ret (NeedMore, x1) else finish_block flush x1)"

text \<open>The match at the current position, as \<open>deflate_slow\<close> looks for it.\<close>

definition lazy_match :: "tuning \<Rightarrow> int \<Rightarrow> matcher \<Rightarrow> matcher prog" where
  "lazy_match c h w =
     (let w1 = w\<lparr>prev_length := match_length w, prev_match := match_start w, match_length := MIN_MATCH - 1\<rparr> in
      if h \<noteq> 0 \<and> prev_length w1 < max_lazy_match c \<and> near h w1 then
        pbind (if strategy c \<noteq> Z_HUFFMAN_ONLY
               then pbind (longest_match c h w1) (\<lambda>(len, w2). ret (w2\<lparr>match_length := len\<rparr>)) else ret w1) (\<lambda>w2.
          ret (if match_length w2 \<le> 5 \<and> (strategy c = Z_FILTERED \<or>
                 (match_length w2 = MIN_MATCH \<and> strstart w2 - match_start w2 > 4096))
               then w2\<lparr>match_length := MIN_MATCH - 1\<rparr> else w2))
      else ret w1)"

text \<open>\<open>do { if (++strstart <= max_insert) \<dots> } while (--prev_length !== 0)\<close>, run \<open>n\<close> times.\<close>

fun insert_up_to :: "int \<Rightarrow> nat \<Rightarrow> int \<times> matcher \<Rightarrow> int \<times> matcher" where
  "insert_up_to max_insert 0 hw = hw"
| "insert_up_to max_insert (Suc n) (h, w) =
     (let w1 = w\<lparr>strstart := strstart w + 1\<rparr> in
      insert_up_to max_insert n (if strstart w1 \<le> max_insert then insert_string w1 else (h, w1)))"

definition use_previous :: "int \<Rightarrow> matcher \<Rightarrow> int \<times> matcher" where
  "use_previous h w =
     (let max_insert = strstart w + lookahead w - MIN_MATCH in
      case insert_up_to max_insert (nat (prev_length w - 2)) (h, w\<lparr>lookahead := lookahead w - (prev_length w - 1)\<rparr>) of
        (h1, w1) \<Rightarrow> (h1, w1\<lparr>prev_length := 0, match_available := False, match_length := MIN_MATCH - 1,
          strstart := strstart w1 + 1\<rparr>))"

definition step_on :: "matcher \<Rightarrow> matcher" where
  "step_on w = w\<lparr>strstart := strstart w + 1, lookahead := lookahead w - 1\<rparr>"

definition slow_step :: "int \<Rightarrow> machine \<Rightarrow> (machine \<times> int) round" where
  "slow_step h x =
     (case x of (d, z) \<Rightarrow>
       case insert_here h (d_win d) of (h1, w1) \<Rightarrow>
       pbind (lazy_match (d_tune d) h1 w1) (\<lambda>w2.
         let d1 = d\<lparr>d_win := w2\<rparr> in
         if prev_length w2 \<ge> MIN_MATCH \<and> match_length w2 \<le> prev_length w2 then
           pbind (tally (strstart w2 - 1 - prev_match w2) (prev_length w2 - MIN_MATCH) d1) (\<lambda>(bflush, d2).
             case use_previous h1 w2 of (h2, w3) \<Rightarrow> flush_full bflush (d2\<lparr>d_win := w3\<rparr>, z) h2)
         else if match_available w2 then
           pbind (tally 0 (win_byte (window w2) (strstart w2 - 1)) d1) (\<lambda>(bflush, d2).
           pbind (if bflush then flush_block_only False (d2, z) else ret (d2, z)) (\<lambda>(d3, z1).
             let x1 = (in_win step_on d3, z1) in
             ret (if z_avail_out z1 = 0 then Back (True, (x1, h1)) else Go (x1, h1))))
         else ret (Go ((in_win (\<lambda>w. step_on (w\<lparr>match_available := True\<rparr>)) d1, z), h1))))"

definition deflate_slow :: "int \<Rightarrow> machine \<Rightarrow> (block_state \<times> machine) prog" where
  "deflate_slow flush x =
     pbind (loop (\<lambda>(x, h). with_input flush (slow_step h) (x, h)) (x, 0)) (\<lambda>(more, ((d, z), h)).
       if more then ret (NeedMore, (d, z))
       else
         pbind (if match_available (d_win d)
                then pbind (tally 0 (win_byte (window (d_win d)) (strstart (d_win d) - 1)) d) (\<lambda>(b, d1).
                  ret (in_win (\<lambda>w. w\<lparr>match_available := False\<rparr>) d1))
                else ret d) (\<lambda>d1. finish_block flush (d1, z)))"

section \<open>Starting\<close>

definition fill_slots :: "int \<Rightarrow> int \<Rightarrow> slots \<Rightarrow> slots" where
  "fill_slots n v t = replicate (nat n) (Some v) @ drop (nat n) t"

text \<open>\<open>max_lazy_match = config_table[level].max_lazy\<close> and its companions.\<close>

definition set_tuning :: "int \<Rightarrow> tuning \<Rightarrow> tuning eff" where
  "set_tuning lev c =
     ebind (elem config_table lev) (\<lambda>f.
       Inr (c\<lparr>level := lev, max_lazy_match := max_lazy f, good_match := good_length f, nice_match := nice_length f,
         max_chain_length := max_chain f\<rparr>))"

definition lm_init :: "defl \<Rightarrow> defl eff" where
  "lm_init d =
     ebind (set_tuning (level (d_tune d)) (d_tune d)) (\<lambda>c.
       Inr (in_win (\<lambda>w. w\<lparr>window_size := 2 * w_size w, head := fill_slots (hash_size w) 0 (head w), strstart := 0,
         block_start := 0, lookahead := 0, match_length := MIN_MATCH - 1, prev_length := MIN_MATCH - 1,
         match_available := False, ins_h := 0\<rparr>) (d\<lparr>d_tune := c\<rparr>)))"

definition tr_init :: "defl \<Rightarrow> defl" where
  "tr_init d =
     (case init_block (d_trees d) (d_lits d) of (t, l) \<Rightarrow>
       d\<lparr>d_out := (d_out d)\<lparr>bi_buf := 0, bi_valid := 0, last_eob_len := 8\<rparr>, d_trees := t, d_lits := l\<rparr>)"

definition deflateReset :: "machine \<Rightarrow> (int \<times> machine) eff" where
  "deflateReset x =
     (case x of (d, z) \<Rightarrow>
       ebind (lm_init (tr_init (d\<lparr>d_out := (d_out d)\<lparr>pending := 0, pending_out := 0\<rparr>, d_status := BUSY_STATE,
           d_last_flush := Z_NO_FLUSH\<rparr>))) (\<lambda>d1.
         Inr (Z_OK, (d1, z\<lparr>z_total_in := 0, z_total_out := 0, z_message := None, z_data_type := Some Z_UNKNOWN\<rparr>))))"

text \<open>A new object, with the arrays and numbers that \<open>deflateInit\<close> gives it before the reset.\<close>

definition new_trees :: trees where
  "new_trees = \<lparr>dyn_ltree = [], dyn_dtree = [], bl_tree = [], l_max_code = None, d_max_code = None, bl_max_code = None,
     work = \<lparr>bl_count = [], heap_arr = [], heap_len = 0, heap_max = 0, depth = [], opt_len = 0, static_len = 0\<rparr>\<rparr>"

definition new_matcher :: "int \<Rightarrow> int \<Rightarrow> matcher" where
  "new_matcher bits memLevel =
     (let wsize = js_shl 1 bits; hbits = memLevel + 7; hsize = js_shl 1 hbits in
      \<lparr>window = replicate (nat (wsize * 2)) 0, window_size = 0, w_size = wsize, w_bits = bits, w_mask = wsize - 1,
       prev = [], head = [], ins_h = 0, hash_size = hsize, hash_bits = hbits, hash_mask = hsize - 1,
       hash_shift = (hbits + MIN_MATCH - 1) div MIN_MATCH, block_start = 0, match_length = 0, prev_match = 0,
       match_available = False, strstart = 0, match_start = 0, lookahead = 0, prev_length = 0\<rparr>)"

definition new_defl :: "int \<Rightarrow> int \<Rightarrow> int \<Rightarrow> int \<Rightarrow> int \<Rightarrow> defl" where
  "new_defl lev bits meth memLevel strat =
     (let bufsize = js_shl 1 (memLevel + 6) in
      \<lparr>d_status = BUSY_STATE, d_last_flush = 0, d_method = js_and meth 0xff, pending_buf_size = bufsize * 4,
       d_data_type = None,
       d_out = \<lparr>pending_buf = replicate (nat (bufsize * 4)) 0, pending = 0, pending_out = 0, bi_buf = 0, bi_valid = 0,
         last_eob_len = 0\<rparr>,
       d_trees = new_trees,
       d_lits = \<lparr>lit_bufsize = bufsize, last_lit = 0, matches = 0, l_buf = (1 + 2) * bufsize, d_buf = bufsize div 2\<rparr>,
       d_win = new_matcher bits memLevel,
       d_tune = \<lparr>level = lev, strategy = strat, max_chain_length = 0, max_lazy_match = 0, good_match = 0, nice_match = 0\<rparr>\<rparr>)"

text \<open>
  \<open>Deflate\<close> and its \<open>deflateInit\<close>; a parameter that is not given is 0. The object is \<open>Unset\<close> until
  \<open>deflateInit\<close> accepts the parameters.
\<close>

datatype deflate_object = Unset | Set defl

definition deflateInit :: "int \<Rightarrow> int \<Rightarrow> int \<Rightarrow> int \<Rightarrow> int \<Rightarrow> dstream \<Rightarrow> (int \<times> deflate_object \<times> dstream) eff" where
  "deflateInit lev0 bits meth0 memLevel0 strat0 z =
     (let meth = (if meth0 = 0 then DEFLATED else meth0);
          memLevel = (if memLevel0 = 0 then DEF_MEM_LEVEL else memLevel0);
          strat = (if strat0 = 0 then Z_DEFAULT_STRATEGY else strat0);
          z1 = z\<lparr>z_message := None\<rparr>;
          lev = (if lev0 = Z_DEFAULT_COMPRESSION then 6 else lev0) in
      if memLevel < 1 \<or> memLevel > MAX_MEM_LEVEL \<or> meth \<noteq> DEFLATED \<or> bits < 9 \<or> bits > 15 \<or> lev < 0 \<or> lev > 9 \<or>
         strat < 0 \<or> strat > Z_HUFFMAN_ONLY
      then Inr (Z_STREAM_ERROR, Unset, z1)
      else ebind (deflateReset (new_defl lev bits meth memLevel strat, z1)) (\<lambda>(r, (d, z2)). Inr (r, Set d, z2)))"

section \<open>deflate\<close>

text \<open>The zlib header, written only in \<open>INIT_STATE\<close>.\<close>

definition zlib_header :: "defl \<Rightarrow> int" where
  "zlib_header d =
     (let h0 = js_shl (DEFLATED + js_shl (w_bits (d_win d) - 8) 4) 8;
          f0 = js_shr (js_and (level (d_tune d) - 1) 0xff) 1;
          h1 = js_or h0 (js_shl (if f0 > 3 then 3 else f0) 6);
          h2 = (if strstart (d_win d) \<noteq> 0 then js_or h1 HEADER_DICT else h1)
      in h2 + (31 - h2 mod 31))"

definition write_header :: "defl \<Rightarrow> defl" where
  "write_header d =
     (if d_status d = INIT_STATE then d\<lparr>d_status := BUSY_STATE, d_out := putShortMSB (zlib_header d) (d_out d)\<rparr> else d)"

definition deflate_with :: "deflate_func \<Rightarrow> int \<Rightarrow> machine \<Rightarrow> (block_state \<times> machine) prog" where
  "deflate_with f flush x =
     (case f of STORE \<Rightarrow> deflate_stored flush x | FAST \<Rightarrow> deflate_fast flush x | SLOW \<Rightarrow> deflate_slow flush x)"

definition forget_flush :: "machine \<Rightarrow> machine" where
  "forget_flush x = ((fst x)\<lparr>d_last_flush := - 1\<rparr>, snd x)"

text \<open>The marker between blocks that a flush which does not finish asks for.\<close>

definition flush_marker :: "int \<Rightarrow> machine \<Rightarrow> machine eff" where
  "flush_marker flush x =
     (case x of (d, z) \<Rightarrow>
       ebind (if flush = Z_PARTIAL_FLUSH then Inr (d\<lparr>d_out := tr_align (d_out d)\<rparr>)
              else ebind (tr_stored_block (window (d_win d)) 0 0 False (d_out d)) (\<lambda>o1.
                let d1 = d\<lparr>d_out := o1\<rparr> in
                Inr (if flush = Z_FULL_FLUSH then in_win (\<lambda>w. w\<lparr>head := fill_slots (hash_size w) 0 (head w)\<rparr>) d1
                     else d1))) (\<lambda>d1.
       ebind (flush_pending (d_out d1) z) (\<lambda>(o2, z1). Inr (d1\<lparr>d_out := o2\<rparr>, z1))))"

definition end_result :: "int \<Rightarrow> int" where
  "end_result flush = (if flush \<noteq> Z_FINISH then Z_OK else Z_STREAM_END)"

text \<open>From \<open>if (strm.avail_in !== 0 || \<dots>)\<close> to the end.\<close>

definition deflate_body :: "int \<Rightarrow> machine \<Rightarrow> (int \<times> machine) prog" where
  "deflate_body flush x =
     (if z_avail_in (snd x) \<noteq> 0 \<or> lookahead (d_win (fst x)) \<noteq> 0 \<or>
         (flush \<noteq> Z_NO_FLUSH \<and> d_status (fst x) \<noteq> FINISH_STATE) then
        pbind (lift (elem config_table (level (d_tune (fst x))))) (\<lambda>f.
        pbind (deflate_with (conf_func f) flush x) (\<lambda>(bstate, (d, z)).
          let d1 = (if bstate = FinishStarted \<or> bstate = FinishDone then d\<lparr>d_status := FINISH_STATE\<rparr> else d) in
          if bstate = NeedMore \<or> bstate = FinishStarted then
            ret (Z_OK, if z_avail_out z = 0 then forget_flush (d1, z) else (d1, z))
          else if bstate = BlockDone then
            pbind (lift (flush_marker flush (d1, z))) (\<lambda>x1.
              ret (if z_avail_out (snd x1) = 0 then (Z_OK, forget_flush x1) else (end_result flush, x1)))
          else ret (end_result flush, (d1, z))))
      else ret (end_result flush, x))"

definition buffer_error :: "machine \<Rightarrow> (int \<times> machine) prog" where
  "buffer_error x = ret (Z_BUF_ERROR, (fst x, (snd x)\<lparr>z_message := Some (z_errmsg ! nat (Z_NEED_DICT - Z_BUF_ERROR))\<rparr>))"

definition stream_error :: "dstream \<Rightarrow> dstream" where
  "stream_error z = z\<lparr>z_message := Some (z_errmsg ! nat (Z_NEED_DICT - Z_STREAM_ERROR))\<rparr>"

text \<open>From the pending output to the end.\<close>

definition deflate_pending :: "int \<Rightarrow> int \<Rightarrow> machine \<Rightarrow> (int \<times> machine) prog" where
  "deflate_pending flush old_flush x =
     (let go = (\<lambda>x. if d_status (fst x) = FINISH_STATE \<and> z_avail_in (snd x) \<noteq> 0 then buffer_error x
                 else deflate_body flush x) in
      if pending (d_out (fst x)) \<noteq> 0 then
        pbind (lift (flush_pending (d_out (fst x)) (snd x))) (\<lambda>(o1, z1).
          let x1 = ((fst x)\<lparr>d_out := o1\<rparr>, z1) in
          if z_avail_out z1 = 0 then ret (Z_OK, forget_flush x1) else go x1)
      else if z_avail_in (snd x) = 0 \<and> flush \<le> old_flush \<and> flush \<noteq> Z_FINISH then buffer_error x
      else go x)"

definition deflate_deflate :: "int \<Rightarrow> machine \<Rightarrow> (int \<times> machine) prog" where
  "deflate_deflate flush x =
     (case x of (d, z) \<Rightarrow>
       if flush > Z_FINISH \<or> flush < 0 then ret (Z_STREAM_ERROR, x)
       else if z_next_out z = None \<or> (z_next_in z = None \<and> z_avail_in z \<noteq> 0) \<or> (d_status d = FINISH_STATE \<and> flush \<noteq> Z_FINISH)
       then ret (Z_STREAM_ERROR, (d, stream_error z))
       else if z_avail_out z = 0 then buffer_error x
       else deflate_pending flush (d_last_flush d) (write_header (d\<lparr>d_last_flush := flush\<rparr>), z))"

text \<open>\<open>deflate\<close> on an object that \<open>deflateInit\<close> has rejected: \<open>pending\<close> and \<open>pending_buf\<close> are undefined.\<close>

definition deflate_unset :: "int \<Rightarrow> dstream \<Rightarrow> (int \<times> dstream) prog" where
  "deflate_unset flush z =
     (if flush > Z_FINISH \<or> flush < 0 then ret (Z_STREAM_ERROR, z)
      else if z_next_out z = None \<or> (z_next_in z = None \<and> z_avail_in z \<noteq> 0) then ret (Z_STREAM_ERROR, stream_error z)
      else if z_avail_out z = 0
      then ret (Z_BUF_ERROR, z\<lparr>z_message := Some (z_errmsg ! nat (Z_NEED_DICT - Z_BUF_ERROR))\<rparr>)
      else Some (Inl (Raises TypeError)))"

definition deflateEnd :: "defl \<Rightarrow> int" where
  "deflateEnd d = (if d_status d = BUSY_STATE then Z_DATA_ERROR else Z_OK)"

definition deflateParams :: "int \<Rightarrow> int \<Rightarrow> machine \<Rightarrow> (int \<times> machine) prog" where
  "deflateParams lev0 strat x =
     (let lev = (if lev0 = Z_DEFAULT_COMPRESSION then 6 else lev0) in
      if lev < 0 \<or> lev > 9 \<or> strat < 0 \<or> strat > Z_HUFFMAN_ONLY then ret (Z_STREAM_ERROR, x)
      else
        pbind (lift (elem config_table (level (d_tune (fst x))))) (\<lambda>f.
        pbind (lift (elem config_table lev)) (\<lambda>g.
        pbind (if conf_func f \<noteq> conf_func g \<and> z_total_in (snd x) \<noteq> 0 then deflate_deflate Z_PARTIAL_FLUSH x
               else ret (Z_OK, x)) (\<lambda>(err, (d, z)).
        pbind (lift (if level (d_tune d) \<noteq> lev then set_tuning lev (d_tune d) else Inr (d_tune d))) (\<lambda>c.
          ret (err, (d\<lparr>d_tune := c\<lparr>strategy := strat\<rparr>\<rparr>, z)))))))"

text \<open>The strings of a dictionary enter the hash chains.\<close>

fun dict_insert :: "nat \<Rightarrow> int \<Rightarrow> matcher \<Rightarrow> matcher" where
  "dict_insert 0 n w = w"
| "dict_insert (Suc k) n w =
     (let h = update_hash w (ins_h w) (win_byte (window w) (n + (MIN_MATCH - 1))) in
      dict_insert k (n + 1) (w\<lparr>ins_h := h, prev := store (prev w) (js_and n (w_mask w)) (slot_at (head w) h),
        head := put_slot (head w) h n\<rparr>))"

definition deflateSetDictionary :: "byte list option \<Rightarrow> int \<Rightarrow> defl \<Rightarrow> (int \<times> defl) eff" where
  "deflateSetDictionary dictionary dictLength d =
     (case dictionary of None \<Rightarrow> Inr (Z_STREAM_ERROR, d)
      | Some dict \<Rightarrow>
          if d_status d \<noteq> INIT_STATE then Inr (Z_STREAM_ERROR, d)
          else if dictLength < MIN_MATCH then Inr (Z_OK, d)
          else
            (let w = d_win d;
                 len = (if dictLength > w_size w - MIN_LOOKAHEAD then w_size w - MIN_LOOKAHEAD else dictLength);
                 index = (if dictLength > w_size w - MIN_LOOKAHEAD then dictLength - len else 0) in
             ebind (arr_set (window w) 0 (rel_slice dict index (index + len))) (\<lambda>win.
               let w1 = w\<lparr>window := win, strstart := len, block_start := len,
                     ins_h := update_hash w (win_byte win 0) (win_byte win 1)\<rparr> in
               Inr (Z_OK, d\<lparr>d_win := dict_insert (nat (len - MIN_MATCH + 1)) 0 w1\<rparr>))))"

section \<open>ZStream\<close>

record dzs =
  dz_state :: "deflate_object option"
  dz_z :: dstream

definition dz_deflateInit :: "int \<Rightarrow> int \<Rightarrow> dzs \<Rightarrow> (int \<times> dzs) eff" where
  "dz_deflateInit lev bits s =
     ebind (deflateInit lev (if bits = 0 then MAX_BITS else bits) 0 0 0 (dz_z s)) (\<lambda>(r, d, z).
       Inr (r, \<lparr>dz_state = Some d, dz_z = z\<rparr>))"

definition dz_deflate :: "int \<Rightarrow> dzs \<Rightarrow> (int \<times> dzs) prog" where
  "dz_deflate flush s =
     (case dz_state s of
        None \<Rightarrow> ret (Z_STREAM_ERROR, s)
      | Some Unset \<Rightarrow> pbind (deflate_unset flush (dz_z s)) (\<lambda>(r, z). ret (r, s\<lparr>dz_z := z\<rparr>))
      | Some (Set d) \<Rightarrow> pbind (deflate_deflate flush (d, dz_z s)) (\<lambda>(r, (d1, z)).
          ret (r, \<lparr>dz_state = Some (Set d1), dz_z = z\<rparr>)))"

definition dz_deflateEnd :: "dzs \<Rightarrow> int \<times> dzs" where
  "dz_deflateEnd s =
     (case dz_state s of None \<Rightarrow> (Z_STREAM_ERROR, s)
      | Some Unset \<Rightarrow> (Z_STREAM_ERROR, s\<lparr>dz_state := None\<rparr>)
      | Some (Set d) \<Rightarrow> (deflateEnd d, s\<lparr>dz_state := None\<rparr>))"

definition dz_deflateParams :: "int \<Rightarrow> int \<Rightarrow> dzs \<Rightarrow> (int \<times> dzs) prog" where
  "dz_deflateParams lev strat s =
     (case dz_state s of None \<Rightarrow> ret (Z_STREAM_ERROR, s)
      | Some Unset \<Rightarrow> Some (Inl Undefined)
      | Some (Set d) \<Rightarrow> pbind (deflateParams lev strat (d, dz_z s)) (\<lambda>(r, (d1, z)).
          ret (r, \<lparr>dz_state = Some (Set d1), dz_z = z\<rparr>)))"

definition dz_deflateSetDictionary :: "byte list option \<Rightarrow> int \<Rightarrow> dzs \<Rightarrow> (int \<times> dzs) eff" where
  "dz_deflateSetDictionary dict n s =
     (case dz_state s of None \<Rightarrow> Inr (Z_STREAM_ERROR, s)
      | Some Unset \<Rightarrow> Inr (Z_STREAM_ERROR, s)
      | Some (Set d) \<Rightarrow> ebind (deflateSetDictionary dict n d) (\<lambda>(r, d1). Inr (r, s\<lparr>dz_state := Some (Set d1)\<rparr>)))"

section \<open>Deflater\<close>

definition buf_size :: int where [simp]: "buf_size = 512"

definition Deflater :: "int option \<Rightarrow> dzs eff" where
  "Deflater lev =
     ebind (dz_deflateInit (case lev of None \<Rightarrow> Z_DEFAULT_COMPRESSION | Some l \<Rightarrow> l) 0
         \<lparr>dz_state = None, dz_z = new_ZStream\<rparr>) (\<lambda>(r, s).
       Inr (s\<lparr>dz_z := (dz_z s)\<lparr>z_next_out := Some (replicate (nat buf_size) 0)\<rparr>\<rparr>))"

text \<open>The bytes collected so far, the last progress reported and the calls of \<open>onprogress\<close>.\<close>

record collecting =
  k_s :: dzs
  k_out :: "byte list"
  k_last :: int
  k_progress :: "int list"

definition fresh_out :: "dzs \<Rightarrow> dzs" where
  "fresh_out s = s\<lparr>dz_z := (dz_z s)\<lparr>z_next_out_index := 0, z_avail_out := buf_size\<rparr>\<rparr>"

definition deflating :: "string option \<Rightarrow> string" where
  "deflating msg = ''deflating: '' @ (case msg of None \<Rightarrow> ''null'' | Some m \<Rightarrow> m)"

definition produced_out :: "dstream \<Rightarrow> byte list" where
  "produced_out z = (case z_next_out z of None \<Rightarrow> [] | Some out \<Rightarrow> take (nat (z_next_out_index z)) out)"

definition append_round :: "collecting \<Rightarrow> (collecting, collecting) next_step prog" where
  "append_round a =
     pbind (dz_deflate Z_NO_FLUSH (fresh_out (k_s a))) (\<lambda>(err, s).
       let z = dz_z s in
       if err \<noteq> Z_OK then Some (Inl (Raises (Thrown (deflating (z_message z)))))
       else
         (let moved = (z_next_in_index z > 0 \<and> z_next_in_index z \<noteq> k_last a);
              a1 = \<lparr>k_s = s, k_out = k_out a @ produced_out z,
                k_last = (if moved then z_next_in_index z else k_last a),
                k_progress = (if moved then k_progress a @ [z_next_in_index z] else k_progress a)\<rparr> in
          ret (if z_avail_in z > 0 \<or> z_avail_out z = 0 then Go a1 else Back a1)))"

text \<open>\<open>append\<close>: nothing for no data, otherwise an array; with the progress reported.\<close>

definition deflater_append :: "byte list \<Rightarrow> dzs \<Rightarrow> (byte list option \<times> int list \<times> dzs) prog" where
  "deflater_append data s =
     (if data = [] then ret (None, [], s)
      else
        (let s1 = s\<lparr>dz_z := (dz_z s)\<lparr>z_next_in_index := 0, z_next_in := Some data, z_avail_in := int (length data)\<rparr>\<rparr> in
         pbind (loop append_round \<lparr>k_s = s1, k_out = [], k_last = 0, k_progress = []\<rparr>) (\<lambda>a.
           ret (Some (k_out a), k_progress a, k_s a))))"

definition flush_round :: "dzs \<times> byte list \<Rightarrow> (dzs \<times> byte list, dzs \<times> byte list) next_step prog" where
  "flush_round a =
     pbind (dz_deflate Z_FINISH (fresh_out (fst a))) (\<lambda>(err, s).
       let z = dz_z s in
       if err \<noteq> Z_STREAM_END \<and> err \<noteq> Z_OK then Some (Inl (Raises (Thrown (deflating (z_message z)))))
       else
         (let a1 = (s, if buf_size - z_avail_out z > 0 then snd a @ produced_out z else snd a) in
          ret (if z_avail_in z > 0 \<or> z_avail_out z = 0 then Go a1 else Back a1)))"

definition deflater_flush :: "dzs \<Rightarrow> (byte list \<times> dzs) prog" where
  "deflater_flush s = pbind (loop flush_round (s, [])) (\<lambda>(s1, out). ret (out, snd (dz_deflateEnd s1)))"

end
