(* ===== verification/Defl_Ops.thy ===== *)
theory Defl_Ops
  imports Defl_Block
begin

text \<open>
  Facts the proofs about the compressor share: the operators of JavaScript on numbers they do not
  wrap around, and parts of arrays.
\<close>

section \<open>Operators on small numbers\<close>

lemma to_int32_small: "- 2147483648 \<le> x \<Longrightarrow> x < 2147483648 \<Longrightarrow> to_int32 x = x"
  by (simp add: to_int32_def signed_take_bit_int_eq_self sint_sbintrunc')

lemma to_int32_nonneg: "0 \<le> x \<Longrightarrow> x < 2147483648 \<Longrightarrow> to_int32 x = x"
  by (rule to_int32_small) linarith+

lemma to_int32_mod: "to_int32 x mod 2 ^ n = x mod 2 ^ n" if "n \<le> 32"
proof -
  have "take_bit n (signed_take_bit 31 x) = take_bit n x" using that by (cases "n = 32") (simp_all add: take_bit_signed_take_bit flip: take_bit_eq_mod)
  then show ?thesis by (simp add: to_int32_def sint_sbintrunc' take_bit_eq_mod)
qed

lemma js_and_mask: "js_and x (2 ^ n - 1) = x mod 2 ^ n" if "n < 32"
proof -
  have "x AND (2 ^ n - 1) = x mod 2 ^ n" by (simp add: take_bit_eq_mask flip: mask_eq_exp_minus_1 take_bit_eq_mod)
  moreover have "x mod 2 ^ n < 2147483648" "0 \<le> x mod 2 ^ n"
    using that power_increasing [of n 31 "2::int"] by (auto intro: less_le_trans [OF pos_mod_bound])
  ultimately show ?thesis by (simp add: js_and_def to_int32_nonneg)
qed

lemma js_and_low [simp]: "js_and x 0xff = x mod 256" "js_and x 0xffff = x mod 65536" "js_and x 1 = x mod 2"
  "js_and x 0x1fff = x mod 8192"
  using js_and_mask [of 8 x] js_and_mask [of 16 x] js_and_mask [of 1 x] js_and_mask [of 13 x] by simp_all

lemma js_shl_small: "0 \<le> x \<Longrightarrow> 0 \<le> n \<Longrightarrow> n < 32 \<Longrightarrow> x * 2 ^ nat n < 2147483648 \<Longrightarrow> js_shl x n = x * 2 ^ nat n"
  by (simp add: js_shl_def to_int32_nonneg)

lemma js_ushr_small: "0 \<le> x \<Longrightarrow> x < 2 ^ 32 \<Longrightarrow> 0 \<le> n \<Longrightarrow> n < 32 \<Longrightarrow> js_ushr x n = x div 2 ^ nat n"
  by (simp add: js_ushr_def)

lemma js_shr_small: "0 \<le> x \<Longrightarrow> x < 2147483648 \<Longrightarrow> 0 \<le> n \<Longrightarrow> n < 32 \<Longrightarrow> js_shr x n = x div 2 ^ nat n"
  by (simp add: js_shr_def to_int32_small)

lemma js_or_small: "0 \<le> x \<Longrightarrow> x < 2147483648 \<Longrightarrow> 0 \<le> y \<Longrightarrow> y < 2147483648 \<Longrightarrow> js_or x y = x OR y"
  using OR_upper [of x 31 y] by (simp add: js_or_def to_int32_nonneg)


section \<open>Parts of arrays\<close>

text \<open>The bytes from \<open>i\<close> up to \<open>j\<close>, without them.\<close>

definition part :: "'a list \<Rightarrow> int \<Rightarrow> int \<Rightarrow> 'a list" where
  "part xs i j = take (nat (j - i)) (drop (nat i) xs)"

lemma part_empty [simp]: "part xs i i = []"
  by (simp add: part_def)

lemma length_part: "0 \<le> i \<Longrightarrow> i \<le> j \<Longrightarrow> j \<le> int (length xs) \<Longrightarrow> int (length (part xs i j)) = j - i"
  by (simp add: part_def)

lemma part_join: "0 \<le> i \<Longrightarrow> i \<le> j \<Longrightarrow> j \<le> k \<Longrightarrow> part xs i j @ part xs j k = part xs i k"
proof -
  assume "0 \<le> i" "i \<le> j" "j \<le> k"
  then have "nat (k - i) = nat (j - i) + nat (k - j)" "nat j = nat (j - i) + nat i" by (simp_all add: nat_diff_distrib nat_add_distrib)
  then show ?thesis by (simp add: part_def take_add)
qed

lemma rel_slice_part: "0 \<le> i \<Longrightarrow> i \<le> j \<Longrightarrow> j \<le> int (length xs) \<Longrightarrow> rel_slice xs i j = part xs i j"
  using rel_slice_exact [of i "j - i" xs] by (simp add: part_def)

lemma arr_set_fits:
  "0 \<le> i \<Longrightarrow> i + int (length vs) \<le> int (length xs) \<Longrightarrow>
    arr_set xs i vs = Inr (take (nat i) xs @ vs @ drop (nat i + length vs) xs)"
  by (simp add: arr_set_def)

text \<open>A write beside a part, and one that continues it.\<close>

lemma part_before:
  assumes "0 \<le> k" "k \<le> j" "j \<le> i" "i \<le> int (length xs)"
  shows "part (take (nat i) xs @ ys) k j = part xs k j"
proof -
  have "nat k \<le> nat i" "nat (j - k) \<le> nat i - nat k" "nat i \<le> length xs" "nat (j - k) \<le> length xs - nat k" using assms by simp_all
  then show ?thesis by (simp add: part_def drop_take)
qed

lemma part_write: 
  assumes "0 \<le> i" "i \<le> j" "j \<le> int (length xs)"
  shows "part (take (nat j) xs @ vs @ ys) i (j + int (length vs)) = part xs i j @ vs"
proof -
  have "nat (j + int (length vs) - i) = nat (j - i) + length vs" using assms by simp
  moreover have "drop (nat i) (take (nat j) xs) = part xs i j" using assms by (simp add: part_def drop_take nat_diff_distrib')
  moreover have "length (part xs i j) = nat (j - i)" using length_part [OF assms] by simp
  ultimately show ?thesis using assms by (simp add: part_def nat_le_iff)
qed

end
