(* ===== verification/Defl_Stored.thy ===== *)
theory Defl_Stored
  imports Inf_Stored Deflate Defl_Ops
begin

text \<open>
  Level 0 of the compressor, from end to end: what a \<open>Deflater\<close> of \<^verbatim>\<open>html/lib/deflate.js\<close> returns for
  any chunks of data, over every refill and slide of the window, every full output buffer and every
  block length, is a stream of stored blocks that hold the data; and \<open>Inflater\<close> gives the data back.
\<close>

section \<open>Pending output\<close>

definition unsent :: "out_buf \<Rightarrow> byte list" where
  "unsent o1 = part (pending_buf o1) (pending_out o1) (pending_out o1 + pending o1)"

definition out_ok :: "out_buf \<Rightarrow> dstream \<Rightarrow> bool" where
  "out_ok o1 z \<longleftrightarrow> length (pending_buf o1) = 65536 \<and> 0 \<le> pending_out o1 \<and> 0 \<le> pending o1 \<and>
     pending_out o1 + pending o1 \<le> 65536 \<and> (pending o1 = 0 \<longrightarrow> pending_out o1 = 0) \<and>
     (\<exists>out. z_next_out z = Some out \<and> int (length out) = z_next_out_index z + z_avail_out z) \<and>
     0 \<le> z_next_out_index z \<and> 0 \<le> z_avail_out z"

text \<open>What \<open>flush_pending\<close> leaves alone.\<close>

definition same_rest :: "out_buf \<Rightarrow> dstream \<Rightarrow> out_buf \<Rightarrow> dstream \<Rightarrow> bool" where
  "same_rest o1 z o2 z2 \<longleftrightarrow> pending_buf o2 = pending_buf o1 \<and> bi_buf o2 = bi_buf o1 \<and> bi_valid o2 = bi_valid o1 \<and>
     last_eob_len o2 = last_eob_len o1 \<and> z_next_in z2 = z_next_in z \<and> z_next_in_index z2 = z_next_in_index z \<and>
     z_avail_in z2 = z_avail_in z \<and> z_message z2 = z_message z \<and>
     z_next_out_index z2 + z_avail_out z2 = z_next_out_index z + z_avail_out z"

lemma flush_pending_spec:
  assumes "out_ok o1 z"
  obtains o2 z2 where "flush_pending o1 z = Inr (o2, z2)" "out_ok o2 z2" "same_rest o1 z o2 z2"
    "produced_out z2 @ unsent o2 = produced_out z @ unsent o1" "z_avail_out z2 = 0 \<or> pending o2 = 0"
    "z_avail_out z - z_avail_out z2 = pending o1 - pending o2" "pending o2 \<le> pending o1"
proof -
  obtain out where out: "z_next_out z = Some out" "int (length out) = z_next_out_index z + z_avail_out z"
    using assms by (auto simp: out_ok_def)
  define n where "n = min (pending o1) (z_avail_out z)"
  have n: "0 \<le> n" "n \<le> pending o1" "n \<le> z_avail_out z" and o1: "length (pending_buf o1) = 65536" "0 \<le> pending_out o1"
    "0 \<le> pending o1" "pending_out o1 + pending o1 \<le> 65536" "pending o1 = 0 \<longrightarrow> pending_out o1 = 0"
    and z: "0 \<le> z_next_out_index z" "0 \<le> z_avail_out z"
    using assms by (auto simp: out_ok_def n_def)
  show thesis
  proof (cases "n = 0")
    case True
    then have "flush_pending o1 z = Inr (o1, z)" by (simp add: flush_pending_def n_def)
    moreover have "z_avail_out z = 0 \<or> pending o1 = 0" using True n_def by linarith
    ultimately show thesis using assms by (intro that [of o1 z]) (simp_all add: same_rest_def)
  next
    case False
    let ?p = "part (pending_buf o1) (pending_out o1) (pending_out o1 + n)" and ?i = "z_next_out_index z"
    let ?o = "o1\<lparr>pending := pending o1 - n, pending_out := (if pending o1 - n = 0 then 0 else pending_out o1 + n)\<rparr>"
    let ?z = "z\<lparr>z_next_out := Some (take (nat ?i) out @ ?p @ drop (nat ?i + length ?p) out), z_next_out_index := ?i + n,
      z_total_out := z_total_out z + n, z_avail_out := z_avail_out z - n\<rparr>"
    have len: "int (length ?p) = n" using length_part [of "pending_out o1" "pending_out o1 + n" "pending_buf o1"] n o1 by simp
    then have "flush_pending o1 z = Inr (?o, ?z)"
      using False n o1 z out by (simp add: flush_pending_def Let_def rel_slice_part arr_set_fits flip: n_def)
    moreover have "unsent o1 = ?p @ part (pending_buf o1) (pending_out o1 + n) (pending_out o1 + pending o1)"
      using n o1 by (simp add: unsent_def part_join)
    then have "produced_out ?z @ unsent ?o = produced_out z @ unsent o1"
      using out z n len by (simp add: produced_out_def unsent_def nat_add_distrib)
    moreover have "out_ok ?o ?z" using assms out n o1 z len by (auto simp: out_ok_def)
    moreover have "z_avail_out ?z = 0 \<or> pending ?o = 0" by (simp add: n_def) linarith
    ultimately show thesis using n by (intro that [of ?o ?z]) (simp_all add: same_rest_def)
  qed
qed


section \<open>A stored block\<close>

text \<open>Output that only grows: nothing of it has been taken yet, and there is room for \<open>n\<close> more bytes.\<close>

definition holds_out :: "out_buf \<Rightarrow> byte list \<Rightarrow> int \<Rightarrow> bool" where
  "holds_out o1 bs n \<longleftrightarrow> length (pending_buf o1) = 65536 \<and> pending_out o1 = 0 \<and> pending o1 = int (length bs) \<and>
     part (pending_buf o1) 0 (pending o1) = bs \<and> pending o1 + n \<le> 65536"

lemma put_byte_holds: "holds_out o1 bs n \<Longrightarrow> 1 \<le> n \<Longrightarrow> holds_out (put_byte p o1) (bs @ [word_of_int p]) (n - 1)"
  by (auto simp: holds_out_def put_byte_def arr_put_def part_def nat_add_distrib take_Suc_conv_app_nth)

lemma put_byte_simps [simp]: "bi_buf (put_byte p o1) = bi_buf o1" "bi_valid (put_byte p o1) = bi_valid o1"
  by (simp_all add: put_byte_def)

lemma word_byte_mod [simp]: "(word_of_int (x mod 256) :: byte) = word_of_int x"
  using word_of_int_eq_iff [where 'a = 8, of "x mod 256" x] by (simp add: take_bit_eq_mod)

lemma ushr_8: "(js_ushr w 8) mod 256 = (w div 256) mod 256"
proof -
  have h: "x mod 65536 div 256 = x div 256 mod 256" for x :: int
    using drop_bit_take_bit [of 8 16 x] by (simp add: take_bit_eq_mod drop_bit_eq_div)
  have e: "js_ushr w 8 = (w mod 4294967296) div 256" by (simp add: js_ushr_def)
  have m: "(w mod 4294967296) mod 65536 = w mod 65536" by (rule mod_mod_cancel) simp
  show ?thesis unfolding e h [symmetric] m ..
qed

lemma put_short_holds:
  assumes "holds_out o1 bs n" "2 \<le> n"
  shows "holds_out (put_short w o1) (bs @ le 2 w) (n - 2)"
proof -
  have "holds_out (put_byte (w mod 256) o1) (bs @ [word_of_int (w mod 256)]) (n - 1)"
    using put_byte_holds [OF assms(1), of "w mod 256"] assms(2) by simp
  from put_byte_holds [OF this, of "w div 256 mod 256"] assms(2) show ?thesis by (simp add: put_short_def ushr_8 le_2)
qed

lemma put_short_simps [simp]: "bi_buf (put_short w o1) = bi_buf o1" "bi_valid (put_short w o1) = bi_valid o1"
  by (simp_all add: put_short_def)

lemma not_le_2: "le 2 (NOT v) = map NOT (le 2 v)"
proof -
  have "drop_bit 8 (NOT v) = NOT (drop_bit 8 v)" by (rule bit_eqI) (simp add: bit_simps)
  then have "(NOT v) div 256 = NOT (v div 256)" by (simp add: drop_bit_eq_div)
  moreover have "(word_of_int (NOT x) :: byte) = NOT (word_of_int x)" for x by (simp add: of_int_not_eq)
  ultimately show ?thesis by (simp add: le_2)
qed

lemma holds_out_cong:
  assumes "holds_out o1 bs n" and same: "pending_buf o2 = pending_buf o1" "pending o2 = pending o1" "pending_out o2 = pending_out o1"
  shows "holds_out o2 bs n"
  using assms(1) unfolding holds_out_def same .

lemma tr_stored_block_spec:
  assumes "holds_out o1 [] 65536" "bi_buf o1 = 0" "bi_valid o1 = 0" "0 \<le> b" "0 \<le> len" "b + len \<le> int (length win)"
    "len \<le> 65531"
  obtains o2 where "tr_stored_block win b len eof o1 = Inr o2" "bi_buf o2 = 0" "bi_valid o2 = 0"
    "holds_out o2 (stored_block eof (part win b (b + len))) 0"
proof -
  define d where "d = part win b (b + len)"
  have d: "int (length d) = len" "rel_slice win b (b + len) = d"
    using length_part [of b "b + len" win] rel_slice_part [of b "b + len" win] assms by (simp_all add: d_def)
  define v :: int where "v = (if eof then 1 else 0)"
  have v: "0 \<le> v" "v \<le> 1" by (simp_all add: v_def)
  let ?o = "send_bits v 3 o1"
  have o: "?o = o1\<lparr>bi_buf := v, bi_valid := 3\<rparr>"
    using assms v by (simp add: send_bits_def js_shl_def js_or_def to_int32_nonneg)
  have h0: "holds_out (put_byte v o1) [word_of_int v] 65535" using put_byte_holds [OF assms(1), of v] by simp
  have "v mod 256 = v" using v by simp
  then have h8: "holds_out ((bi_windup ?o)\<lparr>last_eob_len := 8\<rparr>) [word_of_int v] 65535"
    by (intro holds_out_cong [OF h0]) (simp_all add: o bi_windup_def put_byte_def)
  define o3 where "o3 = put_short (NOT len) (put_short len ((bi_windup ?o)\<lparr>last_eob_len := 8\<rparr>))"
  from put_short_holds [OF put_short_holds [OF h8], of "NOT len" len]
  have h: "holds_out o3 (word_of_int v # le 2 len @ map NOT (le 2 len)) 65531" by (simp add: not_le_2 o3_def)
  have "length (le 2 len) = 2" by (simp add: le_2)
  with h have p5: "pending o3 = 5" by (simp add: holds_out_def)
  with h have p3: "pending o3 = 5" "length (pending_buf o3) = 65536" "pending_out o3 = 0"
    "part (pending_buf o3) 0 5 = word_of_int v # le 2 len @ map NOT (le 2 len)" unfolding holds_out_def p5 by simp_all
  define pb where "pb = take 5 (pending_buf o3) @ d @ drop (5 + length d) (pending_buf o3)"
  have set: "arr_set (pending_buf o3) (pending o3) d = Inr pb"
    using p3 d(1) assms(7) by (simp add: pb_def arr_set_def)
  have "js_shl STORED_BLOCK 1 + v = v" by (simp add: js_shl_def to_int32_nonneg)
  then have "tr_stored_block win b len eof o1 = Inr (o3\<lparr>pending_buf := pb, pending := 5 + len\<rparr>)"
    using set d(2) p3(1) by (simp add: tr_stored_block_def copy_block_def Let_def v_def o3_def)
  moreover have "bi_buf o3 = 0" "bi_valid o3 = 0" by (simp_all add: bi_windup_def o3_def)
  moreover have "part pb 0 (5 + len) = (word_of_int v # le 2 len @ map NOT (le 2 len)) @ d"
    using part_write [of 0 5 "pending_buf o3" d "drop (5 + length d) (pending_buf o3)"] p3 d(1) by (simp add: pb_def)
  then have "holds_out (o3\<lparr>pending_buf := pb, pending := 5 + len\<rparr>) (stored_block eof d) 0"
    using p3 d(1) assms(7) by (simp add: holds_out_def pb_def stored_block_def v_def le_2)
  ultimately show thesis by (intro that) (simp_all add: d_def)
qed

section \<open>The state at level 0\<close>

definition input :: "dstream \<Rightarrow> byte list" where
  "input z = (case z_next_in z of None \<Rightarrow> [] | Some b \<Rightarrow> part b (z_next_in_index z) (z_next_in_index z + z_avail_in z))"

definition in_ok :: "dstream \<Rightarrow> bool" where
  "in_ok z \<longleftrightarrow> 0 \<le> z_avail_in z \<and> 0 \<le> z_next_in_index z \<and>
     (case z_next_in z of None \<Rightarrow> z_avail_in z = 0
      | Some b \<Rightarrow> z_next_in_index z + z_avail_in z \<le> int (length b))"

text \<open>A window that may hold \<open>lookahead\<close> more bytes of a block; \<open>held\<close> are the bytes in no block yet.\<close>

definition win_ok :: "matcher \<Rightarrow> bool" where
  "win_ok w \<longleftrightarrow> length (window w) = 65536 \<and> window_size w = 65536 \<and> w_size w = 32768 \<and> 0 \<le> block_start w \<and>
     block_start w \<le> strstart w \<and> strstart w - block_start w < 32506 \<and> 0 \<le> lookahead w \<and>
     strstart w + lookahead w \<le> 65536"

definition held :: "matcher \<Rightarrow> byte list" where
  "held w = part (window w) (block_start w) (strstart w + lookahead w)"

definition stores :: "machine \<Rightarrow> bool" where
  "stores x \<longleftrightarrow> level (d_tune (fst x)) = 0 \<and> pending_buf_size (fst x) = 65536 \<and> bi_buf (d_out (fst x)) = 0 \<and>
     bi_valid (d_out (fst x)) = 0 \<and> out_ok (d_out (fst x)) (snd x) \<and> win_ok (d_win (fst x)) \<and> in_ok (snd x) \<and>
     z_next_out_index (snd x) + z_avail_out (snd x) = 512"

definition made :: "machine \<Rightarrow> byte list" where
  "made x = produced_out (snd x) @ unsent (d_out (fst x))"

definition left :: "machine \<Rightarrow> byte list" where
  "left x = held (d_win (fst x)) @ input (snd x)"

text \<open>A block that ends at \<open>strstart\<close> goes out.\<close>

lemma input_cong: "z_next_in z2 = z_next_in z \<Longrightarrow> z_next_in_index z2 = z_next_in_index z \<Longrightarrow> z_avail_in z2 = z_avail_in z \<Longrightarrow>
    input z2 = input z \<and> in_ok z2 = in_ok z"
  by (simp add: input_def in_ok_def split: option.split)

lemma flush_block_stored:
  assumes "level (d_tune d) = 0" "bi_buf (d_out d) = 0" "bi_valid (d_out d) = 0" "out_ok (d_out d) z" "pending (d_out d) = 0"
    and "length (window (d_win d)) = 65536" "0 \<le> block_start (d_win d)" "block_start (d_win d) \<le> strstart (d_win d)"
      "strstart (d_win d) \<le> 65536" "strstart (d_win d) - block_start (d_win d) \<le> 65531"
  obtains o2 t l z2 where
    "flush_block_only eof (d, z) = Some (Inr (d\<lparr>d_trees := t, d_lits := l, d_out := o2,
       d_win := (d_win d)\<lparr>block_start := strstart (d_win d)\<rparr>\<rparr>, z2))"
    "bi_buf o2 = 0" "bi_valid o2 = 0" "out_ok o2 z2" "z_avail_out z2 = 0 \<or> pending o2 = 0"
    "produced_out z2 @ unsent o2 =
       produced_out z @ stored_block eof (part (window (d_win d)) (block_start (d_win d)) (strstart (d_win d)))"
    "z_next_out_index z2 + z_avail_out z2 = z_next_out_index z + z_avail_out z"
    "z_next_in z2 = z_next_in z" "z_next_in_index z2 = z_next_in_index z" "z_avail_in z2 = z_avail_in z"
proof -
  let ?w = "d_win d" and ?p = "part (window (d_win d)) (block_start (d_win d)) (strstart (d_win d))"
  have h: "holds_out (d_out d) [] 65536" using assms(4,5) by (simp add: holds_out_def out_ok_def)
  from assms(6-10) obtain o1 where o1: "tr_stored_block (window ?w) (block_start ?w) (strstart ?w - block_start ?w) eof (d_out d) = Inr o1"
    "bi_buf o1 = 0" "bi_valid o1 = 0" "holds_out o1 (stored_block eof ?p) 0"
    using tr_stored_block_spec [OF h assms(2,3), of "block_start ?w" "strstart ?w - block_start ?w" "window ?w" eof] by auto
  obtain t l where "init_block (d_trees d) (d_lits d) = (t, l)" by (cases "init_block (d_trees d) (d_lits d)")
  then have f: "tr_flush_block (level (d_tune d)) (d_data_type d) (window ?w) (block_start ?w) (strstart ?w - block_start ?w) eof
      (d_trees d) (d_lits d) (d_out d) = Some (Inr (d_data_type d, t, l, o1))"
    using o1(1-3) assms(1,7) by (simp add: tr_flush_block_def encode_block_def lift_def ret_def bi_windup_def)
  have "out_ok o1 z" "unsent o1 = stored_block eof ?p"
    using o1(4) assms(4) by (auto simp: out_ok_def holds_out_def unsent_def)
  then obtain o2 z2 where o2: "flush_pending o1 z = Inr (o2, z2)" "out_ok o2 z2" "same_rest o1 z o2 z2"
    "produced_out z2 @ unsent o2 = produced_out z @ stored_block eof ?p" "z_avail_out z2 = 0 \<or> pending o2 = 0"
    by (auto elim: flush_pending_spec)
  have fl: "flush_block_only eof (d, z) = Some (Inr (d\<lparr>d_trees := t, d_lits := l, d_out := o2, d_win := ?w\<lparr>block_start := strstart ?w\<rparr>\<rparr>, z2))"
    using f o2(1) assms(7) by (simp add: flush_block_only_def lift_def ret_def Let_def)
  show thesis by (rule that [OF fl]) (use o2 o1(2,3) in \<open>simp_all add: same_rest_def\<close>)
qed


section \<open>The window\<close>

definition same_out :: "dstream \<Rightarrow> dstream \<Rightarrow> bool" where
  "same_out z z2 \<longleftrightarrow> z_next_out z2 = z_next_out z \<and> z_next_out_index z2 = z_next_out_index z \<and>
     z_avail_out z2 = z_avail_out z \<and> z_next_in z2 = z_next_in z"

lemma slide_part:
  assumes "length xs = 65536" "32768 \<le> i" "i \<le> j" "j \<le> 65536"
  shows "part (part xs 32768 65536 @ drop 32768 xs) (i - 32768) (j - 32768) = part xs i j"
proof -
  have "length (part xs 32768 65536) = 32768" using assms(1) by (simp add: part_def)
  moreover have "nat (j - i) \<le> 32768 - nat (i - 32768)" "nat (i - 32768) \<le> 32768" "nat i = nat (i - 32768) + 32768"
    using assms by linarith+
  ultimately show ?thesis using assms by (simp add: part_def drop_take)
qed

lemma make_space_spec:
  assumes "win_ok w" "lookahead w < 262"
  obtains w1 where "make_space w = Inr (65536 - lookahead w - strstart w1, w1)" "win_ok w1" "held w1 = held w"
    "lookahead w1 = lookahead w" "lookahead w + strstart w1 < 65536"
proof (cases "strstart w \<ge> 65274")
  case True
  let ?win = "part (window w) 32768 65536 @ drop 32768 (window w)"
  let ?w = "w\<lparr>window := ?win, match_start := match_start w - w_size w, strstart := strstart w - w_size w,
     block_start := block_start w - w_size w, head := slide_table (w_size w) (hash_size w) (head w),
     prev := slide_table (w_size w) (w_size w) (prev w)\<rparr>"
  have w: "length (window w) = 65536" "window_size w = 65536" "w_size w = 32768" "32768 \<le> block_start w"
    "block_start w \<le> strstart w" "strstart w - block_start w < 32506" "0 \<le> lookahead w" "strstart w + lookahead w \<le> 65536"
    using assms True by (auto simp: win_ok_def)
  have l: "length (part (window w) 32768 65536) = 32768" using w(1) by (simp add: part_def)
  have "slide_window w = Inr ?w"
    using w(1,3) l by (simp add: slide_window_def rel_slice_part arr_set_def)
  then have "make_space w = Inr (65536 - lookahead w - strstart ?w, ?w)"
    using w True by (simp add: make_space_def)
  moreover have "win_ok ?w" using w l by (simp add: win_ok_def)
  moreover have "held ?w = held w" using slide_part [of "window w" "block_start w" "strstart w + lookahead w"] w by (simp add: held_def algebra_simps)
  ultimately show thesis using w assms(2) by (intro that [of ?w]) simp_all
next
  case False
  then have "make_space w = Inr (65536 - lookahead w - strstart w, w)"
    using assms by (auto simp: make_space_def win_ok_def)
  then show thesis using False assms by (intro that) auto
qed

lemma fill_step_spec:
  assumes "win_ok w" "in_ok z" "lookahead w < 262"
  obtains w1 z1 where "fill_step (w, z) = Inr (if lookahead w1 < 262 \<and> z_avail_in z1 \<noteq> 0 then Go (w1, z1) else Back (w1, z1))"
    "win_ok w1" "in_ok z1" "same_out z z1" "held w1 @ input z1 = held w @ input z"
    "lookahead w1 + z_avail_in z1 = lookahead w + z_avail_in z" "z_avail_in z1 \<le> z_avail_in z" "z_avail_in z = 0 \<or> z_avail_in z1 < z_avail_in z"
proof -
  obtain w1 where w1: "make_space w = Inr (65536 - lookahead w - strstart w1, w1)" "win_ok w1" "held w1 = held w"
    "lookahead w1 = lookahead w" "lookahead w + strstart w1 < 65536"
    by (rule make_space_spec [OF assms(1,3)])
  show thesis
  proof (cases "z_avail_in z = 0")
    case True
    then show thesis using w1 assms(2) by (intro that [of w1 z]) (simp_all add: fill_step_def same_out_def)
  next
    case False
    then obtain b where b: "z_next_in z = Some b" "0 < z_avail_in z" "0 \<le> z_next_in_index z"
      "z_next_in_index z + z_avail_in z \<le> int (length b)" using assms(2) by (auto simp: in_ok_def split: option.splits)
    define n where "n = min (z_avail_in z) (65536 - lookahead w - strstart w1)"
    have n: "0 < n" "n \<le> z_avail_in z" "strstart w1 + lookahead w1 + n \<le> 65536" using b w1(4,5) by (auto simp: n_def)
    let ?j = "strstart w1 + lookahead w1" and ?p = "part b (z_next_in_index z) (z_next_in_index z + n)"
    have lp: "int (length ?p) = n" using length_part [of "z_next_in_index z" "z_next_in_index z + n" b] b n by simp
    have w: "length (window w1) = 65536" "0 \<le> block_start w1" "block_start w1 \<le> strstart w1" "0 \<le> lookahead w1"
      "0 \<le> strstart w1" using w1(2) by (auto simp: win_ok_def)
    let ?win = "take (nat ?j) (window w1) @ ?p @ drop (nat ?j + length ?p) (window w1)"
    let ?z = "z\<lparr>z_avail_in := z_avail_in z - n, z_next_in_index := z_next_in_index z + n, z_total_in := z_total_in z + n\<rparr>"
    let ?w = "w1\<lparr>window := ?win, lookahead := lookahead w1 + n\<rparr>"
    let ?w3 = "if lookahead ?w \<ge> 3 then restart_hash ?w else ?w"
    have set: "arr_set (window w1) ?j ?p = Inr ?win" using w n lp by (intro arr_set_fits) simp_all
    have read: "read_buf (window w1) ?j (65536 - lookahead w - strstart w1) z = Inr (n, ?win, ?z)"
      unfolding read_buf_def Let_def n_def [symmetric] using b n set by (simp add: rel_slice_part)
    have "fill_step (w, z) = Inr (if lookahead ?w3 < 262 \<and> z_avail_in ?z \<noteq> 0 then Go (?w3, ?z) else Back (?w3, ?z))"
      using False w1(1) read by (simp add: fill_step_def Let_def)
    moreover have "length ?win = 65536" using w n lp by simp
    then have "win_ok ?w" using w1(2) n by (simp add: win_ok_def)
    then have "win_ok ?w3" by (simp add: win_ok_def restart_hash_def)
    moreover have "part ?win (block_start w1) (?j + int (length ?p)) = part (window w1) (block_start w1) ?j @ ?p"
      using w n by (intro part_write) simp_all
    then have "held ?w = held w @ ?p" using w1(3) lp by (simp add: held_def add.assoc)
    then have "held ?w3 = held w @ ?p" by (simp add: held_def restart_hash_def)
    moreover have "input z = ?p @ input ?z" using b n by (simp add: input_def part_join)
    moreover have "in_ok ?z" using assms(2) b n by (simp add: in_ok_def)
    moreover have "lookahead ?w3 = lookahead w + n" using w1(4) by (simp add: restart_hash_def)
    ultimately show thesis using n b by (intro that [of ?w3 ?z]) (simp_all add: same_out_def)
  qed
qed

lemma fill_window_spec:
  assumes "win_ok w" "in_ok z" "lookahead w < 262"
  shows "\<exists>w1 z1. fill_window w z = Some (Inr (w1, z1)) \<and> win_ok w1 \<and> in_ok z1 \<and> same_out z z1 \<and>
    held w1 @ input z1 = held w @ input z \<and> lookahead w1 + z_avail_in z1 = lookahead w + z_avail_in z \<and>
    (z_avail_in z1 = 0 \<or> 262 \<le> lookahead w1)"
  using assms
proof (induction "nat (z_avail_in z)" arbitrary: w z rule: less_induct)
  case less
  obtain w1 z1 where 1: "fill_step (w, z) = Inr (if lookahead w1 < 262 \<and> z_avail_in z1 \<noteq> 0 then Go (w1, z1) else Back (w1, z1))"
    "win_ok w1" "in_ok z1" "same_out z z1" "held w1 @ input z1 = held w @ input z"
    "lookahead w1 + z_avail_in z1 = lookahead w + z_avail_in z" "z_avail_in z1 \<le> z_avail_in z" "z_avail_in z = 0 \<or> z_avail_in z1 < z_avail_in z"
    by (rule fill_step_spec [OF less.prems])
  show ?case
  proof (cases "lookahead w1 < 262 \<and> z_avail_in z1 \<noteq> 0")
    case True
    then have "fill_window w z = fill_window w1 z1" using 1(1) unfolding fill_window_def
      by (intro loop_Go) (simp add: lift_def)
    moreover have "nat (z_avail_in z1) < nat (z_avail_in z)"
      using True 1(3,7,8) by (auto simp: in_ok_def)
    moreover have "same_out z z2" if "same_out z1 z2" for z2 using that 1(4) by (simp add: same_out_def)
    ultimately show ?thesis using less.hyps [of z1 w1] 1(2,3,5,6) True by metis
  next
    case False
    then have "fill_window w z = Some (Inr (w1, z1))" using 1(1) unfolding fill_window_def
      by (intro loop_Back) (simp add: lift_def)
    with 1 False show ?thesis by auto
  qed
qed


section \<open>The loop of \<open>deflate_stored\<close>\<close>

text \<open>As \<open>stores\<close>, for a block about to be sent.\<close>

definition loose :: "machine \<Rightarrow> bool" where
  "loose x \<longleftrightarrow> level (d_tune (fst x)) = 0 \<and> pending_buf_size (fst x) = 65536 \<and> bi_buf (d_out (fst x)) = 0 \<and>
     bi_valid (d_out (fst x)) = 0 \<and> out_ok (d_out (fst x)) (snd x) \<and> in_ok (snd x) \<and>
     z_next_out_index (snd x) + z_avail_out (snd x) = 512 \<and>
     length (window (d_win (fst x))) = 65536 \<and> window_size (d_win (fst x)) = 65536 \<and> w_size (d_win (fst x)) = 32768 \<and>
     0 \<le> block_start (d_win (fst x)) \<and> block_start (d_win (fst x)) \<le> strstart (d_win (fst x)) \<and>
     strstart (d_win (fst x)) - block_start (d_win (fst x)) \<le> 65531 \<and> 0 \<le> lookahead (d_win (fst x)) \<and>
     strstart (d_win (fst x)) + lookahead (d_win (fst x)) \<le> 65536"

definition ready :: "machine \<Rightarrow> bool" where
  "ready x \<longleftrightarrow> stores x \<and> pending (d_out (fst x)) = 0 \<and> 0 < z_avail_out (snd x)"

definition same_mode :: "machine \<Rightarrow> machine \<Rightarrow> bool" where
  "same_mode x y \<longleftrightarrow> d_status (fst y) = d_status (fst x) \<and> z_next_in (snd y) = z_next_in (snd x)"

lemma stores_loose: "stores x \<Longrightarrow> loose x"
  by (auto simp: stores_def loose_def win_ok_def)

lemma flush_loose:
  assumes "loose x" "pending (d_out (fst x)) = 0"
  obtains x2 blk where "flush_block_only eof x = Some (Inr x2)" "stores x2" "made x2 = made x @ stored_block eof blk"
    "left x = blk @ left x2" "int (length blk) = strstart (d_win (fst x)) - block_start (d_win (fst x))"
    "z_avail_out (snd x2) = 0 \<or> pending (d_out (fst x2)) = 0" "lookahead (d_win (fst x2)) = lookahead (d_win (fst x))"
    "strstart (d_win (fst x2)) = block_start (d_win (fst x2))" "z_avail_in (snd x2) = z_avail_in (snd x)" "same_mode x x2"
proof -
  obtain d z where x: "x = (d, z)" by (cases x)
  let ?w = "d_win d" and ?blk = "part (window (d_win d)) (block_start (d_win d)) (strstart (d_win d))"
  have w: "length (window ?w) = 65536" "0 \<le> block_start ?w" "block_start ?w \<le> strstart ?w" "strstart ?w \<le> 65536"
    "strstart ?w - block_start ?w \<le> 65531" using assms(1) by (auto simp: loose_def x)
  have o: "level (d_tune d) = 0" "bi_buf (d_out d) = 0" "bi_valid (d_out d) = 0" "out_ok (d_out d) z" "pending (d_out d) = 0"
    using assms by (auto simp: loose_def x)
  obtain o2 t l z2 where f: "flush_block_only eof (d, z) = Some (Inr (d\<lparr>d_trees := t, d_lits := l, d_out := o2,
       d_win := ?w\<lparr>block_start := strstart ?w\<rparr>\<rparr>, z2))"
    "bi_buf o2 = 0" "bi_valid o2 = 0" "out_ok o2 z2" "z_avail_out z2 = 0 \<or> pending o2 = 0"
    "produced_out z2 @ unsent o2 = produced_out z @ stored_block eof ?blk"
    "z_next_out_index z2 + z_avail_out z2 = z_next_out_index z + z_avail_out z"
    "z_next_in z2 = z_next_in z" "z_next_in_index z2 = z_next_in_index z" "z_avail_in z2 = z_avail_in z"
    by (rule flush_block_stored [OF o w])
  let ?x2 = "(d\<lparr>d_trees := t, d_lits := l, d_out := o2, d_win := ?w\<lparr>block_start := strstart ?w\<rparr>\<rparr>, z2)"
  have i: "input z2 = input z \<and> in_ok z2 = in_ok z" by (rule input_cong) (use f in simp_all)
  have "unsent (d_out d) = []" using o(5) by (simp add: unsent_def)
  then have "made ?x2 = made x @ stored_block eof ?blk" using f(6) by (simp add: made_def x)
  moreover have "left x = ?blk @ left ?x2"
    using i w assms(1) part_join [of "block_start ?w" "strstart ?w" "strstart ?w + lookahead ?w" "window ?w"]
    by (simp add: left_def held_def x loose_def)
  moreover have "stores ?x2" using assms(1) f(2-5,7) i w by (auto simp: loose_def stores_def win_ok_def x)
  moreover have "int (length ?blk) = strstart ?w - block_start ?w" using w by (intro length_part) simp_all
  moreover have "same_mode x ?x2" using f(8) by (simp add: same_mode_def x)
  ultimately show thesis using f(1,5,10) by (intro that [of ?x2 ?blk]) (simp_all add: x)
qed

text \<open>Blocks that go out before the data has ended are long.\<close>

definition big :: "byte list list \<Rightarrow> bool" where
  "big bs \<longleftrightarrow> (\<forall>b \<in> set bs. 32506 \<le> length b)"

lemma big_simps [simp]: "big []" "big (b # bs) \<longleftrightarrow> 32506 \<le> length b \<and> big bs" "big (bs @ cs) \<longleftrightarrow> big bs \<and> big cs"
  by (auto simp: big_def)

definition sent_blocks :: "machine \<Rightarrow> byte list list \<Rightarrow> machine \<Rightarrow> bool" where
  "sent_blocks x bs y \<longleftrightarrow> made y = made x @ concat (map (stored_block False) bs) \<and> left x = concat bs @ left y \<and>
     small bs \<and> big bs \<and> same_mode x y"

lemma small_append [simp]: "small (xs @ ys) \<longleftrightarrow> small xs \<and> small ys"
  by (auto simp: small_def)

lemma sent_none: "made y = made x \<Longrightarrow> left y = left x \<Longrightarrow> same_mode x y \<Longrightarrow> sent_blocks x [] y"
  by (simp add: sent_blocks_def small_def)

lemma sent_trans: "sent_blocks x bs y \<Longrightarrow> sent_blocks y cs u \<Longrightarrow> sent_blocks x (bs @ cs) u"
  by (auto simp: sent_blocks_def same_mode_def)

text \<open>One block goes out in the loop, and what the loop does next.\<close>

lemma emit_one:
  assumes "loose x" "pending (d_out (fst x)) = 0" "32506 \<le> strstart (d_win (fst x)) - block_start (d_win (fst x))"
  obtains y blk where "emit_block x k = (if z_avail_out (snd y) = 0 then ret (Back (True, y)) else k y)"
    "stores y" "sent_blocks x [blk] y" "z_avail_out (snd y) = 0 \<or> pending (d_out (fst y)) = 0"
    "lookahead (d_win (fst y)) = lookahead (d_win (fst x))" "z_avail_in (snd y) = z_avail_in (snd x)"
    "strstart (d_win (fst y)) = block_start (d_win (fst y))"
proof -
  obtain y blk where y: "flush_block_only False x = Some (Inr y)" "stores y" "made y = made x @ stored_block False blk"
    "left x = blk @ left y" "int (length blk) = strstart (d_win (fst x)) - block_start (d_win (fst x))"
    "z_avail_out (snd y) = 0 \<or> pending (d_out (fst y)) = 0" "lookahead (d_win (fst y)) = lookahead (d_win (fst x))"
    "strstart (d_win (fst y)) = block_start (d_win (fst y))" "z_avail_in (snd y) = z_avail_in (snd x)" "same_mode x y"
    by (rule flush_loose [OF assms(1,2)])
  have "int (length blk) < 65536" using y(5) assms(1) by (auto simp: loose_def)
  then have "sent_blocks x [blk] y" using y assms(3) by (auto simp: sent_blocks_def small_def)
  moreover have "emit_block x k = (if z_avail_out (snd y) = 0 then ret (Back (True, y)) else k y)"
    using y(1) by (simp add: emit_block_def split: prod.split)
  ultimately show thesis using y by (intro that)
qed


text \<open>What a round leads to: it goes on, or the output buffer is full.\<close>

definition emitted :: "machine \<Rightarrow> machine round \<Rightarrow> bool" where
  "emitted x r \<longleftrightarrow> (\<exists>bs y. sent_blocks x bs y \<and> stores y \<and> z_avail_in (snd y) = z_avail_in (snd x) \<and>
     lookahead (d_win (fst y)) < lookahead (d_win (fst x)) \<and>
     (r = ret (Go y) \<and> ready y \<or> r = ret (Back (True, y)) \<and> z_avail_out (snd y) = 0))"

lemma emittedI:
  assumes "sent_blocks x bs y" "stores y" "z_avail_in (snd y) = z_avail_in (snd x)"
    "lookahead (d_win (fst y)) < lookahead (d_win (fst x))" "z_avail_out (snd y) = 0 \<or> pending (d_out (fst y)) = 0"
  shows "emitted x (if z_avail_out (snd y) = 0 then ret (Back (True, y)) else ret (Go y))"
proof (cases "z_avail_out (snd y) = 0")
  case False
  moreover have "0 \<le> z_avail_out (snd y)" using assms(2) by (simp add: stores_def out_ok_def)
  ultimately have "ready y" using assms(2,5) by (simp add: ready_def)
  then show ?thesis using assms False unfolding emitted_def by (intro exI [of _ bs] exI [of _ y]) simp
next
  case True
  then show ?thesis using assms unfolding emitted_def by (intro exI [of _ bs] exI [of _ y]) simp
qed

lemma stored_emit_spec:
  assumes "ready x" "0 < lookahead (d_win (fst x))"
  shows "emitted x (stored_emit 65531 x)"
proof -
  obtain d z where x: "x = (d, z)" by (cases x)
  define w where "w = d_win d"
  define stop where "stop = strstart w + lookahead w"
  have w: "win_ok w" "0 < lookahead w" and p: "pending (d_out d) = 0" "0 < z_avail_out z"
    using assms by (auto simp: ready_def stores_def x w_def)
  have st: "stores (d, z)" using assms by (simp add: ready_def x)
  let ?may = "\<lambda>(d, z). if strstart (d_win d) - block_start (d_win d) \<ge> w_size (d_win d) - MIN_LOOKAHEAD
    then emit_block (d, z) (\<lambda>x. ret (Go x)) else ret (Go (d, z))"
  show ?thesis
  proof (cases "stop \<ge> block_start w + 65531")
    case True
    let ?d = "in_win (\<lambda>w. w\<lparr>lookahead := stop - (block_start w + 65531), strstart := block_start w + 65531\<rparr>) d"
    have step: "stored_emit 65531 x = emit_block (?d, z) ?may"
      using True by (simp add: stored_emit_def x in_win_def Let_def flip: w_def) (simp add: stop_def w_def)
    have loose: "loose (?d, z)" "pending (d_out (fst (?d, z))) = 0"
      "32506 \<le> strstart (d_win (fst (?d, z))) - block_start (d_win (fst (?d, z)))"
      using st True p(1) by (auto simp: stores_def loose_def win_ok_def in_win_def stop_def w_def)
    obtain y blk where y: "emit_block (?d, z) ?may = (if z_avail_out (snd y) = 0 then ret (Back (True, y)) else ?may y)"
      "stores y" "sent_blocks (?d, z) [blk] y" "z_avail_out (snd y) = 0 \<or> pending (d_out (fst y)) = 0"
      "lookahead (d_win (fst y)) = lookahead (d_win (fst (?d, z)))" "z_avail_in (snd y) = z_avail_in (snd (?d, z))"
      "strstart (d_win (fst y)) = block_start (d_win (fst y))"
      by (rule emit_one [OF loose])
    have may: "?may y = ret (Go y)" using y(2,7) by (cases y) (simp add: stores_def win_ok_def)
    have "held (d_win ?d) = held w" by (simp add: held_def in_win_def stop_def w_def)
    then have "sent_blocks x [] (?d, z)"
      by (intro sent_none) (simp_all add: made_def left_def same_mode_def in_win_def x w_def)
    then have sx: "sent_blocks x [blk] y" using sent_trans [OF _ y(3), of x "[]"] by simp
    have lt: "lookahead (d_win (fst y)) < lookahead (d_win (fst x))"
      using y(5) w by (simp add: in_win_def x w_def [symmetric] stop_def win_ok_def)
    have "emitted x (if z_avail_out (snd y) = 0 then ret (Back (True, y)) else ret (Go y))"
      by (rule emittedI [OF sx y(2) _ lt y(4)]) (simp add: y(6) x)
    then show ?thesis unfolding step y(1) may .
  next
    case False
    let ?d = "in_win (\<lambda>w. w\<lparr>strstart := stop, lookahead := 0\<rparr>) d"
    have step: "stored_emit 65531 x = ?may (?d, z)"
      using False w by (simp add: stored_emit_def x in_win_def Let_def flip: w_def) (simp add: stop_def w_def win_ok_def)
    have "held (d_win ?d) = held w" by (simp add: held_def in_win_def stop_def w_def)
    then have same: "sent_blocks x [] (?d, z)"
      by (intro sent_none) (simp_all add: made_def left_def same_mode_def in_win_def x w_def)
    show ?thesis
    proof (cases "stop - block_start w \<ge> 32506")
      case True
      have loose: "loose (?d, z)" "pending (d_out (fst (?d, z))) = 0"
        "32506 \<le> strstart (d_win (fst (?d, z))) - block_start (d_win (fst (?d, z)))"
        using st True False p(1) by (auto simp: stores_def loose_def win_ok_def in_win_def stop_def w_def)
      obtain y blk where y: "emit_block (?d, z) (\<lambda>x. ret (Go x)) = (if z_avail_out (snd y) = 0 then ret (Back (True, y)) else ret (Go y))"
        "stores y" "sent_blocks (?d, z) [blk] y" "z_avail_out (snd y) = 0 \<or> pending (d_out (fst y)) = 0"
        "lookahead (d_win (fst y)) = lookahead (d_win (fst (?d, z)))" "z_avail_in (snd y) = z_avail_in (snd (?d, z))"
        "strstart (d_win (fst y)) = block_start (d_win (fst y))"
        by (rule emit_one [OF loose])
      have "?may (?d, z) = emit_block (?d, z) (\<lambda>x. ret (Go x))"
        using True w(1) by (simp add: in_win_def w_def win_ok_def)
      then have "stored_emit 65531 x = (if z_avail_out (snd y) = 0 then ret (Back (True, y)) else ret (Go y))"
        using step y(1) by simp
      moreover have sx: "sent_blocks x [blk] y" using sent_trans [OF same y(3)] by simp
      have "emitted x (if z_avail_out (snd y) = 0 then ret (Back (True, y)) else ret (Go y))"
        by (rule emittedI [OF sx y(2) _ _ y(4)]) (use y(5,6) w(2) in \<open>simp_all add: x in_win_def w_def\<close>)
      ultimately show ?thesis by simp
    next
      case small: False
      have "?may (?d, z) = ret (Go (?d, z))" using small w(1) by (simp add: in_win_def w_def win_ok_def)
      moreover have "stores (?d, z)" using st small by (auto simp: stores_def win_ok_def in_win_def stop_def w_def)
      then have "ready (?d, z)" using p by (simp add: ready_def in_win_def)
      ultimately show ?thesis using same w(2) unfolding emitted_def step
        by (intro exI [of _ "[]"] exI [of _ "(?d, z)"]) (simp add: ready_def x in_win_def w_def)
    qed
  qed
qed

text \<open>All rounds: the blocks sent, and why the loop ended.\<close>

definition loop_end :: "int \<Rightarrow> bool \<times> machine \<Rightarrow> bool" where
  "loop_end flush r \<longleftrightarrow>
     (let y = snd r; idle = (lookahead (d_win (fst y)) = 0 \<and> z_avail_in (snd y) = 0 \<and> ready y) in
      stores y \<and> (fst r \<and> (z_avail_out (snd y) = 0 \<or> flush = Z_NO_FLUSH \<and> idle) \<or> \<not> fst r \<and> flush \<noteq> Z_NO_FLUSH \<and> idle))"

lemma stored_loop:
  assumes "ready x"
  shows "\<exists>bs y more. loop (stored_round flush 65531) x = Some (Inr (more, y)) \<and> sent_blocks x bs y \<and> loop_end flush (more, y)"
  using assms
proof (induction "nat (lookahead (d_win (fst x)) + z_avail_in (snd x))" arbitrary: x rule: less_induct)
  case less
  obtain d z where x: "x = (d, z)" by (cases x)
  have x_ok: "stores x" "win_ok (d_win d)" "in_ok z" using less.prems by (auto simp: ready_def stores_def x)
  have go: "\<exists>bs y more. loop (stored_round flush 65531) x = Some (Inr (more, y)) \<and> sent_blocks x bs y \<and> loop_end flush (more, y)"
    if r: "stored_round flush 65531 x = stored_emit 65531 u" and u: "ready u" "sent_blocks x [] u" "0 < lookahead (d_win (fst u))"
      "lookahead (d_win (fst u)) + z_avail_in (snd u) = lookahead (d_win (fst x)) + z_avail_in (snd x)" for u
  proof -
    from stored_emit_spec [OF u(1,3)] obtain bs y where y: "sent_blocks u bs y" "stores y" "z_avail_in (snd y) = z_avail_in (snd u)"
      "lookahead (d_win (fst y)) < lookahead (d_win (fst u))"
      "stored_emit 65531 u = ret (Go y) \<and> ready y \<or> stored_emit 65531 u = ret (Back (True, y)) \<and> z_avail_out (snd y) = 0"
      by (auto simp: emitted_def)
    have xy: "sent_blocks x bs y" using sent_trans [OF u(2) y(1)] by simp
    from y(5) show ?thesis
    proof
      assume go: "stored_emit 65531 u = ret (Go y) \<and> ready y"
      then have "loop (stored_round flush 65531) x = loop (stored_round flush 65531) y" using r by (simp add: loop_Go ret_def)
      moreover have "0 \<le> z_avail_in (snd y)" "0 \<le> lookahead (d_win (fst y))"
        using y(2) by (auto simp: stores_def in_ok_def win_ok_def)
      then have "nat (lookahead (d_win (fst y)) + z_avail_in (snd y)) < nat (lookahead (d_win (fst x)) + z_avail_in (snd x))"
        using y(3,4) u(4) by simp
      ultimately show ?thesis using less.hyps [of y] go sent_trans [OF xy] by metis
    next
      assume "stored_emit 65531 u = ret (Back (True, y)) \<and> z_avail_out (snd y) = 0"
      then have "loop (stored_round flush 65531) x = Some (Inr (True, y))" "z_avail_out (snd y) = 0"
        using r by (simp_all add: loop_Back ret_def)
      then show ?thesis using xy y(2)
        by (intro exI [of _ bs] exI [of _ y] exI [of _ True]) (simp add: loop_end_def Let_def)
    qed
  qed
  show ?case
  proof (cases "lookahead (d_win d) \<le> 1")
    case False
    then show ?thesis using less.prems go [of x] by (simp add: stored_round_def x sent_none same_mode_def)
  next
    case True
    then obtain w1 z1 where f: "fill_window (d_win d) z = Some (Inr (w1, z1))" "win_ok w1" "in_ok z1" "same_out z z1"
      "held w1 @ input z1 = held (d_win d) @ input z" "lookahead w1 + z_avail_in z1 = lookahead (d_win d) + z_avail_in z"
      "z_avail_in z1 = 0 \<or> 262 \<le> lookahead w1"
      using fill_window_spec [OF x_ok(2,3)] by auto
    let ?u = "(d\<lparr>d_win := w1\<rparr>, z1)"
    have fill: "fill x = Some (Inr ?u)" using f(1) by (simp add: fill_def x ret_def)
    have "stores ?u" using x_ok(1) f(2-4) by (auto simp: stores_def out_ok_def same_out_def x)
    moreover have "produced_out z1 = produced_out z" using f(4) by (simp add: same_out_def produced_out_def split: option.split)
    ultimately have u: "ready ?u" "sent_blocks x [] ?u"
      using less.prems f(4,5) by (auto simp: ready_def x same_out_def made_def left_def same_mode_def intro!: sent_none)
    show ?thesis
    proof (cases "lookahead w1 = 0")
      case True
      have "loop (stored_round flush 65531) x = Some (Inr (flush = Z_NO_FLUSH, ?u))"
        using \<open>lookahead (d_win d) \<le> 1\<close> fill True by (intro loop_Back) (simp add: stored_round_def x ret_def)
      moreover have "loop_end flush (flush = Z_NO_FLUSH, ?u)" using u(1) True f(7) by (simp add: loop_end_def ready_def)
      ultimately show ?thesis using u(2) by blast
    next
      case False
      moreover have "0 \<le> lookahead w1" using f(2) by (simp add: win_ok_def)
      ultimately show ?thesis using \<open>lookahead (d_win d) \<le> 1\<close> fill u f(6) by (intro go [of ?u]) (simp_all add: stored_round_def x)
    qed
  qed
qed


section \<open>deflate\<close>

lemma status_forget [simp]: "d_status (fst (forget_flush x)) = d_status (fst x)" "snd (forget_flush x) = snd x"
    "d_last_flush (fst (forget_flush x)) = - 1" "d_out (fst (forget_flush x)) = d_out (fst x)" "d_win (fst (forget_flush x)) = d_win (fst x)"
    "stores (forget_flush x) = stores x" "made (forget_flush x) = made x" "left (forget_flush x) = left x"
    "same_mode y (forget_flush x) = same_mode y x" "ready (forget_flush x) = ready x" "sent_blocks y bs (forget_flush x) = sent_blocks y bs x"
  by (simp_all add: forget_flush_def stores_def made_def left_def same_mode_def ready_def sent_blocks_def)

text \<open>The last flush value matters for none of this.\<close>

lemma last_flush_simps [simp]:
  "stores (d\<lparr>d_last_flush := f\<rparr>, z) = stores (d, z)" "made (d\<lparr>d_last_flush := f\<rparr>, z) = made (d, z)"
  "left (d\<lparr>d_last_flush := f\<rparr>, z) = left (d, z)" "ready (d\<lparr>d_last_flush := f\<rparr>, z) = ready (d, z)"
  "sent_blocks (d\<lparr>d_last_flush := f\<rparr>, z) bs y = sent_blocks (d, z) bs y"
  by (simp_all add: stores_def made_def left_def same_mode_def ready_def sent_blocks_def)

text \<open>Pending output first: either the output buffer is full, or nothing is pending any more.\<close>

lemma flush_first:
  assumes "stores x"
  obtains o1 z1 where "flush_pending (d_out (fst x)) (snd x) = Inr (o1, z1)" "stores ((fst x)\<lparr>d_out := o1\<rparr>, z1)"
    "sent_blocks x [] ((fst x)\<lparr>d_out := o1\<rparr>, z1)" "z_avail_out z1 = 0 \<or> ready ((fst x)\<lparr>d_out := o1\<rparr>, z1)"
    "z_avail_in z1 = z_avail_in (snd x)"
proof -
  have ok: "out_ok (d_out (fst x)) (snd x)" using assms by (simp add: stores_def)
  obtain o1 z1 where f: "flush_pending (d_out (fst x)) (snd x) = Inr (o1, z1)" "out_ok o1 z1" "same_rest (d_out (fst x)) (snd x) o1 z1"
    "produced_out z1 @ unsent o1 = produced_out (snd x) @ unsent (d_out (fst x))" "z_avail_out z1 = 0 \<or> pending o1 = 0"
    by (rule flush_pending_spec [OF ok])
  have i: "input z1 = input (snd x) \<and> in_ok z1 = in_ok (snd x)" by (rule input_cong) (use f(3) in \<open>simp_all add: same_rest_def\<close>)
  have st: "stores ((fst x)\<lparr>d_out := o1\<rparr>, z1)" using assms f(2,3) i by (simp add: stores_def same_rest_def)
  moreover have "sent_blocks x [] ((fst x)\<lparr>d_out := o1\<rparr>, z1)"
    using f(3,4) i by (intro sent_none) (simp_all add: made_def left_def same_mode_def same_rest_def)
  moreover have "z_avail_out z1 = 0 \<or> ready ((fst x)\<lparr>d_out := o1\<rparr>, z1)"
    using st f(2,5) by (auto simp: ready_def out_ok_def)
  moreover have "z_avail_in z1 = z_avail_in (snd x)" using f(3) by (simp add: same_rest_def)
  ultimately show thesis by (rule that [OF f(1)])
qed

definition idle :: "machine \<Rightarrow> bool" where
  "idle y \<longleftrightarrow> ready y \<and> lookahead (d_win (fst y)) = 0 \<and> z_avail_in (snd y) = 0"

lemma config_0: "elem config_table 0 = Inr (Config 0 0 0 0 STORE)"
  by (simp add: elem_def arr_at_def config_table_def)

lemma stored_level: "stores x \<Longrightarrow> elem config_table (level (d_tune (fst x))) = Inr (Config 0 0 0 0 STORE)"
  "stores x \<Longrightarrow> min 0xffff (pending_buf_size (fst x) - 5) = 65531"
  by (simp_all add: stores_def config_0)

lemma body_append:
  assumes "ready x" "d_status (fst x) = BUSY_STATE"
  shows "\<exists>bs y. deflate_body Z_NO_FLUSH x = Some (Inr (Z_OK, y)) \<and> sent_blocks x bs y \<and> stores y \<and>
    (z_avail_out (snd y) = 0 \<and> d_last_flush (fst y) = - 1 \<or> idle y)"
proof (cases "z_avail_in (snd x) \<noteq> 0 \<or> lookahead (d_win (fst x)) \<noteq> 0")
  case False
  then have "idle x" "deflate_body Z_NO_FLUSH x = Some (Inr (Z_OK, x))"
    using assms by (simp_all add: deflate_body_def ret_def end_result_def idle_def)
  then show ?thesis using sent_none [of x x] assms(1) unfolding idle_def by (force simp: same_mode_def ready_def)
next
  case True
  have st: "stores x" using assms by (simp add: ready_def)
  obtain bs y more where l: "loop (stored_round Z_NO_FLUSH 65531) x = Some (Inr (more, y))" "sent_blocks x bs y"
    "loop_end Z_NO_FLUSH (more, y)" using stored_loop [OF assms(1)] by blast
  have y: "more" "stores y" "z_avail_out (snd y) = 0 \<or> idle y" using l(3) by (auto simp: loop_end_def Let_def idle_def)
  have "deflate_stored Z_NO_FLUSH x = Some (Inr (NeedMore, y))"
    using l(1) y(1) stored_level(2) [OF st] by (simp add: deflate_stored_def ret_def Let_def)
  then have "deflate_body Z_NO_FLUSH x = Some (Inr (Z_OK, if z_avail_out (snd y) = 0 then forget_flush y else y))"
    using True stored_level(1) [OF st] by (cases y) (auto simp: deflate_body_def lift_def ret_def Config_def deflate_with_def)
  then show ?thesis using l(2) y(2,3) by (cases "z_avail_out (snd y) = 0") (auto simp: idle_def ready_def)
qed

lemma deflate_append:
  assumes "stores x" "d_status (fst x) = BUSY_STATE" "z_avail_out (snd x) = 512"
    "z_avail_in (snd x) \<noteq> 0 \<or> d_last_flush (fst x) = - 1 \<or> pending (d_out (fst x)) \<noteq> 0"
  shows "\<exists>bs y. deflate_deflate Z_NO_FLUSH x = Some (Inr (Z_OK, y)) \<and> sent_blocks x bs y \<and> stores y \<and>
    (z_avail_out (snd y) = 0 \<and> d_last_flush (fst y) = - 1 \<or> idle y)"
proof -
  obtain d z where x: "x = (d, z)" by (cases x)
  let ?x = "(d\<lparr>d_last_flush := 0\<rparr>, z)"
  have buffers: "z_next_out z \<noteq> None" "\<not> (z_next_in z = None \<and> z_avail_in z \<noteq> 0)"
    using assms(1) by (auto simp: stores_def out_ok_def in_ok_def x split: option.splits)
  have start: "deflate_deflate Z_NO_FLUSH x = deflate_pending Z_NO_FLUSH (d_last_flush d) ?x"
    using assms(2,3) buffers by (auto simp: deflate_deflate_def x write_header_def)
  have body: "\<exists>bs y. deflate_pending Z_NO_FLUSH (d_last_flush d) ?x = Some (Inr (Z_OK, y)) \<and> sent_blocks x bs y \<and> stores y \<and>
    (z_avail_out (snd y) = 0 \<and> d_last_flush (fst y) = - 1 \<or> idle y)"
    if "deflate_pending Z_NO_FLUSH (d_last_flush d) ?x = deflate_body Z_NO_FLUSH u" "ready u" "sent_blocks x [] u" for u
  proof -
    have "d_status (fst u) = BUSY_STATE" using that(3) assms(2) by (simp add: sent_blocks_def same_mode_def)
    with body_append [OF that(2)] sent_trans [OF that(3)] that(1) show ?thesis by (metis append_Nil)
  qed
  show ?thesis
  proof (cases "pending (d_out d) = 0")
    case True
    have "ready ?x" using True assms by (simp add: ready_def x)
    moreover have "sent_blocks x [] ?x" using sent_none [of ?x x] by (simp add: x same_mode_def)
    ultimately show ?thesis using True assms(2,4) unfolding start by (intro body [of ?x]) (auto simp: deflate_pending_def x)
  next
    case False
    have "stores ?x" using assms(1) by (simp add: x)
    then obtain o1 z1 where f0: "flush_pending (d_out (fst ?x)) (snd ?x) = Inr (o1, z1)"
      and f: "stores ((fst ?x)\<lparr>d_out := o1\<rparr>, z1)" "sent_blocks ?x [] ((fst ?x)\<lparr>d_out := o1\<rparr>, z1)"
      "z_avail_out z1 = 0 \<or> ready ((fst ?x)\<lparr>d_out := o1\<rparr>, z1)"
      by (rule flush_first)
    have fp: "flush_pending (d_out d) z = Inr (o1, z1)" using f0 by simp
    let ?u = "((fst ?x)\<lparr>d_out := o1\<rparr>, z1)"
    have xu: "sent_blocks x [] ?u" using f(2) by (simp add: x)
    show ?thesis
    proof (cases "z_avail_out z1 = 0")
      case True
      then have "deflate_pending Z_NO_FLUSH (d_last_flush d) ?x = Some (Inr (Z_OK, forget_flush ?u))"
        using False fp by (simp add: deflate_pending_def Let_def lift_def ret_def)
      then show ?thesis using f(1) xu True unfolding start by (intro exI [of _ "[]"] exI [of _ "forget_flush ?u"]) simp
    next
      case room: False
      then show ?thesis using False fp f assms(2) xu unfolding start
        by (intro body [of ?u]) (simp_all add: deflate_pending_def Let_def lift_def x)
    qed
  qed
qed


section \<open>Finishing\<close>

text \<open>The output buffer of 512 bytes, whatever the level, and a stream whose last block is out.\<close>

definition out_side :: "machine \<Rightarrow> bool" where
  "out_side x \<longleftrightarrow> out_ok (d_out (fst x)) (snd x) \<and> z_next_out_index (snd x) + z_avail_out (snd x) = 512"

definition ended :: "machine \<Rightarrow> bool" where
  "ended y \<longleftrightarrow> out_side y \<and> d_status (fst y) = FINISH_STATE \<and> lookahead (d_win (fst y)) = 0 \<and> z_avail_in (snd y) = 0"

lemma stores_out_side: "stores y \<Longrightarrow> out_side y"
  by (simp add: stores_def out_side_def)

definition over :: "machine \<Rightarrow> bool" where
  "over y \<longleftrightarrow> stores y \<and> d_status (fst y) = FINISH_STATE \<and> lookahead (d_win (fst y)) = 0 \<and> z_avail_in (snd y) = 0"

definition drained :: "machine \<Rightarrow> bool" where
  "drained y \<longleftrightarrow> z_avail_out (snd y) = 0 \<or> pending (d_out (fst y)) = 0"

text \<open>The last block has been sent.\<close>

definition closes :: "machine \<Rightarrow> byte list list \<Rightarrow> machine \<Rightarrow> bool" where
  "closes x ds y \<longleftrightarrow> over y \<and> drained y \<and> (\<exists>bs d. ds = bs @ [d] \<and> big bs \<and> small ds \<and> left x = concat ds \<and>
     made y = made x @ concat (map (stored_block False) bs) @ stored_block True d)"

lemma closes_trans: 
  assumes "sent_blocks x bs y" "closes y ds u"
  shows "closes x (bs @ ds) u"
proof -
  from assms obtain cs d where "over u" "drained u" "ds = cs @ [d]" "big (bs @ cs)" "small (bs @ ds)" "left x = concat (bs @ ds)"
    "made u = made x @ concat (map (stored_block False) (bs @ cs)) @ stored_block True d"
    by (auto simp: closes_def sent_blocks_def)
  then show ?thesis unfolding closes_def by (intro conjI exI [of _ "bs @ cs"] exI [of _ d]) simp_all
qed

definition ok_or_end :: "int \<Rightarrow> bool" where
  "ok_or_end r \<longleftrightarrow> r = Z_OK \<or> r = Z_STREAM_END"

lemma body_finish:
  assumes "ready x" "d_status (fst x) = BUSY_STATE"
  shows "\<exists>r bs y. deflate_body Z_FINISH x = Some (Inr (r, y)) \<and> ok_or_end r \<and>
    (sent_blocks x bs y \<and> stores y \<and> z_avail_out (snd y) = 0 \<or> closes x bs y)"
proof -
  have st: "stores x" using assms by (simp add: ready_def)
  obtain bs y more where l: "loop (stored_round Z_FINISH 65531) x = Some (Inr (more, y))" "sent_blocks x bs y"
    "loop_end Z_FINISH (more, y)" using stored_loop [OF assms(1)] by blast
  have "stores y" using l(3) by (simp add: loop_end_def Let_def)
  have body: "deflate_body Z_FINISH x = pbind (deflate_stored Z_FINISH x) (\<lambda>(bstate, (d, z)).
      let d1 = (if bstate = FinishStarted \<or> bstate = FinishDone then d\<lparr>d_status := FINISH_STATE\<rparr> else d) in
      if bstate = NeedMore \<or> bstate = FinishStarted then
        ret (Z_OK, if z_avail_out z = 0 then forget_flush (d1, z) else (d1, z))
      else if bstate = BlockDone then
        pbind (lift (flush_marker Z_FINISH (d1, z))) (\<lambda>x1.
          ret (if z_avail_out (snd x1) = 0 then (Z_OK, forget_flush x1) else (end_result Z_FINISH, x1)))
      else ret (end_result Z_FINISH, (d1, z)))"
  proof -
    have "Z_FINISH \<noteq> Z_NO_FLUSH" by simp
    then show ?thesis using assms(2) stored_level(1) [OF st]
      by (simp add: deflate_body_def Config_def deflate_with_def del: Z_FINISH_def)
  qed
  show ?thesis
  proof (cases more)
    case True
    then have "z_avail_out (snd y) = 0" using l(3) by (simp add: loop_end_def Let_def)
    moreover have "deflate_stored Z_FINISH x = Some (Inr (NeedMore, y))"
      using l(1) True stored_level(2) [OF st] by (simp add: deflate_stored_def ret_def Let_def)
    ultimately have "deflate_body Z_FINISH x = Some (Inr (Z_OK, forget_flush y))"
      unfolding body by (cases y) (simp add: ret_def)
    then show ?thesis using l(2) \<open>stores y\<close> \<open>z_avail_out (snd y) = 0\<close>
      by (intro exI [of _ Z_OK] exI [of _ bs] exI [of _ "forget_flush y"]) (simp add: ok_or_end_def)
  next
    case False
    then have y: "ready y" "lookahead (d_win (fst y)) = 0" "z_avail_in (snd y) = 0"
      using l(3) by (simp_all add: loop_end_def Let_def)
    have ly: "loose y" "pending (d_out (fst y)) = 0" using y(1) by (simp_all add: ready_def stores_loose)
    obtain u blk where u: "flush_block_only True y = Some (Inr u)" "stores u" "made u = made y @ stored_block True blk"
      "left y = blk @ left u" "int (length blk) = strstart (d_win (fst y)) - block_start (d_win (fst y))"
      "z_avail_out (snd u) = 0 \<or> pending (d_out (fst u)) = 0" "lookahead (d_win (fst u)) = lookahead (d_win (fst y))"
      "strstart (d_win (fst u)) = block_start (d_win (fst u))" "z_avail_in (snd u) = z_avail_in (snd y)" "same_mode y u"
      by (rule flush_loose [OF ly])
    have len: "int (length blk) < 65536" using u(5) ly(1) by (auto simp: loose_def)
    have "left u = []" using u(7,8,9) y(2,3) by (simp add: left_def held_def input_def split: option.split)
    define v where "v = ((fst u)\<lparr>d_status := FINISH_STATE\<rparr>, snd u)"
    have v: "stores v" "made v = made u" "over v" "over (forget_flush v)" "drained v" "drained (forget_flush v)"
      using u(2,6,7,9) y(2,3) by (simp_all add: v_def stores_def made_def over_def drained_def forget_flush_def)
    have "closes x (bs @ [blk]) v" "closes x (bs @ [blk]) (forget_flush v)"
      using l(2) u(3,4) v \<open>left u = []\<close> len unfolding closes_def sent_blocks_def by (auto simp: small_def)
    moreover have "finish_block Z_FINISH y = Some (Inr (if z_avail_out (snd u) = 0 then FinishStarted else FinishDone, u))"
      using u(1) by (cases u) (simp add: finish_block_def ret_def)
    then have "deflate_stored Z_FINISH x = Some (Inr (if z_avail_out (snd u) = 0 then FinishStarted else FinishDone, u))"
      using l(1) False stored_level(2) [OF st] by (simp add: deflate_stored_def ret_def Let_def)
    then have "deflate_body Z_FINISH x = Some (Inr (if z_avail_out (snd u) = 0 then (Z_OK, forget_flush v) else (Z_STREAM_END, v)))"
      unfolding body by (cases u) (simp add: ret_def v_def end_result_def)
    ultimately show ?thesis by (cases "z_avail_out (snd u) = 0") (auto simp: ok_or_end_def)
  qed
qed

lemma deflate_finish:
  assumes "stores x" "d_status (fst x) = BUSY_STATE" "z_avail_out (snd x) = 512"
  shows "\<exists>r bs y. deflate_deflate Z_FINISH x = Some (Inr (r, y)) \<and> ok_or_end r \<and>
    (sent_blocks x bs y \<and> stores y \<and> z_avail_out (snd y) = 0 \<or> closes x bs y)"
proof -
  obtain d z where x: "x = (d, z)" by (cases x)
  let ?x = "(d\<lparr>d_last_flush := 4\<rparr>, z)"
  have buffers: "z_next_out z \<noteq> None" "\<not> (z_next_in z = None \<and> z_avail_in z \<noteq> 0)"
    using assms(1) by (auto simp: stores_def out_ok_def in_ok_def x split: option.splits)
  have start: "deflate_deflate Z_FINISH x = deflate_pending Z_FINISH (d_last_flush d) ?x"
    using assms(2,3) buffers by (auto simp: deflate_deflate_def x write_header_def)
  have body: "\<exists>r bs y. deflate_pending Z_FINISH (d_last_flush d) ?x = Some (Inr (r, y)) \<and> ok_or_end r \<and>
      (sent_blocks x bs y \<and> stores y \<and> z_avail_out (snd y) = 0 \<or> closes x bs y)"
    if "deflate_pending Z_FINISH (d_last_flush d) ?x = deflate_body Z_FINISH u" "ready u" "sent_blocks x [] u" for u
  proof -
    have "d_status (fst u) = BUSY_STATE" using that(3) assms(2) by (simp add: sent_blocks_def same_mode_def)
    with body_finish [OF that(2)] sent_trans [OF that(3)] closes_trans [OF that(3)] that(1) show ?thesis by (metis append_Nil)
  qed
  show ?thesis
  proof (cases "pending (d_out d) = 0")
    case True
    have "ready ?x" using True assms by (simp add: ready_def x)
    moreover have "sent_blocks x [] ?x" using sent_none [of ?x x] by (simp add: x same_mode_def)
    ultimately show ?thesis using True assms(2) unfolding start by (intro body [of ?x]) (auto simp: deflate_pending_def x)
  next
    case False
    have "stores ?x" using assms(1) by (simp add: x)
    then obtain o1 z1 where f0: "flush_pending (d_out (fst ?x)) (snd ?x) = Inr (o1, z1)"
      and f: "stores ((fst ?x)\<lparr>d_out := o1\<rparr>, z1)" "sent_blocks ?x [] ((fst ?x)\<lparr>d_out := o1\<rparr>, z1)"
      "z_avail_out z1 = 0 \<or> ready ((fst ?x)\<lparr>d_out := o1\<rparr>, z1)"
      by (rule flush_first)
    have fp: "flush_pending (d_out d) z = Inr (o1, z1)" using f0 by simp
    let ?u = "((fst ?x)\<lparr>d_out := o1\<rparr>, z1)"
    have xu: "sent_blocks x [] ?u" using f(2) by (simp add: x)
    show ?thesis
    proof (cases "z_avail_out z1 = 0")
      case True
      then have "deflate_pending Z_FINISH (d_last_flush d) ?x = Some (Inr (Z_OK, forget_flush ?u))"
        using False fp by (simp add: deflate_pending_def Let_def lift_def ret_def)
      then show ?thesis using f(1) xu True unfolding start
        by (intro exI [of _ Z_OK] exI [of _ "[]"] exI [of _ "forget_flush ?u"]) (simp add: ok_or_end_def)
    next
      case room: False
      then show ?thesis using False fp f assms(2) xu unfolding start
        by (intro body [of ?u]) (simp_all add: deflate_pending_def Let_def lift_def x)
    qed
  qed
qed

lemma over_ended: "over y \<Longrightarrow> ended y"
  by (simp add: over_def ended_def stores_out_side)

lemma deflate_ended:
  assumes "ended x" "z_avail_out (snd x) = 512"
  shows "\<exists>r y. deflate_deflate Z_FINISH x = Some (Inr (r, y)) \<and> ok_or_end r \<and> ended y \<and> drained y \<and> made y = made x"
proof -
  obtain d z where x: "x = (d, z)" by (cases x)
  let ?x = "(d\<lparr>d_last_flush := 4\<rparr>, z)"
  have ok: "out_ok (d_out d) z" "z_next_out_index z + z_avail_out z = 512" "d_status d = FINISH_STATE"
    "lookahead (d_win d) = 0" "z_avail_in z = 0"
    using assms(1) by (auto simp: ended_def out_side_def x)
  have "z_next_out z \<noteq> None" using ok(1) by (auto simp: out_ok_def)
  then have start: "deflate_deflate Z_FINISH x = deflate_pending Z_FINISH (d_last_flush d) ?x"
    using assms(2) ok by (auto simp: deflate_deflate_def x write_header_def)
  show ?thesis
  proof (cases "pending (d_out d) = 0")
    case True
    then have "deflate_deflate Z_FINISH x = Some (Inr (Z_STREAM_END, ?x))"
      using ok unfolding start by (simp add: deflate_pending_def deflate_body_def ret_def end_result_def)
    then show ?thesis using ok True by (auto simp: ended_def out_side_def drained_def ok_or_end_def made_def x)
  next
    case False
    obtain o1 z1 where f: "flush_pending (d_out d) z = Inr (o1, z1)" "out_ok o1 z1" "same_rest (d_out d) z o1 z1"
      "produced_out z1 @ unsent o1 = produced_out z @ unsent (d_out d)" "z_avail_out z1 = 0 \<or> pending o1 = 0"
      by (rule flush_pending_spec [OF ok(1)])
    let ?u = "((fst ?x)\<lparr>d_out := o1\<rparr>, z1)"
    have u: "ended ?u" "ended (forget_flush ?u)" "drained ?u" "drained (forget_flush ?u)" "made ?u = made x"
      using f ok by (auto simp: ended_def out_side_def drained_def made_def same_rest_def forget_flush_def x)
    show ?thesis
    proof (cases "z_avail_out z1 = 0")
      case True
      then have "deflate_deflate Z_FINISH x = Some (Inr (Z_OK, forget_flush ?u))"
        using False f(1) unfolding start by (simp add: deflate_pending_def Let_def lift_def ret_def)
      then show ?thesis using u by (intro exI [of _ Z_OK] exI [of _ "forget_flush ?u"]) (simp add: ok_or_end_def)
    next
      case room: False
      have "z_avail_in z1 = 0" using f(3) ok(5) by (simp add: same_rest_def)
      then have "deflate_deflate Z_FINISH x = Some (Inr (Z_STREAM_END, ?u))"
        using False f(1) room ok unfolding start by (simp add: deflate_pending_def deflate_body_def Let_def lift_def ret_def end_result_def)
      then show ?thesis using u by (intro exI [of _ Z_STREAM_END] exI [of _ ?u]) (simp add: ok_or_end_def)
    qed
  qed
qed


section \<open>The loops of the \<open>Deflater\<close>\<close>

definition obj :: "machine \<Rightarrow> dzs" where
  "obj x = \<lparr>dz_state = Some (Set (fst x)), dz_z = snd x\<rparr>"

text \<open>The same with an empty output buffer.\<close>

definition fresh :: "machine \<Rightarrow> machine" where
  "fresh x = (fst x, (snd x)\<lparr>z_next_out_index := 0, z_avail_out := 512\<rparr>)"

lemma fresh_simps [simp]: "fst (fresh x) = fst x" "z_avail_out (snd (fresh x)) = 512" "z_avail_in (snd (fresh x)) = z_avail_in (snd x)"
    "left (fresh x) = left x" "made (fresh x) = unsent (d_out (fst x))" "fresh_out (obj x) = obj (fresh x)"
  by (auto simp: fresh_def left_def made_def produced_out_def obj_def fresh_out_def input_def split: option.split)

lemma produced_fresh [simp]: "produced_out (snd (fresh x)) = []"
  by (simp add: fresh_def produced_out_def split: option.split)

lemma stores_fresh:
  assumes "stores x"
  shows "stores (fresh x)"
proof -
  have "in_ok (snd (fresh x)) = in_ok (snd x)"
    using input_cong [of "snd (fresh x)" "snd x"] by (simp add: fresh_def)
  then show ?thesis using assms by (auto simp: stores_def out_ok_def fresh_def)
qed

lemma obj_deflate: "deflate_deflate f x = Some (Inr (r, y)) \<Longrightarrow> dz_deflate f (obj x) = Some (Inr (r, obj y))"
  by (cases x; cases y) (simp add: dz_deflate_def obj_def ret_def)

lemma length_stored_block [simp]: "length (stored_block e d) = 5 + length d"
  by (simp add: stored_block_def le_2)

lemma length_blocks: "big bs \<Longrightarrow> length (concat (map (stored_block False) bs)) \<le> 6 * length (concat bs)"
proof (induction bs)
  case (Cons b bs)
  then have "1 \<le> length b" by (cases b) auto
  with Cons show ?case by simp
qed simp

lemma out_side_fresh: "out_side x \<Longrightarrow> out_side (fresh x)"
  by (auto simp: out_side_def out_ok_def fresh_def)

lemma full_buffer: "out_side y \<Longrightarrow> z_avail_out (snd y) = 0 \<Longrightarrow> length (produced_out (snd y)) = 512"
  by (auto simp: out_side_def out_ok_def produced_out_def)

lemma append_loop:
  assumes "stores (fresh x)" "d_status (fst x) = BUSY_STATE" "k_s a = obj x"
    "z_avail_in (snd x) \<noteq> 0 \<or> d_last_flush (fst x) = - 1 \<or> pending (d_out (fst x)) \<noteq> 0"
  shows "\<exists>bs y a1. loop append_round a = Some (Inr a1) \<and> k_s a1 = obj y \<and>
    k_out a1 = k_out a @ unsent (d_out (fst x)) @ concat (map (stored_block False) bs) \<and> left x = concat bs @ left y \<and>
    small bs \<and> big bs \<and> idle y \<and> d_status (fst y) = BUSY_STATE"
  using assms
proof (induction "6 * length (left x) + length (unsent (d_out (fst x)))" arbitrary: x a rule: less_induct)
  case less
  have "\<exists>bs y. deflate_deflate Z_NO_FLUSH (fresh x) = Some (Inr (Z_OK, y)) \<and> sent_blocks (fresh x) bs y \<and> stores y \<and>
      (z_avail_out (snd y) = 0 \<and> d_last_flush (fst y) = - 1 \<or> idle y)"
    by (rule deflate_append) (use less.prems in simp_all)
  then obtain bs y where y: "deflate_deflate Z_NO_FLUSH (fresh x) = Some (Inr (Z_OK, y))" "sent_blocks (fresh x) bs y" "stores y"
    "z_avail_out (snd y) = 0 \<and> d_last_flush (fst y) = - 1 \<or> idle y" by blast
  have b: "d_status (fst y) = BUSY_STATE" using y(2) less.prems(2) by (simp add: sent_blocks_def same_mode_def)
  have m: "made y = unsent (d_out (fst x)) @ concat (map (stored_block False) bs)" "left x = concat bs @ left y" "small bs" "big bs"
    using y(2) by (simp_all add: sent_blocks_def)
  define moved where "moved = (z_next_in_index (snd y) > 0 \<and> z_next_in_index (snd y) \<noteq> k_last a)"
  define l where "l = (if moved then z_next_in_index (snd y) else k_last a)"
  define p where "p = (if moved then k_progress a @ [z_next_in_index (snd y)] else k_progress a)"
  have d: "dz_deflate Z_NO_FLUSH (fresh_out (k_s a)) = Some (Inr (Z_OK, obj y))"
    using obj_deflate [OF y(1)] less.prems(3) by simp
  have z: "dz_z (obj y) = snd y" by (simp add: obj_def)
  have step: "append_round a = Some (Inr (let a1 = \<lparr>k_s = obj y, k_out = k_out a @ produced_out (snd y), k_last = l, k_progress = p\<rparr>
      in if z_avail_in (snd y) > 0 \<or> z_avail_out (snd y) = 0 then Go a1 else Back a1))"
    unfolding append_round_def d Let_def l_def p_def moved_def by (simp add: z ret_def Let_def del: Z_OK_def)
  let ?a = "\<lparr>k_s = obj y, k_out = k_out a @ produced_out (snd y), k_last = l, k_progress = p\<rparr>"
  show ?case
  proof (cases "z_avail_out (snd y) = 0")
    case True
    then have last: "d_last_flush (fst y) = - 1" using y(4) by (auto simp: idle_def ready_def)
    have go: "loop append_round a = loop append_round ?a" using True step by (intro loop_Go) (simp add: Let_def)
    have "length (made y) = 512 + length (unsent (d_out (fst y)))" using full_buffer [OF stores_out_side [OF y(3)] True] by (simp add: made_def)
    then have "6 * length (left y) + length (unsent (d_out (fst y))) < 6 * length (left x) + length (unsent (d_out (fst x)))"
      using m length_blocks [OF m(4)] by simp
    from less.hyps [OF this stores_fresh [OF y(3)] b, of ?a] last obtain cs u a1 where u: "loop append_round ?a = Some (Inr a1)"
      "k_s a1 = obj u" "k_out a1 = k_out ?a @ unsent (d_out (fst y)) @ concat (map (stored_block False) cs)"
      "left y = concat cs @ left u" "small cs" "big cs" "idle u" "d_status (fst u) = BUSY_STATE" by auto
    have "k_out a1 = k_out a @ unsent (d_out (fst x)) @ concat (map (stored_block False) (bs @ cs))"
      using u(3) m(1) by (simp add: made_def)
    then show ?thesis using go u m by (intro exI [of _ "bs @ cs"] exI [of _ u] exI [of _ a1]) simp
  next
    case False
    then have i: "idle y" using y(4) by simp
    then have "unsent (d_out (fst y)) = []" "z_avail_in (snd y) = 0" by (simp_all add: idle_def ready_def unsent_def)
    then have "loop append_round a = Some (Inr ?a)" "k_out ?a = k_out a @ unsent (d_out (fst x)) @ concat (map (stored_block False) bs)"
      using False step m(1) by (simp_all add: loop_Back Let_def made_def)
    then show ?thesis using i b m by (intro exI [of _ bs] exI [of _ y] exI [of _ ?a]) simp
  qed
qed

text \<open>The loop of \<open>flush\<close>.\<close>

lemma flush_round_eq:
  assumes "deflate_deflate Z_FINISH (fresh x) = Some (Inr (r, y))" "ok_or_end r" "out_side y"
  shows "flush_round (obj x, out) = Some (Inr (let a1 = (obj y, out @ produced_out (snd y)) in
    if z_avail_in (snd y) > 0 \<or> z_avail_out (snd y) = 0 then Go a1 else Back a1))"
proof -
  have d: "dz_deflate Z_FINISH (fresh_out (obj x)) = Some (Inr (r, obj y))" using obj_deflate [OF assms(1)] by simp
  have z: "dz_z (obj y) = snd y" by (simp add: obj_def)
  have "produced_out (snd y) = []" if "\<not> buf_size - z_avail_out (snd y) > 0"
    using that assms(3) by (auto simp: out_side_def produced_out_def split: option.split)
  then have "(if buf_size - z_avail_out (snd y) > 0 then out @ produced_out (snd y) else out) = out @ produced_out (snd y)" by simp
  moreover have "\<not> (r \<noteq> Z_STREAM_END \<and> r \<noteq> Z_OK)" using assms(2) by (auto simp: ok_or_end_def)
  ultimately show ?thesis unfolding flush_round_def fst_conv snd_conv d pbind_simps prod.case Let_def z
    by (simp only: if_False ret_def)
qed

lemma drained_unsent: "drained y \<Longrightarrow> z_avail_out (snd y) \<noteq> 0 \<Longrightarrow> unsent (d_out (fst y)) = []"
  by (simp add: drained_def unsent_def)

lemma flush_ended:
  assumes "ended x"
  shows "\<exists>s. loop flush_round (obj x, out) = Some (Inr (s, out @ unsent (d_out (fst x))))"
  using assms
proof (induction "length (unsent (d_out (fst x)))" arbitrary: x out rule: less_induct)
  case less
  have "ended (fresh x)" using less.prems out_side_fresh [of x] by (simp add: ended_def)
  then obtain r y where y: "deflate_deflate Z_FINISH (fresh x) = Some (Inr (r, y))" "ok_or_end r" "ended y" "drained y"
    "made y = unsent (d_out (fst x))" using deflate_ended [of "fresh x"] by auto
  have st: "out_side y" "z_avail_in (snd y) = 0" using y(3) by (simp_all add: ended_def)
  note step = flush_round_eq [OF y(1,2) st(1), of out]
  show ?case
  proof (cases "z_avail_out (snd y) = 0")
    case True
    have "length (unsent (d_out (fst y))) < length (unsent (d_out (fst x)))"
      using full_buffer [OF st(1) True] y(5) [symmetric] by (simp add: made_def)
    from less.hyps [OF this y(3), of "out @ produced_out (snd y)"] True step y(5) [symmetric]
    show ?thesis by (simp add: loop_Go Let_def made_def)
  next
    case False
    then show ?thesis using step st(2) y(5) [symmetric] drained_unsent [OF y(4) False] by (simp add: loop_Back Let_def made_def)
  qed
qed

lemma flush_loop:
  assumes "stores (fresh x)" "d_status (fst x) = BUSY_STATE"
  shows "\<exists>s bs d. loop flush_round (obj x, out) = Some (Inr (s, out @ unsent (d_out (fst x)) @
      concat (map (stored_block False) bs) @ stored_block True d)) \<and> left x = concat bs @ d \<and> small (bs @ [d]) \<and> big bs"
  using assms
proof (induction "6 * length (left x) + length (unsent (d_out (fst x)))" arbitrary: x out rule: less_induct)
  case less
  have "\<exists>r bs y. deflate_deflate Z_FINISH (fresh x) = Some (Inr (r, y)) \<and> ok_or_end r \<and>
    (sent_blocks (fresh x) bs y \<and> stores y \<and> z_avail_out (snd y) = 0 \<or> closes (fresh x) bs y)"
    by (rule deflate_finish) (use less.prems in simp_all)
  then obtain r bs y where y: "deflate_deflate Z_FINISH (fresh x) = Some (Inr (r, y))" "ok_or_end r"
    "sent_blocks (fresh x) bs y \<and> stores y \<and> z_avail_out (snd y) = 0 \<or> closes (fresh x) bs y" by blast
  from y(3) show ?case
  proof
    assume "sent_blocks (fresh x) bs y \<and> stores y \<and> z_avail_out (snd y) = 0"
    then have s: "sent_blocks (fresh x) bs y" "stores y" "z_avail_out (snd y) = 0" by auto
    have b: "d_status (fst y) = BUSY_STATE" using s(1) less.prems(2) by (simp add: sent_blocks_def same_mode_def)
    have m: "produced_out (snd y) @ unsent (d_out (fst y)) = unsent (d_out (fst x)) @ concat (map (stored_block False) bs)"
      "left x = concat bs @ left y" "small bs" "big bs"
      using s(1) by (simp_all add: sent_blocks_def made_def)
    have go: "loop flush_round (obj x, out) = loop flush_round (obj y, out @ produced_out (snd y))"
      using flush_round_eq [OF y(1,2) stores_out_side [OF s(2)], of out] s(3) by (simp add: loop_Go Let_def)
    have "512 + length (unsent (d_out (fst y))) = length (unsent (d_out (fst x))) + length (concat (map (stored_block False) bs))"
      using full_buffer [OF stores_out_side [OF s(2)] s(3)] arg_cong [OF m(1), of length] by simp
    then have "6 * length (left y) + length (unsent (d_out (fst y))) < 6 * length (left x) + length (unsent (d_out (fst x)))"
      using m(2) length_blocks [OF m(4)] by simp
    from less.hyps [OF this stores_fresh [OF s(2)] b, of "out @ produced_out (snd y)"] obtain u cs d where
      u: "loop flush_round (obj y, out @ produced_out (snd y)) = Some (Inr (u, out @ produced_out (snd y) @ unsent (d_out (fst y)) @
        concat (map (stored_block False) cs) @ stored_block True d))" "left y = concat cs @ d" "small (cs @ [d])" "big cs"
      by auto
    have "produced_out (snd y) @ unsent (d_out (fst y)) @ rest = unsent (d_out (fst x)) @ concat (map (stored_block False) bs) @ rest" for rest
      using m(1) by (metis append_assoc)
    with go u m show ?thesis by (intro exI [of _ u] exI [of _ "bs @ cs"] exI [of _ d]) simp
  next
    assume "closes (fresh x) bs y"
    then obtain cs d where c: "over y" "drained y" "bs = cs @ [d]" "big cs" "small bs" "left x = concat bs"
      "produced_out (snd y) @ unsent (d_out (fst y)) = unsent (d_out (fst x)) @ concat (map (stored_block False) cs) @ stored_block True d"
      by (auto simp: closes_def made_def)
    have st: "out_side y" "z_avail_in (snd y) = 0" using over_ended [OF c(1)] by (simp_all add: ended_def)
    note step = flush_round_eq [OF y(1,2) st(1), of out]
    have "\<exists>u. loop flush_round (obj x, out) = Some (Inr (u, out @ produced_out (snd y) @ unsent (d_out (fst y))))"
    proof (cases "z_avail_out (snd y) = 0")
      case True
      then show ?thesis using step flush_ended [OF over_ended [OF c(1)], of "out @ produced_out (snd y)"] by (simp add: loop_Go Let_def)
    next
      case False
      then show ?thesis using step st(2) drained_unsent [OF c(2) False] by (simp add: loop_Back Let_def)
    qed
    with c(3-7) show ?thesis by auto
  qed
qed


section \<open>A whole run\<close>

text \<open>Everything a \<open>Deflater\<close> returns for some chunks of data, and the end of the stream.\<close>

fun append_all :: "byte list list \<Rightarrow> dzs \<Rightarrow> (byte list \<times> dzs) prog" where
  "append_all [] s = ret ([], s)"
| "append_all (c # cs) s =
     pbind (deflater_append c s) (\<lambda>(r, _, s1). pbind (append_all cs s1) (\<lambda>(out, s2).
       ret ((case r of None \<Rightarrow> [] | Some b \<Rightarrow> b) @ out, s2)))"

definition compressed :: "int option \<Rightarrow> byte list list \<Rightarrow> byte list prog" where
  "compressed lev cs =
     pbind (lift (Deflater lev)) (\<lambda>s. pbind (append_all cs s) (\<lambda>(out1, s1).
     pbind (deflater_flush s1) (\<lambda>(out2, s2). ret (out1 @ out2))))"

definition waiting :: "machine \<Rightarrow> bool" where
  "waiting x \<longleftrightarrow> stores (fresh x) \<and> d_status (fst x) = BUSY_STATE \<and> z_avail_in (snd x) = 0 \<and> pending (d_out (fst x)) = 0"

lemma append_one:
  assumes "waiting x" "data \<noteq> []"
  shows "\<exists>bs y p. deflater_append data (obj x) = Some (Inr (Some (concat (map (stored_block False) bs)), p, obj y)) \<and>
    left x @ data = concat bs @ left y \<and> small bs \<and> big bs \<and> waiting y"
proof -
  let ?z = "(snd x)\<lparr>z_next_in_index := 0, z_next_in := Some data, z_avail_in := int (length data)\<rparr>"
  let ?x = "(fst x, ?z)"
  have "stores (fresh ?x)" using assms(1) by (auto simp: waiting_def stores_def fresh_def out_ok_def in_ok_def)
  moreover have "input (snd x) = []" using assms(1) by (simp add: waiting_def input_def split: option.split)
  then have "left ?x = left x @ data" by (simp add: left_def input_def part_def)
  moreover have "unsent (d_out (fst x)) = []" using assms(1) by (simp add: waiting_def unsent_def)
  ultimately obtain bs y a where y: "loop append_round \<lparr>k_s = obj ?x, k_out = [], k_last = 0, k_progress = []\<rparr> = Some (Inr a)"
    "k_s a = obj y" "k_out a = concat (map (stored_block False) bs)" "left x @ data = concat bs @ left y" "small bs" "big bs" "idle y"
    "d_status (fst y) = BUSY_STATE"
    using append_loop [of ?x "\<lparr>k_s = obj ?x, k_out = [], k_last = 0, k_progress = []\<rparr>"] assms by (auto simp: waiting_def)
  have "waiting y" using y(7,8) stores_fresh [of y] by (simp add: waiting_def idle_def ready_def)
  moreover have "deflater_append data (obj x) = Some (Inr (Some (concat (map (stored_block False) bs)), k_progress a, obj y))"
    using y(1-3) assms(2) by (simp add: deflater_append_def obj_def ret_def)
  ultimately show ?thesis using y(4-6) by blast
qed

lemma append_all_blocks:
  assumes "waiting x"
  shows "\<exists>bs y. append_all cs (obj x) = Some (Inr (concat (map (stored_block False) bs), obj y)) \<and>
    left x @ concat cs = concat bs @ left y \<and> small bs \<and> big bs \<and> waiting y"
  using assms
proof (induction cs arbitrary: x)
  case Nil
  then show ?case by (intro exI [of _ "[]"] exI [of _ x]) (simp add: ret_def small_def)
next
  case (Cons c cs)
  have "\<exists>bs y r p. deflater_append c (obj x) = Some (Inr (r, p, obj y)) \<and>
    (case r of None \<Rightarrow> [] | Some b \<Rightarrow> b) = concat (map (stored_block False) bs) \<and>
    left x @ c = concat bs @ left y \<and> small bs \<and> big bs \<and> waiting y"
  proof (cases "c = []")
    case True
    then show ?thesis using Cons.prems
      by (intro exI [of _ "[]"] exI [of _ x] exI [of _ None]) (simp add: deflater_append_def ret_def small_def)
  next
    case False
    then show ?thesis using append_one [OF Cons.prems] by fastforce
  qed
  then obtain bs y r p where y: "deflater_append c (obj x) = Some (Inr (r, p, obj y))"
    "(case r of None \<Rightarrow> [] | Some b \<Rightarrow> b) = concat (map (stored_block False) bs)" "left x @ c = concat bs @ left y" "small bs" "big bs" "waiting y"
    by blast
  from Cons.IH [OF y(6)] obtain ds u where u: "append_all cs (obj y) = Some (Inr (concat (map (stored_block False) ds), obj u))"
    "left y @ concat cs = concat ds @ left u" "small ds" "big ds" "waiting u" by blast
  have "left x @ concat (c # cs) = concat (bs @ ds) @ left u" using y(3) u(2) by simp (metis append_assoc)
  then show ?case using y u by (intro exI [of _ "bs @ ds"] exI [of _ u]) (simp add: ret_def)
qed

lemma deflater_0: "\<exists>x. Deflater (Some 0) = Inr (obj x) \<and> waiting x \<and> left x = []"
proof -
  have sh: "js_shl 1 15 = 32768" "js_shl 1 14 = 16384" by (simp_all add: js_shl_def to_int32_nonneg)
  define d0 where "d0 = (new_defl 0 15 8 8 0)\<lparr>d_out := (d_out (new_defl 0 15 8 8 0))\<lparr>pending := 0, pending_out := 0\<rparr>,
    d_status := BUSY_STATE, d_last_flush := Z_NO_FLUSH\<rparr>"
  have d0: "level (d_tune d0) = 0" "pending_buf_size d0 = 65536" "length (pending_buf (d_out d0)) = 65536" "pending (d_out d0) = 0"
    "pending_out (d_out d0) = 0" "length (window (d_win d0)) = 65536" "w_size (d_win d0) = 32768" "d_status d0 = BUSY_STATE"
    by (simp_all add: d0_def new_defl_def new_matcher_def sh Let_def)
  obtain t l where i: "init_block (d_trees d0) (d_lits d0) = (t, l)" by (cases "init_block (d_trees d0) (d_lits d0)")
  obtain c where c: "set_tuning 0 (d_tune (tr_init d0)) = Inr c" "level c = 0" by (simp add: set_tuning_def config_0)
  have t0: "level (d_tune (tr_init d0)) = 0" using d0(1) i by (simp add: tr_init_def)
  define w where "w = (d_win d0)\<lparr>window_size := 2 * w_size (d_win d0), head := fill_slots (hash_size (d_win d0)) 0 (head (d_win d0)),
    strstart := 0, block_start := 0, lookahead := 0, match_length := MIN_MATCH - 1, prev_length := MIN_MATCH - 1,
    match_available := False, ins_h := 0\<rparr>"
  define d where "d = d0\<lparr>d_out := (d_out d0)\<lparr>bi_buf := 0, bi_valid := 0, last_eob_len := 8\<rparr>, d_trees := t, d_lits := l,
    d_tune := c, d_win := w\<rparr>"
  have "lm_init (tr_init d0) = Inr d"
    using c(1) t0 i by (simp add: lm_init_def tr_init_def d_def w_def in_win_def)
  then have "deflateInit 0 15 0 0 0 new_ZStream = Inr (Z_OK, Set d, new_ZStream\<lparr>z_data_type := Some Z_UNKNOWN\<rparr>)"
    by (simp add: deflateInit_def deflateReset_def d0_def new_ZStream_def del: Z_NO_FLUSH_def)
  then have "Deflater (Some 0) = Inr (obj (d, new_ZStream\<lparr>z_data_type := Some Z_UNKNOWN, z_next_out := Some (replicate 512 0)\<rparr>))"
    by (simp add: Deflater_def dz_deflateInit_def obj_def)
  moreover have "waiting (d, new_ZStream\<lparr>z_data_type := Some Z_UNKNOWN, z_next_out := Some (replicate 512 0)\<rparr>)"
    using d0 c(2) by (simp add: waiting_def stores_def out_ok_def win_ok_def in_ok_def d_def w_def fresh_def new_ZStream_def)
  moreover have "left (d, new_ZStream\<lparr>z_data_type := Some Z_UNKNOWN, z_next_out := Some (replicate 512 0)\<rparr>) = []"
    by (simp add: left_def held_def input_def d_def w_def new_ZStream_def)
  ultimately show ?thesis by blast
qed

lemma butlast_stream: "stored_stream (bs @ [d]) = concat (map (stored_block False) bs) @ stored_block True d"
  by (induction bs) simp_all

text \<open>
  Level 0 of the compressor stores: whatever chunks a new \<open>Deflater\<close> gets, \<open>append\<close> and \<open>flush\<close>
  return, and all they return is a deflate stream of stored blocks, the last of them marked as such, that hold the
  chunks' bytes in order; every block fits its 16-bit length, and only the last is shorter than 32506
  bytes.
\<close>

lemma stored_deflated:
  "\<exists>ds. compressed (Some 0) cs = Some (Inr (stored_stream ds)) \<and> ds \<noteq> [] \<and> small ds \<and> big (butlast ds) \<and>
     concat ds = concat cs"
proof -
  obtain x where x: "Deflater (Some 0) = Inr (obj x)" "waiting x" "left x = []" using deflater_0 by blast
  obtain bs y where y: "append_all cs (obj x) = Some (Inr (concat (map (stored_block False) bs), obj y))"
    "concat cs = concat bs @ left y" "small bs" "big bs" "waiting y" using append_all_blocks [OF x(2), of cs] x(3) by auto
  have "stores (fresh y)" "d_status (fst y) = BUSY_STATE" "unsent (d_out (fst y)) = []" using y(5) by (simp_all add: waiting_def unsent_def)
  with flush_loop [of y "[]"] obtain s es d where f: "loop flush_round (obj y, []) =
      Some (Inr (s, concat (map (stored_block False) es) @ stored_block True d))"
    "left y = concat es @ d" "small (es @ [d])" "big es" by auto
  have "compressed (Some 0) cs = Some (Inr (stored_stream ((bs @ es) @ [d])))"
    using x(1) y(1) f(1) unfolding butlast_stream by (simp add: compressed_def deflater_flush_def ret_def split_def)
  moreover have "big (butlast ((bs @ es) @ [d]))" unfolding butlast_snoc using y(4) f(4) by simp
  ultimately show ?thesis using y(2,3) f(2,3) by (intro exI [of _ "(bs @ es) @ [d]"]) simp
qed

lemma length_stored_stream: "length (stored_stream ds) = 5 * length ds + length (concat ds)"
  by (induction ds) simp_all

lemma length_big: "big bs \<Longrightarrow> 32506 * length bs \<le> length (concat bs)"
  by (induction bs) simp_all

lemma length_butlast_concat: "ds \<noteq> [] \<Longrightarrow> length (concat (butlast ds)) \<le> length (concat ds)"
  by (cases ds rule: rev_cases) simp_all

text \<open>
  C2. Compressing at level 0 and inflating the result in one chunk gives the data back, for every
  sequence of chunks, with no exception: the length that makes \<open>Inflater.append\<close> lose its chunk is no
  length of a level 0 stream.
\<close>

theorem level_0_roundtrip:
  "\<exists>out progress f. compressed (Some 0) cs = Some (Inr out) \<and> inflate_chunk out = Some (Inr (Array (concat cs), progress, f))"
proof -
  obtain ds where ds: "compressed (Some 0) cs = Some (Inr (stored_stream ds))" "ds \<noteq> []" "small ds" "big (butlast ds)"
    "concat ds = concat cs" using stored_deflated [of cs] by blast
  have "int (length (stored_stream ds)) + int (length (concat ds)) mod 512 \<noteq> 512"
  proof (cases "butlast ds = []")
    case True
    then have one: "int (length (stored_stream ds)) = 5 + int (length (concat ds))"
      using ds(2) by (cases ds rule: rev_cases) simp_all
    have "5 + n + n mod 512 \<noteq> 512" for n :: int
    proof -
      define q where "q = n div 512"
      have "512 * q + n mod 512 = n" unfolding q_def by (rule mult_div_mod_eq)
      then have "n + n mod 512 = 2 * (n - 256 * q)" by simp
      then have "even (n + n mod 512)" by (rule dvdI)
      then have "n + n mod 512 \<noteq> 507" by (metis odd_numeral)
      then show ?thesis by linarith
    qed
    then show ?thesis unfolding one .
  next
    case False
    then have "1 \<le> length (butlast ds)" by (cases "butlast ds") (simp_all del: length_butlast)
    then have "512 < length (concat ds)" using length_big [OF ds(4)] length_butlast_concat [OF ds(2)] by linarith
    then show ?thesis unfolding length_stored_stream using pos_mod_sign [of 512 "int (length (concat ds))"] by linarith
  qed
  with inflate_stored [OF ds(2,3)] ds(1,5) show ?thesis by auto
qed

text \<open>
  C13. What level 0 adds to the data: five bytes for the last block and at most five for every 32506
  bytes, whatever the sizes of the chunks.
\<close>

theorem level_0_size:
  "\<exists>out. compressed (Some 0) cs = Some (Inr out) \<and> length (concat cs) + 5 \<le> length out \<and>
     length out \<le> length (concat cs) + 5 * (length (concat cs) div 32506 + 1)"
proof -
  obtain ds where ds: "compressed (Some 0) cs = Some (Inr (stored_stream ds))" "ds \<noteq> []" "big (butlast ds)"
    "concat ds = concat cs" using stored_deflated [of cs] by blast
  have "32506 * length (butlast ds) \<le> length (concat cs)"
    using length_big [OF ds(3)] length_butlast_concat [OF ds(2)] unfolding ds(4) by linarith
  then have "length (butlast ds) \<le> length (concat cs) div 32506" using div_le_mono [of _ _ 32506] by fastforce
  then show ?thesis using ds(1,2,4) by (cases ds rule: rev_cases) (simp_all add: length_stored_stream)
qed

end
