(* ===== verification/Inf_Fixed.thy ===== *)
theory Inf_Fixed
  imports Inf_Window
begin

text \<open>
  The constant decoding tables of \<^verbatim>\<open>html/lib/inflate.js\<close> against the fixed Huffman code of RFC 1951.
\<close>

text \<open>The code of a symbol in RFC 1951, 3.2.6: its length and its bits, most significant first.\<close>

definition fixed_code :: "int \<Rightarrow> int \<times> int" where
  "fixed_code s =
     (if s < 144 then (8, 48 + s) else if s < 256 then (9, 256 + s)
      else if s < 280 then (7, s - 256) else (8, s - 88))"

fun rev_bits :: "nat \<Rightarrow> int \<Rightarrow> int" where
  "rev_bits 0 v = 0"
| "rev_bits (Suc k) v = 2 ^ k * (v mod 2) + rev_bits k (v div 2)"

definition length_extra :: "int \<Rightarrow> int" where
  "length_extra k = (if k < 8 \<or> k = 28 then 0 else k div 4 - 1)"

definition length_base :: "int \<Rightarrow> int" where
  "length_base k = (if k < 8 then k + 3 else if k = 28 then 258 else (4 + k mod 4) * 2 ^ nat (length_extra k) + 3)"

definition fixed_entry :: "int \<Rightarrow> int \<times> int \<times> int" where
  "fixed_entry s =
     (let l = fst (fixed_code s) in
      if s < 256 then (0, l, s) else if s = 256 then (96, l, 256)
      else if s < 286 then (80 + length_extra (s - 257), l, length_base (s - 257)) else (192, l, 0))"

text \<open>The symbol whose code starts the nine bits \<open>v\<close>.\<close>

definition fixed_symbol :: "int \<Rightarrow> int" where
  "fixed_symbol v = (if v < 96 then 256 + v div 4 else if v < 384 then v div 2 - 48
     else if v < 400 then v div 2 + 88 else v - 256)"

fun triples :: "int list \<Rightarrow> (int \<times> int \<times> int) list" where
  "triples (a # b # c # xs) = (a, b, c) # triples xs"
| "triples _ = []"

lemma fixed_tl_entries:
  "triples fixed_tl = map (\<lambda>i. fixed_entry (fixed_symbol (rev_bits 9 i))) [0..511]"
  by code_simp

text \<open>Distance codes: five bits, with 30 and 31 invalid.\<close>

definition distance_extra :: "int \<Rightarrow> int" where
  "distance_extra k = (if k < 2 then 0 else k div 2 - 1)"

definition distance_base :: "int \<Rightarrow> int" where
  "distance_base k = (if k < 2 then k + 1 else (2 + k mod 2) * 2 ^ nat (distance_extra k) + 1)"

definition distance_entry :: "int \<Rightarrow> int \<times> int \<times> int" where
  "distance_entry d = (if d < 30 then (80 + distance_extra d, 5, distance_base d) else (192, 5, 24577))"

lemma fixed_td_entries: "triples fixed_td = map (\<lambda>i. distance_entry (rev_bits 5 i)) [0..31]"
  by code_simp

lemma triple_nth:
  "i < length (triples xs) \<Longrightarrow> triple xs (3 * int i) = Inr (triples xs ! i)"
proof (induction xs arbitrary: i rule: triples.induct)
  case (1 a b c xs)
  show ?case
  proof (cases i)
    case 0
    then show ?thesis by (simp add: triple_def elem_def arr_at_def)
  next
    case (Suc k)
    have el: "elem (a # b # c # xs) (3 * int (Suc k) + int j) = elem xs (3 * int k + int j)" for j
      by (simp add: elem_def arr_at_def nat_add_distrib nat_mult_distrib)
    from el [of 0] el [of 1] el [of 2] 1 Suc show ?thesis by (simp add: triple_def)
  qed
qed simp_all

lemma rev_bits_bound: "0 \<le> rev_bits k v" "rev_bits k v < 2 ^ k"
proof (induction k arbitrary: v)
  case (Suc k)
  {
    case 1
    show ?case using Suc.IH(1) [of "v div 2"] by simp
  next
    case 2
    have "2 ^ k * (v mod 2) \<le> 2 ^ k" by (cases "v mod 2 = 0") simp_all
    moreover have "rev_bits k (v div 2) < 2 ^ k" by (rule Suc.IH(2))
    moreover have "rev_bits (Suc k) v = 2 ^ k * (v mod 2) + rev_bits k (v div 2)" "(2 :: int) ^ Suc k = 2 ^ k + 2 ^ k" by simp_all
    ultimately show ?case by linarith
  }
qed simp_all

lemma rev_bits_append:
  "0 \<le> x \<Longrightarrow> x < 2 ^ a \<Longrightarrow> rev_bits (a + b) (x + 2 ^ a * y) = 2 ^ b * rev_bits a x + rev_bits b y"
proof (induction a arbitrary: x)
  case (Suc a)
  have e: "x + 2 ^ Suc a * y = x + 2 * (2 ^ a * y)" by simp
  have d: "(x + 2 ^ Suc a * y) div 2 = x div 2 + 2 ^ a * y" "(x + 2 ^ Suc a * y) mod 2 = x mod 2"
    unfolding e by presburger+
  have "x div 2 < 2 ^ a" using Suc.prems by simp
  then have IH: "rev_bits (a + b) (x div 2 + 2 ^ a * y) = 2 ^ b * rev_bits a (x div 2) + rev_bits b y"
    using Suc.IH [of "x div 2"] Suc.prems by simp
  have "rev_bits (Suc a + b) (x + 2 ^ Suc a * y) = 2 ^ (a + b) * (x mod 2) + rev_bits (a + b) (x div 2 + 2 ^ a * y)"
    unfolding add_Suc rev_bits.simps d ..
  then show ?case unfolding IH by (simp add: power_add distrib_left)
next
  case 0
  then have "x = 0" by simp
  then show ?case by simp
qed

lemma rev_bits_rev: "0 \<le> v \<Longrightarrow> v < 2 ^ k \<Longrightarrow> rev_bits k (rev_bits k v) = v"
proof (induction k arbitrary: v)
  case (Suc k)
  let ?r = "rev_bits k (v div 2)"
  have r: "rev_bits (Suc k) v = ?r + 2 ^ k * (v mod 2)" by simp
  have "rev_bits (k + 1) (?r + 2 ^ k * (v mod 2)) = 2 ^ 1 * rev_bits k ?r + rev_bits 1 (v mod 2)"
    using rev_bits_bound [of k "v div 2"] by (intro rev_bits_append)
  also have "\<dots> = v" using Suc.IH [of "v div 2"] Suc.prems by simp
  finally show ?case unfolding r by simp
qed simp

text \<open>
  C16. The constant decoding tables hold exactly the fixed Huffman code of RFC 1951: for every
  literal/length symbol and every value of the bits that follow its code in the input, the entry at
  the bits as they come out of the bit buffer is the symbol's, with the length of its code and, for
  a copy length, its base value and number of extra bits; and likewise for the distance symbols.
\<close>

theorem fixed_tables_rfc1951:
  "(\<forall>s \<in> {0..<288}. \<forall>rest \<in> {0..<2 ^ nat (9 - fst (fixed_code s))}.
      triple fixed_tl (3 * (rev_bits (nat (fst (fixed_code s))) (snd (fixed_code s)) +
        2 ^ nat (fst (fixed_code s)) * rest)) = Inr (fixed_entry s)) \<and>
   (\<forall>d \<in> {0..<32}. triple fixed_td (3 * rev_bits 5 d) = Inr (distance_entry d))"
proof (intro conjI ballI)
  fix s rest :: int
  assume s: "s \<in> {0..<288}" and rest: "rest \<in> {0..<2 ^ nat (9 - fst (fixed_code s))}"
  define l where "l = nat (fst (fixed_code s))"
  define c where "c = snd (fixed_code s)"
  have lc: "fixed_code s = (int l, c)" "l \<in> {7, 8, 9}" "0 \<le> c" "c < 2 ^ l"
    using s by (auto simp: fixed_code_def l_def c_def split: if_splits)
  define i where "i = rev_bits l c + 2 ^ l * rest"
  have b: "l + nat (9 - int l) = 9" "0 \<le> rest" "rest < 2 ^ nat (9 - int l)" using lc rest by auto
  have r: "rev_bits 9 i = 2 ^ nat (9 - int l) * c + rev_bits (nat (9 - int l)) rest"
    using rev_bits_append [of "rev_bits l c" l "nat (9 - int l)" rest] rev_bits_bound [of l c]
      rev_bits_rev [of c l] lc by (simp add: b i_def)
  have sym: "fixed_symbol (rev_bits 9 i) = s"
    using s lc rev_bits_bound [of "nat (9 - int l)" rest] unfolding r
    by (auto simp: fixed_symbol_def fixed_code_def split: if_splits)
  have i0: "0 \<le> i" "i < 512"
  proof -
    show "0 \<le> i" using rev_bits_bound [of l c] b by (simp add: i_def)
    have "2 ^ l * (rest + 1) \<le> 2 ^ l * 2 ^ nat (9 - int l)" using b(3) by simp
    also have "\<dots> = (512 :: int)" using b(1) by (simp flip: power_add)
    finally show "i < 512" using rev_bits_bound [of l c] by (simp add: i_def algebra_simps)
  qed
  have "triple fixed_tl (3 * int (nat i)) = Inr (triples fixed_tl ! nat i)"
    using i0 by (intro triple_nth) (simp add: fixed_tl_entries nat_less_iff)
  also have "triples fixed_tl ! nat i = fixed_entry s"
    using i0 sym by (simp add: fixed_tl_entries nat_less_iff)
  finally show "triple fixed_tl (3 * (rev_bits (nat (fst (fixed_code s))) (snd (fixed_code s)) +
        2 ^ nat (fst (fixed_code s)) * rest)) = Inr (fixed_entry s)"
    using i0 lc by (simp add: i_def)
next
  fix d :: int
  assume d: "d \<in> {0..<32}"
  let ?i = "rev_bits 5 d"
  have i: "0 \<le> ?i" "?i < 32" using rev_bits_bound [of 5 d] by simp_all
  have "triple fixed_td (3 * int (nat ?i)) = Inr (triples fixed_td ! nat ?i)"
    using i by (intro triple_nth) (simp add: fixed_td_entries nat_less_iff del: rev_bits.simps)
  also have "triples fixed_td ! nat ?i = distance_entry d"
    using i d rev_bits_rev [of d 5] by (simp add: fixed_td_entries nat_less_iff del: rev_bits.simps)
  finally show "triple fixed_td (3 * ?i) = Inr (distance_entry d)" using i by simp
qed

text \<open>The end of a block is seven 0 bits; here with the two next bits of the input being 1.\<close>

theorem fixed_tables_rfc1951_witness: "triple fixed_tl (3 * 384) = Inr (fixed_entry 256)"
proof -
  have "rev_bits 7 0 = 0" by (simp add: eval_nat_numeral)
  moreover have "fixed_code 256 = (7, 0)" by (simp add: fixed_code_def)
  ultimately show ?thesis
    using fixed_tables_rfc1951 [THEN conjunct1, rule_format, of 256 3] by simp
qed

end
