(* ===== verification/Defl_Bits.thy ===== *)
theory Defl_Bits
  imports Inf_Fixed Defl_Ops "HOL-Library.Sublist"
begin

text \<open>
  The bit output of \<^verbatim>\<open>html/lib/deflate.js\<close> as a growing list of bits, and what \<open>compress_block\<close> makes
  of the symbols in the buffer it shares with the output.
\<close>

section \<open>Bits of numbers\<close>

text \<open>The lowest \<open>n\<close> bits of a number, least significant first.\<close>

definition bits_of :: "nat \<Rightarrow> int \<Rightarrow> bool list" where
  "bits_of n v = map (bit v) [0..<n]"

definition byte_bits :: "byte \<Rightarrow> bool list" where
  "byte_bits b = map (bit b) [0..<8]"

lemma length_bits_of [simp]: "length (bits_of n v) = n"
  by (simp add: bits_of_def)

lemma length_byte_bits [simp]: "length (byte_bits b) = 8"
  by (simp add: byte_bits_def)

lemma nth_bits_of [simp]: "i < n \<Longrightarrow> bits_of n v ! i = bit v i"
  by (simp add: bits_of_def)

lemma bits_of_0 [simp]: "bits_of 0 v = []"
  by (simp add: bits_of_def)

lemma byte_bits_of_int: "byte_bits (word_of_int v) = bits_of 8 v"
  by (rule nth_equalityI) (simp_all add: byte_bits_def bit_of_int_iff)

lemma bit_above: "0 \<le> b \<Longrightarrow> b < 2 ^ m \<Longrightarrow> m \<le> i \<Longrightarrow> \<not> bit (b :: int) i"
  using bit_take_bit_iff [of m b i] by (simp add: take_bit_int_eq_self)

text \<open>A value above the bits already there.\<close>

lemma bits_of_or:
  assumes "0 \<le> b" "b < 2 ^ m"
  shows "bits_of (m + n) (b OR push_bit m v) = bits_of m b @ bits_of n v"
proof (rule nth_equalityI)
  fix i
  assume "i < length (bits_of (m + n) (b OR push_bit m v))"
  moreover have "\<not> bit b i" if "\<not> i < m" using bit_above [OF assms] that by simp
  ultimately show "bits_of (m + n) (b OR push_bit m v) ! i = (bits_of m b @ bits_of n v) ! i"
    by (auto simp: nth_append bit_simps)
qed simp

lemma bits_of_or_split:
  assumes "0 \<le> b" "b < 2 ^ m" "m \<le> k" "k \<le> m + n"
  shows "bits_of k (b OR take_bit k (push_bit m v)) @ bits_of (m + n - k) (drop_bit (k - m) v) = bits_of m b @ bits_of n v"
proof (rule nth_equalityI)
  show "length (bits_of k (b OR take_bit k (push_bit m v)) @ bits_of (m + n - k) (drop_bit (k - m) v)) =
      length (bits_of m b @ bits_of n v)" using assms by simp
  fix i
  assume "i < length (bits_of k (b OR take_bit k (push_bit m v)) @ bits_of (m + n - k) (drop_bit (k - m) v))"
  then have "i < m + n" using assms by simp
  moreover have "\<not> bit b i" if "\<not> i < m" using bit_above [OF assms(1,2)] that by simp
  ultimately show "(bits_of k (b OR take_bit k (push_bit m v)) @ bits_of (m + n - k) (drop_bit (k - m) v)) ! i =
      (bits_of m b @ bits_of n v) ! i"
    using assms by (auto simp: nth_append bit_simps)
qed

section \<open>The bit buffer\<close>

text \<open>All bits sent so far: those of the pending bytes and those in \<open>bi_buf\<close>.\<close>

definition sent :: "out_buf \<Rightarrow> bool list" where
  "sent o1 = concat (map byte_bits (take (nat (pending o1)) (pending_buf o1))) @ bits_of (nat (bi_valid o1)) (bi_buf o1)"

definition bits_ok :: "out_buf \<Rightarrow> bool" where
  "bits_ok o1 \<longleftrightarrow> 0 \<le> bi_valid o1 \<and> bi_valid o1 \<le> 16 \<and> 0 \<le> bi_buf o1 \<and> bi_buf o1 < 2 ^ nat (bi_valid o1) \<and>
     0 \<le> pending o1 \<and> pending o1 \<le> int (length (pending_buf o1))"

lemma length_concat_bytes: "length (concat (map byte_bits bs)) = 8 * length bs"
  by (induction bs) simp_all

lemma length_sent: "bits_ok o1 \<Longrightarrow> int (length (sent o1)) = 8 * pending o1 + bi_valid o1"
  by (auto simp: sent_def bits_ok_def length_concat_bytes min_def)

text \<open>Output that only adds to \<open>pending_buf\<close> below the new \<open>pending\<close>.\<close>

definition grows :: "out_buf \<Rightarrow> out_buf \<Rightarrow> bool" where
  "grows o1 o2 \<longleftrightarrow> pending o1 \<le> pending o2 \<and> length (pending_buf o2) = length (pending_buf o1) \<and>
     pending_out o2 = pending_out o1 \<and>
     drop (nat (pending o2)) (pending_buf o2) = drop (nat (pending o2)) (pending_buf o1)"

lemma grows_refl [simp]: "grows o1 o1"
  by (simp add: grows_def)

lemma grows_trans:
  assumes "grows o1 o2" "grows o2 o3"
  shows "grows o1 o3"
proof -
  have "drop (nat (pending o3)) (pending_buf o2) = drop (nat (pending o3)) (pending_buf o1)"
  proof -
    obtain d where d: "nat (pending o3) = d + nat (pending o2)"
      using assms by (metis grows_def nat_mono le_iff_add add.commute)
    show ?thesis unfolding d drop_drop [symmetric] using assms(1) by (simp add: grows_def)
  qed
  then show ?thesis using assms by (auto simp: grows_def)
qed

text \<open>A 16-bit value put as two bytes.\<close>

lemma put_short_sent:
  assumes "0 \<le> pending o1" "pending o1 + 2 \<le> int (length (pending_buf o1))" "0 \<le> w"
  shows "concat (map byte_bits (take (nat (pending (put_short w o1))) (pending_buf (put_short w o1)))) =
      concat (map byte_bits (take (nat (pending o1)) (pending_buf o1))) @ bits_of 16 w"
    and "pending (put_short w o1) = pending o1 + 2" "grows o1 (put_short w o1)"
proof -
  let ?p = "nat (pending o1)"
  have p: "Suc ?p < length (pending_buf o1)" using assms by linarith
  have e: "put_short w o1 = o1\<lparr>pending_buf := (pending_buf o1)[?p := word_of_int (w mod 256), Suc ?p := word_of_int (js_ushr w 8 mod 256)],
      pending := pending o1 + 2\<rparr>"
    using assms p by (simp add: put_short_def put_byte_def arr_put_def nat_add_distrib)
  show "pending (put_short w o1) = pending o1 + 2" by (simp add: e)
  have "nat (pending o1 + 2) = Suc (Suc ?p)" using assms by linarith
  then have "take (nat (pending (put_short w o1))) (pending_buf (put_short w o1)) =
      take ?p (pending_buf o1) @ [word_of_int (w mod 256), word_of_int (js_ushr w 8 mod 256)]"
    using p by (simp add: e take_Suc_conv_app_nth)
  moreover have "byte_bits (word_of_int (w mod 256)) @ byte_bits (word_of_int (js_ushr w 8 mod 256)) = bits_of 16 w"
  proof -
    have "w mod 256 = take_bit 8 w" "js_ushr w 8 mod 256 = take_bit 8 (drop_bit 8 (take_bit 32 w))"
      by (simp_all add: take_bit_eq_mod drop_bit_eq_div js_ushr_def)
    then show ?thesis unfolding byte_bits_of_int by (intro nth_equalityI) (auto simp: nth_append bit_simps)
  qed
  ultimately show "concat (map byte_bits (take (nat (pending (put_short w o1))) (pending_buf (put_short w o1)))) =
      concat (map byte_bits (take ?p (pending_buf o1))) @ bits_of 16 w" by simp
  show "grows o1 (put_short w o1)"
    using assms by (simp add: grows_def e drop_update_cancel)
qed


text \<open>The effect of an operation that sends bits: they come after those sent before.\<close>

definition sends :: "out_buf \<Rightarrow> bool list \<Rightarrow> out_buf \<Rightarrow> bool" where
  "sends o1 bs o2 \<longleftrightarrow> bits_ok o2 \<and> sent o2 = sent o1 @ bs \<and> grows o1 o2"

text \<open>There is room for \<open>n\<close> more bits.\<close>

definition room_for :: "out_buf \<Rightarrow> int \<Rightarrow> bool" where
  "room_for o1 n \<longleftrightarrow> bits_ok o1 \<and> int (length (sent o1)) + n \<le> 8 * int (length (pending_buf o1))"

lemma sends_trans: "sends o1 as o2 \<Longrightarrow> sends o2 bs o3 \<Longrightarrow> sends o1 (as @ bs) o3"
  by (auto simp: sends_def intro: grows_trans)

lemma sends_refl: "bits_ok o1 \<Longrightarrow> sends o1 [] o1"
  by (simp add: sends_def)

lemma sends_room: "sends o1 bs o2 \<Longrightarrow> room_for o1 (int (length bs) + n) \<Longrightarrow> room_for o2 n"
  by (simp add: sends_def room_for_def grows_def)

lemma room_less: "room_for o1 n \<Longrightarrow> m \<le> n \<Longrightarrow> room_for o1 m"
  by (auto simp: room_for_def)

lemma pow_16: "k \<le> 16 \<Longrightarrow> (2 :: int) ^ nat k \<le> 65536"
  using power_increasing [of "nat k" 16 "2 :: int"] by (simp add: nat_le_iff)

lemma merged_bits:
  assumes "0 \<le> b" "b < 2 ^ nat k" "0 \<le> k" "k \<le> 16" "0 \<le> v" "v < 65536"
  shows "js_or b (js_and (js_shl v k) 0xffff) = b OR take_bit 16 (push_bit (nat k) v)"
proof -
  have m: "js_and (js_shl v k) 0xffff = take_bit 16 (push_bit (nat k) v)"
    using assms to_int32_mod [of 16 "v * 2 ^ nat k"] by (simp add: js_shl_def take_bit_eq_mod push_bit_eq_mult)
  have "b < 2147483648" using assms pow_16 [of k] by linarith
  moreover have "take_bit 16 (push_bit (nat k) v) < 2147483648" "0 \<le> take_bit 16 (push_bit (nat k) v)"
    using take_bit_int_less_exp [of 16 "push_bit (nat k) v"] by simp_all
  ultimately show ?thesis using assms(1) unfolding m by (simp add: js_or_small)
qed

lemma or_less:
  assumes "0 \<le> x" "x < 2 ^ n" "0 \<le> y" "y < 2 ^ n"
  shows "x OR y < (2 :: int) ^ n" "0 \<le> x OR y"
  using assms OR_upper [of x n y] by simp_all

lemma div_below: "v < a * b \<Longrightarrow> 0 < b \<Longrightarrow> v div b < (a :: int)"
  using mult_less_cancel_right_pos [of b "v div b" a] div_mult_mod_eq [of v b] pos_mod_sign [of b v] by linarith

lemma send_bits_sends:
  assumes "room_for o1 len" "0 \<le> len" "len \<le> 16" "0 \<le> v" "v < 2 ^ nat len"
  shows "sends o1 (bits_of (nat len) v) (send_bits v len o1)"
proof -
  define k where "k = bi_valid o1"
  define b where "b = bi_buf o1"
  have k: "0 \<le> k" "k \<le> 16" "0 \<le> b" "b < 2 ^ nat k" "0 \<le> pending o1" "pending o1 \<le> int (length (pending_buf o1))"
    using assms(1) by (simp_all add: room_for_def bits_ok_def k_def b_def)
  have room: "8 * pending o1 + k + len \<le> 8 * int (length (pending_buf o1))"
    using assms(1) length_sent [of o1] by (simp add: room_for_def k_def)
  have v: "v < 65536" using assms(3,5) pow_16 [of len] by linarith
  define m where "m = b OR take_bit 16 (push_bit (nat k) v)"
  have m: "js_or b (js_and (js_shl v k) 0xffff) = m" unfolding m_def by (rule merged_bits) (use k assms v in simp_all)
  have b16: "b < 2 ^ 16" using k pow_16 [of k] by simp
  have m16: "0 \<le> m" "m < 2 ^ 16" unfolding m_def
    using or_less [OF k(3) b16, of "take_bit 16 (push_bit (nat k) v)"] take_bit_int_less_exp [of 16 "push_bit (nat k) v"] k(3)
    by simp_all
  show ?thesis
  proof (cases "k > 16 - len")
    case True
    have r: "pending o1 + 2 \<le> int (length (pending_buf o1))" using room True by linarith
    note ps = put_short_sent [OF k(5) r m16(1)]
    define d where "d = js_ushr v (16 - k)"
    have "v < 2 ^ 32" using v by simp
    then have d: "d = drop_bit (16 - nat k) v" using k assms(4)
      by (simp add: d_def js_ushr_small drop_bit_eq_div nat_diff_distrib')
    define o2 where "o2 = (put_short m o1)\<lparr>bi_buf := d, bi_valid := k + (len - 16)\<rparr>"
    have e: "send_bits v len o1 = o2"
      using True m by (simp add: send_bits_def k_def b_def d_def o2_def Let_def)
    have kn: "nat (k + (len - 16)) = nat k + nat len - 16" using k assms(2) by (simp add: nat_diff_distrib nat_add_distrib)
    have "v < 2 ^ (nat k + nat len - 16) * 2 ^ (16 - nat k)"
    proof -
      have "nat len = nat k + nat len - 16 + (16 - nat k)" using k True assms(2) by linarith
      then show ?thesis using assms(5) by (metis power_add)
    qed
    then have d2: "0 \<le> d" "d < 2 ^ (nat k + nat len - 16)" unfolding d drop_bit_eq_div using assms(4)
      by (simp_all add: div_below pos_imp_zdiv_nonneg_iff)
    have "bits_ok o2" unfolding bits_ok_def o2_def using True k assms(2,3) d2 ps(2) r
      by (simp add: kn put_short_def put_byte_def arr_put_def)
    moreover have "sent o2 = sent o1 @ bits_of (nat len) v"
    proof -
      have "bits_of 16 m @ bits_of (nat k + nat len - 16) d = bits_of (nat k) b @ bits_of (nat len) v"
        unfolding m_def d using k True assms(2) by (intro bits_of_or_split) linarith+
      then show ?thesis using ps(1) unfolding sent_def o2_def by (simp add: kn flip: k_def b_def)
    qed
    moreover have "grows o1 o2" using ps(3) by (simp add: grows_def o2_def)
    ultimately show ?thesis unfolding e sends_def by simp
  next
    case False
    have kn: "nat (k + len) = nat k + nat len" using k assms(2) by (simp add: nat_add_distrib)
    have "v * 2 ^ nat k < 2 ^ nat len * 2 ^ nat k" using assms(5) by simp
    then have vk: "v * 2 ^ nat k < 2 ^ (nat k + nat len)" by (simp add: power_add mult.commute)
    moreover have "(2 :: int) ^ (nat k + nat len) \<le> 2 ^ 16" using False k assms(2) by (intro power_increasing) simp_all
    ultimately have mp: "m = b OR push_bit (nat k) v"
      using assms(4) by (simp add: m_def push_bit_eq_mult take_bit_int_eq_self)
    have "(2 :: int) ^ nat k \<le> 2 ^ (nat k + nat len)" by (rule power_increasing) simp_all
    then have "b < 2 ^ (nat k + nat len)" using k(4) by linarith
    then have m2: "m < 2 ^ (nat k + nat len)" unfolding mp
      using or_less [OF k(3), of "nat k + nat len" "push_bit (nat k) v"] vk assms(4) by (simp add: push_bit_eq_mult)
    have e: "send_bits v len o1 = o1\<lparr>bi_buf := m, bi_valid := k + len\<rparr>"
      using False m by (simp add: send_bits_def k_def b_def Let_def)
    have "bits_ok (o1\<lparr>bi_buf := m, bi_valid := k + len\<rparr>)"
      using False k assms(2) m2 m16 by (simp add: bits_ok_def kn)
    moreover have "sent (o1\<lparr>bi_buf := m, bi_valid := k + len\<rparr>) = sent o1 @ bits_of (nat len) v"
      using bits_of_or [OF k(3,4), of "nat len" v] by (simp add: sent_def kn mp flip: k_def b_def)
    ultimately show ?thesis unfolding e sends_def by (simp add: grows_def)
  qed
qed

section \<open>Codes\<close>

text \<open>The bits of a code word of a tree, as \<open>send_code\<close> sends them.\<close>

definition code_bits :: "slots \<Rightarrow> int \<Rightarrow> bool list" where
  "code_bits t c = bits_of (nat (low16 t (c * 2 + 1))) (low16 t (c * 2))"

definition code_ok :: "slots \<Rightarrow> int \<Rightarrow> bool" where
  "code_ok t c \<longleftrightarrow> 0 < low16 t (c * 2 + 1) \<and> low16 t (c * 2 + 1) \<le> 15 \<and> 0 \<le> low16 t (c * 2) \<and>
     low16 t (c * 2) < 2 ^ nat (low16 t (c * 2 + 1))"

lemma send_code_sends:
  assumes "code_ok t c" "room_for o1 (int (length (code_bits t c)))"
  shows "sends o1 (code_bits t c) (send_code c t o1)"
  using assms unfolding send_code_def code_bits_def
  by (intro send_bits_sends) (simp_all add: code_ok_def)

section \<open>Lengths and distances\<close>

text \<open>What RFC 1951, 3.2.5 says of the code of a copy length and of a distance, for the tables.\<close>

definition length_row :: "int \<Rightarrow> bool" where
  "length_row lc \<longleftrightarrow> (case elem length_code lc of Inl _ \<Rightarrow> False | Inr k \<Rightarrow>
     0 \<le> k \<and> k < 29 \<and> length_base k \<le> lc + 3 \<and> lc + 3 < length_base k + 2 ^ nat (length_extra k) \<and>
     elem extra_lbits k = Inr (length_extra k) \<and> (length_extra k \<noteq> 0 \<longrightarrow> elem base_length k = Inr (length_base k - 3)))"

lemma length_rows: "list_all length_row [0..255]"
  by code_simp

definition distance_row :: "int \<Rightarrow> bool" where
  "distance_row d \<longleftrightarrow> (case d_code (d - 1) of Inl _ \<Rightarrow> False | Inr k \<Rightarrow>
     0 \<le> k \<and> k < 30 \<and> distance_base k \<le> d \<and> d < distance_base k + 2 ^ nat (distance_extra k) \<and>
     elem extra_dbits k = Inr (distance_extra k) \<and> elem base_dist k = Inr (distance_base k - 1))"

lemma near_distance_rows: "list_all distance_row [1..256]"
  by code_simp

text \<open>The first of the 128 distances that share an entry of the second half, and that they all lie in one row.\<close>

definition far_row :: "int \<Rightarrow> bool" where
  "far_row q \<longleftrightarrow> (case elem dist_code (256 + q) of Inl _ \<Rightarrow> False | Inr k \<Rightarrow>
     0 \<le> k \<and> k < 30 \<and> distance_base k \<le> 128 * q + 1 \<and> 128 * q + 128 < distance_base k + 2 ^ nat (distance_extra k) \<and>
     elem extra_dbits k = Inr (distance_extra k) \<and> elem base_dist k = Inr (distance_base k - 1))"

lemma far_distance_rows: "list_all far_row [2..255]"
  by code_simp

lemma list_all_upto: "list_all P [a..b] \<Longrightarrow> a \<le> x \<Longrightarrow> x \<le> b \<Longrightarrow> P x"
  by (simp add: list_all_iff)

lemma length_row: "0 \<le> lc \<Longrightarrow> lc < 256 \<Longrightarrow> length_row lc"
  by (rule list_all_upto [OF length_rows]) simp_all

lemma distance_row:
  assumes "1 \<le> d" "d \<le> 32768"
  shows "distance_row d"
proof (cases "d \<le> 256")
  case True
  show ?thesis by (rule list_all_upto [OF near_distance_rows assms(1) True])
next
  case False
  define q where "q = (d - 1) div 128"
  have q: "2 \<le> q" "q \<le> 255" "128 * q \<le> d - 1" "d - 1 \<le> 128 * q + 127"
    using False assms(2) unfolding q_def by linarith+
  have "far_row q" by (rule list_all_upto [OF far_distance_rows q(1,2)])
  moreover have "d_code (d - 1) = elem dist_code (256 + q)"
    using False assms by (simp add: d_code_def q_def js_ushr_def)
  ultimately show ?thesis using q by (auto simp: far_row_def distance_row_def split: sum.splits)
qed

end
