(* ===== verification/Defl_Symbols.thy ===== *)
theory Defl_Symbols
  imports Defl_Bits
begin

text \<open>
  A decoder of Huffman-coded blocks as RFC 1951 describes them, and what \<open>compress_block\<close> of
  \<^verbatim>\<open>html/lib/deflate.js\<close> makes of the symbols in the buffer it shares with the output.
\<close>

section \<open>Decoding\<close>

text \<open>A code assigns bits, in the order of the stream, to symbols.\<close>

type_synonym code = "(bool list \<times> int) list"

definition decode_symbol :: "code \<Rightarrow> bool list \<Rightarrow> (int \<times> bool list) option" where
  "decode_symbol cs bs =
     (case find (\<lambda>(b, s). prefix b bs) cs of None \<Rightarrow> None | Some (b, s) \<Rightarrow> Some (s, drop (length b) bs))"

definition prefix_free :: "code \<Rightarrow> bool" where
  "prefix_free cs \<longleftrightarrow> (\<forall>x \<in> set cs. \<forall>y \<in> set cs. prefix (fst x) (fst y) \<longrightarrow> x = y)"

definition take_value :: "int \<Rightarrow> bool list \<Rightarrow> (int \<times> bool list) option" where
  "take_value n bs =
     (if nat n \<le> length bs then Some (horner_sum of_bool 2 (take (nat n) bs), drop (nat n) bs) else None)"

datatype token = Lit int | Copy int int

definition decode_copy :: "code \<Rightarrow> int \<Rightarrow> bool list \<Rightarrow> (token \<times> bool list) option" where
  "decode_copy ds s bs =
     (if s < 257 \<or> s > 285 then None else
      Option.bind (take_value (length_extra (s - 257)) bs) (\<lambda>(x, bs1).
      Option.bind (decode_symbol ds bs1) (\<lambda>(d, bs2).
      Option.bind (take_value (distance_extra d) bs2) (\<lambda>(y, bs3).
        if d < 30 then Some (Copy (length_base (s - 257) + x) (distance_base d + y), bs3) else None))))"

fun decode_tokens :: "nat \<Rightarrow> code \<Rightarrow> code \<Rightarrow> bool list \<Rightarrow> (token list \<times> bool list) option" where
  "decode_tokens 0 ls ds bs = None"
| "decode_tokens (Suc n) ls ds bs =
     Option.bind (decode_symbol ls bs) (\<lambda>(s, bs1).
       if s = 256 then Some ([], bs1)
       else
         Option.bind (if s < 256 then Some (Lit s, bs1) else decode_copy ds s bs1) (\<lambda>(t, bs2).
         Option.bind (decode_tokens n ls ds bs2) (\<lambda>(ts, bs3). Some (t # ts, bs3))))"

lemma decode_symbol_code:
  assumes "prefix_free cs" "(b, s) \<in> set cs"
  shows "decode_symbol cs (b @ rest) = Some (s, rest)"
proof -
  obtain x where x: "find (\<lambda>(b', s'). prefix b' (b @ rest)) cs = Some x"
    using assms(2) by (cases "find (\<lambda>(b', s'). prefix b' (b @ rest)) cs") (auto simp: find_None_iff)
  then have "x \<in> set cs" "prefix (fst x) (b @ rest)" by (induction cs) (auto split: if_splits)
  moreover from this(2) have "prefix (fst x) b \<or> prefix b (fst x)" using prefix_same_cases [of "fst x" "b @ rest" b] by simp
  ultimately have "x = (b, s)" using assms unfolding prefix_free_def by force
  then show ?thesis using x by (simp add: decode_symbol_def)
qed

lemma take_value_bits:
  assumes "0 \<le> v" "v < 2 ^ nat n"
  shows "take_value n (bits_of (nat n) v @ rest) = Some (v, rest)"
  using assms by (simp add: take_value_def bits_of_def horner_sum_bit_eq_take_bit take_bit_int_eq_self)

section \<open>The bits of a symbol\<close>

definition tree_code :: "nat \<Rightarrow> slots \<Rightarrow> code" where
  "tree_code n t = map (\<lambda>s. (code_bits t (int s), int s)) (filter (\<lambda>s. low16 t (int s * 2 + 1) \<noteq> 0) [0..<n])"

text \<open>The codes of a copy: the numbers of the rows of RFC 1951 for its length and its distance.\<close>

definition length_symbol :: "int \<Rightarrow> int" where
  "length_symbol lc = (case elem length_code lc of Inl _ \<Rightarrow> 0 | Inr k \<Rightarrow> k)"

definition distance_symbol :: "int \<Rightarrow> int" where
  "distance_symbol d = (case d_code (d - 1) of Inl _ \<Rightarrow> 0 | Inr k \<Rightarrow> k)"

definition symbol_bits :: "slots \<Rightarrow> slots \<Rightarrow> int \<times> int \<Rightarrow> bool list" where
  "symbol_bits lt dt = (\<lambda>(dist, lc).
     if dist = 0 then code_bits lt lc
     else
       (let k = length_symbol lc; d = distance_symbol dist in
        code_bits lt (k + 257) @ bits_of (nat (length_extra k)) (lc + 3 - length_base k) @
        code_bits dt d @ bits_of (nat (distance_extra d)) (dist - distance_base d)))"

definition token_of :: "int \<times> int \<Rightarrow> token" where
  "token_of = (\<lambda>(dist, lc). if dist = 0 then Lit lc else Copy (lc + 3) dist)"

definition symbol_ok :: "slots \<Rightarrow> slots \<Rightarrow> int \<times> int \<Rightarrow> bool" where
  "symbol_ok lt dt = (\<lambda>(dist, lc). 0 \<le> lc \<and> lc < 256 \<and> 0 \<le> dist \<and> dist \<le> 32768 \<and>
     (if dist = 0 then code_ok lt lc else code_ok lt (length_symbol lc + 257) \<and> code_ok dt (distance_symbol dist)))"

lemma length_symbol:
  assumes "0 \<le> lc" "lc < 256"
  defines "k \<equiv> length_symbol lc"
  shows "elem length_code lc = Inr k" "0 \<le> k" "k < 29" "length_base k \<le> lc + 3"
    "lc + 3 < length_base k + 2 ^ nat (length_extra k)" "elem extra_lbits k = Inr (length_extra k)"
    "length_extra k \<noteq> 0 \<Longrightarrow> elem base_length k = Inr (length_base k - 3)"
  using length_row [OF assms(1,2)] by (auto simp: length_row_def length_symbol_def k_def split: sum.splits)

lemma distance_symbol:
  assumes "1 \<le> d" "d \<le> 32768"
  defines "k \<equiv> distance_symbol d"
  shows "d_code (d - 1) = Inr k" "0 \<le> k" "k < 30" "distance_base k \<le> d"
    "d < distance_base k + 2 ^ nat (distance_extra k)" "elem extra_dbits k = Inr (distance_extra k)"
    "elem base_dist k = Inr (distance_base k - 1)"
  using distance_row [OF assms(1,2)] by (auto simp: distance_row_def distance_symbol_def k_def split: sum.splits)

text \<open>Few bits suffice.\<close>

lemma length_extra_less: "0 \<le> k \<Longrightarrow> k < 29 \<Longrightarrow> 0 \<le> length_extra k \<and> length_extra k \<le> 5"
  by (auto simp: length_extra_def)

lemma distance_extra_less: "0 \<le> k \<Longrightarrow> k < 30 \<Longrightarrow> 0 \<le> distance_extra k \<and> distance_extra k \<le> 13"
  by (auto simp: distance_extra_def)

lemma tree_code_mem:
  assumes "code_ok t c" "0 \<le> c" "c < int n"
  shows "(code_bits t c, c) \<in> set (tree_code n t)"
proof -
  have "nat c \<in> set (filter (\<lambda>s. low16 t (int s * 2 + 1) \<noteq> 0) [0..<n])" using assms by (simp add: code_ok_def nat_less_iff)
  then have "(code_bits t (int (nat c)), int (nat c)) \<in> set (tree_code n t)" unfolding tree_code_def set_map by (rule imageI)
  then show ?thesis using assms(2) by simp
qed

text \<open>A code that has the code words of a tree.\<close>

definition covers :: "nat \<Rightarrow> slots \<Rightarrow> code \<Rightarrow> bool" where
  "covers n t cs \<longleftrightarrow> (\<forall>c. code_ok t c \<and> 0 \<le> c \<and> c < int n \<longrightarrow> (code_bits t c, c) \<in> set cs)"

lemma covers_tree_code: "covers n t (tree_code n t)"
  by (simp add: covers_def tree_code_mem)

text \<open>Decoding takes the bits of a symbol off the stream.\<close>

lemma decode_one:
  assumes "prefix_free ls" "prefix_free ds" "covers 286 lt ls" "covers 30 dt ds" "symbol_ok lt dt s"
  shows "decode_tokens (Suc n) ls ds (symbol_bits lt dt s @ rest) =
    Option.bind (decode_tokens n ls ds rest) (\<lambda>(ts, bs). Some (token_of s # ts, bs))"
proof (cases s)
  case (Pair dist lc)
  have lc: "0 \<le> lc" "lc < 256" and d: "0 \<le> dist" "dist \<le> 32768" using assms(5) by (simp_all add: symbol_ok_def Pair)
  show ?thesis
  proof (cases "dist = 0")
    case True
    then have "code_ok lt lc" using assms(5) by (simp add: symbol_ok_def Pair)
    then have "(code_bits lt lc, lc) \<in> set ls" using assms(3) lc by (simp add: covers_def)
    then show ?thesis using True lc
      by (simp add: Pair symbol_bits_def token_of_def decode_symbol_code [OF assms(1)])
  next
    case False
    define k where "k = length_symbol lc"
    define j where "j = distance_symbol dist"
    have d1: "1 \<le> dist" using False d by simp
    note K = length_symbol [OF lc, folded k_def]
    note J = distance_symbol [OF d1 d(2), folded j_def]
    have ok: "code_ok lt (k + 257)" "code_ok dt j" using assms(5) False by (simp_all add: symbol_ok_def Pair k_def j_def)
    have lm: "(code_bits lt (k + 257), k + 257) \<in> set ls" using assms(3) ok(1) K by (simp add: covers_def)
    have dm: "(code_bits dt j, j) \<in> set ds" using assms(4) ok(2) J by (simp add: covers_def)
    have sb: "symbol_bits lt dt s = code_bits lt (k + 257) @ bits_of (nat (length_extra k)) (lc + 3 - length_base k) @
        code_bits dt j @ bits_of (nat (distance_extra j)) (dist - distance_base j)"
      using False by (simp add: Pair symbol_bits_def k_def j_def Let_def)
    have "decode_copy ds (k + 257) (bits_of (nat (length_extra k)) (lc + 3 - length_base k) @
        code_bits dt j @ bits_of (nat (distance_extra j)) (dist - distance_base j) @ rest) = Some (token_of s, rest)"
      using K J False by (simp add: decode_copy_def take_value_bits decode_symbol_code [OF assms(2) dm] token_of_def Pair)
    then show ?thesis using K(2) unfolding sb by (simp add: decode_symbol_code [OF assms(1) lm])
  qed
qed

lemma decode_symbols:
  assumes "prefix_free ls" "prefix_free ds" "covers 286 lt ls" "covers 30 dt ds" "code_ok lt 256"
  shows "\<forall>s \<in> set syms. symbol_ok lt dt s \<Longrightarrow>
    decode_tokens (Suc (length syms)) ls ds
      (concat (map (symbol_bits lt dt) syms) @ code_bits lt 256 @ rest) = Some (map token_of syms, rest)"
proof (induction syms)
  case Nil
  have "(code_bits lt 256, 256) \<in> set ls" using assms(3,5) by (simp add: covers_def)
  then show ?case by (simp add: decode_symbol_code [OF assms(1)])
next
  case (Cons s syms)
  then show ?case using decode_one [OF assms(1-4), of s "Suc (length syms)"] by (simp del: decode_tokens.simps)
qed


section \<open>Sending the symbols\<close>

lemma sends_send_extra:
  assumes "elem extras c = Inr n" "0 \<le> n" "n \<le> 16" "n \<noteq> 0 \<Longrightarrow> elem bases c = Inr base"
    "base \<le> x" "x < base + 2 ^ nat n" "room_for o1 n"
  obtains o2 where "send_extra c x extras bases o1 = Inr o2" "sends o1 (bits_of (nat n) (x - base)) o2"
proof (cases "n = 0")
  case True
  then show thesis using assms sends_refl [of o1] by (intro that [of o1]) (simp_all add: send_extra_def room_for_def)
next
  case False
  then show thesis using assms send_bits_sends [of o1 n "x - base"]
    by (intro that [of "send_bits (x - base) n o1"]) (simp_all add: send_extra_def)
qed

lemma send_symbol_sends:
  assumes "symbol_ok lt dt (dist, lc)" "room_for o1 (int (length (symbol_bits lt dt (dist, lc))))"
  obtains o2 where "send_symbol lt dt dist lc o1 = Inr o2" "sends o1 (symbol_bits lt dt (dist, lc)) o2"
proof (cases "dist = 0")
  case True
  then show thesis using assms send_code_sends [of lt lc o1]
    by (intro that [of "send_code lc lt o1"]) (simp_all add: send_symbol_def symbol_ok_def symbol_bits_def)
next
  case False
  have lc: "0 \<le> lc" "lc < 256" and d: "1 \<le> dist" "dist \<le> 32768" using assms(1) False by (simp_all add: symbol_ok_def)
  define k where "k = length_symbol lc"
  define j where "j = distance_symbol dist"
  note K = length_symbol [OF lc, folded k_def]
  note J = distance_symbol [OF d, folded j_def]
  have ok: "code_ok lt (k + 257)" "code_ok dt j" using assms(1) False by (simp_all add: symbol_ok_def k_def j_def)
  define a b c e where "a = code_bits lt (k + 257)" and "b = bits_of (nat (length_extra k)) (lc + 3 - length_base k)"
    and "c = code_bits dt j" and "e = bits_of (nat (distance_extra j)) (dist - distance_base j)"
  have sb: "symbol_bits lt dt (dist, lc) = a @ b @ c @ e"
    using False by (simp add: symbol_bits_def a_def b_def c_def e_def k_def j_def Let_def)
  have xk: "0 \<le> length_extra k" "length_extra k \<le> 5" "0 \<le> distance_extra j" "distance_extra j \<le> 13"
    using length_extra_less [OF K(2,3)] distance_extra_less [OF J(2,3)] by simp_all
  have room: "room_for o1 (int (length a) + (int (length b) + (int (length c) + int (length e))))"
    using assms(2) by (simp add: sb add.assoc)
  have s1: "sends o1 a (send_code (k + 257) lt o1)" (is "sends _ _ ?o2")
    unfolding a_def by (rule send_code_sends [OF ok(1)]) (use room in \<open>auto elim: room_less simp: a_def\<close>)
  note r2 = sends_room [OF s1 room]
  have "room_for ?o2 (length_extra k)" using r2 xk by (auto elim: room_less simp: b_def)
  moreover have "length_extra k \<noteq> 0 \<Longrightarrow> elem base_length k = Inr (length_base k - 3)" by (rule K(7))
  ultimately obtain o3 where o3: "send_extra k lc extra_lbits base_length ?o2 = Inr o3" "sends ?o2 b o3"
    using sends_send_extra [of extra_lbits k "length_extra k" base_length "length_base k - 3" lc ?o2] K xk
    by (auto simp: b_def algebra_simps)
  note r3 = sends_room [OF o3(2) r2]
  have s4: "sends o3 c (send_code j dt o3)" (is "sends _ _ ?o4")
    unfolding c_def by (rule send_code_sends [OF ok(2)]) (use r3 in \<open>auto elim: room_less simp: c_def\<close>)
  note r4 = sends_room [OF s4 r3]
  have "room_for ?o4 (distance_extra j)" using r4 xk by (auto elim: room_less simp: e_def)
  then obtain o5 where o5: "send_extra j (dist - 1) extra_dbits base_dist ?o4 = Inr o5" "sends ?o4 e o5"
    using sends_send_extra [of extra_dbits j "distance_extra j" base_dist "distance_base j - 1" "dist - 1" ?o4] J xk
    by (auto simp: e_def)
  have "sends o1 (symbol_bits lt dt (dist, lc)) o5"
    unfolding sb using sends_trans [OF s1 sends_trans [OF o3(2) sends_trans [OF s4 o5(2)]]] .
  moreover have "send_symbol lt dt dist lc o1 = Inr o5"
    using False K(1) o3(1) J(1) o5(1) by (simp add: send_symbol_def add.commute [of 257 k])
  ultimately show thesis using that by blast
qed

text \<open>A symbol that lies above the output reads the same after more output.\<close>

lemma byte_at_drop:
  assumes "drop n xs = drop n ys" "int n \<le> i" "length xs = length ys"
  shows "byte_at xs i = byte_at ys i"
proof (cases "nat i < length xs")
  case True
  have "nat i = n + (nat i - n)" using assms(2) by simp
  then have "xs ! nat i = ys ! nat i" using True assms(1,3) by (metis nth_drop less_imp_le_nat add_leD1)
  then show ?thesis using assms(2,3) True by (simp add: byte_at_def arr_at_def)
next
  case False
  then show ?thesis using assms(2,3) by (simp add: byte_at_def arr_at_def nat_less_iff)
qed

definition in_place :: "lit_buf \<Rightarrow> byte list \<Rightarrow> int \<Rightarrow> (int \<times> int) list \<Rightarrow> bool" where
  "in_place l b lx syms \<longleftrightarrow> (\<forall>i < length syms. symbol_at l b (lx + int i) = syms ! i)"

text \<open>The output has not reached a symbol when it is read.\<close>

definition in_time :: "lit_buf \<Rightarrow> int \<Rightarrow> int \<Rightarrow> bool list list \<Rightarrow> bool" where
  "in_time l n lx bss \<longleftrightarrow> (\<forall>i < length bss. n + int (length (concat (take i bss))) < 8 * (d_buf l + 2 * (lx + int i) + 1)) \<and>
     d_buf l + 2 * (lx + int (length bss)) \<le> l_buf l"

lemma in_place_Cons: "in_place l b lx (s # syms) \<longleftrightarrow> symbol_at l b lx = s \<and> in_place l b (lx + 1) syms"
  by (auto simp: in_place_def less_Suc_eq_0_disj algebra_simps)

lemma in_time_Cons:
  assumes "in_time l n lx (bs # bss)"
  shows "in_time l (n + int (length bs)) (lx + 1) bss"
proof -
  have "n + int (length (concat (take (Suc i) (bs # bss)))) < 8 * (d_buf l + 2 * (lx + int (Suc i)) + 1)" if "i < length bss" for i
    using assms that unfolding in_time_def by (metis Suc_less_eq length_Cons)
  then show ?thesis using assms by (simp add: in_time_def algebra_simps)
qed

lemma in_place_grows:
  assumes "grows o1 o2" "pending o2 \<le> d_buf l + 2 * lx" "d_buf l + 2 * (lx + int (length syms)) \<le> l_buf l" "0 \<le> lx" "0 \<le> pending o2"
  shows "in_place l (pending_buf o2) lx syms = in_place l (pending_buf o1) lx syms"
proof -
  have "symbol_at l (pending_buf o2) (lx + int i) = symbol_at l (pending_buf o1) (lx + int i)" if "i < length syms" for i
  proof -
    have "byte_at (pending_buf o2) p = byte_at (pending_buf o1) p" if "pending o2 \<le> p" for p
      using assms(1,5) that by (intro byte_at_drop [of "nat (pending o2)"]) (simp_all add: grows_def)
    then show ?thesis using assms that by (simp add: symbol_at_def)
  qed
  then show ?thesis by (simp add: in_place_def)
qed

lemma send_symbols_sends:
  assumes "in_place l (pending_buf o1) lx syms" "\<forall>s \<in> set syms. symbol_ok lt dt s"
    "in_time l (int (length (sent o1))) lx (map (symbol_bits lt dt) syms)"
    "room_for o1 (int (length (concat (map (symbol_bits lt dt) syms))) + n)" "0 \<le> n" "0 \<le> lx"
  shows "\<exists>o2. send_symbols lt dt l (length syms) lx o1 = Inr o2 \<and> sends o1 (concat (map (symbol_bits lt dt) syms)) o2"
  using assms
proof (induction syms arbitrary: o1 lx)
  case Nil
  then show ?case by (simp add: sends_refl room_for_def)
next
  case (Cons s syms)
  obtain dist lc where s: "s = (dist, lc)" by (cases s)
  let ?b = "symbol_bits lt dt (dist, lc)" and ?bs = "concat (map (symbol_bits lt dt) syms)"
  have room: "room_for o1 (int (length ?b) + (int (length ?bs) + n))" using Cons.prems(4) by (simp add: s add.assoc)
  have "symbol_ok lt dt (dist, lc)" using Cons.prems(2) s by simp
  moreover have "room_for o1 (int (length ?b))" using room Cons.prems(5) by (auto elim: room_less)
  ultimately obtain o2 where o2: "send_symbol lt dt dist lc o1 = Inr o2" "sends o1 ?b o2" by (rule send_symbol_sends)
  have ok: "bits_ok o2" "grows o1 o2" "sent o2 = sent o1 @ ?b" using o2(2) by (simp_all add: sends_def)
  have time: "in_time l (int (length (sent o2))) (lx + 1) (map (symbol_bits lt dt) syms)"
    using in_time_Cons [of l "int (length (sent o1))" lx ?b "map (symbol_bits lt dt) syms"] Cons.prems(3) by (simp add: ok(3) s)
  have "in_place l (pending_buf o2) (lx + 1) syms"
  proof (cases "syms = []")
    case False
    then have "int (length (sent o2)) < 8 * (d_buf l + 2 * (lx + 1) + 1)"
      using time unfolding in_time_def by (force dest: spec [of _ 0])
    then have "pending o2 \<le> d_buf l + 2 * (lx + 1)" using length_sent [OF ok(1)] ok(1) by (simp add: bits_ok_def)
    moreover have "d_buf l + 2 * (lx + 1 + int (length syms)) \<le> l_buf l" using time by (simp add: in_time_def)
    ultimately show ?thesis
      using Cons.prems(1,6) ok(1,2) in_place_grows [of o1 o2 l "lx + 1" syms] by (simp add: in_place_Cons bits_ok_def)
  qed (simp add: in_place_def)
  from Cons.IH [OF this _ time] Cons.prems(2,5,6) sends_room [OF o2(2) room] obtain o3 where
    o3: "send_symbols lt dt l (length syms) (lx + 1) o2 = Inr o3" "sends o2 ?bs o3" by auto
  have "symbol_at l (pending_buf o1) lx = (dist, lc)" using Cons.prems(1) s by (simp add: in_place_Cons)
  then show ?case using o2(1) o3(1) sends_trans [OF o2(2) o3(2)] by (simp add: s)
qed

section \<open>A whole block\<close>

definition block_bits :: "slots \<Rightarrow> slots \<Rightarrow> (int \<times> int) list \<Rightarrow> bool list" where
  "block_bits lt dt syms = concat (map (symbol_bits lt dt) syms) @ code_bits lt 256"

lemma compress_block_sends:
  assumes "in_place l (pending_buf o1) 0 syms" "last_lit l = int (length syms)" "\<forall>s \<in> set syms. symbol_ok lt dt s" "code_ok lt 256"
    "slot lt 513 = Inr e" "in_time l (int (length (sent o1))) 0 (map (symbol_bits lt dt) syms)"
    "room_for o1 (int (length (block_bits lt dt syms)))"
  obtains o2 where "compress_block lt dt l o1 = Inr o2" "sends o1 (block_bits lt dt syms) o2"
proof -
  have room: "room_for o1 (int (length (concat (map (symbol_bits lt dt) syms))) + int (length (code_bits lt 256)))"
    using assms(7) by (simp add: block_bits_def)
  from send_symbols_sends [OF assms(1,3,6) room] obtain o2 where
    o2: "send_symbols lt dt l (length syms) 0 o1 = Inr o2" "sends o1 (concat (map (symbol_bits lt dt) syms)) o2" by auto
  have s3: "sends o2 (code_bits lt 256) (send_code 256 lt o2)"
    by (rule send_code_sends [OF assms(4) sends_room [OF o2(2) room]])
  have "sends o1 (block_bits lt dt syms) ((send_code 256 lt o2)\<lparr>last_eob_len := e\<rparr>)"
    using sends_trans [OF o2(2) s3] by (simp add: block_bits_def sends_def bits_ok_def sent_def grows_def)
  moreover have "compress_block lt dt l o1 = Inr ((send_code 256 lt o2)\<lparr>last_eob_len := e\<rparr>)"
    using o2(1) assms(2,5) by (simp add: compress_block_def)
  ultimately show thesis using that by blast
qed

section \<open>The fixed code\<close>

definition fixed_lits :: code where
  "fixed_lits = map (\<lambda>s. (rev (bits_of (nat (fst (fixed_code s))) (snd (fixed_code s))), s)) [0..285]"

definition fixed_dists :: code where
  "fixed_dists = map (\<lambda>d. (rev (bits_of 5 d), d)) [0..29]"

abbreviation static_l :: slots where
  "static_l \<equiv> map Some static_ltree"

abbreviation static_d :: slots where
  "static_d \<equiv> map Some static_dtree"

text \<open>The two tables as the fixed code of RFC 1951, with the bits of the code words reversed.\<close>

lemma static_ltree_rows:
  "static_ltree = concat (map (\<lambda>s. [rev_bits (nat (fst (fixed_code s))) (snd (fixed_code s)), fst (fixed_code s)]) [0..287])"
  by code_simp

lemma static_dtree_rows: "static_dtree = concat (map (\<lambda>d. [rev_bits 5 d, 5]) [0..29])"
  by code_simp

lemma pairs_nth:
  "i < length xs \<Longrightarrow> concat (map (\<lambda>x. [f x, g x]) xs) ! (2 * i) = f (xs ! i)"
  "i < length xs \<Longrightarrow> concat (map (\<lambda>x. [f x, g x]) xs) ! Suc (2 * i) = g (xs ! i)"
proof (induction xs arbitrary: i)
  case (Cons x xs)
  {
    case 1
    then show ?case using Cons.IH(1) [of "i - 1"] by (cases i) simp_all
  next
    case 2
    then show ?case using Cons.IH(2) [of "i - 1"] by (cases i) simp_all
  }
qed simp_all

lemma length_pairs: "length (concat (map (\<lambda>x. [f x, g x]) xs)) = 2 * length xs"
  by (induction xs) simp_all

lemma low16_pairs:
  assumes "t = concat (map (\<lambda>x. [f x, g x]) [0..n])" "0 \<le> s" "s \<le> n"
  shows "low16 (map Some t) (s * 2) = f s mod 65536" "low16 (map Some t) (s * 2 + 1) = g s mod 65536"
proof -
  have i: "nat s < length [0..n]" "[0..n] ! nat s = s" using assms(2,3) by simp_all
  have e: "nat (s * 2) = 2 * nat s" "nat (s * 2 + 1) = Suc (2 * nat s)" using assms(2) by (simp_all add: nat_mult_distrib nat_add_distrib)
  have l: "s * 2 + 1 < int (length t)" using assms unfolding assms(1) length_pairs by simp
  have "t ! nat (s * 2) = f s" "t ! nat (s * 2 + 1) = g s"
    unfolding e using pairs_nth [OF i(1), of f g] i(2) by (simp_all add: assms(1))
  then show "low16 (map Some t) (s * 2) = f s mod 65536" "low16 (map Some t) (s * 2 + 1) = g s mod 65536"
    using l assms(2) by (simp_all add: low16_def slot_at_def arr_at_def or_zero_def)
qed

lemma fixed_code_range: "0 \<le> s \<Longrightarrow> s < 288 \<Longrightarrow> fixed_code s = (l, c) \<Longrightarrow> l \<in> {7, 8, 9} \<and> 0 \<le> c \<and> c < 2 ^ nat l"
  by (auto simp: fixed_code_def split: if_splits)

lemma bits_of_rev_bits: "rev (bits_of n v) = bits_of n (rev_bits n v)"
proof (induction n arbitrary: v)
  case (Suc n)
  have "bits_of (Suc n) v = odd v # bits_of n (v div 2)" for v
    by (rule nth_equalityI) (auto simp: nth_Cons bit_0 bit_Suc split: nat.splits)
  moreover have "bits_of (Suc n) (2 ^ n * (v mod 2) + rev_bits n (v div 2)) = bits_of n (rev_bits n (v div 2)) @ [odd v]"
  proof -
    have "2 ^ n * (v mod 2) + rev_bits n (v div 2) = rev_bits n (v div 2) OR push_bit n (v mod 2)"
    proof -
      have "rev_bits n (v div 2) + push_bit n (v mod 2) = rev_bits n (v div 2) OR push_bit n (v mod 2)"
        by (rule disjunctive_add) (auto simp: bit_simps dest: bit_above [OF rev_bits_bound])
      then show ?thesis by (simp add: push_bit_eq_mult mult.commute)
    qed
    moreover have "bits_of (n + 1) (rev_bits n (v div 2) OR push_bit n (v mod 2)) = bits_of n (rev_bits n (v div 2)) @ bits_of 1 (v mod 2)"
      by (rule bits_of_or [OF rev_bits_bound])
    moreover have "bits_of 1 (v mod 2) = [odd v]" by (simp add: bits_of_def bit_0)
    ultimately show ?thesis by simp
  qed
  ultimately show ?case using Suc.IH by simp
qed simp

lemma static_l_code:
  assumes "0 \<le> s" "s < 288"
  shows "code_bits static_l s = rev (bits_of (nat (fst (fixed_code s))) (snd (fixed_code s)))" "code_ok static_l s"
proof -
  obtain l c where lc: "fixed_code s = (l, c)" by fastforce
  have r: "l \<in> {7, 8, 9}" "0 \<le> c" "c < 2 ^ nat l" using fixed_code_range [OF assms lc] by auto
  have "s \<le> 287" using assms(2) by simp
  note low = low16_pairs [OF static_ltree_rows assms(1) this, unfolded lc fst_conv snd_conv]
  have v: "0 \<le> rev_bits (nat l) c" "rev_bits (nat l) c < 2 ^ nat l" by (rule rev_bits_bound)+
  have "(2 :: int) ^ nat l \<le> 512" using r(1) by auto
  then have low2: "low16 static_l (s * 2) = rev_bits (nat l) c" "low16 static_l (s * 2 + 1) = l" using low v r(1) by auto
  show "code_bits static_l s = rev (bits_of (nat (fst (fixed_code s))) (snd (fixed_code s)))"
    unfolding code_bits_def low2 lc by (simp add: bits_of_rev_bits)
  show "code_ok static_l s" unfolding code_ok_def low2 using v r(1) by auto
qed

lemma static_d_code:
  assumes "0 \<le> d" "d < 30"
  shows "code_bits static_d d = rev (bits_of 5 d)" "code_ok static_d d"
proof -
  have "d \<le> 29" using assms(2) by simp
  note low = low16_pairs [OF static_dtree_rows assms(1) this]
  have v: "0 \<le> rev_bits 5 d" "rev_bits 5 d < 2 ^ 5" by (rule rev_bits_bound)+
  then have low2: "low16 static_d (d * 2) = rev_bits 5 d" "low16 static_d (d * 2 + 1) = 5" using low by (auto simp del: rev_bits.simps)
  show "code_bits static_d d = rev (bits_of 5 d)"
    unfolding code_bits_def low2 by (simp add: bits_of_rev_bits del: rev_bits.simps)
  show "code_ok static_d d" unfolding code_ok_def low2 using v by (simp del: rev_bits.simps)
qed

text \<open>The trees of the program are the code of RFC 1951.\<close>

lemma map_int_upt: "map int [0..<n] = [0..int n - 1]"
  by (rule nth_equalityI) simp_all

lemma tree_code_all:
  assumes "\<And>s. 0 \<le> s \<Longrightarrow> s < int n \<Longrightarrow> code_ok t s \<and> code_bits t s = f s"
  shows "tree_code n t = map (\<lambda>s. (f s, s)) [0..int n - 1]"
proof -
  have "filter (\<lambda>s. low16 t (int s * 2 + 1) \<noteq> 0) [0..<n] = [0..<n]"
  proof (rule filter_True, rule ballI)
    fix s assume "s \<in> set [0..<n]"
    then have "code_ok t (int s)" using assms [of "int s"] by simp
    then show "low16 t (int s * 2 + 1) \<noteq> 0" by (simp add: code_ok_def)
  qed
  then have "tree_code n t = map (\<lambda>s. (code_bits t s, s)) (map int [0..<n])" by (simp add: tree_code_def)
  then show ?thesis using assms by (simp add: map_int_upt)
qed

lemma static_lits: "tree_code 286 static_l = fixed_lits"
  unfolding fixed_lits_def using tree_code_all [of 286 static_l] static_l_code by simp

lemma static_dists: "tree_code 30 static_d = fixed_dists"
  unfolding fixed_dists_def using tree_code_all [of 30 static_d] static_d_code by simp

text \<open>When a code word, most significant bit first, starts another one.\<close>

lemma prefix_code:
  assumes "prefix (rev (bits_of m a)) (rev (bits_of n b))" "0 \<le> a" "a < 2 ^ m" "0 \<le> b" "b < 2 ^ n"
  shows "m \<le> n" "a = b div 2 ^ (n - m)"
proof -
  have suf: "suffix (bits_of m a) (bits_of n b)" using assms(1) by (simp add: suffix_to_prefix)
  show mn: "m \<le> n" using suffix_length_le [OF suf] by simp
  have eq: "bits_of m a = drop (n - m) (bits_of n b)" 
  proof -
    obtain zs where z: "bits_of n b = zs @ bits_of m a" using suf by (auto simp: suffix_def)
    have "length zs = n - m" using arg_cong [OF z, of length] by simp
    then show ?thesis unfolding z by simp
  qed
  have "bit a i = bit (drop_bit (n - m) b) i" for i
  proof (cases "i < m")
    case True
    then have "bits_of m a ! i = bits_of n b ! (n - m + i)" using mn unfolding eq by simp
    then show ?thesis using True mn by (simp add: bit_simps)
  next
    case False
    then show ?thesis using bit_above [OF assms(2,3), of i] bit_above [OF assms(4,5), of "n - m + i"] mn by (simp add: bit_simps)
  qed
  then have "a = drop_bit (n - m) b" by (rule bit_eqI)
  then show "a = b div 2 ^ (n - m)" by (simp add: drop_bit_eq_div)
qed

lemma fixed_symbol_code:
  assumes "0 \<le> s" "s < 288" "fixed_code s = (l, c)" "0 \<le> r" "r < 2 ^ nat (9 - l)"
  shows "fixed_symbol (c * 2 ^ nat (9 - l) + r) = s"
  using assms by (auto simp: fixed_symbol_def fixed_code_def split: if_splits)

lemma fixed_lits_prefix_free: "prefix_free fixed_lits"
  unfolding prefix_free_def
proof (intro ballI impI)
  fix x y assume xy: "x \<in> set fixed_lits" "y \<in> set fixed_lits" "prefix (fst x) (fst y)"
  obtain s1 where s1: "x = (rev (bits_of (nat (fst (fixed_code s1))) (snd (fixed_code s1))), s1)" "0 \<le> s1" "s1 < 288"
    using xy(1) by (auto simp: fixed_lits_def)
  obtain s2 where s2: "y = (rev (bits_of (nat (fst (fixed_code s2))) (snd (fixed_code s2))), s2)" "0 \<le> s2" "s2 < 288"
    using xy(2) by (auto simp: fixed_lits_def)
  obtain l1 c1 where c1: "fixed_code s1 = (l1, c1)" by fastforce
  obtain l2 c2 where c2: "fixed_code s2 = (l2, c2)" by fastforce
  have r1: "l1 \<in> {7, 8, 9}" "0 \<le> c1" "c1 < 2 ^ nat l1" using fixed_code_range [OF s1(2,3) c1] by auto
  have r2: "l2 \<in> {7, 8, 9}" "0 \<le> c2" "c2 < 2 ^ nat l2" using fixed_code_range [OF s2(2,3) c2] by auto
  have "prefix (rev (bits_of (nat l1) c1)) (rev (bits_of (nat l2) c2))" using xy(3) by (simp add: s1(1) s2(1) c1 c2)
  from prefix_code [OF this r1(2,3) r2(2,3)] have le: "nat l1 \<le> nat l2" and e: "c1 = c2 div 2 ^ (nat l2 - nat l1)" by auto
  define m where "m = c2 mod 2 ^ (nat l2 - nat l1)"
  have "c2 = c1 * 2 ^ (nat l2 - nat l1) + m" unfolding e m_def by (rule div_mult_mod_eq [symmetric])
  moreover have "nat (9 - l1) = (nat l2 - nat l1) + nat (9 - l2)" using le r1(1) r2(1) by auto
  ultimately have v: "c2 * 2 ^ nat (9 - l2) = c1 * 2 ^ nat (9 - l1) + m * 2 ^ nat (9 - l2)"
    by (simp add: algebra_simps power_add)
  have m: "0 \<le> m" "m < 2 ^ (nat l2 - nat l1)" by (simp_all add: m_def)
  then have "m * 2 ^ nat (9 - l2) < 2 ^ (nat l2 - nat l1) * 2 ^ nat (9 - l2)" by simp
  also have "\<dots> = 2 ^ nat (9 - l1)" using le r1(1) r2(1) by (auto simp flip: power_add)
  finally have "m * 2 ^ nat (9 - l2) < 2 ^ nat (9 - l1)" .
  then have "fixed_symbol (c2 * 2 ^ nat (9 - l2)) = s1" unfolding v using m by (intro fixed_symbol_code [OF s1(2,3) c1]) simp_all
  moreover have "fixed_symbol (c2 * 2 ^ nat (9 - l2)) = s2" using fixed_symbol_code [OF s2(2,3) c2, of 0] by simp
  ultimately have "s1 = s2" by simp
  then show "x = y" using s1(1) s2(1) by simp
qed

lemma fixed_dists_prefix_free: "prefix_free fixed_dists"
  unfolding prefix_free_def
proof (intro ballI impI)
  fix x y assume xy: "x \<in> set fixed_dists" "y \<in> set fixed_dists" "prefix (fst x) (fst y)"
  obtain d1 where d1: "x = (rev (bits_of 5 d1), d1)" "0 \<le> d1" "d1 < 2 ^ 5" using xy(1) by (auto simp: fixed_dists_def)
  obtain d2 where d2: "y = (rev (bits_of 5 d2), d2)" "0 \<le> d2" "d2 < 2 ^ 5" using xy(2) by (auto simp: fixed_dists_def)
  have "prefix (rev (bits_of 5 d1)) (rev (bits_of 5 d2))" using xy(3) d1(1) d2(1) by simp
  from prefix_code(2) [OF this d1(2,3) d2(2,3)] show "x = y" using d1(1) d2(1) by simp
qed

text \<open>Symbols of the fixed code take at most 31 bits.\<close>

lemma static_symbol_ok: "0 \<le> lc \<Longrightarrow> lc < 256 \<Longrightarrow> 0 \<le> dist \<Longrightarrow> dist \<le> 32768 \<Longrightarrow> symbol_ok static_l static_d (dist, lc)"
  using length_symbol(2,3) [of lc] distance_symbol(2,3) [of dist] static_l_code(2) static_d_code(2) by (simp add: symbol_ok_def)

lemma static_l_length: "0 \<le> s \<Longrightarrow> s < 288 \<Longrightarrow> length (code_bits static_l s) \<le> 9 \<and> (256 \<le> s \<longrightarrow> length (code_bits static_l s) \<le> 8)"
  by (auto simp: static_l_code(1) fixed_code_def)

lemma static_symbol_length:
  assumes "0 \<le> lc" "lc < 256" "0 \<le> dist" "dist \<le> 32768"
  shows "length (symbol_bits static_l static_d (dist, lc)) \<le> 31"
proof (cases "dist = 0")
  case True
  then show ?thesis using static_l_length [of lc] assms by (auto simp: symbol_bits_def)
next
  case False
  note K = length_symbol(2,3) [OF assms(1,2)] and J = distance_symbol(2,3) [of dist]
  have "length (code_bits static_l (length_symbol lc + 257)) \<le> 8" using static_l_length [of "length_symbol lc + 257"] K by simp
  moreover have "length (code_bits static_d (distance_symbol dist)) = 5" using static_d_code(1) J False assms by simp
  moreover have "nat (length_extra (length_symbol lc)) \<le> 5" using length_extra_less [OF K] by linarith
  moreover have "nat (distance_extra (distance_symbol dist)) \<le> 13" using distance_extra_less J False assms by fastforce
  ultimately show ?thesis using False by (simp add: symbol_bits_def Let_def)
qed

section \<open>Blocks in time\<close>

text \<open>No more than 31 bits per symbol.\<close>

lemma length_static_bits:
  assumes "\<forall>(dist, lc) \<in> set syms. 0 \<le> lc \<and> lc < 256 \<and> 0 \<le> dist \<and> dist \<le> 32768"
  shows "length (concat (map (symbol_bits static_l static_d) syms)) \<le> 31 * length syms"
  using assms
proof (induction syms)
  case (Cons s syms)
  obtain dist lc where "s = (dist, lc)" by (cases s)
  then show ?case using Cons static_symbol_length [of lc dist] by auto
qed simp

lemma few_symbols_in_time:
  assumes "\<forall>(dist, lc) \<in> set syms. 0 \<le> lc \<and> lc < 256 \<and> 0 \<le> dist \<and> dist \<le> 32768"
    "n + 15 * int (length syms) \<le> 8 * d_buf l" "d_buf l + 2 * int (length syms) \<le> l_buf l"
  shows "in_time l n 0 (map (symbol_bits static_l static_d) syms)"
  unfolding in_time_def
proof (intro conjI allI impI)
  fix i assume "i < length (map (symbol_bits static_l static_d) syms)"
  then have i: "i \<le> length syms" by simp
  have "\<forall>(dist, lc) \<in> set (take i syms). 0 \<le> lc \<and> lc < 256 \<and> 0 \<le> dist \<and> dist \<le> 32768"
    using assms(1) by (auto dest: in_set_takeD)
  from length_static_bits [OF this] i
  have "length (concat (take i (map (symbol_bits static_l static_d) syms))) \<le> 31 * i" by (simp add: take_map)
  with i assms(2) show "n + int (length (concat (take i (map (symbol_bits static_l static_d) syms)))) < 8 * (d_buf l + 2 * (0 + int i) + 1)"
    by simp
qed (use assms(3) in simp)

text \<open>What \<open>_tr_tally\<close> writes is what \<open>compress_block\<close> reads.\<close>

lemma byte_at_put: "0 \<le> i \<Longrightarrow> i < int (length b) \<Longrightarrow> byte_at (arr_put b j v) i = (if i = j then uint v else byte_at b i)"
  by (auto simp: byte_at_def arr_put_def arr_at_def)

lemma length_put [simp]: "length (arr_put b j v) = length b"
  by (simp add: arr_put_def)

lemma uint_byte: "uint (word_of_int v :: byte) = v mod 256"
  by (simp add: unsigned_of_int take_bit_eq_mod)

lemma symbol_bytes:
  assumes "0 \<le> dist" "dist < 65536"
  shows "js_or (js_and (js_shl (dist div 256) 8) 0xff00) (dist mod 256) = dist"
proof -
  have d: "0 \<le> dist div 256" "dist div 256 < 256" using assms by linarith+
  then have "js_shl (dist div 256) 8 = dist div 256 * 256" by (simp add: js_shl_small)
  moreover have "js_and (dist div 256 * 256) 0xff00 = dist div 256 * 256"
  proof -
    have "(dist div 256 * 256) AND 0xff00 = dist div 256 * 256"
    proof (rule bit_eqI)
      fix n
      have m: "(0xff00 :: int) = push_bit 8 (mask 8)" by (simp add: push_bit_eq_mult mask_eq_exp_minus_1)
      have q: "dist div 256 * 256 = push_bit 8 (take_bit 8 (dist div 256))"
        using d by (simp add: push_bit_eq_mult take_bit_int_eq_self)
      show "bit ((dist div 256 * 256) AND 0xff00) n = bit (dist div 256 * 256) n" unfolding m q by (auto simp: bit_simps)
    qed
    then show ?thesis using d by (simp add: js_and_def to_int32_nonneg)
  qed
  moreover have "(dist div 256 * 256) OR (dist mod 256) = dist"
  proof -
    have "push_bit 8 (drop_bit 8 dist) OR take_bit 8 dist = dist"
      by (rule bit_eqI) (auto simp: bit_simps not_less)
    then show ?thesis by (simp add: push_bit_eq_mult drop_bit_eq_div take_bit_eq_mod)
  qed
  ultimately show ?thesis using d by (simp add: js_or_small)
qed

lemma js_and_byte: "0 \<le> x \<Longrightarrow> x < 256 \<Longrightarrow> js_and x 0xff = x"
  by simp

text \<open>The places of \<open>n\<close> symbols do not overlap.\<close>

definition places_ok :: "lit_buf \<Rightarrow> byte list \<Rightarrow> int \<Rightarrow> bool" where
  "places_ok l b n \<longleftrightarrow> 0 \<le> d_buf l \<and> d_buf l + 2 * n \<le> l_buf l \<and> l_buf l + n \<le> int (length b)"

definition tallied :: "lit_buf \<Rightarrow> byte list \<Rightarrow> int \<Rightarrow> int \<Rightarrow> byte list" where
  "tallied l b dist lc =
     arr_put (arr_put (arr_put b (d_buf l + last_lit l * 2) (word_of_int (js_and (js_ushr dist 8) 0xff)))
       (d_buf l + last_lit l * 2 + 1) (word_of_int (js_and dist 0xff))) (l_buf l + last_lit l) (word_of_int (js_and lc 0xff))"

lemma symbol_at_tallied:
  assumes "places_ok l b (last_lit l + 1)" "0 \<le> last_lit l" "0 \<le> dist" "dist < 65536" "0 \<le> lc" "lc < 256"
  shows "symbol_at l (tallied l b dist lc) (last_lit l) = (dist, lc)"
    and "0 \<le> i \<Longrightarrow> i < last_lit l \<Longrightarrow> symbol_at l (tallied l b dist lc) i = symbol_at l b i"
proof -
  have "js_ushr dist 8 = dist div 256" using assms(3,4) by (simp add: js_ushr_small)
  moreover have "dist div 256 mod 256 = dist div 256" using assms(3,4) by simp
  ultimately show "symbol_at l (tallied l b dist lc) (last_lit l) = (dist, lc)"
    using assms symbol_bytes [OF assms(3,4)] by (simp add: symbol_at_def tallied_def byte_at_put places_ok_def uint_byte)
  show "symbol_at l (tallied l b dist lc) i = symbol_at l b i" if "0 \<le> i" "i < last_lit l"
    using assms that by (simp add: symbol_at_def tallied_def byte_at_put places_ok_def)
qed

lemma tr_tally_in_place:
  assumes "tr_tally level n dist lc l t o1 = Inr (full, l1, t1, o2)" "in_place l (pending_buf o1) 0 syms"
    "last_lit l = int (length syms)" "places_ok l (pending_buf o1) (last_lit l + 1)" "0 \<le> dist" "dist < 65536" "0 \<le> lc" "lc < 256"
  shows "in_place l1 (pending_buf o2) 0 (syms @ [(dist, lc)])" "last_lit l1 = int (length (syms @ [(dist, lc)]))"
    "d_buf l1 = d_buf l" "l_buf l1 = l_buf l" "lit_bufsize l1 = lit_bufsize l"
    "pending o2 = pending o1" "bi_buf o2 = bi_buf o1" "bi_valid o2 = bi_valid o1" "length (pending_buf o2) = length (pending_buf o1)"
    "full \<or> last_lit l1 \<noteq> lit_bufsize l1 - 1"
proof -
  have e: "o2 = o1\<lparr>pending_buf := tallied l (pending_buf o1) dist lc\<rparr>"
    "l1 = l\<lparr>last_lit := last_lit l + 1, matches := (if dist = 0 then matches l else matches l + 1)\<rparr>"
    "full \<or> last_lit l1 \<noteq> lit_bufsize l1 - 1"
    using assms(1) by (auto simp: tr_tally_def tallied_def Let_def ebind_Inr_iff)
  note s = symbol_at_tallied [OF assms(4) _ assms(5-8)]
  have "symbol_at l1 b i = symbol_at l b i" for b i by (simp add: e symbol_at_def)
  then show "in_place l1 (pending_buf o2) 0 (syms @ [(dist, lc)])"
    using assms(2,3) s unfolding in_place_def e(1) by (auto simp: less_Suc_eq nth_append)
  show "last_lit l1 = int (length (syms @ [(dist, lc)]))" using assms(3) by (simp add: e)
  show "d_buf l1 = d_buf l" "l_buf l1 = l_buf l" "lit_bufsize l1 = lit_bufsize l"
    "pending o2 = pending o1" "bi_buf o2 = bi_buf o1" "bi_valid o2 = bi_valid o1" "length (pending_buf o2) = length (pending_buf o1)"
    by (simp_all add: e tallied_def)
  show "full \<or> last_lit l1 \<noteq> lit_bufsize l1 - 1" by (rule e(3))
qed

section \<open>Tallying a block\<close>

lemma slot_at_put: "0 \<le> i \<Longrightarrow> slot_at (put_slot xs i v) j = (if j = i then Some v else slot_at xs j)"
proof (cases "i < int (length xs)")
  case True
  assume "0 \<le> i"
  then show ?thesis using True by (auto simp: slot_at_def put_slot_def store_def arr_at_def nth_list_update nat_eq_iff)
next
  case False
  assume i: "0 \<le> i"
  let ?ys = "xs @ replicate (nat i - length xs) None @ [Some v]"
  have e: "put_slot xs i v = ?ys" "int (length ?ys) = i + 1" using False i by (simp_all add: put_slot_def store_def)
  consider "j < 0 \<or> i < j" | "j = i" | "0 \<le> j" "j < int (length xs)" | "int (length xs) \<le> j" "j < i" by linarith
  then show ?thesis
  proof cases
    case 1
    then show ?thesis using False i unfolding slot_at_def e(1) arr_at_def e(2) by auto
  next
    case 2
    have "nat i = length (xs @ replicate (nat i - length xs) None)" using False i by simp
    then have "?ys ! nat i = Some v" by (metis append_assoc nth_append_length)
    then show ?thesis using 2 i unfolding slot_at_def e(1) arr_at_def e(2) by simp
  next
    case 3
    then show ?thesis using False i unfolding slot_at_def e(1) arr_at_def e(2) by (simp add: nth_append nat_less_iff)
  next
    case 4
    then have "?ys ! nat j = None" using i by (auto simp: nth_append nat_less_iff)
    then show ?thesis using 4 i unfolding slot_at_def e(1) arr_at_def e(2) by simp
  qed
qed

definition freqs_ok :: "trees \<Rightarrow> bool" where
  "freqs_ok t \<longleftrightarrow> (\<forall>i. 0 \<le> i \<and> i < 286 \<longrightarrow> slot_at (dyn_ltree t) (i * 2) \<noteq> None) \<and>
     (\<forall>i. 0 \<le> i \<and> i < 30 \<longrightarrow> slot_at (dyn_dtree t) (i * 2) \<noteq> None)"

lemma freqs_okD:
  "freqs_ok t \<Longrightarrow> 0 \<le> i \<Longrightarrow> i < 286 \<Longrightarrow> slot_at (dyn_ltree t) (i * 2) \<noteq> None"
  "freqs_ok t \<Longrightarrow> 0 \<le> i \<Longrightarrow> i < 30 \<Longrightarrow> slot_at (dyn_dtree t) (i * 2) \<noteq> None"
  by (simp_all add: freqs_ok_def)

lemma bump_slot:
  assumes "slot_at xs i \<noteq> None" "0 \<le> i"
  obtains ys where "bump xs i d = Inr ys" "\<And>j. slot_at ys j = None \<longleftrightarrow> slot_at xs j = None"
  using assms by (intro that [of "put_slot xs i (the (slot_at xs i) + d)"])
    (auto simp: bump_def slot_def slot_at_put split: option.splits)

lemma clear_freqs_slots: "slot_at (clear_freqs n t) (i * 2) = (if 0 \<le> i \<and> i < n then Some 0 else slot_at t (i * 2))"
proof -
  have "slot_at (fold (\<lambda>i t. put_slot t (int i * 2) 0) [0..<k] t) (i * 2) = (if 0 \<le> i \<and> i < int k then Some 0 else slot_at t (i * 2))" for k
    by (induction k) (auto simp: slot_at_put)
  from this [of "nat n"] show ?thesis by (simp add: clear_freqs_def)
qed

lemma init_block_freqs: "freqs_ok (fst (init_block t l))" "last_lit (snd (init_block t l)) = 0"
    "d_buf (snd (init_block t l)) = d_buf l" "l_buf (snd (init_block t l)) = l_buf l" "lit_bufsize (snd (init_block t l)) = lit_bufsize l"
  by (simp_all add: init_block_def freqs_ok_def slot_at_put clear_freqs_slots)

lemma tally_counts_ok:
  assumes "freqs_ok t" "0 \<le> lc" "lc < 256" "0 \<le> dist" "dist \<le> 32768"
  obtains t1 where "tally_counts dist lc t = Inr t1" "freqs_ok t1"
proof (cases "dist = 0")
  case True
  have "slot_at (dyn_ltree t) (lc * 2) \<noteq> None" using assms(1-3) by (simp add: freqs_ok_def)
  then obtain ys where "bump (dyn_ltree t) (lc * 2) 1 = Inr ys" "\<And>j. slot_at ys j = None \<longleftrightarrow> slot_at (dyn_ltree t) j = None"
    using bump_slot assms(2) by (metis mult_nonneg_nonneg zero_le_numeral)
  then show thesis using True assms(1) by (intro that [of "t\<lparr>dyn_ltree := ys\<rparr>"]) (simp_all add: tally_counts_def freqs_ok_def)
next
  case False
  define k where "k = length_symbol lc"
  define j where "j = distance_symbol dist"
  have d1: "1 \<le> dist" using False assms(4) by simp
  note K = length_symbol [OF assms(2,3), folded k_def] and J = distance_symbol [OF d1 assms(5), folded j_def]
  have "slot_at (dyn_ltree t) ((k + 257) * 2) \<noteq> None" using K(2,3) by (intro freqs_okD [OF assms(1)]) simp_all
  then obtain ys where ys: "bump (dyn_ltree t) ((k + 257) * 2) 1 = Inr ys" "\<And>i. slot_at ys i = None \<longleftrightarrow> slot_at (dyn_ltree t) i = None"
    using bump_slot [of "dyn_ltree t" "(k + 257) * 2"] K(2) by auto
  have "slot_at (dyn_dtree t) (j * 2) \<noteq> None" using assms(1) J(2,3) by (simp add: freqs_ok_def)
  then obtain zs where zs: "bump (dyn_dtree t) (j * 2) 1 = Inr zs" "\<And>i. slot_at zs i = None \<longleftrightarrow> slot_at (dyn_dtree t) i = None"
    using bump_slot [of "dyn_dtree t" "j * 2"] J(2) by auto
  have "tally_counts dist lc t = Inr (t\<lparr>dyn_ltree := ys, dyn_dtree := zs\<rparr>)"
    using False K(1) J(1) ys(1) zs(1) by (simp add: tally_counts_def add.commute [of 514])
  moreover have "freqs_ok (t\<lparr>dyn_ltree := ys, dyn_dtree := zs\<rparr>)" using assms(1) ys(2) zs(2) by (simp add: freqs_ok_def)
  ultimately show thesis by (rule that)
qed

lemma extra_dbits_ok: "0 \<le> i \<Longrightarrow> i < 30 \<Longrightarrow> \<exists>x. elem extra_dbits i = Inr x"
  by (auto simp: elem_def arr_at_def extra_dbits_def)

lemma dist_bits_ok: "freqs_ok t \<Longrightarrow> k \<le> 30 \<Longrightarrow> \<exists>n. dist_bits (dyn_dtree t) k m = Inr n"
proof (induction k arbitrary: m)
  case (Suc k)
  have "slot_at (dyn_dtree t) ((30 - int (Suc k)) * 2) \<noteq> None"
    using Suc.prems(2) by (intro freqs_okD [OF Suc.prems(1)]) simp_all
  then obtain f where "slot (dyn_dtree t) ((30 - int (Suc k)) * 2) = Inr f" by (auto simp: slot_def)
  moreover obtain x where "elem extra_dbits (30 - int (Suc k)) = Inr x" using extra_dbits_ok [of "30 - int (Suc k)"] Suc.prems(2) by auto
  ultimately show ?case using Suc.IH Suc.prems by (simp add: Let_def)
qed simp

lemma tr_tally_ok:
  assumes "freqs_ok t" "0 \<le> lc" "lc < 256" "0 \<le> dist" "dist \<le> 32768"
  obtains full l1 t1 o2 where "tr_tally level n dist lc l t o1 = Inr (full, l1, t1, o2)" "freqs_ok t1"
proof -
  obtain t1 where t1: "tally_counts dist lc t = Inr t1" "freqs_ok t1" by (rule tally_counts_ok [OF assms])
  obtain m where "dist_bits (dyn_dtree t1) (nat D_CODES) ((last_lit l + 1) * 8) = Inr m" using dist_bits_ok [OF t1(2), of 30] by auto
  with t1 show thesis using that by (cases "js_and (last_lit l + 1) 0x1fff = 0 \<and> level > 2") (auto simp: tr_tally_def Let_def)
qed

text \<open>One call of \<open>_tr_tally\<close> per symbol; the length of the block so far is given with each.\<close>

fun tally_all :: "int \<Rightarrow> (int \<times> int \<times> int) list \<Rightarrow> lit_buf \<times> trees \<times> out_buf \<Rightarrow> (lit_buf \<times> trees \<times> out_buf) eff" where
  "tally_all level [] (l, t, o1) = Inr (l, t, o1)"
| "tally_all level ((n, dist, lc) # ss) (l, t, o1) =
     ebind (tr_tally level n dist lc l t o1) (\<lambda>(full, l1, t1, o2). tally_all level ss (l1, t1, o2))"

definition symbols_ok :: "(int \<times> int) list \<Rightarrow> bool" where
  "symbols_ok syms \<longleftrightarrow> (\<forall>(dist, lc) \<in> set syms. 0 \<le> lc \<and> lc < 256 \<and> 0 \<le> dist \<and> dist \<le> 32768)"

lemma tally_all_in_place:
  assumes "in_place l (pending_buf o1) 0 syms" "last_lit l = int (length syms)" "freqs_ok t" "symbols_ok (map snd ss)"
    "places_ok l (pending_buf o1) (last_lit l + int (length ss))"
  shows "\<exists>l1 t1 o2. tally_all level ss (l, t, o1) = Inr (l1, t1, o2) \<and> in_place l1 (pending_buf o2) 0 (syms @ map snd ss) \<and>
    last_lit l1 = int (length (syms @ map snd ss)) \<and> d_buf l1 = d_buf l \<and> l_buf l1 = l_buf l \<and>
    pending o2 = pending o1 \<and> bi_buf o2 = bi_buf o1 \<and> bi_valid o2 = bi_valid o1 \<and> pending_out o2 = pending_out o1 \<and>
    length (pending_buf o2) = length (pending_buf o1) \<and> take (nat (d_buf l)) (pending_buf o2) = take (nat (d_buf l)) (pending_buf o1)"
  using assms
proof (induction ss arbitrary: syms l t o1)
  case Nil
  then show ?case by simp
next
  case (Cons s ss)
  obtain n dist lc where s: "s = (n, dist, lc)" by (cases s)
  have r: "0 \<le> lc" "lc < 256" "0 \<le> dist" "dist \<le> 32768" using Cons.prems(4) by (simp_all add: symbols_ok_def s)
  obtain full l1 t1 o2 where t: "tr_tally level n dist lc l t o1 = Inr (full, l1, t1, o2)" "freqs_ok t1"
    by (rule tr_tally_ok [OF Cons.prems(3) r])
  have p: "places_ok l (pending_buf o1) (last_lit l + 1)" using Cons.prems(5) by (simp add: places_ok_def)
  have "dist < 65536" using r(4) by simp
  note i = tr_tally_in_place [OF t(1) Cons.prems(1,2) p r(3) this r(1,2)]
  have o2: "pending_out o2 = pending_out o1" "take (nat (d_buf l)) (pending_buf o2) = take (nat (d_buf l)) (pending_buf o1)"
    using t(1) p Cons.prems(2)
    by (auto simp: tr_tally_def Let_def ebind_Inr_iff arr_put_def take_update_cancel places_ok_def)
  have "places_ok l1 (pending_buf o2) (last_lit l1 + int (length ss))"
    using Cons.prems(2,5) by (simp add: places_ok_def i)
  from Cons.IH [OF i(1,2) t(2) _ this] Cons.prems(4) obtain l2 t2 o3 where
    "tally_all level ss (l1, t1, o2) = Inr (l2, t2, o3)" "in_place l2 (pending_buf o3) 0 ((syms @ [(dist, lc)]) @ map snd ss)"
    "last_lit l2 = int (length ((syms @ [(dist, lc)]) @ map snd ss))" "d_buf l2 = d_buf l1" "l_buf l2 = l_buf l1"
    "pending o3 = pending o2" "bi_buf o3 = bi_buf o2" "bi_valid o3 = bi_valid o2" "pending_out o3 = pending_out o2"
    "length (pending_buf o3) = length (pending_buf o2)" "take (nat (d_buf l1)) (pending_buf o3) = take (nat (d_buf l1)) (pending_buf o2)"
    by (auto simp: symbols_ok_def)
  then show ?case using t(1) i o2 by (simp add: s)
qed

text \<open>The bits sent before are still there.\<close>

lemma sent_cong:
  assumes "pending o2 = pending o1" "bi_buf o2 = bi_buf o1" "bi_valid o2 = bi_valid o1" "take n (pending_buf o2) = take n (pending_buf o1)"
    "length (pending_buf o2) = length (pending_buf o1)" "nat (pending o1) \<le> n"
  shows "sent o2 = sent o1" "bits_ok o2 = bits_ok o1"
proof -
  have "take (nat (pending o1)) (pending_buf o2) = take (nat (pending o1)) (pending_buf o1)"
    using assms(4,6) by (metis min.absorb1 take_take)
  then show "sent o2 = sent o1" using assms by (simp add: sent_def)
  show "bits_ok o2 = bits_ok o1" using assms by (simp add: bits_ok_def)
qed

section \<open>Headers and ends of blocks\<close>

lemma static_eob: "code_ok static_l 256" "length (code_bits static_l 256) = 7" "slot static_l 513 = Inr 7"
proof -
  show "code_ok static_l 256" by (rule static_l_code(2)) simp_all
  show "length (code_bits static_l 256) = 7" by (simp add: static_l_code(1) fixed_code_def)
  have "length static_ltree = 576" unfolding static_ltree_rows length_pairs by simp
  moreover have "static_ltree ! Suc (2 * 256) = 7"
  proof -
    have i: "256 < length [0..287 :: int]" "[0..287 :: int] ! 256 = 256" by simp_all
    from pairs_nth(2) [OF i(1), of "\<lambda>s. rev_bits (nat (fst (fixed_code s))) (snd (fixed_code s))" "\<lambda>s. fst (fixed_code s)"]
    show ?thesis unfolding static_ltree_rows i(2) by (simp add: fixed_code_def)
  qed
  ultimately show "slot static_l 513 = Inr 7" by (simp add: slot_def slot_at_def arr_at_def)
qed

text \<open>The bits of the header of a block with fixed codes.\<close>

lemma header_sends:
  assumes "room_for o1 3"
  shows "sends o1 [eof, True, False] (send_bits (js_shl STATIC_TREES 1 + (if eof then 1 else 0)) 3 o1)"
proof -
  have e: "js_shl STATIC_TREES 1 + (if eof then 1 else 0) = (if eof then 3 else 2 :: int)" by (simp add: js_shl_small)
  have "bits_of (nat 3) (if eof then 3 else 2) = [eof, True, False]" by (cases eof) (simp_all add: bits_of_def upt_rec)
  then show ?thesis unfolding e using send_bits_sends [OF assms, of "if eof then 3 else 2"] by simp
qed

lemma dynamic_header_sends:
  assumes "room_for o1 3"
  shows "sends o1 [eof, False, True] (send_bits (js_shl DYN_TREES 1 + (if eof then 1 else 0)) 3 o1)"
proof -
  have e: "js_shl DYN_TREES 1 + (if eof then 1 else 0) = (if eof then 5 else 4 :: int)" by (simp add: js_shl_small)
  have "bits_of (nat 3) (if eof then 5 else 4) = [eof, False, True]" by (cases eof) (simp_all add: bits_of_def upt_rec)
  then show ?thesis unfolding e using send_bits_sends [OF assms, of "if eof then 5 else 4"] by simp
qed

text \<open>The symbols of a block, noted one after the other from its start on.\<close>

lemma tally_block:
  assumes "init_block t0 l0 = (t, l)" "bits_ok o1" "symbols_ok (map snd ss)"
    "places_ok l (pending_buf o1) (int (length ss))" "int (length (sent o1)) \<le> 8 * d_buf l"
  obtains l1 t1 o2 where "tally_all lev ss (l, t, o1) = Inr (l1, t1, o2)" "in_place l1 (pending_buf o2) 0 (map snd ss)"
    "last_lit l1 = int (length ss)" "d_buf l1 = d_buf l" "l_buf l1 = l_buf l"
    "sent o2 = sent o1" "bits_ok o2" "length (pending_buf o2) = length (pending_buf o1)"
proof -
  have l: "last_lit l = 0" "freqs_ok t" using init_block_freqs [of t0 l0] assms(1) by simp_all
  have "places_ok l (pending_buf o1) (last_lit l + int (length ss))" using assms(4) by (simp add: l(1))
  from tally_all_in_place [of l o1 "[]", OF _ _ l(2) assms(3) this, of lev] l(1) obtain l1 t1 o2 where
    t: "tally_all lev ss (l, t, o1) = Inr (l1, t1, o2)" "in_place l1 (pending_buf o2) 0 (map snd ss)" "last_lit l1 = int (length ss)"
      "d_buf l1 = d_buf l" "l_buf l1 = l_buf l" and
    o2: "pending o2 = pending o1" "bi_buf o2 = bi_buf o1" "bi_valid o2 = bi_valid o1"
      "length (pending_buf o2) = length (pending_buf o1)" "take (nat (d_buf l)) (pending_buf o2) = take (nat (d_buf l)) (pending_buf o1)"
    by (auto simp: in_place_def)
  have "8 * pending o1 \<le> 8 * d_buf l" using assms(5) length_sent [OF assms(2)] assms(2) by (simp add: bits_ok_def)
  then have "nat (pending o1) \<le> nat (d_buf l)" by simp
  then have "sent o2 = sent o1" "bits_ok o2 = bits_ok o1" by (rule sent_cong [OF o2(1-3,5,4)])+
  with t o2(4) assms(2) show thesis using that by simp
qed

text \<open>The symbols of a block are noted, and there is room for so many.\<close>

definition block_noted :: "(int \<times> int) list \<Rightarrow> lit_buf \<Rightarrow> out_buf \<Rightarrow> bool" where
  "block_noted syms l o1 \<longleftrightarrow> in_place l (pending_buf o1) 0 syms \<and> last_lit l = int (length syms) \<and> bits_ok o1 \<and>
     places_ok l (pending_buf o1) (int (length syms) + 2)"

lemma noted_later:
  assumes "block_noted syms l o1" "sends o1 bs o2" "int (length (sent o2)) \<le> 8 * d_buf l"
  shows "block_noted syms l o2"
proof -
  have o2: "bits_ok o2" "grows o1 o2" using assms(2) by (simp_all add: sends_def)
  have "8 * pending o2 \<le> 8 * d_buf l" using assms(3) length_sent [OF o2(1)] o2(1) by (simp add: bits_ok_def)
  then have "in_place l (pending_buf o2) 0 syms"
    using assms(1) in_place_grows [OF o2(2), of l 0 syms] o2(1) by (simp add: block_noted_def places_ok_def bits_ok_def)
  then show ?thesis using assms(1) o2 by (simp add: block_noted_def places_ok_def grows_def)
qed

end
