(* ===== verification/Defl_Codes.thy ===== *)
theory Defl_Codes
  imports Defl_Symbols
begin

text \<open>
  The codes that \<open>gen_codes\<close> of \<^verbatim>\<open>html/lib/deflate.js\<close> gives to symbols of given lengths are those of
  RFC 1951, 3.2.2, and no code word starts another one, provided the lengths satisfy the inequality
  of Kraft.
\<close>

section \<open>Canonical codes\<close>

text \<open>The first code of length \<open>b\<close>, for lengths \<open>L m\<close> of the symbols below \<open>n\<close>; length 0 is no code.\<close>

definition first_code :: "(nat \<Rightarrow> nat) \<Rightarrow> nat \<Rightarrow> nat \<Rightarrow> int" where
  "first_code L n b = (\<Sum>m | m < n \<and> 0 < L m \<and> L m < b. 2 ^ (b - L m))"

definition number_of :: "(nat \<Rightarrow> nat) \<Rightarrow> nat \<Rightarrow> nat \<Rightarrow> int" where
  "number_of L n b = int (card {m. m < n \<and> L m = b})"

definition kraft_ok :: "(nat \<Rightarrow> nat) \<Rightarrow> nat \<Rightarrow> bool" where
  "kraft_ok L n \<longleftrightarrow> (\<forall>m < n. L m \<le> 15) \<and> (\<Sum>m | m < n \<and> 0 < L m. 2 ^ (15 - L m)) \<le> (2 :: int) ^ 15"

definition code_word :: "(nat \<Rightarrow> nat) \<Rightarrow> nat \<Rightarrow> nat \<Rightarrow> int" where
  "code_word L n s = first_code L n (L s) + number_of L s (L s)"

lemma first_code_next: "1 \<le> b \<Longrightarrow> first_code L n b + number_of L n b = (\<Sum>m | m < n \<and> 0 < L m \<and> L m \<le> b. 2 ^ (b - L m))"
proof -
  assume b: "1 \<le> b"
  have e: "{m. m < n \<and> 0 < L m \<and> L m \<le> b} = {m. m < n \<and> 0 < L m \<and> L m < b} \<union> {m. m < n \<and> L m = b}" using b by auto
  have "(\<Sum>m | m < n \<and> 0 < L m \<and> L m \<le> b. 2 ^ (b - L m)) = first_code L n b + (\<Sum>m | m < n \<and> L m = b. (2 :: int) ^ (b - L m))"
    unfolding e first_code_def by (rule sum.union_disjoint) auto
  also have "(\<Sum>m | m < n \<and> L m = b. (2 :: int) ^ (b - L m)) = number_of L n b" by (simp add: number_of_def)
  finally show ?thesis ..
qed

lemma first_code_Suc: "1 \<le> b \<Longrightarrow> first_code L n (Suc b) = 2 * (first_code L n b + number_of L n b)"
proof -
  assume b: "1 \<le> b"
  have "first_code L n (Suc b) = (\<Sum>m | m < n \<and> 0 < L m \<and> L m \<le> b. 2 * 2 ^ (b - L m))"
    unfolding first_code_def by (rule sum.cong) (auto simp: less_Suc_eq_le Suc_diff_le)
  then show ?thesis unfolding first_code_next [OF b] by (simp add: sum_distrib_left)
qed

lemma first_code_1 [simp]: "first_code L n (Suc 0) = 0"
  by (auto simp: first_code_def)

lemma first_code_nonneg: "0 \<le> first_code L n b"
  by (simp add: first_code_def sum_nonneg)

lemma shift_sum:
  "(\<Sum>m | m < n \<and> 0 < L m \<and> L m \<le> b. 2 ^ (b - L m)) * 2 ^ k = (\<Sum>m | m < n \<and> 0 < L m \<and> L m \<le> b. (2 :: int) ^ (b + k - L m))"
  unfolding sum_distrib_right by (rule sum.cong) (auto simp flip: power_add)

lemma codes_fit:
  assumes "kraft_ok L n" "1 \<le> b" "b \<le> 15"
  shows "first_code L n b + number_of L n b \<le> 2 ^ b"
proof -
  have "(first_code L n b + number_of L n b) * 2 ^ (15 - b) = (\<Sum>m | m < n \<and> 0 < L m \<and> L m \<le> b. 2 ^ (15 - L m))"
    using assms(3) shift_sum [where n = n and L = L and b = b and k = "15 - b"] by (simp add: first_code_next [OF assms(2)])
  also have "\<dots> \<le> (\<Sum>m | m < n \<and> 0 < L m. 2 ^ (15 - L m))" by (rule sum_mono2) auto
  also have "\<dots> \<le> 2 ^ 15" using assms(1) by (simp add: kraft_ok_def)
  also have "(2 :: int) ^ 15 = 2 ^ b * 2 ^ (15 - b)" using assms(3) by (simp flip: power_add)
  finally show ?thesis by simp
qed

lemma number_less: "s < n \<Longrightarrow> number_of L s (L s) < number_of L n (L s)"
proof -
  assume "s < n"
  then have "{m. m < s \<and> L m = L s} \<subset> {m. m < n \<and> L m = L s}" by auto
  from psubset_card_mono [OF _ this] show ?thesis by (simp add: number_of_def)
qed

lemma code_word_range:
  assumes "kraft_ok L n" "s < n" "0 < L s"
  shows "0 \<le> code_word L n s" "code_word L n s < first_code L n (L s) + number_of L n (L s)" "code_word L n s < 2 ^ L s"
proof -
  show "0 \<le> code_word L n s" using first_code_nonneg by (simp add: code_word_def number_of_def)
  show l: "code_word L n s < first_code L n (L s) + number_of L n (L s)"
    using number_less [OF assms(2)] by (simp add: code_word_def)
  have "L s \<le> 15" using assms by (simp add: kraft_ok_def)
  with l codes_fit [OF assms(1), of "L s"] assms(3) show "code_word L n s < 2 ^ L s" by simp
qed

lemma code_word_inj:
  assumes "L s = L s'" "code_word L n s = code_word L n s'"
  shows "s = s'"
proof -
  have "number_of L s (L s) = number_of L s' (L s)" using assms by (simp add: code_word_def)
  moreover have "number_of L s (L s) < number_of L s' (L s)" if "s < s'" using number_less [OF that] by simp
  moreover have "number_of L s' (L s) < number_of L s (L s)" if "s' < s" using number_less [OF that, of L] assms(1) by simp
  ultimately show ?thesis by (metis less_irrefl nat_neq_iff)
qed

text \<open>No code word, most significant bit first, starts another one.\<close>

lemma code_words_prefix_free:
  assumes "kraft_ok L n" "s < n" "0 < L s" "s' < n" "0 < L s'"
    "prefix (rev (bits_of (L s) (code_word L n s))) (rev (bits_of (L s') (code_word L n s')))"
  shows "s = s'"
proof -
  note r = code_word_range [OF assms(1-3)] and r' = code_word_range [OF assms(1,4,5)]
  note p = prefix_code [OF assms(6) r(1,3) r'(1,3)]
  show ?thesis
  proof (cases "L s = L s'")
    case True
    have "code_word L n s = code_word L n s'" using p(2) unfolding True by simp
    with True show ?thesis by (rule code_word_inj)
  next
    case False
    then have less: "L s < L s'" using p(1) by simp
    let ?d = "L s' - L s"
    have "(first_code L n (L s) + number_of L n (L s)) * 2 ^ ?d = (\<Sum>m | m < n \<and> 0 < L m \<and> L m \<le> L s. 2 ^ (L s' - L m))"
      using less assms(3) shift_sum [where n = n and L = L and b = "L s" and k = ?d] first_code_next [of "L s" L n] by simp
    also have "\<dots> \<le> first_code L n (L s')" unfolding first_code_def using less by (intro sum_mono2) auto
    also have "\<dots> \<le> code_word L n s'" by (simp add: code_word_def number_of_def)
    finally have "(first_code L n (L s) + number_of L n (L s)) * 2 ^ ?d div 2 ^ ?d \<le> code_word L n s' div 2 ^ ?d"
      by (rule zdiv_mono1) simp
    then have "first_code L n (L s) + number_of L n (L s) \<le> code_word L n s' div 2 ^ ?d" by simp
    then show ?thesis using p(2) r(2) by simp
  qed
qed

section \<open>Reversing the bits\<close>

lemma even_or_bit: "even r \<Longrightarrow> r OR (c mod 2) = r + c mod (2 :: int)"
  by (subst disjunctive_add) (auto simp: bit_simps bit_0 simp flip: take_bit_eq_mod [of 1, simplified])

lemma reverse_step:
  assumes "0 \<le> r" "even r" "r < 65536"
  shows "js_shl (js_or r (js_and c 1)) 1 = 2 * (r + c mod 2)"
proof -
  have "js_or r (js_and c 1) = r + c mod 2" using assms by (simp add: js_or_small even_or_bit)
  moreover have "0 \<le> r + c mod 2" "r + c mod 2 < 65537" using assms by simp_all
  ultimately show ?thesis by (simp add: js_shl_small)
qed

lemma even_less: "even r \<Longrightarrow> r < p \<Longrightarrow> even p \<Longrightarrow> r + c mod 2 < (p :: int)"
  by presburger

lemma reverse_loop_bits:
  assumes "0 \<le> c" "c < 65536" "0 \<le> r" "even r" "r < 2 ^ (16 - k)" "k < 16"
  shows "reverse_loop c (int (Suc k)) r = r * 2 ^ Suc k + 2 * rev_bits (Suc k) c"
  using assms
proof (induction k arbitrary: c r)
  case (0 c r)
  then show ?case using reverse_step [of r c] by (subst reverse_loop.simps) simp
next
  case (Suc k c r)
  have "(2 :: int) ^ (16 - Suc k) \<le> 2 ^ 16" by (rule power_increasing) simp_all
  then have r: "r < 65536" using Suc.prems(5) by simp
  have "js_ushr c 1 = c div 2" using Suc.prems(1,2) by (simp add: js_ushr_small)
  then have step: "reverse_loop c (int (Suc (Suc k))) r = reverse_loop (c div 2) (int (Suc k)) (2 * (r + c mod 2))"
    using reverse_step [OF Suc.prems(3,4) r] by (subst reverse_loop.simps) simp
  have "r + c mod 2 < 2 ^ (16 - Suc k)"
  proof -
    have "even ((2 :: int) ^ (16 - Suc k))" using Suc.prems(6) by simp
    then show ?thesis by (rule even_less [OF Suc.prems(4,5)])
  qed
  moreover have "16 - k = Suc (16 - Suc k)" using Suc.prems(6) by simp
  ultimately have small: "2 * (r + c mod 2) < 2 ^ (16 - k)" by (simp only: power_Suc) simp
  show ?case unfolding step using Suc.IH [of "c div 2" "2 * (r + c mod 2)"] Suc.prems small by (simp add: algebra_simps)
qed

lemma bi_reverse_bits:
  assumes "0 < l" "l \<le> 15" "0 \<le> c" "c < 2 ^ l"
  shows "bi_reverse c (int l) = rev_bits l c"
proof -
  obtain k where k: "l = Suc k" using assms(1) gr0_implies_Suc by blast
  have "(2 :: int) ^ l \<le> 2 ^ 15" using assms(2) by (rule power_increasing) simp
  then have "c < 65536" using assms(4) by simp
  then have "reverse_loop c (int (Suc k)) 0 = 2 * rev_bits (Suc k) c"
    using reverse_loop_bits [of c 0 k] assms(2,3) by (simp add: k)
  moreover have "0 \<le> rev_bits l c" "rev_bits l c < 32768"
    using rev_bits_bound [of l c] \<open>2 ^ l \<le> 2 ^ 15\<close> by simp_all
  ultimately show ?thesis unfolding bi_reverse_def k by (simp add: js_ushr_small del: rev_bits.simps)
qed

section \<open>gen_codes\<close>

definition counts :: "(nat \<Rightarrow> nat) \<Rightarrow> nat \<Rightarrow> slots \<Rightarrow> bool" where
  "counts L n c \<longleftrightarrow> slot_at c 0 = Some 0 \<and> (\<forall>b. 1 \<le> b \<and> b \<le> 15 \<longrightarrow> slot_at c (int b) = Some (number_of L n b))"

definition first_from :: "(nat \<Rightarrow> nat) \<Rightarrow> nat \<Rightarrow> nat \<Rightarrow> int" where
  "first_from L n b = (if b = 0 then 0 else first_code L n b)"

lemma next_codes_first:
  assumes "kraft_ok L n" "counts L n c" "b + k \<le> 15"
  shows "\<exists>nc1. next_codes k (int (Suc b)) (first_from L n b) c nc = Inr nc1 \<and>
    (\<forall>j. slot_at nc1 (int j) = (if b < j \<and> j \<le> b + k then Some (first_code L n j) else slot_at nc (int j)))"
  using assms(3)
proof (induction k arbitrary: b nc)
  case (Suc k)
  define m where "m = (if b = 0 then 0 else number_of L n b)"
  have c: "slot_at c (int b) = Some m" using assms(2) Suc.prems by (simp add: counts_def m_def)
  have e: "2 * (first_from L n b + m) = first_from L n (Suc b)"
    using first_code_Suc [of b L n] by (simp add: first_from_def m_def)
  have "first_from L n b + m \<le> 2 ^ b"
    using codes_fit [OF assms(1), of b] Suc.prems by (simp add: first_from_def m_def)
  also have "\<dots> \<le> (2 :: int) ^ 15" using Suc.prems by (intro power_increasing) simp_all
  finally have "first_from L n b + m \<le> 32768" by simp
  moreover have "0 \<le> first_from L n b + m" using first_code_nonneg [of L n b] by (simp add: first_from_def m_def number_of_def)
  ultimately have shl: "js_shl (first_from L n b + m) 1 = first_from L n (Suc b)" using e by (simp add: js_shl_small)
  have fc: "first_from L n (Suc b) = first_code L n (Suc b)" by (simp add: first_from_def)
  have step: "next_codes (Suc k) (int (Suc b)) (first_from L n b) c nc =
      next_codes k (int (Suc (Suc b))) (first_from L n (Suc b)) c (put_slot nc (int (Suc b)) (first_code L n (Suc b)))"
    using c shl by (simp add: slot_def fc [symmetric] add.commute Let_def)
  have "Suc b + k \<le> 15" using Suc.prems by simp
  from Suc.IH [OF this, of "put_slot nc (int (Suc b)) (first_code L n (Suc b))"] obtain nc1 where
    "next_codes k (int (Suc (Suc b))) (first_from L n (Suc b)) c (put_slot nc (int (Suc b)) (first_code L n (Suc b))) = Inr nc1"
    "\<And>j. slot_at nc1 (int j) = (if Suc b < j \<and> j \<le> Suc b + k then Some (first_code L n j)
      else slot_at (put_slot nc (int (Suc b)) (first_code L n (Suc b))) (int j))" by blast
  moreover have "int j = int (Suc b) \<longleftrightarrow> j = Suc b" for j by (rule of_nat_eq_iff)
  ultimately show ?case unfolding step by (intro exI [of _ nc1]) (auto simp: slot_at_put simp del: of_nat_Suc)
qed auto

definition lens_are :: "(nat \<Rightarrow> nat) \<Rightarrow> nat \<Rightarrow> slots \<Rightarrow> bool" where
  "lens_are L n t \<longleftrightarrow> (\<forall>i < n. slot_at t (int i * 2 + 1) = Some (int (L i)))"

lemma number_of_Suc: "number_of L (Suc m) b = number_of L m b + (if L m = b then 1 else 0)"
proof -
  have "{i. i < Suc m \<and> L i = b} = (if L m = b then insert m {i. i < m \<and> L i = b} else {i. i < m \<and> L i = b})"
    by (auto simp: less_Suc_eq)
  then show ?thesis by (simp add: number_of_def)
qed

lemma assign_codes_words:
  assumes "kraft_ok L n" "lens_are L n t" "m + k = n"
    "\<forall>b. 1 \<le> b \<and> b \<le> 15 \<longrightarrow> slot_at nc (int b) = Some (first_code L n b + number_of L m b)"
  shows "\<exists>t1. assign_codes k (int m) nc t = Inr t1 \<and>
    (\<forall>i. m \<le> i \<and> i < n \<and> 0 < L i \<longrightarrow> slot_at t1 (int i * 2) = Some (rev_bits (L i) (code_word L n i))) \<and>
    (\<forall>j. (\<forall>i. m \<le> i \<and> i < n \<and> 0 < L i \<longrightarrow> j \<noteq> int i * 2) \<longrightarrow> slot_at t1 j = slot_at t j)"
  using assms(2-4)
proof (induction k arbitrary: m nc t)
  case (Suc k)
  have m: "m < n" "Suc m + k = n" using Suc.prems(2) by simp_all
  have len: "slot t (int m * 2 + 1) = Inr (int (L m))" using Suc.prems(1) m(1) by (simp add: lens_are_def slot_def)
  show ?case
  proof (cases "L m = 0")
    case True
    have "\<forall>b. 1 \<le> b \<and> b \<le> 15 \<longrightarrow> slot_at nc (int b) = Some (first_code L n b + number_of L (Suc m) b)"
      using Suc.prems(3) True by (simp add: number_of_Suc)
    from Suc.IH [OF Suc.prems(1) m(2) this] obtain t1 where t1: "assign_codes k (int (Suc m)) nc t = Inr t1"
      "\<forall>i. Suc m \<le> i \<and> i < n \<and> 0 < L i \<longrightarrow> slot_at t1 (int i * 2) = Some (rev_bits (L i) (code_word L n i))"
      "\<forall>j. (\<forall>i. Suc m \<le> i \<and> i < n \<and> 0 < L i \<longrightarrow> j \<noteq> int i * 2) \<longrightarrow> slot_at t1 j = slot_at t j" by blast
    have "assign_codes (Suc k) (int m) nc t = Inr t1" using len True t1(1) by (simp add: add.commute)
    moreover have ge: "m \<le> i \<and> 0 < L i \<longleftrightarrow> Suc m \<le> i \<and> 0 < L i" for i using True by (cases "i = m") auto
    ultimately show ?thesis using t1(2,3) by (intro exI [of _ t1]) (metis ge)
  next
    case False
    have L: "1 \<le> L m" "L m \<le> 15" using False assms(1) m(1) by (auto simp: kraft_ok_def)
    define w where "w = code_word L n m"
    have nc: "slot nc (int (L m)) = Inr w" using Suc.prems(3) L by (simp add: slot_def w_def code_word_def)
    have wr: "0 \<le> w" "w < 2 ^ L m" using code_word_range [OF assms(1) m(1)] L by (simp_all add: w_def)
    let ?nc = "put_slot nc (int (L m)) (w + 1)" and ?t = "put_slot t (int m * 2) (rev_bits (L m) w)"
    have "lens_are L n ?t" using Suc.prems(1) by (auto simp: lens_are_def slot_at_put) presburger
    moreover have "\<forall>b. 1 \<le> b \<and> b \<le> 15 \<longrightarrow> slot_at ?nc (int b) = Some (first_code L n b + number_of L (Suc m) b)"
      using Suc.prems(3) by (auto simp: slot_at_put number_of_Suc w_def code_word_def)
    ultimately obtain t1 where t1: "assign_codes k (int (Suc m)) ?nc ?t = Inr t1"
      "\<forall>i. Suc m \<le> i \<and> i < n \<and> 0 < L i \<longrightarrow> slot_at t1 (int i * 2) = Some (rev_bits (L i) (code_word L n i))"
      "\<forall>j. (\<forall>i. Suc m \<le> i \<and> i < n \<and> 0 < L i \<longrightarrow> j \<noteq> int i * 2) \<longrightarrow> slot_at t1 j = slot_at ?t j"
      using Suc.IH [of ?t "Suc m" ?nc] m(2) by blast
    have "bi_reverse w (int (L m)) = rev_bits (L m) w" using L wr by (intro bi_reverse_bits) simp_all
    then have "assign_codes (Suc k) (int m) nc t = Inr t1" using len nc False t1(1) by (simp add: add.commute)
    moreover have "slot_at t1 (int m * 2) = Some (rev_bits (L m) w)" using t1(3) by (simp add: slot_at_put)
    moreover have "slot_at t1 j = slot_at t j" if "\<forall>i. m \<le> i \<and> i < n \<and> 0 < L i \<longrightarrow> j \<noteq> int i * 2" for j
    proof -
      have "j \<noteq> int m * 2" using that m(1) L by auto
      then show ?thesis using t1(3) that by (simp add: slot_at_put)
    qed
    moreover have "slot_at t1 (int i * 2) = Some (rev_bits (L i) (code_word L n i))" if "m \<le> i" "i < n" "0 < L i" for i
      using t1(2) that \<open>slot_at t1 (int m * 2) = _\<close> by (cases "i = m") (simp_all add: w_def)
    ultimately show ?thesis by blast
  qed
qed auto

lemma gen_codes_words:
  assumes "kraft_ok L n" "lens_are L n t" "counts L n c"
  obtains t1 where "gen_codes t (int n - 1) c = Inr t1"
    "\<And>i. i < n \<Longrightarrow> 0 < L i \<Longrightarrow> slot_at t1 (int i * 2) = Some (rev_bits (L i) (code_word L n i))"
    "\<And>j. (\<And>i. i < n \<Longrightarrow> j \<noteq> int i * 2) \<Longrightarrow> slot_at t1 j = slot_at t j"
proof -
  from next_codes_first [OF assms(1,3), of 0 15 "[]"] obtain nc where
    nc: "next_codes 15 1 0 c [] = Inr nc" "\<forall>j. 0 < j \<and> j \<le> 15 \<longrightarrow> slot_at nc (int j) = Some (first_code L n j)"
    by (auto simp: first_from_def)
  have "\<forall>b. 1 \<le> b \<and> b \<le> 15 \<longrightarrow> slot_at nc (int b) = Some (first_code L n b + number_of L 0 b)"
    using nc(2) by (simp add: number_of_def)
  from assign_codes_words [OF assms(1,2), of 0 n nc] this obtain t1 where
    "assign_codes n 0 nc t = Inr t1" "\<forall>i. i < n \<and> 0 < L i \<longrightarrow> slot_at t1 (int i * 2) = Some (rev_bits (L i) (code_word L n i))"
    "\<forall>j. (\<forall>i. i < n \<and> 0 < L i \<longrightarrow> j \<noteq> int i * 2) \<longrightarrow> slot_at t1 j = slot_at t j" by auto
  moreover have "gen_codes t (int n - 1) c = assign_codes n 0 nc t" using nc(1) by (simp add: gen_codes_def)
  ultimately show thesis by (intro that [of t1]) auto
qed

text \<open>The code of RFC 1951, 3.2.2, for the symbols below \<open>n\<close>.\<close>

definition canonical :: "(nat \<Rightarrow> nat) \<Rightarrow> nat \<Rightarrow> code" where
  "canonical L n = map (\<lambda>i. (rev (bits_of (L i) (code_word L n i)), int i)) (filter (\<lambda>i. 0 < L i) [0..<n])"

lemma canonical_mem: "x \<in> set (canonical L n) \<longleftrightarrow> (\<exists>i < n. 0 < L i \<and> x = (rev (bits_of (L i) (code_word L n i)), int i))"
  by (auto simp: canonical_def)

lemma canonical_prefix_free:
  assumes "kraft_ok L n"
  shows "prefix_free (canonical L n)"
  unfolding prefix_free_def
proof (intro ballI impI)
  fix x y assume "x \<in> set (canonical L n)" "y \<in> set (canonical L n)" and p: "prefix (fst x) (fst y)"
  then obtain i j where
    x: "i < n" "0 < L i" "x = (rev (bits_of (L i) (code_word L n i)), int i)" and
    y: "j < n" "0 < L j" "y = (rev (bits_of (L j) (code_word L n j)), int j)" by (auto simp: canonical_mem)
  with p have "i = j" by (intro code_words_prefix_free [OF assms]) simp_all
  with x(3) y(3) show "x = y" by simp
qed

text \<open>Symbols without a code at the end make no difference.\<close>

lemma canonical_more:
  assumes "n \<le> m" "\<And>i. n \<le> i \<Longrightarrow> L i = 0"
  shows "canonical L m = canonical L n"
proof -
  have "{i. i < m \<and> 0 < L i \<and> L i < b} = {i. i < n \<and> 0 < L i \<and> L i < b}" for b
    using assms by (metis less_imp_not_less less_le_trans linorder_not_less)
  then have "code_word L m i = code_word L n i" for i by (simp add: code_word_def first_code_def)
  moreover have "filter (\<lambda>i. 0 < L i) [0..<m] = filter (\<lambda>i. 0 < L i) [0..<n]"
  proof -
    have "[0..<m] = [0..<n] @ [n..<m]" using upt_add_eq_append [of 0 n "m - n"] assms(1) by simp
    then show ?thesis using assms(2) by (simp add: filter_empty_conv)
  qed
  ultimately show ?thesis by (simp add: canonical_def)
qed

text \<open>
  \<open>gen_codes\<close> makes a tree canonical. Symbols from \<open>n\<close> on have no code; the length of one of them may
  hold the mark \<open>0xffff\<close> that \<open>scan_tree\<close> sets.
\<close>

definition tree_has :: "(nat \<Rightarrow> nat) \<Rightarrow> nat \<Rightarrow> nat \<Rightarrow> slots \<Rightarrow> bool" where
  "tree_has L n k t \<longleftrightarrow> kraft_ok L n \<and> (\<forall>i \<ge> n. L i = 0) \<and> lens_are L n t \<and>
     (\<forall>i < n. 0 < L i \<longrightarrow> slot_at t (int i * 2) = Some (rev_bits (L i) (code_word L n i))) \<and>
     (\<forall>i < k. n \<le> i \<longrightarrow> slot_at t (int i * 2 + 1) \<in> {Some 0, Some 0xffff})"

lemma tree_has_code:
  assumes "tree_has L n k t" "i < n" "0 < L i"
  shows "code_bits t (int i) = rev (bits_of (L i) (code_word L n i))" "code_ok t (int i)"
proof -
  note h = assms(1) [unfolded tree_has_def]
  have len: "slot_at t (int i * 2 + 1) = Some (int (L i))" using h assms(2) by (simp add: lens_are_def)
  have "L i \<le> 15" using h assms(2) by (simp add: kraft_ok_def)
  then have l: "low16 t (int i * 2 + 1) = int (L i)" by (simp add: low16_def len or_zero_def)
  have c: "slot_at t (int i * 2) = Some (rev_bits (L i) (code_word L n i))" using h assms(2,3) by simp
  have "(2 :: int) ^ L i \<le> 2 ^ 15" using \<open>L i \<le> 15\<close> by (rule power_increasing) simp
  then have w: "low16 t (int i * 2) = rev_bits (L i) (code_word L n i)"
    using rev_bits_bound [of "L i" "code_word L n i"] by (simp add: low16_def c or_zero_def)
  show "code_bits t (int i) = rev (bits_of (L i) (code_word L n i))"
    by (simp add: code_bits_def w l bits_of_rev_bits)
  show "code_ok t (int i)"
    using assms(3) \<open>L i \<le> 15\<close> rev_bits_bound [of "L i" "code_word L n i"] by (simp add: code_ok_def w l)
qed

lemma tree_has_covers:
  assumes "tree_has L n k t"
  shows "covers k t (canonical L n)"
  unfolding covers_def
proof (intro allI impI)
  fix c assume c: "code_ok t c \<and> 0 \<le> c \<and> c < int k"
  note h = assms [unfolded tree_has_def]
  have i: "int (nat c) = c" using c by simp
  have l: "0 < low16 t (c * 2 + 1)" "low16 t (c * 2 + 1) \<le> 15" using c by (simp_all add: code_ok_def)
  have n: "nat c < n"
  proof (rule ccontr)
    assume "\<not> nat c < n"
    then have "slot_at t (c * 2 + 1) \<in> {Some 0, Some 0xffff}" using h c i by (metis linorder_not_less nat_less_iff)
    with l show False by (auto simp: low16_def or_zero_def)
  qed
  then have "slot_at t (c * 2 + 1) = Some (int (L (nat c)))" using h i unfolding lens_are_def by metis
  with l(1) have "0 < L (nat c)" by (cases "L (nat c) = 0") (simp_all add: low16_def or_zero_def)
  with tree_has_code(1) [OF assms n] n i show "(code_bits t c, c) \<in> set (canonical L n)"
    unfolding canonical_mem by (intro exI [of _ "nat c"]) simp
qed

lemma tree_has_mark:
  assumes "tree_has L n k t"
  shows "tree_has L n k (put_slot t (int n * 2 + 1) 0xffff)"
proof -
  have "int i * 2 \<noteq> int n * 2 + 1" for i by presburger
  then show ?thesis using assms by (auto simp: tree_has_def lens_are_def slot_at_put)
qed

lemma gen_codes_canonical:
  assumes "kraft_ok L n" "\<forall>i \<ge> n. L i = 0" "n \<le> k" "lens_are L k t" "counts L n c"
  obtains t1 where "gen_codes t (int n - 1) c = Inr t1" "tree_has L n k t1" "lens_are L k t1"
proof -
  have "lens_are L n t" using assms(3,4) by (simp add: lens_are_def)
  from gen_codes_words [OF assms(1) this assms(5)] obtain t1 where t1: "gen_codes t (int n - 1) c = Inr t1"
    "\<And>i. i < n \<Longrightarrow> 0 < L i \<Longrightarrow> slot_at t1 (int i * 2) = Some (rev_bits (L i) (code_word L n i))"
    "\<And>j. (\<And>i. i < n \<Longrightarrow> j \<noteq> int i * 2) \<Longrightarrow> slot_at t1 j = slot_at t j" by blast
  have "slot_at t1 (int i * 2 + 1) = slot_at t (int i * 2 + 1)" for i by (rule t1(3)) presburger
  then have l: "lens_are L k t1" using assms(4) by (simp add: lens_are_def)
  then have "tree_has L n k t1" using assms(1-3) t1(2) by (simp add: tree_has_def lens_are_def)
  with t1(1) l show thesis using that by blast
qed

end
