(* ===== verification/Defl_Heap.thy ===== *)
theory Defl_Heap
  imports Defl_Codes
begin

text \<open>
  The heap of \<^verbatim>\<open>html/lib/deflate.js\<close>: \<open>pqdownheap\<close> ends and only reorders the nodes of the heap, so
  the loop of \<open>build_tree\<close> ends and leaves a binary tree, in which every node but the root has a
  father that stands before it in the list of nodes.
\<close>

section \<open>Sifting down\<close>

text \<open>Positions 1 to \<open>n\<close> of the heap hold the nodes of \<open>A\<close>, each once.\<close>

definition heap_holds :: "slots \<Rightarrow> int \<Rightarrow> int set \<Rightarrow> bool" where
  "heap_holds h n A \<longleftrightarrow> bij_betw (slot_at h) {1..n} (Some ` A)"

definition keys_ok :: "slots \<Rightarrow> slots \<Rightarrow> int set \<Rightarrow> bool" where
  "keys_ok tree dep A \<longleftrightarrow> (\<forall>x \<in> A. slot_at tree (x * 2) \<noteq> None \<and> slot_at dep x \<noteq> None)"

lemma heap_holds_at: "heap_holds h n A \<Longrightarrow> 1 \<le> i \<Longrightarrow> i \<le> n \<Longrightarrow> \<exists>x \<in> A. slot_at h i = Some x"
proof -
  assume "heap_holds h n A" "1 \<le> i" "i \<le> n"
  then have "slot_at h i \<in> Some ` A" unfolding heap_holds_def bij_betw_def by (metis atLeastAtMost_iff imageI)
  then show ?thesis by blast
qed

lemma smaller_Inr: "keys_ok tree dep A \<Longrightarrow> x \<in> A \<Longrightarrow> y \<in> A \<Longrightarrow> \<exists>b. smaller tree x y dep = Inr b"
proof -
  assume k: "keys_ok tree dep A" and m: "x \<in> A" "y \<in> A"
  obtain a b c d where "slot_at tree (x * 2) = Some a" "slot_at dep x = Some b" "slot_at tree (y * 2) = Some c" "slot_at dep y = Some d"
    using k m unfolding keys_ok_def by blast
  then show ?thesis by (auto simp: smaller_def slot_def)
qed

text \<open>A node moves into the hole and leaves a hole.\<close>

lemma heap_holds_move:
  assumes "heap_holds (put_slot h k v) n A" "1 \<le> k" "k \<le> n" "1 \<le> j" "j \<le> n" "j \<noteq> k" "slot_at h j = Some x"
  shows "heap_holds (put_slot (put_slot h k x) j v) n A"
proof -
  let ?f = "slot_at (put_slot h k v)" and ?g = "slot_at (put_slot (put_slot h k x) j v)"
  have f: "?f k = Some v" "?f j = Some x" "?g k = Some x" "?g j = Some v" using assms(2,4,6,7) by (simp_all add: slot_at_put)
  have same: "?g i = ?f i" if "i \<noteq> j" "i \<noteq> k" for i using that assms(2,4) by (simp add: slot_at_put)
  have inj: "inj_on ?f {1..n}" and im: "?f ` {1..n} = Some ` A" using assms(1) by (simp_all add: heap_holds_def bij_betw_def)
  have "inj_on ?g {1..n}"
  proof (rule inj_onI)
    fix a b assume ab: "a \<in> {1..n}" "b \<in> {1..n}" "?g a = ?g b"
    define s where "s = (\<lambda>i. if i = j then k else if i = k then j else i)"
    have "?g i = ?f (s i)" for i using f same [of i] by (simp add: s_def)
    moreover have "s i \<in> {1..n}" if "i \<in> {1..n}" for i using that assms(2-5) by (simp add: s_def)
    ultimately have "s a = s b" using inj ab by (metis inj_onD)
    then show "a = b" using assms(6) by (auto simp: s_def split: if_splits)
  qed
  moreover have "?g ` {1..n} = ?f ` {1..n}"
  proof (intro equalityI subsetI)
    fix y assume "y \<in> ?g ` {1..n}"
    then obtain i where i: "i \<in> {1..n}" "y = ?g i" by blast
    show "y \<in> ?f ` {1..n}" using i f same [of i] assms(2-5) by (cases "i = j"; cases "i = k") (auto intro: rev_image_eqI)
  next
    fix y assume "y \<in> ?f ` {1..n}"
    then obtain i where i: "i \<in> {1..n}" "y = ?f i" by blast
    show "y \<in> ?g ` {1..n}" using i f same [of i] assms(2-5) by (cases "i = j"; cases "i = k") (auto intro: rev_image_eqI)
  qed
  ultimately show ?thesis using im by (simp add: heap_holds_def bij_betw_def)
qed

lemma down_loop:
  assumes "keys_ok tree dep A" "v \<in> A" "n < 1000"
  shows "heap_holds (put_slot h k v) n A \<Longrightarrow> 1 \<le> k \<Longrightarrow> k \<le> n \<Longrightarrow>
    \<exists>h1. loop (\<lambda>x. lift (down_step tree dep n v x)) (h, k) = Some (Inr h1) \<and> heap_holds h1 n A \<and>
      (\<forall>i. i < 1 \<or> n < i \<longrightarrow> slot_at h1 i = slot_at h i)"
proof (induction "nat (n - k)" arbitrary: h k rule: less_induct)
  case less
  let ?step = "\<lambda>x. lift (down_step tree dep n v x)"
  have j: "js_shl k 1 = 2 * k" using less.prems(2,3) assms(3) by (simp add: js_shl_small)
  have ends: "?case" if "down_step tree dep n v (h, k) = Inr (Back (put_slot h k v))"
    using that less.prems by (intro exI [of _ "put_slot h k v"]) (auto simp: lift_def slot_at_put intro: loop_Back)
  show ?case
  proof (cases "2 * k \<le> n")
    case False
    then show ?thesis by (intro ends) (simp add: down_step_def j)
  next
    case True
    have at: "\<exists>x \<in> A. slot_at h i = Some x" if "k < i" "i \<le> n" for i
      using heap_holds_at [OF less.prems(1), of i] that less.prems(2) by (simp add: slot_at_put)
    have "\<exists>b. (if 2 * k < n then ebind (slot h (2 * k + 1)) (\<lambda>r. ebind (slot h (2 * k)) (\<lambda>l. smaller tree r l dep)) else Inr False) = Inr b
        \<and> (b \<longrightarrow> 2 * k < n)"
    proof (cases "2 * k < n")
      case lt: True
      obtain r l where "slot_at h (2 * k + 1) = Some r" "r \<in> A" "slot_at h (2 * k) = Some l" "l \<in> A"
        using at [of "2 * k + 1"] at [of "2 * k"] lt less.prems(2) by auto
      with smaller_Inr [OF assms(1), of r l] lt show ?thesis by (auto simp: slot_def)
    qed auto
    then obtain b where b: "(if 2 * k < n then ebind (slot h (2 * k + 1)) (\<lambda>r. ebind (slot h (2 * k)) (\<lambda>l. smaller tree r l dep)) else Inr False) = Inr b"
      "b \<longrightarrow> 2 * k < n" by blast
    define i where "i = (if b then 2 * k + 1 else 2 * k)"
    have i: "k < i" "i \<le> n" "1 \<le> i" using b(2) True less.prems(2) by (auto simp: i_def)
    obtain x where x: "slot_at h i = Some x" "x \<in> A" using at [OF i(1,2)] by blast
    obtain stop where stop: "smaller tree v x dep = Inr stop" using smaller_Inr [OF assms(1,2) x(2)] by blast
    have step: "down_step tree dep n v (h, k) = Inr (if stop then Back (put_slot h k v) else Go (put_slot h k x, i))"
      unfolding down_step_def prod.case Let_def j if_P [OF True] b(1) ebind.simps i_def [symmetric]
      using x(1) stop by (simp add: slot_def)
    show ?thesis
    proof (cases stop)
      case True
      then show ?thesis by (intro ends) (simp add: step)
    next
      case False
      have "heap_holds (put_slot (put_slot h k x) i v) n A"
        by (rule heap_holds_move [OF less.prems(1-3) i(3,2) _ x(1)]) (use i(1) in simp)
      from less.hyps [OF _ this i(3,2)] i(1,2) obtain h1 where
        h1: "loop ?step (put_slot h k x, i) = Some (Inr h1)" "heap_holds h1 n A"
          "\<forall>i. i < 1 \<or> n < i \<longrightarrow> slot_at h1 i = slot_at (put_slot h k x) i" by auto
      have "loop ?step (h, k) = loop ?step (put_slot h k x, i)"
        by (rule loop_Go) (simp add: step False lift_def)
      then show ?thesis using h1 less.prems(2,3) by (auto simp: slot_at_put)
    qed
  qed
qed

lemma pqdownheap_reorders:
  assumes "keys_ok tree (depth s) A" "heap_holds (heap_arr s) (heap_len s) A" "heap_len s < 1000" "1 \<le> k" "k \<le> heap_len s"
  obtains h where "pqdownheap tree k s = Some (Inr (s\<lparr>heap_arr := h\<rparr>))" "heap_holds h (heap_len s) A"
    "\<And>i. heap_len s < i \<Longrightarrow> slot_at h i = slot_at (heap_arr s) i"
proof -
  obtain v where v: "slot_at (heap_arr s) k = Some v" "v \<in> A" using heap_holds_at [OF assms(2,4,5)] by blast
  have "slot_at (put_slot (heap_arr s) k v) = slot_at (heap_arr s)" using v(1) assms(4) by (auto simp: slot_at_put fun_eq_iff)
  then have "heap_holds (put_slot (heap_arr s) k v) (heap_len s) A" using assms(2) by (simp add: heap_holds_def)
  from down_loop [OF assms(1) v(2) assms(3) this assms(4,5)] obtain h where
    "loop (\<lambda>x. lift (down_step tree (depth s) (heap_len s) v x)) (heap_arr s, k) = Some (Inr h)" "heap_holds h (heap_len s) A"
    "\<forall>i. i < 1 \<or> heap_len s < i \<longrightarrow> slot_at h i = slot_at (heap_arr s) i" by blast
  then show thesis using v(1) by (intro that [of h]) (simp_all add: pqdownheap_def slot_def lift_def ret_def)
qed

section \<open>Taking nodes from the heap\<close>

lemma heap_holds_cong: "(\<And>i. 1 \<le> i \<Longrightarrow> i \<le> n \<Longrightarrow> slot_at h i = slot_at g i) \<Longrightarrow> heap_holds h n A \<longleftrightarrow> heap_holds g n A"
  unfolding heap_holds_def by (rule bij_betw_cong) simp

lemma heap_holds_drop_first:
  assumes "heap_holds h n A" "2 \<le> n" "slot_at h 1 = Some a" "slot_at h n = Some x"
  shows "heap_holds (put_slot h 1 x) (n - 1) (A - {a})"
proof -
  have inj: "inj_on (slot_at h) {1..n}" and im: "slot_at h ` {1..n} = Some ` A" using assms(1) by (simp_all add: heap_holds_def bij_betw_def)
  have g: "slot_at (put_slot h 1 x) i = (if i = 1 then slot_at h n else slot_at h i)" for i using assms(4) by (simp add: slot_at_put)
  define r where "r = (\<lambda>i. if i = 1 then n else i)"
  have r: "inj_on r {1..n - 1}" "r ` {1..n - 1} = {2..n}"
  proof -
    show "inj_on r {1..n - 1}" by (auto simp: inj_on_def r_def split: if_splits)
    show "r ` {1..n - 1} = {2..n}"
    proof (intro equalityI subsetI)
      fix i assume "i \<in> {2..n}"
      then show "i \<in> r ` {1..n - 1}" using assms(2) by (cases "i = n") (auto simp: r_def image_iff intro: bexI [of _ 1])
    qed (use assms(2) in \<open>auto simp: r_def\<close>)
  qed
  have gr: "slot_at (put_slot h 1 x) i = slot_at h (r i)" for i by (simp add: g r_def)
  have sub: "inj_on (slot_at h) {2..n}" by (rule inj_on_subset [OF inj]) simp
  have "slot_at h ` {2..n} = Some ` A - {Some a}"
  proof -
    have "{1..n} = insert 1 {2..n}" using assms(2) by auto
    then have "Some ` A = insert (Some a) (slot_at h ` {2..n})" using im assms(3) by (metis image_insert)
    moreover have "Some a \<notin> slot_at h ` {2..n}"
    proof
      assume "Some a \<in> slot_at h ` {2..n}"
      then obtain i where "i \<in> {2..n}" "slot_at h i = slot_at h 1" using assms(3) by auto
      with inj show False by (auto dest: inj_onD)
    qed
    ultimately show ?thesis by simp
  qed
  moreover have "Some ` A - {Some a} = Some ` (A - {a})" by auto
  moreover have "inj_on (\<lambda>i. slot_at h (r i)) {1..n - 1}" using comp_inj_on [OF r(1)] sub r(2) by (simp add: comp_def)
  ultimately show ?thesis unfolding heap_holds_def bij_betw_def gr using r(2) by (simp add: image_image [symmetric])
qed

lemma heap_holds_new_first:
  assumes "heap_holds h n A" "1 \<le> n" "slot_at h 1 = Some a" "b \<notin> A"
  shows "heap_holds (put_slot h 1 b) n (insert b (A - {a}))"
proof -
  have inj: "inj_on (slot_at h) {1..n}" and im: "slot_at h ` {1..n} = Some ` A" using assms(1) by (simp_all add: heap_holds_def bij_betw_def)
  have g: "slot_at (put_slot h 1 b) i = (if i = 1 then Some b else slot_at h i)" for i by (simp add: slot_at_put)
  have e: "{1..n} = insert 1 {2..n}" using assms(2) by auto
  have rest: "slot_at (put_slot h 1 b) ` {2..n} = slot_at h ` {2..n}" by (rule image_cong) (auto simp: g)
  have tail: "slot_at h ` {2..n} = Some ` (A - {a})"
  proof -
    have "Some a \<notin> slot_at h ` {2..n}"
    proof
      assume "Some a \<in> slot_at h ` {2..n}"
      then obtain i where "i \<in> {2..n}" "slot_at h i = slot_at h 1" using assms(3) by auto
      with inj show False by (auto dest: inj_onD)
    qed
    moreover have "Some ` A = insert (Some a) (slot_at h ` {2..n})" using im assms(3) unfolding e by simp
    ultimately show ?thesis by (metis Diff_insert_absorb image_insert image_set_diff inj_Some image_empty)
  qed
  have "slot_at (put_slot h 1 b) ` {1..n} = Some ` insert b (A - {a})" unfolding e image_insert rest tail by (simp add: g)
  moreover have "inj_on (slot_at (put_slot h 1 b)) {1..n}"
  proof (rule inj_onI)
    fix i j assume ij: "i \<in> {1..n}" "j \<in> {1..n}" "slot_at (put_slot h 1 b) i = slot_at (put_slot h 1 b) j"
    have "slot_at h k \<noteq> Some b" if "k \<in> {1..n}" for k using that im assms(4) by (metis image_eqI option.inject imageE)
    with ij inj show "i = j" by (auto simp: g inj_on_def split: if_splits)
  qed
  ultimately show ?thesis by (simp add: heap_holds_def bij_betw_def)
qed

section \<open>The tree that grows\<close>

text \<open>Fathers with their two children, the last one made first; a set of nodes is expanded to its leaves.\<close>

type_synonym family = "int \<times> int \<times> int"

fun expands :: "int set \<Rightarrow> family list \<Rightarrow> int set \<Rightarrow> bool" where
  "expands F [] Lf \<longleftrightarrow> F = Lf"
| "expands F ((p, m, n) # ps) Lf \<longleftrightarrow> p \<in> F \<and> m \<noteq> n \<and> m \<notin> F \<and> n \<notin> F \<and> expands (insert m (insert n (F - {p}))) ps Lf"

fun children :: "family list \<Rightarrow> int list" where
  "children [] = []"
| "children ((p, m, n) # ps) = m # n # children ps"

lemma length_children [simp]: "length (children ps) = 2 * length ps"
  by (induction ps rule: children.induct) simp_all

definition fathered :: "slots \<Rightarrow> family list \<Rightarrow> bool" where
  "fathered t ps \<longleftrightarrow> (\<forall>(p, m, n) \<in> set ps. slot_at t (m * 2 + 1) = Some p \<and> slot_at t (n * 2 + 1) = Some p)"

lemma children_mem: "(p, m, n) \<in> set ps \<Longrightarrow> m \<in> set (children ps) \<and> n \<in> set (children ps)"
  by (induction ps rule: children.induct) auto

lemma fathered_cong:
  "(\<And>x. x \<in> set (children ps) \<Longrightarrow> slot_at t1 (x * 2 + 1) = slot_at t (x * 2 + 1)) \<Longrightarrow> fathered t1 ps \<longleftrightarrow> fathered t ps"
  unfolding fathered_def by (rule ball_cong) (auto dest: children_mem)

text \<open>The list of nodes at the end of the heap array.\<close>

definition listed :: "slots \<Rightarrow> int \<Rightarrow> int list \<Rightarrow> bool" where
  "listed h m rs \<longleftrightarrow> m = 573 - int (length rs) \<and> (\<forall>i < length rs. slot_at h (m + int i) = Some (rs ! i))"

lemma listed_Cons: "listed h m (x # rs) \<longleftrightarrow> slot_at h m = Some x \<and> listed h (m + 1) rs"
  by (auto simp: listed_def less_Suc_eq_0_disj algebra_simps)

lemma listed_cong: "(\<And>i. m \<le> i \<Longrightarrow> slot_at h i = slot_at g i) \<Longrightarrow> listed h m rs \<longleftrightarrow> listed g m rs"
  by (simp add: listed_def)

text \<open>What the loop of \<open>build_tree\<close> keeps: \<open>e\<close> symbols, those of \<open>Lf\<close> occur; \<open>A\<close> is in the heap.\<close>

definition growing :: "int \<Rightarrow> int set \<Rightarrow> slots \<Rightarrow> int set \<Rightarrow> family list \<Rightarrow> slots \<Rightarrow> tree_work \<Rightarrow> int \<Rightarrow> bool" where
  "growing e Lf t0 A ps t s node \<longleftrightarrow>
     heap_holds (heap_arr s) (heap_len s) A \<and> 1 \<le> heap_len s \<and> heap_len s + int (length ps) \<le> 286 \<and>
     listed (heap_arr s) (heap_max s) (children ps) \<and> keys_ok t (depth s) A \<and>
     expands A ps Lf \<and> (\<forall>(p, m, n) \<in> set ps. e \<le> p) \<and> fathered t ps \<and> distinct (children ps) \<and> A \<inter> set (children ps) = {} \<and>
     (\<forall>x \<in> A \<union> set (children ps). 0 \<le> x \<and> x < node \<and> (x < e \<longrightarrow> x \<in> Lf)) \<and> node = e + int (length ps) \<and>
     (\<forall>x. 0 \<le> x \<and> x < e \<longrightarrow> slot_at t (x * 2) = slot_at t0 (x * 2) \<and> (x \<notin> Lf \<longrightarrow> slot_at t (x * 2 + 1) = slot_at t0 (x * 2 + 1)))"

lemma keys_ok_subset: "keys_ok t dep A \<Longrightarrow> B \<subseteq> A \<Longrightarrow> keys_ok t dep B"
  by (auto simp: keys_ok_def)

lemma keys_okD: "keys_ok t dep A \<Longrightarrow> x \<in> A \<Longrightarrow> \<exists>f d. slot t (x * 2) = Inr f \<and> slot dep x = Inr d"
  by (auto simp: keys_ok_def slot_def)

lemma grow_step:
  assumes g: "growing e Lf t0 A ps t s node" and hl: "2 \<le> heap_len s" and e: "0 \<le> e"
  obtains t1 s1 A1 ps1 where
    "combine_step (t, s, node) = Some (Inr (if heap_len s1 \<ge> 2 then Go (t1, s1, node + 1) else Back (t1, s1)))"
    "growing e Lf t0 A1 ps1 t1 s1 (node + 1)" "heap_len s1 = heap_len s - 1"
proof -
  note G = g [unfolded growing_def]
  let ?hl = "heap_len s" and ?hm = "heap_max s" and ?h = "heap_arr s"
  have hold: "heap_holds ?h ?hl A" and keys: "keys_ok t (depth s) A" and lst: "listed ?h ?hm (children ps)"
    and small: "?hl + int (length ps) \<le> 286" and node: "node = e + int (length ps)" using G by blast+
  have ids: "0 \<le> x" "x < node" "x < e \<Longrightarrow> x \<in> Lf" if "x \<in> A" for x using G that by blast+
  have hm: "?hm = 573 - 2 * int (length ps)" using lst by (simp add: listed_def)
  have node0: "0 \<le> node" "node \<notin> A" using node e ids by force+
  obtain n where n: "slot_at ?h 1 = Some n" "n \<in> A" using heap_holds_at [OF hold, of 1] hl by auto
  obtain x where x: "slot_at ?h ?hl = Some x" using heap_holds_at [OF hold, of ?hl] hl by auto
  define s0 where "s0 = s\<lparr>heap_arr := put_slot ?h 1 x, heap_len := ?hl - 1\<rparr>"
  have s0: "heap_arr s0 = put_slot ?h 1 x" "heap_len s0 = ?hl - 1" "depth s0 = depth s" "heap_max s0 = ?hm" by (simp_all add: s0_def)
  obtain h1 where h1: "pqdownheap t 1 s0 = Some (Inr (s0\<lparr>heap_arr := h1\<rparr>))" "heap_holds h1 (?hl - 1) (A - {n})"
      "\<And>i. ?hl - 1 < i \<Longrightarrow> slot_at h1 i = slot_at (put_slot ?h 1 x) i"
    using pqdownheap_reorders [of t s0 "A - {n}" 1] keys_ok_subset [OF keys] heap_holds_drop_first [OF hold hl n(1) x] small hl
    unfolding s0 by auto
  obtain m where m: "slot_at h1 1 = Some m" "m \<in> A" "m \<noteq> n" using heap_holds_at [OF h1(2), of 1] hl by auto
  obtain fn dn fm dm where f: "slot t (n * 2) = Inr fn" "slot (depth s) n = Inr dn" "slot t (m * 2) = Inr fm" "slot (depth s) m = Inr dm"
    using keys_okD [OF keys] n(2) m(2) by metis
  define h2 where "h2 = put_slot (put_slot h1 (?hm - 1) n) (?hm - 2) m"
  define t1 where "t1 = put_slot (put_slot (put_slot t (node * 2) (fn + fm)) (m * 2 + 1) node) (n * 2 + 1) node"
  define s2 where "s2 = s0\<lparr>heap_max := ?hm - 2, heap_arr := put_slot h2 1 node, depth := put_slot (depth s) node (max dn dm + 1)\<rparr>"
  define A1 where "A1 = insert node (A - {n} - {m})"
  have s2: "heap_arr s2 = put_slot h2 1 node" "heap_len s2 = ?hl - 1" "heap_max s2 = ?hm - 2"
    "depth s2 = put_slot (depth s) node (max dn dm + 1)" by (simp_all add: s2_def s0_def)
  have T1: "slot_at t1 j = (if j = n * 2 + 1 \<or> j = m * 2 + 1 then Some node else if j = node * 2 then Some (fn + fm) else slot_at t j)" for j
    using ids(1) n(2) m(2) node0(1) by (simp add: t1_def slot_at_put)
  have H2: "slot_at h2 i = (if i = ?hm - 2 then Some m else if i = ?hm - 1 then Some n else slot_at h1 i)" for i
    using hm small hl by (simp add: h2_def slot_at_put)
  have T1e: "slot_at t1 (y * 2) = (if y = node then Some (fn + fm) else slot_at t (y * 2))" for y
  proof -
    have "y * 2 \<noteq> n * 2 + 1" "y * 2 \<noteq> m * 2 + 1" by presburger+
    then show ?thesis by (simp add: T1)
  qed
  have T1o: "slot_at t1 (y * 2 + 1) = (if y = n \<or> y = m then Some node else slot_at t (y * 2 + 1))" for y
  proof -
    have "y * 2 + 1 \<noteq> node * 2" by presburger
    then show ?thesis by (simp add: T1)
  qed
  have "heap_holds h2 (?hl - 1) (A - {n})"
    using h1(2) heap_holds_cong [of "?hl - 1" h2 h1] hm small hl by (simp add: H2)
  then have H3: "heap_holds (put_slot h2 1 node) (?hl - 1) A1"
    unfolding A1_def using hl hm small m(1) node0(2) by (intro heap_holds_new_first) (simp_all add: H2)
  have K1: "keys_ok t1 (depth s2) A1"
    using keys node0 unfolding keys_ok_def A1_def by (auto simp: T1e s2 slot_at_put)
  obtain h4 where h4: "pqdownheap t1 1 s2 = Some (Inr (s2\<lparr>heap_arr := h4\<rparr>))" "heap_holds h4 (?hl - 1) A1"
      "\<And>i. ?hl - 1 < i \<Longrightarrow> slot_at h4 i = slot_at (put_slot h2 1 node) i"
    using pqdownheap_reorders [OF K1, of 1] H3 hl small unfolding s2 by auto
  define s3 where "s3 = s2\<lparr>heap_arr := h4\<rparr>"
  have step: "combine_step (t, s, node) = Some (Inr (if heap_len s3 \<ge> 2 then Go (t1, s3, node + 1) else Back (t1, s3)))"
  proof -
    have "slot ?h 1 = Inr n" "slot ?h ?hl = Inr x" "slot h1 1 = Inr m" using n(1) x m(1) by (simp_all add: slot_def)
    then show ?thesis using f h1(1) h4(1)
      by (simp add: combine_step_def Let_def s0_def [symmetric] s0 t1_def [symmetric] h2_def [symmetric])
        (simp add: s2_def s0_def s3_def ret_def, simp add: t1_def)
  qed
  have H4: "slot_at h4 i = slot_at ?h i" if "?hm \<le> i" for i
  proof -
    have "?hl < ?hm" using hm small hl by linarith
    then show ?thesis using that h4(3) [of i] h1(3) [of i] hl by (simp add: H2 slot_at_put)
  qed
  have "slot_at h4 (?hm - 2) = Some m" "slot_at h4 (?hm - 1) = Some n"
    using h4(3) [of "?hm - 2"] h4(3) [of "?hm - 1"] hm small hl by (simp_all add: H2 slot_at_put)
  then have list: "listed h4 (?hm - 2) (m # n # children ps)"
    using lst listed_cong [of ?hm h4 ?h, OF H4] by (simp add: listed_Cons)
  have "growing e Lf t0 A1 ((node, m, n) # ps) t1 s3 (node + 1)"
    unfolding growing_def
  proof (intro conjI)
    show "heap_holds (heap_arr s3) (heap_len s3) A1" "1 \<le> heap_len s3" "heap_len s3 + int (length ((node, m, n) # ps)) \<le> 286"
      "listed (heap_arr s3) (heap_max s3) (children ((node, m, n) # ps))" "keys_ok t1 (depth s3) A1"
      using h4(2) hl small list K1 by (simp_all add: s3_def s2)
    have "insert m (insert n (A1 - {node})) = A" using n(2) m(2) node0(2) by (auto simp: A1_def)
    then show "expands A1 ((node, m, n) # ps) Lf" using G m(2,3) n(2) node0(2) by (auto simp: A1_def)
    show "\<forall>(p, m, n) \<in> set ((node, m, n) # ps). e \<le> p" using G node by simp
    have "slot_at t1 (y * 2 + 1) = slot_at t (y * 2 + 1)" if "y \<in> set (children ps)" for y
      using that G n(2) m(2) by (auto simp: T1o)
    then have "fathered t1 ps" using G fathered_cong [of ps t1 t] by blast
    then show "fathered t1 ((node, m, n) # ps)" by (simp add: fathered_def T1o)
    show "distinct (children ((node, m, n) # ps))" "A1 \<inter> set (children ((node, m, n) # ps)) = {}"
      using G n(2) m(2,3) node0 by (auto simp: A1_def)
    have all: "\<forall>x \<in> A \<union> set (children ps). 0 \<le> x \<and> x < node \<and> (x < e \<longrightarrow> x \<in> Lf)" using G by blast
    have "x = node \<or> x \<in> A \<union> set (children ps)" if "x \<in> A1 \<union> set (children ((node, m, n) # ps))" for x
      using that n(2) m(2) by (auto simp: A1_def)
    moreover have "0 \<le> node \<and> node < node + 1 \<and> (node < e \<longrightarrow> node \<in> Lf)" using node0(1) node by simp
    ultimately show "\<forall>x \<in> A1 \<union> set (children ((node, m, n) # ps)). 0 \<le> x \<and> x < node + 1 \<and> (x < e \<longrightarrow> x \<in> Lf)"
      using all by (metis add.commute less_add_one less_trans)
    show "node + 1 = e + int (length ((node, m, n) # ps))" using node by simp
    show "\<forall>x. 0 \<le> x \<and> x < e \<longrightarrow> slot_at t1 (x * 2) = slot_at t0 (x * 2) \<and> (x \<notin> Lf \<longrightarrow> slot_at t1 (x * 2 + 1) = slot_at t0 (x * 2 + 1))"
      using G n(2) m(2) ids(3) node by (auto simp: T1e T1o)
  qed
  then show thesis using step s2(2) by (intro that [of s3 t1 A1 "(node, m, n) # ps"]) (simp_all add: s3_def)
qed

lemma grow_loop:
  assumes "0 \<le> e"
  shows "growing e Lf t0 A ps t s node \<Longrightarrow> 2 \<le> heap_len s \<Longrightarrow>
    \<exists>t1 s1 A1 ps1. loop combine_step (t, s, node) = Some (Inr (t1, s1)) \<and> growing e Lf t0 A1 ps1 t1 s1 (e + int (length ps1)) \<and> heap_len s1 = 1"
proof (induction "nat (heap_len s)" arbitrary: A ps t s node rule: less_induct)
  case less
  obtain t1 s1 A1 ps1 where
    step: "combine_step (t, s, node) = Some (Inr (if heap_len s1 \<ge> 2 then Go (t1, s1, node + 1) else Back (t1, s1)))" and
    g: "growing e Lf t0 A1 ps1 t1 s1 (node + 1)" and l: "heap_len s1 = heap_len s - 1"
    by (rule grow_step [OF less.prems assms])
  show ?case
  proof (cases "heap_len s1 \<ge> 2")
    case True
    have "nat (heap_len s1) < nat (heap_len s)" using l less.prems(2) by simp
    moreover have "loop combine_step (t, s, node) = loop combine_step (t1, s1, node + 1)" by (rule loop_Go) (simp add: step True)
    ultimately show ?thesis using less.hyps [OF _ g True] by simp
  next
    case False
    then have "loop combine_step (t, s, node) = Some (Inr (t1, s1))" by (intro loop_Back) (simp add: step)
    moreover have "node + 1 = e + int (length ps1)" using g by (simp add: growing_def)
    ultimately show ?thesis using g l False less.prems(2) by (intro exI [of _ t1] exI [of _ s1] exI [of _ A1] exI [of _ ps1]) simp
  qed
qed

section \<open>Filling the heap\<close>

lemma heap_holds_add:
  assumes "heap_holds h n A" "0 \<le> n" "x \<notin> A"
  shows "heap_holds (put_slot h (n + 1) x) (n + 1) (insert x A)"
proof -
  have inj: "inj_on (slot_at h) {1..n}" and im: "slot_at h ` {1..n} = Some ` A" using assms(1) by (simp_all add: heap_holds_def bij_betw_def)
  have g: "slot_at (put_slot h (n + 1) x) i = (if i = n + 1 then Some x else slot_at h i)" for i using assms(2) by (simp add: slot_at_put)
  have e: "{1..n + 1} = insert (n + 1) {1..n}" using assms(2) by auto
  have r: "slot_at (put_slot h (n + 1) x) ` {1..n} = slot_at h ` {1..n}" by (rule image_cong) (auto simp: g)
  have "inj_on (slot_at (put_slot h (n + 1) x)) {1..n} \<longleftrightarrow> inj_on (slot_at h) {1..n}" by (rule inj_on_cong) (simp add: g)
  then have "inj_on (slot_at (put_slot h (n + 1) x)) {1..n + 1}"
    unfolding e inj_on_insert using inj im assms(3) r by (auto simp: g)
  moreover have "slot_at (put_slot h (n + 1) x) ` {1..n + 1} = Some ` insert x A" unfolding e image_insert r im by (simp add: g)
  ultimately show ?thesis by (simp add: heap_holds_def bij_betw_def)
qed

text \<open>The symbols of \<open>Lf\<close>, among the first \<open>e\<close>, are in the heap; \<open>m\<close> is the largest of them.\<close>

definition ready :: "int \<Rightarrow> int set \<Rightarrow> slots \<Rightarrow> tree_work \<Rightarrow> int \<Rightarrow> bool" where
  "ready e Lf t s m \<longleftrightarrow> heap_holds (heap_arr s) (heap_len s) Lf \<and> Lf \<subseteq> {0..<e} \<and> heap_len s = int (card Lf) \<and>
     keys_ok t (depth s) Lf \<and> (\<forall>x \<in> Lf. x \<le> m) \<and> (m = - 1 \<or> m \<in> Lf) \<and> heap_max s = 573 \<and>
     (\<forall>x. 0 \<le> x \<and> x < e \<and> x \<notin> Lf \<longrightarrow> slot_at t (x * 2) = Some 0 \<and> slot_at t (x * 2 + 1) = Some 0)"

lemma heap_holds_empty: "heap_holds h 0 {}"
  by (simp add: heap_holds_def bij_betw_def)

lemma init_heap_ready:
  assumes "\<forall>x. 0 \<le> x \<and> x < e \<longrightarrow> slot_at t0 (x * 2) \<noteq> None"
  shows "\<lbrakk>ready n {x. 0 \<le> x \<and> x < n \<and> slot_at t0 (x * 2) \<noteq> Some 0} t s m; 0 \<le> n; n + int k = e;
      \<forall>x. slot_at t (x * 2) = slot_at t0 (x * 2)\<rbrakk> \<Longrightarrow>
    \<exists>t1 s1 m1. init_heap k n (t, s, m) = (t1, s1, m1) \<and> ready e {x. 0 \<le> x \<and> x < e \<and> slot_at t0 (x * 2) \<noteq> Some 0} t1 s1 m1 \<and>
      (\<forall>x. slot_at t1 (x * 2) = slot_at t0 (x * 2))"
proof (induction k arbitrary: n t s m)
  case (Suc k)
  let ?L = "\<lambda>n. {x. 0 \<le> x \<and> x < n \<and> slot_at t0 (x * 2) \<noteq> Some 0}"
  note R = Suc.prems(1) [unfolded ready_def]
  have fin: "finite (?L n)" by (rule finite_subset [of _ "{0..<n}"]) auto
  show ?case
  proof (cases "slot_at t0 (n * 2) = Some 0")
    case True
    have L: "?L (n + 1) = ?L n"
    proof (intro set_eqI iffI)
      fix x assume "x \<in> ?L (n + 1)"
      then show "x \<in> ?L n" using True by (cases "x = n") auto
    qed auto
    let ?t = "put_slot t (n * 2 + 1) 0"
    have even: "slot_at ?t (x * 2) = slot_at t0 (x * 2)" for x
    proof -
      have "x * 2 \<noteq> n * 2 + 1" by presburger
      then show ?thesis using Suc.prems(2,4) by (simp add: slot_at_put)
    qed
    have "ready (n + 1) (?L (n + 1)) ?t s m"
      unfolding ready_def L
    proof (intro conjI allI impI)
      show "keys_ok ?t (depth s) (?L n)" using R even Suc.prems(4) by (simp add: keys_ok_def)
      fix x assume x: "0 \<le> x \<and> x < n + 1 \<and> x \<notin> ?L n"
      then show "slot_at ?t (x * 2) = Some 0" using even True by (cases "x = n") auto
      show "slot_at ?t (x * 2 + 1) = Some 0" using x R Suc.prems(2) by (cases "x = n") (auto simp: slot_at_put)
    qed (use R in auto)
    from Suc.IH [OF this] Suc.prems(2,3) even True Suc.prems(4) show ?thesis by simp
  next
    case False
    have L: "?L (n + 1) = insert n (?L n)" using False Suc.prems(2) by auto
    have n: "n \<notin> ?L n" by simp
    let ?s = "s\<lparr>heap_len := heap_len s + 1, heap_arr := put_slot (heap_arr s) (heap_len s + 1) n, depth := put_slot (depth s) n 0\<rparr>"
    have "ready (n + 1) (?L (n + 1)) t ?s n"
      unfolding ready_def L
    proof (intro conjI allI impI ballI)
      show "heap_holds (heap_arr ?s) (heap_len ?s) (insert n (?L n))"
      proof -
        have "heap_holds (heap_arr s) (heap_len s) (?L n)" "0 \<le> heap_len s" using R by (blast, simp)
        from heap_holds_add [OF this n] show ?thesis by simp
      qed
      show "heap_len ?s = int (card (insert n (?L n)))" using R card_insert_disjoint [OF fin n] by simp
      have "slot_at t0 (n * 2) \<noteq> None" using assms Suc.prems(2,3) by simp
      then show "keys_ok t (depth ?s) (insert n (?L n))"
        using R Suc.prems(2,4) by (auto simp: keys_ok_def slot_at_put)
      fix x assume "0 \<le> x \<and> x < n + 1 \<and> x \<notin> insert n (?L n)"
      then have "0 \<le> x \<and> x < n \<and> x \<notin> ?L n" by auto
      with R show "slot_at t (x * 2) = Some 0" "slot_at t (x * 2 + 1) = Some 0" by blast+
    qed (use R Suc.prems(2) in auto)
    from Suc.IH [OF this] Suc.prems(2,3,4) False show ?thesis by simp
  qed
qed simp

text \<open>The tables that go with a tree are long enough.\<close>

definition desc_ok :: "static_desc \<Rightarrow> bool" where
  "desc_ok d \<longleftrightarrow> 3 \<le> elems d \<and> elems d \<le> 286 \<and> 0 \<le> extra_base d \<and> elems d - extra_base d \<le> int (length (extra_bits d)) \<and>
     (case static_tree d of None \<Rightarrow> True | Some st \<Rightarrow> 2 * elems d \<le> int (length st)) \<and>
     1 \<le> max_length d \<and> max_length d \<le> 15 \<and> elems d \<le> 2 ^ nat (max_length d)"

lemma static_length: "desc_ok d \<Longrightarrow> 0 \<le> x \<Longrightarrow> x < elems d \<Longrightarrow>
    \<exists>l. (case static_tree d of None \<Rightarrow> Inr 0 | Some stree \<Rightarrow> elem stree (x * 2 + 1)) = Inr l"
  by (auto simp: desc_ok_def elem_def arr_at_def split: option.splits)

lemma force_two_ready:
  assumes "desc_ok d"
  shows "ready (elems d) Lf t s m \<Longrightarrow> \<exists>t1 s1 m1 Lf1. force_two d (t, s, m) = Inr (t1, s1, m1) \<and> ready (elems d) Lf1 t1 s1 m1 \<and>
    Lf \<subseteq> Lf1 \<and> 2 \<le> heap_len s1 \<and> (\<forall>x \<in> Lf. slot_at t1 (x * 2) = slot_at t (x * 2))"
proof (induction "nat (2 - heap_len s)" arbitrary: t s m Lf rule: less_induct)
  case less
  note R = less.prems [unfolded ready_def]
  show ?case
  proof (cases "heap_len s < 2")
    case False
    then show ?thesis using less.prems by (intro exI [of _ t] exI [of _ s] exI [of _ m] exI [of _ Lf]) (simp add: force_two.simps)
  next
    case True
    define node where "node = (if m < 2 then m + 1 else 0)"
    define m1 where "m1 = (if m < 2 then m + 1 else m)"
    have e: "3 \<le> elems d" using assms by (simp add: desc_ok_def)
    have fin: "finite Lf" using R by (meson finite_atLeastLessThan_int finite_subset)
    have m: "- 1 \<le> m" "m < elems d" using R e by (cases "m = - 1"; force)+
    have node: "0 \<le> node" "node < elems d" using m(1) e by (simp_all add: node_def)
    have new: "node \<notin> Lf"
    proof (cases "m < 2")
      case False
      then have "m \<in> Lf" using R by force
      moreover have "card Lf \<le> 1" using R True by simp
      ultimately have "Lf = {m}" using fin by (metis card_le_Suc0_iff_eq One_nat_def singletonI subsetI subset_antisym empty_subsetI insert_subset)
      then show ?thesis using False by (simp add: node_def)
    qed (use R in \<open>force simp: node_def\<close>)
    obtain l where l: "(case static_tree d of None \<Rightarrow> Inr 0 | Some stree \<Rightarrow> elem stree (node * 2 + 1)) = Inr l"
      using static_length [OF assms node] by blast
    let ?t = "put_slot t (node * 2) 1"
    let ?s = "s\<lparr>heap_len := heap_len s + 1, heap_arr := put_slot (heap_arr s) (heap_len s + 1) node,
      depth := put_slot (depth s) node 0, opt_len := opt_len s - 1, static_len := static_len s - l\<rparr>"
    have step: "force_two d (t, s, m) = force_two d (?t, ?s, m1)"
      using True l by (subst force_two.simps) (simp add: Let_def node_def [symmetric] m1_def [symmetric])
    have t: "slot_at ?t (x * 2) = (if x = node then Some 1 else slot_at t (x * 2))" "slot_at ?t (x * 2 + 1) = slot_at t (x * 2 + 1)" for x
    proof -
      have "x * 2 + 1 \<noteq> node * 2" by presburger
      then show "slot_at ?t (x * 2) = (if x = node then Some 1 else slot_at t (x * 2))" "slot_at ?t (x * 2 + 1) = slot_at t (x * 2 + 1)"
        using node(1) by (simp_all add: slot_at_put)
    qed
    have "ready (elems d) (insert node Lf) ?t ?s m1"
      unfolding ready_def
    proof (intro conjI allI impI)
      have "heap_holds (heap_arr s) (heap_len s) Lf" using R by blast
      moreover have "0 \<le> heap_len s" using R by simp
      ultimately show "heap_holds (heap_arr ?s) (heap_len ?s) (insert node Lf)"
        using heap_holds_add [OF _ _ new] by simp
      show "heap_len ?s = int (card (insert node Lf))" using R card_insert_disjoint [OF fin new] by simp
      show "keys_ok ?t (depth ?s) (insert node Lf)" using R node(1) by (auto simp: keys_ok_def t slot_at_put)
      have "\<forall>x \<in> Lf. x \<le> m" "m = - 1 \<or> m \<in> Lf" using R by blast+
      then show "\<forall>x \<in> insert node Lf. x \<le> m1" "m1 = - 1 \<or> m1 \<in> insert node Lf"
        using m(1) by (auto simp: node_def m1_def)
    qed (use R node in \<open>auto simp: t\<close>)
    from less.hyps [OF _ this] True obtain t2 s2 m2 Lf2 where
      "force_two d (?t, ?s, m1) = Inr (t2, s2, m2)" "ready (elems d) Lf2 t2 s2 m2" "insert node Lf \<subseteq> Lf2" "2 \<le> heap_len s2"
      "\<forall>x \<in> insert node Lf. slot_at t2 (x * 2) = slot_at ?t (x * 2)" by auto
    moreover have "slot_at ?t (x * 2) = slot_at t (x * 2)" if "x \<in> Lf" for x using that new by (auto simp: t(1))
    ultimately show ?thesis unfolding step by (intro exI [of _ t2] exI [of _ s2] exI [of _ m2] exI [of _ Lf2]) simp
  qed
qed

lemma heapify_ready:
  assumes "e \<le> 286"
  shows "ready e Lf t s m \<Longrightarrow> int k \<le> heap_len s \<Longrightarrow> \<exists>h. heapify k t s = Some (Inr (s\<lparr>heap_arr := h\<rparr>)) \<and> ready e Lf t (s\<lparr>heap_arr := h\<rparr>) m"
proof (induction k arbitrary: s)
  case 0
  have "s\<lparr>heap_arr := heap_arr s\<rparr> = s" by simp
  with 0 show ?case by (intro exI [of _ "heap_arr s"]) (simp add: ret_def)
next
  case (Suc k)
  note R = Suc.prems(1) [unfolded ready_def]
  have "card Lf \<le> card {0..<e}" using R by (intro card_mono) auto
  then have small: "heap_len s < 1000" using R assms by simp
  obtain h where h: "pqdownheap t (int (Suc k)) s = Some (Inr (s\<lparr>heap_arr := h\<rparr>))" "heap_holds h (heap_len s) Lf"
    by (rule pqdownheap_reorders [of t s Lf "int (Suc k)"]) (use R small Suc.prems(2) in auto)
  have "ready e Lf t (s\<lparr>heap_arr := h\<rparr>) m" using R h(2) by (simp add: ready_def)
  from Suc.IH [OF this] Suc.prems(2) h(1) show ?case by simp
qed

lemma ready_growing:
  assumes "ready e Lf t s m" "e \<le> 286" "0 < heap_len s"
  shows "growing e Lf t Lf [] t s e"
proof -
  note R = assms(1) [unfolded ready_def]
  have "card Lf \<le> card {0..<e}" using R by (intro card_mono) auto
  then show ?thesis using R assms(2,3) unfolding growing_def by (auto simp: listed_def fathered_def)
qed

end
