(* ===== verification/Defl_Lengths.thy ===== *)
theory Defl_Lengths
  imports Defl_Heap
begin

text \<open>
  \<open>gen_bitlen\<close> of \<^verbatim>\<open>html/lib/deflate.js\<close>: the lengths it gives to the leaves of the tree are at most
  \<open>max_length\<close> and satisfy the equality of Kraft, also when the tree is deeper than that and the lengths
  have to be dealt out anew; \<open>bl_count\<close> counts them.
\<close>

section \<open>The first pass\<close>

definition kraft_sum :: "int \<Rightarrow> (int \<Rightarrow> int) \<Rightarrow> int set \<Rightarrow> int" where
  "kraft_sum M L F = (\<Sum>x \<in> F. 2 ^ nat (M - L x))"

definition at_length :: "(int \<Rightarrow> int) \<Rightarrow> int set \<Rightarrow> int \<Rightarrow> int" where
  "at_length L F b = int (card {x \<in> F. L x = b})"

lemma at_length_none:
  assumes "\<And>x. x \<in> F \<Longrightarrow> L x \<noteq> b"
  shows "at_length L F b = 0"
proof -
  have "{x \<in> F. L x = b} = {}" using assms by blast
  then show ?thesis unfolding at_length_def by (simp only: card.empty of_nat_0)
qed

lemma at_length_nonneg: "0 \<le> at_length L F b"
  by (simp add: at_length_def)

text \<open>
  The nodes of \<open>F\<close> have got their lengths \<open>L\<close>, their children not. Each unit of overflow stands for half a
  unit in excess of the equality of Kraft, and for a node of the largest length.
\<close>

definition passing :: "int \<Rightarrow> int \<Rightarrow> int set \<Rightarrow> slots \<Rightarrow> slots \<Rightarrow> int \<Rightarrow> (int \<Rightarrow> int) \<Rightarrow> bool" where
  "passing M e F t c v L \<longleftrightarrow> finite F \<and>
     (\<forall>x \<in> F. slot_at t (x * 2 + 1) = Some (L x) \<and> 0 \<le> L x \<and> L x \<le> M \<and> (x < e \<longrightarrow> 1 \<le> L x)) \<and>
     2 * kraft_sum M L F = 2 * 2 ^ nat M + v \<and> 0 \<le> v \<and> (0 < v \<longrightarrow> v + 2 \<le> 2 * at_length L F M) \<and>
     (\<forall>b. 0 \<le> b \<and> b \<le> 15 \<longrightarrow> slot_at c b = Some (at_length L {x \<in> F. x < e} b))"

lemma sum_expand:
  fixes f :: "int \<Rightarrow> int \<Rightarrow> int"
  assumes "finite F" "p \<in> F" "m \<noteq> n" "m \<notin> F" "n \<notin> F"
  shows "(\<Sum>x \<in> insert m (insert n (F - {p})). f x ((L(m := b, n := b)) x)) = (\<Sum>x \<in> F. f x (L x)) - f p (L p) + f m b + f n b"
proof -
  have "(\<Sum>x \<in> F - {p}. f x ((L(m := b, n := b)) x)) = (\<Sum>x \<in> F - {p}. f x (L x))"
    using assms(4,5) by (intro sum.cong) auto
  moreover have "(\<Sum>x \<in> F. f x (L x)) = f p (L p) + (\<Sum>x \<in> F - {p}. f x (L x))" by (rule sum.remove [OF assms(1,2)])
  ultimately show ?thesis using assms by simp
qed

lemma at_length_sum: "finite F \<Longrightarrow> at_length L F b = (\<Sum>x \<in> F. if L x = b then 1 else 0)"
  by (simp add: at_length_def sum.If_cases Int_def)

lemma at_length_below_sum: "finite F \<Longrightarrow> at_length L {x \<in> F. x < e} b = (\<Sum>x \<in> F. if x < e \<and> L x = b then 1 else 0)"
proof -
  assume "finite F"
  moreover have "{x \<in> {x \<in> F. x < e}. L x = b} = {x \<in> F. x < e \<and> L x = b}" by auto
  ultimately show ?thesis by (simp add: at_length_def sum.If_cases Int_def)
qed

lemma passing_step:
  assumes "passing M e F t c v L" "p \<in> F" "e \<le> p" "m \<noteq> n" "m \<notin> F" "n \<notin> F" "0 \<le> m" "0 \<le> n" "1 \<le> M"
    "b = (if L p + 1 > M then M else L p + 1)"
    "t1 = put_slot (put_slot t (m * 2 + 1) b) (n * 2 + 1) b"
    "\<And>i. 0 \<le> i \<Longrightarrow> i \<le> 15 \<Longrightarrow> slot_at c1 i =
      map_option (\<lambda>k. k + (if m < e \<and> b = i then 1 else 0) + (if n < e \<and> b = i then 1 else 0)) (slot_at c i)"
  shows "passing M e (insert m (insert n (F - {p}))) t1 c1 (if L p + 1 > M then v + 2 else v) (L(m := b, n := b))"
proof -
  let ?F = "insert m (insert n (F - {p}))" and ?L = "L(m := b, n := b)"
  note P = assms(1) [unfolded passing_def]
  have fin: "finite F" "finite ?F" using P by simp_all
  have p: "0 \<le> L p" "L p \<le> M" using P assms(2) by blast+
  have b: "1 \<le> b" "b \<le> M" using p assms(9,10) by (simp_all split: if_splits)
  note S = sum_expand [OF fin(1) assms(2,4,5,6), of _ L b]
  have K: "kraft_sum M ?L ?F = kraft_sum M L F - 2 ^ nat (M - L p) + 2 * 2 ^ nat (M - b)"
    using S [of "\<lambda>x l. 2 ^ nat (M - l)"] by (simp add: kraft_sum_def)
  have AM: "at_length ?L ?F M = at_length L F M - (if L p = M then 1 else 0) + (if b = M then 2 else 0)"
    using S [of "\<lambda>x l. if l = M then 1 else 0"] fin by (simp add: at_length_sum)
  have Ab: "at_length ?L {x \<in> ?F. x < e} i = at_length L {x \<in> F. x < e} i + (if m < e \<and> b = i then 1 else 0) + (if n < e \<and> b = i then 1 else 0)" for i
    unfolding at_length_below_sum [OF fin(1)] at_length_below_sum [OF fin(2)]
    using S [of "\<lambda>x l. if x < e \<and> l = i then 1 else 0"] assms(3) by simp
  have pos: "1 \<le> at_length L F M" if "L p = M"
  proof -
    have "p \<in> {x \<in> F. L x = M}" using that assms(2) by simp
    then have "0 < card {x \<in> F. L x = M}" using fin(1) by (auto simp: card_gt_0_iff)
    then show ?thesis by (simp add: at_length_def)
  qed
  have t1: "slot_at t1 (x * 2 + 1) = (if x = m \<or> x = n then Some b else slot_at t (x * 2 + 1))" for x
    using assms(7,8,11) by (auto simp: slot_at_put)
  show ?thesis
    unfolding passing_def
  proof (intro conjI)
    show "\<forall>x \<in> ?F. slot_at t1 (x * 2 + 1) = Some (?L x) \<and> 0 \<le> ?L x \<and> ?L x \<le> M \<and> (x < e \<longrightarrow> 1 \<le> ?L x)"
    proof
      fix x assume "x \<in> ?F"
      then consider "x = m \<or> x = n" | "x \<in> F" "x \<noteq> m" "x \<noteq> n" using assms(5,6) by auto
      then show "slot_at t1 (x * 2 + 1) = Some (?L x) \<and> 0 \<le> ?L x \<and> ?L x \<le> M \<and> (x < e \<longrightarrow> 1 \<le> ?L x)"
      proof cases
        case 1
        then show ?thesis using b by (auto simp: t1)
      next
        case 2
        then show ?thesis using P by (simp add: t1)
      qed
    qed
    have two: "2 ^ nat (M - L p) = 2 * (2 :: int) ^ nat (M - b)" if "L p < M"
    proof -
      have "nat (M - L p) = Suc (nat (M - b))" using that assms(10) by simp
      then show ?thesis by simp
    qed
    show "2 * kraft_sum M ?L ?F = 2 * 2 ^ nat M + (if L p + 1 > M then v + 2 else v)"
      using P K two assms(10) p by auto
    show "0 \<le> (if L p + 1 > M then v + 2 else v)" using P by simp
    show "0 < (if L p + 1 > M then v + 2 else v) \<longrightarrow> (if L p + 1 > M then v + 2 else v) + 2 \<le> 2 * at_length ?L ?F M"
      using P AM pos assms(10) p by (auto split: if_splits)
    show "\<forall>i. 0 \<le> i \<and> i \<le> 15 \<longrightarrow> slot_at c1 i = Some (at_length ?L {x \<in> ?F. x < e} i)"
      unfolding Ab using P assms(12) by simp
  qed (use fin in simp)
qed

text \<open>One node.\<close>

definition bumped :: "slots \<Rightarrow> bool \<Rightarrow> int \<Rightarrow> slots \<Rightarrow> bool" where
  "bumped c1 p b c \<longleftrightarrow> (\<forall>i. 0 \<le> i \<and> i \<le> 15 \<longrightarrow> slot_at c1 i = map_option (\<lambda>k. k + (if p \<and> b = i then 1 else 0)) (slot_at c i))"

lemma leaf_bits_Inr:
  assumes "desc_ok d" "0 \<le> n" "n < elems d" "slot_at (bl_count s) b \<noteq> None" "0 \<le> b" "slot_at t (n * 2) \<noteq> None"
  obtains s1 where "leaf_bits d n b t s = Inr s1" "bumped (bl_count s1) True b (bl_count s)"
    "heap_arr s1 = heap_arr s" "heap_max s1 = heap_max s"
proof -
  obtain k where k: "slot_at (bl_count s) b = Some k" using assms(4) by blast
  obtain f where f: "slot_at t (n * 2) = Some f" using assms(6) by blast
  have "\<exists>x. (if n \<ge> extra_base d then elem (extra_bits d) (n - extra_base d) else Inr 0) = Inr x"
    using assms(1-3) by (auto simp: desc_ok_def elem_def arr_at_def)
  then obtain x where x: "(if n \<ge> extra_base d then elem (extra_bits d) (n - extra_base d) else Inr 0) = Inr x" by blast
  have c: "bumped (put_slot (bl_count s) b (k + 1)) True b (bl_count s)" using k assms(5) by (simp add: bumped_def slot_at_put option.map_ident)
  have bump: "bump (bl_count s) b 1 = Inr (put_slot (bl_count s) b (k + 1))" using k by (simp add: bump_def slot_def)
  show thesis
  proof (cases "static_tree d")
    case None
    then have e: "leaf_bits d n b t s = Inr (s\<lparr>bl_count := put_slot (bl_count s) b (k + 1), opt_len := opt_len s + f * (b + x)\<rparr>)"
      unfolding leaf_bits_def bump ebind.simps x using f by (simp add: slot_def Let_def)
    show thesis using c by (intro that [OF e]) simp_all
  next
    case (Some st)
    obtain l where "elem st (n * 2 + 1) = Inr l" using static_length [OF assms(1-3)] Some by auto
    then have e: "leaf_bits d n b t s = Inr (s\<lparr>bl_count := put_slot (bl_count s) b (k + 1), opt_len := opt_len s + f * (b + x),
        static_len := static_len s + f * (l + x)\<rparr>)"
      unfolding leaf_bits_def bump ebind.simps x using f Some by (simp add: slot_def Let_def)
    show thesis using c by (intro that [OF e]) simp_all
  qed
qed

lemma first_pass_node:
  assumes "desc_ok d" "h < 573" "slot_at (heap_arr s) h = Some n" "slot_at t (n * 2 + 1) = Some p" "slot_at t (p * 2 + 1) = Some l"
    "b = (if l + 1 > max_length d then max_length d else l + 1)" "0 \<le> l" "0 \<le> n"
    "n \<le> mc \<Longrightarrow> n < elems d \<and> slot_at t (n * 2) \<noteq> None" "\<forall>i. 0 \<le> i \<and> i \<le> 15 \<longrightarrow> slot_at (bl_count s) i \<noteq> None"
  obtains s1 where "first_pass d mc h (t, s, v) = first_pass d mc (h + 1) (put_slot t (n * 2 + 1) b, s1, if l + 1 > max_length d then v + 1 else v)"
    "bumped (bl_count s1) (n \<le> mc) b (bl_count s)" "heap_arr s1 = heap_arr s" "heap_max s1 = heap_max s"
proof -
  have M: "1 \<le> max_length d" "max_length d \<le> 15" using assms(1) by (simp_all add: desc_ok_def)
  have b: "0 \<le> b" "b \<le> 15" using M assms(6,7) by (simp_all split: if_splits)
  let ?t = "put_slot t (n * 2 + 1) b"
  have even: "slot_at ?t (n * 2) = slot_at t (n * 2)" using assms(8) by (simp add: slot_at_put)
  have "\<exists>s1. (if n > mc then Inr s else leaf_bits d n b ?t s) = Inr s1 \<and> bumped (bl_count s1) (n \<le> mc) b (bl_count s) \<and>
      heap_arr s1 = heap_arr s \<and> heap_max s1 = heap_max s"
  proof (cases "n > mc")
    case True
    then show ?thesis by (simp add: bumped_def option.map_ident)
  next
    case False
    then have n: "n \<le> mc" "n < elems d" "slot_at ?t (n * 2) \<noteq> None" using assms(9) even by simp_all
    obtain s1 where "leaf_bits d n b ?t s = Inr s1" "bumped (bl_count s1) True b (bl_count s)"
        "heap_arr s1 = heap_arr s" "heap_max s1 = heap_max s"
      by (rule leaf_bits_Inr [OF assms(1,8) n(2) _ b(1) n(3), of s]) (use assms(10) b in auto)
    with n(1) show ?thesis by simp
  qed
  then obtain s1 where s1: "(if n > mc then Inr s else leaf_bits d n b ?t s) = Inr s1" "bumped (bl_count s1) (n \<le> mc) b (bl_count s)"
    "heap_arr s1 = heap_arr s" "heap_max s1 = heap_max s" by blast
  have at: "slot (heap_arr s) h = Inr n" "slot t (n * 2 + 1) = Inr p" "slot t (p * 2 + 1) = Inr l" "h < HEAP_SIZE"
    using assms(2-5) by (simp_all add: slot_def)
  have "first_pass d mc h (t, s, v) = first_pass d mc (h + 1) (?t, s1, if l + 1 > max_length d then v + 1 else v)"
    unfolding first_pass.simps [of d mc h t s v] if_P [OF at(4)] at(1-3) ebind.simps Let_def assms(6) [symmetric] s1(1) ..
  from this s1(2-4) show thesis by (rule that)
qed

text \<open>All nodes, two children at a time.\<close>

lemma first_pass_all:
  assumes d: "desc_ok d" and e: "e = elems d" "mc < e" and M: "M = max_length d"
  shows "\<lbrakk>passing M e F t (bl_count s) v L; expands F ps Lf; \<forall>(p, m, n) \<in> set ps. e \<le> p; fathered t ps; distinct (children ps);
      F \<inter> set (children ps) = {}; listed (heap_arr s) h (children ps);
      \<forall>x \<in> F \<union> set (children ps). 0 \<le> x \<and> (x < e \<longrightarrow> x \<le> mc \<and> slot_at t (x * 2) \<noteq> None)\<rbrakk> \<Longrightarrow>
    \<exists>t1 s1 v1 L1. first_pass d mc h (t, s, v) = Inr (t1, s1, v1) \<and> passing M e Lf t1 (bl_count s1) v1 L1 \<and>
      heap_arr s1 = heap_arr s \<and> heap_max s1 = heap_max s \<and> (\<forall>x. slot_at t1 (x * 2) = slot_at t (x * 2)) \<and>
      (\<forall>x. x \<notin> set (children ps) \<longrightarrow> slot_at t1 (x * 2 + 1) = slot_at t (x * 2 + 1))"
proof (induction ps arbitrary: F t s v L h)
  case Nil
  then have "first_pass d mc h (t, s, v) = Inr (t, s, v)" by (subst first_pass.simps) (simp add: listed_def)
  with Nil show ?case by auto
next
  case (Cons f ps)
  obtain p m n where f: "f = (p, m, n)" by (cases f)
  note P = Cons.prems(1) [unfolded passing_def]
  have F: "p \<in> F" "m \<noteq> n" "m \<notin> F" "n \<notin> F" "expands (insert m (insert n (F - {p}))) ps Lf" using Cons.prems(2) by (simp_all add: f)
  have p: "slot_at t (p * 2 + 1) = Some (L p)" "0 \<le> L p" using P F(1) by blast+
  have dads: "slot_at t (m * 2 + 1) = Some p" "slot_at t (n * 2 + 1) = Some p" "fathered t ps"
    using Cons.prems(4) by (simp_all add: fathered_def f)
  have at: "slot_at (heap_arr s) h = Some m" "slot_at (heap_arr s) (h + 1) = Some n" "listed (heap_arr s) (h + 2) (children ps)"
    using Cons.prems(7) by (simp_all add: f listed_Cons add.commute)
  have h: "h = 573 - 2 * int (Suc (length ps))" using Cons.prems(7) by (simp add: f listed_def)
  have ids: "0 \<le> x \<and> (x \<le> mc \<longleftrightarrow> x < e) \<and> (x < e \<longrightarrow> slot_at t (x * 2) \<noteq> None)" if "x \<in> {m, n}" for x
    using Cons.prems(8) that e(2) by (auto simp: f)
  define b where "b = (if L p + 1 > M then M else L p + 1)"
  have bl: "\<forall>i. 0 \<le> i \<and> i \<le> 15 \<longrightarrow> slot_at (bl_count s) i \<noteq> None" using P by simp
  let ?v = "\<lambda>v. if L p + 1 > M then v + 1 else v"
  let ?t = "put_slot t (m * 2 + 1) b"
  obtain s1 where s1: "first_pass d mc h (t, s, v) = first_pass d mc (h + 1) (?t, s1, ?v v)"
      "bumped (bl_count s1) (m \<le> mc) b (bl_count s)" "heap_arr s1 = heap_arr s" "heap_max s1 = heap_max s"
    by (rule first_pass_node [OF d _ at(1) dads(1) p(1) b_def [unfolded M] p(2) _ _ bl, of mc v]) (use ids h e M in auto)
  have bl1: "\<forall>i. 0 \<le> i \<and> i \<le> 15 \<longrightarrow> slot_at (bl_count s1) i \<noteq> None" using bl s1(2) by (simp add: bumped_def)
  have m0: "0 \<le> m" "0 \<le> n" using ids by auto
  have mp: "m \<noteq> p" "n \<noteq> p" using F by auto
  have t1: "slot_at ?t (n * 2 + 1) = Some p" "slot_at ?t (p * 2 + 1) = Some (L p)" "slot_at ?t (x * 2) = slot_at t (x * 2)" for x
  proof -
    have "x * 2 \<noteq> m * 2 + 1" by presburger
    then show "slot_at ?t (n * 2 + 1) = Some p" "slot_at ?t (p * 2 + 1) = Some (L p)" "slot_at ?t (x * 2) = slot_at t (x * 2)"
      using dads(2) p(1) F(2) m0(1) mp by (simp_all add: slot_at_put)
  qed
  have at1: "slot_at (heap_arr s1) (h + 1) = Some n" using at(2) s1(3) by simp
  let ?t2 = "put_slot ?t (n * 2 + 1) b"
  obtain s2 where s2: "first_pass d mc (h + 1) (?t, s1, ?v v) = first_pass d mc (h + 1 + 1) (?t2, s2, ?v (?v v))"
      "bumped (bl_count s2) (n \<le> mc) b (bl_count s1)" "heap_arr s2 = heap_arr s1" "heap_max s2 = heap_max s1"
    by (rule first_pass_node [OF d _ at1 t1(1,2) b_def [unfolded M] p(2) _ _ bl1, of mc "?v v"]) (use ids h e M t1(3) in auto)
  have "\<And>i. 0 \<le> i \<Longrightarrow> i \<le> 15 \<Longrightarrow> slot_at (bl_count s2) i =
      map_option (\<lambda>k. k + (if m < e \<and> b = i then 1 else 0) + (if n < e \<and> b = i then 1 else 0)) (slot_at (bl_count s) i)"
    using s1(2) s2(2) ids by (simp add: bumped_def option.map_comp comp_def)
  moreover have "e \<le> p" using Cons.prems(3) by (simp add: f)
  moreover have "1 \<le> M" using d M by (simp add: desc_ok_def)
  ultimately have pass: "passing M e (insert m (insert n (F - {p}))) ?t2 (bl_count s2) (if L p + 1 > M then v + 2 else v) (L(m := b, n := b))"
    by (intro passing_step [OF Cons.prems(1) F(1) _ F(2-4) m0 _ b_def]) simp_all
  have t2: "slot_at ?t2 (x * 2) = slot_at t (x * 2)" "x \<noteq> m \<Longrightarrow> x \<noteq> n \<Longrightarrow> slot_at ?t2 (x * 2 + 1) = slot_at t (x * 2 + 1)" for x
  proof -
    have "x * 2 \<noteq> n * 2 + 1" by presburger
    then show "slot_at ?t2 (x * 2) = slot_at t (x * 2)" "x \<noteq> m \<Longrightarrow> x \<noteq> n \<Longrightarrow> slot_at ?t2 (x * 2 + 1) = slot_at t (x * 2 + 1)"
      using m0 t1(3) by (simp_all add: slot_at_put)
  qed
  have dist: "distinct (children ps)" "m \<notin> set (children ps)" "n \<notin> set (children ps)" using Cons.prems(5) by (simp_all add: f)
  have fa: "fathered ?t2 ps" using dads(3) fathered_cong [of ps ?t2 t] t2(2) dist by metis
  have dj: "insert m (insert n (F - {p})) \<inter> set (children ps) = {}" using Cons.prems(6) dist by (auto simp: f)
  have ls: "listed (heap_arr s2) (h + 1 + 1) (children ps)" using at(3) s1(3) s2(3) by (simp add: add.assoc)
  have id: "\<forall>x \<in> insert m (insert n (F - {p})) \<union> set (children ps). 0 \<le> x \<and> (x < e \<longrightarrow> x \<le> mc \<and> slot_at ?t2 (x * 2) \<noteq> None)"
    using Cons.prems(8) t2(1) by (auto simp: f)
  have fs: "\<forall>(p, m, n) \<in> set ps. e \<le> p" using Cons.prems(3) by (meson list.set_intros(2))
  from Cons.IH [OF pass F(5) fs fa dist(1) dj ls id] obtain t3 s3 v3 L3 where r: "first_pass d mc (h + 1 + 1) (?t2, s2, if L p + 1 > M then v + 2 else v) = Inr (t3, s3, v3)"
      "passing M e Lf t3 (bl_count s3) v3 L3" "heap_arr s3 = heap_arr s2" "heap_max s3 = heap_max s2"
      "\<forall>x. slot_at t3 (x * 2) = slot_at ?t2 (x * 2)" "\<forall>x. x \<notin> set (children ps) \<longrightarrow> slot_at t3 (x * 2 + 1) = slot_at ?t2 (x * 2 + 1)"
    by blast
  have "?v (?v v) = (if L p + 1 > M then v + 2 else v)" by simp
  then have "first_pass d mc h (t, s, v) = Inr (t3, s3, v3)" unfolding s1(1) s2(1) using r(1) by simp
  moreover have "\<forall>x. x \<notin> set (children (f # ps)) \<longrightarrow> slot_at t3 (x * 2 + 1) = slot_at t (x * 2 + 1)" using r(6) t2(2) by (simp add: f)
  ultimately show ?case using r(2-5) s1(3,4) s2(3,4) t2(1) by (intro exI [of _ t3] exI [of _ s3] exI [of _ v3] exI [of _ L3]) simp
qed

section \<open>Lengths that are too long\<close>

text \<open>\<open>N b\<close> leaves of length \<open>b\<close>: their number, and the sum of Kraft in units of the largest length.\<close>

definition headcount :: "int \<Rightarrow> (int \<Rightarrow> int) \<Rightarrow> int" where
  "headcount M N = (\<Sum>b \<in> {1..M}. N b)"

definition weight :: "int \<Rightarrow> (int \<Rightarrow> int) \<Rightarrow> int" where
  "weight M N = (\<Sum>b \<in> {1..M}. N b * 2 ^ nat (M - b))"

definition tallies :: "int \<Rightarrow> (int \<Rightarrow> int) \<Rightarrow> slots \<Rightarrow> bool" where
  "tallies M N c \<longleftrightarrow> N 0 = 0 \<and> (\<forall>b. 0 \<le> b \<and> b \<le> 15 \<longrightarrow> slot_at c b = Some (N b) \<and> 0 \<le> N b) \<and> (\<forall>b > M. N b = 0)"

lemma sum_update:
  fixes N :: "int \<Rightarrow> int"
  assumes "1 \<le> a" "a \<le> M"
  shows "headcount M (N(a := N a + k)) = headcount M N + k" "weight M (N(a := N a + k)) = weight M N + k * 2 ^ nat (M - a)"
proof -
  have a: "a \<in> {1..M}" "finite {1..M}" using assms by simp_all
  have "(\<Sum>b \<in> {1..M} - {a}. (N(a := N a + k)) b) = (\<Sum>b \<in> {1..M} - {a}. N b)" by (rule sum.cong) auto
  then show "headcount M (N(a := N a + k)) = headcount M N + k" unfolding headcount_def by (simp add: sum.remove [OF a(2,1)])
  have "(\<Sum>b \<in> {1..M} - {a}. (N(a := N a + k)) b * 2 ^ nat (M - b)) = (\<Sum>b \<in> {1..M} - {a}. N b * 2 ^ nat (M - b))"
    by (rule sum.cong) auto
  then show "weight M (N(a := N a + k)) = weight M N + k * 2 ^ nat (M - a)"
    unfolding weight_def by (simp add: sum.remove [OF a(2,1)] algebra_simps)
qed

lemma shorter_used_finds:
  assumes "tallies M N c" "M \<le> 15"
  shows "1 \<le> a \<Longrightarrow> a \<le> b \<Longrightarrow> b < M \<Longrightarrow> N a \<noteq> 0 \<Longrightarrow> \<exists>i. shorter_used c b = Inr i \<and> 1 \<le> i \<and> i \<le> b \<and> 0 < N i"
proof (induction "nat b" arbitrary: b rule: less_induct)
  case less
  have c: "slot_at c b = Some (N b)" "0 \<le> N b" using assms less.prems by (simp_all add: tallies_def)
  show ?case
  proof (cases "N b = 0")
    case True
    then have "a \<le> b - 1" using less.prems by (cases "a = b") auto
    with less.hyps [of "b - 1"] less.prems obtain i where "shorter_used c (b - 1) = Inr i" "1 \<le> i" "i \<le> b - 1" "0 < N i" by auto
    then show ?thesis using c True by (subst shorter_used.simps) auto
  next
    case False
    then show ?thesis using c less.prems by (subst shorter_used.simps) auto
  qed
qed

lemma bump_tallies:
  assumes "tallies M N c" "1 \<le> a" "a \<le> M" "M \<le> 15" "0 \<le> N a + k"
  shows "\<exists>c1. bump c a k = Inr c1 \<and> tallies M (N(a := N a + k)) c1"
  using assms by (auto simp: tallies_def bump_def slot_def slot_at_put)

lemma shed_lengths:
  assumes M: "1 \<le> M" "M \<le> 15"
  shows "\<lbrakk>tallies M N c; 0 < v; 2 * weight M N = 2 * 2 ^ nat M + v; v + 2 \<le> 2 * N M; headcount M N \<le> 2 ^ nat M\<rbrakk> \<Longrightarrow>
    \<exists>c1 N1. shed M v c = Inr c1 \<and> tallies M N1 c1 \<and> weight M N1 = 2 ^ nat M \<and> headcount M N1 = headcount M N"
proof (induction "nat v" arbitrary: v c N rule: less_induct)
  case less
  note T = less.prems(1)
  have pos: "0 \<le> N b" if "1 \<le> b" "b \<le> M" for b using T that M by (simp add: tallies_def)
  have "\<exists>a. 1 \<le> a \<and> a < M \<and> N a \<noteq> 0"
  proof (rule ccontr)
    assume "\<not> (\<exists>a. 1 \<le> a \<and> a < M \<and> N a \<noteq> 0)"
    then have "weight M N = headcount M N" unfolding weight_def headcount_def by (intro sum.cong) force+
    with less.prems(2,3,5) show False by simp
  qed
  then obtain a where a: "1 \<le> a" "a \<le> M - 1" "N a \<noteq> 0" by force
  obtain i where i: "shorter_used c (M - 1) = Inr i" "1 \<le> i" "i < M" "0 < N i"
    using shorter_used_finds [OF T M(2) a(1,2) _ a(3)] by auto
  define N1 where "N1 = N(i := N i + - 1)"
  define N2 where "N2 = N1(i + 1 := N1 (i + 1) + 2)"
  define N3 where "N3 = N2(M := N2 M + - 1)"
  have "4 \<le> 2 * N M" using less.prems(2-4) by presburger
  then have N: "0 \<le> N i + - 1" "0 \<le> N1 (i + 1) + 2" "0 \<le> N2 M + - 1" "N M - 1 \<le> N3 M"
    using i(3,4) pos [of "i + 1"] i(2) by (auto simp: N1_def N2_def N3_def)
  obtain c1 where c1: "bump c i (- 1) = Inr c1" "tallies M N1 c1"
    using bump_tallies [OF T i(2) _ M(2) N(1)] i(3) unfolding N1_def by auto
  obtain c2 where c2: "bump c1 (i + 1) 2 = Inr c2" "tallies M N2 c2"
    using bump_tallies [OF c1(2) _ _ M(2) N(2)] i(2,3) unfolding N2_def by auto
  obtain c3 where c3: "bump c2 M (- 1) = Inr c3" "tallies M N3 c3"
    using bump_tallies [OF c2(2) M(1) _ M(2) N(3)] unfolding N3_def by auto
  have "nat (M - i) = Suc (nat (M - (i + 1)))" using i(3) by simp
  then have p: "(2 :: int) ^ nat (M - i) = 2 * 2 ^ nat (M - (i + 1))" by simp
  have w: "weight M N3 = weight M N - 1" and t: "headcount M N3 = headcount M N"
    using sum_update [of i M N "- 1"] sum_update [of "i + 1" M N1 2] sum_update [of M M N2 "- 1"] i(2,3) M p
    unfolding N1_def [symmetric] N2_def [symmetric] N3_def [symmetric] by simp_all
  have step: "shed M v c = (if v - 2 > 0 then shed M (v - 2) c3 else Inr c3)"
    using i(1) c1(1) c2(1) c3(1) by (subst shed.simps) simp
  show ?case
  proof (cases "v - 2 > 0")
    case True
    have "2 * weight M N3 = 2 * 2 ^ nat M + (v - 2)" "v - 2 + 2 \<le> 2 * N3 M" "headcount M N3 \<le> 2 ^ nat M"
      using less.prems(3,4,5) w t N(4) by simp_all
    from less.hyps [OF _ c3(2) True this] less.prems(2) step True t show ?thesis by auto
  next
    case False
    have "v = 2" using False less.prems(2,3) by presburger
    then have "weight M N3 = 2 ^ nat M" using less.prems(3) w by simp
    with step False c3(2) t show ?thesis by auto
  qed
qed

section \<open>Dealing the lengths out\<close>

definition downwards :: "slots \<Rightarrow> int \<Rightarrow> int list \<Rightarrow> bool" where
  "downwards h j xs \<longleftrightarrow> (\<forall>i < length xs. slot_at h (j - 1 - int i) = Some (xs ! i))"

lemma downwards_Cons: "downwards h j (x # xs) \<longleftrightarrow> slot_at h (j - 1) = Some x \<and> downwards h (j - 1) xs"
  by (auto simp: downwards_def less_Suc_eq_0_disj algebra_simps)

lemma downwards_append: "downwards h j (xs @ ys) \<Longrightarrow> downwards h (j - int (length xs)) ys"
proof (induction xs arbitrary: j)
  case (Cons x xs)
  have "j - int (length (x # xs)) = j - 1 - int (length xs)" by simp
  with Cons show ?case by (simp only: append_Cons downwards_Cons)
qed simp

lemma listed_downwards: "listed h m rs \<Longrightarrow> downwards h 573 (rev rs)"
  unfolding downwards_def
proof (intro allI impI)
  fix i assume l: "listed h m rs" and i: "i < length (rev rs)"
  define j where "j = length rs - Suc i"
  have "j < length rs" "m + int j = 573 - 1 - int i" using l i by (auto simp: j_def listed_def)
  with l i show "slot_at h (573 - 1 - int i) = Some (rev rs ! i)" unfolding listed_def by (metis j_def length_rev rev_nth)
qed

lemma deal_some:
  assumes "\<forall>x \<in> set xs. 0 \<le> x"
  shows "\<lbrakk>downwards (heap_arr s) h xs; k \<le> length (filter (\<lambda>x. x \<le> mc) xs);
      \<forall>x \<in> set xs. x \<le> mc \<longrightarrow> slot_at t (x * 2) \<noteq> None \<and> slot_at t (x * 2 + 1) \<noteq> None\<rbrakk> \<Longrightarrow>
    \<exists>as bs t1 s1. xs = as @ bs \<and> deal mc b (int k) h t s = Inr (h - int (length as), t1, s1) \<and>
      length (filter (\<lambda>x. x \<le> mc) as) = k \<and> heap_arr s1 = heap_arr s \<and> bl_count s1 = bl_count s \<and>
      (\<forall>x. slot_at t1 (x * 2) = slot_at t (x * 2)) \<and>
      (\<forall>x. slot_at t1 (x * 2 + 1) = (if x \<in> set as \<and> x \<le> mc then Some b else slot_at t (x * 2 + 1)))"
  using assms
proof (induction xs arbitrary: k h t s)
  case Nil
  then show ?case by (intro exI [of _ "[]"] exI [of _ "[]"] exI [of _ t] exI [of _ s]) (simp add: deal.simps)
next
  case (Cons x xs)
  have at: "slot_at (heap_arr s) (h - 1) = Some x" "downwards (heap_arr s) (h - 1) xs" using Cons.prems(1) by (simp_all add: downwards_Cons)
  show ?case
  proof (cases "k = 0")
    case True
    then show ?thesis by (intro exI [of _ "[]"] exI [of _ "x # xs"] exI [of _ t] exI [of _ s]) (simp add: deal.simps)
  next
    case k: False
    show ?thesis
    proof (cases "x > mc")
      case True
      then have "k \<le> length (filter (\<lambda>x. x \<le> mc) xs)" using Cons.prems(2) by simp
      from Cons.IH [OF at(2) this, of t] Cons.prems(3,4) obtain as bs t1 s1 where
        r: "xs = as @ bs" "deal mc b (int k) (h - 1) t s = Inr (h - 1 - int (length as), t1, s1)"
          "length (filter (\<lambda>x. x \<le> mc) as) = k" "heap_arr s1 = heap_arr s" "bl_count s1 = bl_count s"
          "\<forall>x. slot_at t1 (x * 2) = slot_at t (x * 2)"
          "\<forall>x. slot_at t1 (x * 2 + 1) = (if x \<in> set as \<and> x \<le> mc then Some b else slot_at t (x * 2 + 1))"
        unfolding list.set ball_simps by blast
      have "deal mc b (int k) h t s = deal mc b (int k) (h - 1) t s" using k True at(1) by (subst deal.simps) simp
      then show ?thesis using r True by (intro exI [of _ "x # as"] exI [of _ bs] exI [of _ t1] exI [of _ s1]) auto
    next
      case False
      obtain f l where fl: "slot_at t (x * 2) = Some f" "slot_at t (x * 2 + 1) = Some l" using Cons.prems(3) False by auto
      have x: "0 \<le> x" using Cons.prems(4) by simp
      define t2 where "t2 = (if l = b then t else put_slot t (x * 2 + 1) b)"
      define s2 where "s2 = (if l = b then s else s\<lparr>opt_len := opt_len s + (b - l) * f\<rparr>)"
      have t2: "slot_at t2 (y * 2) = slot_at t (y * 2)" "slot_at t2 (y * 2 + 1) = (if y = x then Some b else slot_at t (y * 2 + 1))" for y
      proof -
        have "y * 2 \<noteq> x * 2 + 1" by presburger
        then show "slot_at t2 (y * 2) = slot_at t (y * 2)" "slot_at t2 (y * 2 + 1) = (if y = x then Some b else slot_at t (y * 2 + 1))"
          using x fl(2) by (simp_all add: t2_def slot_at_put)
      qed
      have s2: "heap_arr s2 = heap_arr s" "bl_count s2 = bl_count s" by (simp_all add: s2_def)
      have "k - 1 \<le> length (filter (\<lambda>x. x \<le> mc) xs)" using Cons.prems(2) False by simp
      moreover have "downwards (heap_arr s2) (h - 1) xs" "\<forall>x \<in> set xs. 0 \<le> x"
        "\<forall>x \<in> set xs. x \<le> mc \<longrightarrow> slot_at t2 (x * 2) \<noteq> None \<and> slot_at t2 (x * 2 + 1) \<noteq> None"
        using at(2) Cons.prems(3,4) by (simp_all add: s2 t2)
      ultimately obtain as bs t1 s1 where
        r: "xs = as @ bs" "deal mc b (int (k - 1)) (h - 1) t2 s2 = Inr (h - 1 - int (length as), t1, s1)"
          "length (filter (\<lambda>x. x \<le> mc) as) = k - 1" "heap_arr s1 = heap_arr s2" "bl_count s1 = bl_count s2"
          "\<forall>x. slot_at t1 (x * 2) = slot_at t2 (x * 2)"
          "\<forall>x. slot_at t1 (x * 2 + 1) = (if x \<in> set as \<and> x \<le> mc then Some b else slot_at t2 (x * 2 + 1))"
        using Cons.IH [of s2 "h - 1" "k - 1" t2] by blast
      have "int k - 1 = int (k - 1)" using k by simp
      then have "deal mc b (int k) h t s = deal mc b (int (k - 1)) (h - 1) t2 s2"
        using k False at(1) fl by (subst deal.simps) (simp add: slot_def t2_def s2_def)
      then show ?thesis using r k False s2
        by (intro exI [of _ "x # as"] exI [of _ bs] exI [of _ t1] exI [of _ s1]) (auto simp: t2)
    qed
  qed
qed

lemma deal_all_lengths:
  shows "\<lbrakk>downwards (heap_arr s) h xs; distinct xs; \<forall>x \<in> set xs. 0 \<le> x; B \<le> 15;
      \<forall>b. 1 \<le> b \<and> b \<le> int B \<longrightarrow> slot_at (bl_count s) b = Some (N b) \<and> 0 \<le> N b;
      int (length (filter (\<lambda>x. x \<le> mc) xs)) = headcount (int B) N;
      \<forall>x \<in> set xs. x \<le> mc \<longrightarrow> slot_at t (x * 2) \<noteq> None \<and> slot_at t (x * 2 + 1) \<noteq> None\<rbrakk> \<Longrightarrow>
    \<exists>t1 s1 L. deal_all mc B h t s = Inr (t1, s1) \<and> bl_count s1 = bl_count s \<and>
      (\<forall>x. slot_at t1 (x * 2) = slot_at t (x * 2)) \<and>
      (\<forall>x \<in> set xs. x \<le> mc \<longrightarrow> slot_at t1 (x * 2 + 1) = Some (L x) \<and> 1 \<le> L x \<and> L x \<le> int B) \<and>
      (\<forall>b. 1 \<le> b \<and> b \<le> int B \<longrightarrow> at_length L {x \<in> set xs. x \<le> mc} b = N b) \<and>
      (\<forall>x. \<not> (x \<in> set xs \<and> x \<le> mc) \<longrightarrow> slot_at t1 (x * 2 + 1) = slot_at t (x * 2 + 1))"
proof (induction B arbitrary: h xs t s)
  case 0
  then show ?case by (auto simp: headcount_def filter_empty_conv)
next
  case (Suc B)
  let ?b = "int (Suc B)"
  have N: "slot_at (bl_count s) ?b = Some (N ?b)" "0 \<le> N ?b" using Suc.prems(5) by auto
  have "{1..?b} = insert ?b {1..int B}" by auto
  then have tot: "headcount ?b N = N ?b + headcount (int B) N" by (simp add: headcount_def)
  have "0 \<le> headcount (int B) N" unfolding headcount_def using Suc.prems(5) by (intro sum_nonneg) auto
  then have k: "nat (N ?b) \<le> length (filter (\<lambda>x. x \<le> mc) xs)" using Suc.prems(6) tot by simp
  obtain as bs t1 s1 where r: "xs = as @ bs" "deal mc ?b (int (nat (N ?b))) h t s = Inr (h - int (length as), t1, s1)"
      "length (filter (\<lambda>x. x \<le> mc) as) = nat (N ?b)" "heap_arr s1 = heap_arr s" "bl_count s1 = bl_count s"
      "\<forall>x. slot_at t1 (x * 2) = slot_at t (x * 2)"
      "\<forall>x. slot_at t1 (x * 2 + 1) = (if x \<in> set as \<and> x \<le> mc then Some ?b else slot_at t (x * 2 + 1))"
    using deal_some [OF Suc.prems(3,1) k Suc.prems(7), of ?b] by blast
  have d: "distinct bs" "set as \<inter> set bs = {}" "distinct as" using Suc.prems(2) r(1) by auto
  have "downwards (heap_arr s1) (h - int (length as)) bs" using downwards_append [of "heap_arr s" h as bs] Suc.prems(1) r(1,4) by simp
  moreover have "int (length (filter (\<lambda>x. x \<le> mc) bs)) = headcount (int B) N" using Suc.prems(6) tot r(1,3) N(2) by simp
  moreover have "\<forall>b. 1 \<le> b \<and> b \<le> int B \<longrightarrow> slot_at (bl_count s1) b = Some (N b) \<and> 0 \<le> N b" using Suc.prems(5) r(5) by simp
  moreover have "\<forall>x \<in> set bs. x \<le> mc \<longrightarrow> slot_at t1 (x * 2) \<noteq> None \<and> slot_at t1 (x * 2 + 1) \<noteq> None"
    using Suc.prems(7) r(1,6,7) by simp
  moreover have "\<forall>x \<in> set bs. 0 \<le> x" "B \<le> 15" using Suc.prems(3,4) r(1) by simp_all
  ultimately obtain t2 s2 L where q: "deal_all mc B (h - int (length as)) t1 s1 = Inr (t2, s2)" "bl_count s2 = bl_count s1"
      "\<forall>x. slot_at t2 (x * 2) = slot_at t1 (x * 2)"
      "\<forall>x \<in> set bs. x \<le> mc \<longrightarrow> slot_at t2 (x * 2 + 1) = Some (L x) \<and> 1 \<le> L x \<and> L x \<le> int B"
      "\<forall>b. 1 \<le> b \<and> b \<le> int B \<longrightarrow> at_length L {x \<in> set bs. x \<le> mc} b = N b"
      "\<forall>x. \<not> (x \<in> set bs \<and> x \<le> mc) \<longrightarrow> slot_at t2 (x * 2 + 1) = slot_at t1 (x * 2 + 1)"
    using Suc.IH [of s1 "h - int (length as)" bs t1] d(1) by auto
  define L1 where "L1 = (\<lambda>x. if x \<in> set as then ?b else L x)"
  have da: "deal_all mc (Suc B) h t s = Inr (t2, s2)" using N r(2) q(1) by (simp add: slot_def)
  have lens: "slot_at t2 (x * 2 + 1) = Some (L1 x) \<and> 1 \<le> L1 x \<and> L1 x \<le> ?b" if "x \<in> set xs" "x \<le> mc" for x
  proof (cases "x \<in> set as")
    case True
    then have "x \<notin> set bs" using d(2) by blast
    then show ?thesis using True that q(6) r(7) by (simp add: L1_def)
  next
    case False
    then have "x \<in> set bs" using that r(1) by simp
    then show ?thesis using False q(4) that(2) by (force simp: L1_def)
  qed
  have cnt: "at_length L1 {x \<in> set xs. x \<le> mc} b = N b" if b: "1 \<le> b" "b \<le> ?b" for b
  proof (cases "b = ?b")
    case True
    have "{x \<in> {x \<in> set xs. x \<le> mc}. L1 x = ?b} = set (filter (\<lambda>x. x \<le> mc) as)"
      using r(1) q(4) by (force simp: L1_def)
    moreover have "card (set (filter (\<lambda>x. x \<le> mc) as)) = nat (N ?b)" using distinct_card [of "filter (\<lambda>x. x \<le> mc) as"] d(3) r(3) by simp
    ultimately show ?thesis using N(2) True by (simp add: at_length_def)
  next
    case False
    have "{x \<in> {x \<in> set xs. x \<le> mc}. L1 x = b} = {x \<in> {x \<in> set bs. x \<le> mc}. L x = b}"
      using r(1) d(2) False by (auto simp: L1_def)
    then show ?thesis using q(5) b False by (simp add: at_length_def)
  qed
  have rest: "slot_at t2 (x * 2 + 1) = slot_at t (x * 2 + 1)" if "\<not> (x \<in> set xs \<and> x \<le> mc)" for x
    using that q(6) r(1,7) by auto
  show ?case using da lens cnt rest q(2,3) r(5,6) by (intro exI [of _ t2] exI [of _ s2] exI [of _ L1]) simp
qed

section \<open>gen_bitlen\<close>

lemma expands_leaves:
  "expands F ps Lf \<Longrightarrow> \<forall>(p, m, n) \<in> set ps. e \<le> p \<Longrightarrow> {x \<in> F \<union> set (children ps). x < e} = {x \<in> Lf. x < e}"
proof (induction ps arbitrary: F)
  case (Cons f ps)
  obtain p m n where f: "f = (p, m, n)" by (cases f)
  have "{x \<in> insert m (insert n (F - {p})) \<union> set (children ps). x < e} = {x \<in> Lf. x < e}"
    using Cons.prems Cons.IH [of "insert m (insert n (F - {p}))"] by (simp add: f)
  moreover have "\<not> p < e" using Cons.prems(2) by (simp add: f)
  ultimately show ?case by (auto simp: f)
qed simp

lemma kraft_weight:
  assumes "finite F" "\<forall>x \<in> F. 1 \<le> L x \<and> L x \<le> M"
  shows "kraft_sum M L F = weight M (at_length L F)" "int (card F) = headcount M (at_length L F)"
proof -
  have S: "L ` F \<subseteq> {1..M}" "finite {1..M}" using assms(2) by auto
  from sum.group [OF assms(1) S(2,1), of "\<lambda>x. (2 :: int) ^ nat (M - L x)"]
  show "kraft_sum M L F = weight M (at_length L F)" by (simp add: kraft_sum_def weight_def at_length_def)
  from sum.group [OF assms(1) S(2,1), of "\<lambda>x. 1 :: int"]
  show "int (card F) = headcount M (at_length L F)" by (simp add: headcount_def at_length_def)
qed

lemma weight_cong: "(\<And>b. 1 \<le> b \<Longrightarrow> b \<le> M \<Longrightarrow> N b = N1 b) \<Longrightarrow> weight M N = weight M N1"
  unfolding weight_def by (rule sum.cong) auto

lemma zero_counts: "0 \<le> i \<Longrightarrow> i \<le> 15 \<Longrightarrow> slot_at (fold (\<lambda>b c. put_slot c (int b) 0) [0..<Suc (nat MAX_BITS)] c) i = Some 0"
proof -
  have "slot_at (fold (\<lambda>b c. put_slot c (int b) 0) [0..<k] c) i = (if 0 \<le> i \<and> i < int k then Some 0 else slot_at c i)" for k
    by (induction k) (auto simp: slot_at_put)
  from this [of "Suc (nat MAX_BITS)"] show "0 \<le> i \<Longrightarrow> i \<le> 15 \<Longrightarrow> ?thesis" by (simp del: upt_Suc)
qed

lemma gen_bitlen_lengths:
  assumes d: "desc_ok d" and g: "growing (elems d) Lf t0 {root} ps t s node" and ps: "ps \<noteq> []"
    and Lf: "Lf \<subseteq> {0..<elems d}" "\<forall>x \<in> Lf. x \<le> mc \<and> slot_at t0 (x * 2) \<noteq> None" "mc < elems d"
    and s1: "slot_at (heap_arr s1) (heap_max s1) = Some root" "listed (heap_arr s1) (heap_max s1 + 1) (children ps)"
  shows "\<exists>t2 s2 L. gen_bitlen d mc t s1 = Inr (t2, s2) \<and> (\<forall>x. slot_at t2 (x * 2) = slot_at t (x * 2)) \<and>
    (\<forall>x \<in> Lf. slot_at t2 (x * 2 + 1) = Some (L x) \<and> 1 \<le> L x \<and> L x \<le> max_length d) \<and>
    kraft_sum (max_length d) L Lf = 2 ^ nat (max_length d) \<and>
    slot_at (bl_count s2) 0 = Some 0 \<and> (\<forall>b. 1 \<le> b \<and> b \<le> 15 \<longrightarrow> slot_at (bl_count s2) b = Some (at_length L Lf b)) \<and>
    (\<forall>x. 0 \<le> x \<and> x < elems d \<and> x \<notin> Lf \<longrightarrow> slot_at t2 (x * 2 + 1) = slot_at t (x * 2 + 1))"
proof -
  let ?e = "elems d" and ?M = "max_length d"
  note G = g [unfolded growing_def]
  have M: "1 \<le> ?M" "?M \<le> 15" "?e \<le> 2 ^ nat ?M" using d by (simp_all add: desc_ok_def)
  have fin: "finite Lf" using Lf(1) by (rule finite_subset) simp
  have exp: "expands {root} ps Lf" and fs: "\<forall>(p, m, n) \<in> set ps. ?e \<le> p" and fa: "fathered t ps" and
    dist: "distinct (children ps)" and disj: "{root} \<inter> set (children ps) = {}" using G by blast+
  have ids: "\<forall>x \<in> {root} \<union> set (children ps). 0 \<le> x \<and> x < node \<and> (x < ?e \<longrightarrow> x \<in> Lf)"
    and even: "\<forall>x. 0 \<le> x \<and> x < ?e \<longrightarrow> slot_at t (x * 2) = slot_at t0 (x * 2)" using G by blast+
  have leaf: "{x \<in> {root} \<union> set (children ps). x < ?e} = Lf" using expands_leaves [OF exp fs] Lf(1) by auto
  obtain m n ps1 where p1: "ps = (root, m, n) # ps1" using exp ps by (cases ps) auto
  have root: "0 \<le> root" "?e \<le> root" using fs ids by (auto simp: p1)
  let ?c = "fold (\<lambda>b c. put_slot c (int b) 0) [0..<Suc (nat MAX_BITS)] (bl_count s1)"
  let ?t = "put_slot t (root * 2 + 1) 0" and ?s = "s1\<lparr>bl_count := ?c\<rparr>"
  have t: "slot_at ?t (x * 2) = slot_at t (x * 2)" "x \<noteq> root \<Longrightarrow> slot_at ?t (x * 2 + 1) = slot_at t (x * 2 + 1)" for x
  proof -
    have "x * 2 \<noteq> root * 2 + 1" by presburger
    then show "slot_at ?t (x * 2) = slot_at t (x * 2)" "x \<noteq> root \<Longrightarrow> slot_at ?t (x * 2 + 1) = slot_at t (x * 2 + 1)"
      using root(1) by (simp_all add: slot_at_put)
  qed
  have pass: "passing ?M ?e {root} ?t (bl_count ?s) 0 (\<lambda>x. 0)"
    unfolding passing_def
  proof (intro conjI allI impI)
    fix b :: int assume "0 \<le> b \<and> b \<le> 15"
    moreover have "{x \<in> {x \<in> {root}. x < ?e}. 0 = b} = {}" using root(2) by auto
    ultimately show "slot_at (bl_count ?s) b = Some (at_length (\<lambda>x. 0) {x \<in> {root}. x < ?e} b)"
      using zero_counts [of b "bl_count s1"] by (simp add: at_length_def)
  qed (use root M in \<open>simp_all add: slot_at_put kraft_sum_def\<close>)
  have "fathered ?t ps \<longleftrightarrow> fathered t ps"
  proof (rule fathered_cong)
    fix x assume "x \<in> set (children ps)"
    then have "x \<noteq> root" using disj by auto
    then show "slot_at ?t (x * 2 + 1) = slot_at t (x * 2 + 1)" by (rule t(2))
  qed
  with fa have fa1: "fathered ?t ps" by simp
  have ls: "listed (heap_arr ?s) (heap_max s1 + 1) (children ps)" using s1(2) by simp
  have id1: "\<forall>x \<in> {root} \<union> set (children ps). 0 \<le> x \<and> (x < ?e \<longrightarrow> x \<le> mc \<and> slot_at ?t (x * 2) \<noteq> None)"
  proof
    fix x assume x: "x \<in> {root} \<union> set (children ps)"
    then have "0 \<le> x" "x < ?e \<longrightarrow> x \<in> Lf" using ids by auto
    then show "0 \<le> x \<and> (x < ?e \<longrightarrow> x \<le> mc \<and> slot_at ?t (x * 2) \<noteq> None)" using Lf(2) even t(1) by auto
  qed
  from first_pass_all [OF d refl Lf(3) refl pass exp fs fa1 dist disj ls id1] obtain t2 s2 v L where
    fp: "first_pass d mc (heap_max s1 + 1) (?t, ?s, 0) = Inr (t2, s2, v)" and
    pass2: "passing ?M ?e Lf t2 (bl_count s2) v L" and h2: "heap_arr s2 = heap_arr s1" and
    t2: "\<forall>x. slot_at t2 (x * 2) = slot_at ?t (x * 2)" "\<forall>x. x \<notin> set (children ps) \<longrightarrow> slot_at t2 (x * 2 + 1) = slot_at ?t (x * 2 + 1)" by auto
  note P = pass2 [unfolded passing_def]
  have below: "{x \<in> Lf. x < ?e} = Lf" using Lf(1) by auto
  have L: "\<forall>x \<in> Lf. slot_at t2 (x * 2 + 1) = Some (L x) \<and> 1 \<le> L x \<and> L x \<le> ?M" using P Lf(1) by auto
  have cnt: "\<forall>b. 0 \<le> b \<and> b \<le> 15 \<longrightarrow> slot_at (bl_count s2) b = Some (at_length L Lf b)" using P below by simp
  have none: "slot_at t2 (x * 2 + 1) = slot_at t (x * 2 + 1)" if "0 \<le> x" "x < ?e" "x \<notin> Lf" for x
  proof -
    have "x \<notin> {root} \<union> set (children ps)" using that leaf by blast
    then show ?thesis using t2(2) t(2) by simp
  qed
  have z: "at_length L Lf 0 = 0" by (rule at_length_none) (use L in force)
  have gb: "gen_bitlen d mc t s1 = (if v = 0 then Inr (t2, s2)
      else ebind (shed ?M v (bl_count s2)) (\<lambda>c. deal_all mc (nat ?M) 573 t2 (s2\<lparr>bl_count := c\<rparr>)))"
    using s1(1) fp by (simp add: gen_bitlen_def Let_def slot_def del: upt_Suc)
  show ?thesis
  proof (cases "v = 0")
    case True
    then show ?thesis using gb L cnt z none t2(1) t(1) P by (intro exI [of _ t2] exI [of _ s2] exI [of _ L]) simp
  next
    case False
    have v: "0 < v" "v + 2 \<le> 2 * at_length L Lf ?M" "2 * kraft_sum ?M L Lf = 2 * 2 ^ nat ?M + v" using P False by auto
    note kw = kraft_weight [OF fin, of L ?M]
    have tl: "tallies ?M (at_length L Lf) (bl_count s2)"
      unfolding tallies_def
    proof (intro conjI allI impI)
      fix b assume "?M < b"
      then show "at_length L Lf b = 0" using L by (intro at_length_none) force
    qed (use cnt z in \<open>auto simp: at_length_nonneg\<close>)
    have "card Lf \<le> card {0..<?e}" using Lf(1) by (intro card_mono) auto
    then have "card Lf \<le> nat ?e" by simp
    moreover have "3 \<le> ?e" using d by (simp add: desc_ok_def)
    ultimately have "int (card Lf) \<le> ?e" by linarith
    moreover have "headcount ?M (at_length L Lf) = int (card Lf)" using kw(2) L by simp
    ultimately have "headcount ?M (at_length L Lf) \<le> 2 ^ nat ?M" using M(3) by linarith
    with shed_lengths [OF M(1,2) tl v(1) _ v(2)] v(3) kw L obtain c N where
      c: "shed ?M v (bl_count s2) = Inr c" "tallies ?M N c" "weight ?M N = 2 ^ nat ?M" "headcount ?M N = headcount ?M (at_length L Lf)" by auto
    let ?s2 = "s2\<lparr>bl_count := c\<rparr>" and ?xs = "rev (children ps) @ [root]"
    have nM: "int (nat ?M) = ?M" using M by simp
    have mc: "x \<le> mc \<longleftrightarrow> x < ?e" if "x \<in> set ?xs" for x using that ids Lf(2,3) by auto
    have lx: "{x \<in> set ?xs. x \<le> mc} = Lf"
    proof -
      have "{x \<in> set ?xs. x \<le> mc} = {x \<in> set ?xs. x < ?e}" using mc by blast
      also have "\<dots> = Lf" using leaf by auto
      finally show ?thesis .
    qed
    have dx: "distinct ?xs" using dist disj by simp
    have "downwards (heap_arr ?s2) 573 (rev (root # children ps))"
      using s1 h2 by (intro listed_downwards [of _ "heap_max s1"]) (simp add: listed_Cons)
    then have dw: "downwards (heap_arr ?s2) 573 ?xs" by simp
    have "length (filter (\<lambda>x. x \<le> mc) ?xs) = card {x \<in> set ?xs. x \<le> mc}"
      using distinct_card [of "filter (\<lambda>x. x \<le> mc) ?xs"] dx by (simp only: distinct_filter set_filter)
    then have len: "int (length (filter (\<lambda>x. x \<le> mc) ?xs)) = headcount (int (nat ?M)) N" unfolding lx nM using kw(2) L c(4) by simp
    have "\<forall>b. 1 \<le> b \<and> b \<le> int (nat ?M) \<longrightarrow> slot_at (bl_count ?s2) b = Some (N b) \<and> 0 \<le> N b" "\<forall>x \<in> set ?xs. 0 \<le> x" "nat ?M \<le> 15"
      "\<forall>x \<in> set ?xs. x \<le> mc \<longrightarrow> slot_at t2 (x * 2) \<noteq> None \<and> slot_at t2 (x * 2 + 1) \<noteq> None"
    proof -
      show "\<forall>b. 1 \<le> b \<and> b \<le> int (nat ?M) \<longrightarrow> slot_at (bl_count ?s2) b = Some (N b) \<and> 0 \<le> N b"
        using c(2) M by (simp add: tallies_def)
      show "\<forall>x \<in> set ?xs. 0 \<le> x" "nat ?M \<le> 15" using ids M by auto
      have "x \<in> Lf" if "x \<in> set ?xs" "x \<le> mc" for x using that lx by blast
      then show "\<forall>x \<in> set ?xs. x \<le> mc \<longrightarrow> slot_at t2 (x * 2) \<noteq> None \<and> slot_at t2 (x * 2 + 1) \<noteq> None"
        using L id1 t2(1) leaf by auto
    qed
    from deal_all_lengths [OF dw dx this(2,3,1) len this(4)] obtain t3 s3 L1 where
      r: "deal_all mc (nat ?M) 573 t2 ?s2 = Inr (t3, s3)" "bl_count s3 = c" "\<forall>x. slot_at t3 (x * 2) = slot_at t2 (x * 2)"
        "\<forall>x \<in> set ?xs. x \<le> mc \<longrightarrow> slot_at t3 (x * 2 + 1) = Some (L1 x) \<and> 1 \<le> L1 x \<and> L1 x \<le> int (nat ?M)"
        "\<forall>b. 1 \<le> b \<and> b \<le> int (nat ?M) \<longrightarrow> at_length L1 {x \<in> set ?xs. x \<le> mc} b = N b"
        "\<forall>x. \<not> (x \<in> set ?xs \<and> x \<le> mc) \<longrightarrow> slot_at t3 (x * 2 + 1) = slot_at t2 (x * 2 + 1)" by auto
    have L1: "\<forall>x \<in> Lf. slot_at t3 (x * 2 + 1) = Some (L1 x) \<and> 1 \<le> L1 x \<and> L1 x \<le> ?M" using r(4) lx unfolding nM by blast
    have N: "at_length L1 Lf b = N b" if "1 \<le> b" "b \<le> ?M" for b using r(5) that unfolding nM lx by simp
    have "kraft_sum ?M L1 Lf = weight ?M (at_length L1 Lf)" by (rule kraft_weight(1) [OF fin]) (use L1 in auto)
    also have "\<dots> = weight ?M N" by (rule weight_cong) (rule N)
    finally have K: "kraft_sum ?M L1 Lf = 2 ^ nat ?M" using c(3) by simp
    have "at_length L1 Lf b = N b" if "1 \<le> b" for b
    proof (cases "b \<le> ?M")
      case False
      then have "N b = 0" using c(2) by (simp add: tallies_def)
      moreover have "at_length L1 Lf b = 0" using L1 False by (intro at_length_none) force
      ultimately show ?thesis by simp
    qed (use N that in simp)
    then have "\<forall>b. 1 \<le> b \<and> b \<le> 15 \<longrightarrow> slot_at (bl_count s3) b = Some (at_length L1 Lf b)" using c(2) r(2) by (simp add: tallies_def)
    moreover have "slot_at (bl_count s3) 0 = Some 0" using c(2) r(2) by (simp add: tallies_def)
    moreover have "gen_bitlen d mc t s1 = Inr (t3, s3)" using gb False c(1) r(1) by simp
    moreover have "\<forall>x. 0 \<le> x \<and> x < ?e \<and> x \<notin> Lf \<longrightarrow> slot_at t3 (x * 2 + 1) = slot_at t (x * 2 + 1)"
    proof (intro allI impI)
      fix x assume x: "0 \<le> x \<and> x < ?e \<and> x \<notin> Lf"
      then have "\<not> (x \<in> set ?xs \<and> x \<le> mc)" using lx by blast
      then have "slot_at t3 (x * 2 + 1) = slot_at t2 (x * 2 + 1)" by (rule r(6) [rule_format])
      with none [of x] x show "slot_at t3 (x * 2 + 1) = slot_at t (x * 2 + 1)" by simp
    qed
    ultimately show ?thesis using L1 K r(3) t2(1) t(1) by (intro exI [of _ t3] exI [of _ s3] exI [of _ L1]) simp
  qed
qed

end
