(* ===== verification/Defl_Dynamic.thy ===== *)
theory Defl_Dynamic
  imports Defl_Codes Deflate
begin

text \<open>
  Blocks with their own codes: the description of the codes that \<open>send_all_trees\<close> of
  \<^verbatim>\<open>html/lib/deflate.js\<close> sends is read back by the decoder of RFC 1951, 3.2.7, and the symbols
  that follow are decoded with these codes.
\<close>

section \<open>The decoder of RFC 1951\<close>

text \<open>One code length or run of them: the value, how often it is repeated, the bits left.\<close>

definition decode_run :: "code \<Rightarrow> int list \<Rightarrow> bool list \<Rightarrow> (int \<times> nat \<times> bool list) option" where
  "decode_run cs acc bs =
     Option.bind (decode_symbol cs bs) (\<lambda>(s, bs1).
       if s < 16 then Some (s, 0, bs1)
       else if s = 16 then
         (if acc = [] then None
          else Option.bind (take_value 2 bs1) (\<lambda>(x, bs2). Some (last acc, 2 + nat x, bs2)))
       else if s = 17 then Option.bind (take_value 3 bs1) (\<lambda>(x, bs2). Some (0, 2 + nat x, bs2))
       else Option.bind (take_value 7 bs1) (\<lambda>(x, bs2). Some (0, 10 + nat x, bs2)))"

function decode_lens :: "code \<Rightarrow> nat \<Rightarrow> int list \<Rightarrow> bool list \<Rightarrow> (int list \<times> bool list) option" where
  "decode_lens cs n acc bs =
     (if n \<le> length acc then (if length acc = n then Some (acc, bs) else None)
      else case decode_run cs acc bs of
        None \<Rightarrow> None
      | Some (v, m, bs1) \<Rightarrow> decode_lens cs n (acc @ replicate (Suc m) v) bs1)"
  by pat_completeness auto
termination by (relation "measure (\<lambda>(cs, n, acc, bs). n - length acc)") auto

declare decode_lens.simps [simp del]

fun take_values :: "int \<Rightarrow> nat \<Rightarrow> bool list \<Rightarrow> (int list \<times> bool list) option" where
  "take_values w 0 bs = Some ([], bs)"
| "take_values w (Suc m) bs =
     Option.bind (take_value w bs) (\<lambda>(x, bs1).
     Option.bind (take_values w m bs1) (\<lambda>(xs, bs2). Some (x # xs, bs2)))"

definition rfc_order :: "int list" where
  "rfc_order = [16, 17, 18, 0, 8, 7, 9, 6, 10, 5, 11, 4, 12, 3, 13, 2, 14, 1, 15]"

definition order_lens :: "int list \<Rightarrow> nat \<Rightarrow> nat" where
  "order_lens vs i = (case map_of (zip rfc_order vs) (int i) of None \<Rightarrow> 0 | Some v \<Rightarrow> nat v)"

definition list_lens :: "int list \<Rightarrow> nat \<Rightarrow> nat" where
  "list_lens ls i = (if i < length ls then nat (ls ! i) else 0)"

text \<open>The code lengths of the literals and copy lengths, those of the distances, and the bits left.\<close>

definition decode_header :: "bool list \<Rightarrow> (int list \<times> int list \<times> bool list) option" where
  "decode_header bs =
     Option.bind (take_value 5 bs) (\<lambda>(hlit, bs1).
     Option.bind (take_value 5 bs1) (\<lambda>(hdist, bs2).
     Option.bind (take_value 4 bs2) (\<lambda>(hclen, bs3).
     Option.bind (take_values 3 (nat hclen + 4) bs3) (\<lambda>(vs, bs4).
     Option.bind (decode_lens (canonical (order_lens vs) 19) (nat hlit + 257 + (nat hdist + 1)) [] bs4) (\<lambda>(ls, bs5).
       Some (take (nat hlit + 257) ls, drop (nat hlit + 257) ls, bs5))))))"

definition decode_dynamic :: "nat \<Rightarrow> bool list \<Rightarrow> (token list \<times> bool list) option" where
  "decode_dynamic n bs =
     Option.bind (decode_header bs) (\<lambda>(ls, ds, bs1).
       decode_tokens n (canonical (list_lens ls) (length ls)) (canonical (list_lens ds) (length ds)) bs1)"

section \<open>Runs\<close>

text \<open>What is sent for a run: symbols of \<open>bl_tree\<close>, each with the width and the value of its extra bits.\<close>

type_synonym item = "int \<times> int \<times> int"

definition run_items :: "int \<Rightarrow> int option \<Rightarrow> int \<Rightarrow> int \<Rightarrow> item list" where
  "run_items min_count pre c count =
     (if count < min_count then replicate (nat count) (c, 0, 0)
      else if c \<noteq> 0 then
        (if Some c \<noteq> pre then [(c, 0, 0), (16, 2, count - 4)] else [(16, 2, count - 3)])
      else if count \<le> 10 then [(17, 3, count - 3)]
      else [(18, 7, count - 11)])"

text \<open>The runs of a list of lengths, \<open>count\<close> of the first one already seen; \<open>pre\<close> is the length before.\<close>

fun items :: "int option \<Rightarrow> int \<Rightarrow> int list \<Rightarrow> item list" where
  "items pre count [] = []"
| "items pre count (c # ls) =
     (let nxt = (case ls of [] \<Rightarrow> Some 0xffff | d # ds \<Rightarrow> Some d); lims = run_limits pre (Some c) in
      if count + 1 < fst lims \<and> Some c = nxt then items pre (count + 1) ls
      else run_items (snd lims) pre c (count + 1) @ items (Some c) 0 ls)"

definition item_bits :: "slots \<Rightarrow> item \<Rightarrow> bool list" where
  "item_bits bl = (\<lambda>(s, w, v). code_bits bl s @ bits_of (nat w) v)"

definition items_bits :: "slots \<Rightarrow> item list \<Rightarrow> bool list" where
  "items_bits bl its = concat (map (item_bits bl) its)"

lemma items_bits_simps [simp]:
  "items_bits bl [] = []" "items_bits bl (it # its) = item_bits bl it @ items_bits bl its"
  "items_bits bl (as @ bs) = items_bits bl as @ items_bits bl bs"
  by (simp_all add: items_bits_def)

definition item_range :: "int \<Rightarrow> int \<Rightarrow> int \<Rightarrow> bool" where
  "item_range s w v \<longleftrightarrow> 0 \<le> s \<and> s < 19 \<and> 0 \<le> v \<and> v < 2 ^ nat w \<and>
     w = (if s < 16 then 0 else if s = 16 then 2 else if s = 17 then 3 else 7)"

definition item_ok :: "slots \<Rightarrow> item \<Rightarrow> bool" where
  "item_ok bl = (\<lambda>(s, w, v). code_ok bl s \<and> item_range s w v)"

section \<open>Sending\<close>

lemma send_item:
  assumes "item_ok bl (s, w, v)" "room_for o1 (int (length (item_bits bl (s, w, v))))" "0 < w"
  shows "sends o1 (item_bits bl (s, w, v)) (send_bits v w (send_code s bl o1))"
proof -
  have ok: "code_ok bl s" "w \<le> 16" "0 \<le> v" "v < 2 ^ nat w" using assms(1) by (auto simp: item_ok_def item_range_def split: if_splits)
  have room: "room_for o1 (int (length (code_bits bl s)) + w)" using assms(2,3) by (simp add: item_bits_def)
  have s: "sends o1 (code_bits bl s) (send_code s bl o1)"
    by (rule send_code_sends [OF ok(1)]) (use assms(3) in \<open>auto intro: room_less [OF room]\<close>)
  have "sends (send_code s bl o1) (bits_of (nat w) v) (send_bits v w (send_code s bl o1))"
    by (rule send_bits_sends [OF sends_room [OF s room]]) (use ok assms(3) in simp_all)
  with s show ?thesis unfolding item_bits_def by (simp add: sends_trans)
qed

lemma send_code_item:
  assumes "item_ok bl (s, 0, v)" "room_for o1 (int (length (item_bits bl (s, 0, v))))"
  shows "sends o1 (item_bits bl (s, 0, v)) (send_code s bl o1)"
  using assms send_code_sends [of bl s o1] by (simp add: item_bits_def item_ok_def)

lemma send_times_sends:
  assumes "item_ok bl (s, 0, 0)" "room_for o1 (int (length (items_bits bl (replicate n (s, 0, 0)))))"
  shows "sends o1 (items_bits bl (replicate n (s, 0, 0))) (send_times n s bl o1)"
  using assms(2)
proof (induction n arbitrary: o1)
  case 0
  then show ?case by (simp add: sends_refl room_for_def)
next
  case (Suc n)
  have room: "room_for o1 (int (length (item_bits bl (s, 0, 0))) + int (length (items_bits bl (replicate n (s, 0, 0)))))"
    using Suc.prems by simp
  have s: "sends o1 (item_bits bl (s, 0, 0)) (send_code s bl o1)"
    by (rule send_code_item [OF assms(1)]) (auto intro: room_less [OF room])
  from Suc.IH [OF sends_room [OF s room]] s show ?case by (simp add: sends_trans)
qed

lemma send_run_sends:
  assumes "\<forall>it \<in> set (run_items mn pre c count). item_ok bl it"
    "room_for o1 (int (length (items_bits bl (run_items mn pre c count))))" "0 < count"
  shows "sends o1 (items_bits bl (run_items mn pre c count)) (send_run bl mn pre c count o1)"
proof (cases "count < mn")
  case True
  then show ?thesis using assms send_times_sends [of bl c o1 "nat count"]
    by (simp add: run_items_def send_run_def)
next
  case False
  show ?thesis
  proof (cases "c \<noteq> 0 \<and> Some c \<noteq> pre")
    case True
    have ok: "item_ok bl (c, 0, 0)" "item_ok bl (16, 2, count - 4)" using assms(1) True False by (simp_all add: run_items_def)
    have room: "room_for o1 (int (length (item_bits bl (c, 0, 0))) + int (length (item_bits bl (16, 2, count - 4))))"
      using assms(2) True False by (simp add: run_items_def)
    have s: "sends o1 (item_bits bl (c, 0, 0)) (send_code c bl o1)"
      by (rule send_code_item [OF ok(1)]) (auto intro: room_less [OF room])
    have "sends (send_code c bl o1) (item_bits bl (16, 2, count - 4)) (send_bits (count - 4) 2 (send_code 16 bl (send_code c bl o1)))"
      by (rule send_item [OF ok(2) sends_room [OF s room]]) simp
    with s show ?thesis using True False by (simp add: run_items_def send_run_def sends_trans)
  next
    case same: False
    have "item_ok bl (16, 2, count - 3) \<Longrightarrow> room_for o1 (int (length (item_bits bl (16, 2, count - 3)))) \<Longrightarrow>
        sends o1 (item_bits bl (16, 2, count - 3)) (send_bits (count - 3) 2 (send_code 16 bl o1))"
      "item_ok bl (17, 3, count - 3) \<Longrightarrow> room_for o1 (int (length (item_bits bl (17, 3, count - 3)))) \<Longrightarrow>
        sends o1 (item_bits bl (17, 3, count - 3)) (send_bits (count - 3) 3 (send_code 17 bl o1))"
      "item_ok bl (18, 7, count - 11) \<Longrightarrow> room_for o1 (int (length (item_bits bl (18, 7, count - 11)))) \<Longrightarrow>
        sends o1 (item_bits bl (18, 7, count - 11)) (send_bits (count - 11) 7 (send_code 18 bl o1))"
      by (auto intro: send_item)
    then show ?thesis using assms(1,2) same False by (auto simp: run_items_def send_run_def)
  qed
qed

text \<open>The lengths of the symbols from \<open>n\<close> on, and the mark behind them.\<close>

definition lens_from :: "slots \<Rightarrow> int \<Rightarrow> int list \<Rightarrow> bool" where
  "lens_from t n ls \<longleftrightarrow> (\<forall>i < length ls. slot_at t ((n + int i) * 2 + 1) = Some (ls ! i)) \<and>
     slot_at t ((n + int (length ls)) * 2 + 1) = Some 0xffff"

lemma lens_from_Cons: "lens_from t n (c # ls) \<longleftrightarrow> slot_at t (n * 2 + 1) = Some c \<and> lens_from t (n + 1) ls"
  by (auto simp: lens_from_def less_Suc_eq_0_disj algebra_simps)

lemma lens_from_next: "lens_from t n ls \<Longrightarrow> slot_at t (n * 2 + 1) = (case ls of [] \<Rightarrow> Some 0xffff | d # ds \<Rightarrow> Some d)"
  by (cases ls) (simp_all add: lens_from_Cons, simp add: lens_from_def)

lemma send_from_sends:
  assumes "lens_from t n ls" "\<forall>it \<in> set (items pre count ls). item_ok bl it" "0 \<le> count"
    "room_for o1 (int (length (items_bits bl (items pre count ls))))"
  shows "\<exists>o2. send_from (length ls) n t bl pre (slot_at t (n * 2 + 1)) count (run_limits pre (slot_at t (n * 2 + 1))) o1 = Inr o2 \<and>
    sends o1 (items_bits bl (items pre count ls)) o2"
  using assms
proof (induction ls arbitrary: n pre count o1)
  case Nil
  then show ?case by (simp add: sends_refl room_for_def)
next
  case (Cons c ls)
  define lims where "lims = run_limits pre (Some c)"
  define nxt where "nxt = (case ls of [] \<Rightarrow> Some 0xffff | d # ds \<Rightarrow> Some d)"
  have t: "slot_at t (n * 2 + 1) = Some c" "lens_from t (n + 1) ls" using Cons.prems(1) by (simp_all add: lens_from_Cons)
  have nx: "slot_at t ((n + 1) * 2 + 1) = nxt" unfolding nxt_def by (rule lens_from_next [OF t(2)])
  have step: "send_from (length (c # ls)) n t bl pre (slot_at t (n * 2 + 1)) count (run_limits pre (slot_at t (n * 2 + 1))) o1 =
      (if count + 1 < fst lims \<and> Some c = nxt then send_from (length ls) (n + 1) t bl pre nxt (count + 1) lims o1
       else send_from (length ls) (n + 1) t bl (Some c) nxt 0 (run_limits (Some c) nxt) (send_run bl (snd lims) pre c (count + 1) o1))"
    unfolding list.size(4) Nat.add_0_right add_Suc_right send_from.simps Let_def t(1) nx lims_def
      known_def option.case ebind.simps ..
  show ?case
  proof (cases "count + 1 < fst lims \<and> Some c = nxt")
    case True
    then have it: "items pre count (c # ls) = items pre (count + 1) ls"
      unfolding items.simps Let_def lims_def nxt_def by (rule if_P)
    have "lims = run_limits pre nxt" using True by (simp add: lims_def)
    then show ?thesis using Cons.IH [OF t(2), of pre "count + 1" o1] Cons.prems(2-4) True unfolding it step nx by simp
  next
    case False
    let ?run = "run_items (snd lims) pre c (count + 1)"
    have it: "items pre count (c # ls) = ?run @ items (Some c) 0 ls" using False by (auto simp: lims_def nxt_def Let_def)
    let ?o = "send_run bl (snd lims) pre c (count + 1) o1"
    have room: "room_for o1 (int (length (items_bits bl ?run)) + int (length (items_bits bl (items (Some c) 0 ls))))"
      using Cons.prems(4) unfolding it by simp
    have run: "sends o1 (items_bits bl ?run) ?o"
      using Cons.prems(2,3) room_less [OF room] unfolding it set_append by (intro send_run_sends) simp_all
    from Cons.IH [OF t(2), of "Some c" 0 ?o] Cons.prems(2) sends_room [OF run room] obtain o2 where
      o2: "send_from (length ls) (n + 1) t bl (Some c) nxt 0 (run_limits (Some c) nxt) ?o = Inr o2"
      "sends ?o (items_bits bl (items (Some c) 0 ls)) o2" unfolding it nx by auto
    with step False sends_trans [OF run] show ?thesis unfolding it by auto
  qed
qed

lemma first_limits: "first_limits x = run_limits (Some (- 1)) x" if "x \<noteq> Some (- 1)"
  using that by (auto simp: first_limits_def run_limits_def)

lemma send_tree_sends:
  assumes "lens_from t 0 ls" "\<forall>l \<in> set ls. 0 \<le> l" "\<forall>it \<in> set (items (Some (- 1)) 0 ls). item_ok bl it"
    "room_for o1 (int (length (items_bits bl (items (Some (- 1)) 0 ls))))"
  obtains o2 where "send_tree t (int (length ls) - 1) bl o1 = Inr o2" "sends o1 (items_bits bl (items (Some (- 1)) 0 ls)) o2"
proof -
  have "slot_at t 1 \<noteq> Some (- 1)" using lens_from_next [OF assms(1)] assms(2) by (cases ls) auto
  then show thesis using send_from_sends [OF assms(1,3) _ assms(4)] that
    by (auto simp: send_tree_def first_limits)
qed

section \<open>Decoding the runs\<close>

lemma covers_mem: "item_ok bl (s, w, v) \<Longrightarrow> covers 19 bl cs \<Longrightarrow> (code_bits bl s, s) \<in> set cs"
  by (simp add: item_ok_def item_range_def covers_def)

lemma decode_lens_run:
  assumes "length acc < n" "decode_run cs acc bs = Some (v, m, bs1)"
  shows "decode_lens cs n acc bs = decode_lens cs n (acc @ replicate (Suc m) v) bs1"
  using assms by (subst decode_lens.simps) simp

lemma decode_item:
  assumes "prefix_free cs" "covers 19 bl cs" "item_ok bl (s, w, v)" "s = 16 \<Longrightarrow> acc \<noteq> []"
  shows "decode_run cs acc (item_bits bl (s, w, v) @ rest) =
    Some (if s < 16 then s else if s = 16 then last acc else 0,
      if s < 16 then 0 else if s = 18 then 10 + nat v else 2 + nat v, rest)"
proof -
  have v: "0 \<le> v" "v < 2 ^ nat w" "w = (if s < 16 then 0 else if s = 16 then 2 else if s = 17 then 3 else 7)" "s < 19"
    using assms(3) unfolding item_ok_def item_range_def split by blast+
  note d = decode_symbol_code [OF assms(1) covers_mem [OF assms(3,2)]] take_value_bits [OF v(1,2)]
  have e: "decode_run cs acc (item_bits bl (s, w, v) @ rest) =
      (if s < 16 then Some (s, 0, bits_of (nat w) v @ rest)
       else if s = 16 then
         (if acc = [] then None
          else Option.bind (take_value 2 (bits_of (nat w) v @ rest)) (\<lambda>(x, bs2). Some (last acc, 2 + nat x, bs2)))
       else if s = 17 then Option.bind (take_value 3 (bits_of (nat w) v @ rest)) (\<lambda>(x, bs2). Some (0, 2 + nat x, bs2))
       else Option.bind (take_value 7 (bits_of (nat w) v @ rest)) (\<lambda>(x, bs2). Some (0, 10 + nat x, bs2)))"
    unfolding decode_run_def item_bits_def split append_assoc d(1) Option.bind.bind_lunit by simp
  show ?thesis
  proof (cases "s < 16")
    case True
    with v(3) show ?thesis unfolding e by simp
  next
    case False
    then consider "s = 16" | "s = 17" | "s = 18" using v(4) by linarith
    then show ?thesis using d(2) v(3) assms(4) unfolding e by cases simp_all
  qed
qed

lemma decode_lens_item:
  assumes "prefix_free cs" "covers 19 bl cs" "item_ok bl (s, w, v)" "s = 16 \<Longrightarrow> acc \<noteq> []" "length acc < n"
  shows "decode_lens cs n acc (item_bits bl (s, w, v) @ rest) =
    decode_lens cs n (acc @ replicate (if s < 16 then 1 else if s = 18 then 11 + nat v else 3 + nat v)
      (if s < 16 then s else if s = 16 then last acc else 0)) rest"
  using decode_lens_run [OF assms(5) decode_item [OF assms(1-4)]] by (simp add: numeral_eq_Suc)

lemma decode_times:
  assumes "prefix_free cs" "covers 19 bl cs" "item_ok bl (c, 0, 0)" "c < 16" "length acc + k \<le> n"
  shows "decode_lens cs n acc (items_bits bl (replicate k (c, 0, 0)) @ rest) = decode_lens cs n (acc @ replicate k c) rest"
  using assms(5)
proof (induction k arbitrary: acc)
  case (Suc k)
  then show ?case using decode_lens_item [OF assms(1-3), of acc n] assms(4) by simp
qed simp

lemma run_limits_cases:
  assumes "lims = run_limits pre (Some c)"
  shows "c = 0 \<and> lims = (138, 3) \<or> c \<noteq> 0 \<and> pre = Some c \<and> lims = (6, 3) \<or> c \<noteq> 0 \<and> pre \<noteq> Some c \<and> lims = (7, 4)"
  using assms by (auto simp: run_limits_def)

lemma run_items_range:
  assumes "(s, w, v) \<in> set (run_items (snd lims) pre c count)" "lims = run_limits pre (Some c)"
    "0 \<le> count" "count \<le> fst lims" "0 \<le> c" "c < 16"
  shows "item_range s w v"
  using run_limits_cases [OF assms(2)] assms(1,3-6) by (auto simp: item_range_def run_items_def split: if_splits)

lemma items_range:
  assumes "(s, w, v) \<in> set (items pre count ls)" "\<forall>l \<in> set ls. 0 \<le> l \<and> l < 16" "0 \<le> count"
    "ls \<noteq> [] \<Longrightarrow> count < fst (run_limits pre (Some (hd ls)))"
  shows "item_range s w v"
  using assms
proof (induction ls arbitrary: pre count)
  case (Cons c ls)
  define lims where "lims = run_limits pre (Some c)"
  show ?case
  proof (cases "count + 1 < fst lims \<and> Some c = (case ls of [] \<Rightarrow> Some 0xffff | d # ds \<Rightarrow> Some d)")
    case True
    have it: "items pre count (c # ls) = items pre (count + 1) ls"
      using True unfolding items.simps Let_def lims_def by (rule if_P)
    have "ls \<noteq> [] \<Longrightarrow> count + 1 < fst (run_limits pre (Some (hd ls)))" using True by (cases ls) (auto simp: lims_def)
    with Cons.prems(1-3) show ?thesis unfolding it by (intro Cons.IH [of pre "count + 1"]) simp_all
  next
    case False
    have it: "items pre count (c # ls) = run_items (snd lims) pre c (count + 1) @ items (Some c) 0 ls"
      using False unfolding items.simps Let_def lims_def by (rule if_not_P)
    have "0 < fst (run_limits (Some c) (Some (hd ls)))" by (simp add: run_limits_def)
    moreover have "count + 1 \<le> fst lims" using Cons.prems(4) by (simp add: lims_def)
    moreover have "(s, w, v) \<in> set (run_items (snd lims) pre c (count + 1)) \<or> (s, w, v) \<in> set (items (Some c) 0 ls)"
      using Cons.prems(1) unfolding it by simp
    ultimately show ?thesis using Cons.prems(2,3) Cons.IH [of "Some c" 0] run_items_range [OF _ lims_def]
      by auto
  qed
qed simp

lemma items_ok:
  assumes "\<forall>l \<in> set ls. 0 \<le> l \<and> l < 16" "\<forall>(s, w, v) \<in> set (items (Some (- 1)) 0 ls). code_ok bl s"
  shows "\<forall>it \<in> set (items (Some (- 1)) 0 ls). item_ok bl it"
proof
  fix it assume it: "it \<in> set (items (Some (- 1)) 0 ls)"
  obtain s w v where e: "it = (s, w, v)" by (cases it)
  have "0 < fst (run_limits (Some (- 1)) (Some (hd ls)))" by (simp add: run_limits_def)
  from items_range [OF it [unfolded e] assms(1) _ this] assms(2) it show "item_ok bl it"
    unfolding e item_ok_def by auto
qed

lemma decode_run_items:
  assumes "prefix_free cs" "covers 19 bl cs" "\<forall>it \<in> set (run_items (snd lims) pre c count). item_ok bl it"
    "lims = run_limits pre (Some c)" "0 < count" "count \<le> fst lims" "0 \<le> c" "c < 16"
    "pre = Some (- 1) \<or> acc \<noteq> [] \<and> pre = Some (last acc)" "length acc + nat count \<le> n"
  shows "decode_lens cs n acc (items_bits bl (run_items (snd lims) pre c count) @ rest) =
    decode_lens cs n (acc @ replicate (nat count) c) rest"
proof (cases "count < snd lims")
  case True
  then have it: "run_items (snd lims) pre c count = replicate (nat count) (c, 0, 0)" by (simp add: run_items_def)
  have "item_ok bl (c, 0, 0)" using assms(3,5) unfolding it by simp
  from decode_times [OF assms(1,2) this assms(8,10)] show ?thesis unfolding it .
next
  case False
  note step = decode_lens_item [OF assms(1,2)]
  from run_limits_cases [OF assms(4)] consider
      (same) "c \<noteq> 0" "pre = Some c" "lims = (6, 3)" | (other) "c \<noteq> 0" "pre \<noteq> Some c" "lims = (7, 4)"
    | (short) "c = 0" "lims = (138, 3)" "count \<le> 10" | (long) "c = 0" "lims = (138, 3)" "10 < count" by fastforce
  then show ?thesis
  proof cases
    case same
    then have it: "run_items (snd lims) pre c count = [(16, 2, count - 3)]" using False by (simp add: run_items_def)
    have acc: "acc \<noteq> []" "last acc = c" using assms(7,9) same(2) by auto
    have "3 + nat (count - 3) = nat count" using False same(3) by simp
    with step [of 16 2 "count - 3" acc n rest] acc assms(3,5,10) show ?thesis unfolding it by simp
  next
    case other
    then have it: "run_items (snd lims) pre c count = [(c, 0, 0), (16, 2, count - 4)]" using False by (simp add: run_items_def)
    have k: "nat count = Suc (3 + nat (count - 4))" using False other(3) by simp
    have "decode_lens cs n acc (item_bits bl (c, 0, 0) @ item_bits bl (16, 2, count - 4) @ rest) =
        decode_lens cs n (acc @ [c]) (item_bits bl (16, 2, count - 4) @ rest)"
      using step [of c 0 0 acc n] assms(3,5,8,10) unfolding it by simp
    also have "\<dots> = decode_lens cs n (acc @ replicate (nat count) c) rest"
      using step [of 16 2 "count - 4" "acc @ [c]" n rest] assms(3,10) k unfolding it by (simp add: numeral_eq_Suc)
    finally show ?thesis unfolding it by simp
  next
    case short
    then have it: "run_items (snd lims) pre c count = [(17, 3, count - 3)]" using False by (simp add: run_items_def)
    have "3 + nat (count - 3) = nat count" using False short(2) by simp
    with step [of 17 3 "count - 3" acc n rest] short(1) assms(3,5,10) show ?thesis unfolding it by simp
  next
    case long
    then have it: "run_items (snd lims) pre c count = [(18, 7, count - 11)]" using False by (simp add: run_items_def)
    have "11 + nat (count - 11) = nat count" using long(3) by simp
    with step [of 18 7 "count - 11" acc n rest] long(1) assms(3,5,10) show ?thesis unfolding it by simp
  qed
qed

lemma decode_items:
  assumes "prefix_free cs" "covers 19 bl cs" "\<forall>it \<in> set (items pre count ls). item_ok bl it"
    "\<forall>l \<in> set ls. 0 \<le> l \<and> l < 16" "0 \<le> count" "ls = [] \<Longrightarrow> count = 0"
    "ls \<noteq> [] \<Longrightarrow> count < fst (run_limits pre (Some (hd ls)))"
    "pre = Some (- 1) \<or> acc \<noteq> [] \<and> pre = Some (last acc)" "length acc + nat count + length ls \<le> n"
  shows "decode_lens cs n acc (items_bits bl (items pre count ls) @ rest) = decode_lens cs n (acc @ replicate (nat count) (hd ls) @ ls) rest"
  using assms(3-)
proof (induction ls arbitrary: pre count acc)
  case (Cons c ls)
  define lims where "lims = run_limits pre (Some c)"
  have k: "nat (count + 1) = Suc (nat count)" using Cons.prems(3) by simp
  show ?case
  proof (cases "count + 1 < fst lims \<and> Some c = (case ls of [] \<Rightarrow> Some 0xffff | d # ds \<Rightarrow> Some d)")
    case True
    have it: "items pre count (c # ls) = items pre (count + 1) ls"
      using True unfolding items.simps Let_def lims_def by (rule if_P)
    have ls: "ls \<noteq> []" "hd ls = c" using True Cons.prems(2) by (cases ls; auto)+
    have "count + 1 < fst (run_limits pre (Some (hd ls)))" using conjunct1 [OF True] ls(2) unfolding lims_def by simp
    with Cons.IH [of pre "count + 1" acc] Cons.prems(1-3,6,7) ls k show ?thesis
      unfolding it by (simp add: replicate_app_Cons_same)
  next
    case False
    have it: "items pre count (c # ls) = run_items (snd lims) pre c (count + 1) @ items (Some c) 0 ls"
      using False unfolding items.simps Let_def lims_def by (rule if_not_P)
    have "0 < fst (run_limits (Some c) (Some (hd ls)))" by (simp add: run_limits_def)
    moreover have "count + 1 \<le> fst lims" using Cons.prems(5) by (simp add: lims_def)
    moreover have ok: "\<forall>it \<in> set (run_items (snd lims) pre c (count + 1)). item_ok bl it"
      "\<forall>it \<in> set (items (Some c) 0 ls). item_ok bl it" using Cons.prems(1) unfolding it by simp_all
    ultimately show ?thesis
      using decode_run_items [OF assms(1,2) ok(1) lims_def, of acc n "items_bits bl (items (Some c) 0 ls) @ rest"]
        Cons.IH [OF ok(2), of "acc @ replicate (nat (count + 1)) c"] Cons.prems(2-) k
      unfolding it by (simp add: replicate_app_Cons_same)
  qed
qed simp

section \<open>The description of the codes\<close>

definition tree_items :: "(nat \<Rightarrow> nat) \<Rightarrow> nat \<Rightarrow> item list" where
  "tree_items L n = items (Some (- 1)) 0 (map (\<lambda>i. int (L i)) [0..<n])"

lemma send_bl_lengths_sends:
  assumes "\<forall>k \<in> set ks. 0 \<le> k \<and> slot_at bl (k * 2 + 1) = Some (int (B (nat k))) \<and> B (nat k) \<le> 7"
    "room_for o1 (3 * int (length ks))"
  shows "\<exists>o2. send_bl_lengths bl ks o1 = Inr o2 \<and> sends o1 (concat (map (\<lambda>k. bits_of 3 (int (B (nat k)))) ks)) o2"
  using assms
proof (induction ks arbitrary: o1)
  case Nil
  then show ?case by (simp add: sends_refl room_for_def)
next
  case (Cons k ks)
  let ?o = "send_bits (int (B (nat k))) 3 o1"
  have room: "room_for o1 (int (length (bits_of 3 (int (B (nat k))))) + 3 * int (length ks))" using Cons.prems(2) by simp
  have "sends o1 (bits_of (nat 3) (int (B (nat k)))) ?o"
    using room_less [OF room] Cons.prems(1) by (intro send_bits_sends) auto
  then have s: "sends o1 (bits_of 3 (int (B (nat k)))) ?o" by simp
  from Cons.IH [OF _ sends_room [OF s room]] Cons.prems(1) obtain o2 where
    "send_bl_lengths bl ks ?o = Inr o2" "sends ?o (concat (map (\<lambda>k. bits_of 3 (int (B (nat k)))) ks)) o2" by auto
  with sends_trans [OF s] Cons.prems(1) show ?case by (auto simp: slot_def)
qed

lemma take_values_bits:
  assumes "\<forall>k \<in> set ks. B (nat k) \<le> 7"
  shows "take_values 3 (length ks) (concat (map (\<lambda>k. bits_of 3 (int (B (nat k)))) ks) @ rest) =
    Some (map (\<lambda>k. int (B (nat k))) ks, rest)"
  using assms
proof (induction ks)
  case (Cons k ks)
  then show ?case using take_value_bits [of "int (B (nat k))" 3] by simp
qed simp

lemma bl_order_rfc: "bl_order = rfc_order"
  by (simp add: bl_order_def rfc_order_def)

lemma order_lens_order:
  assumes "\<forall>k \<in> set (drop m rfc_order). B (nat k) = 0" "\<forall>i \<ge> 19. B i = 0"
  shows "order_lens (map (\<lambda>k. int (B (nat k))) (take m rfc_order)) = B"
proof
  fix i
  have "zip rfc_order (map f (take m rfc_order)) = map (\<lambda>k. (k, f k)) (take m rfc_order)" for f :: "int \<Rightarrow> int"
    by (rule nth_equalityI) simp_all
  then have e: "map_of (zip rfc_order (map (\<lambda>k. int (B (nat k))) (take m rfc_order))) (int i) =
      (if int i \<in> set (take m rfc_order) then Some (int (B i)) else None)"
    by (simp add: map_of_map_restrict restrict_map_def)
  moreover have "B i = 0" if "int i \<notin> set (take m rfc_order)"
  proof (cases "i < 19")
    case True
    then have "int i \<in> {0..18}" by simp
    moreover have "{0..18} = set rfc_order" unfolding rfc_order_def by auto presburger
    ultimately have "int i \<in> set (take m rfc_order) \<union> set (drop m rfc_order)" by (metis append_take_drop_id set_append)
    with that assms(1) show ?thesis by force
  qed (use assms(2) in simp)
  ultimately show "order_lens (map (\<lambda>k. int (B (nat k))) (take m rfc_order)) i = B i" by (simp add: order_lens_def)
qed

text \<open>What \<open>gen_bitlen\<close> leaves to \<open>gen_codes\<close>: lengths that leave room for a code, and how many there are of each.\<close>

definition lengths_given :: "(nat \<Rightarrow> nat) \<Rightarrow> nat \<Rightarrow> nat \<Rightarrow> slots \<Rightarrow> slots \<Rightarrow> bool" where
  "lengths_given L n k t c \<longleftrightarrow> kraft_ok L n \<and> (\<forall>i \<ge> n. L i = 0) \<and> n \<le> k \<and> lens_are L k t \<and> counts L n c"

text \<open>
  The trees of a block: those of the literals and of the distances have got their codes from \<open>gen_codes\<close>
  and a mark behind the last length from \<open>scan_tree\<close>, that of the code lengths has got its codes. The
  lengths of the first \<open>m\<close> symbols of \<open>bl_order\<close> are sent.
\<close>

definition block_codes :: "(nat \<Rightarrow> nat) \<Rightarrow> nat \<Rightarrow> (nat \<Rightarrow> nat) \<Rightarrow> nat \<Rightarrow> (nat \<Rightarrow> nat) \<Rightarrow> nat \<Rightarrow> nat \<Rightarrow> trees \<Rightarrow> bool" where
  "block_codes L nl D nd B nb m t \<longleftrightarrow>
     (\<exists>lt c lt1. lengths_given L nl 286 lt c \<and> gen_codes lt (int nl - 1) c = Inr lt1 \<and>
        dyn_ltree t = put_slot lt1 (int nl * 2 + 1) 0xffff \<and> l_max_code t = Some (int nl - 1) \<and> 257 \<le> nl) \<and>
     (\<exists>dt c dt1. lengths_given D nd 30 dt c \<and> gen_codes dt (int nd - 1) c = Inr dt1 \<and>
        dyn_dtree t = put_slot dt1 (int nd * 2 + 1) 0xffff \<and> d_max_code t = Some (int nd - 1) \<and> 1 \<le> nd) \<and>
     (\<exists>bt c. lengths_given B nb 19 bt c \<and> gen_codes bt (int nb - 1) c = Inr (bl_tree t) \<and> (\<forall>i. B i \<le> 7)) \<and>
     4 \<le> m \<and> m \<le> 19 \<and> (\<forall>k \<in> set (drop m bl_order). B (nat k) = 0) \<and>
     (\<forall>(s, w, v) \<in> set (tree_items L nl) \<union> set (tree_items D nd). 0 < B (nat s))"

lemma given_codes:
  assumes "lengths_given L n k t c" "gen_codes t (int n - 1) c = Inr t1"
  shows "tree_has L n k t1" "lens_are L k t1"
proof -
  obtain t2 where "gen_codes t (int n - 1) c = Inr t2" "tree_has L n k t2" "lens_are L k t2"
    by (rule gen_codes_canonical [of L n k t c]) (use assms(1) in \<open>simp_all add: lengths_given_def\<close>)
  with assms(2) show "tree_has L n k t1" "lens_are L k t1" by simp_all
qed

lemma tree_has_lens_from:
  assumes "tree_has L n k t"
  shows "lens_from (put_slot t (int n * 2 + 1) 0xffff) 0 (map (\<lambda>i. int (L i)) [0..<n])"
  using assms by (simp add: lens_from_def tree_has_def lens_are_def slot_at_put)

lemma tree_has_range: "tree_has L n k t \<Longrightarrow> \<forall>l \<in> set (map (\<lambda>i. int (L i)) [0..<n]). 0 \<le> l \<and> l < 16"
  by (fastforce simp: tree_has_def kraft_ok_def)

lemma list_lens_map: "\<forall>i \<ge> n. L i = 0 \<Longrightarrow> list_lens (map (\<lambda>i. int (L i)) [0..<n]) = L"
  by (auto simp: list_lens_def fun_eq_iff)

text \<open>The trees as the proofs use them.\<close>

definition header_ok :: "(nat \<Rightarrow> nat) \<Rightarrow> nat \<Rightarrow> (nat \<Rightarrow> nat) \<Rightarrow> nat \<Rightarrow> (nat \<Rightarrow> nat) \<Rightarrow> nat \<Rightarrow> nat \<Rightarrow> trees \<Rightarrow> bool" where
  "header_ok L nl D nd B nb m t \<longleftrightarrow> tree_has L nl 286 (dyn_ltree t) \<and> tree_has D nd 30 (dyn_dtree t) \<and>
     tree_has B nb 19 (bl_tree t) \<and> lens_are B 19 (bl_tree t) \<and> (\<forall>i. B i \<le> 7) \<and> nb \<le> 19 \<and>
     lens_from (dyn_ltree t) 0 (map (\<lambda>i. int (L i)) [0..<nl]) \<and> lens_from (dyn_dtree t) 0 (map (\<lambda>i. int (D i)) [0..<nd]) \<and>
     257 \<le> nl \<and> nl \<le> 286 \<and> 1 \<le> nd \<and> nd \<le> 30 \<and> 4 \<le> m \<and> m \<le> 19 \<and> (\<forall>k \<in> set (drop m rfc_order). B (nat k) = 0) \<and>
     (\<forall>it \<in> set (tree_items L nl) \<union> set (tree_items D nd). item_ok (bl_tree t) it)"

lemma block_codes_header:
  assumes "block_codes L nl D nd B nb m t"
  shows "header_ok L nl D nd B nb m t" "l_max_code t = Some (int nl - 1)" "d_max_code t = Some (int nd - 1)"
proof -
  from assms obtain lt c1 lt1 dt c2 dt1 bt c3 where
    g: "lengths_given L nl 286 lt c1" "gen_codes lt (int nl - 1) c1 = Inr lt1"
      "lengths_given D nd 30 dt c2" "gen_codes dt (int nd - 1) c2 = Inr dt1"
      "lengths_given B nb 19 bt c3" "gen_codes bt (int nb - 1) c3 = Inr (bl_tree t)" and
    t: "dyn_ltree t = put_slot lt1 (int nl * 2 + 1) 0xffff" "dyn_dtree t = put_slot dt1 (int nd * 2 + 1) 0xffff"
      "l_max_code t = Some (int nl - 1)" "d_max_code t = Some (int nd - 1)" and
    n: "257 \<le> nl" "1 \<le> nd" "\<forall>i. B i \<le> 7" "4 \<le> m" "m \<le> 19" "\<forall>k \<in> set (drop m rfc_order). B (nat k) = 0" and
    u: "\<forall>(s, w, v) \<in> set (tree_items L nl) \<union> set (tree_items D nd). 0 < B (nat s)"
    unfolding block_codes_def bl_order_rfc by blast
  have le: "nl \<le> 286" "nd \<le> 30" "nb \<le> 19" using g(1,3,5) by (simp_all add: lengths_given_def)
  note h = given_codes [OF g(1,2)] given_codes [OF g(3,4)] given_codes [OF g(5,6)]
  have code: "code_ok (bl_tree t) s" if "0 \<le> s" "0 < B (nat s)" for s
  proof -
    have "nat s < nb" using h(5) that(2) unfolding tree_has_def by (metis linorder_not_less less_irrefl)
    from tree_has_code(2) [OF h(5) this that(2)] that(1) show ?thesis by simp
  qed
  have it: "item_ok (bl_tree t) x" if "x \<in> set (items (Some (- 1)) 0 ls)" "\<forall>l \<in> set ls. 0 \<le> l \<and> l < 16"
    "\<forall>(s, w, v) \<in> set (items (Some (- 1)) 0 ls). 0 < B (nat s)" for x ls
  proof -
    obtain s w v where x: "x = (s, w, v)" by (cases x)
    have "0 < fst (run_limits (Some (- 1)) (Some (hd ls)))" by (simp add: run_limits_def)
    from items_range [OF that(1) [unfolded x] that(2) _ this] have r: "item_range s w v" by simp
    have "0 < B (nat s)" using that(1,3) unfolding x by auto
    moreover have "0 \<le> s" using r by (simp add: item_range_def)
    ultimately show ?thesis using r code unfolding x by (simp add: item_ok_def)
  qed
  have "\<forall>it \<in> set (tree_items L nl) \<union> set (tree_items D nd). item_ok (bl_tree t) it"
    using it [OF _ tree_has_range [OF h(1)]] it [OF _ tree_has_range [OF h(3)]] u unfolding tree_items_def by blast
  then show "header_ok L nl D nd B nb m t" unfolding header_ok_def t
    using h n le tree_has_mark [OF h(1)] tree_has_mark [OF h(3)] tree_has_lens_from [OF h(1)] tree_has_lens_from [OF h(3)] by simp
qed (use assms in \<open>auto simp: block_codes_def\<close>)

definition header_bits :: "(nat \<Rightarrow> nat) \<Rightarrow> nat \<Rightarrow> (nat \<Rightarrow> nat) \<Rightarrow> nat \<Rightarrow> (nat \<Rightarrow> nat) \<Rightarrow> nat \<Rightarrow> slots \<Rightarrow> bool list" where
  "header_bits L nl D nd B m bl = bits_of 5 (int nl - 257) @ bits_of 5 (int nd - 1) @ bits_of 4 (int m - 4) @
     concat (map (\<lambda>k. bits_of 3 (int (B (nat k)))) (take m rfc_order)) @ items_bits bl (tree_items L nl) @ items_bits bl (tree_items D nd)"

lemma length_bl_bits: "length (concat (map (\<lambda>k. bits_of 3 (int (B (nat k)))) ks)) = 3 * length ks"
  by (induction ks) simp_all

lemma send_all_trees_sends:
  assumes "header_ok L nl D nd B nb m t" "room_for o1 (int (length (header_bits L nl D nd B m (bl_tree t))))"
  obtains o2 where "send_all_trees t (int nl) (int nd) (int m) o1 = Inr o2"
    "sends o1 (header_bits L nl D nd B m (bl_tree t)) o2"
proof -
  note h = assms(1) [unfolded header_ok_def]
  let ?bl = "bl_tree t" and ?ks = "take m rfc_order"
  define b4 where "b4 = concat (map (\<lambda>k. bits_of 3 (int (B (nat k)))) ?ks)"
  define b5 where "b5 = items_bits ?bl (tree_items L nl)"
  define b6 where "b6 = items_bits ?bl (tree_items D nd)"
  define o2 where "o2 = send_bits (int nl - 257) 5 o1"
  define o3 where "o3 = send_bits (int nd - 1) 5 o2"
  define o4 where "o4 = send_bits (int m - 4) 4 o3"
  have m: "length ?ks = m" "nat (int m) = m" using h by (simp_all add: rfc_order_def)
  have hb: "header_bits L nl D nd B m ?bl = bits_of 5 (int nl - 257) @ bits_of 5 (int nd - 1) @ bits_of 4 (int m - 4) @ b4 @ b5 @ b6"
    by (simp add: header_bits_def b4_def b5_def b6_def)
  have room: "room_for o1 (int (length (bits_of 5 (int nl - 257))) + (int (length (bits_of 5 (int nd - 1))) +
      (int (length (bits_of 4 (int m - 4))) + (int (length b4) + (int (length b5) + int (length b6))))))"
    using assms(2) unfolding hb by simp
  have "sends o1 (bits_of (nat 5) (int nl - 257)) o2" unfolding o2_def
    using h room_less [OF room] by (intro send_bits_sends) simp_all
  then have s2: "sends o1 (bits_of 5 (int nl - 257)) o2" by simp
  note r2 = sends_room [OF s2 room]
  have "sends o2 (bits_of (nat 5) (int nd - 1)) o3" unfolding o3_def
    using h room_less [OF r2] by (intro send_bits_sends) simp_all
  then have s3: "sends o2 (bits_of 5 (int nd - 1)) o3" by simp
  note r3 = sends_room [OF s3 r2]
  have "sends o3 (bits_of (nat 4) (int m - 4)) o4" unfolding o4_def
    using h room_less [OF r3] by (intro send_bits_sends) simp_all
  then have s4: "sends o3 (bits_of 4 (int m - 4)) o4" by simp
  note r4 = sends_room [OF s4 r3]
  have ks: "\<forall>k \<in> set ?ks. 0 \<le> k \<and> slot_at ?bl (k * 2 + 1) = Some (int (B (nat k))) \<and> B (nat k) \<le> 7"
  proof
    fix k assume "k \<in> set ?ks"
    then have "k \<in> set rfc_order" by (rule in_set_takeD)
    then have "0 \<le> k" "nat k < 19" "int (nat k) = k" by (auto simp: rfc_order_def)
    with h show "0 \<le> k \<and> slot_at ?bl (k * 2 + 1) = Some (int (B (nat k))) \<and> B (nat k) \<le> 7"
      unfolding lens_are_def by metis
  qed
  have "room_for o4 (3 * int (length ?ks))" using room_less [OF r4] by (simp add: b4_def length_bl_bits)
  from send_bl_lengths_sends [OF ks this] obtain o5 where
    o5: "send_bl_lengths ?bl ?ks o4 = Inr o5" "sends o4 b4 o5" unfolding b4_def by blast
  note r5 = sends_room [OF o5(2) r4]
  have items: "\<forall>it \<in> set (items (Some (- 1)) 0 (map (\<lambda>i. int (L i)) [0..<nl])). item_ok ?bl it"
    "\<forall>it \<in> set (items (Some (- 1)) 0 (map (\<lambda>i. int (D i)) [0..<nd])). item_ok ?bl it"
    using h unfolding tree_items_def by blast+
  have "\<forall>l \<in> set (map (\<lambda>i. int (L i)) [0..<nl]). 0 \<le> l" "\<forall>l \<in> set (map (\<lambda>i. int (D i)) [0..<nd]). 0 \<le> l" by simp_all
  note tree = send_tree_sends [OF _ this(1) items(1)] send_tree_sends [OF _ this(2) items(2)]
  obtain o6 where o6: "send_tree (dyn_ltree t) (int nl - 1) ?bl o5 = Inr o6" "sends o5 b5 o6"
    by (rule tree(1) [of "dyn_ltree t" o5]) (use h room_less [OF r5] in \<open>simp_all add: b5_def tree_items_def\<close>)
  note r6 = sends_room [OF o6(2) r5]
  obtain o7 where o7: "send_tree (dyn_dtree t) (int nd - 1) ?bl o6 = Inr o7" "sends o6 b6 o7"
    by (rule tree(2) [of "dyn_dtree t" o6]) (use h room_less [OF r6] in \<open>simp_all add: b6_def tree_items_def\<close>)
  have "send_all_trees t (int nl) (int nd) (int m) o1 = Inr o7"
    using o5(1) o6(1) o7(1) by (simp add: send_all_trees_def bl_order_rfc m o4_def o3_def o2_def)
  moreover have "sends o1 (header_bits L nl D nd B m ?bl) o7"
    unfolding hb by (intro sends_trans [OF s2] sends_trans [OF s3] sends_trans [OF s4] sends_trans [OF o5(2)] sends_trans [OF o6(2)] o7(2))
  ultimately show thesis by (rule that)
qed

lemma decode_header_bits:
  assumes "header_ok L nl D nd B nb m t"
  shows "decode_header (header_bits L nl D nd B m (bl_tree t) @ rest) =
    Some (map (\<lambda>i. int (L i)) [0..<nl], map (\<lambda>i. int (D i)) [0..<nd], rest)"
proof -
  note h = assms [unfolded header_ok_def]
  let ?bl = "bl_tree t" and ?ks = "take m rfc_order" and ?ls = "map (\<lambda>i. int (L i)) [0..<nl]" and ?ds = "map (\<lambda>i. int (D i)) [0..<nd]"
  have B0: "\<forall>i \<ge> 19. B i = 0" using h unfolding tree_has_def by (meson order_trans)
  have cs: "canonical (order_lens (map (\<lambda>k. int (B (nat k))) ?ks)) 19 = canonical B nb"
    using order_lens_order [OF _ B0, of m] canonical_more [of nb 19 B] h unfolding tree_has_def by simp
  have pf: "prefix_free (canonical B nb)" using h by (intro canonical_prefix_free) (simp add: tree_has_def)
  have cov: "covers 19 ?bl (canonical B nb)" using h tree_has_covers by blast
  have r: "\<forall>l \<in> set ?ls. 0 \<le> l \<and> l < 16" "\<forall>l \<in> set ?ds. 0 \<le> l \<and> l < 16"
    using h tree_has_range by blast+
  have len: "length ?ks = m" using h by (simp add: rfc_order_def)
  have items: "\<forall>it \<in> set (tree_items L nl). item_ok ?bl it" "\<forall>it \<in> set (tree_items D nd). item_ok ?bl it" using h by blast+
  have f: "0 < fst (run_limits (Some (- 1)) (Some x))" for x by (simp add: run_limits_def)
  have "decode_lens (canonical B nb) (nl + nd) [] (items_bits ?bl (tree_items L nl) @ items_bits ?bl (tree_items D nd) @ rest) =
      decode_lens (canonical B nb) (nl + nd) ?ls (items_bits ?bl (tree_items D nd) @ rest)"
    unfolding tree_items_def
    using decode_items [OF pf cov items(1) [unfolded tree_items_def] r(1) _ _ f, of "[]" "nl + nd"] by simp
  also have "\<dots> = decode_lens (canonical B nb) (nl + nd) (?ls @ ?ds) rest"
    unfolding tree_items_def
    using decode_items [OF pf cov items(2) [unfolded tree_items_def] r(2) _ _ f, of ?ls "nl + nd"] by simp
  also have "\<dots> = Some (?ls @ ?ds, rest)" by (subst decode_lens.simps) simp
  finally have d: "decode_lens (canonical B nb) (nl + nd) [] (items_bits ?bl (tree_items L nl) @ items_bits ?bl (tree_items D nd) @ rest) =
      Some (?ls @ ?ds, rest)" .
  have n: "nat (int nl - 257) + 257 = nl" "nat (int nd - 1) + 1 = nd" "nat (int m - 4) + 4 = m"
  proof -
    have "257 \<le> nl" "1 \<le> nd" "4 \<le> m" using h by blast+
    then show "nat (int nl - 257) + 257 = nl" "nat (int nd - 1) + 1 = nd" "nat (int m - 4) + 4 = m" by linarith+
  qed
  have tv: "take_value 5 (bits_of 5 (int nl - 257) @ x) = Some (int nl - 257, x)"
    "take_value 5 (bits_of 5 (int nd - 1) @ x) = Some (int nd - 1, x)" "take_value 4 (bits_of 4 (int m - 4) @ x) = Some (int m - 4, x)" for x
    using take_value_bits [of "int nl - 257" 5] take_value_bits [of "int nd - 1" 5] take_value_bits [of "int m - 4" 4] h by simp_all
  have ts: "take_values 3 m (concat (map (\<lambda>k. bits_of 3 (int (B (nat k)))) ?ks) @ x) = Some (map (\<lambda>k. int (B (nat k))) ?ks, x)" for x
    using take_values_bits [of ?ks B x] h unfolding len by simp
  show ?thesis unfolding decode_header_def header_bits_def append_assoc tv Option.bind.bind_lunit prod.case n ts cs d
    using h by simp
qed

section \<open>Sizes\<close>

lemma length_run_items: "3 \<le> mn \<Longrightarrow> 0 < count \<Longrightarrow> length (run_items mn pre c count) \<le> nat count"
  by (auto simp: run_items_def)

lemma length_items: "0 \<le> count \<Longrightarrow> length (items pre count ls) \<le> nat count + length ls"
proof (induction ls arbitrary: pre count)
  case (Cons c ls)
  define lims where "lims = run_limits pre (Some c)"
  show ?case
  proof (cases "count + 1 < fst lims \<and> Some c = (case ls of [] \<Rightarrow> Some 0xffff | d # ds \<Rightarrow> Some d)")
    case True
    have it: "items pre count (c # ls) = items pre (count + 1) ls"
      using True unfolding items.simps Let_def lims_def by (rule if_P)
    show ?thesis unfolding it using Cons.IH [of "count + 1" pre] Cons.prems by (simp add: nat_add_distrib)
  next
    case False
    have it: "items pre count (c # ls) = run_items (snd lims) pre c (count + 1) @ items (Some c) 0 ls"
      using False unfolding items.simps Let_def lims_def by (rule if_not_P)
    have "3 \<le> snd lims" by (simp add: lims_def run_limits_def)
    then have "length (run_items (snd lims) pre c (count + 1)) \<le> nat (count + 1)"
      using Cons.prems by (intro length_run_items) simp_all
    then show ?thesis unfolding it using Cons.IH [of 0 "Some c"] Cons.prems by (simp add: nat_add_distrib)
  qed
qed simp

lemma length_items_bits:
  assumes "\<forall>it \<in> set its. item_ok bl it" "tree_has B nb 19 bl" "\<forall>i. B i \<le> 7"
  shows "length (items_bits bl its) \<le> 14 * length its"
  using assms(1)
proof (induction its)
  case (Cons it its)
  obtain s w v where it: "it = (s, w, v)" by (cases it)
  have ok: "code_ok bl s" "0 \<le> s" "s < 19" "w \<le> 7" using Cons.prems by (auto simp: it item_ok_def item_range_def split: if_splits)
  with tree_has_covers [OF assms(2)] have "(code_bits bl s, s) \<in> set (canonical B nb)" by (simp add: covers_def)
  then have "length (code_bits bl s) \<le> 7" using assms(3) by (auto simp: canonical_mem)
  with ok(4) Cons show ?case by (simp add: it item_bits_def)
qed simp

lemma length_header:
  assumes "header_ok L nl D nd B nb m t"
  shows "length (header_bits L nl D nd B m (bl_tree t)) \<le> 4495"
proof -
  note h = assms [unfolded header_ok_def]
  have it: "\<forall>it \<in> set (tree_items L nl). item_ok (bl_tree t) it" "\<forall>it \<in> set (tree_items D nd). item_ok (bl_tree t) it"
    using h by blast+
  have B: "tree_has B nb 19 (bl_tree t)" "\<forall>i. B i \<le> 7" and n: "nl \<le> 286" "nd \<le> 30" "m \<le> 19" using h by blast+
  have "length (tree_items L nl) \<le> nl" "length (tree_items D nd) \<le> nd"
    unfolding tree_items_def by (rule order_trans [OF length_items]; simp)+
  then show ?thesis using length_items_bits [OF it(1) B] length_items_bits [OF it(2) B] n
    by (simp add: header_bits_def length_bl_bits)
qed

text \<open>A symbol has at most 48 bits: two codes of 15, five bits of a length and thirteen of a distance.\<close>

lemma code_length: "code_ok t c \<Longrightarrow> length (code_bits t c) \<le> 15"
  by (simp add: code_bits_def code_ok_def nat_le_iff)

lemma symbol_length:
  assumes "symbol_ok lt dt (dist, lc)"
  shows "length (symbol_bits lt dt (dist, lc)) \<le> 48"
proof (cases "dist = 0")
  case True
  then show ?thesis using assms code_length [of lt lc] by (simp add: symbol_bits_def symbol_ok_def)
next
  case False
  have ok: "code_ok lt (length_symbol lc + 257)" "code_ok dt (distance_symbol dist)" "0 \<le> lc" "lc < 256" "1 \<le> dist" "dist \<le> 32768"
    using assms False by (simp_all add: symbol_ok_def)
  note K = length_symbol(2,3) [OF ok(3,4)] and J = distance_symbol(2,3) [OF ok(5,6)]
  have "nat (length_extra (length_symbol lc)) \<le> 5" using length_extra_less [OF K] by linarith
  moreover have "nat (distance_extra (distance_symbol dist)) \<le> 13" using distance_extra_less [OF J] by linarith
  ultimately show ?thesis using code_length [OF ok(1)] code_length [OF ok(2)] False
    by (simp add: symbol_bits_def Let_def)
qed

lemma length_symbols_bits: "\<forall>s \<in> set syms. symbol_ok lt dt s \<Longrightarrow> length (concat (map (symbol_bits lt dt) syms)) \<le> 48 * length syms"
proof (induction syms)
  case (Cons s syms)
  obtain dist lc where s: "s = (dist, lc)" by (cases s)
  from Cons symbol_length [of lt dt dist lc] show ?case by (simp add: s)
qed simp

lemma some_symbols_in_time:
  assumes "\<forall>s \<in> set syms. symbol_ok lt dt s"
    "n + 32 * int (length syms) \<le> 8 * d_buf l" "d_buf l + 2 * int (length syms) \<le> l_buf l"
  shows "in_time l n 0 (map (symbol_bits lt dt) syms)"
  unfolding in_time_def
proof (intro conjI allI impI)
  fix i assume "i < length (map (symbol_bits lt dt) syms)"
  then have i: "i \<le> length syms" by simp
  have "\<forall>s \<in> set (take i syms). symbol_ok lt dt s" using assms(1) by (auto dest: in_set_takeD)
  from length_symbols_bits [OF this] i
  have "length (concat (take i (map (symbol_bits lt dt) syms))) \<le> 48 * i" by (simp add: take_map)
  with i assms(2) show "n + int (length (concat (take i (map (symbol_bits lt dt) syms)))) < 8 * (d_buf l + 2 * (0 + int i) + 1)"
    by simp
qed (use assms(3) in simp)

section \<open>A block with its own codes\<close>

text \<open>The symbols have codes.\<close>

definition has_code :: "(nat \<Rightarrow> nat) \<Rightarrow> (nat \<Rightarrow> nat) \<Rightarrow> int \<times> int \<Rightarrow> bool" where
  "has_code L D = (\<lambda>(dist, lc). 0 \<le> lc \<and> lc < 256 \<and> 0 \<le> dist \<and> dist \<le> 32768 \<and>
     (if dist = 0 then 0 < L (nat lc)
      else 0 < L (nat (length_symbol lc) + 257) \<and> 0 < D (nat (distance_symbol dist))))"

lemma tree_has_ok: "tree_has L n k t \<Longrightarrow> 0 \<le> c \<Longrightarrow> 0 < L (nat c) \<Longrightarrow> code_ok t c"
proof -
  assume t: "tree_has L n k t" and c: "0 \<le> c" "0 < L (nat c)"
  have "nat c < n" using t c(2) unfolding tree_has_def by (metis linorder_not_less less_irrefl)
  from tree_has_code(2) [OF t this c(2)] c(1) show "code_ok t c" by simp
qed

lemma has_code_ok:
  assumes "tree_has L nl 286 lt" "tree_has D nd 30 dt" "has_code L D s"
  shows "symbol_ok lt dt s"
proof (cases s)
  case (Pair dist lc)
  have r: "0 \<le> lc" "lc < 256" "0 \<le> dist" "dist \<le> 32768" using assms(3) by (simp_all add: Pair has_code_def)
  show ?thesis
  proof (cases "dist = 0")
    case True
    with assms(3) r tree_has_ok [OF assms(1) r(1)] show ?thesis by (simp add: Pair has_code_def symbol_ok_def)
  next
    case False
    have c: "0 < L (nat (length_symbol lc) + 257)" "0 < D (nat (distance_symbol dist))"
      using assms(3) False by (simp_all add: Pair has_code_def)
    have d: "1 \<le> dist" using False r by simp
    have "nat (length_symbol lc + 257) = nat (length_symbol lc) + 257" using length_symbol(2) [OF r(1,2)] by simp
    then have "code_ok lt (length_symbol lc + 257)"
      using tree_has_ok [OF assms(1), of "length_symbol lc + 257"] c(1) length_symbol(2) [OF r(1,2)] by simp
    moreover have "code_ok dt (distance_symbol dist)" using tree_has_ok [OF assms(2) distance_symbol(2) [OF d r(4)] c(2)] .
    ultimately show ?thesis using r False by (simp add: Pair symbol_ok_def)
  qed
qed

lemma dynamic_block_sends:
  assumes codes: "block_codes L nl D nd B nb m t" and n: "block_noted syms l o1"
    and sy: "\<forall>s \<in> set syms. has_code L D s" and eob: "0 < L 256"
    and fits: "int (length (sent o1)) + 4498 + 32 * int (length syms) \<le> 8 * d_buf l"
    and c: "optlen < stored_len + 4 \<or> buf = - 1" and "statlen \<noteq> optlen"
  shows "\<exists>o2. encode_block win buf stored_len eof (optlen, statlen, int m - 1, t) l o1 = Inr o2 \<and>
    sends o1 (eof # False # True # header_bits L nl D nd B m (bl_tree t) @ block_bits (dyn_ltree t) (dyn_dtree t) syms) o2 \<and>
    room_for o2 0"
proof -
  let ?lt = "dyn_ltree t" and ?dt = "dyn_dtree t"
  note n1 = n [unfolded block_noted_def]
  note hd = block_codes_header [OF codes]
  note h = hd(1) [unfolded header_ok_def]
  have L: "tree_has L nl 286 ?lt" and D: "tree_has D nd 30 ?dt" using h by blast+
  have ok: "\<forall>s \<in> set syms. symbol_ok ?lt ?dt s" using sy has_code_ok [OF L D] by auto
  have eob: "code_ok ?lt 256" using tree_has_ok [OF L, of 256] eob by simp
  define hb where "hb = header_bits L nl D nd B m (bl_tree t)"
  define bb where "bb = block_bits ?lt ?dt syms"
  have hl: "length hb \<le> 4495" unfolding hb_def by (rule length_header [OF hd(1)])
  have bl: "length bb \<le> 48 * length syms + 15"
    using length_symbols_bits [OF ok] code_length [OF eob] by (simp add: bb_def block_bits_def)
  have room: "room_for o1 (3 + (int (length hb) + int (length bb)))"
    using hl bl n1 fits unfolding room_for_def by (simp add: places_ok_def)
  define o2 where "o2 = send_bits (js_shl DYN_TREES 1 + (if eof then 1 else 0)) 3 o1"
  have "room_for o1 3" using room by (auto elim: room_less)
  then have s2: "sends o1 [eof, False, True] o2" unfolding o2_def by (rule dynamic_header_sends)
  have room2: "room_for o2 (int (length hb) + int (length bb))" using sends_room [OF s2] room by simp
  have "room_for o2 (int (length hb))" by (rule room_less [OF room2]) simp
  from send_all_trees_sends [OF hd(1) this [unfolded hb_def]] obtain o3 where
    o3: "send_all_trees t (int nl) (int nd) (int m) o2 = Inr o3" "sends o2 hb o3" unfolding hb_def .
  have s3: "sends o1 ([eof, False, True] @ hb) o3" by (rule sends_trans [OF s2 o3(2)])
  then have len3: "int (length (sent o3)) + 32 * int (length syms) \<le> 8 * d_buf l" using fits hl by (simp add: sends_def)
  have n3: "block_noted syms l o3" by (rule noted_later [OF n s3]) (use len3 in simp)
  have time: "in_time l (int (length (sent o3))) 0 (map (symbol_bits ?lt ?dt) syms)"
    by (rule some_symbols_in_time [OF ok]) (use len3 n1 in \<open>simp_all add: places_ok_def\<close>)
  have "256 < nl" using h by simp
  then have "slot ?lt 513 = Inr (int (L 256))"
    using L by (auto simp: tree_has_def lens_are_def slot_def dest!: spec [of "\<lambda>i. i < nl \<longrightarrow> _ i" 256])
  then obtain o4 where o4: "compress_block ?lt ?dt l o3 = Inr o4" "sends o3 bb o4" unfolding bb_def
    by (rule compress_block_sends [OF _ _ ok eob _ time sends_room [OF o3(2) room2, unfolded bb_def], rotated 2])
      (use n3 in \<open>simp_all add: block_noted_def\<close>)
  have "encode_block win buf stored_len eof (optlen, statlen, int m - 1, t) l o1 = Inr o4"
    using o3(1) o4(1) c assms(7) hd(2,3) by (auto simp: encode_block_def o2_def known_def)
  moreover have "sends o1 (eof # False # True # hb @ bb) o4" using sends_trans [OF s3 o4(2)] by simp
  moreover have "room_for o4 0" using sends_room [OF o4(2), of 0] sends_room [OF o3(2) room2] by simp
  ultimately show ?thesis unfolding hb_def bb_def by blast
qed

lemma dynamic_bits_decoded:
  assumes codes: "block_codes L nl D nd B nb m t" and sy: "\<forall>s \<in> set syms. has_code L D s" and eob: "0 < L 256"
  shows "decode_dynamic (Suc (length syms))
      ((header_bits L nl D nd B m (bl_tree t) @ block_bits (dyn_ltree t) (dyn_dtree t) syms) @ rest) =
    Some (map token_of syms, rest)"
proof -
  note hd = block_codes_header [OF codes]
  have L: "tree_has L nl 286 (dyn_ltree t)" and D: "tree_has D nd 30 (dyn_dtree t)" using hd(1) by (auto simp: header_ok_def)
  have ok: "\<forall>s \<in> set syms. symbol_ok (dyn_ltree t) (dyn_dtree t) s" using sy has_code_ok [OF L D] by auto
  have eob: "code_ok (dyn_ltree t) 256" using tree_has_ok [OF L, of 256] eob by simp
  have z: "\<forall>i \<ge> nl. L i = 0" "\<forall>i \<ge> nd. D i = 0" "kraft_ok L nl" "kraft_ok D nd" using L D by (simp_all add: tree_has_def)
  have "decode_tokens (Suc (length syms)) (canonical L nl) (canonical D nd) (block_bits (dyn_ltree t) (dyn_dtree t) syms @ rest) =
      Some (map token_of syms, rest)"
    unfolding block_bits_def append_assoc
    by (rule decode_symbols [OF canonical_prefix_free canonical_prefix_free tree_has_covers tree_has_covers eob ok])
      (use z L D in simp_all)
  then show ?thesis unfolding append_assoc decode_dynamic_def
    using decode_header_bits [OF hd(1)] list_lens_map [OF z(1)] list_lens_map [OF z(2)] by simp
qed

end
