(* ===== verification/Defl_Build.thy ===== *)
theory Defl_Build
  imports Defl_Lengths Defl_Dynamic
begin

text \<open>
  \<open>build_tree\<close> of \<^verbatim>\<open>html/lib/deflate.js\<close> as a whole: for any frequencies it ends, and leaves a canonical
  prefix-free code in which every symbol that occurs has a code word. So the trees of a block are what
  the encoder of blocks needs, and every block that the compressor writes with codes can be decoded.
\<close>

section \<open>build_tree\<close>

lemma heap_one: "heap_holds h 1 A \<Longrightarrow> \<exists>r. A = {r} \<and> slot_at h 1 = Some r"
proof -
  assume h: "heap_holds h 1 A"
  obtain r where r: "r \<in> A" "slot_at h 1 = Some r" using heap_holds_at [OF h, of 1] by auto
  have "slot_at h ` {1..1} = Some ` A" using h by (simp add: heap_holds_def bij_betw_def)
  then have "Some ` A = {Some r}" using r(2) by simp
  then have "A = {r}" by auto
  with r(2) show ?thesis by blast
qed

text \<open>From lengths of the leaves to lengths of the symbols.\<close>

definition symbol_lens :: "int set \<Rightarrow> (int \<Rightarrow> int) \<Rightarrow> nat \<Rightarrow> nat" where
  "symbol_lens Lf L i = (if int i \<in> Lf then nat (L (int i)) else 0)"

lemma symbol_lens_pos:
  assumes "\<forall>x \<in> Lf. 1 \<le> L x"
  shows "0 < symbol_lens Lf L i \<longleftrightarrow> int i \<in> Lf"
  using assms by (auto simp: symbol_lens_def)

text \<open>The code words of these lengths leave no sequence of bits unused.\<close>

definition complete_lens :: "(nat \<Rightarrow> nat) \<Rightarrow> nat \<Rightarrow> bool" where
  "complete_lens L n \<longleftrightarrow> (\<Sum>i | i < n \<and> 0 < L i. 2 ^ (15 - L i)) = (2 :: int) ^ 15"

lemma symbol_lens_given:
  assumes Lf: "Lf \<subseteq> {0..<int k}" "\<forall>x \<in> Lf. x < int n" "n \<le> k" and M: "1 \<le> M" "M \<le> 15"
    and L: "\<forall>x \<in> Lf. slot_at t (x * 2 + 1) = Some (L x) \<and> 1 \<le> L x \<and> L x \<le> M"
    and K: "kraft_sum M L Lf = 2 ^ nat M"
    and c: "slot_at c 0 = Some 0" "\<forall>b. 1 \<le> b \<and> b \<le> 15 \<longrightarrow> slot_at c b = Some (at_length L Lf b)"
    and z: "\<forall>x. 0 \<le> x \<and> x < int k \<and> x \<notin> Lf \<longrightarrow> slot_at t (x * 2 + 1) = Some 0"
  shows "lengths_given (symbol_lens Lf L) n k t c" "complete_lens (symbol_lens Lf L) n"
proof -
  let ?L = "symbol_lens Lf L"
  have pos: "0 < ?L i \<longleftrightarrow> int i \<in> Lf" for i using L by (intro symbol_lens_pos) auto
  have len: "int i \<in> Lf \<Longrightarrow> int (?L i) = L (int i)" for i using L by (auto simp: symbol_lens_def)
  define S where "S = {i. i < n \<and> 0 < ?L i}"
  have img: "int ` S = Lf" unfolding S_def
  proof (intro equalityI subsetI)
    fix x assume "x \<in> Lf"
    then have "0 \<le> x" "x < int n" using Lf by auto
    then show "x \<in> int ` {i. i < n \<and> 0 < ?L i}" using \<open>x \<in> Lf\<close> by (intro image_eqI [of _ _ "nat x"]) (simp_all add: pos nat_less_iff)
  qed (auto simp: pos)
  have "(\<Sum>x \<in> Lf. (2 :: int) ^ (15 - nat (L x))) = (\<Sum>i \<in> S. 2 ^ (15 - nat (L (int i))))"
    using sum.reindex [of int S "\<lambda>x. (2 :: int) ^ (15 - nat (L x))"] by (simp add: img)
  moreover have "(\<Sum>i \<in> S. (2 :: int) ^ (15 - ?L i)) = (\<Sum>i \<in> S. 2 ^ (15 - nat (L (int i))))"
    by (rule sum.cong) (auto simp: S_def pos symbol_lens_def)
  ultimately have "(\<Sum>i | i < n \<and> 0 < ?L i. (2 :: int) ^ (15 - ?L i)) = (\<Sum>x \<in> Lf. 2 ^ (15 - nat (L x)))"
    by (simp add: S_def)
  also have "\<dots> = (\<Sum>x \<in> Lf. 2 ^ nat (15 - M) * 2 ^ nat (M - L x))"
  proof (rule sum.cong)
    fix x assume "x \<in> Lf"
    then have "15 - nat (L x) = nat (15 - M) + nat (M - L x)" using L M by force
    then show "(2 :: int) ^ (15 - nat (L x)) = 2 ^ nat (15 - M) * 2 ^ nat (M - L x)" by (simp add: power_add)
  qed simp
  also have "\<dots> = 2 ^ nat (15 - M) * kraft_sum M L Lf" by (simp add: kraft_sum_def sum_distrib_left)
  also have "\<dots> = 2 ^ 15" using M by (simp add: K flip: power_add nat_add_distrib)
  finally show full: "complete_lens ?L n" by (simp add: complete_lens_def)
  then have "kraft_ok ?L n" using L M(2) by (auto simp: kraft_ok_def complete_lens_def symbol_lens_def)
  moreover have "\<forall>i \<ge> n. ?L i = 0" using Lf(2) by (auto simp: symbol_lens_def)
  moreover have "lens_are ?L k t"
    unfolding lens_are_def
  proof (intro allI impI)
    fix i assume "i < k"
    then show "slot_at t (int i * 2 + 1) = Some (int (?L i))"
      using L z by (cases "int i \<in> Lf") (auto simp: symbol_lens_def)
  qed
  moreover have "counts ?L n c"
  proof -
    have "at_length L Lf (int b) = number_of ?L n b" if "1 \<le> b" for b
    proof -
      have "{x \<in> Lf. L x = int b} = int ` {i. i < n \<and> ?L i = b}"
      proof (intro equalityI subsetI)
        fix x assume "x \<in> {x \<in> Lf. L x = int b}"
        then have x: "x \<in> Lf" "L x = int b" "0 \<le> x" "x < int n" using Lf by auto
        then show "x \<in> int ` {i. i < n \<and> ?L i = b}"
          by (intro image_eqI [of _ _ "nat x"]) (simp_all add: symbol_lens_def nat_less_iff)
      next
        fix x assume "x \<in> int ` {i. i < n \<and> ?L i = b}"
        then obtain i where i: "x = int i" "?L i = b" by blast
        with that pos [of i] len [of i] show "x \<in> {x \<in> Lf. L x = int b}" by auto
      qed
      then show ?thesis by (simp add: at_length_def number_of_def card_image)
    qed
    with c show ?thesis by (simp add: counts_def)
  qed
  ultimately show "lengths_given ?L n k t c" using Lf(3) by (simp add: lengths_given_def)
qed

lemma build_tree_codes:
  assumes d: "desc_ok d" and f: "\<forall>x. 0 \<le> x \<and> x < elems d \<longrightarrow> slot_at t0 (x * 2) \<noteq> None"
  shows "\<exists>t1 m s1 L. build_tree d t0 s = Some (Inr (t1, m, s1)) \<and> 1 \<le> m \<and> m < elems d \<and>
    (\<exists>t c. lengths_given L (nat m + 1) (nat (elems d)) t c \<and> gen_codes t m c = Inr t1) \<and> complete_lens L (nat m + 1) \<and>
    (\<forall>i. int (L i) \<le> max_length d) \<and> (\<forall>x. 0 \<le> x \<and> x < elems d \<and> slot_at t0 (x * 2) \<noteq> Some 0 \<longrightarrow> 0 < L (nat x))"
proof -
  let ?e = "elems d" and ?s = "s\<lparr>heap_len := 0, heap_max := HEAP_SIZE\<rparr>"
  let ?L0 = "\<lambda>n. {x. 0 \<le> x \<and> x < n \<and> slot_at t0 (x * 2) \<noteq> Some 0}"
  have e: "3 \<le> ?e" "?e \<le> 286" and M: "1 \<le> max_length d" "max_length d \<le> 15" using d by (simp_all add: desc_ok_def)
  have e0: "?L0 0 = {}" by auto
  have "ready 0 (?L0 0) t0 ?s (- 1)" unfolding e0 by (auto simp: ready_def heap_holds_empty keys_ok_def)
  from init_heap_ready [OF f this, of "nat ?e"] e obtain t1 s1 m1 where
    i: "init_heap (nat ?e) 0 (t0, ?s, - 1) = (t1, s1, m1)" "ready ?e (?L0 ?e) t1 s1 m1" by auto
  from force_two_ready [OF d i(2)] obtain t2 s2 m Lf where
    ft: "force_two d (t1, s1, m1) = Inr (t2, s2, m)" "ready ?e Lf t2 s2 m" "?L0 ?e \<subseteq> Lf" "2 \<le> heap_len s2" by blast
  have "int (nat (heap_len s2 div 2)) \<le> heap_len s2" using ft(4) by simp
  from heapify_ready [OF e(2) ft(2) this] obtain h where
    h: "heapify (nat (heap_len s2 div 2)) t2 s2 = Some (Inr (s2\<lparr>heap_arr := h\<rparr>))" "ready ?e Lf t2 (s2\<lparr>heap_arr := h\<rparr>) m" by blast
  let ?s3 = "s2\<lparr>heap_arr := h\<rparr>"
  have g3: "growing ?e Lf t2 Lf [] t2 ?s3 ?e" by (rule ready_growing [OF h(2) e(2)]) (use ft(4) in simp)
  have "0 \<le> ?e" "2 \<le> heap_len ?s3" using e ft(4) by simp_all
  from grow_loop [OF this(1) g3 this(2)] obtain t4 s4 A ps where
    l: "loop combine_step (t2, ?s3, ?e) = Some (Inr (t4, s4))" "growing ?e Lf t2 A ps t4 s4 (?e + int (length ps))" "heap_len s4 = 1"
    by blast
  note G = l(2) [unfolded growing_def]
  have "heap_holds (heap_arr s4) 1 A" using G l(3) by simp
  then obtain root where root: "A = {root}" "slot_at (heap_arr s4) 1 = Some root" using heap_one by blast
  note R = ft(2) [unfolded ready_def]
  have Lf: "Lf \<subseteq> {0..<?e}" "\<forall>x \<in> Lf. x \<le> m \<and> slot_at t2 (x * 2) \<noteq> None" "2 \<le> card Lf"
    using R ft(4) by (auto simp: keys_ok_def)
  have ps: "ps \<noteq> []"
  proof
    assume "ps = []"
    moreover have "expands {root} ps Lf" using G root(1) by blast
    ultimately have "Lf = {root}" by simp
    with Lf(3) show False by simp
  qed
  have m: "m \<in> Lf" "1 \<le> m" "m < ?e"
  proof -
    obtain x y where "x \<in> Lf" "y \<in> Lf" "x < y" using Lf(3) card_le_Suc0_iff_eq [of Lf] finite_subset [OF Lf(1)]
      by (metis One_nat_def Suc_1 finite_atLeastLessThan_int linorder_neqE not_less_eq_eq)
    then show "1 \<le> m" using Lf(1,2) by force
    then show "m \<in> Lf" using R by force
    then show "m < ?e" using Lf(1) by auto
  qed
  let ?s5 = "s4\<lparr>heap_max := heap_max s4 - 1, heap_arr := put_slot (heap_arr s4) (heap_max s4 - 1) root\<rparr>"
  have lst: "listed (heap_arr s4) (heap_max s4) (children ps)" and small: "1 + int (length ps) \<le> 286" using G l(3) by simp_all
  have hm: "1 \<le> heap_max s4" using lst small by (simp add: listed_def)
  have s5: "slot_at (heap_arr ?s5) (heap_max ?s5) = Some root" "listed (heap_arr ?s5) (heap_max ?s5 + 1) (children ps)"
    using hm lst listed_cong [of "heap_max s4" "heap_arr ?s5" "heap_arr s4" "children ps"] by (simp_all add: slot_at_put)
  from gen_bitlen_lengths [OF d l(2) [unfolded root(1)] ps Lf(1,2) m(3) s5] obtain t6 s6 L where
    gb: "gen_bitlen d m t4 ?s5 = Inr (t6, s6)" "\<forall>x \<in> Lf. slot_at t6 (x * 2 + 1) = Some (L x) \<and> 1 \<le> L x \<and> L x \<le> max_length d"
      "kraft_sum (max_length d) L Lf = 2 ^ nat (max_length d)" "slot_at (bl_count s6) 0 = Some 0"
      "\<forall>b. 1 \<le> b \<and> b \<le> 15 \<longrightarrow> slot_at (bl_count s6) b = Some (at_length L Lf b)"
      "\<forall>x. 0 \<le> x \<and> x < ?e \<and> x \<notin> Lf \<longrightarrow> slot_at t6 (x * 2 + 1) = slot_at t4 (x * 2 + 1)" by blast
  have z: "\<forall>x. 0 \<le> x \<and> x < int (nat ?e) \<and> x \<notin> Lf \<longrightarrow> slot_at t6 (x * 2 + 1) = Some 0" using gb(6) G R e by simp
  have n: "Lf \<subseteq> {0..<int (nat ?e)}" "\<forall>x \<in> Lf. x < int (nat m + 1)" "nat m + 1 \<le> nat ?e" using Lf m e by force+
  note given = symbol_lens_given(1) [OF n M gb(2,3,4,5) z] and full = symbol_lens_given(2) [OF n M gb(2,3,4,5) z]
  obtain t7 where t7: "gen_codes t6 m (bl_count s6) = Inr t7"
    by (rule gen_codes_canonical [of "symbol_lens Lf L" "nat m + 1" "nat ?e" t6 "bl_count s6"])
      (use given m in \<open>simp_all add: lengths_given_def\<close>)
  have "build_tree d t0 s = Some (Inr (t7, m, s6))"
    using i(1) ft(1) h(1) l(1) root(2) gb(1) t7 by (simp add: build_tree_def lift_def slot_def Let_def ret_def)
  moreover have "\<forall>i. int (symbol_lens Lf L i) \<le> max_length d" using gb(2) M by (auto simp: symbol_lens_def)
  moreover have "\<forall>x. 0 \<le> x \<and> x < ?e \<and> slot_at t0 (x * 2) \<noteq> Some 0 \<longrightarrow> 0 < symbol_lens Lf L (nat x)"
    using ft(3) gb(2) by (auto simp: symbol_lens_def)
  ultimately show ?thesis using given full t7 m(2,3) by (intro exI [of _ t7] exI [of _ m] exI [of _ s6] exI [of _ "symbol_lens Lf L"]) auto
qed

end
