(* ===== verification/Defl_Trees.thy ===== *)
theory Defl_Trees
  imports Defl_Build
begin

text \<open>
  The three trees of a block of \<^verbatim>\<open>html/lib/deflate.js\<close> together: \<open>scan_tree\<close> counts what \<open>send_tree\<close>
  sends, so the tree of the code lengths has a code for each, and \<open>_tr_flush_block\<close> can encode the
  symbols of every block.
\<close>

section \<open>Counting the runs\<close>

definition freq :: "slots \<Rightarrow> int \<Rightarrow> int" where
  "freq t s = (case slot_at t (s * 2) of None \<Rightarrow> 0 | Some k \<Rightarrow> k)"

definition freqs_nonneg :: "int \<Rightarrow> slots \<Rightarrow> bool" where
  "freqs_nonneg n t \<longleftrightarrow> (\<forall>s. 0 \<le> s \<and> s < n \<longrightarrow> slot_at t (s * 2) \<noteq> None \<and> 0 \<le> freq t s)"

text \<open>The frequencies have not become less.\<close>

definition risen :: "int \<Rightarrow> slots \<Rightarrow> slots \<Rightarrow> bool" where
  "risen n t u \<longleftrightarrow> freqs_nonneg n u \<and> (\<forall>s. 0 \<le> s \<and> s < n \<longrightarrow> freq t s \<le> freq u s)"

lemma risen_refl: "freqs_nonneg n t \<Longrightarrow> risen n t t"
  by (simp add: risen_def)

lemma risen_trans: "risen n t u \<Longrightarrow> risen n u v \<Longrightarrow> risen n t v"
  by (force simp: risen_def)

lemma risen_pos: "risen n t u \<Longrightarrow> 0 \<le> s \<Longrightarrow> s < n \<Longrightarrow> 0 < freq t s \<Longrightarrow> 0 < freq u s"
  by (force simp: risen_def)

lemma bump_freq:
  assumes "freqs_nonneg n t" "0 \<le> s" "s < n" "0 < k"
  obtains u where "bump t (s * 2) k = Inr u" "risen n t u" "0 < freq u s"
proof -
  obtain f where f: "slot_at t (s * 2) = Some f" "0 \<le> f" using assms(1-3) by (force simp: freqs_nonneg_def freq_def)
  let ?u = "put_slot t (s * 2) (f + k)"
  have u: "slot_at ?u (x * 2) = (if x = s then Some (f + k) else slot_at t (x * 2))" for x using assms(2) by (simp add: slot_at_put)
  have "risen n t ?u" using assms f by (auto simp: risen_def freqs_nonneg_def freq_def u)
  moreover have "0 < freq ?u s" using f assms(4) by (simp add: freq_def u)
  ultimately show thesis using f(1) by (intro that [of ?u]) (simp_all add: bump_def slot_def)
qed

lemma count_run_freqs:
  assumes "freqs_nonneg 19 bl" "0 < count" "0 \<le> c" "c < 16"
  shows "\<exists>bl1. count_run mn pre c count bl = Inr bl1 \<and> risen 19 bl bl1 \<and> (\<forall>it \<in> set (run_items mn pre c count). 0 < freq bl1 (fst it))"
proof -
  have one: "\<exists>bl1. bump bl (s * 2) k = Inr bl1 \<and> risen 19 bl bl1 \<and> 0 < freq bl1 s" if "0 \<le> s" "s < 19" "0 < k" for s k
    using bump_freq [OF assms(1) that] by metis
  consider "count < mn" | "\<not> count < mn" "c \<noteq> 0" "Some c \<noteq> pre" | "\<not> count < mn" "c \<noteq> 0" "Some c = pre"
    | "\<not> count < mn" "c = 0" "count \<le> 10" | "\<not> count < mn" "c = 0" "10 < count" by linarith
  then show ?thesis
  proof cases
    case 1
    then show ?thesis using one [of c count] assms by (auto simp: count_run_def run_items_def)
  next
    case 2
    obtain u where u: "bump bl (c * 2) 1 = Inr u" "risen 19 bl u" "0 < freq u c" using one [of c 1] assms by auto
    have "freqs_nonneg 19 u" using u(2) by (simp add: risen_def)
    then obtain v where v: "bump u (16 * 2) 1 = Inr v" "risen 19 u v" "0 < freq v 16"
      by (rule bump_freq [of 19 u 16 1]) simp_all
    have "0 < freq v c" using risen_pos [OF v(2) assms(3) _ u(3)] assms(4) by simp
    moreover have "count_run mn pre c count bl = Inr v" using 2 u(1) v(1) by (simp add: count_run_def)
    ultimately show ?thesis using risen_trans [OF u(2) v(2)] v(3) 2 by (auto simp: run_items_def)
  next
    case 3
    then show ?thesis using one [of 16 1] by (auto simp: count_run_def run_items_def)
  next
    case 4
    then show ?thesis using one [of 17 1] by (auto simp: count_run_def run_items_def)
  next
    case 5
    then show ?thesis using one [of 18 1] by (auto simp: count_run_def run_items_def)
  qed
qed

lemma scan_from_freqs:
  assumes "lens_from t n ls" "\<forall>l \<in> set ls. 0 \<le> l \<and> l < 16" "0 \<le> count" "freqs_nonneg 19 bl"
    "ls \<noteq> [] \<Longrightarrow> count < fst (run_limits pre (Some (hd ls)))"
  shows "\<exists>bl1. scan_from (length ls) n t pre (slot_at t (n * 2 + 1)) count (run_limits pre (slot_at t (n * 2 + 1))) bl = Inr bl1 \<and>
    risen 19 bl bl1 \<and> (\<forall>it \<in> set (items pre count ls). 0 < freq bl1 (fst it))"
  using assms
proof (induction ls arbitrary: n pre count bl)
  case Nil
  then show ?case by (simp add: risen_refl)
next
  case (Cons c ls)
  define lims where "lims = run_limits pre (Some c)"
  define nxt where "nxt = (case ls of [] \<Rightarrow> Some 0xffff | d # ds \<Rightarrow> Some d)"
  have t: "slot_at t (n * 2 + 1) = Some c" "lens_from t (n + 1) ls" using Cons.prems(1) by (simp_all add: lens_from_Cons)
  have nx: "slot_at t ((n + 1) * 2 + 1) = nxt" unfolding nxt_def by (rule lens_from_next [OF t(2)])
  have step: "scan_from (length (c # ls)) n t pre (slot_at t (n * 2 + 1)) count (run_limits pre (slot_at t (n * 2 + 1))) bl =
      (if count + 1 < fst lims \<and> Some c = nxt then scan_from (length ls) (n + 1) t pre nxt (count + 1) lims bl
       else ebind (count_run (snd lims) pre c (count + 1) bl)
         (\<lambda>bl1. scan_from (length ls) (n + 1) t (Some c) nxt 0 (run_limits (Some c) nxt) bl1))"
    unfolding list.size(4) Nat.add_0_right add_Suc_right scan_from.simps Let_def t(1) nx lims_def
      known_def option.case ebind.simps ..
  show ?case
  proof (cases "count + 1 < fst lims \<and> Some c = nxt")
    case True
    then have it: "items pre count (c # ls) = items pre (count + 1) ls"
      unfolding items.simps Let_def lims_def nxt_def by (rule if_P)
    have hd: "ls \<noteq> []" "hd ls = c" using True Cons.prems(2) unfolding nxt_def by (cases ls; auto)+
    have "count + 1 < fst (run_limits pre (Some (hd ls)))" using conjunct1 [OF True] hd(2) unfolding lims_def by simp
    moreover have "lims = run_limits pre nxt" using True by (simp add: lims_def)
    ultimately show ?thesis using Cons.IH [OF t(2), of "count + 1" bl pre] Cons.prems(2-4) True unfolding it step nx by simp
  next
    case False
    let ?run = "run_items (snd lims) pre c (count + 1)"
    have it: "items pre count (c # ls) = ?run @ items (Some c) 0 ls" using False unfolding items.simps Let_def lims_def nxt_def by (rule if_not_P)
    have c: "0 \<le> c" "c < 16" using Cons.prems(2) by simp_all
    obtain bl1 where b1: "count_run (snd lims) pre c (count + 1) bl = Inr bl1" "risen 19 bl bl1" "\<forall>it \<in> set ?run. 0 < freq bl1 (fst it)"
      using count_run_freqs [OF Cons.prems(4) _ c, of "count + 1" "snd lims" pre] Cons.prems(3) by fastforce
    have "freqs_nonneg 19 bl1" using b1(2) by (simp add: risen_def)
    moreover have "0 < fst (run_limits (Some c) (Some (hd ls)))" by (simp add: run_limits_def)
    ultimately obtain bl2 where
      b2: "scan_from (length ls) (n + 1) t (Some c) nxt 0 (run_limits (Some c) nxt) bl1 = Inr bl2" "risen 19 bl1 bl2"
        "\<forall>it \<in> set (items (Some c) 0 ls). 0 < freq bl2 (fst it)"
      using Cons.IH [OF t(2), of 0 bl1 "Some c"] Cons.prems(2) unfolding nx by auto
    have "0 < freq bl2 (fst it)" if "it \<in> set ?run" for it
    proof -
      obtain s w v where e: "it = (s, w, v)" by (cases it)
      have "item_range s w v" using run_items_range [OF that [unfolded e] lims_def] Cons.prems(3,5) c by (simp add: lims_def)
      then show ?thesis using risen_pos [OF b2(2)] b1(3) that by (auto simp: item_range_def e)
    qed
    then have "\<forall>it \<in> set (items pre count (c # ls)). 0 < freq bl2 (fst it)" using b2(3) unfolding it set_append by blast
    moreover have "scan_from (length (c # ls)) n t pre (slot_at t (n * 2 + 1)) count (run_limits pre (slot_at t (n * 2 + 1))) bl = Inr bl2"
      unfolding step if_not_P [OF False] b1(1) ebind.simps by (rule b2(1))
    ultimately show ?thesis using risen_trans [OF b1(2) b2(2)] by blast
  qed
qed

lemma scan_tree_freqs:
  assumes "tree_has L n k t" "freqs_nonneg 19 bl"
  shows "\<exists>bl1. scan_tree t (int n - 1) bl = Inr (put_slot t (int n * 2 + 1) 0xffff, bl1) \<and> risen 19 bl bl1 \<and>
    (\<forall>it \<in> set (tree_items L n). 0 < freq bl1 (fst it))"
proof (cases "n = 0")
  case True
  then show ?thesis using risen_refl [OF assms(2)] by (simp add: scan_tree_def tree_items_def)
next
  case False
  let ?t = "put_slot t (int n * 2 + 1) 0xffff" and ?ls = "map (\<lambda>i. int (L i)) [0..<n]"
  note l = tree_has_lens_from [OF assms(1)] tree_has_range [OF assms(1)]
  have first: "slot_at t 1 = slot_at ?t 1" using False by (simp add: slot_at_put)
  have "?ls \<noteq> []" using False by simp
  then have "slot_at ?t 1 = Some (hd ?ls)" using lens_from_next [OF l(1)] by (cases ?ls) auto
  then have lims: "first_limits (slot_at t 1) = run_limits (Some (- 1)) (slot_at ?t 1)"
    using first_limits [of "slot_at t 1"] l(2) \<open>?ls \<noteq> []\<close> first by (metis hd_in_set neg_0_le_iff_le not_one_le_zero option.inject)
  have "0 < fst (run_limits (Some (- 1)) (Some (hd ?ls)))" by (simp add: run_limits_def)
  from scan_from_freqs [OF l _ assms(2) this] show ?thesis
    by (auto simp: scan_tree_def tree_items_def lims [unfolded first] first Let_def)
qed

section \<open>The tree of the code lengths\<close>

text \<open>A length that occurs is sent itself, before it is repeated.\<close>

lemma items_have: "c \<in> set ls \<Longrightarrow> c \<noteq> 0 \<Longrightarrow> 0 \<le> count \<Longrightarrow> \<forall>l \<in> set ls. l < 16 \<Longrightarrow> pre = Some c \<or> c \<in> fst ` set (items pre count ls)"
proof (induction ls arbitrary: pre count)
  case (Cons x ls)
  define lims where "lims = run_limits pre (Some x)"
  show ?case
  proof (cases "count + 1 < fst lims \<and> Some x = (case ls of [] \<Rightarrow> Some 0xffff | d # ds \<Rightarrow> Some d)")
    case True
    have it: "items pre count (x # ls) = items pre (count + 1) ls"
      using True unfolding items.simps Let_def lims_def by (rule if_P)
    have "x \<in> set ls" using True Cons.prems(4) by (cases ls) auto
    then show ?thesis using Cons.IH [of "count + 1" pre] Cons.prems unfolding it by auto
  next
    case False
    have it: "items pre count (x # ls) = run_items (snd lims) pre x (count + 1) @ items (Some x) 0 ls"
      using False unfolding items.simps Let_def lims_def by (rule if_not_P)
    show ?thesis
    proof (cases "c = x")
      case True
      then have "pre = Some c \<or> c \<in> fst ` set (run_items (snd lims) pre x (count + 1))"
        using Cons.prems by (auto simp: run_items_def)
      then show ?thesis unfolding it set_append by blast
    next
      case False
      then have "c \<in> fst ` set (items (Some x) 0 ls)" using Cons.IH [of 0 "Some x"] Cons.prems by auto
      then show ?thesis unfolding it set_append by blast
    qed
  qed
qed simp

lemma last_bl_finds:
  assumes "lens_are B 19 bl" "i < 19" "3 \<le> k" "k \<le> i" "B (nat (rfc_order ! nat k)) \<noteq> 0"
  shows "\<exists>j. last_bl bl i = Inr j \<and> k \<le> j \<and> j \<le> i \<and> (\<forall>x. j < x \<and> x \<le> i \<longrightarrow> B (nat (rfc_order ! nat x)) = 0)"
  using assms(2,4)
proof (induction "nat i" arbitrary: i rule: less_induct)
  case less
  have i: "3 \<le> i" "i < 19" using less.prems assms(3) by simp_all
  let ?s = "rfc_order ! nat i"
  have "?s \<in> set rfc_order" using i by (intro nth_mem) (simp add: rfc_order_def nat_less_iff)
  then have s: "0 \<le> ?s" "?s < 19" by (auto simp: rfc_order_def)
  have el: "elem bl_order i = Inr ?s" using i by (simp add: elem_def arr_at_def bl_order_rfc) (simp add: rfc_order_def)
  have at: "slot_at bl (?s * 2 + 1) = Some (int (B (nat ?s)))"
    using assms(1) s unfolding lens_are_def by (metis int_nat_eq nat_less_iff of_nat_numeral)
  show ?case
  proof (cases "B (nat ?s) = 0")
    case True
    then have "k \<noteq> i" using assms(5) by auto
    then have "k \<le> i - 1" using less.prems by simp
    from less.hyps [of "i - 1"] this i obtain j where
      j: "last_bl bl (i - 1) = Inr j" "k \<le> j" "j \<le> i - 1" "\<forall>x. j < x \<and> x \<le> i - 1 \<longrightarrow> B (nat (rfc_order ! nat x)) = 0" by auto
    have "last_bl bl i = Inr j" using i el at True j(1) by (subst last_bl.simps) simp
    moreover have "B (nat (rfc_order ! nat x)) = 0" if "j < x" "x \<le> i" for x using that j(4) True by (cases "x = i") auto
    ultimately show ?thesis using j(2,3) by auto
  next
    case False
    then have "last_bl bl i = Inr i" using i el at by (subst last_bl.simps) simp
    then show ?thesis using less.prems by auto
  qed
qed

lemma static_descs_ok: "desc_ok static_l_desc" "desc_ok static_d_desc" "desc_ok static_bl_desc"
proof -
  show "desc_ok static_l_desc"
    by (simp add: desc_ok_def static_l_desc_def StaticTree_def extra_lbits_def) code_simp
  show "desc_ok static_d_desc" by code_simp
  show "desc_ok static_bl_desc" by code_simp
qed

lemma length_order: "length rfc_order = 19"
  by (simp add: rfc_order_def)

lemma order_small: "0 < c \<Longrightarrow> c < 16 \<Longrightarrow> \<exists>k. 3 \<le> k \<and> k \<le> 18 \<and> rfc_order ! nat k = c"
proof -
  have "\<forall>c \<in> {1..15}. \<exists>k \<in> {3..18}. rfc_order ! nat k = c" by code_simp
  then show "0 < c \<Longrightarrow> c < 16 \<Longrightarrow> ?thesis" by force
qed

text \<open>What \<open>build_tree\<close> makes of the frequencies of one tree.\<close>

lemma build_tree_freqs:
  assumes "desc_ok d" "freqs_nonneg (elems d) t0"
  obtains t1 m s1 L t c where "build_tree d t0 s = Some (Inr (t1, int m, s1))" "1 \<le> m"
    "lengths_given L (Suc m) (nat (elems d)) t c" "gen_codes t (int (Suc m) - 1) c = Inr t1"
    "\<And>i. int (L i) \<le> max_length d" "\<And>x. 0 \<le> x \<Longrightarrow> x < elems d \<Longrightarrow> 0 < freq t0 x \<Longrightarrow> 0 < L (nat x)"
proof -
  have "\<forall>x. 0 \<le> x \<and> x < elems d \<longrightarrow> slot_at t0 (x * 2) \<noteq> None" using assms(2) by (simp add: freqs_nonneg_def)
  from build_tree_codes [OF assms(1) this, of s] obtain t1 m s1 L t c where
    b: "build_tree d t0 s = Some (Inr (t1, m, s1))" "1 \<le> m" "lengths_given L (nat m + 1) (nat (elems d)) t c" "gen_codes t m c = Inr t1"
      "\<forall>i. int (L i) \<le> max_length d" "\<forall>x. 0 \<le> x \<and> x < elems d \<and> slot_at t0 (x * 2) \<noteq> Some 0 \<longrightarrow> 0 < L (nat x)" by blast
  have "slot_at t0 (x * 2) \<noteq> Some 0" if "0 < freq t0 x" for x using that by (auto simp: freq_def)
  with b show thesis by (intro that [of t1 "nat m" s1 L t c]) simp_all
qed

lemma descs [simp]: "elems static_l_desc = 286" "elems static_d_desc = 30" "elems static_bl_desc = 19"
  "nat 286 = 286" "nat 30 = 30" "nat 19 = 19" "max_length static_bl_desc = 7"
  by (simp_all add: static_l_desc_def static_d_desc_def static_bl_desc_def StaticTree_def)

section \<open>The codes of a tree\<close>

text \<open>
  C7. For any frequencies \<open>build_tree\<close> returns, and makes a code of the symbols that a decoder accepts: no
  code word is the beginning of another one, no sequence of bits is left without a meaning, no length is
  greater than the tree allows, every symbol that occurs has a code word, and the code words are those
  that RFC 1951 assigns to the lengths, in reverse.
\<close>

theorem build_tree_complete_code:
  assumes "d \<in> {static_l_desc, static_d_desc, static_bl_desc}"
    and "\<forall>x. 0 \<le> x \<and> x < elems d \<longrightarrow> slot_at t0 (x * 2) \<noteq> None"
  shows "\<exists>t1 m s1 L. build_tree d t0 s = Some (Inr (t1, int m, s1)) \<and> int m < elems d \<and>
    prefix_free (canonical L (Suc m)) \<and> complete_lens L (Suc m) \<and> (\<forall>i. int (L i) \<le> max_length d) \<and>
    (\<forall>x. 0 \<le> x \<and> x < elems d \<and> slot_at t0 (x * 2) \<noteq> Some 0 \<longrightarrow> 0 < L (nat x)) \<and>
    (\<forall>x \<le> m. slot_at t1 (int x * 2 + 1) = Some (int (L x))) \<and>
    (\<forall>x \<le> m. 0 < L x \<longrightarrow> code_bits t1 (int x) = rev (bits_of (L x) (code_word L (Suc m) x)))"
proof -
  have "desc_ok d" using assms(1) static_descs_ok by auto
  from build_tree_codes [OF this assms(2), of s] obtain t1 m s1 L t c where
    b: "build_tree d t0 s = Some (Inr (t1, m, s1))" "1 \<le> m" "m < elems d" "lengths_given L (nat m + 1) (nat (elems d)) t c"
      "gen_codes t m c = Inr t1" "complete_lens L (nat m + 1)"
      "\<forall>i. int (L i) \<le> max_length d" "\<forall>x. 0 \<le> x \<and> x < elems d \<and> slot_at t0 (x * 2) \<noteq> Some 0 \<longrightarrow> 0 < L (nat x)" by blast
  have h: "tree_has L (Suc (nat m)) (nat (elems d)) t1" using given_codes(1) [of L "Suc (nat m)" "nat (elems d)" t c t1] b by simp
  then have "prefix_free (canonical L (Suc (nat m)))" by (intro canonical_prefix_free) (simp add: tree_has_def)
  moreover have "\<forall>x \<le> nat m. slot_at t1 (int x * 2 + 1) = Some (int (L x))" using h by (simp add: tree_has_def lens_are_def)
  moreover have "\<forall>x \<le> nat m. 0 < L x \<longrightarrow> code_bits t1 (int x) = rev (bits_of (L x) (code_word L (Suc (nat m)) x))"
    using tree_has_code(1) [OF h] by simp
  ultimately show ?thesis using b by (intro exI [of _ t1] exI [of _ "nat m"] exI [of _ s1] exI [of _ L]) simp
qed

text \<open>Of the distances nothing but the third occurs, and another symbol gets a code word with it.\<close>

theorem build_tree_complete_code_witness:
  "\<exists>t1 m s1 L. build_tree static_d_desc (put_slot (dyn_dtree (fst (init_block new_trees (d_lits (new_defl 6 15 8 8 0))))) 4 7)
      (work new_trees) = Some (Inr (t1, int m, s1)) \<and>
    prefix_free (canonical L (Suc m)) \<and> complete_lens L (Suc m) \<and> 0 < L 2"
proof -
  let ?t = "put_slot (dyn_dtree (fst (init_block new_trees (d_lits (new_defl 6 15 8 8 0))))) 4 7"
  have t: "slot_at ?t (x * 2) = (if x = 2 then Some 7 else if 0 \<le> x \<and> x < 30 then Some 0 else slot_at ?t (x * 2))" for x
    by (auto simp: slot_at_put init_block_def clear_freqs_slots)
  then have k: "\<forall>x. 0 \<le> x \<and> x < elems static_d_desc \<longrightarrow> slot_at ?t (x * 2) \<noteq> None" "slot_at ?t (2 * 2) = Some 7" by (metis descs(2) option.distinct(1))+
  have "static_d_desc \<in> {static_l_desc, static_d_desc, static_bl_desc}" by simp
  from build_tree_complete_code [OF this k(1), of "work new_trees"] obtain t1 m s1 L where
    b: "build_tree static_d_desc ?t (work new_trees) = Some (Inr (t1, int m, s1))" "prefix_free (canonical L (Suc m))"
      "complete_lens L (Suc m)" "\<forall>x. 0 \<le> x \<and> x < elems static_d_desc \<and> slot_at ?t (x * 2) \<noteq> Some 0 \<longrightarrow> 0 < L (nat x)" by blast
  have "0 < L (nat 2)" using b(4) k(2) by (intro b(4) [rule_format]) simp
  then show ?thesis using b(1-3) by auto
qed

section \<open>The trees of a block\<close>

lemma block_trees_codes:
  assumes "freqs_nonneg 286 (dyn_ltree t)" "freqs_nonneg 30 (dyn_dtree t)" "freqs_nonneg 19 (bl_tree t)" "0 < freq (dyn_ltree t) 256"
  shows "\<exists>optlen statlen t2 L nl D nd B nb m. block_trees t = Some (Inr (optlen, statlen, int m - 1, t2)) \<and>
    block_codes L nl D nd B nb m t2 \<and> (\<forall>x. 0 \<le> x \<and> x < 286 \<and> 0 < freq (dyn_ltree t) x \<longrightarrow> 0 < L (nat x)) \<and>
    (\<forall>x. 0 \<le> x \<and> x < 30 \<and> 0 < freq (dyn_dtree t) x \<longrightarrow> 0 < D (nat x))"
proof -
  obtain lt ml s1 L lt0 c1 where l: "build_tree static_l_desc (dyn_ltree t) (work t) = Some (Inr (lt, int ml, s1))" "1 \<le> ml"
      "lengths_given L (Suc ml) 286 lt0 c1" "gen_codes lt0 (int (Suc ml) - 1) c1 = Inr lt"
      "\<And>x. 0 \<le> x \<Longrightarrow> x < 286 \<Longrightarrow> 0 < freq (dyn_ltree t) x \<Longrightarrow> 0 < L (nat x)"
    by (rule build_tree_freqs [OF static_descs_ok(1), of "dyn_ltree t" "work t", unfolded descs, OF assms(1)]) (rule that; simp)
  obtain dt md s2 D dt0 c2 where d: "build_tree static_d_desc (dyn_dtree t) s1 = Some (Inr (dt, int md, s2))" "1 \<le> md"
      "lengths_given D (Suc md) 30 dt0 c2" "gen_codes dt0 (int (Suc md) - 1) c2 = Inr dt"
      "\<And>x. 0 \<le> x \<Longrightarrow> x < 30 \<Longrightarrow> 0 < freq (dyn_dtree t) x \<Longrightarrow> 0 < D (nat x)"
    by (rule build_tree_freqs [OF static_descs_ok(2), of "dyn_dtree t" s1, unfolded descs, OF assms(2)]) (rule that; simp)
  let ?lt = "put_slot lt (int (Suc ml) * 2 + 1) 0xffff" and ?dt = "put_slot dt (int (Suc md) * 2 + 1) 0xffff"
  note L = given_codes(1) [OF l(3,4)] and D = given_codes(1) [OF d(3,4)]
  obtain bl1 where b1: "scan_tree lt (int (Suc ml) - 1) (bl_tree t) = Inr (?lt, bl1)" "risen 19 (bl_tree t) bl1"
      "\<forall>it \<in> set (tree_items L (Suc ml)). 0 < freq bl1 (fst it)"
    using scan_tree_freqs [OF L assms(3)] by blast
  have "freqs_nonneg 19 bl1" using b1(2) by (simp add: risen_def)
  then obtain bl2 where b2: "scan_tree dt (int (Suc md) - 1) bl1 = Inr (?dt, bl2)" "risen 19 bl1 bl2"
      "\<forall>it \<in> set (tree_items D (Suc md)). 0 < freq bl2 (fst it)"
    using scan_tree_freqs [OF D] by blast
  have f2: "freqs_nonneg 19 bl2" using b2(2) by (simp add: risen_def)
  obtain bt mb s3 B bt0 c3 where b: "build_tree static_bl_desc bl2 s2 = Some (Inr (bt, int mb, s3))"
      "lengths_given B (Suc mb) 19 bt0 c3" "gen_codes bt0 (int (Suc mb) - 1) c3 = Inr bt" "\<And>i. int (B i) \<le> 7"
      "\<And>x. 0 \<le> x \<Longrightarrow> x < 19 \<Longrightarrow> 0 < freq bl2 x \<Longrightarrow> 0 < B (nat x)"
    by (rule build_tree_freqs [OF static_descs_ok(3), of bl2 s2, unfolded descs, OF f2]) (rule that; simp)
  have range: "item_range s w v" if "(s, w, v) \<in> set (tree_items K n)" "tree_has K n k u" for K n k u s w v
  proof -
    have "0 < fst (run_limits (Some (- 1)) (Some (hd (map (\<lambda>i. int (K i)) [0..<n]))))" by (simp add: run_limits_def)
    from items_range [OF that(1) [unfolded tree_items_def] tree_has_range [OF that(2)] _ this] show ?thesis by simp
  qed
  have used: "0 < B (nat s)" if "(s, w, v) \<in> set (tree_items L (Suc ml)) \<union> set (tree_items D (Suc md))" for s w v
  proof -
    from that consider "(s, w, v) \<in> set (tree_items L (Suc ml))" | "(s, w, v) \<in> set (tree_items D (Suc md))" by blast
    then show ?thesis
    proof cases
      case 1
      then have s: "0 \<le> s" "s < 19" using range [OF _ L] by (auto simp: item_range_def)
      have "0 < freq bl1 s" using 1 b1(3) by force
      with risen_pos [OF b2(2) s] b(5) [OF s] show ?thesis by simp
    next
      case 2
      then have s: "0 \<le> s" "s < 19" using range [OF _ D] by (auto simp: item_range_def)
      have "0 < freq bl2 s" using 2 b2(3) by force
      with b(5) [OF s] show ?thesis by simp
    qed
  qed
  have "256 < Suc ml"
  proof (rule ccontr)
    assume "\<not> 256 < Suc ml"
    then have "L 256 = 0" using l(3) by (simp add: lengths_given_def)
    with l(5) [of 256] assms(4) show False by simp
  qed
  have "L 256 \<le> 15" "0 < L 256" using l(3) l(5) [of 256] assms(4) \<open>256 < Suc ml\<close> by (simp_all add: lengths_given_def kraft_ok_def)
  have "int (L 256) \<in> set (map (\<lambda>i. int (L i)) [0..<Suc ml])" using \<open>256 < Suc ml\<close> by (simp del: upt_Suc)
  moreover have "\<forall>l \<in> set (map (\<lambda>i. int (L i)) [0..<Suc ml]). l < 16" using tree_has_range [OF L] by blast
  ultimately have "Some (- 1) = Some (int (L 256)) \<or> int (L 256) \<in> fst ` set (tree_items L (Suc ml))"
    unfolding tree_items_def by (intro items_have) (use \<open>0 < L 256\<close> in simp_all)
  then obtain w v where "(int (L 256), w, v) \<in> set (tree_items L (Suc ml))" by auto
  then have "0 < B (L 256)" using used [of "int (L 256)" w v] by simp
  obtain k where k: "3 \<le> k" "k \<le> 18" "rfc_order ! nat k = int (L 256)"
    using order_small [of "int (L 256)"] \<open>0 < L 256\<close> \<open>L 256 \<le> 15\<close> by auto
  have bl: "lens_are B 19 bt" using given_codes(2) [OF b(2,3)] .
  obtain j where j: "last_bl bt 18 = Inr j" "k \<le> j" "j \<le> 18" "\<forall>x. j < x \<and> x \<le> 18 \<longrightarrow> B (nat (rfc_order ! nat x)) = 0"
    using last_bl_finds [OF bl _ k(1,2)] k(3) \<open>0 < B (L 256)\<close> by auto
  define m where "m = Suc (nat j)"
  have m: "4 \<le> m" "m \<le> 19" "int m - 1 = j" using j(2,3) k(1) by (simp_all add: m_def)
  have rest: "\<forall>k \<in> set (drop m bl_order). B (nat k) = 0"
  proof
    fix x assume "x \<in> set (drop m bl_order)"
    then obtain i where i: "i < 19 - m" "x = rfc_order ! (m + i)"
      unfolding bl_order_rfc in_set_conv_nth by (auto simp: length_order)
    then have "j < int (m + i)" "int (m + i) \<le> 18" using m by simp_all
    with j(4) have "B (nat (rfc_order ! nat (int (m + i)))) = 0" by blast
    with i(2) show "B (nat x) = 0" by (simp del: of_nat_add)
  qed
  define t2 where "t2 = t\<lparr>dyn_ltree := ?lt, dyn_dtree := ?dt, bl_tree := bt, l_max_code := Some (int ml), d_max_code := Some (int md),
    bl_max_code := Some (int mb), work := s3\<lparr>opt_len := opt_len s3 + 3 * (j + 1) + 5 + 5 + 4\<rparr>\<rparr>"
  have lm: "int (Suc ml) - 1 = int ml" "int (Suc md) - 1 = int md" by simp_all
  have "build_l_tree t = ret (t\<lparr>dyn_ltree := lt, l_max_code := Some (int ml), work := s1\<rparr>)" using l(1) by (simp add: build_l_tree_def)
  moreover have "build_d_tree (t\<lparr>dyn_ltree := lt, l_max_code := Some (int ml), work := s1\<rparr>) =
      ret (t\<lparr>dyn_ltree := lt, l_max_code := Some (int ml), dyn_dtree := dt, d_max_code := Some (int md), work := s2\<rparr>)"
    using d(1) by (simp add: build_d_tree_def)
  moreover have "build_bl_tree (t\<lparr>dyn_ltree := lt, l_max_code := Some (int ml), dyn_dtree := dt, d_max_code := Some (int md), work := s2\<rparr>) =
      ret (j, t2)"
    using b1(1) b2(1) b(1) j(1) unfolding lm by (simp add: build_bl_tree_def known_def lift_def t2_def) (simp add: ret_def)
  ultimately obtain optlen statlen where "block_trees t = Some (Inr (optlen, statlen, j, t2))"
    by (simp add: block_trees_def Let_def ret_def)
  moreover have "block_codes L (Suc ml) D (Suc md) B (Suc mb) m t2"
    unfolding block_codes_def
  proof (intro conjI)
    show "\<exists>lt c lt1. lengths_given L (Suc ml) 286 lt c \<and> gen_codes lt (int (Suc ml) - 1) c = Inr lt1 \<and>
        dyn_ltree t2 = put_slot lt1 (int (Suc ml) * 2 + 1) 0xffff \<and> l_max_code t2 = Some (int (Suc ml) - 1) \<and> 257 \<le> Suc ml"
      using l(3,4) \<open>256 < Suc ml\<close> unfolding t2_def by auto
    show "\<exists>dt c dt1. lengths_given D (Suc md) 30 dt c \<and> gen_codes dt (int (Suc md) - 1) c = Inr dt1 \<and>
        dyn_dtree t2 = put_slot dt1 (int (Suc md) * 2 + 1) 0xffff \<and> d_max_code t2 = Some (int (Suc md) - 1) \<and> 1 \<le> Suc md"
      using d(3,4) unfolding t2_def by auto
    have "\<forall>i. B i \<le> 7" using b(4) by (metis of_nat_le_iff of_nat_numeral)
    then show "\<exists>bt c. lengths_given B (Suc mb) 19 bt c \<and> gen_codes bt (int (Suc mb) - 1) c = Inr (bl_tree t2) \<and> (\<forall>i. B i \<le> 7)"
      using b(2,3) unfolding t2_def by auto
    show "\<forall>(s, w, v) \<in> set (tree_items L (Suc ml)) \<union> set (tree_items D (Suc md)). 0 < B (nat s)" using used by blast
  qed (use m rest in simp_all)
  ultimately show ?thesis using l(5) d(5) m(3) by blast
qed

end
