(* ===== verification/Defl_Fixed.thy ===== *)
theory Defl_Fixed
  imports Defl_Symbols Deflate
begin

text \<open>
  Blocks with the fixed code, from the calls of \<open>_tr_tally\<close> to the bits in the output of
  \<^verbatim>\<open>html/lib/deflate.js\<close>: right as long as the output has not overtaken the distances, which lie in
  the same buffer, and what happens to a block in which it does.
\<close>

section \<open>Blocks in time\<close>

lemma fixed_block_sends:
  assumes n: "block_noted syms l o1" and sy: "symbols_ok syms"
    and fits: "int (length (sent o1)) + 3 + 15 * int (length syms) \<le> 8 * d_buf l"
    and c: "lenb < stored_len + 4 \<or> buf = - 1"
  shows "\<exists>o2. encode_block win buf stored_len eof (lenb, lenb, i, t) l o1 = Inr o2 \<and>
    sends o1 (eof # True # False # block_bits static_l static_d syms) o2 \<and> room_for o2 0"
proof -
  let ?bb = "block_bits static_l static_d syms"
  note n1 = n [unfolded block_noted_def]
  have sy: "\<forall>(dist, lc) \<in> set syms. 0 \<le> lc \<and> lc < 256 \<and> 0 \<le> dist \<and> dist \<le> 32768" using sy by (simp add: symbols_ok_def)
  have ok: "\<forall>s \<in> set syms. symbol_ok static_l static_d s" using sy static_symbol_ok by force
  have "length ?bb \<le> 31 * length syms + 7" using length_static_bits [OF sy] by (simp add: block_bits_def static_eob(2))
  then have room: "room_for o1 (3 + int (length ?bb))" using n1 fits unfolding room_for_def by (simp add: places_ok_def)
  define o2 where "o2 = send_bits (js_shl STATIC_TREES 1 + (if eof then 1 else 0)) 3 o1"
  have "room_for o1 3" using room by (auto elim: room_less)
  then have s2: "sends o1 [eof, True, False] o2" unfolding o2_def by (rule header_sends)
  then have sent2: "sent o2 = sent o1 @ [eof, True, False]" by (simp add: sends_def)
  have n2: "block_noted syms l o2" by (rule noted_later [OF n s2]) (use fits in \<open>simp add: sent2\<close>)
  have time: "in_time l (int (length (sent o2))) 0 (map (symbol_bits static_l static_d) syms)"
    by (rule few_symbols_in_time [OF sy]) (use n1 fits in \<open>simp_all add: sent2 places_ok_def\<close>)
  have room2: "room_for o2 (int (length ?bb))" using sends_room [OF s2, of "int (length ?bb)"] room by simp
  obtain o3 where o3: "compress_block static_l static_d l o2 = Inr o3" "sends o2 ?bb o3"
    by (rule compress_block_sends [OF _ _ ok static_eob(1,3) time room2]) (use n2 in \<open>simp_all add: block_noted_def\<close>)
  have "encode_block win buf stored_len eof (lenb, lenb, i, t) l o1 = Inr o3" using o3(1) c by (auto simp: encode_block_def o2_def)
  moreover have "sends o1 (eof # True # False # ?bb) o3" using sends_trans [OF s2 o3(2)] by simp
  moreover have "room_for o3 0" using sends_room [OF o3(2), of 0] room2 by simp
  ultimately show ?thesis by blast
qed

lemma fixed_bits_decoded:
  assumes "symbols_ok syms"
  shows "decode_tokens (Suc (length syms)) fixed_lits fixed_dists (block_bits static_l static_d syms @ rest) =
    Some (map token_of syms, rest)"
proof -
  have "\<forall>s \<in> set syms. symbol_ok static_l static_d s" using assms static_symbol_ok by (force simp: symbols_ok_def)
  then show ?thesis
    using decode_symbols [OF _ _ covers_tree_code [of 286 static_l] covers_tree_code [of 30 static_d], of syms rest] static_eob(1)
    by (simp add: static_lits static_dists fixed_lits_prefix_free fixed_dists_prefix_free block_bits_def)
qed

section \<open>A block overtaken by its output\<close>

lemma nth_concat_bytes: "i < length bs \<Longrightarrow> k < 8 \<Longrightarrow> concat (map byte_bits bs) ! (8 * i + k) = byte_bits (bs ! i) ! k"
proof (induction bs arbitrary: i)
  case (Cons b bs)
  then show ?case by (cases i) (simp_all add: nth_append)
qed simp

lemma nth_sent:
  assumes "bits_ok o1" "int i < pending o1" "k < 8"
  shows "sent o1 ! (8 * i + k) = byte_bits (pending_buf o1 ! i) ! k"
proof -
  have i: "i < length (take (nat (pending o1)) (pending_buf o1))" using assms(1,2) by (simp add: bits_ok_def)
  then have "8 * i + k < length (concat (map byte_bits (take (nat (pending o1)) (pending_buf o1))))"
    using assms(3) unfolding length_concat_bytes by linarith
  then show ?thesis using nth_concat_bytes [OF i assms(3)] i unfolding sent_def nth_append by simp
qed

lemma nth_concat_replicate: "i < n * length p \<Longrightarrow> concat (replicate n p) ! i = p ! (i mod length p)"
proof (induction n arbitrary: i)
  case (Suc n)
  show ?case
  proof (cases "i < length p")
    case False
    then have "i - length p < n * length p" using Suc.prems by simp
    from Suc.IH [OF this] False show ?thesis by (simp add: nth_append le_mod_geq)
  qed (simp add: nth_append)
qed simp

lemma length_concat_replicate: "length (concat (replicate n p)) = n * length p"
  by (induction n) simp_all

lemma send_symbols_add:
  "send_symbols lt dt l (m + k) lx o1 = ebind (send_symbols lt dt l m lx o1) (send_symbols lt dt l k (lx + int m))"
proof (induction m arbitrary: lx o1)
  case (Suc m)
  have assoc: "ebind (ebind p f) g = ebind p (\<lambda>x. ebind (f x) g)" for p :: "out_buf eff" and f g :: "out_buf \<Rightarrow> out_buf eff"
    by (cases p) simp_all
  have IH: "send_symbols lt dt l (m + k) (lx + 1) = (\<lambda>o1. ebind (send_symbols lt dt l m (lx + 1) o1) (send_symbols lt dt l k (lx + 1 + int m)))"
    using Suc.IH by (intro ext)
  show ?case by (simp add: split_def assoc IH add.assoc)
qed simp

text \<open>A copy of 257 bytes from 24579 before: 31 bits, eight of which read as the number 43.\<close>

definition far_copy :: "int \<times> int" where
  "far_copy = (24579, 254)"

lemma far_copy_numbers: "length_symbol 254 = 27" "distance_symbol 24579 = 29"
  by code_simp+

lemma far_copy_bits:
  "symbol_bits static_l static_d far_copy = rev (bits_of 8 196) @ bits_of 5 30 @ rev (bits_of 5 29) @ bits_of 13 2"
  by (simp add: symbol_bits_def far_copy_def far_copy_numbers static_l_code static_d_code fixed_code_def length_extra_def
    distance_extra_def length_base_def distance_base_def)

lemma far_copy_length: "length (symbol_bits static_l static_d far_copy) = 31"
  by (simp add: far_copy_bits)

lemma far_copy_byte: "take 8 (drop 14 (symbol_bits static_l static_d far_copy)) = bits_of 8 43"
  unfolding far_copy_bits by (simp add: bits_of_def upt_rec)

lemma byte_bits_eq: "byte_bits b = bits_of 8 v \<Longrightarrow> uint b = v mod 256"
proof -
  assume e: "byte_bits b = bits_of 8 v"
  have "b = word_of_int v"
  proof (rule bit_word_eqI)
    fix n assume "n < LENGTH(8)"
    then show "bit b n = bit (word_of_int v :: byte) n"
      using arg_cong [OF e, of "\<lambda>bs. bs ! n"] by (simp add: byte_bits_def bit_of_int_iff)
  qed
  then show ?thesis by (simp add: uint_byte)
qed

text \<open>The buffers after \<open>deflateInit\<close> with the default sizes.\<close>

lemma deflateInit_buffers:
  assumes "deflateInit lev 15 0 0 0 z = Inr (Z_OK, Set d, z1)"
  shows "d_buf (d_lits d) = 8192" "l_buf (d_lits d) = 49152" "last_lit (d_lits d) = 0" "freqs_ok (d_trees d)"
    "pending (d_out d) = 0" "bi_valid (d_out d) = 0" "bi_buf (d_out d) = 0" "length (pending_buf (d_out d)) = 65536"
proof -
  have b: "js_shl 1 14 = 16384" by (simp add: js_shl_small)
  define l where "l = (if lev = - 1 then 6 else lev)"
  define d0 where "d0 = (new_defl l 15 8 8 0)\<lparr>d_out := (d_out (new_defl l 15 8 8 0))\<lparr>pending := 0, pending_out := 0\<rparr>,
    d_status := BUSY_STATE, d_last_flush := Z_NO_FLUSH\<rparr>"
  have "lm_init (tr_init d0) = Inr d"
    using assms by (auto simp: deflateInit_def deflateReset_def Let_def l_def d0_def ebind_Inr_iff split: if_splits)
  then have d: "d_lits d = d_lits (tr_init d0)" "d_trees d = d_trees (tr_init d0)" "d_out d = d_out (tr_init d0)"
    by (auto simp: lm_init_def ebind_Inr_iff in_win_def)
  obtain t1 l1 where i: "init_block (d_trees d0) (d_lits d0) = (t1, l1)" by fastforce
  note f = init_block_freqs [of "d_trees d0" "d_lits d0", unfolded i fst_conv snd_conv]
  show "d_buf (d_lits d) = 8192" "l_buf (d_lits d) = 49152" "last_lit (d_lits d) = 0" "freqs_ok (d_trees d)"
    "pending (d_out d) = 0" "bi_valid (d_out d) = 0" "bi_buf (d_out d) = 0" "length (pending_buf (d_out d)) = 65536"
    using f by (simp_all add: d tr_init_def i) (simp_all add: d0_def new_defl_def b Let_def)
qed

text \<open>After 4370 of these copies the output has reached the distance of the next one.\<close>

lemma overtaken:
  assumes "sends o1 (concat (replicate 4370 (symbol_bits static_l static_d far_copy))) o2" "length (sent o1) = 3"
  shows "8192 + 2 * 4370 < pending o2" "pending o2 \<le> 16934" "byte_at (pending_buf o2) (8192 + 2 * 4370) = 43"
proof -
  let ?p = "symbol_bits static_l static_d far_copy"
  have ok: "bits_ok o2" "sent o2 = sent o1 @ concat (replicate 4370 ?p)" using assms(1) by (simp_all add: sends_def)
  have len: "length (sent o2) = 3 + 4370 * 31" using assms(2) unfolding ok(2) by (simp add: length_concat_replicate far_copy_length)
  have "8 * pending o2 + bi_valid o2 = 135473" "0 \<le> bi_valid o2" "bi_valid o2 \<le> 16"
    using length_sent [OF ok(1)] ok(1) len by (simp_all add: bits_ok_def)
  then show p: "8192 + 2 * 4370 < pending o2" "pending o2 \<le> 16934" by linarith+
  have "byte_bits (pending_buf o2 ! 16932) = bits_of 8 43"
  proof (rule nth_equalityI)
    fix k assume "k < length (byte_bits (pending_buf o2 ! 16932))"
    then have k: "k < 8" by simp
    have "byte_bits (pending_buf o2 ! 16932) ! k = sent o2 ! (8 * 16932 + k)"
      using nth_sent [OF ok(1) _ k, of 16932] p by simp
    also have "\<dots> = concat (replicate 4370 ?p) ! (135453 + k)"
      using assms(2) unfolding ok(2) nth_append by simp
    also have "\<dots> = ?p ! ((135453 + k) mod 31)"
      using nth_concat_replicate [of "135453 + k" 4370 ?p] k by (simp add: far_copy_length)
    also have "(135453 + k) mod 31 = 14 + k"
    proof -
      have e: "135453 + k = 14 + k + 31 * 4369" by simp
      show ?thesis unfolding e mod_mult_self2 using k by simp
    qed
    also have "?p ! (14 + k) = take 8 (drop 14 ?p) ! k" using k by (simp add: far_copy_length)
    finally show "byte_bits (pending_buf o2 ! 16932) ! k = bits_of 8 43 ! k" unfolding far_copy_byte .
  qed simp
  then have "uint (pending_buf o2 ! 16932) = 43 mod 256" by (rule byte_bits_eq)
  moreover have "16932 < length (pending_buf o2)" using p(1) ok(1) by (simp add: bits_ok_def)
  ultimately show "byte_at (pending_buf o2) (8192 + 2 * 4370) = 43" by (simp add: byte_at_def arr_at_def)
qed

lemma byte_at_range: "0 \<le> byte_at b i" "byte_at b i < 256"
  using uint_lt2p [of "b ! nat i"] by (simp_all add: byte_at_def arr_at_def)

text \<open>
  The bound on the output cannot be left out. If \<open>encode_block\<close> is made to use the fixed code, with the sizes of
  \<open>deflateInit\<close>, for a block of 4371 copies of 257 bytes from 24579 before, the last copy comes out with another
  distance, because by then its place in the buffer holds output. \<open>_tr_flush_block\<close> would not choose the fixed code
  for this block: its own code takes fewer bits.
\<close>

theorem distances_overwritten:
  assumes "deflateInit lev 15 0 0 0 z = Inr (Z_OK, Set d, z1)" and "lenb < stored_len + 4"
  shows "\<exists>l1 t1 o2 o3 bs dist. tally_all l (replicate 4371 (n, far_copy)) (d_lits d, d_trees d, d_out d) = Inr (l1, t1, o2) \<and>
    encode_block win buf stored_len eof (lenb, lenb, max_blindex, t2) l1 o2 = Inr o3 \<and>
    sent o3 = [eof, True, False] @ bs \<and> dist \<noteq> 24579 \<and>
    decode_tokens 4372 fixed_lits fixed_dists bs = Some (replicate 4370 (Copy 257 24579) @ [Copy 257 dist], [])"
proof -
  note B = deflateInit_buffers [OF assms(1)]
  let ?m = 4370 and ?p = "symbol_bits static_l static_d"
  let ?ss = "replicate 4371 (n, far_copy)"
  have ms: "map snd ?ss = replicate 4371 far_copy" by simp
  have sy: "symbols_ok (map snd ?ss)" by (simp add: symbols_ok_def far_copy_def)
  have "places_ok (d_lits d) (pending_buf (d_out d)) (last_lit (d_lits d) + int (length ?ss))" using B by (simp add: places_ok_def)
  from tally_all_in_place [of "d_lits d" "d_out d" "[]", OF _ _ B(4) sy this, of l] B(3) obtain l1 t1 o2 where
    t: "tally_all l ?ss (d_lits d, d_trees d, d_out d) = Inr (l1, t1, o2)" "in_place l1 (pending_buf o2) 0 (replicate 4371 far_copy)"
      "last_lit l1 = 4371" "d_buf l1 = 8192" "l_buf l1 = 49152" and
    o2: "pending o2 = 0" "bi_buf o2 = 0" "bi_valid o2 = 0" "length (pending_buf o2) = 65536"
    unfolding ms B by (auto simp: in_place_def)
  have s2: "sent o2 = []" "bits_ok o2" using o2 by (simp_all add: sent_def bits_ok_def)
  define o3 where "o3 = send_bits (js_shl STATIC_TREES 1 + (if eof then 1 else 0)) 3 o2"
  have "room_for o2 3" using s2 o2 by (simp add: room_for_def)
  then have s3: "sends o2 [eof, True, False] o3" unfolding o3_def by (rule header_sends)
  then have b3: "bits_ok o3" "grows o2 o3" "sent o3 = [eof, True, False]" "length (pending_buf o3) = 65536"
    using s2 o2 by (simp_all add: sends_def grows_def)
  have "pending o3 \<le> 8192" using length_sent [OF b3(1)] b3(1) by (simp add: b3(3) bits_ok_def)
  then have place: "in_place l1 (pending_buf o3) 0 (replicate 4371 far_copy)"
    using t(2) in_place_grows [OF b3(2), of l1 0 "replicate 4371 far_copy"] b3(1) by (simp add: t(4,5) bits_ok_def)
  then have place1: "in_place l1 (pending_buf o3) 0 (replicate ?m far_copy)" by (simp add: in_place_def)
  have ok1: "symbol_ok static_l static_d far_copy" unfolding far_copy_def by (rule static_symbol_ok) simp_all
  have tk: "take i (replicate ?m bs) = replicate i bs" if "i \<le> ?m" for i :: nat and bs :: "bool list" using that by (simp add: min_def)
  have time: "in_time l1 (int (length (sent o3))) 0 (map ?p (replicate ?m far_copy))"
    unfolding in_time_def map_replicate by (simp add: b3(3) t(4,5) tk length_concat_replicate far_copy_length)
  have bits: "concat (map ?p (replicate ?m far_copy)) = concat (replicate ?m (?p far_copy))" by (simp only: map_replicate)
  have room: "room_for o3 (int (length (concat (map ?p (replicate ?m far_copy)))) + 38)"
    using b3 unfolding bits by (simp add: room_for_def length_concat_replicate far_copy_length)
  from send_symbols_sends [OF place1 _ time room] ok1 obtain o4 where
    o4: "send_symbols static_l static_d l1 ?m 0 o3 = Inr o4" "sends o3 (concat (replicate ?m (?p far_copy))) o4"
    unfolding bits by auto
  have l3: "length (sent o3) = 3" using b3(3) by simp
  note ov = overtaken [OF o4(2) l3]
  define lo where "lo = byte_at (pending_buf o4) (8192 + 2 * 4370 + 1)"
  define dist where "dist = 43 * 256 + lo"
  have lo: "0 \<le> lo" "lo < 256" unfolding lo_def by (rule byte_at_range)+
  have dist: "0 \<le> dist" "dist \<le> 32768" "dist < 65536" "dist div 256 = 43" "dist \<noteq> 24579" "dist \<noteq> 0"
    using lo by (simp_all add: dist_def)
  have low: "dist mod 256 = lo" unfolding dist_def mod_mult_self3 using lo by simp
  have lc: "js_and (byte_at (pending_buf o4) (l_buf l1 + 4370)) 0xff = 254"
  proof -
    have "symbol_at l1 (pending_buf o3) 4370 = far_copy" using place unfolding in_place_def by (auto dest: spec [of _ 4370])
    then have "js_and (byte_at (pending_buf o3) (l_buf l1 + 4370)) 0xff = 254" by (simp add: symbol_at_def far_copy_def)
    moreover have "byte_at (pending_buf o4) (l_buf l1 + 4370) = byte_at (pending_buf o3) (l_buf l1 + 4370)"
      using o4(2) ov(1,2) by (intro byte_at_drop [of "nat (pending o4)"]) (simp_all add: sends_def grows_def t(5))
    ultimately show ?thesis by simp
  qed
  have "byte_at (pending_buf o4) 16933 = lo" by (simp add: lo_def)
  then have read: "symbol_at l1 (pending_buf o4) 4370 = (dist, 254)"
    using lc symbol_bytes [OF dist(1,3)] dist(4) low ov(3) lo by (simp add: symbol_at_def t(4))
  have okd: "symbol_ok static_l static_d (dist, 254)" by (rule static_symbol_ok) (use dist in simp_all)
  have "length (?p (dist, 254)) \<le> 31" by (rule static_symbol_length) (use dist in simp_all)
  moreover have room4: "room_for o4 38" using sends_room [OF o4(2)] room unfolding bits by simp
  ultimately have "room_for o4 (int (length (?p (dist, 254))))" by (auto elim: room_less)
  with okd obtain o5 where o5: "send_symbol static_l static_d dist 254 o4 = Inr o5" "sends o4 (?p (dist, 254)) o5" by (rule send_symbol_sends)
  have "room_for o4 (int (length (?p (dist, 254))) + 7)" using room4 \<open>length _ \<le> 31\<close> by (auto elim: room_less)
  from sends_room [OF o5(2) this] have "room_for o5 (int (length (code_bits static_l 256)))" by (simp add: static_eob(2))
  with static_eob(1) have s6: "sends o5 (code_bits static_l 256) (send_code 256 static_l o5)" by (rule send_code_sends)
  let ?o6 = "(send_code 256 static_l o5)\<lparr>last_eob_len := 7\<rparr>"
  let ?syms = "replicate ?m far_copy @ [(dist, 254)]"
  have "send_symbols static_l static_d l1 (?m + 1) 0 o3 = Inr o5"
    unfolding send_symbols_add o4(1) using read o5(1) by simp
  then have "compress_block static_l static_d l1 o3 = Inr ?o6"
    using t(3) static_eob(3) by (simp add: compress_block_def)
  then have "encode_block win buf stored_len eof (lenb, lenb, max_blindex, t2) l1 o2 = Inr ?o6"
    using assms(2) by (simp add: encode_block_def o3_def)
  moreover have "sent ?o6 = [eof, True, False] @ block_bits static_l static_d ?syms"
    using s6 o5(2) o4(2) b3(3) bits by (simp add: sends_def block_bits_def) (simp add: sent_def)
  moreover have "decode_tokens 4372 fixed_lits fixed_dists (block_bits static_l static_d ?syms) =
      Some (replicate 4370 (Copy 257 24579) @ [Copy 257 dist], [])"
  proof -
    have n: "Suc (length ?syms) = 4372" by simp
    have "map token_of ?syms = replicate 4370 (Copy 257 24579) @ [Copy 257 dist]"
      using dist(6) by (simp add: token_of_def far_copy_def)
    then show ?thesis using decode_symbols [OF _ _ covers_tree_code [of 286 static_l] covers_tree_code [of 30 static_d], of ?syms "[]"] ok1 okd static_eob(1) unfolding n
      by (simp add: static_lits static_dists fixed_lits_prefix_free fixed_dists_prefix_free block_bits_def)
  qed
  ultimately show ?thesis using t(1) dist(5) by blast
qed

text \<open>Level 6 is the level of a \<open>Deflater\<close> that is given none.\<close>

lemma deflateInit_6: "\<exists>d z1. deflateInit 6 15 0 0 0 z = Inr (Z_OK, Set d, z1)"
  by (simp add: deflateInit_def deflateReset_def lm_init_def Let_def set_tuning_def elem_def arr_at_def config_table_def
    tr_init_def new_defl_def split: prod.split)

theorem distances_overwritten_witness:
  "\<exists>d z1 l1 t1 o2 o3 bs dist. deflateInit 6 15 0 0 0 new_ZStream = Inr (Z_OK, Set d, z1) \<and>
    tally_all 6 (replicate 4371 (600000, far_copy)) (d_lits d, d_trees d, d_out d) = Inr (l1, t1, o2) \<and>
    encode_block [] (- 1) 1123347 False (16943, 16943, 0, new_trees) l1 o2 = Inr o3 \<and>
    sent o3 = [False, True, False] @ bs \<and> dist \<noteq> 24579 \<and>
    decode_tokens 4372 fixed_lits fixed_dists bs = Some (replicate 4370 (Copy 257 24579) @ [Copy 257 dist], [])"
proof -
  obtain d z1 where i: "deflateInit 6 15 0 0 0 new_ZStream = Inr (Z_OK, Set d, z1)" using deflateInit_6 by blast
  have "(16943 :: int) < 1123347 + 4" by simp
  from distances_overwritten [OF i this, of 6 600000 "[]" "- 1" False 0 new_trees] i show ?thesis by blast
qed

end
