(* ===== verification/Defl_Blocks.thy ===== *)
theory Defl_Blocks
  imports Defl_Trees Defl_Fixed
begin

text \<open>
  A block of \<^verbatim>\<open>html/lib/deflate.js\<close> as a whole, from the calls of \<open>_tr_tally\<close> to the bits of \<open>_tr_flush_block\<close>:
  the frequencies that the tallies leave, the trees made of them, the choice between the fixed code and the
  codes of the block, and the bits up to the next byte after the last block.
\<close>

section \<open>The frequencies of a block\<close>

text \<open>A symbol has been counted.\<close>

definition noted :: "trees \<Rightarrow> int \<times> int \<Rightarrow> bool" where
  "noted t = (\<lambda>(dist, lc). if dist = 0 then 0 < freq (dyn_ltree t) lc
     else 0 < freq (dyn_ltree t) (length_symbol lc + 257) \<and> 0 < freq (dyn_dtree t) (distance_symbol dist))"

definition trees_risen :: "trees \<Rightarrow> trees \<Rightarrow> bool" where
  "trees_risen t u \<longleftrightarrow> risen 286 (dyn_ltree t) (dyn_ltree u) \<and> risen 30 (dyn_dtree t) (dyn_dtree u) \<and> bl_tree u = bl_tree t"

definition trees_nonneg :: "trees \<Rightarrow> bool" where
  "trees_nonneg t \<longleftrightarrow> freqs_nonneg 286 (dyn_ltree t) \<and> freqs_nonneg 30 (dyn_dtree t)"

lemma trees_risen_trans: "trees_risen t u \<Longrightarrow> trees_risen u v \<Longrightarrow> trees_risen t v"
  by (auto simp: trees_risen_def intro: risen_trans)

lemma trees_risen_nonneg: "trees_risen t u \<Longrightarrow> trees_nonneg u"
  by (simp add: trees_risen_def trees_nonneg_def risen_def)

lemma noted_risen:
  assumes "noted t (dist, lc)" "trees_risen t u" "0 \<le> lc" "lc < 256" "0 \<le> dist" "dist \<le> 32768"
  shows "noted u (dist, lc)"
proof -
  have r: "risen 286 (dyn_ltree t) (dyn_ltree u)" "risen 30 (dyn_dtree t) (dyn_dtree u)" using assms(2) by (simp_all add: trees_risen_def)
  have "0 \<le> length_symbol lc" "length_symbol lc < 29" using length_symbol [OF assms(3,4)] by simp_all
  moreover have "0 \<le> distance_symbol dist" "distance_symbol dist < 30" if "dist \<noteq> 0"
    using distance_symbol [of dist] that assms(5,6) by simp_all
  ultimately show ?thesis using assms(1,3,4) risen_pos [OF r(1)] risen_pos [OF r(2)] by (auto simp: noted_def split: if_splits)
qed

lemma tally_counts_freqs:
  assumes "trees_nonneg t" "0 \<le> lc" "lc < 256" "0 \<le> dist" "dist \<le> 32768" "tally_counts dist lc t = Inr t1"
  shows "trees_risen t t1" "noted t1 (dist, lc)"
proof -
  have f: "freqs_nonneg 286 (dyn_ltree t)" "freqs_nonneg 30 (dyn_dtree t)" using assms(1) by (simp_all add: trees_nonneg_def)
  have "trees_risen t t1 \<and> noted t1 (dist, lc)"
  proof (cases "dist = 0")
    case True
    obtain u where "bump (dyn_ltree t) (lc * 2) 1 = Inr u" "risen 286 (dyn_ltree t) u" "0 < freq u lc"
      by (rule bump_freq [OF f(1) assms(2), of 1]) (use assms(3) in simp_all)
    then show ?thesis using True assms(6) risen_refl [OF f(2)] by (auto simp: tally_counts_def trees_risen_def noted_def)
  next
    case False
    then have d: "1 \<le> dist" using assms(4) by simp
    note K = length_symbol [OF assms(2,3)] and J = distance_symbol [OF d assms(5)]
    obtain u where u: "bump (dyn_ltree t) ((length_symbol lc + 257) * 2) 1 = Inr u" "risen 286 (dyn_ltree t) u"
        "0 < freq u (length_symbol lc + 257)"
      by (rule bump_freq [OF f(1), of "length_symbol lc + 257" 1]) (use K in simp_all)
    obtain v where v: "bump (dyn_dtree t) (distance_symbol dist * 2) 1 = Inr v" "risen 30 (dyn_dtree t) v"
        "0 < freq v (distance_symbol dist)"
      by (rule bump_freq [OF f(2) J(2,3), of 1]) simp_all
    have "t1 = t\<lparr>dyn_ltree := u, dyn_dtree := v\<rparr>"
      using False K(1) J(1) u(1) v(1) assms(6) by (simp add: tally_counts_def add.commute [of 514])
    then show ?thesis using False u v by (simp add: trees_risen_def noted_def)
  qed
  then show "trees_risen t t1" "noted t1 (dist, lc)" by simp_all
qed

lemma tally_all_freqs:
  assumes "trees_nonneg t" "symbols_ok (map snd ss)" "tally_all lev ss (l, t, o1) = Inr (l1, t1, o2)"
  shows "trees_risen t t1 \<and> (\<forall>s \<in> set ss. noted t1 (snd s))"
  using assms
proof (induction ss arbitrary: l t o1)
  case Nil
  then show ?case by (auto simp: trees_risen_def trees_nonneg_def intro: risen_refl)
next
  case (Cons s ss)
  obtain n dist lc where s: "s = (n, dist, lc)" by (cases s)
  have r: "0 \<le> lc" "lc < 256" "0 \<le> dist" "dist \<le> 32768" using Cons.prems(2) by (simp_all add: s symbols_ok_def)
  obtain full la ta oa where a: "tr_tally lev n dist lc l t o1 = Inr (full, la, ta, oa)" "tally_all lev ss (la, ta, oa) = Inr (l1, t1, o2)"
    using Cons.prems(3) by (auto simp: s ebind_Inr_iff)
  have "tally_counts dist lc t = Inr ta" using a(1) by (auto simp: tr_tally_def Let_def ebind_Inr_iff)
  note c = tally_counts_freqs [OF Cons.prems(1) r this]
  have "symbols_ok (map snd ss)" using Cons.prems(2) by (simp add: symbols_ok_def)
  from Cons.IH [OF trees_risen_nonneg [OF c(1)] this a(2)] show ?case
    using trees_risen_trans [OF c(1)] noted_risen [OF c(2) _ r] by (simp add: s)
qed

lemma init_block_nonneg:
  assumes "init_block t0 l0 = (t, l)"
  shows "trees_nonneg t" "freqs_nonneg 19 (bl_tree t)" "0 < freq (dyn_ltree t) 256"
  using assms by (auto simp: init_block_def trees_nonneg_def freqs_nonneg_def freq_def slot_at_put clear_freqs_slots)

text \<open>So the trees that \<open>_tr_flush_block\<close> builds have a code for every symbol of the block.\<close>

lemma block_trees_tallied:
  assumes "init_block t0 l0 = (t, l)" "symbols_ok (map snd ss)" "tally_all lev ss (l, t, o1) = Inr (l1, t1, o2)"
  shows "\<exists>optlen statlen t2 L nl D nd B nb m. block_trees t1 = Some (Inr (optlen, statlen, int m - 1, t2)) \<and>
    block_codes L nl D nd B nb m t2 \<and> 0 < L 256 \<and> (\<forall>s \<in> set (map snd ss). has_code L D s)"
proof -
  note i = init_block_nonneg [OF assms(1)]
  note t = tally_all_freqs [OF i(1) assms(2,3)]
  have n: "freqs_nonneg 286 (dyn_ltree t1)" "freqs_nonneg 30 (dyn_dtree t1)"
    using trees_risen_nonneg [of t t1] t by (simp_all add: trees_nonneg_def)
  have "freqs_nonneg 19 (bl_tree t1)" "0 < freq (dyn_ltree t1) 256"
    using t i(2,3) risen_pos [of 286 "dyn_ltree t" "dyn_ltree t1" 256] by (auto simp: trees_risen_def)
  from block_trees_codes [OF n this] obtain optlen statlen t2 L nl D nd B nb m where
    b: "block_trees t1 = Some (Inr (optlen, statlen, int m - 1, t2))" "block_codes L nl D nd B nb m t2"
      "\<forall>x. 0 \<le> x \<and> x < 286 \<and> 0 < freq (dyn_ltree t1) x \<longrightarrow> 0 < L (nat x)"
      "\<forall>x. 0 \<le> x \<and> x < 30 \<and> 0 < freq (dyn_dtree t1) x \<longrightarrow> 0 < D (nat x)" by blast
  have codes: "has_code L D s" if "s \<in> set (map snd ss)" for s
  proof (cases s)
    case (Pair dist lc)
    have r: "0 \<le> lc" "lc < 256" "0 \<le> dist" "dist \<le> 32768" using assms(2) that by (auto simp: Pair symbols_ok_def)
    have nt: "noted t1 (dist, lc)" using t that by (auto simp: Pair)
    note K = length_symbol [OF r(1,2)]
    show ?thesis
    proof (cases "dist = 0")
      case True
      then show ?thesis using nt r b(3) by (simp add: Pair has_code_def noted_def)
    next
      case False
      then have d: "1 \<le> dist" using r(3) by simp
      note J = distance_symbol [OF d r(4)]
      have "0 < L (nat (length_symbol lc + 257))" "0 < D (nat (distance_symbol dist))"
        using nt False K(2,3) J(2,3) b(3,4) by (simp_all add: noted_def)
      then show ?thesis using r False K(2) by (simp add: Pair has_code_def nat_add_distrib)
    qed
  qed
  have "0 < L (nat 256)" using b(3) \<open>0 < freq (dyn_ltree t1) 256\<close> by (elim allE [of _ 256]) simp
  then have "0 < L 256" by simp
  moreover have "\<forall>s \<in> set (map snd ss). has_code L D s" using codes by (rule ballI)
  ultimately show ?thesis using b(1,2) by blast
qed

section \<open>The end of the block\<close>

lemma bi_windup_sent:
  assumes "room_for o1 0"
  shows "\<exists>pad. sent (bi_windup o1) = sent o1 @ pad \<and> length pad < 8 \<and> bits_ok (bi_windup o1) \<and> bi_valid (bi_windup o1) = 0"
proof -
  have ok: "bits_ok o1" using assms by (simp add: room_for_def)
  let ?k = "nat (bi_valid o1)" and ?b = "bi_buf o1"
  have v: "0 \<le> bi_valid o1" "bi_valid o1 \<le> 16" "0 \<le> ?b" "0 \<le> pending o1" using ok by (simp_all add: bits_ok_def)
  have room: "8 * pending o1 + bi_valid o1 \<le> 8 * int (length (pending_buf o1))"
    using assms length_sent [OF ok] by (simp add: room_for_def)
  have split: "bits_of n b = bits_of k b @ drop k (bits_of n b)" if "k \<le> n" for n k :: nat and b
    using that by (intro nth_equalityI) (auto simp: nth_append)
  consider "8 < bi_valid o1" | "0 < bi_valid o1" "bi_valid o1 \<le> 8" | "bi_valid o1 = 0" using v by linarith
  then show ?thesis
  proof cases
    case 1
    have r: "pending o1 + 2 \<le> int (length (pending_buf o1))" using room 1 by linarith
    note ps = put_short_sent [OF v(4) r v(3)]
    have "bits_ok (bi_windup o1)" using 1 ps(2,3) r v(4) by (simp add: bi_windup_def bits_ok_def grows_def)
    moreover have "sent (bi_windup o1) = sent o1 @ drop ?k (bits_of 16 ?b)"
      using 1 v ps(1) split [of ?k 16 ?b] by (simp add: bi_windup_def sent_def nat_le_iff)
    ultimately show ?thesis using 1 v by (intro exI [of _ "drop ?k (bits_of 16 ?b)"]) (simp add: bi_windup_def)
  next
    case 2
    let ?p = "nat (pending o1)"
    have p: "?p < length (pending_buf o1)" using room 2 v(4) by linarith
    have e: "bi_windup o1 = o1\<lparr>pending_buf := (pending_buf o1)[?p := word_of_int (?b mod 256)], pending := pending o1 + 1,
        bi_buf := 0, bi_valid := 0\<rparr>"
      using 2 v p by (simp add: bi_windup_def put_byte_def arr_put_def)
    have "byte_bits (word_of_int (?b mod 256)) = bits_of 8 ?b"
      unfolding byte_bits_of_int by (intro nth_equalityI) (auto simp: bit_simps take_bit_eq_mod [of 8 ?b, simplified, symmetric])
    then have "sent (bi_windup o1) = concat (map byte_bits (take ?p (pending_buf o1))) @ bits_of 8 ?b"
      using p v(4) by (simp add: e sent_def nat_add_distrib take_Suc_conv_app_nth)
    also have "\<dots> = sent o1 @ drop ?k (bits_of 8 ?b)" using 2 split [of ?k 8 ?b] by (simp add: sent_def nat_le_iff)
    finally have s: "sent (bi_windup o1) = sent o1 @ drop ?k (bits_of 8 ?b)" .
    have "bits_ok (bi_windup o1)" using v(4) p by (simp add: e bits_ok_def)
    then show ?thesis using s 2 by (intro exI [of _ "drop ?k (bits_of 8 ?b)"]) (simp add: e)
  next
    case 3
    then have "bi_windup o1 = o1\<lparr>bi_buf := 0, bi_valid := 0\<rparr>" by (simp add: bi_windup_def)
    then show ?thesis using 3 ok by (simp add: sent_def bits_ok_def)
  qed
qed

lemma sum_freq_known: "\<forall>i < k. slot_at t ((n + int i) * 2) \<noteq> None \<Longrightarrow> \<exists>s. sum_freq t n k = Inr s"
proof (induction k arbitrary: n)
  case (Suc k)
  have "slot_at t (n * 2) \<noteq> None" using Suc.prems by (auto dest: spec [of _ 0])
  then obtain f where "slot t (n * 2) = Inr f" by (auto simp: slot_def)
  moreover have "\<forall>i < k. slot_at t ((n + 1 + int i) * 2) \<noteq> None"
  proof (intro allI impI)
    fix i assume "i < k"
    then have "slot_at t ((n + int (Suc i)) * 2) \<noteq> None" using Suc.prems by blast
    then show "slot_at t ((n + 1 + int i) * 2) \<noteq> None" by (simp add: add.assoc)
  qed
  ultimately show ?case using Suc.IH [of "n + 1"] by auto
qed simp

lemma set_data_type_known:
  assumes "freqs_nonneg 286 lt"
  shows "\<exists>k. set_data_type lt = Inr k"
proof -
  have "\<exists>s. sum_freq lt n k = Inr s" if "0 \<le> n" "n + int k \<le> 256" for n k
  proof (rule sum_freq_known, intro allI impI)
    fix i assume "i < k"
    then have "0 \<le> n + int i" "n + int i < 286" using that by simp_all
    then show "slot_at lt ((n + int i) * 2) \<noteq> None" using assms unfolding freqs_nonneg_def by blast
  qed
  from this [of 0 7] this [of 7 121] this [of 128 128] show ?thesis by (auto simp: set_data_type_def)
qed

section \<open>Blocks\<close>

text \<open>A decoder of a block of RFC 1951 with codes, its first bit and its type included.\<close>

fun decode_block :: "nat \<Rightarrow> bool list \<Rightarrow> (bool \<times> token list \<times> bool list) option" where
  "decode_block n (eof # True # False # bs) = map_option (Pair eof) (decode_tokens n fixed_lits fixed_dists bs)"
| "decode_block n (eof # False # True # bs) = map_option (Pair eof) (decode_dynamic n bs)"
| "decode_block n bs = None"

text \<open>The bits that are out before the last symbol is read, at most.\<close>

definition block_room :: "bool \<Rightarrow> nat \<Rightarrow> int" where
  "block_room fixed n = (if fixed then 3 + 15 * int n else 4498 + 32 * int n)"

lemma block_encoded:
  assumes "block_codes L nl D nd B nb m t" "block_noted syms l o1" "symbols_ok syms" "\<forall>s \<in> set syms. has_code L D s" "0 < L 256"
    and "optlen < stored_len + 4 \<or> buf = - 1"
    and fits: "int (length (sent o1)) + block_room (statlen = optlen) (length syms) \<le> 8 * d_buf l"
  shows "\<exists>o2 bs. encode_block win buf stored_len eof (optlen, statlen, int m - 1, t) l o1 = Inr o2 \<and> sends o1 bs o2 \<and> room_for o2 0 \<and>
    (\<forall>rest. decode_block (Suc (length syms)) (bs @ rest) = Some (eof, map token_of syms, rest))"
proof (cases "statlen = optlen")
  case True
  have "int (length (sent o1)) + 3 + 15 * int (length syms) \<le> 8 * d_buf l" using fits True by (simp add: block_room_def)
  from fixed_block_sends [OF assms(2,3) this assms(6), of win eof "int m - 1" t] obtain o2 where
    o2: "encode_block win buf stored_len eof (optlen, optlen, int m - 1, t) l o1 = Inr o2"
      "sends o1 (eof # True # False # block_bits static_l static_d syms) o2" "room_for o2 0" by blast
  moreover have "decode_block (Suc (length syms)) ((eof # True # False # block_bits static_l static_d syms) @ rest) =
      Some (eof, map token_of syms, rest)" for rest
    unfolding append_Cons decode_block.simps fixed_bits_decoded [OF assms(3)] by simp
  ultimately show ?thesis unfolding True by blast
next
  case False
  let ?bs = "header_bits L nl D nd B m (bl_tree t) @ block_bits (dyn_ltree t) (dyn_dtree t) syms"
  have "int (length (sent o1)) + 4498 + 32 * int (length syms) \<le> 8 * d_buf l" using fits False by (simp add: block_room_def)
  from dynamic_block_sends [OF assms(1,2,4,5) this assms(6) False, of win eof] obtain o2 where
    o2: "encode_block win buf stored_len eof (optlen, statlen, int m - 1, t) l o1 = Inr o2"
      "sends o1 (eof # False # True # ?bs) o2" "room_for o2 0" by blast
  moreover have "decode_block (Suc (length syms)) ((eof # False # True # ?bs) @ rest) = Some (eof, map token_of syms, rest)" for rest
    unfolding append_Cons decode_block.simps dynamic_bits_decoded [OF assms(1,4,5)] by simp
  ultimately show ?thesis by blast
qed

text \<open>What \<open>_tr_flush_block\<close> does with the symbols noted in a block, unless it stores the block.\<close>

lemma tallied_block:
  assumes "init_block t0 l0 = (t, l)" and "bits_ok o1" and "symbols_ok (map snd ss)"
    and "places_ok l (pending_buf o1) (int (length ss) + 2)" and "int (length (sent o1)) \<le> 8 * d_buf l" and "0 < lev"
    and t: "tally_all lev ss (l, t, o1) = Inr (l1, t1, o2)"
  obtains optlen statlen i t2 k where "block_trees t1 = Some (Inr (optlen, statlen, i, t2))" "set_data_type (dyn_ltree t1) = Inr k"
    "(optlen < stored_len + 4 \<or> buf = - 1) \<and> int (length (sent o1)) + block_room (statlen = optlen) (length ss) \<le> 8 * d_buf l \<Longrightarrow>
      \<exists>dt o3 bs pad. tr_flush_block lev data_type win buf stored_len eof t1 l1 o2 =
          Some (Inr (dt, fst (init_block t2 l1), snd (init_block t2 l1), o3)) \<and>
        sent o3 = sent o1 @ bs @ pad \<and> bits_ok o3 \<and> (if eof then length pad < 8 \<and> bi_valid o3 = 0 else pad = []) \<and>
        pending_out o3 = pending_out o1 \<and> length (pending_buf o3) = length (pending_buf o1) \<and>
        (\<forall>rest. decode_block (Suc (length ss)) (bs @ rest) = Some (eof, map (token_of \<circ> snd) ss, rest))"
proof -
  have "last_lit l = 0" "freqs_ok t" using init_block_freqs [of t0 l0] assms(1) by simp_all
  moreover have "places_ok l (pending_buf o1) (int (length ss))" using assms(4) by (simp add: places_ok_def)
  ultimately have "pending_out o2 = pending_out o1" using tally_all_in_place [of l o1 "[]" t ss lev] assms(3) t by (auto simp: in_place_def)
  have "places_ok l (pending_buf o1) (int (length ss))" using assms(4) by (simp add: places_ok_def)
  from tally_block [OF assms(1-3) this assms(5), of lev] t have
    l: "in_place l1 (pending_buf o2) 0 (map snd ss)" "last_lit l1 = int (length ss)" "d_buf l1 = d_buf l" "l_buf l1 = l_buf l"
    and o2: "sent o2 = sent o1" "bits_ok o2" "length (pending_buf o2) = length (pending_buf o1)" by force+
  have noted: "block_noted (map snd ss) l1 o2" using l o2 assms(4) by (simp add: block_noted_def places_ok_def)
  from block_trees_tallied [OF assms(1,3) t] obtain optlen statlen t2 L nl D nd B nb m where
    b: "block_trees t1 = Some (Inr (optlen, statlen, int m - 1, t2))" "block_codes L nl D nd B nb m t2" "0 < L 256"
      "\<forall>s \<in> set (map snd ss). has_code L D s" by blast
  have "trees_nonneg t1"
    using tally_all_freqs [OF init_block_nonneg(1) [OF assms(1)] assms(3) t] trees_risen_nonneg by blast
  then obtain k where k: "set_data_type (dyn_ltree t1) = Inr k" using set_data_type_known by (auto simp: trees_nonneg_def)
  show thesis
  proof (rule that [OF b(1) k])
    assume c: "(optlen < stored_len + 4 \<or> buf = - 1) \<and>
      int (length (sent o1)) + block_room (statlen = optlen) (length ss) \<le> 8 * d_buf l"
    then have "int (length (sent o2)) + block_room (statlen = optlen) (length (map snd ss)) \<le> 8 * d_buf l1" by (simp add: o2(1) l(3))
    from block_encoded [OF b(2) noted assms(3) b(4,3) conjunct1 [OF c] this, of win eof] obtain o3 bs where
      o3: "encode_block win buf stored_len eof (optlen, statlen, int m - 1, t2) l1 o2 = Inr o3" "sends o2 bs o3" "room_for o3 0"
        "\<And>rest. decode_block (Suc (length ss)) (bs @ rest) = Some (eof, map (token_of \<circ> snd) ss, rest)" by auto
    define dt where "dt = (if data_type = Some Z_UNKNOWN then Some k else data_type)"
    have f: "tr_flush_block lev data_type win buf stored_len eof t1 l1 o2 =
        Some (Inr (dt, fst (init_block t2 l1), snd (init_block t2 l1), if eof then bi_windup o3 else o3))"
      using assms(6) b(1) o3(1) k by (simp add: tr_flush_block_def lift_def ret_def dt_def split: prod.split)
    obtain pad where pad: "sent (bi_windup o3) = sent o3 @ pad" "length pad < 8" "bits_ok (bi_windup o3)" "bi_valid (bi_windup o3) = 0"
      using bi_windup_sent [OF o3(3)] by blast
    have s3: "sent o3 = sent o1 @ bs" "bits_ok o3" "pending_out o3 = pending_out o1" "length (pending_buf o3) = length (pending_buf o1)"
      using o3(2) \<open>pending_out o2 = _\<close> o2(3) by (simp_all add: sends_def grows_def o2(1))
    have w: "pending_out (bi_windup o3) = pending_out o3" "length (pending_buf (bi_windup o3)) = length (pending_buf o3)"
      by (simp_all add: bi_windup_def put_short_def put_byte_def arr_put_def)
    show "\<exists>dt o3 bs pad. tr_flush_block lev data_type win buf stored_len eof t1 l1 o2 =
          Some (Inr (dt, fst (init_block t2 l1), snd (init_block t2 l1), o3)) \<and>
        sent o3 = sent o1 @ bs @ pad \<and> bits_ok o3 \<and> (if eof then length pad < 8 \<and> bi_valid o3 = 0 else pad = []) \<and>
        pending_out o3 = pending_out o1 \<and> length (pending_buf o3) = length (pending_buf o1) \<and>
        (\<forall>rest. decode_block (Suc (length ss)) (bs @ rest) = Some (eof, map (token_of \<circ> snd) ss, rest))"
    proof (cases eof)
      case True
      then show ?thesis using f o3(4) pad s3 w by (intro exI [of _ dt] exI [of _ "bi_windup o3"] exI [of _ bs] exI [of _ pad]) simp
    next
      case False
      then show ?thesis using f o3(4) s3 by (intro exI [of _ dt] exI [of _ o3] exI [of _ bs] exI [of _ "[]"]) simp
    qed
  qed
qed

text \<open>
  C6. Whatever the compressor notes in a block comes out as RFC 1951 has it: for any literals and copies
  noted by \<open>_tr_tally\<close> since \<open>init_block\<close>, in any order and number, the trees of the block are built, and when
  the block is not to be stored \<open>_tr_flush_block\<close> adds bits to the output from which a decoder of the RFC
  reads exactly these symbols and whether the block is the last one, and then is ready for the next
  block; after the last block the output is filled up to a byte. The proviso is that the output
  stays behind the distances in the buffer the two share: 15 bits for each symbol with the fixed code, 32 with the
  codes of the block, besides their description, that is 4368 or 1907 symbols with the sizes of \<open>deflateInit\<close>.
\<close>

theorem block_decoded:
  assumes "init_block t0 l0 = (t, l)" and "bits_ok o1" and "symbols_ok (map snd ss)"
    and "places_ok l (pending_buf o1) (int (length ss) + 2)"
    and "int (length (sent o1)) \<le> 8 * d_buf l" and "0 < lev"
  shows "\<exists>l1 t1 o2 optlen statlen i t2. tally_all lev ss (l, t, o1) = Inr (l1, t1, o2) \<and>
    block_trees t1 = Some (Inr (optlen, statlen, i, t2)) \<and>
    ((optlen < stored_len + 4 \<or> buf = - 1) \<and>
        int (length (sent o1)) + block_room (statlen = optlen) (length ss) \<le> 8 * d_buf l \<longrightarrow>
      (\<exists>dt o3 bs pad. tr_flush_block lev data_type win buf stored_len eof t1 l1 o2 =
          Some (Inr (dt, fst (init_block t2 l1), snd (init_block t2 l1), o3)) \<and>
        sent o3 = sent o1 @ bs @ pad \<and> bits_ok o3 \<and> (if eof then length pad < 8 \<and> bi_valid o3 = 0 else pad = []) \<and>
        (\<forall>rest. decode_block (Suc (length ss)) (bs @ rest) = Some (eof, map (token_of \<circ> snd) ss, rest))))"
proof -
  have "places_ok l (pending_buf o1) (int (length ss))" using assms(4) by (simp add: places_ok_def)
  from tally_block [OF assms(1-3) this assms(5), of lev] obtain l1 t1 o2 where
    t: "tally_all lev ss (l, t, o1) = Inr (l1, t1, o2)" by metis
  from tallied_block [OF assms t, of stored_len buf data_type win eof] show ?thesis using t by metis
qed

text \<open>The letter a and three times the byte before, in the buffers of \<open>deflateInit\<close>, in a window that has moved on.\<close>

theorem block_decoded_witness:
  "\<exists>l1 t1 o2 r o3 bs pad.
     tally_all 6 [(1, 0, 97), (4, 1, 0)]
       (snd (init_block new_trees (d_lits (new_defl 6 15 8 8 0))), fst (init_block new_trees (d_lits (new_defl 6 15 8 8 0))),
        d_out (new_defl 6 15 8 8 0)) = Inr (l1, t1, o2) \<and>
     map_option (map_sum id (snd \<circ> snd \<circ> snd)) (tr_flush_block 6 (Some Z_UNKNOWN) [] (- 1) 4 True t1 l1 o2) = Some (Inr o3) \<and>
     sent o3 = bs @ pad \<and> length pad < 8 \<and> decode_block 3 (bs @ pad) = Some (True, [Lit 97, Copy 3 1], pad)"
proof -
  let ?l = "d_lits (new_defl 6 15 8 8 0)" and ?o = "d_out (new_defl 6 15 8 8 0)"
  let ?ss = "[(1, 0, 97), (4, 1, 0)] :: (int \<times> int \<times> int) list"
  obtain t l where i: "init_block new_trees ?l = (t, l)" by fastforce
  have b: "js_shl 1 14 = 16384" by (simp add: js_shl_small)
  then have l: "d_buf l = 8192" "l_buf l = 49152" using init_block_freqs [of new_trees ?l] i by (simp_all add: new_defl_def)
  have o: "pending ?o = 0" "bi_valid ?o = 0" "bi_buf ?o = 0" "length (pending_buf ?o) = 65536" by (simp_all add: new_defl_def b)
  then have s: "sent ?o = []" by (simp add: sent_def)
  have h: "bits_ok ?o" "symbols_ok (map snd ?ss)" "places_ok l (pending_buf ?o) (int (length ?ss) + 2)"
      "int (length (sent ?o)) \<le> 8 * d_buf l" "(0 :: int) < 6"
    using o s l by (simp_all add: bits_ok_def places_ok_def symbols_ok_def)
  obtain l1 t1 o2 optlen statlen k t2 where r: "tally_all 6 ?ss (l, t, ?o) = Inr (l1, t1, o2)"
    "(optlen < (4 :: int) + 4 \<or> - 1 = (- 1 :: int)) \<and> int (length (sent ?o)) + block_room (statlen = optlen) (length ?ss) \<le> 8 * d_buf l \<longrightarrow>
      (\<exists>dt o3 bs pad. tr_flush_block 6 (Some Z_UNKNOWN) [] (- 1) 4 True t1 l1 o2 =
          Some (Inr (dt, fst (init_block t2 l1), snd (init_block t2 l1), o3)) \<and>
        sent o3 = sent ?o @ bs @ pad \<and> bits_ok o3 \<and> (if True then length pad < 8 \<and> bi_valid o3 = 0 else pad = []) \<and>
        (\<forall>rest. decode_block (Suc (length ?ss)) (bs @ rest) = Some (True, map (token_of \<circ> snd) ?ss, rest)))"
    using block_decoded [OF i h, where stored_len = 4 and buf = "- 1" and data_type = "Some Z_UNKNOWN" and win = "[]" and eof = True]
    by (elim exE conjE) (rule that)
  have "int (length (sent ?o)) + block_room (statlen = optlen) (length ?ss) \<le> 8 * d_buf l" by (simp add: block_room_def s l)
  with r(2) obtain dt o3 bs pad where f: "tr_flush_block 6 (Some Z_UNKNOWN) [] (- 1) 4 True t1 l1 o2 =
      Some (Inr (dt, fst (init_block t2 l1), snd (init_block t2 l1), o3))" "sent o3 = bs @ pad" "length pad < 8"
    and d: "\<forall>rest. decode_block (Suc (length ?ss)) (bs @ rest) = Some (True, map (token_of \<circ> snd) ?ss, rest)"
    unfolding s by auto
  have e: "Suc (length ?ss) = 3" "map (token_of \<circ> snd) ?ss = [Lit 97, Copy 3 1]" by (simp_all add: token_of_def)
  show ?thesis using d [unfolded e] f r(1) i by auto
qed

end
