(* ===== verification/Defl_Match.thy ===== *)
theory Defl_Match
  imports Defl_Stored Defl_Blocks
begin

text \<open>
  The search for matches of \<^verbatim>\<open>html/lib/deflate.js\<close>: \<open>longest_match\<close> ends, and what it finds is a
  repetition. It does not compare the third bytes, which agree because all strings of a chain have the same
  hash.
\<close>

section \<open>The hash\<close>

definition hash_fixed :: "matcher \<Rightarrow> bool" where
  "hash_fixed w \<longleftrightarrow> hash_shift w = 5 \<and> hash_mask w = 32767"

lemma update_hash_bits: "hash_fixed w \<Longrightarrow> update_hash w x c = take_bit 15 (push_bit 5 x XOR c)"
proof -
  assume w: "hash_fixed w"
  have t: "take_bit 15 (to_int32 v) = take_bit 15 v" for v using to_int32_mod [of 15 v] by (simp add: take_bit_eq_mod)
  have "take_bit 15 (js_shl x 5) = take_bit 15 (push_bit 5 x)"
    by (simp add: js_shl_def push_bit_eq_mult t)
  moreover have "update_hash w x c = take_bit 15 (js_xor (js_shl x 5) c)"
    using js_and_mask [of 15 "js_xor (js_shl x 5) c"] w by (simp add: update_hash_def hash_fixed_def take_bit_eq_mod)
  ultimately show ?thesis by (simp add: js_xor_def take_bit_xor t)
qed

lemma update_hash_range: "hash_fixed w \<Longrightarrow> 0 \<le> update_hash w x c"
  by (simp add: update_hash_bits)

lemma update_hash_last:
  assumes "hash_fixed w" "update_hash w x b = update_hash w x c" "0 \<le> b" "b < 256" "0 \<le> c" "c < 256"
  shows "b = c"
proof -
  have e: "take_bit 15 (push_bit 5 x XOR b) = take_bit 15 (push_bit 5 x XOR c)" using assms(1,2) by (simp add: update_hash_bits)
  have "bit b n = bit c n" for n
  proof (cases "n < 15")
    case True
    then show ?thesis using arg_cong [OF e, of "\<lambda>v. bit v n"] by (auto simp: bit_simps)
  next
    case False
    then show ?thesis using bit_above [of b 8 n] bit_above [of c 8 n] assms(3-6) by simp
  qed
  then show ?thesis by (simp add: bit_eq_iff)
qed

text \<open>Three steps forget what was before.\<close>

lemma update_hash_rolls:
  assumes "hash_fixed w"
  shows "update_hash w (update_hash w (update_hash w x b1) b2) c = update_hash w (update_hash w b1 b2) c"
  unfolding update_hash_bits [OF assms] by (rule bit_eqI) (auto simp: bit_simps)

section \<open>Strings\<close>

definition hash3 :: "matcher \<Rightarrow> int \<Rightarrow> int" where
  "hash3 w p = update_hash w (update_hash w (win_byte (window w) p) (win_byte (window w) (p + 1))) (win_byte (window w) (p + 2))"

text \<open>The \<open>n\<close> bytes at \<open>c\<close> are those at \<open>p\<close>.\<close>

definition repeats :: "byte list \<Rightarrow> int \<Rightarrow> int \<Rightarrow> int \<Rightarrow> bool" where
  "repeats b c p n \<longleftrightarrow> (\<forall>j. 0 \<le> j \<and> j < n \<longrightarrow> arr_at b (c + j) = arr_at b (p + j))"

lemma repeats_less: "repeats b c p n \<Longrightarrow> m \<le> n \<Longrightarrow> repeats b c p m"
  by (simp add: repeats_def)

lemma repeats_0 [simp]: "repeats b c p 0"
  by (force simp: repeats_def)

lemma repeats_more: "0 \<le> n \<Longrightarrow> repeats b c p (n + 1) \<longleftrightarrow> repeats b c p n \<and> arr_at b (c + n) = arr_at b (p + n)"
proof -
  assume "0 \<le> n"
  moreover have "0 \<le> j \<and> j < n + 1 \<longleftrightarrow> j = n \<or> 0 \<le> j \<and> j < n" if "0 \<le> n" for j using that by linarith
  ultimately show ?thesis unfolding repeats_def by auto
qed

lemma repeats_2: "repeats b c p 2 \<longleftrightarrow> arr_at b c = arr_at b p \<and> arr_at b (c + 1) = arr_at b (p + 1)"
  using repeats_more [of 1 b c p] repeats_more [of 0 b c p] by simp

lemma win_byte_uint: "0 \<le> i \<Longrightarrow> i < int (length b) \<Longrightarrow> win_byte b i = uint (b ! nat i)"
  using uint_lt2p [of "b ! nat i"] by (simp add: win_byte_def byte_at_def arr_at_def)

lemma same_third:
  assumes "hash_fixed w" "hash3 w c = hash3 w p" "0 \<le> c" "c < p" "p + 2 < int (length (window w))" "repeats (window w) c p 2"
  shows "repeats (window w) c p 3"
proof -
  let ?b = "window w"
  have e: "arr_at ?b c = arr_at ?b p" "arr_at ?b (c + 1) = arr_at ?b (p + 1)"
    using assms(6) by (simp_all add: repeats_2)
  then have "win_byte ?b c = win_byte ?b p" "win_byte ?b (c + 1) = win_byte ?b (p + 1)"
    by (simp_all add: win_byte_def byte_at_def)
  with assms(2) have "update_hash w (update_hash w (win_byte ?b p) (win_byte ?b (p + 1))) (win_byte ?b (c + 2)) =
      update_hash w (update_hash w (win_byte ?b p) (win_byte ?b (p + 1))) (win_byte ?b (p + 2))" by (simp add: hash3_def)
  from update_hash_last [OF assms(1) this] have "win_byte ?b (c + 2) = win_byte ?b (p + 2)" by (simp add: win_byte_def)
  moreover have "win_byte ?b (c + 2) = uint (?b ! nat (c + 2))" "win_byte ?b (p + 2) = uint (?b ! nat (p + 2))"
    using assms(3-5) by (auto intro!: win_byte_uint)
  ultimately have "arr_at ?b (c + 2) = arr_at ?b (p + 2)" using assms(3-5) by (simp add: arr_at_def word_uint_eq_iff)
  then show ?thesis using repeats_more [of 2 ?b c p] assms(6) by simp
qed

section \<open>longest_match\<close>

lemma compare_run_equal:
  "compare_run k w scan mat = (s, m, e) \<Longrightarrow>
    m - mat = s - scan \<and> scan \<le> s \<and> (0 < k \<longrightarrow> scan < s) \<and> (e \<longrightarrow> arr_at w s = arr_at w m \<or> k = 0) \<and>
    (\<forall>j. 0 < j \<and> scan + j < s \<longrightarrow> arr_at w (mat + j) = arr_at w (scan + j))"
proof (induction k w scan mat rule: compare_run.induct)
  case (2 k w scan mat)
  show ?case
  proof (cases "arr_at w (scan + 1) = arr_at w (mat + 1)")
    case True
    then have r: "compare_run k w (scan + 1) (mat + 1) = (s, m, e)" using 2(2) by simp
    note IH = 2(1) [OF True r]
    have "arr_at w (mat + j) = arr_at w (scan + j)" if "0 < j" "scan + j < s" for j
    proof (cases "j = 1")
      case False
      then have "0 < j - 1" "scan + 1 + (j - 1) < s" using that by simp_all
      then have "arr_at w (mat + 1 + (j - 1)) = arr_at w (scan + 1 + (j - 1))" using IH by blast
      then show ?thesis by simp
    qed (use True in simp)
    moreover have "e \<longrightarrow> arr_at w s = arr_at w m"
    proof
      assume e
      show "arr_at w s = arr_at w m"
      proof (cases "k = 0")
        case True
        then show ?thesis using r \<open>arr_at w (scan + 1) = arr_at w (mat + 1)\<close> by auto
      qed (use IH \<open>e\<close> in auto)
    qed
    ultimately show ?thesis using IH by auto
  qed (use 2(2) in auto)
qed force

lemma scan_on_equal:
  "scan < scan_on w strend scan mat \<and>
    (\<forall>j. 0 < j \<and> scan + j < scan_on w strend scan mat \<longrightarrow> arr_at w (mat + j) = arr_at w (scan + j))"
proof (induction w strend scan mat rule: scan_on.induct)
  case (1 w strend scan mat)
  obtain s m e where c: "compare_run 8 w scan mat = (s, m, e)" by (cases "compare_run 8 w scan mat") auto
  note r = compare_run_equal [OF c]
  show ?case
  proof (cases "e \<and> s < strend")
    case True
    then have u: "scan_on w strend scan mat = scan_on w strend s m" using c by (subst scan_on.simps) simp
    have IH: "s < scan_on w strend s m \<and> (\<forall>j. 0 < j \<and> s + j < scan_on w strend s m \<longrightarrow> arr_at w (m + j) = arr_at w (s + j))"
      by (rule 1) (use c True in auto)
    have "arr_at w (mat + j) = arr_at w (scan + j)" if j: "0 < j" "scan + j < scan_on w strend s m" for j
    proof -
      consider "scan + j < s" | "scan + j = s" | "s < scan + j" by linarith
      then show ?thesis
      proof cases
        case 2
        then have "mat + j = m" using r by linarith
        with r True show ?thesis unfolding 2 by simp
      next
        case 3
        then have "arr_at w (m + (scan + j - s)) = arr_at w (s + (scan + j - s))" using IH j by simp
        moreover have "m + (scan + j - s) = mat + j" using r by linarith
        ultimately show ?thesis by simp
      qed (use r j in simp)
    qed
    then show ?thesis using IH r unfolding u by auto
  next
    case False
    then have "scan_on w strend scan mat = s" using c by (subst scan_on.simps) auto
    then show ?thesis using r by auto
  qed
qed

text \<open>It stops at \<open>strend\<close>, a multiple of eight comparisons away.\<close>

lemma scan_on_end: "strend = scan + 8 * int k \<Longrightarrow> 0 < k \<Longrightarrow> scan_on w strend scan mat \<le> strend"
proof (induction k arbitrary: scan mat)
  case (Suc k)
  obtain s m e where c: "compare_run 8 w scan mat = (s, m, e)" by (cases "compare_run 8 w scan mat") auto
  have up: "compare_run i w x y = (s, m, e) \<Longrightarrow> s \<le> x + int i" for i x y s m e
    by (induction i w x y rule: compare_run.induct) (auto split: if_splits)
  show ?case
  proof (cases "e \<and> s < strend")
    case True
    then have "scan_on w strend scan mat = scan_on w strend s m" using c by (subst scan_on.simps) simp
    moreover have "s = scan + 8" using compare_run_scan [of 8 w scan mat s m] c True by simp
    ultimately show ?thesis using Suc.IH [of s m] Suc.prems True by simp
  next
    case False
    then have "scan_on w strend scan mat = s" using c by (subst scan_on.simps) auto
    then show ?thesis using up [OF c] Suc.prems by simp
  qed
qed simp

text \<open>What stands behind the links of \<open>prev\<close>, and the chains of strings with the same hash before \<open>n\<close>.\<close>

definition link :: "matcher \<Rightarrow> int \<Rightarrow> int" where
  "link w p = js_and (or_zero (slot_at (prev w) (js_and p (w_mask w)))) 0xffff"

definition linked :: "matcher \<Rightarrow> int \<Rightarrow> int \<Rightarrow> bool" where
  "linked w c p \<longleftrightarrow> 0 < c \<and> c < p \<and> hash3 w c = hash3 w p"

definition chained :: "matcher \<Rightarrow> int \<Rightarrow> bool" where
  "chained w n \<longleftrightarrow> (\<forall>p. 0 < p \<and> p < n \<longrightarrow> link w p \<le> 0 \<or> linked w (link w p) p)"

lemma linked_trans: "linked w c q \<Longrightarrow> linked w q p \<Longrightarrow> linked w c p"
  by (simp add: linked_def)

text \<open>A repetition of the string at \<open>strstart\<close>.\<close>

definition match_at :: "matcher \<Rightarrow> int \<Rightarrow> int \<Rightarrow> bool" where
  "match_at w c n \<longleftrightarrow> 0 < c \<and> c < strstart w \<and> repeats (window w) c (strstart w) n \<and> n \<le> 258"

definition search_ok :: "matcher \<Rightarrow> int \<Rightarrow> search \<Rightarrow> bool" where
  "search_ok w best q \<longleftrightarrow> q_best q \<le> best \<or> match_at w (q_start q) (q_best q)"

lemma next_link_link:
  "next_link w limit q = (if link w (q_cur q) > limit
     then (if q_chain q - 1 \<noteq> 0 then Go else Back) (q\<lparr>q_cur := link w (q_cur q), q_chain := q_chain q - 1\<rparr>)
     else Back (q\<lparr>q_cur := link w (q_cur q)\<rparr>))"
  unfolding next_link_def link_def [symmetric] Let_def by simp

text \<open>The walk along a chain ends, and the best match so far is one.\<close>

lemma search_ends:
  assumes "0 < q_chain q" "0 \<le> limit"
  shows "\<exists>q1. loop (\<lambda>x. ret (match_step w limit nice x)) q = Some (Inr q1)"
  using assms(1)
proof (induction "nat (q_chain q)" arbitrary: q rule: less_induct)
  case less
  show ?case
  proof (cases "match_step w limit nice q")
    case (Go q1)
    then have "0 < q_chain q1" "q_chain q1 < q_chain q" using less.prems
      by (auto simp: match_step_def next_link_link Let_def split: if_splits)
    with less.hyps [of q1] Go show ?thesis by (simp add: loop_Go ret_def)
  next
    case (Back q1)
    then show ?thesis by (intro exI [of _ q1] loop_Back) (simp add: ret_def)
  qed
qed

lemma next_link_ok:
  assumes "linked w (q_cur q) (strstart w)" "chained w (strstart w)" "search_ok w best q" "0 \<le> limit"
  shows "case next_link w limit q of Go q1 \<Rightarrow> linked w (q_cur q1) (strstart w) \<and> search_ok w best q1 | Back q1 \<Rightarrow> search_ok w best q1"
proof -
  have "linked w (link w (q_cur q)) (strstart w)" if "limit < link w (q_cur q)"
  proof -
    have "0 < q_cur q" "q_cur q < strstart w" using assms(1) by (simp_all add: linked_def)
    then have "linked w (link w (q_cur q)) (q_cur q)" using assms(2,4) that unfolding chained_def by force
    then show ?thesis by (rule linked_trans [OF _ assms(1)])
  qed
  then show ?thesis using assms(3) by (simp add: next_link_link search_ok_def)
qed

lemma match_step_ok:
  assumes "hash_fixed w" "chained w (strstart w)" "strstart w + 2 < int (length (window w))" "0 \<le> limit"
    "linked w (q_cur q) (strstart w)" "search_ok w best q"
  shows "case match_step w limit nice q of Go q1 \<Rightarrow> linked w (q_cur q1) (strstart w) \<and> search_ok w best q1 | Back q1 \<Rightarrow> search_ok w best q1"
proof -
  let ?b = "window w" and ?s = "strstart w" and ?c = "q_cur q"
  let ?e = "scan_on ?b (?s + 258) (?s + 2) (?c + 2)"
  define len where "len = 258 - (?s + 258 - ?e)"
  have c: "0 < ?c" "?c < ?s" "hash3 w ?c = hash3 w ?s" using assms(5) by (simp_all add: linked_def)
  note miss = next_link_ok [OF assms(5,2,6,4)]
  show ?thesis
  proof (cases "arr_at ?b (?c + q_best q) \<noteq> q_end q \<or> arr_at ?b (?c + q_best q - 1) \<noteq> q_end1 q \<or>
      arr_at ?b ?c \<noteq> arr_at ?b ?s \<or> arr_at ?b (?c + 1) \<noteq> arr_at ?b (?s + 1) \<or> \<not> len > q_best q")
    case True
    then have "match_step w limit nice q = next_link w limit q" unfolding match_step_def len_def Let_def by auto
    then show ?thesis using miss by simp
  next
    case False
    have two: "repeats ?b ?c ?s 2" using False by (simp add: repeats_2)
    note three = same_third [OF assms(1) c(3) _ c(2) assms(3) two]
    have "repeats ?b ?c ?s len" unfolding repeats_def
    proof (intro allI impI)
      fix j assume j: "0 \<le> j \<and> j < len"
      show "arr_at ?b (?c + j) = arr_at ?b (?s + j)"
      proof (cases "j < 3")
        case True
        then show ?thesis using three c(1) j by (simp add: repeats_def)
      next
        case False
        then have "0 < j - 2" "?s + 2 + (j - 2) < ?e" using j by (simp_all add: len_def)
        then have "arr_at ?b (?c + 2 + (j - 2)) = arr_at ?b (?s + 2 + (j - 2))" using scan_on_equal by blast
        then show ?thesis by simp
      qed
    qed
    moreover have "len \<le> 258" using scan_on_end [of "?s + 258" "?s + 2" 32 ?b "?c + 2"] by (simp add: len_def)
    ultimately have m: "match_at w ?c len" using c by (simp add: match_at_def)
    let ?q = "q\<lparr>q_start := ?c, q_best := len\<rparr>"
    let ?q1 = "?q\<lparr>q_end1 := arr_at ?b (?s + len - 1), q_end := arr_at ?b (?s + len)\<rparr>"
    have step: "match_step w limit nice q = (if len \<ge> nice then Back ?q else next_link w limit ?q1)"
      using False by (simp add: match_step_def len_def Let_def)
    have "search_ok w best ?q" "search_ok w best ?q1" "linked w (q_cur ?q1) ?s" using m assms(5) by (simp_all add: search_ok_def)
    then show ?thesis using next_link_ok [of w ?q1 best limit] assms(2,4) unfolding step by simp
  qed
qed

text \<open>
  \<open>longest_match\<close> always returns, at most the number of bytes left, and only sets \<open>match_start\<close>.
\<close>

definition search_start :: "tuning \<Rightarrow> int \<Rightarrow> matcher \<Rightarrow> search" where
  "search_start c h w = \<lparr>q_start = match_start w, q_best = prev_length w,
     q_end1 = arr_at (window w) (strstart w + prev_length w - 1), q_end = arr_at (window w) (strstart w + prev_length w),
     q_chain = (if prev_length w \<ge> good_match c then js_shr (max_chain_length c) 2 else max_chain_length c), q_cur = h\<rparr>"

lemma longest_match_loop:
  "longest_match c h w = pbind (loop (\<lambda>x. ret (match_step w
      (if strstart w > w_size w - 262 then strstart w - (w_size w - 262) else 0)
      (if nice_match c > lookahead w then lookahead w else nice_match c) x)) (search_start c h w)) (\<lambda>q1.
    ret (if q_best q1 \<le> lookahead w then q_best q1 else lookahead w, w\<lparr>match_start := q_start q1\<rparr>))"
  by (simp add: longest_match_def search_start_def Let_def)

lemma longest_match_ends:
  assumes "4 \<le> max_chain_length c" "max_chain_length c < 2147483648"
  obtains len ms where "longest_match c h w = Some (Inr (len, w\<lparr>match_start := ms\<rparr>))" "len \<le> lookahead w"
    "hash_fixed w \<Longrightarrow> chained w (strstart w) \<Longrightarrow> strstart w + 2 < int (length (window w)) \<Longrightarrow> linked w h (strstart w) \<Longrightarrow>
      len \<le> prev_length w \<or> match_at w ms len"
proof -
  let ?limit = "if strstart w > w_size w - 262 then strstart w - (w_size w - 262) else 0"
  let ?nice = "if nice_match c > lookahead w then lookahead w else nice_match c"
  let ?step = "\<lambda>x. ret (match_step w ?limit ?nice x)"
  have "js_shr (max_chain_length c) 2 = max_chain_length c div 4"
    using assms by (simp add: js_shr_def to_int32_small)
  then have "0 < q_chain (search_start c h w)" using assms(1) by (simp add: search_start_def) linarith
  moreover have "0 \<le> ?limit" by simp
  ultimately obtain q1 where q1: "loop ?step (search_start c h w) = Some (Inr q1)" using search_ends by blast
  let ?len = "if q_best q1 \<le> lookahead w then q_best q1 else lookahead w"
  have "?len \<le> prev_length w \<or> match_at w (q_start q1) ?len"
    if hs: "hash_fixed w" "chained w (strstart w)" "strstart w + 2 < int (length (window w))" "linked w h (strstart w)"
  proof -
    have "search_ok w (prev_length w) q1"
    proof (rule loop_invariant [OF q1, of "\<lambda>q. linked w (q_cur q) (strstart w) \<and> search_ok w (prev_length w) q"])
      show "linked w (q_cur (search_start c h w)) (strstart w) \<and> search_ok w (prev_length w) (search_start c h w)"
        using hs(4) by (simp add: search_start_def search_ok_def)
    next
      fix x y assume "linked w (q_cur x) (strstart w) \<and> search_ok w (prev_length w) x" "?step x = Some (Inr (Go y))"
      then show "linked w (q_cur y) (strstart w) \<and> search_ok w (prev_length w) y"
        using match_step_ok [OF hs(1-3), of ?limit x "prev_length w" ?nice] by (auto simp: ret_def)
    next
      fix x y assume "linked w (q_cur x) (strstart w) \<and> search_ok w (prev_length w) x" "?step x = Some (Inr (Back y))"
      then show "search_ok w (prev_length w) y"
        using match_step_ok [OF hs(1-3), of ?limit x "prev_length w" ?nice] by (auto simp: ret_def)
    qed
    then show ?thesis by (auto simp: search_ok_def match_at_def intro: repeats_less)
  qed
  then show thesis using q1 by (intro that [of ?len "q_start q1"]) (simp_all add: longest_match_loop ret_def)
qed

end
