(* ===== verification/Defl_Chains.thy ===== *)
theory Defl_Chains
  imports Defl_Match
begin

text \<open>
  The window and the hash chains of \<^verbatim>\<open>html/lib/deflate.js\<close> while all the data fit into the window: what
  the tables hold at each position, and that filling the window and inserting strings keep it so.
\<close>

section \<open>The tables\<close>

text \<open>The window holds the data \<open>D\<close> from its start.\<close>

definition data_in :: "byte list \<Rightarrow> matcher \<Rightarrow> bool" where
  "data_in D w \<longleftrightarrow> hash_fixed w \<and> w_size w = 32768 \<and> w_mask w = 32767 \<and> window_size w = 65536 \<and>
     length (window w) = 65536 \<and> block_start w = 0 \<and> length D \<le> 30000 \<and> take (length D) (window w) = D"

text \<open>\<open>ins_h\<close> goes on from the two bytes at \<open>n\<close>.\<close>

definition rolled :: "matcher \<Rightarrow> int \<Rightarrow> bool" where
  "rolled w n \<longleftrightarrow> (\<forall>c. update_hash w (ins_h w) c =
     update_hash w (update_hash w (win_byte (window w) n) (win_byte (window w) (n + 1))) c)"

text \<open>The strings that are in the tables start before \<open>n\<close> and lie in the data.\<close>

definition heads_ok :: "byte list \<Rightarrow> int \<Rightarrow> matcher \<Rightarrow> bool" where
  "heads_ok D n w \<longleftrightarrow> (\<forall>h x. 0 \<le> h \<and> slot_at (head w) h = Some x \<longrightarrow>
     x = 0 \<or> 0 < x \<and> x < n \<and> x + 3 \<le> int (length D) \<and> hash3 w x = h)"

definition links_ok :: "byte list \<Rightarrow> int \<Rightarrow> matcher \<Rightarrow> bool" where
  "links_ok D n w \<longleftrightarrow> (\<forall>p. 0 \<le> p \<and> p < 32768 \<and> 0 < link w p \<longrightarrow> linked w (link w p) p \<and> p < n \<and> p + 3 \<le> int (length D))"

definition tables_ok :: "byte list \<Rightarrow> int \<Rightarrow> matcher \<Rightarrow> bool" where
  "tables_ok D n w \<longleftrightarrow> heads_ok D n w \<and> links_ok D n w \<and> (n + 3 \<le> int (length D) \<longrightarrow> rolled w n)"

lemma hash3_simps [simp]:
  "hash3 (w\<lparr>strstart := x\<rparr>) = hash3 w" "hash3 (w\<lparr>lookahead := x\<rparr>) = hash3 w" "hash3 (w\<lparr>match_length := x\<rparr>) = hash3 w"
  "hash3 (w\<lparr>match_start := x\<rparr>) = hash3 w" "hash3 (w\<lparr>prev_length := x\<rparr>) = hash3 w" "hash3 (w\<lparr>prev_match := x\<rparr>) = hash3 w"
  "hash3 (w\<lparr>match_available := b\<rparr>) = hash3 w" "hash3 (w\<lparr>ins_h := x\<rparr>) = hash3 w" "hash3 (w\<lparr>prev := t\<rparr>) = hash3 w"
  "hash3 (w\<lparr>head := t\<rparr>) = hash3 w"
  by (intro ext; simp add: hash3_def update_hash_def)+

lemma data_in_simps [simp]:
  "data_in D (w\<lparr>strstart := x\<rparr>) = data_in D w" "data_in D (w\<lparr>lookahead := x\<rparr>) = data_in D w"
  "data_in D (w\<lparr>match_length := x\<rparr>) = data_in D w" "data_in D (w\<lparr>match_start := x\<rparr>) = data_in D w"
  "data_in D (w\<lparr>prev_length := x\<rparr>) = data_in D w" "data_in D (w\<lparr>prev_match := x\<rparr>) = data_in D w"
  "data_in D (w\<lparr>match_available := b\<rparr>) = data_in D w" "data_in D (w\<lparr>ins_h := x\<rparr>) = data_in D w"
  "data_in D (w\<lparr>prev := t\<rparr>) = data_in D w" "data_in D (w\<lparr>head := t\<rparr>) = data_in D w"
  by (simp_all add: data_in_def hash_fixed_def)

lemma tables_ok_cong:
  "window w2 = window w \<Longrightarrow> prev w2 = prev w \<Longrightarrow> head w2 = head w \<Longrightarrow> ins_h w2 = ins_h w \<Longrightarrow> hash_shift w2 = hash_shift w \<Longrightarrow>
    hash_mask w2 = hash_mask w \<Longrightarrow> w_mask w2 = w_mask w \<Longrightarrow> tables_ok D n w2 = tables_ok D n w"
  by (simp add: tables_ok_def heads_ok_def links_ok_def rolled_def linked_def link_def hash3_def update_hash_def)

lemma tables_ok_simps [simp]:
  "tables_ok D n (w\<lparr>strstart := x\<rparr>) = tables_ok D n w" "tables_ok D n (w\<lparr>lookahead := x\<rparr>) = tables_ok D n w"
  "tables_ok D n (w\<lparr>match_length := x\<rparr>) = tables_ok D n w" "tables_ok D n (w\<lparr>match_start := x\<rparr>) = tables_ok D n w"
  "tables_ok D n (w\<lparr>prev_length := x\<rparr>) = tables_ok D n w" "tables_ok D n (w\<lparr>prev_match := x\<rparr>) = tables_ok D n w"
  "tables_ok D n (w\<lparr>match_available := b\<rparr>) = tables_ok D n w"
  by (rule tables_ok_cong; simp)+

lemma heads_ok_later: "heads_ok D n w \<Longrightarrow> n \<le> m \<Longrightarrow> heads_ok D m w"
  unfolding heads_ok_def by (meson order_less_le_trans)

lemma links_ok_later: "links_ok D n w \<Longrightarrow> n \<le> m \<Longrightarrow> links_ok D m w"
  unfolding links_ok_def by (meson order_less_le_trans)

lemma tables_ok_later: "tables_ok D n w \<Longrightarrow> n \<le> m \<Longrightarrow> int (length D) < m + 3 \<Longrightarrow> tables_ok D m w"
  by (auto simp: tables_ok_def intro: heads_ok_later links_ok_later)

lemma tables_ok_chained: "tables_ok D n w \<Longrightarrow> n \<le> 32768 \<Longrightarrow> chained w n"
  unfolding tables_ok_def links_ok_def chained_def by (meson linorder_not_less order_less_imp_le order_less_le_trans)

text \<open>The hash starts anew at \<open>strstart\<close>.\<close>

lemma restart_hash_ok:
  assumes "tables_ok D n w" "n \<le> strstart w"
  shows "tables_ok D (strstart w) (restart_hash w)"
proof -
  have "rolled (restart_hash w) (strstart w)" by (simp add: rolled_def restart_hash_def update_hash_def)
  moreover have "heads_ok D n (restart_hash w)" "links_ok D n (restart_hash w)"
    using assms(1) by (simp_all add: tables_ok_def heads_ok_def links_ok_def linked_def link_def restart_hash_def)
  then have "heads_ok D (strstart w) (restart_hash w)" "links_ok D (strstart w) (restart_hash w)"
    using assms(2) by (auto intro: heads_ok_later links_ok_later)
  ultimately show ?thesis by (simp add: tables_ok_def)
qed

section \<open>Inserting strings\<close>

lemma slot_at_store: "0 \<le> i \<Longrightarrow> slot_at (store xs i v) j = (if j = i then v else slot_at xs j)"
proof (cases v)
  case (Some x)
  then show "0 \<le> i \<Longrightarrow> ?thesis" using slot_at_put [of i xs x j] by (simp add: put_slot_def)
next
  case None
  assume "0 \<le> i"
  then show ?thesis using None
    by (auto simp: slot_at_def store_def arr_at_def nth_list_update nth_append nat_eq_iff split: if_splits)
qed

lemma insert_string_ok:
  assumes "data_in D w" "tables_ok D (strstart w) w" "0 \<le> strstart w" "strstart w + 3 \<le> int (length D)"
  obtains h i p t where "insert_string w = (h, w\<lparr>ins_h := i, prev := p, head := t\<rparr>)"
    "tables_ok D (strstart w + 1) (w\<lparr>ins_h := i, prev := p, head := t\<rparr>)" "h \<noteq> 0 \<Longrightarrow> linked w h (strstart w)"
proof -
  let ?n = "strstart w"
  have fix_h: "hash_fixed w" and n: "?n < 32768" "w_mask w = 32767" using assms(1,4) by (simp_all add: data_in_def)
  define i where "i = update_hash w (ins_h w) (win_byte (window w) (?n + 2))"
  have i: "i = hash3 w ?n" "0 \<le> i"
    using assms(2,4) update_hash_range [OF fix_h] by (simp_all add: i_def tables_ok_def rolled_def hash3_def)
  define old where "old = slot_at (head w) i"
  define p where "p = store (prev w) ?n old"
  define t where "t = put_slot (head w) i ?n"
  let ?w = "w\<lparr>ins_h := i, prev := p, head := t\<rparr>"
  have mask: "js_and m 32767 = m" if "0 \<le> m" "m < 32768" for m using that js_and_mask [of 15 m] by simp
  have ins: "insert_string w = (js_and (or_zero old) 0xffff, ?w)"
    using n assms(3) mask by (simp add: insert_string_def Let_def i_def old_def p_def t_def)
  have old: "js_and (or_zero old) 0xffff = or_zero old \<and> (or_zero old \<noteq> 0 \<longrightarrow> linked w (or_zero old) ?n \<and> or_zero old < ?n)"
  proof (cases old)
    case (Some x)
    then have "x = 0 \<or> 0 < x \<and> x < ?n \<and> hash3 w x = i" using assms(2) i(2) by (auto simp: tables_ok_def heads_ok_def old_def)
    then show ?thesis using Some n i(1) by (auto simp: or_zero_def linked_def)
  qed (simp add: or_zero_def)
  have link: "link ?w m = (if m = ?n then or_zero old else link w m)" if "0 \<le> m" "m < 32768" for m
    using that assms(3) n old mask by (simp add: link_def p_def slot_at_store)
  have lk: "linked ?w a b = linked w a b" for a b by (simp add: linked_def)
  have "links_ok D (?n + 1) ?w" unfolding links_ok_def lk
  proof (intro allI impI)
    fix m assume m: "0 \<le> m \<and> m < 32768 \<and> 0 < link ?w m"
    show "linked w (link ?w m) m \<and> m < ?n + 1 \<and> m + 3 \<le> int (length D)"
    proof (cases "m = ?n")
      case True
      then show ?thesis using m old assms(4) link [of m] by simp
    next
      case False
      then have "0 < link w m" "link ?w m = link w m" using m link [of m] by simp_all
      moreover have "links_ok D ?n w" using assms(2) by (simp add: tables_ok_def)
      ultimately have "linked w (link w m) m \<and> m < ?n \<and> m + 3 \<le> int (length D)" using m unfolding links_ok_def by blast
      with \<open>link ?w m = link w m\<close> show ?thesis by simp
    qed
  qed
  moreover have "heads_ok D (?n + 1) ?w" unfolding heads_ok_def
  proof (intro allI impI)
    fix k x assume k: "0 \<le> k \<and> slot_at (head ?w) k = Some x"
    show "x = 0 \<or> 0 < x \<and> x < ?n + 1 \<and> x + 3 \<le> int (length D) \<and> hash3 ?w x = k"
    proof (cases "k = i")
      case True
      then show ?thesis using k i assms(3,4) by (simp add: t_def slot_at_put) auto
    next
      case False
      then have "slot_at (head w) k = Some x" using k i(2) by (simp add: t_def slot_at_put)
      then show ?thesis using k assms(2) unfolding tables_ok_def heads_ok_def by fastforce
    qed
  qed
  moreover have "rolled ?w (?n + 1)"
  proof -
    have "update_hash w (update_hash w (ins_h w) (win_byte (window w) (?n + 2))) c =
        update_hash w (update_hash w (win_byte (window w) (?n + 1)) (win_byte (window w) (?n + 2))) c" for c
      using assms(2,4) update_hash_rolls [OF fix_h] by (simp add: tables_ok_def rolled_def)
    moreover have "update_hash ?w = update_hash w" by (intro ext) (simp add: update_hash_def)
    ultimately show ?thesis by (simp add: rolled_def i_def add.assoc)
  qed
  ultimately have "tables_ok D (?n + 1) ?w" by (simp add: tables_ok_def)
  with ins old show thesis by (intro that [of "or_zero old" t p i]) simp_all
qed

text \<open>The same matcher at position \<open>n\<close> with other tables.\<close>

definition tabled :: "matcher \<Rightarrow> int \<Rightarrow> int \<Rightarrow> slots \<Rightarrow> slots \<Rightarrow> matcher" where
  "tabled w n i p t = w\<lparr>strstart := n, ins_h := i, prev := p, head := t\<rparr>"

lemma tabled_simps [simp]:
  "strstart (tabled w n i p t) = n" "lookahead (tabled w n i p t) = lookahead w" "window (tabled w n i p t) = window w"
  "match_length (tabled w n i p t) = match_length w" "match_start (tabled w n i p t) = match_start w"
  "prev_length (tabled w n i p t) = prev_length w" "prev_match (tabled w n i p t) = prev_match w"
  "match_available (tabled w n i p t) = match_available w" "data_in D (tabled w n i p t) = data_in D w"
  "tabled (tabled w m j q s) n i p t = tabled w n i p t" "block_start (tabled w n i p t) = block_start w"
  by (simp_all add: tabled_def)

lemma tabled_same: "tabled w (strstart w) (ins_h w) (prev w) (head w) = w"
  by (simp add: tabled_def)

lemma insert_at:
  assumes "data_in D w" "tables_ok D n w" "0 \<le> n" "n + 3 \<le> int (length D)" "strstart w = n"
  shows "\<exists>h i p t. insert_string w = (h, tabled w n i p t) \<and> tables_ok D (n + 1) (tabled w n i p t) \<and>
    (h \<noteq> 0 \<longrightarrow> linked w h n)"
proof -
  from assms obtain h i p t where h: "insert_string w = (h, w\<lparr>ins_h := i, prev := p, head := t\<rparr>)"
    "tables_ok D (n + 1) (w\<lparr>ins_h := i, prev := p, head := t\<rparr>)" "h \<noteq> 0 \<Longrightarrow> linked w h n"
    by (elim insert_string_ok [of D w]) auto
  have "w\<lparr>ins_h := i, prev := p, head := t\<rparr> = tabled w n i p t" using assms(5) by (simp add: tabled_def)
  with h show ?thesis by auto
qed

lemma insert_next_ok:
  assumes "data_in D w" "tables_ok D (strstart w + 1) w" "0 \<le> strstart w" "strstart w + int k + 3 \<le> int (length D)"
  shows "\<exists>h2 i p t. insert_next k (h, w) = (h2, tabled w (strstart w + int k) i p t) \<and>
    tables_ok D (strstart w + int k + 1) (tabled w (strstart w + int k) i p t)"
  using assms
proof (induction k arbitrary: h w)
  case 0
  then show ?case using tabled_same [of w] by (intro exI [of _ h] exI [of _ "ins_h w"] exI [of _ "prev w"] exI [of _ "head w"]) simp
next
  case (Suc k)
  let ?w = "w\<lparr>strstart := strstart w + 1\<rparr>"
  have "data_in D ?w" "tables_ok D (strstart w + 1) ?w" "0 \<le> strstart w + 1" "strstart w + 1 + 3 \<le> int (length D)"
    "strstart ?w = strstart w + 1" using Suc.prems by simp_all
  from insert_at [OF this] obtain h1 i p t where i: "insert_string ?w = (h1, tabled ?w (strstart w + 1) i p t)"
    "tables_ok D (strstart w + 1 + 1) (tabled ?w (strstart w + 1) i p t)" by blast
  let ?v = "tabled ?w (strstart w + 1) i p t"
  have "data_in D ?v" "tables_ok D (strstart ?v + 1) ?v" "0 \<le> strstart ?v" "strstart ?v + int k + 3 \<le> int (length D)"
    using Suc.prems i(2) by simp_all
  from Suc.IH [OF this, of h1] obtain h2 i2 p2 t2 where r: "insert_next k (h1, ?v) = (h2, tabled ?v (strstart ?v + int k) i2 p2 t2)"
    "tables_ok D (strstart ?v + int k + 1) (tabled ?v (strstart ?v + int k) i2 p2 t2)" by blast
  have e: "tabled ?v (strstart ?v + int k) i2 p2 t2 = tabled w (strstart w + int (Suc k)) i2 p2 t2"
    "strstart ?v + int k + 1 = strstart w + int (Suc k) + 1" by (simp_all add: tabled_def)
  have "insert_next (Suc k) (h, w) = insert_next k (h1, ?v)" using i(1) by simp
  then show ?case using r unfolding e by metis
qed

lemma insert_up_to_ok:
  assumes "data_in D w" "tables_ok D (strstart w + 1) w" "0 \<le> strstart w" "m = int (length D) - 3"
  shows "\<exists>h2 i p t. insert_up_to m k (h, w) = (h2, tabled w (strstart w + int k) i p t) \<and>
    tables_ok D (strstart w + int k + 1) (tabled w (strstart w + int k) i p t)"
  using assms(1-3)
proof (induction k arbitrary: h w)
  case 0
  then show ?case using tabled_same [of w] by (intro exI [of _ h] exI [of _ "ins_h w"] exI [of _ "prev w"] exI [of _ "head w"]) simp
next
  case (Suc k)
  let ?w = "w\<lparr>strstart := strstart w + 1\<rparr>"
  have "\<exists>h1 i p t. (if strstart ?w \<le> m then insert_string ?w else (h, ?w)) = (h1, tabled w (strstart w + 1) i p t) \<and>
    tables_ok D (strstart w + 1 + 1) (tabled w (strstart w + 1) i p t)"
  proof (cases "strstart ?w \<le> m")
    case True
    have "data_in D ?w" "tables_ok D (strstart w + 1) ?w" "0 \<le> strstart w + 1" "strstart w + 1 + 3 \<le> int (length D)"
      "strstart ?w = strstart w + 1" using Suc.prems True assms(4) by simp_all
    from insert_at [OF this] obtain h1 i p t where "insert_string ?w = (h1, tabled ?w (strstart w + 1) i p t)"
      "tables_ok D (strstart w + 1 + 1) (tabled ?w (strstart w + 1) i p t)" by blast
    moreover have "tabled ?w (strstart w + 1) i p t = tabled w (strstart w + 1) i p t" by (simp add: tabled_def)
    ultimately show ?thesis using True by auto
  next
    case False
    then have "tables_ok D (strstart w + 1 + 1) ?w" using Suc.prems(2) assms(4) by (auto intro: tables_ok_later)
    moreover have "tabled w (strstart w + 1) (ins_h w) (prev w) (head w) = ?w" by (simp add: tabled_def)
    ultimately show ?thesis using False by metis
  qed
  then obtain h1 i p t where i: "(if strstart ?w \<le> m then insert_string ?w else (h, ?w)) = (h1, tabled w (strstart w + 1) i p t)"
    "tables_ok D (strstart w + 1 + 1) (tabled w (strstart w + 1) i p t)" by blast
  let ?v = "tabled w (strstart w + 1) i p t"
  have "data_in D ?v" "tables_ok D (strstart ?v + 1) ?v" "0 \<le> strstart ?v" using Suc.prems i(2) by simp_all
  from Suc.IH [OF this, of h1] obtain h2 i2 p2 t2 where r: "insert_up_to m k (h1, ?v) = (h2, tabled ?v (strstart ?v + int k) i2 p2 t2)"
    "tables_ok D (strstart ?v + int k + 1) (tabled ?v (strstart ?v + int k) i2 p2 t2)" by blast
  have e: "tabled ?v (strstart ?v + int k) i2 p2 t2 = tabled w (strstart w + int (Suc k)) i2 p2 t2"
    "strstart ?v + int k + 1 = strstart w + int (Suc k) + 1" by (simp_all add: add.assoc)
  have "insert_up_to m (Suc k) (h, w) = insert_up_to m k (h1, ?v)" using i(1) by (simp add: Let_def)
  then show ?case using r unfolding e by metis
qed

text \<open>The start of a round: the string at \<open>strstart\<close> is inserted when there are three bytes left.\<close>

lemma insert_here_ok:
  assumes "data_in D w" "tables_ok D (strstart w) w" "0 \<le> strstart w" "strstart w + lookahead w = int (length D)"
  obtains h1 i p t where "insert_here h w = (h1, tabled w (strstart w) i p t)"
    "tables_ok D (strstart w + 1) (tabled w (strstart w) i p t)"
    "3 \<le> lookahead w \<Longrightarrow> h1 \<noteq> 0 \<Longrightarrow> linked (tabled w (strstart w) i p t) h1 (strstart w)"
proof (cases "3 \<le> lookahead w")
  case True
  then have "strstart w + 3 \<le> int (length D)" using assms(4) by simp
  from insert_at [OF assms(1-3) this] obtain h1 i p t where r: "insert_string w = (h1, tabled w (strstart w) i p t)"
    "tables_ok D (strstart w + 1) (tabled w (strstart w) i p t)" "h1 \<noteq> 0 \<longrightarrow> linked w h1 (strstart w)" by blast
  have "linked (tabled w (strstart w) i p t) = linked w" by (intro ext) (simp add: linked_def tabled_def)
  with r True show thesis by (intro that [of h1 i p t]) (simp_all add: insert_here_def)
next
  case False
  then have "tables_ok D (strstart w + 1) w" using assms(2,4) by (auto intro: tables_ok_later)
  then show thesis using False tabled_same [of w] by (intro that [of h "ins_h w" "prev w" "head w"]) (simp_all add: insert_here_def)
qed

section \<open>Filling the window\<close>

lemma win_byte_prefix:
  assumes "take (length D) b2 = take (length D) b" "length b2 = length b" "i < int (length D)"
  shows "win_byte b2 i = win_byte b i"
proof (cases "0 \<le> i")
  case True
  have "b2 ! nat i = b ! nat i" using arg_cong [OF assms(1), of "\<lambda>l. l ! nat i"] True assms(3) by simp
  then show ?thesis using assms(2) by (simp add: win_byte_def byte_at_def arr_at_def)
qed (simp add: win_byte_def byte_at_def arr_at_def)

text \<open>New data behind the old do not disturb the tables.\<close>

lemma tables_ok_more:
  assumes "tables_ok D n w" "data_in D w" "take (length D) b = D" "length b = 65536"
    "w2 = w\<lparr>window := b, lookahead := l\<rparr>" "n + 3 \<le> int (length E) \<longrightarrow> rolled (w2\<lparr>ins_h := i\<rparr>) n" "length D \<le> length E"
  shows "tables_ok E n (w2\<lparr>ins_h := i\<rparr>)"
proof -
  have "take (length D) b = take (length D) (window w)" "length b = length (window w)" using assms(2-4) by (simp_all add: data_in_def)
  from win_byte_prefix [OF this] have h: "hash3 (w2\<lparr>ins_h := i\<rparr>) x = hash3 w x" if "x + 3 \<le> int (length D)" for x
    using that by (simp add: hash3_def assms(5) update_hash_def)
  have lk: "link (w2\<lparr>ins_h := i\<rparr>) = link w" by (intro ext) (simp add: link_def assms(5))
  have "heads_ok E n (w2\<lparr>ins_h := i\<rparr>)" unfolding heads_ok_def
  proof (intro allI impI)
    fix k x assume "0 \<le> k \<and> slot_at (head (w2\<lparr>ins_h := i\<rparr>)) k = Some x"
    then have "x = 0 \<or> 0 < x \<and> x < n \<and> x + 3 \<le> int (length D) \<and> hash3 w x = k"
      using assms(1) by (simp add: tables_ok_def heads_ok_def assms(5))
    then show "x = 0 \<or> 0 < x \<and> x < n \<and> x + 3 \<le> int (length E) \<and> hash3 (w2\<lparr>ins_h := i\<rparr>) x = k" using h assms(7) by auto
  qed
  moreover have "links_ok E n (w2\<lparr>ins_h := i\<rparr>)" unfolding links_ok_def lk
  proof (intro allI impI)
    fix p assume "0 \<le> p \<and> p < 32768 \<and> 0 < link w p"
    then have "linked w (link w p) p \<and> p < n \<and> p + 3 \<le> int (length D)"
      using assms(1) unfolding tables_ok_def links_ok_def by blast
    then show "linked (w2\<lparr>ins_h := i\<rparr>) (link w p) p \<and> p < n \<and> p + 3 \<le> int (length E)" using h assms(7) by (simp add: linked_def)
  qed
  ultimately show ?thesis using assms(6) by (simp add: tables_ok_def)
qed

lemma fill_window_data:
  assumes d: "data_in D w" and t: "tables_ok D (strstart w) w" and s: "0 \<le> strstart w" "strstart w + lookahead w = int (length D)"
    and l: "0 \<le> lookahead w" "lookahead w < 262" and z: "in_ok z" and small: "length (D @ input z) \<le> 30000"
  obtains b i z1 where
    "fill_window w z = Some (Inr (w\<lparr>window := b, lookahead := lookahead w + z_avail_in z, ins_h := i\<rparr>, z1))"
    "data_in (D @ input z) (w\<lparr>window := b, lookahead := lookahead w + z_avail_in z, ins_h := i\<rparr>)"
    "tables_ok (D @ input z) (strstart w) (w\<lparr>window := b, lookahead := lookahead w + z_avail_in z, ins_h := i\<rparr>)"
    "z_avail_in z1 = 0" "in_ok z1" "same_out z z1" "int (length (input z)) = z_avail_in z"
proof -
  have w: "length (window w) = 65536" "window_size w = 65536" "w_size w = 32768" "take (length D) (window w) = D"
    using d by (simp_all add: data_in_def)
  have more: "make_space w = Inr (65536 - lookahead w - strstart w, w)"
    using w s l small by (simp add: make_space_def)
  show thesis
  proof (cases "z_avail_in z = 0")
    case True
    then have "input z = []" by (simp add: input_def split: option.split)
    moreover have "fill_step (w, z) = Inr (Back (w, z))" using more True by (simp add: fill_step_def)
    then have "fill_window w z = Some (Inr (w, z))" unfolding fill_window_def by (intro loop_Back) (simp add: lift_def)
    ultimately show thesis using d t z True by (intro that [of "ins_h w" "window w" z]) (simp_all add: same_out_def)
  next
    case False
    then obtain inp where b: "z_next_in z = Some inp" "0 < z_avail_in z" "0 \<le> z_next_in_index z"
      "z_next_in_index z + z_avail_in z \<le> int (length inp)" using z by (auto simp: in_ok_def split: option.splits)
    let ?n = "z_avail_in z"
    have in_z: "input z = part inp (z_next_in_index z) (z_next_in_index z + ?n)" using b(1) by (simp add: input_def)
    have lp: "int (length (input z)) = ?n" using length_part [of "z_next_in_index z" "z_next_in_index z + ?n" inp] b unfolding in_z by simp
    let ?j = "length D" and ?b = "take (length D) (window w) @ input z @ drop (length D + length (input z)) (window w)"
    let ?z = "z\<lparr>z_avail_in := 0, z_next_in_index := z_next_in_index z + ?n, z_total_in := z_total_in z + ?n\<rparr>"
    let ?w = "w\<lparr>window := ?b, lookahead := lookahead w + ?n\<rparr>"
    have room: "min ?n (65536 - lookahead w - strstart w) = ?n" using s(2) small lp by simp
    have set: "arr_set (window w) (strstart w + lookahead w) (input z) = Inr ?b"
      using arr_set_fits [of "strstart w + lookahead w" "input z" "window w"] s w small by simp
    have read: "read_buf (window w) (strstart w + lookahead w) (65536 - lookahead w - strstart w) z = Inr (?n, ?b, ?z)"
      unfolding read_buf_def room Let_def using b set by (simp add: rel_slice_part in_z [symmetric])
    define i where "i = (if lookahead ?w \<ge> 3 then ins_h (restart_hash ?w) else ins_h w)"
    let ?w3 = "w\<lparr>window := ?b, lookahead := lookahead w + ?n, ins_h := i\<rparr>"
    have w3: "(if lookahead ?w \<ge> 3 then restart_hash ?w else ?w) = ?w3" by (simp add: i_def restart_hash_def)
    have "fill_step (w, z) = Inr (Back (?w3, ?z))"
      using False more read w3 by (simp add: fill_step_def Let_def)
    then have "fill_window w z = Some (Inr (?w3, ?z))" unfolding fill_window_def by (intro loop_Back) (simp add: lift_def)
    moreover have "length ?b = 65536" using w small by simp
    then have "data_in (D @ input z) ?w3" using d small w(4) by (simp add: data_in_def hash_fixed_def)
    moreover have "tables_ok (D @ input z) (strstart w) (?w\<lparr>ins_h := i\<rparr>)"
    proof (rule tables_ok_more [OF t d])
      show "strstart w + 3 \<le> int (length (D @ input z)) \<longrightarrow> rolled (?w\<lparr>ins_h := i\<rparr>) (strstart w)"
        using s(2) lp by (simp add: rolled_def i_def restart_hash_def update_hash_def)
    qed (use w small in simp_all)
    then have "tables_ok (D @ input z) (strstart w) ?w3" by simp
    moreover have "in_ok ?z" using b by (simp add: in_ok_def)
    ultimately show thesis using lp by (intro that [of i ?b ?z]) (simp_all add: same_out_def)
  qed
qed

end
