(* ===== verification/Defl_Expand.thy ===== *)
theory Defl_Expand
  imports Defl_Chains
begin

text \<open>
  What the literals and copies of a deflate stream stand for, and the symbols that \<open>_tr_tally\<close> of
  \<^verbatim>\<open>html/lib/deflate.js\<close> has noted for the first bytes of the data.
\<close>

section \<open>Literals and copies\<close>

text \<open>\<open>n\<close> bytes from \<open>d\<close> back, one after the other.\<close>

fun copy_back :: "nat \<Rightarrow> nat \<Rightarrow> byte list \<Rightarrow> byte list" where
  "copy_back 0 d out = out"
| "copy_back (Suc n) d out = copy_back n d (out @ [out ! (length out - d)])"

fun expand :: "byte list \<Rightarrow> token list \<Rightarrow> byte list option" where
  "expand out [] = Some out"
| "expand out (Lit c # ts) = expand (out @ [word_of_int c]) ts"
| "expand out (Copy n d # ts) =
     (if 0 < d \<and> d \<le> int (length out) then expand (copy_back (nat n) (nat d) out) ts else None)"

lemma expand_snoc: "expand out (ts @ [t]) = Option.bind (expand out ts) (\<lambda>o1. expand o1 [t])"
  by (induction out ts rule: expand.induct) simp_all

lemma copy_back_data:
  assumes "n + k \<le> length D" "0 < d" "d \<le> n" "\<And>j. j < k \<Longrightarrow> D ! (n - d + j) = D ! (n + j)"
  shows "copy_back k d (take n D) = take (n + k) D"
  using assms
proof (induction k arbitrary: n)
  case (Suc k)
  have "take n D @ [take n D ! (length (take n D) - d)] = take (Suc n) D"
    using Suc.prems(1-3) Suc.prems(4) [of 0] by (simp add: take_Suc_conv_app_nth min_absorb2)
  moreover have "copy_back k d (take (Suc n) D) = take (Suc n + k) D"
  proof (rule Suc.IH)
    fix j assume "j < k"
    then show "D ! (Suc n - d + j) = D ! (Suc n + j)" using Suc.prems(3) Suc.prems(4) [of "Suc j"] by (simp add: Suc_diff_le)
  qed (use Suc.prems in simp_all)
  ultimately show ?case by simp
qed simp

lemma data_in_at:
  assumes "data_in D w" "0 \<le> i" "i < int (length D)"
  shows "arr_at (window w) i = Some (D ! nat i)"
proof -
  have w: "take (length D) (window w) = D" "length (window w) = 65536" "length D \<le> 30000" using assms(1) by (simp_all add: data_in_def)
  have "nat i < length D" using assms(2,3) by (simp add: nat_less_iff)
  then have "window w ! nat i = D ! nat i" using nth_take [of "nat i" "length D" "window w"] by (simp add: w(1))
  then show ?thesis using assms(2,3) w by (simp add: arr_at_def)
qed

text \<open>The symbols \<open>ss\<close> stand for the first \<open>n\<close> bytes of \<open>D\<close>.\<close>

definition stands_for :: "(int \<times> int \<times> int) list \<Rightarrow> byte list \<Rightarrow> int \<Rightarrow> bool" where
  "stands_for ss D n \<longleftrightarrow> 0 \<le> n \<and> n \<le> int (length D) \<and> int (length ss) \<le> n \<and> symbols_ok (map snd ss) \<and>
     expand [] (map (token_of \<circ> snd) ss) = Some (take (nat n) D)"

lemma stands_for_more: "stands_for ss D n \<Longrightarrow> stands_for ss (D @ E) n"
  by (simp add: stands_for_def nat_le_iff)

lemma stands_for_literal:
  assumes "stands_for ss D n" "n < int (length D)" "data_in D w"
  shows "stands_for (ss @ [(k, 0, win_byte (window w) n)]) D (n + 1)"
proof -
  have n: "0 \<le> n" "nat n < length D" using assms(1,2) by (simp_all add: stands_for_def nat_less_iff)
  have b: "win_byte (window w) n = uint (D ! nat n)"
    using data_in_at [OF assms(3) n(1) assms(2)] uint_lt2p [of "D ! nat n"] by (simp add: win_byte_def byte_at_def)
  have "nat (n + 1) = Suc (nat n)" using n by simp
  then show ?thesis using assms(1) n uint_lt2p [of "D ! nat n"]
    by (simp add: stands_for_def b symbols_ok_def expand_snoc token_of_def take_Suc_conv_app_nth)
qed

lemma stands_for_copy:
  assumes "stands_for ss D n" "data_in D w" "3 \<le> len" "len \<le> 258" "n + len \<le> int (length D)" "0 < c" "c < n"
    "repeats (window w) c n len"
  shows "stands_for (ss @ [(k, n - c, len - 3)]) D (n + len)"
proof -
  have "length D \<le> 30000" using assms(2) by (simp add: data_in_def)
  have "copy_back (nat len) (nat (n - c)) (take (nat n) D) = take (nat n + nat len) D"
  proof (rule copy_back_data)
    fix j assume j: "j < nat len"
    then have "arr_at (window w) (c + int j) = arr_at (window w) (n + int j)" using assms(8) by (simp add: repeats_def)
    then have "D ! nat (c + int j) = D ! nat (n + int j)" using data_in_at [OF assms(2), of "c + int j"] data_in_at [OF assms(2), of "n + int j"] j assms(5-7) by simp
    moreover have "nat n - nat (n - c) + j = nat (c + int j)" "nat n + j = nat (n + int j)" using assms(6,7) by linarith+
    ultimately show "D ! (nat n - nat (n - c) + j) = D ! (nat n + j)" by simp
  qed (use assms(3,5-7) in linarith)+
  then show ?thesis using assms(1,3-7) \<open>length D \<le> 30000\<close>
    by (simp add: stands_for_def symbols_ok_def expand_snoc token_of_def nat_add_distrib)
qed

section \<open>Symbols noted\<close>

lemma tally_all_snoc:
  "tally_all lev (ss @ [(n, dist, lc)]) st = ebind (tally_all lev ss st) (\<lambda>(l, t, o1).
     ebind (tr_tally lev n dist lc l t o1) (\<lambda>(full, l1, t1, o2). Inr (l1, t1, o2)))"
proof (induction ss arbitrary: st)
  case Nil
  obtain l t o1 where e: "st = (l, t, o1)" by (cases st)
  show ?case
  proof (cases "tr_tally lev n dist lc l t o1")
    case (Inr r)
    then show ?thesis by (cases r) (simp add: e)
  qed (simp add: e)
next
  case (Cons s ss)
  obtain l t o1 k d c where e: "st = (l, t, o1)" "s = (k, d, c)" by (cases st; cases s)
  show ?case
  proof (cases "tr_tally lev k d c l t o1")
    case (Inr r)
    then show ?thesis using Cons.IH by (cases r) (simp add: e)
  qed (simp add: e)
qed

lemma tr_tally_bufsize: "tr_tally lev n dist lc l t o1 = Inr (full, l1, t1, o2) \<Longrightarrow> lit_bufsize l1 = lit_bufsize l"
  by (auto simp: tr_tally_def Let_def ebind_Inr_iff)

lemma tally_all_bufsize: "tally_all lev ss (l, t, o1) = Inr (l1, t1, o2) \<Longrightarrow> lit_bufsize l1 = lit_bufsize l"
proof (induction ss arbitrary: l t o1)
  case (Cons s ss)
  then show ?case by (cases s) (auto simp: ebind_Inr_iff dest: tr_tally_bufsize)
qed simp

text \<open>The symbols of \<open>ss\<close> have been noted since the start of a block at the beginning of the output.\<close>

definition noting :: "int \<Rightarrow> (int \<times> int \<times> int) list \<Rightarrow> defl \<Rightarrow> bool" where
  "noting lev ss d \<longleftrightarrow> level (d_tune d) = lev \<and> (\<exists>t0 l0 t l o1. init_block t0 l0 = (t, l) \<and>
     tally_all lev ss (l, t, o1) = Inr (d_lits d, d_trees d, d_out d) \<and> holds_out o1 [] 65536 \<and> bi_buf o1 = 0 \<and> bi_valid o1 = 0 \<and>
     d_buf l = 8192 \<and> l_buf l = 49152 \<and> lit_bufsize l = 16384)"

lemma block_start_places: "d_buf l = 8192 \<Longrightarrow> l_buf l = 49152 \<Longrightarrow> holds_out o1 [] 65536 \<Longrightarrow> n \<le> 16000 \<Longrightarrow> places_ok l (pending_buf o1) n"
  by (simp add: places_ok_def holds_out_def)

lemma noting_out:
  assumes "noting lev ss d" "symbols_ok (map snd ss)" "length ss \<le> 16000"
  shows "holds_out (d_out d) [] 65536" "bi_buf (d_out d) = 0" "bi_valid (d_out d) = 0" "last_lit (d_lits d) = int (length ss)"
    "lit_bufsize (d_lits d) = 16384"
proof -
  obtain t0 l0 t l o1 where n: "init_block t0 l0 = (t, l)" "tally_all lev ss (l, t, o1) = Inr (d_lits d, d_trees d, d_out d)"
    "holds_out o1 [] 65536" "bi_buf o1 = 0" "bi_valid o1 = 0" "d_buf l = 8192" "l_buf l = 49152" "lit_bufsize l = 16384"
    using assms(1) by (auto simp: noting_def)
  have i: "last_lit l = 0" "freqs_ok t" using init_block_freqs [of t0 l0] n(1) by simp_all
  have "places_ok l (pending_buf o1) (last_lit l + int (length ss))"
    using block_start_places [OF n(6,7,3)] assms(3) by (simp add: i(1))
  from tally_all_in_place [of l o1 "[]", OF _ _ i(2) assms(2) this, of lev] n(2) i(1) have
    r: "last_lit (d_lits d) = int (length ss)" "pending (d_out d) = pending o1" "bi_buf (d_out d) = bi_buf o1"
    "bi_valid (d_out d) = bi_valid o1" "pending_out (d_out d) = pending_out o1" "length (pending_buf (d_out d)) = length (pending_buf o1)"
    by (auto simp: in_place_def)
  show "holds_out (d_out d) [] 65536" "bi_buf (d_out d) = 0" "bi_valid (d_out d) = 0" "last_lit (d_lits d) = int (length ss)"
    using r n(3-5) by (simp_all add: holds_out_def part_def)
  show "lit_bufsize (d_lits d) = 16384" using tally_all_bufsize [OF n(2)] n(8) by simp
qed

lemma noting_tally:
  assumes "noting lev ss d" "symbols_ok (map snd (ss @ [(k, dist, lc)]))" "length ss < 8000" "k = strstart (d_win d) - block_start (d_win d)"
  obtains l t o1 where "tally dist lc d = Some (Inr (False, d\<lparr>d_lits := l, d_trees := t, d_out := o1\<rparr>))"
    "noting lev (ss @ [(k, dist, lc)]) (d\<lparr>d_lits := l, d_trees := t, d_out := o1\<rparr>)"
proof -
  have sy: "symbols_ok (map snd ss)" using assms(2) by (simp add: symbols_ok_def)
  note out = noting_out [OF assms(1) sy]
  obtain t0 l0 t l o1 where n: "init_block t0 l0 = (t, l)" "tally_all lev ss (l, t, o1) = Inr (d_lits d, d_trees d, d_out d)"
    "holds_out o1 [] 65536" "bi_buf o1 = 0" "bi_valid o1 = 0" "d_buf l = 8192" "l_buf l = 49152" "lit_bufsize l = 16384"
    and lev: "level (d_tune d) = lev"
    using assms(1) by (auto simp: noting_def)
  have i: "last_lit l = 0" "freqs_ok t" using init_block_freqs [of t0 l0] n(1) by simp_all
  have "places_ok l (pending_buf o1) (last_lit l + int (length (ss @ [(k, dist, lc)])))"
    using block_start_places [OF n(6,7,3)] assms(3) by (simp add: i(1))
  from tally_all_in_place [of l o1 "[]", OF _ _ i(2) assms(2) this, of lev] i(1) obtain l1 t1 o2 where
    r: "tally_all lev (ss @ [(k, dist, lc)]) (l, t, o1) = Inr (l1, t1, o2)" by (auto simp: in_place_def)
  then obtain full where f: "tr_tally lev k dist lc (d_lits d) (d_trees d) (d_out d) = Inr (full, l1, t1, o2)"
    unfolding tally_all_snoc n(2) by (auto simp: ebind_Inr_iff)
  have "\<not> full"
  proof -
    have "js_and (int (length ss) + 1) 0x1fff \<noteq> 0" using assms(3) by simp
    then show ?thesis using f out(4,5) assms(3) by (auto simp: tr_tally_def Let_def ebind_Inr_iff)
  qed
  then have "tally dist lc d = Some (Inr (False, d\<lparr>d_lits := l1, d_trees := t1, d_out := o2\<rparr>))"
    using f lev by (simp add: tally_def assms(4) lift_def ret_def)
  moreover have "noting lev (ss @ [(k, dist, lc)]) (d\<lparr>d_lits := l1, d_trees := t1, d_out := o2\<rparr>)"
    using r n lev unfolding noting_def by simp blast
  ultimately show thesis by (rule that)
qed

end
