(* ===== verification/Defl_Rounds.thy ===== *)
theory Defl_Rounds
  imports Defl_Expand
begin

text \<open>
  The rounds of \<open>deflate_fast\<close> and \<open>deflate_slow\<close> of \<^verbatim>\<open>html/lib/deflate.js\<close> while all the data fit
  into the window and the symbols into one block: each round goes on, and the symbols it notes stand for
  the data.
\<close>

section \<open>The state between two rounds\<close>

definition pos_ok :: "byte list \<Rightarrow> matcher \<Rightarrow> bool" where
  "pos_ok D w \<longleftrightarrow> data_in D w \<and> tables_ok D (strstart w) w \<and> 0 \<le> strstart w \<and> 0 \<le> lookahead w \<and>
     strstart w + lookahead w = int (length D)"

text \<open>The first \<open>n\<close> bytes have been noted, not more than fit.\<close>

definition noted_upto :: "int \<Rightarrow> byte list \<Rightarrow> int \<Rightarrow> defl \<Rightarrow> bool" where
  "noted_upto lev D n d \<longleftrightarrow> length D \<le> 1907 \<and> 4 \<le> max_chain_length (d_tune d) \<and> max_chain_length (d_tune d) \<le> 4096 \<and>
     (\<exists>ss. noting lev ss d \<and> stands_for ss D n)"

lemma noted_upto_win [simp]: "noted_upto lev D n (d\<lparr>d_win := w\<rparr>) = noted_upto lev D n d"
  by (simp add: noted_upto_def noting_def)

lemma noted_upto_inner [simp]:
  "noted_upto lev D n (d\<lparr>d_win := w, d_lits := l, d_trees := t, d_out := o1\<rparr>) =
    noted_upto lev D n (d\<lparr>d_lits := l, d_trees := t, d_out := o1\<rparr>)"
  by (simp add: noted_upto_def noting_def)

lemma tally_literal:
  assumes "noted_upto lev D n d" "data_in D (d_win d)" "n < int (length D)"
  obtains l t o1 where "tally 0 (win_byte (window (d_win d)) n) d = Some (Inr (False, d\<lparr>d_lits := l, d_trees := t, d_out := o1\<rparr>))"
    "noted_upto lev D (n + 1) (d\<lparr>d_lits := l, d_trees := t, d_out := o1\<rparr>)"
proof -
  obtain ss where ss: "noting lev ss d" "stands_for ss D n" using assms(1) by (auto simp: noted_upto_def)
  let ?k = "strstart (d_win d) - block_start (d_win d)" and ?b = "win_byte (window (d_win d)) n"
  have st: "stands_for (ss @ [(?k, 0, ?b)]) D (n + 1)" by (rule stands_for_literal [OF ss(2) assms(3,2)])
  then have "symbols_ok (map snd (ss @ [(?k, 0, ?b)]))" "length ss < 8000" using assms(1)
    by (simp_all add: stands_for_def noted_upto_def)
  from noting_tally [OF ss(1) this refl] obtain l t o1 where
    "tally 0 ?b d = Some (Inr (False, d\<lparr>d_lits := l, d_trees := t, d_out := o1\<rparr>))"
    "noting lev (ss @ [(?k, 0, ?b)]) (d\<lparr>d_lits := l, d_trees := t, d_out := o1\<rparr>)" .
  with st assms(1) show thesis by (intro that [of o1 t l]) (auto simp: noted_upto_def)
qed

lemma tally_copy:
  assumes "noted_upto lev D n d" "data_in D (d_win d)" "3 \<le> len" "len \<le> 258" "n + len \<le> int (length D)" "0 < c" "c < n"
    "repeats (window (d_win d)) c n len"
  obtains l t o1 where "tally (n - c) (len - 3) d = Some (Inr (False, d\<lparr>d_lits := l, d_trees := t, d_out := o1\<rparr>))"
    "noted_upto lev D (n + len) (d\<lparr>d_lits := l, d_trees := t, d_out := o1\<rparr>)"
proof -
  obtain ss where ss: "noting lev ss d" "stands_for ss D n" using assms(1) by (auto simp: noted_upto_def)
  let ?k = "strstart (d_win d) - block_start (d_win d)"
  have st: "stands_for (ss @ [(?k, n - c, len - 3)]) D (n + len)" by (rule stands_for_copy [OF ss(2) assms(2-8)])
  then have "symbols_ok (map snd (ss @ [(?k, n - c, len - 3)]))" "length ss < 8000" using assms(1,5) ss(2)
    by (auto simp: stands_for_def noted_upto_def)
  from noting_tally [OF ss(1) this refl] obtain l t o1 where
    "tally (n - c) (len - 3) d = Some (Inr (False, d\<lparr>d_lits := l, d_trees := t, d_out := o1\<rparr>))"
    "noting lev (ss @ [(?k, n - c, len - 3)]) (d\<lparr>d_lits := l, d_trees := t, d_out := o1\<rparr>)" .
  with st assms(1) show thesis by (intro that [of o1 t l]) (auto simp: noted_upto_def)
qed

section \<open>deflate_fast\<close>

definition fast_state :: "int \<Rightarrow> byte list \<Rightarrow> machine \<Rightarrow> bool" where
  "fast_state lev D x \<longleftrightarrow> pos_ok D (d_win (fst x)) \<and> noted_upto lev D (strstart (d_win (fst x))) (fst x) \<and>
     match_length (d_win (fst x)) < 3 \<and> prev_length (d_win (fst x)) < 3"

text \<open>The search at the start of a round, or none.\<close>

lemma fast_search:
  assumes "data_in D w" "tables_ok D (strstart w + 1) w" "0 \<le> strstart w" "strstart w + lookahead w = int (length D)"
    "match_length w < 3" "prev_length w < 3" "4 \<le> max_chain_length c" "max_chain_length c \<le> 4096"
    "3 \<le> lookahead w \<Longrightarrow> h \<noteq> 0 \<Longrightarrow> linked w h (strstart w)"
  obtains len ms where "(if near h w \<and> strategy c \<noteq> Z_HUFFMAN_ONLY
      then pbind (longest_match c h w) (\<lambda>(len, w2). ret (w2\<lparr>match_length := len\<rparr>)) else ret w) =
      Some (Inr (w\<lparr>match_length := len, match_start := ms\<rparr>))"
    "3 \<le> len \<Longrightarrow> len \<le> lookahead w \<and> match_at w ms len"
proof (cases "near h w \<and> strategy c \<noteq> Z_HUFFMAN_ONLY")
  case True
  have "max_chain_length c < 2147483648" using assms(8) by simp
  from longest_match_ends [OF assms(7) this, of h w] obtain len ms where
    m: "longest_match c h w = Some (Inr (len, w\<lparr>match_start := ms\<rparr>))" "len \<le> lookahead w"
      "hash_fixed w \<Longrightarrow> chained w (strstart w) \<Longrightarrow> strstart w + 2 < int (length (window w)) \<Longrightarrow> linked w h (strstart w) \<Longrightarrow>
        len \<le> prev_length w \<or> match_at w ms len" by blast
  have "match_at w ms len" if "3 \<le> len"
  proof -
    have l: "linked w h (strstart w)" using assms(9) m(2) that True by (simp add: near_def)
    have d: "hash_fixed w" "length (window w) = 65536" "length D \<le> 30000" using assms(1) by (simp_all add: data_in_def)
    have "chained w (strstart w + 1)" using assms(2,4) d(3) m(2) that by (intro tables_ok_chained) simp_all
    then have "chained w (strstart w)" by (simp add: chained_def)
    then have "len \<le> prev_length w \<or> match_at w ms len" using m(2,3) d l assms(4) that by simp
    with that assms(6) show ?thesis by simp
  qed
  with True m(1,2) show thesis by (intro that [of ms len]) (simp_all add: ret_def)
next
  case False
  show thesis by (rule that [of "match_start w" "match_length w"]) (subst if_not_P [OF False], use assms(5) in \<open>simp_all add: ret_def\<close>)
qed

text \<open>After a match of \<open>len\<close> bytes.\<close>

lemma skip_match_ok:
  assumes "data_in D w" "tables_ok D (strstart w + 1) w" "0 \<le> strstart w" "strstart w + lookahead w = int (length D)"
    "3 \<le> match_length w" "match_length w \<le> lookahead w"
  obtains h2 w3 where "skip_match lz h w = (h2, w3)" "pos_ok D w3" "strstart w3 = strstart w + match_length w"
    "lookahead w3 = lookahead w - match_length w" "match_length w3 = 0" "prev_length w3 = prev_length w"
proof (cases "match_length w \<le> lz \<and> lookahead w - match_length w \<ge> 3")
  case True
  let ?w1 = "w\<lparr>lookahead := lookahead w - match_length w\<rparr>" and ?k = "nat (match_length w - 1)"
  have k: "int ?k = match_length w - 1" using assms(5) by simp
  have "data_in D ?w1" "tables_ok D (strstart ?w1 + 1) ?w1" "0 \<le> strstart ?w1" "strstart ?w1 + int ?k + 3 \<le> int (length D)"
    using assms True by simp_all
  from insert_next_ok [OF this, of h] obtain h2 i p t where
    i: "insert_next ?k (h, ?w1) = (h2, tabled ?w1 (strstart w + int ?k) i p t)"
      "tables_ok D (strstart w + int ?k + 1) (tabled ?w1 (strstart w + int ?k) i p t)" by auto
  let ?w3 = "(tabled ?w1 (strstart w + int ?k) i p t)\<lparr>match_length := 0, strstart := strstart w + match_length w\<rparr>"
  have "skip_match lz h w = (h2, ?w3)" using True i(1) k by (simp add: skip_match_def Let_def)
  moreover have "pos_ok D ?w3" using assms i(2) k by (simp add: pos_ok_def)
  ultimately show thesis by (intro that [of h2 ?w3]) simp_all
next
  case False
  let ?w2 = "w\<lparr>lookahead := lookahead w - match_length w, strstart := strstart w + match_length w, match_length := 0\<rparr>"
  have "skip_match lz h w = (h, restart_hash ?w2)" using False by (auto simp: skip_match_def Let_def)
  moreover have "tables_ok D (strstart w + 1) ?w2" using assms(2) by simp
  from restart_hash_ok [OF this] assms(5) have "tables_ok D (strstart ?w2) (restart_hash ?w2)" by simp
  then have "pos_ok D (restart_hash ?w2)" using assms by (simp add: pos_ok_def restart_hash_def)
  ultimately show thesis by (intro that [of h "restart_hash ?w2"]) (simp_all add: restart_hash_def)
qed

lemma fast_step_ok:
  assumes "fast_state lev D (d, z)" "0 < lookahead (d_win d)"
  shows "\<exists>d2 h2. fast_step h (d, z) = Some (Inr (Go ((d2, z), h2))) \<and> fast_state lev D (d2, z) \<and>
    lookahead (d_win d2) < lookahead (d_win d) \<and> d_status d2 = d_status d"
proof -
  let ?w = "d_win d" and ?n = "strstart (d_win d)"
  have P: "data_in D ?w" "tables_ok D ?n ?w" "0 \<le> ?n" "?n + lookahead ?w = int (length D)"
    and N: "noted_upto lev D ?n d" "match_length ?w < 3" "prev_length ?w < 3"
    using assms(1) by (simp_all add: fast_state_def pos_ok_def)
  obtain h1 i p t where ih: "insert_here h ?w = (h1, tabled ?w ?n i p t)" "tables_ok D (?n + 1) (tabled ?w ?n i p t)"
    "3 \<le> lookahead ?w \<Longrightarrow> h1 \<noteq> 0 \<Longrightarrow> linked (tabled ?w ?n i p t) h1 ?n" by (rule insert_here_ok [OF P, of h]) (rule that)
  let ?w1 = "tabled ?w ?n i p t"
  have c: "4 \<le> max_chain_length (d_tune d)" "max_chain_length (d_tune d) \<le> 4096" using N(1) by (simp_all add: noted_upto_def)
  obtain len ms where se: "(if near h1 ?w1 \<and> strategy (d_tune d) \<noteq> Z_HUFFMAN_ONLY
      then pbind (longest_match (d_tune d) h1 ?w1) (\<lambda>(len, w2). ret (w2\<lparr>match_length := len\<rparr>)) else ret ?w1) =
      Some (Inr (?w1\<lparr>match_length := len, match_start := ms\<rparr>))"
    "3 \<le> len \<Longrightarrow> len \<le> lookahead ?w1 \<and> match_at ?w1 ms len"
    by (rule fast_search [of D ?w1 "d_tune d" h1]) (use P ih N c in simp_all)
  let ?w2 = "?w1\<lparr>match_length := len, match_start := ms\<rparr>"
  let ?d1 = "d\<lparr>d_win := ?w2\<rparr>"
  have N1: "noted_upto lev D ?n ?d1" "data_in D (d_win ?d1)" using N(1) P(1) by simp_all
  show ?thesis
  proof (cases "3 \<le> len")
    case True
    then have m: "len \<le> lookahead ?w" "0 < ms" "ms < ?n" "repeats (window ?w) ms ?n len" "len \<le> 258"
      using se(2) by (simp_all add: match_at_def)
    obtain l t2 o1 where ta: "tally (?n - ms) (len - 3) ?d1 = Some (Inr (False, ?d1\<lparr>d_lits := l, d_trees := t2, d_out := o1\<rparr>))"
      "noted_upto lev D (?n + len) (?d1\<lparr>d_lits := l, d_trees := t2, d_out := o1\<rparr>)"
      by (rule tally_copy [OF N1 True m(5) _ m(2,3)]) (use m P(4) in simp_all)
    obtain h2 w3 where sk: "skip_match (max_lazy_match (d_tune d)) h1 ?w2 = (h2, w3)" "pos_ok D w3"
      "strstart w3 = ?n + len" "lookahead w3 = lookahead ?w - len" "match_length w3 = 0" "prev_length w3 = prev_length ?w"
      by (rule skip_match_ok [of D ?w2 "max_lazy_match (d_tune d)" h1]) (use P ih(2) True m(1) in simp_all)
    let ?d2 = "d\<lparr>d_lits := l, d_trees := t2, d_out := o1, d_win := w3\<rparr>"
    have "fast_step h (d, z) = Some (Inr (Go ((?d2, z), h2)))"
      using ih(1) se(1) True ta(1) sk(1) by (simp add: fast_step_def flush_full_def ret_def)
    moreover have "noted_upto lev D (?n + len) ?d2" using ta(2) by simp
    then have "fast_state lev D (?d2, z)" using sk N(3) by (simp add: fast_state_def)
    ultimately show ?thesis using sk(4) True by (intro exI [of _ ?d2] exI [of _ h2]) simp
  next
    case False
    obtain l t2 o1 where ta: "tally 0 (win_byte (window (d_win ?d1)) ?n) ?d1 = Some (Inr (False, ?d1\<lparr>d_lits := l, d_trees := t2, d_out := o1\<rparr>))"
      "noted_upto lev D (?n + 1) (?d1\<lparr>d_lits := l, d_trees := t2, d_out := o1\<rparr>)"
      by (rule tally_literal [OF N1]) (use P(4) assms(2) in simp)
    let ?w3 = "?w2\<lparr>lookahead := lookahead ?w - 1, strstart := ?n + 1\<rparr>"
    let ?d2 = "d\<lparr>d_lits := l, d_trees := t2, d_out := o1, d_win := ?w3\<rparr>"
    have "fast_step h (d, z) = Some (Inr (Go ((?d2, z), h1)))"
      using ih(1) se(1) False ta(1) by (simp add: fast_step_def flush_full_def ret_def in_win_def)
    moreover have "noted_upto lev D (?n + 1) ?d2" using ta(2) by simp
    then have "fast_state lev D (?d2, z)" using P ih(2) N False assms(2) by (simp add: fast_state_def pos_ok_def)
    ultimately show ?thesis by (intro exI [of _ ?d2] exI [of _ h1]) simp
  qed
qed

section \<open>deflate_slow\<close>

text \<open>The match found a byte before, which has not been noted yet.\<close>

definition kept_match :: "byte list \<Rightarrow> matcher \<Rightarrow> bool" where
  "kept_match D w \<longleftrightarrow> match_available w \<and> 0 < match_start w \<and> match_start w < strstart w - 1 \<and> match_length w \<le> 258 \<and>
     strstart w - 1 + match_length w \<le> int (length D) \<and> repeats (window w) (match_start w) (strstart w - 1) (match_length w)"

definition slow_state :: "int \<Rightarrow> byte list \<Rightarrow> machine \<Rightarrow> bool" where
  "slow_state lev D x \<longleftrightarrow> pos_ok D (d_win (fst x)) \<and>
     noted_upto lev D (strstart (d_win (fst x)) - (if match_available (d_win (fst x)) then 1 else 0)) (fst x) \<and>
     (3 \<le> match_length (d_win (fst x)) \<longrightarrow> kept_match D (d_win (fst x)))"

lemma lazy_match_ok:
  assumes "data_in D w" "tables_ok D (strstart w + 1) w" "0 \<le> strstart w" "strstart w + lookahead w = int (length D)"
    "4 \<le> max_chain_length c" "max_chain_length c \<le> 4096" "3 \<le> lookahead w \<Longrightarrow> h \<noteq> 0 \<Longrightarrow> linked w h (strstart w)"
  obtains len ms where
    "lazy_match c h w = Some (Inr (w\<lparr>prev_length := match_length w, prev_match := match_start w, match_length := len, match_start := ms\<rparr>))"
    "3 \<le> len \<Longrightarrow> len \<le> lookahead w \<and> (len \<le> match_length w \<or> match_at w ms len)"
proof -
  let ?w1 = "w\<lparr>prev_length := match_length w, prev_match := match_start w, match_length := 2\<rparr>"
  show thesis
  proof (cases "h \<noteq> 0 \<and> prev_length ?w1 < max_lazy_match c \<and> near h ?w1 \<and> strategy c \<noteq> Z_HUFFMAN_ONLY")
    case True
    have "max_chain_length c < 2147483648" using assms(6) by simp
    from longest_match_ends [OF assms(5) this, of h ?w1] obtain len ms where
      m: "longest_match c h ?w1 = Some (Inr (len, ?w1\<lparr>match_start := ms\<rparr>))" "len \<le> lookahead ?w1"
        "hash_fixed ?w1 \<Longrightarrow> chained ?w1 (strstart ?w1) \<Longrightarrow> strstart ?w1 + 2 < int (length (window ?w1)) \<Longrightarrow> linked ?w1 h (strstart ?w1) \<Longrightarrow>
          len \<le> prev_length ?w1 \<or> match_at ?w1 ms len" by blast
    have good: "len \<le> lookahead w \<and> (len \<le> match_length w \<or> match_at w ms len)" if "3 \<le> len"
    proof -
      have l: "linked ?w1 h (strstart w)" using assms(7) m(2) that True by (simp add: linked_def)
      have d: "hash_fixed w" "length (window w) = 65536" "length D \<le> 30000" using assms(1) by (simp_all add: data_in_def)
      have "tables_ok D (strstart w + 1) ?w1" using assms(2) by simp
      then have "chained ?w1 (strstart w + 1)" using assms(4) d(3) m(2) that by (intro tables_ok_chained) simp_all
      then have "chained ?w1 (strstart w)" by (simp add: chained_def)
      then have "len \<le> prev_length ?w1 \<or> match_at ?w1 ms len" using m(2,3) d l assms(4) that by (simp add: hash_fixed_def)
      then show ?thesis using m(2) by (simp add: match_at_def)
    qed
    define len2 where "len2 = (if len \<le> 5 \<and> (strategy c = Z_FILTERED \<or> (len = 3 \<and> strstart w - ms > 4096)) then 2 else len)"
    have "lazy_match c h w = Some (Inr (?w1\<lparr>match_start := ms, match_length := len2\<rparr>))"
      using True m(1) by (auto simp: lazy_match_def Let_def ret_def len2_def)
    then show thesis using good by (intro that [of ms len2]) (auto simp: len2_def split: if_splits)
  next
    case False
    then have "lazy_match c h w = Some (Inr ?w1)" by (auto simp: lazy_match_def Let_def ret_def)
    then show thesis by (intro that [of "match_start w" 2]) simp_all
  qed
qed

lemma use_previous_ok:
  assumes "data_in D w" "tables_ok D (strstart w + 1) w" "0 \<le> strstart w" "strstart w + lookahead w = int (length D)"
    "3 \<le> prev_length w" "prev_length w - 1 \<le> lookahead w"
  obtains h2 w3 where "use_previous h w = (h2, w3)" "pos_ok D w3" "strstart w3 = strstart w - 1 + prev_length w"
    "lookahead w3 = lookahead w - (prev_length w - 1)" "match_length w3 = 2" "\<not> match_available w3"
proof -
  let ?w1 = "w\<lparr>lookahead := lookahead w - (prev_length w - 1)\<rparr>" and ?k = "nat (prev_length w - 2)"
  have k: "int ?k = prev_length w - 2" using assms(5) by simp
  have "data_in D ?w1" "tables_ok D (strstart ?w1 + 1) ?w1" "0 \<le> strstart ?w1" "strstart w + lookahead w - 3 = int (length D) - 3"
    using assms by simp_all
  from insert_up_to_ok [OF this, of ?k h] obtain h2 i p t where
    i: "insert_up_to (strstart w + lookahead w - 3) ?k (h, ?w1) = (h2, tabled ?w1 (strstart w + int ?k) i p t)"
      "tables_ok D (strstart w + int ?k + 1) (tabled ?w1 (strstart w + int ?k) i p t)" by auto
  let ?w3 = "(tabled ?w1 (strstart w + int ?k) i p t)\<lparr>prev_length := 0, match_available := False, match_length := 2,
    strstart := strstart w + int ?k + 1\<rparr>"
  have "use_previous h w = (h2, ?w3)" using i(1) by (simp add: use_previous_def Let_def)
  moreover have "pos_ok D ?w3" using assms i(2) k by (simp add: pos_ok_def)
  ultimately show thesis using k by (intro that [of h2 ?w3]) simp_all
qed

lemma slow_step_ok:
  assumes "slow_state lev D (d, z)" "0 < lookahead (d_win d)" "z_avail_out z \<noteq> 0"
  shows "\<exists>d2 h2. slow_step h (d, z) = Some (Inr (Go ((d2, z), h2))) \<and> slow_state lev D (d2, z) \<and>
    lookahead (d_win d2) < lookahead (d_win d) \<and> d_status d2 = d_status d"
proof -
  let ?w = "d_win d" and ?n = "strstart (d_win d)" and ?a = "match_available (d_win d)"
  have P: "data_in D ?w" "tables_ok D ?n ?w" "0 \<le> ?n" "?n + lookahead ?w = int (length D)"
    and N: "noted_upto lev D (?n - (if ?a then 1 else 0)) d" and K: "3 \<le> match_length ?w \<Longrightarrow> kept_match D ?w"
    using assms(1) by (simp_all add: slow_state_def pos_ok_def)
  obtain h1 i p t where ih: "insert_here h ?w = (h1, tabled ?w ?n i p t)" "tables_ok D (?n + 1) (tabled ?w ?n i p t)"
    "3 \<le> lookahead ?w \<Longrightarrow> h1 \<noteq> 0 \<Longrightarrow> linked (tabled ?w ?n i p t) h1 ?n" by (rule insert_here_ok [OF P, of h]) (rule that)
  let ?w1 = "tabled ?w ?n i p t"
  have c: "4 \<le> max_chain_length (d_tune d)" "max_chain_length (d_tune d) \<le> 4096" using N by (simp_all add: noted_upto_def)
  obtain len ms where lm: "lazy_match (d_tune d) h1 ?w1 =
      Some (Inr (?w1\<lparr>prev_length := match_length ?w1, prev_match := match_start ?w1, match_length := len, match_start := ms\<rparr>))"
    "3 \<le> len \<Longrightarrow> len \<le> lookahead ?w1 \<and> (len \<le> match_length ?w1 \<or> match_at ?w1 ms len)"
    by (rule lazy_match_ok [of D ?w1 "d_tune d" h1]) (use P ih c in simp_all)
  let ?w2 = "?w1\<lparr>prev_length := match_length ?w, prev_match := match_start ?w, match_length := len, match_start := ms\<rparr>"
  let ?d1 = "d\<lparr>d_win := ?w2\<rparr>"
  have d1: "data_in D (d_win ?d1)" "noted_upto lev D (?n - (if ?a then 1 else 0)) ?d1" using N P(1) by simp_all
  show ?thesis
  proof (cases "3 \<le> match_length ?w \<and> len \<le> match_length ?w")
    case True
    then have k: "?a" "0 < match_start ?w" "match_start ?w < ?n - 1" "match_length ?w \<le> 258"
      "?n - 1 + match_length ?w \<le> int (length D)" "repeats (window ?w) (match_start ?w) (?n - 1) (match_length ?w)"
      using K by (simp_all add: kept_match_def)
    have n1: "noted_upto lev D (?n - 1) ?d1" using d1(2) k(1) by simp
    obtain l t2 o1 where ta: "tally (?n - 1 - match_start ?w) (match_length ?w - 3) ?d1 =
        Some (Inr (False, ?d1\<lparr>d_lits := l, d_trees := t2, d_out := o1\<rparr>))"
      "noted_upto lev D (?n - 1 + match_length ?w) (?d1\<lparr>d_lits := l, d_trees := t2, d_out := o1\<rparr>)"
      by (rule tally_copy [OF n1 d1(1) conjunct1 [OF True] k(4,5,2,3)]) (use k(6) in simp_all)
    obtain h2 w3 where up: "use_previous h1 ?w2 = (h2, w3)" "pos_ok D w3" "strstart w3 = ?n - 1 + match_length ?w"
      "lookahead w3 = lookahead ?w - (match_length ?w - 1)" "match_length w3 = 2" "\<not> match_available w3"
      by (rule use_previous_ok [of D ?w2 h1]) (use P ih(2) True k(5) in simp_all)
    let ?d2 = "d\<lparr>d_lits := l, d_trees := t2, d_out := o1, d_win := w3\<rparr>"
    have "slow_step h (d, z) = Some (Inr (Go ((?d2, z), h2)))"
      using ih(1) lm(1) True ta(1) up(1) by (simp add: slow_step_def flush_full_def ret_def)
    moreover have "slow_state lev D (?d2, z)" using up ta(2) by (simp add: slow_state_def)
    ultimately show ?thesis using up(4) True by (intro exI [of _ ?d2] exI [of _ h2]) simp
  next
    case False
    have found: "match_at ?w1 ms len" "len \<le> lookahead ?w" if "3 \<le> len" using lm(2) that False by auto
    show ?thesis
    proof (cases ?a)
      case True
      have n1: "noted_upto lev D (?n - 1) ?d1" using d1(2) True by simp
      obtain l t2 o1 where ta: "tally 0 (win_byte (window (d_win ?d1)) (?n - 1)) ?d1 =
          Some (Inr (False, ?d1\<lparr>d_lits := l, d_trees := t2, d_out := o1\<rparr>))"
        "noted_upto lev D (?n - 1 + 1) (?d1\<lparr>d_lits := l, d_trees := t2, d_out := o1\<rparr>)"
        by (rule tally_literal [OF n1 d1(1)]) (use P(4) assms(2) in simp)
      let ?d2 = "d\<lparr>d_lits := l, d_trees := t2, d_out := o1, d_win := step_on ?w2\<rparr>"
      have "slow_step h (d, z) = Some (Inr (Go ((?d2, z), h1)))"
        using ih(1) lm(1) False True ta(1) assms(3) by (cases "3 \<le> match_length ?w") (simp_all add: slow_step_def ret_def in_win_def Let_def)
      moreover have "slow_state lev D (?d2, z)"
        using P ih(2) ta(2) True assms(2) found
        by (auto simp: slow_state_def pos_ok_def step_on_def kept_match_def match_at_def)
      ultimately show ?thesis by (intro exI [of _ ?d2] exI [of _ h1]) (simp add: step_on_def)
    next
      case fresh: False
      let ?d2 = "d\<lparr>d_win := step_on (?w2\<lparr>match_available := True\<rparr>)\<rparr>"
      have "slow_step h (d, z) = Some (Inr (Go ((?d2, z), h1)))"
        using ih(1) lm(1) False fresh by (cases "3 \<le> match_length ?w") (simp_all add: slow_step_def ret_def in_win_def Let_def)
      moreover have "slow_state lev D (?d2, z)"
        using P ih(2) N fresh assms(2) found
        by (auto simp: slow_state_def pos_ok_def step_on_def kept_match_def match_at_def)
      ultimately show ?thesis by (intro exI [of _ ?d2] exI [of _ h1]) (simp add: step_on_def)
    qed
  qed
qed

section \<open>The loops\<close>

text \<open>
  What the loop asks of a compression function: a round with something left to compress goes on, and
  the state survives new data in the window.
\<close>

locale strategy =
  fixes state :: "byte list \<Rightarrow> machine \<Rightarrow> bool" and step :: "int \<Rightarrow> machine \<Rightarrow> (machine \<times> int) round"
  assumes step_ok: "state D (d, z) \<Longrightarrow> 0 < lookahead (d_win d) \<Longrightarrow> z_avail_out z \<noteq> 0 \<Longrightarrow>
      \<exists>d2 h2. step h (d, z) = Some (Inr (Go ((d2, z), h2))) \<and> state D (d2, z) \<and>
        lookahead (d_win d2) < lookahead (d_win d) \<and> d_status d2 = d_status d"
    and state_pos: "state D (d, z) \<Longrightarrow> pos_ok D (d_win d)"
    and more_data: "state D (d, z) \<Longrightarrow> length (D @ E) \<le> 1907 \<Longrightarrow>
      pos_ok (D @ E) ((d_win d)\<lparr>window := b, lookahead := l, ins_h := i\<rparr>) \<Longrightarrow>
      state (D @ E) (d\<lparr>d_win := (d_win d)\<lparr>window := b, lookahead := l, ins_h := i\<rparr>\<rparr>, z2)"
begin

lemma filled:
  assumes "state D (d, z)" "in_ok z" "length (D @ input z) \<le> 1907" "lookahead (d_win d) < 262"
  obtains d2 z2 where "fill (d, z) = Some (Inr (d2, z2))" "state (D @ input z) (d2, z2)" "in_ok z2" "same_out z z2" "z_avail_in z2 = 0"
    "lookahead (d_win d2) = lookahead (d_win d) + z_avail_in z" "d_status d2 = d_status d" "input z2 = []" "0 \<le> z_avail_in z"
proof -
  have p: "data_in D (d_win d)" "tables_ok D (strstart (d_win d)) (d_win d)" "0 \<le> strstart (d_win d)"
    "strstart (d_win d) + lookahead (d_win d) = int (length D)" "0 \<le> lookahead (d_win d)"
    using state_pos [OF assms(1)] by (simp_all add: pos_ok_def)
  have small: "length (D @ input z) \<le> 30000" using assms(3) by simp
  obtain i b z1 where f: "fill_window (d_win d) z =
      Some (Inr ((d_win d)\<lparr>window := b, lookahead := lookahead (d_win d) + z_avail_in z, ins_h := i\<rparr>, z1))"
    "data_in (D @ input z) ((d_win d)\<lparr>window := b, lookahead := lookahead (d_win d) + z_avail_in z, ins_h := i\<rparr>)"
    "tables_ok (D @ input z) (strstart (d_win d)) ((d_win d)\<lparr>window := b, lookahead := lookahead (d_win d) + z_avail_in z, ins_h := i\<rparr>)"
    "z_avail_in z1 = 0" "in_ok z1" "same_out z z1" "int (length (input z)) = z_avail_in z"
    by (rule fill_window_data [OF p(1-5) assms(4,2) small]) (rule that)
  let ?w = "(d_win d)\<lparr>window := b, lookahead := lookahead (d_win d) + z_avail_in z, ins_h := i\<rparr>"
  have z: "0 \<le> z_avail_in z" using assms(2) by (simp add: in_ok_def)
  have "pos_ok (D @ input z) ?w" using f(2,3,7) p z by (simp add: pos_ok_def)
  from more_data [OF assms(1,3) this] have "state (D @ input z) (d\<lparr>d_win := ?w\<rparr>, z1)" .
  moreover have "fill (d, z) = Some (Inr (d\<lparr>d_win := ?w\<rparr>, z1))" using f(1) by (simp add: fill_def ret_def)
  moreover have "input z1 = []" using f(4) by (simp add: input_def split: option.split)
  ultimately show thesis using f(4-6) z by (intro that [of "d\<lparr>d_win := ?w\<rparr>" z1]) simp_all
qed

lemma rounds:
  assumes "state D (d, z)" "in_ok z" "length (D @ input z) \<le> 1907" "z_avail_out z \<noteq> 0"
  shows "\<exists>d2 z2 h2. loop (\<lambda>(x, h). with_input flush (step h) (x, h)) ((d, z), h) =
      Some (Inr (flush = Z_NO_FLUSH, ((d2, z2), h2))) \<and> state (D @ input z) (d2, z2) \<and> in_ok z2 \<and> same_out z z2 \<and>
    z_avail_in z2 = 0 \<and> d_status d2 = d_status d \<and> (flush \<noteq> Z_NO_FLUSH \<longrightarrow> lookahead (d_win d2) = 0)"
  using assms
proof (induction "nat (lookahead (d_win d) + z_avail_in z)" arbitrary: d z D h rule: less_induct)
  case less
  let ?loop = "loop (\<lambda>(x, h). with_input flush (step h) (x, h))"
  have go: ?case
    if r: "with_input flush (step h) ((d, z), h) = step h (d1, z1)" "state (D @ E) (d1, z1)" "in_ok z1" "same_out z z1"
      "D @ input z = (D @ E) @ input z1" "d_status d1 = d_status d"
      "lookahead (d_win d1) + z_avail_in z1 = lookahead (d_win d) + z_avail_in z" "0 < lookahead (d_win d1)" for d1 z1 E
  proof -
    have "z_avail_out z1 \<noteq> 0" using r(4) less.prems(4) by (simp add: same_out_def)
    from step_ok [OF r(2,8) this] obtain d2 h2 where
      s: "step h (d1, z1) = Some (Inr (Go ((d2, z1), h2)))" "state (D @ E) (d2, z1)"
        "lookahead (d_win d2) < lookahead (d_win d1)" "d_status d2 = d_status d1" by blast
    have l: "?loop ((d, z), h) = ?loop ((d2, z1), h2)" using r(1) s(1) by (intro loop_Go) simp
    have "nat (lookahead (d_win d2) + z_avail_in z1) < nat (lookahead (d_win d) + z_avail_in z)"
      using s(3) r(3,7,8) by (simp add: in_ok_def)
    from less.hyps [OF this s(2) r(3), of h2] r(5) less.prems(3) \<open>z_avail_out z1 \<noteq> 0\<close> obtain d3 z3 h3 where
      "?loop ((d2, z1), h2) = Some (Inr (flush = Z_NO_FLUSH, ((d3, z3), h3)))" "state (D @ input z) (d3, z3)" "in_ok z3"
      "same_out z1 z3" "z_avail_in z3 = 0" "d_status d3 = d_status d2" "flush \<noteq> Z_NO_FLUSH \<longrightarrow> lookahead (d_win d3) = 0" by auto
    then show ?thesis using l s(4) r(4,6) by (intro exI [of _ d3] exI [of _ z3] exI [of _ h3]) (simp add: same_out_def)
  qed
  show ?case
  proof (cases "lookahead (d_win d) < 262")
    case True
    obtain d1 z1 where f: "fill (d, z) = Some (Inr (d1, z1))" "state (D @ input z) (d1, z1)" "in_ok z1" "same_out z z1" "z_avail_in z1 = 0"
      "lookahead (d_win d1) = lookahead (d_win d) + z_avail_in z" "d_status d1 = d_status d" "input z1 = []" "0 \<le> z_avail_in z"
      by (rule filled [OF less.prems(1-3) True])
    have "0 \<le> lookahead (d_win d1)" using state_pos [OF f(2)] by (simp add: pos_ok_def)
    then consider "lookahead (d_win d1) < 262" "flush = Z_NO_FLUSH" | "lookahead (d_win d1) = 0" "flush \<noteq> Z_NO_FLUSH"
      | "\<not> (lookahead (d_win d1) < 262 \<and> flush = Z_NO_FLUSH)" "0 < lookahead (d_win d1)" by linarith
    then show ?thesis
    proof cases
      case 1
      then have "?loop ((d, z), h) = Some (Inr (True, ((d1, z1), h)))"
        using f(1) True by (intro loop_Back) (simp add: with_input_def ret_def)
      then show ?thesis using f 1 by (intro exI [of _ d1] exI [of _ z1] exI [of _ h]) simp
    next
      case 2
      then have "?loop ((d, z), h) = Some (Inr (False, ((d1, z1), h)))"
        using f(1) True by (intro loop_Back) (simp add: with_input_def ret_def)
      then show ?thesis using f 2 by (intro exI [of _ d1] exI [of _ z1] exI [of _ h]) simp
    next
      case 3
      then have "with_input flush (step h) ((d, z), h) = step h (d1, z1)" using f(1) True by (auto simp: with_input_def)
      from go [OF this f(2-4)] f(5-8) 3(2) show ?thesis by simp
    qed
  next
    case False
    then have "with_input flush (step h) ((d, z), h) = step h (d, z)" by (simp add: with_input_def)
    from go [OF this, of "[]"] False less.prems show ?thesis by (simp add: same_out_def)
  qed
qed

end

lemma noted_upto_more: "noted_upto lev D n d \<Longrightarrow> length (D @ E) \<le> 1907 \<Longrightarrow> noted_upto lev (D @ E) n d"
  by (auto simp: noted_upto_def intro: stands_for_more)

lemma kept_match_more:
  assumes "kept_match D w" "data_in D w" "data_in (D @ E) w2" "w2 = w\<lparr>window := b, lookahead := l, ins_h := i\<rparr>"
  shows "kept_match (D @ E) w2"
proof -
  have k: "match_available w" "0 < match_start w" "match_start w < strstart w - 1" "match_length w \<le> 258"
    "strstart w - 1 + match_length w \<le> int (length D)" "repeats (window w) (match_start w) (strstart w - 1) (match_length w)"
    using assms(1) by (simp_all add: kept_match_def)
  have same: "arr_at (window w2) j = arr_at (window w) j" if "0 \<le> j" "j < int (length D)" for j
    using data_in_at [OF assms(2) that] data_in_at [OF assms(3), of j] that by (simp add: nth_append nat_less_iff)
  have "repeats (window w2) (match_start w) (strstart w - 1) (match_length w)" unfolding repeats_def
  proof (intro allI impI)
    fix j assume j: "0 \<le> j \<and> j < match_length w"
    then have "arr_at (window w) (match_start w + j) = arr_at (window w) (strstart w - 1 + j)" using k(6) by (simp add: repeats_def)
    then show "arr_at (window w2) (match_start w + j) = arr_at (window w2) (strstart w - 1 + j)"
      using same [of "match_start w + j"] same [of "strstart w - 1 + j"] j k by simp
  qed
  then show ?thesis using k by (simp add: kept_match_def assms(4))
qed

interpretation fast: strategy "fast_state lev" fast_step
proof
  fix D d z h
  assume "fast_state lev D (d, z)" "0 < lookahead (d_win d)"
  then show "\<exists>d2 h2. fast_step h (d, z) = Some (Inr (Go ((d2, z), h2))) \<and> fast_state lev D (d2, z) \<and>
    lookahead (d_win d2) < lookahead (d_win d) \<and> d_status d2 = d_status d" by (rule fast_step_ok)
qed (auto simp: fast_state_def intro: noted_upto_more)

interpretation slow: strategy "slow_state lev" slow_step
proof
  fix D d z h
  assume "slow_state lev D (d, z)" "0 < lookahead (d_win d)" "z_avail_out z \<noteq> 0"
  then show "\<exists>d2 h2. slow_step h (d, z) = Some (Inr (Go ((d2, z), h2))) \<and> slow_state lev D (d2, z) \<and>
    lookahead (d_win d2) < lookahead (d_win d) \<and> d_status d2 = d_status d" by (rule slow_step_ok)
next
  fix D d z E b l i z2
  assume s: "slow_state lev D (d, z)" "length (D @ E) \<le> 1907" "pos_ok (D @ E) ((d_win d)\<lparr>window := b, lookahead := l, ins_h := i\<rparr>)"
  then have "data_in D (d_win d)" "data_in (D @ E) ((d_win d)\<lparr>window := b, lookahead := l, ins_h := i\<rparr>)"
    by (simp_all add: slow_state_def pos_ok_def)
  from kept_match_more [OF _ this refl] s
  show "slow_state lev (D @ E) (d\<lparr>d_win := (d_win d)\<lparr>window := b, lookahead := l, ins_h := i\<rparr>\<rparr>, z2)"
    by (auto simp: slow_state_def intro: noted_upto_more)
qed (simp add: slow_state_def)

end
