(* ===== verification/Defl_Short.thy ===== *)
theory Defl_Short
  imports Defl_Rounds
begin

text \<open>
  Short data through the whole compressor of \<^verbatim>\<open>html/lib/deflate.js\<close> at every level that compresses: all
  that \<open>append\<close> and \<open>flush\<close> return is one block, from which a decoder of RFC 1951 gets the data back.
\<close>

section \<open>A decoder of RFC 1951\<close>

definition byte_of_bits :: "bool list \<Rightarrow> byte" where
  "byte_of_bits bs = word_of_int (horner_sum of_bool 2 bs)"

fun bytes_of_bits :: "nat \<Rightarrow> bool list \<Rightarrow> byte list" where
  "bytes_of_bits 0 bs = []"
| "bytes_of_bits (Suc n) bs = byte_of_bits (take 8 bs) # bytes_of_bits n (drop 8 bs)"

text \<open>A stored block after its first three bits: it goes on at the next byte.\<close>

definition read_stored :: "bool list \<Rightarrow> (byte list \<times> bool list) option" where
  "read_stored bs =
     Option.bind (take_value 16 (drop (length bs mod 8) bs)) (\<lambda>(len, bs1).
     Option.bind (take_value 16 bs1) (\<lambda>(nlen, bs2).
       if nlen = 65535 - len \<and> 8 * nat len \<le> length bs2
       then Some (bytes_of_bits (nat len) bs2, drop (8 * nat len) bs2) else None))"

text \<open>One block: whether it is the last one, the output so far with its bytes, and the bits that are left.\<close>

definition inflate_block :: "nat \<Rightarrow> byte list \<Rightarrow> bool list \<Rightarrow> (bool \<times> byte list \<times> bool list) option" where
  "inflate_block n out bs =
     (if 3 \<le> length bs \<and> \<not> bs ! 1 \<and> \<not> bs ! 2
      then map_option (\<lambda>(d, rest). (hd bs, out @ d, rest)) (read_stored (drop 3 bs))
      else Option.bind (decode_block n bs) (\<lambda>(eof, ts, rest). map_option (\<lambda>o1. (eof, o1, rest)) (expand out ts)))"

text \<open>
  A stream of at most \<open>k\<close> blocks with fewer than \<open>n\<close> symbols each; the last one ends in the last byte.
\<close>

fun inflate_blocks :: "nat \<Rightarrow> nat \<Rightarrow> byte list \<Rightarrow> bool list \<Rightarrow> byte list option" where
  "inflate_blocks 0 n out bs = None"
| "inflate_blocks (Suc k) n out bs =
     (case inflate_block n out bs of None \<Rightarrow> None
      | Some (eof, o1, rest) \<Rightarrow>
          if eof then if length rest < 8 then Some o1 else None
          else inflate_blocks k n o1 rest)"

definition inflate_rfc :: "nat \<Rightarrow> nat \<Rightarrow> byte list \<Rightarrow> byte list option" where
  "inflate_rfc k n bs = inflate_blocks k n [] (concat (map byte_bits bs))"

lemma bytes_of_byte_bits: "bytes_of_bits (length d) (concat (map byte_bits d) @ rest) = d"
proof (induction d)
  case (Cons b d)
  have "byte_of_bits (byte_bits b) = b"
  proof (rule bit_word_eqI)
    fix k assume "k < LENGTH(8)"
    then show "bit (byte_of_bits (byte_bits b)) k = bit b k"
      by (simp add: byte_of_bits_def byte_bits_def bit_of_int_iff bit_horner_sum_bit_iff)
  qed
  with Cons show ?case by simp
qed simp

lemma decode_tokens_more: "decode_tokens n ls ds bs = Some r \<Longrightarrow> decode_tokens (n + k) ls ds bs = Some r"
proof (induction n arbitrary: bs r)
  case (Suc n)
  obtain s b where s: "decode_symbol ls bs = Some (s, b)" using Suc.prems by (cases "decode_symbol ls bs") auto
  show ?case
  proof (cases "s = 256")
    case True
    then show ?thesis using Suc.prems s by simp
  next
    case False
    let ?x = "if s < 256 then Some (Lit s, b) else decode_copy ds s b"
    obtain t b2 where x: "?x = Some (t, b2)" using Suc.prems s False by (cases ?x) auto
    obtain ts b3 where d: "decode_tokens n ls ds b2 = Some (ts, b3)" using Suc.prems s False x by (cases "decode_tokens n ls ds b2") auto
    have "decode_tokens (Suc m) ls ds bs = Option.bind (decode_tokens m ls ds b2) (\<lambda>(ts, bs3). Some (t # ts, bs3))" for m
      using s False x by (cases "s < 256") simp_all
    then show ?thesis using Suc.prems Suc.IH [OF d] d by simp
  qed
qed simp

lemma decode_block_more:
  assumes "decode_block n bs = Some r" "n \<le> m"
  shows "decode_block m bs = Some r"
proof -
  have "m = n + (m - n)" using assms(2) by simp
  then have more: "decode_tokens m ls ds b = Some x" if "decode_tokens n ls ds b = Some x" for ls ds b x
    using decode_tokens_more [OF that, of "m - n"] by simp
  show ?thesis using assms(1) more
    by (cases "(n, bs)" rule: decode_block.cases) (auto simp: decode_dynamic_def bind_eq_Some_conv)
qed

text \<open>A stored block is read back.\<close>

lemma horner_bits: "horner_sum of_bool (2 :: int) (bits_of n v) = take_bit n v"
  by (simp add: bits_of_def horner_sum_bit_eq_take_bit)

lemma bits_of_le_2: "concat (map byte_bits (le 2 v)) = bits_of 16 v"
proof -
  have "byte_bits (of_int v) @ byte_bits (of_int (v div 256)) = bits_of 16 v"
    using byte_bits_of_int [of v] byte_bits_of_int [of "v div 256"]
    by (intro nth_equalityI) (auto simp: nth_append bit_simps simp flip: drop_bit_eq_div [of 8, simplified])
  then show ?thesis by (simp add: le_2)
qed

lemma bits_of_mod: "v mod 2 ^ n = u mod 2 ^ n \<Longrightarrow> bits_of n v = bits_of n u"
proof -
  assume "v mod 2 ^ n = u mod 2 ^ n"
  then have "take_bit n v = take_bit n u" by (simp add: take_bit_eq_mod)
  then have "bit v i = bit u i" if "i < n" for i using that by (metis bit_take_bit_iff)
  then show ?thesis by (simp add: bits_of_def)
qed

lemma stored_block_inflated:
  assumes "length d \<le> 65535"
  shows "inflate_block n out (concat (map byte_bits (stored_block True d))) = Some (True, out @ d, [])"
proof -
  let ?n = "int (length d)" and ?db = "concat (map byte_bits d)"
  let ?bs = "bits_of 16 ?n @ bits_of 16 (65535 - ?n) @ ?db"
  have one: "byte_bits 1 = [True, False, False, False, False, False, False, False]" by code_simp
  have five: "replicate 5 False = [False, False, False, False, False]" by code_simp
  have "bits_of 16 (NOT ?n) = bits_of 16 (65535 - ?n)"
    using mod_add_self2 [of "- ?n - 1" "65536 :: int"] by (intro bits_of_mod) (simp add: not_int_def)
  then have bits: "concat (map byte_bits (stored_block True d)) = True # False # False # replicate 5 False @ ?bs"
    using bits_of_le_2 [of ?n] bits_of_le_2 [of "NOT ?n"] unfolding stored_block_def not_le_2 [symmetric] five
    by (simp add: one)
  have ld: "length ?db = 8 * length d" by (rule length_concat_bytes)
  have "length (replicate 5 False @ ?bs) mod 8 = 5"
  proof -
    have "length (replicate 5 False @ ?bs) = 5 + 8 * (4 + length d)" by (simp add: ld)
    then show ?thesis by simp
  qed
  then have "drop (length (replicate 5 False @ ?bs) mod 8) (replicate 5 False @ ?bs) = ?bs" by simp
  moreover have "take_value 16 ?bs = Some (?n, bits_of 16 (65535 - ?n) @ ?db)" "take_value 16 (bits_of 16 (65535 - ?n) @ ?db) = Some (65535 - ?n, ?db)"
    using take_value_bits [of ?n 16] take_value_bits [of "65535 - ?n" 16 ?db] assms by simp_all
  ultimately have "read_stored (replicate 5 False @ ?bs) = Some (d, [])"
    using bytes_of_byte_bits [of d "[]"] by (simp add: read_stored_def ld)
  then show ?thesis unfolding bits by (simp add: inflate_block_def)
qed

text \<open>A block with codes is read as the symbols it stands for.\<close>

lemma decode_block_typed: "decode_block n bs = Some r \<Longrightarrow> 3 \<le> length bs \<and> (bs ! 1 \<or> bs ! 2)"
  by (cases "(n, bs)" rule: decode_block.cases) auto

lemma coded_block_inflated:
  assumes "decode_block (Suc k) (bs @ rest) = Some (eof, ts, rest)" "expand out ts = Some o1" "k < n"
  shows "inflate_block n out (bs @ rest) = Some (eof, o1, rest)"
proof -
  have "decode_block n (bs @ rest) = Some (eof, ts, rest)" using decode_block_more [OF assms(1)] assms(3) by simp
  then show ?thesis using decode_block_typed [OF assms(1)] assms(2) by (auto simp: inflate_block_def)
qed

section \<open>The block\<close>

lemma sent_bytes:
  assumes "bi_valid o1 = 0" "length (pending_buf o1) = 65536" "pending_out o1 = 0" "bits_ok o1"
  obtains bs where "holds_out o1 bs 0" "sent o1 = concat (map byte_bits bs)"
proof -
  let ?p = "part (pending_buf o1) 0 (pending o1)"
  have "0 \<le> pending o1" "pending o1 \<le> 65536" using assms(2,4) by (simp_all add: bits_ok_def)
  then have "int (length ?p) = pending o1" using length_part [of 0 "pending o1" "pending_buf o1"] assms(2) by simp
  then have "holds_out o1 ?p 0" using assms(2,3) \<open>pending o1 \<le> 65536\<close> by (simp add: holds_out_def)
  moreover have "sent o1 = concat (map byte_bits ?p)" using assms(1) by (simp add: sent_def part_def bits_of_def)
  ultimately show thesis by (rule that)
qed

text \<open>The only block of short data.\<close>

lemma last_block:
  assumes "noting lev ss d" "stands_for ss D (int (length D))" "length D \<le> 1907" "0 < lev" "data_in D w"
  obtains dt t l o1 bs where
    "tr_flush_block lev data_type (window w) 0 (int (length D)) True (d_trees d) (d_lits d) (d_out d) = Some (Inr (dt, t, l, o1))"
    "holds_out o1 bs 0" "inflate_rfc (Suc k) (Suc (length D)) bs = Some D"
proof -
  have sy: "symbols_ok (map snd ss)" and few: "length ss \<le> length D" and ex: "expand [] (map (token_of \<circ> snd) ss) = Some D"
    using assms(2) by (simp_all add: stands_for_def)
  obtain t0 l0 t l o1 where n: "init_block t0 l0 = (t, l)" "tally_all lev ss (l, t, o1) = Inr (d_lits d, d_trees d, d_out d)"
    "holds_out o1 [] 65536" "bi_buf o1 = 0" "bi_valid o1 = 0" "d_buf l = 8192" "l_buf l = 49152"
    using assms(1) by (auto simp: noting_def)
  have o1: "bits_ok o1" "sent o1 = []" "length (pending_buf o1) = 65536" "pending_out o1 = 0"
    using n(3-5) by (simp_all add: holds_out_def bits_ok_def sent_def bits_of_def)
  have places: "places_ok l (pending_buf o1) (int (length ss) + 2)" using block_start_places [OF n(6,7,3)] few assms(3) by simp
  have "int (length (sent o1)) \<le> 8 * d_buf l" by (simp add: o1(2) n(6))
  from tallied_block [OF n(1) o1(1) sy places this assms(4) n(2), of "int (length D)" 0 data_type "window w" True]
  obtain optlen statlen i t2 m where b: "block_trees (d_trees d) = Some (Inr (optlen, statlen, i, t2))"
    "set_data_type (dyn_ltree (d_trees d)) = Inr m"
    "(optlen < int (length D) + 4 \<or> 0 = (- 1 :: int)) \<and> int (length (sent o1)) + block_room (statlen = optlen) (length ss) \<le> 8 * d_buf l \<Longrightarrow>
      \<exists>dt o3 bs pad. tr_flush_block lev data_type (window w) 0 (int (length D)) True (d_trees d) (d_lits d) (d_out d) =
          Some (Inr (dt, fst (init_block t2 (d_lits d)), snd (init_block t2 (d_lits d)), o3)) \<and>
        sent o3 = sent o1 @ bs @ pad \<and> bits_ok o3 \<and> (if True then length pad < 8 \<and> bi_valid o3 = 0 else pad = []) \<and>
        pending_out o3 = pending_out o1 \<and> length (pending_buf o3) = length (pending_buf o1) \<and>
        (\<forall>rest. decode_block (Suc (length ss)) (bs @ rest) = Some (True, map (token_of \<circ> snd) ss, rest))" by blast
  show thesis
  proof (cases "optlen < int (length D) + 4")
    case True
    have "int (length (sent o1)) + block_room (statlen = optlen) (length ss) \<le> 8 * d_buf l"
      using few assms(3) by (simp add: o1(2) n(6) block_room_def)
    then obtain dt o3 bits pad where f: "tr_flush_block lev data_type (window w) 0 (int (length D)) True (d_trees d) (d_lits d) (d_out d) =
          Some (Inr (dt, fst (init_block t2 (d_lits d)), snd (init_block t2 (d_lits d)), o3))"
      "sent o3 = bits @ pad" "bits_ok o3" "length pad < 8" "bi_valid o3 = 0" "pending_out o3 = 0" "length (pending_buf o3) = 65536"
      "\<forall>rest. decode_block (Suc (length ss)) (bits @ rest) = Some (True, map (token_of \<circ> snd) ss, rest)"
      using b(3) True by (auto simp: o1(2-4))
    obtain bs where bs: "holds_out o3 bs 0" "sent o3 = concat (map byte_bits bs)" by (rule sent_bytes [OF f(5,7,6,3)])
    have "inflate_block (Suc (length D)) [] (bits @ pad) = Some (True, D, pad)"
      using f(8) ex few by (intro coded_block_inflated [of "length ss"]) simp_all
    then have "inflate_rfc (Suc k) (Suc (length D)) bs = Some D"
      using f(2,4) by (simp add: inflate_rfc_def bs(2) [symmetric])
    with f(1) bs(1) show thesis by (rule that)
  next
    case False
    note out = noting_out [OF assms(1) sy]
    have "length ss \<le> 16000" using few assms(3) by simp
    note out = out [OF this]
    have w: "length (window w) = 65536" "take (length D) (window w) = D" using assms(5) by (simp_all add: data_in_def)
    obtain o2 where o2: "tr_stored_block (window w) 0 (int (length D)) True (d_out d) = Inr o2" "bi_buf o2 = 0" "bi_valid o2 = 0"
      "holds_out o2 (stored_block True (part (window w) 0 (0 + int (length D)))) 0"
      by (rule tr_stored_block_spec [OF out(1-3), of 0 "int (length D)" "window w"]) (use w(1) assms(3) in simp_all)
    have "bi_windup o2 = o2" using o2(2,3) by (simp add: bi_windup_def)
    moreover have "encode_block (window w) 0 (int (length D)) True (optlen, statlen, i, t2) (d_lits d) (d_out d) = Inr o2"
      using False o2(1) by (simp add: encode_block_def)
    ultimately have f: "\<exists>dt. tr_flush_block lev data_type (window w) 0 (int (length D)) True (d_trees d) (d_lits d) (d_out d) =
        Some (Inr (dt, fst (init_block t2 (d_lits d)), snd (init_block t2 (d_lits d)), o2))"
      using assms(4) b(1,2) by (simp add: tr_flush_block_def lift_def ret_def split: prod.split)
    have d: "part (window w) 0 (0 + int (length D)) = D" using w(2) by (simp add: part_def)
    have "inflate_rfc (Suc k) (Suc (length D)) (stored_block True D) = Some D"
      using stored_block_inflated [of D "Suc (length D)" "[]"] assms(3) by (simp add: inflate_rfc_def)
    with f o2(4) show thesis unfolding d using that by blast
  qed
qed

section \<open>deflate\<close>

text \<open>The data \<open>D\<close> are in the window, and all but the last few of them have been noted.\<close>

definition working :: "int \<Rightarrow> byte list \<Rightarrow> machine \<Rightarrow> bool" where
  "working lev D x \<longleftrightarrow> 1 \<le> lev \<and> lev \<le> 9 \<and> d_status (fst x) = BUSY_STATE \<and>
     (if lev \<le> 3 then fast_state lev D x else slow_state lev D x)"

lemma config_level:
  assumes "1 \<le> lev" "lev \<le> 9"
  obtains c where "elem config_table lev = Inr c" "conf_func c = (if lev \<le> 3 then FAST else SLOW)" "4 \<le> max_chain c" "max_chain c \<le> 4096"
proof -
  have "\<forall>lev \<in> {1..9}. case elem config_table lev of Inl _ \<Rightarrow> False
      | Inr c \<Rightarrow> conf_func c = (if lev \<le> 3 then FAST else SLOW) \<and> 4 \<le> max_chain c \<and> max_chain c \<le> 4096" by code_simp
  then have "case elem config_table lev of Inl _ \<Rightarrow> False
      | Inr c \<Rightarrow> conf_func c = (if lev \<le> 3 then FAST else SLOW) \<and> 4 \<le> max_chain c \<and> max_chain c \<le> 4096" using assms by auto
  then show thesis using that by (auto split: sum.splits)
qed

lemma working_level: "working lev D x \<Longrightarrow> level (d_tune (fst x)) = lev"
  by (auto simp: working_def fast_state_def slow_state_def noted_upto_def noting_def split: if_splits)

lemma noted_upto_out: "noted_upto lev D n d \<Longrightarrow> holds_out (d_out d) [] 65536"
proof -
  assume "noted_upto lev D n d"
  then obtain ss where ss: "noting lev ss d" "symbols_ok (map snd ss)" "length ss \<le> 16000"
    by (auto simp: noted_upto_def stands_for_def)
  then show ?thesis by (rule noting_out(1))
qed

lemma working_out:
  assumes "working lev D x"
  shows "holds_out (d_out (fst x)) [] 65536"
proof -
  obtain n where "noted_upto lev D n (fst x)"
    using assms by (auto simp: working_def fast_state_def slow_state_def split: if_splits)
  then show ?thesis by (rule noted_upto_out)
qed

lemma working_cong [simp]: "working lev D (d\<lparr>d_last_flush := f\<rparr>, z) = working lev D (d, z)"
  by (simp add: working_def fast_state_def slow_state_def noted_upto_def noting_def)

lemma working_stream: "working lev D (d, z) \<Longrightarrow> working lev D (d, z2)"
  by (simp add: working_def fast_state_def slow_state_def split: if_splits)

text \<open>Without a flush the data are taken in.\<close>

lemma compress_more:
  assumes "working lev D (d, z)" "in_ok z" "length (D @ input z) \<le> 1907" "z_avail_out z \<noteq> 0"
  obtains d2 z2 where "deflate_with (if lev \<le> 3 then FAST else SLOW) Z_NO_FLUSH (d, z) = Some (Inr (NeedMore, (d2, z2)))"
    "working lev (D @ input z) (d2, z2)" "in_ok z2" "same_out z z2" "z_avail_in z2 = 0"
proof (cases "lev \<le> 3")
  case True
  then have "fast_state lev D (d, z)" using assms(1) by (simp add: working_def)
  from fast.rounds [OF this assms(2-4), of Z_NO_FLUSH 0] obtain d2 z2 h2 where
    "loop (\<lambda>(x, h). with_input Z_NO_FLUSH (fast_step h) (x, h)) ((d, z), 0) = Some (Inr (True, ((d2, z2), h2)))"
    "fast_state lev (D @ input z) (d2, z2)" "in_ok z2" "same_out z z2" "z_avail_in z2 = 0" "d_status d2 = d_status d" by auto
  then show thesis using True assms(1)
    by (intro that [of d2 z2]) (simp_all add: deflate_with_def deflate_fast_def ret_def working_def)
next
  case False
  then have "slow_state lev D (d, z)" using assms(1) by (simp add: working_def)
  from slow.rounds [OF this assms(2-4), of Z_NO_FLUSH 0] obtain d2 z2 h2 where
    "loop (\<lambda>(x, h). with_input Z_NO_FLUSH (slow_step h) (x, h)) ((d, z), 0) = Some (Inr (True, ((d2, z2), h2)))"
    "slow_state lev (D @ input z) (d2, z2)" "in_ok z2" "same_out z z2" "z_avail_in z2 = 0" "d_status d2 = d_status d" by auto
  then show thesis using False assms(1)
    by (intro that [of d2 z2]) (simp_all add: deflate_with_def deflate_slow_def ret_def working_def)
qed

text \<open>The end of the stream.\<close>

definition all_noted :: "int \<Rightarrow> byte list \<Rightarrow> defl \<Rightarrow> bool" where
  "all_noted lev D d \<longleftrightarrow> noted_upto lev D (int (length D)) d \<and> data_in D (d_win d) \<and> strstart (d_win d) = int (length D) \<and>
     lookahead (d_win d) = 0"

lemma finish_all_noted:
  assumes "all_noted lev D d" "0 < lev" "out_side (d, z)" "z_avail_in z = 0" "produced_out z = []"
  obtains d2 z2 bs where "finish_block Z_FINISH (d, z) =
      Some (Inr (if z_avail_out z2 = 0 then FinishStarted else FinishDone, (d2, z2)))"
    "out_side (d2, z2)" "lookahead (d_win d2) = 0" "z_avail_in z2 = 0" "drained (d2, z2)" "made (d2, z2) = bs"
    "inflate_rfc (Suc k) (Suc (length D)) bs = Some D"
proof -
  let ?w = "d_win d"
  obtain ss where ss: "noting lev ss d" "stands_for ss D (int (length D))" and small: "length D \<le> 1907"
    using assms(1) by (auto simp: all_noted_def noted_upto_def)
  have w: "data_in D ?w" "strstart ?w = int (length D)" "lookahead ?w = 0" "block_start ?w = 0"
    using assms(1) by (simp_all add: all_noted_def data_in_def)
  obtain dt t l o1 bs where b:
    "tr_flush_block lev (d_data_type d) (window ?w) 0 (int (length D)) True (d_trees d) (d_lits d) (d_out d) = Some (Inr (dt, t, l, o1))"
    "holds_out o1 bs 0" "inflate_rfc (Suc k) (Suc (length D)) bs = Some D"
    by (rule last_block [OF ss small assms(2) w(1)])
  have o: "z_next_out_index z + z_avail_out z = 512" "out_ok (d_out d) z" using assms(3) by (simp_all add: out_side_def)
  have "out_ok o1 z" using o(2) b(2) by (auto simp: out_ok_def holds_out_def)
  then obtain o2 z2 where f: "flush_pending o1 z = Inr (o2, z2)" "out_ok o2 z2" "same_rest o1 z o2 z2"
    "produced_out z2 @ unsent o2 = produced_out z @ unsent o1" "z_avail_out z2 = 0 \<or> pending o2 = 0"
    by (rule flush_pending_spec) (rule that)
  let ?d2 = "d\<lparr>d_data_type := dt, d_trees := t, d_lits := l, d_out := o2, d_win := ?w\<lparr>block_start := strstart ?w\<rparr>\<rparr>"
  have lev: "level (d_tune d) = lev" using ss(1) by (simp add: noting_def)
  have "flush_block_only True (d, z) = Some (Inr (?d2, z2))"
    using b(1) f(1) w by (simp add: flush_block_only_def lev lift_def ret_def)
  then have "finish_block Z_FINISH (d, z) = Some (Inr (if z_avail_out z2 = 0 then FinishStarted else FinishDone, (?d2, z2)))"
    by (simp add: finish_block_def ret_def)
  moreover have "out_side (?d2, z2)" using f(2,3) o(1) by (simp add: out_side_def same_rest_def)
  moreover have "z_avail_in z2 = 0" using f(3) assms(4) by (simp add: same_rest_def)
  moreover have "drained (?d2, z2)" using f(5) by (simp add: drained_def)
  moreover have "pending_out o1 = 0" "part (pending_buf o1) 0 (pending o1) = bs" using b(2) unfolding holds_out_def by blast+
  then have "unsent o1 = bs" by (simp add: unsent_def)
  then have "made (?d2, z2) = bs" using f(4) assms(5) by (simp add: made_def)
  ultimately show thesis using w(3) b(3) by (intro that [of z2 ?d2 bs]) simp_all
qed

lemma compress_last:
  assumes "working lev D (d, z)" "in_ok z" "z_avail_in z = 0" "z_avail_out z \<noteq> 0" "out_side (d, z)" "produced_out z = []"
  obtains d2 z2 bs where "deflate_with (if lev \<le> 3 then FAST else SLOW) Z_FINISH (d, z) =
      Some (Inr (if z_avail_out z2 = 0 then FinishStarted else FinishDone, (d2, z2)))"
    "out_side (d2, z2)" "lookahead (d_win d2) = 0" "z_avail_in z2 = 0" "drained (d2, z2)" "made (d2, z2) = bs"
    "inflate_rfc (Suc k) (Suc (length D)) bs = Some D"
proof -
  have lev: "0 < lev" using assms(1) by (simp add: working_def)
  have no_input: "input z = []" using assms(3) by (simp add: input_def split: option.split)
  have "length D \<le> 1907" using assms(1) by (auto simp: working_def fast_state_def slow_state_def noted_upto_def split: if_splits)
  then have small: "length (D @ input z) \<le> 1907" unfolding no_input append_Nil2 .
  note done_with = that
  have fin: thesis
    if r: "deflate_with (if lev \<le> 3 then FAST else SLOW) Z_FINISH (d, z) = finish_block Z_FINISH (d2, z2)" "all_noted lev D d2"
      "same_out z z2" "z_avail_in z2 = 0" "working lev D (d3, z2)" "d_out d2 = d_out d3 \<or> holds_out (d_out d2) [] 65536" for d2 d3 z2
  proof -
    have "holds_out (d_out d2) [] 65536" using r(6) working_out [OF r(5)] by auto
    then have "out_side (d2, z2)" using assms(5) r(3) by (auto simp: out_side_def out_ok_def same_out_def holds_out_def)
    moreover have "produced_out z2 = []" using assms(6) r(3) by (simp add: produced_out_def same_out_def split: option.splits)
    ultimately obtain d4 z4 bs where "finish_block Z_FINISH (d2, z2) =
        Some (Inr (if z_avail_out z4 = 0 then FinishStarted else FinishDone, (d4, z4)))"
      "out_side (d4, z4)" "lookahead (d_win d4) = 0" "z_avail_in z4 = 0" "drained (d4, z4)" "made (d4, z4) = bs"
      "inflate_rfc (Suc k) (Suc (length D)) bs = Some D"
      by (rule finish_all_noted [OF r(2) lev _ r(4)])
    then show thesis using r(1) by (intro done_with [of z4 d4 bs]) simp_all
  qed
  show thesis
  proof (cases "lev \<le> 3")
    case True
    then have "fast_state lev D (d, z)" using assms(1) by (simp add: working_def)
    from fast.rounds [OF this assms(2) small assms(4), of Z_FINISH 0] obtain d2 z2 h2 where
      r: "loop (\<lambda>(x, h). with_input Z_FINISH (fast_step h) (x, h)) ((d, z), 0) = Some (Inr (False, ((d2, z2), h2)))"
      "fast_state lev D (d2, z2)" "same_out z z2" "z_avail_in z2 = 0" "d_status d2 = d_status d" "lookahead (d_win d2) = 0"
      by (auto simp: no_input)
    have p: "data_in D (d_win d2)" "strstart (d_win d2) = int (length D)" using r(2,6) by (simp_all add: fast_state_def pos_ok_def)
    then have "all_noted lev D d2" using r(2,6) by (simp add: all_noted_def fast_state_def)
    moreover have "working lev D (d2, z2)" using r(2,5) assms(1) True by (simp add: working_def)
    ultimately show thesis using r True by (intro fin [of d2 z2 d2]) (simp_all add: deflate_with_def deflate_fast_def)
  next
    case False
    then have "slow_state lev D (d, z)" using assms(1) by (simp add: working_def)
    from slow.rounds [OF this assms(2) small assms(4), of Z_FINISH 0] obtain d2 z2 h2 where
      r: "loop (\<lambda>(x, h). with_input Z_FINISH (slow_step h) (x, h)) ((d, z), 0) = Some (Inr (False, ((d2, z2), h2)))"
      "slow_state lev D (d2, z2)" "same_out z z2" "z_avail_in z2 = 0" "d_status d2 = d_status d" "lookahead (d_win d2) = 0"
      by (auto simp: no_input)
    have wk: "working lev D (d2, z2)" using r(2,5) assms(1) False by (simp add: working_def)
    have p: "data_in D (d_win d2)" "strstart (d_win d2) = int (length D)" using r(2,6) by (simp_all add: slow_state_def pos_ok_def)
    show thesis
    proof (cases "match_available (d_win d2)")
      case True
      have n: "noted_upto lev D (int (length D) - 1) d2" using r(2) True p(2) by (simp add: slow_state_def)
      obtain l t o1 where ta: "tally 0 (win_byte (window (d_win d2)) (int (length D) - 1)) d2 =
          Some (Inr (False, d2\<lparr>d_lits := l, d_trees := t, d_out := o1\<rparr>))"
        "noted_upto lev D (int (length D) - 1 + 1) (d2\<lparr>d_lits := l, d_trees := t, d_out := o1\<rparr>)"
        by (rule tally_literal [OF n p(1)]) simp
      let ?d3 = "d2\<lparr>d_lits := l, d_trees := t, d_out := o1, d_win := (d_win d2)\<lparr>match_available := False\<rparr>\<rparr>"
      have n3: "noted_upto lev D (int (length D)) ?d3" using ta(2) by simp
      then have an: "all_noted lev D ?d3" using p r(6) by (simp add: all_noted_def)
      have "holds_out (d_out ?d3) [] 65536" by (rule noted_upto_out [OF n3])
      then show thesis using r ta(1) False True p(2) an wk
        by (intro fin [of ?d3 z2 d2]) (simp_all add: deflate_with_def deflate_slow_def ret_def in_win_def)
    next
      case no: False
      have "all_noted lev D d2" using r(2,6) no p by (simp add: all_noted_def slow_state_def)
      then show thesis using r False no wk by (intro fin [of d2 z2 d2]) (simp_all add: deflate_with_def deflate_slow_def ret_def)
    qed
  qed
qed

end
