(* ===== verification/Defl_Levels.thy ===== *)
theory Defl_Levels
  imports Defl_Short
begin

text \<open>
  The \<open>Deflater\<close> of \<^verbatim>\<open>html/lib/deflate.js\<close> at the levels that compress: what \<open>append\<close> and \<open>flush\<close>
  return for short data, in any chunks.
\<close>

section \<open>deflate on short data\<close>

text \<open>As \<open>working\<close>, with an output buffer of 512 bytes.\<close>

definition busy :: "int \<Rightarrow> byte list \<Rightarrow> machine \<Rightarrow> bool" where
  "busy lev D x \<longleftrightarrow> working lev D x \<and> in_ok (snd x) \<and> out_side x"

lemma busy_same_out:
  assumes "working lev D (d2, z2)" "in_ok z2" "same_out z z2" "out_side (d, z)"
  shows "busy lev D (d2, z2)"
proof -
  have "holds_out (d_out d2) [] 65536" using working_out [OF assms(1)] by simp
  then have "out_side (d2, z2)" using assms(3,4) by (auto simp: out_side_def out_ok_def same_out_def holds_out_def)
  then show ?thesis using assms(1,2) by (simp add: busy_def)
qed

lemma deflate_starts:
  assumes "busy lev D (d, z)" "z_avail_out z = 512" "z_avail_in z \<noteq> 0 \<or> flush = Z_FINISH" "flush = Z_NO_FLUSH \<or> flush = Z_FINISH"
  shows "deflate_deflate flush (d, z) = deflate_body flush (d\<lparr>d_last_flush := flush\<rparr>, z)"
proof -
  have w: "d_status d = BUSY_STATE" using assms(1) by (simp add: busy_def working_def)
  have "pending (d_out d) = 0" using working_out [of lev D "(d, z)"] assms(1) by (simp add: busy_def holds_out_def)
  moreover have "z_next_out z \<noteq> None" "\<not> (z_next_in z = None \<and> z_avail_in z \<noteq> 0)"
    using assms(1) by (auto simp: busy_def out_side_def out_ok_def in_ok_def split: option.splits)
  ultimately show ?thesis using assms(2-4) w by (auto simp: deflate_deflate_def deflate_pending_def write_header_def)
qed

lemma deflate_takes:
  assumes "busy lev D (d, z)" "z_avail_out z = 512" "z_avail_in z \<noteq> 0" "length (D @ input z) \<le> 1907"
  obtains d2 z2 where "deflate_deflate Z_NO_FLUSH (d, z) = Some (Inr (Z_OK, (d2, z2)))" "busy lev (D @ input z) (d2, z2)"
    "z_avail_in z2 = 0" "same_out z z2"
proof -
  let ?d = "d\<lparr>d_last_flush := Z_NO_FLUSH\<rparr>"
  have lev: "1 \<le> lev" "lev \<le> 9" and w: "working lev D (?d, z)" "in_ok z" and l: "level (d_tune ?d) = lev"
    using assms(1) working_level [of lev D "(d, z)"] by (simp_all add: busy_def) (simp_all add: working_def)
  obtain c where c: "elem config_table lev = Inr c" "conf_func c = (if lev \<le> 3 then FAST else SLOW)" by (rule config_level [OF lev])
  have "z_avail_out z \<noteq> 0" using assms(2) by simp
  then obtain d2 z2 where r: "deflate_with (if lev \<le> 3 then FAST else SLOW) Z_NO_FLUSH (?d, z) = Some (Inr (NeedMore, (d2, z2)))"
    "working lev (D @ input z) (d2, z2)" "in_ok z2" "same_out z z2" "z_avail_in z2 = 0"
    by (rule compress_more [OF w assms(4)])
  have "z_avail_out z2 = 512" using r(4) assms(2) by (simp add: same_out_def)
  then have "deflate_body Z_NO_FLUSH (?d, z) = Some (Inr (Z_OK, (d2, z2)))"
    using assms(3) c l r(1) by (simp add: deflate_body_def lift_def ret_def del: Z_NO_FLUSH_def)
  then have "deflate_deflate Z_NO_FLUSH (d, z) = Some (Inr (Z_OK, (d2, z2)))"
    using deflate_starts [OF assms(1,2), of Z_NO_FLUSH] assms(3) by simp
  moreover have "busy lev (D @ input z) (d2, z2)"
    by (rule busy_same_out [OF r(2-4), of d]) (use assms(1) in \<open>simp add: busy_def\<close>)
  ultimately show thesis using r(4,5) by (intro that)
qed

lemma deflate_ends:
  assumes "busy lev D (d, z)" "z_avail_out z = 512" "z_avail_in z = 0" "produced_out z = []"
  obtains r y bs where "deflate_deflate Z_FINISH (d, z) = Some (Inr (r, y))" "ok_or_end r" "ended y" "drained y" "made y = bs"
    "inflate_rfc (Suc k) (Suc (length D)) bs = Some D"
proof -
  let ?d = "d\<lparr>d_last_flush := Z_FINISH\<rparr>"
  have lev: "1 \<le> lev" "lev \<le> 9" and w: "working lev D (?d, z)" "in_ok z" "out_side (?d, z)" and l: "level (d_tune ?d) = lev"
    and b: "d_status ?d = BUSY_STATE"
    using assms(1) working_level [of lev D "(d, z)"] by (simp_all add: busy_def out_side_def) (simp_all add: working_def)
  obtain c where c: "elem config_table lev = Inr c" "conf_func c = (if lev \<le> 3 then FAST else SLOW)" by (rule config_level [OF lev])
  have room: "z_avail_out z \<noteq> 0" using assms(2) by simp
  obtain d2 z2 bs where r: "deflate_with (if lev \<le> 3 then FAST else SLOW) Z_FINISH (?d, z) =
      Some (Inr (if z_avail_out z2 = 0 then FinishStarted else FinishDone, (d2, z2)))"
    "out_side (d2, z2)" "lookahead (d_win d2) = 0" "z_avail_in z2 = 0" "drained (d2, z2)" "made (d2, z2) = bs"
    "inflate_rfc (Suc k) (Suc (length D)) bs = Some D"
    by (rule compress_last [OF w(1,2) assms(3) room w(3) assms(4)])
  define y where "y = (d2\<lparr>d_status := FINISH_STATE\<rparr>, z2)"
  have y: "ended y" "ended (forget_flush y)" "drained y" "drained (forget_flush y)" "made y = bs"
    using r(2-6) by (simp_all add: y_def ended_def out_side_def drained_def made_def forget_flush_def)
  have "deflate_body Z_FINISH (?d, z) = Some (Inr (if z_avail_out z2 = 0 then (Z_OK, forget_flush y) else (Z_STREAM_END, y)))"
    using c l b r(1) by (simp add: deflate_body_def lift_def ret_def end_result_def y_def)
  then have "deflate_deflate Z_FINISH (d, z) = Some (Inr (if z_avail_out z2 = 0 then (Z_OK, forget_flush y) else (Z_STREAM_END, y)))"
    using deflate_starts [OF assms(1,2), of Z_FINISH] by simp
  then show thesis using y r(7)
    by (cases "z_avail_out z2 = 0") (force intro: that simp: ok_or_end_def)+
qed

section \<open>append and flush\<close>

definition resting :: "int \<Rightarrow> byte list \<Rightarrow> machine \<Rightarrow> bool" where
  "resting lev D x \<longleftrightarrow> busy lev D (fresh x) \<and> z_avail_in (snd x) = 0"

lemma append_short:
  assumes "resting lev D x" "c \<noteq> []" "length (D @ c) \<le> 1907"
  obtains y p where "deflater_append c (obj x) = Some (Inr (Some [], p, obj y))" "resting lev (D @ c) y"
proof -
  let ?z = "(snd x)\<lparr>z_next_in_index := 0, z_next_in := Some c, z_avail_in := int (length c)\<rparr>"
  let ?x = "(fst x, ?z)"
  obtain d z where f: "fresh ?x = (d, z)" by (cases "fresh ?x")
  have z: "input z = c" "z_avail_in z \<noteq> 0" "z_avail_out z = 512" using f assms(2) by (auto simp: fresh_def input_def part_def)
  have b: "busy lev D (fresh x)" using assms(1) by (simp add: resting_def)
  have "busy lev D (d, z)" using b working_stream [of lev D "fst x" "snd (fresh x)" z] f
    by (auto simp: busy_def fresh_def in_ok_def out_side_def out_ok_def)
  from deflate_takes [OF this z(3,2)] assms(3) obtain d2 z2 where
    r: "deflate_deflate Z_NO_FLUSH (d, z) = Some (Inr (Z_OK, (d2, z2)))" "busy lev (D @ c) (d2, z2)" "z_avail_in z2 = 0" "same_out z z2"
    unfolding z(1) by auto
  have o: "z_avail_out z2 = 512" "z_next_out_index z2 = 0" using r(4) f by (auto simp: same_out_def fresh_def)
  then have none: "produced_out z2 = []" by (simp add: produced_out_def split: option.split)
  have d: "dz_deflate Z_NO_FLUSH (fresh_out (obj ?x)) = Some (Inr (Z_OK, obj (d2, z2)))"
    using obj_deflate [OF r(1)] unfolding fresh_simps f .
  have dz: "dz_z (obj (d2, z2)) = z2" by (simp add: obj_def)
  have "\<exists>a. append_round \<lparr>k_s = obj ?x, k_out = [], k_last = 0, k_progress = []\<rparr> = Some (Inr (Back a)) \<and> k_s a = obj (d2, z2) \<and> k_out a = []"
    unfolding append_round_def using d o(1) r(3) none by (simp add: dz ret_def Let_def del: Z_OK_def)
  then obtain a where "loop append_round \<lparr>k_s = obj ?x, k_out = [], k_last = 0, k_progress = []\<rparr> = Some (Inr a)" "k_s a = obj (d2, z2)" "k_out a = []"
    by (auto simp: loop_Back)
  then have "deflater_append c (obj x) = Some (Inr (Some [], k_progress a, obj (d2, z2)))"
    using assms(2) by (simp add: deflater_append_def obj_def ret_def)
  moreover have "fresh (d2, z2) = (d2, z2)" using o by (simp add: fresh_def)
  then have "resting lev (D @ c) (d2, z2)" using r(2,3) by (simp add: resting_def)
  ultimately show thesis by (rule that)
qed

lemma append_all_short:
  assumes "resting lev D x" "length (D @ concat cs) \<le> 1907"
  shows "\<exists>y. append_all cs (obj x) = Some (Inr ([], obj y)) \<and> resting lev (D @ concat cs) y"
  using assms
proof (induction cs arbitrary: D x)
  case Nil
  then show ?case by (intro exI [of _ x]) (simp add: ret_def)
next
  case (Cons c cs)
  obtain y p r where y: "deflater_append c (obj x) = Some (Inr (r, p, obj y))" "(case r of None \<Rightarrow> [] | Some b \<Rightarrow> b) = []" "resting lev (D @ c) y"
  proof (cases "c = []")
    case True
    show thesis by (rule that [of None "[]" x]) (use True Cons.prems in \<open>simp_all add: deflater_append_def ret_def\<close>)
  next
    case False
    have "length (D @ c) \<le> 1907" using Cons.prems(2) by simp
    then obtain y p where "deflater_append c (obj x) = Some (Inr (Some [], p, obj y))" "resting lev (D @ c) y"
      by (rule append_short [OF Cons.prems(1) False])
    then show thesis by (intro that [of "Some []" p y]) simp_all
  qed
  obtain u where "append_all cs (obj y) = Some (Inr ([], obj u))" "resting lev ((D @ c) @ concat cs) u"
    using Cons.IH [OF y(3)] Cons.prems(2) by auto
  then show ?case using y(1,2) by (intro exI [of _ u]) (simp add: ret_def)
qed

lemma flush_short:
  assumes "resting lev D x"
  shows "\<exists>s bs. loop flush_round (obj x, []) = Some (Inr (s, bs)) \<and> inflate_rfc (Suc k) (Suc (length D)) bs = Some D"
proof -
  obtain d z where f: "fresh x = (d, z)" by (cases "fresh x")
  have b: "busy lev D (d, z)" "z_avail_in z = 0" "z_avail_out z = 512" "produced_out z = []"
    using assms f fresh_simps(2,3) [of x] produced_fresh [of x] by (simp_all add: resting_def)
  from deflate_ends [OF b(1,3,2,4), of k] obtain r y bs where
    y: "deflate_deflate Z_FINISH (fresh x) = Some (Inr (r, y))" "ok_or_end r" "ended y" "drained y" "made y = bs"
    "inflate_rfc (Suc k) (Suc (length D)) bs = Some D" unfolding f by blast
  have st: "out_side y" "z_avail_in (snd y) = 0" using y(3) by (simp_all add: ended_def)
  note step = flush_round_eq [OF y(1,2) st(1), of "[]"]
  have "\<exists>s. loop flush_round (obj x, []) = Some (Inr (s, produced_out (snd y) @ unsent (d_out (fst y))))"
  proof (cases "z_avail_out (snd y) = 0")
    case True
    then show ?thesis using step flush_ended [OF y(3), of "produced_out (snd y)"] by (simp add: loop_Go Let_def)
  next
    case False
    then show ?thesis using step st(2) drained_unsent [OF y(4) False] by (simp add: loop_Back Let_def)
  qed
  then show ?thesis using y(5,6) by (auto simp: made_def)
qed

section \<open>A new Deflater\<close>

lemma deflater_new:
  assumes "1 \<le> lev" "lev \<le> 9"
  shows "\<exists>x. Deflater (Some lev) = Inr (obj x) \<and> resting lev [] x"
proof -
  have sh: "js_shl 1 15 = 32768" "js_shl 1 14 = 16384" by (simp_all add: js_shl_def to_int32_nonneg)
  obtain c where c: "elem config_table lev = Inr c" "4 \<le> max_chain c" "max_chain c \<le> 4096" by (rule config_level [OF assms])
  define d0 where "d0 = (new_defl lev 15 8 8 0)\<lparr>d_out := (d_out (new_defl lev 15 8 8 0))\<lparr>pending := 0, pending_out := 0\<rparr>,
    d_status := BUSY_STATE, d_last_flush := Z_NO_FLUSH\<rparr>"
  obtain t l where i: "init_block (d_trees d0) (d_lits d0) = (t, l)" by (cases "init_block (d_trees d0) (d_lits d0)")
  let ?c = "(d_tune d0)\<lparr>level := lev, max_lazy_match := max_lazy c, good_match := good_length c, nice_match := nice_length c,
    max_chain_length := max_chain c\<rparr>"
  let ?w = "(d_win d0)\<lparr>window_size := 2 * w_size (d_win d0), head := fill_slots (hash_size (d_win d0)) 0 (head (d_win d0)),
    strstart := 0, block_start := 0, lookahead := 0, match_length := 2, prev_length := 2, match_available := False, ins_h := 0\<rparr>"
  let ?d = "d0\<lparr>d_out := (d_out d0)\<lparr>bi_buf := 0, bi_valid := 0, last_eob_len := 8\<rparr>, d_trees := t, d_lits := l, d_tune := ?c, d_win := ?w\<rparr>"
  let ?z = "new_ZStream\<lparr>z_data_type := Some Z_UNKNOWN, z_next_out := Some (replicate 512 0)\<rparr>"
  have lv: "level (d_tune d0) = lev" by (simp add: d0_def new_defl_def Let_def)
  have "lm_init (tr_init d0) = Inr ?d" using c(1) lv i by (simp add: lm_init_def tr_init_def in_win_def set_tuning_def)
  then have "deflateInit lev 15 0 0 0 new_ZStream = Inr (Z_OK, Set ?d, new_ZStream\<lparr>z_data_type := Some Z_UNKNOWN\<rparr>)"
    using assms by (simp add: deflateInit_def deflateReset_def d0_def new_ZStream_def del: Z_NO_FLUSH_def)
  then have "Deflater (Some lev) = Inr (obj (?d, ?z))" by (simp add: Deflater_def dz_deflateInit_def obj_def)
  moreover have "resting lev [] (?d, ?z)"
  proof -
    have w: "length (window (d_win d0)) = 65536" "w_size (d_win d0) = 32768" "w_mask (d_win d0) = 32767" "hash_shift (d_win d0) = 5"
      "hash_mask (d_win d0) = 32767" "head (d_win d0) = []" "prev (d_win d0) = []"
      by (simp_all add: d0_def new_defl_def new_matcher_def sh Let_def)
    have "data_in [] ?w" using w by (simp add: data_in_def hash_fixed_def)
    moreover have "tables_ok [] 0 ?w" using w
      by (auto simp: tables_ok_def heads_ok_def links_ok_def link_def slot_at_def arr_at_def fill_slots_def or_zero_def split: if_splits)
    ultimately have pos: "pos_ok [] (d_win ?d)" by (simp add: pos_ok_def)
    have o: "holds_out ((d_out d0)\<lparr>bi_buf := 0, bi_valid := 0, last_eob_len := 8\<rparr>) [] 65536"
      by (simp add: holds_out_def part_def d0_def new_defl_def sh Let_def)
    have l: "d_buf l = 8192" "l_buf l = 49152" "lit_bufsize l = 16384"
      using init_block_freqs [of "d_trees d0" "d_lits d0", unfolded i] i
      by (auto simp: d0_def new_defl_def sh Let_def init_block_def split: prod.splits)
    have "noting lev [] ?d" unfolding noting_def using i o l by (auto intro!: exI [of _ "d_trees d0"] exI [of _ "d_lits d0"])
    moreover have "stands_for [] [] 0" by (simp add: stands_for_def symbols_ok_def)
    ultimately have "noted_upto lev [] 0 ?d" using c(2,3) by (auto simp: noted_upto_def)
    then have "working lev [] (?d, ?z)" using pos assms by (simp add: working_def fast_state_def slow_state_def d0_def)
    then show ?thesis using o by (simp add: resting_def busy_def fresh_def in_ok_def out_side_def out_ok_def new_ZStream_def holds_out_def working_stream)
  qed
  ultimately show ?thesis by blast
qed

text \<open>
  C3. At every level that compresses, a new \<open>Deflater\<close> takes any chunks of at most 1907 bytes in all, \<open>append\<close>
  and \<open>flush\<close> return, and what they return decodes to the data by the rules of RFC 1951, in one block: the search of
  \<open>longest_match\<close> along the hash chains, the greedy choice of \<open>deflate_fast\<close> and the lazy one of \<open>deflate_slow\<close>
  never note a copy that differs from the data.
\<close>

theorem short_data_decoded:
  assumes "1 \<le> lev" "lev \<le> 9" "length (concat cs) \<le> 1907"
  shows "\<exists>out. compressed (Some lev) cs = Some (Inr out) \<and> inflate_rfc 1 (Suc (length (concat cs))) out = Some (concat cs)"
proof -
  obtain x where x: "Deflater (Some lev) = Inr (obj x)" "resting lev [] x" using deflater_new [OF assms(1,2)] by blast
  obtain y where y: "append_all cs (obj x) = Some (Inr ([], obj y))" "resting lev (concat cs) y"
    using append_all_short [OF x(2), of cs] assms(3) by auto
  from flush_short [OF y(2), of 0] show ?thesis
    using x(1) y(1) by (auto simp: compressed_def deflater_flush_def ret_def split_def)
qed

theorem short_data_decoded_witness:
  "\<exists>out. compressed (Some 6) [[1, 2, 3], [1, 2, 3, 1, 2, 3]] = Some (Inr out) \<and>
     inflate_rfc 1 10 out = Some [1, 2, 3, 1, 2, 3, 1, 2, 3]"
  using short_data_decoded [of 6 "[[1, 2, 3], [1, 2, 3, 1, 2, 3]]"] by (simp add: eval_nat_numeral)

end
