(* ===== verification/Inf_Kraft.thy ===== *)
theory Inf_Kraft
  imports Inf_Tree
begin

text \<open>
  Which code lengths \<open>huft_build\<close> (lib/inflate.js) accepts. Its running count \<open>y\<close> of free code words
  is related to the Kraft sum of the lengths; from that, each result code says whether the lengths
  were over-subscribed, incomplete or complete.
\<close>

section \<open>Counts\<close>

lemma elem_Inr_iff: "elem xs i = Inr x \<longleftrightarrow> 0 \<le> i \<and> i < int (length xs) \<and> x = xs ! nat i"
  by (auto simp: elem_def arr_at_def)

lemma count_lengths_spec:
  assumes "count_lengths c bs = Inr c'"
  shows "length c' = length c \<and> (\<forall>b \<in> set bs. 0 \<le> b \<and> b < int (length c)) \<and>
    (\<forall>k < length c. c' ! k = c ! k + int (count_list bs (int k)))"
  using assms
proof (induction c bs rule: count_lengths.induct)
  case (2 c b bs)
  obtain v where v: "elem c b = Inr v" "count_lengths (arr_put c b (v + 1)) bs = Inr c'"
    using "2.prems" by (auto simp: ebind_Inr_iff)
  note b = v(1) [unfolded elem_Inr_iff]
  have l: "length (arr_put c b (v + 1)) = length c" by (simp add: arr_put_def)
  have p: "arr_put c b (v + 1) ! k = c ! k + (if b = int k then 1 else 0)" if "k < length c" for k
    using b that by (auto simp: arr_put_def nth_list_update nat_eq_iff)
  show ?case using "2.IH" [OF v(1) v(2)] l b p by auto
qed simp

section \<open>Kraft sums\<close>

text \<open>How many of the \<open>2 ^ n\<close> bit strings of length \<open>n\<close> start with the code of a value.\<close>

definition kraft :: "nat \<Rightarrow> int list \<Rightarrow> int" where
  "kraft n bs = (\<Sum>b \<leftarrow> bs. if b = 0 then 0 else 2 ^ (n - nat b))"

lemma kraft_counts:
  assumes "\<forall>b \<in> set bs. 0 \<le> b \<and> b \<le> int n"
  shows "kraft n bs = (\<Sum>k = 1..n. int (count_list bs (int k)) * 2 ^ (n - k))"
  using assms
proof (induction bs)
  case (Cons b bs)
  have "(\<Sum>k = 1..n. int (count_list (b # bs) (int k)) * 2 ^ (n - k)) =
    (\<Sum>k = 1..n. int (count_list bs (int k)) * 2 ^ (n - k)) + (\<Sum>k = 1..n. if k = nat b then 2 ^ (n - k) else 0)"
    using Cons.prems unfolding sum.distrib [symmetric]
    by (intro sum.cong) (auto simp: algebra_simps nat_eq_iff)
  also have "(\<Sum>k = 1..n. if k = nat b then 2 ^ (n - k) else 0 :: int) = (if b = 0 then 0 else 2 ^ (n - nat b))"
    using Cons.prems by (auto simp: nat_le_iff)
  finally show ?case using Cons by (simp add: kraft_def)
qed (simp add: kraft_def)

lemma codes_left_spec:
  assumes "j \<le> i" "length c = 16" "i < 16"
    and "\<forall>k < 16. 0 \<le> c ! k"
  shows "codes_left c y (int j) (int i) =
    (let r = y * 2 ^ (i - j) - (\<Sum>k = j..i. c ! k * 2 ^ (i - k)) in if r < 0 then None else Some r)"
  using assms(1)
proof (induction "i - j" arbitrary: j y)
  case 0
  then have "j = i" by simp
  then show ?case using assms by (subst codes_left.simps) (simp add: Let_def)
next
  case (Suc n)
  then have lt: "j < i" and n: "n = i - Suc j" by simp_all
  have s: "(\<Sum>k = j..i. c ! k * 2 ^ (i - k)) = c ! j * 2 ^ (i - j) + (\<Sum>k = Suc j..i. c ! k * 2 ^ (i - k))"
    using lt by (simp add: sum.atLeast_Suc_atMost)
  have p: "(2 :: int) ^ (i - j) = 2 * 2 ^ (i - Suc j)" using lt by (simp flip: power_Suc add: Suc_diff_Suc)
  have IH: "codes_left c (2 * (y - c ! j)) (int (Suc j)) (int i) =
    (let r = 2 * (y - c ! j) * 2 ^ (i - Suc j) - (\<Sum>k = Suc j..i. c ! k * 2 ^ (i - k)) in if r < 0 then None else Some r)"
    using Suc.hyps(1) [OF n] lt by simp
  have eq: "2 * (y - c ! j) * 2 ^ (i - Suc j) - (\<Sum>k = Suc j..i. c ! k * 2 ^ (i - k)) =
    y * 2 ^ (i - j) - (\<Sum>k = j..i. c ! k * 2 ^ (i - k))"
    by (simp add: s p algebra_simps)
  have nonneg: "0 \<le> (\<Sum>k = Suc j..i. c ! k * 2 ^ (i - k))"
    using assms by (intro sum_nonneg) auto
  have neg: "2 * (y - c ! j) * 2 ^ (i - Suc j) < 0" if "y - c ! j < 0"
    using that by (simp add: mult_neg_pos)
  show ?case
    using lt assms IH nonneg neg unfolding eq [symmetric]
    by (subst codes_left.simps) (auto simp: Let_def add.commute)
qed

section \<open>The ends of the range of lengths\<close>

lemma first_used_spec:
  assumes "length c = 16" "j0 \<le> m" "m \<le> 15" "c ! m \<noteq> 0"
  obtains j where "first_used c (int j0) = int j" "j0 \<le> j" "j \<le> m" "c ! j \<noteq> 0" "\<And>k. j0 \<le> k \<Longrightarrow> k < j \<Longrightarrow> c ! k = 0"
proof -
  have "\<exists>j. first_used c (int j0) = int j \<and> j0 \<le> j \<and> j \<le> m \<and> c ! j \<noteq> 0 \<and> (\<forall>k. j0 \<le> k \<and> k < j \<longrightarrow> c ! k = 0)"
    using assms(2)
  proof (induction "m - j0" arbitrary: j0)
    case 0
    then show ?case using assms by (intro exI [of _ m]) (subst first_used.simps, simp)
  next
    case (Suc n)
    show ?case
    proof (cases "c ! j0 = 0")
      case True
      have "n = m - Suc j0" "Suc j0 \<le> m" using Suc by simp_all
      from Suc.hyps(1) [OF this] obtain j where j: "first_used c (int (Suc j0)) = int j" "Suc j0 \<le> j" "j \<le> m" "c ! j \<noteq> 0"
        "\<forall>k. Suc j0 \<le> k \<and> k < j \<longrightarrow> c ! k = 0" by blast
      have "first_used c (int j0) = first_used c (int j0 + 1)"
        using True assms Suc.prems by (subst first_used.simps) simp
      also have "int j0 + 1 = int (Suc j0)" by simp
      finally show ?thesis using j True by (intro exI [of _ j]) (auto simp: Suc_le_eq order_less_le)
    next
      case False
      then show ?thesis using assms Suc.prems by (intro exI [of _ j0]) (subst first_used.simps, simp)
    qed
  qed
  with that show thesis by blast
qed

lemma last_used_spec:
  assumes "length c = 16" "m \<le> i0" "i0 \<le> 15" "c ! m \<noteq> 0" "0 < m"
  obtains i where "last_used c (int i0) = int i" "m \<le> i" "i \<le> i0" "c ! i \<noteq> 0" "\<And>k. i < k \<Longrightarrow> k \<le> i0 \<Longrightarrow> c ! k = 0"
proof -
  have "\<exists>i. last_used c (int i0) = int i \<and> m \<le> i \<and> i \<le> i0 \<and> c ! i \<noteq> 0 \<and> (\<forall>k. i < k \<and> k \<le> i0 \<longrightarrow> c ! k = 0)"
    using assms(2,3)
  proof (induction i0)
    case (Suc i0)
    show ?case
    proof (cases "c ! Suc i0 = 0")
      case True
      then have "m \<le> i0" using assms Suc.prems by (metis le_SucE)
      with Suc obtain i where i: "last_used c (int i0) = int i" "m \<le> i" "i \<le> i0" "c ! i \<noteq> 0"
        "\<forall>k. i < k \<and> k \<le> i0 \<longrightarrow> c ! k = 0" by auto
      have "last_used c (int (Suc i0)) = last_used c (int (Suc i0) - 1)"
        using True assms Suc.prems \<open>m \<le> i0\<close> by (subst last_used.simps) (simp add: arr_at_nat del: of_nat_Suc)
      also have "int (Suc i0) - 1 = int i0" by simp
      finally show ?thesis using i True by (intro exI [of _ i]) (auto simp: le_Suc_eq)
    next
      case False
      then show ?thesis using assms Suc.prems by (intro exI [of _ "Suc i0"]) (subst last_used.simps, simp add: arr_at_nat del: of_nat_Suc)
    qed
  qed (use assms in simp)
  with that show thesis by blast
qed

section \<open>The result code\<close>

lemma count_zero_all: "count_list bs 0 = length bs \<Longrightarrow> \<forall>x \<in> set bs. x = 0"
proof (induction bs)
  case (Cons b bs)
  then show ?case using count_le_length [of bs 0] by (auto split: if_splits)
qed simp

lemma codes_left_kraft:
  assumes cnt: "count_lengths (replicate 16 0) bs = Inr c" and x: "x \<in> set bs" "x \<noteq> 0"
    and j: "first_used c 1 = j" and i: "last_used c BMAX = i"
  shows "codes_left c (2 ^ nat j) j i = None \<longleftrightarrow> 2 ^ 15 < kraft 15 bs"
    and "codes_left c (2 ^ nat j) j i = Some y \<Longrightarrow> kraft 15 bs + y * 2 ^ (15 - nat i) = 2 ^ 15"
    and "i = 1 \<Longrightarrow> set bs \<subseteq> {0, 1}"
proof -
  have len: "length c = 16" and rng: "\<forall>b \<in> set bs. 0 \<le> b \<and> b < 16"
    and ck: "c ! k = int (count_list bs (int k))" if "k < 16" for k
    using count_lengths_spec [OF cnt] that by auto
  have rng: "\<forall>b \<in> set bs. 0 \<le> b \<and> b < 16" using count_lengths_spec [OF cnt] by simp
  define m where "m = nat x"
  have m: "1 \<le> m" "m \<le> 15" "x = int m" using rng x by (auto simp: m_def)
  have cm: "c ! m \<noteq> 0" using ck [of m] m x by (simp add: count_list_0_iff)
  have len: "length c = 16" using count_lengths_spec [OF cnt] by simp
  obtain j' where j': "first_used c (int 1) = int j'" "1 \<le> j'" "j' \<le> m" "c ! j' \<noteq> 0" "\<And>k. 1 \<le> k \<Longrightarrow> k < j' \<Longrightarrow> c ! k = 0"
    by (rule first_used_spec [OF len m(1,2) cm]) (rule that)
  obtain i' where i': "last_used c (int 15) = int i'" "m \<le> i'" "i' \<le> 15" "c ! i' \<noteq> 0" "\<And>k. i' < k \<Longrightarrow> k \<le> 15 \<Longrightarrow> c ! k = 0"
    by (rule last_used_spec [OF len m(2) _ cm]) (use m that in auto)
  have ji: "j = int j'" "i = int i'" using j i j'(1) i'(1) by simp_all
  let ?S = "\<Sum>k = j'..i'. c ! k * 2 ^ (i' - k)"
  have left: "codes_left c (2 ^ nat j) j i = (let r = 2 ^ j' * 2 ^ (i' - j') - ?S in if r < 0 then None else Some r)"
    unfolding ji nat_int using j' i' ck len by (intro codes_left_spec) auto
  have "kraft 15 bs = (\<Sum>k = 1..15. c ! k * 2 ^ (15 - k))"
    using rng by (subst kraft_counts) (auto intro!: sum.cong simp: ck)
  also have "\<dots> = (\<Sum>k = j'..i'. c ! k * 2 ^ (15 - k))"
    using j' i' by (intro sum.mono_neutral_right) (auto simp: not_le)
  also have "\<dots> = ?S * 2 ^ (15 - i')"
    unfolding sum_distrib_right using i'(3)
    by (intro sum.cong refl) (simp add: mult.assoc flip: power_add)
  finally have k: "kraft 15 bs = ?S * 2 ^ (15 - i')" .
  have p: "(2 :: int) ^ 15 = 2 ^ i' * 2 ^ (15 - i')" using i'(3) by (simp flip: power_add)
  have q: "(2 :: int) ^ j' * 2 ^ (i' - j') = 2 ^ i'" using j'(3) i'(2) by (simp flip: power_add)
  have pos: "(0 :: int) < 2 ^ (15 - i')" by simp
  show "codes_left c (2 ^ nat j) j i = None \<longleftrightarrow> 2 ^ 15 < kraft 15 bs"
    unfolding left k p q using pos by (simp add: Let_def)
  show "kraft 15 bs + y * 2 ^ (15 - nat i) = 2 ^ 15" if "codes_left c (2 ^ nat j) j i = Some y"
  proof -
    have y: "y = 2 ^ i' - ?S" using that unfolding left q by (auto simp: Let_def split: if_splits)
    show ?thesis unfolding k p y ji nat_int by (simp add: algebra_simps)
  qed
  show "set bs \<subseteq> {0, 1}" if "i = 1"
  proof
    fix b assume b: "b \<in> set bs"
    then have "0 \<le> b" "b < 16" using rng by auto
    moreover have "\<not> 1 < b"
    proof
      assume "1 < b"
      then have "c ! nat b = 0" using i'(5) [of "nat b"] that ji \<open>b < 16\<close> by auto
      then show False using ck [of "nat b"] b \<open>0 \<le> b\<close> \<open>b < 16\<close> by (simp add: count_list_0_iff)
    qed
    ultimately show "b \<in> {0, 1}" by auto
  qed
qed

lemma case_fitD: "(case r of Overflow h \<Rightarrow> f h | Fits h \<Rightarrow> g h) = t \<Longrightarrow> (\<exists>h. t = f h) \<or> (\<exists>h. t = g h)"
  by (auto split: fit.splits)

lemma kraft_one_bit: "set bs \<subseteq> {0, 1} \<Longrightarrow> kraft 15 bs = int (count_list bs 1) * 2 ^ 14"
  by (induction bs) (auto simp: kraft_def algebra_simps)

text \<open>
  C17. The code lengths that \<open>huft_build\<close> accepts. An over-subscribed set (Kraft sum above 1) is answered with
  \<open>Z_DATA_ERROR\<close> before anything is written to the tables; \<open>Z_BUF_ERROR\<close> is only given for incomplete sets; and
  \<open>Z_OK\<close> only for those of a complete prefix code, for a single code of one bit, and when there is no code at all.
\<close>

theorem huft_build_kraft:
  assumes ret: "huft_build b bindex n s d e m hp hn vsize = Inr t" and bs: "lengths_of b bindex n = Inr bs"
  shows "(2 ^ 15 < kraft 15 bs \<longrightarrow> b_result t = Z_DATA_ERROR \<and> b_hp t = hp) \<and>
    (b_result t = Z_BUF_ERROR \<longrightarrow> kraft 15 bs < 2 ^ 15) \<and>
    (b_result t = Z_OK \<longrightarrow> kraft 15 bs = 2 ^ 15 \<or> set bs \<subseteq> {0, 1} \<and> count_list bs 1 \<le> 1)"
proof -
  obtain c where c: "count_lengths (replicate 16 0) bs = Inr c"
    using ret bs by (auto simp: huft_build_def ebind_Inr_iff)
  have n: "n = int (length bs)" using bs by (auto simp: lengths_of_def split: if_splits)
  have "c ! 0 = int (count_list bs 0)" using count_lengths_spec [OF c] by simp
  then have c0: "c ! 0 = n \<longleftrightarrow> (\<forall>x \<in> set bs. x = 0)" using count_zero_all [of bs] n by (auto simp: count_list_eq_length_filter)
  show ?thesis
  proof (cases "\<forall>x \<in> set bs. x = 0")
    case True
    then have "set bs \<subseteq> {0, 1}" "count_list bs 1 = 0" by (auto simp: count_list_0_iff)
    then show ?thesis using True c0 ret bs c kraft_one_bit [of bs] by (auto simp: huft_build_def)
  next
    case False
    then obtain x where x: "x \<in> set bs" "x \<noteq> 0" by blast
    let ?j = "first_used c 1" and ?i = "last_used c BMAX"
    note k = codes_left_kraft [OF c x refl refl]
    have c0: "c ! 0 \<noteq> n" using c0 False by simp
    show ?thesis
    proof (cases "codes_left c (2 ^ nat ?j) ?j ?i")
      case None
      then have "b_result t = Z_DATA_ERROR \<and> b_hp t = hp"
        using ret bs c c0 by (auto simp: huft_build_def Let_def)
      moreover have "2 ^ 15 < kraft 15 bs" using k(1) None by simp
      ultimately show ?thesis by simp
    next
      case (Some y)
      have le: "kraft 15 bs \<le> 2 ^ 15" using k(1) Some by simp
      have eq: "kraft 15 bs + y * 2 ^ (15 - nat ?i) = 2 ^ 15" using k(2) Some by simp
      have ne: "y \<noteq> 0 \<Longrightarrow> kraft 15 bs \<noteq> 2 ^ 15" using eq by auto
      have one: "set bs \<subseteq> {0, 1} \<Longrightarrow> count_list bs 1 \<le> 1" if "kraft 15 bs < 2 ^ 15"
        using that kraft_one_bit [of bs] by simp
      have "b_result t = Z_DATA_ERROR \<or> b_result t = (if y \<noteq> 0 \<and> ?i \<noteq> 1 then Z_BUF_ERROR else Z_OK)"
        using ret bs c c0 Some by (auto simp: huft_build_def Let_def ebind_Inr_iff dest!: case_fitD split: prod.splits)
      then show ?thesis using le eq ne one k(3) by (auto split: if_splits simp: order_less_le)
    qed
  qed
qed

text \<open>Three codes of one bit are one too many.\<close>

theorem huft_build_kraft_witness:
  "(case huft_build [1, 1, 1] 0 3 3 [] [] 1 [] 0 3 of
      Inl _ \<Rightarrow> False
    | Inr t \<Rightarrow> 2 ^ 15 < kraft 15 [1, 1, 1] \<and> b_result t = Z_DATA_ERROR \<and> b_hp t = [])"
proof -
  have k: "2 ^ 15 < kraft 15 [1, 1, 1]" by (simp add: kraft_def)
  have "\<not> Sum_Type.isl (huft_build [1, 1, 1] 0 3 3 [] [] 1 [] 0 3)" by code_simp
  then obtain t where t: "huft_build [1, 1, 1] 0 3 3 [] [] 1 [] 0 3 = Inr t"
    by (cases "huft_build [1, 1, 1] 0 3 3 [] [] 1 [] 0 3") auto
  have "lengths_of [1, 1, 1] 0 3 = Inr [1, 1, 1]" by code_simp
  from huft_build_kraft [OF t this] k t show ?thesis by simp
qed

end
