(* ===== verification/Spec2Isabelle.thy ===== *)
theory Spec2Isabelle
  imports Mime_Types Sec_Star Zip_Export Defl_Levels Inf_Kraft
begin

text \<open>
  Verification development for the JavaScript of this repository: the SecSTAR viewer of attack
  traces (\<^verbatim>\<open>src/user_agent/fpva/SecSTAR/html\<close>, called \<^verbatim>\<open>html\<close> below) and the archive library it
  loads its data with.

  \<^bold>\<open>The program.\<close> The page \<^verbatim>\<open>html/SecSTAR.js\<close> opens four archives with \<^verbatim>\<open>html/lib/zip-fs.js\<close> (two
  packages, each with its data and its pictures), collects the lines of the trace, and then reacts to
  clicks, drags, loaded pictures and the effect queue of jQuery that plays the frames. \<^verbatim>\<open>zip-fs.js\<close> keeps a
  tree of files in memory, imports it from an archive and exports it again. It stands on
  \<^verbatim>\<open>html/lib/zip.js\<close>, which reads and writes archives over exchangeable readers and writers of bytes and
  pumps data through a compressor, in the page or in a Web Worker. The compressors are
  \<^verbatim>\<open>html/lib/inflate.js\<close> and \<^verbatim>\<open>html/lib/deflate.js\<close>, ports of zlib. \<^verbatim>\<open>html/lib/mime-types.js\<close> gives the
  type of a file by its extension.

  \<^bold>\<open>How JavaScript is modelled.\<close> \<open>Js_Prelude\<close>: strings are lists of UTF-16 code units, bytes are 8-bit
  words; an operation that may throw returns a \<open>run\<close> or a sum with the error on the left, and keeps the
  state it reached, since nothing is rolled back. An asynchronous call returns what its callback, its
  error callback or an uncaught exception gets (\<open>io\<close>, \<open>zres\<close>). Objects with identity that are shared
  are addresses in an explicit heap (the entries of \<^verbatim>\<open>zip-fs.js\<close>, the array of Huffman tables of
  \<^verbatim>\<open>inflate.js\<close>). In \<open>inflate.js\<close> and \<open>deflate.js\<close> numbers are integers and the bitwise operators wrap
  around at 32 bits (\<open>js_shl\<close>, \<open>js_and\<close>, \<open>js_ushr\<close>, \<open>to_int32\<close>). \<open>Js_Loop\<close>: a loop without an evident
  measure is \<open>loop\<close>, a \<open>partial_function\<close> over a step function whose value \<open>None\<close> means that it runs
  for ever; the properties about it say \<open>Some\<close>, or say \<open>None\<close> where the code hangs.

  \<^bold>\<open>The viewer\<close> (\<^verbatim>\<open>SecSTAR.js\<close>): \<open>Sec_Star\<close>. The record \<open>viewer\<close> holds the global variables, the parts of
  the page that are written and the queue of \<open>#canvas\<close>. \<open>load_data\<close>, \<open>show_ui\<close>, \<open>inc_cursor\<close>, \<open>play\<close>
  and the other handlers are functions on it; \<open>ui_step\<close> and \<open>ui_reach\<close> are the events and what they
  reach. Shown: the order of loading does not matter, no sequence of events leaves the ranges of cursor,
  queue and parameters, play shows every frame once, and three defects of play and stop.

  \<^bold>\<open>MIME types\<close> (\<^verbatim>\<open>mime-types.js\<close>): \<open>Mime_Types\<close>, with the whole table. The inverted map is the last
  listing of each extension.

  \<^bold>\<open>The archive library\<close> (\<^verbatim>\<open>zip.js\<close>): \<open>Crc32\<close> (the checksum, equal to the bitwise one, and sensitive to
  each byte), \<open>Text_Codec\<close> (UTF-8, ASCII, MS-DOS dates), \<open>Zip_Bytes\<close> (\<open>DataView\<close>), \<open>Zip_Readers\<close> and
  \<open>Zip_Sinks\<close> (the classes of readers and writers), \<open>Zip_Pump\<close> (\<open>copy\<close>, \<open>launchProcess\<close>,
  \<open>launchWorkerProcess\<close>, \<open>inflate\<close>, \<open>deflate\<close>), \<open>Zip_Reader\<close> (\<open>createZipReader\<close>), \<open>Zip_Writer\<close>
  (\<open>createZipWriter\<close>) and \<open>Zip_Roundtrip\<close> (the reader gets back what the writer was given). The
  interfaces between them are locales: \<open>byte_source\<close> says what a read returns, \<open>byte_sink\<close> and
  \<open>steady_sink\<close> what a write appends, \<open>file_server\<close> what a server answers, and \<open>transfer\<close> joins a source
  and a sink. All classes of readers and writers are interpretations of them, or instances by
  \<open>sublocale\<close>. The messages between page and worker are an \<open>inductive\<close> step relation; every
  interleaving is shown to end, and to end like the loop in the page, unless an exception is thrown. Reader and
  writer of archives run their compressors in the page; there \<open>deflate\<close> loses the level, which \<open>deflate_worker\<close> gets.

  \<^bold>\<open>The archive file system\<close> (\<^verbatim>\<open>zip-fs.js\<close>): \<open>Zip_Fs\<close> has the heap of entries and one definition per
  operation, \<open>Zip_Tree\<close> the invariant \<open>tree_ok\<close> and its preservation by every operation, whether it
  returns or throws, \<open>Zip_Tree_Props\<close> sums, full names and the ends of the loops, and \<open>Zip_Export\<close> what
  export and import do together.

  \<^bold>\<open>Decompression\<close> (\<^verbatim>\<open>inflate.js\<close>): \<open>Inf_Tree\<close> has \<open>huft_build\<close> and the fixed tables, \<open>Inf_Window\<close>
  the circular window and \<open>inflate_flush\<close>, \<open>Inf_Codes\<close> the state machine \<open>InfCodes\<close> with
  \<open>inflate_fast\<close>, \<open>Inf_Blocks\<close> the state machine \<open>InfBlocks\<close>, \<open>Inflate\<close> the outer machine, \<open>ZStream\<close>
  and \<open>Inflater\<close>. \<open>Inf_Queue\<close> shows that \<open>inflate_flush\<close> refines taking bytes from a queue, \<open>Inf_Fixed\<close>
  that the fixed tables decode the code of RFC 1951, \<open>Inf_Kraft\<close> what the result of \<open>huft_build\<close> says
  about the lengths, and \<open>Inf_Stored\<close> follows a chunk of stored blocks, with anything after them, through all the machines
  to what \<open>append\<close> returns: the data, -1, or nothing at all.

  \<^bold>\<open>Compression\<close> (\<^verbatim>\<open>deflate.js\<close>): \<open>Defl_Tables\<close> has the constants and tables, \<open>Defl_Tree\<close> the heap and
  the construction of Huffman trees, \<open>Defl_Block\<close> bits, blocks and the buffer of symbols, \<open>Defl_Window\<close>
  the window, the hash chains and \<open>longest_match\<close>, \<open>Deflate\<close> the three strategies, the stream and
  \<open>Deflater\<close>. \<open>Defl_Ops\<close> holds shared facts. \<open>Defl_Stored\<close> shows that level 0 and the decompressor
  together are the identity, whatever the chunks, and how much level 0 adds. \<open>Defl_Bits\<close> views the
  output as a list of bits (\<open>sent\<close>), \<open>Defl_Symbols\<close> has a decoder of the symbols of RFC 1951
  (\<open>decode_tokens\<close>) and shows what \<open>compress_block\<close> sends for any prefix-free codes, \<open>Defl_Fixed\<close>
  applies this to the fixed code, and shows why it needs the bound on the output, \<open>Defl_Codes\<close> shows that
  \<open>gen_codes\<close> yields the canonical, prefix-free code of given lengths, and \<open>Defl_Dynamic\<close> that a decoder
  of the RFC reads these lengths and then the symbols from a block with its own codes. \<open>Defl_Heap\<close>
  follows the heap and the loop that combines nodes (\<open>growing\<close>), \<open>Defl_Lengths\<close> the lengths that \<open>gen_bitlen\<close>
  gives to the leaves, \<open>Defl_Build\<close> concludes for \<open>build_tree\<close>: for any frequencies it returns with a complete
  code. \<open>Defl_Trees\<close> does the same for the three trees of a block together, and \<open>Defl_Blocks\<close> joins all of
  this: the symbols that the strategies note come out of \<open>_tr_flush_block\<close> as RFC 1951 has them. \<open>Defl_Match\<close>
  shows that \<open>longest_match\<close> ends and finds only repetitions, \<open>Defl_Chains\<close> that the hash chains link equal strings
  while the data fill the window, \<open>Defl_Expand\<close> what literals and copies stand for, and \<open>Defl_Rounds\<close> has the locale
  \<open>strategy\<close>: the rounds of a strategy whose steps keep the symbols noted in agreement with the data take in all
  data; \<open>deflate_fast\<close> and \<open>deflate_slow\<close> are interpretations. \<open>Defl_Short\<close> has a decoder of RFC 1951
  (\<open>inflate_rfc\<close>) for whole streams and follows \<open>deflate\<close> to the end of the stream, and \<open>Defl_Levels\<close> does so for
  \<open>append\<close> and \<open>flush\<close> of a \<open>Deflater\<close>: at every level short data come back.

  \<^bold>\<open>Bounds and fuel.\<close> \<open>decode_tokens\<close> takes a bound on the number of symbols; the properties give it
  one more than there are, for the end of the block. A block of the fixed code is right up to 4368
  symbols with the buffers of \<open>deflateInit\<close>, since its output overtakes its own symbols only after
  that; \<open>encode_block\<close> would be wrong for a certain block of 4371 symbols, to which \<open>_tr_flush_block\<close> gives its own
  codes. A block with its own codes is right up to 1907. Hence
  data of up to 1907 bytes, which make no more symbols, are one block that comes out right at levels 1 to 9, whatever
  they are; for longer data the output may overtake its symbols. \<open>inflate_rfc\<close> takes a bound on the number of blocks,
  one here, and on the symbols of each. Loops over a known number of elements recurse on that
  number. Chunks of \<open>copy\<close> are of 512 KB, output buffers of \<open>append\<close> of 512 bytes, as in the code.

  \<^bold>\<open>Parameters.\<close> Servers, file entries of the browser, clocks and the text decoder of a \<open>FileReader\<close> are
  arguments of the definitions that use them, and so is the compressor in \<open>Zip_Pump\<close>; the hypotheses
  say what the code relies on.

  \<^bold>\<open>Not modelled.\<close> The html directories of \<^verbatim>\<open>mist_tool\<close> and \<^verbatim>\<open>sc2012_demo\<close> hold the same files as that of
  \<^verbatim>\<open>fpva\<close>, byte by byte. jQuery and jQuery UI are vendored; of them only the effect queue
  is modelled. The agent and the injector are C++ on ptrace and Dyninst. Left out are progress
  callbacks, an archive reader or writer with \<open>zip.useWebWorkers\<close> set (the transfers with a worker are modelled
  by themselves, and end alike), \<open>VizPkg.dump\<close>, which only prints, moving entries between two file systems, an archive
  writer that is called again before the last call has come back, and the test of \<open>next_in\<close> in
  \<open>inflate\<close>, which \<open>append\<close> always sets before. Data beyond the first block are followed
  through the compressor at level 0 only, and the round trip through \<open>Inflater\<close> is shown for stored blocks; for the others the
  decoder is that of the RFC. The codes are complete and within their bounds; that no others would be
  shorter is not shown.
\<close>

end
